(* ===== verification/JH_Prelude.thy ===== *)
theory JH_Prelude
  imports Main "HOL-Library.Word"
begin

text \<open>
  What every component of the library shares: the bytes and machine integers of the C++ code,
  the ways in which a call can fail to return (\<^verbatim>\<open>fault\<close>), sequencing of
  calls that may fail, bounded memory copies, and generic facts about lists and modular
  indices that the component proofs use.
\<close>

section \<open>Machine types\<close>

type_synonym byte = "8 word"
type_synonym u32 = "32 word"

section \<open>Calls that do not return normally\<close>

text \<open>
  \<open>UndefinedBehaviour\<close>: the code dereferences a pointer outside the object it points into (or a
  null pointer). \<open>Fatal\<close>: the code reaches \<open>LOG_ERR_FATAL\<close> or \<open>abort()\<close>. \<open>LengthError\<close> and
  \<open>OutOfRange\<close>: the exceptions \<open>std::length_error\<close> and \<open>std::out_of_range\<close> that the standard
  string raises. \<open>NoReturn\<close>: the loop modelled has used up its bound on iterations; every loop
  with a bound has a lemma that the bound given is enough.
\<close>

datatype fault = UndefinedBehaviour | Fatal | LengthError | OutOfRange | NoReturn

type_synonym 'a outcome = "fault + 'a"

definition andThen :: "'a outcome \<Rightarrow> ('a \<Rightarrow> 'b outcome) \<Rightarrow> 'b outcome" where
  "andThen m f = (case m of Inl e \<Rightarrow> Inl e | Inr x \<Rightarrow> f x)"

lemma andThen_simps [simp]:
  "andThen (Inr x) f = f x"
  "andThen (Inl e) f = Inl e"
  by (simp_all add: andThen_def)

lemma andThen_Inr_iff: "andThen m f = Inr y \<longleftrightarrow> (\<exists>x. m = Inr x \<and> f x = Inr y)"
  by (cases m) auto

lemma andThen_assoc: "andThen (andThen m f) g = andThen m (\<lambda>x. andThen (f x) g)"
  by (cases m) auto

named_theorems jh_inv \<open>invariants of the components and their preservation\<close>

section \<open>A loop over the elements of a list\<close>

fun fold_outcome :: "('s \<Rightarrow> 'a \<Rightarrow> 's outcome) \<Rightarrow> 's \<Rightarrow> 'a list \<Rightarrow> 's outcome" where
  "fold_outcome body s [] = Inr s"
| "fold_outcome body s (x # xs) = andThen (body s x) (\<lambda>s. fold_outcome body s xs)"

lemma fold_outcome_pure: "fold_outcome (\<lambda>s x. Inr (f s x)) s xs = Inr (foldl f s xs)"
  by (induction xs arbitrary: s) auto

lemma fold_outcome_append: "fold_outcome body s (xs @ ys) = andThen (fold_outcome body s xs) (\<lambda>s. fold_outcome body s ys)"
  by (induction xs arbitrary: s) (auto simp: andThen_assoc)

section \<open>Bounded memory copies\<close>

text \<open>
  \<open>memcpy_bytes dst d src s n\<close> is \<open>memcpy\<close> of \<open>n\<close> bytes from offset \<open>s\<close> of one array to offset
  \<open>d\<close> of another one; an access outside either array is undefined behaviour.
\<close>

definition memcpy_bytes :: "'a list \<Rightarrow> int \<Rightarrow> 'a list \<Rightarrow> int \<Rightarrow> int \<Rightarrow> 'a list outcome" where
  "memcpy_bytes dst d src s n =
     (if 0 \<le> n \<and> 0 \<le> d \<and> d + n \<le> int (length dst) \<and> 0 \<le> s \<and> s + n \<le> int (length src)
      then Inr (take (nat d) dst @ take (nat n) (drop (nat s) src) @ drop (nat (d + n)) dst)
      else Inl UndefinedBehaviour)"

lemma memcpy_bytes_ok:
  assumes "0 \<le> n" "0 \<le> d" "d + n \<le> int (length dst)" "0 \<le> s" "s + n \<le> int (length src)"
  shows "memcpy_bytes dst d src s n =
    Inr (take (nat d) dst @ take (nat n) (drop (nat s) src) @ drop (nat (d + n)) dst)"
  using assms by (simp add: memcpy_bytes_def)

lemma memcpy_bytes_length:
  "memcpy_bytes dst d src s n = Inr r \<Longrightarrow> length r = length dst"
  by (auto simp: memcpy_bytes_def nat_add_distrib split: if_splits)

lemma memcpy_bytes_nth:
  assumes "memcpy_bytes dst d src s n = Inr r" and "j < length dst"
  shows "r ! j = (if d \<le> int j \<and> int j < d + n then src ! nat (s + int j - d) else dst ! j)"
proof -
  from assms(1) have b: "0 \<le> n" "0 \<le> d" "d + n \<le> int (length dst)" "0 \<le> s" "s + n \<le> int (length src)"
    and r: "r = take (nat d) dst @ take (nat n) (drop (nat s) src) @ drop (nat (d + n)) dst"
    by (auto simp: memcpy_bytes_def split: if_splits)
  obtain d' n' s' where [simp]: "d = int d'" "n = int n'" "s = int s'"
    using b by (metis nonneg_int_cases)
  have len: "d' + n' \<le> length dst" "s' + n' \<le> length src"
    using b by auto
  have dn: "nat (int d' + int n') = d' + n'"
    by (simp add: nat_add_distrib)
  show ?thesis
  proof (cases "j < d'")
    case True
    then show ?thesis using len assms(2) by (simp add: r nth_append)
  next
    case False
    then obtain k where k: "j = d' + k"
      using le_Suc_ex by (metis not_less)
    have e: "nat (int s' + int j - int d') = s' + k"
      using k by simp
    show ?thesis
    proof (cases "k < n'")
      case True
      then show ?thesis using len k e dn by (simp add: r nth_append)
    next
      case False
      then have "(j - (d' + n')) + (d' + n') = j" using k by simp
      then show ?thesis using False len k e dn assms(2)
        by (simp add: r nth_append add.commute add.left_commute)
    qed
  qed
qed

section \<open>Lists and indices\<close>

lemma less_unat_int: "i < unat w \<longleftrightarrow> int i < uint w"
  by (metis of_nat_less_iff uint_nat)

lemma nth_equalityI_upt:
  "length xs = n \<Longrightarrow> (\<And>i. i < n \<Longrightarrow> xs ! i = f i) \<Longrightarrow> map f [0..<n] = xs"
  by (auto intro!: nth_equalityI)

text \<open>Positions of a ring: an offset below twice the size wraps at most once.\<close>

lemma ring_mod:
  assumes "(0::int) < n" "0 \<le> x" "x < 2 * n"
  shows "x mod n = (if x < n then x else x - n)"
proof (cases "x < n")
  case True
  then show ?thesis using assms by (simp add: mod_pos_pos_trivial)
next
  case False
  have "x mod n = (x - n) mod n" by simp
  also have "\<dots> = x - n" using False assms by (intro mod_pos_pos_trivial) auto
  finally show ?thesis using False by simp
qed

end
