(* ===== verification/CircularBuffer.thy ===== *)
theory CircularBuffer
  imports JH_Prelude
begin

text \<open>
  The byte ring of src/include/CircularBuffer.h and src/src/CircularBuffer.cpp. Pointers into
  the buffer are kept as offsets from \<^verbatim>\<open>mBuffer\<close>, so \<^verbatim>\<open>mEnd\<close> is the offset \<^verbatim>\<open>mBufferSize\<close>;
  \<^verbatim>\<open>mLen\<close> keeps its 32 bits. A condition variable is the number of broadcasts it has
  received. Each public call runs under the recursive lock of the object and is one step here.
  The abstraction \<^verbatim>\<open>cb_contents\<close> reads the ring as the list of unread bytes, oldest first.
\<close>

section \<open>State\<close>

record cbuf =
  mBuffer :: "byte list"
  mReadPtr :: int
  mWritePtr :: int
  mBufferSize :: int
  mLen :: u32
  mDataCondition :: nat
  mFreeCondition :: nat
  mFreeBuffer :: bool

definition mEnd :: "cbuf \<Rightarrow> int" where
  "mEnd c = mBufferSize c"

definition CircularBuffer_wrap :: "byte list \<Rightarrow> int \<Rightarrow> cbuf" where
  "CircularBuffer_wrap buffer buf_size =
     \<lparr>mBuffer = buffer, mReadPtr = 0, mWritePtr = 0, mBufferSize = buf_size, mLen = 0,
      mDataCondition = 0, mFreeCondition = 0, mFreeBuffer = False\<rparr>"

text \<open>\<open>new uint8_t[n]\<close> leaves the bytes uninitialised: \<open>heap\<close> says what they hold.\<close>

definition CircularBuffer_new :: "(nat \<Rightarrow> byte) \<Rightarrow> int \<Rightarrow> cbuf" where
  "CircularBuffer_new heap buf_size =
     \<lparr>mBuffer = map heap [0..<nat buf_size], mReadPtr = 0, mWritePtr = 0,
      mBufferSize = buf_size, mLen = 0,
      mDataCondition = 0, mFreeCondition = 0, mFreeBuffer = True\<rparr>"

section \<open>Operations\<close>

definition cb_length_internal :: "cbuf \<Rightarrow> int" where
  "cb_length_internal c = sint (mLen c)"

definition cb_getFreeSpace :: "cbuf \<Rightarrow> int" where
  "cb_getFreeSpace c = mBufferSize c - cb_length_internal c"

definition cb_getLength :: "cbuf \<Rightarrow> int" where
  "cb_getLength c = cb_length_internal c"

definition cb_getSize :: "cbuf \<Rightarrow> int" where
  "cb_getSize c = mBufferSize c"

definition cb_add_length_internal :: "cbuf \<Rightarrow> u32 \<Rightarrow> cbuf outcome" where
  "cb_add_length_internal c sz =
     (if sz > word_of_int (mBufferSize c) - mLen c then Inl Fatal
      else let c = c\<lparr>mLen := mLen c + sz\<rparr> in
           Inr (if mReadPtr c = mEnd c then c\<lparr>mReadPtr := 0\<rparr> else c))"

definition cb_subtract_length_internal :: "cbuf \<Rightarrow> u32 \<Rightarrow> cbuf outcome" where
  "cb_subtract_length_internal c sz =
     (if sz > mLen c then Inl Fatal
      else let c = c\<lparr>mLen := mLen c - sz\<rparr> in
           Inr (if mWritePtr c = mEnd c then c\<lparr>mWritePtr := 0\<rparr> else c))"

text \<open>
  \<open>bufferCopy\<close> ignores null pointers and sizes that are not positive. Its test for source and
  destination being the same address is left out: copying bytes onto themselves changes nothing.
\<close>

definition cb_bufferCopy ::
  "byte list option \<Rightarrow> int \<Rightarrow> byte list option \<Rightarrow> int \<Rightarrow> int \<Rightarrow> byte list option outcome" where
  "cb_bufferCopy dest d src s sz =
     (case (dest, src) of
        (Some to, Some from) \<Rightarrow>
          if sz \<le> 0 then Inr (Some to)
          else andThen (memcpy_bytes to d from s sz) (\<lambda>r. Inr (Some r))
      | _ \<Rightarrow> Inr dest)"

text \<open>The destination of a write is the ring itself, at its write pointer.\<close>

definition cb_copy_in :: "cbuf \<Rightarrow> byte list \<Rightarrow> int \<Rightarrow> int \<Rightarrow> cbuf outcome" where
  "cb_copy_in c src s sz =
     andThen (cb_bufferCopy (Some (mBuffer c)) (mWritePtr c) (Some src) s sz)
       (\<lambda>r. Inr (case r of Some b \<Rightarrow> c\<lparr>mBuffer := b\<rparr> | None \<Rightarrow> c))"

definition cb_write_internal :: "cbuf \<Rightarrow> byte list option \<Rightarrow> int \<Rightarrow> (int \<times> cbuf) outcome" where
  "cb_write_internal c buffer sz =
     (case buffer of None \<Rightarrow> Inr (0, c) | Some src \<Rightarrow>
      (let sz = (if sz > cb_getFreeSpace c then cb_getFreeSpace c else sz) in
       if sz = 0 then Inr (0, c) else
       let tail_size = (if mEnd c - mWritePtr c > sz then sz else mEnd c - mWritePtr c) in
       andThen (cb_copy_in c src 0 tail_size) (\<lambda>c.
       let c = c\<lparr>mWritePtr := mWritePtr c + tail_size\<rparr>;
           c = (if mWritePtr c = mEnd c then c\<lparr>mWritePtr := 0\<rparr> else c)
       in
       andThen (if tail_size < sz
                then let head_size = sz - tail_size in
                     andThen (cb_copy_in c src tail_size head_size)
                       (\<lambda>c. Inr (c\<lparr>mWritePtr := mWritePtr c + head_size\<rparr>))
                else Inr c) (\<lambda>c.
       andThen (cb_add_length_internal c (word_of_int sz)) (\<lambda>c.
       Inr (sz, c\<lparr>mDataCondition := Suc (mDataCondition c)\<rparr>))))))"

definition cb_write :: "cbuf \<Rightarrow> byte list option \<Rightarrow> int \<Rightarrow> (int \<times> cbuf) outcome" where
  "cb_write c buffer sz = cb_write_internal c buffer sz"

text \<open>\<open>read\<close> copies into the caller's array (or nowhere, when it is null) and returns it too.\<close>

definition cb_read ::
  "cbuf \<Rightarrow> byte list option \<Rightarrow> int \<Rightarrow> (int \<times> byte list option \<times> cbuf) outcome" where
  "cb_read c buffer sz =
     (let sz = (if sz > cb_length_internal c then cb_length_internal c else sz) in
      if sz = 0 then Inr (0, buffer, c) else
      let tail_size = (if mEnd c - mReadPtr c > sz then sz else mEnd c - mReadPtr c) in
      andThen (cb_bufferCopy buffer 0 (Some (mBuffer c)) (mReadPtr c) tail_size) (\<lambda>buffer.
      let c = c\<lparr>mReadPtr := mReadPtr c + tail_size\<rparr> in
      andThen (if tail_size < sz
               then let head_size = sz - tail_size in
                    andThen (case buffer of None \<Rightarrow> Inr None
                             | Some _ \<Rightarrow> cb_bufferCopy buffer tail_size (Some (mBuffer c)) 0 head_size)
                      (\<lambda>buffer. Inr (buffer, c\<lparr>mReadPtr := head_size\<rparr>))
               else Inr (buffer, c)) (\<lambda>(buffer, c).
      andThen (cb_subtract_length_internal c (word_of_int sz)) (\<lambda>c.
      Inr (sz, buffer, c\<lparr>mFreeCondition := Suc (mFreeCondition c)\<rparr>)))))"

definition cb_write_overflow :: "cbuf \<Rightarrow> byte list \<Rightarrow> int \<Rightarrow> (int \<times> cbuf) outcome" where
  "cb_write_overflow c buffer sz =
     (let offset = (if sz > mBufferSize c then sz - mBufferSize c else 0);
          sz = (if sz > mBufferSize c then mBufferSize c else sz);
          read_size = sz - cb_getFreeSpace c
      in
      andThen (if read_size > 0 then andThen (cb_read c None read_size) (\<lambda>(_, _, c). Inr c)
               else Inr c) (\<lambda>c.
      andThen (cb_write_internal c (Some (drop (nat offset) buffer)) sz) (\<lambda>(n, c).
      Inr (n + offset, c))))"

definition cb_clear :: "cbuf \<Rightarrow> cbuf" where
  "cb_clear c = c\<lparr>mWritePtr := 0, mReadPtr := 0, mLen := 0,
               mFreeCondition := Suc (mFreeCondition c)\<rparr>"

text \<open>A pointer into the ring is its offset; \<open>None\<close> is the null pointer.\<close>

definition cb_getBytesInternal :: "cbuf \<Rightarrow> int \<Rightarrow> (int option \<times> int) outcome" where
  "cb_getBytesInternal c i =
     (let (res, sz) =
        (if i < cb_length_internal c then
           let res = mReadPtr c + i in
           if mReadPtr c \<ge> mWritePtr c then
             if res \<ge> mEnd c
             then let res = res - mEnd c in (Some res, mWritePtr c - res)
             else (Some res, mEnd c - res)
           else (Some res, mWritePtr c - res)
         else (None, 0))
      in if sz \<ge> 0 then Inr (res, sz) else Inl Fatal)"

definition cb_getBytes :: "cbuf \<Rightarrow> int \<Rightarrow> (int option \<times> int) outcome" where
  "cb_getBytes c i = cb_getBytesInternal c i"

definition cb_byte_at_offset :: "cbuf \<Rightarrow> int \<Rightarrow> byte outcome" where
  "cb_byte_at_offset c p =
     (if 0 \<le> p \<and> p < int (length (mBuffer c)) then Inr (mBuffer c ! nat p)
      else Inl UndefinedBehaviour)"

definition cb_byteAt :: "cbuf \<Rightarrow> int \<Rightarrow> int outcome" where
  "cb_byteAt c i =
     andThen (cb_getBytes c i) (\<lambda>(res, _).
       case res of None \<Rightarrow> Inr (-1)
       | Some p \<Rightarrow> andThen (cb_byte_at_offset c p) (\<lambda>b. Inr (uint b)))"

text \<open>
  \<open>copy\<close> peeks: \<open>memcpy\<close> from the segment at the read pointer and, when the data wraps, from the
  segment at the start. A \<open>memcpy\<close> of no bytes does not follow its source pointer.
\<close>

definition cb_copy_segment ::
  "cbuf \<Rightarrow> byte list \<Rightarrow> int \<Rightarrow> int option \<Rightarrow> int \<Rightarrow> byte list outcome" where
  "cb_copy_segment c dst d src n =
     (if n = 0 then Inr dst
      else case src of None \<Rightarrow> Inl UndefinedBehaviour
           | Some p \<Rightarrow> memcpy_bytes dst d (mBuffer c) p n)"

definition cb_copy :: "cbuf \<Rightarrow> byte list \<Rightarrow> int \<Rightarrow> (int \<times> byte list) outcome" where
  "cb_copy c buffer sz =
     (let sz = (if sz > cb_length_internal c then cb_length_internal c else sz) in
      andThen (cb_getBytesInternal c 0) (\<lambda>(src, start_size).
      let start_size = (if start_size > sz then sz else start_size) in
      andThen (cb_copy_segment c buffer 0 src start_size) (\<lambda>buffer.
      if start_size < sz then
        let end_size = sz - start_size in
        andThen (cb_getBytesInternal c start_size) (\<lambda>(src, _).
        andThen (cb_copy_segment c buffer start_size src end_size) (\<lambda>buffer.
        Inr (sz, buffer)))
      else Inr (sz, buffer))))"

text \<open>
  The reader of \<open>fillFromFile\<close> is the environment: asked for \<open>n\<close> bytes it answers with the code
  that \<open>IReaderWriter::read\<close> returns and the bytes it has stored.
\<close>

definition cb_fillFromFile ::
  "cbuf \<Rightarrow> (int \<Rightarrow> int \<times> byte list) \<Rightarrow> int \<Rightarrow> (int \<times> cbuf) outcome" where
  "cb_fillFromFile c reader sz =
     (let sz = (if sz > cb_getFreeSpace c then cb_getFreeSpace c else sz) in
      if sz = 0 then Inr (0, c) else
      let read_size = (if mReadPtr c > mWritePtr c then sz
                       else if sz > mEnd c - mWritePtr c then mEnd c - mWritePtr c else sz);
          (res, bytes) = reader read_size
      in
      if res < 0 then Inr (res, c) else
      andThen (memcpy_bytes (mBuffer c) (mWritePtr c) bytes 0 (int (length bytes))) (\<lambda>b.
      let wrapped = mReadPtr c > mWritePtr c;
          c = c\<lparr>mBuffer := b, mWritePtr := mWritePtr c + res\<rparr>;
          c = (if \<not> wrapped \<and> mWritePtr c = mEnd c then c\<lparr>mWritePtr := 0\<rparr> else c)
      in
      andThen (cb_add_length_internal c (word_of_int res)) (\<lambda>c.
      Inr (res, c\<lparr>mDataCondition := Suc (mDataCondition c)\<rparr>))))"

definition cb_writeByte :: "cbuf \<Rightarrow> byte \<Rightarrow> (int \<times> cbuf) outcome" where
  "cb_writeByte c byte =
     (if cb_getFreeSpace c = 0 then Inr (-1, c) else
      andThen (cb_byte_at_offset c (mWritePtr c)) (\<lambda>_.
      let c = c\<lparr>mBuffer := (mBuffer c)[nat (mWritePtr c) := byte], mWritePtr := mWritePtr c + 1\<rparr> in
      andThen (cb_add_length_internal c 1) (\<lambda>c.
      let c = (if mWritePtr c = mEnd c then c\<lparr>mWritePtr := 0\<rparr> else c) in
      Inr (0, c\<lparr>mDataCondition := Suc (mDataCondition c)\<rparr>))))"

text \<open>
  \<open>peekLine\<close>: a \<open>uint8_t\<close> is compared with a (signed) \<open>char\<close> of the terminal, a C string that
  ends with a NUL. The loop bound \<open>fuel\<close> counts iterations: going round the ring once more than the
  terminal has states either meets the terminal or never does.
\<close>

definition terminal_at :: "byte list \<Rightarrow> nat \<Rightarrow> int" where
  "terminal_at terminal k = (if k < length terminal then sint (terminal ! k) else 0)"

fun cb_peek_loop :: "nat \<Rightarrow> cbuf \<Rightarrow> byte list \<Rightarrow> int \<Rightarrow> nat \<Rightarrow> int option outcome" where
  "cb_peek_loop 0 c terminal ptr state = Inl NoReturn"
| "cb_peek_loop (Suc fuel) c terminal ptr state =
     andThen (cb_byte_at_offset c ptr) (\<lambda>b.
     let state = (if uint b = terminal_at terminal state then state + 1 else 0) in
     if state = length terminal then Inr (Some ptr)
     else let ptr = ptr + 1; ptr = (if ptr = mEnd c then 0 else ptr) in
          if ptr \<noteq> mWritePtr c then cb_peek_loop fuel c terminal ptr state else Inr None)"

text \<open>\<open>string::assign\<close> and \<open>string::append\<close> of \<open>n\<close> bytes of the ring; a negative count is a huge \<open>size_t\<close>.\<close>

definition cb_string_part :: "cbuf \<Rightarrow> int \<Rightarrow> int \<Rightarrow> byte list outcome" where
  "cb_string_part c p n =
     (if n < 0 then Inl LengthError
      else if 0 \<le> p \<and> p + n \<le> int (length (mBuffer c))
      then Inr (take (nat n) (drop (nat p) (mBuffer c)))
      else Inl UndefinedBehaviour)"

definition cb_peekLine :: "cbuf \<Rightarrow> byte list \<Rightarrow> byte list \<Rightarrow> (int \<times> byte list) outcome" where
  "cb_peekLine c line terminal =
     (let term_len = int (length terminal) in
      if mLen c = 0 then Inr (0, line) else
      andThen (cb_peek_loop (Suc (nat (mBufferSize c) * Suc (length terminal))) c terminal (mReadPtr c) 0) (\<lambda>found.
      case found of None \<Rightarrow> Inr (0, line)
      | Some ptr \<Rightarrow>
        let ptr = ptr + 1 in
        andThen
          (if ptr < mReadPtr c
           then andThen (cb_string_part c (mReadPtr c) (mEnd c - mReadPtr c)) (\<lambda>a.
                andThen (cb_string_part c 0 (ptr - term_len)) (\<lambda>b. Inr (a @ b)))
           else cb_string_part c (mReadPtr c) (ptr - mReadPtr c - term_len)) (\<lambda>line.
        Inr (int (length line) + term_len, line))))"

definition cb_getLine :: "cbuf \<Rightarrow> byte list \<Rightarrow> byte list \<Rightarrow> (int \<times> byte list \<times> cbuf) outcome" where
  "cb_getLine c line terminal =
     andThen (cb_peekLine c line terminal) (\<lambda>(n, line).
     andThen (cb_read c None n) (\<lambda>(res, _, c). Inr (res, line, c)))"

section \<open>Invariant and abstraction\<close>

text \<open>
  The read pointer may rest at \<open>mEnd\<close> after a read that ends there. The write pointer may rest
  there too, in one case: \<open>fillFromFile\<close> has filled the ring up from behind such a read pointer.
\<close>

definition cb_inv :: "cbuf \<Rightarrow> bool" where
  "cb_inv c \<longleftrightarrow>
     0 < mBufferSize c \<and> mBufferSize c < 2 ^ 31 \<and>
     int (length (mBuffer c)) = mBufferSize c \<and>
     0 \<le> mReadPtr c \<and> mReadPtr c \<le> mBufferSize c \<and>
     0 \<le> mWritePtr c \<and> mWritePtr c \<le> mBufferSize c \<and>
     uint (mLen c) \<le> mBufferSize c \<and>
     (mReadPtr c = mBufferSize c \<longrightarrow> uint (mLen c) < mBufferSize c) \<and>
     (mWritePtr c = mBufferSize c \<longrightarrow> uint (mLen c) = mBufferSize c \<and> mReadPtr c = 0) \<and>
     (mReadPtr c + uint (mLen c)) mod mBufferSize c = mWritePtr c mod mBufferSize c"

definition cb_contents :: "cbuf \<Rightarrow> byte list" where
  "cb_contents c =
     map (\<lambda>i. mBuffer c ! nat ((mReadPtr c + int i) mod mBufferSize c)) [0..<unat (mLen c)]"

lemma length_cb_contents [simp]: "length (cb_contents c) = unat (mLen c)"
  by (simp add: cb_contents_def)

lemma cb_inv_length_internal:
  assumes "cb_inv c"
  shows "cb_length_internal c = uint (mLen c)"
proof -
  have "uint (mLen c) < 2 ^ 31"
    using assms by (simp add: cb_inv_def)
  moreover have "0 \<le> uint (mLen c)" by simp
  ultimately have "signed_take_bit 31 (uint (mLen c)) = uint (mLen c)"
    by (intro signed_take_bit_int_eq_self) linarith+
  then show ?thesis
    by (simp add: cb_length_internal_def sint_uint)
qed

lemma cb_length_contents:
  "cb_inv c \<Longrightarrow> cb_length_internal c = int (length (cb_contents c))"
  by (simp add: cb_inv_length_internal)

lemma cb_free_contents:
  "cb_inv c \<Longrightarrow> cb_getFreeSpace c = mBufferSize c - int (length (cb_contents c))"
  by (simp add: cb_getFreeSpace_def cb_length_contents)

lemma cb_nth_contents:
  "i < unat (mLen c) \<Longrightarrow>
   cb_contents c ! i = mBuffer c ! nat ((mReadPtr c + int i) mod mBufferSize c)"
  by (simp add: cb_contents_def)

text \<open>Arithmetic on the 32-bit length, as long as it stays within the buffer size.\<close>

lemma uint_word_of_int_small:
  "0 \<le> n \<Longrightarrow> n < 2 ^ 32 \<Longrightarrow> uint (word_of_int n :: u32) = n"
  by (simp add: uint_word_of_int mod_pos_pos_trivial)

lemma cb_add_length:
  assumes "cb_inv c" "0 \<le> n" "uint (mLen c) + n \<le> mBufferSize c"
    and "mLen d = mLen c" "mBufferSize d = mBufferSize c"
  shows "cb_add_length_internal d (word_of_int n) =
     Inr (d\<lparr>mLen := mLen c + word_of_int n,
            mReadPtr := (if mReadPtr d = mEnd d then 0 else mReadPtr d)\<rparr>)"
    and "uint (mLen c + word_of_int n) = uint (mLen c) + n"
proof -
  have b: "mBufferSize c < 2 ^ 31" "0 < mBufferSize c" "uint (mLen c) \<le> mBufferSize c"
    using assms(1) by (auto simp: cb_inv_def)
  have un: "uint (word_of_int n :: u32) = n"
  proof (rule uint_word_of_int_small)
    have "n < 2 ^ 31" using assms(3) b uint_ge_0 [of "mLen c"] by linarith
    then show "n < 2 ^ 32" by simp
  qed (rule assms(2))
  have us: "uint (word_of_int (mBufferSize c) :: u32) = mBufferSize c"
    using b by (intro uint_word_of_int_small) auto
  have sub: "uint (word_of_int (mBufferSize c) - mLen c :: u32) = mBufferSize c - uint (mLen c)"
    using b us by (subst uint_sub_lem [THEN iffD1]) (auto simp: us)
  show "uint (mLen c + word_of_int n) = uint (mLen c) + n"
    using assms b un by (subst uint_add_lem [THEN iffD1]) (auto simp: un)
  have "\<not> word_of_int n > word_of_int (mBufferSize c) - mLen c"
    using assms(3) un sub by (simp add: word_less_def)
  then show "cb_add_length_internal d (word_of_int n) =
     Inr (d\<lparr>mLen := mLen c + word_of_int n,
            mReadPtr := (if mReadPtr d = mEnd d then 0 else mReadPtr d)\<rparr>)"
    using assms(4,5) by (simp add: cb_add_length_internal_def mEnd_def)
qed

lemma cb_subtract_length:
  assumes "cb_inv c" "0 \<le> n" "n \<le> uint (mLen c)" and "mLen d = mLen c"
  shows "cb_subtract_length_internal d (word_of_int n) =
     Inr (d\<lparr>mLen := mLen c - word_of_int n,
            mWritePtr := (if mWritePtr d = mEnd d then 0 else mWritePtr d)\<rparr>)"
    and "uint (mLen c - word_of_int n) = uint (mLen c) - n"
proof -
  have b: "uint (mLen c) < 2 ^ 31"
    using assms(1) by (auto simp: cb_inv_def)
  have un: "uint (word_of_int n :: u32) = n"
    using assms b by (intro uint_word_of_int_small) auto
  show "uint (mLen c - word_of_int n) = uint (mLen c) - n"
    using assms un by (subst uint_sub_lem [THEN iffD1]) auto
  have "\<not> word_of_int n > mLen c"
    using assms(3) un by (simp add: word_less_def)
  then show "cb_subtract_length_internal d (word_of_int n) =
     Inr (d\<lparr>mLen := mLen c - word_of_int n,
            mWritePtr := (if mWritePtr d = mEnd d then 0 else mWritePtr d)\<rparr>)"
    using assms(4) by (simp add: cb_subtract_length_internal_def mEnd_def)
qed

section \<open>Writing\<close>

text \<open>
  \<open>ring_put N b w src n b'\<close>: the ring \<open>b'\<close> is \<open>b\<close> with the first \<open>n\<close> bytes of \<open>src\<close> stored from
  position \<open>w\<close> on, cyclically.
\<close>

definition ring_put :: "int \<Rightarrow> byte list \<Rightarrow> int \<Rightarrow> byte list \<Rightarrow> int \<Rightarrow> byte list \<Rightarrow> bool" where
  "ring_put N b w src n b' \<longleftrightarrow>
     length b' = length b \<and>
     (\<forall>i. 0 \<le> i \<longrightarrow> i < N \<longrightarrow>
        b' ! nat ((w + i) mod N) = (if i < n then src ! nat i else b ! nat ((w + i) mod N)))"

lemma ring_put_tail:
  assumes "memcpy_bytes b w src 0 n = Inr b'" "0 \<le> w" "w < N" "int (length b) = N" "w + n \<le> N" "0 \<le> n"
  shows "ring_put N b w src n b'"
  unfolding ring_put_def
proof (intro conjI allI impI)
  show "length b' = length b"
    using assms(1) by (rule memcpy_bytes_length)
  fix i :: int assume i: "0 \<le> i" "i < N"
  let ?k = "nat ((w + i) mod N)"
  have k: "int ?k = (if w + i < N then w + i else w + i - N)" and "?k < length b"
    using i assms(2-4) ring_mod [of N "w + i"] by (auto split: if_splits)
  then show "b' ! ?k = (if i < n then src ! nat i else b ! ?k)"
    using memcpy_bytes_nth [OF assms(1), of ?k] i assms(2-6) by (auto split: if_splits)
qed

lemma ring_put_tail_head:
  assumes t: "memcpy_bytes b w src 0 (N - w) = Inr b1"
    and h: "memcpy_bytes b1 0 src (N - w) (n - (N - w)) = Inr b2"
    and "0 \<le> w" "w < N" "int (length b) = N" "N < w + n" "n \<le> N"
  shows "ring_put N b w src n b2"
  unfolding ring_put_def
proof (intro conjI allI impI)
  have l: "length b1 = length b"
    using t by (rule memcpy_bytes_length)
  with h show "length b2 = length b"
    by (simp add: memcpy_bytes_length)
  fix i :: int assume i: "0 \<le> i" "i < N"
  let ?k = "nat ((w + i) mod N)"
  have k: "int ?k = (if w + i < N then w + i else w + i - N)" and "?k < length b"
    using i assms(3-5) ring_mod [of N "w + i"] by (auto split: if_splits)
  then show "b2 ! ?k = (if i < n then src ! nat i else b ! ?k)"
    using memcpy_bytes_nth [OF t, of ?k] memcpy_bytes_nth [OF h, of ?k] l i assms(3-7)
    by (auto split: if_splits)
qed

text \<open>Storing behind the unread bytes appends to the contents.\<close>

lemma cb_contents_append:
  assumes inv: "cb_inv c" and n: "0 \<le> n" "uint (mLen c) + n \<le> mBufferSize c"
    and put: "ring_put (mBufferSize c) (mBuffer c) (mWritePtr c) src n (mBuffer d)"
    and src: "n \<le> int (length src)"
    and d: "mBufferSize d = mBufferSize c"
      "mReadPtr d = (if mReadPtr c = mBufferSize c then 0 else mReadPtr c)"
      "mWritePtr d = (mWritePtr c + n) mod mBufferSize c \<or>
       mWritePtr d = mBufferSize c \<and> mWritePtr c + n = mBufferSize c \<and>
       uint (mLen c) + n = mBufferSize c \<and> mReadPtr d = 0"
      "uint (mLen d) = uint (mLen c) + n"
  shows "cb_inv d \<and> cb_contents d = cb_contents c @ take (nat n) src"
proof
  let ?N = "mBufferSize c" and ?L = "uint (mLen c)"
  have N: "0 < ?N" "?N < 2 ^ 31" "int (length (mBuffer c)) = ?N" "0 \<le> mReadPtr c"
    "mReadPtr c \<le> ?N" "?L \<le> ?N" and W: "(mReadPtr c + ?L) mod ?N = mWritePtr c mod ?N"
    using inv by (auto simp: cb_inv_def)
  have Wx: "(mReadPtr c + ?L + x) mod ?N = (mWritePtr c + x) mod ?N" for x
    by (intro mod_add_cong [OF W] refl)
  have R: "mReadPtr d mod ?N = mReadPtr c mod ?N"
    using d(2) by simp
  have "(mReadPtr d + uint (mLen d)) mod ?N = (mReadPtr c + (?L + n)) mod ?N"
    using d(4) by (intro mod_add_cong [OF R]) simp
  also have "\<dots> = (mWritePtr c + n) mod ?N"
    using Wx [of n] by (simp only: add.assoc)
  also have "\<dots> = mWritePtr d mod ?N"
    using d(3) by auto
  finally have W': "(mReadPtr d + uint (mLen d)) mod ?N = mWritePtr d mod ?N" .
  have Wd: "0 \<le> mWritePtr d" "mWritePtr d \<le> ?N"
    "mWritePtr d = ?N \<Longrightarrow> uint (mLen d) = ?N \<and> mReadPtr d = 0"
    using d(3,4) N(1) pos_mod_bound [OF N(1), of "mWritePtr c + n"]
      pos_mod_sign [OF N(1), of "mWritePtr c + n"] by auto
  have lb: "length (mBuffer d) = length (mBuffer c)"
    using put by (simp add: ring_put_def)
  show "cb_inv d"
    using N n d(1,2,4) lb W' Wd by (auto simp: cb_inv_def)
  have ul: "unat (mLen d) = unat (mLen c) + nat n"
    using d(4) n by (intro of_nat_eq_iff [where 'a = int, THEN iffD1]) simp
  show "cb_contents d = cb_contents c @ take (nat n) src"
  proof (rule nth_equalityI)
    show "length (cb_contents d) = length (cb_contents c @ take (nat n) src)"
      using ul src n by simp
    fix i assume "i < length (cb_contents d)"
    then have i: "i < unat (mLen c) + nat n" using ul by simp
    have "cb_contents d ! i = mBuffer d ! nat ((mReadPtr d + int i) mod ?N)"
      using i ul d(1) by (simp add: cb_nth_contents)
    also have "(mReadPtr d + int i) mod ?N = (mReadPtr c + int i) mod ?N"
      by (intro mod_add_cong [OF R] refl)
    finally have ci: "cb_contents d ! i = mBuffer d ! nat ((mReadPtr c + int i) mod ?N)" .
    define j where "j = (if i < unat (mLen c) then int i - ?L + ?N else int i - ?L)"
    have lt: "i < unat (mLen c) \<longleftrightarrow> int i < ?L" by (rule less_unat_int)
    have iL: "int i < ?L + n" using i n uint_nat [of "mLen c"] by linarith
    have "0 \<le> j \<and> j < ?N \<and> (j < n \<longleftrightarrow> \<not> i < unat (mLen c))"
    proof (cases "i < unat (mLen c)")
      case True
      then have "j = int i - ?L + ?N" "int i < ?L" using lt by (simp_all add: j_def)
      then show ?thesis using True n N(6) by linarith
    next
      case False
      then have "j = int i - ?L" "?L \<le> int i" using lt by (simp_all add: j_def)
      then show ?thesis using False iL n(2) uint_ge_0 [of "mLen c"] by linarith
    qed
    then have j: "0 \<le> j" "j < ?N" and jn: "j < n \<longleftrightarrow> \<not> i < unat (mLen c)"
      by auto
    have "(mWritePtr c + j) mod ?N = (mReadPtr c + ?L + j) mod ?N"
      by (rule Wx [symmetric])
    also have "\<dots> = (mReadPtr c + int i) mod ?N"
    proof (cases "i < unat (mLen c)")
      case True
      then have "mReadPtr c + ?L + j = mReadPtr c + int i + ?N" by (simp add: j_def)
      then show ?thesis by (simp only: mod_add_self2)
    next
      case False
      then show ?thesis by (simp add: j_def)
    qed
    finally have pos: "(mWritePtr c + j) mod ?N = (mReadPtr c + int i) mod ?N" .
    have "mBuffer d ! nat ((mWritePtr c + j) mod ?N) =
       (if j < n then src ! nat j else mBuffer c ! nat ((mWritePtr c + j) mod ?N))"
      using put j by (simp add: ring_put_def)
    then show "cb_contents d ! i = (cb_contents c @ take (nat n) src) ! i"
      using ci pos jn i src lt
      by (auto simp: nth_append cb_nth_contents j_def nat_diff_distrib)
  qed
qed

lemma cb_copy_in_ok:
  assumes "0 < n" "0 \<le> s" "s + n \<le> int (length src)" "0 \<le> mWritePtr c"
    "mWritePtr c + n \<le> int (length (mBuffer c))"
  shows "\<exists>b. memcpy_bytes (mBuffer c) (mWritePtr c) src s n = Inr b \<and>
    cb_copy_in c src s n = Inr (c\<lparr>mBuffer := b\<rparr>)"
  using assms memcpy_bytes_ok [of n "mWritePtr c" "mBuffer c" s src]
  by (simp add: cb_copy_in_def cb_bufferCopy_def)

lemma cb_copy_in_nothing: "n \<le> 0 \<Longrightarrow> cb_copy_in c src s n = Inr c"
  by (simp add: cb_copy_in_def cb_bufferCopy_def)

definition cb_written :: "cbuf \<Rightarrow> byte list \<Rightarrow> int \<Rightarrow> cbuf \<Rightarrow> bool" where
  "cb_written c bs n d \<longleftrightarrow>
     cb_inv d \<and> cb_contents d = cb_contents c @ take (nat n) bs \<and> mBufferSize d = mBufferSize c \<and>
     mFreeBuffer d = mFreeBuffer c \<and> mFreeCondition d = mFreeCondition c \<and>
     mDataCondition d = mDataCondition c + (if n = 0 then 0 else 1)"

lemma cb_written_none: "cb_inv c \<Longrightarrow> cb_written c bs 0 c"
  by (simp add: cb_written_def)

lemma cb_write_internal_pos:
  assumes inv: "cb_inv c" and n: "0 < n" "n \<le> cb_getFreeSpace c" "n \<le> int (length src)"
  shows "\<exists>d. cb_write_internal c (Some src) n = Inr (n, d) \<and> cb_written c src n d"
proof -
  let ?N = "mBufferSize c" and ?L = "uint (mLen c)" and ?w = "mWritePtr c"
  have fr: "cb_getFreeSpace c = ?N - ?L"
    using inv by (simp add: cb_getFreeSpace_def cb_inv_length_internal)
  have N: "0 < ?N" "int (length (mBuffer c)) = ?N" "0 \<le> ?w" "?w < ?N" "?L \<le> ?N"
    using inv n fr by (auto simp: cb_inv_def)
  have nN: "n \<le> ?N" "?L + n \<le> ?N" using n fr uint_ge_0 [of "mLen c"] by linarith+
  let ?c' = "\<lambda>b w. c\<lparr>mBuffer := b, mWritePtr := w\<rparr>"
  let ?d = "\<lambda>b w. (?c' b w)\<lparr>mLen := mLen c + word_of_int n,
       mReadPtr := (if mReadPtr c = ?N then 0 else mReadPtr c),
       mDataCondition := Suc (mDataCondition c)\<rparr>"
  have al: "cb_add_length_internal (?c' b w) (word_of_int n) =
       Inr ((?c' b w)\<lparr>mLen := mLen c + word_of_int n,
              mReadPtr := (if mReadPtr c = ?N then 0 else mReadPtr c)\<rparr>)" for b w
    using cb_add_length(1) [OF inv, of n "?c' b w"] n nN by (simp add: mEnd_def)
  have ul: "uint (mLen c + word_of_int n) = ?L + n"
    using cb_add_length(2) [OF inv, of n c] n nN by simp
  have fin: "cb_written c src n (?d b w)"
    if "ring_put ?N (mBuffer c) ?w src n b" "w = (?w + n) mod ?N" for b w
    using cb_contents_append [OF inv _ _ _ n(3), of "?d b w"] that n nN ul
    by (simp add: cb_written_def cb_inv_def cb_contents_def)
  show ?thesis
  proof (cases "n \<le> ?N - ?w")
    case True
    obtain b where b: "memcpy_bytes (mBuffer c) ?w src 0 n = Inr b"
      and ci: "cb_copy_in c src 0 n = Inr (c\<lparr>mBuffer := b\<rparr>)"
      using cb_copy_in_ok [of n 0 src c] n N True by auto
    have put: "ring_put ?N (mBuffer c) ?w src n b"
      using ring_put_tail [OF b] N True n by simp
    have "cb_write_internal c (Some src) n = Inr (n, ?d b ((?w + n) mod ?N))"
    proof (cases "n < ?N - ?w")
      case True
      then have "(?w + n) mod ?N = ?w + n" using N n by (simp add: ring_mod)
      then show ?thesis using n True ci al [where b = b and w = "?w + n"]
        by (simp add: cb_write_internal_def mEnd_def Let_def)
    next
      case False
      with True have e: "n = ?N - ?w" by simp
      then have "(?w + n) mod ?N = 0" by simp
      then show ?thesis using n ci al [where b = b and w = 0] unfolding e
        by (simp add: cb_write_internal_def mEnd_def Let_def)
    qed
    then show ?thesis using fin [OF put refl] by blast
  next
    case False
    obtain b1 where b1: "memcpy_bytes (mBuffer c) ?w src 0 (?N - ?w) = Inr b1"
      and ci1: "cb_copy_in c src 0 (?N - ?w) = Inr (c\<lparr>mBuffer := b1\<rparr>)"
      using cb_copy_in_ok [of "?N - ?w" 0 src c] n N False by auto
    have l1: "length b1 = length (mBuffer c)"
      using b1 by (rule memcpy_bytes_length)
    obtain b2 where b2: "memcpy_bytes b1 0 src (?N - ?w) (n - (?N - ?w)) = Inr b2"
      and ci2: "cb_copy_in (?c' b1 0) src (?N - ?w) (n - (?N - ?w)) = Inr (?c' b2 0)"
      using cb_copy_in_ok [of "n - (?N - ?w)" "?N - ?w" src "?c' b1 0"] n N nN l1 False by auto
    have put: "ring_put ?N (mBuffer c) ?w src n b2"
      using ring_put_tail_head [OF b1 b2] N nN False by simp
    have w: "n - (?N - ?w) = (?w + n) mod ?N"
      using False N nN by (simp add: ring_mod)
    have "cb_write_internal c (Some src) n = Inr (n, ?d b2 (n - (?N - ?w)))"
      using n False ci1 ci2 al [where b = b2 and w = "n - (?N - ?w)"]
      by (simp add: cb_write_internal_def mEnd_def Let_def)
    then show ?thesis using fin [OF put w] by blast
  qed
qed

lemma cb_write_ok:
  assumes "cb_inv c" "0 \<le> n" "n \<le> int (length src)"
  defines "m \<equiv> min n (cb_getFreeSpace c)"
  shows "\<exists>d. cb_write c (Some src) n = Inr (m, d) \<and> cb_written c src m d"
proof -
  have fr: "0 \<le> cb_getFreeSpace c"
    using assms(1) by (simp add: cb_free_contents cb_inv_def)
  then have m: "0 \<le> m" "m \<le> int (length src)" "m \<le> cb_getFreeSpace c"
    using assms by auto
  have eq: "cb_write c (Some src) n = cb_write_internal c (Some src) m"
    by (simp add: cb_write_def cb_write_internal_def m_def min_def)
  show ?thesis
  proof (cases "m = 0")
    case True
    then show ?thesis
      using assms(1) eq cb_written_none fr by (simp add: cb_write_internal_def)
  next
    case False
    then show ?thesis
      using cb_write_internal_pos [OF assms(1), of m src] m eq by auto
  qed
qed

section \<open>Reading\<close>

text \<open>Moving the read pointer by \<open>n\<close> drops the \<open>n\<close> oldest bytes.\<close>

lemma cb_contents_drop:
  assumes inv: "cb_inv c" and n: "0 < n" "n \<le> uint (mLen c)"
    and d: "mBufferSize d = mBufferSize c" "mBuffer d = mBuffer c"
      "mWritePtr d = (if mWritePtr c = mBufferSize c then 0 else mWritePtr c)"
      "0 \<le> mReadPtr d" "mReadPtr d \<le> mBufferSize c"
      "mReadPtr d mod mBufferSize c = (mReadPtr c + n) mod mBufferSize c"
      "uint (mLen d) = uint (mLen c) - n"
  shows "cb_inv d \<and> cb_contents d = drop (nat n) (cb_contents c)"
proof
  let ?N = "mBufferSize c"
  have W: "(mReadPtr c + uint (mLen c)) mod ?N = mWritePtr c mod ?N" "mWritePtr c mod ?N = mWritePtr d mod ?N"
    using inv d(3) by (simp_all add: cb_inv_def)
  have pos: "(mReadPtr d + x) mod ?N = (mReadPtr c + (n + x)) mod ?N" for x
    using mod_add_cong [OF d(6) refl, of x] by (simp only: add.assoc)
  have "(mReadPtr d + uint (mLen d)) mod ?N = mWritePtr d mod ?N"
    using pos [of "uint (mLen d)"] d(7) W by simp
  moreover have "0 \<le> mWritePtr d \<and> mWritePtr d < ?N"
  proof -
    have "0 < ?N" "0 \<le> mWritePtr c" "mWritePtr c \<le> ?N" using inv by (simp_all add: cb_inv_def)
    then show ?thesis unfolding d(3) by simp
  qed
  ultimately show "cb_inv d"
    using inv d(1,2,4,5,7) n by (auto simp: cb_inv_def)
  have ul: "unat (mLen c) = unat (mLen d) + nat n"
    using d(7) n(1) by (intro of_nat_eq_iff [where 'a = int, THEN iffD1]) simp
  show "cb_contents d = drop (nat n) (cb_contents c)"
  proof (rule nth_equalityI)
    show "length (cb_contents d) = length (drop (nat n) (cb_contents c))"
      using ul by simp
    fix i assume "i < length (cb_contents d)"
    then have i: "i < unat (mLen d)" by simp
    have "n + int i = int (nat n + i)" using n by simp
    then show "cb_contents d ! i = drop (nat n) (cb_contents c) ! i"
      using i ul d(1,2) pos [of "int i"] by (simp add: cb_nth_contents)
  qed
qed

text \<open>
  The two segments of the ring that hold the oldest \<open>n\<close> bytes: from the read pointer to the end,
  then from the start.
\<close>

lemma cb_segment_tail:
  assumes inv: "cb_inv c" and n: "0 \<le> n" "n \<le> uint (mLen c)" "mReadPtr c + n \<le> mBufferSize c"
  shows "take (nat n) (drop (nat (mReadPtr c)) (mBuffer c)) = take (nat n) (cb_contents c)"
proof (rule nth_equalityI)
  let ?N = "mBufferSize c" and ?r = "mReadPtr c"
  have N: "0 < ?N" "int (length (mBuffer c)) = ?N" "0 \<le> ?r"
    using inv by (auto simp: cb_inv_def)
  have nL: "nat n \<le> unat (mLen c)" using n uint_nat [of "mLen c"] by linarith
  show len: "length (take (nat n) (drop (nat ?r) (mBuffer c))) = length (take (nat n) (cb_contents c))"
    using N n nL by simp
  fix i assume "i < length (take (nat n) (drop (nat ?r) (mBuffer c)))"
  then have i: "i < nat n" by simp
  have "(?r + int i) mod ?N = ?r + int i"
    using i N n by (intro mod_pos_pos_trivial) auto
  moreover have "nat (?r + int i) = nat ?r + i" using N by (simp add: nat_add_distrib)
  ultimately show "take (nat n) (drop (nat ?r) (mBuffer c)) ! i = take (nat n) (cb_contents c) ! i"
    using i nL N n by (simp add: cb_nth_contents)
qed

lemma cb_segment_head:
  assumes inv: "cb_inv c" and n: "n \<le> uint (mLen c)" "mBufferSize c \<le> mReadPtr c + n"
  shows "take (nat (n - (mBufferSize c - mReadPtr c))) (mBuffer c)
       = drop (nat (mBufferSize c - mReadPtr c)) (take (nat n) (cb_contents c))"
proof (rule nth_equalityI)
  let ?N = "mBufferSize c" and ?r = "mReadPtr c"
  have N: "0 < ?N" "int (length (mBuffer c)) = ?N" "0 \<le> ?r" "?r \<le> ?N" "uint (mLen c) \<le> ?N"
    using inv by (auto simp: cb_inv_def)
  have nL: "nat n \<le> unat (mLen c)" using n uint_nat [of "mLen c"] by linarith
  have n0: "0 \<le> n" using n N by linarith
  show len: "length (take (nat (n - (?N - ?r))) (mBuffer c)) =
      length (drop (nat (?N - ?r)) (take (nat n) (cb_contents c)))"
    using N n nL by (simp add: nat_diff_distrib)
  fix i assume "i < length (take (nat (n - (?N - ?r))) (mBuffer c))"
  then have i: "int i < n - (?N - ?r)" by (simp add: zless_nat_eq_int_zless)
  have "(?r + int (nat (?N - ?r) + i)) mod ?N = (int i + ?N) mod ?N"
    using N by (simp add: algebra_simps)
  also have "\<dots> = int i" using i n N by (simp add: mod_pos_pos_trivial)
  finally have p: "(?r + int (nat (?N - ?r) + i)) mod ?N = int i" .
  have "nat (?N - ?r) + i < nat n" using i N n0 by linarith
  then show "take (nat (n - (?N - ?r))) (mBuffer c) ! i =
      drop (nat (?N - ?r)) (take (nat n) (cb_contents c)) ! i"
    using i p nL by (simp add: cb_nth_contents)
qed

definition cb_consumed :: "cbuf \<Rightarrow> int \<Rightarrow> cbuf \<Rightarrow> bool" where
  "cb_consumed c n d \<longleftrightarrow>
     cb_inv d \<and> cb_contents d = drop (nat n) (cb_contents c) \<and> mBufferSize d = mBufferSize c \<and>
     mFreeBuffer d = mFreeBuffer c \<and> mDataCondition d = mDataCondition c \<and>
     mFreeCondition d = mFreeCondition c + (if n = 0 then 0 else 1)"

text \<open>What \<open>read\<close> leaves in the caller's array.\<close>

definition cb_delivered :: "byte list option \<Rightarrow> byte list \<Rightarrow> byte list option" where
  "cb_delivered buffer bs = map_option (\<lambda>dst. bs @ drop (length bs) dst) buffer"

definition buffer_room :: "byte list option \<Rightarrow> int \<Rightarrow> bool" where
  "buffer_room buffer n = (case buffer of None \<Rightarrow> True | Some dst \<Rightarrow> n \<le> int (length dst))"

lemma cb_bufferCopy_out:
  assumes "0 < n" "0 \<le> s" "s + n \<le> int (length src)" "0 \<le> d"
    and "buffer_room buffer (d + n)"
  shows "cb_bufferCopy buffer d (Some src) s n =
    Inr (map_option (\<lambda>dst. take (nat d) dst @ take (nat n) (drop (nat s) src) @ drop (nat (d + n)) dst) buffer)"
  using assms by (cases buffer) (simp_all add: cb_bufferCopy_def memcpy_bytes_ok buffer_room_def)

lemma cb_read_pos:
  assumes inv: "cb_inv c" and n: "0 < n" "n \<le> cb_length_internal c" and room: "buffer_room buffer n"
  shows "\<exists>d. cb_read c buffer n = Inr (n, cb_delivered buffer (take (nat n) (cb_contents c)), d) \<and>
             cb_consumed c n d"
proof -
  let ?N = "mBufferSize c" and ?L = "uint (mLen c)" and ?r = "mReadPtr c"
  have N: "0 < ?N" "int (length (mBuffer c)) = ?N" "0 \<le> ?r" "?r \<le> ?N" "?L \<le> ?N"
    using inv by (auto simp: cb_inv_def)
  have nL: "n \<le> ?L" using n inv by (simp add: cb_inv_length_internal)
  have nu: "nat n \<le> unat (mLen c)" using nL uint_nat [of "mLen c"] by linarith
  let ?c' = "\<lambda>r. c\<lparr>mReadPtr := r\<rparr>"
  let ?w = "if mWritePtr c = ?N then 0 else mWritePtr c"
  let ?d = "\<lambda>r. (?c' r)\<lparr>mLen := mLen c - word_of_int n, mWritePtr := ?w,
       mFreeCondition := Suc (mFreeCondition c)\<rparr>"
  have sl: "cb_subtract_length_internal (?c' r) (word_of_int n) =
       Inr ((?c' r)\<lparr>mLen := mLen c - word_of_int n, mWritePtr := ?w\<rparr>)" for r
    using cb_subtract_length(1) [OF inv, of n "?c' r"] n nL N by (simp add: mEnd_def)
  have ul: "uint (mLen c - word_of_int n) = ?L - n"
    using cb_subtract_length(2) [OF inv, of n c] n nL by simp
  have fin: "cb_consumed c n (?d r)" if "0 \<le> r" "r \<le> ?N" "r mod ?N = (?r + n) mod ?N" for r
    using cb_contents_drop [OF inv, of n "?d r"] that n nL ul
    by (simp add: cb_consumed_def cb_inv_def cb_contents_def)
  show ?thesis
  proof (cases "n \<le> ?N - ?r")
    case True
    have "cb_bufferCopy buffer 0 (Some (mBuffer c)) ?r n =
        Inr (cb_delivered buffer (take (nat n) (cb_contents c)))"
      using cb_bufferCopy_out [of n ?r "mBuffer c" 0 buffer] n N True nu room
        cb_segment_tail [OF inv, of n] nL
      by (simp add: cb_delivered_def min_absorb2)
    then have "cb_read c buffer n =
        Inr (n, cb_delivered buffer (take (nat n) (cb_contents c)), ?d (?r + n))"
      using n True sl [of "?r + n"]
      by (cases "n < ?N - ?r") (simp_all add: cb_read_def mEnd_def Let_def)
    then show ?thesis using fin [of "?r + n"] N n True by auto
  next
    case False
    define t where "t = ?N - ?r"
    have t: "0 \<le> t" "t < n" "?r + t = ?N" using False N by (auto simp: t_def)
    define mid where "mid = map_option (\<lambda>dst. take (nat t) (cb_contents c) @ drop (nat t) dst) buffer"
    have c1: "cb_bufferCopy buffer 0 (Some (mBuffer c)) ?r t = Inr mid"
    proof (cases "t = 0")
      case True
      then show ?thesis by (simp add: cb_bufferCopy_def mid_def split: option.split)
    next
      case False
      then show ?thesis
        using cb_bufferCopy_out [of t ?r "mBuffer c" 0 buffer] t N nL room
          cb_segment_tail [OF inv, of t]
        by (simp add: mid_def buffer_room_def split: option.splits)
    qed
    have c2: "(case mid of None \<Rightarrow> Inr None
          | Some _ \<Rightarrow> cb_bufferCopy mid t (Some (mBuffer c)) 0 (n - t)) =
        Inr (cb_delivered buffer (take (nat n) (cb_contents c)))"
    proof (cases buffer)
      case None
      then show ?thesis by (simp add: mid_def cb_delivered_def)
    next
      case (Some dst)
      have tn: "nat t \<le> nat n" "nat t \<le> unat (mLen c)" using t nu by linarith+
      have ld: "nat n \<le> length dst" using room Some n by (simp add: buffer_room_def)
      have h: "take (nat (n - t)) (mBuffer c) = drop (nat t) (take (nat n) (cb_contents c))"
        using cb_segment_head [OF inv nL] t by (simp add: t_def)
      have tk: "take (nat t) (cb_contents c) @ drop (nat t) (take (nat n) (cb_contents c)) =
          take (nat n) (cb_contents c)"
        using tn(1) append_take_drop_id [of "nat t" "take (nat n) (cb_contents c)"]
        by (simp add: min_absorb1 min_absorb2)
      have "cb_bufferCopy mid t (Some (mBuffer c)) 0 (n - t) =
          Inr (Some (take (nat t) (cb_contents c) @ take (nat (n - t)) (mBuffer c) @ drop (nat n) dst))"
        using cb_bufferCopy_out [of "n - t" 0 "mBuffer c" t mid] t N nL Some tn ld
        by (simp add: mid_def buffer_room_def)
      also have "\<dots> = Inr (Some (take (nat n) (cb_contents c) @ drop (nat n) dst))"
        unfolding h using tk by (metis append.assoc)
      finally show ?thesis using Some nu by (simp add: mid_def cb_delivered_def min_absorb2)
    qed
    have "cb_read c buffer n =
        Inr (n, cb_delivered buffer (take (nat n) (cb_contents c)), ?d (n - t))"
      using n False c1 c2 sl [of "n - t"] t
      by (cases mid) (simp_all add: cb_read_def mEnd_def Let_def t_def [symmetric])
    moreover have "(n - t) mod ?N = (?r + n) mod ?N"
    proof -
      have "?r + n = (n - t) + ?N" using t by linarith
      then show ?thesis by (simp only: mod_add_self2)
    qed
    ultimately show ?thesis using fin [of "n - t"] t N nL by auto
  qed
qed

lemma cb_read_ok:
  assumes "cb_inv c" "0 \<le> n"
  defines "m \<equiv> min n (cb_length_internal c)"
  assumes "buffer_room buffer m"
  shows "\<exists>d. cb_read c buffer n = Inr (m, cb_delivered buffer (take (nat m) (cb_contents c)), d) \<and>
             cb_consumed c m d"
proof -
  have eq: "cb_read c buffer n = cb_read c buffer m"
    by (simp add: cb_read_def m_def min_def)
  have len: "0 \<le> cb_length_internal c"
    using assms(1) by (simp add: cb_inv_length_internal)
  show ?thesis
  proof (cases "m = 0")
    case True
    then have "cb_read c buffer m = Inr (0, buffer, c)"
      using len by (simp add: cb_read_def)
    then show ?thesis using True eq assms(1)
      by (simp add: cb_consumed_def cb_delivered_def option.map_id0 [unfolded id_def])
  next
    case False
    then have "0 < m" "m \<le> cb_length_internal c" using assms(2) len by (auto simp: m_def)
    then show ?thesis using cb_read_pos [OF assms(1) _ _ assms(4)] eq by simp
  qed
qed

lemma cb_getFreeSpace_bounds:
  "cb_inv c \<Longrightarrow> 0 \<le> cb_getFreeSpace c \<and> cb_getFreeSpace c \<le> mBufferSize c"
  by (simp add: cb_free_contents cb_inv_def)

lemma cb_write_overflow_ok:
  assumes inv: "cb_inv c" and n: "0 \<le> n" "n \<le> int (length buf)"
  shows "\<exists>d. cb_write_overflow c buf n = Inr (n, d) \<and> cb_inv d \<and> mBufferSize d = mBufferSize c \<and>
    cb_contents d = (let all = cb_contents c @ take (nat n) buf
                     in drop (length all - nat (mBufferSize c)) all)"
proof -
  let ?N = "mBufferSize c" and ?xs = "cb_contents c"
  define off where "off = (if n > ?N then n - ?N else 0)"
  define m where "m = (if n > ?N then ?N else n)"
  have N: "0 < ?N" "int (length ?xs) \<le> ?N" using inv by (auto simp: cb_inv_def)
  have m: "0 \<le> m" "m \<le> ?N" "m + off = n" "0 \<le> off" using n N by (auto simp: m_def off_def)
  have fr: "cb_getFreeSpace c = ?N - int (length ?xs)" using inv by (rule cb_free_contents)
  define r where "r = max 0 (m - cb_getFreeSpace c)"
  have r: "0 \<le> r" "r \<le> int (length ?xs)" using m fr by (auto simp: r_def)
  obtain c1 where rd: "(if m - cb_getFreeSpace c > 0
        then andThen (cb_read c None (m - cb_getFreeSpace c)) (\<lambda>(_, _, c). Inr c) else Inr c) = Inr c1"
    and c1: "cb_inv c1" "cb_contents c1 = drop (nat r) ?xs" "mBufferSize c1 = ?N"
  proof (cases "m - cb_getFreeSpace c > 0")
    case True
    then have "m - cb_getFreeSpace c = r" by (simp add: r_def)
    then show thesis
      using that cb_read_pos [OF inv, of r None] True r cb_length_contents [OF inv]
      by (auto simp: buffer_room_def cb_consumed_def)
  next
    case False
    then show thesis using that [of c] inv by (simp add: r_def)
  qed
  have "int (length (cb_contents c1)) = int (length ?xs) - r"
    unfolding c1(2) length_drop using r by linarith
  moreover have "m - cb_getFreeSpace c \<le> r" by (simp add: r_def)
  ultimately have room: "m \<le> cb_getFreeSpace c1"
    using cb_free_contents [OF c1(1)] c1(3) fr by linarith
  have "int (length (drop (nat off) buf)) \<ge> m" using n m by auto
  then obtain d where wr: "cb_write_internal c1 (Some (drop (nat off) buf)) m = Inr (m, d)"
    and d: "cb_written c1 (drop (nat off) buf) m d"
    using cb_write_ok [OF c1(1) m(1), of "drop (nat off) buf"] room
    by (auto simp: cb_write_def min_absorb1)
  have "cb_write_overflow c buf n = Inr (n, d)"
    using rd wr m by (simp add: cb_write_overflow_def Let_def m_def [symmetric] off_def [symmetric])
  moreover have "drop (nat r) ?xs @ take (nat m) (drop (nat off) buf) =
      drop (length ?xs + nat n - nat ?N) (?xs @ take (nat n) buf)"
  proof (cases "n > ?N")
    case True
    then have "nat r = length ?xs" "nat off = nat n - nat ?N" "nat m = nat ?N" "nat ?N \<le> nat n"
      using fr N by (auto simp: r_def m_def off_def nat_diff_distrib)
    moreover from this obtain k where "nat n = nat ?N + k" using le_Suc_ex by blast
    ultimately show ?thesis by (simp add: drop_take)
  next
    case False
    then have "off = 0" "m = n" "nat n \<le> nat ?N"
      using N n by (simp_all add: m_def off_def)
    moreover from this have "nat r = length ?xs + nat n - nat ?N"
      unfolding r_def using fr N n \<open>\<not> n > ?N\<close> by arith
    ultimately show ?thesis using False by simp
  qed
  moreover have "length (?xs @ take (nat n) buf) - nat ?N = length ?xs + nat n - nat ?N"
    using n by simp
  ultimately show ?thesis
    using d c1 by (simp add: cb_written_def Let_def del: length_cb_contents)
qed

lemma cb_writeByte_ok:
  assumes inv: "cb_inv c"
  shows "cb_getFreeSpace c = 0 \<Longrightarrow> cb_writeByte c b = Inr (-1, c)"
    and "cb_getFreeSpace c \<noteq> 0 \<Longrightarrow> \<exists>d. cb_writeByte c b = Inr (0, d) \<and> cb_written c [b] 1 d"
proof -
  show "cb_getFreeSpace c = 0 \<Longrightarrow> cb_writeByte c b = Inr (-1, c)"
    by (simp add: cb_writeByte_def)
  assume "cb_getFreeSpace c \<noteq> 0"
  then have f: "cb_getFreeSpace c \<noteq> 0" "1 \<le> cb_getFreeSpace c" using cb_getFreeSpace_bounds [OF inv] by auto
  let ?N = "mBufferSize c" and ?L = "uint (mLen c)" and ?w = "mWritePtr c"
  have L1: "?L + 1 \<le> ?N" using f inv by (simp add: cb_getFreeSpace_def cb_inv_length_internal)
  have N: "0 < ?N" "int (length (mBuffer c)) = ?N" "0 \<le> ?w" "?w < ?N" "?L \<le> ?N"
    using inv L1 by (auto simp: cb_inv_def)
  let ?c1 = "c\<lparr>mBuffer := (mBuffer c)[nat ?w := b], mWritePtr := ?w + 1\<rparr>"
  have put: "ring_put ?N (mBuffer c) ?w [b] 1 ((mBuffer c)[nat ?w := b])"
    unfolding ring_put_def
  proof (intro conjI allI impI)
    fix i :: int assume i: "0 \<le> i" "i < ?N"
    have k: "(?w + i) mod ?N = (if ?w + i < ?N then ?w + i else ?w + i - ?N)"
      using i N ring_mod [of ?N "?w + i"] by auto
    then show "(mBuffer c)[nat ?w := b] ! nat ((?w + i) mod ?N) =
        (if i < 1 then [b] ! nat i else mBuffer c ! nat ((?w + i) mod ?N))"
      using i N by (auto simp: nth_list_update)
  qed simp
  have al: "cb_add_length_internal ?c1 1 =
      Inr (?c1\<lparr>mLen := mLen c + 1, mReadPtr := (if mReadPtr c = ?N then 0 else mReadPtr c)\<rparr>)"
    and ul: "uint (mLen c + 1) = ?L + 1"
    using cb_add_length [OF inv, of 1 ?c1] L1 by (simp_all add: mEnd_def)
  let ?d = "?c1\<lparr>mLen := mLen c + 1, mReadPtr := (if mReadPtr c = ?N then 0 else mReadPtr c),
      mWritePtr := (?w + 1) mod ?N, mDataCondition := Suc (mDataCondition c)\<rparr>"
  have "cb_writeByte c b = Inr (0, ?d)"
    using f N al by (simp add: cb_writeByte_def cb_byte_at_offset_def Let_def mEnd_def ring_mod)
  moreover have "cb_written c [b] 1 ?d"
    using cb_contents_append [OF inv _ L1, of "[b]" ?d] put ul
    by (simp add: cb_written_def cb_inv_def cb_contents_def)
  ultimately show "\<exists>d. cb_writeByte c b = Inr (0, d) \<and> cb_written c [b] 1 d" by blast
qed

section \<open>Looking at the unread bytes\<close>

lemma cb_ring_cases:
  assumes inv: "cb_inv c" and pos: "0 < uint (mLen c)"
  shows "mReadPtr c < mWritePtr c \<Longrightarrow> uint (mLen c) = mWritePtr c - mReadPtr c"
    and "mReadPtr c \<ge> mWritePtr c \<Longrightarrow> uint (mLen c) = mBufferSize c - mReadPtr c + mWritePtr c"
proof -
  let ?N = "mBufferSize c" and ?r = "mReadPtr c" and ?L = "uint (mLen c)" and ?w = "mWritePtr c"
  have N: "0 < ?N" "0 \<le> ?r" "?r \<le> ?N" "?L \<le> ?N" "0 \<le> ?w" "?r = ?N \<longrightarrow> ?L < ?N"
    and W: "(?r + ?L) mod ?N = ?w mod ?N" "?w \<le> ?N" "?w = ?N \<longrightarrow> ?L = ?N \<and> ?r = 0"
    using inv by (auto simp: cb_inv_def)
  have m: "(?r + ?L) mod ?N = (if ?r + ?L < ?N then ?r + ?L else ?r + ?L - ?N)"
    using N uint_ge_0 [of "mLen c"] by (intro ring_mod) linarith+
  have w: "?w < ?N \<Longrightarrow> ?w mod ?N = ?w" using N by simp
  have "(?w = ?N \<and> ?L = ?N \<and> ?r = 0) \<or> (?r + ?L < ?N \<and> ?w = ?r + ?L) \<or> (?N \<le> ?r + ?L \<and> ?w = ?r + ?L - ?N)"
  proof (cases "?w = ?N")
    case True
    then show ?thesis using W(3) by simp
  next
    case False
    then have "?w = (if ?r + ?L < ?N then ?r + ?L else ?r + ?L - ?N)" using W(1,2) w m by simp
    then show ?thesis by (simp split: if_splits)
  qed
  then show "?r < ?w \<Longrightarrow> ?L = ?w - ?r" and "?r \<ge> ?w \<Longrightarrow> ?L = ?N - ?r + ?w"
    using N W pos by linarith+
qed

text \<open>\<open>getBytes\<close> points at the longest run of unread bytes from index \<open>i\<close> that does not wrap.\<close>

lemma cb_getBytes_ok:
  assumes inv: "cb_inv c" and i: "0 \<le> i" "i < cb_length_internal c"
  shows "\<exists>p s. cb_getBytesInternal c i = Inr (Some p, s) \<and> 0 < s \<and> 0 \<le> p \<and> p + s \<le> mBufferSize c \<and>
    i + s \<le> cb_length_internal c \<and> p = (mReadPtr c + i) mod mBufferSize c \<and>
    (i + s = cb_length_internal c \<or> p + s = mBufferSize c)"
proof -
  let ?N = "mBufferSize c" and ?r = "mReadPtr c" and ?L = "uint (mLen c)" and ?w = "mWritePtr c"
  have N: "0 < ?N" "0 \<le> ?r" "?r \<le> ?N" "?L \<le> ?N" "0 \<le> ?w" "?w \<le> ?N"
    using inv by (auto simp: cb_inv_def)
  have L: "cb_length_internal c = ?L" using inv by (rule cb_inv_length_internal)
  have pos: "0 < ?L" using i L by linarith
  have p: "(?r + i) mod ?N = (if ?r + i < ?N then ?r + i else ?r + i - ?N)"
    using i L N by (intro ring_mod) linarith+
  show ?thesis
  proof (cases "?r \<ge> ?w")
    case True
    then have "?L = ?N - ?r + ?w" using cb_ring_cases [OF inv pos] by simp
    then show ?thesis using True i L N p
      by (cases "?r + i < ?N") (auto simp: cb_getBytesInternal_def mEnd_def Let_def)
  next
    case False
    then have "?L = ?w - ?r" using cb_ring_cases [OF inv pos] by simp
    then show ?thesis using False i L N p
      by (auto simp: cb_getBytesInternal_def mEnd_def Let_def)
  qed
qed

lemma cb_getBytes_beyond: "cb_length_internal c \<le> i \<Longrightarrow> cb_getBytesInternal c i = Inr (None, 0)"
  by (simp add: cb_getBytesInternal_def)

text \<open>The bytes of such a run are the unread bytes from index \<open>i\<close> on.\<close>

lemma cb_run_contents:
  assumes inv: "cb_inv c" and i: "0 \<le> i" "0 \<le> s" "i + s \<le> uint (mLen c)"
    and p: "p = (mReadPtr c + i) mod mBufferSize c" "p + s \<le> mBufferSize c"
  shows "take (nat s) (drop (nat p) (mBuffer c)) = take (nat s) (drop (nat i) (cb_contents c))"
proof (rule nth_equalityI)
  let ?N = "mBufferSize c" and ?r = "mReadPtr c"
  have N: "0 < ?N" "int (length (mBuffer c)) = ?N" using inv by (auto simp: cb_inv_def)
  have p0: "0 \<le> p" using p N by simp
  have iu: "nat i + nat s \<le> unat (mLen c)" using i uint_nat [of "mLen c"] by linarith
  have ps: "nat p + nat s \<le> length (mBuffer c)" using p(2) p0 N i by linarith
  show "length (take (nat s) (drop (nat p) (mBuffer c))) =
      length (take (nat s) (drop (nat i) (cb_contents c)))"
    using iu ps by simp
  fix k assume "k < length (take (nat s) (drop (nat p) (mBuffer c)))"
  then have k: "k < nat s" by simp
  have "(?r + int (nat i + k)) mod ?N = (p + int k) mod ?N"
    using i by (simp add: p(1) mod_add_left_eq add.assoc)
  also have "\<dots> = p + int k" using p(2) p0 k i by (intro mod_pos_pos_trivial) linarith+
  finally have "nat ((?r + int (nat i + k)) mod ?N) = nat p + k" using p0 by (simp add: nat_add_distrib)
  then show "take (nat s) (drop (nat p) (mBuffer c)) ! k =
      take (nat s) (drop (nat i) (cb_contents c)) ! k"
    using k iu ps by (simp add: cb_nth_contents)
qed

lemma cb_byteAt_ok:
  assumes inv: "cb_inv c" and "0 \<le> i"
  shows "cb_byteAt c i =
    Inr (if i < int (length (cb_contents c)) then uint (cb_contents c ! nat i) else -1)"
proof (cases "i < cb_length_internal c")
  case True
  then obtain p s where g: "cb_getBytesInternal c i = Inr (Some p, s)" "0 < s" "0 \<le> p"
    "p + s \<le> mBufferSize c" and p: "p = (mReadPtr c + i) mod mBufferSize c"
    using cb_getBytes_ok [OF inv assms(2)] by auto
  have "nat i < unat (mLen c)" "int (nat i) = i"
    using True assms by (auto simp: cb_inv_length_internal less_unat_int)
  then have "cb_contents c ! nat i = mBuffer c ! nat p" using p by (simp add: cb_nth_contents)
  moreover have "int (length (mBuffer c)) = mBufferSize c" using inv by (simp add: cb_inv_def)
  ultimately show ?thesis using g True cb_length_contents [OF inv]
    by (simp add: cb_byteAt_def cb_getBytes_def cb_byte_at_offset_def)
next
  case False
  then show ?thesis using cb_length_contents [OF inv]
    by (simp add: cb_byteAt_def cb_getBytes_def cb_getBytes_beyond)
qed

lemma cb_copy_segment_ok:
  assumes inv: "cb_inv c" and i: "0 \<le> i" "0 \<le> n" "i + n \<le> uint (mLen c)"
    and p: "p = (mReadPtr c + i) mod mBufferSize c" "p + n \<le> mBufferSize c"
    and d: "0 \<le> d" "d + n \<le> int (length dst)"
  shows "cb_copy_segment c dst d (Some p) n =
    Inr (take (nat d) dst @ take (nat n) (drop (nat i) (cb_contents c)) @ drop (nat (d + n)) dst)"
proof (cases "n = 0")
  case True
  then show ?thesis by (simp add: cb_copy_segment_def)
next
  case False
  have "0 < mBufferSize c" "int (length (mBuffer c)) = mBufferSize c"
    using inv by (auto simp: cb_inv_def)
  moreover from this have "0 \<le> p" using p(1) by simp
  ultimately show ?thesis
    using False memcpy_bytes_ok [of n d dst p "mBuffer c"] i p(2) d cb_run_contents [OF inv i p]
    by (simp add: cb_copy_segment_def)
qed

text \<open>\<open>copy\<close> stores the oldest bytes without consuming them.\<close>

lemma cb_copy_ok:
  assumes inv: "cb_inv c" and n: "0 \<le> n"
  defines "m \<equiv> min n (cb_length_internal c)"
  assumes room: "m \<le> int (length dst)"
  shows "cb_copy c dst n = Inr (m, take (nat m) (cb_contents c) @ drop (nat m) dst)"
proof -
  let ?xs = "cb_contents c" and ?L = "uint (mLen c)" and ?N = "mBufferSize c"
  have L: "cb_length_internal c = ?L" using inv by (rule cb_inv_length_internal)
  have m: "0 \<le> m" "m \<le> ?L" "(if n > cb_length_internal c then cb_length_internal c else n) = m"
    using n L by (auto simp: m_def min_def)
  show ?thesis
  proof (cases "?L = 0")
    case True
    then have "m = 0" using m by simp
    then show ?thesis using True L m
      by (simp add: cb_copy_def cb_getBytes_beyond cb_copy_segment_def Let_def)
  next
    case False
    have "0 < ?L" using False uint_ge_0 [of "mLen c"] by linarith
    then obtain p s where g: "cb_getBytesInternal c 0 = Inr (Some p, s)" and s: "0 < s" "p + s \<le> ?N"
      "s \<le> ?L" and p: "0 \<le> p" "p = (mReadPtr c + 0) mod ?N" and e: "s = ?L \<or> p + s = ?N"
      using cb_getBytes_ok [OF inv, of 0] L by auto
    define a where "a = (if s > m then m else s)"
    have a: "0 \<le> a" "a \<le> m" "p + a \<le> ?N" "a \<le> ?L" using s m by (auto simp: a_def)
    have c1: "cb_copy_segment c dst 0 (Some p) a = Inr (take (nat a) ?xs @ drop (nat a) dst)"
      using cb_copy_segment_ok [OF inv _ a(1) _ p(2) a(3), of 0 dst] a room by simp
    show ?thesis
    proof (cases "a < m")
      case False
      then have "a = m" using a by simp
      then show ?thesis using g c1 m by (simp add: cb_copy_def a_def [symmetric])
    next
      case True
      then have as: "a = s" "p + s = ?N" using e m by (auto simp: a_def split: if_splits)
      obtain p2 s2 where g2: "cb_getBytesInternal c a = Inr (Some p2, s2)" and p2: "0 \<le> p2"
        "p2 = (mReadPtr c + a) mod ?N" and s2: "p2 + s2 \<le> ?N" "a + s2 \<le> ?L"
        "a + s2 = ?L \<or> p2 + s2 = ?N"
        using cb_getBytes_ok [OF inv, of a] L True m a by auto
      have "?L \<le> ?N" using inv by (simp add: cb_inv_def)
      moreover have "(mReadPtr c + a) mod ?N = (p + a) mod ?N"
        using p(2) by (simp add: mod_add_left_eq)
      then have "p2 = 0" using p2(2) as by simp
      ultimately have e2: "p2 + (m - a) \<le> ?N" "a + (m - a) \<le> ?L" using a m by auto
      have l1: "nat a \<le> length ?xs" "nat m \<le> length ?xs" "nat a \<le> nat m" "nat m \<le> length dst"
        using a m room uint_nat [of "mLen c"] True length_cb_contents [of c] by linarith+
      have c2: "cb_copy_segment c (take (nat a) ?xs @ drop (nat a) dst) a (Some p2) (m - a) =
          Inr (take (nat a) ?xs @ take (nat (m - a)) (drop (nat a) ?xs) @ drop (nat m) dst)"
        using cb_copy_segment_ok [OF inv a(1) _ e2(2) p2(2) e2(1) a(1), of "take (nat a) ?xs @ drop (nat a) dst"]
          l1 room True by (simp add: min_absorb2 del: length_cb_contents)
      have "nat m = nat a + nat (m - a)" using True a by simp
      then have "take (nat m) ?xs = take (nat a) ?xs @ take (nat (m - a)) (drop (nat a) ?xs)"
        by (simp add: take_add)
      then show ?thesis using g g2 c1 c2 True m
        by (simp add: cb_copy_def a_def [symmetric])
    qed
  qed
qed

section \<open>Filling from a file, clearing, construction\<close>

text \<open>
  The contract of the reader: a negative code, or the number of bytes it has stored, at most as
  many as asked for.
\<close>

definition reader_ok :: "(int \<Rightarrow> int \<times> byte list) \<Rightarrow> bool" where
  "reader_ok reader \<longleftrightarrow>
     (\<forall>k res bs. 0 \<le> k \<longrightarrow> reader k = (res, bs) \<longrightarrow> 0 \<le> res \<longrightarrow> res = int (length bs) \<and> res \<le> k)"

definition cb_fill_request :: "cbuf \<Rightarrow> int \<Rightarrow> int" where
  "cb_fill_request c n =
     (if mReadPtr c > mWritePtr c then min n (cb_getFreeSpace c)
      else min (min n (cb_getFreeSpace c)) (mEnd c - mWritePtr c))"

lemma cb_fillFromFile_request:
  assumes "min n (cb_getFreeSpace c) \<noteq> 0"
  shows "cb_fillFromFile c reader n =
     (let (res, bytes) = reader (cb_fill_request c n) in
      if res < 0 then Inr (res, c) else
      andThen (memcpy_bytes (mBuffer c) (mWritePtr c) bytes 0 (int (length bytes))) (\<lambda>b.
      let c' = c\<lparr>mBuffer := b, mWritePtr := mWritePtr c + res\<rparr>;
          c' = (if \<not> mReadPtr c > mWritePtr c \<and> mWritePtr c' = mEnd c' then c'\<lparr>mWritePtr := 0\<rparr> else c')
      in
      andThen (cb_add_length_internal c' (word_of_int res)) (\<lambda>c.
      Inr (res, c\<lparr>mDataCondition := Suc (mDataCondition c)\<rparr>))))"
proof -
  have m: "(if n > cb_getFreeSpace c then cb_getFreeSpace c else n) = min n (cb_getFreeSpace c)"
    by (simp add: min_def)
  have rq: "(if mReadPtr c > mWritePtr c then m else if m > mEnd c - mWritePtr c then mEnd c - mWritePtr c else m)
      = cb_fill_request c n" if "m = min n (cb_getFreeSpace c)" for m
    using that by (simp add: cb_fill_request_def min_def)
  show ?thesis
    using assms unfolding cb_fillFromFile_def Let_def m rq [OF refl] by (simp only: if_False)
qed

lemma cb_fillFromFile_ok:
  assumes inv: "cb_inv c" and n: "0 \<le> n" and reader: "reader_ok reader"
    and r: "reader (cb_fill_request c n) = (res, bs)"
  shows "\<exists>d. cb_fillFromFile c reader n =
      Inr (if min n (cb_getFreeSpace c) = 0 then (0, c) else if res < 0 then (res, c) else (res, d)) \<and>
    (min n (cb_getFreeSpace c) \<noteq> 0 \<and> 0 \<le> res \<longrightarrow>
       cb_inv d \<and> cb_contents d = cb_contents c @ bs \<and> mBufferSize d = mBufferSize c \<and>
       mDataCondition d = Suc (mDataCondition c))"
proof -
  let ?N = "mBufferSize c" and ?w = "mWritePtr c" and ?rd = "mReadPtr c" and ?L = "uint (mLen c)"
  have fr: "cb_getFreeSpace c = ?N - ?L"
    using inv by (simp add: cb_getFreeSpace_def cb_inv_length_internal)
  show ?thesis
  proof (cases "min n (cb_getFreeSpace c) = 0 \<or> res < 0")
    case True
    have "cb_fillFromFile c reader n = Inr (if min n (cb_getFreeSpace c) = 0 then (0, c) else (res, c))"
    proof (cases "min n (cb_getFreeSpace c) = 0")
      case True
      then show ?thesis by (auto simp: cb_fillFromFile_def Let_def min_def)
    next
      case False
      then show ?thesis using True r by (simp add: cb_fillFromFile_request)
    qed
    then show ?thesis using True by auto
  next
    case False
    have free: "0 < cb_getFreeSpace c" "0 < n"
      using False cb_getFreeSpace_bounds [OF inv] n by (auto simp: min_def split: if_splits)
    have N: "0 < ?N" "int (length (mBuffer c)) = ?N" "0 \<le> ?w" "?w < ?N" "?L \<le> ?N" "0 \<le> ?rd" "?rd \<le> ?N"
      using inv free fr by (auto simp: cb_inv_def)
    have "0 \<le> cb_fill_request c n"
      using free N by (simp add: cb_fill_request_def mEnd_def)
    then have res: "0 \<le> res" "res = int (length bs)" "res \<le> cb_fill_request c n"
      using False reader r by (auto simp: reader_ok_def)
    have fit: "?rd > ?w \<Longrightarrow> cb_getFreeSpace c = ?rd - ?w"
    proof -
      assume gt: "?rd > ?w"
      show "cb_getFreeSpace c = ?rd - ?w"
      proof (cases "?L = 0")
        case True
        then have "?rd mod ?N = ?w" using inv N by (simp add: cb_inv_def)
        then have "?rd = ?N" "?w = 0" using gt N by (cases "?rd < ?N", simp_all)+
        then show ?thesis using True fr by simp
      next
        case False
        then show ?thesis using cb_ring_cases(2) [OF inv] gt fr uint_ge_0 [of "mLen c"] by simp
      qed
    qed
    have w: "?w + res \<le> ?N" "?L + res \<le> ?N"
      using res(3) fit N fr by (auto simp: cb_fill_request_def mEnd_def split: if_splits)
    obtain b where b: "memcpy_bytes (mBuffer c) ?w bs 0 res = Inr b"
      using memcpy_bytes_ok [of res ?w "mBuffer c" 0 bs] res(1,2) w N by auto
    have put: "ring_put ?N (mBuffer c) ?w bs res b"
      using ring_put_tail [OF b] N w res by simp
    define w' where "w' = (if ?rd > ?w then ?w + res else (?w + res) mod ?N)"
    let ?d = "c\<lparr>mBuffer := b, mWritePtr := w', mLen := mLen c + word_of_int res,
       mReadPtr := (if ?rd = ?N then 0 else ?rd), mDataCondition := Suc (mDataCondition c)\<rparr>"
    have al: "cb_add_length_internal (c\<lparr>mBuffer := b, mWritePtr := x\<rparr>) (word_of_int res) =
        Inr (c\<lparr>mBuffer := b, mWritePtr := x, mLen := mLen c + word_of_int res,
               mReadPtr := (if ?rd = ?N then 0 else ?rd)\<rparr>)" for x
      using cb_add_length(1) [OF inv res(1) w(2), of "c\<lparr>mBuffer := b, mWritePtr := x\<rparr>"]
      by (simp add: mEnd_def)
    have ul: "uint (mLen c + word_of_int res) = ?L + res"
      using cb_add_length(2) [OF inv res(1) w(2), of c] by simp
    have wd: "w' = (?w + res) mod ?N \<or> w' = ?N \<and> ?w + res = ?N \<and> ?L + res = ?N \<and> (?rd = ?N)"
    proof (cases "?rd > ?w \<and> ?w + res = ?N")
      case True
      then show ?thesis using fit res(3) fr N by (auto simp: w'_def cb_fill_request_def)
    next
      case False
      then show ?thesis using N w res by (auto simp: w'_def)
    qed
    have d: "cb_inv ?d \<and> cb_contents ?d = cb_contents c @ take (nat res) bs"
      by (rule cb_contents_append [OF inv res(1) w(2), of bs ?d]) (use put res wd ul in auto)
    have "cb_fillFromFile c reader n = Inr (res, ?d)"
      using False r N b res(1,2) w al
      by (cases "?w + res = ?N") (simp_all add: cb_fillFromFile_request w'_def mEnd_def Let_def)
    then show ?thesis using False d res by auto
  qed
qed

lemma cb_clear_ok:
  "cb_inv c \<Longrightarrow> cb_inv (cb_clear c) \<and> cb_contents (cb_clear c) = []"
  by (simp add: cb_clear_def cb_inv_def cb_contents_def)

lemma CircularBuffer_new_ok:
  "0 < n \<Longrightarrow> n < 2 ^ 31 \<Longrightarrow>
   cb_inv (CircularBuffer_new heap n) \<and> cb_contents (CircularBuffer_new heap n) = []"
  by (simp add: CircularBuffer_new_def cb_inv_def cb_contents_def)

lemma CircularBuffer_wrap_ok:
  "0 < n \<Longrightarrow> n < 2 ^ 31 \<Longrightarrow> int (length buf) = n \<Longrightarrow>
   cb_inv (CircularBuffer_wrap buf n) \<and> cb_contents (CircularBuffer_wrap buf n) = []"
  by (simp add: CircularBuffer_wrap_def cb_inv_def cb_contents_def)

section \<open>Lines\<close>

text \<open>
  What the loop of \<open>peekLine\<close> computes, as a function of the unread bytes: the number of bytes up to
  the end of the first match, by a matcher that starts again from nothing on a mismatch.
\<close>

fun line_scan :: "byte list \<Rightarrow> nat \<Rightarrow> byte list \<Rightarrow> nat option" where
  "line_scan terminal state [] = None"
| "line_scan terminal state (b # bs) =
     (let state = (if uint b = terminal_at terminal state then state + 1 else 0) in
      if state = length terminal then Some 1
      else map_option Suc (line_scan terminal state bs))"

definition is_ascii :: "byte list \<Rightarrow> bool" where
  "is_ascii bs \<longleftrightarrow> (\<forall>b \<in> set bs. uint b < 128)"

lemma sint_ascii: "uint (b :: byte) < 128 \<Longrightarrow> sint b = uint b"
  using signed_take_bit_int_eq_self [of 7 "uint b"] uint_ge_0 [of b] by (simp add: sint_uint)

lemma terminal_at_ascii:
  "is_ascii t \<Longrightarrow> k < length t \<Longrightarrow> uint b = terminal_at t k \<longleftrightarrow> b = t ! k"
  by (simp add: terminal_at_def sint_ascii is_ascii_def word_uint_eq_iff)

lemma line_scan_bounds: "line_scan t st xs = Some k \<Longrightarrow> 0 < k \<and> k \<le> length xs"
  by (induction t st xs arbitrary: k rule: line_scan.induct)
    (fastforce simp: Let_def split: if_splits)+

lemma line_scan_sound:
  assumes "is_ascii t" and "line_scan t st xs = Some k" and "st < length t"
  shows "length t \<le> st + k \<and> drop (st + k - length t) (take st t @ take k xs) = t"
  using assms(2,3)
proof (induction xs arbitrary: k st)
  case Nil
  then show ?case by simp
next
  case (Cons b bs)
  have m: "uint b = terminal_at t st \<longleftrightarrow> b = t ! st"
    using assms(1) Cons.prems(2) by (rule terminal_at_ascii)
  show ?case
  proof (cases "b = t ! st")
    case True
    have tk: "take (Suc st) t = take st t @ [b]"
      using True Cons.prems(2) by (simp add: take_Suc_conv_app_nth)
    show ?thesis
    proof (cases "Suc st = length t")
      case end_: True
      then have "k = 1" using Cons.prems(1) m True by (simp add: Let_def)
      then show ?thesis using end_ tk by simp
    next
      case False
      then obtain j where j: "k = Suc j" "line_scan t (Suc st) bs = Some j"
        using Cons.prems(1) m True by (auto simp: Let_def)
      then show ?thesis using Cons.IH [OF j(2)] False Cons.prems(2) tk by simp
    qed
  next
    case False
    moreover have "t \<noteq> []" using Cons.prems(2) by auto
    ultimately obtain j where j: "k = Suc j" "line_scan t 0 bs = Some j"
      using Cons.prems(1) m by (auto simp: Let_def)
    have "length t \<le> j" "drop (j - length t) (take j bs) = t"
      using Cons.IH [OF j(2)] \<open>t \<noteq> []\<close> by auto
    then show ?thesis using j(1) Cons.prems(2) by (simp add: Suc_diff_le)
  qed
qed

lemma line_scan_Cons_neq:
  "uint b \<noteq> terminal_at t 0 \<Longrightarrow> t \<noteq> [] \<Longrightarrow> line_scan t 0 (b # bs) = map_option Suc (line_scan t 0 bs)"
  by (simp add: Let_def)

lemma line_scan_single:
  assumes "uint x < 128"
  shows "line_scan [x] 0 xs = (if x \<in> set xs then Some (Suc (length (takeWhile (\<lambda>b. b \<noteq> x) xs))) else None)"
  using assms terminal_at_ascii [of "[x]" 0] by (induction xs) (auto simp: Let_def is_ascii_def)

text \<open>
  Where the first byte of the terminal does not stand in front of the terminal, the matcher finds it:
  there it cannot be in the middle of a match that fails.
\<close>

lemma line_scan_rest:
  "is_ascii t \<Longrightarrow> st < length t \<Longrightarrow> line_scan t st (drop st t @ zs) = Some (length t - st)"
proof (induction "length t - st" arbitrary: st)
  case (Suc n)
  have d: "drop st t = t ! st # drop (Suc st) t" using Suc.prems(2) by (simp add: Cons_nth_drop_Suc)
  have m: "uint (t ! st) = terminal_at t st" using terminal_at_ascii [OF Suc.prems] by simp
  show ?case
  proof (cases "Suc st = length t")
    case False
    then have "line_scan t (Suc st) (drop (Suc st) t @ zs) = Some (length t - Suc st)"
      using Suc by (intro Suc.hyps(1)) simp_all
    then show ?thesis using d m False Suc.prems(2) by (simp add: Let_def Suc_diff_Suc)
  qed (use d m in \<open>simp add: Let_def\<close>)
qed simp

lemma line_scan_complete:
  assumes "is_ascii t" "t \<noteq> []" "hd t \<notin> set ys"
  shows "line_scan t 0 (ys @ t @ zs) = Some (length ys + length t)"
  using assms(3)
proof (induction ys)
  case Nil
  then show ?case using line_scan_rest [OF assms(1), of 0 zs] assms(2) by simp
next
  case (Cons y ys)
  have "uint y \<noteq> terminal_at t 0"
    using terminal_at_ascii [OF assms(1), of 0 y] assms(2) Cons.prems by (auto simp: hd_conv_nth)
  then show ?case using line_scan_Cons_neq [OF _ assms(2)] Cons by simp
qed

text \<open>The loop follows the ring from the read pointer to the write pointer.\<close>

lemma cb_ring_next:
  assumes "(0::int) < N" "0 \<le> p" "p < N"
  shows "(if p + 1 = N then 0 else p + 1) = (p + 1) mod N"
  using assms by auto

lemma cb_peek_loop_scan:
  assumes inv: "cb_inv c" and w: "mWritePtr c < mBufferSize c"
    and "i < unat (mLen c)" and "unat (mLen c) \<le> i + fuel"
  shows "cb_peek_loop fuel c t ((mReadPtr c + int i) mod mBufferSize c) st =
    Inr (map_option (\<lambda>k. (mReadPtr c + int (i + k) - 1) mod mBufferSize c)
          (line_scan t st (drop i (cb_contents c))))"
  using assms(3,4)
proof (induction fuel arbitrary: i st)
  case 0
  then show ?case by simp
next
  case (Suc fuel)
  let ?N = "mBufferSize c" and ?r = "mReadPtr c" and ?xs = "cb_contents c"
  have N: "0 < ?N" "int (length (mBuffer c)) = ?N" "uint (mLen c) \<le> ?N"
    "(?r + uint (mLen c)) mod ?N = mWritePtr c"
    using inv w by (auto simp: cb_inv_def)
  define p where "p = (?r + int i) mod ?N"
  have p: "0 \<le> p" "p < ?N" using N by (simp_all add: p_def)
  have dr: "drop i ?xs = ?xs ! i # drop (Suc i) ?xs"
    using Suc.prems by (simp add: Cons_nth_drop_Suc)
  have b: "cb_byte_at_offset c p = Inr (?xs ! i)"
    using p N Suc.prems by (simp add: cb_byte_at_offset_def cb_nth_contents p_def)
  define st' where "st' = (if uint (?xs ! i) = terminal_at t st then st + 1 else 0)"
  have nx: "(if p + 1 = ?N then 0 else p + 1) = (?r + int (Suc i)) mod ?N"
    unfolding cb_ring_next [OF N(1) p] unfolding p_def by (simp add: mod_add_left_eq) (simp add: ac_simps)
  have stop: "(?r + int (Suc i)) mod ?N = mWritePtr c \<longleftrightarrow> Suc i = unat (mLen c)"
  proof
    assume "(?r + int (Suc i)) mod ?N = mWritePtr c"
    then have "?N dvd (?r + uint (mLen c)) - (?r + int (Suc i))"
      using N(4) by (metis mod_eq_dvd_iff)
    then have dv: "?N dvd uint (mLen c) - int (Suc i)" by simp
    have "0 \<le> uint (mLen c) - int (Suc i)" "uint (mLen c) - int (Suc i) < ?N"
      using Suc.prems(1) N(3) uint_nat [of "mLen c"] by linarith+
    then have "uint (mLen c) - int (Suc i) = 0" using dv zdvd_not_zless by force
    then show "Suc i = unat (mLen c)" using uint_nat [of "mLen c"] by linarith
  next
    assume "Suc i = unat (mLen c)"
    then have "int (Suc i) = uint (mLen c)" by (simp only: uint_nat)
    then show "(?r + int (Suc i)) mod ?N = mWritePtr c" using N(4) by simp
  qed
  show ?case
  proof (cases "st' = length t")
    case True
    then show ?thesis using b dr
      by (simp add: Let_def p_def [symmetric] st'_def [symmetric])
  next
    case False
    show ?thesis
    proof (cases "Suc i = unat (mLen c)")
      case True
      then have "drop (Suc i) ?xs = []" by simp
      then show ?thesis using b dr False nx stop True
        by (simp add: Let_def p_def [symmetric] st'_def [symmetric] mEnd_def)
    next
      case nl: False
      have "cb_peek_loop fuel c t ((?r + int (Suc i)) mod ?N) st' =
          Inr (map_option (\<lambda>k. (?r + int (Suc i + k) - 1) mod ?N) (line_scan t st' (drop (Suc i) ?xs)))"
        by (rule Suc.IH) (use Suc.prems nl in linarith)+
      moreover have "map_option (\<lambda>k. (?r + int (Suc i + k) - 1) mod ?N) z =
          map_option (\<lambda>k. (?r + int (i + k) - 1) mod ?N) (map_option Suc z)" for z
        by (cases z) simp_all
      ultimately show ?thesis using b dr False stop nl
        by (simp only: cb_peek_loop.simps line_scan.simps p_def [symmetric] andThen_simps Let_def
            st'_def [symmetric] mEnd_def nx if_False not_False_eq_True if_True simp_thms)
    qed
  qed
qed

lemma cb_string_part_ok:
  assumes inv: "cb_inv c" and i: "0 \<le> i" "0 \<le> n" "i + n \<le> uint (mLen c)"
    and p: "p = (mReadPtr c + i) mod mBufferSize c" "p + n \<le> mBufferSize c"
  shows "cb_string_part c p n = Inr (take (nat n) (drop (nat i) (cb_contents c)))"
proof -
  have "0 < mBufferSize c" "int (length (mBuffer c)) = mBufferSize c"
    using inv by (auto simp: cb_inv_def)
  moreover from this have "0 \<le> p" using p(1) by simp
  ultimately show ?thesis
    using i(2) p(2) cb_run_contents [OF inv i p] by (simp add: cb_string_part_def)
qed

lemma cb_peekLine_found:
  assumes inv: "cb_inv c" and inside: "mReadPtr c < mBufferSize c" "mWritePtr c < mBufferSize c"
    and k: "line_scan t 0 (cb_contents c) = Some k"
    and e: "e = (if mReadPtr c + int k \<le> mBufferSize c then mReadPtr c + int k
                 else mReadPtr c + int k - mBufferSize c)"
  shows "cb_peekLine c line t =
    andThen
      (if e < mReadPtr c
       then andThen (cb_string_part c (mReadPtr c) (mBufferSize c - mReadPtr c)) (\<lambda>a.
            andThen (cb_string_part c 0 (e - int (length t))) (\<lambda>b. Inr (a @ b)))
       else cb_string_part c (mReadPtr c) (e - mReadPtr c - int (length t)))
      (\<lambda>line. Inr (int (length line) + int (length t), line))"
proof -
  let ?N = "mBufferSize c" and ?r = "mReadPtr c" and ?xs = "cb_contents c"
  have N: "0 < ?N" "0 \<le> ?r" "uint (mLen c) \<le> ?N" using inv by (auto simp: cb_inv_def)
  have kb: "0 < k" "k \<le> unat (mLen c)" using line_scan_bounds [OF k] by auto
  then have kL: "int k \<le> uint (mLen c)" and len: "0 < unat (mLen c)" and ne: "mLen c \<noteq> 0"
    using uint_nat [of "mLen c"] by (linarith, linarith, auto)
  have lN: "unat (mLen c) \<le> nat ?N" using N uint_nat [of "mLen c"] by linarith
  define fuel where "fuel = Suc (nat ?N * Suc (length t))"
  have "unat (mLen c) \<le> 0 + fuel" using lN by (simp add: fuel_def)
  then have loop: "cb_peek_loop fuel c t ?r 0 = Inr (Some ((?r + int k - 1) mod ?N))"
    using cb_peek_loop_scan [OF inv inside(2) len, of fuel t 0] inside N k by simp
  have "(?r + int k - 1) mod ?N + 1 = e"
    using ring_mod [of ?N "?r + int k - 1"] N inside kL kb(1) e by auto
  then show ?thesis
    using loop ne unfolding cb_peekLine_def fuel_def [symmetric] Let_def mEnd_def by simp
qed

text \<open>
  \<open>peekLine\<close> on every ring whose pointers are inside the buffer: the line before the first match,
  unless the match straddles the end of the buffer or a full ring ends with it; then the count
  passed to the string is negative.
\<close>

lemma cb_peekLine_ok:
  assumes inv: "cb_inv c" and inside: "mReadPtr c < mBufferSize c" "mWritePtr c < mBufferSize c"
    and t: "is_ascii t" "t \<noteq> []"
  shows "cb_peekLine c line t =
    (case line_scan t 0 (cb_contents c) of
       None \<Rightarrow> Inr (0, line)
     | Some k \<Rightarrow>
         if mReadPtr c + int k \<le> mBufferSize c \<or>
            mBufferSize c + int (length t) \<le> mReadPtr c + int k \<and> int k < mBufferSize c
         then Inr (int k, take (k - length t) (cb_contents c)) else Inl LengthError)"
proof (cases "line_scan t 0 (cb_contents c)")
  case None
  show ?thesis
  proof (cases "mLen c = 0")
    case True
    then show ?thesis using None by (simp add: cb_peekLine_def)
  next
    case False
    define fuel where "fuel = Suc (nat (mBufferSize c) * Suc (length t))"
    have "unat (mLen c) \<le> 0 + fuel"
    proof -
      have "unat (mLen c) \<le> nat (mBufferSize c)"
        using inv uint_nat [of "mLen c"] unfolding cb_inv_def by linarith
      then show ?thesis by (simp add: fuel_def)
    qed
    then have "cb_peek_loop fuel c t (mReadPtr c) 0 = Inr None"
      using cb_peek_loop_scan [OF inv inside(2), of 0 fuel t 0] inside inv False None
      by (simp add: cb_inv_def unat_gt_0)
    then show ?thesis using None False
      unfolding cb_peekLine_def fuel_def [symmetric] Let_def by simp
  qed
next
  case (Some k)
  let ?N = "mBufferSize c" and ?r = "mReadPtr c" and ?xs = "cb_contents c" and ?T = "int (length t)"
  have N: "0 < ?N" "0 \<le> ?r" "uint (mLen c) \<le> ?N" using inv by (auto simp: cb_inv_def)
  have k: "k \<le> length ?xs" "length t \<le> k"
    using line_scan_bounds [OF Some] line_scan_sound [OF t(1) Some] t(2) by auto
  have kL: "int k \<le> uint (mLen c)"
    using k(1) uint_nat [of "mLen c"] length_cb_contents [of c] by linarith
  obtain m where km: "k = m + length t" using k(2) by (metis le_add_diff_inverse2)
  have lm: "length (take m ?xs) = m" "nat (int m) = m" using k(1) km by simp_all
  have T: "0 < ?T" using t(2) by simp
  have r0: "?r = (?r + 0) mod ?N" using N inside by simp
  note found = cb_peekLine_found [OF inv inside Some refl, of line]
  consider (flat) "?r + int k \<le> ?N" | (split) "\<not> ?r + int k \<le> ?N" "?N + ?T \<le> ?r + int k" "int k < ?N"
    | (short) "\<not> ?r + int k \<le> ?N" "\<not> ?N + ?T \<le> ?r + int k" "int k < ?N"
    | (full) "\<not> ?r + int k \<le> ?N" "int k = ?N" using kL N by linarith
  then show ?thesis
  proof cases
    case flat
    have "cb_string_part c ?r (int m) = Inr (take (nat (int m)) (drop (nat 0) ?xs))"
      by (rule cb_string_part_ok [OF inv _ _ _ r0]) (use km kL flat in simp_all)
    then show ?thesis using found flat Some lm km by simp
  next
    case split
    define a where "a = ?N - ?r"
    have a: "0 \<le> a" "a \<le> int m" "?r + a = ?N" using split km inside by (auto simp: a_def)
    then have ma: "m = nat a + nat (int m - a)" by linarith
    have p1: "cb_string_part c ?r a = Inr (take (nat a) (drop (nat 0) ?xs))"
      by (rule cb_string_part_ok [OF inv _ _ _ r0]) (use km kL a in simp_all)
    have p2: "cb_string_part c 0 (int m - a) = Inr (take (nat (int m - a)) (drop (nat a) ?xs))"
      by (rule cb_string_part_ok [OF inv]) (use km kL a N in simp_all)
    have tk: "take m ?xs = take (nat a) ?xs @ take (nat (int m - a)) (drop (nat a) ?xs)"
      using ma take_add [of "nat a" "nat (int m - a)" ?xs] by argo
    have "?r + int k - ?N - ?T = int m - a" "?N - ?r = a" using km by (simp_all add: a_def)
    then have "cb_peekLine c line t = Inr (int (length (take m ?xs)) + ?T, take m ?xs)"
      using found split p1 p2 unfolding tk by simp
    then show ?thesis using split Some lm km by simp
  next
    case short
    have "cb_string_part c ?r (?N - ?r) = Inr (take (nat (?N - ?r)) (drop (nat 0) ?xs))"
      by (rule cb_string_part_ok [OF inv _ _ _ r0]) (use kL short inside in simp_all)
    then show ?thesis using found short Some by (simp add: cb_string_part_def [of c 0])
  next
    case full
    then show ?thesis using found Some T N by (simp add: cb_string_part_def)
  qed
qed

section \<open>Waiting\<close>

text \<open>
  \<open>Condition::Wait\<close> with a timeout (src/Condition.cpp): a timeout of 0 waits without limit and never
  fails; otherwise \<open>woken\<close> tells whether \<open>pthread_cond_timedwait\<close> gave 0.
\<close>

definition cond_wait :: "u32 \<Rightarrow> bool \<Rightarrow> bool" where
  "cond_wait timeoutms woken = (if timeoutms > 0 then woken else True)"

text \<open>
  \<open>waitForData\<close> and \<open>waitForFreeSpace\<close> share this loop. What happens to the ring while the caller
  sleeps is the environment's: one entry for each call of \<open>Condition::Wait\<close>, with the result of the
  limited wait, the milliseconds that \<open>TimeUtils::getDifference\<close> reports since the start and the ring at
  that time. The value is \<open>None\<close> when the caller still sleeps after the last entry; otherwise the
  timeouts that were passed to \<open>Wait\<close> and the ring at the end.
\<close>

fun cb_wait_loop ::
  "(cbuf \<Rightarrow> bool) \<Rightarrow> u32 \<Rightarrow> u32 \<Rightarrow> cbuf \<Rightarrow> (bool \<times> u32 \<times> cbuf) list \<Rightarrow> (u32 list \<times> cbuf) option" where
  "cb_wait_loop ready msecs timeout c [] = (if ready c then Some ([], c) else None)"
| "cb_wait_loop ready msecs timeout c ((woken, elapsed, c') # env) =
     (if ready c then Some ([], c)
      else if cond_wait timeout woken
      then map_option (\<lambda>(ts, d). (timeout # ts, d)) (cb_wait_loop ready msecs (msecs - elapsed) c' env)
      else Some ([timeout], c'))"

definition cb_waitForData :: "cbuf \<Rightarrow> int \<Rightarrow> u32 \<Rightarrow> (bool \<times> u32 \<times> cbuf) list \<Rightarrow> (int \<times> u32 list) option" where
  "cb_waitForData c threshold msecs env =
     map_option (\<lambda>(ts, d).
         (if cb_length_internal d \<ge> threshold then cb_length_internal d else 0, ts))
       (cb_wait_loop (\<lambda>d. \<not> cb_length_internal d < threshold) msecs msecs c env)"

definition cb_waitForFreeSpace :: "cbuf \<Rightarrow> int \<Rightarrow> u32 \<Rightarrow> (bool \<times> u32 \<times> cbuf) list \<Rightarrow> (int \<times> u32 list) option" where
  "cb_waitForFreeSpace c threshold msecs env =
     map_option (\<lambda>(ts, d).
         (if mBufferSize d - cb_length_internal d \<ge> threshold
          then mBufferSize d - cb_length_internal d else 0, ts))
       (cb_wait_loop (\<lambda>d. \<not> mBufferSize d - cb_length_internal d < threshold) msecs msecs c env)"




section \<open>The ring as a bounded queue\<close>

text \<open>
  The operations of the class as data, and what a bounded queue of capacity \<open>N\<close> promises of each:
  \<open>fifo N op xs r ys\<close> holds when \<open>op\<close> may turn the queue \<open>xs\<close> into \<open>ys\<close> and answer \<open>r\<close>.
  \<open>OpFill avail\<close> is \<open>fillFromFile\<close> on a reader that has the bytes \<open>avail\<close>.
\<close>

datatype cb_op =
  OpWrite "byte list" | OpWriteByte byte | OpWriteOverflow "byte list" | OpFill "byte list" nat |
  OpRead nat | OpSkip nat | OpCopy nat | OpByteAt nat | OpLength | OpFree | OpClear

datatype cb_res = Count int | Data int "byte list"

definition file_reader :: "byte list \<Rightarrow> int \<Rightarrow> int \<times> byte list" where
  "file_reader avail k = (int (length (take (nat k) avail)), take (nat k) avail)"

fun fifo :: "nat \<Rightarrow> cb_op \<Rightarrow> byte list \<Rightarrow> cb_res \<Rightarrow> byte list \<Rightarrow> bool" where
  "fifo N (OpWrite bs) xs r ys \<longleftrightarrow>
     (let m = min (length bs) (N - length xs) in r = Count (int m) \<and> ys = xs @ take m bs)"
| "fifo N (OpWriteByte b) xs r ys \<longleftrightarrow>
     (if length xs = N then r = Count (-1) \<and> ys = xs else r = Count 0 \<and> ys = xs @ [b])"
| "fifo N (OpWriteOverflow bs) xs r ys \<longleftrightarrow>
     r = Count (int (length bs)) \<and> ys = drop (length (xs @ bs) - N) (xs @ bs)"
| "fifo N (OpFill avail n) xs r ys \<longleftrightarrow>
     (\<exists>m \<le> min n (N - length xs). r = Count (int m) \<and> m \<le> length avail \<and> ys = xs @ take m avail \<and>
        (0 < n \<and> length xs < N \<and> avail \<noteq> [] \<longrightarrow> 0 < m))"
| "fifo N (OpRead n) xs r ys \<longleftrightarrow>
     r = Data (int (min n (length xs))) (take n xs) \<and> ys = drop n xs"
| "fifo N (OpSkip n) xs r ys \<longleftrightarrow> r = Count (int (min n (length xs))) \<and> ys = drop n xs"
| "fifo N (OpCopy n) xs r ys \<longleftrightarrow>
     r = Data (int (min n (length xs))) (take n xs) \<and> ys = xs"
| "fifo N (OpByteAt i) xs r ys \<longleftrightarrow>
     r = Count (if i < length xs then uint (xs ! i) else -1) \<and> ys = xs"
| "fifo N OpLength xs r ys \<longleftrightarrow> r = Count (int (length xs)) \<and> ys = xs"
| "fifo N OpFree xs r ys \<longleftrightarrow> r = Count (int N - int (length xs)) \<and> ys = xs"
| "fifo N OpClear xs r ys \<longleftrightarrow> r = Count 0 \<and> ys = []"

text \<open>The same operations on the ring. A caller of \<open>read\<close> and \<open>copy\<close> passes an array of the size asked for.\<close>

fun cb_step :: "cb_op \<Rightarrow> cbuf \<Rightarrow> (cb_res \<times> cbuf) outcome" where
  "cb_step (OpWrite bs) c =
     andThen (cb_write c (Some bs) (int (length bs))) (\<lambda>(n, c). Inr (Count n, c))"
| "cb_step (OpWriteByte b) c = andThen (cb_writeByte c b) (\<lambda>(n, c). Inr (Count n, c))"
| "cb_step (OpWriteOverflow bs) c =
     andThen (cb_write_overflow c bs (int (length bs))) (\<lambda>(n, c). Inr (Count n, c))"
| "cb_step (OpFill avail n) c =
     andThen (cb_fillFromFile c (file_reader avail) (int n)) (\<lambda>(n, c). Inr (Count n, c))"
| "cb_step (OpRead n) c =
     andThen (cb_read c (Some (replicate n 0)) (int n)) (\<lambda>(m, buf, c).
       Inr (Data m (take (nat m) (the buf)), c))"
| "cb_step (OpSkip n) c = andThen (cb_read c None (int n)) (\<lambda>(m, buf, c). Inr (Count m, c))"
| "cb_step (OpCopy n) c =
     andThen (cb_copy c (replicate n 0) (int n)) (\<lambda>(m, buf). Inr (Data m (take (nat m) buf), c))"
| "cb_step (OpByteAt i) c = andThen (cb_byteAt c (int i)) (\<lambda>b. Inr (Count b, c))"
| "cb_step OpLength c = Inr (Count (cb_getLength c), c)"
| "cb_step OpFree c = Inr (Count (cb_getFreeSpace c), c)"
| "cb_step OpClear c = Inr (Count 0, cb_clear c)"

fun cb_run :: "cb_op list \<Rightarrow> cbuf \<Rightarrow> (cb_res list \<times> cbuf) outcome" where
  "cb_run [] c = Inr ([], c)"
| "cb_run (op # ops) c =
     andThen (cb_step op c) (\<lambda>(r, c). andThen (cb_run ops c) (\<lambda>(rs, c). Inr (r # rs, c)))"

fun fifo_run :: "nat \<Rightarrow> cb_op list \<Rightarrow> byte list \<Rightarrow> cb_res list \<Rightarrow> byte list \<Rightarrow> bool" where
  "fifo_run N [] xs rs ys \<longleftrightarrow> rs = [] \<and> ys = xs"
| "fifo_run N (op # ops) xs rs ys \<longleftrightarrow>
     (\<exists>r zs qs. rs = r # qs \<and> fifo N op xs r zs \<and> fifo_run N ops zs qs ys)"

definition cb_refines :: "cb_op \<Rightarrow> cbuf \<Rightarrow> bool" where
  "cb_refines op c \<longleftrightarrow>
     (\<exists>r d. cb_step op c = Inr (r, d) \<and> cb_inv d \<and> mBufferSize d = mBufferSize c \<and>
            fifo (nat (mBufferSize c)) op (cb_contents c) r (cb_contents d))"

lemma cb_contents_fit: "cb_inv c \<Longrightarrow> length (cb_contents c) \<le> nat (mBufferSize c)"
proof -
  assume "cb_inv c"
  then have "uint (mLen c) \<le> mBufferSize c" by (simp add: cb_inv_def)
  then show "length (cb_contents c) \<le> nat (mBufferSize c)"
    unfolding length_cb_contents using uint_nat [of "mLen c"] by linarith
qed

lemma cb_free_nat:
  "cb_inv c \<Longrightarrow> cb_getFreeSpace c = int (nat (mBufferSize c) - length (cb_contents c))"
proof -
  assume inv: "cb_inv c"
  then have "0 < mBufferSize c" by (simp add: cb_inv_def)
  then show "cb_getFreeSpace c = int (nat (mBufferSize c) - length (cb_contents c))"
    unfolding cb_free_contents [OF inv] using cb_contents_fit [OF inv] by linarith
qed

lemma cb_refines_write:
  assumes inv: "cb_inv c"
  shows "cb_refines (OpWrite bs) c"
proof -
  let ?m = "min (length bs) (nat (mBufferSize c) - length (cb_contents c))"
  have "min (int (length bs)) (cb_getFreeSpace c) = int ?m"
    unfolding cb_free_nat [OF inv] by simp
  then obtain d where "cb_write c (Some bs) (int (length bs)) = Inr (int ?m, d)"
    "cb_written c bs (int ?m) d"
    using cb_write_ok [OF inv, of "int (length bs)" bs] by auto
  then show ?thesis by (simp add: cb_refines_def cb_written_def Let_def del: length_cb_contents)
qed

lemma cb_refines_writeByte:
  assumes inv: "cb_inv c"
  shows "cb_refines (OpWriteByte b) c"
proof (cases "length (cb_contents c) = nat (mBufferSize c)")
  case True
  then have "cb_getFreeSpace c = 0" using cb_free_nat [OF inv] by simp
  then show ?thesis
    using True inv cb_writeByte_ok(1) [OF inv] by (simp add: cb_refines_def del: length_cb_contents)
next
  case False
  then have "cb_getFreeSpace c \<noteq> 0" using cb_free_nat [OF inv] cb_contents_fit [OF inv] by linarith
  then show ?thesis
    using False cb_writeByte_ok(2) [OF inv, of b]
    by (auto simp: cb_refines_def cb_written_def simp del: length_cb_contents)
qed

lemma cb_refines_writeOverflow:
  assumes inv: "cb_inv c"
  shows "cb_refines (OpWriteOverflow bs) c"
  using cb_write_overflow_ok [OF inv, of "int (length bs)" bs]
  by (auto simp: cb_refines_def Let_def simp del: length_cb_contents)

lemma cb_refines_fill:
  assumes inv: "cb_inv c"
  shows "cb_refines (OpFill avail n) c"
proof -
  let ?xs = "cb_contents c" and ?N = "nat (mBufferSize c)" and ?k = "cb_fill_request c (int n)"
  let ?f = "min n (?N - length ?xs)"
  have rd: "reader_ok (file_reader avail)"
    by (auto simp: reader_ok_def file_reader_def min_def)
  have f: "min (int n) (cb_getFreeSpace c) = int ?f" unfolding cb_free_nat [OF inv] by simp
  have k: "?k \<le> int ?f" using f by (auto simp: cb_fill_request_def)
  have pos: "0 < ?k" if "0 < ?f"
  proof -
    have "mWritePtr c < mEnd c"
    proof -
      have "uint (mLen c) < mBufferSize c"
        using that uint_nat [of "mLen c"] length_cb_contents [of c] by linarith
      then show ?thesis using inv by (auto simp: cb_inv_def mEnd_def)
    qed
    then show ?thesis using that f by (auto simp: cb_fill_request_def)
  qed
  define l where "l = int (length (take (nat ?k) avail))"
  have l: "file_reader avail ?k = (l, take (nat ?k) avail)" "0 \<le> l" "\<not> l < 0"
    by (simp_all add: file_reader_def l_def)
  obtain d where d: "cb_fillFromFile c (file_reader avail) (int n) = Inr (if ?f = 0 then (0, c) else (l, d))"
    and dc: "?f \<noteq> 0 \<Longrightarrow> cb_inv d \<and> cb_contents d = ?xs @ take (nat ?k) avail \<and> mBufferSize d = mBufferSize c"
    using cb_fillFromFile_ok [OF inv of_nat_0_le_iff rd l(1)] l(2,3) unfolding f
    by (simp only: if_False simp_thms of_nat_eq_0_iff) blast
  show ?thesis
  proof (cases "?f = 0")
    case True
    then have "fifo ?N (OpFill avail n) ?xs (Count 0) ?xs"
      using cb_contents_fit [OF inv] by (auto simp del: length_cb_contents)
    then show ?thesis using True d inv by (auto simp: cb_refines_def simp del: length_cb_contents fifo.simps)
  next
    case False
    have "fifo ?N (OpFill avail n) ?xs (Count l) (?xs @ take (nat ?k) avail)"
      using k pos False unfolding l_def
      by (auto intro!: exI [of _ "length (take (nat ?k) avail)"] simp: min_def simp del: length_cb_contents)
    then show ?thesis using False d dc by (auto simp: cb_refines_def simp del: length_cb_contents fifo.simps)
  qed
qed

lemma cb_refines_read:
  assumes inv: "cb_inv c"
  shows "cb_refines (OpRead n) c" and "cb_refines (OpSkip n) c"
proof -
  let ?m = "min n (length (cb_contents c))"
  have m: "min (int n) (cb_length_internal c) = int ?m" unfolding cb_length_contents [OF inv] by (simp del: length_cb_contents)
  have tk: "take ?m (cb_contents c) = take n (cb_contents c)" "drop ?m (cb_contents c) = drop n (cb_contents c)"
    by (auto simp: min_def simp del: length_cb_contents)
  have "\<exists>d. cb_read c buf (int n) = Inr (int ?m, cb_delivered buf (take n (cb_contents c)), d) \<and>
      cb_consumed c (int ?m) d" if "buffer_room buf (int ?m)" for buf
    using cb_read_ok [OF inv, of "int n" buf] that m tk by (simp del: length_cb_contents)
  from this [of "Some (replicate n 0)"] this [of None]
  show "cb_refines (OpRead n) c" and "cb_refines (OpSkip n) c"
    using tk by (auto simp: cb_refines_def cb_consumed_def buffer_room_def cb_delivered_def
        simp del: length_cb_contents)
qed

lemma cb_refines_copy:
  assumes inv: "cb_inv c"
  shows "cb_refines (OpCopy n) c"
proof -
  let ?m = "min n (length (cb_contents c))"
  have m: "min (int n) (cb_length_internal c) = int ?m" unfolding cb_length_contents [OF inv] by (simp del: length_cb_contents)
  have tk: "take ?m (cb_contents c) = take n (cb_contents c)"
    by (auto simp: min_def simp del: length_cb_contents)
  have "cb_copy c (replicate n 0) (int n) = Inr (int ?m, take n (cb_contents c) @ drop ?m (replicate n 0))"
    using cb_copy_ok [OF inv, of "int n" "replicate n 0"] m tk by (simp del: length_cb_contents)
  then show ?thesis using inv tk by (simp add: cb_refines_def del: length_cb_contents)
qed

lemma cb_step_refines:
  assumes inv: "cb_inv c"
  shows "cb_refines op c"
proof (cases op)
  case (OpByteAt i)
  then show ?thesis using inv cb_byteAt_ok [OF inv, of "int i"]
    by (simp add: cb_refines_def del: length_cb_contents)
next
  case OpLength
  then show ?thesis using inv
    by (simp add: cb_refines_def cb_getLength_def cb_length_contents del: length_cb_contents)
next
  case OpFree
  then show ?thesis using inv cb_free_contents [OF inv]
    by (simp add: cb_refines_def cb_inv_def del: length_cb_contents)
next
  case OpClear
  then show ?thesis using inv cb_clear_ok [OF inv] by (simp add: cb_refines_def cb_clear_def)
qed (auto simp: inv intro: cb_refines_write cb_refines_writeByte cb_refines_writeOverflow
      cb_refines_fill cb_refines_read cb_refines_copy)

lemma cb_run_refines_from:
  assumes "cb_inv c"
  shows "\<exists>rs d. cb_run ops c = Inr (rs, d) \<and> cb_inv d \<and> mBufferSize d = mBufferSize c \<and>
     fifo_run (nat (mBufferSize c)) ops (cb_contents c) rs (cb_contents d)"
  using assms
proof (induction ops arbitrary: c)
  case (Cons op ops)
  obtain r d where s: "cb_step op c = Inr (r, d)" "cb_inv d" "mBufferSize d = mBufferSize c"
    "fifo (nat (mBufferSize c)) op (cb_contents c) r (cb_contents d)"
    using cb_step_refines [OF Cons.prems, of op] by (auto simp: cb_refines_def)
  from Cons.IH [OF s(2)] s show ?case by fastforce
qed simp

section \<open>Properties\<close>

text \<open>
  C1: every sequence of operations on a newly constructed ring of a positive size below 2^31
  returns, never reaches undefined behaviour or a fatal error, and answers as a queue of bytes of
  that capacity does: \<open>write\<close>, \<open>writeByte\<close> and \<open>fillFromFile\<close> append what fits, \<open>write_overflow\<close>
  drops the oldest bytes, \<open>read\<close> takes from the front, \<open>copy\<close> and \<open>byteAt\<close> only look.
\<close>

theorem cb_run_refines:
  assumes "0 < n" and "n < 2 ^ 31"
  shows "\<exists>rs d. cb_run ops (CircularBuffer_new heap n) = Inr (rs, d) \<and> cb_inv d \<and>
     fifo_run (nat n) ops [] rs (cb_contents d)"
  using cb_run_refines_from [of "CircularBuffer_new heap n" ops] CircularBuffer_new_ok [OF assms]
  by (auto simp: CircularBuffer_new_def)

lemma cb_run_refines_witness:
  "\<exists>rs d. cb_run [OpWrite [1, 2, 3], OpRead 2, OpWrite [4, 5, 6, 7]] (CircularBuffer_new (\<lambda>_. 0) 4) = Inr (rs, d) \<and>
     cb_inv d \<and> fifo_run 4 [OpWrite [1, 2, 3], OpRead 2, OpWrite [4, 5, 6, 7]] [] rs (cb_contents d)"
  using cb_run_refines [of 4 "[OpWrite [1, 2, 3], OpRead 2, OpWrite [4, 5, 6, 7]]" "\<lambda>_. 0"] by simp

text \<open>
  C2: \<open>getLine\<close> with an ASCII terminal that is not empty, while neither pointer rests at the end of the
  buffer. Where the matcher of the code accepts (\<open>line_scan\<close>, which starts again from nothing after a
  partial match and does not look again at the byte that ended it), the bytes taken are a line and the
  terminal; the line is returned and both are consumed, when the match lies on one side of the end of the
  buffer; a match across the end, or the last byte of a full ring that wraps, raises
  \<open>std::length_error\<close>. Where the matcher does not accept, 0 is returned and nothing is consumed. The
  matcher accepts at the first terminal whenever the terminal's first byte does not stand in front of it.
\<close>

theorem cb_getLine_ok:
  assumes "cb_inv c" "mReadPtr c < mBufferSize c" "mWritePtr c < mBufferSize c"
    and "is_ascii t" "t \<noteq> []"
  shows "(case line_scan t 0 (cb_contents c) of
      None \<Rightarrow> cb_getLine c line t = Inr (0, line, c)
    | Some k \<Rightarrow>
        if mReadPtr c + int k \<le> mBufferSize c \<or>
           mBufferSize c + int (length t) \<le> mReadPtr c + int k \<and> int k < mBufferSize c
        then \<exists>d. cb_getLine c line t = Inr (int k, take (k - length t) (cb_contents c), d) \<and>
               take k (cb_contents c) = take (k - length t) (cb_contents c) @ t \<and>
               cb_inv d \<and> cb_contents d = drop k (cb_contents c)
        else cb_getLine c line t = Inl LengthError) \<and>
    (\<forall>ys zs. cb_contents c = ys @ t @ zs \<and> hd t \<notin> set ys \<longrightarrow>
      line_scan t 0 (cb_contents c) = Some (length ys + length t))"
proof (rule conjI)
  show "case line_scan t 0 (cb_contents c) of
      None \<Rightarrow> cb_getLine c line t = Inr (0, line, c)
    | Some k \<Rightarrow>
        if mReadPtr c + int k \<le> mBufferSize c \<or>
           mBufferSize c + int (length t) \<le> mReadPtr c + int k \<and> int k < mBufferSize c
        then \<exists>d. cb_getLine c line t = Inr (int k, take (k - length t) (cb_contents c), d) \<and>
               take k (cb_contents c) = take (k - length t) (cb_contents c) @ t \<and>
               cb_inv d \<and> cb_contents d = drop k (cb_contents c)
        else cb_getLine c line t = Inl LengthError"
  proof (cases "line_scan t 0 (cb_contents c)")
    case None
    then show ?thesis using cb_peekLine_ok [OF assms]
      by (simp add: cb_getLine_def cb_read_def cb_inv_length_internal [OF assms(1)])
  next
    case (Some k)
    have k: "k \<le> length (cb_contents c)" "0 < k" "length t \<le> k"
      "drop (k - length t) (take k (cb_contents c)) = t"
      using line_scan_bounds [OF Some] line_scan_sound [OF assms(4) Some] assms(5) by auto
    have "take k (cb_contents c) = take (k - length t) (cb_contents c) @ t"
      using append_take_drop_id [of "k - length t" "take k (cb_contents c)"] k by (simp add: min_absorb1)
    moreover have "int k \<le> cb_length_internal c"
      using cb_length_contents [OF assms(1)] k(1) by linarith
    then have "\<exists>d. cb_read c None (int k) = Inr (int k, None, d) \<and> cb_consumed c (int k) d"
      using cb_read_pos [OF assms(1), of "int k" None] k(2) by (simp add: buffer_room_def cb_delivered_def)
    ultimately show ?thesis using Some cb_peekLine_ok [OF assms]
      by (auto simp: cb_getLine_def cb_consumed_def simp del: length_cb_contents)
  qed
  show "\<forall>ys zs. cb_contents c = ys @ t @ zs \<and> hd t \<notin> set ys \<longrightarrow>
      line_scan t 0 (cb_contents c) = Some (length ys + length t)"
    using line_scan_complete [OF assms(4,5)] by simp
qed

definition crlf_ring :: cbuf where
  "crlf_ring = \<lparr>mBuffer = [10, 66, 65, 13], mReadPtr = 2, mWritePtr = 1, mBufferSize = 4, mLen = 3,
     mDataCondition = 0, mFreeCondition = 0, mFreeBuffer = True\<rparr>"

lemma cb_getLine_ok_witness:
  "cb_getLine crlf_ring [] [13, 10] = Inl LengthError"
proof -
  have "cb_inv crlf_ring" "mReadPtr crlf_ring < mBufferSize crlf_ring"
    "mWritePtr crlf_ring < mBufferSize crlf_ring" "is_ascii [13, 10]" "[13, 10 :: byte] \<noteq> []"
    by (simp_all add: crlf_ring_def cb_inv_def is_ascii_def)
  note bad = conjunct1 [OF cb_getLine_ok [OF this, of "[]"]]
  have "cb_contents crlf_ring = [65, 13, 10]" by code_simp
  moreover have "line_scan [13, 10] 0 [65, 13, 10] = Some 3" by code_simp
  ultimately show ?thesis using bad by (simp add: crlf_ring_def)
qed

text \<open>The same failure from a new ring: two bytes in and out, then a line of one byte.\<close>

lemma cb_getLine_straddle:
  "andThen (cb_run [OpWrite [0, 0], OpSkip 2, OpWrite [65, 13, 10]] (CircularBuffer_new (\<lambda>_. 0) 4))
     (\<lambda>(_, c). cb_getLine c [] [13, 10]) = Inl LengthError"
  by code_simp

text \<open>
  The matcher starts again from nothing on a mismatch: in \<open>CR CR LF\<close> it does not see the terminal
  \<open>CR LF\<close>.
\<close>

lemma cb_getLine_missed:
  "andThen (cb_run [OpWrite [13, 13, 10]] (CircularBuffer_new (\<lambda>_. 0) 8))
     (\<lambda>(_, c). cb_getLine c [] [13, 10]) =
   Inr (0, [], \<lparr>mBuffer = [13, 13, 10, 0, 0, 0, 0, 0], mReadPtr = 0, mWritePtr = 3, mBufferSize = 8,
     mLen = 3, mDataCondition = 1, mFreeCondition = 0, mFreeBuffer = True\<rparr>)"
  by code_simp

text \<open>After a read that ends at \<open>mEnd\<close>, \<open>peekLine\<close> follows the read pointer out of the buffer.\<close>

lemma cb_peekLine_outside:
  "andThen (cb_run [OpWrite [1, 2, 3], OpSkip 2, OpWrite [4, 5], OpSkip 2] (CircularBuffer_new (\<lambda>_. 0) 4))
     (\<lambda>(_, c). cb_peekLine c [] [10]) = Inl UndefinedBehaviour"
  by code_simp

text \<open>
  When \<open>fillFromFile\<close> has filled the ring from behind a read pointer at \<open>mEnd\<close>, the write pointer
  rests at \<open>mEnd\<close>, which the loop of \<open>peekLine\<close> never reaches: without a byte that starts the
  terminal it goes round for ever, whatever the number of iterations allowed.
\<close>

theorem cb_peek_loop_diverges:
  assumes "cb_inv c" "mWritePtr c = mBufferSize c" "t \<noteq> []"
    and "\<forall>b \<in> set (mBuffer c). uint b \<noteq> terminal_at t 0"
  shows "cb_peek_loop fuel c t (mReadPtr c) 0 = Inl NoReturn"
proof -
  have N: "0 < mBufferSize c" "int (length (mBuffer c)) = mBufferSize c" "mReadPtr c = 0"
    using assms(1,2) by (auto simp: cb_inv_def)
  have "0 \<le> p \<Longrightarrow> p < mBufferSize c \<Longrightarrow> cb_peek_loop fuel c t p 0 = Inl NoReturn" for p
  proof (induction fuel arbitrary: p)
    case (Suc fuel)
    then have "mBuffer c ! nat p \<in> set (mBuffer c)" using N by (intro nth_mem) linarith
    then show ?case using Suc N assms
      by (auto simp: cb_byte_at_offset_def mEnd_def Let_def)
  qed simp
  then show ?thesis using N by simp
qed

lemma cb_peek_loop_diverges_witness:
  "\<exists>rs c. cb_run [OpWrite [1, 2, 3], OpSkip 2, OpWrite [4, 5], OpSkip 2, OpFill [6, 7, 8] 3]
       (CircularBuffer_new (\<lambda>_. 0) 4) = Inr (rs, c) \<and>
     cb_peek_loop 100 c [10] (mReadPtr c) 0 = Inl NoReturn"
proof -
  let ?c = "\<lparr>mBuffer = [5, 6, 7, 8], mReadPtr = 0, mWritePtr = 4, mBufferSize = 4,
     mLen = 4, mDataCondition = 3, mFreeCondition = 2, mFreeBuffer = True\<rparr>"
  have "cb_run [OpWrite [1, 2, 3], OpSkip 2, OpWrite [4, 5], OpSkip 2, OpFill [6, 7, 8] 3]
       (CircularBuffer_new (\<lambda>_. 0) 4) = Inr ([Count 3, Count 2, Count 2, Count 2, Count 3], ?c)"
    by code_simp
  moreover have "cb_peek_loop 100 ?c [10] (mReadPtr ?c) 0 = Inl NoReturn"
    by (rule cb_peek_loop_diverges) (simp_all add: cb_inv_def terminal_at_def)
  ultimately show ?thesis by blast
qed



text \<open>A wake-up after \<open>msecs\<close> that is not a timeout makes the next wait all but endless.\<close>

lemma cb_waitForData_underflow:
  "cb_waitForData (CircularBuffer_new (\<lambda>_. 0) 4) 2 50
     [(True, 51, CircularBuffer_new (\<lambda>_. 0) 4), (True, 60, crlf_ring)] = Some (3, [50, 4294967295])"
  by code_simp

end
