(* ===== verification/JHList.thy ===== *)
theory JHList
  imports JH_Prelude
begin

text \<open>
  The doubly linked list of src/include/jh_list.h, on an explicit heap of nodes. The object has a
  head and a tail node that hold no value; an iterator is a pointer to a node. Every access through
  a null pointer or to a node that is not allocated, and every read of a value that was never
  written, is undefined behaviour. \<open>jl_rep l as xs\<close> says that the list \<open>l\<close> holds the values \<open>xs\<close>
  in the nodes \<open>as\<close> and that no other node is allocated. The locale \<open>sequence\<close> is the interface the clients of the list use: loops over
  iterators that erase, insert or look; it is interpreted on the operations of this class.
\<close>

section \<open>State\<close>

type_synonym addr = nat

record 'a node =
  node_val :: "'a option"
  node_next :: "addr option"
  node_prev :: "addr option"

record 'a jlist =
  jl_heap :: "addr \<Rightarrow> 'a node option"
  jl_fresh :: addr
  jl_mHead :: "addr option"
  jl_mTail :: "addr option"

definition jl_node :: "'a jlist \<Rightarrow> addr option \<Rightarrow> 'a node outcome" where
  "jl_node l p = (case p of None \<Rightarrow> Inl UndefinedBehaviour
     | Some a \<Rightarrow> (case jl_heap l a of None \<Rightarrow> Inl UndefinedBehaviour | Some n \<Rightarrow> Inr n))"

definition jl_store :: "'a jlist \<Rightarrow> addr option \<Rightarrow> ('a node \<Rightarrow> 'a node) \<Rightarrow> 'a jlist outcome" where
  "jl_store l p f = andThen (jl_node l p) (\<lambda>n. Inr (l\<lparr>jl_heap := (jl_heap l)(the p \<mapsto> f n)\<rparr>))"

definition jl_alloc :: "'a jlist \<Rightarrow> 'a jlist \<times> addr option" where
  "jl_alloc l =
     (l\<lparr>jl_heap := (jl_heap l)(jl_fresh l \<mapsto> \<lparr>node_val = None, node_next = None, node_prev = None\<rparr>),
        jl_fresh := Suc (jl_fresh l)\<rparr>, Some (jl_fresh l))"

definition jl_delete :: "'a jlist \<Rightarrow> addr option \<Rightarrow> 'a jlist outcome" where
  "jl_delete l p = (case p of None \<Rightarrow> Inr l
     | Some a \<Rightarrow> (if jl_heap l a = None then Inl UndefinedBehaviour
                  else Inr (l\<lparr>jl_heap := (jl_heap l)(a := None)\<rparr>)))"

definition jl_next :: "'a jlist \<Rightarrow> addr option \<Rightarrow> addr option outcome" where
  "jl_next l p = andThen (jl_node l p) (\<lambda>n. Inr (node_next n))"

definition jl_prev :: "'a jlist \<Rightarrow> addr option \<Rightarrow> addr option outcome" where
  "jl_prev l p = andThen (jl_node l p) (\<lambda>n. Inr (node_prev n))"

definition jl_val :: "'a jlist \<Rightarrow> addr option \<Rightarrow> 'a outcome" where
  "jl_val l p = andThen (jl_node l p) (\<lambda>n.
     case node_val n of None \<Rightarrow> Inl UndefinedBehaviour | Some v \<Rightarrow> Inr v)"

section \<open>Operations of the list\<close>

definition jl_list :: "'a jlist outcome" where
  "jl_list =
     (let l = \<lparr>jl_heap = Map.empty, jl_fresh = 0, jl_mHead = None, jl_mTail = None\<rparr>;
          (l, h) = jl_alloc l;
          (l, t) = jl_alloc l;
          l = l\<lparr>jl_mHead := h, jl_mTail := t\<rparr>
      in
      andThen (jl_store l (jl_mHead l) (\<lambda>n. n\<lparr>node_next := jl_mTail l\<rparr>)) (\<lambda>l.
      andThen (jl_store l (jl_mHead l) (\<lambda>n. n\<lparr>node_prev := None\<rparr>)) (\<lambda>l.
      andThen (jl_store l (jl_mTail l) (\<lambda>n. n\<lparr>node_prev := jl_mHead l\<rparr>)) (\<lambda>l.
      jl_store l (jl_mTail l) (\<lambda>n. n\<lparr>node_next := None\<rparr>)))))"

definition jl_empty :: "'a jlist \<Rightarrow> bool outcome" where
  "jl_empty l = andThen (jl_next l (jl_mHead l)) (\<lambda>n. Inr (n = jl_mTail l))"

definition jl_front :: "'a jlist \<Rightarrow> 'a outcome" where
  "jl_front l = andThen (jl_next l (jl_mHead l)) (jl_val l)"

definition jl_back :: "'a jlist \<Rightarrow> 'a outcome" where
  "jl_back l = andThen (jl_prev l (jl_mTail l)) (jl_val l)"

definition jl_pop_front :: "'a jlist \<Rightarrow> 'a jlist outcome" where
  "jl_pop_front l =
     andThen (jl_next l (jl_mHead l)) (\<lambda>temp.
     if temp = jl_mTail l then Inr l else
     andThen (jl_next l temp) (\<lambda>n.
     andThen (jl_store l (jl_mHead l) (\<lambda>h. h\<lparr>node_next := n\<rparr>)) (\<lambda>l.
     andThen (jl_delete l temp) (\<lambda>l.
     andThen (jl_next l (jl_mHead l)) (\<lambda>q.
     jl_store l q (\<lambda>m. m\<lparr>node_prev := jl_mHead l\<rparr>))))))"

definition jl_pop_back :: "'a jlist \<Rightarrow> 'a jlist outcome" where
  "jl_pop_back l =
     andThen (jl_prev l (jl_mTail l)) (\<lambda>temp.
     if temp = jl_mHead l then Inr l else
     andThen (jl_prev l temp) (\<lambda>p.
     andThen (jl_store l (jl_mTail l) (\<lambda>t. t\<lparr>node_prev := p\<rparr>)) (\<lambda>l.
     andThen (jl_delete l temp) (\<lambda>l.
     andThen (jl_prev l (jl_mTail l)) (\<lambda>q.
     jl_store l q (\<lambda>m. m\<lparr>node_next := jl_mTail l\<rparr>))))))"

definition jl_push_front :: "'a jlist \<Rightarrow> 'a \<Rightarrow> 'a jlist outcome" where
  "jl_push_front l v =
     (let (l, new) = jl_alloc l in
      andThen (jl_store l new (\<lambda>n. n\<lparr>node_val := Some v\<rparr>)) (\<lambda>l.
      andThen (jl_next l (jl_mHead l)) (\<lambda>q.
      andThen (jl_store l new (\<lambda>n. n\<lparr>node_next := q\<rparr>)) (\<lambda>l.
      andThen (jl_store l new (\<lambda>n. n\<lparr>node_prev := jl_mHead l\<rparr>)) (\<lambda>l.
      andThen (jl_next l (jl_mHead l)) (\<lambda>q.
      andThen (jl_store l q (\<lambda>n. n\<lparr>node_prev := new\<rparr>)) (\<lambda>l.
      jl_store l (jl_mHead l) (\<lambda>n. n\<lparr>node_next := new\<rparr>))))))))"

definition jl_push_back :: "'a jlist \<Rightarrow> 'a \<Rightarrow> 'a jlist outcome" where
  "jl_push_back l v =
     (let (l, new) = jl_alloc l in
      andThen (jl_store l new (\<lambda>n. n\<lparr>node_val := Some v\<rparr>)) (\<lambda>l.
      andThen (jl_prev l (jl_mTail l)) (\<lambda>p.
      andThen (jl_store l new (\<lambda>n. n\<lparr>node_prev := p\<rparr>)) (\<lambda>l.
      andThen (jl_store l new (\<lambda>n. n\<lparr>node_next := jl_mTail l\<rparr>)) (\<lambda>l.
      andThen (jl_prev l (jl_mTail l)) (\<lambda>p.
      andThen (jl_store l p (\<lambda>n. n\<lparr>node_next := new\<rparr>)) (\<lambda>l.
      jl_store l (jl_mTail l) (\<lambda>n. n\<lparr>node_prev := new\<rparr>))))))))"

text \<open>\<open>size\<close> counts the nodes from the head on, both sentinels included, in an \<open>unsigned\<close>.\<close>

fun jl_count :: "nat \<Rightarrow> 'a jlist \<Rightarrow> addr option \<Rightarrow> u32 \<Rightarrow> u32 outcome" where
  "jl_count fuel l None ret = Inr ret"
| "jl_count 0 l (Some a) ret = Inl NoReturn"
| "jl_count (Suc fuel) l (Some a) ret =
     andThen (jl_next l (Some a)) (\<lambda>n. jl_count fuel l n (ret + 1))"

definition jl_size :: "nat \<Rightarrow> 'a jlist \<Rightarrow> u32 outcome" where
  "jl_size fuel l = andThen (jl_count fuel l (jl_mHead l) 0) (\<lambda>ret. Inr (ret - 2))"

section \<open>Iterators\<close>

definition jl_begin :: "'a jlist \<Rightarrow> addr option outcome" where
  "jl_begin l = jl_next l (jl_mHead l)"

definition jl_end :: "'a jlist \<Rightarrow> addr option outcome" where
  "jl_end l = Inr (jl_mTail l)"

definition jl_rbegin :: "'a jlist \<Rightarrow> addr option outcome" where
  "jl_rbegin l = Inr (jl_mHead l)"

definition jl_rend :: "'a jlist \<Rightarrow> addr option outcome" where
  "jl_rend l = jl_prev l (jl_mTail l)"

definition it_deref :: "'a jlist \<Rightarrow> addr option \<Rightarrow> 'a outcome" where
  "it_deref l i = jl_val l i"

definition it_incr :: "'a jlist \<Rightarrow> addr option \<Rightarrow> addr option outcome" where
  "it_incr l i = (if i \<noteq> None then jl_next l i else Inr i)"

definition it_decr :: "'a jlist \<Rightarrow> addr option \<Rightarrow> addr option outcome" where
  "it_decr l i = (if i \<noteq> None then jl_prev l i else Inr i)"

definition it_insertAfter :: "'a jlist \<Rightarrow> addr option \<Rightarrow> 'a \<Rightarrow> 'a jlist outcome" where
  "it_insertAfter l i v =
     (let (l, new) = jl_alloc l in
      andThen (jl_store l new (\<lambda>n. n\<lparr>node_val := Some v\<rparr>)) (\<lambda>l.
      andThen (jl_store l new (\<lambda>n. n\<lparr>node_prev := i\<rparr>)) (\<lambda>l.
      andThen (jl_next l i) (\<lambda>q.
      andThen (jl_store l new (\<lambda>n. n\<lparr>node_next := q\<rparr>)) (\<lambda>l.
      andThen (jl_next l i) (\<lambda>q.
      andThen (jl_store l q (\<lambda>n. n\<lparr>node_prev := new\<rparr>)) (\<lambda>l.
      jl_store l i (\<lambda>n. n\<lparr>node_next := new\<rparr>))))))))"

definition it_insertBefore :: "'a jlist \<Rightarrow> addr option \<Rightarrow> 'a \<Rightarrow> 'a jlist outcome" where
  "it_insertBefore l i v = andThen (jl_prev l i) (\<lambda>p. it_insertAfter l p v)"

definition it_erase :: "'a jlist \<Rightarrow> addr option \<Rightarrow> ('a jlist \<times> addr option) outcome" where
  "it_erase l i =
     (if i = None then Inr (l, i) else
      andThen (jl_next l i) (\<lambda>nx. if nx = None then Inr (l, i) else
      andThen (jl_prev l i) (\<lambda>pv. if pv = None then Inr (l, i) else
      andThen (jl_store l pv (\<lambda>n. n\<lparr>node_next := nx\<rparr>)) (\<lambda>l.
      andThen (jl_store l nx (\<lambda>n. n\<lparr>node_prev := pv\<rparr>)) (\<lambda>l.
      andThen (jl_delete l i) (\<lambda>l. Inr (l, nx)))))))"

fun jl_clear :: "nat \<Rightarrow> 'a jlist \<Rightarrow> 'a jlist outcome" where
  "jl_clear 0 l = Inl NoReturn"
| "jl_clear (Suc fuel) l =
     andThen (jl_empty l) (\<lambda>e. if e then Inr l else
     andThen (jl_begin l) (\<lambda>i. andThen (it_erase l i) (\<lambda>(l, _). jl_clear fuel l)))"

text \<open>The destructor frees every node from the head on and leaves both pointers null.\<close>

fun jl_destroy :: "nat \<Rightarrow> 'a jlist \<Rightarrow> 'a jlist outcome" where
  "jl_destroy 0 l = Inl NoReturn"
| "jl_destroy (Suc fuel) l =
     (if jl_mHead l = None then Inr (l\<lparr>jl_mTail := None\<rparr>)
      else andThen (jl_next l (jl_mHead l)) (\<lambda>temp.
           andThen (jl_delete l (jl_mHead l)) (\<lambda>l. jl_destroy fuel (l\<lparr>jl_mHead := temp\<rparr>))))"

text \<open>The loop of the copy constructor, from an iterator of the source.\<close>

fun jl_copy_loop :: "nat \<Rightarrow> 'a jlist \<Rightarrow> addr option \<Rightarrow> 'a jlist \<Rightarrow> 'a jlist outcome" where
  "jl_copy_loop 0 rhs i l = Inl NoReturn"
| "jl_copy_loop (Suc fuel) rhs i l =
     andThen (jl_end rhs) (\<lambda>e. if i = e then Inr l else
     andThen (it_deref rhs i) (\<lambda>v. andThen (jl_push_back l v) (\<lambda>l.
     andThen (it_incr rhs i) (\<lambda>i. jl_copy_loop fuel rhs i l))))"

text \<open>
  The copy is built with \<open>push_back\<close> in a list made by the constructor. As every list has its own heap here,
  that the nodes of the copy are not those of the original is part of the model, not a result.
\<close>

definition jl_copy :: "nat \<Rightarrow> 'a jlist \<Rightarrow> 'a jlist outcome" where
  "jl_copy fuel rhs = andThen jl_list (\<lambda>l. andThen (jl_begin rhs) (\<lambda>i. jl_copy_loop fuel rhs i l))"

section \<open>Representation\<close>

text \<open>\<open>dseg h p ns n\<close>: the nodes \<open>ns\<close> are linked both ways; \<open>p\<close> is before the first, \<open>n\<close> after the last.\<close>

fun dseg :: "(addr \<Rightarrow> 'a node option) \<Rightarrow> addr option \<Rightarrow> addr list \<Rightarrow> addr option \<Rightarrow> bool" where
  "dseg h p [] n \<longleftrightarrow> True"
| "dseg h p (a # as) n \<longleftrightarrow>
     (\<exists>nd. h a = Some nd \<and> node_prev nd = p \<and>
           node_next nd = (case as of [] \<Rightarrow> n | b # _ \<Rightarrow> Some b)) \<and> dseg h (Some a) as n"

definition jl_rep :: "'a jlist \<Rightarrow> addr list \<Rightarrow> 'a list \<Rightarrow> bool" where
  "jl_rep l as xs \<longleftrightarrow>
     (\<exists>hd tl. jl_mHead l = Some hd \<and> jl_mTail l = Some tl \<and>
        distinct (hd # as @ [tl]) \<and>
        dseg (jl_heap l) None (hd # as @ [tl]) None \<and>
        (\<forall>a \<in> set (hd # as @ [tl]). a < jl_fresh l) \<and>
        dom (jl_heap l) = set (hd # as @ [tl]) \<and>
        map (\<lambda>a. map_option node_val (jl_heap l a)) as = map (\<lambda>x. Some (Some x)) xs)"

definition jl_inv :: "'a jlist \<Rightarrow> bool" where
  "jl_inv l \<longleftrightarrow> (\<exists>as xs. jl_rep l as xs)"

lemma dseg_append:
  "dseg h p (A @ B) n \<longleftrightarrow>
     dseg h p A (case B of [] \<Rightarrow> n | b # _ \<Rightarrow> Some b) \<and> dseg h (if A = [] then p else Some (last A)) B n"
proof (induction A arbitrary: p)
  case (Cons a A)
  then show ?case by (cases A) auto
qed simp

lemma dseg_frame [simp]: "x \<notin> set ns \<Longrightarrow> dseg (h(x := v)) p ns n = dseg h p ns n"
  by (induction ns arbitrary: p) auto

text \<open>What inserting a node behind \<open>p\<close> and taking a node out do to the heap.\<close>

definition heap_insert :: "(addr \<Rightarrow> 'a node option) \<Rightarrow> addr \<Rightarrow> 'a \<Rightarrow> addr \<Rightarrow> addr \<Rightarrow> (addr \<Rightarrow> 'a node option)" where
  "heap_insert h new v p q =
     (h(new \<mapsto> \<lparr>node_val = Some v, node_next = Some q, node_prev = Some p\<rparr>,
        q \<mapsto> (the (h q))\<lparr>node_prev := Some new\<rparr>,
        p \<mapsto> (the (h p))\<lparr>node_next := Some new\<rparr>))"

definition heap_remove :: "(addr \<Rightarrow> 'a node option) \<Rightarrow> addr \<Rightarrow> addr \<Rightarrow> addr \<Rightarrow> (addr \<Rightarrow> 'a node option)" where
  "heap_remove h p x q =
     (h(p \<mapsto> (the (h p))\<lparr>node_next := Some q\<rparr>, q \<mapsto> (the (h q))\<lparr>node_prev := Some p\<rparr>))(x := None)"

lemma dseg_insert:
  assumes "dseg h P (A @ p # q # B) N" "distinct (A @ p # q # B)" "new \<notin> set (A @ p # q # B)"
  shows "dseg (heap_insert h new v p q) P (A @ p # new # q # B) N"
  using assms by (auto simp: heap_insert_def dseg_append)

lemma dseg_remove:
  assumes "dseg h P (A @ p # x # q # B) N" "distinct (A @ p # x # q # B)"
  shows "dseg (heap_remove h p x q) P (A @ p # q # B) N"
  using assms by (auto simp: heap_remove_def dseg_append)

lemma dseg_adjacent:
  assumes "dseg h P (A @ p # q # B) N"
  obtains np nq where "h p = Some np" "node_next np = Some q" "h q = Some nq" "node_prev nq = Some p"
  using assms by (auto simp: dseg_append)

text \<open>The four ways to insert a node have the same effect.\<close>

lemmas jl_defs = jl_store_def jl_node_def jl_next_def jl_prev_def jl_val_def jl_delete_def

lemma it_insertAfter_heap:
  assumes "jl_heap l p = Some np" "node_next np = Some q" "jl_heap l q = Some nq" "p \<noteq> q"
    "p < jl_fresh l" "q < jl_fresh l"
  shows "it_insertAfter l (Some p) v =
    Inr (l\<lparr>jl_heap := heap_insert (jl_heap l) (jl_fresh l) v p q, jl_fresh := Suc (jl_fresh l)\<rparr>)"
  using assms by (auto simp: it_insertAfter_def jl_alloc_def jl_defs heap_insert_def fun_upd_twist)

lemma jl_push_front_heap:
  assumes "jl_mHead l = Some p" "jl_heap l p = Some np" "node_next np = Some q" "jl_heap l q = Some nq" "p \<noteq> q"
    "p < jl_fresh l" "q < jl_fresh l"
  shows "jl_push_front l v =
    Inr (l\<lparr>jl_heap := heap_insert (jl_heap l) (jl_fresh l) v p q, jl_fresh := Suc (jl_fresh l)\<rparr>)"
  using assms by (auto simp: jl_push_front_def jl_alloc_def jl_defs heap_insert_def fun_upd_twist)

lemma jl_push_back_heap:
  assumes "jl_mTail l = Some q" "jl_heap l q = Some nq" "node_prev nq = Some p" "jl_heap l p = Some np" "p \<noteq> q"
    "p < jl_fresh l" "q < jl_fresh l"
  shows "jl_push_back l v =
    Inr (l\<lparr>jl_heap := heap_insert (jl_heap l) (jl_fresh l) v p q, jl_fresh := Suc (jl_fresh l)\<rparr>)"
  using assms by (auto simp: jl_push_back_def jl_alloc_def jl_defs heap_insert_def fun_upd_twist)

lemma it_erase_heap:
  assumes "jl_heap l x = Some nx" "node_next nx = Some q" "node_prev nx = Some p"
    "jl_heap l p = Some np" "jl_heap l q = Some nq" "distinct [p, x, q]"
  shows "it_erase l (Some x) = Inr (l\<lparr>jl_heap := heap_remove (jl_heap l) p x q\<rparr>, Some q)"
  using assms by (auto simp: it_erase_def jl_defs heap_remove_def fun_upd_twist)

lemma jl_pop_front_heap:
  assumes "jl_mHead l = Some p" "jl_heap l p = Some np" "node_next np = Some x" "jl_mTail l \<noteq> Some x"
    "jl_heap l x = Some nx" "node_next nx = Some q" "jl_heap l q = Some nq" "distinct [p, x, q]"
  shows "jl_pop_front l = Inr (l\<lparr>jl_heap := heap_remove (jl_heap l) p x q\<rparr>)"
  using assms by (auto simp: jl_pop_front_def jl_defs heap_remove_def fun_upd_twist)

lemma jl_pop_back_heap:
  assumes "jl_mTail l = Some q" "jl_heap l q = Some nq" "node_prev nq = Some x" "jl_mHead l \<noteq> Some x"
    "jl_heap l x = Some nx" "node_prev nx = Some p" "jl_heap l p = Some np" "distinct [p, x, q]"
  shows "jl_pop_back l = Inr (l\<lparr>jl_heap := heap_remove (jl_heap l) p x q\<rparr>)"
  using assms by (auto simp: jl_pop_back_def jl_defs heap_remove_def fun_upd_twist)

text \<open>Inserting and removing at a position of the represented list.\<close>

definition jl_nodes :: "'a jlist \<Rightarrow> addr list \<Rightarrow> addr list" where
  "jl_nodes l as = the (jl_mHead l) # as @ [the (jl_mTail l)]"

lemma jl_repD:
  assumes "jl_rep l as xs"
  shows "jl_mHead l = Some (the (jl_mHead l))" "jl_mTail l = Some (the (jl_mTail l))"
    "distinct (jl_nodes l as)" "dseg (jl_heap l) None (jl_nodes l as) None"
    "\<forall>a \<in> set (jl_nodes l as). a < jl_fresh l" "dom (jl_heap l) = set (jl_nodes l as)"
    "map (\<lambda>a. map_option node_val (jl_heap l a)) as = map (\<lambda>x. Some (Some x)) xs"
    "length as = length xs"
proof -
  show "length as = length xs"
    using assms unfolding jl_rep_def by (metis length_map)
qed (use assms in \<open>auto simp: jl_rep_def jl_nodes_def\<close>)

lemma jl_repI:
  assumes "jl_mHead l = Some h" "jl_mTail l = Some t" "distinct (jl_nodes l as)"
    "dseg (jl_heap l) None (jl_nodes l as) None" "\<forall>a \<in> set (jl_nodes l as). a < jl_fresh l"
    "dom (jl_heap l) = set (jl_nodes l as)"
    "map (\<lambda>a. map_option node_val (jl_heap l a)) as = map (\<lambda>x. Some (Some x)) xs"
  shows "jl_rep l as xs"
  using assms by (auto simp: jl_rep_def jl_nodes_def)

lemma jl_rep_split:
  assumes "jl_rep l as xs" "k \<le> length xs"
  obtains A p q B where "jl_nodes l as = A @ p # q # B" "length A = k"
    "A @ [p] = take (k + 1) (jl_nodes l as)" "q # B = drop (k + 1) (jl_nodes l as)"
proof -
  let ?ns = "jl_nodes l as"
  have len: "length ?ns = length xs + 2"
    using jl_repD(8) [OF assms(1)] by (simp add: jl_nodes_def)
  have "take (k + 1) ?ns = take k ?ns @ [?ns ! k]" "drop (k + 1) ?ns = ?ns ! (k + 1) # drop (k + 2) ?ns"
    using assms(2) len by (simp_all add: take_Suc_conv_app_nth Cons_nth_drop_Suc)
  moreover have "?ns = take (k + 1) ?ns @ drop (k + 1) ?ns" by simp
  ultimately show thesis
    using that [of "take k ?ns" "?ns ! k" "?ns ! (k + 1)" "drop (k + 2) ?ns"] assms(2) len by simp
qed

lemma node_val_insert:
  assumes "h p = Some np" "h q = Some nq" "a \<noteq> new"
  shows "map_option node_val (heap_insert h new v p q a) = map_option node_val (h a)"
  using assms by (auto simp: heap_insert_def)

lemma node_val_remove:
  assumes "h p = Some np" "h q = Some nq" "a \<noteq> x"
  shows "map_option node_val (heap_remove h p x q a) = map_option node_val (h a)"
  using assms by (auto simp: heap_remove_def)

lemma jl_rep_insert:
  fixes v :: 'a and l :: "'a jlist"
  assumes rep: "jl_rep l as xs" and k: "k \<le> length xs"
    and split: "jl_nodes l as = A @ p # q # B" "length A = k"
  defines "new \<equiv> jl_fresh l"
  defines "l' \<equiv> l\<lparr>jl_heap := heap_insert (jl_heap l) new v p q, jl_fresh := Suc new\<rparr>"
  shows "jl_rep l' (take k as @ new # drop k as) (take k xs @ v # drop k xs)"
proof (rule jl_repI)
  note r = jl_repD [OF rep]
  have fresh: "new \<notin> set (jl_nodes l as)" using r(5) by (auto simp: new_def)
  have ns: "jl_nodes l' (take k as @ new # drop k as) = A @ p # new # q # B"
  proof -
    have e: "take (k + 1) (jl_nodes l as) @ new # drop (k + 1) (jl_nodes l as) = A @ p # new # q # B"
      using split by simp
    show ?thesis unfolding e [symmetric] using k r(8) by (simp add: jl_nodes_def l'_def)
  qed
  obtain np nq where pq: "jl_heap l p = Some np" "jl_heap l q = Some nq"
    using dseg_adjacent r(4) unfolding split(1) by metis
  have lt: "p < new" "q < new" using r(5) split(1) by (auto simp: new_def)
  show "jl_mHead l' = Some (the (jl_mHead l))" "jl_mTail l' = Some (the (jl_mTail l))"
    using r(1,2) by (simp_all add: l'_def)
  show "distinct (jl_nodes l' (take k as @ new # drop k as))"
    unfolding ns using r(3) fresh unfolding split(1) by auto
  show "dseg (jl_heap l') None (jl_nodes l' (take k as @ new # drop k as)) None"
    unfolding ns using dseg_insert [OF _ _ fresh [unfolded split(1)]] r(3,4) split(1)
    by (simp add: l'_def)
  show "\<forall>a \<in> set (jl_nodes l' (take k as @ new # drop k as)). a < jl_fresh l'"
    unfolding ns using r(5) unfolding split(1) by (auto simp: l'_def new_def less_Suc_eq)
  show "dom (jl_heap l') = set (jl_nodes l' (take k as @ new # drop k as))"
    unfolding ns using r(6) unfolding split(1) by (auto simp: l'_def heap_insert_def)
  have keep: "map_option node_val (jl_heap l' a) = map_option node_val (jl_heap l a)" if "a \<in> set as" for a
    using node_val_insert [OF pq, of a new v] that fresh by (auto simp: l'_def jl_nodes_def)
  have val: "map_option node_val (jl_heap l' new) = Some (Some v)"
    using lt by (simp add: l'_def heap_insert_def)
  have "map (\<lambda>a. map_option node_val (jl_heap l' a)) as = map (\<lambda>x. Some (Some x)) xs"
    using keep r(7) by (simp cong: map_cong)
  then show "map (\<lambda>a. map_option node_val (jl_heap l' a)) (take k as @ new # drop k as) =
      map (\<lambda>x. Some (Some x)) (take k xs @ v # drop k xs)"
    using val by (simp flip: take_map drop_map)
qed

lemma jl_rep_remove:
  assumes rep: "jl_rep l as xs" and k: "k < length xs"
    and split: "jl_nodes l as = A @ p # x # q # B" "length A = k"
  defines "l' \<equiv> l\<lparr>jl_heap := heap_remove (jl_heap l) p x q\<rparr>"
  shows "jl_rep l' (take k as @ drop (k + 1) as) (take k xs @ drop (k + 1) xs)"
proof (rule jl_repI)
  note r = jl_repD [OF rep]
  have ns: "jl_nodes l' (take k as @ drop (k + 1) as) = A @ p # q # B"
  proof -
    have e: "take (k + 1) (jl_nodes l as) @ drop (k + 2) (jl_nodes l as) = A @ p # q # B"
      using split by simp
    show ?thesis unfolding e [symmetric] using k r(8) by (simp add: jl_nodes_def l'_def)
  qed
  have x: "x = as ! k"
  proof -
    have "jl_nodes l as ! (k + 1) = x" using split by (simp add: nth_append)
    then show ?thesis using k r(8) by (simp add: jl_nodes_def nth_append)
  qed
  obtain np nq where pq: "jl_heap l p = Some np" "jl_heap l q = Some nq"
    using r(4) unfolding split(1) by (auto simp: dseg_append)
  have lt: "p < jl_fresh l" "q < jl_fresh l" using r(5) split(1) by auto
  show "jl_mHead l' = Some (the (jl_mHead l))" "jl_mTail l' = Some (the (jl_mTail l))"
    using r(1,2) by (simp_all add: l'_def)
  show "distinct (jl_nodes l' (take k as @ drop (k + 1) as))"
    unfolding ns using r(3) unfolding split(1) by auto
  show "dseg (jl_heap l') None (jl_nodes l' (take k as @ drop (k + 1) as)) None"
    unfolding ns using dseg_remove r(3,4) split(1) by (simp add: l'_def)
  show "\<forall>a \<in> set (jl_nodes l' (take k as @ drop (k + 1) as)). a < jl_fresh l'"
    unfolding ns using r(5) unfolding split(1) by (auto simp: l'_def)
  have "x \<notin> set (A @ p # q # B)" using r(3) unfolding split(1) by auto
  then show "dom (jl_heap l') = set (jl_nodes l' (take k as @ drop (k + 1) as))"
    unfolding ns using r(6) unfolding split(1) by (auto simp: l'_def heap_remove_def)
  have "distinct as" using r(3) by (simp add: jl_nodes_def)
  then have "distinct (take k as @ x # drop (k + 1) as)"
    using k r(8) x by (metis Suc_eq_plus1 id_take_nth_drop)
  then have "\<forall>a \<in> set (take k as @ drop (k + 1) as). a \<noteq> x" by auto
  then have "map (\<lambda>a. map_option node_val (jl_heap l' a)) (take k as @ drop (k + 1) as) =
      map (\<lambda>a. map_option node_val (jl_heap l a)) (take k as @ drop (k + 1) as)"
    using node_val_remove [OF pq, of _ x] by (intro map_cong refl) (simp add: l'_def)
  also have "\<dots> = map (\<lambda>x. Some (Some x)) (take k xs @ drop (k + 1) xs)"
    using r(7) by (simp flip: take_map drop_map)
  finally show "map (\<lambda>a. map_option node_val (jl_heap l' a)) (take k as @ drop (k + 1) as) =
      map (\<lambda>x. Some (Some x)) (take k xs @ drop (k + 1) xs)" .
qed

section \<open>The interface of a sequence with iterators\<close>

text \<open>
  \<open>rep l w xs\<close>: the container \<open>l\<close> holds \<open>xs\<close> and \<open>w\<close> lists its iterator positions, one before the
  first element, one for each element and one behind the last.
\<close>

locale sequence =
  fixes rep :: "'l \<Rightarrow> 'i list \<Rightarrow> 'a list \<Rightarrow> bool"
    and begin_of :: "'l \<Rightarrow> 'i outcome" and end_of :: "'l \<Rightarrow> 'i outcome"
    and deref :: "'l \<Rightarrow> 'i \<Rightarrow> 'a outcome"
    and incr :: "'l \<Rightarrow> 'i \<Rightarrow> 'i outcome" and decr :: "'l \<Rightarrow> 'i \<Rightarrow> 'i outcome"
    and insert_before :: "'l \<Rightarrow> 'i \<Rightarrow> 'a \<Rightarrow> 'l outcome"
    and erase :: "'l \<Rightarrow> 'i \<Rightarrow> ('l \<times> 'i) outcome"
    and push_back :: "'l \<Rightarrow> 'a \<Rightarrow> 'l outcome"
  assumes positions: "rep l w xs \<Longrightarrow> length w = length xs + 2 \<and> distinct w"
    and begin_law: "rep l w xs \<Longrightarrow> begin_of l = Inr (w ! 1)"
    and end_law: "rep l w xs \<Longrightarrow> end_of l = Inr (w ! (length xs + 1))"
    and deref_law: "rep l w xs \<Longrightarrow> k < length xs \<Longrightarrow> deref l (w ! (k + 1)) = Inr (xs ! k)"
    and incr_law: "rep l w xs \<Longrightarrow> k \<le> length xs \<Longrightarrow> incr l (w ! k) = Inr (w ! (k + 1))"
    and decr_law: "rep l w xs \<Longrightarrow> k \<le> length xs \<Longrightarrow> decr l (w ! (k + 1)) = Inr (w ! k)"
    and insert_law: "rep l w xs \<Longrightarrow> k \<le> length xs \<Longrightarrow>
      \<exists>l' n. insert_before l (w ! (k + 1)) v = Inr l' \<and>
             rep l' (take (k + 1) w @ n # drop (k + 1) w) (take k xs @ v # drop k xs)"
    and erase_law: "rep l w xs \<Longrightarrow> k < length xs \<Longrightarrow>
      \<exists>l'. erase l (w ! (k + 1)) = Inr (l', w ! (k + 2)) \<and>
           rep l' (take (k + 1) w @ drop (k + 2) w) (take k xs @ drop (k + 1) xs)"
    and push_back_law: "rep l w xs \<Longrightarrow> \<exists>l' w'. push_back l v = Inr l' \<and> rep l' w' (xs @ [v])"

text \<open>
  The loops that the clients write, with a state \<open>s\<close> that their bodies change. \<open>for_erase_if\<close> is
  \<^verbatim>\<open>for (i = begin; i != end; ++i) if (visit(*i)) { i = i.erase(); --i; }\<close>, \<open>while_erase_if\<close> is
  \<^verbatim>\<open>while (i != end) { if (visit(*i)) { i = i.erase(); continue; } ++i; }\<close> and \<open>for_insert_before\<close> is
  \<^verbatim>\<open>for (...) if (test(*i)) { i.insertBefore(v); done = true; break; }\<close> followed by
  \<^verbatim>\<open>if (!done) push_back(v)\<close>.
\<close>

fun for_erase_if ::
  "('l \<Rightarrow> 'i outcome) \<Rightarrow> ('l \<Rightarrow> 'i \<Rightarrow> 'a outcome) \<Rightarrow> ('l \<Rightarrow> 'i \<Rightarrow> 'i outcome) \<Rightarrow> ('l \<Rightarrow> 'i \<Rightarrow> 'i outcome) \<Rightarrow>
   ('l \<Rightarrow> 'i \<Rightarrow> ('l \<times> 'i) outcome) \<Rightarrow> ('s \<Rightarrow> 'a \<Rightarrow> (bool \<times> 's) outcome) \<Rightarrow>
   nat \<Rightarrow> 's \<Rightarrow> 'l \<Rightarrow> 'i \<Rightarrow> ('s \<times> 'l) outcome" where
  "for_erase_if end_of deref incr decr erase visit 0 s l i = Inl NoReturn"
| "for_erase_if end_of deref incr decr erase visit (Suc fuel) s l i =
     andThen (end_of l) (\<lambda>e. if i = e then Inr (s, l) else
     andThen (deref l i) (\<lambda>x.
     andThen (visit s x) (\<lambda>(b, s).
     if b
     then andThen (erase l i) (\<lambda>(l, i). andThen (decr l i) (\<lambda>i. andThen (incr l i) (\<lambda>i.
          for_erase_if end_of deref incr decr erase visit fuel s l i)))
     else andThen (incr l i) (\<lambda>i. for_erase_if end_of deref incr decr erase visit fuel s l i))))"

fun while_erase_if ::
  "('l \<Rightarrow> 'i outcome) \<Rightarrow> ('l \<Rightarrow> 'i \<Rightarrow> 'a outcome) \<Rightarrow> ('l \<Rightarrow> 'i \<Rightarrow> 'i outcome) \<Rightarrow>
   ('l \<Rightarrow> 'i \<Rightarrow> ('l \<times> 'i) outcome) \<Rightarrow> ('s \<Rightarrow> 'a \<Rightarrow> (bool \<times> 's) outcome) \<Rightarrow>
   nat \<Rightarrow> 's \<Rightarrow> 'l \<Rightarrow> 'i \<Rightarrow> ('s \<times> 'l) outcome" where
  "while_erase_if end_of deref incr erase visit 0 s l i = Inl NoReturn"
| "while_erase_if end_of deref incr erase visit (Suc fuel) s l i =
     andThen (end_of l) (\<lambda>e. if i = e then Inr (s, l) else
     andThen (deref l i) (\<lambda>x.
     andThen (visit s x) (\<lambda>(b, s).
     if b
     then andThen (erase l i) (\<lambda>(l, i). while_erase_if end_of deref incr erase visit fuel s l i)
     else andThen (incr l i) (\<lambda>i. while_erase_if end_of deref incr erase visit fuel s l i))))"

fun for_insert_before ::
  "('l \<Rightarrow> 'i outcome) \<Rightarrow> ('l \<Rightarrow> 'i \<Rightarrow> 'a outcome) \<Rightarrow> ('l \<Rightarrow> 'i \<Rightarrow> 'i outcome) \<Rightarrow>
   ('l \<Rightarrow> 'i \<Rightarrow> 'a \<Rightarrow> 'l outcome) \<Rightarrow> ('l \<Rightarrow> 'a \<Rightarrow> 'l outcome) \<Rightarrow>
   ('a \<Rightarrow> bool outcome) \<Rightarrow> 'a \<Rightarrow> nat \<Rightarrow> 'l \<Rightarrow> 'i \<Rightarrow> 'l outcome" where
  "for_insert_before end_of deref incr ins push test v 0 l i = Inl NoReturn"
| "for_insert_before end_of deref incr ins push test v (Suc fuel) l i =
     andThen (end_of l) (\<lambda>e. if i = e then push l v else
     andThen (deref l i) (\<lambda>x.
     andThen (test x) (\<lambda>b.
     if b then ins l i v
     else andThen (incr l i) (\<lambda>i. for_insert_before end_of deref incr ins push test v fuel l i))))"

text \<open>\<^verbatim>\<open>for (...) if (test(*i)) return *i; return NULL;\<close>\<close>

fun for_find ::
  "('l \<Rightarrow> 'i outcome) \<Rightarrow> ('l \<Rightarrow> 'i \<Rightarrow> 'a outcome) \<Rightarrow> ('l \<Rightarrow> 'i \<Rightarrow> 'i outcome) \<Rightarrow>
   ('a \<Rightarrow> bool outcome) \<Rightarrow> nat \<Rightarrow> 'l \<Rightarrow> 'i \<Rightarrow> 'a option outcome" where
  "for_find end_of deref incr test 0 l i = Inl NoReturn"
| "for_find end_of deref incr test (Suc fuel) l i =
     andThen (end_of l) (\<lambda>e. if i = e then Inr None else
     andThen (deref l i) (\<lambda>x.
     andThen (test x) (\<lambda>b.
     if b then Inr (Some x)
     else andThen (incr l i) (\<lambda>i. for_find end_of deref incr test fuel l i))))"

text \<open>The same loops on plain lists.\<close>

fun visit_filter :: "('s \<Rightarrow> 'a \<Rightarrow> (bool \<times> 's) outcome) \<Rightarrow> 's \<Rightarrow> 'a list \<Rightarrow> ('s \<times> 'a list) outcome" where
  "visit_filter visit s [] = Inr (s, [])"
| "visit_filter visit s (x # xs) =
     andThen (visit s x) (\<lambda>(b, s). andThen (visit_filter visit s xs) (\<lambda>(s, ys).
     Inr (s, if b then ys else x # ys)))"

fun test_insert :: "('a \<Rightarrow> bool outcome) \<Rightarrow> 'a \<Rightarrow> 'a list \<Rightarrow> 'a list outcome" where
  "test_insert test v [] = Inr [v]"
| "test_insert test v (x # xs) =
     andThen (test x) (\<lambda>b. if b then Inr (v # x # xs)
     else andThen (test_insert test v xs) (\<lambda>ys. Inr (x # ys)))"

definition insert_before_first :: "('a \<Rightarrow> bool) \<Rightarrow> 'a \<Rightarrow> 'a list \<Rightarrow> 'a list" where
  "insert_before_first P v xs = takeWhile (Not \<circ> P) xs @ v # dropWhile (Not \<circ> P) xs"

lemma test_insert_pure:
  "\<forall>x \<in> set xs. test x = Inr (P x) \<Longrightarrow> test_insert test v xs = Inr (insert_before_first P v xs)"
  by (induction xs) (auto simp: insert_before_first_def)

lemma visit_filter_pure:
  "\<forall>x \<in> set xs. \<forall>s. visit s x = Inr (P x, if P x then f s x else s) \<Longrightarrow>
   visit_filter visit s xs = Inr (foldl f s (filter P xs), filter (\<lambda>x. \<not> P x) xs)"
  by (induction xs arbitrary: s) auto

lemma take_nth_drop: "k < length xs \<Longrightarrow> drop k xs = xs ! k # drop (k + 1) xs"
  by (simp add: Cons_nth_drop_Suc)

context sequence
begin

lemma end_iff:
  assumes "rep l w xs" "k \<le> length xs"
  shows "w ! (k + 1) = w ! (length xs + 1) \<longleftrightarrow> k = length xs"
  using positions [OF assms(1)] assms(2) by (simp add: nth_eq_iff_index_eq)

lemma erase_step:
  assumes "rep l w xs" "k < length xs"
  obtains l' w' where "erase l (w ! (k + 1)) = Inr (l', w' ! (k + 1))"
    "rep l' w' (take k xs @ drop (k + 1) xs)"
proof -
  obtain l' where "erase l (w ! (k + 1)) = Inr (l', w ! (k + 2))"
    "rep l' (take (k + 1) w @ drop (k + 2) w) (take k xs @ drop (k + 1) xs)"
    using erase_law [OF assms] by blast
  moreover have "(take (k + 1) w @ drop (k + 2) w) ! (k + 1) = w ! (k + 2)"
    using positions [OF assms(1)] assms(2) by (simp add: nth_append min_absorb2)
  ultimately show thesis using that by metis
qed

text \<open>\<open>loop_result r zs k xs\<close>: the loop ends as the list version does, having changed the rest from \<open>k\<close> on.\<close>

definition loop_result :: "('s \<times> 'l) outcome \<Rightarrow> ('s \<times> 'a list) outcome \<Rightarrow> 'a list \<Rightarrow> bool" where
  "loop_result r z before \<longleftrightarrow>
     (case z of Inl e \<Rightarrow> r = Inl e
      | Inr (s, ys) \<Rightarrow> \<exists>l w. r = Inr (s, l) \<and> rep l w (before @ ys))"

lemma loop_result_keep:
  "loop_result r z (before @ [x]) \<Longrightarrow> loop_result r (andThen z (\<lambda>(s, ys). Inr (s, x # ys))) before"
  by (auto simp: loop_result_def split: sum.splits)

lemma for_erase_if_rep:
  assumes "rep l w xs" "k \<le> length xs" "length xs - k < fuel"
  shows "loop_result (for_erase_if end_of deref incr decr erase visit fuel s l (w ! (k + 1)))
    (visit_filter visit s (drop k xs)) (take k xs)"
  using assms
proof (induction fuel arbitrary: s l w xs k)
  case (Suc fuel)
  show ?case
  proof (cases "k = length xs")
    case True
    then show ?thesis using Suc.prems end_law by (auto simp: loop_result_def)
  next
    case False
    then have k: "k < length xs" using Suc.prems(2) by simp
    have lt: "length xs - Suc k < fuel" "k \<le> length xs - Suc 0" using Suc.prems(3) k by arith+
    have e: "end_of l = Inr (w ! (length xs + 1))" "w ! (k + 1) \<noteq> w ! (length xs + 1)"
      using end_law [OF Suc.prems(1)] end_iff [OF Suc.prems(1,2)] False by auto
    have d: "deref l (w ! (k + 1)) = Inr (xs ! k)" using deref_law [OF Suc.prems(1) k] .
    show ?thesis
    proof (cases "visit s (xs ! k)")
      case (Inl f)
      then show ?thesis using e d take_nth_drop [OF k] by (simp add: loop_result_def)
    next
      case (Inr v)
      obtain b s' where v: "visit s (xs ! k) = Inr (b, s')" using Inr by (cases v) auto
      show ?thesis
      proof (cases b)
        case True
        obtain l' w' where l': "erase l (w ! (k + 1)) = Inr (l', w' ! (k + 1))"
          "rep l' w' (take k xs @ drop (k + 1) xs)"
          using erase_step [OF Suc.prems(1) k] .
        have "decr l' (w' ! (k + 1)) = Inr (w' ! k)" "incr l' (w' ! k) = Inr (w' ! (k + 1))"
          using decr_law [OF l'(2), of k] incr_law [OF l'(2), of k] k by auto
        moreover have "loop_result (for_erase_if end_of deref incr decr erase visit fuel s' l' (w' ! (k + 1)))
            (visit_filter visit s' (drop (k + 1) xs)) (take k xs)"
          using Suc.IH [OF l'(2), of k s'] lt k by (simp add: min_absorb2)
        ultimately show ?thesis using e d l'(1) v True take_nth_drop [OF k]
          by (cases "visit_filter visit s' (drop (k + 1) xs)") (auto simp: loop_result_def)
      next
        case bf: False
        have "incr l (w ! (k + 1)) = Inr (w ! (k + 1 + 1))"
          using incr_law [OF Suc.prems(1), of "k + 1"] k by auto
        moreover have "loop_result (for_erase_if end_of deref incr decr erase visit fuel s' l (w ! (k + 1 + 1)))
            (visit_filter visit s' (drop (k + 1) xs)) (take k xs @ [xs ! k])"
          using Suc.IH [OF Suc.prems(1), of "k + 1" s'] lt k by (simp add: take_Suc_conv_app_nth)
        ultimately show ?thesis using e d v bf take_nth_drop [OF k] loop_result_keep by simp
      qed
    qed
  qed
qed simp

lemma while_erase_if_rep:
  assumes "rep l w xs" "k \<le> length xs" "length xs - k < fuel"
  shows "loop_result (while_erase_if end_of deref incr erase visit fuel s l (w ! (k + 1)))
    (visit_filter visit s (drop k xs)) (take k xs)"
  using assms
proof (induction fuel arbitrary: s l w xs k)
  case (Suc fuel)
  show ?case
  proof (cases "k = length xs")
    case True
    then show ?thesis using Suc.prems end_law by (auto simp: loop_result_def)
  next
    case False
    then have k: "k < length xs" using Suc.prems(2) by simp
    have lt: "length xs - Suc k < fuel" "k \<le> length xs - Suc 0" using Suc.prems(3) k by arith+
    have e: "end_of l = Inr (w ! (length xs + 1))" "w ! (k + 1) \<noteq> w ! (length xs + 1)"
      using end_law [OF Suc.prems(1)] end_iff [OF Suc.prems(1,2)] False by auto
    have d: "deref l (w ! (k + 1)) = Inr (xs ! k)" using deref_law [OF Suc.prems(1) k] .
    show ?thesis
    proof (cases "visit s (xs ! k)")
      case (Inl f)
      then show ?thesis using e d take_nth_drop [OF k] by (simp add: loop_result_def)
    next
      case (Inr v)
      obtain b s' where v: "visit s (xs ! k) = Inr (b, s')" using Inr by (cases v) auto
      show ?thesis
      proof (cases b)
        case True
        obtain l' w' where l': "erase l (w ! (k + 1)) = Inr (l', w' ! (k + 1))"
          "rep l' w' (take k xs @ drop (k + 1) xs)"
          using erase_step [OF Suc.prems(1) k] .
        moreover have "loop_result (while_erase_if end_of deref incr erase visit fuel s' l' (w' ! (k + 1)))
            (visit_filter visit s' (drop (k + 1) xs)) (take k xs)"
          using Suc.IH [OF l'(2), of k s'] lt k by (simp add: min_absorb2)
        ultimately show ?thesis using e d v True take_nth_drop [OF k]
          by (cases "visit_filter visit s' (drop (k + 1) xs)") (auto simp: loop_result_def)
      next
        case bf: False
        have "incr l (w ! (k + 1)) = Inr (w ! (k + 1 + 1))"
          using incr_law [OF Suc.prems(1), of "k + 1"] k by auto
        moreover have "loop_result (while_erase_if end_of deref incr erase visit fuel s' l (w ! (k + 1 + 1)))
            (visit_filter visit s' (drop (k + 1) xs)) (take k xs @ [xs ! k])"
          using Suc.IH [OF Suc.prems(1), of "k + 1" s'] lt k by (simp add: take_Suc_conv_app_nth)
        ultimately show ?thesis using e d v bf take_nth_drop [OF k] loop_result_keep by simp
      qed
    qed
  qed
qed simp

definition insert_result :: "'l outcome \<Rightarrow> 'a list outcome \<Rightarrow> 'a list \<Rightarrow> bool" where
  "insert_result r z before \<longleftrightarrow>
     (case z of Inl e \<Rightarrow> r = Inl e | Inr ys \<Rightarrow> \<exists>l w. r = Inr l \<and> rep l w (before @ ys))"

lemma insert_result_keep:
  "insert_result r z (before @ [x]) \<Longrightarrow> insert_result r (andThen z (\<lambda>ys. Inr (x # ys))) before"
  by (auto simp: insert_result_def split: sum.splits)

lemma for_insert_before_rep:
  assumes "rep l w xs" "k \<le> length xs" "length xs - k < fuel"
  shows "insert_result
    (for_insert_before end_of deref incr insert_before push_back test v fuel l (w ! (k + 1)))
    (test_insert test v (drop k xs)) (take k xs)"
  using assms
proof (induction fuel arbitrary: k)
  case (Suc fuel)
  show ?case
  proof (cases "k = length xs")
    case True
    then show ?thesis using Suc.prems end_law push_back_law [OF Suc.prems(1), of v]
      by (auto simp: insert_result_def)
  next
    case False
    then have k: "k < length xs" using Suc.prems(2) by simp
    have lt: "length xs - Suc k < fuel" using Suc.prems(3) k by arith
    have e: "end_of l = Inr (w ! (length xs + 1))" "w ! (k + 1) \<noteq> w ! (length xs + 1)"
      using end_law [OF Suc.prems(1)] end_iff [OF Suc.prems(1,2)] False by auto
    have d: "deref l (w ! (k + 1)) = Inr (xs ! k)" using deref_law [OF Suc.prems(1) k] .
    consider (err) f where "test (xs ! k) = Inl f" | (yes) "test (xs ! k) = Inr True"
      | (no) "test (xs ! k) = Inr False" by (cases "test (xs ! k)") auto
    then show ?thesis
    proof cases
      case err
      then show ?thesis using e d take_nth_drop [OF k] by (simp add: insert_result_def)
    next
      case yes
      obtain l' n where "insert_before l (w ! (k + 1)) v = Inr l'"
        "rep l' (take (k + 1) w @ n # drop (k + 1) w) (take k xs @ v # drop k xs)"
        using insert_law [OF Suc.prems(1,2)] by blast
      then show ?thesis using e d yes take_nth_drop [OF k] by (auto simp: insert_result_def)
    next
      case no
      have "incr l (w ! (k + 1)) = Inr (w ! (k + 1 + 1))"
        using incr_law [OF Suc.prems(1), of "k + 1"] k by auto
      moreover have "insert_result
          (for_insert_before end_of deref incr insert_before push_back test v fuel l (w ! (k + 1 + 1)))
          (test_insert test v (drop (k + 1) xs)) (take k xs @ [xs ! k])"
        using Suc.IH [OF Suc.prems(1), of "k + 1"] lt k by (simp add: take_Suc_conv_app_nth)
      ultimately show ?thesis using e d no take_nth_drop [OF k] insert_result_keep by simp
    qed
  qed
qed simp

lemma for_find_rep:
  assumes "rep l w xs" "k \<le> length xs" "length xs - k < fuel" "\<forall>x \<in> set xs. test x = Inr (P x)"
  shows "for_find end_of deref incr test fuel l (w ! (k + 1)) = Inr (find P (drop k xs))"
  using assms
proof (induction fuel arbitrary: k)
  case (Suc fuel)
  show ?case
  proof (cases "k = length xs")
    case True
    then show ?thesis using end_law [OF Suc.prems(1)] by simp
  next
    case False
    then have k: "k < length xs" using Suc.prems(2) by simp
    then have "length xs - (k + 1) < fuel" "k + 1 \<le> length xs" using Suc.prems(3) by arith+
    from Suc.IH [OF Suc.prems(1) this(2,1) Suc.prems(4)]
    show ?thesis
      using k False end_law [OF Suc.prems(1)] end_iff [OF Suc.prems(1,2)] deref_law [OF Suc.prems(1) k]
        incr_law [OF Suc.prems(1), of "k + 1"] take_nth_drop [OF k] Suc.prems(4) by simp
  qed
qed simp

text \<open>From the first element on, with more iterations than the container has elements.\<close>

lemma for_find_begin:
  assumes "rep l w xs" "length xs < fuel" "\<forall>x \<in> set xs. test x = Inr (P x)"
  shows "andThen (begin_of l) (for_find end_of deref incr test fuel l) = Inr (find P xs)"
  using for_find_rep [OF assms(1), of 0 fuel test P] begin_law [OF assms(1)] assms(2,3) by simp

lemma for_erase_if_begin:
  assumes "rep l w xs" "length xs < fuel" "visit_filter visit s xs = Inr (s', ys)"
  shows "\<exists>l' w'. andThen (begin_of l) (for_erase_if end_of deref incr decr erase visit fuel s l) =
       Inr (s', l') \<and> rep l' w' ys"
  using for_erase_if_rep [OF assms(1), of 0 fuel visit s] begin_law [OF assms(1)] assms(2,3)
  by (auto simp: loop_result_def)

lemma while_erase_if_begin:
  assumes "rep l w xs" "length xs < fuel" "visit_filter visit s xs = Inr (s', ys)"
  shows "\<exists>l' w'. andThen (begin_of l) (while_erase_if end_of deref incr erase visit fuel s l) =
       Inr (s', l') \<and> rep l' w' ys"
  using while_erase_if_rep [OF assms(1), of 0 fuel visit s] begin_law [OF assms(1)] assms(2,3)
  by (auto simp: loop_result_def)

lemma while_erase_if_begin_fault:
  assumes "rep l w xs" "length xs < fuel" "visit_filter visit s xs = Inl e"
  shows "andThen (begin_of l) (while_erase_if end_of deref incr erase visit fuel s l) = Inl e"
  using while_erase_if_rep [OF assms(1), of 0 fuel visit s] begin_law [OF assms(1)] assms(2,3)
  by (auto simp: loop_result_def)

lemma for_insert_before_begin:
  assumes "rep l w xs" "length xs < fuel" "test_insert test v xs = Inr ys"
  shows "\<exists>l' w'. andThen (begin_of l)
       (for_insert_before end_of deref incr insert_before push_back test v fuel l) = Inr l' \<and>
     rep l' w' ys"
  using for_insert_before_rep [OF assms(1), of 0 fuel test v] begin_law [OF assms(1)] assms(2,3)
  by (auto simp: insert_result_def)

end

section \<open>The linked list provides the interface\<close>

definition jl_seq :: "'a jlist \<Rightarrow> addr option list \<Rightarrow> 'a list \<Rightarrow> bool" where
  "jl_seq l w xs \<longleftrightarrow> (\<exists>as. jl_rep l as xs \<and> w = map Some (jl_nodes l as))"

lemma jl_seq_nodes:
  assumes "jl_seq l w xs" "k \<le> length xs"
  obtains as A p q B np nq where "jl_rep l as xs" "w = map Some (jl_nodes l as)"
    "jl_nodes l as = A @ p # q # B" "length A = k" "w ! k = Some p" "w ! (k + 1) = Some q"
    "jl_heap l p = Some np" "node_next np = Some q" "jl_heap l q = Some nq" "node_prev nq = Some p"
    "p \<noteq> q" "p < jl_fresh l" "q < jl_fresh l"
proof -
  obtain as where as: "jl_rep l as xs" "w = map Some (jl_nodes l as)"
    using assms(1) by (auto simp: jl_seq_def)
  obtain A p q B where s: "jl_nodes l as = A @ p # q # B" "length A = k"
    by (rule jl_rep_split [OF as(1) assms(2)])
  have seg: "dseg (jl_heap l) None (A @ p # q # B) None"
    using jl_repD(4) [OF as(1)] unfolding s(1) .
  obtain np nq where h: "jl_heap l p = Some np" "node_next np = Some q" "jl_heap l q = Some nq"
    "node_prev nq = Some p"
    by (rule dseg_adjacent [OF seg])
  have "p \<noteq> q" "p < jl_fresh l" "q < jl_fresh l"
    using jl_repD(3,5) [OF as(1)] unfolding s(1) by auto
  moreover have "w ! k = Some p" "w ! (k + 1) = Some q"
    unfolding as(2) s(1) using s(2) by (simp_all add: nth_append)
  ultimately show thesis using that [OF as s _ _ h] by blast
qed

lemma jl_seq_ends:
  assumes "jl_seq l w xs"
  shows "jl_mHead l = w ! 0" "jl_mTail l = w ! (length xs + 1)"
proof -
  obtain as where as: "jl_rep l as xs" "w = map Some (jl_nodes l as)"
    using assms by (auto simp: jl_seq_def)
  show "jl_mHead l = w ! 0" "jl_mTail l = w ! (length xs + 1)"
    unfolding as(2) using jl_repD(1,2,8) [OF as(1)] by (simp_all add: jl_nodes_def nth_append)
qed

lemma jl_seq_val:
  assumes "jl_seq l w xs" "k < length xs"
  shows "jl_val l (w ! (k + 1)) = Inr (xs ! k)"
proof -
  obtain as where as: "jl_rep l as xs" "w = map Some (jl_nodes l as)"
    using assms(1) by (auto simp: jl_seq_def)
  have len: "length as = length xs" using jl_repD(8) [OF as(1)] .
  have "map_option node_val (jl_heap l (as ! k)) = Some (Some (xs ! k))"
    using arg_cong [OF jl_repD(7) [OF as(1)], of "\<lambda>ys. ys ! k"] assms(2) len by simp
  moreover have "w ! (k + 1) = Some (as ! k)"
    using as(2) assms(2) len by (simp add: jl_nodes_def nth_append)
  ultimately show ?thesis by (auto simp: jl_val_def jl_node_def)
qed

lemma jl_seq_insertAfter:
  assumes "jl_seq l w xs" "k \<le> length xs"
  shows "\<exists>l' n. it_insertAfter l (w ! k) v = Inr l' \<and>
    jl_seq l' (take (k + 1) w @ n # drop (k + 1) w) (take k xs @ v # drop k xs)"
proof -
  obtain as A p q B np nq where n: "jl_rep l as xs" "w = map Some (jl_nodes l as)"
    "jl_nodes l as = A @ p # q # B" "length A = k" "w ! k = Some p"
    "jl_heap l p = Some np" "node_next np = Some q" "jl_heap l q = Some nq" "p \<noteq> q"
    "p < jl_fresh l" "q < jl_fresh l"
    using jl_seq_nodes [OF assms] by metis
  let ?l = "l\<lparr>jl_heap := heap_insert (jl_heap l) (jl_fresh l) v p q, jl_fresh := Suc (jl_fresh l)\<rparr>"
  have "jl_rep ?l (take k as @ jl_fresh l # drop k as) (take k xs @ v # drop k xs)"
    using jl_rep_insert [OF n(1) assms(2) n(3,4)] .
  moreover have "take (k + 1) w @ Some (jl_fresh l) # drop (k + 1) w =
      map Some (jl_nodes ?l (take k as @ jl_fresh l # drop k as))"
    using assms(2) jl_repD(8) [OF n(1)]
    by (simp add: n(2) jl_nodes_def take_map drop_map)
  ultimately have "jl_seq ?l (take (k + 1) w @ Some (jl_fresh l) # drop (k + 1) w) (take k xs @ v # drop k xs)"
    by (auto simp: jl_seq_def)
  then show ?thesis using it_insertAfter_heap [OF n(6-11)] n(5) by auto
qed

lemma jl_seq_erase:
  assumes "jl_seq l w xs" "k < length xs"
  obtains p x q np nx nq where "w ! k = Some p" "w ! (k + 1) = Some x" "w ! (k + 2) = Some q"
    "jl_heap l p = Some np" "node_next np = Some x" "jl_heap l x = Some nx" "node_prev nx = Some p"
    "node_next nx = Some q" "jl_heap l q = Some nq" "node_prev nq = Some x" "distinct [p, x, q]"
    "jl_seq (l\<lparr>jl_heap := heap_remove (jl_heap l) p x q\<rparr>) (take (k + 1) w @ drop (k + 2) w)
       (take k xs @ drop (k + 1) xs)"
proof -
  obtain as A p y B' where n: "jl_rep l as xs" "w = map Some (jl_nodes l as)"
    "jl_nodes l as = A @ p # y # B'" "length A = k"
    using jl_seq_nodes [OF assms(1) less_imp_le [OF assms(2)]] by metis
  have "length (jl_nodes l as) = length xs + 2"
    using jl_repD(8) [OF n(1)] by (simp add: jl_nodes_def)
  then have "B' \<noteq> []" using n(3,4) assms(2) by auto
  then obtain q B where B: "jl_nodes l as = A @ p # y # q # B" using n(3) by (cases B') auto
  let ?l = "l\<lparr>jl_heap := heap_remove (jl_heap l) p y q\<rparr>"
  have "jl_rep ?l (take k as @ drop (k + 1) as) (take k xs @ drop (k + 1) xs)"
    using jl_rep_remove [OF n(1) assms(2) B n(4)] .
  moreover have "take (k + 1) w @ drop (k + 2) w = map Some (jl_nodes ?l (take k as @ drop (k + 1) as))"
    using assms(2) jl_repD(8) [OF n(1)] by (simp add: n(2) jl_nodes_def take_map drop_map)
  ultimately have s: "jl_seq ?l (take (k + 1) w @ drop (k + 2) w) (take k xs @ drop (k + 1) xs)"
    by (auto simp: jl_seq_def)
  have d: "distinct [p, y, q]" using jl_repD(3) [OF n(1)] unfolding B by auto
  have w: "w ! k = Some p" "w ! (k + 1) = Some y" "w ! (k + 2) = Some q"
    unfolding n(2) B using n(4) by (simp_all add: nth_append)
  have "\<exists>np nx nq. jl_heap l p = Some np \<and> node_next np = Some y \<and> jl_heap l y = Some nx \<and>
      node_prev nx = Some p \<and> node_next nx = Some q \<and> jl_heap l q = Some nq \<and> node_prev nq = Some y"
    using jl_repD(4) [OF n(1)] unfolding B by (auto simp: dseg_append)
  then show thesis using that [OF w _ _ _ _ _ _ _ d s] by blast
qed

lemma jl_seq_push_back:
  assumes "jl_seq l w xs"
  shows "\<exists>l' w'. jl_push_back l v = Inr l' \<and> jl_seq l' w' (xs @ [v])"
proof -
  obtain p q np nq where n: "w ! length xs = Some p" "w ! (length xs + 1) = Some q"
    "jl_heap l p = Some np" "node_next np = Some q" "jl_heap l q = Some nq" "node_prev nq = Some p"
    "p \<noteq> q" "p < jl_fresh l" "q < jl_fresh l"
    using jl_seq_nodes [OF assms order_refl] by metis
  have "jl_push_back l v = it_insertAfter l (w ! length xs) v"
    using jl_push_back_heap [of l q nq p np v] it_insertAfter_heap [of l p np q nq v] n
      jl_seq_ends [OF assms] by simp
  then show ?thesis using jl_seq_insertAfter [OF assms order_refl, of v] by auto
qed

interpretation jl: sequence jl_seq jl_begin jl_end it_deref it_incr it_decr it_insertBefore it_erase jl_push_back
proof unfold_locales
  fix l :: "'a jlist" and w xs k and v :: 'a
  assume s: "jl_seq l w xs"
  show "length w = length xs + 2 \<and> distinct w"
  proof -
    obtain as where "jl_rep l as xs" "w = map Some (jl_nodes l as)"
      using s by (auto simp: jl_seq_def)
    then show ?thesis using jl_repD(3,8) [of l as xs] by (auto simp: jl_nodes_def distinct_map)
  qed
  show "jl_begin l = Inr (w ! 1)"
  proof -
    obtain p q np where "w ! 0 = Some p" "w ! (0 + 1) = Some q" "jl_heap l p = Some np" "node_next np = Some q"
      using jl_seq_nodes [OF s le0] by metis
    then show ?thesis using jl_seq_ends(1) [OF s] by (simp add: jl_begin_def jl_next_def jl_node_def)
  qed
  show "jl_end l = Inr (w ! (length xs + 1))"
    using jl_seq_ends(2) [OF s] by (simp add: jl_end_def)
  show "\<exists>l' w'. jl_push_back l v = Inr l' \<and> jl_seq l' w' (xs @ [v])"
    using jl_seq_push_back [OF s] .
  show "it_deref l (w ! (k + 1)) = Inr (xs ! k)" if "k < length xs"
    using jl_seq_val [OF s that] by (simp add: it_deref_def)
  show "\<exists>l'. it_erase l (w ! (k + 1)) = Inr (l', w ! (k + 2)) \<and>
      jl_seq l' (take (k + 1) w @ drop (k + 2) w) (take k xs @ drop (k + 1) xs)" if "k < length xs"
    using jl_seq_erase [OF s that] it_erase_heap by metis
  assume k: "k \<le> length xs"
  obtain p q np nq where n: "w ! k = Some p" "w ! (k + 1) = Some q"
    "jl_heap l p = Some np" "node_next np = Some q" "jl_heap l q = Some nq" "node_prev nq = Some p"
    using jl_seq_nodes [OF s k] by metis
  show "it_incr l (w ! k) = Inr (w ! (k + 1))" "it_decr l (w ! (k + 1)) = Inr (w ! k)"
    using n by (simp_all add: it_incr_def it_decr_def jl_next_def jl_prev_def jl_node_def)
  show "\<exists>l' n. it_insertBefore l (w ! (k + 1)) v = Inr l' \<and>
      jl_seq l' (take (k + 1) w @ n # drop (k + 1) w) (take k xs @ v # drop k xs)"
    using jl_seq_insertAfter [OF s k, of v] n
    by (simp add: it_insertBefore_def jl_prev_def jl_node_def)
qed

section \<open>The operations on the values\<close>

definition jl_holds :: "'a jlist \<Rightarrow> 'a list \<Rightarrow> bool" where
  "jl_holds l xs \<longleftrightarrow> (\<exists>w. jl_seq l w xs)"

lemma jl_fuel:
  assumes "jl_holds l xs"
  shows "length xs + 2 \<le> jl_fresh l"
proof -
  obtain as where as: "jl_rep l as xs" using assms by (auto simp: jl_holds_def jl_seq_def)
  have "card (set (jl_nodes l as)) \<le> card {..<jl_fresh l}"
    using jl_repD(5) [OF as] by (intro card_mono) auto
  then show ?thesis
    using distinct_card [OF jl_repD(3) [OF as]] jl_repD(8) [OF as] by (simp add: jl_nodes_def)
qed

lemma jl_list_holds: "\<exists>l. jl_list = Inr l \<and> jl_holds l []"
proof -
  let ?l = "\<lparr>jl_heap = [0 \<mapsto> \<lparr>node_val = None, node_next = Some 1, node_prev = None\<rparr>,
      Suc 0 \<mapsto> \<lparr>node_val = None, node_next = None, node_prev = Some 0\<rparr>],
    jl_fresh = 2, jl_mHead = Some 0, jl_mTail = Some 1\<rparr>"
  have "jl_list = Inr ?l"
    by (simp add: jl_list_def jl_alloc_def jl_defs fun_upd_twist)
  moreover have "jl_rep ?l [] []"
    by (auto simp: jl_rep_def)
  ultimately show ?thesis by (auto simp: jl_holds_def jl_seq_def)
qed

lemma jl_begin_end:
  assumes "jl_seq l w xs"
  shows "jl_begin l = Inr (w ! 1)" "jl_mTail l = w ! (length xs + 1)" "w ! 1 = w ! (length xs + 1) \<longleftrightarrow> xs = []"
  using jl.begin_law [OF assms] jl_seq_ends(2) [OF assms] jl.end_iff [OF assms le0] by auto

lemma jl_empty_holds: "jl_holds l xs \<Longrightarrow> jl_empty l = Inr (xs = [])"
  using jl_begin_end by (fastforce simp: jl_holds_def jl_empty_def jl_begin_def)

lemma jl_front_holds: "jl_holds l xs \<Longrightarrow> xs \<noteq> [] \<Longrightarrow> jl_front l = Inr (hd xs)"
proof -
  assume "jl_holds l xs" "xs \<noteq> []"
  then obtain w where w: "jl_seq l w xs" by (auto simp: jl_holds_def)
  show "jl_front l = Inr (hd xs)"
    using jl_begin_end(1) [OF w] jl_seq_val [OF w, of 0] \<open>xs \<noteq> []\<close>
    by (simp add: jl_front_def jl_begin_def hd_conv_nth)
qed

lemma jl_back_holds:
  assumes "jl_holds l xs" "xs \<noteq> []"
  shows "jl_back l = Inr (last xs)"
proof -
  obtain w where w: "jl_seq l w xs" using assms by (auto simp: jl_holds_def)
  have "it_decr l (w ! (length xs + 1)) = Inr (w ! length xs)"
    using jl.decr_law [OF w order_refl] .
  moreover have "w ! (length xs + 1) \<noteq> None"
    using jl_seq_ends(2) [OF w] w by (auto simp: jl_seq_def jl_rep_def)
  ultimately have "jl_prev l (jl_mTail l) = Inr (w ! length xs)"
    using jl_seq_ends(2) [OF w] by (simp add: it_decr_def)
  moreover have "jl_val l (w ! (length xs - 1 + 1)) = Inr (xs ! (length xs - 1))"
    using assms(2) by (intro jl_seq_val [OF w]) simp
  ultimately show ?thesis using assms(2) by (simp add: jl_back_def last_conv_nth)
qed

lemma jl_push_back_holds: "jl_holds l xs \<Longrightarrow> \<exists>l'. jl_push_back l v = Inr l' \<and> jl_holds l' (xs @ [v])"
  using jl.push_back_law by (fastforce simp: jl_holds_def)

lemma jl_push_front_holds:
  assumes "jl_holds l xs"
  shows "\<exists>l'. jl_push_front l v = Inr l' \<and> jl_holds l' (v # xs)"
proof -
  obtain w where w: "jl_seq l w xs" using assms by (auto simp: jl_holds_def)
  obtain p q np nq where n: "w ! 0 = Some p" "w ! (0 + 1) = Some q"
    "jl_heap l p = Some np" "node_next np = Some q" "jl_heap l q = Some nq" "node_prev nq = Some p"
    "p \<noteq> q" "p < jl_fresh l" "q < jl_fresh l"
    using jl_seq_nodes [OF w le0] by metis
  have "jl_push_front l v = it_insertAfter l (w ! 0) v"
    using jl_push_front_heap [of l p np q nq v] it_insertAfter_heap [of l p np q nq v] n
      jl_seq_ends [OF w] by simp
  then show ?thesis using jl_seq_insertAfter [OF w le0, of v] by (auto simp: jl_holds_def)
qed

lemma jl_pop_front_holds:
  assumes "jl_holds l xs"
  shows "\<exists>l'. jl_pop_front l = Inr l' \<and> jl_holds l' (tl xs)"
proof -
  obtain w where w: "jl_seq l w xs" using assms by (auto simp: jl_holds_def)
  show ?thesis
  proof (cases "xs = []")
    case True
    then show ?thesis using jl_begin_end [OF w] w
      by (auto simp: jl_pop_front_def jl_begin_def jl_holds_def)
  next
    case False
    then have k: "0 < length xs" by simp
    obtain p x q np nx nq where n: "w ! 0 = Some p" "w ! (0 + 1) = Some x" "w ! (0 + 2) = Some q"
      "jl_heap l p = Some np" "node_next np = Some x" "jl_heap l x = Some nx" "node_prev nx = Some p"
      "node_next nx = Some q" "jl_heap l q = Some nq" "node_prev nq = Some x" "distinct [p, x, q]"
      and s: "jl_seq (l\<lparr>jl_heap := heap_remove (jl_heap l) p x q\<rparr>) (take (0 + 1) w @ drop (0 + 2) w)
         (take 0 xs @ drop (0 + 1) xs)"
      by (rule jl_seq_erase [OF w k])
    have "jl_mTail l \<noteq> Some x" "jl_mHead l = Some p"
      using jl_begin_end [OF w] n False jl_seq_ends(1) [OF w] by auto
    then have "jl_pop_front l = Inr (l\<lparr>jl_heap := heap_remove (jl_heap l) p x q\<rparr>)"
      using jl_pop_front_heap n by metis
    then show ?thesis using s by (auto simp: jl_holds_def drop_Suc)
  qed
qed

lemma jl_pop_back_holds:
  assumes "jl_holds l xs"
  shows "\<exists>l'. jl_pop_back l = Inr l' \<and> jl_holds l' (butlast xs)"
proof -
  obtain w where w: "jl_seq l w xs" using assms by (auto simp: jl_holds_def)
  show ?thesis
  proof (cases "xs = []")
    case True
    obtain p q np nq where "w ! 0 = Some p" "w ! (0 + 1) = Some q" "jl_heap l q = Some nq"
      "node_prev nq = Some p"
      using jl_seq_nodes [OF w le0] by metis
    then have "jl_pop_back l = Inr l"
      using jl_seq_ends [OF w] True by (simp add: jl_pop_back_def jl_prev_def jl_node_def)
    then show ?thesis using True assms by simp
  next
    case False
    define k where "k = length xs - 1"
    have k: "k < length xs" "length xs = k + 1" using False by (simp_all add: k_def)
    obtain p x q np nx nq where n: "w ! k = Some p" "w ! (k + 1) = Some x" "w ! (k + 2) = Some q"
      "jl_heap l p = Some np" "node_next np = Some x" "jl_heap l x = Some nx" "node_prev nx = Some p"
      "node_next nx = Some q" "jl_heap l q = Some nq" "node_prev nq = Some x" "distinct [p, x, q]"
      and s: "jl_seq (l\<lparr>jl_heap := heap_remove (jl_heap l) p x q\<rparr>) (take (k + 1) w @ drop (k + 2) w)
         (take k xs @ drop (k + 1) xs)"
      by (rule jl_seq_erase [OF w k(1)])
    have "length w = k + 3" "distinct w" using jl.positions [OF w] k by auto
    then have "w ! 0 \<noteq> w ! (k + 1)" by (simp add: nth_eq_iff_index_eq)
    then have "jl_mTail l = Some q" "jl_mHead l \<noteq> Some x"
      using jl_seq_ends [OF w] n k(2) by simp_all
    then have "jl_pop_back l = Inr (l\<lparr>jl_heap := heap_remove (jl_heap l) p x q\<rparr>)"
      using jl_pop_back_heap n by metis
    then show ?thesis using s k by (auto simp: jl_holds_def butlast_conv_take)
  qed
qed

lemma jl_clear_holds:
  "jl_holds l xs \<Longrightarrow> length xs < fuel \<Longrightarrow> \<exists>l'. jl_clear fuel l = Inr l' \<and> jl_holds l' []"
proof (induction fuel arbitrary: l xs)
  case (Suc fuel)
  show ?case
  proof (cases xs)
    case Nil
    then show ?thesis using Suc.prems jl_empty_holds [OF Suc.prems(1)] by auto
  next
    case (Cons x ys)
    obtain w where w: "jl_seq l w xs" using Suc.prems by (auto simp: jl_holds_def)
    obtain l' where e: "it_erase l (w ! (0 + 1)) = Inr (l', w ! (0 + 2))" and s: "jl_holds l' ys"
      using jl.erase_law [OF w, of 0] Cons by (auto simp: jl_holds_def)
    obtain l'' where "jl_clear fuel l' = Inr l''" "jl_holds l'' []"
      using Suc.IH [OF s] Suc.prems(2) Cons by auto
    then show ?thesis using e Cons jl_empty_holds [OF Suc.prems(1)] jl_begin_end(1) [OF w] by simp
  qed
qed simp

lemma jl_count_seg:
  "dseg (jl_heap l) p ns None \<Longrightarrow> length ns \<le> fuel \<Longrightarrow>
   jl_count fuel l (case ns of [] \<Rightarrow> None | a # _ \<Rightarrow> Some a) ret = Inr (ret + of_nat (length ns))"
proof (induction ns arbitrary: fuel p ret)
  case (Cons a ns)
  obtain g where g: "fuel = Suc g" "length ns \<le> g" using Cons.prems(2) by (cases fuel) auto
  show ?case
    using Cons.IH [of "Some a" g "ret + 1"] Cons.prems(1) g by (auto simp: jl_next_def jl_node_def)
qed simp

lemma jl_size_holds:
  assumes "jl_holds l xs" "length xs + 2 \<le> fuel"
  shows "jl_size fuel l = Inr (of_nat (length xs))"
proof -
  obtain as where as: "jl_rep l as xs" using assms by (auto simp: jl_holds_def jl_seq_def)
  have "jl_count fuel l (jl_mHead l) 0 = Inr (of_nat (length as + 2))"
    using jl_count_seg [OF jl_repD(4) [OF as], of fuel 0] jl_repD(1,8) [OF as] assms(2)
    by (simp add: jl_nodes_def)
  then show ?thesis using jl_repD(8) [OF as] by (simp add: jl_size_def)
qed

text \<open>The destructor returns every node, and there is nothing else on the heap of the list.\<close>

lemma jl_destroy_seg:
  "dseg (jl_heap l) p ns None \<Longrightarrow> distinct ns \<Longrightarrow> length ns < fuel \<Longrightarrow>
   jl_mHead l = (case ns of [] \<Rightarrow> None | a # _ \<Rightarrow> Some a) \<Longrightarrow>
   \<exists>l'. jl_destroy fuel l = Inr l' \<and> dom (jl_heap l') = dom (jl_heap l) - set ns \<and>
        jl_mHead l' = None \<and> jl_mTail l' = None"
proof (induction ns arbitrary: fuel p l)
  case Nil
  then show ?case by (cases fuel) auto
next
  case (Cons a ns)
  obtain g where g: "fuel = Suc g" "length ns < g" using Cons.prems(3) by (cases fuel) auto
  obtain nd where nd: "jl_heap l a = Some nd"
    "node_next nd = (case ns of [] \<Rightarrow> None | a # _ \<Rightarrow> Some a)" "dseg (jl_heap l) (Some a) ns None"
    using Cons.prems(1) by auto
  let ?l = "l\<lparr>jl_heap := (jl_heap l)(a := None), jl_mHead := node_next nd\<rparr>"
  have "jl_destroy fuel l = jl_destroy g ?l"
    using Cons.prems(4) nd g by (simp add: jl_defs)
  moreover have "dseg (jl_heap ?l) (Some a) ns None" "distinct ns"
    using nd(3) Cons.prems(2) by simp_all
  then obtain l' where "jl_destroy g ?l = Inr l'" "dom (jl_heap l') = dom (jl_heap ?l) - set ns"
    "jl_mHead l' = None" "jl_mTail l' = None"
    using Cons.IH [of ?l "Some a" g] nd(2) g(2) by (simp del: fun_upd_apply) blast
  moreover have "dom (jl_heap ?l) - set ns = dom (jl_heap l) - set (a # ns)"
    by auto
  ultimately show ?case by metis
qed

lemma jl_destroy_holds:
  assumes "jl_holds l xs" "length xs + 2 < fuel"
  shows "\<exists>l'. jl_destroy fuel l = Inr l' \<and> jl_heap l' = Map.empty"
proof -
  obtain as where as: "jl_rep l as xs" using assms by (auto simp: jl_holds_def jl_seq_def)
  have "\<exists>l'. jl_destroy fuel l = Inr l' \<and> dom (jl_heap l') = dom (jl_heap l) - set (jl_nodes l as) \<and>
      jl_mHead l' = None \<and> jl_mTail l' = None"
    using jl_repD(1,8) [OF as] assms(2)
    by (intro jl_destroy_seg [OF jl_repD(4) [OF as] jl_repD(3) [OF as]]) (simp_all add: jl_nodes_def)
  then show ?thesis using jl_repD(6) [OF as] by auto
qed

lemma jl_copy_loop_holds:
  assumes "jl_seq rhs w xs" "k \<le> length xs" "length xs - k < fuel" "jl_holds l ys"
  shows "\<exists>l'. jl_copy_loop fuel rhs (w ! (k + 1)) l = Inr l' \<and> jl_holds l' (ys @ drop k xs)"
  using assms
proof (induction fuel arbitrary: k l ys)
  case (Suc fuel)
  show ?case
  proof (cases "k = length xs")
    case True
    then show ?thesis using Suc.prems jl.end_law [OF Suc.prems(1)] by auto
  next
    case False
    then have k: "k < length xs" using Suc.prems(2) by simp
    have lt: "length xs - Suc k < fuel" using Suc.prems(3) k by arith
    obtain l' where l': "jl_push_back l (xs ! k) = Inr l'" "jl_holds l' (ys @ [xs ! k])"
      using jl_push_back_holds [OF Suc.prems(4)] by blast
    obtain l'' where "jl_copy_loop fuel rhs (w ! (k + 1 + 1)) l' = Inr l''"
      "jl_holds l'' (ys @ [xs ! k] @ drop (k + 1) xs)"
      using Suc.IH [OF Suc.prems(1), of "k + 1" l' "ys @ [xs ! k]"] lt k l'(2) by auto
    then show ?thesis
      using l' k False jl.end_law [OF Suc.prems(1)] jl.end_iff [OF Suc.prems(1,2)]
        jl.deref_law [OF Suc.prems(1) k] jl.incr_law [OF Suc.prems(1), of "k + 1"] take_nth_drop [OF k]
      by simp
  qed
qed simp

lemma jl_copy_holds:
  fixes rhs :: "'a jlist"
  assumes "jl_holds rhs xs" "length xs < fuel"
  shows "\<exists>l'. jl_copy fuel rhs = Inr l' \<and> jl_holds l' xs"
proof -
  obtain w where w: "jl_seq rhs w xs" using assms by (auto simp: jl_holds_def)
  obtain l :: "'a jlist" where l: "jl_list = Inr l" "jl_holds l []" using jl_list_holds by blast
  show ?thesis
    unfolding jl_copy_def l(1)
    using jl_copy_loop_holds [OF w _ _ l(2), of 0 fuel] assms(2) jl_begin_end(1) [OF w] by simp
qed

section \<open>Properties\<close>

datatype 'a list_op = PushFront 'a | PushBack 'a | PopFront | PopBack | ClearAll
  | EraseIf "'a \<Rightarrow> bool" | InsertBeforeFirst "'a \<Rightarrow> bool" 'a | CopyTo

fun list_op_spec :: "'a list_op \<Rightarrow> 'a list \<Rightarrow> 'a list" where
  "list_op_spec (PushFront v) xs = v # xs"
| "list_op_spec (PushBack v) xs = xs @ [v]"
| "list_op_spec PopFront xs = tl xs"
| "list_op_spec PopBack xs = butlast xs"
| "list_op_spec ClearAll xs = []"
| "list_op_spec (EraseIf P) xs = filter (\<lambda>x. \<not> P x) xs"
| "list_op_spec (InsertBeforeFirst P v) xs = insert_before_first P v xs"
| "list_op_spec CopyTo xs = xs"

fun jl_step :: "'a list_op \<Rightarrow> 'a jlist \<Rightarrow> 'a jlist outcome" where
  "jl_step (PushFront v) l = jl_push_front l v"
| "jl_step (PushBack v) l = jl_push_back l v"
| "jl_step PopFront l = jl_pop_front l"
| "jl_step PopBack l = jl_pop_back l"
| "jl_step ClearAll l = jl_clear (jl_fresh l) l"
| "jl_step (EraseIf P) l =
     andThen (andThen (jl_begin l)
         (for_erase_if jl_end it_deref it_incr it_decr it_erase (\<lambda>s x. Inr (P x, s)) (jl_fresh l) () l))
       (\<lambda>(_, l). Inr l)"
| "jl_step (InsertBeforeFirst P v) l =
     andThen (jl_begin l) (for_insert_before jl_end it_deref it_incr it_insertBefore jl_push_back (\<lambda>x. Inr (P x)) v (jl_fresh l) l)"
| "jl_step CopyTo l = jl_copy (jl_fresh l) l"

fun jl_run :: "'a list_op list \<Rightarrow> 'a jlist \<Rightarrow> 'a jlist outcome" where
  "jl_run [] l = Inr l"
| "jl_run (op # ops) l = andThen (jl_step op l) (jl_run ops)"

lemma jl_step_holds:
  assumes "jl_holds l xs"
  shows "\<exists>l'. jl_step op l = Inr l' \<and> jl_holds l' (list_op_spec op xs)"
proof -
  obtain w where w: "jl_seq l w xs" using assms by (auto simp: jl_holds_def)
  have f: "length xs < jl_fresh l" using jl_fuel [OF assms] by simp
  show ?thesis
  proof (cases op)
    case (EraseIf P)
    have "visit_filter (\<lambda>s x. Inr (P x, s)) () xs = Inr (foldl (\<lambda>s x. s) () (filter P xs), filter (\<lambda>x. \<not> P x) xs)"
      by (rule visit_filter_pure) simp
    then show ?thesis using jl.for_erase_if_begin [OF w f] EraseIf by (fastforce simp: jl_holds_def)
  next
    case (InsertBeforeFirst P v)
    have "test_insert (\<lambda>x. Inr (P x)) v xs = Inr (insert_before_first P v xs)"
      by (rule test_insert_pure) simp
    then show ?thesis using jl.for_insert_before_begin [OF w f] InsertBeforeFirst
      by (fastforce simp: jl_holds_def)
  qed (use assms f in \<open>auto intro: jl_push_front_holds jl_push_back_holds jl_pop_front_holds
        jl_pop_back_holds jl_clear_holds jl_copy_holds\<close>)
qed

text \<open>
  C4: every sequence of operations on a new list (adding and removing at both ends, clearing, the clients' loops that
  erase and insert through iterators, and going on with a copy) follows no null, dangling or foreign pointer and leaves
  the list with the values that the operations on plain lists give, a copy with those of the list that was copied;
  \<open>size\<close>, \<open>empty\<close>, \<open>front\<close> and \<open>back\<close> read them (the last two of a list that is not empty), and the
  destructor then frees every node of the list. Each list of the model has a heap of its own, so that nothing is
  said here of the nodes that two lists might share.
\<close>

theorem jl_run_refines:
  shows "\<exists>l l'. jl_list = Inr l \<and> jl_run ops l = Inr l' \<and>
     (let xs = foldl (\<lambda>xs op. list_op_spec op xs) [] ops in
      jl_holds l' xs \<and> jl_empty l' = Inr (xs = []) \<and>
      jl_size (jl_fresh l') l' = Inr (of_nat (length xs)) \<and>
      (if xs = [] then True else jl_front l' = Inr (hd xs) \<and> jl_back l' = Inr (last xs))) \<and>
     (\<exists>d. jl_destroy (Suc (jl_fresh l')) l' = Inr d \<and> jl_heap d = Map.empty)"
proof -
  have run: "jl_holds l xs \<Longrightarrow> \<exists>l'. jl_run ops l = Inr l' \<and> jl_holds l' (foldl (\<lambda>xs op. list_op_spec op xs) xs ops)"
    for l :: "'a jlist" and xs
  proof (induction ops arbitrary: l xs)
    case (Cons op ops)
    then show ?case using jl_step_holds [OF Cons.prems, of op] by auto
  qed simp
  obtain l :: "'a jlist" where l: "jl_list = Inr l" "jl_holds l []" using jl_list_holds by blast
  obtain l' where l': "jl_run ops l = Inr l'" "jl_holds l' (foldl (\<lambda>xs op. list_op_spec op xs) [] ops)"
    using run [OF l(2)] by blast
  note f = jl_fuel [OF l'(2)]
  have "\<exists>d. jl_destroy (Suc (jl_fresh l')) l' = Inr d \<and> jl_heap d = Map.empty"
    by (rule jl_destroy_holds [OF l'(2)]) (use f in simp)
  moreover have "let xs = foldl (\<lambda>xs op. list_op_spec op xs) [] ops in
      jl_holds l' xs \<and> jl_empty l' = Inr (xs = []) \<and>
      jl_size (jl_fresh l') l' = Inr (of_nat (length xs)) \<and>
      (if xs = [] then True else jl_front l' = Inr (hd xs) \<and> jl_back l' = Inr (last xs))"
    using l'(2) jl_empty_holds [OF l'(2)] jl_size_holds [OF l'(2) f]
      jl_front_holds [OF l'(2)] jl_back_holds [OF l'(2)] by (simp add: Let_def)
  ultimately show ?thesis using l(1) l'(1) by blast
qed

end
