(* ===== verification/EventQueue.thy ===== *)
theory EventQueue
  imports JHList
begin

text \<open>
  Events (src/include/Event.h), their reference counts (src/include/RefCount.h) and the priority
  queue of src/include/EventQueue.h and src/src/EventQueue.cpp. Events live on a heap that maps
  addresses to events; the queue is a linked list of event pointers. Each public call holds the
  lock of the queue and is one step. \<open>balanced h xs ext\<close> is the accounting of references: an event
  has one for each entry of the queue and \<open>ext\<close> held by others.
\<close>

section \<open>Events and their reference counts\<close>

text \<open>
  \<open>evTarget\<close> is the delivery target that an \<open>EventAgent\<close> reports; \<open>evStack\<close> marks an event that
  was not made by \<open>new\<close> (a \<open>SyncEventHolder\<close> is a local variable), so that \<open>delete this\<close> on it is
  undefined behaviour.
\<close>

record event =
  mEventId :: int
  mPriority :: int
  mRefCount :: int
  evTarget :: "nat option"
  evStack :: bool

type_synonym eheap = "nat \<Rightarrow> event option"

definition PRIORITY_NORMAL :: int where "PRIORITY_NORMAL = 0"
definition PRIORITY_HIGH :: int where "PRIORITY_HIGH = 1"

definition kInvalidEventId :: int where "kInvalidEventId = -1"
definition kShutdownEventId :: int where "kShutdownEventId = -2"
definition kSyncEventId :: int where "kSyncEventId = -3"
definition kSelectorUpdateEventId :: int where "kSelectorUpdateEventId = -4"
definition kAgentEventId :: int where "kAgentEventId = -5"

definition Event_new :: "int \<Rightarrow> int \<Rightarrow> event" where
  "Event_new event_id priority =
     \<lparr>mEventId = event_id, mPriority = priority, mRefCount = 0, evTarget = None, evStack = False\<rparr>"

definition ev_get :: "eheap \<Rightarrow> nat \<Rightarrow> event outcome" where
  "ev_get h e = (case h e of None \<Rightarrow> Inl UndefinedBehaviour | Some r \<Rightarrow> Inr r)"

definition ev_setPriority :: "eheap \<Rightarrow> nat \<Rightarrow> int \<Rightarrow> eheap outcome" where
  "ev_setPriority h e priority =
     andThen (ev_get h e) (\<lambda>r.
     let priority = (if priority > PRIORITY_HIGH then PRIORITY_HIGH else priority) in
     Inr (h(e \<mapsto> r\<lparr>mPriority := priority\<rparr>)))"

definition ev_AddRef :: "eheap \<Rightarrow> nat \<Rightarrow> eheap outcome" where
  "ev_AddRef h e = andThen (ev_get h e) (\<lambda>r. Inr (h(e \<mapsto> r\<lparr>mRefCount := mRefCount r + 1\<rparr>)))"

definition ev_onRefCountZero :: "eheap \<Rightarrow> nat \<Rightarrow> eheap outcome" where
  "ev_onRefCountZero h e =
     andThen (ev_get h e) (\<lambda>r. if evStack r then Inl UndefinedBehaviour else Inr (h(e := None)))"

definition ev_Release :: "eheap \<Rightarrow> nat \<Rightarrow> eheap outcome" where
  "ev_Release h e =
     andThen (ev_get h e) (\<lambda>r.
     let r = r\<lparr>mRefCount := mRefCount r - 1\<rparr>; h = h(e \<mapsto> r) in
     if mRefCount r = 0 then ev_onRefCountZero h e else Inr h)"

text \<open>\<open>SmartPtr\<close>: assigning takes the new reference before it gives up the old one.\<close>

definition SmartPtr_assign :: "eheap \<Rightarrow> nat option \<Rightarrow> nat option \<Rightarrow> (nat option \<times> eheap) outcome" where
  "SmartPtr_assign h mObj obj =
     andThen (case obj of None \<Rightarrow> Inr h | Some e \<Rightarrow> ev_AddRef h e) (\<lambda>h.
     andThen (case mObj of None \<Rightarrow> Inr h | Some e \<Rightarrow> ev_Release h e) (\<lambda>h.
     Inr (obj, h)))"

section \<open>The queue\<close>

record event_queue =
  eqEvents :: eheap
  mQueue :: "nat jlist"
  mWait :: nat

definition EventQueue_new :: "eheap \<Rightarrow> event_queue outcome" where
  "EventQueue_new h = andThen jl_list (\<lambda>l. Inr \<lparr>eqEvents = h, mQueue = l, mWait = 0\<rparr>)"

definition eq_SendEvent :: "event_queue \<Rightarrow> nat \<Rightarrow> event_queue outcome" where
  "eq_SendEvent q ev =
     andThen (ev_AddRef (eqEvents q) ev) (\<lambda>h.
     let q = q\<lparr>eqEvents := h\<rparr> in
     andThen (ev_get h ev) (\<lambda>r.
     andThen
       (if mPriority r = PRIORITY_NORMAL
        then jl_push_back (mQueue q) ev
        else andThen (jl_begin (mQueue q))
               (for_insert_before jl_end it_deref it_incr it_insertBefore jl_push_back
                  (\<lambda>i. andThen (ev_get h i) (\<lambda>r'. Inr (mPriority r > mPriority r')))
                  ev (jl_fresh (mQueue q)) (mQueue q))) (\<lambda>l.
     Inr (q\<lparr>mQueue := l, mWait := Suc (mWait q)\<rparr>))))"

definition eq_pollEventInternal :: "event_queue \<Rightarrow> (nat option \<times> event_queue) outcome" where
  "eq_pollEventInternal q =
     andThen (jl_empty (mQueue q)) (\<lambda>e. if e then Inr (None, q) else
     andThen (jl_front (mQueue q)) (\<lambda>ret.
     andThen (jl_pop_front (mQueue q)) (\<lambda>l. Inr (Some ret, q\<lparr>mQueue := l\<rparr>))))"

definition eq_PollEvent :: "event_queue \<Rightarrow> (nat option \<times> event_queue) outcome" where
  "eq_PollEvent q = eq_pollEventInternal q"

text \<open>
  What other threads do to the queue while the caller of \<open>WaitEvent\<close> sleeps is the environment's:
  an entry for each call of \<open>Condition::Wait\<close>, with its result and the queue at that time. The value
  is \<open>None\<close> while the caller still sleeps.
\<close>

fun eq_wait_loop ::
  "u32 \<Rightarrow> event_queue \<Rightarrow> (bool \<times> event_queue) list \<Rightarrow> (nat option \<times> event_queue) option outcome" where
  "eq_wait_loop mstimeout q [] = Inr None"
| "eq_wait_loop mstimeout q ((signalled, q') # env) =
     (if signalled
      then andThen (eq_pollEventInternal q') (\<lambda>(ev, q').
             case ev of None \<Rightarrow> eq_wait_loop mstimeout q' env | Some e \<Rightarrow> Inr (Some (ev, q')))
      else if mstimeout > 0 then Inr (Some (None, q'))
      else eq_wait_loop mstimeout q' env)"

definition eq_WaitEvent ::
  "event_queue \<Rightarrow> u32 \<Rightarrow> (bool \<times> event_queue) list \<Rightarrow> (nat option \<times> event_queue) option outcome" where
  "eq_WaitEvent q mstimeout env =
     andThen (eq_pollEventInternal q) (\<lambda>(ev, q).
     case ev of Some e \<Rightarrow> Inr (Some (ev, q)) | None \<Rightarrow> eq_wait_loop mstimeout q env)"

text \<open>The three removing loops differ in the test of their body.\<close>

definition eq_remove_visit :: "(nat \<Rightarrow> event \<Rightarrow> bool) \<Rightarrow> eheap \<Rightarrow> nat \<Rightarrow> (bool \<times> eheap) outcome" where
  "eq_remove_visit test h i =
     andThen (ev_get h i) (\<lambda>r.
     if test i r then andThen (ev_Release h i) (\<lambda>h. Inr (True, h)) else Inr (False, h))"

definition eq_remove_loop :: "(nat \<Rightarrow> event \<Rightarrow> bool) \<Rightarrow> event_queue \<Rightarrow> event_queue outcome" where
  "eq_remove_loop test q =
     andThen (andThen (jl_begin (mQueue q))
         (for_erase_if jl_end it_deref it_incr it_decr it_erase (eq_remove_visit test)
            (jl_fresh (mQueue q)) (eqEvents q) (mQueue q)))
       (\<lambda>(h, l). Inr (q\<lparr>eqEvents := h, mQueue := l\<rparr>))"

definition eq_Remove_id :: "event_queue \<Rightarrow> int \<Rightarrow> event_queue outcome" where
  "eq_Remove_id q event_id = eq_remove_loop (\<lambda>i r. mEventId r = event_id) q"

definition eq_Remove_event :: "event_queue \<Rightarrow> nat \<Rightarrow> event_queue outcome" where
  "eq_Remove_event q ev = eq_remove_loop (\<lambda>i r. i = ev) q"

definition eq_RemoveAgentsByReceiver :: "event_queue \<Rightarrow> nat \<Rightarrow> event_queue outcome" where
  "eq_RemoveAgentsByReceiver q receiver =
     eq_remove_loop (\<lambda>i r. mEventId r = kAgentEventId \<and> evTarget r = Some receiver) q"

fun eq_flush_loop :: "nat \<Rightarrow> event_queue \<Rightarrow> event_queue outcome" where
  "eq_flush_loop 0 q = Inl NoReturn"
| "eq_flush_loop (Suc fuel) q =
     andThen (jl_empty (mQueue q)) (\<lambda>e. if e then Inr q else
     andThen (jl_front (mQueue q)) (\<lambda>temp.
     andThen (jl_pop_front (mQueue q)) (\<lambda>l.
     andThen (ev_Release (eqEvents q) temp) (\<lambda>h.
     eq_flush_loop fuel (q\<lparr>mQueue := l, eqEvents := h\<rparr>)))))"

definition eq_Flush :: "event_queue \<Rightarrow> event_queue outcome" where
  "eq_Flush q = eq_flush_loop (jl_fresh (mQueue q)) q"

section \<open>Accounting of references\<close>

definition balanced :: "eheap \<Rightarrow> nat list \<Rightarrow> (nat \<Rightarrow> int) \<Rightarrow> bool" where
  "balanced h xs ext \<longleftrightarrow>
     (\<forall>e. 0 \<le> ext e \<and>
        (case h e of None \<Rightarrow> e \<notin> set xs \<and> ext e = 0
         | Some r \<Rightarrow> mRefCount r = int (count_list xs e) + ext e))"

definition same_event :: "event \<Rightarrow> event \<Rightarrow> bool" where
  "same_event r r' \<longleftrightarrow> r\<lparr>mRefCount := 0\<rparr> = r'\<lparr>mRefCount := 0\<rparr>"

text \<open>\<open>kept h h'\<close>: the events that are left are as they were, but for their counts.\<close>

definition kept :: "eheap \<Rightarrow> eheap \<Rightarrow> bool" where
  "kept h h' \<longleftrightarrow> (\<forall>e r'. h' e = Some r' \<longrightarrow> (\<exists>r. h e = Some r \<and> same_event r r'))"

lemma kept_refl [simp]: "kept h h"
  by (auto simp: kept_def same_event_def)

lemma kept_trans: "kept h h' \<Longrightarrow> kept h' h'' \<Longrightarrow> kept h h''"
  unfolding kept_def same_event_def by metis

lemma balanced_member: "balanced h xs ext \<Longrightarrow> e \<in> set xs \<Longrightarrow> \<exists>r. h e = Some r"
  by (auto simp: balanced_def split: option.splits dest: spec [of _ e])

lemma balanced_borrow:
  "balanced h (x # xs) ext \<longleftrightarrow> balanced h xs (ext(x := ext x + 1)) \<and> 0 \<le> ext x"
  by (auto simp: balanced_def split: option.splits)

lemma count_list_set: "\<forall>x. count_list ys x = count_list xs x \<Longrightarrow> set ys = set xs"
  by (metis count_list_0_iff subsetI subset_antisym)

lemma balanced_send:
  assumes "balanced h xs ext" "h e = Some r" and c: "\<forall>x. count_list ys x = count_list (e # xs) x"
  shows "balanced (h(e \<mapsto> r\<lparr>mRefCount := mRefCount r + 1\<rparr>)) ys ext"
  unfolding balanced_def
proof (intro allI)
  fix x
  show "0 \<le> ext x \<and> (case (h(e \<mapsto> r\<lparr>mRefCount := mRefCount r + 1\<rparr>)) x of
      None \<Rightarrow> x \<notin> set ys \<and> ext x = 0 | Some r \<Rightarrow> mRefCount r = int (count_list ys x) + ext x)"
    using assms(1) [unfolded balanced_def, rule_format, of x] assms(2) count_list_set [OF c]
      c [rule_format, of x] by (cases "h x") auto
qed

lemma ev_Release_balanced:
  assumes "balanced h (x # xs) ext" "\<And>r. h x = Some r \<Longrightarrow> \<not> evStack r"
  shows "\<exists>h'. ev_Release h x = Inr h' \<and> balanced h' xs ext \<and> kept h h'"
proof -
  obtain r where r: "h x = Some r" "mRefCount r = int (count_list xs x) + 1 + ext x" "0 \<le> ext x"
    using assms(1) by (auto simp: balanced_def split: option.splits dest: spec [of _ x])
  show ?thesis
  proof (cases "mRefCount r - 1 = 0")
    case True
    then have "count_list xs x = 0" "ext x = 0" using r by linarith+
    then show ?thesis using True r assms
      by (auto simp: ev_Release_def ev_get_def ev_onRefCountZero_def balanced_def kept_def
          same_event_def count_list_0_iff split: option.splits if_splits)
  next
    case False
    then show ?thesis using r assms(1)
      by (auto simp: ev_Release_def ev_get_def balanced_def kept_def same_event_def
          split: option.splits if_splits)
  qed
qed

lemma balanced_drop: "balanced h (x # xs) ext \<Longrightarrow> balanced h xs (ext(x := ext x + 1))"
  by (simp add: balanced_borrow)

text \<open>A removing loop drops the matching entries with their references and keeps the order of the rest.\<close>

lemma remove_visit_balanced:
  assumes bal: "balanced h xs ext"
    and static: "\<And>i r r'. same_event r r' \<Longrightarrow> test i r = test i r'"
    and new: "\<And>i r. i \<in> set xs \<Longrightarrow> h i = Some r \<Longrightarrow> test i r \<Longrightarrow> \<not> evStack r"
  shows "\<exists>h'. visit_filter (eq_remove_visit test) h xs = Inr (h', filter (\<lambda>i. \<not> test i (the (h i))) xs) \<and>
    balanced h' (filter (\<lambda>i. \<not> test i (the (h i))) xs) ext \<and> kept h h'"
  using bal new
proof (induction xs arbitrary: h ext)
  case (Cons x xs)
  obtain r where r: "h x = Some r" using balanced_member [OF Cons.prems(1)] by auto
  have same: "filter (\<lambda>i. \<not> test i (the (h' i))) xs = filter (\<lambda>i. \<not> test i (the (h i))) xs"
    if k: "kept h h'" and b: "balanced h' xs ext'" for h' ext'
  proof (rule filter_cong [OF refl])
    fix i assume "i \<in> set xs"
    then obtain r1 r2 where "h' i = Some r1" "h i = Some r2" "same_event r2 r1"
      using balanced_member [OF b] k by (metis kept_def)
    then show "(\<not> test i (the (h' i))) = (\<not> test i (the (h i)))" using static by simp
  qed
  show ?case
  proof (cases "test x r")
    case True
    obtain h' where h': "ev_Release h x = Inr h'" "balanced h' xs ext" "kept h h'"
      using ev_Release_balanced [OF Cons.prems(1)] Cons.prems(2) [of x] r True by auto
    have "\<not> evStack r'" if "i \<in> set xs" "h' i = Some r'" "test i r'" for i r'
    proof -
      obtain r2 where r2: "h i = Some r2" "same_event r2 r'" using h'(3) \<open>h' i = Some r'\<close> by (auto simp: kept_def)
      then have "\<not> evStack r2" using Cons.prems(2) [of i r2] static [OF r2(2)] that by simp
      then show ?thesis using r2(2) by (cases r2; cases r') (simp add: same_event_def)
    qed
    with Cons.IH [OF h'(2)] obtain h'' where
      "visit_filter (eq_remove_visit test) h' xs = Inr (h'', filter (\<lambda>i. \<not> test i (the (h' i))) xs)"
      "balanced h'' (filter (\<lambda>i. \<not> test i (the (h' i))) xs) ext" "kept h' h''"
      by blast
    moreover have "eq_remove_visit test h x = Inr (True, h')"
      using True r h'(1) by (simp add: eq_remove_visit_def ev_get_def)
    ultimately show ?thesis
      using True r same [OF h'(3,2)] kept_trans [OF h'(3)] by auto
  next
    case False
    have b: "balanced h xs (ext(x := ext x + 1))" "0 \<le> ext x"
      using Cons.prems(1) by (simp_all add: balanced_borrow)
    have "\<exists>h'. visit_filter (eq_remove_visit test) h xs = Inr (h', filter (\<lambda>i. \<not> test i (the (h i))) xs) \<and>
      balanced h' (filter (\<lambda>i. \<not> test i (the (h i))) xs) (ext(x := ext x + 1)) \<and> kept h h'"
      by (rule Cons.IH [OF b(1)]) (use Cons.prems(2) in auto)
    then obtain h' where "visit_filter (eq_remove_visit test) h xs = Inr (h', filter (\<lambda>i. \<not> test i (the (h i))) xs)"
      "balanced h' (filter (\<lambda>i. \<not> test i (the (h i))) xs) (ext(x := ext x + 1))" "kept h h'"
      by blast
    moreover have "eq_remove_visit test h x = Inr (False, h)"
      using False r by (simp add: eq_remove_visit_def ev_get_def)
    ultimately show ?thesis using False r b(2) by (auto simp: balanced_borrow)
  qed
qed simp

section \<open>The queue as a list of events\<close>

text \<open>
  \<open>eq_rep q es ext\<close>: the queue holds the events \<open>es\<close> in this order, all of them made by \<open>new\<close>, and
  every reference is accounted for.
\<close>

definition eq_rep :: "event_queue \<Rightarrow> nat list \<Rightarrow> (nat \<Rightarrow> int) \<Rightarrow> bool" where
  "eq_rep q es ext \<longleftrightarrow> jl_holds (mQueue q) es \<and> balanced (eqEvents q) es ext"

definition prio :: "event_queue \<Rightarrow> nat \<Rightarrow> int" where
  "prio q e = (case eqEvents q e of Some r \<Rightarrow> mPriority r | None \<Rightarrow> 0)"

lemma eq_SendEvent_rep:
  assumes rep: "eq_rep q es ext" and r: "eqEvents q e = Some r"
  defines "ys \<equiv> (if mPriority r = PRIORITY_NORMAL then es @ [e]
                 else insert_before_first (\<lambda>i. mPriority r > prio q i) e es)"
  shows "\<exists>q'. eq_SendEvent q e = Inr q' \<and> eq_rep q' ys ext \<and> mWait q' = Suc (mWait q) \<and>
    eqEvents q' = (eqEvents q)(e \<mapsto> r\<lparr>mRefCount := mRefCount r + 1\<rparr>)"
proof -
  let ?h = "(eqEvents q)(e \<mapsto> r\<lparr>mRefCount := mRefCount r + 1\<rparr>)"
  have l: "jl_holds (mQueue q) es" and b: "balanced (eqEvents q) es ext"
    using rep by (auto simp: eq_rep_def)
  obtain w where w: "jl_seq (mQueue q) w es" using l by (auto simp: jl_holds_def)
  have c: "\<forall>x. count_list ys x = count_list (e # es) x"
  proof
    fix x
    have "count_list es x = count_list (takeWhile P es) x + count_list (dropWhile P es) x" for P
      by (metis count_list_append takeWhile_dropWhile_id)
    then show "count_list ys x = count_list (e # es) x"
      by (simp add: ys_def insert_before_first_def)
  qed
  have get: "ev_get ?h i = Inr (the (?h i))" "mPriority (the (?h i)) = prio q i" if "i \<in> set es" for i
    using balanced_member [OF b that] r by (auto simp: ev_get_def prio_def)
  have "\<exists>l'. (if mPriority r = PRIORITY_NORMAL then jl_push_back (mQueue q) e
        else andThen (jl_begin (mQueue q))
               (for_insert_before jl_end it_deref it_incr it_insertBefore jl_push_back
                  (\<lambda>i. andThen (ev_get ?h i) (\<lambda>r'. Inr (mPriority r > mPriority r')))
                  e (jl_fresh (mQueue q)) (mQueue q))) = Inr l' \<and> jl_holds l' ys"
  proof (cases "mPriority r = PRIORITY_NORMAL")
    case True
    then show ?thesis using jl_push_back_holds [OF l, of e] by (simp add: ys_def)
  next
    case False
    have "test_insert (\<lambda>i. andThen (ev_get ?h i) (\<lambda>r'. Inr (mPriority r > mPriority r'))) e es = Inr ys"
      unfolding ys_def using False get by (simp add: test_insert_pure)
    then show ?thesis using jl.for_insert_before_begin [OF w] jl_fuel [OF l] False
      by (fastforce simp: jl_holds_def)
  qed
  then obtain l' where l': "(if mPriority r = PRIORITY_NORMAL then jl_push_back (mQueue q) e
        else andThen (jl_begin (mQueue q))
               (for_insert_before jl_end it_deref it_incr it_insertBefore jl_push_back
                  (\<lambda>i. andThen (ev_get ?h i) (\<lambda>r'. Inr (mPriority r > mPriority r')))
                  e (jl_fresh (mQueue q)) (mQueue q))) = Inr l'" "jl_holds l' ys"
    by blast
  have "eq_SendEvent q e = andThen (if mPriority r = PRIORITY_NORMAL then jl_push_back (mQueue q) e
        else andThen (jl_begin (mQueue q))
               (for_insert_before jl_end it_deref it_incr it_insertBefore jl_push_back
                  (\<lambda>i. andThen (ev_get ?h i) (\<lambda>r'. Inr (mPriority r > mPriority r')))
                  e (jl_fresh (mQueue q)) (mQueue q)))
      (\<lambda>l. Inr (q\<lparr>eqEvents := ?h, mQueue := l, mWait := Suc (mWait q)\<rparr>))"
    using r by (simp add: eq_SendEvent_def ev_AddRef_def ev_get_def [of "eqEvents q"]
        ev_get_def [of ?h e] Let_def)
  then have "eq_SendEvent q e = Inr (q\<lparr>eqEvents := ?h, mQueue := l', mWait := Suc (mWait q)\<rparr>)"
    by (simp only: l'(1) andThen_simps)
  then show ?thesis using l'(2) balanced_send [OF b r c] by (simp add: eq_rep_def)
qed

lemma eq_poll_rep:
  assumes rep: "eq_rep q es ext"
  shows "case es of
      [] \<Rightarrow> eq_pollEventInternal q = Inr (None, q)
    | e # es' \<Rightarrow> \<exists>q'. eq_pollEventInternal q = Inr (Some e, q') \<and> eq_rep q' es' (ext(e := ext e + 1)) \<and>
        eqEvents q' = eqEvents q"
proof (cases es)
  case Nil
  then show ?thesis using rep jl_empty_holds by (fastforce simp: eq_rep_def eq_pollEventInternal_def)
next
  case (Cons e es')
  then have l: "jl_holds (mQueue q) (e # es')" and b: "balanced (eqEvents q) (e # es') ext"
    using rep by (auto simp: eq_rep_def)
  obtain l' where "jl_pop_front (mQueue q) = Inr l'" "jl_holds l' es'"
    using jl_pop_front_holds [OF l] by auto
  then show ?thesis using Cons jl_empty_holds [OF l] jl_front_holds [OF l] b
    by (simp add: eq_pollEventInternal_def eq_rep_def balanced_borrow)
qed

lemma eq_remove_rep:
  assumes rep: "eq_rep q es ext"
    and static: "\<And>i r r'. same_event r r' \<Longrightarrow> test i r = test i r'"
    and new: "\<And>i r. i \<in> set es \<Longrightarrow> eqEvents q i = Some r \<Longrightarrow> test i r \<Longrightarrow> \<not> evStack r"
  shows "\<exists>q'. eq_remove_loop test q = Inr q' \<and>
    eq_rep q' (filter (\<lambda>i. \<not> test i (the (eqEvents q i))) es) ext \<and> kept (eqEvents q) (eqEvents q') \<and>
    mWait q' = mWait q"
proof -
  have l: "jl_holds (mQueue q) es" and b: "balanced (eqEvents q) es ext"
    using rep by (auto simp: eq_rep_def)
  obtain w where w: "jl_seq (mQueue q) w es" using l by (auto simp: jl_holds_def)
  have "\<exists>h'. visit_filter (eq_remove_visit test) (eqEvents q) es =
      Inr (h', filter (\<lambda>i. \<not> test i (the (eqEvents q i))) es) \<and>
    balanced h' (filter (\<lambda>i. \<not> test i (the (eqEvents q i))) es) ext \<and> kept (eqEvents q) h'"
    by (rule remove_visit_balanced [OF b]) (use static new in blast)+
  then obtain h' where v: "visit_filter (eq_remove_visit test) (eqEvents q) es =
      Inr (h', filter (\<lambda>i. \<not> test i (the (eqEvents q i))) es)"
    and h': "balanced h' (filter (\<lambda>i. \<not> test i (the (eqEvents q i))) es) ext" "kept (eqEvents q) h'"
    by blast
  have "length es < jl_fresh (mQueue q)" using jl_fuel [OF l] by simp
  then obtain l' w' where "andThen (jl_begin (mQueue q))
      (for_erase_if jl_end it_deref it_incr it_decr it_erase (eq_remove_visit test)
         (jl_fresh (mQueue q)) (eqEvents q) (mQueue q)) = Inr (h', l')"
    "jl_seq l' w' (filter (\<lambda>i. \<not> test i (the (eqEvents q i))) es)"
    using jl.for_erase_if_begin [OF w _ v] by blast
  then show ?thesis using h' by (auto simp: eq_remove_loop_def eq_rep_def jl_holds_def)
qed

lemma eq_flush_rep:
  assumes "eq_rep q es ext" "length es < fuel"
    and "\<And>i r. i \<in> set es \<Longrightarrow> eqEvents q i = Some r \<Longrightarrow> \<not> evStack r"
  shows "\<exists>q'. eq_flush_loop fuel q = Inr q' \<and> eq_rep q' [] ext \<and> kept (eqEvents q) (eqEvents q') \<and>
    mWait q' = mWait q"
  using assms
proof (induction fuel arbitrary: q es)
  case (Suc fuel)
  show ?case
  proof (cases es)
    case Nil
    then show ?thesis using Suc.prems(1) jl_empty_holds [of "mQueue q" es] by (simp add: eq_rep_def)
  next
    case (Cons e es')
    then have l: "jl_holds (mQueue q) (e # es')" and b: "balanced (eqEvents q) (e # es') ext"
      using Suc.prems(1) by (auto simp: eq_rep_def)
    obtain l' where l': "jl_pop_front (mQueue q) = Inr l'" "jl_holds l' es'"
      using jl_pop_front_holds [OF l] by auto
    obtain h' where h': "ev_Release (eqEvents q) e = Inr h'" "balanced h' es' ext" "kept (eqEvents q) h'"
      using ev_Release_balanced [OF b] Suc.prems(3) Cons by auto
    let ?q = "q\<lparr>mQueue := l', eqEvents := h'\<rparr>"
    have "eq_rep ?q es' ext" "length es' < fuel"
      using l'(2) h'(2) Suc.prems(2) Cons by (simp_all add: eq_rep_def)
    moreover have "\<not> evStack r" if ir: "i \<in> set es'" "eqEvents ?q i = Some r" for i r
    proof -
      obtain r2 where "eqEvents q i = Some r2" "same_event r2 r" using h'(3) ir(2) by (auto simp: kept_def)
      then show ?thesis using Suc.prems(3) [of i r2] ir(1) Cons
        by (cases r2; cases r) (simp add: same_event_def)
    qed
    ultimately obtain q' where "eq_flush_loop fuel ?q = Inr q'" "eq_rep q' [] ext"
      "kept (eqEvents ?q) (eqEvents q')" "mWait q' = mWait ?q"
      using Suc.IH [of ?q es'] by blast
    then show ?thesis using jl_empty_holds [OF l] jl_front_holds [OF l] l'(1) h' kept_trans [OF h'(3)]
      by simp
  qed
qed simp

section \<open>Two queues in one\<close>

text \<open>
  With the two priorities of Event.h the list is a queue of urgent events followed by a queue of
  normal ones. \<open>pq_spec\<close> is the contract on such a pair, over the static data of the events.
\<close>

datatype eq_op = Send nat | Poll | RemoveId int | RemoveEvent nat | RemoveAgents nat | Flush

fun eq_step :: "eq_op \<Rightarrow> event_queue \<Rightarrow> (nat option \<times> event_queue) outcome" where
  "eq_step (Send e) q = andThen (eq_SendEvent q e) (\<lambda>q. Inr (None, q))"
| "eq_step Poll q = eq_PollEvent q"
| "eq_step (RemoveId event_id) q = andThen (eq_Remove_id q event_id) (\<lambda>q. Inr (None, q))"
| "eq_step (RemoveEvent e) q = andThen (eq_Remove_event q e) (\<lambda>q. Inr (None, q))"
| "eq_step (RemoveAgents t) q = andThen (eq_RemoveAgentsByReceiver q t) (\<lambda>q. Inr (None, q))"
| "eq_step Flush q = andThen (eq_Flush q) (\<lambda>q. Inr (None, q))"

fun eq_run :: "eq_op list \<Rightarrow> event_queue \<Rightarrow> (nat option list \<times> event_queue) outcome" where
  "eq_run [] q = Inr ([], q)"
| "eq_run (op # ops) q =
     andThen (eq_step op q) (\<lambda>(r, q). andThen (eq_run ops q) (\<lambda>(rs, q). Inr (r # rs, q)))"

definition pq_keep :: "(nat \<Rightarrow> event \<Rightarrow> bool) \<Rightarrow> eheap \<Rightarrow> nat list \<times> nat list \<Rightarrow> nat list \<times> nat list" where
  "pq_keep test h HN = (filter (\<lambda>i. \<not> test i (the (h i))) (fst HN), filter (\<lambda>i. \<not> test i (the (h i))) (snd HN))"

fun pq_spec :: "eheap \<Rightarrow> eq_op \<Rightarrow> nat list \<times> nat list \<Rightarrow> nat option \<times> (nat list \<times> nat list)" where
  "pq_spec h (Send e) (H, N) =
     (None, if mPriority (the (h e)) = PRIORITY_NORMAL then (H, N @ [e]) else (H @ [e], N))"
| "pq_spec h Poll (H, N) =
     (case H @ N of [] \<Rightarrow> (None, ([], []))
      | e # _ \<Rightarrow> (Some e, if H = [] then ([], tl N) else (tl H, N)))"
| "pq_spec h (RemoveId event_id) HN = (None, pq_keep (\<lambda>i r. mEventId r = event_id) h HN)"
| "pq_spec h (RemoveEvent e) HN = (None, pq_keep (\<lambda>i r. i = e) h HN)"
| "pq_spec h (RemoveAgents t) HN =
     (None, pq_keep (\<lambda>i r. mEventId r = kAgentEventId \<and> evTarget r = Some t) h HN)"
| "pq_spec h Flush HN = (None, ([], []))"

fun pq_run :: "eheap \<Rightarrow> eq_op list \<Rightarrow> nat list \<times> nat list \<Rightarrow> nat option list \<times> (nat list \<times> nat list)" where
  "pq_run h [] HN = ([], HN)"
| "pq_run h (op # ops) HN =
     (let (r, HN) = pq_spec h op HN; (rs, HN) = pq_run h ops HN in (r # rs, HN))"

text \<open>The client owns a reference to each of its events, all of them made by \<open>new\<close>.\<close>

definition client_events :: "eheap \<Rightarrow> bool" where
  "client_events h \<longleftrightarrow>
     (\<forall>e r. h e = Some r \<longrightarrow>
        (mPriority r = PRIORITY_NORMAL \<or> mPriority r = PRIORITY_HIGH) \<and> \<not> evStack r \<and> 0 < mRefCount r)"

definition same_heap :: "eheap \<Rightarrow> eheap \<Rightarrow> bool" where
  "same_heap h h' \<longleftrightarrow> (\<forall>e. rel_option same_event (h e) (h' e))"

definition pq_inv :: "eheap \<Rightarrow> event_queue \<Rightarrow> nat list \<times> nat list \<Rightarrow> (nat \<Rightarrow> int) \<Rightarrow> bool" where
  "pq_inv h q HN ext \<longleftrightarrow>
     eq_rep q (fst HN @ snd HN) ext \<and> same_heap h (eqEvents q) \<and>
     (\<forall>e \<in> set (fst HN). mPriority (the (h e)) = PRIORITY_HIGH) \<and>
     (\<forall>e \<in> set (snd HN). mPriority (the (h e)) = PRIORITY_NORMAL) \<and>
     (\<forall>e. h e \<noteq> None \<longrightarrow> 0 < ext e)"

lemma same_event_sym: "same_event r r' \<Longrightarrow> same_event r' r"
  by (simp add: same_event_def)

lemma same_eventD: "same_event r r' \<Longrightarrow> mEventId r' = mEventId r \<and> mPriority r' = mPriority r \<and>
    evTarget r' = evTarget r \<and> evStack r' = evStack r"
  by (cases r; cases r') (simp add: same_event_def)

lemma same_heap_Some:
  "same_heap h h' \<Longrightarrow> h e = Some r \<Longrightarrow> \<exists>r'. h' e = Some r' \<and> same_event r r'"
  by (metis same_heap_def option_rel_Some1)

lemma same_heap_mem:
  "same_heap h h' \<Longrightarrow> h' e = Some r' \<Longrightarrow> \<exists>r. h e = Some r \<and> same_event r r'"
  by (metis same_heap_def option_rel_Some2)

lemma eq_rep_mem: "eq_rep q es ext \<Longrightarrow> e \<in> set es \<Longrightarrow> \<exists>r. eqEvents q e = Some r"
  by (auto simp: eq_rep_def dest: balanced_member)

lemma same_heap_kept:
  assumes "same_heap h h1" "kept h1 h2" "balanced h2 xs ext" "\<forall>e. h e \<noteq> None \<longrightarrow> 0 < ext e"
  shows "same_heap h h2"
  unfolding same_heap_def
proof
  fix e
  show "rel_option same_event (h e) (h2 e)"
  proof (cases "h e")
    case None
    then have "h1 e = None" using same_heap_mem [OF assms(1), of e] by (cases "h1 e") auto
    then have "h2 e = None" using assms(2) by (cases "h2 e") (force simp: kept_def)+
    then show ?thesis using None by simp
  next
    case (Some r)
    have "0 < ext e" using assms(4) Some by blast
    then obtain r2 where r2: "h2 e = Some r2"
      using assms(3) [unfolded balanced_def, rule_format, of e] by (cases "h2 e") auto
    then obtain r1 where "h1 e = Some r1" "same_event r1 r2" using assms(2) by (auto simp: kept_def)
    moreover obtain r1' where "h1 e = Some r1'" "same_event r r1'" using same_heap_Some [OF assms(1) Some] by auto
    ultimately show ?thesis using Some r2 by (simp add: same_event_def)
  qed
qed

lemma pq_insert:
  assumes "\<forall>e \<in> set H. pr e = PRIORITY_HIGH" "\<forall>e \<in> set N. pr e = PRIORITY_NORMAL"
  shows "insert_before_first (\<lambda>i. PRIORITY_HIGH > pr i) e (H @ N) = H @ e # N"
proof -
  have "takeWhile (Not \<circ> (\<lambda>i. PRIORITY_HIGH > pr i)) (H @ N) = H"
    "dropWhile (Not \<circ> (\<lambda>i. PRIORITY_HIGH > pr i)) (H @ N) = N"
    using assms by (cases N; simp add: PRIORITY_HIGH_def PRIORITY_NORMAL_def)+
  then show ?thesis by (simp add: insert_before_first_def)
qed

definition polled :: "nat option \<Rightarrow> (nat \<Rightarrow> int) \<Rightarrow> nat \<Rightarrow> int" where
  "polled r ext = (case r of None \<Rightarrow> ext | Some e \<Rightarrow> ext(e := ext e + 1))"

lemma pq_remove_step:
  assumes inv: "pq_inv h q HN ext" and h: "client_events h"
    and static: "\<And>i r r'. same_event r r' \<Longrightarrow> test i r = test i r'"
  shows "\<exists>q'. eq_remove_loop test q = Inr q' \<and> pq_inv h q' (pq_keep test h HN) ext"
proof -
  let ?es = "fst HN @ snd HN"
  have rep: "eq_rep q ?es ext" and same: "same_heap h (eqEvents q)" and pos: "\<forall>e. h e \<noteq> None \<longrightarrow> 0 < ext e"
    using inv by (auto simp: pq_inv_def)
  have mem: "\<exists>r r'. h i = Some r \<and> eqEvents q i = Some r' \<and> same_event r r'" if i: "i \<in> set ?es" for i
  proof -
    obtain r' where "eqEvents q i = Some r'" using eq_rep_mem [OF rep i] by blast
    then show ?thesis using same_heap_mem [OF same] by blast
  qed
  have "\<exists>q'. eq_remove_loop test q = Inr q' \<and>
    eq_rep q' (filter (\<lambda>i. \<not> test i (the (eqEvents q i))) ?es) ext \<and> kept (eqEvents q) (eqEvents q') \<and>
    mWait q' = mWait q"
  proof (rule eq_remove_rep [OF rep])
    fix i r assume "i \<in> set ?es" "eqEvents q i = Some r"
    then show "\<not> evStack r" using mem [of i] h same_eventD by (fastforce simp: client_events_def)
  qed (use static in blast)
  then obtain q' where q': "eq_remove_loop test q = Inr q'"
    "eq_rep q' (filter (\<lambda>i. \<not> test i (the (eqEvents q i))) ?es) ext" "kept (eqEvents q) (eqEvents q')"
    by blast
  have "filter (\<lambda>i. \<not> test i (the (eqEvents q i))) ?es = filter (\<lambda>i. \<not> test i (the (h i))) ?es"
  proof (rule filter_cong [OF refl])
    fix i assume "i \<in> set ?es"
    then show "(\<not> test i (the (eqEvents q i))) = (\<not> test i (the (h i)))" using mem [of i] static by fastforce
  qed
  moreover have "same_heap h (eqEvents q')"
    using same_heap_kept [OF same q'(3) _ pos] q'(2) by (auto simp: eq_rep_def)
  ultimately show ?thesis using q' inv by (auto simp: pq_inv_def pq_keep_def)
qed

definition eq_op_ok :: "eheap \<Rightarrow> eq_op \<Rightarrow> bool" where
  "eq_op_ok h op \<longleftrightarrow> (case op of Send e \<Rightarrow> h e \<noteq> None | _ \<Rightarrow> True)"

lemma pq_step:
  assumes inv: "pq_inv h q HN ext" and h: "client_events h" and ok: "eq_op_ok h op"
  shows "\<exists>q'. eq_step op q = Inr (fst (pq_spec h op HN), q') \<and>
    pq_inv h q' (snd (pq_spec h op HN)) (polled (fst (pq_spec h op HN)) ext)"
proof -
  obtain H N where HN: "HN = (H, N)" by (cases HN)
  have rep: "eq_rep q (H @ N) ext" and same: "same_heap h (eqEvents q)"
    and pH: "\<forall>e \<in> set H. mPriority (the (h e)) = PRIORITY_HIGH"
    and pN: "\<forall>e \<in> set N. mPriority (the (h e)) = PRIORITY_NORMAL"
    and pos: "\<forall>e. h e \<noteq> None \<longrightarrow> 0 < ext e"
    using inv HN by (auto simp: pq_inv_def)
  show ?thesis
  proof (cases op)
    case (Send e)
    then obtain r0 where r0: "h e = Some r0" using ok by (auto simp: eq_op_ok_def)
    obtain r where r: "eqEvents q e = Some r" "same_event r0 r" using same_heap_Some [OF same r0] by auto
    let ?ys = "if mPriority r = PRIORITY_NORMAL then (H @ N) @ [e]
                 else insert_before_first (\<lambda>i. mPriority r > prio q i) e (H @ N)"
    obtain q' where q': "eq_SendEvent q e = Inr q'" "eq_rep q' ?ys ext"
      "eqEvents q' = (eqEvents q)(e \<mapsto> r\<lparr>mRefCount := mRefCount r + 1\<rparr>)"
      using eq_SendEvent_rep [OF rep r(1)] by blast
    have pr: "mPriority r = mPriority r0" "prio q i = mPriority (the (h i))" if "h i \<noteq> None" for i
      using same_eventD [OF r(2)] that same_heap_Some [OF same] same_eventD
      by (fastforce simp: prio_def)+
    have alloc: "h i \<noteq> None" if "i \<in> set (H @ N)" for i
      using eq_rep_mem [OF rep that] same_heap_mem [OF same] by fastforce
    have "?ys = (if mPriority r0 = PRIORITY_NORMAL then H @ N @ [e] else H @ e # N)"
    proof (cases "mPriority r0 = PRIORITY_NORMAL")
      case False
      then have "mPriority r = PRIORITY_HIGH" using h r0 same_eventD [OF r(2)] by (auto simp: client_events_def)
      moreover have "\<forall>i \<in> set (H @ N). prio q i = mPriority (the (h i))" using alloc pr(2) by blast
      ultimately show ?thesis
        using False pq_insert [of H "prio q" N e] pH pN same_eventD [OF r(2)] by simp
    qed (use same_eventD [OF r(2)] in simp)
    moreover have "same_heap h (eqEvents q')"
      using same r0 r(2) unfolding q'(3) by (simp add: same_heap_def same_event_def)
    moreover have "mPriority r0 \<noteq> PRIORITY_NORMAL \<Longrightarrow> mPriority r0 = PRIORITY_HIGH"
      using h r0 by (auto simp: client_events_def)
    ultimately show ?thesis using Send HN q'(1,2) r0 pH pN pos
      by (auto simp: pq_inv_def polled_def)
  next
    case Poll
    show ?thesis
    proof (cases "H @ N")
      case Nil
      then show ?thesis using eq_poll_rep [OF rep] Poll HN inv
        by (simp add: eq_PollEvent_def polled_def)
    next
      case (Cons e es)
      then obtain q' where q': "eq_pollEventInternal q = Inr (Some e, q')"
        "eq_rep q' es (ext(e := ext e + 1))" "eqEvents q' = eqEvents q"
        using eq_poll_rep [OF rep] by auto
      have "es = (if H = [] then tl N else tl H @ N)" using Cons by (cases H) auto
      moreover have "set (tl H) \<subseteq> set H" "set (tl N) \<subseteq> set N"
        by (cases H; simp add: subset_insertI)+ (cases N; simp add: subset_insertI)
      ultimately show ?thesis using Poll HN q' Cons same pH pN pos
        by (auto simp: eq_PollEvent_def polled_def pq_inv_def subset_iff)
    qed
  next
    case (RemoveId event_id)
    then show ?thesis using pq_remove_step [OF inv h, of "\<lambda>i r. mEventId r = event_id"] same_eventD
      by (fastforce simp: eq_Remove_id_def polled_def)
  next
    case (RemoveEvent e)
    then show ?thesis using pq_remove_step [OF inv h, of "\<lambda>i r. i = e"]
      by (auto simp: eq_Remove_event_def polled_def)
  next
    case (RemoveAgents t)
    then show ?thesis
      using pq_remove_step [OF inv h, of "\<lambda>i r. mEventId r = kAgentEventId \<and> evTarget r = Some t"] same_eventD
      by (fastforce simp: eq_RemoveAgentsByReceiver_def polled_def)
  next
    case Flush
    have len: "length (H @ N) < jl_fresh (mQueue q)"
      using rep jl_fuel [of "mQueue q" "H @ N"] by (simp add: eq_rep_def)
    have "\<exists>q'. eq_flush_loop (jl_fresh (mQueue q)) q = Inr q' \<and> eq_rep q' [] ext \<and>
        kept (eqEvents q) (eqEvents q') \<and> mWait q' = mWait q"
    proof (rule eq_flush_rep [OF rep len])
      fix i r assume "i \<in> set (H @ N)" "eqEvents q i = Some r"
      moreover from this obtain r0 where "h i = Some r0" "same_event r0 r"
        using same_heap_mem [OF same] by blast
      ultimately show "\<not> evStack r" using h same_eventD by (fastforce simp: client_events_def)
    qed
    then obtain q' where q': "eq_flush_loop (jl_fresh (mQueue q)) q = Inr q'" "eq_rep q' [] ext"
      "kept (eqEvents q) (eqEvents q')" by blast
    then have "same_heap h (eqEvents q')"
      using same_heap_kept [OF same q'(3) _ pos] by (auto simp: eq_rep_def)
    then show ?thesis using Flush HN q' pos by (simp add: eq_Flush_def polled_def pq_inv_def)
  qed
qed

lemma pq_run_inv:
  assumes "pq_inv h q HN ext" and h: "client_events h" and "\<forall>op \<in> set ops. eq_op_ok h op"
  shows "\<exists>q'. eq_run ops q = Inr (fst (pq_run h ops HN), q') \<and>
    pq_inv h q' (snd (pq_run h ops HN))
      (\<lambda>e. ext e + int (count_list (fst (pq_run h ops HN)) (Some e)))"
  using assms(1,3)
proof (induction ops arbitrary: q HN ext)
  case (Cons op ops)
  obtain r HN1 where s: "pq_spec h op HN = (r, HN1)" by (cases "pq_spec h op HN")
  obtain rs HN2 where t: "pq_run h ops HN1 = (rs, HN2)" by (cases "pq_run h ops HN1")
  obtain q1 where q1: "eq_step op q = Inr (r, q1)" "pq_inv h q1 HN1 (polled r ext)"
    using pq_step [OF Cons.prems(1) h, of op] Cons.prems(2) s by auto
  obtain q2 where q2: "eq_run ops q1 = Inr (rs, q2)"
    "pq_inv h q2 HN2 (\<lambda>e. polled r ext e + int (count_list rs (Some e)))"
    using Cons.IH [OF q1(2)] Cons.prems(2) t by auto
  have "(\<lambda>e. polled r ext e + int (count_list rs (Some e))) =
      (\<lambda>e. ext e + int (count_list (r # rs) (Some e)))"
    by (auto simp: polled_def split: option.splits)
  then show ?case using q1 q2 s t by simp
qed simp

lemma pq_inv_new:
  assumes "client_events h"
  shows "\<exists>q. EventQueue_new h = Inr q \<and>
    pq_inv h q ([], []) (\<lambda>e. case h e of None \<Rightarrow> 0 | Some r \<Rightarrow> mRefCount r)"
proof -
  obtain l :: "nat jlist" where l: "jl_list = Inr l" "jl_holds l []" using jl_list_holds by blast
  have "0 \<le> (case h e of None \<Rightarrow> 0 | Some r \<Rightarrow> mRefCount r)"
    and "h e \<noteq> None \<Longrightarrow> 0 < (case h e of None \<Rightarrow> 0 | Some r \<Rightarrow> mRefCount r)" for e
    using assms by (auto simp: client_events_def less_imp_le split: option.splits)
  then have "pq_inv h \<lparr>eqEvents = h, mQueue = l, mWait = 0\<rparr> ([], [])
      (\<lambda>e. case h e of None \<Rightarrow> 0 | Some r \<Rightarrow> mRefCount r)"
    using l(2) by (auto simp: pq_inv_def eq_rep_def balanced_def same_heap_def same_event_def
        option.rel_refl split: option.split)
  then show ?thesis unfolding EventQueue_new_def l(1) by simp
qed

section \<open>Properties\<close>

text \<open>
  C5: for a client that owns a reference to each event it uses, every sequence of calls on a new
  queue returns, and the queue answers as two FIFO queues, the urgent events before the normal
  ones: \<open>SendEvent\<close> appends to one of them, \<open>PollEvent\<close> takes from the urgent one first, the
  removals drop exactly the matching events. No reference is lost or given up twice: at the end
  each event has, besides what the client had, one reference for each of its entries in the queue
  and one for each time \<open>PollEvent\<close> handed it out.
\<close>

theorem eq_run_refines:
  assumes "client_events h" and "\<forall>op \<in> set ops. eq_op_ok h op"
  shows "\<exists>q q' rs H N. EventQueue_new h = Inr q \<and> eq_run ops q = Inr (rs, q') \<and>
    pq_run h ops ([], []) = (rs, (H, N)) \<and> jl_holds (mQueue q') (H @ N) \<and>
    (\<forall>e. map_option mRefCount (eqEvents q' e) =
         map_option (\<lambda>r. mRefCount r + int (count_list (H @ N) e) + int (count_list rs (Some e))) (h e))"
proof -
  obtain q where q: "EventQueue_new h = Inr q"
    "pq_inv h q ([], []) (\<lambda>e. case h e of None \<Rightarrow> 0 | Some r \<Rightarrow> mRefCount r)"
    using pq_inv_new [OF assms(1)] by blast
  obtain rs H N where run: "pq_run h ops ([], []) = (rs, (H, N))" by (metis surj_pair)
  obtain q' where q': "eq_run ops q = Inr (rs, q')" and inv: "pq_inv h q' (H, N)
      (\<lambda>e. (case h e of None \<Rightarrow> 0 | Some r \<Rightarrow> mRefCount r) + int (count_list rs (Some e)))"
    using pq_run_inv [OF q(2) assms] run by auto
  have "map_option mRefCount (eqEvents q' e) =
      map_option (\<lambda>r. mRefCount r + int (count_list (H @ N) e) + int (count_list rs (Some e))) (h e)" for e
  proof (cases "h e")
    case None
    then have "eqEvents q' e = None"
      using inv same_heap_mem [of h "eqEvents q'" e] by (cases "eqEvents q' e") (auto simp: pq_inv_def)
    then show ?thesis using None by simp
  next
    case (Some r)
    then obtain r' where "eqEvents q' e = Some r'"
      using inv same_heap_Some by (fastforce simp: pq_inv_def)
    moreover have "balanced (eqEvents q') (H @ N)
        (\<lambda>e. (case h e of None \<Rightarrow> 0 | Some r \<Rightarrow> mRefCount r) + int (count_list rs (Some e)))"
      using inv by (simp add: pq_inv_def eq_rep_def)
    ultimately show ?thesis using Some by (auto simp: balanced_def dest: spec [of _ e])
  qed
  then show ?thesis using q(1) q' run inv by (auto simp: pq_inv_def eq_rep_def)
qed

definition two_events :: eheap where
  "two_events = [10 \<mapsto> (Event_new 7 PRIORITY_NORMAL)\<lparr>mRefCount := 1\<rparr>,
                 20 \<mapsto> (Event_new 8 PRIORITY_HIGH)\<lparr>mRefCount := 1\<rparr>]"

lemma eq_run_refines_witness:
  "\<exists>q q'. EventQueue_new two_events = Inr q \<and>
     eq_run [Send 10, Send 20, Send 10, Poll, RemoveId 7, Poll] q = Inr ([None, None, None, Some 20, None, None], q') \<and>
     jl_holds (mQueue q') [] \<and> map_option mRefCount (eqEvents q' 20) = Some 2 \<and>
     map_option mRefCount (eqEvents q' 10) = Some 1"
proof -
  let ?ops = "[Send 10, Send 20, Send 10, Poll, RemoveId 7, Poll]"
  have "client_events two_events" "\<forall>op \<in> set ?ops. eq_op_ok two_events op"
    by (auto simp: client_events_def two_events_def Event_new_def eq_op_ok_def split: if_splits)
  from eq_run_refines [OF this] obtain q q' rs H N where r: "EventQueue_new two_events = Inr q"
    "eq_run ?ops q = Inr (rs, q')" "pq_run two_events ?ops ([], []) = (rs, (H, N))"
    "jl_holds (mQueue q') (H @ N)"
    "\<forall>e. map_option mRefCount (eqEvents q' e) =
         map_option (\<lambda>r. mRefCount r + int (count_list (H @ N) e) + int (count_list rs (Some e))) (two_events e)"
    by blast
  have "pq_run two_events ?ops ([], []) = ([None, None, None, Some 20, None, None], ([], []))"
    by (simp add: two_events_def Event_new_def pq_keep_def PRIORITY_NORMAL_def PRIORITY_HIGH_def)
  then have "rs = [None, None, None, Some 20, None, None]" "H = []" "N = []" using r(3) by auto
  then show ?thesis using r(1,2,4) r(5) [rule_format, of 20] r(5) [rule_format, of 10]
    by (auto simp: two_events_def Event_new_def)
qed

text \<open>
  \<open>WaitEvent\<close> gives an event whenever it returns, except that with a time limit it may return
  null after a wait that timed out; waiting without a limit never returns null.
\<close>

theorem eq_WaitEvent_null:
  assumes "eq_WaitEvent q mstimeout env = Inr (Some (r, q'))"
  shows "(\<exists>e. r = Some e) \<or> r = None \<and> 0 < mstimeout \<and> (\<exists>q''. (False, q'') \<in> set env)"
proof -
  have loop: "eq_wait_loop mstimeout q env = Inr (Some (r, q')) \<Longrightarrow>
      (\<exists>e. r = Some e) \<or> r = None \<and> 0 < mstimeout \<and> (\<exists>q''. (False, q'') \<in> set env)" for q
  proof (induction mstimeout q env rule: eq_wait_loop.induct)
    case (2 mstimeout q signalled q1 env)
    show ?case
    proof (cases signalled)
      case True
      then obtain x where x: "eq_pollEventInternal q1 = Inr x" using "2.prems"
        by (cases "eq_pollEventInternal q1") auto
      obtain ev q2 where ev: "x = (ev, q2)" by (cases x)
      show ?thesis
      proof (cases ev)
        case None
        then show ?thesis using "2.prems" True x ev "2.IH"(1) [OF True] by auto
      next
        case (Some e)
        then show ?thesis using "2.prems" True x ev by auto
      qed
    next
      case False
      then show ?thesis using "2.prems" "2.IH"(2) by (auto split: if_splits)
    qed
  qed simp
  obtain ev q1 where "eq_pollEventInternal q = Inr (ev, q1)"
    using assms by (cases "eq_pollEventInternal q") (auto simp: eq_WaitEvent_def)
  then show ?thesis using assms loop [of q1] by (cases ev) (auto simp: eq_WaitEvent_def)
qed

lemma eq_WaitEvent_null_witness:
  "\<exists>q. EventQueue_new two_events = Inr q \<and> eq_WaitEvent q 5 [(False, q)] = Inr (Some (None, q)) \<and> (0 :: u32) < 5"
proof -
  obtain q where q: "EventQueue_new two_events = Inr q" by (simp add: EventQueue_new_def jl_list_def jl_alloc_def jl_defs)
  have "eq_pollEventInternal q = Inr (None, q)"
    using q by (auto simp: EventQueue_new_def jl_list_def jl_alloc_def jl_defs eq_pollEventInternal_def jl_empty_def)
  then have "eq_WaitEvent q 5 [(False, q)] = Inr (Some (None, q))" by (simp add: eq_WaitEvent_def)
  with eq_WaitEvent_null [OF this] q show ?thesis by auto
qed

end
