(* ===== verification/Timer.thy ===== *)
theory Timer
  imports EventQueue
begin

text \<open>
  The tick timer of src/include/Timer.h and src/src/Timer.cpp and its registry in
  src/include/TimerManager.h and src/src/TimerManager.cpp. Ticks are 32-bit counters that wrap; the
  code compares them by the sign of their difference. A smart pointer to an event is the address of
  the event; what a tick does to the outside (calling a listener, sending an event) is the list of
  its actions, and a callback does nothing to the
  timer: that a listener adds or removes timers from within its call, which the recursive mutex of the code allows, is
  not modelled. The thread is the flag
  \<^verbatim>\<open>mClockThread\<close>, and the clock of \<open>clockHandler\<close> an argument. The list of nodes is the linked list of
  JHList; \<open>tick_list\<close> is the same loop on plain lists.
\<close>

section \<open>State\<close>

record timer_node =
  tnEvent :: "nat option"
  tnDispatcher :: "nat option"
  tnListener :: "nat option"
  tnPrivateData :: u32
  tnTick :: u32
  tnRepeatMS :: u32
  tnRemainingMS :: u32

record timer =
  mClockThread :: bool
  mMsPerTick :: int
  mStoppable :: bool
  mList :: "timer_node jlist"
  mTicks :: u32

datatype timer_action = OnTimeout nat u32 | SendTo nat nat

section \<open>Operations\<close>

definition tm_reset :: "timer \<Rightarrow> timer outcome" where
  "tm_reset t = (let t = t\<lparr>mTicks := 0\<rparr> in
     andThen (jl_clear (jl_fresh (mList t)) (mList t)) (\<lambda>l. Inr (t\<lparr>mList := l\<rparr>)))"

definition tm_start :: "timer \<Rightarrow> timer outcome" where
  "tm_start t = (if mClockThread t then Inr t
     else andThen (tm_reset t) (\<lambda>t. Inr (t\<lparr>mClockThread := True\<rparr>)))"

definition tm_doStop :: "timer \<Rightarrow> timer" where
  "tm_doStop t = (if mClockThread t then t\<lparr>mClockThread := False\<rparr> else t)"

definition tm_stop :: "timer \<Rightarrow> timer" where
  "tm_stop t = (if mStoppable t then tm_doStop t else t)"

definition Timer_new :: "int \<Rightarrow> bool \<Rightarrow> timer outcome" where
  "Timer_new tickTimeMs stoppable =
     andThen jl_list (\<lambda>l.
     let t = \<lparr>mClockThread = False, mMsPerTick = tickTimeMs, mStoppable = stoppable, mList = l, mTicks = 0\<rparr>;
         t = (if mMsPerTick t < 0 then t\<lparr>mMsPerTick := 100\<rparr> else t)
     in tm_start t)"

definition tm_getTickTime :: "timer \<Rightarrow> int" where
  "tm_getTickTime t = mMsPerTick t"

definition tm_addTimerNode :: "timer \<Rightarrow> timer_node \<Rightarrow> timer outcome" where
  "tm_addTimerNode t newTimer =
     andThen (andThen (jl_begin (mList t))
         (for_insert_before jl_end it_deref it_incr it_insertBefore jl_push_back
            (\<lambda>timer. Inr (sint (tnTick newTimer - tnTick timer) < 0)) newTimer
            (jl_fresh (mList t)) (mList t)))
       (\<lambda>l. Inr (t\<lparr>mList := l\<rparr>))"

text \<open>\<open>( msecs + mMsPerTick - 1 ) / mMsPerTick\<close>, in 32-bit unsigned arithmetic.\<close>

definition tm_ticks :: "timer \<Rightarrow> u32 \<Rightarrow> u32 outcome" where
  "tm_ticks t msecs =
     (let m = word_of_int (mMsPerTick t) in
      if m = 0 then Inl UndefinedBehaviour else Inr ((msecs + m - 1) div m))"

definition tm_addTimer :: "timer \<Rightarrow> nat option \<Rightarrow> u32 \<Rightarrow> u32 \<Rightarrow> timer outcome" where
  "tm_addTimer t listener msecs private_data =
     (if listener = None then Inl Fatal else
      andThen (tm_ticks t msecs) (\<lambda>ticks.
      tm_addTimerNode t
        \<lparr>tnEvent = None, tnDispatcher = None, tnListener = listener, tnPrivateData = private_data,
         tnTick = mTicks t + ticks, tnRepeatMS = 0, tnRemainingMS = 0\<rparr>))"

definition tm_addPeriodicTimer :: "timer \<Rightarrow> nat option \<Rightarrow> u32 \<Rightarrow> u32 \<Rightarrow> timer outcome" where
  "tm_addPeriodicTimer t listener period private_data =
     (if listener = None then Inl Fatal else
      andThen (tm_ticks t period) (\<lambda>ticks.
      tm_addTimerNode t
        \<lparr>tnEvent = None, tnDispatcher = None, tnListener = listener, tnPrivateData = private_data,
         tnTick = mTicks t + ticks, tnRepeatMS = period, tnRemainingMS = 0\<rparr>))"

definition tm_sendTimedEvent :: "timer \<Rightarrow> nat option \<Rightarrow> nat option \<Rightarrow> u32 \<Rightarrow> timer outcome" where
  "tm_sendTimedEvent t event dispatcher msecs =
     andThen (tm_ticks t msecs) (\<lambda>ticks.
     tm_addTimerNode t
       \<lparr>tnEvent = event, tnDispatcher = dispatcher, tnListener = None, tnPrivateData = 0,
        tnTick = mTicks t + ticks, tnRepeatMS = 0, tnRemainingMS = 0\<rparr>)"

definition tm_sendPeriodicEvent :: "timer \<Rightarrow> nat option \<Rightarrow> nat option \<Rightarrow> u32 \<Rightarrow> timer outcome" where
  "tm_sendPeriodicEvent t event dispatcher period =
     andThen (tm_ticks t period) (\<lambda>ticks.
     tm_addTimerNode t
       \<lparr>tnEvent = event, tnDispatcher = dispatcher, tnListener = None, tnPrivateData = 0,
        tnTick = mTicks t + ticks, tnRepeatMS = period, tnRemainingMS = 0\<rparr>)"

definition tn_fire :: "timer_node \<Rightarrow> timer_action outcome" where
  "tn_fire timer =
     (case tnEvent timer of
        None \<Rightarrow> (case tnListener timer of None \<Rightarrow> Inl UndefinedBehaviour
                 | Some l \<Rightarrow> Inr (OnTimeout l (tnPrivateData timer)))
      | Some e \<Rightarrow> (case tnDispatcher timer of None \<Rightarrow> Inl UndefinedBehaviour
                   | Some d \<Rightarrow> Inr (SendTo d e)))"

definition tn_reload :: "int \<Rightarrow> timer_node \<Rightarrow> timer_node outcome" where
  "tn_reload msPerTick timer =
     (let m = word_of_int msPerTick in
      if m = 0 then Inl UndefinedBehaviour else
      let newTicks = (tnRepeatMS timer + m - 1 - tnRemainingMS timer) div m in
      Inr (timer\<lparr>tnTick := tnTick timer + newTicks,
                 tnRemainingMS := (tnRepeatMS timer + tnRemainingMS timer) mod m\<rparr>))"

fun tm_tick_loop :: "nat \<Rightarrow> timer \<Rightarrow> (timer_action list \<times> timer) outcome" where
  "tm_tick_loop 0 t = Inl NoReturn"
| "tm_tick_loop (Suc fuel) t =
     andThen (jl_empty (mList t)) (\<lambda>e. if e then Inr ([], t) else
     andThen (jl_begin (mList t)) (\<lambda>i.
     andThen (it_deref (mList t) i) (\<lambda>timer.
     if sint (tnTick timer - mTicks t) > 0 then Inr ([], t) else
     andThen (jl_pop_front (mList t)) (\<lambda>l.
     let t = t\<lparr>mList := l\<rparr> in
     andThen (tn_fire timer) (\<lambda>a.
     andThen (if tnRepeatMS timer \<noteq> 0
              then andThen (tn_reload (mMsPerTick t) timer) (tm_addTimerNode t)
              else Inr t) (\<lambda>t.
     andThen (tm_tick_loop fuel t) (\<lambda>(as, t). Inr (a # as, t))))))))"

definition tm_handleTick :: "nat \<Rightarrow> timer \<Rightarrow> (timer_action list \<times> timer) outcome" where
  "tm_handleTick fuel t = tm_tick_loop fuel (t\<lparr>mTicks := mTicks t + 1\<rparr>)"

text \<open>
  One turn of \<open>clockHandler\<close> after a wait that timed out: \<open>now\<close> and \<open>start\<close> are milliseconds of the
  clock, \<open>start\<close> is updated; the value also counts the ticks handled.
\<close>

fun tm_catch_up :: "nat \<Rightarrow> nat \<Rightarrow> int \<Rightarrow> int \<Rightarrow> timer \<Rightarrow> (nat \<times> int \<times> timer_action list \<times> timer) outcome" where
  "tm_catch_up 0 fuel start now t = Inl NoReturn"
| "tm_catch_up (Suc n) fuel start now t =
     (if now - start > mMsPerTick t
      then andThen (tm_handleTick fuel t) (\<lambda>(as, t).
           andThen (tm_catch_up n fuel (start + mMsPerTick t) now t) (\<lambda>(k, start, bs, t).
           Inr (Suc k, start, as @ bs, t)))
      else Inr (0, start, [], t))"

definition tm_clock_turn :: "nat \<Rightarrow> nat \<Rightarrow> int \<Rightarrow> int \<Rightarrow> timer \<Rightarrow> (nat \<times> int \<times> timer_action list \<times> timer) outcome" where
  "tm_clock_turn n fuel start now t =
     (if now - start < 0 \<or> now - start > 10000
      then andThen (tm_handleTick fuel t) (\<lambda>(as, t). Inr (1, now, as, t))
      else tm_catch_up n fuel start now t)"

definition tm_removeTimedEvent_id :: "eheap \<Rightarrow> timer \<Rightarrow> int \<Rightarrow> nat option \<Rightarrow> timer outcome" where
  "tm_removeTimedEvent_id h t eventId dispatcher =
     andThen (andThen (jl_begin (mList t))
         (while_erase_if jl_end it_deref it_incr it_erase
            (\<lambda>_ timer.
               if tnDispatcher timer = dispatcher \<and> tnEvent timer \<noteq> None
               then andThen (ev_get h (the (tnEvent timer))) (\<lambda>r.
                    Inr (mEventId r = eventId \<or> eventId = kInvalidEventId, ()))
               else Inr (False, ()))
            (jl_fresh (mList t)) () (mList t)))
       (\<lambda>(_, l). Inr (t\<lparr>mList := l\<rparr>))"

definition tm_removeTimedEvent :: "timer \<Rightarrow> nat option \<Rightarrow> timer outcome" where
  "tm_removeTimedEvent t ev =
     andThen (andThen (jl_begin (mList t))
         (while_erase_if jl_end it_deref it_incr it_erase
            (\<lambda>_ timer. Inr (tnEvent timer = ev, ()))
            (jl_fresh (mList t)) () (mList t)))
       (\<lambda>(_, l). Inr (t\<lparr>mList := l\<rparr>))"

text \<open>The event of a node is followed without a test for null.\<close>

definition tm_removeAgentsByReceiver :: "eheap \<Rightarrow> timer \<Rightarrow> nat \<Rightarrow> nat option \<Rightarrow> timer outcome" where
  "tm_removeAgentsByReceiver h t receiver dispatcher =
     andThen (andThen (jl_begin (mList t))
         (while_erase_if jl_end it_deref it_incr it_erase
            (\<lambda>_ timer.
               case tnEvent timer of None \<Rightarrow> Inl UndefinedBehaviour
               | Some e \<Rightarrow> andThen (ev_get h e) (\<lambda>r.
                   Inr (mEventId r = kAgentEventId \<and> tnDispatcher timer = dispatcher \<and>
                        evTarget r = Some receiver, ())))
            (jl_fresh (mList t)) () (mList t)))
       (\<lambda>(_, l). Inr (t\<lparr>mList := l\<rparr>))"

section \<open>The timer on plain lists\<close>

definition add_node :: "timer_node \<Rightarrow> timer_node list \<Rightarrow> timer_node list" where
  "add_node v xs = insert_before_first (\<lambda>n. sint (tnTick v - tnTick n) < 0) v xs"

fun tick_list :: "nat \<Rightarrow> int \<Rightarrow> u32 \<Rightarrow> timer_node list \<Rightarrow> (timer_node list \<times> timer_node list) outcome" where
  "tick_list 0 m now xs = Inl NoReturn"
| "tick_list (Suc fuel) m now [] = Inr ([], [])"
| "tick_list (Suc fuel) m now (n # xs) =
     (if sint (tnTick n - now) > 0 then Inr ([], n # xs)
      else andThen (tn_fire n) (\<lambda>_.
           andThen (if tnRepeatMS n \<noteq> 0 then andThen (tn_reload m n) (\<lambda>n'. Inr (add_node n' xs)) else Inr xs) (\<lambda>ys.
           andThen (tick_list fuel m now ys) (\<lambda>(fired, zs). Inr (n # fired, zs)))))"

definition node_action :: "timer_node \<Rightarrow> timer_action" where
  "node_action n = projr (tn_fire n)"

lemma tm_addTimerNode_rep:
  assumes "jl_holds (mList t) xs"
  shows "\<exists>l. tm_addTimerNode t v = Inr (t\<lparr>mList := l\<rparr>) \<and> jl_holds l (add_node v xs)"
proof -
  obtain w where w: "jl_seq (mList t) w xs" using assms by (auto simp: jl_holds_def)
  have f: "length xs < jl_fresh (mList t)" using jl_fuel [OF assms] by simp
  have "test_insert (\<lambda>timer. Inr (sint (tnTick v - tnTick timer) < 0)) v xs = Inr (add_node v xs)"
    unfolding add_node_def by (rule test_insert_pure) simp
  from jl.for_insert_before_begin [OF w f this] show ?thesis
    by (auto simp: tm_addTimerNode_def jl_holds_def)
qed

lemma tm_tick_loop_rep:
  assumes "jl_holds (mList t) xs"
  shows "case tick_list fuel (mMsPerTick t) (mTicks t) xs of
      Inl e \<Rightarrow> tm_tick_loop fuel t = Inl e
    | Inr (fired, zs) \<Rightarrow> \<exists>l. tm_tick_loop fuel t = Inr (map node_action fired, t\<lparr>mList := l\<rparr>) \<and> jl_holds l zs"
  using assms
proof (induction fuel arbitrary: t xs)
  case (Suc fuel)
  show ?case
  proof (cases xs)
    case Nil
    then show ?thesis using Suc.prems jl_empty_holds [OF Suc.prems] by (auto intro: exI [of _ "mList t"])
  next
    case (Cons n ns)
    then have l: "jl_holds (mList t) (n # ns)" using Suc.prems by simp
    have b: "jl_empty (mList t) = Inr False"
      "andThen (jl_begin (mList t)) (it_deref (mList t)) = Inr n"
    proof -
      have "it_deref (mList t) = jl_val (mList t)" by (simp add: it_deref_def fun_eq_iff)
      then show "andThen (jl_begin (mList t)) (it_deref (mList t)) = Inr n"
        using jl_front_holds [OF l] by (simp add: jl_front_def jl_begin_def)
    qed (use jl_empty_holds [OF l] in simp)
    then obtain i where i: "jl_begin (mList t) = Inr i" "it_deref (mList t) i = Inr n"
      by (cases "jl_begin (mList t)") auto
    show ?thesis
    proof (cases "sint (tnTick n - mTicks t) > 0")
      case True
      then show ?thesis using b i Cons l by (auto intro: exI [of _ "mList t"])
    next
      case False
      obtain l1 where l1: "jl_pop_front (mList t) = Inr l1" "jl_holds l1 ns"
        using jl_pop_front_holds [OF l] by auto
      show ?thesis
      proof (cases "tn_fire n")
        case (Inl e)
        then show ?thesis using b i l1 Cons False by simp
      next
        case (Inr a)
        have a: "node_action n = a" using Inr by (simp add: node_action_def)
        define z where "z = (if tnRepeatMS n \<noteq> 0 then andThen (tn_reload (mMsPerTick t) n) (\<lambda>n'. Inr (add_node n' ns)) else Inr ns)"
        define u where "u = (if tnRepeatMS n \<noteq> 0 then andThen (tn_reload (mMsPerTick t) n) (tm_addTimerNode (t\<lparr>mList := l1\<rparr>)) else Inr (t\<lparr>mList := l1\<rparr>))"
        have step: "tm_tick_loop (Suc fuel) t = andThen u (\<lambda>t. andThen (tm_tick_loop fuel t) (\<lambda>(as, t). Inr (a # as, t)))"
          using b i l1 False Inr by (simp add: Let_def u_def)
        have spec: "tick_list (Suc fuel) (mMsPerTick t) (mTicks t) xs =
            andThen z (\<lambda>ys. andThen (tick_list fuel (mMsPerTick t) (mTicks t) ys) (\<lambda>(fired, zs). Inr (n # fired, zs)))"
          using Cons False Inr by (simp add: z_def)
        have zu: "(\<exists>e. z = Inl e \<and> u = Inl e) \<or> (\<exists>ys l. z = Inr ys \<and> u = Inr (t\<lparr>mList := l\<rparr>) \<and> jl_holds l ys)"
        proof (cases "tnRepeatMS n \<noteq> 0")
          case True
          then show ?thesis
            using tm_addTimerNode_rep [of "t\<lparr>mList := l1\<rparr>" ns] l1(2)
            by (cases "tn_reload (mMsPerTick t) n") (auto simp: z_def u_def)
        qed (use l1 in \<open>auto simp: z_def u_def\<close>)
        then show ?thesis
        proof (elim disjE exE conjE)
          fix e assume "z = Inl e" "u = Inl e"
          then show ?thesis unfolding step spec by simp
        next
          fix ys l2 assume z: "z = Inr ys" and u: "u = Inr (t\<lparr>mList := l2\<rparr>)" and h: "jl_holds l2 ys"
          show ?thesis using Suc.IH [of "t\<lparr>mList := l2\<rparr>" ys] h unfolding step spec z u
            by (auto simp: a split: sum.splits)
        qed
      qed
    qed
  qed
qed simp

section \<open>Ticks as distances\<close>

text \<open>
  \<open>due_in now n\<close> is the number of ticks until the node is due, positive for the future. As long as
  the distances stay far below 2^31 the wrapped comparisons of the code order them.
\<close>

definition due_in :: "u32 \<Rightarrow> timer_node \<Rightarrow> int" where
  "due_in now n = sint (tnTick n - now)"

lemma sint_diff:
  fixes x y :: u32
  assumes "- (2 ^ 31) \<le> sint x - sint y" "sint x - sint y < 2 ^ 31"
  shows "sint (x - y) = sint x - sint y"
proof -
  have "sint (x - y) = signed_take_bit (LENGTH(32) - 1) (sint x - sint y)"
    by (rule sint_word_ariths)
  then show ?thesis using signed_take_bit_int_eq_self [of 31 "sint x - sint y"] assms by simp
qed

lemma sint_word_of_int_small:
  "- (2 ^ 31) \<le> n \<Longrightarrow> n < 2 ^ 31 \<Longrightarrow> sint (word_of_int n :: u32) = n"
  using signed_take_bit_int_eq_self [of 31 n] by (simp add: sint_sbintrunc')

definition near :: "u32 \<Rightarrow> timer_node \<Rightarrow> bool" where
  "near now n \<longleftrightarrow> - (2 ^ 30) < due_in now n \<and> due_in now n < 2 ^ 30"

lemma tick_compare:
  assumes "near now a" "near now b"
  shows "sint (tnTick a - tnTick b) = due_in now a - due_in now b"
proof -
  have "tnTick a - tnTick b = (tnTick a - now) - (tnTick b - now)" by simp
  then show ?thesis
    using assms sint_diff [of "tnTick a - now" "tnTick b - now"] by (simp add: near_def due_in_def)
qed

lemma due_in_next:
  assumes "near now n"
  shows "due_in (now + 1) n = due_in now n - 1"
proof -
  have "tnTick n - (now + 1) = (tnTick n - now) - 1" by simp
  moreover have "sint (1 :: u32) = 1" by simp
  ultimately show ?thesis
    unfolding due_in_def using assms sint_diff [of "tnTick n - now" 1]
    by (simp only:) (simp add: near_def due_in_def)
qed

lemma due_in_later:
  assumes "tnTick n' = tnTick n + word_of_int k" "0 \<le> k" "due_in now n + k < 2 ^ 31"
  shows "due_in now n' = due_in now n + k"
proof -
  have "- (2 ^ 31) \<le> due_in now n"
    using sint_range_size [of "tnTick n - now"] by (simp add: due_in_def word_size)
  moreover have "tnTick n' - now = word_of_int (due_in now n + k)"
    using assms(1) by (simp add: due_in_def)
  ultimately show ?thesis
    using sint_word_of_int_small [of "due_in now n + k"] assms(2,3)
    unfolding due_in_def [of now n'] by (simp only:)
qed

text \<open>The list is kept in the order of the due ticks, older entries first among equals.\<close>

definition by_due :: "u32 \<Rightarrow> timer_node list \<Rightarrow> bool" where
  "by_due now xs \<longleftrightarrow> sorted (map (due_in now) xs) \<and> (\<forall>n \<in> set xs. near now n)"

lemma add_node_near:
  assumes "by_due now xs" "near now v"
  shows "add_node v xs = takeWhile (\<lambda>n. due_in now n \<le> due_in now v) xs @ v #
      dropWhile (\<lambda>n. due_in now n \<le> due_in now v) xs"
proof -
  have eq: "(sint (tnTick v - tnTick n) < 0) = (\<not> due_in now n \<le> due_in now v)" if "n \<in> set xs" for n
    using assms that tick_compare [of now v n] by (auto simp: by_due_def)
  have "takeWhile (Not \<circ> (\<lambda>n. sint (tnTick v - tnTick n) < 0)) xs = takeWhile (\<lambda>n. due_in now n \<le> due_in now v) xs"
    "dropWhile (Not \<circ> (\<lambda>n. sint (tnTick v - tnTick n) < 0)) xs = dropWhile (\<lambda>n. due_in now n \<le> due_in now v) xs"
    using eq by (auto intro: takeWhile_cong dropWhile_cong)
  then show ?thesis by (simp add: add_node_def insert_before_first_def)
qed

lemma add_node_set [simp]: "set (add_node v xs) = insert v (set xs)"
proof -
  have "set xs = set (takeWhile P xs) \<union> set (dropWhile P xs)" for P
    by (metis set_append takeWhile_dropWhile_id)
  then show ?thesis by (auto simp: add_node_def insert_before_first_def)
qed

lemma sorted_split_insert:
  fixes f :: "'a \<Rightarrow> int"
  assumes "sorted (map f xs)"
  shows "sorted (map f (takeWhile (\<lambda>n. f n \<le> k) xs)) \<and> sorted (map f (dropWhile (\<lambda>n. f n \<le> k) xs)) \<and>
    (\<forall>n \<in> set (takeWhile (\<lambda>n. f n \<le> k) xs). f n \<le> k) \<and> (\<forall>n \<in> set (dropWhile (\<lambda>n. f n \<le> k) xs). k \<le> f n)"
  using assms
proof (induction xs)
  case (Cons x xs)
  then show ?case by (cases "f x \<le> k") (auto dest: set_takeWhileD)
qed simp

lemma add_node_by_due:
  assumes "by_due now xs" "near now v"
  shows "by_due now (add_node v xs)"
proof -
  have "sorted (map (due_in now) xs)" using assms(1) by (simp add: by_due_def)
  from sorted_split_insert [OF this, of "due_in now v"]
  have "sorted (map (due_in now) (add_node v xs))"
    unfolding add_node_near [OF assms]
    by (simp del: takeWhile_dropWhile_id add: sorted_append) (meson order.trans)
  then show ?thesis using assms by (auto simp: by_due_def)
qed

section \<open>Reloading a periodic node\<close>

definition node_ok :: "int \<Rightarrow> timer_node \<Rightarrow> bool" where
  "node_ok m n \<longleftrightarrow>
     0 < m \<and> m < 2 ^ 29 \<and> uint (tnRepeatMS n) < 2 ^ 29 \<and> uint (tnRemainingMS n) < m \<and>
     (\<exists>a. tn_fire n = Inr a)"

definition one_shot :: "timer_node \<Rightarrow> bool" where
  "one_shot n \<longleftrightarrow> tnRepeatMS n = 0"

definition new_ticks :: "int \<Rightarrow> int \<Rightarrow> int \<Rightarrow> int" where
  "new_ticks m period remaining = (period + m - 1 - remaining) div m"

lemma word_of_uint_div:
  "0 \<le> a \<Longrightarrow> a < 2 ^ 32 \<Longrightarrow> 0 < m \<Longrightarrow> m < 2 ^ 32 \<Longrightarrow>
   (word_of_int a :: u32) div word_of_int m = word_of_int (a div m) \<and>
   (word_of_int a :: u32) mod word_of_int m = word_of_int (a mod m)"
  by (simp add: word_div_def word_mod_def uint_word_of_int mod_pos_pos_trivial)

lemma new_ticks_bounds:
  assumes "0 < m" "0 \<le> q" "q < m" "0 < p"
  shows "0 \<le> new_ticks m p q" "new_ticks m p q \<le> p"
proof -
  have "0 \<le> p + m - 1 - q" using assms by linarith
  then show "0 \<le> new_ticks m p q" using assms(1) by (simp add: new_ticks_def pos_imp_zdiv_nonneg_iff)
  have "p + m - 1 - q \<le> p * m"
  proof -
    have "0 \<le> (p - 1) * (m - 1)" using assms by (intro mult_nonneg_nonneg) linarith+
    then show ?thesis using assms by (simp add: algebra_simps)
  qed
  then have "new_ticks m p q \<le> p * m div m"
    unfolding new_ticks_def using assms(1) by (intro zdiv_mono1)
  then show "new_ticks m p q \<le> p" using assms(1) by simp
qed

lemma tn_fire_reloaded [simp]: "tn_fire (n\<lparr>tnTick := t, tnRemainingMS := r\<rparr>) = tn_fire n"
  by (simp add: tn_fire_def split: option.split)

lemma tn_reload_ok:
  assumes ok: "node_ok m n" and rep: "tnRepeatMS n \<noteq> 0"
  defines "k \<equiv> new_ticks m (uint (tnRepeatMS n)) (uint (tnRemainingMS n))"
    and "q \<equiv> (uint (tnRepeatMS n) + uint (tnRemainingMS n)) mod m"
  shows "tn_reload m n = Inr (n\<lparr>tnTick := tnTick n + word_of_int k, tnRemainingMS := word_of_int q\<rparr>)"
    and "0 \<le> k" "k < 2 ^ 29" "uint (word_of_int q :: u32) = q"
    and "node_ok m (n\<lparr>tnTick := t, tnRemainingMS := word_of_int q\<rparr>)"
proof -
  let ?p = "uint (tnRepeatMS n)" and ?r = "uint (tnRemainingMS n)"
  have b: "0 < m" "m < 2 ^ 29" "?p < 2 ^ 29" "?r < m" "0 \<le> ?p" "0 \<le> ?r"
    using ok by (auto simp: node_ok_def)
  have "?p \<noteq> 0" using rep by (simp add: uint_0_iff)
  then have p: "0 < ?p" using b(5) by linarith
  note kb = new_ticks_bounds [OF b(1,6,4) p]
  show "0 \<le> k" "k < 2 ^ 29" using kb b(3) by (simp_all add: k_def)
  have big: "(2 :: int) ^ 29 + 2 ^ 29 < 2 ^ 32" by simp
  have a: "0 \<le> ?p + m - 1 - ?r" "?p + m - 1 - ?r < 2 ^ 32" "m < 2 ^ 32"
    using b p big by linarith+
  have c: "0 \<le> ?p + ?r" "?p + ?r < 2 ^ 32" using b big by linarith+
  have "uint (word_of_int m :: u32) = m" using b(1) a(3) by (simp add: uint_word_of_int mod_pos_pos_trivial)
  then have m0: "(word_of_int m :: u32) \<noteq> 0" using b(1) by auto
  have w: "tnRepeatMS n + word_of_int m - 1 - tnRemainingMS n = word_of_int (?p + m - 1 - ?r)"
    "tnRepeatMS n + tnRemainingMS n = word_of_int (?p + ?r)"
    by simp_all
  show "tn_reload m n = Inr (n\<lparr>tnTick := tnTick n + word_of_int k, tnRemainingMS := word_of_int q\<rparr>)"
    unfolding tn_reload_def Let_def w
    using m0 word_of_uint_div [OF a(1,2) b(1) a(3)] word_of_uint_div [OF c b(1) a(3)]
    by (simp only: if_False k_def q_def new_ticks_def)
  have q: "0 \<le> q" "q < m" using b(1) by (simp_all add: q_def)
  show uq: "uint (word_of_int q :: u32) = q"
    using q a(3) by (simp add: uint_word_of_int mod_pos_pos_trivial)
  show "node_ok m (n\<lparr>tnTick := t, tnRemainingMS := word_of_int q\<rparr>)"
    using ok uq q(2) by (simp add: node_ok_def)
qed

text \<open>
  A node with a period shorter than a tick may be due again at once; this measure drops each time.
\<close>

definition refire :: "int \<Rightarrow> u32 \<Rightarrow> timer_node \<Rightarrow> nat" where
  "refire m now n =
     (if due_in now n > 0 then 0
      else nat ((1 - due_in now n) * (m + 2) +
        (if uint (tnRemainingMS n) < uint (tnRepeatMS n) then 1 else 2 + m - uint (tnRemainingMS n))))"

lemma refire_decreases:
  assumes ok: "node_ok m n" and rep: "tnRepeatMS n \<noteq> 0" and due: "near now n" "due_in now n \<le> 0"
    and n': "tn_reload m n = Inr n'"
  shows "refire m now n' < refire m now n" "near now n'" "node_ok m n'" "tnRepeatMS n' = tnRepeatMS n"
proof -
  let ?p = "uint (tnRepeatMS n)" and ?r = "uint (tnRemainingMS n)" and ?d = "due_in now n"
  define k where "k = new_ticks m ?p ?r"
  define q where "q = (?p + ?r) mod m"
  note r = tn_reload_ok [OF ok rep, folded k_def q_def]
  have n'_eq: "n' = n\<lparr>tnTick := tnTick n + word_of_int k, tnRemainingMS := word_of_int q\<rparr>"
    using r(1) n' by simp
  have b: "0 < m" "?r < m" "0 \<le> ?r" "?p < 2 ^ 29" using ok by (auto simp: node_ok_def)
  have "?p \<noteq> 0" using rep by (simp add: uint_0_iff)
  then have p: "0 < ?p" using uint_ge_0 [of "tnRepeatMS n"] by linarith
  have d': "due_in now n' = ?d + k"
    using due_in_later [of n' n k now] r(2,3) due(2) by (simp add: n'_eq)
  show "near now n'" using due r(2,3) unfolding near_def d' by simp
  show "node_ok m n'" "tnRepeatMS n' = tnRepeatMS n" using r(5) by (simp_all add: n'_eq)
  have phase: "uint (tnRemainingMS n') = q" "uint (tnRepeatMS n') = ?p" using r(4) by (simp_all add: n'_eq)
  have q: "0 \<le> q" "q < m" using b(1) by (simp_all add: q_def)
  let ?ph = "\<lambda>r. if r < ?p then 1 else 2 + m - r"
  have ph: "1 \<le> ?ph s \<and> ?ph s \<le> m + 1" if "0 \<le> s" "s < m" for s
    using that p by auto
  show "refire m now n' < refire m now n"
  proof (cases "?d + k > 0")
    case True
    have "0 < (1 - ?d) * (m + 2)" using due(2) b(1) by simp
    then have "0 < (1 - ?d) * (m + 2) + ?ph ?r" using ph [OF b(3,2)] by linarith
    then show ?thesis using True due(2) unfolding refire_def d' by simp
  next
    case False
    have lt: "(1 - (?d + k)) * (m + 2) + ?ph q < (1 - ?d) * (m + 2) + ?ph ?r"
    proof (cases "k = 0")
      case True
      have "?p + m - 1 - ?r < m"
      proof (rule ccontr)
        assume "\<not> ?p + m - 1 - ?r < m"
        then have "m div m \<le> (?p + m - 1 - ?r) div m" using b(1) by (intro zdiv_mono1) auto
        then show False using True b(1) by (simp add: k_def new_ticks_def)
      qed
      then have pr: "?p \<le> ?r" by linarith
      have "q = (if ?p + ?r < m then ?p + ?r else ?p + ?r - m)"
        unfolding q_def using pr b p by (intro ring_mod) linarith+
      then show ?thesis using True pr b p by auto
    next
      case False
      then have "1 \<le> k" using r(2) by linarith
      then have "1 * (m + 2) \<le> k * (m + 2)" using b(1) by (intro mult_right_mono) auto
      then show ?thesis using ph [OF q] ph [OF b(3,2)] by (simp add: algebra_simps)
    qed
    have "0 \<le> (1 - (?d + k)) * (m + 2)" using False b(1) by simp
    then have "nat ((1 - (?d + k)) * (m + 2) + ?ph q) < nat ((1 - ?d) * (m + 2) + ?ph ?r)"
      using lt ph [OF q] by linarith
    moreover have "refire m now n' = nat ((1 - (?d + k)) * (m + 2) + ?ph q)"
      using False unfolding refire_def d' phase by (rule if_not_P)
    moreover have "refire m now n = nat ((1 - ?d) * (m + 2) + ?ph ?r)"
      using due(2) unfolding refire_def by (intro if_not_P) simp
    ultimately show ?thesis by simp
  qed
qed

lemma sum_add_node: "sum_list (map f (add_node v xs)) = f v + (sum_list (map f xs) :: nat)"
proof -
  have "sum_list (map f xs) = sum_list (map f (takeWhile P xs)) + sum_list (map f (dropWhile P xs))" for P
    by (metis map_append sum_list_append takeWhile_dropWhile_id)
  then show ?thesis by (simp add: add_node_def insert_before_first_def)
qed

lemma filter_add_node: "\<not> P v \<Longrightarrow> filter P (add_node v xs) = filter P xs"
proof -
  assume "\<not> P v"
  have "filter P (takeWhile Q xs) @ filter P (dropWhile Q xs) = filter P xs" for Q
    by (metis filter_append takeWhile_dropWhile_id)
  then show ?thesis using \<open>\<not> P v\<close> by (simp add: add_node_def insert_before_first_def)
qed

section \<open>One tick\<close>

definition nodes_ok :: "int \<Rightarrow> u32 \<Rightarrow> timer_node list \<Rightarrow> bool" where
  "nodes_ok m now xs \<longleftrightarrow> by_due now xs \<and> (\<forall>n \<in> set xs. node_ok m n)"

lemma nodes_ok_Cons:
  "nodes_ok m now (n # xs) \<longleftrightarrow> nodes_ok m now xs \<and> node_ok m n \<and> near now n \<and> (\<forall>x \<in> set xs. due_in now n \<le> due_in now x)"
  by (auto simp: nodes_ok_def by_due_def)

lemma tick_list_ok:
  assumes "nodes_ok m now xs" "sum_list (map (refire m now) xs) < fuel"
  shows "\<exists>fired zs. tick_list fuel m now xs = Inr (fired, zs) \<and> nodes_ok m now zs \<and>
    (\<forall>n \<in> set zs. 0 < due_in now n) \<and>
    filter one_shot fired = filter (\<lambda>n. one_shot n \<and> due_in now n \<le> 0) xs \<and>
    filter one_shot zs = filter (\<lambda>n. one_shot n \<and> 0 < due_in now n) xs"
  using assms
proof (induction fuel arbitrary: xs)
  case (Suc fuel)
  show ?case
  proof (cases xs)
    case Nil
    then show ?thesis using Suc.prems by simp
  next
    case (Cons n ns)
    have ok: "nodes_ok m now ns" "node_ok m n" "near now n" "\<forall>x \<in> set ns. due_in now n \<le> due_in now x"
      using Suc.prems(1) unfolding Cons nodes_ok_Cons by auto
    show ?thesis
    proof (cases "due_in now n > 0")
      case True
      then have "\<forall>x \<in> set xs. 0 < due_in now x" using ok(4) Cons by auto
      moreover from this have "filter (\<lambda>n. one_shot n \<and> due_in now n \<le> 0) xs = []"
        "filter (\<lambda>n. one_shot n \<and> 0 < due_in now n) xs = filter one_shot xs"
        by (auto simp: filter_empty_conv intro: filter_cong)
      moreover have "tick_list (Suc fuel) m now xs = Inr ([], xs)"
        using True Cons by (simp add: due_in_def)
      ultimately show ?thesis using Suc.prems(1) by auto
    next
      case False
      obtain a where a: "tn_fire n = Inr a" using ok(2) by (auto simp: node_ok_def)
      have r0: "0 < refire m now n"
        using False ok(2) by (auto simp: refire_def node_ok_def intro!: add_pos_pos add_nonneg_pos mult_pos_pos)
      define ys where "ys = (if one_shot n then ns else add_node (projr (tn_reload m n)) ns)"
      have step: "tick_list (Suc fuel) m now xs =
          andThen (tick_list fuel m now ys) (\<lambda>(fired, zs). Inr (n # fired, zs)) \<and>
        nodes_ok m now ys \<and> sum_list (map (refire m now) ys) < sum_list (map (refire m now) xs) \<and>
        filter (\<lambda>n. one_shot n \<and> due_in now n \<le> 0) ys = filter (\<lambda>n. one_shot n \<and> due_in now n \<le> 0) ns \<and>
        filter (\<lambda>n. one_shot n \<and> 0 < due_in now n) ys = filter (\<lambda>n. one_shot n \<and> 0 < due_in now n) ns"
      proof (cases "one_shot n")
        case True
        then show ?thesis using a False Cons ok(1) r0 by (simp add: ys_def one_shot_def due_in_def)
      next
        case os: False
        then have rep: "tnRepeatMS n \<noteq> 0" by (simp add: one_shot_def)
        obtain n' where n': "tn_reload m n = Inr n'" using tn_reload_ok(1) [OF ok(2) rep] by blast
        note d = refire_decreases [OF ok(2) rep ok(3) _ n']
        have d1: "refire m now n' < refire m now n" "near now n'" "node_ok m n'" "\<not> one_shot n'"
          using d False rep by (auto simp: one_shot_def)
        have "nodes_ok m now (add_node n' ns)"
          using ok(1) d1(2,3) add_node_by_due by (auto simp: nodes_ok_def)
        then show ?thesis using a False Cons os rep n' d1
          by (simp add: ys_def due_in_def sum_add_node filter_add_node)
      qed
      then obtain fired zs where IH: "tick_list fuel m now ys = Inr (fired, zs)" "nodes_ok m now zs"
        "\<forall>n \<in> set zs. 0 < due_in now n"
        "filter one_shot fired = filter (\<lambda>n. one_shot n \<and> due_in now n \<le> 0) ys"
        "filter one_shot zs = filter (\<lambda>n. one_shot n \<and> 0 < due_in now n) ys"
        using Suc.IH [of ys] Suc.prems(2) by fastforce
      then show ?thesis using step False Cons by auto
    qed
  qed
qed simp

text \<open>What a tick leaves unchanged in a node.\<close>

definition tn_static :: "timer_node \<Rightarrow> nat option \<times> nat option \<times> nat option \<times> u32 \<times> u32" where
  "tn_static n = (tnEvent n, tnDispatcher n, tnListener n, tnPrivateData n, tnRepeatMS n)"

lemma tn_static_fire:
  "tn_static n = tn_static n' \<Longrightarrow> tn_fire n = tn_fire n'"
  "tn_static n = tn_static n' \<Longrightarrow> one_shot n = one_shot n'"
  by (auto simp: tn_static_def tn_fire_def one_shot_def split: option.split)

lemma tick_list_static:
  "tick_list fuel m now xs = Inr (fired, zs) \<Longrightarrow>
   tn_static ` set fired \<subseteq> tn_static ` set xs \<and> tn_static ` set zs \<subseteq> tn_static ` set xs"
proof (induction fuel m now xs arbitrary: fired zs rule: tick_list.induct)
  case (3 fuel m now n xs)
  show ?case
  proof (cases "sint (tnTick n - now) > 0")
    case True
    then show ?thesis using "3.prems" by auto
  next
    case False
    obtain a where a: "tn_fire n = Inr a" using "3.prems" False by (cases "tn_fire n") auto
    let ?z = "if tnRepeatMS n \<noteq> 0 then andThen (tn_reload m n) (\<lambda>n'. Inr (add_node n' xs)) else Inr xs"
    obtain ys where ys: "?z = Inr ys" using "3.prems" False a by (cases ?z) auto
    obtain f z where f: "tick_list fuel m now ys = Inr (f, z)" "fired = n # f" "zs = z"
      using "3.prems" False a ys by (cases "tick_list fuel m now ys") auto
    have "tn_static ` set ys \<subseteq> tn_static ` set (n # xs)"
    proof (cases "tnRepeatMS n \<noteq> 0")
      case True
      then obtain n' where n': "tn_reload m n = Inr n'" "ys = add_node n' xs"
        using ys by (cases "tn_reload m n") auto
      then have "tn_static n' = tn_static n"
        by (auto simp: tn_reload_def tn_static_def Let_def split: if_splits)
      then show ?thesis using n'(2) by auto
    qed (use ys in auto)
    moreover have "tn_static ` set f \<subseteq> tn_static ` set ys \<and> tn_static ` set z \<subseteq> tn_static ` set ys"
      using "3.IH" [OF False f(1)] .
    ultimately have "tn_static ` set f \<subseteq> tn_static ` set (n # xs)" "tn_static ` set z \<subseteq> tn_static ` set (n # xs)"
      by (meson order.trans)+
    then show ?thesis using f(2,3) by simp
  qed
qed auto

text \<open>Between ticks: no node is overdue.\<close>

definition tm_inv :: "timer \<Rightarrow> timer_node list \<Rightarrow> bool" where
  "tm_inv t xs \<longleftrightarrow>
     jl_holds (mList t) xs \<and> nodes_ok (mMsPerTick t) (mTicks t) xs \<and> (\<forall>n \<in> set xs. 0 \<le> due_in (mTicks t) n)"

lemma nodes_ok_next:
  assumes "nodes_ok m now xs" "\<forall>n \<in> set xs. 0 \<le> due_in now n"
  shows "nodes_ok m (now + 1) xs" "\<forall>n \<in> set xs. due_in (now + 1) n = due_in now n - 1"
proof -
  have n: "\<forall>n \<in> set xs. near now n" using assms(1) by (simp add: nodes_ok_def by_due_def)
  then show d: "\<forall>n \<in> set xs. due_in (now + 1) n = due_in now n - 1"
    using due_in_next by blast
  have "map (due_in (now + 1)) xs = map (\<lambda>d. d - 1) (map (due_in now) xs)"
    using d by simp
  moreover have dec: "sorted (map (\<lambda>d. d - 1) ds)" if "sorted ds" for ds :: "int list"
    using that by (induction ds) auto
  have "sorted (map (\<lambda>d. d - 1) (map (due_in now) xs))"
    by (rule dec) (use assms(1) in \<open>simp add: nodes_ok_def by_due_def\<close>)
  ultimately have "sorted (map (due_in (now + 1)) xs)" by (simp only:)
  moreover have "near (now + 1) x" if "x \<in> set xs" for x
    using n d assms(2) that unfolding near_def by fastforce
  ultimately show "nodes_ok m (now + 1) xs"
    using assms(1) by (simp add: nodes_ok_def by_due_def)
qed

lemma tm_handleTick_ok:
  assumes "tm_inv t xs"
  obtains fuel fired zs l where
    "tm_handleTick fuel t = Inr (map node_action fired, t\<lparr>mTicks := mTicks t + 1, mList := l\<rparr>)"
    "tm_inv (t\<lparr>mTicks := mTicks t + 1, mList := l\<rparr>) zs"
    "filter one_shot fired = filter (\<lambda>n. one_shot n \<and> due_in (mTicks t) n \<le> 1) xs"
    "filter one_shot zs = filter (\<lambda>n. one_shot n \<and> 1 < due_in (mTicks t) n) xs"
    "tn_static ` set fired \<subseteq> tn_static ` set xs" "tn_static ` set zs \<subseteq> tn_static ` set xs"
    "\<forall>n \<in> set zs. 0 < due_in (mTicks t + 1) n"
proof -
  let ?now = "mTicks t + 1" and ?m = "mMsPerTick t"
  let ?t = "t\<lparr>mTicks := ?now\<rparr>"
  have l: "jl_holds (mList ?t) xs" and ok: "nodes_ok ?m (mTicks t) xs" and d0: "\<forall>n \<in> set xs. 0 \<le> due_in (mTicks t) n"
    using assms by (auto simp: tm_inv_def)
  note nx = nodes_ok_next [OF ok d0]
  define fuel where "fuel = Suc (sum_list (map (refire ?m ?now) xs))"
  obtain fired zs where tl: "tick_list fuel ?m ?now xs = Inr (fired, zs)" "nodes_ok ?m ?now zs"
    "\<forall>n \<in> set zs. 0 < due_in ?now n"
    "filter one_shot fired = filter (\<lambda>n. one_shot n \<and> due_in ?now n \<le> 0) xs"
    "filter one_shot zs = filter (\<lambda>n. one_shot n \<and> 0 < due_in ?now n) xs"
    using tick_list_ok [OF nx(1), of fuel] by (auto simp: fuel_def)
  obtain l' where l': "tm_tick_loop fuel ?t = Inr (map node_action fired, ?t\<lparr>mList := l'\<rparr>)" "jl_holds l' zs"
    using tm_tick_loop_rep [OF l, of fuel] tl(1) by auto
  have "tm_inv (t\<lparr>mTicks := ?now, mList := l'\<rparr>) zs"
    using l'(2) tl(2,3) by (auto simp: tm_inv_def less_imp_le)
  moreover have "filter (\<lambda>n. one_shot n \<and> due_in ?now n \<le> 0) xs = filter (\<lambda>n. one_shot n \<and> due_in (mTicks t) n \<le> 1) xs"
    "filter (\<lambda>n. one_shot n \<and> 0 < due_in ?now n) xs = filter (\<lambda>n. one_shot n \<and> 1 < due_in (mTicks t) n) xs"
    using nx(2) by (auto intro!: filter_cong)
  ultimately show thesis
    using that [of fuel fired l' zs] l'(1) tl tick_list_static [OF tl(1)] by (simp add: tm_handleTick_def)
qed

section \<open>Many ticks\<close>

text \<open>One entry of \<open>fuels\<close> for each tick: the bound of its loop.\<close>

fun tm_run_ticks :: "nat list \<Rightarrow> timer \<Rightarrow> (timer_action list \<times> timer) outcome" where
  "tm_run_ticks [] t = Inr ([], t)"
| "tm_run_ticks (fuel # fuels) t =
     andThen (tm_handleTick fuel t) (\<lambda>(as, t).
     andThen (tm_run_ticks fuels t) (\<lambda>(bs, t). Inr (as @ bs, t)))"

text \<open>An action that only one-shot nodes cause.\<close>

definition once_only :: "timer_action \<Rightarrow> timer_node list \<Rightarrow> bool" where
  "once_only a xs \<longleftrightarrow> (\<forall>n \<in> set xs. node_action n = a \<longrightarrow> one_shot n)"

lemma length_filter_split:
  "(\<And>x. x \<in> set xs \<Longrightarrow> R x \<longleftrightarrow> P x \<or> Q x) \<Longrightarrow> (\<And>x. x \<in> set xs \<Longrightarrow> \<not> (P x \<and> Q x)) \<Longrightarrow>
   length (filter R xs) = length (filter P xs) + length (filter Q xs)"
  by (induction xs) auto

lemma once_only_filter:
  "once_only a xs \<Longrightarrow> filter (\<lambda>n. node_action n = a \<and> P n) xs = filter (\<lambda>n. node_action n = a \<and> P n) (filter one_shot xs)"
  by (auto simp: once_only_def intro: filter_cong)

lemma once_only_static:
  assumes "once_only a xs" "tn_static ` set zs \<subseteq> tn_static ` set xs"
  shows "once_only a zs"
  unfolding once_only_def
proof (intro ballI impI)
  fix n assume n: "n \<in> set zs" "node_action n = a"
  then obtain n0 where "n0 \<in> set xs" "tn_static n = tn_static n0" using assms(2) by blast
  then show "one_shot n"
    using assms(1) n(2) tn_static_fire by (metis once_only_def node_action_def)
qed

lemma count_list_map_filter: "count_list (map f xs) a = length (filter (\<lambda>x. f x = a) xs)"
  by (induction xs) auto

lemma tm_run_ticks_ok:
  assumes "tm_inv t xs" "once_only a xs"
  shows "\<exists>fuels as t' zs. length fuels = k \<and> tm_run_ticks fuels t = Inr (as, t') \<and> tm_inv t' zs \<and>
    mTicks t' = mTicks t + of_nat k \<and>
    count_list as a = length (filter (\<lambda>n. node_action n = a \<and> due_in (mTicks t) n \<le> int k \<and> 0 < k) xs)"
  using assms
proof (induction k arbitrary: t xs)
  case 0
  then show ?case by (intro exI [of _ "[]"] exI [of _ t] exI [of _ xs]) simp
next
  case (Suc k)
  obtain fuel fired zs l where h:
    "tm_handleTick fuel t = Inr (map node_action fired, t\<lparr>mTicks := mTicks t + 1, mList := l\<rparr>)"
    "tm_inv (t\<lparr>mTicks := mTicks t + 1, mList := l\<rparr>) zs"
    "filter one_shot fired = filter (\<lambda>n. one_shot n \<and> due_in (mTicks t) n \<le> 1) xs"
    "filter one_shot zs = filter (\<lambda>n. one_shot n \<and> 1 < due_in (mTicks t) n) xs"
    "tn_static ` set fired \<subseteq> tn_static ` set xs" "tn_static ` set zs \<subseteq> tn_static ` set xs"
    "\<forall>n \<in> set zs. 0 < due_in (mTicks t + 1) n"
    by (rule tm_handleTick_ok [OF Suc.prems(1)])
  let ?t = "t\<lparr>mTicks := mTicks t + 1, mList := l\<rparr>"
  have oz: "once_only a zs" and "once_only a fired" using once_only_static [OF Suc.prems(2)] h(5,6) by auto
  obtain fuels as t' ws where r: "length fuels = k" "tm_run_ticks fuels ?t = Inr (as, t')" "tm_inv t' ws"
    "mTicks t' = mTicks ?t + of_nat k"
    "count_list as a = length (filter (\<lambda>n. node_action n = a \<and> due_in (mTicks ?t) n \<le> int k \<and> 0 < k) zs)"
    using Suc.IH [OF h(2) oz] by blast
  have near: "\<forall>n \<in> set xs. near (mTicks t) n"
    using Suc.prems(1) by (simp add: tm_inv_def nodes_ok_def by_due_def)
  have "count_list (map node_action fired) a =
      length (filter (\<lambda>n. node_action n = a \<and> due_in (mTicks t) n \<le> 1) xs)"
  proof -
    have "filter (\<lambda>n. node_action n = a) fired = filter (\<lambda>n. node_action n = a) (filter one_shot fired)"
      using once_only_filter [OF \<open>once_only a fired\<close>, of "\<lambda>_. True"] by simp
    also have "\<dots> = filter (\<lambda>n. node_action n = a \<and> due_in (mTicks t) n \<le> 1) xs"
      unfolding h(3) using Suc.prems(2) by (auto simp: once_only_def intro: filter_cong)
    finally show ?thesis by (simp add: count_list_map_filter)
  qed
  moreover have "count_list as a =
      length (filter (\<lambda>n. node_action n = a \<and> 1 < due_in (mTicks t) n \<and> due_in (mTicks t) n \<le> int (Suc k)) xs)"
  proof -
    have d: "due_in (mTicks t + 1) n = due_in (mTicks t) n - 1" if "n \<in> set xs" for n
      using due_in_next near that by blast
    have "filter (\<lambda>n. node_action n = a \<and> due_in (mTicks t + 1) n \<le> int k \<and> 0 < k) zs =
        filter (\<lambda>n. node_action n = a \<and> due_in (mTicks t + 1) n \<le> int k \<and> 0 < k) (filter one_shot zs)"
      using once_only_filter [OF oz] by simp
    also have "\<dots> = filter (\<lambda>n. node_action n = a \<and> 1 < due_in (mTicks t) n \<and> due_in (mTicks t) n \<le> int (Suc k)) xs"
      unfolding h(4) filter_filter using Suc.prems(2) d by (auto simp: once_only_def intro!: filter_cong)
    finally show ?thesis using r(5) by simp
  qed
  moreover have "length (filter (\<lambda>n. node_action n = a \<and> due_in (mTicks t) n \<le> int (Suc k)) xs) =
      length (filter (\<lambda>n. node_action n = a \<and> due_in (mTicks t) n \<le> 1) xs) +
      length (filter (\<lambda>n. node_action n = a \<and> 1 < due_in (mTicks t) n \<and> due_in (mTicks t) n \<le> int (Suc k)) xs)"
    by (rule length_filter_split) auto
  ultimately have "count_list (map node_action fired @ as) a =
      length (filter (\<lambda>n. node_action n = a \<and> due_in (mTicks t) n \<le> int (Suc k) \<and> 0 < Suc k) xs)"
    by simp
  then show ?case using h(1) r
    by (intro exI [of _ "fuel # fuels"] exI [of _ "map node_action fired @ as"] exI [of _ t'] exI [of _ ws])
      simp
qed

section \<open>Adding and removing timers\<close>

lemma tm_ticks_ok:
  assumes "0 < mMsPerTick t" "mMsPerTick t < 2 ^ 29" "uint ms < 2 ^ 29"
  defines "k \<equiv> (uint ms + mMsPerTick t - 1) div mMsPerTick t"
  shows "tm_ticks t ms = Inr (word_of_int k)" "0 \<le> k" "k < 2 ^ 29"
proof -
  let ?m = "mMsPerTick t"
  have big: "(2 :: int) ^ 29 + 2 ^ 29 < 2 ^ 32" by simp
  have a: "0 \<le> uint ms + ?m - 1" "uint ms + ?m - 1 < 2 ^ 32" "?m < 2 ^ 32"
    using assms(1-3) big uint_ge_0 [of ms] by linarith+
  have "uint (word_of_int ?m :: u32) = ?m" using assms(1) a(3) by (simp add: uint_word_of_int mod_pos_pos_trivial)
  then have m0: "(word_of_int ?m :: u32) \<noteq> 0" using assms(1) by auto
  have w: "ms + word_of_int ?m - 1 = word_of_int (uint ms + ?m - 1)" by simp
  show "tm_ticks t ms = Inr (word_of_int k)"
    unfolding tm_ticks_def Let_def w using m0 word_of_uint_div [OF a(1,2) assms(1) a(3)]
    by (simp only: if_False k_def)
  show "0 \<le> k" using a(1) assms(1) by (simp add: k_def pos_imp_zdiv_nonneg_iff)
  show "k < 2 ^ 29"
  proof (cases "uint ms = 0")
    case True
    then show ?thesis using assms(1) by (simp add: k_def div_pos_pos_trivial)
  next
    case False
    then have "0 < uint ms" using uint_ge_0 [of ms] by linarith
    moreover have "k = new_ticks ?m (uint ms) 0" by (simp add: k_def new_ticks_def)
    ultimately show ?thesis using new_ticks_bounds(2) [of ?m 0 "uint ms"] assms(1,3) by simp
  qed
qed

lemma tm_add_node_inv:
  assumes inv: "tm_inv t xs" and ok: "node_ok (mMsPerTick t) n"
    and k: "tnTick n = mTicks t + word_of_int k" "0 \<le> k" "k < 2 ^ 29"
  shows "\<exists>l. tm_addTimerNode t n = Inr (t\<lparr>mList := l\<rparr>) \<and> tm_inv (t\<lparr>mList := l\<rparr>) (add_node n xs) \<and>
    due_in (mTicks t) n = k"
proof -
  have d: "due_in (mTicks t) n = k"
    using sint_word_of_int_small [of k] k by (simp add: due_in_def)
  then have "near (mTicks t) n" using k by (simp add: near_def)
  then have "nodes_ok (mMsPerTick t) (mTicks t) (add_node n xs)"
    using inv ok add_node_by_due by (auto simp: tm_inv_def nodes_ok_def)
  then show ?thesis using tm_addTimerNode_rep [of t xs n] inv d k(2) by (auto simp: tm_inv_def)
qed

lemma tm_remove_loop:
  assumes h: "jl_holds (mList t) xs" and v: "\<And>n. n \<in> set xs \<Longrightarrow> visit () n = Inr (P n, ())"
  shows "\<exists>l. andThen (andThen (jl_begin (mList t))
         (while_erase_if jl_end it_deref it_incr it_erase visit (jl_fresh (mList t)) () (mList t)))
       (\<lambda>(_, l). Inr (t\<lparr>mList := l\<rparr>)) = Inr (t\<lparr>mList := l\<rparr>) \<and> jl_holds l (filter (\<lambda>n. \<not> P n) xs)"
proof -
  obtain w where w: "jl_seq (mList t) w xs" using h by (auto simp: jl_holds_def)
  have vf: "visit_filter visit () xs = Inr (foldl (\<lambda>s n. s) () (filter P xs), filter (\<lambda>n. \<not> P n) xs)"
    by (rule visit_filter_pure) (use v in simp)
  have lt: "length xs < jl_fresh (mList t)" using jl_fuel [OF h] by simp
  obtain l w' where
    "andThen (jl_begin (mList t)) (while_erase_if jl_end it_deref it_incr it_erase visit (jl_fresh (mList t)) () (mList t)) =
     Inr (foldl (\<lambda>s n. s) () (filter P xs), l)" "jl_seq l w' (filter (\<lambda>n. \<not> P n) xs)"
    using jl.while_erase_if_begin [OF w lt vf] by (elim exE conjE)
  then show ?thesis by (auto simp: jl_holds_def)
qed

lemma sorted_filter_map: "sorted (map f xs) \<Longrightarrow> sorted (map f (filter P xs))"
  by (induction xs) auto

lemma tm_inv_filter:
  "tm_inv t xs \<Longrightarrow> jl_holds l (filter P xs) \<Longrightarrow> tm_inv (t\<lparr>mList := l\<rparr>) (filter P xs)"
  by (auto simp: tm_inv_def nodes_ok_def by_due_def sorted_filter_map)

section \<open>The registry of timers\<close>

text \<open>
  \<open>TimerManager\<close>: the timers live on a heap; \<open>mTimers\<close> is the vector of registered ones. The
  constructor of \<open>Timer\<close> does not call \<open>addTimer\<close>.
\<close>

record timer_manager =
  tmHeap :: "nat \<Rightarrow> timer option"
  tmNext :: nat
  mDefaultTimer :: nat
  mTimers :: "nat list"

definition kMsPerTick :: int where "kMsPerTick = 100"

definition tmgr_alloc :: "timer_manager \<Rightarrow> int \<Rightarrow> bool \<Rightarrow> (nat \<times> timer_manager) outcome" where
  "tmgr_alloc m tickTimeMs stoppable =
     andThen (Timer_new tickTimeMs stoppable) (\<lambda>t.
     Inr (tmNext m, m\<lparr>tmHeap := (tmHeap m)(tmNext m \<mapsto> t), tmNext := Suc (tmNext m)\<rparr>))"

definition TimerManager_new :: "timer_manager outcome" where
  "TimerManager_new =
     andThen (tmgr_alloc \<lparr>tmHeap = Map.empty, tmNext = 0, mDefaultTimer = 0, mTimers = []\<rparr> kMsPerTick False)
       (\<lambda>(p, m). Inr (m\<lparr>mDefaultTimer := p\<rparr>))"

definition tmgr_timer :: "timer_manager \<Rightarrow> nat \<Rightarrow> timer outcome" where
  "tmgr_timer m p = (case tmHeap m p of None \<Rightarrow> Inl UndefinedBehaviour | Some t \<Rightarrow> Inr t)"

definition tmgr_getDefaultTimer :: "timer_manager \<Rightarrow> nat" where
  "tmgr_getDefaultTimer m = mDefaultTimer m"

fun tmgr_find_tick :: "timer_manager \<Rightarrow> int \<Rightarrow> nat list \<Rightarrow> nat option outcome" where
  "tmgr_find_tick m tickTimeMs [] = Inr None"
| "tmgr_find_tick m tickTimeMs (p # ps) =
     andThen (tmgr_timer m p) (\<lambda>t.
     if tm_getTickTime t = tickTimeMs then Inr (Some p) else tmgr_find_tick m tickTimeMs ps)"

definition tmgr_getTimer :: "timer_manager \<Rightarrow> int \<Rightarrow> (nat \<times> timer_manager) outcome" where
  "tmgr_getTimer m tickTimeMs =
     andThen (tmgr_find_tick m tickTimeMs (mTimers m)) (\<lambda>r.
     case r of Some p \<Rightarrow> Inr (p, m) | None \<Rightarrow> tmgr_alloc m tickTimeMs True)"

fun tmgr_for_each :: "(timer \<Rightarrow> timer outcome) \<Rightarrow> nat list \<Rightarrow> timer_manager \<Rightarrow> timer_manager outcome" where
  "tmgr_for_each f [] m = Inr m"
| "tmgr_for_each f (p # ps) m =
     andThen (tmgr_timer m p) (\<lambda>t. andThen (f t) (\<lambda>t.
     tmgr_for_each f ps (m\<lparr>tmHeap := (tmHeap m)(p \<mapsto> t)\<rparr>)))"

definition tmgr_removeTimedEvent_id :: "eheap \<Rightarrow> timer_manager \<Rightarrow> int \<Rightarrow> nat option \<Rightarrow> timer_manager outcome" where
  "tmgr_removeTimedEvent_id h m eventId dispatcher =
     tmgr_for_each (\<lambda>t. tm_removeTimedEvent_id h t eventId dispatcher) (mTimers m) m"

definition tmgr_removeTimedEvent :: "timer_manager \<Rightarrow> nat option \<Rightarrow> timer_manager outcome" where
  "tmgr_removeTimedEvent m ev = tmgr_for_each (\<lambda>t. tm_removeTimedEvent t ev) (mTimers m) m"

definition tmgr_removeAgentsByReceiver :: "eheap \<Rightarrow> timer_manager \<Rightarrow> nat \<Rightarrow> nat option \<Rightarrow> timer_manager outcome" where
  "tmgr_removeAgentsByReceiver h m receiver dispatcher =
     tmgr_for_each (\<lambda>t. tm_removeAgentsByReceiver h t receiver dispatcher) (mTimers m) m"

definition tmgr_addTimer :: "timer_manager \<Rightarrow> nat \<Rightarrow> timer_manager" where
  "tmgr_addTimer m p = (if p \<in> set (mTimers m) then m else m\<lparr>mTimers := mTimers m @ [p]\<rparr>)"

definition tmgr_removeTimer :: "timer_manager \<Rightarrow> nat \<Rightarrow> timer_manager" where
  "tmgr_removeTimer m p = m\<lparr>mTimers := remove1 p (mTimers m)\<rparr>"

text \<open>The destructor of \<open>Timer\<close>: stop the thread, leave the registry.\<close>

definition Timer_destroy :: "timer_manager \<Rightarrow> nat \<Rightarrow> timer_manager outcome" where
  "Timer_destroy m p =
     andThen (tmgr_timer m p) (\<lambda>t. let t = tm_doStop t; m = tmgr_removeTimer m p in
     Inr (m\<lparr>tmHeap := (tmHeap m)(p := None)\<rparr>))"

section \<open>Properties\<close>

text \<open>
  C6: a one-shot timer fires exactly once, and exactly in the tick that completes its delay rounded
  up to ticks (the next one for a delay of 0), whatever other one-shot and periodic timers the list
  holds: after \<open>k\<close> ticks its listener has been called once if the rounded delay is at most \<open>k\<close>, and
  not at all before.
\<close>

theorem tm_addTimer_on_time:
  assumes inv: "tm_inv t xs" and m: "0 < mMsPerTick t" "mMsPerTick t < 2 ^ 29" and ms: "uint ms < 2 ^ 29"
    and new: "\<forall>n \<in> set xs. node_action n \<noteq> OnTimeout listener priv"
  shows "\<exists>t1. tm_addTimer t (Some listener) ms priv = Inr t1 \<and>
    (\<forall>k. \<exists>fuels as t'. length fuels = k \<and> tm_run_ticks fuels t1 = Inr (as, t') \<and>
       count_list as (OnTimeout listener priv) =
         (if 0 < k \<and> (uint ms + mMsPerTick t - 1) div mMsPerTick t \<le> int k then 1 else 0))"
proof -
  note tk = tm_ticks_ok [OF m ms]
  define d where "d = (uint ms + mMsPerTick t - 1) div mMsPerTick t"
  let ?n = "\<lparr>tnEvent = None, tnDispatcher = None, tnListener = Some listener, tnPrivateData = priv,
         tnTick = mTicks t + word_of_int d, tnRepeatMS = 0, tnRemainingMS = 0\<rparr>"
  have "node_ok (mMsPerTick t) ?n" using m by (simp add: node_ok_def tn_fire_def)
  from tm_add_node_inv [OF inv this, of d] obtain l where l: "tm_addTimerNode t ?n = Inr (t\<lparr>mList := l\<rparr>)"
    "tm_inv (t\<lparr>mList := l\<rparr>) (add_node ?n xs)" "due_in (mTicks t) ?n = d"
    using tk(2,3) by (auto simp: d_def)
  have act: "node_action ?n = OnTimeout listener priv" by (simp add: node_action_def tn_fire_def)
  have once: "once_only (OnTimeout listener priv) (add_node ?n xs)"
    using new by (auto simp: once_only_def one_shot_def)
  have cnt: "length (filter (\<lambda>n. node_action n = OnTimeout listener priv \<and> due_in (mTicks t) n \<le> int k \<and> 0 < k) (add_node ?n xs)) =
      (if 0 < k \<and> d \<le> int k then 1 else 0)" for k
  proof -
    let ?P = "\<lambda>n. node_action n = OnTimeout listener priv \<and> due_in (mTicks t) n \<le> int k \<and> 0 < k"
    have "length (filter ?P xs') = sum_list (map (\<lambda>n. if ?P n then 1 else 0) xs')" for xs'
      by (induction xs') auto
    then have "length (filter ?P (add_node ?n xs)) = (if ?P ?n then 1 else 0) + length (filter ?P xs)"
      by (simp only: sum_add_node)
    moreover have "filter ?P xs = []" using new by (auto simp: filter_empty_conv)
    ultimately show ?thesis using act l(3) by simp
  qed
  show ?thesis
  proof (intro exI [of _ "t\<lparr>mList := l\<rparr>"] conjI allI)
    show "tm_addTimer t (Some listener) ms priv = Inr (t\<lparr>mList := l\<rparr>)"
      using tk(1) l(1) by (simp add: tm_addTimer_def d_def)
    fix k
    show "\<exists>fuels as t'. length fuels = k \<and> tm_run_ticks fuels (t\<lparr>mList := l\<rparr>) = Inr (as, t') \<and>
       count_list as (OnTimeout listener priv) =
         (if 0 < k \<and> (uint ms + mMsPerTick t - 1) div mMsPerTick t \<le> int k then 1 else 0)"
      using tm_run_ticks_ok [OF l(2) once, of k] cnt [of k] by (fastforce simp: d_def)
  qed
qed

lemma Timer_new_inv:
  assumes "0 \<le> m"
  shows "\<exists>t. Timer_new m s = Inr t \<and> tm_inv t [] \<and> mMsPerTick t = m \<and> mClockThread t"
proof -
  obtain l :: "timer_node jlist" where l: "jl_list = Inr l" "jl_holds l []" using jl_list_holds by blast
  obtain l' where "jl_clear (jl_fresh l) l = Inr l'" "jl_holds l' []"
    using jl_clear_holds [OF l(2), of "jl_fresh l"] jl_fuel [OF l(2)] by auto
  then show ?thesis using assms
    unfolding Timer_new_def l(1)
    by (simp add: Let_def tm_start_def tm_reset_def tm_inv_def nodes_ok_def by_due_def)
qed

lemma tm_addTimer_on_time_witness:
  "\<exists>t t1 fuels as t'. Timer_new 100 True = Inr t \<and> tm_addTimer t (Some 5) 250 9 = Inr t1 \<and>
     length fuels = 3 \<and> tm_run_ticks fuels t1 = Inr (as, t') \<and> count_list as (OnTimeout 5 9) = 1"
proof -
  obtain t where t: "Timer_new 100 True = Inr t" "tm_inv t []" "mMsPerTick t = 100"
    using Timer_new_inv [of 100 True] by auto
  have m: "0 < mMsPerTick t" "mMsPerTick t < 2 ^ 29" "uint (250 :: u32) < 2 ^ 29" using t(3) by simp_all
  obtain t1 where t1: "tm_addTimer t (Some 5) 250 9 = Inr t1"
    "\<forall>k. \<exists>fuels as t'. length fuels = k \<and> tm_run_ticks fuels t1 = Inr (as, t') \<and>
       count_list as (OnTimeout 5 9) =
         (if 0 < k \<and> (uint (250 :: u32) + mMsPerTick t - 1) div mMsPerTick t \<le> int k then 1 else 0)"
    using tm_addTimer_on_time [OF t(2) m, of 5 9] by auto
  from t1(2) [rule_format, of 3] t(3) have "\<exists>fuels as t'. length fuels = 3 \<and>
      tm_run_ticks fuels t1 = Inr (as, t') \<and> count_list as (OnTimeout 5 9) = 1"
    by simp
  then show ?thesis using t(1) t1(1) by blast
qed

text \<open>The nodes of a periodic timer over several firings.\<close>

fun tn_reloads :: "nat \<Rightarrow> int \<Rightarrow> timer_node \<Rightarrow> timer_node outcome" where
  "tn_reloads 0 m n = Inr n"
| "tn_reloads (Suc k) m n = andThen (tn_reload m n) (tn_reloads k m)"

lemma tn_reloads_sum:
  assumes "node_ok m n" "tnRepeatMS n \<noteq> 0" "uint (tnRemainingMS n) = (int i * uint (tnRepeatMS n)) mod m"
  shows "\<exists>r. tn_reloads k m n = Inr (n\<lparr>tnTick := tnTick n +
        word_of_int (\<Sum>j<k. new_ticks m (uint (tnRepeatMS n)) ((int (i + j) * uint (tnRepeatMS n)) mod m)),
      tnRemainingMS := r\<rparr>) \<and> uint r = (int (i + k) * uint (tnRepeatMS n)) mod m"
  using assms
proof (induction k arbitrary: n i)
  case 0
  then show ?case by (intro exI [of _ "tnRemainingMS n"]) (cases n, simp)
next
  case (Suc k)
  let ?p = "uint (tnRepeatMS n)"
  define q where "q = (?p + uint (tnRemainingMS n)) mod m"
  define c where "c = new_ticks m ?p (uint (tnRemainingMS n))"
  note r = tn_reload_ok [OF Suc.prems(1,2), folded q_def c_def]
  let ?n = "n\<lparr>tnTick := tnTick n + word_of_int c, tnRemainingMS := word_of_int q\<rparr>"
  have q: "q = (int (Suc i) * ?p) mod m"
    unfolding q_def Suc.prems(3) by (simp add: mod_add_right_eq algebra_simps)
  define S where "S = (\<Sum>j<k. new_ticks m ?p ((int (Suc i + j) * ?p) mod m))"
  obtain x where x: "tn_reloads k m ?n = Inr (?n\<lparr>tnTick := tnTick ?n + word_of_int S, tnRemainingMS := x\<rparr>)"
      "uint x = (int (Suc i + k) * ?p) mod m"
    using Suc.IH [of ?n "Suc i"] r(4,5) q Suc.prems(2) by (auto simp: S_def)
  have sum: "(\<Sum>j<Suc k. new_ticks m ?p ((int (i + j) * ?p) mod m)) = c + S"
    unfolding sum.lessThan_Suc_shift c_def Suc.prems(3) S_def by simp
  have "tn_reloads (Suc k) m n = Inr (n\<lparr>tnTick := tnTick n + word_of_int (c + S), tnRemainingMS := x\<rparr>)"
    using r(1) x(1) by simp
  moreover have "uint x = (int (i + Suc k) * ?p) mod m" using x(2) by simp
  ultimately show ?case unfolding sum by blast
qed

text \<open>
  Over \<open>m\<close> firings the rounding cancels: read backwards, the new ticks are the differences of
  \<open>ceil(j * p / m)\<close>.
\<close>

lemma new_ticks_backwards:
  assumes "0 < m" "0 < p"
  shows "new_ticks m p ((- (j * p)) mod m) = ((j + 1) * p + m - 1) div m - (j * p + m - 1) div m"
proof -
  define q where "q = j * p div m"
  define r where "r = j * p mod m"
  have jp: "j * p = q * m + r" by (simp add: q_def r_def)
  have r: "0 \<le> r" "r < m" using assms(1) by (simp_all add: r_def)
  have s: "((q * m + x) div m) = q + x div m" for x using assms(1) by simp
  have e1: "(j * p + m - 1) div m = q + (r + m - 1) div m"
    using s [of "r + m - 1"] by (simp add: jp algebra_simps)
  have e2: "((j + 1) * p + m - 1) div m = q + (p + r + m - 1) div m"
    using s [of "p + r + m - 1"] by (simp add: jp algebra_simps)
  show ?thesis
  proof (cases "r = 0")
    case True
    then have "(- (j * p)) mod m = 0" using jp by simp
    moreover have "(r + m - 1) div m = 0" using True assms(1) by (simp add: div_pos_pos_trivial)
    ultimately show ?thesis unfolding e1 e2 new_ticks_def using True by simp
  next
    case False
    have "(- (j * p)) mod m = (- r) mod m" unfolding r_def by (simp add: mod_minus_eq)
    also have "\<dots> = m - r" using False r by (simp add: zmod_zminus1_eq_if)
    finally have mr: "(- (j * p)) mod m = m - r" .
    have "p + m - 1 - (m - r) = p + r - 1" by simp
    then have "new_ticks m p ((- (j * p)) mod m) = (p + r - 1) div m"
      unfolding new_ticks_def mr by (simp only:)
    moreover have "((r - 1) + m) div m = 1"
      using False r div_pos_pos_trivial [of "r - 1" m] div_add_self2 [of m "r - 1"] by simp
    moreover have "r + m - 1 = (r - 1) + m" by simp
    moreover have "(p + r + m - 1) div m = (p + r - 1) div m + 1"
      using assms(1) div_add_self2 [of m "p + r - 1"] by (simp add: algebra_simps)
    ultimately show ?thesis unfolding e1 e2 by (simp only:)
  qed
qed

lemma new_ticks_total:
  assumes "0 < m" "0 < p"
  shows "(\<Sum>j<nat m. new_ticks m p ((int j * p) mod m)) = p"
proof -
  let ?g = "\<lambda>j. new_ticks m p ((int j * p) mod m)"
  let ?F = "\<lambda>j. (int j * p + m - 1) div m"
  have "(\<Sum>j<nat m. ?g j) = (\<Sum>j<nat m. ?g (nat m - Suc j))"
    by (rule sum.nat_diff_reindex [symmetric])
  also have "\<dots> = (\<Sum>j<nat m. ?F (Suc (Suc j)) - ?F (Suc j))"
  proof (rule sum.cong [OF refl])
    fix j assume "j \<in> {..<nat m}"
    then have "int (nat m - Suc j) = m - int (Suc j)" using assms(1) by (simp add: of_nat_diff)
    then have "(int (nat m - Suc j) * p) mod m = (- (int (Suc j) * p)) mod m"
      by (simp add: left_diff_distrib mod_diff_left_eq [symmetric])
    then show "?g (nat m - Suc j) = ?F (Suc (Suc j)) - ?F (Suc j)"
      using new_ticks_backwards [OF assms, of "int (Suc j)"] by (simp add: add.commute)
  qed
  also have "\<dots> = ?F (Suc (nat m)) - ?F (Suc 0)"
    by (rule sum_lessThan_telescope)
  also have "\<dots> = p"
  proof -
    have "int (Suc (nat m)) * p + m - 1 = (p + m - 1) + p * m" using assms(1) by (simp add: algebra_simps)
    then have "?F (Suc (nat m)) = ((p + m - 1) + p * m) div m" by (simp only:)
    also have "\<dots> = p + (p + m - 1) div m" using assms(1) by (intro div_mult_self1) simp
    finally show ?thesis by simp
  qed
  finally show ?thesis .
qed

text \<open>
  C7: Periodic timers do not drift. A node starts with no remainder; over as many firings as a tick
  has milliseconds its due tick moves by exactly the period in milliseconds, which is that many
  periods, and the remainder is back at 0.
\<close>

theorem tn_reload_no_drift:
  assumes "node_ok m n" "tnRepeatMS n \<noteq> 0" "tnRemainingMS n = 0"
  shows "tn_reloads (nat m) m n = Inr (n\<lparr>tnTick := tnTick n + tnRepeatMS n\<rparr>)"
proof -
  let ?p = "uint (tnRepeatMS n)"
  have m: "0 < m" using assms(1) by (simp add: node_ok_def)
  have "?p \<noteq> 0" using assms(2) by (simp add: uint_0_iff)
  then have p: "0 < ?p" using uint_ge_0 [of "tnRepeatMS n"] by linarith
  obtain r where r: "tn_reloads (nat m) m n = Inr (n\<lparr>tnTick := tnTick n +
        word_of_int (\<Sum>j<nat m. new_ticks m ?p ((int (0 + j) * ?p) mod m)), tnRemainingMS := r\<rparr>)"
    "uint r = (int (0 + nat m) * ?p) mod m"
    using tn_reloads_sum [OF assms(1,2), of 0 "nat m"] assms(3) by auto
  have "uint r = 0" using r(2) m by simp
  then have "r = tnRemainingMS n" using assms(3) by (simp add: uint_0_iff)
  then show ?thesis using r(1) new_ticks_total [OF m p] by simp
qed

lemma tn_reload_no_drift_witness:
  "tn_reloads 100 100 \<lparr>tnEvent = None, tnDispatcher = None, tnListener = Some 1, tnPrivateData = 0,
      tnTick = 4294967290, tnRepeatMS = 30, tnRemainingMS = 0\<rparr> =
   Inr \<lparr>tnEvent = None, tnDispatcher = None, tnListener = Some 1, tnPrivateData = 0,
      tnTick = 24, tnRepeatMS = 30, tnRemainingMS = 0\<rparr>"
proof -
  let ?n = "\<lparr>tnEvent = None, tnDispatcher = None, tnListener = Some 1, tnPrivateData = 0,
      tnTick = 4294967290, tnRepeatMS = 30, tnRemainingMS = 0\<rparr>"
  have "tn_reloads (nat 100) 100 ?n = Inr (?n\<lparr>tnTick := tnTick ?n + tnRepeatMS ?n\<rparr>)"
    by (rule tn_reload_no_drift) (simp_all add: node_ok_def tn_fire_def)
  then show ?thesis by simp
qed

text \<open>
  \<open>removeTimedEvent\<close> for a dispatcher takes out exactly the nodes of that dispatcher whose event
  has the given id (or any event, for \<open>kInvalidEventId\<close>), and keeps the rest in order and the
  invariant of the list, as long as the events of the nodes are alive.
\<close>

theorem tm_removeTimedEvent_ok:
  assumes "tm_inv t xs" and "\<forall>n \<in> set xs. \<forall>e. tnEvent n = Some e \<longrightarrow> h e \<noteq> None"
  shows "\<exists>l. tm_removeTimedEvent_id h t eventId dispatcher = Inr (t\<lparr>mList := l\<rparr>) \<and>
    tm_inv (t\<lparr>mList := l\<rparr>)
      (filter (\<lambda>n. \<not> (tnDispatcher n = dispatcher \<and> tnEvent n \<noteq> None \<and>
                  (mEventId (the (h (the (tnEvent n)))) = eventId \<or> eventId = kInvalidEventId))) xs)"
proof -
  let ?P = "\<lambda>n. tnDispatcher n = dispatcher \<and> tnEvent n \<noteq> None \<and>
      (mEventId (the (h (the (tnEvent n)))) = eventId \<or> eventId = kInvalidEventId)"
  have h: "jl_holds (mList t) xs" using assms(1) by (simp add: tm_inv_def)
  have "\<exists>l. tm_removeTimedEvent_id h t eventId dispatcher = Inr (t\<lparr>mList := l\<rparr>) \<and>
      jl_holds l (filter (\<lambda>n. \<not> ?P n) xs)"
    unfolding tm_removeTimedEvent_id_def
  proof (rule tm_remove_loop [OF h])
    fix n assume n: "n \<in> set xs"
    show "(if tnDispatcher n = dispatcher \<and> tnEvent n \<noteq> None
        then andThen (ev_get h (the (tnEvent n))) (\<lambda>r. Inr (mEventId r = eventId \<or> eventId = kInvalidEventId, ()))
        else Inr (False, ())) = Inr (?P n, ())"
    proof (cases "tnDispatcher n = dispatcher \<and> tnEvent n \<noteq> None")
      case True
      then obtain e r where "tnEvent n = Some e" "h e = Some r" using assms(2) n by blast
      then show ?thesis using True by (simp add: ev_get_def)
    next
      case False
      then show ?thesis by auto
    qed
  qed
  then show ?thesis using tm_inv_filter [OF assms(1)] by blast
qed

lemma tm_removeTimedEvent_ok_witness:
  "\<exists>t l. Timer_new 100 True = Inr t \<and>
     tm_removeTimedEvent_id Map.empty t 3 (Some 1) = Inr (t\<lparr>mList := l\<rparr>) \<and> tm_inv (t\<lparr>mList := l\<rparr>) []"
proof -
  obtain t where t: "Timer_new 100 True = Inr t" "tm_inv t []"
    using Timer_new_inv [of 100 True] by auto
  from tm_removeTimedEvent_ok [OF t(2), of Map.empty 3 "Some 1"] t(1) show ?thesis by auto
qed

text \<open>
  \<open>removeAgentsByReceiver\<close> follows the event of every node it meets: as soon as the list holds
  a node of \<open>addTimer\<close> or \<open>addPeriodicTimer\<close>, whose event is null, the call is undefined behaviour.
\<close>

theorem tm_removeAgents_null:
  assumes "jl_holds (mList t) xs" and "n \<in> set xs" "tnEvent n = None"
  shows "tm_removeAgentsByReceiver h t receiver dispatcher = Inl UndefinedBehaviour"
proof -
  let ?visit = "\<lambda>_ timer. case tnEvent timer of None \<Rightarrow> Inl UndefinedBehaviour
               | Some e \<Rightarrow> andThen (ev_get h e) (\<lambda>r.
                   Inr (mEventId r = kAgentEventId \<and> tnDispatcher timer = dispatcher \<and>
                        evTarget r = Some receiver, ()))"
  have "x \<in> set ys \<Longrightarrow> tnEvent x = None \<Longrightarrow> visit_filter ?visit s ys = Inl UndefinedBehaviour" for x s ys
  proof (induction ys arbitrary: s)
    case (Cons y ys)
    then show ?case by (auto simp: ev_get_def split: option.splits)
  qed simp
  then have v: "visit_filter ?visit () xs = Inl UndefinedBehaviour" using assms(2,3) by blast
  obtain w where w: "jl_seq (mList t) w xs" using assms(1) by (auto simp: jl_holds_def)
  have lt: "length xs < jl_fresh (mList t)" using jl_fuel [OF assms(1)] by simp
  show ?thesis
    unfolding tm_removeAgentsByReceiver_def using jl.while_erase_if_begin_fault [OF w lt v] by simp
qed

lemma tm_removeAgents_null_witness:
  "\<exists>t t1. Timer_new 100 True = Inr t \<and> tm_addTimer t (Some 5) 250 9 = Inr t1 \<and>
     tm_removeAgentsByReceiver Map.empty t1 1 None = Inl UndefinedBehaviour"
proof -
  obtain t where t: "Timer_new 100 True = Inr t" "tm_inv t []" "mMsPerTick t = 100"
    using Timer_new_inv [of 100 True] by auto
  let ?n = "\<lambda>d. \<lparr>tnEvent = None, tnDispatcher = None, tnListener = Some 5, tnPrivateData = 9,
         tnTick = mTicks t + d, tnRepeatMS = 0, tnRemainingMS = 0\<rparr>"
  obtain d where d: "tm_ticks t 250 = Inr d" using tm_ticks_ok(1) [of t 250] t(3) by auto
  obtain l where l: "tm_addTimerNode t (?n d) = Inr (t\<lparr>mList := l\<rparr>)" "jl_holds l (add_node (?n d) [])"
    using tm_addTimerNode_rep [of t "[]"] t(2) by (auto simp: tm_inv_def)
  have "tm_addTimer t (Some 5) 250 9 = Inr (t\<lparr>mList := l\<rparr>)" using d l(1) by (simp add: tm_addTimer_def)
  moreover have "tm_removeAgentsByReceiver Map.empty (t\<lparr>mList := l\<rparr>) 1 None = Inl UndefinedBehaviour"
    by (rule tm_removeAgents_null [of _ "add_node (?n d) []" "?n d"]) (use l(2) in simp_all)
  ultimately show ?thesis using t(1) by blast
qed

text \<open>
  What clients of the registry can do to it: ask for timers, release timers. \<open>addTimer\<close> is for the
  constructor of \<open>Timer\<close>, which does not call it.
\<close>

inductive registry_step :: "timer_manager \<Rightarrow> timer_manager \<Rightarrow> bool" where
  get: "tmgr_getTimer m ms = Inr (p, m') \<Longrightarrow> registry_step m m'"
| use: "tmgr_timer m p = Inr t \<Longrightarrow> registry_step m (m\<lparr>tmHeap := (tmHeap m)(p \<mapsto> t')\<rparr>)"
| destroy: "Timer_destroy m p = Inr m' \<Longrightarrow> registry_step m m'"

inductive_cases registry_stepE: "registry_step m m'"

text \<open>
  The registry never learns of a timer. Whatever timers clients obtain, use and release,
  \<open>getTimer\<close> always makes a new timer, and \<open>removeTimedEvent\<close> and \<open>removeAgentsByReceiver\<close> of the
  manager leave every timer as it is, the default one included.
\<close>

theorem tmgr_reaches_no_timer:
  assumes "TimerManager_new = Inr m0" "registry_step\<^sup>*\<^sup>* m0 m"
  shows "tmgr_removeTimedEvent_id h m eventId dispatcher = Inr m \<and> tmgr_removeTimedEvent m ev = Inr m \<and>
    tmgr_removeAgentsByReceiver h m receiver dispatcher = Inr m \<and>
    tmgr_getTimer m ms = tmgr_alloc m ms True"
proof -
  have m0: "mTimers m0 = []"
    using assms(1) by (auto simp: TimerManager_new_def tmgr_alloc_def andThen_Inr_iff)
  from assms(2) have "mTimers m = []"
  proof (induction rule: rtranclp_induct)
    case base
    show ?case by (rule m0)
  next
    case (step m1 m2)
    from step(2,3) show ?case
      by (elim registry_stepE)
        (auto simp: tmgr_getTimer_def tmgr_alloc_def Timer_destroy_def tmgr_removeTimer_def
          andThen_Inr_iff Let_def step.IH)
  qed
  then show ?thesis
    by (simp add: tmgr_removeTimedEvent_id_def tmgr_removeTimedEvent_def tmgr_removeAgentsByReceiver_def
        tmgr_getTimer_def)
qed

lemma tmgr_reaches_no_timer_witness:
  "\<exists>m0 p m. TimerManager_new = Inr m0 \<and> tmgr_getTimer m0 50 = Inr (p, m) \<and>
     tmgr_removeTimedEvent_id Map.empty m kInvalidEventId (Some 1) = Inr m \<and>
     tmgr_getTimer m 50 = tmgr_alloc m 50 True"
proof -
  obtain t t' where t: "Timer_new kMsPerTick False = Inr t" "Timer_new 50 True = Inr t'"
    using Timer_new_inv [of kMsPerTick False] Timer_new_inv [of 50 True] by (auto simp: kMsPerTick_def)
  obtain m0 where m0: "TimerManager_new = Inr m0" "mTimers m0 = []"
    using t(1) by (simp add: TimerManager_new_def tmgr_alloc_def)
  obtain p m where g: "tmgr_getTimer m0 50 = Inr (p, m)"
    using t(2) m0(2) by (simp add: tmgr_getTimer_def tmgr_alloc_def)
  have "registry_step\<^sup>*\<^sup>* m0 m" using registry_step.get [OF g] by blast
  from tmgr_reaches_no_timer [OF m0(1) this, of Map.empty kInvalidEventId "Some 1" _ _ 50] m0 g
  show ?thesis by blast
qed

end
