(* ===== verification/EventDispatcher.thy ===== *)
theory EventDispatcher
  imports EventQueue Timer
begin

text \<open>
  The dispatching of events (src/EventDispatcher.cpp, include/EventDispatcher.h, the thread loop of
  src/EventThread.cpp and the sending functions of include/EventAgent.h). A dispatcher owns an
  \<open>EventQueue\<close>, a list of pointers to listener nodes, and shares the heap of events. A removed
  listener keeps a dead node that the next pass over the list frees. A call from another thread is
  wrapped in an agent and a \<open>SyncEventHolder\<close> on the caller's stack: it is a sending step and, once
  the dispatcher's thread has set \<open>mDone\<close>, a returning step.
\<close>

section \<open>State\<close>

record listener_node =
  lnListener :: "nat option"
  lnEventId :: int

text \<open>The methods that agents deliver to: the dispatcher's own, and the client's.\<close>

datatype agent_call = CallRemoveId int | CallRemoveEvent nat | CallRemoveAgents nat | CallRemoveAll
  | CallClient nat

text \<open>
  \<open>edHolders\<close>: the \<open>mRealEvent\<close> and \<open>mDone\<close> of the holders; \<open>edRet\<close>: the \<open>mRetValue\<close> of the agents;
  \<open>edWakes\<close> counts the calls of \<open>wakeThread\<close>, \<open>edCalls\<close> lists those of \<open>receiveEvent\<close>.
\<close>

record dispatcher =
  edSelf :: nat
  edQueue :: event_queue
  edEventList :: "addr jlist"
  edNodes :: "addr \<Rightarrow> listener_node option"
  edNextNode :: addr
  edHolders :: "nat \<Rightarrow> (nat \<times> bool) option"
  edAgents :: "nat \<Rightarrow> agent_call option"
  edRet :: "nat \<Rightarrow> int option"
  edTimers :: timer_manager
  edWakes :: nat
  edCalls :: "(nat \<times> nat) list"

text \<open>What the client's code does in \<open>receiveEvent\<close> (listener, event) and in an agent's method.\<close>

record client =
  onReceive :: "nat \<Rightarrow> nat \<Rightarrow> dispatcher \<Rightarrow> dispatcher outcome"
  onDeliver :: "nat \<Rightarrow> dispatcher \<Rightarrow> dispatcher outcome"

definition ed_events :: "dispatcher \<Rightarrow> eheap" where
  "ed_events d = eqEvents (edQueue d)"

definition ed_set_events :: "eheap \<Rightarrow> dispatcher \<Rightarrow> dispatcher" where
  "ed_set_events h d = d\<lparr>edQueue := (edQueue d)\<lparr>eqEvents := h\<rparr>\<rparr>"

text \<open>\<open>p\<close> is the address that \<open>new\<close> (or the stack) gives: one that is not in use.\<close>

definition ed_new :: "nat \<Rightarrow> event \<Rightarrow> dispatcher \<Rightarrow> dispatcher outcome" where
  "ed_new p r d =
     (if ed_events d p = None then Inr (ed_set_events ((ed_events d)(p \<mapsto> r)) d) else Inl UndefinedBehaviour)"

definition EventDispatcher_new :: "nat \<Rightarrow> eheap \<Rightarrow> timer_manager \<Rightarrow> dispatcher outcome" where
  "EventDispatcher_new self h m =
     andThen (EventQueue_new h) (\<lambda>q. andThen jl_list (\<lambda>l.
     Inr \<lparr>edSelf = self, edQueue = q, edEventList = l, edNodes = Map.empty, edNextNode = 0,
          edHolders = Map.empty, edAgents = Map.empty, edRet = Map.empty, edTimers = m, edWakes = 0,
          edCalls = []\<rparr>))"

section \<open>Listeners\<close>

definition edh_node :: "dispatcher \<Rightarrow> addr \<Rightarrow> listener_node outcome" where
  "edh_node d n = (case edNodes d n of None \<Rightarrow> Inl UndefinedBehaviour | Some r \<Rightarrow> Inr r)"

definition edh_addEventListener :: "dispatcher \<Rightarrow> nat option \<Rightarrow> int \<Rightarrow> (int \<times> dispatcher) outcome" where
  "edh_addEventListener d listener event_id =
     (let node = edNextNode d;
          d = d\<lparr>edNextNode := Suc node,
                edNodes := (edNodes d)(node \<mapsto> \<lparr>lnListener = listener, lnEventId = event_id\<rparr>)\<rparr> in
      andThen (jl_push_back (edEventList d) node) (\<lambda>l. Inr (0, d\<lparr>edEventList := l\<rparr>)))"

definition edh_removeEventListener :: "dispatcher \<Rightarrow> nat option \<Rightarrow> int \<Rightarrow> (int \<times> dispatcher) outcome" where
  "edh_removeEventListener d listener event_id =
     andThen (andThen (jl_begin (edEventList d))
         (for_find jl_end it_deref it_incr
            (\<lambda>n. andThen (edh_node d n) (\<lambda>lnode.
               Inr (lnEventId lnode = event_id \<and> lnListener lnode = listener)))
            (jl_fresh (edEventList d)) (edEventList d)))
       (\<lambda>r. case r of
          None \<Rightarrow> Inr (-1, d)
        | Some n \<Rightarrow> andThen (edh_node d n) (\<lambda>lnode.
            Inr (0, d\<lparr>edNodes := (edNodes d)(n \<mapsto> lnode\<lparr>lnListener := None\<rparr>)\<rparr>)))"

text \<open>
  The pass over the listeners. \<open>receiveEvent\<close> may change the whole dispatcher, also the list that is
  being walked.
\<close>

fun edh_lookup_loop :: "client \<Rightarrow> nat \<Rightarrow> nat \<Rightarrow> dispatcher \<Rightarrow> addr option \<Rightarrow> dispatcher outcome" where
  "edh_lookup_loop c ev 0 d i = Inl NoReturn"
| "edh_lookup_loop c ev (Suc fuel) d i =
     andThen (jl_end (edEventList d)) (\<lambda>e. if i = e then Inr d else
     andThen (it_deref (edEventList d) i) (\<lambda>n.
     andThen (edh_node d n) (\<lambda>lnode.
     case lnListener lnode of
       None \<Rightarrow>
         let d = d\<lparr>edNodes := (edNodes d)(n := None)\<rparr> in
         andThen (it_erase (edEventList d) i) (\<lambda>(l, i).
         let d = d\<lparr>edEventList := l\<rparr> in
         andThen (it_decr (edEventList d) i) (\<lambda>i.
         andThen (it_incr (edEventList d) i) (\<lambda>i. edh_lookup_loop c ev fuel d i)))
     | Some listener \<Rightarrow>
         andThen (ev_get (ed_events d) ev) (\<lambda>r.
         if lnEventId lnode = mEventId r \<or> lnEventId lnode = kInvalidEventId
         then andThen (onReceive c listener ev (d\<lparr>edCalls := edCalls d @ [(listener, ev)]\<rparr>)) (\<lambda>d.
              andThen (it_incr (edEventList d) i) (\<lambda>i. edh_lookup_loop c ev fuel d i))
         else andThen (it_incr (edEventList d) i) (\<lambda>i. edh_lookup_loop c ev fuel d i)))))"

definition edh_lookupListeners :: "client \<Rightarrow> nat \<Rightarrow> dispatcher \<Rightarrow> nat \<Rightarrow> dispatcher outcome" where
  "edh_lookupListeners c fuel d ev =
     andThen (jl_begin (edEventList d)) (\<lambda>i. edh_lookup_loop c ev fuel d i)"

section \<open>The dispatcher's operations\<close>

definition ed_sendEvent :: "dispatcher \<Rightarrow> nat \<Rightarrow> dispatcher outcome" where
  "ed_sendEvent d ev =
     andThen (eq_SendEvent (edQueue d) ev) (\<lambda>q. Inr (d\<lparr>edQueue := q, edWakes := Suc (edWakes d)\<rparr>))"

definition ed_sendEventSync_begin :: "bool \<Rightarrow> nat \<Rightarrow> dispatcher \<Rightarrow> nat \<Rightarrow> dispatcher outcome" where
  "ed_sendEventSync_begin current holder d ev =
     andThen (ev_get (ed_events d) ev) (\<lambda>r.
     andThen (ev_AddRef (ed_events d) ev) (\<lambda>h.
     andThen (ed_new holder ((Event_new kSyncEventId (mPriority r))\<lparr>evStack := True\<rparr>) (ed_set_events h d)) (\<lambda>d.
     let d = d\<lparr>edHolders := (edHolders d)(holder \<mapsto> (ev, False))\<rparr> in
     andThen (ed_sendEvent d holder) (\<lambda>d.
     if current then Inl Fatal else Inr d))))"

text \<open>None: the caller still waits for \<open>mDone\<close>. The holder goes out of scope with the caller's frame.\<close>

definition ed_sendEventSync_end :: "nat \<Rightarrow> dispatcher \<Rightarrow> dispatcher option outcome" where
  "ed_sendEventSync_end holder d =
     (case edHolders d holder of
        None \<Rightarrow> Inl UndefinedBehaviour
      | Some (ev, mDone) \<Rightarrow>
          if \<not> mDone then Inr None
          else andThen (ev_Release ((ed_events d)(holder := None)) ev) (\<lambda>h.
               Inr (Some (ed_set_events h (d\<lparr>edHolders := (edHolders d)(holder := None)\<rparr>)))))"

definition ed_timer :: "dispatcher \<Rightarrow> nat option \<Rightarrow> nat" where
  "ed_timer d timer = (case timer of None \<Rightarrow> tmgr_getDefaultTimer (edTimers d) | Some p \<Rightarrow> p)"

definition ed_with_timer :: "(timer \<Rightarrow> timer outcome) \<Rightarrow> dispatcher \<Rightarrow> nat \<Rightarrow> dispatcher outcome" where
  "ed_with_timer f d p =
     andThen (tmgr_timer (edTimers d) p) (\<lambda>t. andThen (f t) (\<lambda>t.
     Inr (d\<lparr>edTimers := (edTimers d)\<lparr>tmHeap := (tmHeap (edTimers d))(p \<mapsto> t)\<rparr>\<rparr>)))"

definition ed_sendTimedEvent :: "dispatcher \<Rightarrow> nat \<Rightarrow> u32 \<Rightarrow> nat option \<Rightarrow> dispatcher outcome" where
  "ed_sendTimedEvent d ev msecs timer =
     ed_with_timer (\<lambda>t. tm_sendTimedEvent t (Some ev) (Some (edSelf d)) msecs) d (ed_timer d timer)"

definition ed_sendPeriodicEvent :: "dispatcher \<Rightarrow> nat \<Rightarrow> u32 \<Rightarrow> nat option \<Rightarrow> dispatcher outcome" where
  "ed_sendPeriodicEvent d ev msecs timer =
     ed_with_timer (\<lambda>t. tm_sendPeriodicEvent t (Some ev) (Some (edSelf d)) msecs) d (ed_timer d timer)"

text \<open>The removals on the dispatcher's own thread: first the timers, then the queue.\<close>

definition ed_remove_now ::
  "(eheap \<Rightarrow> timer_manager \<Rightarrow> timer_manager outcome) \<Rightarrow> (event_queue \<Rightarrow> event_queue outcome) \<Rightarrow>
   dispatcher \<Rightarrow> (int \<times> dispatcher) outcome" where
  "ed_remove_now timers queue d =
     andThen (timers (ed_events d) (edTimers d)) (\<lambda>m.
     andThen (queue (edQueue d)) (\<lambda>q. Inr (0, d\<lparr>edTimers := m, edQueue := q\<rparr>)))"

definition ed_call_now :: "agent_call \<Rightarrow> dispatcher \<Rightarrow> (int \<times> dispatcher) outcome" where
  "ed_call_now call d =
     (case call of
        CallRemoveId i \<Rightarrow>
          ed_remove_now (\<lambda>h m. tmgr_removeTimedEvent_id h m i (Some (edSelf d))) (\<lambda>q. eq_Remove_id q i) d
      | CallRemoveEvent e \<Rightarrow>
          ed_remove_now (\<lambda>h m. tmgr_removeTimedEvent m (Some e)) (\<lambda>q. eq_Remove_event q e) d
      | CallRemoveAgents recipient \<Rightarrow>
          ed_remove_now (\<lambda>h m. tmgr_removeAgentsByReceiver h m recipient (Some (edSelf d)))
            (\<lambda>q. eq_RemoveAgentsByReceiver q recipient) d
      | CallRemoveAll \<Rightarrow>
          ed_remove_now (\<lambda>h m. tmgr_removeTimedEvent_id h m kInvalidEventId (Some (edSelf d))) eq_Flush d
      | CallClient k \<Rightarrow> Inl UndefinedBehaviour)"

text \<open>\<open>SyncRetEventAgent::send\<close> from another thread, up to the wait, and its return.\<close>

definition ed_agent_send :: "nat \<Rightarrow> nat \<Rightarrow> agent_call \<Rightarrow> dispatcher \<Rightarrow> dispatcher outcome" where
  "ed_agent_send p holder call d =
     andThen (ed_new p ((Event_new kAgentEventId PRIORITY_NORMAL)\<lparr>evTarget := Some (edSelf d)\<rparr>) d) (\<lambda>d.
     let d = d\<lparr>edAgents := (edAgents d)(p \<mapsto> call), edRet := (edRet d)(p := None)\<rparr> in
     andThen (ev_setPriority (ed_events d) p PRIORITY_HIGH) (\<lambda>h.
     andThen (ev_AddRef h p) (\<lambda>h.
     ed_sendEventSync_begin False holder (ed_set_events h d) p)))"

definition ed_agent_return :: "nat \<Rightarrow> nat \<Rightarrow> dispatcher \<Rightarrow> (int option \<times> dispatcher) outcome" where
  "ed_agent_return p holder d =
     andThen (ed_sendEventSync_end holder d) (\<lambda>r.
     case r of
       None \<Rightarrow> Inr (None, d)
     | Some d \<Rightarrow>
         (case edRet d p of
            None \<Rightarrow> Inl UndefinedBehaviour
          | Some ret \<Rightarrow> andThen (ev_Release (ed_events d) p) (\<lambda>h.
              Inr (Some ret, ed_set_events h (d\<lparr>edAgents := (edAgents d)(p := None)\<rparr>)))))"

definition ed_call :: "bool \<Rightarrow> nat \<Rightarrow> nat \<Rightarrow> agent_call \<Rightarrow> dispatcher \<Rightarrow> (int option \<times> dispatcher) outcome" where
  "ed_call current p holder call d =
     (if \<not> current then andThen (ed_agent_send p holder call d) (\<lambda>d. Inr (None, d))
      else andThen (ed_call_now call d) (\<lambda>(r, d). Inr (Some r, d)))"

definition ed_remove_id :: "bool \<Rightarrow> nat \<Rightarrow> nat \<Rightarrow> dispatcher \<Rightarrow> int \<Rightarrow> (int option \<times> dispatcher) outcome" where
  "ed_remove_id current p holder d eventId = ed_call current p holder (CallRemoveId eventId) d"

definition ed_remove_event :: "bool \<Rightarrow> nat \<Rightarrow> nat \<Rightarrow> dispatcher \<Rightarrow> nat \<Rightarrow> (int option \<times> dispatcher) outcome" where
  "ed_remove_event current p holder d ev = ed_call current p holder (CallRemoveEvent ev) d"

definition ed_removeAgentsByReceiver :: "bool \<Rightarrow> nat \<Rightarrow> nat \<Rightarrow> dispatcher \<Rightarrow> nat \<Rightarrow> (int option \<times> dispatcher) outcome" where
  "ed_removeAgentsByReceiver current p holder d recipient = ed_call current p holder (CallRemoveAgents recipient) d"

definition ed_removeAll :: "bool \<Rightarrow> nat \<Rightarrow> nat \<Rightarrow> dispatcher \<Rightarrow> (int option \<times> dispatcher) outcome" where
  "ed_removeAll current p holder d = ed_call current p holder CallRemoveAll d"

section \<open>Handling an event\<close>

definition ed_deliver :: "client \<Rightarrow> dispatcher \<Rightarrow> nat \<Rightarrow> dispatcher outcome" where
  "ed_deliver c d e =
     (case edAgents d e of
        None \<Rightarrow> Inl UndefinedBehaviour
      | Some (CallClient k) \<Rightarrow> onDeliver c k d
      | Some call \<Rightarrow> andThen (ed_call_now call d) (\<lambda>(r, d). Inr (d\<lparr>edRet := (edRet d)(e \<mapsto> r)\<rparr>)))"

definition edh_dispatchEvent :: "client \<Rightarrow> nat \<Rightarrow> dispatcher \<Rightarrow> nat option \<Rightarrow> dispatcher outcome" where
  "edh_dispatchEvent c fuel d ev =
     (case ev of
        None \<Rightarrow> Inr d
      | Some e \<Rightarrow> andThen (ev_get (ed_events d) e) (\<lambda>r.
          if mEventId r = kAgentEventId then ed_deliver c d e else edh_lookupListeners c fuel d e))"

definition ed_handleSyncEvent :: "client \<Rightarrow> nat \<Rightarrow> dispatcher \<Rightarrow> nat \<Rightarrow> dispatcher outcome" where
  "ed_handleSyncEvent c fuel d ev =
     (case edHolders d ev of
        None \<Rightarrow> Inl UndefinedBehaviour
      | Some (mRealEvent, mDone) \<Rightarrow>
          andThen (edh_dispatchEvent c fuel d (Some mRealEvent)) (\<lambda>d.
          Inr (d\<lparr>edHolders := (edHolders d)(ev \<mapsto> (mRealEvent, True))\<rparr>)))"

definition ed_release :: "dispatcher \<Rightarrow> nat \<Rightarrow> dispatcher outcome" where
  "ed_release d e = andThen (ev_Release (ed_events d) e) (\<lambda>h. Inr (ed_set_events h d))"

text \<open>Called on the dispatcher's own thread, so that \<open>removeAll\<close> acts at once.\<close>

definition ed_handleEvent :: "client \<Rightarrow> nat \<Rightarrow> dispatcher \<Rightarrow> nat option \<Rightarrow> (bool \<times> dispatcher) outcome" where
  "ed_handleEvent c fuel d ev =
     (case ev of
        None \<Rightarrow> Inr (False, d)
      | Some e \<Rightarrow> andThen (ev_get (ed_events d) e) (\<lambda>r.
          if mEventId r = kShutdownEventId
          then andThen (ed_call_now CallRemoveAll d) (\<lambda>(_, d). andThen (ed_release d e) (\<lambda>d. Inr (True, d)))
          else if mEventId r = kSyncEventId
          then andThen (ed_handleSyncEvent c fuel d e) (\<lambda>d. Inr (False, d))
          else andThen (edh_dispatchEvent c fuel d (Some e)) (\<lambda>d.
               andThen (ed_release d e) (\<lambda>d. Inr (False, d)))))"

text \<open>
  The loop of \<open>EventThread::threadMain\<close>, with no other thread at work: it ends with True when a
  shutdown event has been handled, with False when it sleeps in \<open>WaitEvent\<close> on the empty queue.
\<close>

definition et_wait :: "dispatcher \<Rightarrow> (nat option \<times> dispatcher) option outcome" where
  "et_wait d =
     andThen (eq_WaitEvent (edQueue d) 0 []) (\<lambda>r. case r of
       None \<Rightarrow> Inr None | Some (ev, q) \<Rightarrow> Inr (Some (ev, d\<lparr>edQueue := q\<rparr>)))"

fun et_threadMain :: "client \<Rightarrow> nat \<Rightarrow> nat \<Rightarrow> dispatcher \<Rightarrow> (bool \<times> dispatcher) outcome" where
  "et_threadMain c fuel 0 d = Inl NoReturn"
| "et_threadMain c fuel (Suc n) d =
     andThen (et_wait d) (\<lambda>r. case r of
       None \<Rightarrow> Inr (False, d)
     | Some (None, d) \<Rightarrow> Inl Fatal
     | Some (Some ev, d) \<Rightarrow>
         andThen (ed_handleEvent c fuel d (Some ev)) (\<lambda>(done, d).
         if done then Inr (True, d) else et_threadMain c fuel n d))"

section \<open>The listeners as a table\<close>

text \<open>
  \<open>ed_table d ts\<close>: the list holds one node for each entry of \<open>ts\<close>, an event id with its listener or
  \<open>None\<close> for a removed one, in order of registration, and no other node is allocated.
\<close>

definition tbl :: "(addr \<Rightarrow> listener_node option) \<Rightarrow> addr list \<Rightarrow> (int \<times> nat option) list" where
  "tbl nodes ns = map (\<lambda>n. (lnEventId (the (nodes n)), lnListener (the (nodes n)))) ns"

definition ed_nodes :: "dispatcher \<Rightarrow> addr list \<Rightarrow> bool" where
  "ed_nodes d ns \<longleftrightarrow> distinct ns \<and> dom (edNodes d) = set ns \<and> (\<forall>n \<in> set ns. n < edNextNode d)"

definition ed_table :: "dispatcher \<Rightarrow> (int \<times> nat option) list \<Rightarrow> bool" where
  "ed_table d ts \<longleftrightarrow> (\<exists>ns. jl_holds (edEventList d) ns \<and> ed_nodes d ns \<and> ts = tbl (edNodes d) ns)"

fun tbl_remove :: "nat option \<Rightarrow> int \<Rightarrow> (int \<times> nat option) list \<Rightarrow> (int \<times> nat option) list" where
  "tbl_remove listener event_id [] = []"
| "tbl_remove listener event_id (t # ts) =
     (if t = (event_id, listener) then (event_id, None) # ts else t # tbl_remove listener event_id ts)"

lemma tbl_remove_length [simp]: "length (tbl_remove listener event_id ts) = length ts"
  by (induction ts) auto

lemma tbl_length [simp]: "length (tbl nodes ns) = length ns"
  by (simp add: tbl_def)

lemma tbl_other: "n \<notin> set ns \<Longrightarrow> tbl (nodes(n := x)) ns = tbl nodes ns"
  by (auto simp: tbl_def)

lemma tbl_find:
  fixes event_id :: int and listener :: "nat option"
  assumes "distinct ns" "\<forall>n \<in> set ns. nodes n \<noteq> None"
  defines "P \<equiv> \<lambda>n. lnEventId (the (nodes n)) = event_id \<and> lnListener (the (nodes n)) = listener"
  shows "case find P ns of
      None \<Rightarrow> (event_id, listener) \<notin> set (tbl nodes ns) \<and> tbl_remove listener event_id (tbl nodes ns) = tbl nodes ns
    | Some n \<Rightarrow> n \<in> set ns \<and> (event_id, listener) \<in> set (tbl nodes ns) \<and>
        tbl (nodes(n \<mapsto> (the (nodes n))\<lparr>lnListener := None\<rparr>)) ns =
          tbl_remove listener event_id (tbl nodes ns)"
  using assms(1,2)
proof (induction ns)
  case Nil
  then show ?case by (simp add: tbl_def)
next
  case (Cons m ns)
  have cons: "tbl f (m # ns) = (lnEventId (the (f m)), lnListener (the (f m))) # tbl f ns" for f
    by (simp add: tbl_def)
  show ?case
  proof (cases "P m")
    case True
    then have e: "lnEventId (the (nodes m)) = event_id" "lnListener (the (nodes m)) = listener"
      by (auto simp: P_def)
    have "m \<notin> set ns" using Cons.prems by simp
    then show ?thesis using True e tbl_other [of m ns nodes] by (simp add: cons)
  next
    case False
    then have "(lnEventId (the (nodes m)), lnListener (the (nodes m))) \<noteq> (event_id, listener)"
      by (auto simp: P_def)
    moreover have "(nodes(n \<mapsto> r)) m = nodes m" if "n \<in> set ns" for n r
      using that Cons.prems by auto
    ultimately show ?thesis using Cons False
      by (auto simp: cons simp del: fun_upd_apply split: option.splits)
  qed
qed

lemma edh_addEventListener_table:
  assumes "ed_table d ts"
  shows "\<exists>l nodes k. edh_addEventListener d listener event_id =
      Inr (0, d\<lparr>edEventList := l, edNodes := nodes, edNextNode := k\<rparr>) \<and>
    ed_table (d\<lparr>edEventList := l, edNodes := nodes, edNextNode := k\<rparr>) (ts @ [(event_id, listener)])"
proof -
  obtain ns where ns: "jl_holds (edEventList d) ns" "ed_nodes d ns" "ts = tbl (edNodes d) ns"
    using assms by (auto simp: ed_table_def)
  let ?n = "edNextNode d" and ?r = "\<lparr>lnListener = listener, lnEventId = event_id\<rparr>"
  obtain l where l: "jl_push_back (edEventList d) ?n = Inr l" "jl_holds l (ns @ [?n])"
    using jl_push_back_holds [OF ns(1)] by blast
  have new: "?n \<notin> set ns" using ns(2) by (auto simp: ed_nodes_def)
  have "tbl ((edNodes d)(?n \<mapsto> ?r)) (ns @ [?n]) = ts @ [(event_id, listener)]"
    using tbl_other [OF new] by (simp add: ns(3)) (simp add: tbl_def)
  moreover have "ed_nodes (d\<lparr>edEventList := l, edNodes := (edNodes d)(?n \<mapsto> ?r), edNextNode := Suc ?n\<rparr>) (ns @ [?n])"
    using ns(2) new by (auto simp: ed_nodes_def)
  ultimately have "ed_table (d\<lparr>edEventList := l, edNodes := (edNodes d)(?n \<mapsto> ?r), edNextNode := Suc ?n\<rparr>)
      (ts @ [(event_id, listener)])"
    using l(2) by (auto simp: ed_table_def intro!: exI [of _ "ns @ [?n]"])
  then show ?thesis using l(1)
    by (intro exI [of _ l] exI [of _ "(edNodes d)(?n \<mapsto> ?r)"] exI [of _ "Suc ?n"])
      (simp add: edh_addEventListener_def Let_def)
qed

lemma edh_removeEventListener_nodes:
  assumes w: "jl_seq (edEventList d) w ns" and n: "ed_nodes d ns"
  shows "\<exists>nodes. edh_removeEventListener d listener event_id =
      Inr (if (event_id, listener) \<in> set (tbl (edNodes d) ns) then 0 else -1, d\<lparr>edNodes := nodes\<rparr>) \<and>
    ed_nodes (d\<lparr>edNodes := nodes\<rparr>) ns \<and> tbl nodes ns = tbl_remove listener event_id (tbl (edNodes d) ns)"
proof -
  let ?P = "\<lambda>n. lnEventId (the (edNodes d n)) = event_id \<and> lnListener (the (edNodes d n)) = listener"
  have alive: "\<forall>n \<in> set ns. edNodes d n \<noteq> None" using n by (auto simp: ed_nodes_def)
  have "length ns < jl_fresh (edEventList d)" using jl_fuel [of "edEventList d" ns] w by (force simp: jl_holds_def)
  then have find: "andThen (jl_begin (edEventList d)) (for_find jl_end it_deref it_incr
        (\<lambda>n. andThen (edh_node d n) (\<lambda>lnode. Inr (lnEventId lnode = event_id \<and> lnListener lnode = listener)))
        (jl_fresh (edEventList d)) (edEventList d)) = Inr (find ?P ns)"
    by (intro jl.for_find_begin [OF w]) (use alive in \<open>auto simp: edh_node_def\<close>)
  have d: "distinct ns" using n by (simp add: ed_nodes_def)
  note t = tbl_find [OF d alive, of event_id listener]
  show ?thesis
  proof (cases "find ?P ns")
    case None
    then show ?thesis using find t n
      by (intro exI [of _ "edNodes d"]) (simp add: edh_removeEventListener_def)
  next
    case (Some m)
    let ?nodes = "(edNodes d)(m \<mapsto> (the (edNodes d m))\<lparr>lnListener := None\<rparr>)"
    have m: "m \<in> set ns" "(event_id, listener) \<in> set (tbl (edNodes d) ns)"
      "tbl ?nodes ns = tbl_remove listener event_id (tbl (edNodes d) ns)"
      using t Some by simp_all
    then obtain r where "edNodes d m = Some r" using alive by auto
    then have "edh_removeEventListener d listener event_id = Inr (0, d\<lparr>edNodes := ?nodes\<rparr>)"
      using find Some by (simp add: edh_removeEventListener_def edh_node_def)
    moreover have "ed_nodes (d\<lparr>edNodes := ?nodes\<rparr>) ns"
      using n m(1) by (auto simp: ed_nodes_def)
    ultimately show ?thesis using m by auto
  qed
qed

section \<open>A pass over the listeners\<close>

text \<open>
  The client of the pass: a listener answers an event with calls of \<open>removeEventListener\<close>, given by
  a script. On the table the pass \<open>lk_pass\<close> is at entry \<open>k\<close>: it drops a dead entry, calls a matching
  one and goes on with the table that the called listener left.
\<close>

fun ed_removals :: "(nat \<times> int) list \<Rightarrow> dispatcher \<Rightarrow> dispatcher outcome" where
  "ed_removals [] d = Inr d"
| "ed_removals ((listener, event_id) # rs) d =
     andThen (edh_removeEventListener d (Some listener) event_id) (\<lambda>(_, d). ed_removals rs d)"

definition scripted :: "(nat \<Rightarrow> nat \<Rightarrow> (nat \<times> int) list) \<Rightarrow> client" where
  "scripted script = \<lparr>onReceive = \<lambda>listener ev. ed_removals (script listener ev), onDeliver = \<lambda>k. Inr\<rparr>"

definition tbl_removals :: "(nat \<times> int) list \<Rightarrow> (int \<times> nat option) list \<Rightarrow> (int \<times> nat option) list" where
  "tbl_removals rs ts = foldl (\<lambda>ts (listener, event_id). tbl_remove (Some listener) event_id ts) ts rs"

lemma tbl_removals_simps [simp]:
  "tbl_removals [] ts = ts"
  "tbl_removals ((listener, event_id) # rs) ts = tbl_removals rs (tbl_remove (Some listener) event_id ts)"
  by (simp_all add: tbl_removals_def)

lemma tbl_removals_length [simp]: "length (tbl_removals rs ts) = length ts"
  by (induction rs arbitrary: ts) auto

definition wants :: "int \<Rightarrow> int \<times> nat option \<Rightarrow> bool" where
  "wants event_id t \<longleftrightarrow> fst t = event_id \<or> fst t = kInvalidEventId"

function lk_pass ::
  "(nat \<Rightarrow> (nat \<times> int) list) \<Rightarrow> int \<Rightarrow> nat \<Rightarrow> (int \<times> nat option) list \<Rightarrow> nat list \<times> (int \<times> nat option) list" where
  "lk_pass script event_id k ts =
     (if length ts \<le> k then ([], ts)
      else case snd (ts ! k) of
        None \<Rightarrow> lk_pass script event_id k (take k ts @ drop (Suc k) ts)
      | Some listener \<Rightarrow>
          if wants event_id (ts ! k)
          then (let (cs, r) = lk_pass script event_id (Suc k) (tbl_removals (script listener) ts) in
                (listener # cs, r))
          else lk_pass script event_id (Suc k) ts)"
  by pat_completeness auto
termination
  by (relation "measure (\<lambda>(script, event_id, k, ts). length ts - k)") auto

declare lk_pass.simps [simp del]

lemma lk_pass_cases:
  "length ts \<le> k \<Longrightarrow> lk_pass script event_id k ts = ([], ts)"
  "k < length ts \<Longrightarrow> snd (ts ! k) = None \<Longrightarrow>
     lk_pass script event_id k ts = lk_pass script event_id k (take k ts @ drop (Suc k) ts)"
  "k < length ts \<Longrightarrow> snd (ts ! k) = Some listener \<Longrightarrow> wants event_id (ts ! k) \<Longrightarrow>
     lk_pass script event_id k ts =
       (listener # fst (lk_pass script event_id (Suc k) (tbl_removals (script listener) ts)),
        snd (lk_pass script event_id (Suc k) (tbl_removals (script listener) ts)))"
  "k < length ts \<Longrightarrow> snd (ts ! k) = Some listener \<Longrightarrow> \<not> wants event_id (ts ! k) \<Longrightarrow>
     lk_pass script event_id k ts = lk_pass script event_id (Suc k) ts"
  by (subst lk_pass.simps; simp add: case_prod_beta Let_def)+

lemma ed_removals_nodes:
  assumes "jl_seq (edEventList d) w ns" "ed_nodes d ns"
  shows "\<exists>nodes. ed_removals rs d = Inr (d\<lparr>edNodes := nodes\<rparr>) \<and> ed_nodes (d\<lparr>edNodes := nodes\<rparr>) ns \<and>
    tbl nodes ns = tbl_removals rs (tbl (edNodes d) ns)"
  using assms
proof (induction rs arbitrary: d)
  case Nil
  then show ?case by (intro exI [of _ "edNodes d"]) simp
next
  case (Cons x rs)
  obtain listener event_id where x: "x = (listener, event_id)" by (cases x)
  obtain nodes where n: "edh_removeEventListener d (Some listener) event_id =
      Inr (if (event_id, Some listener) \<in> set (tbl (edNodes d) ns) then 0 else -1, d\<lparr>edNodes := nodes\<rparr>)"
    "ed_nodes (d\<lparr>edNodes := nodes\<rparr>) ns"
    "tbl nodes ns = tbl_remove (Some listener) event_id (tbl (edNodes d) ns)"
    using edh_removeEventListener_nodes [OF Cons.prems, of "Some listener" event_id] by blast
  obtain nodes' where "ed_removals rs (d\<lparr>edNodes := nodes\<rparr>) = Inr (d\<lparr>edNodes := nodes'\<rparr>)"
    "ed_nodes (d\<lparr>edNodes := nodes'\<rparr>) ns" "tbl nodes' ns = tbl_removals rs (tbl nodes ns)"
    using Cons.IH [of "d\<lparr>edNodes := nodes\<rparr>"] Cons.prems(1) n(2) by auto
  then show ?case using n x by auto
qed

text \<open>What a pass may change: the listeners and the record of calls.\<close>

definition ed_same :: "dispatcher \<Rightarrow> dispatcher \<Rightarrow> bool" where
  "ed_same d d' \<longleftrightarrow> d'\<lparr>edEventList := edEventList d, edNodes := edNodes d, edCalls := edCalls d\<rparr> = d"

lemma ed_sameD:
  "ed_same d d' \<Longrightarrow> edQueue d' = edQueue d"
  "ed_same d d' \<Longrightarrow> edSelf d' = edSelf d"
  "ed_same d d' \<Longrightarrow> edHolders d' = edHolders d"
  "ed_same d d' \<Longrightarrow> edAgents d' = edAgents d"
  "ed_same d d' \<Longrightarrow> edRet d' = edRet d"
  "ed_same d d' \<Longrightarrow> edTimers d' = edTimers d"
  "ed_same d d' \<Longrightarrow> edWakes d' = edWakes d"
  "ed_same d d' \<Longrightarrow> edNextNode d' = edNextNode d"
  by (cases d; cases d'; simp add: ed_same_def)+

lemma ed_same_trans: "ed_same d d' \<Longrightarrow> ed_same d' d'' \<Longrightarrow> ed_same d d''"
  by (cases d; cases d'; cases d'') (simp add: ed_same_def)

lemma ed_same_upd:
  "ed_same d d" "ed_same d (d\<lparr>edNodes := nodes\<rparr>)" "ed_same d (d\<lparr>edCalls := cs, edNodes := nodes\<rparr>)"
  "ed_same d (d\<lparr>edNodes := nodes, edEventList := l\<rparr>)"
  by (simp_all add: ed_same_def)

lemma ed_nodes_drop:
  assumes "ed_nodes d ns" "k < length ns"
  defines "ns' \<equiv> take k ns @ drop (Suc k) ns"
  shows "ed_nodes (d\<lparr>edNodes := (edNodes d)(ns ! k := None), edEventList := l\<rparr>) ns'"
    "tbl ((edNodes d)(ns ! k := None)) ns' = take k (tbl (edNodes d) ns) @ drop (Suc k) (tbl (edNodes d) ns)"
proof -
  have s: "ns = take k ns @ ns ! k # drop (Suc k) ns" using assms(2) by (simp add: id_take_nth_drop)
  have d: "distinct ns" using assms(1) by (simp add: ed_nodes_def)
  then have d': "ns ! k \<notin> set ns'" "distinct ns'" unfolding ns'_def by (subst (asm) s, force)+
  have "set ns = insert (ns ! k) (set ns')"
    using arg_cong [OF s, of set] unfolding ns'_def by (simp only: set_append list.set) auto
  then have e: "set ns' = set ns - {ns ! k}" using d'(1) by auto
  show "ed_nodes (d\<lparr>edNodes := (edNodes d)(ns ! k := None), edEventList := l\<rparr>) ns'"
    using assms(1) d' e by (auto simp: ed_nodes_def)
  show "tbl ((edNodes d)(ns ! k := None)) ns' = take k (tbl (edNodes d) ns) @ drop (Suc k) (tbl (edNodes d) ns)"
    unfolding tbl_other [OF d'(1)] by (simp add: ns'_def tbl_def take_map drop_map)
qed

lemma edh_lookup_loop_pass:
  assumes "jl_seq (edEventList d) w ns" "ed_nodes d ns" "k \<le> length ns" "length ns - k < fuel"
    and "ed_events d ev = Some r"
    and "lk_pass (\<lambda>l. script l ev) (mEventId r) k (tbl (edNodes d) ns) = (cs, ts)"
  shows "\<exists>d'. edh_lookup_loop (scripted script) ev fuel d (w ! (k + 1)) = Inr d' \<and> ed_table d' ts \<and>
    edCalls d' = edCalls d @ map (\<lambda>l. (l, ev)) cs \<and> ed_same d d'"
  using assms
proof (induction fuel arbitrary: d w ns k cs)
  case (Suc fuel)
  let ?ts = "tbl (edNodes d) ns" and ?pass = "lk_pass (\<lambda>l. script l ev) (mEventId r)"
  note w = Suc.prems(1) and n = Suc.prems(2)
  have e: "jl_end (edEventList d) = Inr (w ! (length ns + 1))" using jl.end_law [OF w] .
  show ?case
  proof (cases "k = length ns")
    case True
    then have "cs = []" "ts = ?ts" using Suc.prems(6) by (simp_all add: lk_pass_cases(1))
    then show ?thesis using True e w n
      by (auto simp: ed_table_def jl_holds_def ed_same_upd(1) intro!: exI [of _ ns])
  next
    case False
    then have k: "k < length ns" using Suc.prems(3) by simp
    have lt: "length ns - Suc k < fuel" using Suc.prems(4) k by arith
    have ne: "w ! (k + 1) \<noteq> w ! (length ns + 1)" using jl.end_iff [OF w Suc.prems(3)] False by simp
    have deref: "it_deref (edEventList d) (w ! (k + 1)) = Inr (ns ! k)" using jl.deref_law [OF w k] .
    have "ns ! k \<in> set ns" using k by simp
    then obtain ln where ln: "edNodes d (ns ! k) = Some ln" using n by (auto simp: ed_nodes_def)
    have tk: "?ts ! k = (lnEventId ln, lnListener ln)" using k ln by (simp add: tbl_def)
    have kt: "k < length ?ts" using k by simp
    show ?thesis
    proof (cases "lnListener ln")
      case None
      obtain l' w' where l': "it_erase (edEventList d) (w ! (k + 1)) = Inr (l', w' ! (k + 1))"
        "jl_seq l' w' (take k ns @ drop (k + 1) ns)"
        by (rule jl.erase_step [OF w k])
      let ?ns = "take k ns @ drop (Suc k) ns"
      let ?d = "d\<lparr>edNodes := (edNodes d)(ns ! k := None), edEventList := l'\<rparr>"
      note nd = ed_nodes_drop(1) [OF n k, of l'] ed_nodes_drop(2) [OF n k]
      have pos: "it_decr l' (w' ! (k + 1)) = Inr (w' ! k)" "it_incr l' (w' ! k) = Inr (w' ! (k + 1))"
        using jl.decr_law [OF l'(2), of k] jl.incr_law [OF l'(2), of k] k by auto
      have "?pass k (tbl (edNodes ?d) ?ns) = (cs, ts)"
        using Suc.prems(6) lk_pass_cases(2) [OF kt] nd(2) tk None by simp
      then have "\<exists>d'. edh_lookup_loop (scripted script) ev fuel ?d (w' ! (k + 1)) = Inr d' \<and> ed_table d' ts \<and>
          edCalls d' = edCalls ?d @ map (\<lambda>l. (l, ev)) cs \<and> ed_same ?d d'"
        by (intro Suc.IH [OF _ nd(1)]) (use l'(2) k lt Suc.prems(5) in \<open>auto simp: ed_events_def simp del: fun_upd_apply\<close>)
      then obtain d' where d': "edh_lookup_loop (scripted script) ev fuel ?d (w' ! (k + 1)) = Inr d'"
        "ed_table d' ts" "edCalls d' = edCalls d @ map (\<lambda>l. (l, ev)) cs" "ed_same ?d d'"
        by auto
      have "edh_lookup_loop (scripted script) ev (Suc fuel) d (w ! (k + 1)) = Inr d'"
        using e ne deref ln None l'(1) pos d'(1) by (simp add: edh_node_def Let_def)
      then show ?thesis using d' ed_same_trans [OF ed_same_upd(4) d'(4)] by blast
    next
      case (Some listener)
      have incr: "it_incr (edEventList d) (w ! (k + 1)) = Inr (w ! (k + 1 + 1))"
        using jl.incr_law [OF w, of "k + 1"] k by simp
      show ?thesis
      proof (cases "wants (mEventId r) (?ts ! k)")
        case False
        then have "?pass (k + 1) ?ts = (cs, ts)"
          using Suc.prems(6) lk_pass_cases(4) [OF kt] tk Some by simp
        then have "\<exists>d'. edh_lookup_loop (scripted script) ev fuel d (w ! (k + 1 + 1)) = Inr d' \<and>
            ed_table d' ts \<and> edCalls d' = edCalls d @ map (\<lambda>l. (l, ev)) cs \<and> ed_same d d'"
          by (intro Suc.IH [OF w n _ _ Suc.prems(5)]) (use k lt in auto)
        then obtain d' where d':
          "edh_lookup_loop (scripted script) ev fuel d (w ! (k + 1 + 1)) = Inr d'"
          "ed_table d' ts \<and> edCalls d' = edCalls d @ map (\<lambda>l. (l, ev)) cs \<and> ed_same d d'"
          by blast
        have "edh_lookup_loop (scripted script) ev (Suc fuel) d (w ! (k + 1)) = Inr d'"
          using e ne deref ln Some incr d'(1) False tk Suc.prems(5)
          by (simp add: edh_node_def wants_def ev_get_def)
        then show ?thesis using d'(2) by blast
      next
        case True
        let ?d0 = "d\<lparr>edCalls := edCalls d @ [(listener, ev)]\<rparr>"
        have n0: "jl_seq (edEventList ?d0) w ns" "ed_nodes ?d0 ns" using w n by (simp_all add: ed_nodes_def)
        obtain nodes where nodes: "ed_removals (script listener ev) ?d0 = Inr (?d0\<lparr>edNodes := nodes\<rparr>)"
          "ed_nodes (?d0\<lparr>edNodes := nodes\<rparr>) ns"
          "tbl nodes ns = tbl_removals (script listener ev) ?ts"
          using ed_removals_nodes [OF n0, of "script listener ev"] by auto
        let ?d = "?d0\<lparr>edNodes := nodes\<rparr>"
        obtain cs' where cs': "cs = listener # cs'" "?pass (k + 1) (tbl (edNodes ?d) ns) = (cs', ts)"
          using Suc.prems(6) lk_pass_cases(3) [OF kt _ True] tk Some nodes(3) by (auto simp: prod_eq_iff)
        have "\<exists>d'. edh_lookup_loop (scripted script) ev fuel ?d (w ! (k + 1 + 1)) = Inr d' \<and> ed_table d' ts \<and>
            edCalls d' = edCalls ?d @ map (\<lambda>l. (l, ev)) cs' \<and> ed_same ?d d'"
          by (rule Suc.IH [OF _ nodes(2) _ _ _ cs'(2)]) (use w k lt Suc.prems(5) in \<open>auto simp: ed_events_def\<close>)
        then obtain d' where d': "edh_lookup_loop (scripted script) ev fuel ?d (w ! (k + 1 + 1)) = Inr d'"
          "ed_table d' ts" "edCalls d' = edCalls ?d @ map (\<lambda>l. (l, ev)) cs'" "ed_same ?d d'"
          by blast
        have "edh_lookup_loop (scripted script) ev (Suc fuel) d (w ! (k + 1)) = Inr d'"
          using e ne deref ln Some incr d'(1) True tk Suc.prems(5) nodes(1)
          by (simp add: edh_node_def wants_def ev_get_def scripted_def)
        moreover have "ed_same d d'" using ed_same_trans [OF _ d'(4)] by (simp add: ed_same_def)
        ultimately show ?thesis using d'(2,3) cs'(1) by auto
      qed
    qed
  qed
qed simp

lemma edh_lookupListeners_pass:
  assumes "ed_table d ts" "length ts < fuel" "ed_events d ev = Some r"
    and "lk_pass (\<lambda>l. script l ev) (mEventId r) 0 ts = (cs, ts')"
  shows "\<exists>d'. edh_lookupListeners (scripted script) fuel d ev = Inr d' \<and> ed_table d' ts' \<and>
    edCalls d' = edCalls d @ map (\<lambda>l. (l, ev)) cs \<and> ed_same d d'"
proof -
  obtain w ns where w: "jl_seq (edEventList d) w ns" "ed_nodes d ns" "ts = tbl (edNodes d) ns"
    using assms(1) by (auto simp: ed_table_def jl_holds_def)
  show ?thesis
    using edh_lookup_loop_pass [OF w(1,2) le0 _ assms(3), of fuel script cs ts'] assms(2,4) w(3)
      jl_begin_end(1) [OF w(1)] by (simp add: edh_lookupListeners_def)
qed

lemma lk_pass_quiet:
  "lk_pass (\<lambda>l. []) event_id k ts =
     (map (the \<circ> snd) (filter (\<lambda>t. snd t \<noteq> None \<and> wants event_id t) (drop k ts)),
      take k ts @ filter (\<lambda>t. snd t \<noteq> None) (drop k ts))"
proof (induction "length ts - k" arbitrary: k ts)
  case 0
  then show ?case by (simp add: lk_pass_cases(1))
next
  case (Suc m)
  then have k: "k < length ts" by simp
  note d = take_nth_drop [OF k]
  show ?case
  proof (cases "snd (ts ! k)")
    case None
    have "m = length (take k ts @ drop (Suc k) ts) - k" using Suc.hyps(2) k by simp
    from Suc.hyps(1) [OF this] show ?thesis
      using lk_pass_cases(2) [OF k None] None d k by (simp add: min_absorb2)
  next
    case (Some l)
    have "m = length ts - Suc k" using Suc.hyps(2) by simp
    from Suc.hyps(1) [OF this] show ?thesis
      using lk_pass_cases(3,4) [OF k Some] Some d k
      by (cases "wants event_id (ts ! k)") (auto simp: take_Suc_conv_app_nth)
  qed
qed

section \<open>The thread\<close>

text \<open>\<open>ed_rep d es ext ts\<close>: queue, references and listeners of the dispatcher.\<close>

definition ed_rep :: "dispatcher \<Rightarrow> nat list \<Rightarrow> (nat \<Rightarrow> int) \<Rightarrow> (int \<times> nat option) list \<Rightarrow> bool" where
  "ed_rep d es ext ts \<longleftrightarrow> eq_rep (edQueue d) es ext \<and> ed_table d ts"

text \<open>Events that clients make: those with an id of their own, made by \<open>new\<close>.\<close>

definition plain :: "event \<Rightarrow> bool" where
  "plain r \<longleftrightarrow> mEventId r \<notin> {kShutdownEventId, kSyncEventId, kAgentEventId} \<and> \<not> evStack r"

lemma same_event_fields:
  assumes "same_event r r'"
  shows "mEventId r' = mEventId r" "mPriority r' = mPriority r" "evTarget r' = evTarget r" "evStack r' = evStack r"
  using assms by (cases r; cases r'; simp add: same_event_def)+

lemma keptD: "kept h h' \<Longrightarrow> h' e = Some r' \<Longrightarrow> \<exists>r. h e = Some r \<and> same_event r r'"
  by (auto simp: kept_def)

lemma kept_member:
  assumes "kept h h'" "balanced h' xs ext" "e \<in> set xs"
  obtains r r' where "h e = Some r" "h' e = Some r'" "same_event r r'"
proof -
  obtain r' where r': "h' e = Some r'" using balanced_member [OF assms(2,3)] by auto
  then obtain r where "h e = Some r" "same_event r r'" using assms(1) by (auto simp: kept_def)
  then show thesis using that r' by blast
qed

lemma ed_table_queue [simp]: "ed_table (d\<lparr>edQueue := q\<rparr>) ts = ed_table d ts"
  by (simp add: ed_table_def ed_nodes_def)

lemma ed_table_set_events [simp]: "ed_table (ed_set_events h d) ts = ed_table d ts"
  by (simp add: ed_set_events_def)

lemma et_wait_rep:
  assumes "eq_rep (edQueue d) es ext"
  shows "case es of
      [] \<Rightarrow> et_wait d = Inr None
    | e # es' \<Rightarrow> \<exists>q. et_wait d = Inr (Some (Some e, d\<lparr>edQueue := q\<rparr>)) \<and> eq_rep q es' (ext(e := ext e + 1)) \<and>
        eqEvents q = ed_events d"
  using eq_poll_rep [OF assms]
  by (auto simp: et_wait_def eq_WaitEvent_def ed_events_def split: list.splits)

lemma ed_handleEvent_plain:
  assumes rep: "ed_rep d es (ext(e := ext e + 1)) ts" "0 \<le> ext e" and e: "ed_events d e = Some r" "plain r"
    and fuel: "length ts < fuel"
    and pass: "lk_pass (\<lambda>l. script l e) (mEventId r) 0 ts = (cs, ts')"
  shows "\<exists>d'. ed_handleEvent (scripted script) fuel d (Some e) = Inr (False, d') \<and> ed_rep d' es ext ts' \<and>
    edCalls d' = edCalls d @ map (\<lambda>l. (l, e)) cs \<and> kept (ed_events d) (ed_events d')"
proof -
  have t: "ed_table d ts" and q: "eq_rep (edQueue d) es (ext(e := ext e + 1))"
    using rep(1) by (simp_all add: ed_rep_def)
  obtain d1 where d1: "edh_lookupListeners (scripted script) fuel d e = Inr d1" "ed_table d1 ts'"
    "edCalls d1 = edCalls d @ map (\<lambda>l. (l, e)) cs" "ed_same d d1"
    using edh_lookupListeners_pass [OF t fuel e(1), of script cs ts'] pass by blast
  have q1: "edQueue d1 = edQueue d" using ed_sameD(1) [OF d1(4)] .
  have b: "balanced (ed_events d) (e # es) ext" using q rep(2) by (simp add: eq_rep_def balanced_borrow ed_events_def)
  obtain h where h: "ev_Release (ed_events d) e = Inr h" "balanced h es ext" "kept (ed_events d) h"
    using ev_Release_balanced [OF b] e by (auto simp: plain_def)
  have "eq_rep (edQueue (ed_set_events h d1)) es ext"
    using q h(2) q1 by (simp add: eq_rep_def ed_set_events_def)
  then have "ed_rep (ed_set_events h d1) es ext ts'" using d1(2) by (simp add: ed_rep_def)
  moreover have "ed_handleEvent (scripted script) fuel d (Some e) = Inr (False, ed_set_events h d1)"
    using e d1(1) h(1) q1
    by (simp add: ed_handleEvent_def plain_def edh_dispatchEvent_def ev_get_def ed_release_def ed_events_def)
  ultimately show ?thesis using d1(3) h(3) by (simp add: ed_set_events_def ed_events_def)
qed

fun drain :: "(nat \<Rightarrow> nat \<Rightarrow> (nat \<times> int) list) \<Rightarrow> (nat \<Rightarrow> int) \<Rightarrow> nat list \<Rightarrow> (int \<times> nat option) list \<Rightarrow>
  (nat \<times> nat) list \<times> (int \<times> nat option) list" where
  "drain script event_id [] ts = ([], ts)"
| "drain script event_id (e # es) ts =
     (let (cs, ts1) = lk_pass (\<lambda>l. script l e) (event_id e) 0 ts; (cs', ts') = drain script event_id es ts1 in
      (map (\<lambda>l. (l, e)) cs @ cs', ts'))"

lemma lk_pass_length: "length (snd (lk_pass script event_id k ts)) \<le> length ts"
proof (induction script event_id k ts rule: lk_pass.induct)
  case (1 script event_id k ts)
  show ?case
  proof (cases "length ts \<le> k")
    case True
    then show ?thesis by (simp add: lk_pass_cases(1))
  next
    case False
    then have k: "k < length ts" by simp
    show ?thesis
    proof (cases "snd (ts ! k)")
      case None
      then show ?thesis using 1(1) [OF False None] k by (simp add: lk_pass_cases(2))
    next
      case (Some l)
      then show ?thesis using 1(2,3) [OF False Some] k lk_pass_cases(3,4) [OF k Some]
        by (cases "wants event_id (ts ! k)") auto
    qed
  qed
qed

lemma et_threadMain_drain:
  assumes "ed_rep d es ext ts" "length ts < fuel" "length es < n" "drain script event_id es ts = (cs, ts')"
    and "\<forall>e \<in> set es. plain (the (ed_events d e)) \<and> event_id e = mEventId (the (ed_events d e))"
  shows "\<exists>d'. et_threadMain (scripted script) fuel n d = Inr (False, d') \<and> ed_rep d' [] ext ts' \<and>
    edCalls d' = edCalls d @ cs"
  using assms
proof (induction es arbitrary: n d ts cs)
  case Nil
  then show ?case using et_wait_rep [of d "[]" ext] by (cases n) (auto simp: ed_rep_def)
next
  case (Cons e es)
  obtain g where n: "n = Suc g" "length es < g" using Cons.prems(3) by (cases n) auto
  have q: "eq_rep (edQueue d) (e # es) ext" and t: "ed_table d ts" using Cons.prems(1) by (simp_all add: ed_rep_def)
  have b: "balanced (ed_events d) (e # es) ext" using q by (simp add: eq_rep_def ed_events_def)
  obtain q1 where q1: "et_wait d = Inr (Some (Some e, d\<lparr>edQueue := q1\<rparr>))" "eq_rep q1 es (ext(e := ext e + 1))"
    "eqEvents q1 = ed_events d"
    using et_wait_rep [OF q] by auto
  obtain r where r: "ed_events d e = Some r" using balanced_member [OF b] by auto
  obtain cs1 ts1 cs2 where p: "lk_pass (\<lambda>l. script l e) (event_id e) 0 ts = (cs1, ts1)"
    "drain script event_id es ts1 = (cs2, ts')" "cs = map (\<lambda>l. (l, e)) cs1 @ cs2"
    using Cons.prems(4) by (auto split: prod.splits)
  have er: "plain r" "event_id e = mEventId r" using Cons.prems(5) r by auto
  have "\<exists>d2. ed_handleEvent (scripted script) fuel (d\<lparr>edQueue := q1\<rparr>) (Some e) = Inr (False, d2) \<and>
      ed_rep d2 es ext ts1 \<and> edCalls d2 = edCalls (d\<lparr>edQueue := q1\<rparr>) @ map (\<lambda>l. (l, e)) cs1 \<and>
      kept (ed_events (d\<lparr>edQueue := q1\<rparr>)) (ed_events d2)"
    by (rule ed_handleEvent_plain [where r = r])
      (use q1(2,3) t r er p(1) Cons.prems(2) b in \<open>auto simp: ed_rep_def ed_events_def balanced_borrow\<close>)
  then obtain d2 where d2: "ed_handleEvent (scripted script) fuel (d\<lparr>edQueue := q1\<rparr>) (Some e) = Inr (False, d2)"
    "ed_rep d2 es ext ts1" "edCalls d2 = edCalls d @ map (\<lambda>l. (l, e)) cs1" "kept (ed_events d) (ed_events d2)"
    using q1(3) by (auto simp: ed_events_def)
  have b2: "balanced (ed_events d2) es ext" using d2(2) by (simp add: ed_rep_def eq_rep_def ed_events_def)
  have "plain (the (ed_events d2 i)) \<and> event_id i = mEventId (the (ed_events d2 i))" if i: "i \<in> set es" for i
    using kept_member [OF d2(4) b2 i] Cons.prems(5) i same_event_fields
    by (metis list.set_intros(2) option.sel plain_def)
  moreover have "length ts1 < fuel"
    using lk_pass_length [of "\<lambda>l. script l e" "event_id e" 0 ts] p(1) Cons.prems(2) by simp
  ultimately obtain d' where "et_threadMain (scripted script) fuel g d2 = Inr (False, d')" "ed_rep d' [] ext ts'"
    "edCalls d' = edCalls d2 @ cs2"
    using Cons.IH [OF d2(2) _ n(2) p(2)] by blast
  then show ?case using n(1) q1(1) d2(1,3) p(3) by simp
qed

section \<open>Calls from other threads\<close>

text \<open>What a call of the dispatcher's own methods leaves in the queue.\<close>

fun call_matches :: "agent_call \<Rightarrow> nat \<Rightarrow> event \<Rightarrow> bool" where
  "call_matches (CallRemoveId event_id) i r \<longleftrightarrow> mEventId r = event_id"
| "call_matches (CallRemoveEvent e) i r \<longleftrightarrow> i = e"
| "call_matches (CallRemoveAgents t) i r \<longleftrightarrow> mEventId r = kAgentEventId \<and> evTarget r = Some t"
| "call_matches CallRemoveAll i r \<longleftrightarrow> True"
| "call_matches (CallClient k) i r \<longleftrightarrow> False"

definition call_keeps :: "agent_call \<Rightarrow> eheap \<Rightarrow> nat list \<Rightarrow> nat list" where
  "call_keeps call h es = filter (\<lambda>i. \<not> call_matches call i (the (h i))) es"

lemma ed_no_timers:
  assumes "mTimers m = []"
  shows "tmgr_removeTimedEvent_id h m i dispatcher = Inr m" "tmgr_removeTimedEvent m e = Inr m"
    "tmgr_removeAgentsByReceiver h m receiver dispatcher = Inr m"
  using assms by (simp_all add: tmgr_removeTimedEvent_id_def tmgr_removeTimedEvent_def tmgr_removeAgentsByReceiver_def)

lemma ed_call_now_rep:
  assumes rep: "eq_rep (edQueue d) es ext" and tm: "mTimers (edTimers d) = []" and call: "\<forall>k. call \<noteq> CallClient k"
    and new: "\<And>i r. i \<in> set es \<Longrightarrow> ed_events d i = Some r \<Longrightarrow> \<not> evStack r"
  shows "\<exists>q. ed_call_now call d = Inr (0, d\<lparr>edQueue := q\<rparr>) \<and>
    eq_rep q (call_keeps call (ed_events d) es) ext \<and> kept (ed_events d) (eqEvents q)"
proof -
  have timers: "ed_remove_now timers queue d = andThen (queue (edQueue d)) (\<lambda>q. Inr (0, d\<lparr>edQueue := q\<rparr>))"
    if "timers (ed_events d) (edTimers d) = Inr (edTimers d)" for timers queue
    using that by (simp add: ed_remove_now_def)
  have loop: "\<exists>q. eq_remove_loop test (edQueue d) = Inr q \<and>
      eq_rep q (filter (\<lambda>i. \<not> test i (the (ed_events d i))) es) ext \<and> kept (ed_events d) (eqEvents q)"
    if "\<And>i r r'. same_event r r' \<Longrightarrow> test i r = test i r'" for test
  proof -
    have "\<exists>q'. eq_remove_loop test (edQueue d) = Inr q' \<and>
        eq_rep q' (filter (\<lambda>i. \<not> test i (the (eqEvents (edQueue d) i))) es) ext \<and>
        kept (eqEvents (edQueue d)) (eqEvents q') \<and> mWait q' = mWait (edQueue d)"
      by (rule eq_remove_rep [OF rep]) (use that new in \<open>auto simp: ed_events_def\<close>)
    then show ?thesis by (auto simp: ed_events_def)
  qed
  show ?thesis
  proof (cases call)
    case (CallRemoveId i)
    with loop [of "\<lambda>_ r. mEventId r = i"] show ?thesis
      by (auto simp: ed_call_now_def timers ed_no_timers [OF tm] eq_Remove_id_def call_keeps_def same_event_fields)
  next
    case (CallRemoveEvent e)
    with loop [of "\<lambda>i r. i = e"] show ?thesis
      by (auto simp: ed_call_now_def timers ed_no_timers [OF tm] eq_Remove_event_def call_keeps_def)
  next
    case (CallRemoveAgents t)
    with loop [of "\<lambda>_ r. mEventId r = kAgentEventId \<and> evTarget r = Some t"] show ?thesis
      by (auto simp: ed_call_now_def timers ed_no_timers [OF tm] eq_RemoveAgentsByReceiver_def call_keeps_def
          same_event_fields)
  next
    case CallRemoveAll
    have l: "jl_holds (mQueue (edQueue d)) es" using rep by (simp add: eq_rep_def)
    have "\<exists>q. eq_flush_loop (jl_fresh (mQueue (edQueue d))) (edQueue d) = Inr q \<and> eq_rep q [] ext \<and>
        kept (eqEvents (edQueue d)) (eqEvents q) \<and> mWait q = mWait (edQueue d)"
      by (rule eq_flush_rep [OF rep]) (use jl_fuel [OF l] new in \<open>auto simp: ed_events_def\<close>)
    then show ?thesis using CallRemoveAll
      by (auto simp: ed_call_now_def timers ed_no_timers [OF tm] eq_Flush_def call_keeps_def ed_events_def)
  next
    case (CallClient k)
    then show ?thesis using call by simp
  qed
qed

lemma balanced_new:
  assumes "balanced h es ext" "h p = None" "0 \<le> mRefCount r"
  shows "balanced (h(p \<mapsto> r)) es (ext(p := mRefCount r))"
  unfolding balanced_def
proof (intro allI)
  fix e
  show "0 \<le> (ext(p := mRefCount r)) e \<and> (case (h(p \<mapsto> r)) e of None \<Rightarrow> e \<notin> set es \<and> (ext(p := mRefCount r)) e = 0
      | Some r' \<Rightarrow> mRefCount r' = int (count_list es e) + (ext(p := mRefCount r)) e)"
    using assms(1) [unfolded balanced_def, rule_format, of e] assms(1) [unfolded balanced_def, rule_format, of p]
      assms(2,3) by (auto simp: count_list_0_iff split: option.splits)
qed

text \<open>
  The sending half: agent and holder are new; the holder carries the agent's high priority, which
  puts it before the normal events of the queue.
\<close>

lemma ed_agent_send_rep:
  assumes rep: "eq_rep (edQueue d) es ext" and new: "ed_events d p = None" "ed_events d holder = None" "p \<noteq> holder"
    and normal: "\<And>i. i \<in> set es \<Longrightarrow> prio (edQueue d) i = PRIORITY_NORMAL"
  defines "agent \<equiv> \<lparr>mEventId = kAgentEventId, mPriority = PRIORITY_HIGH, mRefCount = 2,
      evTarget = Some (edSelf d), evStack = False\<rparr>"
    and "hold \<equiv> \<lparr>mEventId = kSyncEventId, mPriority = PRIORITY_HIGH, mRefCount = 0,
      evTarget = None, evStack = True\<rparr>"
  shows "\<exists>q. ed_agent_send p holder call d = Inr (d\<lparr>edAgents := (edAgents d)(p \<mapsto> call),
        edRet := (edRet d)(p := None), edHolders := (edHolders d)(holder \<mapsto> (p, False)),
        edQueue := q, edWakes := Suc (edWakes d)\<rparr>) \<and>
    eq_rep q (holder # es) (ext(p := 2, holder := 0)) \<and>
    eqEvents q = (ed_events d)(p \<mapsto> agent, holder \<mapsto> hold\<lparr>mRefCount := 1\<rparr>)"
proof -
  let ?h = "(ed_events d)(p \<mapsto> agent, holder \<mapsto> hold)"
  let ?q = "(edQueue d)\<lparr>eqEvents := ?h\<rparr>"
  have l: "jl_holds (mQueue (edQueue d)) es" and b: "balanced (ed_events d) es ext"
    using rep by (simp_all add: eq_rep_def ed_events_def)
  have b1: "balanced ((ed_events d)(p \<mapsto> agent)) es (ext(p := 2))"
    using balanced_new [OF b new(1), of agent] by (simp add: agent_def)
  have "balanced ?h es (ext(p := 2, holder := 0))"
    using balanced_new [OF b1, of holder hold] new(2,3) by (simp add: hold_def)
  then have rep': "eq_rep ?q es (ext(p := 2, holder := 0))" using l by (simp add: eq_rep_def)
  have "e \<noteq> p" "e \<noteq> holder" if "e \<in> set es" for e
    using balanced_member [OF b that] new(1,2) by auto
  then have pr: "prio ?q i = PRIORITY_NORMAL" if "i \<in> set es" for i
    using normal [OF that] that by (simp add: prio_def ed_events_def)
  have "insert_before_first (\<lambda>i. mPriority hold > prio ?q i) holder es = holder # es"
    using pr by (cases es) (auto simp: insert_before_first_def hold_def PRIORITY_NORMAL_def PRIORITY_HIGH_def)
  moreover have "mPriority hold \<noteq> PRIORITY_NORMAL"
    by (simp add: hold_def PRIORITY_NORMAL_def PRIORITY_HIGH_def)
  ultimately obtain q where q: "eq_SendEvent ?q holder = Inr q" "eq_rep q (holder # es) (ext(p := 2, holder := 0))"
    "eqEvents q = ?h(holder \<mapsto> hold\<lparr>mRefCount := 1\<rparr>)"
    using eq_SendEvent_rep [OF rep', of holder hold] by (auto simp: hold_def)
  have "ed_agent_send p holder call d = andThen (eq_SendEvent ?q holder) (\<lambda>q.
      Inr (d\<lparr>edAgents := (edAgents d)(p \<mapsto> call), edRet := (edRet d)(p := None),
        edHolders := (edHolders d)(holder \<mapsto> (p, False)), edQueue := q, edWakes := Suc (edWakes d)\<rparr>))"
    using new
    by (simp add: ed_agent_send_def ed_new_def ev_setPriority_def ev_get_def ev_AddRef_def Event_new_def Let_def
        ed_sendEventSync_begin_def ed_sendEvent_def ed_set_events_def ed_events_def agent_def hold_def
        andThen_assoc)
  then show ?thesis using q by (auto intro!: exI [of _ q])
qed

lemma ed_agent_return_rep:
  assumes rep: "eq_rep (edQueue d) es ext" and holder: "edHolders d holder = Some (p, True)" "edRet d p = Some ret"
    and refs: "ext p = 2" "ext holder = 1" "holder \<notin> set es" "p \<noteq> holder" "p \<notin> set es"
    and p: "ed_events d p = Some r" "\<not> evStack r"
  shows "\<exists>d'. ed_agent_return p holder d = Inr (Some ret, d') \<and> eq_rep (edQueue d') es (ext(p := 0, holder := 0)) \<and>
    ed_events d' holder = None \<and> ed_events d' p = None \<and> kept (ed_events d) (ed_events d') \<and> edEventList d' = edEventList d \<and>
    edNodes d' = edNodes d \<and> edNextNode d' = edNextNode d"
proof -
  let ?h = "(ed_events d)(holder := None)"
  have l: "jl_holds (mQueue (edQueue d)) es" and b: "balanced (ed_events d) es ext"
    using rep by (simp_all add: eq_rep_def ed_events_def)
  have h0: "balanced ?h es (ext(holder := 0))"
    unfolding balanced_def
  proof (intro allI)
    fix e
    show "0 \<le> (ext(holder := 0)) e \<and> (case ?h e of None \<Rightarrow> e \<notin> set es \<and> (ext(holder := 0)) e = 0
        | Some r' \<Rightarrow> mRefCount r' = int (count_list es e) + (ext(holder := 0)) e)"
      using b [unfolded balanced_def, rule_format, of e] refs(3) by (auto split: option.splits)
  qed
  have h0': "balanced ?h (p # p # es) (ext(p := 0, holder := 0))"
  proof -
    have "ext(holder := 0, p := 2) = ext(holder := 0)" using refs(1,4) by auto
    then show ?thesis using h0 refs(4) by (simp add: balanced_borrow fun_upd_twist)
  qed
  have "\<not> evStack r'" if "?h p = Some r'" for r' using that p refs(4) by simp
  then obtain h1 where h1: "ev_Release ?h p = Inr h1" "balanced h1 (p # es) (ext(p := 0, holder := 0))" "kept ?h h1"
    using ev_Release_balanced [OF h0'] by blast
  have "\<not> evStack r'" if h1p: "h1 p = Some r'" for r'
  proof -
    obtain r2 where "?h p = Some r2" "same_event r2 r'" using keptD [OF h1(3) h1p] by blast
    then show ?thesis using p refs(4) same_event_fields(4) by auto
  qed
  then obtain h2 where h2: "ev_Release h1 p = Inr h2" "balanced h2 es (ext(p := 0, holder := 0))" "kept h1 h2"
    using ev_Release_balanced [OF h1(2)] by blast
  have k: "kept ?h h2" using kept_trans [OF h1(3) h2(3)] .
  have "kept (ed_events d) ?h" by (auto simp: kept_def same_event_def)
  from kept_trans [OF this k] have "kept (ed_events d) h2" .
  moreover have "h2 holder = None" using k by (cases "h2 holder") (auto simp: kept_def dest: spec [of _ holder])
  moreover have "h2 p = None"
  proof -
    obtain r1 where "h1 p = Some r1" "mRefCount r1 = 1"
      using h1(2) refs(5) by (auto simp: balanced_def split: option.splits dest: spec [of _ p])
    then show ?thesis using h2(1)
      by (auto simp: ev_Release_def ev_get_def ev_onRefCountZero_def split: if_splits)
  qed
  ultimately show ?thesis using holder h1(1) h2(1,2) l
    by (auto simp: ed_agent_return_def ed_sendEventSync_end_def ed_set_events_def ed_events_def eq_rep_def)
qed

lemma eq_rep_absent: "eq_rep q es ext \<Longrightarrow> eqEvents q p = None \<Longrightarrow> p \<notin> set es \<and> ext p = 0"
  by (auto simp: eq_rep_def balanced_def dest: spec [of _ p])

text \<open>The thread's turn at the holder runs the agent's call and marks the holder as done.\<close>

lemma ed_handle_holder:
  assumes ev: "ed_events d holder = Some hold" "mEventId hold = kSyncEventId"
      "ed_events d p = Some agent" "mEventId agent = kAgentEventId"
    and d: "edHolders d holder = Some (p, m)" "edAgents d p = Some call" "\<forall>k. call \<noteq> CallClient k"
    and now: "ed_call_now call d = Inr (ret, d')"
  shows "ed_handleEvent c fuel d (Some holder) =
    Inr (False, d'\<lparr>edRet := (edRet d')(p \<mapsto> ret), edHolders := (edHolders d')(holder \<mapsto> (p, True))\<rparr>)"
proof -
  have "ed_deliver c d p = Inr (d'\<lparr>edRet := (edRet d')(p \<mapsto> ret)\<rparr>)"
    using d now by (cases call) (simp_all add: ed_deliver_def)
  then show ?thesis using ev d(1)
    by (simp add: ed_handleEvent_def ev_get_def ed_handleSyncEvent_def edh_dispatchEvent_def
        kSyncEventId_def kShutdownEventId_def kAgentEventId_def)
qed

text \<open>
  C9: a removal called from another thread, while no timer is running and all events in the queue are of normal
  priority and were made with \<open>new\<close>. The caller gives an agent in a holder to the queue and waits; the holder is the
  next event of the dispatcher's thread, which runs the removal there. Then, and not before, the caller returns 0, and
  the queue holds exactly the events that the removal keeps, in order. Agent and holder are gone, the listeners are
  as before, and the count of every event is the number of its entries that are left in the queue and of the
  references that clients hold, which are those of before: each entry that was removed has given its reference back,
  and an event without any other reference was deleted.
\<close>

theorem ed_remote_call:
  assumes rep: "ed_rep d es ext ts" and tm: "mTimers (edTimers d) = []" and call: "\<forall>k. call \<noteq> CallClient k"
    and new: "ed_events d p = None" "ed_events d holder = None" "p \<noteq> holder"
    and es: "\<forall>i \<in> set es. \<not> evStack (the (ed_events d i)) \<and> mPriority (the (ed_events d i)) = PRIORITY_NORMAL"
  shows "\<exists>d1 q d2 d3. ed_call False p holder call d = Inr (None, d1) \<and>
    ed_agent_return p holder d1 = Inr (None, d1) \<and>
    et_wait d1 = Inr (Some (Some holder, d1\<lparr>edQueue := q\<rparr>)) \<and>
    ed_handleEvent c fuel (d1\<lparr>edQueue := q\<rparr>) (Some holder) = Inr (False, d2) \<and>
    ed_agent_return p holder d2 = Inr (Some 0, d3) \<and>
    ed_rep d3 (call_keeps call (ed_events d) es) ext ts \<and>
    ed_events d3 p = None \<and> ed_events d3 holder = None \<and> kept (ed_events d) (ed_events d3)"
proof -
  have q: "eq_rep (edQueue d) es ext" and t: "ed_table d ts" using rep by (simp_all add: ed_rep_def)
  have out: "p \<notin> set es" "ext p = 0" "holder \<notin> set es" "ext holder = 0"
    using eq_rep_absent [OF q] new(1,2) by (auto simp: ed_events_def)
  have live: "\<exists>r. ed_events d i = Some r" if "i \<in> set es" for i
    using balanced_member that q by (auto simp: eq_rep_def ed_events_def)
  have normal: "prio (edQueue d) i = PRIORITY_NORMAL" if "i \<in> set es" for i
    using es live that by (fastforce simp: prio_def ed_events_def)
  obtain q1 where s: "ed_agent_send p holder call d = Inr (d\<lparr>edAgents := (edAgents d)(p \<mapsto> call),
        edRet := (edRet d)(p := None), edHolders := (edHolders d)(holder \<mapsto> (p, False)),
        edQueue := q1, edWakes := Suc (edWakes d)\<rparr>)"
    and q1: "eq_rep q1 (holder # es) (ext(p := 2, holder := 0))"
    and h1: "eqEvents q1 = (ed_events d)(p \<mapsto> \<lparr>mEventId = kAgentEventId, mPriority = PRIORITY_HIGH, mRefCount = 2,
        evTarget = Some (edSelf d), evStack = False\<rparr>,
      holder \<mapsto> \<lparr>mEventId = kSyncEventId, mPriority = PRIORITY_HIGH, mRefCount = 0,
        evTarget = None, evStack = True\<rparr>\<lparr>mRefCount := 1\<rparr>)"
    using ed_agent_send_rep [OF q new normal] by blast
  define d1 where "d1 = d\<lparr>edAgents := (edAgents d)(p \<mapsto> call),
        edRet := (edRet d)(p := None), edHolders := (edHolders d)(holder \<mapsto> (p, False)),
        edQueue := q1, edWakes := Suc (edWakes d)\<rparr>"
  obtain q2 where w: "et_wait d1 = Inr (Some (Some holder, d1\<lparr>edQueue := q2\<rparr>))"
    and q2: "eq_rep q2 es (ext(p := 2, holder := 1))" "eqEvents q2 = eqEvents q1"
    using et_wait_rep [of d1 "holder # es" "ext(p := 2, holder := 0)"] q1 by (auto simp: d1_def ed_events_def)
  let ?d = "d1\<lparr>edQueue := q2\<rparr>"
  have agree: "ed_events ?d i = ed_events d i" if "i \<in> set es" for i
    using out(1,3) that q2(2) h1 by (auto simp: ed_events_def)
  have keeps: "call_keeps call (ed_events ?d) es = call_keeps call (ed_events d) es"
    unfolding call_keeps_def by (rule filter_cong) (simp_all add: agree)
  have "\<not> evStack r" if "i \<in> set es" "ed_events ?d i = Some r" for i r
    using es that by (auto simp: agree)
  then have "\<exists>q. ed_call_now call ?d = Inr (0, ?d\<lparr>edQueue := q\<rparr>) \<and>
      eq_rep q (call_keeps call (ed_events ?d) es) (ext(p := 2, holder := 1)) \<and> kept (ed_events ?d) (eqEvents q)"
    by (intro ed_call_now_rep) (use q2(1) tm call in \<open>auto simp: d1_def\<close>)
  then obtain q3 where n: "ed_call_now call ?d = Inr (0, ?d\<lparr>edQueue := q3\<rparr>)"
    and q3: "eq_rep q3 (call_keeps call (ed_events d) es) (ext(p := 2, holder := 1))"
      "kept (eqEvents q1) (eqEvents q3)"
    unfolding keeps using q2(2) by (auto simp: ed_events_def)
  define d2 where "d2 = ?d\<lparr>edQueue := q3, edRet := (edRet d)(p \<mapsto> 0), edHolders := (edHolders d)(holder \<mapsto> (p, True))\<rparr>"
  have h: "ed_handleEvent c fuel ?d (Some holder) = Inr (False, d2)"
  proof -
    have "ed_handleEvent c fuel ?d (Some holder) = Inr (False, (?d\<lparr>edQueue := q3\<rparr>)\<lparr>
        edRet := (edRet (?d\<lparr>edQueue := q3\<rparr>))(p \<mapsto> 0), edHolders := (edHolders (?d\<lparr>edQueue := q3\<rparr>))(holder \<mapsto> (p, True))\<rparr>)"
      by (rule ed_handle_holder [OF _ _ _ _ _ _ call n]) (use h1 q2(2) new(3) in \<open>auto simp: ed_events_def d1_def\<close>)
    then show ?thesis by (simp add: d2_def d1_def)
  qed
  have sub: "set (call_keeps call (ed_events d) es) \<subseteq> set es" by (auto simp: call_keeps_def)
  have "\<exists>r3. eqEvents q3 p = Some r3 \<and> \<not> evStack r3"
  proof -
    obtain r3 where r3: "eqEvents q3 p = Some r3"
      using q3(1) new(3) by (auto simp: eq_rep_def balanced_def split: option.splits dest: spec [of _ p])
    then obtain r where "eqEvents q1 p = Some r" "same_event r r3" using q3(2) by (auto simp: kept_def)
    then show ?thesis using r3 h1 new(3) same_event_fields(4) by auto
  qed
  then obtain r3 where r3: "eqEvents q3 p = Some r3" "\<not> evStack r3" by blast
  have "\<exists>d3. ed_agent_return p holder d2 = Inr (Some 0, d3) \<and>
      eq_rep (edQueue d3) (call_keeps call (ed_events d) es) ((ext(p := 2, holder := 1))(p := 0, holder := 0)) \<and>
      ed_events d3 holder = None \<and> ed_events d3 p = None \<and> kept (ed_events d2) (ed_events d3) \<and>
      edEventList d3 = edEventList d2 \<and> edNodes d3 = edNodes d2 \<and> edNextNode d3 = edNextNode d2"
    by (rule ed_agent_return_rep) (use q3(1) r3 new(3) out sub in \<open>auto simp: d2_def ed_events_def\<close>)
  then obtain d3 where d3: "ed_agent_return p holder d2 = Inr (Some 0, d3)"
    "eq_rep (edQueue d3) (call_keeps call (ed_events d) es) ((ext(p := 2, holder := 1))(p := 0, holder := 0))"
    "ed_events d3 holder = None" "ed_events d3 p = None" "kept (ed_events d2) (ed_events d3)"
    "edEventList d3 = edEventList d2" "edNodes d3 = edNodes d2" "edNextNode d3 = edNextNode d2"
    by blast
  have "(ext(p := 2, holder := 1))(p := 0, holder := 0) = ext" using out by auto
  then have "ed_rep d3 (call_keeps call (ed_events d) es) ext ts"
    using d3(2,6-8) t by (simp add: ed_rep_def ed_table_def ed_nodes_def d2_def d1_def)
  moreover have "kept (ed_events d) (ed_events d3)"
    unfolding kept_def
  proof (intro allI impI)
    fix e r' assume r': "ed_events d3 e = Some r'"
    then have e: "e \<noteq> p" "e \<noteq> holder" using d3(3,4) by auto
    have "kept (eqEvents q1) (ed_events d3)"
      using kept_trans [OF q3(2)] d3(5) by (simp add: d2_def ed_events_def)
    then obtain r where "eqEvents q1 e = Some r" "same_event r r'" using r' by (auto simp: kept_def)
    then show "\<exists>r. ed_events d e = Some r \<and> same_event r r'" using h1 e by auto
  qed
  moreover have "ed_call False p holder call d = Inr (None, d1)" using s by (simp add: ed_call_def d1_def)
  moreover have "ed_agent_return p holder d1 = Inr (None, d1)"
    by (simp add: ed_agent_return_def ed_sendEventSync_end_def d1_def)
  ultimately show ?thesis using w h d3(1,3,4) by blast
qed

section \<open>Clients of a dispatcher\<close>

datatype ed_op = AddListener nat int | RemoveListener nat int | SendEvent nat

fun ed_step :: "ed_op \<Rightarrow> dispatcher \<Rightarrow> dispatcher outcome" where
  "ed_step (AddListener l event_id) d = andThen (edh_addEventListener d (Some l) event_id) (\<lambda>(_, d). Inr d)"
| "ed_step (RemoveListener l event_id) d = andThen (edh_removeEventListener d (Some l) event_id) (\<lambda>(_, d). Inr d)"
| "ed_step (SendEvent e) d = ed_sendEvent d e"

fun ed_run :: "ed_op list \<Rightarrow> dispatcher \<Rightarrow> dispatcher outcome" where
  "ed_run [] d = Inr d"
| "ed_run (op # ops) d = andThen (ed_step op d) (ed_run ops)"

text \<open>The contract: a table of listeners and the two queues of \<open>EventQueue\<close>.\<close>

fun ed_spec :: "eheap \<Rightarrow> ed_op \<Rightarrow> (int \<times> nat option) list \<times> (nat list \<times> nat list) \<Rightarrow>
  (int \<times> nat option) list \<times> (nat list \<times> nat list)" where
  "ed_spec h (AddListener l event_id) (ts, HN) = (ts @ [(event_id, Some l)], HN)"
| "ed_spec h (RemoveListener l event_id) (ts, HN) = (tbl_remove (Some l) event_id ts, HN)"
| "ed_spec h (SendEvent e) (ts, HN) = (ts, snd (pq_spec h (Send e) HN))"

definition ed_op_ok :: "eheap \<Rightarrow> ed_op \<Rightarrow> bool" where
  "ed_op_ok h op \<longleftrightarrow> (case op of SendEvent e \<Rightarrow> h e \<noteq> None \<and> plain (the (h e)) | _ \<Rightarrow> True)"

definition ed_inv :: "eheap \<Rightarrow> dispatcher \<Rightarrow> (int \<times> nat option) list \<times> (nat list \<times> nat list) \<Rightarrow> (nat \<Rightarrow> int) \<Rightarrow> bool" where
  "ed_inv h d s ext \<longleftrightarrow>
     ed_table d (fst s) \<and> pq_inv h (edQueue d) (snd s) ext \<and> edCalls d = [] \<and>
     (\<forall>e \<in> set (fst (snd s)) \<union> set (snd (snd s)). h e \<noteq> None \<and> plain (the (h e)))"

lemma ed_step_inv:
  assumes inv: "ed_inv h d s ext" and h: "client_events h" and ok: "ed_op_ok h op"
  shows "\<exists>d'. ed_step op d = Inr d' \<and> ed_inv h d' (ed_spec h op s) ext"
proof -
  obtain ts H N where s: "s = (ts, (H, N))" by (metis surj_pair)
  have t: "ed_table d ts" and q: "pq_inv h (edQueue d) (H, N) ext" and c: "edCalls d = []"
    and pl: "\<forall>e \<in> set H \<union> set N. h e \<noteq> None \<and> plain (the (h e))"
    using inv s by (simp_all add: ed_inv_def)
  show ?thesis
  proof (cases op)
    case (AddListener l event_id)
    then show ?thesis using edh_addEventListener_table [OF t, of "Some l" event_id] q c pl s
      by (auto simp: ed_inv_def)
  next
    case (RemoveListener l event_id)
    obtain w ns where "jl_seq (edEventList d) w ns" "ed_nodes d ns" "ts = tbl (edNodes d) ns"
      using t by (auto simp: ed_table_def jl_holds_def)
    then obtain nodes where "edh_removeEventListener d (Some l) event_id =
        Inr (if (event_id, Some l) \<in> set ts then 0 else -1, d\<lparr>edNodes := nodes\<rparr>)"
      "ed_table (d\<lparr>edNodes := nodes\<rparr>) (tbl_remove (Some l) event_id ts)"
      using edh_removeEventListener_nodes [of d w ns "Some l" event_id] by (fastforce simp: ed_table_def jl_holds_def)
    then show ?thesis using RemoveListener q c pl s by (auto simp: ed_inv_def)
  next
    case (SendEvent e)
    have "eq_op_ok h (Send e)" using ok SendEvent by (simp add: eq_op_ok_def ed_op_ok_def)
    then obtain q' where q': "eq_SendEvent (edQueue d) e = Inr q'" "pq_inv h q' (snd (pq_spec h (Send e) (H, N))) ext"
      using pq_step [OF q h, of "Send e"] by (auto simp: andThen_Inr_iff polled_def)
    moreover have "ed_table (d\<lparr>edQueue := q', edWakes := Suc (edWakes d)\<rparr>) ts"
      using t by (simp add: ed_table_def ed_nodes_def)
    ultimately show ?thesis using SendEvent c pl s ok
      by (auto simp: ed_inv_def ed_sendEvent_def ed_op_ok_def)
  qed
qed

lemma ed_run_inv:
  assumes "ed_inv h d s ext" and h: "client_events h" and "\<forall>op \<in> set ops. ed_op_ok h op"
  shows "\<exists>d'. ed_run ops d = Inr d' \<and> ed_inv h d' (foldl (\<lambda>s op. ed_spec h op s) s ops) ext"
  using assms(1,3)
proof (induction ops arbitrary: d s)
  case (Cons op ops)
  obtain d1 where "ed_step op d = Inr d1" "ed_inv h d1 (ed_spec h op s) ext"
    using ed_step_inv [OF Cons.prems(1) h] Cons.prems(2) by auto
  then show ?case using Cons.IH [of d1 "ed_spec h op s"] Cons.prems(2) by simp
qed simp

lemma ed_inv_new:
  assumes "client_events h"
  shows "\<exists>d. EventDispatcher_new self h m = Inr d \<and>
    ed_inv h d ([], ([], [])) (\<lambda>e. case h e of None \<Rightarrow> 0 | Some r \<Rightarrow> mRefCount r)"
proof -
  obtain l :: "addr jlist" where l: "jl_list = Inr l" "jl_holds l []" using jl_list_holds by blast
  obtain q where q: "EventQueue_new h = Inr q"
    "pq_inv h q ([], []) (\<lambda>e. case h e of None \<Rightarrow> 0 | Some r \<Rightarrow> mRefCount r)"
    using pq_inv_new [OF assms] by blast
  show ?thesis unfolding EventDispatcher_new_def q(1) l(1)
    using q(2) l(2) by (auto simp: ed_inv_def ed_table_def ed_nodes_def tbl_def)
qed

text \<open>
  C8: the dispatcher end to end. Whatever listeners a client adds and removes and whatever events it
  sends, the dispatcher's thread then handles every event, the urgent ones first and each kind in
  order of sending, and goes back to sleep. Each event is handed to the listeners registered for its
  id or for all ids, in order of registration, where a listener removed by another one during the
  same pass is no longer called; dead nodes are freed, and every event has its old reference count.
\<close>

theorem et_dispatch_order:
  assumes h: "client_events h" and ops: "\<forall>op \<in> set ops. ed_op_ok h op"
    and table: "foldl (\<lambda>s op. ed_spec h op s) ([], ([], [])) ops = (ts, (H, N))"
    and drain: "drain script (\<lambda>e. mEventId (the (h e))) (H @ N) ts = (calls, ts')"
  shows "\<exists>d d1 d2. EventDispatcher_new self h m = Inr d \<and> ed_run ops d = Inr d1 \<and>
    et_threadMain (scripted script) (Suc (length ts)) (Suc (length (H @ N))) d1 = Inr (False, d2) \<and>
    edCalls d2 = calls \<and> ed_table d2 ts' \<and> jl_holds (mQueue (edQueue d2)) [] \<and>
    (\<forall>e r. h e = Some r \<longrightarrow> map_option mRefCount (ed_events d2 e) = Some (mRefCount r))"
proof -
  let ?ext = "\<lambda>e. case h e of None \<Rightarrow> 0 | Some r \<Rightarrow> mRefCount r"
  obtain d where d: "EventDispatcher_new self h m = Inr d" "ed_inv h d ([], ([], [])) ?ext"
    using ed_inv_new [OF h] by blast
  obtain d1 where d1: "ed_run ops d = Inr d1" "ed_inv h d1 (ts, (H, N)) ?ext"
    using ed_run_inv [OF d(2) h ops] table by auto
  have rep: "ed_rep d1 (H @ N) ?ext ts" and same: "same_heap h (ed_events d1)" and c: "edCalls d1 = []"
    and pl: "\<forall>e \<in> set (H @ N). h e \<noteq> None \<and> plain (the (h e))"
    using d1(2) by (simp_all add: ed_inv_def pq_inv_def ed_rep_def ed_events_def)
  have ev: "plain (the (ed_events d1 e)) \<and> mEventId (the (h e)) = mEventId (the (ed_events d1 e))"
    if e: "e \<in> set (H @ N)" for e
  proof -
    obtain r where r: "h e = Some r" using pl e by blast
    obtain r' where "ed_events d1 e = Some r'" "same_event r r'" using same_heap_Some [OF same r] by blast
    then show ?thesis using pl e r same_event_fields by (fastforce simp: plain_def)
  qed
  have "\<exists>d2. et_threadMain (scripted script) (Suc (length ts)) (Suc (length (H @ N))) d1 = Inr (False, d2) \<and>
      ed_rep d2 [] ?ext ts' \<and> edCalls d2 = edCalls d1 @ calls"
    by (rule et_threadMain_drain [OF rep _ _ drain]) (use ev in auto)
  then obtain d2 where d2: "et_threadMain (scripted script) (Suc (length ts)) (Suc (length (H @ N))) d1 = Inr (False, d2)"
    "ed_rep d2 [] ?ext ts'" "edCalls d2 = calls"
    using c by auto
  have "map_option mRefCount (ed_events d2 e) = Some (mRefCount r)" if "h e = Some r" for e r
  proof -
    have "0 < mRefCount r" using h that by (auto simp: client_events_def)
    moreover have b: "balanced (ed_events d2) [] ?ext" using d2(2) by (simp add: ed_rep_def eq_rep_def ed_events_def)
    ultimately show ?thesis using that b [unfolded balanced_def, rule_format, of e]
      by (cases "ed_events d2 e") auto
  qed
  moreover have "ed_table d2 ts'" "jl_holds (mQueue (edQueue d2)) []"
    using d2(2) by (simp_all add: ed_rep_def eq_rep_def)
  ultimately show ?thesis using d(1) d1(1) d2(1,3) by blast
qed

text \<open>A removal of every event frees a holder that another thread still keeps on its stack.\<close>

lemma eq_flush_holder:
  assumes "eq_rep q es ext" "length es < fuel" "e \<in> set es" "count_list es e = 1" "ext e = 0"
    and "\<And>i r. i \<in> set es \<Longrightarrow> i \<noteq> e \<Longrightarrow> eqEvents q i = Some r \<Longrightarrow> \<not> evStack r"
    and "\<And>r. eqEvents q e = Some r \<Longrightarrow> evStack r"
  shows "eq_flush_loop fuel q = Inl UndefinedBehaviour"
  using assms
proof (induction fuel arbitrary: q es)
  case (Suc fuel)
  obtain x xs where es: "es = x # xs" using Suc.prems(3) by (cases es) auto
  have l: "jl_holds (mQueue q) (x # xs)" and b: "balanced (eqEvents q) (x # xs) ext"
    using Suc.prems(1) es by (auto simp: eq_rep_def)
  obtain l' where l': "jl_pop_front (mQueue q) = Inr l'" "jl_holds l' xs"
    using jl_pop_front_holds [OF l] by auto
  show ?case
  proof (cases "x = e")
    case True
    obtain r where r: "eqEvents q e = Some r" "mRefCount r = 1"
      using b True Suc.prems(4,5) es by (auto simp: balanced_def split: option.splits dest: spec [of _ e])
    then have "ev_Release (eqEvents q) e = Inl UndefinedBehaviour"
      using Suc.prems(7) by (simp add: ev_Release_def ev_get_def ev_onRefCountZero_def Let_def)
    then show ?thesis using jl_empty_holds [OF l] jl_front_holds [OF l] l'(1) True by simp
  next
    case False
    obtain h' where h': "ev_Release (eqEvents q) x = Inr h'" "balanced h' xs ext" "kept (eqEvents q) h'"
      using ev_Release_balanced [OF b] Suc.prems(6) [of x] False es by auto
    let ?q = "q\<lparr>mQueue := l', eqEvents := h'\<rparr>"
    have "eq_flush_loop fuel ?q = Inl UndefinedBehaviour"
    proof (rule Suc.IH [of ?q xs])
      show "eq_rep ?q xs ext" using l'(2) h'(2) by (simp add: eq_rep_def)
      show "length xs < fuel" "e \<in> set xs" "count_list xs e = 1" "ext e = 0"
        using Suc.prems(2-5) es False by auto
      show "\<not> evStack r" if ir: "i \<in> set xs" "i \<noteq> e" "eqEvents ?q i = Some r" for i r
      proof -
        obtain r2 where "eqEvents q i = Some r2" "same_event r2 r" using keptD [OF h'(3)] ir(3) by auto
        then show ?thesis using Suc.prems(6) [of i r2] ir(1,2) es same_event_fields(4) by auto
      qed
      show "evStack r" if er: "eqEvents ?q e = Some r" for r
      proof -
        obtain r2 where "eqEvents q e = Some r2" "same_event r2 r" using keptD [OF h'(3)] er by auto
        then show ?thesis using Suc.prems(7) [of r2] same_event_fields(4) by auto
      qed
    qed
    then show ?thesis using jl_empty_holds [OF l] jl_front_holds [OF l] l'(1) h'(1) by simp
  qed
qed simp

lemma et_dispatch_order_witness:
  "\<exists>d d1 d2. EventDispatcher_new 1 two_events \<lparr>tmHeap = Map.empty, tmNext = 0, mDefaultTimer = 0, mTimers = []\<rparr> = Inr d \<and>
    ed_run [AddListener 100 7, AddListener 200 (-1), AddListener 300 7, SendEvent 10, SendEvent 20, SendEvent 10] d = Inr d1 \<and>
    et_threadMain (scripted (\<lambda>l e. if l = 200 \<and> e = 10 then [(300, 7)] else [])) (Suc 3) (Suc 3) d1 = Inr (False, d2) \<and>
    edCalls d2 = [(200, 20), (100, 10), (200, 10), (100, 10), (200, 10)]"
proof -
  let ?ops = "[AddListener 100 7, AddListener 200 (-1), AddListener 300 7, SendEvent 10, SendEvent 20, SendEvent 10]"
  let ?script = "\<lambda>l e :: nat. if l = (200 :: nat) \<and> e = 10 then [(300 :: nat, 7 :: int)] else []"
  have h: "client_events two_events" by (auto simp: client_events_def two_events_def Event_new_def split: if_splits)
  have ok: "\<forall>op \<in> set ?ops. ed_op_ok two_events op"
    by (simp add: ed_op_ok_def two_events_def Event_new_def plain_def kShutdownEventId_def kSyncEventId_def kAgentEventId_def)
  have t: "foldl (\<lambda>s op. ed_spec two_events op s) ([], ([], [])) ?ops =
      ([(7, Some 100), (-1, Some 200), (7, Some 300)], ([20], [10, 10]))"
    by (simp add: two_events_def Event_new_def PRIORITY_NORMAL_def PRIORITY_HIGH_def)
  have dr: "drain ?script (\<lambda>e. mEventId (the (two_events e))) ([20] @ [10, 10])
      [(7, Some 100), (-1, Some 200), (7, Some 300)] =
      ([(200, 20), (100, 10), (200, 10), (100, 10), (200, 10)], [(7, Some 100), (-1, Some 200)])"
    by (simp add: two_events_def Event_new_def lk_pass.simps wants_def kInvalidEventId_def)
  from et_dispatch_order [OF h ok t dr, of 1 "\<lparr>tmHeap = Map.empty, tmNext = 0, mDefaultTimer = 0, mTimers = []\<rparr>"]
  show ?thesis by (simp only: list.size append.simps One_nat_def add_Suc add_0 numeral_3_eq_3) blast
qed

text \<open>A concrete dispatcher for the witnesses: a normal event 10 is queued, of which the client holds a reference.\<close>

lemma one_event_dispatcher:
  obtains d ext where "ed_rep d [10] ext []" "mTimers (edTimers d) = []"
    "ed_events d = [10 \<mapsto> (Event_new 7 PRIORITY_NORMAL)\<lparr>mRefCount := 2\<rparr>]"
proof -
  define h :: eheap where "h = [10 \<mapsto> (Event_new 7 PRIORITY_NORMAL)\<lparr>mRefCount := 1\<rparr>]"
  let ?m = "\<lparr>tmHeap = Map.empty, tmNext = 0, mDefaultTimer = 0, mTimers = []\<rparr>"
  have c: "client_events h" by (auto simp: client_events_def h_def Event_new_def split: if_splits)
  obtain q ext where q: "EventQueue_new h = Inr q" "pq_inv h q ([], []) ext" using pq_inv_new [OF c] by blast
  obtain l :: "addr jlist" where l: "jl_list = Inr l" "jl_holds l []" using jl_list_holds by blast
  obtain d where d: "EventDispatcher_new 1 h ?m = Inr d" "edQueue d = q" "edTimers d = ?m" "ed_table d []"
    unfolding EventDispatcher_new_def q(1) l(1) using l(2) by (auto simp: ed_table_def ed_nodes_def tbl_def)
  have e: "eqEvents q = h" using q(1) unfolding EventQueue_new_def l(1) by (auto simp: andThen_Inr_iff)
  have r: "eqEvents q 10 = Some ((Event_new 7 PRIORITY_NORMAL)\<lparr>mRefCount := 1\<rparr>)" by (simp add: e h_def)
  have rep: "eq_rep q [] ext" using q(2) by (simp add: pq_inv_def)
  obtain q' where q': "eq_rep q' [10] ext" "eqEvents q' = [10 \<mapsto> (Event_new 7 PRIORITY_NORMAL)\<lparr>mRefCount := 2\<rparr>]"
    using eq_SendEvent_rep [OF rep r] by (auto simp: Event_new_def e h_def)
  show thesis
    by (rule that [of "d\<lparr>edQueue := q'\<rparr>" ext])
      (use q' d in \<open>simp_all add: ed_rep_def ed_events_def\<close>)
qed

lemma ed_remote_call_witness:
  "\<exists>d d1 q d2 d3. ed_call False 50 60 (CallRemoveId 7) d = Inr (None, d1) \<and>
    et_wait d1 = Inr (Some (Some 60, d1\<lparr>edQueue := q\<rparr>)) \<and>
    ed_handleEvent (scripted (\<lambda>l e. [])) 1 (d1\<lparr>edQueue := q\<rparr>) (Some 60) = Inr (False, d2) \<and>
    ed_agent_return 50 60 d2 = Inr (Some 0, d3) \<and> jl_holds (mQueue (edQueue d)) [10] \<and>
    jl_holds (mQueue (edQueue d3)) []"
proof -
  obtain d ext where d: "ed_rep d [10] ext []" "mTimers (edTimers d) = []"
    "ed_events d = [10 \<mapsto> (Event_new 7 PRIORITY_NORMAL)\<lparr>mRefCount := 2\<rparr>]"
    by (rule one_event_dispatcher)
  have a: "\<forall>k. CallRemoveId 7 \<noteq> CallClient k" "ed_events d 50 = None" "ed_events d 60 = None" "(50 :: nat) \<noteq> 60"
    "\<forall>i \<in> set [10]. \<not> evStack (the (ed_events d i)) \<and> mPriority (the (ed_events d i)) = PRIORITY_NORMAL"
    by (simp_all add: d(3) Event_new_def)
  have k: "call_keeps (CallRemoveId 7) (ed_events d) [10] = []"
    by (simp add: call_keeps_def d(3) Event_new_def)
  from ed_remote_call [OF d(1,2) a, of "scripted (\<lambda>l e. [])" 1, unfolded k] d(1)
  show ?thesis unfolding ed_rep_def eq_rep_def by blast
qed

lemma insert_before_first_count: "count_list (insert_before_first P v xs) x = count_list (v # xs) x"
proof -
  have "count_list xs x = count_list (takeWhile (Not \<circ> P) xs) x + count_list (dropWhile (Not \<circ> P) xs) x"
    by (metis count_list_append takeWhile_dropWhile_id)
  then show ?thesis by (simp add: insert_before_first_def)
qed

text \<open>
  C10: while a caller of \<open>sendEventSync\<close> waits, its holder lies in the queue with no reference but the
  queue's. \<open>removeAll\<close>, and so the handling of a shutdown event that was sent earlier, then deletes an
  object on the caller's stack: undefined behaviour.
\<close>

theorem ed_holder_deleted:
  assumes rep: "ed_rep d es ext ts" and tm: "mTimers (edTimers d) = []"
    and ev: "ed_events d ev = Some r" and new: "ed_events d holder = None"
    and es: "\<forall>i \<in> set es. \<not> evStack (the (ed_events d i))"
    and shutdown: "ed_events d sd = Some rs" "mEventId rs = kShutdownEventId"
  shows "\<exists>d1. ed_sendEventSync_begin False holder d ev = Inr d1 \<and>
    ed_call_now CallRemoveAll d1 = Inl UndefinedBehaviour \<and>
    ed_handleEvent c fuel d1 (Some sd) = Inl UndefinedBehaviour"
proof -
  let ?r = "r\<lparr>mRefCount := mRefCount r + 1\<rparr>"
  define hold where "hold = (Event_new kSyncEventId (mPriority r))\<lparr>evStack := True\<rparr>"
  let ?h = "(ed_events d)(ev \<mapsto> ?r, holder \<mapsto> hold)"
  let ?q = "(edQueue d)\<lparr>eqEvents := ?h\<rparr>"
  have q: "eq_rep (edQueue d) es ext" using rep by (simp add: ed_rep_def)
  have l: "jl_holds (mQueue (edQueue d)) es" and b: "balanced (ed_events d) es ext"
    using q by (simp_all add: eq_rep_def ed_events_def)
  have out: "holder \<notin> set es" "ext holder = 0" using eq_rep_absent [OF q] new by (auto simp: ed_events_def)
  have ne: "ev \<noteq> holder" "sd \<noteq> holder" using ev new shutdown(1) by auto
  define ext' where "ext' = ext(ev := ext ev + 1)"
  have "balanced ((ed_events d)(ev \<mapsto> ?r)) (ev # es) ext"
    by (rule balanced_send [OF b ev]) simp
  then have "balanced ((ed_events d)(ev \<mapsto> ?r)) es ext'" by (simp add: balanced_borrow ext'_def)
  then have "balanced ?h es (ext'(holder := mRefCount hold))"
    by (rule balanced_new) (use new ne in \<open>auto simp: hold_def Event_new_def\<close>)
  then have rep': "eq_rep ?q es ext'" using l out(2) ne
    by (simp add: eq_rep_def hold_def Event_new_def ext'_def fun_upd_idem)
  let ?ys = "if mPriority hold = PRIORITY_NORMAL then es @ [holder]
       else insert_before_first (\<lambda>i. mPriority hold > prio ?q i) holder es"
  have "eqEvents ?q holder = Some hold" by simp
  from eq_SendEvent_rep [OF rep' this] obtain q' where q': "eq_SendEvent ?q holder = Inr q'" "eq_rep q' ?ys ext'"
    "eqEvents q' = ?h(holder \<mapsto> hold\<lparr>mRefCount := mRefCount hold + 1\<rparr>)"
    by auto
  have c1: "count_list ?ys x = count_list (holder # es) x" for x by (simp add: insert_before_first_count)
  then have s1: "set ?ys = insert holder (set es)" using count_list_set [of ?ys "holder # es"] by simp
  have b': "balanced (eqEvents q') ?ys ext'" and l': "jl_holds (mQueue q') ?ys"
    using q'(2) by (simp_all add: eq_rep_def)
  define d1 where "d1 = d\<lparr>edHolders := (edHolders d)(holder \<mapsto> (ev, False)), edQueue := q', edWakes := Suc (edWakes d)\<rparr>"
  have start: "ed_sendEventSync_begin False holder d ev = Inr d1"
    using ev new ne q'(1)
    by (simp add: ed_sendEventSync_begin_def ed_new_def ev_get_def ev_AddRef_def Let_def ed_sendEvent_def
        ed_set_events_def ed_events_def d1_def hold_def)
  have "eq_flush_loop (jl_fresh (mQueue q')) q' = Inl UndefinedBehaviour"
  proof (rule eq_flush_holder [OF q'(2)])
    show "length ?ys < jl_fresh (mQueue q')" using jl_fuel [OF l'] by simp
    show "holder \<in> set ?ys" using s1 by simp
    show "count_list ?ys holder = 1" using c1 [of holder] out(1) by (simp add: count_list_0_iff)
    show "ext' holder = 0" using out(2) ne by (simp add: ext'_def)
    show "evStack r'" if "eqEvents q' holder = Some r'" for r'
      using that q'(3) by (auto simp: hold_def)
    show "\<not> evStack r'" if i: "i \<in> set ?ys" "i \<noteq> holder" "eqEvents q' i = Some r'" for i r'
      using i es s1 q'(3) ev by (auto split: if_splits)
  qed
  then have all: "ed_call_now CallRemoveAll d1 = Inl UndefinedBehaviour"
    using tm by (simp add: ed_call_now_def ed_remove_now_def ed_no_timers eq_Flush_def d1_def)
  have "\<exists>rs'. ed_events d1 sd = Some rs' \<and> mEventId rs' = kShutdownEventId"
    using shutdown ne q'(3) ev by (auto simp: d1_def ed_events_def)
  then have "ed_handleEvent c fuel d1 (Some sd) = Inl UndefinedBehaviour"
    using all by (auto simp: ed_handleEvent_def ev_get_def)
  then show ?thesis using start all by blast
qed

lemma ed_holder_deleted_witness:
  "\<exists>d d1. ed_sendEventSync_begin False 60 d 10 = Inr d1 \<and> jl_holds (mQueue (edQueue d)) [] \<and>
    ed_handleEvent (scripted (\<lambda>l e. [])) 1 d1 (Some 20) = Inl UndefinedBehaviour"
proof -
  define h :: eheap where "h = [10 \<mapsto> (Event_new 7 PRIORITY_NORMAL)\<lparr>mRefCount := 1\<rparr>,
    20 \<mapsto> (Event_new kShutdownEventId PRIORITY_HIGH)\<lparr>mRefCount := 1\<rparr>]"
  let ?m = "\<lparr>tmHeap = Map.empty, tmNext = 0, mDefaultTimer = 0, mTimers = []\<rparr>"
  have c: "client_events h" by (auto simp: client_events_def h_def Event_new_def split: if_splits)
  obtain q ext where q: "EventQueue_new h = Inr q" "eq_rep q [] ext"
    using pq_inv_new [OF c] by (auto simp: pq_inv_def)
  obtain l :: "addr jlist" where l: "jl_list = Inr l" "jl_holds l []" using jl_list_holds by blast
  have e: "eqEvents q = h" using q(1) unfolding EventQueue_new_def l(1) by (auto simp: andThen_Inr_iff)
  obtain d where d: "EventDispatcher_new 1 h ?m = Inr d" "edQueue d = q" "edTimers d = ?m" "ed_table d []"
    unfolding EventDispatcher_new_def q(1) l(1) using l(2) by (auto simp: ed_table_def ed_nodes_def tbl_def)
  have a: "ed_rep d [] ext []" "mTimers (edTimers d) = []"
    "ed_events d 10 = Some ((Event_new 7 PRIORITY_NORMAL)\<lparr>mRefCount := 1\<rparr>)" "ed_events d 60 = None"
    "\<forall>i \<in> set []. \<not> evStack (the (ed_events d i))"
    "ed_events d 20 = Some ((Event_new kShutdownEventId PRIORITY_HIGH)\<lparr>mRefCount := 1\<rparr>)"
    "mEventId ((Event_new kShutdownEventId PRIORITY_HIGH)\<lparr>mRefCount := 1\<rparr>) = kShutdownEventId"
    using d q(2) by (simp_all add: ed_rep_def ed_events_def e h_def Event_new_def)
  from ed_holder_deleted [OF a, of "scripted (\<lambda>l e. [])" 1] a(1) show ?thesis
    unfolding ed_rep_def eq_rep_def by blast
qed

end
