(* ===== verification/Selector.thy ===== *)
theory Selector
  imports EventDispatcher
begin

unbundle bit_operations_syntax

text \<open>
  The selector (src/Selector.cpp, include/Selector.h): an event dispatcher whose thread sleeps in
  \<open>poll\<close>. Listeners for file events are nodes on a linked list; an event that is sent to the selector
  is announced by four bytes in a pipe, and the thread handles one event for each announcement that
  it reads. What \<open>poll\<close> reports and what the listeners' \<open>processFileEvents\<close> does are arguments.
\<close>

section \<open>State\<close>

type_synonym short = "16 word"

definition POLLIN :: short where "POLLIN = 0x001"
definition POLLHUP :: u32 where "POLLHUP = 0x010"
definition POLLNVAL :: u32 where "POLLNVAL = 0x020"

record selector_node =
  mFd :: int
  mEvents :: short
  snListener :: "nat option"
  mPrivateData :: int

text \<open>
  \<open>slRead\<close> counts the announcements read from the pipe; \<open>edWakes\<close> of the dispatcher counts the calls of
  \<open>wakeThread\<close> that the sends so far ask for. Which of them have been written is told by the world below.
\<close>

record selector =
  slDispatcher :: dispatcher
  slList :: "addr jlist"
  slNodes :: "addr \<Rightarrow> selector_node option"
  slNextNode :: addr
  slPipeReader :: int
  slRead :: nat
  slShutdown :: bool
  slRunning :: bool
  slUpdateFds :: bool
  slCalls :: "(nat \<times> int \<times> u32 \<times> int) list"

text \<open>\<open>processFileEvents\<close> of a listener: the file, the events and the private data.\<close>

record selector_client =
  onFileEvents :: "nat \<Rightarrow> int \<Rightarrow> u32 \<Rightarrow> int \<Rightarrow> selector \<Rightarrow> selector outcome"
  onEvents :: client

definition kMaxPollFds :: nat where "kMaxPollFds = 64"

definition Selector_new :: "nat \<Rightarrow> eheap \<Rightarrow> timer_manager \<Rightarrow> int \<Rightarrow> selector outcome" where
  "Selector_new self h m reader =
     andThen (EventDispatcher_new self h m) (\<lambda>d. andThen jl_list (\<lambda>l.
     Inr \<lparr>slDispatcher = d, slList = l, slNodes = Map.empty, slNextNode = 0, slPipeReader = reader,
          slRead = 0, slShutdown = False, slRunning = True, slUpdateFds = False, slCalls = []\<rparr>))"

section \<open>Listeners for files\<close>

definition sl_node :: "selector \<Rightarrow> addr \<Rightarrow> selector_node outcome" where
  "sl_node s n = (case slNodes s n of None \<Rightarrow> Inl UndefinedBehaviour | Some r \<Rightarrow> Inr r)"

text \<open>\<open>ListenerNode::operator==\<close>: equal files, and a null listener on either side equals any.\<close>

definition node_equal :: "selector_node \<Rightarrow> int \<Rightarrow> nat option \<Rightarrow> bool" where
  "node_equal n fd listener \<longleftrightarrow>
     mFd n = fd \<and> (snListener n = None \<or> listener = None \<or> snListener n = listener)"

text \<open>
  On the selector's own thread only the flag is set; on another one, while the selector runs, an
  update event (at the address \<open>p\<close> that \<open>new\<close> gives) is sent and the caller waits for the thread.
\<close>

definition sl_updateListeners :: "bool \<Rightarrow> nat \<Rightarrow> selector \<Rightarrow> selector outcome" where
  "sl_updateListeners current p s =
     (if current then Inr (s\<lparr>slUpdateFds := True\<rparr>)
      else if slRunning s
      then andThen (ed_new p (Event_new kSelectorUpdateEventId PRIORITY_NORMAL) (slDispatcher s)) (\<lambda>d.
           andThen (ed_sendEvent d p) (\<lambda>d. Inr (s\<lparr>slDispatcher := d\<rparr>)))
      else Inr s)"

definition sl_addListener :: "bool \<Rightarrow> nat \<Rightarrow> selector \<Rightarrow> int \<Rightarrow> short \<Rightarrow> nat option \<Rightarrow> int \<Rightarrow> selector outcome" where
  "sl_addListener current p s fd events listener private_data =
     (let node = slNextNode s;
          s = s\<lparr>slNextNode := Suc node, slNodes := (slNodes s)(node \<mapsto>
            \<lparr>mFd = fd, mEvents = events, snListener = listener, mPrivateData = private_data\<rparr>)\<rparr> in
      andThen (jl_push_back (slList s) node) (\<lambda>l. sl_updateListeners current p (s\<lparr>slList := l\<rparr>)))"

text \<open>The node compared with has a null listener: the argument \<open>listener\<close> is not used.\<close>

definition sl_remove_visit ::
  "int \<Rightarrow> bool \<times> (addr \<Rightarrow> selector_node option) \<Rightarrow> addr \<Rightarrow> (bool \<times> (bool \<times> (addr \<Rightarrow> selector_node option))) outcome" where
  "sl_remove_visit fd s i =
     (case snd s i of
        None \<Rightarrow> Inl UndefinedBehaviour
      | Some n \<Rightarrow> if node_equal n fd None then Inr (True, (True, (snd s)(i := None))) else Inr (False, s))"

definition sl_removeListener :: "bool \<Rightarrow> nat \<Rightarrow> selector \<Rightarrow> int \<Rightarrow> nat option \<Rightarrow> selector outcome" where
  "sl_removeListener current p s fd listener =
     andThen (andThen (jl_begin (slList s))
         (while_erase_if jl_end it_deref it_incr it_erase (sl_remove_visit fd)
            (jl_fresh (slList s)) (False, slNodes s) (slList s)))
       (\<lambda>((update, nodes), l).
        let s = s\<lparr>slList := l, slNodes := nodes\<rparr> in
        if update then sl_updateListeners current p s else Inr s)"

definition sl_findListener :: "selector \<Rightarrow> int \<Rightarrow> nat option \<Rightarrow> addr option outcome" where
  "sl_findListener s fd listener =
     andThen (jl_begin (slList s))
       (for_find jl_end it_deref it_incr
          (\<lambda>i. andThen (sl_node s i) (\<lambda>n. Inr (node_equal n fd listener)))
          (jl_fresh (slList s)) (slList s))"

section \<open>The table for poll\<close>

text \<open>
  \<open>fds\<close> as the list of its filled entries, the first one for the pipe. The inner loop starts behind
  it; a file found there has its events reduced to those of both.
\<close>

fun fds_merge :: "int \<Rightarrow> short \<Rightarrow> (int \<times> short) list \<Rightarrow> (int \<times> short) list option" where
  "fds_merge fd events [] = None"
| "fds_merge fd events ((fd', events') # fds) =
     (if fd' = fd then Some ((fd', events' AND events) # fds)
      else map_option (Cons (fd', events')) (fds_merge fd events fds))"

fun sl_fill_loop :: "nat \<Rightarrow> selector \<Rightarrow> (int \<times> short) list \<Rightarrow> addr option \<Rightarrow> (int \<times> short) list outcome" where
  "sl_fill_loop 0 s fds i = Inl NoReturn"
| "sl_fill_loop (Suc fuel) s fds i =
     andThen (jl_end (slList s)) (\<lambda>e. if i = e then Inr fds else
     andThen (it_deref (slList s) i) (\<lambda>listener.
     andThen (sl_node s listener) (\<lambda>n.
     case fds_merge (mFd n) (mEvents n) (tl fds) of
       Some fds' \<Rightarrow> andThen (it_incr (slList s) i) (sl_fill_loop fuel s (hd fds # fds'))
     | None \<Rightarrow>
         let fds = fds @ [(mFd n, mEvents n)] in
         if length fds = kMaxPollFds then Inr fds
         else andThen (it_incr (slList s) i) (sl_fill_loop fuel s fds))))"

definition sl_fillPollFds :: "selector \<Rightarrow> (int \<times> short) list outcome" where
  "sl_fillPollFds s =
     andThen (jl_begin (slList s)) (sl_fill_loop (jl_fresh (slList s)) s [(slPipeReader s, POLLIN)])"

section \<open>Calling the listeners\<close>

text \<open>
  A hang-up or an invalid file takes the node out before its listener is called; otherwise the
  iterator has gone on to the next node before the call.
\<close>

fun sl_call_loop ::
  "selector_client \<Rightarrow> int \<Rightarrow> u32 \<Rightarrow> nat \<Rightarrow> selector \<Rightarrow> bool \<Rightarrow> addr option \<Rightarrow> (bool \<times> selector) outcome" where
  "sl_call_loop c fd events 0 s res i = Inl NoReturn"
| "sl_call_loop c fd events (Suc fuel) s res i =
     andThen (jl_end (slList s)) (\<lambda>e. if i = e then Inr (res, s) else
     andThen (it_deref (slList s) i) (\<lambda>listener.
     andThen (sl_node s listener) (\<lambda>n.
     if node_equal n fd None
     then
       andThen
         (if events AND (POLLHUP OR POLLNVAL) \<noteq> 0
          then andThen (it_erase (slList s) i) (\<lambda>(l, i).
               Inr (s\<lparr>slNodes := (slNodes s)(listener := None), slList := l\<rparr>, True, i))
          else andThen (it_incr (slList s) i) (\<lambda>i. Inr (s, res, i))) (\<lambda>(s, res, i).
       case snListener n of
         None \<Rightarrow> sl_call_loop c fd events fuel s res i
       | Some interface \<Rightarrow>
           andThen (onFileEvents c interface fd events (mPrivateData n)
               (s\<lparr>slCalls := slCalls s @ [(interface, fd, events, mPrivateData n)]\<rparr>)) (\<lambda>s.
           sl_call_loop c fd events fuel s res i))
     else andThen (it_incr (slList s) i) (sl_call_loop c fd events fuel s res))))"

definition sl_callListeners :: "selector_client \<Rightarrow> nat \<Rightarrow> selector \<Rightarrow> int \<Rightarrow> u32 \<Rightarrow> (bool \<times> selector) outcome" where
  "sl_callListeners c fuel s fd events =
     andThen (jl_begin (slList s)) (sl_call_loop c fd events fuel s False)"

section \<open>The thread\<close>

text \<open>The walk over the table after \<open>poll\<close> has set \<open>revents\<close>; the value tells whether the pipe was read.\<close>

fun sl_poll_results ::
  "selector_client \<Rightarrow> nat \<Rightarrow> (int \<times> short) list \<Rightarrow> bool \<Rightarrow> selector \<Rightarrow> (bool \<times> selector) outcome" where
  "sl_poll_results c fuel [] gotEvent s = Inr (gotEvent, s)"
| "sl_poll_results c fuel ((fd, revents) # rest) gotEvent s =
     (if fd = slPipeReader s
      then if revents AND POLLIN \<noteq> 0
           then sl_poll_results c fuel rest True (s\<lparr>slRead := Suc (slRead s)\<rparr>)
           else if ucast revents AND (POLLHUP OR POLLNVAL) \<noteq> 0 then Inl Fatal
           else sl_poll_results c fuel rest gotEvent s
      else if revents \<noteq> 0
      then andThen (sl_callListeners c fuel s fd (scast revents)) (\<lambda>(update, s).
           sl_poll_results c fuel rest gotEvent (if update then s\<lparr>slUpdateFds := True\<rparr> else s))
      else sl_poll_results c fuel rest gotEvent s)"

text \<open>One event is taken for one announcement.\<close>

definition sl_events :: "selector_client \<Rightarrow> nat \<Rightarrow> selector \<Rightarrow> selector outcome" where
  "sl_events c fuel s =
     andThen (eq_PollEvent (edQueue (slDispatcher s))) (\<lambda>(ev, q).
     let d = (slDispatcher s)\<lparr>edQueue := q\<rparr> in
     case ev of
       None \<Rightarrow> Inr (s\<lparr>slDispatcher := d\<rparr>)
     | Some e \<Rightarrow>
         andThen (ev_get (ed_events d) e) (\<lambda>r.
         if mEventId r = kSelectorUpdateEventId
         then andThen (ed_release d e) (\<lambda>d. Inr (s\<lparr>slDispatcher := d, slUpdateFds := True\<rparr>))
         else andThen (ed_handleEvent (onEvents c) fuel d (Some e)) (\<lambda>(done, d).
              Inr (s\<lparr>slDispatcher := d, slRunning := (if done then False else slRunning s)\<rparr>))))"

text \<open>
  The rest of a turn of \<open>threadMain\<close> after the walk: the event, if the pipe was read, and the new table
  for \<open>poll\<close>, if one is wanted.
\<close>

definition sl_handle ::
  "selector_client \<Rightarrow> nat \<Rightarrow> (int \<times> short) list \<Rightarrow> bool \<Rightarrow> selector \<Rightarrow> ((int \<times> short) list \<times> selector) outcome" where
  "sl_handle c fuel fds gotEvent s =
     andThen (if gotEvent then sl_events c fuel s else Inr s) (\<lambda>s.
     if slUpdateFds s
     then andThen (sl_fillPollFds s) (\<lambda>fds. Inr (fds, s\<lparr>slUpdateFds := False\<rparr>))
     else Inr (fds, s))"

text \<open>\<open>shutdown\<close> sends the shutdown event (at address \<open>p\<close>) once; the wait for the thread is not modelled.\<close>

definition sl_shutdown :: "nat \<Rightarrow> selector \<Rightarrow> selector outcome" where
  "sl_shutdown p s =
     (if slShutdown s then Inr s
      else andThen (ed_new p (Event_new kShutdownEventId PRIORITY_HIGH) (slDispatcher s)) (\<lambda>d.
           andThen (ed_sendEvent d p) (\<lambda>d. Inr (s\<lparr>slDispatcher := d, slShutdown := True\<rparr>))))"

section \<open>The listeners as a table\<close>

definition sl_nodes :: "selector \<Rightarrow> addr list \<Rightarrow> bool" where
  "sl_nodes s ns \<longleftrightarrow> distinct ns \<and> dom (slNodes s) = set ns \<and> (\<forall>n \<in> set ns. n < slNextNode s)"

definition ntbl :: "(addr \<Rightarrow> selector_node option) \<Rightarrow> addr list \<Rightarrow> selector_node list" where
  "ntbl nodes ns = map (\<lambda>n. the (nodes n)) ns"

definition sl_table :: "selector \<Rightarrow> selector_node list \<Rightarrow> bool" where
  "sl_table s ts \<longleftrightarrow> (\<exists>ns. jl_holds (slList s) ns \<and> sl_nodes s ns \<and> ts = ntbl (slNodes s) ns)"

lemma ntbl_length [simp]: "length (ntbl nodes ns) = length ns"
  by (simp add: ntbl_def)

lemma ntbl_other: "n \<notin> set ns \<Longrightarrow> ntbl (nodes(n := x)) ns = ntbl nodes ns"
  by (auto simp: ntbl_def)

text \<open>Files in order of their first listener, and the events that all listeners of a file share.\<close>

definition first_fds :: "selector_node list \<Rightarrow> int list" where
  "first_fds ts = rev (remdups (rev (map mFd ts)))"

definition shared_events :: "int \<Rightarrow> selector_node list \<Rightarrow> short" where
  "shared_events fd ts = foldl (AND) (-1) (map mEvents (filter (\<lambda>n. mFd n = fd) ts))"

lemma first_fds_simps:
  "first_fds [] = []"
  "first_fds (ts @ [n]) = (if mFd n \<in> mFd ` set ts then first_fds ts else first_fds ts @ [mFd n])"
  "set (first_fds ts) = mFd ` set ts" "distinct (first_fds ts)"
  by (auto simp: first_fds_def)

lemma shared_events_snoc:
  "shared_events fd (ts @ [n]) = (if mFd n = fd then shared_events fd ts AND mEvents n else shared_events fd ts)"
  by (simp add: shared_events_def)

lemma shared_events_none: "fd \<notin> mFd ` set ts \<Longrightarrow> shared_events fd ts = -1"
  by (induction ts) (auto simp: shared_events_def)

lemma fds_merge_map:
  "distinct fs \<Longrightarrow> fds_merge fd e (map (\<lambda>f. (f, g f)) fs) =
     (if fd \<in> set fs then Some (map (\<lambda>f. (f, if f = fd then g f AND e else g f)) fs) else None)"
proof (induction fs)
  case (Cons f fs)
  then show ?case by (auto intro: map_cong)
qed simp

lemma sl_fill_loop_table:
  assumes "jl_seq (slList s) w ns" "sl_nodes s ns" "k \<le> length ns" "length ns - k < fuel"
    and "ts = ntbl (slNodes s) ns" "length (first_fds ts) < 63"
  shows "sl_fill_loop fuel s (pe # map (\<lambda>fd. (fd, shared_events fd (take k ts))) (first_fds (take k ts))) (w ! (k + 1)) =
    Inr (pe # map (\<lambda>fd. (fd, shared_events fd ts)) (first_fds ts))"
  using assms(3,4)
proof (induction fuel arbitrary: k)
  case (Suc fuel)
  note w = assms(1)
  have len: "length ts = length ns" using assms(5) by simp
  have e: "jl_end (slList s) = Inr (w ! (length ns + 1))" using jl.end_law [OF w] .
  show ?case
  proof (cases "k = length ns")
    case True
    then show ?thesis using e len by simp
  next
    case False
    then have k: "k < length ns" using Suc.prems(1) by simp
    have ne: "w ! (k + 1) \<noteq> w ! (length ns + 1)" using jl.end_iff [OF w Suc.prems(1)] False by simp
    have deref: "it_deref (slList s) (w ! (k + 1)) = Inr (ns ! k)" using jl.deref_law [OF w k] .
    have incr: "it_incr (slList s) (w ! (k + 1)) = Inr (w ! (k + 1 + 1))"
      using jl.incr_law [OF w, of "k + 1"] k by simp
    have "ns ! k \<in> set ns" using k by simp
    then obtain n where n: "slNodes s (ns ! k) = Some n" using assms(2) by (auto simp: sl_nodes_def)
    then have tk: "ts ! k = n" using assms(5) k by (simp add: ntbl_def)
    have take1: "take (Suc k) ts = take k ts @ [n]" using k len tk by (simp add: take_Suc_conv_app_nth)
    let ?g = "\<lambda>fd. shared_events fd (take k ts)" and ?F = "first_fds (take k ts)"
    have merge: "fds_merge (mFd n) (mEvents n) (map (\<lambda>f. (f, ?g f)) ?F) =
        (if mFd n \<in> set ?F then Some (map (\<lambda>fd. (fd, shared_events fd (take (Suc k) ts))) ?F) else None)"
      unfolding fds_merge_map [OF first_fds_simps(4)] take1 shared_events_snoc by (auto intro: map_cong)
    have ih: "sl_fill_loop fuel s (pe # map (\<lambda>fd. (fd, shared_events fd (take (Suc k) ts))) (first_fds (take (Suc k) ts)))
        (w ! (k + 1 + 1)) = Inr (pe # map (\<lambda>fd. (fd, shared_events fd ts)) (first_fds ts))"
      using Suc.IH [of "Suc k"] k Suc.prems(2) by simp
    show ?thesis
    proof (cases "mFd n \<in> set ?F")
      case True
      then have "first_fds (take (Suc k) ts) = ?F" unfolding take1 by (simp add: first_fds_simps)
      then show ?thesis using e ne deref n incr merge True ih by (simp add: sl_node_def)
    next
      case False
      then have F: "first_fds (take (Suc k) ts) = ?F @ [mFd n]" unfolding take1 by (simp add: first_fds_simps)
      have me: "map (\<lambda>fd. (fd, shared_events fd (take (Suc k) ts))) (?F @ [mFd n]) =
          map (\<lambda>fd. (fd, ?g fd)) ?F @ [(mFd n, mEvents n)]"
        using False unfolding take1 shared_events_snoc
        by (auto simp: first_fds_simps(3) shared_events_none)
      have ih': "sl_fill_loop fuel s (pe # map (\<lambda>fd. (fd, ?g fd)) ?F @ [(mFd n, mEvents n)]) (w ! (k + 1 + 1)) =
          Inr (pe # map (\<lambda>fd. (fd, shared_events fd ts)) (first_fds ts))"
        using ih unfolding F me .
      have "length (first_fds (take (Suc k) ts)) \<le> length (first_fds ts)"
      proof -
        have "card (set (first_fds (take (Suc k) ts))) \<le> card (set (first_fds ts))"
          by (intro card_mono) (auto simp: first_fds_simps(3) dest: in_set_takeD)
        then show ?thesis by (simp add: distinct_card first_fds_simps(4))
      qed
      then show ?thesis using e ne deref n incr merge False ih' F assms(6)
        by (simp add: sl_node_def kMaxPollFds_def Let_def)
    qed
  qed
qed simp

section \<open>Removing listeners\<close>

lemma sl_remove_visit_filter:
  assumes "distinct ns" "set ns \<subseteq> dom nodes"
  shows "visit_filter (sl_remove_visit fd) (u, nodes) ns =
    Inr ((u \<or> (\<exists>i \<in> set ns. mFd (the (nodes i)) = fd), nodes |` (- {i \<in> set ns. mFd (the (nodes i)) = fd})),
         filter (\<lambda>i. mFd (the (nodes i)) \<noteq> fd) ns)"
  using assms
proof (induction ns arbitrary: u nodes)
  case Nil
  then show ?case by (simp add: restrict_map_def)
next
  case (Cons i ns)
  let ?out = "\<lambda>nodes ns. {i \<in> set ns. mFd (the (nodes i)) = fd}"
  obtain n where n: "nodes i = Some n" using Cons.prems(2) by auto
  have i: "i \<notin> set ns" using Cons.prems(1) by simp
  show ?case
  proof (cases "mFd n = fd")
    case True
    let ?m = "nodes(i := None)"
    have p: "distinct ns" "set ns \<subseteq> dom ?m" using Cons.prems i by (auto simp: dom_def)
    have "visit_filter (sl_remove_visit fd) (True, ?m) ns =
        Inr ((True, ?m |` (- ?out ?m ns)), filter (\<lambda>j. mFd (the (?m j)) \<noteq> fd) ns)"
      using Cons.IH [OF p, of True] by (simp del: fun_upd_apply)
    moreover have "?m |` (- ?out ?m ns) = nodes |` (- ?out nodes (i # ns))"
      using True n i by (auto simp: restrict_map_def fun_eq_iff)
    moreover have "filter (\<lambda>j. mFd (the (?m j)) \<noteq> fd) ns = filter (\<lambda>j. mFd (the (nodes j)) \<noteq> fd) ns"
      using i by (intro filter_cong) auto
    moreover have "sl_remove_visit fd (u, nodes) i = Inr (True, (True, ?m))"
      using True n by (simp add: sl_remove_visit_def node_equal_def)
    ultimately show ?thesis using True n by (simp del: fun_upd_apply)
  next
    case False
    have "visit_filter (sl_remove_visit fd) (u, nodes) ns =
        Inr ((u \<or> (\<exists>i \<in> set ns. mFd (the (nodes i)) = fd), nodes |` (- ?out nodes ns)),
             filter (\<lambda>j. mFd (the (nodes j)) \<noteq> fd) ns)"
      using Cons.IH [of nodes u] Cons.prems by auto
    moreover have "?out nodes ns = ?out nodes (i # ns)" using False n by auto
    moreover have "sl_remove_visit fd (u, nodes) i = Inr (False, (u, nodes))"
      using False n by (simp add: sl_remove_visit_def node_equal_def)
    ultimately show ?thesis using False n by simp
  qed
qed

lemma ntbl_filter:
  "ntbl (nodes |` (- {i \<in> set ns. mFd (the (nodes i)) = fd})) (filter (\<lambda>i. mFd (the (nodes i)) \<noteq> fd) ns) =
   filter (\<lambda>n. mFd n \<noteq> fd) (ntbl nodes ns)"
  by (auto simp: ntbl_def filter_map restrict_map_def comp_def intro!: map_cong)

lemma sl_removeListener_table:
  assumes "sl_table s ts"
  shows "\<exists>l nodes. sl_removeListener True p s fd listener =
      Inr (s\<lparr>slList := l, slNodes := nodes, slUpdateFds := (if fd \<in> mFd ` set ts then True else slUpdateFds s)\<rparr>) \<and>
    sl_table (s\<lparr>slList := l, slNodes := nodes\<rparr>) (filter (\<lambda>n. mFd n \<noteq> fd) ts)"
proof -
  obtain w ns where w: "jl_seq (slList s) w ns" and n: "sl_nodes s ns" and ts: "ts = ntbl (slNodes s) ns"
    using assms by (auto simp: sl_table_def jl_holds_def)
  let ?out = "{i \<in> set ns. mFd (the (slNodes s i)) = fd}"
  let ?nodes = "slNodes s |` (- ?out)" and ?ns = "filter (\<lambda>i. mFd (the (slNodes s i)) \<noteq> fd) ns"
  have v: "visit_filter (sl_remove_visit fd) (False, slNodes s) ns =
      Inr ((False \<or> (\<exists>i \<in> set ns. mFd (the (slNodes s i)) = fd), ?nodes), ?ns)"
    by (rule sl_remove_visit_filter) (use n in \<open>auto simp: sl_nodes_def\<close>)
  have "length ns < jl_fresh (slList s)" using jl_fuel [of "slList s" ns] w by (force simp: jl_holds_def)
  from jl.while_erase_if_begin [OF w this v] obtain l w' where
    loop: "andThen (jl_begin (slList s)) (while_erase_if jl_end it_deref it_incr it_erase (sl_remove_visit fd)
        (jl_fresh (slList s)) (False, slNodes s) (slList s)) =
      Inr ((False \<or> (\<exists>i \<in> set ns. mFd (the (slNodes s i)) = fd), ?nodes), l)" "jl_seq l w' ?ns"
    by blast
  have "sl_nodes (s\<lparr>slList := l, slNodes := ?nodes\<rparr>) ?ns"
    using n by (auto simp: sl_nodes_def)
  then have "sl_table (s\<lparr>slList := l, slNodes := ?nodes\<rparr>) (filter (\<lambda>n. mFd n \<noteq> fd) ts)"
    using loop(2) ntbl_filter [of "slNodes s" ns fd] by (auto simp: sl_table_def jl_holds_def ts)
  moreover have "(\<exists>i \<in> set ns. mFd (the (slNodes s i)) = fd) = (fd \<in> mFd ` set ts)"
    by (auto simp: ts ntbl_def)
  ultimately show ?thesis unfolding sl_removeListener_def loop(1)
    by (intro exI [of _ l] exI [of _ ?nodes]) (auto simp: sl_updateListeners_def Let_def)
qed

section \<open>Calling the listeners of a file\<close>

text \<open>Listeners whose \<open>processFileEvents\<close> leaves the selector alone.\<close>

definition quiet :: selector_client where
  "quiet = \<lparr>onFileEvents = \<lambda>interface fd events pd. Inr, onEvents = scripted (\<lambda>l e. [])\<rparr>"

definition hang_up :: "u32 \<Rightarrow> bool" where
  "hang_up events \<longleftrightarrow> events AND (POLLHUP OR POLLNVAL) \<noteq> 0"

definition file_calls :: "int \<Rightarrow> u32 \<Rightarrow> selector_node list \<Rightarrow> (nat \<times> int \<times> u32 \<times> int) list" where
  "file_calls fd events ts =
     map (\<lambda>n. (the (snListener n), fd, events, mPrivateData n)) (filter (\<lambda>n. mFd n = fd \<and> snListener n \<noteq> None) ts)"

lemma sl_nodes_drop:
  assumes "sl_nodes s ns" "k < length ns"
  defines "ns' \<equiv> take k ns @ drop (Suc k) ns"
  shows "sl_nodes (s\<lparr>slNodes := (slNodes s)(ns ! k := None), slList := l\<rparr>) ns'"
    "ntbl ((slNodes s)(ns ! k := None)) ns' = take k (ntbl (slNodes s) ns) @ drop (Suc k) (ntbl (slNodes s) ns)"
proof -
  have s: "ns = take k ns @ ns ! k # drop (Suc k) ns" using assms(2) by (simp add: id_take_nth_drop)
  have d: "distinct ns" using assms(1) by (simp add: sl_nodes_def)
  then have d': "ns ! k \<notin> set ns'" "distinct ns'" unfolding ns'_def by (subst (asm) s, force)+
  have "set ns = insert (ns ! k) (set ns')"
    using arg_cong [OF s, of set] unfolding ns'_def by (simp only: set_append list.set) auto
  then have e: "set ns' = set ns - {ns ! k}" using d'(1) by auto
  show "sl_nodes (s\<lparr>slNodes := (slNodes s)(ns ! k := None), slList := l\<rparr>) ns'"
    using assms(1) d' e by (auto simp: sl_nodes_def)
  show "ntbl ((slNodes s)(ns ! k := None)) ns' = take k (ntbl (slNodes s) ns) @ drop (Suc k) (ntbl (slNodes s) ns)"
    unfolding ntbl_other [OF d'(1)] by (simp add: ns'_def ntbl_def take_map drop_map)
qed

lemma sl_nodes_calls [simp]: "sl_nodes (s\<lparr>slCalls := cs\<rparr>) ns = sl_nodes s ns"
  by (simp add: sl_nodes_def)

lemma sl_table_calls [simp]: "sl_table (s\<lparr>slCalls := cs\<rparr>) ts = sl_table s ts"
  by (simp add: sl_table_def)

text \<open>From entry \<open>k\<close> on, with the entries before it handled.\<close>

lemma sl_call_loop_quiet:
  assumes "jl_seq (slList s) w ns" "sl_nodes s ns" "k \<le> length ns" "length ns - k < fuel"
    "ntbl (slNodes s) ns = ts"
  shows "\<exists>l nodes. sl_call_loop quiet fd events fuel s res (w ! (k + 1)) =
      Inr (res \<or> hang_up events \<and> fd \<in> mFd ` set (drop k ts),
           s\<lparr>slList := l, slNodes := nodes, slCalls := slCalls s @ file_calls fd events (drop k ts)\<rparr>) \<and>
    sl_table (s\<lparr>slList := l, slNodes := nodes\<rparr>)
      (take k ts @ (if hang_up events then filter (\<lambda>n. mFd n \<noteq> fd) (drop k ts) else drop k ts))"
  using assms
proof (induction fuel arbitrary: s w ns k ts res)
  case (Suc fuel)
  note w = Suc.prems(1) and n = Suc.prems(2) and ts = Suc.prems(5)
  have len: "length ts = length ns" using ts by auto
  have e: "jl_end (slList s) = Inr (w ! (length ns + 1))" using jl.end_law [OF w] .
  show ?case
  proof (cases "k = length ns")
    case True
    have "sl_table s ts" using w n ts by (auto simp: sl_table_def jl_holds_def)
    then show ?thesis using True e len
      by (intro exI [of _ "slList s"] exI [of _ "slNodes s"]) (simp add: file_calls_def)
  next
    case False
    then have k: "k < length ns" using Suc.prems(3) by simp
    have lt: "length ns - Suc k < fuel" using Suc.prems(4) k by arith
    have ne: "w ! (k + 1) \<noteq> w ! (length ns + 1)" using jl.end_iff [OF w Suc.prems(3)] False by simp
    have deref: "it_deref (slList s) (w ! (k + 1)) = Inr (ns ! k)" using jl.deref_law [OF w k] .
    have incr: "it_incr (slList s) (w ! (k + 1)) = Inr (w ! (k + 1 + 1))"
      using jl.incr_law [OF w, of "k + 1"] k by simp
    have "ns ! k \<in> set ns" using k by simp
    then obtain nd where nd: "slNodes s (ns ! k) = Some nd" using n by (auto simp: sl_nodes_def)
    have dk: "drop k ts = nd # drop (Suc k) ts"
      using take_nth_drop [of k ts] k len nd ts by (auto simp: ntbl_def)
    define s1 where "s1 = (case snListener nd of None \<Rightarrow> s
      | Some i \<Rightarrow> if mFd nd = fd then s\<lparr>slCalls := slCalls s @ [(i, fd, events, mPrivateData nd)]\<rparr> else s)"
    have s1: "s1 = s\<lparr>slCalls := slCalls s @ file_calls fd events [nd]\<rparr>"
      by (auto simp: s1_def file_calls_def split: option.splits)
    have calls: "file_calls fd events (drop k ts) = file_calls fd events [nd] @ file_calls fd events (drop (Suc k) ts)"
      by (simp add: dk file_calls_def)
    show ?thesis
    proof (cases "mFd nd = fd \<and> hang_up events")
      case True
      obtain l' w' where l': "it_erase (slList s) (w ! (k + 1)) = Inr (l', w' ! (k + 1))"
        "jl_seq l' w' (take k ns @ drop (k + 1) ns)"
        by (rule jl.erase_step [OF w k])
      let ?ns = "take k ns @ drop (Suc k) ns" and ?ts = "take k ts @ drop (Suc k) ts"
      let ?s = "s1\<lparr>slNodes := (slNodes s)(ns ! k := None), slList := l'\<rparr>"
      have n1: "sl_nodes s1 ns" using n s1 by simp
      have t1: "ntbl ((slNodes s)(ns ! k := None)) ?ns = ?ts" using sl_nodes_drop(2) [OF n k] ts by simp
      have "\<exists>l nodes. sl_call_loop quiet fd events fuel ?s True (w' ! (k + 1)) =
          Inr (True \<or> hang_up events \<and> fd \<in> mFd ` set (drop k ?ts),
            ?s\<lparr>slList := l, slNodes := nodes, slCalls := slCalls ?s @ file_calls fd events (drop k ?ts)\<rparr>) \<and>
          sl_table (?s\<lparr>slList := l, slNodes := nodes\<rparr>)
            (take k ?ts @ (if hang_up events then filter (\<lambda>n. mFd n \<noteq> fd) (drop k ?ts) else drop k ?ts))"
      proof (rule Suc.IH)
        show "sl_nodes ?s ?ns" using sl_nodes_drop(1) [OF n1 k, of l'] s1 by simp
      qed (use l'(2) k lt t1 in \<open>simp_all add: s1 del: fun_upd_apply\<close>)
      then obtain l nodes where r: "sl_call_loop quiet fd events fuel ?s True (w' ! (k + 1)) =
          Inr (True \<or> hang_up events \<and> fd \<in> mFd ` set (drop k ?ts),
            ?s\<lparr>slList := l, slNodes := nodes, slCalls := slCalls ?s @ file_calls fd events (drop k ?ts)\<rparr>)"
        "sl_table (?s\<lparr>slList := l, slNodes := nodes\<rparr>)
            (take k ?ts @ (if hang_up events then filter (\<lambda>n. mFd n \<noteq> fd) (drop k ?ts) else drop k ?ts))"
        by blast
      have td: "take k ?ts = take k ts" "drop k ?ts = drop (Suc k) ts" using k len by (simp_all add: min_absorb2)
      have step: "sl_call_loop quiet fd events (Suc fuel) s res (w ! (k + 1)) =
          sl_call_loop quiet fd events fuel ?s True (w' ! (k + 1))"
      proof -
        have comm: "s\<lparr>slNodes := a, slList := b, slCalls := cs\<rparr> = s\<lparr>slCalls := cs, slNodes := a, slList := b\<rparr>" for a b cs
          by simp
        show ?thesis using e ne deref nd l'(1) True
          by (cases "snListener nd") (simp_all add: sl_node_def node_equal_def hang_up_def s1_def quiet_def comm)
      qed
      show ?thesis unfolding step r(1) calls
        by (intro exI [of _ l] exI [of _ nodes])
          (use r(2) [unfolded td] td True dk in \<open>simp add: s1 sl_table_def sl_nodes_def\<close>)
    next
      case False
      have w1: "jl_seq (slList s1) w ns" "sl_nodes s1 ns" "ntbl (slNodes s1) ns = ts"
        using w n ts by (simp_all add: s1)
      have "\<exists>l nodes. sl_call_loop quiet fd events fuel s1 res (w ! (Suc k + 1)) =
          Inr (res \<or> hang_up events \<and> fd \<in> mFd ` set (drop (Suc k) ts),
            s1\<lparr>slList := l, slNodes := nodes, slCalls := slCalls s1 @ file_calls fd events (drop (Suc k) ts)\<rparr>) \<and>
          sl_table (s1\<lparr>slList := l, slNodes := nodes\<rparr>)
            (take (Suc k) ts @ (if hang_up events then filter (\<lambda>n. mFd n \<noteq> fd) (drop (Suc k) ts) else drop (Suc k) ts))"
        by (rule Suc.IH [OF w1(1,2) _ lt w1(3)]) (use k in simp)
      then obtain l nodes where r: "sl_call_loop quiet fd events fuel s1 res (w ! (Suc k + 1)) =
          Inr (res \<or> hang_up events \<and> fd \<in> mFd ` set (drop (Suc k) ts),
            s1\<lparr>slList := l, slNodes := nodes, slCalls := slCalls s1 @ file_calls fd events (drop (Suc k) ts)\<rparr>)"
        "sl_table (s1\<lparr>slList := l, slNodes := nodes\<rparr>)
            (take (Suc k) ts @ (if hang_up events then filter (\<lambda>n. mFd n \<noteq> fd) (drop (Suc k) ts) else drop (Suc k) ts))"
        by blast
      have tk: "take (Suc k) ts = take k ts @ [nd]"
        using k len nd ts by (auto simp: take_Suc_conv_app_nth ntbl_def)
      have step: "sl_call_loop quiet fd events (Suc fuel) s res (w ! (k + 1)) =
          sl_call_loop quiet fd events fuel s1 res (w ! (Suc k + 1))"
        using e ne deref nd incr False
        by (auto simp: sl_node_def node_equal_def hang_up_def s1_def quiet_def split: option.split)
      show ?thesis unfolding step r(1) calls
        by (intro exI [of _ l] exI [of _ nodes]) (use r(2) False dk tk in \<open>auto simp: s1 sl_table_def sl_nodes_def\<close>)
    qed
  qed
qed simp

lemma sl_callListeners_walk:
  assumes "sl_table s ts" "length ts < fuel"
  shows "\<exists>s'. sl_callListeners quiet fuel s fd events = Inr (hang_up events \<and> fd \<in> mFd ` set ts, s') \<and>
    slCalls s' = slCalls s @ file_calls fd events ts \<and> slDispatcher s' = slDispatcher s \<and>
    sl_table s' (if hang_up events then filter (\<lambda>n. mFd n \<noteq> fd) ts else ts)"
proof -
  obtain w ns where w: "jl_seq (slList s) w ns" "sl_nodes s ns" "ts = ntbl (slNodes s) ns"
    using assms(1) by (auto simp: sl_table_def jl_holds_def)
  show ?thesis
    using sl_call_loop_quiet [OF w(1,2), of 0 fuel ts fd events False] assms(2) w(3) jl.begin_law [OF w(1)]
    by (fastforce simp: sl_callListeners_def sl_table_def sl_nodes_def)
qed

lemma sl_callListeners_table:
  assumes "sl_table s ts"
  shows "\<exists>s'. sl_callListeners quiet (jl_fresh (slList s)) s fd events = Inr (hang_up events \<and> fd \<in> mFd ` set ts, s') \<and>
    slCalls s' = slCalls s @ file_calls fd events ts \<and> slDispatcher s' = slDispatcher s \<and>
    sl_table s' (if hang_up events then filter (\<lambda>n. mFd n \<noteq> fd) ts else ts)"
proof -
  obtain ns where "jl_holds (slList s) ns" "ts = ntbl (slNodes s) ns" using assms by (auto simp: sl_table_def)
  then have "length ts < jl_fresh (slList s)" using jl_fuel by force
  from sl_callListeners_walk [OF assms this] show ?thesis .
qed

section \<open>Announcements and events\<close>

text \<open>
  \<open>announced d (n, m)\<close>: with \<open>n\<close> announcements read, every event in the queue has one that was not read,
  and at least \<open>m\<close> were asked for.
\<close>

definition announced :: "dispatcher \<Rightarrow> nat \<times> nat \<Rightarrow> bool" where
  "announced d n \<longleftrightarrow>
     (\<exists>es. jl_holds (mQueue (edQueue d)) es \<and> length es + fst n \<le> edWakes d) \<and> snd n \<le> edWakes d"

named_theorems announce \<open>operations keep every queued event announced\<close>

lemma eq_SendEvent_length:
  assumes "jl_holds (mQueue q) es" "eq_SendEvent q e = Inr q'"
  shows "\<exists>es'. jl_holds (mQueue q') es' \<and> length es' = Suc (length es)"
proof -
  obtain w where w: "jl_seq (mQueue q) w es" using assms(1) by (auto simp: jl_holds_def)
  obtain h l and r :: event where "(if mPriority r = PRIORITY_NORMAL then jl_push_back (mQueue (q\<lparr>eqEvents := h\<rparr>)) e
      else andThen (jl_begin (mQueue (q\<lparr>eqEvents := h\<rparr>)))
             (for_insert_before jl_end it_deref it_incr it_insertBefore jl_push_back
               (\<lambda>i. andThen (ev_get h i) (\<lambda>r'. Inr (mPriority r > mPriority r'))) e
               (jl_fresh (mQueue (q\<lparr>eqEvents := h\<rparr>))) (mQueue (q\<lparr>eqEvents := h\<rparr>)))) = Inr l"
    "Inr (q\<lparr>eqEvents := h, mQueue := l, mWait := Suc (mWait (q\<lparr>eqEvents := h\<rparr>))\<rparr>) = (Inr q' :: event_queue outcome)"
    using assms(2) unfolding eq_SendEvent_def Let_def andThen_Inr_iff by blast
  then have h: "(if mPriority r = PRIORITY_NORMAL then jl_push_back (mQueue q) e
      else andThen (jl_begin (mQueue q)) (for_insert_before jl_end it_deref it_incr it_insertBefore jl_push_back
             (\<lambda>i. andThen (ev_get h i) (\<lambda>r'. Inr (mPriority r > mPriority r'))) e (jl_fresh (mQueue q)) (mQueue q)))
     = Inr (mQueue q')"
    by fastforce
  show ?thesis
  proof (cases "mPriority r = PRIORITY_NORMAL")
    case True
    then show ?thesis using h jl_push_back_holds [OF assms(1), of e] by fastforce
  next
    case False
    let ?t = "\<lambda>i. andThen (ev_get h i) (\<lambda>r'. Inr (mPriority r > mPriority r'))"
    have len: "test_insert t v xs = Inr ys \<Longrightarrow> length ys = Suc (length xs)" for t and v :: nat and xs ys
      by (induction xs arbitrary: ys) (auto simp: andThen_Inr_iff split: if_splits)
    have "length es < jl_fresh (mQueue q)" using jl_fuel [OF assms(1)] by simp
    then have "jl.insert_result (for_insert_before jl_end it_deref it_incr it_insertBefore jl_push_back ?t e
        (jl_fresh (mQueue q)) (mQueue q) (w ! (0 + 1))) (test_insert ?t e (drop 0 es)) (take 0 es)"
      by (intro jl.for_insert_before_rep [OF w]) simp_all
    then show ?thesis using h False jl_begin_end(1) [OF w] len
      by (cases "test_insert ?t e es") (auto simp: jl.insert_result_def jl_holds_def)
  qed
qed

lemma eq_remove_length:
  assumes "jl_holds (mQueue q) es" "eq_remove_loop test q = Inr q'"
  shows "\<exists>es'. jl_holds (mQueue q') es' \<and> length es' \<le> length es"
proof -
  obtain w where w: "jl_seq (mQueue q) w es" using assms(1) by (auto simp: jl_holds_def)
  have len: "visit_filter V s xs = Inr (s', ys) \<Longrightarrow> length ys \<le> length xs" for V and s s' :: eheap and xs ys :: "nat list"
    by (induction xs arbitrary: s ys) (auto simp: andThen_Inr_iff le_SucI split: if_splits)
  have "length es < jl_fresh (mQueue q)" using jl_fuel [OF assms(1)] by simp
  then have loop: "jl.loop_result (for_erase_if jl_end it_deref it_incr it_decr it_erase (eq_remove_visit test)
      (jl_fresh (mQueue q)) (eqEvents q) (mQueue q) (w ! (0 + 1)))
      (visit_filter (eq_remove_visit test) (eqEvents q) (drop 0 es)) (take 0 es)"
    by (intro jl.for_erase_if_rep [OF w]) simp_all
  then show ?thesis
  proof (cases "visit_filter (eq_remove_visit test) (eqEvents q) es")
    case (Inr p)
    obtain h ys where p: "p = (h, ys)" by (cases p)
    have "length ys \<le> length es" using len Inr p by blast
    moreover have "\<exists>w. jl_seq (mQueue q') w ys"
      using loop assms(2) jl_begin_end(1) [OF w] Inr p
      by (auto simp: jl.loop_result_def eq_remove_loop_def andThen_Inr_iff)
    ultimately show ?thesis by (auto simp: jl_holds_def)
  qed (use loop assms(2) jl_begin_end(1) [OF w] in \<open>auto simp: jl.loop_result_def eq_remove_loop_def andThen_Inr_iff\<close>)
qed

lemma eq_flush_length:
  assumes "jl_holds (mQueue q) es" "eq_flush_loop fuel q = Inr q'"
  shows "jl_holds (mQueue q') []"
  using assms
proof (induction fuel arbitrary: q es)
  case (Suc fuel)
  show ?case
  proof (cases es)
    case Nil
    then show ?thesis using Suc.prems jl_empty_holds [OF Suc.prems(1)] by simp
  next
    case (Cons e es')
    then obtain l where "jl_pop_front (mQueue q) = Inr l" "jl_holds l es'"
      using jl_pop_front_holds [OF Suc.prems(1)] by auto
    then show ?thesis
      using Suc.prems(2) Suc.IH [of "q\<lparr>mQueue := l, eqEvents := h\<rparr>" es' for h] Cons
        jl_empty_holds [OF Suc.prems(1)] jl_front_holds [OF Suc.prems(1)]
      by (auto simp: andThen_Inr_iff)
  qed
qed simp

lemma eq_Flush_length:
  "jl_holds (mQueue q) es \<Longrightarrow> eq_Flush q = Inr q' \<Longrightarrow> \<exists>es'. jl_holds (mQueue q') es' \<and> length es' \<le> length es"
  using eq_flush_length by (fastforce simp: eq_Flush_def)

lemma announced_send [announce]:
  assumes "announced d n" "ed_sendEvent d e = Inr d'"
  shows "announced d' n"
proof -
  obtain es where es: "jl_holds (mQueue (edQueue d)) es" "length es + fst n \<le> edWakes d" "snd n \<le> edWakes d"
    using assms(1) by (auto simp: announced_def)
  obtain q where q: "eq_SendEvent (edQueue d) e = Inr q" "d' = d\<lparr>edQueue := q, edWakes := Suc (edWakes d)\<rparr>"
    using assms(2) by (auto simp: ed_sendEvent_def andThen_Inr_iff)
  then show ?thesis using eq_SendEvent_length [OF es(1) q(1)] es(2,3) by (fastforce simp: announced_def)
qed

lemma announced_cong:
  "announced (d\<lparr>edEventList := l\<rparr>) n = announced d n" "announced (d\<lparr>edNodes := m\<rparr>) n = announced d n"
  "announced (d\<lparr>edCalls := cs\<rparr>) n = announced d n" "announced (d\<lparr>edRet := f\<rparr>) n = announced d n"
  "announced (d\<lparr>edHolders := g\<rparr>) n = announced d n" "announced (d\<lparr>edAgents := a\<rparr>) n = announced d n"
  "announced (d\<lparr>edTimers := t\<rparr>) n = announced d n" "announced (ed_set_events h d) n = announced d n"
  by (simp_all add: announced_def ed_set_events_def)

lemma announced_release [announce]: "announced d n \<Longrightarrow> ed_release d e = Inr d' \<Longrightarrow> announced d' n"
  by (auto simp: ed_release_def andThen_Inr_iff announced_cong)

lemma announced_new [announce]: "announced d n \<Longrightarrow> ed_new p r d = Inr d' \<Longrightarrow> announced d' n"
  by (auto simp: ed_new_def announced_cong split: if_splits)

lemma announced_call [announce]:
  assumes a: "announced d n" and r: "ed_call_now call d = Inr (ret, d')"
  shows "announced d' n"
proof -
  have now: "announced d' n"
    if q: "ed_remove_now timers queue d = Inr (ret, d')"
      and len: "\<And>es q'. jl_holds (mQueue (edQueue d)) es \<Longrightarrow> queue (edQueue d) = Inr q' \<Longrightarrow>
        \<exists>es'. jl_holds (mQueue q') es' \<and> length es' \<le> length es" for timers queue
  proof -
    obtain m q' where "queue (edQueue d) = Inr q'" "d' = d\<lparr>edTimers := m, edQueue := q'\<rparr>"
      using q by (auto simp: ed_remove_now_def andThen_Inr_iff)
    moreover obtain es where "jl_holds (mQueue (edQueue d)) es" "length es + fst n \<le> edWakes d" "snd n \<le> edWakes d"
      using a by (auto simp: announced_def)
    ultimately show ?thesis using len by (fastforce simp: announced_def)
  qed
  show ?thesis
    using r unfolding ed_call_now_def
    by (cases call; simp add: eq_Remove_id_def eq_Remove_event_def eq_RemoveAgentsByReceiver_def)
      (erule now; fastforce intro: eq_remove_length eq_Flush_length)+
qed

lemma announced_poll:
  assumes "announced d (n, m)" "eq_PollEvent (edQueue d) = Inr (ev, q)"
  shows "case ev of None \<Rightarrow> jl_holds (mQueue q) [] | Some e \<Rightarrow> announced (d\<lparr>edQueue := q\<rparr>) (Suc n, m)"
proof -
  obtain es where es: "jl_holds (mQueue (edQueue d)) es" "length es + n \<le> edWakes d" "m \<le> edWakes d"
    using assms(1) by (auto simp: announced_def)
  show ?thesis
  proof (cases es)
    case Nil
    then show ?thesis using assms(2) es(1) jl_empty_holds [OF es(1)]
      by (auto simp: eq_PollEvent_def eq_pollEventInternal_def)
  next
    case (Cons e es')
    then obtain l where "jl_pop_front (mQueue (edQueue d)) = Inr l" "jl_holds l es'"
      using jl_pop_front_holds [OF es(1)] by auto
    then show ?thesis using Cons assms(2) es jl_empty_holds [OF es(1)] jl_front_holds [OF es(1)]
      by (auto simp: eq_PollEvent_def eq_pollEventInternal_def announced_def)
  qed
qed

text \<open>
  Clients whose callbacks send events: \<open>files\<close> and \<open>events\<close> give what a file listener and an event
  listener send when they are called.
\<close>

fun ed_sends :: "nat list \<Rightarrow> dispatcher \<Rightarrow> dispatcher outcome" where
  "ed_sends [] d = Inr d"
| "ed_sends (e # es) d = andThen (ed_sendEvent d e) (ed_sends es)"

definition sender :: "(nat \<Rightarrow> nat list) \<Rightarrow> (nat \<Rightarrow> nat list) \<Rightarrow> selector_client" where
  "sender files events =
     \<lparr>onFileEvents = \<lambda>interface fd ev pd s.
        andThen (ed_sends (files interface) (slDispatcher s)) (\<lambda>d. Inr (s\<lparr>slDispatcher := d\<rparr>)),
      onEvents = \<lparr>onReceive = \<lambda>listener ev. ed_sends (events listener), onDeliver = \<lambda>k. ed_sends (events k)\<rparr>\<rparr>"

lemma announced_sends [announce]: "announced d n \<Longrightarrow> ed_sends es d = Inr d' \<Longrightarrow> announced d' n"
  by (induction es arbitrary: d) (auto simp: andThen_Inr_iff intro: announced_send)

lemma announced_lookup [announce]:
  "announced d n \<Longrightarrow> edh_lookup_loop (onEvents (sender files events)) ev fuel d i = Inr d' \<Longrightarrow> announced d' n"
proof (induction fuel arbitrary: d i)
  case (Suc fuel)
  note ih = Suc.IH and a = Suc.prems(1)
  obtain e where e: "jl_end (edEventList d) = Inr e" using Suc.prems(2) by (auto simp: andThen_Inr_iff)
  show ?case
  proof (cases "i = e")
    case True
    then show ?thesis using Suc.prems e by simp
  next
    case False
    then obtain m ln where m: "it_deref (edEventList d) i = Inr m" "edh_node d m = Inr ln"
      using Suc.prems(2) e by (auto simp: andThen_Inr_iff)
    show ?thesis
    proof (cases "lnListener ln")
      case None
      then show ?thesis using Suc.prems(2) e False m
        by (auto simp: andThen_Inr_iff Let_def announced_cong split: prod.splits intro!: ih [rotated] a)
    next
      case (Some l)
      obtain r where r: "ev_get (ed_events d) ev = Inr r"
        using Suc.prems(2) e False m Some by (auto simp: andThen_Inr_iff)
      show ?thesis
      proof (cases "lnEventId ln = mEventId r \<or> lnEventId ln = kInvalidEventId")
        case True
        then obtain d1 i1 where d1: "ed_sends (events l) (d\<lparr>edCalls := edCalls d @ [(l, ev)]\<rparr>) = Inr d1"
          "edh_lookup_loop (onEvents (sender files events)) ev fuel d1 i1 = Inr d'"
          using Suc.prems(2) e False m Some r by (auto simp: andThen_Inr_iff sender_def)
        have "announced (d\<lparr>edCalls := edCalls d @ [(l, ev)]\<rparr>) n" using a by (simp add: announced_cong)
        then show ?thesis using ih [OF announced_sends [OF _ d1(1)] d1(2)] by blast
      next
        case no: False
        then obtain i1 where "edh_lookup_loop (onEvents (sender files events)) ev fuel d i1 = Inr d'"
          using Suc.prems(2) e False m Some r by (auto simp: andThen_Inr_iff)
        then show ?thesis using ih [OF a] by blast
      qed
    qed
  qed
qed simp

lemma announced_dispatch [announce]:
  assumes "announced d n" "edh_dispatchEvent (onEvents (sender files events)) fuel d ev = Inr d'"
  shows "announced d' n"
proof (cases ev)
  case None
  then show ?thesis using assms by (simp add: edh_dispatchEvent_def)
next
  case (Some e)
  have del: "announced d' n" if "ed_deliver (onEvents (sender files events)) d e = Inr d'"
    using that assms(1)
    by (auto simp: ed_deliver_def andThen_Inr_iff announced_cong sender_def
        split: option.splits agent_call.splits intro: announced_call announced_sends)
  show ?thesis using assms Some del
    by (auto simp: edh_dispatchEvent_def edh_lookupListeners_def andThen_Inr_iff
        split: if_splits intro: announced_lookup)
qed

lemma announced_handle [announce]:
  assumes a: "announced d n" and r: "ed_handleEvent (onEvents (sender files events)) fuel d ev = Inr (fin, d')"
  shows "announced d' n"
proof (cases ev)
  case None
  then show ?thesis using assms by (simp add: ed_handleEvent_def)
next
  case (Some e)
  have sync: "announced d1 n" if h: "ed_handleSyncEvent (onEvents (sender files events)) fuel d e = Inr d1" for d1
  proof -
    obtain v x where "edh_dispatchEvent (onEvents (sender files events)) fuel d v = Inr x"
      "announced d1 n = announced x n"
      using h by (auto simp: ed_handleSyncEvent_def andThen_Inr_iff announced_cong split: option.splits)
    then show ?thesis using announced_dispatch [OF a] by blast
  qed
  show ?thesis using r a Some sync
    by (auto simp: ed_handleEvent_def andThen_Inr_iff split: if_splits prod.splits
        intro: announced_release announced_call announced_dispatch)
qed

section \<open>The moves of the other threads\<close>

text \<open>
  Other threads send events, make synchronous calls and have them return, change the file listeners or
  shut the selector down. Each of these puts its event into the queue (the calls of \<open>wakeThread\<close> that
  follow are moves of their own, below).
\<close>

inductive sl_do :: "selector \<Rightarrow> selector \<Rightarrow> bool" where
  send: "ed_sendEvent (slDispatcher s) e = Inr d \<Longrightarrow> sl_do s (s\<lparr>slDispatcher := d\<rparr>)"
| sync: "ed_sendEventSync_begin False holder (slDispatcher s) e = Inr d \<Longrightarrow> sl_do s (s\<lparr>slDispatcher := d\<rparr>)"
| call: "ed_agent_send p holder a (slDispatcher s) = Inr d \<Longrightarrow> sl_do s (s\<lparr>slDispatcher := d\<rparr>)"
| return: "ed_agent_return p holder (slDispatcher s) = Inr (r, d) \<Longrightarrow> sl_do s (s\<lparr>slDispatcher := d\<rparr>)"
| add: "sl_addListener False p s fd events listener pd = Inr s' \<Longrightarrow> sl_do s s'"
| remove: "sl_removeListener False p s fd listener = Inr s' \<Longrightarrow> sl_do s s'"
| shutdown: "sl_shutdown p s = Inr s' \<Longrightarrow> sl_do s s'"

text \<open>What the queue and the pipe have in common, for a selector that has read \<open>n\<close> and keeps its pipe.\<close>

definition sl_keeps :: "nat \<times> nat \<Rightarrow> selector \<Rightarrow> selector \<Rightarrow> bool" where
  "sl_keeps n s s' \<longleftrightarrow> (announced (slDispatcher s) n \<longrightarrow> announced (slDispatcher s') n) \<and>
     slRead s' = slRead s \<and> slPipeReader s' = slPipeReader s"

lemma sl_keeps_update:
  assumes r: "sl_updateListeners current p s = Inr s'"
  shows "sl_keeps n s s'"
proof (cases "current \<or> \<not> slRunning s")
  case True
  then show ?thesis using r by (auto simp: sl_updateListeners_def sl_keeps_def split: if_splits)
next
  case False
  then obtain ev d1 d2 where d: "ed_new p ev (slDispatcher s) = Inr d1" "ed_sendEvent d1 p = Inr d2"
    "s' = s\<lparr>slDispatcher := d2\<rparr>"
    using r by (auto simp: sl_updateListeners_def andThen_Inr_iff)
  then show ?thesis using announced_send [OF announced_new [OF _ d(1)] d(2)] by (simp add: sl_keeps_def)
qed

lemma announced_sync [announce]:
  assumes a: "announced d n" and r: "ed_sendEventSync_begin current holder d e = Inr d'"
  shows "announced d' n"
proof -
  obtain ev h d1 where d: "ed_new holder ev (ed_set_events h d) = Inr d1"
    "ed_sendEvent (d1\<lparr>edHolders := (edHolders d1)(holder \<mapsto> (e, False))\<rparr>) holder = Inr d'"
    using r by (auto simp: ed_sendEventSync_begin_def andThen_Inr_iff Let_def simp del: fun_upd_apply split: if_splits)
  have "announced (ed_set_events h d) n" using a by (simp add: announced_cong)
  from announced_new [OF this d(1)]
  have "announced (d1\<lparr>edHolders := (edHolders d1)(holder \<mapsto> (e, False))\<rparr>) n" by (simp add: announced_cong)
  from announced_send [OF this d(2)] show ?thesis .
qed

lemma announced_agent_send [announce]:
  assumes a: "announced d n" and r: "ed_agent_send p holder call d = Inr d'"
  shows "announced d' n"
proof -
  obtain ev h d1 where d: "ed_new p ev d = Inr d1"
    "ed_sendEventSync_begin False holder (ed_set_events h
       (d1\<lparr>edAgents := (edAgents d1)(p \<mapsto> call), edRet := (edRet d1)(p := None)\<rparr>)) p = Inr d'"
    using r by (auto simp: ed_agent_send_def andThen_Inr_iff Let_def simp del: fun_upd_apply)
  have "announced (ed_set_events h
       (d1\<lparr>edAgents := (edAgents d1)(p \<mapsto> call), edRet := (edRet d1)(p := None)\<rparr>)) n"
    using announced_new [OF a d(1)] by (simp add: announced_def ed_set_events_def)
  from announced_sync [OF this d(2)] show ?thesis .
qed

lemma announced_agent_return [announce]:
  assumes a: "announced d n" and r: "ed_agent_return p holder d = Inr (ret, d')"
  shows "announced d' n"
proof -
  obtain x where x: "ed_sendEventSync_end holder d = Inr x"
    using r by (auto simp: ed_agent_return_def andThen_Inr_iff)
  show ?thesis
  proof (cases x)
    case None
    then show ?thesis using r x a by (simp add: ed_agent_return_def)
  next
    case (Some d1)
    then have "announced d1 n" using x a
      by (auto simp: ed_sendEventSync_end_def andThen_Inr_iff announced_cong split: option.splits if_splits)
    then show ?thesis using r x Some
      by (auto simp: ed_agent_return_def andThen_Inr_iff announced_cong split: option.splits)
  qed
qed

lemma announced_call_loop:
  assumes "announced (slDispatcher s) k" "sl_call_loop (sender files events) fd ev fuel s res i = Inr (res', s')"
  shows "announced (slDispatcher s') k \<and> slRead s' = slRead s \<and> slPipeReader s' = slPipeReader s"
proof -
  show ?thesis
    using assms
  proof (induction fuel arbitrary: s res i)
    case (Suc fuel)
    note ih = Suc.IH
    obtain e where e: "jl_end (slList s) = Inr e" using Suc.prems(2) by (auto simp: andThen_Inr_iff)
    show ?case
    proof (cases "i = e")
      case True
      then show ?thesis using Suc.prems e by simp
    next
      case False
      then obtain m n where m: "it_deref (slList s) i = Inr m" "sl_node s m = Inr n"
        using Suc.prems(2) e by (auto simp: andThen_Inr_iff)
      show ?thesis
      proof (cases "node_equal n fd None")
        case no: False
        then obtain i1 where "sl_call_loop (sender files events) fd ev fuel s res i1 = Inr (res', s')"
          using Suc.prems(2) e False m by (auto simp: andThen_Inr_iff)
        then show ?thesis using ih [OF Suc.prems(1)] by blast
      next
        case yes: True
        obtain s1 res1 i1 where s1: "slDispatcher s1 = slDispatcher s" "slRead s1 = slRead s"
          "slPipeReader s1 = slPipeReader s" and rest: "(case snListener n of
             None \<Rightarrow> sl_call_loop (sender files events) fd ev fuel s1 res1 i1
           | Some interface \<Rightarrow>
               andThen (onFileEvents (sender files events) interface fd ev (mPrivateData n)
                   (s1\<lparr>slCalls := slCalls s1 @ [(interface, fd, ev, mPrivateData n)]\<rparr>)) (\<lambda>s.
               sl_call_loop (sender files events) fd ev fuel s res1 i1)) = Inr (res', s')"
        proof (cases "ev AND (POLLHUP OR POLLNVAL) \<noteq> 0")
          case True
          then obtain l i1 where "it_erase (slList s) i = Inr (l, i1)"
            using Suc.prems(2) e False m yes by (auto simp: andThen_Inr_iff)
          then show thesis using that [of "s\<lparr>slNodes := (slNodes s)(m := None), slList := l\<rparr>" True i1]
              Suc.prems(2) e False m yes True by (simp del: fun_upd_apply)
        next
          case no: False
          then obtain i1 where "it_incr (slList s) i = Inr i1"
            using Suc.prems(2) e False m yes by (auto simp: andThen_Inr_iff)
          then show thesis using that [of s res i1] Suc.prems(2) e False m yes no by simp
        qed
        have sp: "announced (slDispatcher s1) k" using Suc.prems(1) s1 by simp
        show ?thesis
        proof (cases "snListener n")
          case None
          then show ?thesis using ih [OF sp] rest s1 by simp
        next
          case (Some f)
          then obtain d where d: "ed_sends (files f) (slDispatcher s1) = Inr d"
            "sl_call_loop (sender files events) fd ev fuel
               (s1\<lparr>slCalls := slCalls s1 @ [(f, fd, ev, mPrivateData n)], slDispatcher := d\<rparr>) res1 i1 = Inr (res', s')"
            using rest by (auto simp: sender_def andThen_Inr_iff)
          have "announced (slDispatcher (s1\<lparr>slCalls := slCalls s1 @ [(f, fd, ev, mPrivateData n)], slDispatcher := d\<rparr>)) k"
            using announced_sends [OF sp d(1)] by simp
          from ih [OF this d(2)] show ?thesis using s1 by simp
        qed
      qed
    qed
  qed simp
qed

lemma sl_do_keeps: "sl_do s s' \<Longrightarrow> sl_keeps n s s'"
proof (induction rule: sl_do.induct)
  case (send s e d)
  then show ?case using announced_send by (auto simp: sl_keeps_def)
next
  case (sync holder s e d)
  then show ?case using announced_sync by (auto simp: sl_keeps_def)
next
  case (call p holder a s d)
  then show ?case using announced_agent_send by (auto simp: sl_keeps_def)
next
  case (return p holder s r d)
  then show ?case using announced_agent_return by (auto simp: sl_keeps_def)
next
  case (add p s fd events listener pd s')
  then obtain l x where "sl_updateListeners False p
      (s\<lparr>slNextNode := Suc (slNextNode s), slNodes := x, slList := l\<rparr>) = Inr s'"
    by (auto simp: sl_addListener_def Let_def andThen_Inr_iff simp del: fun_upd_apply)
  from sl_keeps_update [OF this] show ?case by (simp add: sl_keeps_def)
next
  case (remove p s fd listener s')
  then obtain l x where "s' = s\<lparr>slList := l, slNodes := x\<rparr> \<or>
      sl_updateListeners False p (s\<lparr>slList := l, slNodes := x\<rparr>) = Inr s'"
    by (auto simp: sl_removeListener_def Let_def andThen_Inr_iff simp del: fun_upd_apply split: if_splits)
  then show ?case using sl_keeps_update [of False p "s\<lparr>slList := l, slNodes := x\<rparr>" s' n]
    by (auto simp: sl_keeps_def)
next
  case (shutdown p s s')
  show ?case
  proof (cases "slShutdown s")
    case True
    then show ?thesis using shutdown by (simp add: sl_shutdown_def sl_keeps_def)
  next
    case False
    then obtain ev d1 d2 where d: "ed_new p ev (slDispatcher s) = Inr d1" "ed_sendEvent d1 p = Inr d2"
      "s' = s\<lparr>slDispatcher := d2, slShutdown := True\<rparr>"
      using shutdown by (auto simp: sl_shutdown_def andThen_Inr_iff)
    then show ?thesis using announced_send [OF announced_new [OF _ d(1)] d(2)] by (simp add: sl_keeps_def)
  qed
qed

section \<open>The thread's part of a turn\<close>

text \<open>The walk reads the pipe once for each entry that reports it.\<close>

definition pipe_hits :: "selector \<Rightarrow> (int \<times> short) list \<Rightarrow> nat" where
  "pipe_hits s rs = length (filter (\<lambda>(fd, rev). fd = slPipeReader s \<and> rev AND POLLIN \<noteq> 0) rs)"

lemma pipe_hits_cong: "slPipeReader s' = slPipeReader s \<Longrightarrow> pipe_hits s' rs = pipe_hits s rs"
  by (simp add: pipe_hits_def)

lemma pipe_hits_Cons: "pipe_hits s (r # rs) = pipe_hits s [r] + pipe_hits s rs"
  by (simp add: pipe_hits_def)

lemma sl_poll_results_read:
  assumes "sl_poll_results (sender files events) fuel [r] got s = Inr (got', s')"
    "announced (slDispatcher s) n"
  shows "slRead s' = slRead s + pipe_hits s [r] \<and> announced (slDispatcher s') n \<and>
    slPipeReader s' = slPipeReader s \<and> (got' \<longleftrightarrow> got \<or> 0 < pipe_hits s [r])"
proof -
  obtain fd rev where r: "r = (fd, rev)" by (cases r)
  show ?thesis
  proof (cases "fd \<noteq> slPipeReader s \<and> rev \<noteq> 0")
    case True
    then obtain u s1 where c: "sl_callListeners (sender files events) fuel s fd (scast rev) = Inr (u, s1)"
      "got' = got" "s' = (if u then s1\<lparr>slUpdateFds := True\<rparr> else s1)"
      using assms(1) r by (auto simp: andThen_Inr_iff)
    obtain i where "sl_call_loop (sender files events) fd (scast rev) fuel s False i = Inr (u, s1)"
      using c(1) by (auto simp: sl_callListeners_def andThen_Inr_iff)
    from announced_call_loop [OF assms(2) this] show ?thesis using c True r by (simp add: pipe_hits_def)
  next
    case False
    consider (pipe) "fd = slPipeReader s" "rev AND POLLIN \<noteq> 0" | (idle) "fd = slPipeReader s" "rev AND POLLIN = 0"
      | (none) "fd \<noteq> slPipeReader s" "rev = 0" using False by blast
    then show ?thesis
    proof cases
      case pipe
      then show ?thesis using assms r by (auto simp: pipe_hits_def)
    next
      case idle
      then show ?thesis using assms r
        by (cases "(ucast rev :: u32) AND (POLLHUP OR POLLNVAL) = 0") (simp_all add: pipe_hits_def)
    next
      case none
      then show ?thesis using assms r by (simp add: pipe_hits_def)
    qed
  qed
qed

lemma sl_events_keeps:
  assumes a: "announced (slDispatcher s) (n, m)" and w: "Suc n \<le> m"
    and r: "sl_events (sender files events) fuel s = Inr s'"
  shows "announced (slDispatcher s') (Suc n, m) \<and> slRead s' = slRead s \<and> slPipeReader s' = slPipeReader s"
proof -
  obtain ev q where q: "eq_PollEvent (edQueue (slDispatcher s)) = Inr (ev, q)"
    using r by (auto simp: sl_events_def andThen_Inr_iff)
  let ?d = "slDispatcher s\<lparr>edQueue := q\<rparr>"
  show ?thesis
  proof (cases ev)
    case None
    then have "s' = s\<lparr>slDispatcher := ?d\<rparr>" using r q by (simp add: sl_events_def)
    moreover have "jl_holds (mQueue q) []" using announced_poll [OF a q] None by simp
    moreover have "m \<le> edWakes (slDispatcher s)" using a by (simp add: announced_def)
    ultimately show ?thesis using w by (auto simp: announced_def)
  next
    case (Some e)
    have d: "announced ?d (Suc n, m)" using announced_poll [OF a q] Some by simp
    obtain rc where rc: "ev_get (ed_events ?d) e = Inr rc"
      using r q Some by (auto simp: sl_events_def andThen_Inr_iff Let_def)
    show ?thesis
    proof (cases "mEventId rc = kSelectorUpdateEventId")
      case True
      then obtain d1 where "ed_release ?d e = Inr d1" "s' = s\<lparr>slDispatcher := d1, slUpdateFds := True\<rparr>"
        using r q rc Some by (auto simp: sl_events_def andThen_Inr_iff)
      then show ?thesis using announced_release [OF d] by simp
    next
      case False
      then obtain fin d1 where "ed_handleEvent (onEvents (sender files events)) fuel ?d (Some e) = Inr (fin, d1)"
        "s' = s\<lparr>slDispatcher := d1, slRunning := (if fin then False else slRunning s)\<rparr>"
        using r q rc Some by (auto simp: sl_events_def andThen_Inr_iff)
      then show ?thesis using announced_handle [OF d] by simp
    qed
  qed
qed

lemma sl_handle_keeps:
  assumes a: "announced (slDispatcher s) (slRead s - of_bool got, m)" and w: "slRead s \<le> m" "got \<longrightarrow> 0 < slRead s"
    and r: "sl_handle (sender files events) fuel fds got s = Inr (fds', s')"
  shows "announced (slDispatcher s') (slRead s, m) \<and> slRead s' = slRead s \<and> slPipeReader s' = slPipeReader s"
proof -
  obtain s2 where e: "(if got then sl_events (sender files events) fuel s else Inr s) = Inr s2"
    and u: "(if slUpdateFds s2 then andThen (sl_fillPollFds s2) (\<lambda>fds. Inr (fds, s2\<lparr>slUpdateFds := False\<rparr>))
       else Inr (fds, s2)) = Inr (fds', s')"
    using r by (auto simp: sl_handle_def andThen_Inr_iff)
  have u: "slDispatcher s' = slDispatcher s2" "slRead s' = slRead s2" "slPipeReader s' = slPipeReader s2"
    using u by (auto simp: andThen_Inr_iff split: if_splits)
  show ?thesis
  proof (cases got)
    case True
    then obtain n where n: "slRead s = Suc n" using w(2) gr0_implies_Suc by blast
    have "announced (slDispatcher s) (n, m)" "Suc n \<le> m" using a w(1) True n by simp_all
    moreover have "sl_events (sender files events) fuel s = Inr s2" using e True by simp
    ultimately show ?thesis using sl_events_keeps n u by metis
  qed (use a e u in simp)
qed

section \<open>The selector as a state machine\<close>

text \<open>
  The selector between its threads. A send is two steps of the sending thread with no lock around both:
  the event goes into the queue, and then \<open>wakeThread\<close> writes to the pipe. \<open>swOwed\<close> counts the calls of
  \<open>wakeThread\<close> still to come of other threads, \<open>swLost\<close> those whose write failed, \<open>swPhase\<close> says where the
  selector's thread is: before its first table, in \<open>poll\<close> with the table, or in the walk over the table
  with the entries still to come and whether the pipe was read. The steps of other threads come between
  any two of these.
\<close>

datatype sl_phase =
    Starting
  | Polling "(int \<times> short) list"
  | Walking "(int \<times> short) list" "(int \<times> short) list" bool

record sl_world =
  swSelector :: selector
  swOwed :: nat
  swLost :: nat
  swPhase :: sl_phase

text \<open>The announcements in the pipe, four bytes each.\<close>

definition sw_unread :: "sl_world \<Rightarrow> nat" where
  "sw_unread w =
     edWakes (slDispatcher (swSelector w)) - (slRead (swSelector w) + swOwed w + swLost w)"

text \<open>\<open>res\<close> is what \<open>write\<close> gives; an announcement that was not written is only logged.\<close>

definition sl_wakeThread :: "int \<Rightarrow> sl_world \<Rightarrow> sl_world" where
  "sl_wakeThread res w =
     (if res \<noteq> 4 then w\<lparr>swOwed := swOwed w - 1, swLost := Suc (swLost w)\<rparr> else w\<lparr>swOwed := swOwed w - 1\<rparr>)"

definition sl_sent :: "selector \<Rightarrow> selector \<Rightarrow> nat" where
  "sl_sent s s' = edWakes (slDispatcher s') - edWakes (slDispatcher s)"

text \<open>\<open>poll\<close> reports the pipe as readable only while it holds an announcement; the pipe has one entry.\<close>

definition poll_law :: "sl_world \<Rightarrow> (int \<times> short) list \<Rightarrow> short list \<Rightarrow> bool" where
  "poll_law w fds revents \<longleftrightarrow>
     (let hits = pipe_hits (swSelector w) (zip (map fst fds) revents) in hits \<le> 1 \<and> hits \<le> sw_unread w)"

text \<open>
  What the listeners send during a walk or an event is written before they go on, since they run on the
  selector's thread; some of these writes may fail.
\<close>

inductive sl_step :: "selector_client \<Rightarrow> sl_world \<Rightarrow> sl_world \<Rightarrow> bool" for c where
  others: "sl_do (swSelector w) s' \<Longrightarrow>
    sl_step c w (w\<lparr>swSelector := s', swOwed := swOwed w + sl_sent (swSelector w) s'\<rparr>)"
| wake: "0 < swOwed w \<Longrightarrow> sl_step c w (sl_wakeThread res w)"
| start: "swPhase w = Starting \<Longrightarrow> sl_fillPollFds (swSelector w) = Inr fds \<Longrightarrow>
    sl_step c w (w\<lparr>swPhase := Polling fds\<rparr>)"
| poll: "swPhase w = Polling fds \<Longrightarrow> slRunning (swSelector w) \<Longrightarrow> poll_law w fds revents \<Longrightarrow>
    sl_step c w (w\<lparr>swPhase := Walking fds (zip (map fst fds) revents) False\<rparr>)"
| walk: "swPhase w = Walking fds (r # rs) got \<Longrightarrow>
    sl_poll_results c fuel [r] got (swSelector w) = Inr (got', s') \<Longrightarrow> lost \<le> sl_sent (swSelector w) s' \<Longrightarrow>
    sl_step c w (w\<lparr>swSelector := s', swLost := swLost w + lost, swPhase := Walking fds rs got'\<rparr>)"
| handle: "swPhase w = Walking fds [] got \<Longrightarrow>
    sl_handle c fuel fds got (swSelector w) = Inr (fds', s') \<Longrightarrow> lost \<le> sl_sent (swSelector w) s' \<Longrightarrow>
    sl_step c w (w\<lparr>swSelector := s', swLost := swLost w + lost, swPhase := Polling fds'\<rparr>)"

inductive_cases sl_stepE: "sl_step c w w'"

definition sw_got :: "sl_world \<Rightarrow> bool" where
  "sw_got w = (case swPhase w of Walking fds rs got \<Rightarrow> got | _ \<Rightarrow> False)"

definition sw_hits :: "sl_world \<Rightarrow> nat" where
  "sw_hits w = (case swPhase w of Walking fds rs got \<Rightarrow> pipe_hits (swSelector w) rs | _ \<Rightarrow> 0)"

text \<open>The announcement that a walk has read and not yet used up still stands for an event in the queue.\<close>

definition sw_inv :: "sl_world \<Rightarrow> bool" where
  "sw_inv w \<longleftrightarrow>
     announced (slDispatcher (swSelector w))
       (slRead (swSelector w) - of_bool (sw_got w), slRead (swSelector w) + swOwed w + swLost w + sw_hits w) \<and>
     sw_hits w + of_bool (sw_got w) \<le> 1 \<and> (sw_got w \<longrightarrow> 0 < slRead (swSelector w))"

lemma announced_sent:
  assumes "announced (slDispatcher s) (a, b)" "announced (slDispatcher s') (a', edWakes (slDispatcher s))"
    "k \<le> b + sl_sent s s'"
  shows "announced (slDispatcher s') (a', k)"
  using assms by (auto simp: announced_def sl_sent_def)

lemma announced_all: "announced d (a, b) \<Longrightarrow> announced d (a, edWakes d)"
  by (simp add: announced_def)

lemma sl_step_inv: "sl_step (sender files events) w w' \<Longrightarrow> sw_inv w \<Longrightarrow> sw_inv w'"
proof (induction rule: sl_step.induct)
  case (others w s')
  let ?s = "swSelector w"
  have a: "announced (slDispatcher ?s) (slRead ?s - of_bool (sw_got w), slRead ?s + swOwed w + swLost w + sw_hits w)"
    using others.prems by (simp add: sw_inv_def)
  note k = sl_do_keeps [OF others.hyps, unfolded sl_keeps_def]
  have k': "slRead s' = slRead ?s" "slPipeReader s' = slPipeReader ?s" using k by blast+
  let ?w = "w\<lparr>swSelector := s', swOwed := swOwed w + sl_sent ?s s'\<rparr>"
  have h: "sw_hits ?w = sw_hits w" "sw_got ?w = sw_got w"
    by (simp_all add: sw_hits_def sw_got_def pipe_hits_cong [OF k'(2)] split: sl_phase.split)
  have "announced (slDispatcher s') (slRead ?s - of_bool (sw_got w), edWakes (slDispatcher ?s))"
    using k announced_all [OF a] by blast
  from announced_sent [OF a this] h k' others.prems show ?case by (simp add: sw_inv_def)
next
  case (wake w res)
  let ?w = "sl_wakeThread res w"
  have w: "swSelector ?w = swSelector w" "sw_hits ?w = sw_hits w" "sw_got ?w = sw_got w"
    "swOwed ?w + swLost ?w \<le> swOwed w + swLost w"
    using wake.hyps by (simp_all add: sl_wakeThread_def sw_hits_def sw_got_def split: sl_phase.split)
  then show ?case using wake.prems by (auto simp: sw_inv_def announced_def)
next
  case (start w fds)
  then show ?case by (simp add: sw_inv_def sw_hits_def sw_got_def)
next
  case (poll w fds revents)
  then show ?case by (auto simp: sw_inv_def sw_hits_def sw_got_def poll_law_def sw_unread_def Let_def announced_def)
next
  case (walk w fds r rs got fuel got' s' lost)
  let ?s = "swSelector w"
  have ph: "sw_got w = got" "sw_hits w = pipe_hits ?s [r] + pipe_hits ?s rs"
    using walk.hyps(1) pipe_hits_Cons [of ?s r rs] by (simp_all add: sw_got_def sw_hits_def)
  have a: "announced (slDispatcher ?s) (slRead ?s - of_bool got, slRead ?s + swOwed w + swLost w + sw_hits w)"
    using walk.prems ph by (simp add: sw_inv_def)
  note k = sl_poll_results_read [OF walk.hyps(2) announced_all [OF a]]
  let ?w = "w\<lparr>swSelector := s', swLost := swLost w + lost, swPhase := Walking fds rs got'\<rparr>"
  have reader: "slPipeReader s' = slPipeReader ?s" using k by blast
  have h: "sw_hits ?w = pipe_hits ?s rs" "sw_got ?w = got'"
    by (simp_all add: sw_hits_def sw_got_def pipe_hits_cong [OF reader])
  have le: "pipe_hits ?s [r] + pipe_hits ?s rs + of_bool got \<le> 1" "got \<longrightarrow> 0 < slRead ?s"
    using walk.prems ph by (simp_all add: sw_inv_def)
  have eq: "slRead s' - of_bool got' = slRead ?s - of_bool got" using k le by (cases got) auto
  have "announced (slDispatcher s') (slRead ?s - of_bool got, edWakes (slDispatcher ?s))" using k by blast
  from announced_sent [OF a this, of "slRead s' + swOwed w + (swLost w + lost) + pipe_hits ?s rs"]
  have "announced (slDispatcher s') (slRead s' - of_bool got', slRead s' + swOwed w + (swLost w + lost) + pipe_hits ?s rs)"
    using k ph walk.hyps(3) eq by simp
  then show ?case unfolding sw_inv_def h using k le by (auto simp: of_bool_def split: if_splits)
next
  case (handle w fds got fuel fds' s' lost)
  let ?s = "swSelector w"
  have ph: "sw_got w = got" "sw_hits w = 0"
    using handle.hyps(1) by (simp_all add: sw_got_def sw_hits_def pipe_hits_def)
  have a: "announced (slDispatcher ?s) (slRead ?s - of_bool got, slRead ?s + swOwed w + swLost w)"
    using handle.prems ph by (simp add: sw_inv_def)
  have le: "slRead ?s \<le> edWakes (slDispatcher ?s)" "got \<longrightarrow> 0 < slRead ?s"
    using handle.prems ph by (auto simp: sw_inv_def announced_def)
  note k = sl_handle_keeps [OF announced_all [OF a] le handle.hyps(2)]
  then have "announced (slDispatcher s') (slRead ?s, edWakes (slDispatcher ?s))" by blast
  from announced_sent [OF a this] handle.hyps(3) k show ?case
    by (simp add: sw_inv_def sw_hits_def sw_got_def)
qed

section \<open>Properties\<close>

text \<open>Registrations from a new selector, made on its own thread.\<close>

fun sl_adds :: "(int \<times> short \<times> nat option \<times> int) list \<Rightarrow> selector \<Rightarrow> selector outcome" where
  "sl_adds [] s = Inr s"
| "sl_adds ((fd, events, listener, pd) # regs) s =
     andThen (sl_addListener True 0 s fd events listener pd) (sl_adds regs)"

definition reg_node :: "int \<times> short \<times> nat option \<times> int \<Rightarrow> selector_node" where
  "reg_node = (\<lambda>(fd, events, listener, pd). \<lparr>mFd = fd, mEvents = events, snListener = listener, mPrivateData = pd\<rparr>)"

lemma Selector_new_table:
  "\<exists>s. Selector_new self h m reader = Inr s \<and> sl_table s [] \<and> announced (slDispatcher s) (0, 0) \<and> slRead s = 0 \<and> slPipeReader s = reader"
proof -
  obtain l1 :: "nat jlist" where l1: "jl_list = Inr l1" "jl_holds l1 []" using jl_list_holds by blast
  obtain l2 :: "addr jlist" where l2: "jl_list = Inr l2" "jl_holds l2 []" using jl_list_holds by blast
  show ?thesis
    unfolding Selector_new_def EventDispatcher_new_def EventQueue_new_def l1(1) l2(1)
    using l1(2) l2(2) by (auto simp: sl_table_def sl_nodes_def ntbl_def announced_def)
qed

lemma sl_add_table:
  assumes "sl_table s ts"
  shows "\<exists>s'. sl_addListener True p s fd events listener pd = Inr s' \<and>
    sl_table s' (ts @ [reg_node (fd, events, listener, pd)]) \<and> slPipeReader s' = slPipeReader s \<and> slUpdateFds s' \<and>
    slCalls s' = slCalls s"
proof -
  obtain ns where ns: "jl_holds (slList s) ns" "sl_nodes s ns" "ts = ntbl (slNodes s) ns"
    using assms by (auto simp: sl_table_def)
  obtain l where l: "jl_push_back (slList s) (slNextNode s) = Inr l" "jl_holds l (ns @ [slNextNode s])"
    using jl_push_back_holds [OF ns(1)] by blast
  have new: "slNextNode s \<notin> set ns" using ns(2) by (auto simp: sl_nodes_def)
  let ?s = "s\<lparr>slNextNode := Suc (slNextNode s), slNodes := (slNodes s)(slNextNode s \<mapsto> reg_node (fd, events, listener, pd)),
    slList := l, slUpdateFds := True\<rparr>"
  have "sl_nodes ?s (ns @ [slNextNode s])" using ns(2) new by (auto simp: sl_nodes_def less_Suc_eq)
  moreover have "ntbl (slNodes ?s) (ns @ [slNextNode s]) = ts @ [reg_node (fd, events, listener, pd)]"
    using ns(3) ntbl_other [OF new] by (simp add: ntbl_def)
  ultimately have "sl_table ?s (ts @ [reg_node (fd, events, listener, pd)])"
    using l(2) unfolding sl_table_def by (intro exI [of _ "ns @ [slNextNode s]"]) simp
  moreover have "sl_addListener True p s fd events listener pd = Inr ?s"
    using l(1) by (simp add: sl_addListener_def Let_def sl_updateListeners_def reg_node_def)
  ultimately show ?thesis by auto
qed

lemma sl_adds_table:
  "sl_table s ts \<Longrightarrow> \<exists>s'. sl_adds regs s = Inr s' \<and> sl_table s' (ts @ map reg_node regs) \<and> slPipeReader s' = slPipeReader s \<and> slCalls s' = slCalls s"
proof (induction regs arbitrary: s ts)
  case (Cons r regs)
  obtain fd events listener pd where r: "r = (fd, events, listener, pd)" by (cases r)
  from sl_add_table [OF Cons.prems] obtain s1 where "sl_addListener True 0 s fd events listener pd = Inr s1"
    "sl_table s1 (ts @ [reg_node r])" "slPipeReader s1 = slPipeReader s" "slCalls s1 = slCalls s" unfolding r by blast
  with Cons.IH [of s1 "ts @ [reg_node r]"] show ?case by (auto simp: r)
qed simp

definition no_timers :: timer_manager where
  "no_timers = \<lparr>tmHeap = Map.empty, tmNext = 0, mDefaultTimer = 0, mTimers = []\<rparr>"

lemma sl_built:
  obtains s0 s where "Selector_new self h m reader = Inr s0" "sl_adds regs s0 = Inr s"
    "sl_table s (map reg_node regs)" "slPipeReader s = reader"
  using Selector_new_table [of self h m reader] sl_adds_table [of _ "[]" regs] by fastforce

text \<open>The selector when its constructor returns: its thread has been started, nothing is owed or lost.\<close>

definition sl_world_new :: "selector \<Rightarrow> sl_world" where
  "sl_world_new s = \<lparr>swSelector = s, swOwed = 0, swLost = 0, swPhase = Starting\<rparr>"

text \<open>
  C11: no event is forgotten between the queue and the pipe. Whatever other threads send, call, register
  and remove, whatever the selector's listeners send, with the queue and the pipe written in two steps
  that other threads may come between, and in every order of these steps with the thread's walk over the
  table and its handling of events: the announcements that were read, are still to be written or could
  not be written never exceed the sends, and the queued events never exceed the announcements in the
  pipe, those still to be written, those whose write failed, and the one that the thread has read in
  this turn. So when the thread sits in \<open>poll\<close>, no write has failed and the pipe is empty, every event in
  the queue has a sender that is just about to write. A failed write, which the code only logs, is not
  made up for: its event stays in the queue until later announcements bring the thread to it.
\<close>

theorem sl_no_event_lost:
  assumes "Selector_new self h m reader = Inr s" "(sl_step (sender files events))\<^sup>*\<^sup>* (sl_world_new s) w"
  shows "\<exists>es. jl_holds (mQueue (edQueue (slDispatcher (swSelector w)))) es \<and>
    slRead (swSelector w) + swOwed w + swLost w \<le> edWakes (slDispatcher (swSelector w)) \<and>
    length es \<le> sw_unread w + swOwed w + swLost w + of_bool (sw_got w) \<and>
    (swPhase w = Polling fds \<and> sw_unread w = 0 \<and> swLost w = 0 \<longrightarrow> length es \<le> swOwed w)"
proof -
  have "sw_inv (sl_world_new s)" using Selector_new_table [of self h m reader] assms(1)
    by (auto simp: sw_inv_def sl_world_new_def sw_got_def sw_hits_def)
  with assms(2) have i: "sw_inv w" by (induction rule: rtranclp_induct) (auto intro: sl_step_inv)
  then obtain es where "jl_holds (mQueue (edQueue (slDispatcher (swSelector w)))) es"
    "length es + (slRead (swSelector w) - of_bool (sw_got w)) \<le> edWakes (slDispatcher (swSelector w))"
    "slRead (swSelector w) + swOwed w + swLost w \<le> edWakes (slDispatcher (swSelector w))"
    "sw_got w \<longrightarrow> 0 < slRead (swSelector w)"
    by (auto simp: sw_inv_def announced_def)
  moreover have "swPhase w = Polling fds \<Longrightarrow> \<not> sw_got w" by (simp add: sw_got_def)
  ultimately show ?thesis
    by (intro exI [of _ es]) (cases "sw_got w"; fastforce simp: sw_unread_def)
qed

lemma sl_no_event_lost_witness:
  "\<exists>s w. Selector_new 1 [10 \<mapsto> (Event_new 7 PRIORITY_NORMAL)\<lparr>mRefCount := 1\<rparr>] no_timers 3 = Inr s \<and>
    (sl_step (sender (\<lambda>f. []) (\<lambda>l. [10])))\<^sup>*\<^sup>* (sl_world_new s) w \<and>
    edWakes (slDispatcher (swSelector w)) = 1 \<and> swOwed w = 0 \<and> swLost w = 0 \<and> sw_unread w = 1 \<and>
    (\<exists>es. jl_holds (mQueue (edQueue (slDispatcher (swSelector w)))) es \<and> length es \<le> 1)"
proof -
  define h :: eheap where "h = [10 \<mapsto> (Event_new 7 PRIORITY_NORMAL)\<lparr>mRefCount := 1\<rparr>]"
  let ?m = "no_timers"
  have c: "client_events h" by (auto simp: client_events_def h_def Event_new_def split: if_splits)
  obtain q ext where q: "EventQueue_new h = Inr q" "pq_inv h q ([], []) ext" using pq_inv_new [OF c] by blast
  obtain l :: "addr jlist" where l: "jl_list = Inr l" using jl_list_holds by blast
  obtain s0 where s0: "Selector_new 1 h ?m 3 = Inr s0" "edQueue (slDispatcher s0) = q"
    "edWakes (slDispatcher s0) = 0" "slRead s0 = 0"
    unfolding Selector_new_def EventDispatcher_new_def q(1) l by auto
  have e: "eqEvents q = h" using q(1) unfolding EventQueue_new_def by (auto simp: andThen_Inr_iff)
  have r: "eqEvents q 10 = Some ((Event_new 7 PRIORITY_NORMAL)\<lparr>mRefCount := 1\<rparr>)" by (simp add: e h_def)
  have rep: "eq_rep q [] ext" using q(2) by (simp add: pq_inv_def)
  obtain q' where q': "eq_SendEvent q 10 = Inr q'"
    using eq_SendEvent_rep [OF rep r] by (auto simp: Event_new_def e h_def)
  let ?d = "(slDispatcher s0)\<lparr>edQueue := q', edWakes := Suc 0\<rparr>"
  let ?c = "sender (\<lambda>f. []) (\<lambda>l. [10])"
  let ?w1 = "(sl_world_new s0)\<lparr>swSelector := s0\<lparr>slDispatcher := ?d\<rparr>, swOwed := 1\<rparr>"
  have "ed_sendEvent (slDispatcher s0) 10 = Inr ?d" using q' s0 by (simp add: ed_sendEvent_def)
  from sl_step.others [of "sl_world_new s0", OF _, of "s0\<lparr>slDispatcher := ?d\<rparr>" ?c] sl_do.send [OF this]
  have 1: "sl_step ?c (sl_world_new s0) ?w1" using s0(3) by (simp add: sl_world_new_def sl_sent_def)
  have "sl_step ?c ?w1 (sl_wakeThread 4 ?w1)" by (rule sl_step.wake) simp
  with 1 have "(sl_step ?c)\<^sup>*\<^sup>* (sl_world_new s0) (sl_wakeThread 4 ?w1)" by (meson r_into_rtranclp rtranclp.rtrancl_into_rtrancl)
  with sl_no_event_lost [OF s0(1) this] s0 show ?thesis unfolding h_def
    by (intro exI [of _ s0] exI [of _ "sl_wakeThread 4 ?w1"])
      (auto simp: sl_wakeThread_def sw_unread_def sw_got_def sl_world_new_def)
qed

text \<open>
  C12: the table for \<open>poll\<close>. The first entry is the pipe; behind it every file with a listener stands
  once, in the order of its first listener, as long as there are fewer than 63 of them. Its events are
  those that all its listeners ask for (a conjunction: \<open>&=\<close>), so that two listeners for different
  events of a file make the selector wait for neither.
\<close>

theorem sl_poll_table:
  assumes "sl_table s ts" "length (first_fds ts) < 63"
  shows "sl_fillPollFds s =
    Inr ((slPipeReader s, POLLIN) # map (\<lambda>fd. (fd, shared_events fd ts)) (first_fds ts))"
proof -
  obtain w ns where w: "jl_seq (slList s) w ns" "sl_nodes s ns" "ts = ntbl (slNodes s) ns"
    using assms(1) by (auto simp: sl_table_def jl_holds_def)
  have f: "length ns < jl_fresh (slList s)" using jl_fuel [of "slList s" ns] w(1) by (force simp: jl_holds_def)
  show ?thesis
    using sl_fill_loop_table [OF w(1,2), of 0] f w(3) assms(2) jl.begin_law [OF w(1)]
    by (simp add: sl_fillPollFds_def first_fds_simps)
qed

lemma sl_poll_table_witness:
  "\<exists>s0 s. Selector_new 1 Map.empty no_timers 3 = Inr s0 \<and>
    sl_adds [(5, 1, Some 70, 0), (6, 1, Some 71, 0), (5, 4, Some 72, 0)] s0 = Inr s \<and>
    sl_fillPollFds s = Inr [(3, POLLIN), (5, 0), (6, 1)]"
proof -
  let ?regs = "[(5, 1, Some 70, 0), (6, 1, Some 71, 0), (5, 4, Some 72, 0)] :: (int \<times> short \<times> nat option \<times> int) list"
  obtain s0 s where s: "Selector_new 1 Map.empty no_timers 3 = Inr s0" "sl_adds ?regs s0 = Inr s"
    "sl_table s (map reg_node ?regs)" "slPipeReader s = 3" by (rule sl_built)
  define ts where "ts = map reg_node ?regs"
  have f: "first_fds ts = [5, 6]" by (simp add: ts_def first_fds_def reg_node_def)
  have e: "shared_events 5 ts = 0" "shared_events 6 ts = 1"
    by (simp_all add: ts_def shared_events_def reg_node_def)
  have "sl_fillPollFds s = Inr [(3, POLLIN), (5, 0), (6, 1)]"
    using sl_poll_table [OF s(3), folded ts_def, unfolded f s(4)] by (simp add: e)
  with s(1,2) show ?thesis by blast
qed

text \<open>
  \<open>removeListener\<close> looks for the file only: whichever listener it is given, every listener of the
  file goes, those of other files stay in their order, and the table for \<open>poll\<close> is marked for refilling
  when there was one.
\<close>

theorem sl_removes_all_listeners:
  assumes "sl_table s ts"
  shows "\<exists>s'. sl_removeListener True p s fd listener = Inr s' \<and> sl_table s' (filter (\<lambda>n. mFd n \<noteq> fd) ts) \<and>
    slUpdateFds s' = (slUpdateFds s \<or> fd \<in> mFd ` set ts) \<and> slDispatcher s' = slDispatcher s"
  using sl_removeListener_table [OF assms, of p fd listener]
  by (auto simp: sl_table_def sl_nodes_def)

lemma sl_removes_all_listeners_witness:
  "\<exists>s0 s s'. Selector_new 1 Map.empty no_timers 3 = Inr s0 \<and>
    sl_adds [(5, 1, Some 70, 0), (6, 1, Some 71, 0), (5, 4, Some 72, 0)] s0 = Inr s \<and>
    sl_removeListener True 0 s 5 (Some 99) = Inr s' \<and> sl_table s' [reg_node (6, 1, Some 71, 0)]"
proof -
  let ?regs = "[(5, 1, Some 70, 0), (6, 1, Some 71, 0), (5, 4, Some 72, 0)] :: (int \<times> short \<times> nat option \<times> int) list"
  obtain s0 s where s: "Selector_new 1 Map.empty no_timers 3 = Inr s0" "sl_adds ?regs s0 = Inr s"
    "sl_table s (map reg_node ?regs)" by (rule sl_built)
  have "filter (\<lambda>n. mFd n \<noteq> 5) (map reg_node ?regs) = [reg_node (6, 1, Some 71, 0)]" by (simp add: reg_node_def)
  then show ?thesis using s(1,2) sl_removes_all_listeners [OF s(3), of 0 5 "Some 99"] by auto
qed

text \<open>
  A file for which \<open>poll\<close> reports something has every one of its listeners called once, in the
  order of registration, with its own private data; after a hang-up or an invalid file all of them are
  off the list and the table for \<open>poll\<close> is refilled. (The listeners here do not call the selector.)
\<close>

theorem sl_calls_each_listener:
  assumes "sl_table s ts" "length ts < fuel"
  shows "\<exists>s'. sl_callListeners quiet fuel s fd events = Inr (hang_up events \<and> fd \<in> mFd ` set ts, s') \<and>
    slCalls s' = slCalls s @ file_calls fd events ts \<and> slDispatcher s' = slDispatcher s \<and>
    sl_table s' (if hang_up events then filter (\<lambda>n. mFd n \<noteq> fd) ts else ts)"
  by (rule sl_callListeners_walk [OF assms])

lemma sl_calls_each_listener_witness:
  "\<exists>s0 s s'. Selector_new 1 Map.empty no_timers 3 = Inr s0 \<and>
    sl_adds [(5, 1, Some 70, 8), (6, 1, Some 71, 0), (5, 4, Some 72, 9)] s0 = Inr s \<and>
    sl_callListeners quiet 4 s 5 POLLHUP = Inr (True, s') \<and>
    slCalls s' = slCalls s @ [(70, 5, POLLHUP, 8), (72, 5, POLLHUP, 9)] \<and>
    sl_table s' [reg_node (6, 1, Some 71, 0)]"
proof -
  let ?regs = "[(5, 1, Some 70, 8), (6, 1, Some 71, 0), (5, 4, Some 72, 9)] :: (int \<times> short \<times> nat option \<times> int) list"
  obtain s0 s where s: "Selector_new 1 Map.empty no_timers 3 = Inr s0" "sl_adds ?regs s0 = Inr s"
    "sl_table s (map reg_node ?regs)" by (rule sl_built)
  have "hang_up POLLHUP" by (simp add: hang_up_def POLLHUP_def POLLNVAL_def)
  moreover have "filter (\<lambda>n. mFd n \<noteq> 5) (map reg_node ?regs) = [reg_node (6, 1, Some 71, 0)]"
    "file_calls 5 POLLHUP (map reg_node ?regs) = [(70, 5, POLLHUP, 8), (72, 5, POLLHUP, 9)]"
    "5 \<in> mFd ` set (map reg_node ?regs)" "length (map reg_node ?regs) < 4"
    by (simp_all add: reg_node_def file_calls_def)
  ultimately show ?thesis using s(1,2) sl_calls_each_listener [OF s(3), of 4 5 POLLHUP] by auto
qed

definition closer :: selector_client where
  "closer = quiet\<lparr>onFileEvents := \<lambda>interface fd events pd s. sl_removeListener True 0 s fd (Some interface)\<rparr>"

definition sl_two_listeners :: "(bool \<times> selector) outcome" where
  "sl_two_listeners =
   andThen (Selector_new 1 Map.empty no_timers 3) (\<lambda>s.
   andThen (sl_adds [(5, 1, Some 70, 0), (5, 1, Some 71, 0)] s) (\<lambda>s.
   sl_callListeners closer 4 s 5 1))"

lemma sl_two_listeners_fail: "(case sl_two_listeners of Inl e \<Rightarrow> e = UndefinedBehaviour | Inr _ \<Rightarrow> False)"
  by code_simp

text \<open>
  A listener that takes its own file off the selector, as a listener does on an error, while
  another listener of the same file follows: the walk has already stepped to the node that the removal
  frees, and reads freed memory.
\<close>

theorem sl_remove_in_callback:
  "andThen (Selector_new 1 Map.empty no_timers 3) (\<lambda>s.
   andThen (sl_adds [(5, 1, Some 70, 0), (5, 1, Some 71, 0)] s) (\<lambda>s.
   sl_callListeners closer 4 s 5 1)) = Inl UndefinedBehaviour"
  using sl_two_listeners_fail by (simp add: sl_two_listeners_def split: sum.splits)

end
