(* ===== verification/JHVector.thy ===== *)
theory JHVector
  imports JH_Prelude
begin

text \<open>
  The growing array \<open>JetHead::vector\<close> (include/jh_vector.h): a raw buffer of \<open>mAllocated\<close> cells of
  which the first \<open>mSize\<close> hold objects. The buffer is modelled cell by cell, with placement new and
  explicit destructor calls, and the calls of both are counted. A value that is pushed or inserted is given as
  such: a reference to an element of the same vector, which the code reads after the buffer may have been freed, is
  not modelled.
\<close>

section \<open>State\<close>

text \<open>
  A cell is None while it is raw memory. \<open>vMade\<close> and \<open>vGone\<close> count the objects constructed in the
  buffers of the vector and those destroyed in them.
\<close>

record 'a jvec =
  mAllocated :: nat
  mData :: "'a option list option"
  mSize :: nat
  vMade :: nat
  vGone :: nat

definition DEFAULT_ALLOCATION :: nat where "DEFAULT_ALLOCATION = 32"

text \<open>Arithmetic on \<open>unsigned\<close>.\<close>

definition unsig :: "nat \<Rightarrow> nat" where "unsig n = n mod 2 ^ 32"

definition vec_raw :: "nat \<Rightarrow> 'a option list" where "vec_raw n = replicate n None"

definition vec_new_n :: "nat \<Rightarrow> 'a jvec" where
  "vec_new_n allocated = \<lparr>mAllocated = allocated, mData = Some (vec_raw allocated), mSize = 0, vMade = 0, vGone = 0\<rparr>"

definition vec_new :: "'a jvec" where
  "vec_new = vec_new_n DEFAULT_ALLOCATION"

text \<open>Placement new at a cell, the object in a cell, and its destructor.\<close>

definition vec_make :: "'a jvec \<Rightarrow> nat \<Rightarrow> 'a \<Rightarrow> 'a jvec outcome" where
  "vec_make v i x =
     (case mData v of
        None \<Rightarrow> Inl UndefinedBehaviour
      | Some buf \<Rightarrow>
          if i < length buf then Inr (v\<lparr>mData := Some (buf[i := Some x]), vMade := Suc (vMade v)\<rparr>)
          else Inl UndefinedBehaviour)"

definition vec_cell :: "'a jvec \<Rightarrow> nat \<Rightarrow> 'a outcome" where
  "vec_cell v i =
     (case mData v of
        None \<Rightarrow> Inl UndefinedBehaviour
      | Some buf \<Rightarrow>
          if i < length buf then (case buf ! i of None \<Rightarrow> Inl UndefinedBehaviour | Some x \<Rightarrow> Inr x)
          else Inl UndefinedBehaviour)"

definition vec_delete :: "'a jvec \<Rightarrow> nat \<Rightarrow> 'a jvec outcome" where
  "vec_delete v i =
     andThen (vec_cell v i) (\<lambda>x. Inr (v\<lparr>mData := map_option (\<lambda>buf. buf[i := None]) (mData v), vGone := Suc (vGone v)\<rparr>))"

text \<open>The loops \<open>for (i = a; i < n; i++) mData[i].~T()\<close> and \<open>for (i = a; i < n; i++) new (mData + i) T()\<close>.\<close>

function vec_delete_loop :: "'a jvec \<Rightarrow> nat \<Rightarrow> nat \<Rightarrow> 'a jvec outcome" where
  "vec_delete_loop v i n =
     (if i < n then andThen (vec_delete v i) (\<lambda>v. vec_delete_loop v (Suc i) n) else Inr v)"
  by auto
termination by (relation "measure (\<lambda>(v, i, n). n - i)") auto

function vec_make_loop :: "'a \<Rightarrow> 'a jvec \<Rightarrow> nat \<Rightarrow> nat \<Rightarrow> 'a jvec outcome" where
  "vec_make_loop d v i n =
     (if i < n then andThen (vec_make v i d) (\<lambda>v. vec_make_loop d v (Suc i) n) else Inr v)"
  by auto
termination by (relation "measure (\<lambda>(d, v, i, n). n - i)") auto

section \<open>Growing\<close>

text \<open>Every object is copied into the new buffer, and its original destroyed.\<close>

function vec_move_loop :: "'a option list \<Rightarrow> 'a jvec \<Rightarrow> nat \<Rightarrow> ('a option list \<times> 'a jvec) outcome" where
  "vec_move_loop temp v i =
     (if i < mSize v
      then andThen (vec_cell v i) (\<lambda>x.
           if i < length temp
           then andThen (vec_delete v i) (\<lambda>v'.
                vec_move_loop (temp[i := Some x]) (v\<lparr>mData := mData v', vMade := Suc (vMade v), vGone := vGone v'\<rparr>) (Suc i))
           else Inl UndefinedBehaviour)
      else Inr (temp, v))"
  by auto
termination by (relation "measure (\<lambda>(temp, v, i). mSize v - i)") auto

definition vec_sizeup :: "'a jvec \<Rightarrow> nat \<Rightarrow> 'a jvec outcome" where
  "vec_sizeup v newSize =
     (let newSize = (if newSize = 0
                     then if mAllocated v \<noteq> 0 then unsig (mAllocated v * 2) else DEFAULT_ALLOCATION
                     else newSize);
          temp = vec_raw newSize in
      andThen (if mData v \<noteq> None then vec_move_loop temp v 0 else Inr (temp, v)) (\<lambda>(temp, v).
      Inr (v\<lparr>mData := Some temp, mAllocated := newSize\<rparr>)))"

section \<open>The operations\<close>

definition vec_clear :: "'a jvec \<Rightarrow> 'a jvec outcome" where
  "vec_clear v = andThen (vec_delete_loop v 0 (mSize v)) (\<lambda>v. Inr (v\<lparr>mSize := 0\<rparr>))"

definition vec_at :: "'a jvec \<Rightarrow> nat \<Rightarrow> 'a outcome" where
  "vec_at v ind = (if ind \<ge> mSize v then Inl UndefinedBehaviour else vec_cell v ind)"

text \<open>Writing through the reference that \<open>operator[]\<close> gives: an assignment to the object in the cell.\<close>

definition vec_put :: "'a jvec \<Rightarrow> nat \<Rightarrow> 'a \<Rightarrow> 'a jvec outcome" where
  "vec_put v ind x =
     andThen (vec_at v ind) (\<lambda>old. Inr (v\<lparr>mData := map_option (\<lambda>buf. buf[ind := Some x]) (mData v)\<rparr>))"

function vec_copy_loop :: "'a jvec \<Rightarrow> 'a jvec \<Rightarrow> nat \<Rightarrow> 'a jvec outcome" where
  "vec_copy_loop v rhs i =
     (if i < mSize rhs
      then andThen (vec_cell rhs i) (\<lambda>x. andThen (vec_make v i x) (\<lambda>v. vec_copy_loop v rhs (Suc i)))
      else Inr v)"
  by auto
termination by (relation "measure (\<lambda>(v, rhs, i). mSize rhs - i)") auto

text \<open>\<open>rhs\<close> is None when it is the vector itself, which \<open>clear\<close> has then emptied.\<close>

definition vec_assign :: "'a jvec \<Rightarrow> 'a jvec option \<Rightarrow> 'a jvec outcome" where
  "vec_assign v rhs =
     andThen (vec_clear v) (\<lambda>v.
     let rhs = (case rhs of None \<Rightarrow> v | Some r \<Rightarrow> r) in
     andThen (if mAllocated v < mSize rhs then vec_sizeup v (mSize rhs) else Inr v) (\<lambda>v.
     andThen (vec_copy_loop v rhs 0) (\<lambda>v. Inr (v\<lparr>mSize := mSize rhs\<rparr>))))"

definition vec_copy :: "'a jvec \<Rightarrow> 'a jvec outcome" where
  "vec_copy rhs = vec_assign \<lparr>mAllocated = 0, mData = None, mSize = 0, vMade = 0, vGone = 0\<rparr> (Some rhs)"

definition vec_push_back :: "'a jvec \<Rightarrow> 'a \<Rightarrow> 'a jvec outcome" where
  "vec_push_back v val =
     andThen (if mSize v = mAllocated v then vec_sizeup v 0 else Inr v) (\<lambda>v.
     andThen (vec_make v (mSize v) val) (\<lambda>v. Inr (v\<lparr>mSize := unsig (Suc (mSize v))\<rparr>)))"

function vec_shift_loop :: "'a jvec \<Rightarrow> nat \<Rightarrow> 'a jvec outcome" where
  "vec_shift_loop v i =
     (if i < mSize v - 1
      then andThen (vec_cell v (i + 1)) (\<lambda>x.
           andThen (vec_cell v i) (\<lambda>old.
           vec_shift_loop (v\<lparr>mData := map_option (\<lambda>buf. buf[i := Some x]) (mData v)\<rparr>) (Suc i)))
      else Inr v)"
  by auto
termination by (relation "measure (\<lambda>(v, i). mSize v - i)") auto

text \<open>\<open>erase\<close> aborts the program for an index out of range.\<close>

definition vec_erase :: "'a jvec \<Rightarrow> nat \<Rightarrow> 'a jvec outcome" where
  "vec_erase v ind =
     (if ind \<ge> mSize v then Inl Fatal
      else andThen (vec_shift_loop v ind) (\<lambda>v.
           andThen (vec_delete v (mSize v - 1)) (\<lambda>v. Inr (v\<lparr>mSize := mSize v - 1\<rparr>))))"

definition vec_reserve :: "'a jvec \<Rightarrow> nat \<Rightarrow> 'a jvec outcome" where
  "vec_reserve v s = (if mAllocated v < s then vec_sizeup v s else Inr v)"

text \<open>\<open>d\<close> is what the default constructor of the elements makes.\<close>

definition vec_resize :: "'a \<Rightarrow> 'a jvec \<Rightarrow> nat \<Rightarrow> 'a jvec outcome" where
  "vec_resize d v newSize =
     andThen (if mAllocated v < newSize
              then if newSize < unsig (mAllocated v * 2) then vec_sizeup v 0 else vec_sizeup v newSize
              else Inr v) (\<lambda>v.
     andThen (vec_delete_loop v newSize (mSize v)) (\<lambda>v.
     andThen (vec_make_loop d v (mSize v) newSize) (\<lambda>v. Inr (v\<lparr>mSize := newSize\<rparr>))))"

definition vec_destroy :: "'a jvec \<Rightarrow> 'a jvec outcome" where
  "vec_destroy v =
     (if mData v \<noteq> None then andThen (vec_clear v) (\<lambda>v. Inr (v\<lparr>mData := None\<rparr>)) else Inr v)"

declare vec_delete_loop.simps [simp del] vec_make_loop.simps [simp del] vec_move_loop.simps [simp del]
  vec_copy_loop.simps [simp del] vec_shift_loop.simps [simp del]

section \<open>The contents as a list\<close>

definition vec_buf :: "'a jvec \<Rightarrow> 'a option list" where
  "vec_buf v = (case mData v of None \<Rightarrow> [] | Some buf \<Rightarrow> buf)"

definition vec_rep :: "'a jvec \<Rightarrow> 'a list \<Rightarrow> bool" where
  "vec_rep v xs \<longleftrightarrow> mSize v = length xs \<and> length xs \<le> mAllocated v \<and> mAllocated v < 2 ^ 32 \<and>
     vec_buf v = map Some xs @ replicate (mAllocated v - length xs) None \<and>
     (mData v = None \<longrightarrow> mAllocated v = 0) \<and> vMade v = vGone v + length xs"

lemma vec_new_rep [simp]: "n < 2 ^ 32 \<Longrightarrow> vec_rep (vec_new_n n) []" "vec_rep vec_new []"
  by (simp_all add: vec_rep_def vec_new_def vec_new_n_def vec_buf_def vec_raw_def DEFAULT_ALLOCATION_def)

lemma vec_cell_buf: "vec_cell v i =
    (if i < length (vec_buf v) then (case vec_buf v ! i of None \<Rightarrow> Inl UndefinedBehaviour | Some x \<Rightarrow> Inr x)
     else Inl UndefinedBehaviour)"
  by (simp add: vec_cell_def vec_buf_def split: option.split)

text \<open>What the loops do to a buffer whose cells in the range hold objects.\<close>

definition live :: "'a option list \<Rightarrow> nat \<Rightarrow> nat \<Rightarrow> bool" where
  "live buf i n \<longleftrightarrow> n \<le> length buf \<and> (\<forall>p. i \<le> p \<and> p < n \<longrightarrow> buf ! p \<noteq> None)"

lemma live_update [simp]: "p < i \<Longrightarrow> live (buf[p := x]) i n = live buf i n"
  by (auto simp: live_def)

lemma live_put: "live buf i n \<Longrightarrow> live (buf[p := Some x]) i n"
  by (cases "p < length buf") (auto simp: live_def nth_list_update)

lemma live_Suc: "live buf i n \<Longrightarrow> live buf (Suc i) n"
  by (auto simp: live_def)

lemma live_at: "live buf i n \<Longrightarrow> i < n \<Longrightarrow> \<exists>x. i < length buf \<and> buf ! i = Some x"
  by (auto simp: live_def)

lemma live_append [simp]: "n \<le> length xs \<Longrightarrow> live (map Some xs @ ys) i n"
  by (auto simp: live_def nth_append)

lemma splice_step:
  assumes "i < n" "n \<le> length buf"
  shows "take (Suc i) (buf[i := x]) @ replicate (n - Suc i) x @ drop n (buf[i := x]) =
    take i buf @ replicate (n - i) x @ drop n buf"
proof -
  have "replicate (n - i) x = x # replicate (n - Suc i) x" using assms by (simp add: Suc_diff_Suc flip: replicate_Suc)
  then show ?thesis using assms by (simp add: take_Suc_conv_app_nth)
qed

lemma vec_delete_loop_buf:
  assumes "mData v = Some buf" "live buf i n" "i \<le> n"
  shows "vec_delete_loop v i n =
    Inr (v\<lparr>mData := Some (take i buf @ replicate (n - i) None @ drop n buf), vGone := vGone v + (n - i)\<rparr>)"
  using assms
proof (induction v i n arbitrary: buf rule: vec_delete_loop.induct)
  case (1 v i n)
  have len: "n \<le> length buf" using 1(3) by (simp add: live_def)
  show ?case
  proof (cases "i < n")
    case True
    obtain x where x: "buf ! i = Some x" using live_at [OF 1(3) True] by auto
    let ?v = "v\<lparr>mData := Some (buf[i := None]), vGone := Suc (vGone v)\<rparr>"
    have d: "vec_delete v i = Inr ?v"
      using 1(2) x True len by (simp add: vec_delete_def vec_cell_def)
    have "vec_delete_loop ?v (Suc i) n = Inr (?v\<lparr>mData := Some (take (Suc i) (buf[i := None]) @
        replicate (n - Suc i) None @ drop n (buf[i := None])), vGone := vGone ?v + (n - Suc i)\<rparr>)"
      by (rule 1(1) [OF True]) (use True live_Suc [OF 1(3)] in simp_all)
    then show ?thesis using True d splice_step [OF True len]
      by (subst vec_delete_loop.simps) simp
  next
    case False
    then show ?thesis using 1(2,4) by (subst vec_delete_loop.simps) simp
  qed
qed

lemma vec_make_loop_buf:
  assumes "mData v = Some buf" "n \<le> length buf" "i \<le> n"
  shows "vec_make_loop d v i n =
    Inr (v\<lparr>mData := Some (take i buf @ replicate (n - i) (Some d) @ drop n buf), vMade := vMade v + (n - i)\<rparr>)"
  using assms
proof (induction d v i n arbitrary: buf rule: vec_make_loop.induct)
  case (1 d v i n)
  show ?case
  proof (cases "i < n")
    case True
    let ?v = "v\<lparr>mData := Some (buf[i := Some d]), vMade := Suc (vMade v)\<rparr>"
    have d: "vec_make v i d = Inr ?v" using 1(2,3) True by (simp add: vec_make_def)
    have "vec_make_loop d ?v (Suc i) n = Inr (?v\<lparr>mData := Some (take (Suc i) (buf[i := Some d]) @
        replicate (n - Suc i) (Some d) @ drop n (buf[i := Some d])), vMade := vMade ?v + (n - Suc i)\<rparr>)"
      by (rule 1(1) [OF True]) (use True 1(3) in simp_all)
    then show ?thesis using True d splice_step [OF True 1(3)]
      by (subst vec_make_loop.simps) simp
  next
    case False
    then show ?thesis using 1(2,4) by (subst vec_make_loop.simps) simp
  qed
qed

lemma copy_step:
  assumes "i < n" "n \<le> length buf" "n \<le> length src" "src ! i = x"
  shows "take (Suc i) (buf[i := x]) @ take (n - Suc i) (drop (Suc i) src) @ drop n (buf[i := x]) =
    take i buf @ take (n - i) (drop i src) @ drop n buf"
proof -
  have "drop i src = x # drop (Suc i) src" using assms Cons_nth_drop_Suc [of i src] by simp
  then have "take (n - i) (drop i src) = x # take (n - Suc i) (drop (Suc i) src)"
    using assms by (simp add: Suc_diff_Suc flip: take_Suc_Cons)
  then show ?thesis using assms by (simp add: take_Suc_conv_app_nth)
qed

lemma vec_copy_loop_buf:
  assumes "mData v = Some buf" "mSize rhs \<le> length buf" "live (vec_buf rhs) i (mSize rhs)" "i \<le> mSize rhs"
  shows "vec_copy_loop v rhs i =
    Inr (v\<lparr>mData := Some (take i buf @ take (mSize rhs - i) (drop i (vec_buf rhs)) @ drop (mSize rhs) buf),
      vMade := vMade v + (mSize rhs - i)\<rparr>)"
  using assms
proof (induction v rhs i arbitrary: buf rule: vec_copy_loop.induct)
  case (1 v rhs i)
  let ?n = "mSize rhs"
  have len: "?n \<le> length (vec_buf rhs)" using 1(4) by (simp add: live_def)
  show ?case
  proof (cases "i < ?n")
    case True
    obtain x where x: "vec_buf rhs ! i = Some x" using live_at [OF 1(4) True] by auto
    let ?v = "v\<lparr>mData := Some (buf[i := Some x]), vMade := Suc (vMade v)\<rparr>"
    have d: "vec_cell rhs i = Inr x" "vec_make v i x = Inr ?v"
      using 1(2,3) True len x by (simp_all add: vec_make_def vec_cell_buf)
    have "vec_copy_loop ?v rhs (Suc i) = Inr (?v\<lparr>mData := Some (take (Suc i) (buf[i := Some x]) @
        take (?n - Suc i) (drop (Suc i) (vec_buf rhs)) @ drop ?n (buf[i := Some x])), vMade := vMade ?v + (?n - Suc i)\<rparr>)"
      by (rule 1(1) [OF True]) (use True 1(3) live_Suc [OF 1(4)] in simp_all)
    then show ?thesis using True d copy_step [OF True 1(3) len x]
      by (subst vec_copy_loop.simps) simp
  next
    case False
    then show ?thesis using 1(2,5) by (subst vec_copy_loop.simps) simp
  qed
qed

lemma vec_move_loop_buf:
  assumes "mData v = Some buf" "mSize v \<le> length temp" "live buf i (mSize v)" "i \<le> mSize v"
  shows "vec_move_loop temp v i =
    Inr (take i temp @ take (mSize v - i) (drop i buf) @ drop (mSize v) temp,
      v\<lparr>mData := Some (take i buf @ replicate (mSize v - i) None @ drop (mSize v) buf),
        vMade := vMade v + (mSize v - i), vGone := vGone v + (mSize v - i)\<rparr>)"
  using assms
proof (induction temp v i arbitrary: buf rule: vec_move_loop.induct)
  case (1 temp v i)
  let ?n = "mSize v"
  have len: "?n \<le> length buf" using 1(4) by (simp add: live_def)
  show ?case
  proof (cases "i < ?n")
    case True
    obtain x where x: "buf ! i = Some x" using live_at [OF 1(4) True] by auto
    let ?v1 = "v\<lparr>mData := Some (buf[i := None]), vGone := Suc (vGone v)\<rparr>"
    let ?v = "v\<lparr>mData := mData ?v1, vMade := Suc (vMade v), vGone := vGone ?v1\<rparr>"
    have d: "vec_cell v i = Inr x" "vec_delete v i = Inr ?v1"
      using 1(2) True len x by (simp_all add: vec_cell_def vec_delete_def)
    have "vec_move_loop (temp[i := Some x]) ?v (Suc i) =
      Inr (take (Suc i) (temp[i := Some x]) @ take (mSize ?v - Suc i) (drop (Suc i) (buf[i := None])) @ drop (mSize ?v) (temp[i := Some x]),
        ?v\<lparr>mData := Some (take (Suc i) (buf[i := None]) @ replicate (mSize ?v - Suc i) None @ drop (mSize ?v) (buf[i := None])),
          vMade := vMade ?v + (mSize ?v - Suc i), vGone := vGone ?v + (mSize ?v - Suc i)\<rparr>)"
      by (rule 1(1) [OF True]) (use True 1(3) live_Suc [OF 1(4)] in simp_all)
    then show ?thesis using True 1(3) d splice_step [OF True len, of None] copy_step [OF True 1(3) len x]
      by (subst vec_move_loop.simps) simp
  next
    case False
    then show ?thesis using 1(2,5) by (subst vec_move_loop.simps) simp
  qed
qed

lemma vec_shift_loop_buf:
  assumes "mData v = Some buf" "live buf 0 (mSize v)" "i \<le> mSize v - 1"
  shows "vec_shift_loop v i =
    Inr (v\<lparr>mData := Some (take i buf @ take (mSize v - 1 - i) (drop (Suc i) buf) @ drop (mSize v - 1) buf)\<rparr>)"
  using assms
proof (induction v i arbitrary: buf rule: vec_shift_loop.induct)
  case (1 v i)
  let ?n = "mSize v - 1"
  have len: "mSize v \<le> length buf" using 1(3) by (simp add: live_def)
  show ?case
  proof (cases "i < ?n")
    case True
    have l: "live buf i (mSize v)" "live buf (Suc i) (mSize v)" using 1(3) by (auto simp: live_def)
    obtain x y where x: "buf ! Suc i = Some x" "buf ! i = Some y"
      using live_at [OF l(1)] live_at [OF l(2)] True by (metis Suc_lessI less_diff_conv Suc_eq_plus1 Suc_lessD)
    let ?v = "v\<lparr>mData := Some (buf[i := Some x])\<rparr>"
    have d: "vec_cell v (i + 1) = Inr x" "vec_cell v i = Inr y" "map_option (\<lambda>buf. buf[i := Some x]) (mData v) = Some (buf[i := Some x])"
      using 1(2) True len x by (simp_all add: vec_cell_def)
    have lv: "live (buf[i := Some x]) 0 (mSize v)" by (rule live_put [OF 1(3)])
    have "vec_shift_loop ?v (Suc i) =
      Inr (?v\<lparr>mData := Some (take (Suc i) (buf[i := Some x]) @ take (mSize ?v - 1 - Suc i) (drop (Suc (Suc i)) (buf[i := Some x])) @
        drop (mSize ?v - 1) (buf[i := Some x]))\<rparr>)"
      using 1(1) [OF True, of x "buf[i := Some x]"] lv True d(3) by simp
    moreover have "take (Suc i) (buf[i := Some x]) @ take (?n - Suc i) (drop (Suc (Suc i)) buf) @ drop ?n (buf[i := Some x]) =
        take i buf @ take (?n - i) (drop (Suc i) buf) @ drop ?n buf"
    proof -
      have "drop (Suc i) buf = Some x # drop (Suc (Suc i)) buf" using True len x(1) Cons_nth_drop_Suc [of "Suc i" buf] by simp
      then have "take (?n - i) (drop (Suc i) buf) = Some x # take (?n - Suc i) (drop (Suc (Suc i)) buf)"
        using True by (simp add: Suc_diff_Suc flip: take_Suc_Cons)
      then show ?thesis using True len by (simp add: take_Suc_conv_app_nth)
    qed
    ultimately show ?thesis using True d(1,2) 1(2)
      by (subst vec_shift_loop.simps) simp
  next
    case False
    then show ?thesis using 1(2,4) by (subst vec_shift_loop.simps) simp
  qed
qed

section \<open>The operations on the list\<close>

lemma vec_rep_live: "vec_rep v xs \<Longrightarrow> live (vec_buf v) 0 (mSize v)"
  by (simp add: vec_rep_def)

lemma vec_rep_cell: "vec_rep v xs \<Longrightarrow> i < length xs \<Longrightarrow> vec_cell v i = Inr (xs ! i)"
  by (simp add: vec_rep_def vec_cell_buf nth_append)

lemma vec_buf_upd [simp]: "vec_buf (v\<lparr>mData := Some buf\<rparr>) = buf" "vec_buf (v\<lparr>mData := None\<rparr>) = []"
  "vec_buf (v\<lparr>mSize := n\<rparr>) = vec_buf v" "vec_buf (v\<lparr>mAllocated := n\<rparr>) = vec_buf v"
  "vec_buf (v\<lparr>vMade := n\<rparr>) = vec_buf v" "vec_buf (v\<lparr>vGone := n\<rparr>) = vec_buf v"
  by (simp_all add: vec_buf_def)

lemma vec_rep_data:
  assumes "vec_rep v xs"
  obtains "mData v = None" "xs = []" "mAllocated v = 0" | buf where "mData v = Some buf" "vec_buf v = buf"
  using assms by (cases "mData v") (auto simp: vec_rep_def vec_buf_def)

lemma vec_at_rep:
  assumes "vec_rep v xs"
  shows "vec_at v i = (if i < length xs then Inr (xs ! i) else Inl UndefinedBehaviour)"
  using vec_rep_cell [OF assms, of i] assms by (simp add: vec_at_def vec_rep_def)

lemma vec_put_rep:
  assumes "vec_rep v xs" "i < length xs"
  shows "\<exists>v'. vec_put v i x = Inr v' \<and> vec_rep v' (xs[i := x])"
proof -
  obtain buf where b: "mData v = Some buf" "vec_buf v = buf" using assms by (rule_tac vec_rep_data [OF assms(1)]) auto
  have "buf = map Some xs @ replicate (mAllocated v - length xs) None" using assms(1) b by (simp add: vec_rep_def)
  then have "buf[i := Some x] = map Some (xs[i := x]) @ replicate (mAllocated v - length xs) None"
    using assms(2) by (simp add: list_update_append map_update)
  moreover have "vec_at v i = Inr (xs ! i)" using vec_at_rep [OF assms(1)] assms(2) by simp
  ultimately show ?thesis using assms b by (simp add: vec_put_def vec_rep_def)
qed

lemma vec_delete_loop_rep:
  assumes "vec_rep v xs" "n \<le> length xs"
  shows "\<exists>v'. vec_delete_loop v n (mSize v) = Inr v' \<and> vec_rep (v'\<lparr>mSize := n\<rparr>) (take n xs) \<and>
    (mData v' = None \<longleftrightarrow> mData v = None) \<and> mAllocated v' = mAllocated v \<and> mSize v' = mSize v"
proof (rule vec_rep_data [OF assms(1)])
  assume "mData v = None" "xs = []" "mAllocated v = 0"
  then show ?thesis using assms by (subst vec_delete_loop.simps) (simp add: vec_rep_def)
next
  fix buf assume b: "mData v = Some buf" "vec_buf v = buf"
  have r: "buf = map Some xs @ replicate (mAllocated v - length xs) None" "mSize v = length xs" "length xs \<le> mAllocated v"
    using assms(1) b by (simp_all add: vec_rep_def)
  have "live buf n (mSize v)" using r by simp
  from vec_delete_loop_buf [OF b(1) this] assms(2) r
  have "vec_delete_loop v n (mSize v) = Inr (v\<lparr>mData := Some (take n buf @ replicate (length xs - n) None @ drop (length xs) buf),
      vGone := vGone v + (length xs - n)\<rparr>)" by simp
  moreover have "take n buf @ replicate (length xs - n) None @ drop (length xs) buf =
      map Some (take n xs) @ replicate (mAllocated v - n) None"
    using r assms(2) by (simp add: take_map flip: replicate_add)
  ultimately show ?thesis using assms r(2,3) b by (simp add: vec_rep_def min_absorb2)
qed

lemma vec_clear_rep:
  assumes "vec_rep v xs"
  shows "\<exists>v'. vec_clear v = Inr v' \<and> vec_rep v' [] \<and> (mData v' = None \<longleftrightarrow> mData v = None) \<and>
    mAllocated v' = mAllocated v"
  using vec_delete_loop_rep [OF assms, of 0] by (force simp: vec_clear_def)

lemma vec_sizeup_rep:
  assumes "vec_rep v xs" "length xs \<le> m" "m < 2 ^ 32" 
    "m = (if n = 0 then if mAllocated v \<noteq> 0 then unsig (mAllocated v * 2) else DEFAULT_ALLOCATION else n)"
  shows "\<exists>v'. vec_sizeup v n = Inr v' \<and> vec_rep v' xs \<and> mAllocated v' = m \<and> mData v' \<noteq> None"
proof (rule vec_rep_data [OF assms(1)])
  assume "mData v = None" "xs = []" "mAllocated v = 0"
  then show ?thesis using assms by (simp add: vec_sizeup_def Let_def vec_rep_def vec_raw_def vec_buf_def)
next
  fix buf assume b: "mData v = Some buf" "vec_buf v = buf"
  have r: "buf = map Some xs @ replicate (mAllocated v - length xs) None" "mSize v = length xs"
    using assms(1) b by (simp_all add: vec_rep_def)
  have l: "live buf 0 (mSize v)" "mSize v \<le> length (vec_raw m :: 'a option list)" 
    using r assms(2) by (simp_all add: vec_raw_def)
  have "take (length xs) buf @ drop (length xs) (vec_raw m) = map Some xs @ replicate (m - length xs) None"
    using r by (simp add: vec_raw_def)
  with vec_move_loop_buf [OF b(1) l(2) l(1)] show ?thesis
    using assms r(2) b by (simp add: vec_sizeup_def Let_def vec_rep_def)
qed

lemma vec_grow_rep:
  assumes "vec_rep v xs" "n < 2 ^ 32"
  shows "\<exists>v'. (if mAllocated v < n then vec_sizeup v n else Inr v) = Inr v' \<and> vec_rep v' xs \<and> n \<le> mAllocated v'"
proof (cases "mAllocated v < n")
  case True
  have "length xs \<le> n" using assms(1) True by (simp add: vec_rep_def)
  then show ?thesis using vec_sizeup_rep [OF assms(1), of n n] True assms(2) by fastforce
next
  case False
  then show ?thesis using assms by simp
qed

lemma vec_fill_rep:
  assumes "vec_rep v xs" "length (xs @ ys) \<le> mAllocated v"
    "buf = map Some (xs @ ys) @ replicate (mAllocated v - length (xs @ ys)) None" "ys \<noteq> [] \<or> mData v \<noteq> None"
  shows "vec_rep (v\<lparr>mData := Some buf, vMade := vMade v + length ys, mSize := length (xs @ ys)\<rparr>) (xs @ ys)"
  using assms by (simp add: vec_rep_def)

lemma vec_copy_loop_rep:
  assumes "vec_rep v []" "vec_rep rhs ys" "length ys \<le> mAllocated v"
  shows "\<exists>v'. vec_copy_loop v rhs 0 = Inr v' \<and> vec_rep (v'\<lparr>mSize := length ys\<rparr>) ys"
proof (rule vec_rep_data [OF assms(1)])
  assume "mData v = None" "mAllocated v = 0"
  then show ?thesis using assms by (subst vec_copy_loop.simps) (simp add: vec_rep_def)
next
  fix buf assume b: "mData v = Some buf" "vec_buf v = buf"
  have r: "buf = replicate (mAllocated v) None" "mSize rhs = length ys" "take (length ys) (vec_buf rhs) = map Some ys"
    using assms b by (simp_all add: vec_rep_def)
  have l: "mSize rhs \<le> length buf" "live (vec_buf rhs) 0 (mSize rhs)"
    using r assms(3) vec_rep_live [OF assms(2)] by simp_all
  from vec_copy_loop_buf [OF b(1) l] r have "vec_copy_loop v rhs 0 =
      Inr (v\<lparr>mData := Some (map Some ys @ replicate (mAllocated v - length ys) None), vMade := vMade v + length ys\<rparr>)"
    by simp
  then show ?thesis using vec_fill_rep [OF assms(1), of ys] assms(3) b by simp
qed

lemma vec_assign_rep:
  assumes "vec_rep v xs" "vec_rep rhs ys"
  shows "\<exists>v'. vec_assign v (Some rhs) = Inr v' \<and> vec_rep v' ys"
proof -
  obtain v1 where v1: "vec_clear v = Inr v1" "vec_rep v1 []" using vec_clear_rep [OF assms(1)] by blast
  have n: "mSize rhs < 2 ^ 32" "mSize rhs = length ys" using assms(2) by (simp_all add: vec_rep_def)
  obtain v2 where v2: "(if mAllocated v1 < mSize rhs then vec_sizeup v1 (mSize rhs) else Inr v1) = Inr v2"
    "vec_rep v2 []" "mSize rhs \<le> mAllocated v2" using vec_grow_rep [OF v1(2) n(1)] by blast
  then show ?thesis using vec_copy_loop_rep [OF v2(2) assms(2)] v1 n(2) by (auto simp: vec_assign_def)
qed

lemma vec_copy_rep: "vec_rep rhs ys \<Longrightarrow> \<exists>v. vec_copy rhs = Inr v \<and> vec_rep v ys"
  unfolding vec_copy_def by (rule vec_assign_rep [of _ "[]"]) (simp_all add: vec_rep_def vec_buf_def)

lemma vec_push_back_rep:
  assumes "vec_rep v xs" "length xs < 2 ^ 31"
  shows "\<exists>v'. vec_push_back v x = Inr v' \<and> vec_rep v' (xs @ [x])"
proof -
  have n: "mSize v = length xs" "length xs \<le> mAllocated v" using assms(1) by (simp_all add: vec_rep_def)
  obtain v1 where v1: "(if mSize v = mAllocated v then vec_sizeup v 0 else Inr v) = Inr v1"
    "vec_rep v1 xs" "length xs < mAllocated v1" "mData v1 \<noteq> None"
  proof (cases "mSize v = mAllocated v")
    case True
    let ?m = "if mAllocated v \<noteq> 0 then unsig (mAllocated v * 2) else DEFAULT_ALLOCATION"
    have m: "length xs < ?m" "?m < 2 ^ 32" using True n assms(2) by (simp_all add: unsig_def DEFAULT_ALLOCATION_def)
    from vec_sizeup_rep [OF assms(1), of ?m 0] m that True show thesis by fastforce
  next
    case False
    then show thesis using that [of v] n assms(1) by (auto simp: vec_rep_def)
  qed
  obtain buf where b: "mData v1 = Some buf" "vec_buf v1 = buf" using v1(4) by (auto simp: vec_buf_def)
  have r: "buf = map Some xs @ replicate (mAllocated v1 - length xs) None" "mSize v1 = length xs"
    using v1(2) b by (simp_all add: vec_rep_def)
  have "replicate (mAllocated v1 - length xs) (None :: 'a option) = None # replicate (mAllocated v1 - Suc (length xs)) None"
    using v1(3) by (simp add: Suc_diff_Suc flip: replicate_Suc)
  then have "buf[length xs := Some x] = map Some (xs @ [x]) @ replicate (mAllocated v1 - length (xs @ [x])) None"
    using r by (simp add: list_update_append)
  moreover have "unsig (Suc (length xs)) = length (xs @ [x])" using assms(2) by (simp add: unsig_def)
  ultimately show ?thesis
    using vec_fill_rep [OF v1(2), of "[x]"] v1(1,3) b r by (simp add: vec_push_back_def vec_make_def)
qed

lemma vec_erase_rep:
  assumes "vec_rep v xs" "i < length xs"
  shows "\<exists>v'. vec_erase v i = Inr v' \<and> vec_rep v' (take i xs @ drop (Suc i) xs)"
proof -
  obtain buf where b: "mData v = Some buf" "vec_buf v = buf" using assms(2) by (rule_tac vec_rep_data [OF assms(1)]) auto
  have r: "buf = map Some xs @ replicate (mAllocated v - length xs) None" "mSize v = length xs" "length xs \<le> mAllocated v"
    using assms(1) b by (simp_all add: vec_rep_def)
  let ?ys = "take i xs @ drop (Suc i) xs"
  have len: "length ?ys = length xs - 1" using assms(2) by simp
  have l: "live buf 0 (mSize v)" "i \<le> mSize v - 1" using r assms(2) by simp_all
  have last: "drop (length xs - 1) xs = [last xs]"
    using assms(2) by (cases xs rule: rev_cases) auto
  have "take i buf @ take (mSize v - 1 - i) (drop (Suc i) buf) @ drop (mSize v - 1) buf =
      map Some ?ys @ Some (last xs) # replicate (mAllocated v - length xs) None"
    using r last assms(2) by (simp add: take_map drop_map)
  then have s: "vec_shift_loop v i =
      Inr (v\<lparr>mData := Some (map Some ?ys @ Some (last xs) # replicate (mAllocated v - length xs) None)\<rparr>)"
    using vec_shift_loop_buf [OF b(1) l] by simp
  have "(map Some ?ys @ Some (last xs) # replicate (mAllocated v - length xs) None) ! (length xs - 1) = Some (last xs)"
    using len by (metis length_map nth_append_length)
  moreover have "(map Some ?ys @ Some (last xs) # replicate (mAllocated v - length xs) None)[length xs - 1 := None] =
      map Some ?ys @ replicate (mAllocated v - (length xs - 1)) None"
  proof -
    have "mAllocated v - (length xs - 1) = Suc (mAllocated v - length xs)" using r(3) assms(2) by linarith
    then show ?thesis using len by (metis length_map list_update_length replicate_Suc)
  qed
  ultimately show ?thesis using s r(2,3) len assms
    by (simp add: vec_erase_def vec_delete_def vec_cell_def vec_rep_def)
qed

lemma vec_reserve_rep:
  "vec_rep v xs \<Longrightarrow> n < 2 ^ 32 \<Longrightarrow> \<exists>v'. vec_reserve v n = Inr v' \<and> vec_rep v' xs \<and> n \<le> mAllocated v'"
  unfolding vec_reserve_def by (rule vec_grow_rep)

lemma vec_resize_rep:
  assumes "vec_rep v xs" "n < 2 ^ 32"
  shows "\<exists>v'. vec_resize d v n = Inr v' \<and> vec_rep v' (take n xs @ replicate (n - length xs) d)"
proof -
  have n: "mSize v = length xs" "length xs \<le> mAllocated v" using assms(1) by (simp_all add: vec_rep_def)
  obtain v1 where v1: "(if mAllocated v < n
              then if n < unsig (mAllocated v * 2) then vec_sizeup v 0 else vec_sizeup v n else Inr v) = Inr v1"
    "vec_rep v1 xs" "n \<le> mAllocated v1"
  proof (cases "mAllocated v < n \<and> n < unsig (mAllocated v * 2)")
    case True
    then have "mAllocated v \<noteq> 0" by (auto simp: unsig_def)
    then have "\<exists>v'. vec_sizeup v 0 = Inr v' \<and> vec_rep v' xs \<and> mAllocated v' = unsig (mAllocated v * 2) \<and> mData v' \<noteq> None"
      using True n by (intro vec_sizeup_rep [OF assms(1)]) (auto simp: unsig_def)
    then show thesis using that True by auto
  next
    case False
    then have "(if mAllocated v < n then if n < unsig (mAllocated v * 2) then vec_sizeup v 0 else vec_sizeup v n else Inr v) =
        (if mAllocated v < n then vec_sizeup v n else Inr v)" by auto
    then show thesis using that vec_grow_rep [OF assms] by metis
  qed
  have n1: "mSize v1 = length xs" using v1(2) by (simp add: vec_rep_def)
  show ?thesis
  proof (cases "n < length xs")
    case True
    obtain v2 where v2: "vec_delete_loop v1 n (mSize v1) = Inr v2" "vec_rep (v2\<lparr>mSize := n\<rparr>) (take n xs)" "mSize v2 = mSize v1"
      using vec_delete_loop_rep [OF v1(2), of n] True by auto
    moreover have "vec_make_loop d v2 (mSize v2) n = Inr v2"
      using True v2(3) n1 by (subst vec_make_loop.simps) simp
    ultimately show ?thesis using v1(1) True by (simp add: vec_resize_def)
  next
    case False
    have d: "vec_delete_loop v1 n (mSize v1) = Inr v1" using False n1 by (subst vec_delete_loop.simps) simp
    show ?thesis
    proof (rule vec_rep_data [OF v1(2)])
      assume v0: "mData v1 = None" "xs = []" "mAllocated v1 = 0"
      then have "n = 0" using v1(3) by simp
      moreover from this v0 n1 have "vec_make_loop d v1 (mSize v1) n = Inr v1" by (subst vec_make_loop.simps) simp
      moreover have "v1\<lparr>mSize := 0\<rparr> = v1" using n1 v0(2) by simp
      ultimately show ?thesis using v1(1,2) d v0(2) by (simp add: vec_resize_def)
    next
      fix buf assume b: "mData v1 = Some buf" "vec_buf v1 = buf"
      have r: "buf = map Some xs @ replicate (mAllocated v1 - length xs) None"
        using v1(2) b by (simp add: vec_rep_def)
      have l: "n \<le> length buf" "mSize v1 \<le> n" using r v1(3) n1 False by simp_all
      have "take (length xs) buf @ replicate (n - length xs) (Some d) @ drop n buf =
        map Some (xs @ replicate (n - length xs) d) @ replicate (mAllocated v1 - length (xs @ replicate (n - length xs) d)) None"
        using r False by simp
      with vec_make_loop_buf [OF b(1) l] n1 have "vec_make_loop d v1 (mSize v1) n =
          Inr (v1\<lparr>mData := Some (map Some (xs @ replicate (n - length xs) d) @ replicate (mAllocated v1 - length (xs @ replicate (n - length xs) d)) None),
            vMade := vMade v1 + (n - length xs)\<rparr>)" by simp
      then show ?thesis using vec_fill_rep [OF v1(2), of "replicate (n - length xs) d"] v1(1,3) d b False
        by (simp add: vec_resize_def)
    qed
  qed
qed

lemma vec_destroy_rep:
  assumes "vec_rep v xs"
  shows "\<exists>v'. vec_destroy v = Inr v' \<and> mData v' = None \<and> vGone v' = vMade v'"
proof -
  obtain v' where v': "vec_clear v = Inr v'" "vec_rep v' []" using vec_clear_rep [OF assms] by blast
  show ?thesis
  proof (cases "mData v")
    case None
    then show ?thesis using assms by (auto simp: vec_destroy_def vec_rep_def vec_buf_def)
  next
    case (Some buf)
    then show ?thesis using v' by (simp add: vec_destroy_def vec_rep_def)
  qed
qed

section \<open>Indexed sequences\<close>

text \<open>
  What the users of a vector rely on: reading by index, the size, and appending at the end. Their loops
  over all indices are proved here once.
\<close>

fun index_find :: "('v \<Rightarrow> nat \<Rightarrow> 'a outcome) \<Rightarrow> ('v \<Rightarrow> nat) \<Rightarrow> ('a \<Rightarrow> bool) \<Rightarrow> 'v \<Rightarrow> nat \<Rightarrow> nat \<Rightarrow> int outcome" where
  "index_find at_of size_of P v 0 i = Inl NoReturn"
| "index_find at_of size_of P v (Suc fuel) i =
     (if i < size_of v
      then andThen (at_of v i) (\<lambda>x. if P x then Inr (int i) else index_find at_of size_of P v fuel (Suc i))
      else Inr (-1))"

fun index_fold :: "('v \<Rightarrow> nat \<Rightarrow> 'a outcome) \<Rightarrow> ('v \<Rightarrow> nat) \<Rightarrow> (nat \<Rightarrow> 'a \<Rightarrow> 's \<Rightarrow> 's) \<Rightarrow> 'v \<Rightarrow> nat \<Rightarrow> nat \<Rightarrow> 's \<Rightarrow> 's outcome" where
  "index_fold at_of size_of f v 0 i s = Inl NoReturn"
| "index_fold at_of size_of f v (Suc fuel) i s =
     (if i < size_of v
      then andThen (at_of v i) (\<lambda>x. index_fold at_of size_of f v fuel (Suc i) (f i x s))
      else Inr s)"

text \<open>The results on lists: the first index, and a fold that sees the index.\<close>

definition first_index :: "('a \<Rightarrow> bool) \<Rightarrow> 'a list \<Rightarrow> int" where
  "first_index P xs = (if \<exists>x \<in> set xs. P x then int (length (takeWhile (Not \<circ> P) xs)) else -1)"

fun fold_from :: "(nat \<Rightarrow> 'a \<Rightarrow> 's \<Rightarrow> 's) \<Rightarrow> nat \<Rightarrow> 'a list \<Rightarrow> 's \<Rightarrow> 's" where
  "fold_from f i [] s = s"
| "fold_from f i (x # xs) s = fold_from f (Suc i) xs (f i x s)"

lemma first_index_ge: "-1 \<le> first_index P xs"
  by (simp add: first_index_def)

lemma first_index_Cons:
  "first_index P (x # xs) = (if P x then 0 else if first_index P xs = -1 then -1 else first_index P xs + 1)"
  by (auto simp: first_index_def)

locale indexed =
  fixes rep :: "'v \<Rightarrow> 'a list \<Rightarrow> bool"
    and at_of :: "'v \<Rightarrow> nat \<Rightarrow> 'a outcome"
    and size_of :: "'v \<Rightarrow> nat"
    and push :: "'v \<Rightarrow> 'a \<Rightarrow> 'v outcome"
    and room :: nat
  assumes at_law: "rep v xs \<Longrightarrow> at_of v i = (if i < length xs then Inr (xs ! i) else Inl UndefinedBehaviour)"
    and size_law: "rep v xs \<Longrightarrow> size_of v = length xs"
    and push_law: "rep v xs \<Longrightarrow> length xs < room \<Longrightarrow> \<exists>v'. push v x = Inr v' \<and> rep v' (xs @ [x])"
begin

lemma find_from:
  assumes "rep v xs" "i \<le> length xs" "length xs - i < fuel"
  shows "index_find at_of size_of P v fuel i =
    Inr (let k = first_index P (drop i xs) in if k = -1 then -1 else int i + k)"
  using assms(2,3)
proof (induction fuel arbitrary: i)
  case (Suc fuel)
  show ?case
  proof (cases "i < length xs")
    case True
    have d: "drop i xs = xs ! i # drop (Suc i) xs" using True by (simp add: Cons_nth_drop_Suc)
    show ?thesis using Suc.IH [of "Suc i"] Suc.prems True first_index_ge [of P "drop (Suc i) xs"]
      by (auto simp: at_law [OF assms(1)] size_law [OF assms(1)] d first_index_Cons Let_def)
  next
    case False
    then show ?thesis using Suc.prems by (simp add: size_law [OF assms(1)] first_index_def)
  qed
qed simp

lemma find_first:
  "rep v xs \<Longrightarrow> length xs < fuel \<Longrightarrow> index_find at_of size_of P v fuel 0 = Inr (first_index P xs)"
  using find_from [of v xs 0 fuel P] by (simp add: Let_def)

lemma fold_from_rep:
  assumes "rep v xs" "i \<le> length xs" "length xs - i < fuel"
  shows "index_fold at_of size_of f v fuel i s = Inr (fold_from f i (drop i xs) s)"
  using assms(2,3)
proof (induction fuel arbitrary: i s)
  case (Suc fuel)
  show ?case
  proof (cases "i < length xs")
    case True
    have d: "drop i xs = xs ! i # drop (Suc i) xs" using True by (simp add: Cons_nth_drop_Suc)
    show ?thesis using Suc.IH [of "Suc i"] Suc.prems True
      by (simp add: at_law [OF assms(1)] size_law [OF assms(1)] d)
  next
    case False
    then show ?thesis using Suc.prems by (simp add: size_law [OF assms(1)])
  qed
qed simp

lemma fold_all:
  "rep v xs \<Longrightarrow> length xs < fuel \<Longrightarrow> index_fold at_of size_of f v fuel 0 s = Inr (fold_from f 0 xs s)"
  using fold_from_rep [of v xs 0 fuel f s] by simp

end

interpretation vec: indexed vec_rep vec_at mSize vec_push_back "2 ^ 31"
  by unfold_locales (auto simp: vec_at_rep vec_push_back_rep, simp_all add: vec_rep_def)

section \<open>Properties\<close>

text \<open>Operations of a client, and what they do to a list; erasing out of range aborts.\<close>

datatype 'a vec_op = Push 'a | Put nat 'a | Erase nat | Reserve nat | Resize nat 'a | Clear | Assign "'a jvec" | Copied

fun vec_do :: "'a vec_op \<Rightarrow> 'a jvec \<Rightarrow> 'a jvec outcome" where
  "vec_do (Push x) v = vec_push_back v x"
| "vec_do (Put i x) v = vec_put v i x"
| "vec_do (Erase i) v = vec_erase v i"
| "vec_do (Reserve n) v = vec_reserve v n"
| "vec_do (Resize n d) v = vec_resize d v n"
| "vec_do Clear v = vec_clear v"
| "vec_do (Assign rhs) v = vec_assign v (Some rhs)"
| "vec_do Copied v = andThen (vec_copy v) (\<lambda>w. andThen (vec_destroy v) (\<lambda>_. Inr w))"

fun vec_run :: "'a vec_op list \<Rightarrow> 'a jvec \<Rightarrow> 'a jvec outcome" where
  "vec_run [] v = Inr v"
| "vec_run (p # ops) v = andThen (vec_do p v) (vec_run ops)"

definition vec_list :: "'a jvec \<Rightarrow> 'a list" where
  "vec_list v = map the (take (mSize v) (vec_buf v))"

lemma vec_list_rep: "vec_rep v xs \<Longrightarrow> vec_list v = xs"
  by (simp add: vec_list_def vec_rep_def comp_def)

fun list_do :: "'a vec_op \<Rightarrow> 'a list \<Rightarrow> 'a list outcome" where
  "list_do (Push x) xs = Inr (xs @ [x])"
| "list_do (Put i x) xs = (if i < length xs then Inr (xs[i := x]) else Inl UndefinedBehaviour)"
| "list_do (Erase i) xs = (if i < length xs then Inr (take i xs @ drop (Suc i) xs) else Inl Fatal)"
| "list_do (Reserve n) xs = Inr xs"
| "list_do (Resize n d) xs = Inr (take n xs @ replicate (n - length xs) d)"
| "list_do Clear xs = Inr []"
| "list_do (Assign rhs) xs = Inr (vec_list rhs)"
| "list_do Copied xs = Inr xs"

fun list_run :: "'a vec_op list \<Rightarrow> 'a list \<Rightarrow> 'a list outcome" where
  "list_run [] xs = Inr xs"
| "list_run (p # ops) xs = andThen (list_do p xs) (list_run ops)"

fun op_fits :: "'a vec_op \<Rightarrow> 'a list \<Rightarrow> bool" where
  "op_fits (Push x) xs = (length xs < 2 ^ 31)"
| "op_fits (Reserve n) xs = (n < 2 ^ 32)"
| "op_fits (Resize n d) xs = (n < 2 ^ 32)"
| "op_fits (Assign rhs) xs = (\<exists>ys. vec_rep rhs ys)"
| "op_fits _ xs = True"

fun ops_fit :: "'a vec_op list \<Rightarrow> 'a list \<Rightarrow> bool" where
  "ops_fit [] xs = True"
| "ops_fit (p # ops) xs = (op_fits p xs \<and> (case list_do p xs of Inl _ \<Rightarrow> True | Inr ys \<Rightarrow> ops_fit ops ys))"

lemma vec_do_rep:
  assumes "vec_rep v xs" "op_fits p xs"
  shows "case list_do p xs of Inl e \<Rightarrow> vec_do p v = Inl e | Inr ys \<Rightarrow> \<exists>v'. vec_do p v = Inr v' \<and> vec_rep v' ys"
proof (cases p)
  case (Put i x)
  then show ?thesis using vec_put_rep [OF assms(1), of i x] vec_at_rep [OF assms(1), of i] by (auto simp: vec_put_def)
next
  case (Erase i)
  then show ?thesis using vec_erase_rep [OF assms(1), of i] assms(1) by (auto simp: vec_erase_def vec_rep_def)
next
  case (Reserve n)
  then show ?thesis using vec_reserve_rep [OF assms(1), of n] assms(2) by auto
next
  case (Assign rhs)
  then show ?thesis using vec_assign_rep [OF assms(1)] assms(2) by (auto simp: vec_list_rep)
next
  case Copied
  then show ?thesis using vec_copy_rep [OF assms(1)] vec_destroy_rep [OF assms(1)] by fastforce
next
  case Clear
  then show ?thesis using vec_clear_rep [OF assms(1)] by auto
qed (use assms vec_push_back_rep vec_resize_rep in auto)

lemma vec_run_rep:
  "vec_rep v xs \<Longrightarrow> ops_fit ops xs \<Longrightarrow>
    case list_run ops xs of Inl e \<Rightarrow> vec_run ops v = Inl e | Inr ys \<Rightarrow> \<exists>v'. vec_run ops v = Inr v' \<and> vec_rep v' ys"
proof (induction ops arbitrary: v xs)
  case (Cons p ops)
  show ?case
  proof (cases "list_do p xs")
    case (Inl e)
    then show ?thesis using vec_do_rep [OF Cons.prems(1), of p] Cons.prems(2) by simp
  next
    case (Inr ys)
    then obtain v' where "vec_do p v = Inr v'" "vec_rep v' ys"
      using vec_do_rep [OF Cons.prems(1), of p] Cons.prems(2) by auto
    then show ?thesis using Cons.IH [of v' ys] Cons.prems(2) Inr by (simp split: sum.splits)
  qed
qed simp

text \<open>
  C13: a vector behaves as a list. For every sequence of operations from an empty vector (of fewer than
  2 to the 31 elements) the result is that of the list, including where the code fails: an index out of
  range gives a null reference, erasing out of range aborts. At the end its destructor has destroyed
  exactly the objects that were constructed in its buffers.
\<close>

theorem vec_as_list:
  assumes "ops_fit ops []"
  shows "case list_run ops [] of
      Inl e \<Rightarrow> vec_run ops vec_new = Inl e
    | Inr ys \<Rightarrow> \<exists>v v'. vec_run ops vec_new = Inr v \<and> mSize v = length ys \<and> vec_list v = ys \<and>
        (\<forall>i. vec_at v i = (if i < length ys then Inr (ys ! i) else Inl UndefinedBehaviour)) \<and>
        vec_destroy v = Inr v' \<and> mData v' = None \<and> vGone v' = vMade v'"
proof (cases "list_run ops []")
  case (Inl e)
  then show ?thesis using vec_run_rep [OF vec_new_rep(2) assms] by simp
next
  case (Inr ys)
  then obtain v where v: "vec_run ops vec_new = Inr v" "vec_rep v ys"
    using vec_run_rep [OF vec_new_rep(2) assms] by auto
  then show ?thesis using Inr vec_list_rep [OF v(2)] vec_destroy_rep [OF v(2)] vec_at_rep [OF v(2)]
    by (auto simp: vec.size_law)
qed

lemma vec_as_list_witness:
  "\<exists>v v'. vec_run [Push 1, Push (2 :: int), Resize 40 7, Erase 0, Put 0 9, Copied, Resize 3 0] vec_new = Inr v \<and>
    vec_list v = [9, 7, 7] \<and> vec_destroy v = Inr v' \<and> vGone v' = vMade v'"
proof -
  let ?ops = "[Push 1, Push (2 :: int), Resize 40 7, Erase 0, Put 0 9, Copied, Resize 3 0]"
  have l: "list_run ?ops [] = Inr [9, 7, 7]" by code_simp
  have f: "ops_fit ?ops []" by simp
  from vec_as_list [OF f] show ?thesis unfolding l sum.case by (elim exE conjE) (intro exI conjI)
qed

text \<open>
  Assigning a vector to itself empties it: \<open>operator=\<close> clears its own elements before it copies
  those of the other side, which is the same object.
\<close>

theorem vec_self_assign:
  assumes "vec_rep v xs"
  shows "\<exists>v'. vec_assign v None = Inr v' \<and> vec_rep v' [] \<and> vec_list v' = []"
proof -
  obtain v1 where v1: "vec_clear v = Inr v1" "vec_rep v1 []" using vec_clear_rep [OF assms] by blast
  have z: "mSize v1 = 0" using v1(2) by (simp add: vec_rep_def)
  then have c: "vec_copy_loop v1 v1 0 = Inr v1" by (subst vec_copy_loop.simps) simp
  have "vec_rep (v1\<lparr>mSize := 0\<rparr>) []" using v1(2) by (simp add: vec_rep_def)
  then show ?thesis using v1(1) c z vec_list_rep by (simp add: vec_assign_def Let_def)
qed

lemma vec_self_assign_witness:
  "\<exists>v v'. vec_push_back vec_new (5 :: int) = Inr v \<and> vec_list v = [5] \<and> vec_assign v None = Inr v' \<and> vec_list v' = []"
proof -
  obtain v where v: "vec_push_back vec_new (5 :: int) = Inr v" "vec_rep v [5]"
    using vec_push_back_rep [OF vec_new_rep(2), of 5] by auto
  then show ?thesis using vec_self_assign [OF v(2)] vec_list_rep [OF v(2)] by blast
qed

end
