(* ===== verification/JHStrings.thy ===== *)
theory JHStrings
  imports JH_Prelude
begin

text \<open>
  The operations of \<open>std::string\<close> that the code uses: a position is a \<open>size_t\<close>, and \<open>npos\<close> is None.
  What a function of the C library computes from a string is here too.
\<close>

section \<open>Search and parts\<close>

definition str_find :: "string \<Rightarrow> string \<Rightarrow> nat \<Rightarrow> nat option" where
  "str_find pat s pos = List.find (\<lambda>j. take (length pat) (drop j s) = pat) [pos..<Suc (length s)]"

text \<open>\<open>substr\<close>: past the end it throws, and a count that is too great takes the rest.\<close>

definition str_substr :: "string \<Rightarrow> nat \<Rightarrow> nat option \<Rightarrow> string outcome" where
  "str_substr s pos n =
     (if pos \<le> length s then Inr (case n of None \<Rightarrow> drop pos s | Some n \<Rightarrow> take n (drop pos s)) else Inl OutOfRange)"

text \<open>The count from a start to a position; from \<open>npos\<close> it reaches beyond every string.\<close>

definition span :: "nat \<Rightarrow> nat option \<Rightarrow> nat option" where
  "span start off = map_option (\<lambda>off. off - start) off"

lemma find_least:
  assumes "i \<le> k" "k < n" "P k" "\<forall>j. i \<le> j \<and> j < k \<longrightarrow> \<not> P j"
  shows "List.find P [i..<n] = Some k"
  using assms
proof (induction "k - i" arbitrary: i)
  case 0
  then show ?case by (simp add: upt_conv_Cons)
next
  case (Suc m)
  then have "i < n" "\<not> P i" "i \<noteq> k" by auto
  then show ?case using Suc by (simp add: upt_conv_Cons)
qed

lemma str_find_in:
  assumes "c \<notin> set a"
  shows "str_find [c] (p @ a @ c # b) (length p) = Some (length p + length a)"
  unfolding str_find_def
proof (rule find_least)
  show "\<forall>j. length p \<le> j \<and> j < length p + length a \<longrightarrow> take (length [c]) (drop j (p @ a @ c # b)) \<noteq> [c]"
  proof (intro allI impI)
    fix j assume j: "length p \<le> j \<and> j < length p + length a"
    then obtain i where i: "j = length p + i" "i < length a" using le_iff_add by auto
    then have "drop j (p @ a @ c # b) = a ! i # drop (Suc i) a @ c # b" by (simp add: Cons_nth_drop_Suc)
    moreover have "a ! i \<noteq> c" using assms i(2) nth_mem by metis
    ultimately show "take (length [c]) (drop j (p @ a @ c # b)) \<noteq> [c]" by simp
  qed
qed simp_all

lemma str_find_none:
  assumes "c \<notin> set a"
  shows "str_find [c] (p @ a) (length p) = None"
proof -
  have "take (Suc 0) (drop j (p @ a)) \<noteq> [c]" if "length p \<le> j" for j
  proof (cases "j < length (p @ a)")
    case True
    then obtain i where i: "j = length p + i" "i < length a" using \<open>length p \<le> j\<close> le_iff_add by auto
    then have "drop j (p @ a) = a ! i # drop (Suc i) a" by (simp add: Cons_nth_drop_Suc)
    moreover have "a ! i \<noteq> c" using assms i(2) nth_mem by metis
    ultimately show ?thesis by simp
  qed simp
  then show ?thesis by (auto simp: str_find_def find_None_iff)
qed

text \<open>The position in terms of the rest of the string.\<close>

lemma str_find_char:
  assumes "pos \<le> length s"
  shows "str_find [c] s pos = (let r = drop pos s in if c \<in> set r then Some (pos + length (takeWhile (\<lambda>x. x \<noteq> c) r)) else None)"
proof (cases "c \<in> set (drop pos s)")
  case True
  let ?r = "drop pos s" and ?a = "takeWhile (\<lambda>x. x \<noteq> c) (drop pos s)"
  obtain b where b: "dropWhile (\<lambda>x. x \<noteq> c) ?r = c # b"
    using True by (cases "dropWhile (\<lambda>x. x \<noteq> c) ?r") (auto simp: dropWhile_eq_Nil_conv dropWhile_eq_Cons_conv)
  have "s = take pos s @ ?a @ c # b" using b by (metis append_take_drop_id takeWhile_dropWhile_id)
  moreover have "c \<notin> set ?a" by (auto dest: set_takeWhileD)
  ultimately have "str_find [c] s (length (take pos s)) = Some (length (take pos s) + length ?a)"
    using str_find_in [of c ?a "take pos s" b] by simp
  then show ?thesis using True assms by (simp add: Let_def min_absorb2)
next
  case False
  then show ?thesis using str_find_none [of c "drop pos s" "take pos s"] assms by (simp add: min_absorb2)
qed

lemma str_find_here: "str_find pat s pos = Some pos \<longleftrightarrow> pos \<le> length s \<and> take (length pat) (drop pos s) = pat"
proof
  assume "str_find pat s pos = Some pos"
  then have "pos \<in> set [pos..<Suc (length s)]" "take (length pat) (drop pos s) = pat"
    by (auto simp: str_find_def find_Some_iff in_set_conv_nth simp del: upt_Suc)
  then show "pos \<le> length s \<and> take (length pat) (drop pos s) = pat" by (simp del: upt_Suc)
next
  assume "pos \<le> length s \<and> take (length pat) (drop pos s) = pat"
  then show "str_find pat s pos = Some pos" unfolding str_find_def by (intro find_least) auto
qed

section \<open>Numbers\<close>

text \<open>Numbers as \<open>printf\<close> and an output stream print them, in decimal and in hexadecimal.\<close>

fun show_digits :: "nat \<Rightarrow> nat \<Rightarrow> nat \<Rightarrow> string \<Rightarrow> string" where
  "show_digits base 0 n acc = acc"
| "show_digits base (Suc fuel) n acc =
     (let acc = (''0123456789abcdef'' ! (n mod base)) # acc in
      if n < base then acc else show_digits base fuel (n div base) acc)"

definition show_int :: "int \<Rightarrow> string" where
  "show_int x = (if x < 0 then ''-'' @ show_digits 10 20 (nat (- x)) [] else show_digits 10 20 (nat x) [])"

definition show_hex :: "int \<Rightarrow> string" where
  "show_hex x = show_digits 16 8 (nat (x mod 2 ^ 32)) []"

text \<open>
  \<open>strtol\<close>, with \<open>long\<close> of 64 bits that saturates: white space, a sign, digits, of which what follows is
  left. The base 0 is told by what the digits start with.
\<close>

definition is_space :: "char \<Rightarrow> bool" where
  "is_space c \<longleftrightarrow> c = CHR '' '' \<or> 9 \<le> (of_char c :: nat) \<and> (of_char c :: nat) \<le> 13"

definition digit_of :: "nat \<Rightarrow> char \<Rightarrow> nat option" where
  "digit_of base c =
     (let n = of_char c;
          d = (if 48 \<le> n \<and> n \<le> 57 then n - 48 else if 97 \<le> n \<and> n \<le> 122 then n - 87
               else if 65 \<le> n \<and> n \<le> 90 then n - 55 else base) in
      if d < base then Some d else None)"

fun digits_value :: "nat \<Rightarrow> string \<Rightarrow> nat \<Rightarrow> nat" where
  "digits_value base [] n = n"
| "digits_value base (c # s) n = (case digit_of base c of None \<Rightarrow> n | Some d \<Rightarrow> digits_value base s (base * n + d))"

definition hex_prefix :: "string \<Rightarrow> bool" where
  "hex_prefix s \<longleftrightarrow> (case s of a # b # c # r \<Rightarrow> a = CHR ''0'' \<and> (b = CHR ''x'' \<or> b = CHR ''X'') \<and> digit_of 16 c \<noteq> None | _ \<Rightarrow> False)"

definition unsigned_value :: "nat \<Rightarrow> string \<Rightarrow> nat" where
  "unsigned_value base s =
     (if (base = 0 \<or> base = 16) \<and> hex_prefix s then digits_value 16 (drop 2 s) 0
      else digits_value (if base = 0 then if s \<noteq> [] \<and> hd s = CHR ''0'' then 8 else 10 else base) s 0)"

definition strtol_value :: "nat \<Rightarrow> string \<Rightarrow> int" where
  "strtol_value base s =
     (let s = dropWhile is_space s in
      if s \<noteq> [] \<and> hd s = CHR ''-'' then - int (unsigned_value base (tl s))
      else if s \<noteq> [] \<and> hd s = CHR ''+'' then int (unsigned_value base (tl s)) else int (unsigned_value base s))"

definition strtol :: "nat \<Rightarrow> string \<Rightarrow> int" where
  "strtol base s = max (- (2 ^ 63)) (min (2 ^ 63 - 1) (strtol_value base s))"

text \<open>Whether \<open>strtol\<close> found a digit, and whether it had to cut the number and set \<open>errno\<close>.\<close>

definition after_sign :: "string \<Rightarrow> string" where
  "after_sign s = (if s \<noteq> [] \<and> (hd s = CHR ''-'' \<or> hd s = CHR ''+'') then tl s else s)"

definition strtol_digits :: "string \<Rightarrow> bool" where
  "strtol_digits s = (let s = after_sign (dropWhile is_space s) in s \<noteq> [] \<and> digit_of 10 (hd s) \<noteq> None)"

definition strtol_cut :: "nat \<Rightarrow> string \<Rightarrow> bool" where
  "strtol_cut base s \<longleftrightarrow> strtol base s \<noteq> strtol_value base s"

text \<open>What a C string holds of a \<open>std::string\<close>: up to the first NUL.\<close>

definition c_str :: "string \<Rightarrow> string" where
  "c_str s = takeWhile (\<lambda>c. c \<noteq> CHR 0x00) s"

text \<open>The conversion of a \<open>long\<close> to \<open>int\<close>.\<close>

definition to_int :: "int \<Rightarrow> int" where
  "to_int n = (n + 2 ^ 31) mod 2 ^ 32 - 2 ^ 31"

text \<open>The conversion \<open>%d\<close> of \<open>sscanf\<close>, which leaves what follows the number.\<close>

definition scan_int :: "string \<Rightarrow> (int \<times> string) option" where
  "scan_int s =
     (let r = after_sign (dropWhile is_space s); k = length (takeWhile (\<lambda>c. digit_of 10 c \<noteq> None) r) in
      if k = 0 then None else Some (to_int (strtol 10 s), drop k r))"

text \<open>A number that was printed is read back.\<close>

lemma digit_of_show:
  assumes "d < 16"
  shows "digit_of base (''0123456789abcdef'' ! d) = (if d < base then Some d else None)"
proof -
  have "\<forall>d \<in> set [0..<16]. of_char (''0123456789abcdef'' ! d) = (if d < 10 then 48 + d else 87 + d)"
    by code_simp
  then have "of_char (''0123456789abcdef'' ! d) = (if d < 10 then 48 + d else 87 + d)" using assms by simp
  then show ?thesis using assms by (simp add: digit_of_def Let_def)
qed

lemma show_digits_value:
  assumes "1 < base" "base \<le> 16"
  shows "0 < fuel \<Longrightarrow> n < base ^ fuel \<Longrightarrow> digits_value base (show_digits base fuel n acc) 0 = digits_value base acc n"
proof (induction fuel arbitrary: n acc)
  case (Suc fuel)
  have m: "n mod base < base" using assms by simp
  then have "n mod base < 16" using assms(2) by linarith
  then have d: "digit_of base (''0123456789abcdef'' ! (n mod base)) = Some (n mod base)"
    using digit_of_show [of "n mod base" base] m by simp
  show ?case
  proof (cases "n < base")
    case True
    then show ?thesis using d by simp
  next
    case False
    then have "0 < fuel" using Suc.prems by (cases fuel) auto
    moreover have "n div base < base ^ fuel"
      using Suc.prems assms by (simp add: less_mult_imp_div_less mult.commute)
    ultimately show ?thesis using False d Suc.IH by (simp add: Let_def)
  qed
qed simp

lemma show_digits_set:
  assumes "0 < base"
  shows "set (show_digits base fuel n acc) \<subseteq> (\<lambda>d. ''0123456789abcdef'' ! d) ` {..<base} \<union> set acc"
proof (induction fuel arbitrary: n acc)
  case (Suc fuel)
  define D where "D = (\<lambda>d. ''0123456789abcdef'' ! d)"
  have "D (n mod base) \<in> D ` {..<base}" using assms by simp
  then have c: "set (D (n mod base) # acc) \<subseteq> D ` {..<base} \<union> set acc" by auto
  have i: "set (show_digits base fuel m (D (n mod base) # acc)) \<subseteq> D ` {..<base} \<union> set (D (n mod base) # acc)" for m
    using Suc unfolding D_def by blast
  have "set (show_digits base fuel m (D (n mod base) # acc)) \<subseteq> D ` {..<base} \<union> set acc" for m
    using c i [of m] by blast
  then show ?case using c unfolding show_digits.simps Let_def D_def by (simp only: split: if_split) blast
qed simp

lemma show_digits_ne: "0 < fuel \<or> acc \<noteq> [] \<Longrightarrow> show_digits base fuel n acc \<noteq> []"
  by (induction fuel arbitrary: n acc) (simp_all add: Let_def)

lemma show_digits_length:
  assumes "1 < base"
  shows "n < base ^ Suc k \<Longrightarrow> length (show_digits base fuel n acc) \<le> Suc k + length acc"
proof (induction fuel arbitrary: n acc k)
  case (Suc fuel)
  show ?case
  proof (cases "n < base")
    case False
    then obtain k' where k: "k = Suc k'" using Suc.prems by (cases k) auto
    then have "n div base < base ^ Suc k'" using Suc.prems assms by (simp add: less_mult_imp_div_less mult.commute)
    from Suc.IH [OF this, of "''0123456789abcdef'' ! (n mod base) # acc"] show ?thesis using False k by (simp only: show_digits.simps Let_def if_False list.size)
  qed simp
qed simp

lemma decimal_char:
  assumes "c \<in> (\<lambda>d. ''0123456789abcdef'' ! d) ` {..<10}"
  shows "digit_of 10 c \<noteq> None" "\<not> is_space c" "c \<noteq> CHR ''-''" "c \<noteq> CHR ''+''" "c \<noteq> CHR '' ''" "c \<noteq> CHR 0x00"
proof -
  obtain d where d: "d < 10" "c = ''0123456789abcdef'' ! d" using assms by auto
  then show n: "digit_of 10 c \<noteq> None" using digit_of_show [of d 10] by simp
  have "\<forall>c \<in> {CHR '' '', CHR ''-'', CHR ''+'', CHR 0x00}. digit_of 10 c = None" by code_simp
  then show "c \<noteq> CHR ''-''" "c \<noteq> CHR ''+''" "c \<noteq> CHR '' ''" "c \<noteq> CHR 0x00" using n by auto
  show "\<not> is_space c"
  proof
    assume "is_space c"
    then have "digit_of 10 c = None" by (auto simp: is_space_def digit_of_def Let_def)
    then show False using n by simp
  qed
qed

lemma show_int_nonneg: "0 \<le> x \<Longrightarrow> show_int x = show_digits 10 20 (nat x) []"
  by (simp add: show_int_def)

lemma show_int_chars:
  assumes "0 \<le> x"
  shows "set (show_int x) \<subseteq> (\<lambda>d. ''0123456789abcdef'' ! d) ` {..<10}" "show_int x \<noteq> []"
  using show_digits_set [of 10 20 "nat x" "[]"] show_digits_ne [of 20 "[]" 10 "nat x"] assms
  by (simp_all add: show_int_nonneg del: show_digits.simps)

lemma show_int_read:
  assumes "0 \<le> x" "x < 2 ^ 31"
  shows "strtol 10 (show_int x) = x" "strtol_digits (show_int x)" "\<not> strtol_cut 10 (show_int x)" "c_str (show_int x) = show_int x"
    "CHR '' '' \<notin> set (show_int x)" "length (show_int x) \<le> 10"
proof -
  let ?s = "show_int x"
  obtain c r where s: "?s = c # r" using show_int_chars(2) [OF assms(1)] by (cases ?s) auto
  note c = show_int_chars(1) [OF assms(1)]
  have h: "\<not> is_space c" "c \<noteq> CHR ''-''" "c \<noteq> CHR ''+''" "digit_of 10 c \<noteq> None" using c s decimal_char [of c] by auto
  have v: "digits_value 10 ?s 0 = nat x"
    using show_digits_value [of 10 20 "nat x" "[]"] assms by (simp add: show_int_nonneg del: show_digits.simps)
  have "strtol_value 10 ?s = x" using h v s assms(1) by (simp add: strtol_value_def unsigned_value_def)
  then show "strtol 10 ?s = x" "\<not> strtol_cut 10 ?s" using assms by (simp_all add: strtol_def strtol_cut_def)
  show "c_str ?s = ?s" using c decimal_char(6) by (auto simp: c_str_def takeWhile_eq_all_conv subset_iff)
  show "strtol_digits ?s" using h s by (simp add: strtol_digits_def after_sign_def)
  show "CHR '' '' \<notin> set ?s" using c decimal_char(5) by (auto simp: subset_iff)
  show "length ?s \<le> 10" using show_digits_length [of 10 "nat x" 9 20 "[]"] assms by (simp add: show_int_nonneg del: show_digits.simps)
qed

end
