(* ===== verification/Regex.thy ===== *)
theory Regex
  imports JHStrings JHVector "HOL-Library.Char_ord"
begin

text \<open>
  Regular expressions (src/Regex.cpp, include/Regex.h): \<open>prepare\<close> builds a tree of elements that are
  linked by parent, next and child pointers; \<open>parse\<close> walks the tree along a string. Elements lie in a
  heap, the root at address 0; characters are signed, as on the code's platforms.
\<close>

section \<open>State\<close>

datatype elem_type = TYPE_UNKNOWN | TYPE_SEQUENCE | TYPE_OR | TYPE_TERMINAL | TYPE_CLASS

text \<open>The characters of an element are not initialised by its constructor.\<close>

record element =
  elParent :: "nat option"
  elNext :: "nat option"
  elChild :: "nat option"
  elType :: elem_type
  mTermStartChar :: "char option"
  mTermEndChar :: "char option"
  mRepeatMin :: int
  mRepeatMax :: int
  mClassInvert :: bool
  mGroupNum :: int

definition Element_new :: "elem_type \<Rightarrow> element" where
  "Element_new ty = \<lparr>elParent = None, elNext = None, elChild = None, elType = ty, mTermStartChar = None,
     mTermEndChar = None, mRepeatMin = 1, mRepeatMax = 1, mClassInvert = False, mGroupNum = -1\<rparr>"

type_synonym rx_heap = "nat \<Rightarrow> element option"

record group_data =
  gStart :: int
  gEnd :: int
  gString :: string

definition GroupData_new :: group_data where
  "GroupData_new = \<lparr>gStart = 0, gEnd = 0, gString = []\<rparr>"

datatype rx_state = STATE_INIT | STATE_PREPARED | STATE_PARSED

record regex =
  rxState :: rx_state
  rxHeap :: rx_heap
  rxFresh :: nat
  rxGroups :: "group_data jvec"
  rxError :: string

definition mRoot :: nat where "mRoot = 0"

definition Regex_new :: regex where
  "Regex_new = \<lparr>rxState = STATE_INIT, rxHeap = [mRoot \<mapsto> Element_new TYPE_UNKNOWN], rxFresh = 1,
     rxGroups = vec_new, rxError = []\<rparr>"

text \<open>The error codes used here (include/JetHead.h), and what a \<open>bool\<close> makes of one.\<close>

datatype ErrCode = kNoError | kInvalidRequest | kNotInitialized

definition err_num :: "ErrCode \<Rightarrow> int" where
  "err_num e = (case e of kNoError \<Rightarrow> 0 | kInvalidRequest \<Rightarrow> 11 | kNotInitialized \<Rightarrow> 12)"

definition schar :: "char \<Rightarrow> int" where
  "schar c = (let n = of_char c :: int in if n < 128 then n else n - 256)"

definition NUL :: char where "NUL = CHR 0x00"

text \<open>Signed arithmetic on 32 bits; overflow is undefined.\<close>

definition int_max :: int where "int_max = 2147483647"

definition int_res :: "int \<Rightarrow> int outcome" where
  "int_res x = (if - int_max - 1 \<le> x \<and> x \<le> int_max then Inr x else Inl UndefinedBehaviour)"

section \<open>Elements\<close>

definition el_get :: "rx_heap \<Rightarrow> nat option \<Rightarrow> element outcome" where
  "el_get h p = (case p of None \<Rightarrow> Inl UndefinedBehaviour
     | Some a \<Rightarrow> (case h a of None \<Rightarrow> Inl UndefinedBehaviour | Some e \<Rightarrow> Inr e))"

definition el_put :: "rx_heap \<Rightarrow> nat option \<Rightarrow> (element \<Rightarrow> element) \<Rightarrow> rx_heap outcome" where
  "el_put h p f = andThen (el_get h p) (\<lambda>e. Inr (h(the p \<mapsto> f e)))"

fun el_last :: "nat \<Rightarrow> rx_heap \<Rightarrow> nat \<Rightarrow> nat outcome" where
  "el_last 0 h c = Inl NoReturn"
| "el_last (Suc fuel) h c =
     andThen (el_get h (Some c)) (\<lambda>e. case elNext e of None \<Rightarrow> Inr c | Some n \<Rightarrow> el_last fuel h n)"

definition el_insertChild :: "nat \<Rightarrow> rx_heap \<Rightarrow> nat option \<Rightarrow> nat \<Rightarrow> rx_heap outcome" where
  "el_insertChild fuel h this e =
     andThen (el_get h this) (\<lambda>t.
     andThen (el_put h (Some e) (\<lambda>r. r\<lparr>elParent := this, elNext := None\<rparr>)) (\<lambda>h.
     case elChild t of
       Some c \<Rightarrow> andThen (el_last fuel h c) (\<lambda>c. el_put h (Some c) (\<lambda>r. r\<lparr>elNext := Some e\<rparr>))
     | None \<Rightarrow> el_put h this (\<lambda>r. r\<lparr>elChild := Some e\<rparr>)))"

definition el_getLastChild :: "nat \<Rightarrow> rx_heap \<Rightarrow> nat option \<Rightarrow> nat option outcome" where
  "el_getLastChild fuel h this =
     andThen (el_get h this) (\<lambda>t.
     case elChild t of
       Some c \<Rightarrow> andThen (el_last fuel h c) (\<lambda>c. Inr (Some c))
     | None \<Rightarrow> Inr None)"

section \<open>Preparing\<close>

datatype prep_mode = IN_UNKNOWN | IN_CLASS | IN_CLASS_THRU

text \<open>The local variables of \<open>prepare\<close>, and the tree it works on.\<close>

record prep =
  pHeap :: rx_heap
  pFresh :: nat
  cur_node :: "nat option"
  pMode :: prep_mode
  in_group :: int

text \<open>A step goes on, or ends \<open>prepare\<close> with an error message.\<close>

datatype prep_step = Go prep | Err string prep

type_synonym prep_result = "prep_step outcome"

definition thenGo :: "prep_result \<Rightarrow> (prep \<Rightarrow> prep_result) \<Rightarrow> prep_result" where
  "thenGo r f = andThen r (\<lambda>x. case x of Go p \<Rightarrow> f p | Err m p \<Rightarrow> Inr (Err m p))"

text \<open>\<open>new_element = jh_new Element; ...; cur_node->insertChild( new_element )\<close>, and the address of the new element.\<close>

definition p_insert :: "prep \<Rightarrow> nat option \<Rightarrow> element \<Rightarrow> (nat \<times> prep) outcome" where
  "p_insert p at r =
     (let a = pFresh p in
      andThen (el_insertChild (Suc a) ((pHeap p)(a \<mapsto> r)) at a) (\<lambda>h.
      Inr (a, p\<lparr>pHeap := h, pFresh := Suc a\<rparr>)))"

text \<open>The macro \<open>ADD_TERMINAL\<close>.\<close>

definition add_terminal :: "char \<Rightarrow> char \<Rightarrow> prep \<Rightarrow> prep_result" where
  "add_terminal start endc p =
     (if pMode p = IN_CLASS_THRU
      then if start \<noteq> endc then Inr (Err ''Invalid range definition'' p)
           else let p = p\<lparr>pMode := IN_CLASS\<rparr> in
                andThen (el_getLastChild (pFresh p) (pHeap p) (cur_node p)) (\<lambda>n.
                andThen (el_put (pHeap p) n (\<lambda>e. e\<lparr>mTermEndChar := Some start\<rparr>)) (\<lambda>h.
                Inr (Go (p\<lparr>pHeap := h\<rparr>))))
      else andThen (p_insert p (cur_node p)
               ((Element_new TYPE_TERMINAL)\<lparr>mTermStartChar := Some start, mTermEndChar := Some endc\<rparr>))
             (\<lambda>(a, p). Inr (Go p)))"

fun add_terminals :: "(char \<times> char) list \<Rightarrow> prep \<Rightarrow> prep_result" where
  "add_terminals [] p = Inr (Go p)"
| "add_terminals ((start, endc) # ts) p = thenGo (add_terminal start endc p) (add_terminals ts)"

text \<open>
  The macros \<open>CHECK_CLASS\<close> and \<open>END_CLASS\<close> around the terminals of a class escape; a capital letter
  inverts the class, the surrounding one when there is one.
\<close>

definition class_escape :: "bool \<Rightarrow> (char \<times> char) list \<Rightarrow> prep \<Rightarrow> prep_result" where
  "class_escape invert ts p =
     andThen (el_get (pHeap p) (cur_node p)) (\<lambda>e.
     let class_created = (elType e \<noteq> TYPE_CLASS) in
     andThen (if class_created
              then andThen (p_insert p (cur_node p) (Element_new TYPE_CLASS)) (\<lambda>(a, p). Inr (p\<lparr>cur_node := Some a\<rparr>))
              else Inr p) (\<lambda>p.
     andThen (if invert then el_put (pHeap p) (cur_node p) (\<lambda>e. e\<lparr>mClassInvert := True\<rparr>) else Inr (pHeap p)) (\<lambda>h.
     thenGo (add_terminals ts (p\<lparr>pHeap := h\<rparr>)) (\<lambda>p.
     if class_created
     then andThen (el_get (pHeap p) (cur_node p)) (\<lambda>e. Inr (Go (p\<lparr>cur_node := elParent e\<rparr>)))
     else Inr (Go p)))))"

definition TAB :: char where "TAB = CHR 0x09"
definition LF :: char where "LF = CHR 0x0A"
definition CR :: char where "CR = CHR 0x0D"
definition FF :: char where "FF = CHR 0x0C"

definition word_terms :: "(char \<times> char) list" where
  "word_terms = [(CHR ''a'', CHR ''z''), (CHR ''A'', CHR ''Z''), (CHR ''0'', CHR ''9''), (CHR ''_'', CHR ''_'')]"
definition space_terms :: "(char \<times> char) list" where
  "space_terms = [(CHR '' '', CHR '' ''), (TAB, TAB), (LF, LF), (CR, CR), (FF, FF)]"
definition digit_terms :: "(char \<times> char) list" where
  "digit_terms = [(CHR ''0'', CHR ''9'')]"

text \<open>The character after a backslash; behind the last character stands NUL.\<close>

definition p_escape :: "char \<Rightarrow> prep \<Rightarrow> prep_result" where
  "p_escape c p =
     (if c = CHR ''w'' then class_escape False word_terms p
      else if c = CHR ''W'' then class_escape True word_terms p
      else if c = CHR ''s'' then class_escape False space_terms p
      else if c = CHR ''S'' then class_escape True space_terms p
      else if c = CHR ''d'' then class_escape False digit_terms p
      else if c = CHR ''D'' then class_escape True digit_terms p
      else if c = CHR ''t'' then add_terminal TAB TAB p
      else if c = CHR ''n'' then add_terminal LF LF p
      else if c = CHR ''r'' then add_terminal CR CR p
      else if c = CHR ''f'' then add_terminal FF FF p
      else if c = CHR ''0'' \<or> c = CHR ''x'' then Inr (Go p)
      else add_terminal c c p)"

text \<open>What is repeated is the last child of the current node; there must be one.\<close>

definition repeatable :: "elem_type \<Rightarrow> bool" where
  "repeatable ty \<longleftrightarrow> ty = TYPE_CLASS \<or> ty = TYPE_OR \<or> ty = TYPE_TERMINAL"

definition p_repeat :: "string \<Rightarrow> int \<Rightarrow> int \<Rightarrow> prep \<Rightarrow> prep_result" where
  "p_repeat err mn mx p =
     (if pMode p = IN_CLASS then Inr (Err err p)
      else andThen (el_getLastChild (pFresh p) (pHeap p) (cur_node p)) (\<lambda>n.
           andThen (el_put (pHeap p) n (\<lambda>e. e\<lparr>mRepeatMin := mn, mRepeatMax := mx\<rparr>)) (\<lambda>h.
           andThen (el_get h n) (\<lambda>e.
           if repeatable (elType e) then Inr (Go (p\<lparr>pHeap := h\<rparr>)) else Inl Fatal))))"

text \<open>The loop over the digits of a range, with the two numbers so far; the result ends behind the brace.\<close>

datatype range_step = RangeDone int int bool string | RangeErr string int int

definition digit_val :: "char \<Rightarrow> int option" where
  "digit_val c = (if CHR ''0'' \<le> c \<and> c \<le> CHR ''9'' then Some (of_char c - 48) else None)"

fun p_range_loop :: "string \<Rightarrow> bool \<Rightarrow> int \<Rightarrow> int \<Rightarrow> range_step outcome" where
  "p_range_loop [] in_max mn mx = Inr (RangeErr ''Non-numeric value in repetition range'' mn mx)"
| "p_range_loop (c # rest) in_max mn mx =
     (if c = CHR ''}'' then Inr (RangeDone mn mx in_max rest)
      else if c = CHR '',''
      then if in_max then Inr (RangeErr ''Too many commons in repetition range'' mn mx)
           else p_range_loop rest True mn mx
      else case digit_val c of
             None \<Rightarrow> Inr (RangeErr ''Non-numeric value in repetition range'' mn mx)
           | Some d \<Rightarrow>
               if in_max
               then andThen (int_res (mx * 10)) (\<lambda>x. andThen (int_res (x + d)) (\<lambda>mx. p_range_loop rest in_max mn mx))
               else andThen (int_res (mn * 10)) (\<lambda>x. andThen (int_res (x + d)) (\<lambda>mn. p_range_loop rest in_max mn mx)))"

definition p_range :: "string \<Rightarrow> prep \<Rightarrow> (prep_step \<times> string) outcome" where
  "p_range rest p =
     (if pMode p = IN_CLASS then Inr (Err ''Non-excaped { in charater class'' p, rest)
      else andThen (p_repeat [] 0 0 p) (\<lambda>r. case r of Err m p \<Rightarrow> Inr (Err m p, rest) | Go p \<Rightarrow>
           andThen (el_getLastChild (pFresh p) (pHeap p) (cur_node p)) (\<lambda>n.
           andThen (p_range_loop rest False 0 0) (\<lambda>r. case r of
             RangeErr m mn mx \<Rightarrow> andThen (el_put (pHeap p) n (\<lambda>e. e\<lparr>mRepeatMin := mn, mRepeatMax := mx\<rparr>))
               (\<lambda>h. Inr (Err m (p\<lparr>pHeap := h\<rparr>), rest))
           | RangeDone mn mx in_max rest \<Rightarrow>
               andThen (el_put (pHeap p) n (\<lambda>e. e\<lparr>mRepeatMin := mn, mRepeatMax := (if in_max then mx else mn)\<rparr>))
               (\<lambda>h. Inr (Go (p\<lparr>pHeap := h\<rparr>), rest))))))"

definition p_class_open :: "bool \<Rightarrow> prep \<Rightarrow> prep_result" where
  "p_class_open invert p =
     (if pMode p = IN_CLASS then Inr (Err ''Non-excaped [ in charater class'' p)
      else andThen (p_insert (p\<lparr>pMode := IN_CLASS\<rparr>) (cur_node p) ((Element_new TYPE_CLASS)\<lparr>mClassInvert := invert\<rparr>))
             (\<lambda>(a, p). Inr (Go (p\<lparr>cur_node := Some a\<rparr>))))"

definition p_class_close :: "prep \<Rightarrow> prep_result" where
  "p_class_close p =
     (if pMode p = IN_CLASS
      then andThen (el_get (pHeap p) (cur_node p)) (\<lambda>e. Inr (Go (p\<lparr>cur_node := elParent e, pMode := IN_UNKNOWN\<rparr>)))
      else if pMode p = IN_CLASS_THRU
      then Inr (Err ''Non-escaped square bracket at end of charater range'' p)
      else add_terminal (CHR '']'') (CHR '']'') p)"

definition el_char :: "char option \<Rightarrow> char outcome" where
  "el_char c = (case c of None \<Rightarrow> Inl UndefinedBehaviour | Some c \<Rightarrow> Inr c)"

definition p_dash :: "prep \<Rightarrow> prep_result" where
  "p_dash p =
     (if pMode p = IN_CLASS
      then andThen (el_getLastChild (pFresh p) (pHeap p) (cur_node p)) (\<lambda>n.
           andThen (el_get (pHeap p) n) (\<lambda>e.
           andThen (el_char (mTermStartChar e)) (\<lambda>a. andThen (el_char (mTermEndChar e)) (\<lambda>b.
           if a \<noteq> b then Inr (Err ''Invalid terminal for start of charater range'' p)
           else Inr (Go (p\<lparr>pMode := IN_CLASS_THRU\<rparr>))))))
      else add_terminal (CHR ''-'') (CHR ''-'') p)"

definition p_open :: "prep \<Rightarrow> prep_result" where
  "p_open p =
     (if pMode p = IN_CLASS then add_terminal (CHR ''('') (CHR ''('') p
      else andThen (p_insert (p\<lparr>in_group := in_group p + 1\<rparr>) (cur_node p) (Element_new TYPE_OR)) (\<lambda>(a, p).
           andThen (p_insert p (Some a) (Element_new TYPE_SEQUENCE)) (\<lambda>(b, p).
           Inr (Go (p\<lparr>cur_node := Some b\<rparr>)))))"

definition p_bar :: "prep \<Rightarrow> prep_result" where
  "p_bar p =
     (if in_group p > 0
      then andThen (el_get (pHeap p) (cur_node p)) (\<lambda>e.
           andThen (p_insert p (elParent e) (Element_new TYPE_SEQUENCE)) (\<lambda>(a, p).
           Inr (Go (p\<lparr>cur_node := Some a\<rparr>))))
      else add_terminal (CHR ''|'') (CHR ''|'') p)"

definition p_close :: "prep \<Rightarrow> prep_result" where
  "p_close p =
     (if in_group p > 0
      then andThen (el_get (pHeap p) (cur_node p)) (\<lambda>e.
           andThen (el_get (pHeap p) (elParent e)) (\<lambda>f.
           Inr (Go (p\<lparr>in_group := in_group p - 1, cur_node := elParent f\<rparr>))))
      else add_terminal (CHR '')'') (CHR '')'') p)"

text \<open>
  The loop over the characters that are left. After the last one the string has a NUL, which a
  backslash at the end escapes.
\<close>

definition with_rest :: "string \<Rightarrow> prep_result \<Rightarrow> (prep_step \<times> string) outcome" where
  "with_rest rest r = andThen r (\<lambda>x. Inr (x, rest))"

definition p_step :: "char \<Rightarrow> string \<Rightarrow> prep \<Rightarrow> (prep_step \<times> string) outcome" where
  "p_step c rest p =
     (if c = CHR 0x5C then with_rest (tl rest) (p_escape (case rest of [] \<Rightarrow> NUL | d # _ \<Rightarrow> d) p)
      else if c = CHR ''.'' then with_rest rest (add_terminal (CHR 0x00) (CHR 0x7F) p)
      else if c = CHR ''*'' then with_rest rest (p_repeat ''Non-excaped * in charater class'' 0 (-1) p)
      else if c = CHR ''+'' then with_rest rest (p_repeat ''Non-excaped + in charater class'' 1 (-1) p)
      else if c = CHR ''?'' then with_rest rest (p_repeat ''Non-excaped ? in charater class'' 0 1 p)
      else if c = CHR ''{'' then p_range rest p
      else if c = CHR ''['' then
        (if pMode p \<noteq> IN_CLASS \<and> rest \<noteq> [] \<and> hd rest = CHR ''^''
         then with_rest (tl rest) (p_class_open True p) else with_rest rest (p_class_open False p))
      else if c = CHR '']'' then with_rest rest (p_class_close p)
      else if c = CHR ''-'' then with_rest rest (p_dash p)
      else if c = CHR ''('' then with_rest rest (p_open p)
      else if c = CHR ''|'' then with_rest rest (p_bar p)
      else if c = CHR '')'' then with_rest rest (p_close p)
      else with_rest rest (add_terminal c c p))"

lemma p_range_loop_shorter:
  "p_range_loop s b mn mx = Inr (RangeDone x y z rest) \<Longrightarrow> length rest < length s"
  by (induction s b mn mx rule: p_range_loop.induct)
    (fastforce simp: andThen_Inr_iff split: if_splits option.splits)+

lemma p_range_shorter:
  assumes "p_range s p = Inr (Go p', rest)"
  shows "length rest \<le> length s"
proof -
  obtain r where r: "p_repeat [] 0 0 p = Inr r" "pMode p \<noteq> IN_CLASS"
    using assms by (auto simp: p_range_def andThen_Inr_iff split: if_splits)
  then obtain p1 where p1: "r = Go p1" using assms by (cases r) (auto simp: p_range_def)
  obtain x where x: "p_range_loop s False 0 0 = Inr x"
    using assms r p1 by (auto simp: p_range_def andThen_Inr_iff)
  show ?thesis using assms r p1 x
    by (cases x) (auto simp: p_range_def andThen_Inr_iff dest!: p_range_loop_shorter)
qed

lemma p_step_shorter: "p_step c s p = Inr (Go p', rest) \<Longrightarrow> length rest \<le> length s"
  by (auto simp: p_step_def with_rest_def andThen_Inr_iff split: if_splits dest: p_range_shorter)

lemma andThen_cong [fundef_cong]:
  "m = m' \<Longrightarrow> (\<And>x. m' = Inr x \<Longrightarrow> f x = g x) \<Longrightarrow> andThen m f = andThen m' g"
  by (cases m') auto

function p_loop :: "string \<Rightarrow> prep \<Rightarrow> prep_result" where
  "p_loop [] p = Inr (Go p)"
| "p_loop (c # s) p =
     andThen (p_step c s p) (\<lambda>x. case x of (Go p, rest) \<Rightarrow> p_loop rest p | (Err m p, rest) \<Rightarrow> Inr (Err m p))"
  by pat_completeness auto
termination
  by (relation "measure (\<lambda>(s, p). length s)") (auto dest: p_step_shorter)

definition rx_prepare :: "regex \<Rightarrow> string \<Rightarrow> (ErrCode \<times> regex) outcome" where
  "rx_prepare r s =
     andThen (el_put (rxHeap r) (Some mRoot) (\<lambda>e. e\<lparr>elType := TYPE_SEQUENCE\<rparr>)) (\<lambda>h.
     andThen (p_loop s \<lparr>pHeap = h, pFresh = rxFresh r, cur_node = Some mRoot, pMode = IN_UNKNOWN, in_group = 0\<rparr>) (\<lambda>x.
     case x of
       Go p \<Rightarrow> Inr (kNoError, r\<lparr>rxHeap := pHeap p, rxFresh := pFresh p, rxState := STATE_PREPARED\<rparr>)
     | Err m p \<Rightarrow> Inr (kInvalidRequest, r\<lparr>rxHeap := pHeap p, rxFresh := pFresh p, rxError := m\<rparr>)))"

section \<open>Dumping the tree\<close>

definition show_range :: "element \<Rightarrow> string" where
  "show_range e = ''{'' @ show_int (mRepeatMin e) @ '','' @ show_int (mRepeatMax e) @ ''}''"

definition rx_dumpElement :: "element \<Rightarrow> string outcome" where
  "rx_dumpElement e =
     (case elType e of
        TYPE_SEQUENCE \<Rightarrow> Inr ''[S]''
      | TYPE_OR \<Rightarrow> Inr (''[O]'' @ (if mRepeatMin e \<noteq> mRepeatMax e then show_range e else []))
      | TYPE_TERMINAL \<Rightarrow>
          andThen (el_char (mTermStartChar e)) (\<lambda>a. andThen (el_char (mTermEndChar e)) (\<lambda>b.
          Inr (''[T:'' @
            (if a = CHR 0x00 \<and> b = CHR 0x7F then ''.''
             else if a = b
             then if schar a < schar (CHR '' '') then ''0x'' @ show_hex (schar a) else [a]
             else [a] @ ''-'' @ [b]) @ '']'' @
            (if mRepeatMin e \<noteq> mRepeatMax e then show_range e else []))))
      | TYPE_CLASS \<Rightarrow>
          Inr ((if mClassInvert e then ''[C^]'' else ''[C]'') @
            (if mRepeatMin e \<noteq> 1 \<or> mRepeatMax e \<noteq> 1 then show_range e else []))
      | TYPE_UNKNOWN \<Rightarrow> Inl Fatal)"

text \<open>To the next element of a parent, or None behind the root.\<close>

fun rx_dump_climb :: "nat \<Rightarrow> rx_heap \<Rightarrow> nat \<Rightarrow> nat option outcome" where
  "rx_dump_climb 0 h c = Inl NoReturn"
| "rx_dump_climb (Suc fuel) h c =
     andThen (el_get h (Some c)) (\<lambda>e.
     case elParent e of
       None \<Rightarrow> Inr None
     | Some p \<Rightarrow> andThen (el_get h (Some p)) (\<lambda>f.
         case elNext f of Some n \<Rightarrow> Inr (Some n) | None \<Rightarrow> rx_dump_climb fuel h p))"

fun rx_dump_loop :: "nat \<Rightarrow> nat \<Rightarrow> rx_heap \<Rightarrow> nat option \<Rightarrow> string \<Rightarrow> string outcome" where
  "rx_dump_loop bound 0 h c dump = Inl NoReturn"
| "rx_dump_loop bound (Suc fuel) h c dump =
     (case c of
        None \<Rightarrow> Inr dump
      | Some c \<Rightarrow>
          andThen (el_get h (Some c)) (\<lambda>e.
          andThen (rx_dumpElement e) (\<lambda>s.
          if elChild e \<noteq> None then rx_dump_loop bound fuel h (elChild e) (dump @ s)
          else if elNext e \<noteq> None then rx_dump_loop bound fuel h (elNext e) (dump @ s)
          else andThen (rx_dump_climb bound h c) (\<lambda>n. rx_dump_loop bound fuel h n (dump @ s)))))"

definition rx_dumpTree :: "regex \<Rightarrow> string \<Rightarrow> (ErrCode \<times> string) outcome" where
  "rx_dumpTree r dump =
     (if rxState r \<noteq> STATE_PARSED \<and> rxState r \<noteq> STATE_PREPARED then Inr (kNotInitialized, dump)
      else andThen (rx_dump_loop (Suc (rxFresh r)) (Suc (Suc (rxFresh r))) (rxHeap r) (Some mRoot) dump)
             (\<lambda>dump. Inr (kNoError, dump)))"

section \<open>Parsing\<close>

record parse_data =
  pdString :: string
  cur_pos :: int
  backtrack_pos :: int
  match_count :: int

definition ParseData_new :: "string \<Rightarrow> parse_data" where
  "ParseData_new s = \<lparr>pdString = s, cur_pos = 0, backtrack_pos = 0, match_count = 0\<rparr>"

text \<open>\<open>CUR_CHAR\<close>: a NUL stands behind the last character, and beyond it no character may be read.\<close>

definition CUR_CHAR :: "parse_data \<Rightarrow> char outcome" where
  "CUR_CHAR d =
     (if 0 \<le> cur_pos d \<and> cur_pos d < int (length (pdString d)) then Inr (pdString d ! nat (cur_pos d))
      else if cur_pos d = int (length (pdString d)) then Inr NUL
      else Inl UndefinedBehaviour)"

definition in_range :: "element \<Rightarrow> char \<Rightarrow> bool outcome" where
  "in_range e c =
     andThen (el_char (mTermStartChar e)) (\<lambda>a.
     if schar c \<ge> schar a then andThen (el_char (mTermEndChar e)) (\<lambda>b. Inr (schar c \<le> schar b)) else Inr False)"

text \<open>The loop over the children of a class: a child that matches decides.\<close>

fun class_loop :: "nat \<Rightarrow> rx_heap \<Rightarrow> bool \<Rightarrow> parse_data \<Rightarrow> nat option \<Rightarrow> bool outcome" where
  "class_loop 0 h invert d child = Inl NoReturn"
| "class_loop (Suc fuel) h invert d child =
     (case child of
        None \<Rightarrow> Inr invert
      | Some c \<Rightarrow>
          andThen (el_get h (Some c)) (\<lambda>e.
          andThen (CUR_CHAR d) (\<lambda>x.
          andThen (in_range e x) (\<lambda>m. if m then Inr (\<not> invert) else class_loop fuel h invert d (elNext e)))))"

definition processTerminal :: "nat \<Rightarrow> rx_heap \<Rightarrow> element \<Rightarrow> parse_data \<Rightarrow> bool outcome" where
  "processTerminal fuel h e d =
     (if elType e = TYPE_TERMINAL then andThen (CUR_CHAR d) (in_range e)
      else if elType e = TYPE_CLASS then class_loop fuel h (mClassInvert e) d (elChild e)
      else Inr False)"

text \<open>\<open>s.erase( s.length() - n )\<close>: the unsigned position is past the end when \<open>n\<close> is the greater one.\<close>

definition str_erase :: "string \<Rightarrow> int \<Rightarrow> string outcome" where
  "str_erase s n = (if n \<le> int (length s) \<and> 0 \<le> n then Inr (take (nat (int (length s) - n)) s) else Inl OutOfRange)"

fun backtrack_loop :: "nat \<Rightarrow> int \<Rightarrow> group_data jvec \<Rightarrow> nat \<Rightarrow> group_data jvec outcome" where
  "backtrack_loop 0 pos gs i = Inl NoReturn"
| "backtrack_loop (Suc fuel) pos gs i =
     (if i < mSize gs
      then andThen (vec_at gs i) (\<lambda>g.
           if gEnd g > pos
           then andThen (str_erase (gString g) (gEnd g - pos)) (\<lambda>s.
                andThen (vec_put gs i (g\<lparr>gString := s, gEnd := pos\<rparr>)) (\<lambda>gs. backtrack_loop fuel pos gs (Suc i)))
           else backtrack_loop fuel pos gs (Suc i))
      else Inr gs)"

definition backtrackGroups :: "group_data jvec \<Rightarrow> parse_data \<Rightarrow> group_data jvec outcome" where
  "backtrackGroups gs d = backtrack_loop (Suc (mSize gs)) (cur_pos d) gs 0"

text \<open>The inner loop of a repeated terminal: it counts matches up to the maximum.\<close>

function repeat_loop :: "nat \<Rightarrow> rx_heap \<Rightarrow> element \<Rightarrow> parse_data \<Rightarrow> bool \<Rightarrow> (bool \<times> parse_data) outcome" where
  "repeat_loop fuel h e d res =
     (if (mRepeatMax e = -1 \<or> match_count d < mRepeatMax e) \<and> res
      then andThen (int_res (cur_pos d + 1)) (\<lambda>pos. andThen (int_res (match_count d + 1)) (\<lambda>n.
           let d = d\<lparr>cur_pos := pos, match_count := n\<rparr> in
           andThen (processTerminal fuel h e d) (\<lambda>res. repeat_loop fuel h e d res)))
      else Inr (res, d))"
  by auto
termination
  by (relation "measure (\<lambda>(fuel, h, e, d, res). nat (int_max + 1 - cur_pos d))")
    (auto simp: int_res_def split: if_splits)

declare repeat_loop.simps [simp del]

lemma repeat_loop_backtrack:
  "repeat_loop fuel h e d res = Inr (res', d') \<Longrightarrow> backtrack_pos d' = backtrack_pos d \<and> pdString d' = pdString d"
proof (induction fuel h e d res rule: repeat_loop.induct)
  case (1 fuel h e d res)
  show ?case
  proof (cases "(mRepeatMax e = -1 \<or> match_count d < mRepeatMax e) \<and> res")
    case True
    then obtain pos n r where n: "int_res (cur_pos d + 1) = Inr pos" "int_res (match_count d + 1) = Inr n"
      "processTerminal fuel h e (d\<lparr>cur_pos := pos, match_count := n\<rparr>) = Inr r"
      "repeat_loop fuel h e (d\<lparr>cur_pos := pos, match_count := n\<rparr>) r = Inr (res', d')"
      using 1(2) by (subst (asm) repeat_loop.simps) (auto simp: andThen_Inr_iff Let_def)
    from 1(1) [OF True n(1,2) refl n(3,4)] show ?thesis by simp
  next
    case False
    then show ?thesis using 1(2) by (subst (asm) repeat_loop.simps) auto
  qed
qed

text \<open>
  The outer loop: when too few matched, the element is tried again one position earlier, down to
  \<open>backtrack_pos\<close>.
\<close>

function retry_loop ::
  "nat \<Rightarrow> rx_heap \<Rightarrow> element \<Rightarrow> int \<Rightarrow> group_data jvec \<Rightarrow> parse_data \<Rightarrow> (bool \<times> group_data jvec \<times> parse_data) outcome" where
  "retry_loop fuel h e start_pos gs d =
     andThen (processTerminal fuel h e (d\<lparr>match_count := 0\<rparr>)) (\<lambda>res.
     andThen (repeat_loop fuel h e (d\<lparr>match_count := 0\<rparr>) res) (\<lambda>(res, d').
     if \<not> res \<and> match_count d' \<ge> mRepeatMin e then Inr (True, gs, d')
     else if \<not> res \<and> start_pos > backtrack_pos d'
     then let d' = d'\<lparr>cur_pos := start_pos - 1\<rparr> in
          andThen (backtrackGroups gs d') (\<lambda>gs. retry_loop fuel h e (start_pos - 1) gs d')
     else if res \<and> match_count d' \<ge> mRepeatMin e
     then andThen (int_res (cur_pos d' + 1)) (\<lambda>pos. andThen (int_res (match_count d' + 1)) (\<lambda>n.
          Inr (True, gs, d'\<lparr>cur_pos := pos, match_count := n, backtrack_pos := pos - (n - mRepeatMin e)\<rparr>)))
     else Inr (False, gs, d')))"
  by auto
termination
  by (relation "measure (\<lambda>(fuel, h, e, start_pos, gs, d). nat (start_pos - backtrack_pos d))")
    (auto dest!: repeat_loop_backtrack)

declare retry_loop.simps [simp del]

text \<open>\<open>string.assign( s, pos, len )\<close>: a negative length means the rest of the string.\<close>

definition str_assign :: "string \<Rightarrow> int \<Rightarrow> int \<Rightarrow> string outcome" where
  "str_assign s pos len =
     (if 0 \<le> pos \<and> pos \<le> int (length s)
      then Inr (if len < 0 then drop (nat pos) s else take (nat len) (drop (nat pos) s))
      else Inl OutOfRange)"

text \<open>Up from an element without a next one, until one has; None when the top is reached.\<close>

fun rx_climb :: "nat \<Rightarrow> rx_heap \<Rightarrow> nat \<Rightarrow> nat \<Rightarrow> nat option outcome" where
  "rx_climb 0 h tp c = Inl NoReturn"
| "rx_climb (Suc fuel) h tp c =
     andThen (el_get h (Some c)) (\<lambda>e.
     if elParent e = Some tp then Inr None
     else andThen (el_get h (elParent e)) (\<lambda>f.
          case elNext f of Some n \<Rightarrow> Inr (Some n) | None \<Rightarrow> rx_climb fuel h tp (the (elParent e))))"

text \<open>The tree (whose group numbers change), the groups and the position of a parse.\<close>

type_synonym walk = "rx_heap \<times> group_data jvec \<times> parse_data"

definition group_open :: "nat \<Rightarrow> walk \<Rightarrow> walk outcome" where
  "group_open c = (\<lambda>(h, gs, d).
     andThen (el_put h (Some c) (\<lambda>e. e\<lparr>mGroupNum := int (mSize gs)\<rparr>)) (\<lambda>h.
     andThen (vec_resize GroupData_new gs (mSize gs + 1)) (\<lambda>gs.
     andThen (el_get h (Some c)) (\<lambda>e.
     andThen (vec_at gs (nat (mGroupNum e))) (\<lambda>g.
     andThen (vec_put gs (nat (mGroupNum e)) (g\<lparr>gStart := cur_pos d\<rparr>)) (\<lambda>gs. Inr (h, gs, d)))))))"

definition group_close :: "nat \<Rightarrow> walk \<Rightarrow> walk outcome" where
  "group_close c = (\<lambda>(h, gs, d).
     andThen (el_get h (Some c)) (\<lambda>e.
     andThen (vec_at gs (nat (mGroupNum e))) (\<lambda>g.
     andThen (str_assign (pdString d) (gStart g) (cur_pos d - gStart g)) (\<lambda>s.
     andThen (vec_put gs (nat (mGroupNum e)) (g\<lparr>gEnd := cur_pos d, gString := s\<rparr>)) (\<lambda>gs.
     Inr (h, gs, d))))))"

text \<open>A terminal or a class, which stands in a sequence.\<close>

definition processRepeated :: "nat \<Rightarrow> element \<Rightarrow> walk \<Rightarrow> (bool \<times> walk) outcome" where
  "processRepeated bound e = (\<lambda>(h, gs, d).
     andThen (el_get h (elParent e)) (\<lambda>f.
     if elType f \<noteq> TYPE_SEQUENCE then Inl Fatal
     else andThen (retry_loop bound h e (cur_pos d) gs d) (\<lambda>(ok, gs, d). Inr (ok, h, gs, d))))"

declare andThen_cong [fundef_cong del]

fun processSubTree :: "nat \<Rightarrow> nat \<Rightarrow> nat \<Rightarrow> nat option \<Rightarrow> walk \<Rightarrow> (bool \<times> walk) outcome"
  and processElement :: "nat \<Rightarrow> nat \<Rightarrow> nat \<Rightarrow> walk \<Rightarrow> (bool \<times> walk) outcome"
  and or_loop :: "nat \<Rightarrow> nat \<Rightarrow> nat \<Rightarrow> nat option \<Rightarrow> walk \<Rightarrow> (bool \<times> walk) outcome" where
  "processSubTree bound 0 tp c w = Inl NoReturn"
| "processSubTree bound (Suc fuel) tp c w =
     (if c = None then Inr (True, w)
      else andThen (processElement bound fuel (the c) w) (\<lambda>ow.
           if \<not> fst ow then Inr (False, snd ow)
           else andThen (el_get (fst (snd ow)) c) (\<lambda>e.
                if elType e \<noteq> TYPE_CLASS \<and> elType e \<noteq> TYPE_OR \<and> elChild e \<noteq> None
                then processSubTree bound fuel tp (elChild e) (snd ow)
                else if elNext e \<noteq> None then processSubTree bound fuel tp (elNext e) (snd ow)
                else andThen (rx_climb bound (fst (snd ow)) tp (the c)) (\<lambda>n. processSubTree bound fuel tp n (snd ow)))))"
| "processElement bound 0 c w = Inl NoReturn"
| "processElement bound (Suc fuel) c w =
     andThen (el_get (fst w) (Some c)) (\<lambda>e.
     if elType e = TYPE_OR
     then andThen (group_open c w) (\<lambda>w.
          andThen (el_get (fst w) (Some c)) (\<lambda>e. or_loop bound fuel c (elChild e) w))
     else if elType e = TYPE_SEQUENCE then Inr (True, w)
     else if elType e = TYPE_TERMINAL \<or> elType e = TYPE_CLASS then processRepeated bound e w
     else Inr (False, w))"
| "or_loop bound 0 c child w = Inl NoReturn"
| "or_loop bound (Suc fuel) c child w =
     (if child = None then Inr (False, w)
      else andThen (processSubTree bound fuel (the child) child w) (\<lambda>ow.
           if fst ow then andThen (group_close c (snd ow)) (\<lambda>w. Inr (True, w))
           else andThen (el_get (fst (snd ow)) child) (\<lambda>e. or_loop bound fuel c (elNext e) (snd ow))))"

text \<open>\<open>parse\<close>; on a regex that was not prepared it returns an error code as a \<open>bool\<close>.\<close>

definition rx_fuel :: "regex \<Rightarrow> nat" where "rx_fuel r = 4 * rxFresh r + 4"

definition rx_parse :: "regex \<Rightarrow> string \<Rightarrow> (bool \<times> regex) outcome" where
  "rx_parse r s =
     (if rxState r \<noteq> STATE_PARSED \<and> rxState r \<noteq> STATE_PREPARED then Inr (err_num kNotInitialized \<noteq> 0, r)
      else andThen (processSubTree (rx_fuel r) (rx_fuel r) mRoot (Some mRoot) (rxHeap r, rxGroups r, ParseData_new s))
             (\<lambda>(res, h, gs, d).
              let r = r\<lparr>rxHeap := h, rxGroups := gs\<rparr> in
              Inr (res, if res then r\<lparr>rxState := STATE_PARSED\<rparr> else r)))"

definition rx_getData :: "regex \<Rightarrow> int \<Rightarrow> string outcome" where
  "rx_getData r i =
     (if rxState r \<noteq> STATE_PARSED then Inr []
      else if i \<ge> int (mSize (rxGroups r)) then Inr []
      else andThen (vec_at (rxGroups r) (nat (i mod 2 ^ 32))) (\<lambda>g. Inr (gString g)))"

end
