(* ===== verification/RegexTree.thy ===== *)
theory RegexTree
  imports Regex
begin

text \<open>
  Regular expressions as a datatype, the heap trees that represent them, and a matcher by recursion on
  the datatype. The walk of \<open>parse\<close> over the pointers of the tree computes what that matcher does, and
  \<open>prepare\<close> builds the tree of an expression from its text.
\<close>

section \<open>Expressions\<close>

text \<open>A range of characters, a class of ranges, and a group of alternatives, each with its repetition.\<close>

datatype rx =
    Term char char int int
  | Class bool "(char \<times> char) list" int int
  | Group "rx list list" int int

definition chr_in :: "char \<Rightarrow> char \<times> char \<Rightarrow> bool" where
  "chr_in c t \<longleftrightarrow> schar (fst t) \<le> schar c \<and> schar c \<le> schar (snd t)"

fun rx_accepts :: "rx \<Rightarrow> char \<Rightarrow> bool" where
  "rx_accepts (Term a b mn mx) c = chr_in c (a, b)"
| "rx_accepts (Class neg ts mn mx) c = ((\<exists>t \<in> set ts. chr_in c t) \<noteq> neg)"
| "rx_accepts (Group alts mn mx) c = False"

fun rx_min :: "rx \<Rightarrow> int" where
  "rx_min (Term a b mn mx) = mn" | "rx_min (Class neg ts mn mx) = mn" | "rx_min (Group alts mn mx) = mn"

fun rx_max :: "rx \<Rightarrow> int" where
  "rx_max (Term a b mn mx) = mx" | "rx_max (Class neg ts mn mx) = mx" | "rx_max (Group alts mn mx) = mx"

text \<open>No class and no alternative is empty, and the repetitions are numbers that the code can hold.\<close>

fun rx_wf :: "rx \<Rightarrow> bool" where
  "rx_wf (Term a b mn mx) \<longleftrightarrow> 0 \<le> mn \<and> -1 \<le> mx"
| "rx_wf (Class neg ts mn mx) \<longleftrightarrow> ts \<noteq> [] \<and> 0 \<le> mn \<and> -1 \<le> mx"
| "rx_wf (Group alts mn mx) \<longleftrightarrow> (\<forall>rs \<in> set alts. rs \<noteq> [] \<and> (\<forall>r \<in> set rs. rx_wf r))"

section \<open>The matcher\<close>

text \<open>
  One attempt at position \<open>q\<close>: \<open>k\<close> characters match in a row, at most the maximum; the flag tells
  whether the next one would match too. The character behind the last one counts as a NUL.
\<close>

definition run_length :: "(char \<Rightarrow> bool) \<Rightarrow> string \<Rightarrow> nat \<Rightarrow> nat" where
  "run_length acc s q = length (takeWhile acc (drop q (s @ [NUL])))"

definition attempt :: "(char \<Rightarrow> bool) \<Rightarrow> int \<Rightarrow> string \<Rightarrow> nat \<Rightarrow> (nat \<times> bool) outcome" where
  "attempt acc mx s q =
     (let n = run_length acc s q; k = (if mx = -1 then n else min n (nat mx)) in
      if q + k > length s then Inl UndefinedBehaviour else Inr (k, k < n))"

fun trim_groups :: "int \<Rightarrow> group_data list \<Rightarrow> group_data list outcome" where
  "trim_groups pos [] = Inr []"
| "trim_groups pos (g # gs) =
     andThen (if gEnd g > pos
              then andThen (str_erase (gString g) (gEnd g - pos)) (\<lambda>s. Inr (g\<lparr>gString := s, gEnd := pos\<rparr>))
              else Inr g) (\<lambda>g. andThen (trim_groups pos gs) (\<lambda>gs. Inr (g # gs)))"

text \<open>The state of a match: the groups, the position, and the position down to which an item may go back.\<close>

type_synonym m_state = "group_data list \<times> nat \<times> nat"

fun m_item :: "(char \<Rightarrow> bool) \<Rightarrow> int \<Rightarrow> int \<Rightarrow> string \<Rightarrow> nat \<Rightarrow> group_data list \<Rightarrow> nat \<Rightarrow> (bool \<times> m_state) outcome" where
  "m_item acc mn mx s bt gs q =
     andThen (attempt acc mx s q) (\<lambda>(k, more).
     if \<not> more \<and> mn \<le> int k then Inr (True, gs, q + k, bt)
     else if \<not> more \<and> bt < q
     then andThen (trim_groups (int q - 1) gs) (\<lambda>gs. case q of 0 \<Rightarrow> Inl NoReturn | Suc q \<Rightarrow> m_item acc mn mx s bt gs q)
     else if more \<and> mn \<le> int k then Inr (True, gs, q + k + 1, q + nat mn)
     else Inr (False, gs, q + k, bt))"

declare m_item.simps [simp del]

definition m_close :: "nat \<Rightarrow> string \<Rightarrow> m_state \<Rightarrow> m_state outcome" where
  "m_close n s = (\<lambda>(gs, p, bt).
     andThen (str_assign s (gStart (gs ! n)) (int p - gStart (gs ! n))) (\<lambda>t.
     Inr (gs[n := (gs ! n)\<lparr>gEnd := int p, gString := t\<rparr>], p, bt)))"

fun m_seq :: "string \<Rightarrow> rx list \<Rightarrow> m_state \<Rightarrow> (bool \<times> m_state) outcome"
  and m_el :: "string \<Rightarrow> rx \<Rightarrow> m_state \<Rightarrow> (bool \<times> m_state) outcome"
  and m_alts :: "string \<Rightarrow> nat \<Rightarrow> rx list list \<Rightarrow> m_state \<Rightarrow> (bool \<times> m_state) outcome" where
  "m_seq s [] st = Inr (True, st)"
| "m_seq s (r # rs) st = andThen (m_el s r st) (\<lambda>x. if fst x then m_seq s rs (snd x) else Inr x)"
| "m_el s (Term a b mn mx) st =
     m_item (rx_accepts (Term a b mn mx)) mn mx s (snd (snd st)) (fst st) (fst (snd st))"
| "m_el s (Class neg ts mn mx) st =
     m_item (rx_accepts (Class neg ts mn mx)) mn mx s (snd (snd st)) (fst st) (fst (snd st))"
| "m_el s (Group alts mn mx) st =
     m_alts s (length (fst st)) alts (fst st @ [GroupData_new\<lparr>gStart := int (fst (snd st))\<rparr>], snd st)"
| "m_alts s n [] st = Inr (False, st)"
| "m_alts s n (rs # alts) st =
     andThen (m_seq s rs st) (\<lambda>x. if fst x then andThen (m_close n s (snd x)) (\<lambda>st. Inr (True, st)) else m_alts s n alts (snd x))"

section \<open>Trees in the heap\<close>

text \<open>
  A list of siblings: linked by their next pointers, with the same parent, which is older than they are;
  \<open>P\<close> is what each of them represents.
\<close>

fun links :: "(rx_heap \<Rightarrow> nat \<Rightarrow> element \<Rightarrow> 'x \<Rightarrow> bool) \<Rightarrow> rx_heap \<Rightarrow> nat \<Rightarrow> 'x list \<Rightarrow> nat option \<Rightarrow> bool" where
  "links P h par [] first \<longleftrightarrow> first = None"
| "links P h par (x # xs) first \<longleftrightarrow>
     (case first of None \<Rightarrow> False | Some a \<Rightarrow> (case h a of None \<Rightarrow> False | Some e \<Rightarrow>
        elParent e = Some par \<and> par < a \<and> P h a e x \<and> links P h par xs (elNext e)))"

lemma links_cong [fundef_cong]:
  assumes "xs = ys" "h = h'" "par = par'" "first = first'"
    and "\<And>x a e. x \<in> set ys \<Longrightarrow> P h' a e x = Q h' a e x"
  shows "links P h par xs first = links Q h' par' ys first'"
proof -
  have "links P h par ys first = links Q h par ys first"
    using assms(2,5) by (induction ys arbitrary: first) (auto split: option.splits)
  then show ?thesis using assms by simp
qed

definition term_node :: "rx_heap \<Rightarrow> nat \<Rightarrow> element \<Rightarrow> char \<times> char \<Rightarrow> bool" where
  "term_node h a e t \<longleftrightarrow> elType e = TYPE_TERMINAL \<and> elChild e = None \<and>
     mTermStartChar e = Some (fst t) \<and> mTermEndChar e = Some (snd t)"

function rx_node :: "rx_heap \<Rightarrow> nat \<Rightarrow> element \<Rightarrow> rx \<Rightarrow> bool" where
  "rx_node h a e (Term x y mn mx) \<longleftrightarrow> term_node h a e (x, y) \<and> mRepeatMin e = mn \<and> mRepeatMax e = mx"
| "rx_node h a e (Class neg ts mn mx) \<longleftrightarrow> elType e = TYPE_CLASS \<and> mClassInvert e = neg \<and>
     mRepeatMin e = mn \<and> mRepeatMax e = mx \<and> links term_node h a ts (elChild e)"
| "rx_node h a e (Group alts mn mx) \<longleftrightarrow> elType e = TYPE_OR \<and> mRepeatMin e = mn \<and> mRepeatMax e = mx \<and>
     links (\<lambda>h b f rs. elType f = TYPE_SEQUENCE \<and> links rx_node h b rs (elChild f)) h a alts (elChild e)"
  by pat_completeness auto
termination
  by (relation "measure (\<lambda>(h, a, e, r). size r)")
    (auto simp: less_Suc_eq_le intro: order.trans [OF size_list_estimation' [OF _ order.refl]])

definition seq_node :: "rx_heap \<Rightarrow> nat \<Rightarrow> element \<Rightarrow> rx list \<Rightarrow> bool" where
  "seq_node h b f rs \<longleftrightarrow> elType f = TYPE_SEQUENCE \<and> links rx_node h b rs (elChild f)"

section \<open>Outcomes that agree\<close>

definition sim :: "('a \<Rightarrow> 'b \<Rightarrow> bool) \<Rightarrow> 'a outcome \<Rightarrow> 'b outcome \<Rightarrow> bool" where
  "sim R m n \<longleftrightarrow> (case n of Inl e \<Rightarrow> m = Inl e | Inr y \<Rightarrow> \<exists>x. m = Inr x \<and> R x y)"

lemma sim_simps [simp]: "sim R m (Inl e) \<longleftrightarrow> m = Inl e" "sim R m (Inr y) \<longleftrightarrow> (\<exists>x. m = Inr x \<and> R x y)"
  by (simp_all add: sim_def)

lemma sim_andThen:
  assumes "sim R m n" "\<And>x y. R x y \<Longrightarrow> sim S (f x) (g y)"
  shows "sim S (andThen m f) (andThen n g)"
  using assms by (cases n) auto

lemma sim_mono: "sim R m n \<Longrightarrow> (\<And>x y. R x y \<Longrightarrow> S x y) \<Longrightarrow> sim S m n"
  by (cases n) auto

section \<open>One item\<close>

lemma CUR_CHAR_at:
  "pdString d = s \<Longrightarrow> cur_pos d = int q \<Longrightarrow>
    CUR_CHAR d = (if q \<le> length s then Inr ((s @ [NUL]) ! q) else Inl UndefinedBehaviour)"
  by (auto simp: CUR_CHAR_def nth_append)

lemma in_range_term: "term_node h a e t \<Longrightarrow> in_range e c = Inr (chr_in c t)"
  by (simp add: in_range_def term_node_def el_char_def chr_in_def)

lemma class_loop_links:
  "links term_node h par ts first \<Longrightarrow> length ts < fuel \<Longrightarrow> CUR_CHAR d = Inr c \<Longrightarrow>
    class_loop fuel h neg d first = Inr ((\<exists>t \<in> set ts. chr_in c t) \<noteq> neg)"
proof (induction ts arbitrary: first fuel)
  case Nil
  then show ?case by (cases fuel) auto
next
  case (Cons t ts)
  then obtain f where f: "fuel = Suc f" by (cases fuel) auto
  obtain a e where a: "first = Some a" "h a = Some e" "term_node h a e t" "links term_node h par ts (elNext e)"
    using Cons.prems(1) by (auto split: option.splits)
  show ?case using Cons.IH [OF a(4), of f] Cons.prems(2,3) f a in_range_term [OF a(3), of c]
    by (auto simp: el_get_def)
qed

fun rx_width :: "rx \<Rightarrow> nat" where
  "rx_width (Class neg ts mn mx) = length ts" | "rx_width _ = 0"

definition single :: "rx \<Rightarrow> bool" where
  "single r \<longleftrightarrow> (case r of Group alts mn mx \<Rightarrow> False | _ \<Rightarrow> True)"

lemma processTerminal_node:
  assumes "rx_node h a e r" "single r" "rx_wf r" "rx_width r < bound"
  shows "processTerminal bound h e d = andThen (CUR_CHAR d) (\<lambda>c. Inr (rx_accepts r c))"
proof (cases r)
  case (Term x y mn mx)
  then have t: "term_node h a e (x, y)" using assms by simp
  have "in_range e = (\<lambda>c. Inr (chr_in c (x, y)))" using in_range_term [OF t] by (rule ext)
  then show ?thesis using Term t by (simp add: processTerminal_def term_node_def)
next
  case (Class neg ts mn mx)
  then have e: "elType e = TYPE_CLASS" "mClassInvert e = neg" "links term_node h a ts (elChild e)" "ts \<noteq> []"
    "length ts < bound" using assms by simp_all
  show ?thesis
  proof (cases "CUR_CHAR d")
    case (Inl x)
    obtain t ts' where ts: "ts = t # ts'" using e(4) by (cases ts) auto
    obtain b f where "elChild e = Some b" "h b = Some f" using e(3) ts by (auto split: option.splits)
    moreover obtain n where "bound = Suc n" using e(5) by (cases bound) auto
    ultimately show ?thesis using e(1,2) Inl by (simp add: processTerminal_def el_get_def)
  next
    case (Inr c)
    then show ?thesis using class_loop_links [OF e(3,5) Inr] e(1,2) Class by (simp add: processTerminal_def)
  qed
qed (use assms in \<open>simp add: single_def\<close>)

text \<open>What the loops know of the item: its test and its repetition.\<close>

definition tests :: "nat \<Rightarrow> rx_heap \<Rightarrow> element \<Rightarrow> (char \<Rightarrow> bool) \<Rightarrow> bool" where
  "tests bound h e acc \<longleftrightarrow> (\<forall>d. processTerminal bound h e d = andThen (CUR_CHAR d) (\<lambda>c. Inr (acc c)))"

definition at_pos :: "string \<Rightarrow> nat \<Rightarrow> nat \<Rightarrow> parse_data \<Rightarrow> bool" where
  "at_pos s p bt d \<longleftrightarrow> pdString d = s \<and> cur_pos d = int p \<and> backtrack_pos d = int bt"

lemma test_at:
  assumes "tests bound h e acc" "pdString d = s" "cur_pos d = int q"
  shows "processTerminal bound h e d = (if q \<le> length s then Inr (acc ((s @ [NUL]) ! q)) else Inl UndefinedBehaviour)"
  using assms CUR_CHAR_at [OF assms(2,3)] by (simp add: tests_def)

lemma run_length_le: "q \<le> length s \<Longrightarrow> q + run_length acc s q \<le> Suc (length s)"
  using length_takeWhile_le [of acc "drop q (s @ [NUL])"] unfolding run_length_def by simp

lemma run_length_step:
  assumes "q + j \<le> length s" "j \<le> run_length acc s q"
  shows "acc ((s @ [NUL]) ! (q + j)) \<longleftrightarrow> j < run_length acc s q"
proof -
  let ?t = "drop q (s @ [NUL])"
  have nth: "(s @ [NUL]) ! (q + j) = ?t ! j" using assms(1) by (simp del: drop_append)
  show ?thesis
  proof (cases "j < run_length acc s q")
    case True
    then have "acc (?t ! j)" unfolding run_length_def by (metis nth_mem set_takeWhileD takeWhile_nth)
    then show ?thesis using True nth by simp
  next
    case False
    then have "j = run_length acc s q" using assms(2) by simp
    moreover have "j < length ?t" using assms(1) by simp
    ultimately have "\<not> acc (?t ! j)" unfolding run_length_def by (metis nth_length_takeWhile)
    then show ?thesis using False nth by simp
  qed
qed

lemma int_res_ok: "n < 2147483647 \<Longrightarrow> int_res (int n + 1) = Inr (int n + 1)"
  by (simp add: int_res_def int_max_def)

lemma repeat_loop_run:
  assumes t: "tests bound h e acc" and len: "length s < 2147483646"
    and mx: "mRepeatMax e = -1 \<or> int j \<le> mRepeatMax e" and j: "q + j \<le> length s" "j \<le> run_length acc s q"
    and k: "k = (if mRepeatMax e = -1 then run_length acc s q else min (run_length acc s q) (nat (mRepeatMax e)))"
    and d: "pdString d = s" "cur_pos d = int (q + j)" "match_count d = int j"
  shows "repeat_loop bound h e d (j < run_length acc s q) =
    (if q + k > length s then Inl UndefinedBehaviour
     else Inr (k < run_length acc s q, d\<lparr>cur_pos := int (q + k), match_count := int k\<rparr>))"
  using mx j d
proof (induction "k - j" arbitrary: j d)
  case 0
  have "j = k" using 0 k by (auto split: if_splits)
  have c: "\<not> ((mRepeatMax e = -1 \<or> match_count d < mRepeatMax e) \<and> j < run_length acc s q)"
    using 0 k by (auto split: if_splits)
  show ?case using 0 \<open>j = k\<close> by (subst repeat_loop.simps, subst if_not_P [OF c]) simp
next
  case (Suc n)
  have jk: "j < k" using Suc(2) by simp
  then have c: "(mRepeatMax e = -1 \<or> match_count d < mRepeatMax e) \<and> j < run_length acc s q"
    using Suc.prems k by (auto split: if_splits)
  let ?d = "d\<lparr>cur_pos := int (q + j) + 1, match_count := int j + 1\<rparr>"
  have ok: "int_res (int (q + j) + 1) = Inr (int (q + j) + 1)" "int_res (int j + 1) = Inr (int j + 1)"
    using int_res_ok [of "q + j"] int_res_ok [of j] Suc.prems(2) len by simp_all
  have test: "processTerminal bound h e ?d =
      (if Suc (q + j) \<le> length s then Inr (acc ((s @ [NUL]) ! (q + Suc j))) else Inl UndefinedBehaviour)"
    using test_at [OF t, of ?d s "Suc (q + j)"] Suc.prems(4) by simp
  have unfold: "repeat_loop bound h e d (j < run_length acc s q) =
      andThen (processTerminal bound h e ?d) (\<lambda>res. repeat_loop bound h e ?d res)"
    using c ok Suc.prems(5,6) by (subst repeat_loop.simps) (simp add: Let_def)
  show ?case
  proof (cases "Suc (q + j) \<le> length s")
    case True
    have r: "acc ((s @ [NUL]) ! (q + Suc j)) \<longleftrightarrow> Suc j < run_length acc s q"
      by (rule run_length_step) (use True c in simp_all)
    have "repeat_loop bound h e ?d (Suc j < run_length acc s q) =
      (if q + k > length s then Inl UndefinedBehaviour
       else Inr (k < run_length acc s q, ?d\<lparr>cur_pos := int (q + k), match_count := int k\<rparr>))"
      by (rule Suc.hyps(1)) (use Suc.hyps(2) Suc.prems c True in auto)
    then show ?thesis using unfold test True r by simp
  next
    case False
    then have "q + k > length s" using jk by simp
    then show ?thesis using unfold test False by simp
  qed
qed

lemma sim_groups:
  assumes "vec_rep gs gl" "i \<le> length gl" "length gl - i < fuel"
  shows "sim (\<lambda>gs' gl'. vec_rep gs' (take i gl @ gl')) (backtrack_loop fuel pos gs i) (trim_groups pos (drop i gl))"
  using assms
proof (induction fuel arbitrary: gs gl i)
  case (Suc fuel)
  have n: "mSize gs = length gl" using Suc.prems(1) by (simp add: vec_rep_def)
  show ?case
  proof (cases "i < length gl")
    case True
    let ?g = "gl ! i"
    have d: "drop i gl = ?g # drop (Suc i) gl" using True by (simp add: Cons_nth_drop_Suc)
    have at: "vec_at gs i = Inr ?g" using vec_at_rep [OF Suc.prems(1)] True by simp
    show ?thesis
    proof (cases "gEnd ?g > pos")
      case no: False
      have "sim (\<lambda>gs' gl'. vec_rep gs' (take (Suc i) gl @ gl')) (backtrack_loop fuel pos gs (Suc i)) (trim_groups pos (drop (Suc i) gl))"
        by (rule Suc.IH [OF Suc.prems(1)]) (use True Suc.prems in simp_all)
      then show ?thesis using True n at d no
        by (cases "trim_groups pos (drop (Suc i) gl)") (auto simp: take_Suc_conv_app_nth)
    next
      case yes: True
      show ?thesis
      proof (cases "str_erase (gString ?g) (gEnd ?g - pos)")
        case (Inl e)
        then show ?thesis using True n at d yes by simp
      next
        case (Inr t)
        let ?g' = "?g\<lparr>gString := t, gEnd := pos\<rparr>"
        obtain gs' where gs': "vec_put gs i ?g' = Inr gs'" "vec_rep gs' (gl[i := ?g'])"
          using vec_put_rep [OF Suc.prems(1) True] by blast
        have "sim (\<lambda>gs'' gl'. vec_rep gs'' (take (Suc i) (gl[i := ?g']) @ gl')) (backtrack_loop fuel pos gs' (Suc i))
            (trim_groups pos (drop (Suc i) (gl[i := ?g'])))"
          by (rule Suc.IH [OF gs'(2)]) (use True Suc.prems in simp_all)
        then show ?thesis using True n at d yes Inr gs'(1)
          by (cases "trim_groups pos (drop (Suc i) gl)") (auto simp: take_Suc_conv_app_nth)
      qed
    qed
  next
    case False
    then show ?thesis using Suc.prems n by simp
  qed
qed simp

lemma sim_backtrackGroups:
  assumes "vec_rep gs gl" "cur_pos d = pos"
  shows "sim vec_rep (backtrackGroups gs d) (trim_groups pos gl)"
  using sim_groups [OF assms(1), of 0 "Suc (mSize gs)" pos] assms by (simp add: backtrackGroups_def vec.size_law)

lemma trim_groups_length: "trim_groups pos gl = Inr gl' \<Longrightarrow> length gl' = length gl"
  by (induction gl arbitrary: gl') (auto simp: andThen_Inr_iff split: if_splits)

definition item_rel :: "string \<Rightarrow> nat \<Rightarrow> bool \<times> group_data jvec \<times> parse_data \<Rightarrow> bool \<times> m_state \<Rightarrow> bool" where
  "item_rel s n = (\<lambda>(ok, gs, d) (ok', gl, p, bt). ok = ok' \<and> vec_rep gs gl \<and> length gl = n \<and> at_pos s p bt d)"

lemma retry_loop_item:
  assumes t: "tests bound h e acc" and len: "length s < 2147483646" and e: "0 \<le> mRepeatMin e" "-1 \<le> mRepeatMax e"
  shows "vec_rep gs gl \<Longrightarrow> at_pos s q bt d \<Longrightarrow> length gl = n \<Longrightarrow>
    sim (item_rel s n) (retry_loop bound h e (int q) gs d) (m_item acc (mRepeatMin e) (mRepeatMax e) s bt gl q)"
proof (induction q arbitrary: gs gl d rule: less_induct)
  case (less q)
  let ?mn = "mRepeatMin e" and ?mx = "mRepeatMax e"
  let ?n = "run_length acc s q"
  let ?k = "if ?mx = -1 then ?n else min ?n (nat ?mx)"
  let ?d = "d\<lparr>match_count := 0\<rparr>"
  have d: "pdString ?d = s" "cur_pos ?d = int q" "match_count ?d = 0" "backtrack_pos d = int bt"
    using less.prems(2) by (simp_all add: at_pos_def)
  show ?case
  proof (cases "q \<le> length s")
    case False
    then have "q + ?k > length s" by simp
    then have "m_item acc ?mn ?mx s bt gl q = Inl UndefinedBehaviour"
      by (subst m_item.simps) (simp add: attempt_def Let_def)
    moreover have "retry_loop bound h e (int q) gs d = Inl UndefinedBehaviour"
      using test_at [OF t d(1,2)] False by (subst retry_loop.simps) simp
    ultimately show ?thesis by simp
  next
    case True
    have test: "processTerminal bound h e ?d = Inr (0 < ?n)"
      using test_at [OF t d(1,2)] run_length_step [of q 0 s acc] True by simp
    have run: "repeat_loop bound h e ?d (0 < ?n) =
        (if q + ?k > length s then Inl UndefinedBehaviour
         else Inr (?k < ?n, ?d\<lparr>cur_pos := int (q + ?k), match_count := int ?k\<rparr>))"
      by (rule repeat_loop_run [OF t len]) (use e True d in auto)
    show ?thesis
    proof (cases "q + ?k > length s")
      case True
      then show ?thesis using test run
        by (subst retry_loop.simps, subst m_item.simps) (simp add: attempt_def Let_def)
    next
      case False
      define k where "k = ?k"
      define d' where "d' = d\<lparr>cur_pos := int (q + k), match_count := int k\<rparr>"
      have a: "attempt acc ?mx s q = Inr (k, k < ?n)" using False by (simp add: attempt_def Let_def k_def)
      have run: "repeat_loop bound h e ?d (0 < ?n) = Inr (k < ?n, d')"
        using run False by (simp add: k_def d'_def)
      have ks: "q + k \<le> length s" using False by (simp add: k_def)
      have r: "retry_loop bound h e (int q) gs d =
        (if \<not> k < ?n \<and> ?mn \<le> int k then Inr (True, gs, d')
         else if \<not> k < ?n \<and> bt < q
         then andThen (backtrackGroups gs (d'\<lparr>cur_pos := int q - 1\<rparr>))
                (\<lambda>gs. retry_loop bound h e (int q - 1) gs (d'\<lparr>cur_pos := int q - 1\<rparr>))
         else if k < ?n \<and> ?mn \<le> int k
         then Inr (True, gs, d'\<lparr>cur_pos := int (q + k) + 1, match_count := int k + 1,
                backtrack_pos := int (q + k) + 1 - (int k + 1 - ?mn)\<rparr>)
         else Inr (False, gs, d'))"
        using test run d(4) int_res_ok [of "q + k"] int_res_ok [of k] ks len
        by (subst retry_loop.simps) (simp add: d'_def Let_def)
      have at: "at_pos s (q + k) bt d'" using less.prems(2) by (simp add: at_pos_def d'_def)
      consider (fits) "\<not> k < ?n \<and> ?mn \<le> int k" | (again) "\<not> k < ?n" "\<not> ?mn \<le> int k" "bt < q"
        | (over) "k < ?n \<and> ?mn \<le> int k" | (fail) "\<not> (\<not> k < ?n \<and> ?mn \<le> int k)" "\<not> (\<not> k < ?n \<and> bt < q)" "\<not> (k < ?n \<and> ?mn \<le> int k)"
        by blast
      then show ?thesis
      proof cases
        case fits
        then show ?thesis using r a at less.prems by (subst m_item.simps) (simp add: item_rel_def)
      next
        case again
        then obtain q' where q': "q = Suc q'" by (cases q) auto
        have at': "at_pos s q' bt (d'\<lparr>cur_pos := int q - 1\<rparr>)" using at q' by (simp add: at_pos_def)
        have m: "m_item acc ?mn ?mx s bt gl q =
            andThen (trim_groups (int q - 1) gl) (\<lambda>gl. m_item acc ?mn ?mx s bt gl q')"
          using a again q' by (subst m_item.simps) simp
        have "sim (\<lambda>gs gl. vec_rep gs gl \<and> length gl = n) (backtrackGroups gs (d'\<lparr>cur_pos := int q - 1\<rparr>)) (trim_groups (int q - 1) gl)"
          using sim_backtrackGroups [OF less.prems(1), of "d'\<lparr>cur_pos := int q - 1\<rparr>" "int q - 1"] trim_groups_length [of "int q - 1" gl] less.prems(3)
          by (cases "trim_groups (int q - 1) gl") auto
        then have "sim (item_rel s n)
            (andThen (backtrackGroups gs (d'\<lparr>cur_pos := int q - 1\<rparr>)) (\<lambda>gs. retry_loop bound h e (int q - 1) gs (d'\<lparr>cur_pos := int q - 1\<rparr>)))
            (andThen (trim_groups (int q - 1) gl) (\<lambda>gl. m_item acc ?mn ?mx s bt gl q'))"
          by (rule sim_andThen) (use less.IH [of q'] at' q' in auto)
        then show ?thesis using r m again by simp
      next
        case over
        have "at_pos s (q + k + 1) (q + nat ?mn) (d'\<lparr>cur_pos := int (q + k) + 1, match_count := int k + 1,
                backtrack_pos := int (q + k) + 1 - (int k + 1 - ?mn)\<rparr>)"
          using at e(1) by (simp add: at_pos_def)
        then show ?thesis using r a over less.prems by (subst m_item.simps) (simp add: item_rel_def)
      next
        case fail
        then show ?thesis using r a at less.prems by (subst m_item.simps) (auto simp: item_rel_def)
      qed
    qed
  qed
qed

section \<open>The walk over the tree\<close>

text \<open>A walk changes nothing in the tree but the numbers of its groups.\<close>

definition same_el :: "element \<Rightarrow> element \<Rightarrow> bool" where
  "same_el e e' \<longleftrightarrow> e\<lparr>mGroupNum := 0\<rparr> = e'\<lparr>mGroupNum := 0\<rparr>"

definition same_tree :: "rx_heap \<Rightarrow> rx_heap \<Rightarrow> bool" where
  "same_tree h h' \<longleftrightarrow> (\<forall>a. rel_option same_el (h a) (h' a))"

lemma same_el_fields:
  "same_el e e' \<Longrightarrow> elParent e' = elParent e \<and> elNext e' = elNext e \<and> elChild e' = elChild e \<and> elType e' = elType e \<and>
    mTermStartChar e' = mTermStartChar e \<and> mTermEndChar e' = mTermEndChar e \<and> mRepeatMin e' = mRepeatMin e \<and>
    mRepeatMax e' = mRepeatMax e \<and> mClassInvert e' = mClassInvert e"
  unfolding same_el_def by (cases e, cases e') simp

lemma same_el_refl [simp]: "same_el e e" "same_el e (e\<lparr>mGroupNum := n\<rparr>)"
  by (simp_all add: same_el_def)

lemma same_tree_refl [simp]: "same_tree h h"
  by (auto simp: same_tree_def intro: option.rel_refl)

lemma same_tree_trans: "same_tree h h1 \<Longrightarrow> same_tree h1 h2 \<Longrightarrow> same_tree h h2"
  unfolding same_tree_def same_el_def
  by (smt (verit, best) option.rel_cases option.rel_intros option.distinct(1) option.inject)

lemma same_tree_get: "same_tree h h' \<Longrightarrow> h a = Some e \<Longrightarrow> \<exists>e'. h' a = Some e' \<and> same_el e e'"
  unfolding same_tree_def by (metis option_rel_Some1)

lemma links_same:
  assumes "same_tree h h'" "\<And>x a e e'. x \<in> set xs \<Longrightarrow> P h a e x \<Longrightarrow> same_el e e' \<Longrightarrow> P h' a e' x"
  shows "links P h par xs first \<Longrightarrow> links P h' par xs first"
  using assms(2)
proof (induction xs arbitrary: first)
  case (Cons x xs)
  obtain a e where a: "first = Some a" "h a = Some e" "elParent e = Some par" "par < a" "P h a e x" "links P h par xs (elNext e)"
    using Cons.prems(1) by (auto split: option.splits)
  obtain e' where e': "h' a = Some e'" "same_el e e'" using same_tree_get [OF assms(1) a(2)] by blast
  have "links P h' par xs (elNext e)" by (rule Cons.IH [OF a(6)]) (use Cons.prems(2) in auto)
  then show ?case using a e' same_el_fields [OF e'(2)] Cons.prems(2) [of x a e e'] by simp
qed simp

lemma rx_node_same:
  "rx_node h a e r \<Longrightarrow> same_tree h h' \<Longrightarrow> same_el e e' \<Longrightarrow> rx_node h' a e' r"
proof (induction r arbitrary: a e e')
  case (Term x y mn mx)
  then show ?case using same_el_fields [OF Term(3)] by (simp add: term_node_def)
next
  case (Class neg ts mn mx)
  have "links term_node h' a ts (elChild e)"
    by (rule links_same [OF Class(2)]) (use Class(1) same_el_fields in \<open>auto simp: term_node_def\<close>)
  then show ?case using Class same_el_fields [OF Class(3)] by simp
next
  case (Group alts mn mx)
  let ?P = "\<lambda>h b f rs. elType f = TYPE_SEQUENCE \<and> links rx_node h b rs (elChild f)"
  have "links ?P h' a alts (elChild e)"
  proof (rule links_same [OF Group.prems(2)])
    fix rs b f f' assume rs: "rs \<in> set alts" "?P h b f rs" "same_el f f'"
    have "links rx_node h' b rs (elChild f)"
      by (rule links_same [OF Group.prems(2)]) (use Group.IH rs Group.prems(2) in auto)
    then show "?P h' b f' rs" using rs same_el_fields [OF rs(3)] by simp
  qed (use Group.prems(1) in simp)
  then show ?case using Group.prems(1) same_el_fields [OF Group.prems(3)] by simp
qed

lemma links_rx_same: "links rx_node h par rs first \<Longrightarrow> same_tree h h' \<Longrightarrow> links rx_node h' par rs first"
  by (rule links_same [of h h']) (auto intro: rx_node_same)

lemma seq_node_same: "seq_node h b f rs \<Longrightarrow> same_tree h h' \<Longrightarrow> same_el f f' \<Longrightarrow> seq_node h' b f' rs"
  using links_rx_same [of h b rs "elChild f" h'] same_el_fields [of f f'] by (simp add: seq_node_def)

lemma links_seq_same: "links seq_node h par alts first \<Longrightarrow> same_tree h h' \<Longrightarrow> links seq_node h' par alts first"
  by (rule links_same [of h h']) (auto intro: seq_node_same)

lemma rx_node_group:
  "rx_node h a e (Group alts mn mx) \<longleftrightarrow> elType e = TYPE_OR \<and> mRepeatMin e = mn \<and> mRepeatMax e = mx \<and>
    links seq_node h a alts (elChild e)"
  by (simp add: seq_node_def [abs_def])

text \<open>How many groups a walk can open, and the fuel that it needs.\<close>

fun rx_groups :: "rx \<Rightarrow> nat" where
  "rx_groups (Group alts mn mx) = Suc (sum_list (map (\<lambda>rs. sum_list (map rx_groups rs)) alts))"
| "rx_groups _ = 0"

fun rx_cost :: "rx \<Rightarrow> nat" where
  "rx_cost (Term a b mn mx) = 1"
| "rx_cost (Class neg ts mn mx) = Suc (length ts)"
| "rx_cost (Group alts mn mx) = 2 + sum_list (map (\<lambda>rs. 3 + sum_list (map (\<lambda>r. Suc (rx_cost r)) rs)) alts)"

definition seq_cost :: "rx list \<Rightarrow> nat" where "seq_cost rs = Suc (sum_list (map (\<lambda>r. Suc (rx_cost r)) rs))"
definition alts_cost :: "rx list list \<Rightarrow> nat" where "alts_cost alts = Suc (sum_list (map (\<lambda>rs. 2 + seq_cost rs) alts))"
definition seq_groups :: "rx list \<Rightarrow> nat" where "seq_groups rs = sum_list (map rx_groups rs)"
definition alts_groups :: "rx list list \<Rightarrow> nat" where "alts_groups alts = sum_list (map seq_groups alts)"

lemma costs:
  "seq_cost [] = 1" "seq_cost (r # rs) = Suc (rx_cost r) + seq_cost rs"
  "alts_cost [] = 1" "alts_cost (rs # alts) = 2 + seq_cost rs + alts_cost alts"
  "rx_cost (Group alts mn mx) = Suc (alts_cost alts)"
  "seq_groups [] = 0" "seq_groups (r # rs) = rx_groups r + seq_groups rs"
  "alts_groups [] = 0" "alts_groups (rs # alts) = seq_groups rs + alts_groups alts"
  "rx_groups (Group alts mn mx) = Suc (alts_groups alts)"
  by (simp_all add: seq_cost_def alts_cost_def seq_groups_def [abs_def] alts_groups_def eval_nat_numeral)

declare rx_groups.simps(1) [simp del] rx_cost.simps(3) [simp del]

text \<open>\<open>m\<close> and \<open>n\<close> bound the number of groups from below and above.\<close>

definition start_rel :: "string \<Rightarrow> rx_heap \<Rightarrow> nat \<Rightarrow> nat \<Rightarrow> walk \<Rightarrow> m_state \<Rightarrow> bool" where
  "start_rel s h m n = (\<lambda>(h', gs, d) (gl, p, bt). h' = h \<and> vec_rep gs gl \<and> m \<le> length gl \<and> length gl \<le> n \<and>
     at_pos s p bt d)"

definition walk_rel :: "string \<Rightarrow> rx_heap \<Rightarrow> nat \<Rightarrow> nat \<Rightarrow> nat \<Rightarrow> bool \<times> walk \<Rightarrow> bool \<times> m_state \<Rightarrow> bool" where
  "walk_rel s h par m n = (\<lambda>(ok, w) (ok', st). ok = ok' \<and> same_tree h (fst w) \<and> (\<forall>x \<le> par. fst w x = h x) \<and>
     start_rel s (fst w) m n w st)"

definition in_seq :: "rx_heap \<Rightarrow> nat \<Rightarrow> bool" where
  "in_seq h par \<longleftrightarrow> (\<exists>f. h par = Some f \<and> elType f = TYPE_SEQUENCE)"

lemma in_seq_same: "in_seq h par \<Longrightarrow> same_tree h h' \<Longrightarrow> in_seq h' par"
  unfolding in_seq_def using same_tree_get same_el_fields by metis

lemma walk_rel_step:
  assumes "walk_rel s h1 par m n (ok, w) x" "same_tree h h1" "\<forall>y \<le> q. h1 y = h y" "q \<le> par"
  shows "walk_rel s h q m n (ok, w) x"
proof -
  obtain ok' st where x: "x = (ok', st)" by (cases x)
  show ?thesis using assms same_tree_trans [OF assms(2)] by (auto simp: walk_rel_def x)
qed

lemma walk_rel_mono:
  "walk_rel s h par m n x y \<Longrightarrow> m' \<le> m \<Longrightarrow> n \<le> n' \<Longrightarrow> q \<le> par \<Longrightarrow> walk_rel s h q m' n' x y"
  by (auto simp: walk_rel_def start_rel_def split: prod.splits)

lemma processElement_single:
  assumes node: "h a = Some e" "rx_node h a e r" "elParent e = Some par" and seq: "in_seq h par"
    and r: "single r" "rx_wf r" "rx_cost r \<le> bound" and w: "start_rel s h m n w st" and len: "length s < 2147483646"
  shows "sim (walk_rel s h par m n) (processElement bound (Suc fuel) a w)
    (m_item (rx_accepts r) (rx_min r) (rx_max r) s (snd (snd st)) (fst st) (fst (snd st)))"
proof -
  obtain gs d where ww: "w = (h, gs, d)" using w by (cases w) (auto simp: start_rel_def split: prod.splits)
  obtain gl p bt where st: "st = (gl, p, bt)" by (cases st)
  have g: "vec_rep gs gl" "m \<le> length gl" "length gl \<le> n" "at_pos s p bt d" using w by (simp_all add: start_rel_def ww st)
  have t: "tests bound h e (rx_accepts r)"
    unfolding tests_def using processTerminal_node [OF node(2) r(1,2)] r(1,3) by (cases r) (auto simp: single_def)
  have e: "elType e = TYPE_TERMINAL \<or> elType e = TYPE_CLASS" "mRepeatMin e = rx_min r" "mRepeatMax e = rx_max r"
    "0 \<le> rx_min r" "-1 \<le> rx_max r"
    using node(2) r(1,2) by (cases r; auto simp: single_def term_node_def)+
  have "sim (item_rel s (length gl)) (retry_loop bound h e (int p) gs d)
      (m_item (rx_accepts r) (rx_min r) (rx_max r) s bt gl p)"
    using retry_loop_item [OF t len, of gs gl p bt d] e(2-5) g by simp
  then have "sim (walk_rel s h par m n) (andThen (retry_loop bound h e (int p) gs d) (\<lambda>(ok, gs, d). Inr (ok, h, gs, d)))
      (m_item (rx_accepts r) (rx_min r) (rx_max r) s bt gl p)"
    by (cases "m_item (rx_accepts r) (rx_min r) (rx_max r) s bt gl p")
      (use g in \<open>auto simp: item_rel_def walk_rel_def start_rel_def\<close>)
  moreover have "processElement bound (Suc fuel) a w =
      andThen (retry_loop bound h e (int p) gs d) (\<lambda>(ok, gs, d). Inr (ok, h, gs, d))"
    using e(1) node(1,3) seq g(4) by (auto simp: ww el_get_def processRepeated_def in_seq_def at_pos_def)
  ultimately show ?thesis by (simp add: st)
qed

lemma group_open_rel:
  assumes w: "start_rel s h m n w (gl, p, bt)" and a: "h a = Some e" and n: "Suc n < 2 ^ 32"
  shows "\<exists>w'. group_open a w = Inr w' \<and> start_rel s (h(a \<mapsto> e\<lparr>mGroupNum := int (length gl)\<rparr>)) (Suc m) (Suc n) w'
    (gl @ [GroupData_new\<lparr>gStart := int p\<rparr>], p, bt)"
proof -
  obtain gs d where ww: "w = (h, gs, d)" using w by (cases w) (auto simp: start_rel_def)
  have g: "vec_rep gs gl" "m \<le> length gl" "length gl \<le> n" "at_pos s p bt d" using w by (simp_all add: start_rel_def ww)
  have sz: "mSize gs = length gl" using g(1) by (simp add: vec_rep_def)
  obtain gs1 where gs1: "vec_resize GroupData_new gs (Suc (length gl)) = Inr gs1" "vec_rep gs1 (gl @ [GroupData_new])"
    using vec_resize_rep [OF g(1), of "Suc (length gl)" GroupData_new] g(3) n by auto
  obtain gs2 where gs2: "vec_put gs1 (length gl) (GroupData_new\<lparr>gStart := int p\<rparr>) = Inr gs2"
    "vec_rep gs2 (gl @ [GroupData_new\<lparr>gStart := int p\<rparr>])"
    using vec_put_rep [OF gs1(2), of "length gl" "GroupData_new\<lparr>gStart := int p\<rparr>"] by auto
  have "vec_at gs1 (length gl) = Inr GroupData_new" using vec_at_rep [OF gs1(2)] by simp
  then show ?thesis using a sz gs1(1) gs2 g
    by (simp add: group_open_def ww el_put_def el_get_def start_rel_def at_pos_def)
qed

lemma group_close_rel:
  assumes w: "start_rel s h m n w (gl, p, bt)" and a: "h c = Some e" "mGroupNum e = int k" and k: "k < length gl"
  shows "sim (start_rel s h m n) (group_close c w) (m_close k s (gl, p, bt))"
proof -
  obtain gs d where ww: "w = (h, gs, d)" using w by (cases w) (auto simp: start_rel_def)
  have g: "vec_rep gs gl" "m \<le> length gl" "length gl \<le> n" "at_pos s p bt d" using w by (simp_all add: start_rel_def ww)
  have at: "vec_at gs k = Inr (gl ! k)" using vec_at_rep [OF g(1)] k by simp
  show ?thesis
  proof (cases "str_assign s (gStart (gl ! k)) (int p - gStart (gl ! k))")
    case (Inl x)
    then show ?thesis using a at g(4) by (simp add: group_close_def m_close_def ww el_get_def at_pos_def)
  next
    case (Inr t)
    obtain gs' where "vec_put gs k ((gl ! k)\<lparr>gEnd := int p, gString := t\<rparr>) = Inr gs'"
      "vec_rep gs' (gl[k := (gl ! k)\<lparr>gEnd := int p, gString := t\<rparr>])"
      using vec_put_rep [OF g(1) k] by blast
    then show ?thesis using Inr a at g by (simp add: group_close_def m_close_def ww el_get_def at_pos_def start_rel_def)
  qed
qed

lemma processSubTree_next:
  assumes ok: "processElement bound fuel a w = Inr (True, w1)" and a: "fst w1 a = Some e"
    and leaf: "elType e = TYPE_CLASS \<or> elType e = TYPE_OR \<or> elChild e = None" and par: "elParent e = Some par"
    and b: "0 < bound"
  shows "processSubTree bound (Suc fuel) par (Some a) w = processSubTree bound fuel par (elNext e) w1"
proof -
  obtain b' where "bound = Suc b'" using b by (cases bound) auto
  then have "rx_climb bound (fst w1) par a = Inr None" using a par by (simp add: el_get_def)
  then show ?thesis using ok a leaf by (auto simp: el_get_def)
qed

lemma rx_node_leaf: "rx_node h a e r \<Longrightarrow> elType e = TYPE_CLASS \<or> elType e = TYPE_OR \<or> elChild e = None"
  by (cases r) (auto simp: term_node_def)

lemma seq_enter:
  assumes "h b = Some f" "seq_node h b f rs" "rs \<noteq> []" "fst w = h"
  shows "processSubTree bound (Suc (Suc fuel)) b (Some b) w = processSubTree bound (Suc fuel) b (elChild f) w"
  using assms by (cases rs) (auto simp: seq_node_def el_get_def split: option.splits)

lemma or_loop_some:
  "processSubTree bound fuel b (Some b) w = Inr (ok, w1) \<Longrightarrow>
   or_loop bound (Suc fuel) a (Some b) w =
     (if ok then andThen (group_close a w1) (\<lambda>w. Inr (True, w))
      else andThen (el_get (fst w1) (Some b)) (\<lambda>e. or_loop bound fuel a (elNext e) w1))"
  "processSubTree bound fuel b (Some b) w = Inl x \<Longrightarrow> or_loop bound (Suc fuel) a (Some b) w = Inl x"
  by simp_all

lemma m_alts_some:
  "m_seq s rs st = Inr (ok, st1) \<Longrightarrow>
   m_alts s k (rs # alts) st =
     (if ok then andThen (m_close k s st1) (\<lambda>st. Inr (True, st)) else m_alts s k alts st1)"
  by simp

lemma walk_sim:
  shows "length s < 2147483646 \<Longrightarrow> in_seq h par \<Longrightarrow> links rx_node h par rs first \<Longrightarrow> \<forall>r \<in> set rs. rx_wf r \<Longrightarrow>
      seq_cost rs \<le> fuel \<Longrightarrow> seq_cost rs \<le> bound \<Longrightarrow> start_rel s h m n w st \<Longrightarrow> n + seq_groups rs < 2 ^ 32 - 1 \<Longrightarrow>
      sim (walk_rel s h par m (n + seq_groups rs)) (processSubTree bound fuel par first w) (m_seq s rs st)"
    and "length s < 2147483646 \<Longrightarrow> in_seq h par \<Longrightarrow> h a = Some e \<Longrightarrow> elParent e = Some par \<Longrightarrow> par < a \<Longrightarrow>
      rx_node h a e r \<Longrightarrow> rx_wf r \<Longrightarrow> rx_cost r \<le> fuel \<Longrightarrow> rx_cost r \<le> bound \<Longrightarrow> start_rel s h m n w st \<Longrightarrow>
      n + rx_groups r < 2 ^ 32 - 1 \<Longrightarrow>
      sim (walk_rel s h par m (n + rx_groups r)) (processElement bound fuel a w) (m_el s r st)"
    and "length s < 2147483646 \<Longrightarrow> h a = Some e \<Longrightarrow> mGroupNum e = int k \<Longrightarrow> k < m \<Longrightarrow> links seq_node h a alts first \<Longrightarrow>
      \<forall>rs \<in> set alts. rs \<noteq> [] \<and> (\<forall>r \<in> set rs. rx_wf r) \<Longrightarrow> alts_cost alts \<le> fuel \<Longrightarrow> alts_cost alts \<le> bound \<Longrightarrow>
      start_rel s h m n w st \<Longrightarrow> n + alts_groups alts < 2 ^ 32 - 1 \<Longrightarrow>
      sim (walk_rel s h a m (n + alts_groups alts)) (or_loop bound fuel a first w) (m_alts s k alts st)"
proof (induction s rs st and s r st and s k alts st arbitrary: h par first fuel m n w and h par a e fuel m n w and h a e first fuel m n w
    rule: m_seq_m_el_m_alts.induct)
  case (1 s st)
  obtain f where "fuel = Suc f" using 1(5) by (cases fuel) (auto simp: costs)
  then show ?case using 1(3,7) by (cases w, cases st) (auto simp: walk_rel_def start_rel_def costs)
next
  case (2 s r rs st)
  obtain f where f: "fuel = Suc f" using 2(7) by (cases fuel) (auto simp: costs)
  obtain a e where a: "first = Some a" "h a = Some e" "elParent e = Some par" "par < a" "rx_node h a e r"
    "links rx_node h par rs (elNext e)"
    using 2(5) by (auto split: option.splits)
  have el: "sim (walk_rel s h par m (n + rx_groups r)) (processElement bound f a w) (m_el s r st)"
    by (rule 2(1) [OF 2(3,4) a(2-5)]) (use 2(6-10) f in \<open>auto simp: costs\<close>)
  show ?case
  proof (cases "m_el s r st")
    case (Inl x)
    then show ?thesis using el f a(1) by simp
  next
    case (Inr y)
    then obtain x where x: "processElement bound f a w = Inr x" "walk_rel s h par m (n + rx_groups r) x y"
      using el by auto
    obtain ok w1 where xx: "x = (ok, w1)" by (cases x)
    obtain st1 where y: "y = (ok, st1)" using x(2) by (cases y) (auto simp: walk_rel_def xx)
    have same: "same_tree h (fst w1)" "\<forall>z \<le> par. fst w1 z = h z" "start_rel s (fst w1) m (n + rx_groups r) w1 st1"
      using x(2) by (simp_all add: walk_rel_def xx y)
    show ?thesis
    proof (cases ok)
      case False
      have "walk_rel s h par m (n + seq_groups (r # rs)) (ok, w1) (ok, st1)"
        by (rule walk_rel_mono [OF x(2) [unfolded xx y]]) (simp_all add: costs)
      then show ?thesis using x(1) xx y Inr f a(1) False by simp
    next
      case True
      obtain e1 where e1: "fst w1 a = Some e1" "same_el e e1" using same_tree_get [OF same(1) a(2)] by blast
      have nx: "elNext e1 = elNext e" "elParent e1 = Some par" using same_el_fields [OF e1(2)] a(3) by simp_all
      have go: "processSubTree bound (Suc f) par (Some a) w = processSubTree bound f par (elNext e) w1"
        using processSubTree_next [of bound f a w w1 e1 par] x(1) xx True e1 nx 2(8)
          rx_node_leaf [OF rx_node_same [OF a(5) same(1) e1(2)]] by (simp add: costs)
      have "sim (walk_rel s (fst w1) par m (n + rx_groups r + seq_groups rs)) (processSubTree bound f par (elNext e) w1) (m_seq s rs st1)"
        by (rule 2(2) [of "(True, st1)", simplified])
          (use 2(3,6-10) f same(3) in_seq_same [OF 2(4) same(1)] links_rx_same [OF a(6) same(1)] in \<open>auto simp: costs\<close>)
      then have "sim (walk_rel s h par m (n + seq_groups (r # rs))) (processSubTree bound f par (elNext e) w1) (m_seq s rs st1)"
        by (rule sim_mono) (use walk_rel_step [OF _ same(1,2) order.refl] in \<open>auto simp: costs add.assoc\<close>)
      then show ?thesis using go Inr y True f a(1) by simp
    qed
  qed
next
  case (3 s x y mn mx st)
  obtain f where f: "fuel = Suc f" using 3(8) by (cases fuel) auto
  show ?case unfolding f
    using processElement_single [OF 3(3,6,4,2) _ 3(7) 3(9,10,1), of f] by (simp add: single_def)
next
  case (4 s neg ts mn mx st)
  obtain f where f: "fuel = Suc f" using 4(8) by (cases fuel) auto
  show ?case unfolding f
    using processElement_single [OF 4(3,6,4,2) _ 4(7) 4(9,10,1), of f] by (simp add: single_def)
next
  case (5 s alts mn mx st)
  obtain f where f: "fuel = Suc f" using 5(9) by (cases fuel) (auto simp: costs)
  obtain gl p bt where st: "st = (gl, p, bt)" by (cases st)
  have node: "elType e = TYPE_OR" "links seq_node h a alts (elChild e)" using 5(7) unfolding rx_node_group by simp_all
  let ?e = "e\<lparr>mGroupNum := int (length gl)\<rparr>"
  let ?h = "h(a \<mapsto> ?e)" and ?gl = "gl @ [GroupData_new\<lparr>gStart := int p\<rparr>]"
  have gl: "length gl \<le> n" using 5(11) by (cases w) (auto simp: start_rel_def st)
  obtain w1 where w1: "group_open a w = Inr w1" "start_rel s ?h (length gl + 1) (Suc n) w1 (?gl, p, bt)"
  proof -
    have "start_rel s h (length gl) n w (gl, p, bt)" using 5(11) by (cases w) (auto simp: start_rel_def st)
    from group_open_rel [OF this 5(4)] 5(12) that show thesis by (auto simp: costs)
  qed
  have same: "same_tree h ?h" using 5(4) unfolding same_tree_def by (auto simp: option.rel_refl)
  have m: "m \<le> length gl + 1" using 5(11) by (cases w) (auto simp: start_rel_def st)
  have fw: "fst w1 = ?h" using w1(2) by (cases w1) (simp add: start_rel_def)
  have "sim (walk_rel s ?h a (length gl + 1) (Suc n + alts_groups alts)) (or_loop bound f a (elChild e) w1) (m_alts s (length gl) alts (?gl, p, bt))"
  proof (rule 5(1) [unfolded st, simplified])
    show "?h a = Some ?e" "mGroupNum ?e = int (length gl)" by simp_all
    show "links seq_node ?h a alts (elChild e)" by (rule links_seq_same [OF node(2) same])
    show "start_rel s ?h (length gl + 1) (Suc n) w1 (?gl, p, bt)" by (rule w1(2))
  qed (use 5(2,8-12) f in \<open>auto simp: costs\<close>)
  then have "sim (walk_rel s h par m (n + rx_groups (Group alts mn mx))) (or_loop bound f a (elChild e) w1) (m_alts s (length gl) alts (?gl, p, bt))"
  proof (rule sim_mono)
    fix x y assume "walk_rel s ?h a (length gl + 1) (Suc n + alts_groups alts) x y"
    from walk_rel_mono [OF this m order.refl, of par] have "walk_rel s ?h par m (Suc n + alts_groups alts) x y"
      using 5(6) by simp
    then show "walk_rel s h par m (n + rx_groups (Group alts mn mx)) x y"
      using walk_rel_step [OF _ same _ order.refl, of s par m "Suc n + alts_groups alts" "fst x" "snd x" y] 5(6) by (simp add: costs)
  qed
  moreover have "processElement bound (Suc f) a w = or_loop bound f a (elChild e) w1"
  proof -
    have "fst w = h" using 5(11) by (cases w) (auto simp: start_rel_def st)
    then show ?thesis using node(1) 5(4) w1(1) fw by (simp add: el_get_def)
  qed
  ultimately show ?case unfolding f by (simp add: st)
next
  case (6 s k st)
  obtain f where "fuel = Suc f" using 6(7) by (cases fuel) (auto simp: costs)
  then show ?case using 6(5,9) by (cases w, cases st) (auto simp: walk_rel_def start_rel_def costs)
next
  case (7 s k rs alts st)
  obtain f where f: "fuel = Suc (Suc (Suc f))"
  proof -
    have "3 \<le> fuel" using 7(9) by (simp add: costs seq_cost_def alts_cost_def)
    then have "fuel = Suc (Suc (Suc (fuel - 3)))" by simp
    then show thesis by (rule that)
  qed
  obtain b g where b: "first = Some b" "h b = Some g" "elParent g = Some a" "a < b" "seq_node h b g rs"
    "links seq_node h a alts (elNext g)"
    using 7(7) by (auto split: option.splits)
  have fw: "fst w = h" using 7(11) by (cases w) (auto simp: start_rel_def)
  have rs: "rs \<noteq> []" "in_seq h b" "links rx_node h b rs (elChild g)"
    using 7(8) b by (auto simp: seq_node_def in_seq_def)
  have el: "sim (walk_rel s h b m (n + seq_groups rs)) (processSubTree bound (Suc (Suc f)) b (Some b) w) (m_seq s rs st)"
    unfolding seq_enter [OF b(2,5) rs(1) fw]
    by (rule 7(1) [OF 7(3) rs(2,3)]) (use 7(8-12) f in \<open>auto simp: costs\<close>)
  show ?case
  proof (cases "m_seq s rs st")
    case (Inl x)
    then show ?thesis using el or_loop_some(2) unfolding f b(1) by simp
  next
    case (Inr y)
    then obtain x where x: "processSubTree bound (Suc (Suc f)) b (Some b) w = Inr x" "walk_rel s h b m (n + seq_groups rs) x y"
      using el by auto
    obtain ok w1 where xx: "x = (ok, w1)" by (cases x)
    obtain st1 where y: "y = (ok, st1)" using x(2) by (cases y) (auto simp: walk_rel_def xx)
    have same: "same_tree h (fst w1)" "\<forall>z \<le> b. fst w1 z = h z" "start_rel s (fst w1) m (n + seq_groups rs) w1 st1"
      using x(2) by (simp_all add: walk_rel_def xx y)
    have a1: "fst w1 a = Some e" using same(2) b(4) 7(4) by simp
    show ?thesis
    proof (cases ok)
      case True
      obtain gl p bt where st1: "st1 = (gl, p, bt)" by (cases st1)
      have "k < length gl" using same(3) 7(6) by (cases w1) (auto simp: start_rel_def st1)
      from group_close_rel [OF same(3) [unfolded st1] a1 7(5) this]
      have "sim (start_rel s (fst w1) m (n + seq_groups rs)) (group_close a w1) (m_close k s st1)" by (simp add: st1)
      then have "sim (walk_rel s h a m (n + alts_groups (rs # alts)))
          (andThen (group_close a w1) (\<lambda>w. Inr (True, w))) (andThen (m_close k s st1) (\<lambda>st. Inr (True, st)))"
      proof (rule sim_andThen)
        fix w' st' assume r: "start_rel s (fst w1) m (n + seq_groups rs) w' st'"
        then have "fst w' = fst w1" by (cases w') (auto simp: start_rel_def split: prod.splits)
        then show "sim (walk_rel s h a m (n + alts_groups (rs # alts))) (Inr (True, w')) (Inr (True, st'))"
          using r same(1,2) b(4) by (auto simp: walk_rel_def start_rel_def costs split: prod.splits)
      qed
      then show ?thesis
        unfolding f b(1) or_loop_some(1) [OF x(1) [unfolded xx]] m_alts_some [OF Inr [unfolded y]] using True by simp
    next
      case False
      obtain g1 where g1: "fst w1 b = Some g1" "same_el g g1" using same_tree_get [OF same(1) b(2)] by blast
      have nx: "elNext g1 = elNext g" using same_el_fields [OF g1(2)] by simp
      have "sim (walk_rel s (fst w1) a m (n + seq_groups rs + alts_groups alts)) (or_loop bound (Suc (Suc f)) a (elNext g) w1) (m_alts s k alts st1)"
        by (rule 7(2) [of "(False, st1)", simplified])
          (use 7(3,5,6,8-12) f same(3) a1 links_seq_same [OF b(6) same(1)] in \<open>auto simp: costs\<close>)
      then have "sim (walk_rel s h a m (n + alts_groups (rs # alts))) (or_loop bound (Suc (Suc f)) a (elNext g) w1) (m_alts s k alts st1)"
        by (rule sim_mono) (use walk_rel_step [OF _ same(1) _ order.refl] same(2) b(4) in \<open>auto simp: costs add.assoc\<close>)
      moreover have "andThen (el_get (fst w1) (Some b)) (\<lambda>e. or_loop bound (Suc (Suc f)) a (elNext e) w1) =
          or_loop bound (Suc (Suc f)) a (elNext g) w1"
        using g1(1) nx by (simp only: el_get_def option.case andThen_simps)
      ultimately show ?thesis
        unfolding f b(1) or_loop_some(1) [OF x(1) [unfolded xx]] m_alts_some [OF Inr [unfolded y]] using False by simp
    qed
  qed
qed

section \<open>A parse\<close>

fun rx_nodes :: "rx \<Rightarrow> nat" where
  "rx_nodes (Term a b mn mx) = 1"
| "rx_nodes (Class neg ts mn mx) = Suc (length ts)"
| "rx_nodes (Group alts mn mx) = Suc (sum_list (map (\<lambda>rs. Suc (sum_list (map rx_nodes rs))) alts))"

definition seq_nodes :: "rx list \<Rightarrow> nat" where "seq_nodes rs = sum_list (map rx_nodes rs)"

lemma sum_list_le: "(\<And>x. x \<in> set xs \<Longrightarrow> f x \<le> 4 * g x) \<Longrightarrow> sum_list (map f xs) \<le> 4 * sum_list (map g xs)" for f g :: "'a \<Rightarrow> nat"
  by (induction xs) (fastforce simp: algebra_simps)+

lemma rx_cost_nodes: "Suc (rx_cost r) \<le> 4 * rx_nodes r"
proof (induction r)
  case (Group alts mn mx)
  have "sum_list (map (\<lambda>rs. 2 + seq_cost rs) alts) \<le> 4 * sum_list (map (\<lambda>rs. Suc (sum_list (map rx_nodes rs))) alts)"
  proof (rule sum_list_le)
    fix rs assume "rs \<in> set alts"
    then have "sum_list (map (\<lambda>r. Suc (rx_cost r)) rs) \<le> 4 * sum_list (map rx_nodes rs)"
      using Group.IH by (intro sum_list_le) auto
    then show "2 + seq_cost rs \<le> 4 * Suc (sum_list (map rx_nodes rs))" by (simp add: seq_cost_def)
  qed
  then show ?case by (simp add: costs alts_cost_def)
qed simp_all

lemma seq_cost_nodes: "seq_cost rs \<le> Suc (4 * seq_nodes rs)"
  unfolding seq_cost_def seq_nodes_def using sum_list_le [of rs "\<lambda>r. Suc (rx_cost r)" rx_nodes] rx_cost_nodes by simp

definition rx_tree :: "regex \<Rightarrow> rx list \<Rightarrow> bool" where
  "rx_tree r rs \<longleftrightarrow> (\<exists>e. rxHeap r mRoot = Some e \<and> seq_node (rxHeap r) mRoot e rs) \<and> seq_nodes rs < rxFresh r"

lemma rx_tree_parse:
  assumes r: "rx_tree r rs" "rxState r = STATE_PREPARED \<or> rxState r = STATE_PARSED" and rs: "rs \<noteq> []" "\<forall>x \<in> set rs. rx_wf x"
    and g: "vec_rep (rxGroups r) gl" and len: "length s < 2147483646" "length gl + seq_groups rs < 2 ^ 32 - 1"
  shows "sim (\<lambda>(b, r') (b', gl', p, bt). b = b' \<and> vec_rep (rxGroups r') gl' \<and> rx_tree r' rs \<and>
      rxState r' = (if b then STATE_PARSED else rxState r)) (rx_parse r s) (m_seq s rs (gl, 0, 0))"
proof -
  obtain e where e: "rxHeap r mRoot = Some e" "seq_node (rxHeap r) mRoot e rs" "seq_nodes rs < rxFresh r"
    using r(1) by (auto simp: rx_tree_def)
  let ?w = "(rxHeap r, rxGroups r, ParseData_new s)"
  have f: "rx_fuel r = Suc (Suc (4 * rxFresh r + 2))" by (simp add: rx_fuel_def)
  have st: "start_rel s (rxHeap r) (length gl) (length gl) ?w (gl, 0, 0)"
    using g by (simp add: start_rel_def at_pos_def ParseData_new_def)
  have "sim (walk_rel s (rxHeap r) mRoot (length gl) (length gl + seq_groups rs))
      (processSubTree (rx_fuel r) (Suc (4 * rxFresh r + 2)) mRoot (elChild e) ?w) (m_seq s rs (gl, 0, 0))"
    by (rule walk_sim(1) [OF len(1)])
      (use e rs(2) len(2) st seq_cost_nodes [of rs] in \<open>auto simp: seq_node_def in_seq_def rx_fuel_def\<close>)
  then have "sim (walk_rel s (rxHeap r) mRoot (length gl) (length gl + seq_groups rs))
      (processSubTree (rx_fuel r) (rx_fuel r) mRoot (Some mRoot) ?w) (m_seq s rs (gl, 0, 0))"
    using seq_enter [OF e(1,2) rs(1), of ?w "rx_fuel r"] unfolding f by simp
  then have "sim (\<lambda>(b, r') (b', gl', p, bt). b = b' \<and> vec_rep (rxGroups r') gl' \<and> rx_tree r' rs \<and>
      rxState r' = (if b then STATE_PARSED else rxState r))
    (andThen (processSubTree (rx_fuel r) (rx_fuel r) mRoot (Some mRoot) ?w) (\<lambda>(res, h, gs, d).
              let r = r\<lparr>rxHeap := h, rxGroups := gs\<rparr> in
              Inr (res, if res then r\<lparr>rxState := STATE_PARSED\<rparr> else r)))
    (andThen (m_seq s rs (gl, 0, 0)) Inr)"
  proof (rule sim_andThen)
    fix x y assume w: "walk_rel s (rxHeap r) mRoot (length gl) (length gl + seq_groups rs) x y"
    obtain res h gs d where x: "x = (res, h, gs, d)" by (cases x)
    obtain b' gl' p bt where y: "y = (b', gl', p, bt)" by (cases y)
    have same: "same_tree (rxHeap r) h" using w by (simp add: walk_rel_def x y)
    obtain e' where "h mRoot = Some e'" "same_el e e'" using same_tree_get [OF same e(1)] by blast
    moreover from this have "seq_node h mRoot e' rs" using seq_node_same [OF e(2) same] by blast
    ultimately show "sim (\<lambda>(b, r') (b', gl', p, bt). b = b' \<and> vec_rep (rxGroups r') gl' \<and> rx_tree r' rs \<and>
        rxState r' = (if b then STATE_PARSED else rxState r))
      (case x of (res, h, gs, d) \<Rightarrow> let r = r\<lparr>rxHeap := h, rxGroups := gs\<rparr> in
              Inr (res, if res then r\<lparr>rxState := STATE_PARSED\<rparr> else r)) (Inr y)"
      using w e(3) by (auto simp: walk_rel_def start_rel_def rx_tree_def x y Let_def)
  qed
  moreover have "andThen (m_seq s rs (gl, 0, 0)) Inr = m_seq s rs (gl, 0, 0)" by (cases "m_seq s rs (gl, 0, 0)") auto
  ultimately show ?thesis using r(2) by (auto simp: rx_parse_def)
qed

end
