(* ===== verification/RegexPrepare.thy ===== *)
theory RegexPrepare
  imports RegexTree
begin

text \<open>
  The text of an expression, and that \<open>prepare\<close> builds from this text a tree that represents the
  expression: each construct appends one node to the children of the current sequence.
\<close>

section \<open>Text\<close>

definition special :: "char \<Rightarrow> bool" where
  "special c \<longleftrightarrow> c \<in> set (CHR 0x5C # ''.*+?{[]-(|)^'')"

definition print_char :: "char \<Rightarrow> string" where
  "print_char c = (if special c then [CHR 0x5C, c] else [c])"

function dec :: "nat \<Rightarrow> string" where
  "dec n = (if n < 10 then [''0123456789'' ! n] else dec (n div 10) @ [''0123456789'' ! (n mod 10)])"
  by auto
termination by (relation "measure id") auto

declare dec.simps [simp del]

definition print_q :: "int \<Rightarrow> int \<Rightarrow> string" where
  "print_q mn mx =
     (if mn = 1 \<and> mx = 1 then [] else if mn = 0 \<and> mx = -1 then ''*'' else if mn = 1 \<and> mx = -1 then ''+''
      else if mn = 0 \<and> mx = 1 then ''?''
      else if mn = mx then ''{'' @ dec (nat mn) @ ''}''
      else ''{'' @ dec (nat mn) @ '','' @ dec (nat mx) @ ''}'')"

definition print_term :: "char \<times> char \<Rightarrow> string" where
  "print_term t = (if fst t = snd t then print_char (fst t) else print_char (fst t) @ ''-'' @ print_char (snd t))"

fun bars :: "string list \<Rightarrow> string" where
  "bars [] = []" | "bars [x] = x" | "bars (x # xs) = x @ ''|'' @ bars xs"

fun print_rx :: "rx \<Rightarrow> string" where
  "print_rx (Term a b mn mx) = (if a = b then print_char a else ''.'') @ print_q mn mx"
| "print_rx (Class neg ts mn mx) =
     ''['' @ (if neg then ''^'' else []) @ concat (map print_term ts) @ '']'' @ print_q mn mx"
| "print_rx (Group alts mn mx) = ''('' @ bars (map (\<lambda>rs. concat (map print_rx rs)) alts) @ '')'' @ print_q mn mx"

definition print_seq :: "rx list \<Rightarrow> string" where "print_seq rs = concat (map print_rx rs)"

text \<open>What has a text: every repetition that can be written, single characters and the dot, groups that are not empty.\<close>

definition q_ok :: "int \<Rightarrow> int \<Rightarrow> bool" where
  "q_ok mn mx \<longleftrightarrow> (mx = -1 \<and> (mn = 0 \<or> mn = 1)) \<or> (0 \<le> mn \<and> mn \<le> int_max \<and> 0 \<le> mx \<and> mx \<le> int_max)"

fun printable :: "rx \<Rightarrow> bool" where
  "printable (Term a b mn mx) \<longleftrightarrow> (a = b \<or> a = CHR 0x00 \<and> b = CHR 0x7F) \<and> q_ok mn mx"
| "printable (Class neg ts mn mx) \<longleftrightarrow> q_ok mn mx"
| "printable (Group alts mn mx) \<longleftrightarrow> alts \<noteq> [] \<and> (\<forall>rs \<in> set alts. \<forall>r \<in> set rs. printable r) \<and> q_ok mn mx"

section \<open>Heaps that differ elsewhere\<close>

lemma links_above:
  assumes "\<forall>x > par. h' x = h x" "\<And>x a e. x \<in> set xs \<Longrightarrow> par < a \<Longrightarrow> P h a e x \<Longrightarrow> P h' a e x"
  shows "links P h par xs first \<Longrightarrow> links P h' par xs first"
  using assms(2) by (induction xs arbitrary: first) (use assms(1) in \<open>auto split: option.splits\<close>)

lemma rx_node_above: "rx_node h a e r \<Longrightarrow> \<forall>x > a. h' x = h x \<Longrightarrow> rx_node h' a e r"
proof (induction r arbitrary: a e)
  case (Class neg ts mn mx)
  then show ?case using links_above [of a h' h ts term_node "elChild e"] by (auto simp: term_node_def)
next
  case (Group alts mn mx)
  have seq: "seq_node h' b f rs" if "rs \<in> set alts" "a < b" "seq_node h b f rs" for rs b f
    using links_above [of b h' h rs rx_node "elChild f"] Group.IH that Group.prems(2) by (auto simp: seq_node_def)
  show ?case using links_above [of a h' h alts seq_node "elChild e"] seq Group.prems unfolding rx_node_group by blast
qed (simp add: term_node_def)

lemma seq_node_above: "seq_node h b f rs \<Longrightarrow> \<forall>x > b. h' x = h x \<Longrightarrow> seq_node h' b f rs"
  unfolding seq_node_def using links_above [of b h' h rs rx_node "elChild f"] rx_node_above by auto

text \<open>Only \<open>par\<close> and its children differ: the trees below the children stay.\<close>

definition agree_off :: "nat \<Rightarrow> rx_heap \<Rightarrow> rx_heap \<Rightarrow> bool" where
  "agree_off par h h' \<longleftrightarrow> (\<forall>x f. h x = Some f \<longrightarrow> x \<noteq> par \<longrightarrow> elParent f \<noteq> Some par \<longrightarrow> h' x = Some f)"

definition framed :: "(rx_heap \<Rightarrow> nat \<Rightarrow> element \<Rightarrow> 'x \<Rightarrow> bool) \<Rightarrow> bool" where
  "framed P \<longleftrightarrow> (\<forall>par h h' b f x n. agree_off par h h' \<longrightarrow> par < b \<longrightarrow> P h b f x \<longrightarrow> P h' b (f\<lparr>elNext := n\<rparr>) x)"

lemma links_agree:
  assumes "agree_off par h h'" "par < b" "\<And>x a e. x \<in> set xs \<Longrightarrow> par < a \<Longrightarrow> P h a e x \<Longrightarrow> P h' a e x"
  shows "links P h b xs first \<Longrightarrow> links P h' b xs first"
  using assms(3)
proof (induction xs arbitrary: first)
  case (Cons x xs)
  obtain a e where a: "first = Some a" "h a = Some e" "elParent e = Some b" "b < a" "P h a e x" "links P h b xs (elNext e)"
    using Cons.prems(1) by (auto split: option.splits)
  have "h' a = Some e" using assms(1,2) a(2-4) by (simp add: agree_off_def)
  then show ?case using a Cons.IH [OF a(6)] Cons.prems(2) [of x a e] assms(2) Cons.prems(2) by simp
qed simp

lemma rx_node_agree: "rx_node h b f r \<Longrightarrow> agree_off par h h' \<Longrightarrow> par < b \<Longrightarrow> rx_node h' b f r"
proof (induction r arbitrary: b f)
  case (Class neg ts mn mx)
  then show ?case using links_agree [of par h h' b ts term_node "elChild f"] by (auto simp: term_node_def)
next
  case (Group alts mn mx)
  have seq: "seq_node h' a e rs" if "rs \<in> set alts" "par < a" "seq_node h a e rs" for rs a e
    using links_agree [of par h h' a rs rx_node "elChild e"] Group.IH that Group.prems(2) by (auto simp: seq_node_def)
  show ?case using links_agree [of par h h' b alts seq_node "elChild f"] seq Group.prems unfolding rx_node_group by blast
qed (simp add: term_node_def)

lemma rx_node_next [simp]: "rx_node h b (f\<lparr>elNext := n\<rparr>) r = rx_node h b f r"
  by (cases r) (simp_all add: term_node_def)

lemma framed_nodes: "framed term_node" "framed rx_node" "framed seq_node"
proof -
  show "framed term_node" by (simp add: framed_def term_node_def)
  show "framed rx_node" unfolding framed_def using rx_node_agree by simp
  have "links rx_node h' b rs first" if "agree_off par h h'" "par < b" "links rx_node h b rs first" for par h h' b rs first
    by (rule links_agree [OF that(1,2) _ that(3)]) (use that(1) rx_node_agree in blast)
  then show "framed seq_node" by (simp add: framed_def seq_node_def)
qed

section \<open>Appending a child\<close>

text \<open>
  After an append the new node \<open>a\<close> is the last child of \<open>c\<close>, in the heap itself and in every heap that
  agrees with it on the older nodes; it closes the list of siblings with whatever it then represents.
\<close>

definition last_slot :: "(rx_heap \<Rightarrow> nat \<Rightarrow> element \<Rightarrow> 'x \<Rightarrow> bool) \<Rightarrow> rx_heap \<Rightarrow> nat \<Rightarrow> 'x list \<Rightarrow> nat option \<Rightarrow> nat \<Rightarrow> bool" where
  "last_slot P h c xs first a \<longleftrightarrow> (\<forall>h2 e x. (\<forall>y < a. h2 y = h y) \<longrightarrow> h2 a = Some e \<longrightarrow> elParent e = Some c \<longrightarrow>
     elNext e = None \<longrightarrow> P h2 a e x \<longrightarrow> links P h2 c (xs @ [x]) first) \<and>
   (\<forall>h2 e fuel. (\<forall>y < a. h2 y = h y) \<longrightarrow> h2 a = Some e \<longrightarrow> elNext e = None \<longrightarrow> Suc (length xs) < fuel \<longrightarrow>
     (\<exists>b. first = Some b \<and> el_last fuel h2 b = Inr a))"

lemma last_slot_links:
  "last_slot P h c xs first a \<Longrightarrow> \<forall>y < a. h2 y = h y \<Longrightarrow> h2 a = Some e \<Longrightarrow> elParent e = Some c \<Longrightarrow> elNext e = None \<Longrightarrow>
    P h2 a e x \<Longrightarrow> links P h2 c (xs @ [x]) first"
  unfolding last_slot_def by blast

lemma last_slot_last:
  "last_slot P h c xs first a \<Longrightarrow> h a = Some e \<Longrightarrow> elNext e = None \<Longrightarrow> Suc (length xs) < fuel \<Longrightarrow>
    \<exists>b. first = Some b \<and> el_last fuel h b = Inr a"
  unfolding last_slot_def by blast

lemma links_last:
  assumes "links P h c xs first" "xs \<noteq> []" "length xs < fuel"
  shows "\<exists>b z f. first = Some b \<and> el_last fuel h b = Inr z \<and> h z = Some f \<and> elParent f = Some c \<and> c < z \<and> elNext f = None"
  using assms
proof (induction xs arbitrary: first fuel)
  case (Cons x xs)
  obtain n where n: "fuel = Suc n" using Cons.prems(3) by (cases fuel) auto
  obtain a e where a: "first = Some a" "h a = Some e" "elParent e = Some c" "c < a" "links P h c xs (elNext e)"
    using Cons.prems(1) by (auto split: option.splits)
  show ?case
  proof (cases "xs = []")
    case True
    then show ?thesis using a n by (simp add: el_get_def)
  next
    case False
    then show ?thesis using Cons.IH [OF a(5) False, of n] Cons.prems(3) a(1,2) n by (auto simp: el_get_def)
  qed
qed simp

lemma el_last_upd:
  "el_last fuel h b = Inr z \<Longrightarrow> (\<forall>y f. h y = Some f \<longrightarrow> y \<noteq> z \<longrightarrow> h2 y = Some f \<or> (\<exists>g. h2 y = Some g \<and> elNext g = elNext f)) \<Longrightarrow>
   h2 z = Some g \<Longrightarrow> elNext g = Some a \<Longrightarrow> h2 a = Some e \<Longrightarrow> elNext e = None \<Longrightarrow> el_last (Suc fuel) h2 b = Inr a"
proof (induction fuel arbitrary: b)
  case (Suc fuel)
  obtain f where f: "h b = Some f" using Suc.prems(1) by (auto simp: el_get_def andThen_Inr_iff split: option.splits)
  show ?case
  proof (cases "b = z")
    case True
    then show ?thesis using Suc.prems by (simp add: el_get_def)
  next
    case False
    then obtain n where n: "elNext f = Some n" "el_last fuel h n = Inr z"
      using Suc.prems(1) f by (auto simp: el_get_def andThen_Inr_iff split: option.splits)
    obtain g' where "h2 b = Some g'" "elNext g' = Some n" using Suc.prems(2) f n(1) False by metis
    then show ?thesis using Suc.IH [OF n(2) Suc.prems(2-6)] by (simp add: el_get_def)
  qed
qed simp

lemma el_last_end: "el_last fuel h b = Inr z \<Longrightarrow> \<exists>f. h z = Some f \<and> elNext f = None"
proof (induction fuel arbitrary: b)
  case (Suc fuel)
  then show ?case by (auto simp: el_get_def andThen_Inr_iff split: option.splits)
qed simp

lemma el_last_mono:
  "el_last fuel h b = Inr z \<Longrightarrow> fuel \<le> fuel' \<Longrightarrow> (\<forall>y f. h y = Some f \<longrightarrow> h' y = Some f) \<Longrightarrow> el_last fuel' h' b = Inr z"
proof (induction fuel arbitrary: b fuel')
  case (Suc fuel)
  obtain n where "fuel' = Suc n" using Suc.prems(2) by (cases fuel') auto
  then show ?case using Suc by (auto simp: el_get_def andThen_Inr_iff split: option.splits)
qed simp

lemma links_extend:
  assumes "framed P" "links P h c xs first" "xs \<noteq> []" "el_last fuel h (the first) = Inr z"
    "agree_off c h h2" "\<forall>y f. h y = Some f \<longrightarrow> elParent f = Some c \<longrightarrow> c < y \<longrightarrow> h2 y = Some (f\<lparr>elNext := (if y = z then Some a else elNext f)\<rparr>)"
    "h2 a = Some e" "elParent e = Some c" "elNext e = None" "c < a" "P h2 a e x"
  shows "links P h2 c (xs @ [x]) first"
  using assms(2-4)
proof (induction xs arbitrary: first fuel)
  case (Cons y ys)
  obtain n where n: "fuel = Suc n" using Cons.prems(3) by (cases fuel) auto
  obtain b f where b: "first = Some b" "h b = Some f" "elParent f = Some c" "c < b" "P h b f y" "links P h c ys (elNext f)"
    using Cons.prems(1) by (auto split: option.splits)
  have b2: "h2 b = Some (f\<lparr>elNext := (if b = z then Some a else elNext f)\<rparr>)" using assms(6) b(2-4) by blast
  have P: "P h2 b (f\<lparr>elNext := m\<rparr>) y" for m using assms(1,5) b(4,5) by (auto simp: framed_def)
  show ?case
  proof (cases ys)
    case Nil
    then have "b = z" using Cons.prems(3) b n by (simp add: el_get_def)
    then show ?thesis using b b2 P assms(7-11) Nil by simp
  next
    case (Cons y' ys')
    then obtain b' where b': "elNext f = Some b'" using b(6) by (auto split: option.splits)
    have l: "el_last n h b' = Inr z" using Cons.prems(3) b b' n by (simp add: el_get_def)
    have z: "b \<noteq> z" using el_last_end [OF l] b(2) b' by auto
    show ?thesis using Cons.IH [OF b(6), of n] l b' Cons b b2 P z by simp
  qed
qed simp

text \<open>What \<open>p_insert\<close> does at a node whose children are given.\<close>

definition inserted :: "prep \<Rightarrow> prep \<Rightarrow> nat \<Rightarrow> nat \<Rightarrow> element \<Rightarrow> nat option \<Rightarrow> bool" where
  "inserted p p' c a r ch \<longleftrightarrow> a = pFresh p \<and> pFresh p' = Suc a \<and> c < a \<and> dom (pHeap p') = {..<Suc a} \<and>
     pHeap p' a = Some (r\<lparr>elParent := Some c, elNext := None\<rparr>) \<and>
     pHeap p' c = map_option (\<lambda>t. t\<lparr>elChild := ch\<rparr>) (pHeap p c) \<and> (\<forall>x < c. pHeap p' x = pHeap p x) \<and>
     agree_off c (pHeap p) (pHeap p') \<and> cur_node p' = cur_node p \<and> pMode p' = pMode p \<and> in_group p' = in_group p"

lemma p_insert_ok:
  assumes P: "framed P" and dm: "dom (pHeap p) = {..<pFresh p}" and c: "pHeap p c = Some t" "links P (pHeap p) c xs (elChild t)"
    and len: "length xs < pFresh p"
  shows "\<exists>p' ch. p_insert p (Some c) r = Inr (pFresh p, p') \<and> inserted p p' c (pFresh p) r ch \<and>
    last_slot P (pHeap p') c xs ch (pFresh p)"
proof -
  let ?a = "pFresh p" and ?h = "pHeap p"
  have ca: "c < ?a" using dm c(1) by (metis domI lessThan_iff)
  have new: "?h ?a = None" using dm by (metis domIff lessThan_iff less_irrefl)
  let ?r = "r\<lparr>elParent := Some c, elNext := None\<rparr>"
  let ?h1 = "?h(?a \<mapsto> ?r)"
  show ?thesis
  proof (cases xs)
    case Nil
    then have ch: "elChild t = None" using c(2) by simp
    let ?h2 = "?h1(c \<mapsto> t\<lparr>elChild := Some ?a\<rparr>)"
    let ?p = "p\<lparr>pHeap := ?h2, pFresh := Suc ?a\<rparr>"
    have "p_insert p (Some c) r = Inr (?a, ?p)"
      using c(1) ca ch by (simp add: p_insert_def Let_def el_insertChild_def el_get_def el_put_def)
    moreover have "inserted p ?p c ?a r (Some ?a)"
      using ca c(1) dm new by (auto simp: inserted_def agree_off_def)
    moreover have "last_slot P ?h2 c xs (Some ?a) ?a"
      using ca Nil by (auto simp: last_slot_def el_get_def gr0_conv_Suc dest!: less_imp_Suc_add)
    ultimately show ?thesis by auto
  next
    case (Cons x ys)
    obtain b z f where z: "elChild t = Some b" "el_last (Suc (length xs)) ?h b = Inr z" "?h z = Some f" "elParent f = Some c" "c < z" "elNext f = None"
      using links_last [OF c(2), of "Suc (length xs)"] Cons by auto
    have za: "z < ?a" using dm z(3) by (metis domI lessThan_iff)
    have l1: "el_last (Suc ?a) ?h1 b = Inr z"
      by (rule el_last_mono [OF z(2)]) (use len new in auto)
    let ?h2 = "?h1(z \<mapsto> f\<lparr>elNext := Some ?a\<rparr>)"
    let ?p = "p\<lparr>pHeap := ?h2, pFresh := Suc ?a\<rparr>"
    have "p_insert p (Some c) r = Inr (?a, ?p)"
      using c(1) ca z l1 za by (simp add: p_insert_def Let_def el_insertChild_def el_get_def el_put_def del: el_last.simps)
    moreover have "inserted p ?p c ?a r (Some b)"
      using ca c(1) dm new z za by (auto simp: inserted_def agree_off_def)
    moreover have "last_slot P ?h2 c xs (Some b) ?a"
      unfolding last_slot_def
    proof (intro conjI allI impI)
      fix h2 e y assume h2: "\<forall>y < ?a. h2 y = ?h2 y" "h2 ?a = Some e" "elParent e = Some c" "elNext e = None" "P h2 ?a e y"
      have old: "h2 y = (if y = z then Some (f\<lparr>elNext := Some ?a\<rparr>) else Some g)" if "?h y = Some g" for y g
        using h2(1) dm that by (metis domI fun_upd_apply lessThan_iff less_irrefl)
      have "agree_off c ?h h2" using old z(3-5) by (auto simp: agree_off_def)
      moreover have "\<forall>y f. ?h y = Some f \<longrightarrow> elParent f = Some c \<longrightarrow> c < y \<longrightarrow> h2 y = Some (f\<lparr>elNext := (if y = z then Some ?a else elNext f)\<rparr>)"
        using old z(3) by auto
      ultimately show "links P h2 c (xs @ [y]) (Some b)"
        using links_extend [OF P c(2) _ _ _ _ h2(2-4) ca h2(5), of "Suc (length xs)" z] z(1,2) Cons by simp
    next
      fix h2 e fuel assume h2: "\<forall>y < ?a. h2 y = ?h2 y" "h2 ?a = Some e" "elNext e = None" "Suc (length xs) < fuel"
      have old: "h2 y = (if y = z then Some (f\<lparr>elNext := Some ?a\<rparr>) else Some g)" if "?h y = Some g" for y g
        using h2(1) dm that by (metis domI fun_upd_apply lessThan_iff less_irrefl)
      have "el_last (Suc (Suc (length xs))) h2 b = Inr ?a"
        by (rule el_last_upd [where g = "f\<lparr>elNext := Some ?a\<rparr>" and e = e, OF z(2)]) (use old z(3) h2(2,3) in auto)
      then have "el_last fuel h2 b = Inr ?a" by (rule el_last_mono) (use h2(4) in auto)
      then show "\<exists>b'. Some b = Some b' \<and> el_last fuel h2 b' = Inr ?a" by simp
    qed
    ultimately show ?thesis by (intro exI [of _ ?p] exI [of _ "Some b"]) (simp del: fun_upd_apply)
  qed
qed

section \<open>Steps of the loop\<close>

lemma p_loop_step: "p_step c s p = Inr (Go p', rest) \<Longrightarrow> p_loop (c # s) p = p_loop rest p'"
  by simp

lemma p_step_char:
  assumes "add_terminal c c p = Inr (Go p')"
  shows "p_loop (print_char c @ rest) p = p_loop rest p'"
proof (cases "special c")
  case True
  then have "c \<notin> set ''wWsSdDtnrf0x''" unfolding special_def by auto
  then have "p_escape c p = add_terminal c c p" by (simp add: p_escape_def)
  then show ?thesis using True assms by (simp add: print_char_def p_step_def with_rest_def)
next
  case False
  then have n: "c \<notin> set (CHR 0x5C # ''.*+?{[]-(|)'')" unfolding special_def by auto
  have "p_step c rest p = with_rest rest (add_terminal c c p)" using n by (simp add: p_step_def)
  then show ?thesis using assms False by (simp add: print_char_def with_rest_def)
qed

text \<open>The state between two items of a sequence.\<close>

definition kids_state :: "(rx_heap \<Rightarrow> nat \<Rightarrow> element \<Rightarrow> 'x \<Rightarrow> bool) \<Rightarrow> prep \<Rightarrow> nat \<Rightarrow> elem_type \<Rightarrow> 'x list \<Rightarrow> bool" where
  "kids_state P p c ty xs \<longleftrightarrow> dom (pHeap p) = {..<pFresh p} \<and> length xs < pFresh p \<and>
     (\<exists>t. pHeap p c = Some t \<and> elType t = ty \<and> links P (pHeap p) c xs (elChild t))"

definition seq_state :: "prep \<Rightarrow> nat \<Rightarrow> rx list \<Rightarrow> bool" where
  "seq_state p c qs \<longleftrightarrow> cur_node p = Some c \<and> pMode p = IN_UNKNOWN \<and> kids_state rx_node p c TYPE_SEQUENCE qs"

text \<open>What a part of the text below \<open>c\<close> leaves as it is.\<close>

definition kept :: "nat \<Rightarrow> prep \<Rightarrow> prep \<Rightarrow> bool" where
  "kept c p p' \<longleftrightarrow> (\<forall>x < c. pHeap p' x = pHeap p x) \<and> (\<exists>ch. pHeap p' c = map_option (\<lambda>t. t\<lparr>elChild := ch\<rparr>) (pHeap p c)) \<and>
     pFresh p \<le> pFresh p' \<and> in_group p' = in_group p"

lemma left_refl: "kept c p p"
proof -
  have "pHeap p c = map_option (\<lambda>t. t\<lparr>elChild := elChild (the (pHeap p c))\<rparr>) (pHeap p c)" by (cases "pHeap p c") auto
  then show ?thesis unfolding kept_def by blast
qed

lemma left_trans: "kept c p p1 \<Longrightarrow> kept c p1 p2 \<Longrightarrow> kept c p p2"
  unfolding kept_def by (auto simp: option.map_comp comp_def)

text \<open>An item: its node \<open>a\<close> is the last child of \<open>c\<close>.\<close>

definition item_state :: "prep \<Rightarrow> prep \<Rightarrow> nat \<Rightarrow> rx list \<Rightarrow> nat \<Rightarrow> rx \<Rightarrow> bool" where
  "item_state p p' c qs a r \<longleftrightarrow> cur_node p' = Some c \<and> pMode p' = IN_UNKNOWN \<and> kept c p p' \<and> c < a \<and> a < pFresh p' \<and>
     pFresh p' = pFresh p + rx_nodes r \<and> dom (pHeap p') = {..<pFresh p'} \<and> length qs < pFresh p \<and>
     (\<exists>e t. pHeap p' a = Some e \<and> elParent e = Some c \<and> elNext e = None \<and> rx_node (pHeap p') a e r \<and>
        pHeap p' c = Some t \<and> elType t = TYPE_SEQUENCE \<and> last_slot rx_node (pHeap p') c qs (elChild t) a)"

lemma item_seq:
  assumes "item_state p p' c qs a r"
  shows "seq_state p' c (qs @ [r])"
proof -
  obtain e t where e: "pHeap p' a = Some e" "elParent e = Some c" "elNext e = None" "rx_node (pHeap p') a e r"
    "pHeap p' c = Some t" "elType t = TYPE_SEQUENCE" "last_slot rx_node (pHeap p') c qs (elChild t) a"
    using assms unfolding item_state_def by blast
  have "links rx_node (pHeap p') c (qs @ [r]) (elChild t)" using e unfolding last_slot_def by blast
  moreover have "0 < rx_nodes r" by (cases r) auto
  ultimately show ?thesis using assms e(5,6) by (auto simp: item_state_def seq_state_def kids_state_def)
qed

lemma last_slot_agree: "last_slot P h c xs ch a \<Longrightarrow> \<forall>x < a. h' x = h x \<Longrightarrow> last_slot P h' c xs ch a"
  unfolding last_slot_def by simp

text \<open>A repetition behind an item.\<close>

fun set_q :: "rx \<Rightarrow> int \<Rightarrow> int \<Rightarrow> rx" where
  "set_q (Term a b _ _) mn mx = Term a b mn mx"
| "set_q (Class neg ts _ _) mn mx = Class neg ts mn mx"
| "set_q (Group alts _ _) mn mx = Group alts mn mx"

lemma set_q_nodes [simp]: "rx_nodes (set_q r mn mx) = rx_nodes r"
  by (cases r) auto

lemma set_q_set_q [simp]: "set_q (set_q r a b) mn mx = set_q r mn mx"
  by (cases r) auto

lemma rx_node_set_q:
  assumes "rx_node h a e r" "\<forall>x > a. h' x = h x"
  shows "rx_node h' a (e\<lparr>mRepeatMin := mn, mRepeatMax := mx\<rparr>) (set_q r mn mx)"
proof -
  have "rx_node h' a e r" by (rule rx_node_above [OF assms])
  then show ?thesis by (cases r) (simp_all add: term_node_def)
qed

lemma rx_node_repeatable: "rx_node h a e r \<Longrightarrow> repeatable (elType e)"
  by (cases r) (auto simp: term_node_def repeatable_def)

lemma item_last_child:
  assumes "item_state p p' c qs a r"
  shows "el_getLastChild (pFresh p') (pHeap p') (cur_node p') = Inr (Some a)"
proof -
  obtain e t where e: "pHeap p' a = Some e" "elNext e = None"
    "pHeap p' c = Some t" "last_slot rx_node (pHeap p') c qs (elChild t) a"
    using assms unfolding item_state_def by blast
  have "0 < rx_nodes r" by (cases r) auto
  then have len: "Suc (length qs) < pFresh p'" using assms by (auto simp: item_state_def)
  obtain b where "elChild t = Some b" "el_last (pFresh p') (pHeap p') b = Inr a"
    using e(4) e(1,2) len unfolding last_slot_def by blast
  then show ?thesis using assms e(3) by (simp add: item_state_def el_getLastChild_def el_get_def)
qed

lemma item_update:
  assumes i: "item_state p p' c qs a r" and e: "pHeap p' a = Some e"
  shows "item_state p (p'\<lparr>pHeap := (pHeap p')(a \<mapsto> e\<lparr>mRepeatMin := mn, mRepeatMax := mx\<rparr>)\<rparr>) c qs a (set_q r mn mx)"
proof -
  obtain t where t: "elParent e = Some c" "elNext e = None" "rx_node (pHeap p') a e r"
    "pHeap p' c = Some t" "elType t = TYPE_SEQUENCE" "last_slot rx_node (pHeap p') c qs (elChild t) a"
    using i e unfolding item_state_def by auto
  let ?h = "(pHeap p')(a \<mapsto> e\<lparr>mRepeatMin := mn, mRepeatMax := mx\<rparr>)"
  have ca: "c < a" "a < pFresh p'" using i by (simp_all add: item_state_def)
  have "rx_node ?h a (e\<lparr>mRepeatMin := mn, mRepeatMax := mx\<rparr>) (set_q r mn mx)"
    by (rule rx_node_set_q [OF t(3)]) simp
  moreover have "last_slot rx_node ?h c qs (elChild t) a" by (rule last_slot_agree [OF t(6)]) simp
  moreover have "kept c p (p'\<lparr>pHeap := ?h\<rparr>)" using i ca by (auto simp: item_state_def kept_def)
  moreover have "dom ?h = {..<pFresh p'}" using i ca by (auto simp: item_state_def)
  ultimately show ?thesis using i t(1,2,4,5) ca by (simp add: item_state_def)
qed

lemma p_repeat_item:
  assumes "item_state p p' c qs a r"
  shows "\<exists>p2. p_repeat m mn mx p' = Inr (Go p2) \<and> item_state p p2 c qs a (set_q r mn mx)"
proof -
  obtain e where e: "pHeap p' a = Some e" "rx_node (pHeap p') a e r" using assms unfolding item_state_def by blast
  have "pMode p' \<noteq> IN_CLASS" using assms by (simp add: item_state_def)
  then show ?thesis using item_update [OF assms e(1), where mn = mn and mx = mx] item_last_child [OF assms] e rx_node_repeatable [OF e(2)]
    by (simp add: p_repeat_def el_put_def el_get_def)
qed

lemma digit_char: "d < 10 \<Longrightarrow> digit_val (''0123456789'' ! d) = Some (int d) \<and> ''0123456789'' ! d \<noteq> CHR ''}'' \<and> ''0123456789'' ! d \<noteq> CHR '',''"
proof -
  assume "d < 10"
  then have "d \<in> set [0, 1, 2, 3, 4, 5, 6, 7, 8, 9]" by auto
  then show ?thesis by (auto simp: digit_val_def)
qed

lemma p_range_loop_digit:
  assumes "d < 10" "int (10 * n + d) \<le> int_max"
  shows "p_range_loop (''0123456789'' ! d # rest) False (int n) mx = p_range_loop rest False (int (10 * n + d)) mx"
    "p_range_loop (''0123456789'' ! d # rest) True mn (int n) = p_range_loop rest True mn (int (10 * n + d))"
  using digit_char [OF assms(1)] assms(2) by (simp_all add: int_res_def int_max_def algebra_simps)

lemma p_range_loop_dec1:
  "int n \<le> int_max \<Longrightarrow> p_range_loop (dec n @ rest) False 0 mx = p_range_loop rest False (int n) mx"
proof (induction n arbitrary: rest rule: dec.induct)
  case (1 n)
  show ?case
  proof (cases "n < 10")
    case True
    then show ?thesis using p_range_loop_digit(1) [of n 0] 1(2) by (subst dec.simps) simp
  next
    case False
    have "n = 10 * (n div 10) + n mod 10" by simp
    moreover have "int (n div 10) \<le> int_max" using 1(2) by (simp add: zdiv_int int_max_def)
    ultimately show ?thesis using p_range_loop_digit(1) [of "n mod 10" "n div 10"] 1(1) [OF False] 1(2)
      by (subst dec.simps) (simp add: False)
  qed
qed

lemma p_range_loop_dec2:
  "int n \<le> int_max \<Longrightarrow> p_range_loop (dec n @ rest) True mn 0 = p_range_loop rest True mn (int n)"
proof (induction n arbitrary: rest rule: dec.induct)
  case (1 n)
  show ?case
  proof (cases "n < 10")
    case True
    then show ?thesis using p_range_loop_digit(2) [of n 0] 1(2) by (subst dec.simps) simp
  next
    case False
    have "n = 10 * (n div 10) + n mod 10" by simp
    moreover have "int (n div 10) \<le> int_max" using 1(2) by (simp add: zdiv_int int_max_def)
    ultimately show ?thesis using p_range_loop_digit(2) [of "n mod 10" "n div 10"] 1(1) [OF False] 1(2)
      by (subst dec.simps) (simp add: False)
  qed
qed

lemma p_range_item:
  assumes i: "item_state p p' c qs a r" and l: "p_range_loop s False 0 0 = Inr (RangeDone mn mx in_max rest)"
  shows "\<exists>p2. p_range s p' = Inr (Go p2, rest) \<and> item_state p p2 c qs a (set_q r mn (if in_max then mx else mn))"
proof -
  have mode: "pMode p' \<noteq> IN_CLASS" using i by (simp add: item_state_def)
  obtain p1 where p1: "p_repeat [] 0 0 p' = Inr (Go p1)" "item_state p p1 c qs a (set_q r 0 0)"
    using p_repeat_item [OF i] by blast
  obtain e where e: "pHeap p1 a = Some e" using p1(2) unfolding item_state_def by blast
  show ?thesis using item_update [OF p1(2) e, where mn = mn and mx = "if in_max then mx else mn"]
      item_last_child [OF p1(2)] p1(1) mode l e
    by (simp add: p_range_def el_put_def el_get_def)
qed

lemma p_quantifier:
  assumes i: "item_state p p' c qs a r" and q: "q_ok mn mx" and r: "set_q r 1 1 = r"
  shows "\<exists>p2. p_loop (print_q mn mx @ rest) p' = p_loop rest p2 \<and> item_state p p2 c qs a (set_q r mn mx)"
proof -
  have rep: "\<exists>p2. p_loop (k # rest) p' = p_loop rest p2 \<and> item_state p p2 c qs a (set_q r mn mx)"
    if "p_step k rest p' = with_rest rest (p_repeat m mn mx p')" for k m
    using p_repeat_item [OF i, of m mn mx] that by (auto simp: with_rest_def)
  consider (one) "mn = 1" "mx = 1" | (star) "mn = 0" "mx = -1" | (plus) "mn = 1" "mx = -1" | (opt) "mn = 0" "mx = 1"
    | (range) "\<not> (mn = 1 \<and> mx = 1)" "\<not> (mn = 0 \<and> mx = -1)" "\<not> (mn = 1 \<and> mx = -1)" "\<not> (mn = 0 \<and> mx = 1)"
        "0 \<le> mn" "mn \<le> int_max" "0 \<le> mx" "mx \<le> int_max"
    using q by (auto simp: q_ok_def)
  then show ?thesis
  proof cases
    case one
    then show ?thesis using i r by (auto simp: print_q_def)
  next
    case star
    then show ?thesis using rep [of "CHR ''*''"] by (simp add: print_q_def p_step_def)
  next
    case plus
    then show ?thesis using rep [of "CHR ''+''"] by (simp add: print_q_def p_step_def)
  next
    case opt
    then show ?thesis using rep [of "CHR ''?''"] by (simp add: print_q_def p_step_def)
  next
    case range
    obtain s where s: "print_q mn mx = CHR ''{'' # s"
      and l: "p_range_loop (s @ rest) False 0 0 = Inr (RangeDone mn (if mn = mx then 0 else mx) (mn \<noteq> mx) rest)"
    proof (cases "mn = mx")
      case True
      have "p_range_loop (dec (nat mn) @ ''}'' @ rest) False 0 0 = p_range_loop (''}'' @ rest) False (int (nat mn)) 0"
        by (rule p_range_loop_dec1) (use range in simp)
      then show thesis using that [of "dec (nat mn) @ ''}''"] True range by (simp add: print_q_def)
    next
      case False
      have "p_range_loop (dec (nat mn) @ '','' @ dec (nat mx) @ ''}'' @ rest) False 0 0 =
          p_range_loop ('','' @ dec (nat mx) @ ''}'' @ rest) False (int (nat mn)) 0"
        by (rule p_range_loop_dec1) (use range in simp)
      also have "\<dots> = p_range_loop (dec (nat mx) @ ''}'' @ rest) True (int (nat mn)) 0" by simp
      also have "\<dots> = p_range_loop (''}'' @ rest) True (int (nat mn)) (int (nat mx))"
        by (rule p_range_loop_dec2) (use range in simp)
      finally show thesis using that [of "dec (nat mn) @ '','' @ dec (nat mx) @ ''}''"] False range by (simp add: print_q_def)
    qed
    obtain p2 where "p_range (s @ rest) p' = Inr (Go p2, rest)" "item_state p p2 c qs a (set_q r mn mx)"
      using p_range_item [OF i l] by (auto split: if_splits)
    then show ?thesis using s by (auto simp: p_step_def)
  qed
qed

section \<open>Terminals and classes\<close>

lemma inserted_kept: "inserted p p' c a r ch \<Longrightarrow> kept c p p'"
  unfolding inserted_def kept_def by auto

text \<open>A terminal in a sequence.\<close>

lemma add_terminal_item:
  assumes s: "seq_state p c qs"
  shows "\<exists>p'. add_terminal x y p = Inr (Go p') \<and> item_state p p' c qs (pFresh p) (Term x y 1 1)"
proof -
  obtain t where t: "cur_node p = Some c" "pMode p = IN_UNKNOWN" "dom (pHeap p) = {..<pFresh p}" "length qs < pFresh p"
    "pHeap p c = Some t" "elType t = TYPE_SEQUENCE" "links rx_node (pHeap p) c qs (elChild t)"
    using s by (auto simp: seq_state_def kids_state_def)
  let ?r = "(Element_new TYPE_TERMINAL)\<lparr>mTermStartChar := Some x, mTermEndChar := Some y\<rparr>"
  obtain p' ch where p': "p_insert p (Some c) ?r = Inr (pFresh p, p')" "inserted p p' c (pFresh p) ?r ch"
    "last_slot rx_node (pHeap p') c qs ch (pFresh p)"
    using p_insert_ok [OF framed_nodes(2) t(3,5,7,4)] by blast
  have "item_state p p' c qs (pFresh p) (Term x y 1 1)"
    using p'(2,3) t inserted_kept [OF p'(2)] by (auto simp: item_state_def inserted_def term_node_def Element_new_def)
  then show ?thesis using p'(1) t(1,2) by (simp add: add_terminal_def)
qed

definition class_state :: "prep \<Rightarrow> nat \<Rightarrow> (char \<times> char) list \<Rightarrow> bool" where
  "class_state p a ts \<longleftrightarrow> cur_node p = Some a \<and> pMode p = IN_CLASS \<and> kids_state term_node p a TYPE_CLASS ts"

lemma class_term:
  assumes s: "class_state p a ts"
  shows "\<exists>p'. p_loop (print_term u @ rest) p = p_loop rest p' \<and> class_state p' a (ts @ [u]) \<and> kept a p p' \<and>
    pFresh p' = Suc (pFresh p)"
proof -
  obtain x y where u: "u = (x, y)" by (cases u)
  obtain t where t: "cur_node p = Some a" "pMode p = IN_CLASS" "dom (pHeap p) = {..<pFresh p}" "length ts < pFresh p"
    "pHeap p a = Some t" "elType t = TYPE_CLASS" "links term_node (pHeap p) a ts (elChild t)"
    using s by (auto simp: class_state_def kids_state_def)
  let ?z = "pFresh p"
  let ?r = "(Element_new TYPE_TERMINAL)\<lparr>mTermStartChar := Some x, mTermEndChar := Some x\<rparr>"
  obtain p1 ch where p1: "p_insert p (Some a) ?r = Inr (?z, p1)" "inserted p p1 a ?z ?r ch"
    "last_slot term_node (pHeap p1) a ts ch ?z"
    using p_insert_ok [OF framed_nodes(1) t(3,5,7,4)] by blast
  have add: "add_terminal x x p = Inr (Go p1)" using p1(1) t(1,2) by (simp add: add_terminal_def)
  let ?e = "?r\<lparr>elParent := Some a, elNext := None\<rparr>"
  have f: "pFresh p1 = Suc ?z" "a < ?z" "dom (pHeap p1) = {..<Suc ?z}" "pHeap p1 ?z = Some ?e"
    "pHeap p1 a = Some (t\<lparr>elChild := ch\<rparr>)" "cur_node p1 = Some a" "pMode p1 = IN_CLASS"
    using p1(2) t(1,2,5) by (simp_all add: inserted_def)
  have links: "links term_node h2 a (ts @ [(x, w)]) ch"
    if "\<forall>b < ?z. h2 b = pHeap p1 b" "h2 ?z = Some (?e\<lparr>mTermEndChar := Some w\<rparr>)" for h2 w
    using p1(3) that unfolding last_slot_def by (auto simp: term_node_def Element_new_def)
  show ?thesis
  proof (cases "x = y")
    case True
    have "links term_node (pHeap p1) a (ts @ [(x, x)]) ch" by (rule links) (use f(4) in simp_all)
    then have "class_state p1 a (ts @ [(x, x)])" using f t(4,6) by (simp add: class_state_def kids_state_def)
    then show ?thesis using True u p_step_char [OF add] inserted_kept [OF p1(2)] f(1) by (auto simp: print_term_def)
  next
    case False
    obtain b where b: "ch = Some b" "el_last (Suc ?z) (pHeap p1) b = Inr ?z"
      using last_slot_last [OF p1(3) f(4), of "Suc ?z"] t(4) by auto
    have last: "el_getLastChild (pFresh p1) (pHeap p1) (cur_node p1) = Inr (Some ?z)"
      using b f(1,5,6) by (simp add: el_getLastChild_def el_get_def del: el_last.simps)
    let ?p2 = "p1\<lparr>pMode := IN_CLASS_THRU\<rparr>"
    have dash: "p_loop (CHR ''-'' # s) p1 = p_loop s ?p2" for s
      using last f(4,7) by (simp add: p_step_def p_dash_def with_rest_def el_get_def el_char_def)
    let ?p3 = "p1\<lparr>pHeap := (pHeap p1)(?z \<mapsto> ?e\<lparr>mTermEndChar := Some y\<rparr>)\<rparr>"
    have "add_terminal y y ?p2 = Inr (Go ?p3)"
      using last f(4,7) by (simp add: add_terminal_def el_put_def el_get_def)
    then have "p_loop (print_char y @ rest) ?p2 = p_loop rest ?p3" by (rule p_step_char)
    then have "p_loop (print_term u @ rest) p = p_loop rest ?p3"
      using p_step_char [OF add, of "CHR ''-'' # print_char y @ rest"] dash False u by (simp add: print_term_def)
    moreover have "links term_node (pHeap ?p3) a (ts @ [(x, y)]) ch" by (rule links) simp_all
    then have "class_state ?p3 a (ts @ [(x, y)])"
      using f t(4,6) by (auto simp: class_state_def kids_state_def)
    moreover have "kept a p ?p3" using inserted_kept [OF p1(2)] f(2) by (simp add: kept_def)
    ultimately show ?thesis using u f(1) by (intro exI [of _ ?p3]) simp
  qed
qed

lemma class_terms:
  "class_state p a ts \<Longrightarrow> \<exists>p'. p_loop (concat (map print_term us) @ rest) p = p_loop rest p' \<and> class_state p' a (ts @ us) \<and>
    kept a p p' \<and> pFresh p' = pFresh p + length us"
proof (induction us arbitrary: p ts)
  case Nil
  then show ?case using left_refl by auto
next
  case (Cons u us)
  obtain p1 where p1: "p_loop (print_term u @ concat (map print_term us) @ rest) p = p_loop (concat (map print_term us) @ rest) p1"
    "class_state p1 a (ts @ [u])" "kept a p p1" "pFresh p1 = Suc (pFresh p)"
    using class_term [OF Cons.prems] by blast
  obtain p2 where p2: "p_loop (concat (map print_term us) @ rest) p1 = p_loop rest p2" "class_state p2 a ((ts @ [u]) @ us)"
    "kept a p1 p2" "pFresh p2 = pFresh p1 + length us"
    using Cons.IH [OF p1(2)] by blast
  show ?case using p1 p2 left_trans [OF p1(3) p2(3)] by (intro exI [of _ p2]) simp
qed

lemma not_caret: "hd (concat (map print_term us) @ CHR '']'' # rest) \<noteq> CHR ''^''"
  by (cases us) (auto simp: print_term_def print_char_def special_def)

lemma class_item:
  assumes s: "seq_state p c qs"
  shows "\<exists>p'. p_loop (''['' @ (if neg then ''^'' else []) @ concat (map print_term us) @ '']'' @ rest) p = p_loop rest p' \<and>
    item_state p p' c qs (pFresh p) (Class neg us 1 1)"
proof -
  obtain t where t: "cur_node p = Some c" "pMode p = IN_UNKNOWN" "dom (pHeap p) = {..<pFresh p}" "length qs < pFresh p"
    "pHeap p c = Some t" "elType t = TYPE_SEQUENCE" "links rx_node (pHeap p) c qs (elChild t)"
    using s by (auto simp: seq_state_def kids_state_def)
  let ?a = "pFresh p" and ?r = "(Element_new TYPE_CLASS)\<lparr>mClassInvert := neg\<rparr>" and ?p = "p\<lparr>pMode := IN_CLASS\<rparr>"
  obtain p1 ch where p1: "p_insert ?p (Some c) ?r = Inr (?a, p1)" "inserted ?p p1 c ?a ?r ch"
    "last_slot rx_node (pHeap p1) c qs ch ?a"
    using p_insert_ok [OF framed_nodes(2), of ?p c t qs ?r] t by auto
  let ?e = "?r\<lparr>elParent := Some c, elNext := None\<rparr>" and ?p1 = "p1\<lparr>cur_node := Some ?a\<rparr>"
  have f: "pFresh p1 = Suc ?a" "c < ?a" "dom (pHeap p1) = {..<Suc ?a}" "pHeap p1 ?a = Some ?e"
    "pHeap p1 c = Some (t\<lparr>elChild := ch\<rparr>)" "pMode p1 = IN_CLASS" "in_group p1 = in_group p"
    using p1(2) t(5) by (simp_all add: inserted_def)
  have opn: "p_class_open neg p = Inr (Go ?p1)" using p1(1) t(1,2) by (simp add: p_class_open_def)
  have start: "p_loop (''['' @ (if neg then ''^'' else []) @ concat (map print_term us) @ '']'' @ rest) p =
      p_loop (concat (map print_term us) @ '']'' @ rest) ?p1"
    using opn t(2) not_caret [of us rest] by (cases neg) (simp_all add: p_step_def with_rest_def)
  have "class_state ?p1 ?a []" using f by (simp add: class_state_def kids_state_def Element_new_def)
  from class_terms [OF this, of us "'']'' @ rest"]
  obtain p2 where p2: "p_loop (concat (map print_term us) @ '']'' @ rest) ?p1 = p_loop ('']'' @ rest) p2" "class_state p2 ?a us"
    "kept ?a ?p1 p2" "pFresh p2 = Suc ?a + length us"
    using f(1) by auto
  obtain ch2 where k: "\<forall>x < ?a. pHeap p2 x = pHeap p1 x" "pHeap p2 ?a = Some (?e\<lparr>elChild := ch2\<rparr>)" "in_group p2 = in_group p"
    using p2(3) f(4,7) by (auto simp: kept_def)
  have st: "cur_node p2 = Some ?a" "pMode p2 = IN_CLASS" "dom (pHeap p2) = {..<pFresh p2}" "links term_node (pHeap p2) ?a us ch2"
    using p2(2) k(2) by (auto simp: class_state_def kids_state_def)
  let ?p3 = "p2\<lparr>cur_node := Some c, pMode := IN_UNKNOWN\<rparr>"
  have clos: "p_loop ('']'' @ rest) p2 = p_loop rest ?p3"
    using st(1,2) k(2) by (simp add: p_step_def p_class_close_def with_rest_def el_get_def)
  have "kept c p ?p3"
    using p1(2) k(1,3) f(2) p2(4) unfolding inserted_def kept_def by auto
  moreover have "rx_node (pHeap p2) ?a (?e\<lparr>elChild := ch2\<rparr>) (Class neg us 1 1)"
    using st(4) by (simp add: Element_new_def)
  moreover have "last_slot rx_node (pHeap p2) c qs ch ?a" by (rule last_slot_agree [OF p1(3) k(1)])
  ultimately have "item_state p ?p3 c qs ?a (Class neg us 1 1)"
    using st(3) k f(2,5) t(4,6) p2(4) by (simp add: item_state_def)
  then show ?thesis using start p2(1) clos by auto
qed

section \<open>Groups\<close>

lemma kept_older: "kept b p p' \<Longrightarrow> c < b \<Longrightarrow> kept c p p'"
proof -
  assume k: "kept b p p'" "c < b"
  then have e: "pHeap p' c = pHeap p c" by (simp add: kept_def)
  obtain ch where "pHeap p c = map_option (\<lambda>t. t\<lparr>elChild := ch\<rparr>) (pHeap p c)"
    using left_refl [of c p] by (auto simp: kept_def)
  then show ?thesis using k e by (auto simp: kept_def)
qed

text \<open>Inside a group: \<open>b\<close> is the last alternative of \<open>o\<close>, still empty, behind those in \<open>dn\<close>.\<close>

definition alt_state :: "prep \<Rightarrow> nat \<Rightarrow> rx list list \<Rightarrow> nat \<Rightarrow> bool" where
  "alt_state p n dn b \<longleftrightarrow> cur_node p = Some b \<and> pMode p = IN_UNKNOWN \<and> dom (pHeap p) = {..<pFresh p} \<and>
     0 < in_group p \<and> n < b \<and> Suc (length dn) < pFresh p \<and>
     (\<exists>f t. pHeap p b = Some f \<and> elParent f = Some n \<and> elNext f = None \<and> elType f = TYPE_SEQUENCE \<and> elChild f = None \<and>
        pHeap p n = Some t \<and> elType t = TYPE_OR \<and> last_slot seq_node (pHeap p) n dn (elChild t) b)"

text \<open>At the end of the last alternative.\<close>

definition alts_end :: "prep \<Rightarrow> nat \<Rightarrow> rx list list \<Rightarrow> bool" where
  "alts_end p n alts \<longleftrightarrow> pMode p = IN_UNKNOWN \<and> kids_state seq_node p n TYPE_OR alts \<and>
     (\<exists>b f. cur_node p = Some b \<and> n < b \<and> pHeap p b = Some f \<and> elParent f = Some n)"

definition parses :: "rx list \<Rightarrow> bool" where
  "parses rs \<longleftrightarrow> (\<forall>p c qs rest. seq_state p c qs \<longrightarrow> 0 \<le> in_group p \<longrightarrow>
     (\<exists>p'. p_loop (print_seq rs @ rest) p = p_loop rest p' \<and> seq_state p' c (qs @ rs) \<and> kept c p p' \<and>
        pFresh p' = pFresh p + seq_nodes rs))"

lemma alt_parse:
  assumes s: "alt_state p n dn b" and r: "parses rs"
  shows "\<exists>p'. p_loop (print_seq rs @ rest) p = p_loop rest p' \<and> alts_end p' n (dn @ [rs]) \<and> kept n p p' \<and>
    pFresh p' = pFresh p + seq_nodes rs"
proof -
  obtain f t where f: "pHeap p b = Some f" "elParent f = Some n" "elNext f = None" "elType f = TYPE_SEQUENCE" "elChild f = None"
    "pHeap p n = Some t" "elType t = TYPE_OR" "last_slot seq_node (pHeap p) n dn (elChild t) b"
    using s by (auto simp: alt_state_def)
  have b: "n < b" "cur_node p = Some b" "b < pFresh p" using s f(1) by (auto simp: alt_state_def)
  have "seq_state p b []" using s f by (auto simp: alt_state_def seq_state_def kids_state_def)
  then obtain p1 where p1: "p_loop (print_seq rs @ rest) p = p_loop rest p1" "seq_state p1 b rs" "kept b p p1"
    "pFresh p1 = pFresh p + seq_nodes rs"
    using r [unfolded parses_def, rule_format, of p b "[]"] s by (auto simp: alt_state_def)
  obtain ch where k: "\<forall>x < b. pHeap p1 x = pHeap p x" "pHeap p1 b = Some (f\<lparr>elChild := ch\<rparr>)"
    using p1(3) f(1) by (auto simp: kept_def)
  have "seq_node (pHeap p1) b (f\<lparr>elChild := ch\<rparr>) rs"
    using p1(2) k(2) f(4) by (auto simp: seq_state_def kids_state_def seq_node_def)
  then have "links seq_node (pHeap p1) n (dn @ [rs]) (elChild t)"
    using last_slot_links [OF f(8) k(1,2)] f(2,3) by simp
  then have "alts_end p1 n (dn @ [rs])"
    using p1(2,4) k b f s by (auto simp: alts_end_def kids_state_def seq_state_def alt_state_def)
  then show ?thesis using p1 kept_older [OF p1(3) b(1)] by blast
qed

lemma alts_parse:
  "alt_state p n dn b \<Longrightarrow> \<forall>rs \<in> set (rs # alts). parses rs \<Longrightarrow>
    \<exists>p'. p_loop (bars (map print_seq (rs # alts)) @ rest) p = p_loop rest p' \<and> alts_end p' n (dn @ rs # alts) \<and> kept n p p' \<and>
      pFresh p' = pFresh p + seq_nodes rs + sum_list (map (\<lambda>rs. Suc (seq_nodes rs)) alts)"
proof (induction alts arbitrary: p dn b rs)
  case Nil
  then show ?case using alt_parse [OF Nil(1), of rs rest] by simp
next
  case (Cons rs2 alts)
  let ?rest = "''|'' @ bars (map print_seq (rs2 # alts)) @ rest"
  obtain p1 where p1: "p_loop (print_seq rs @ ?rest) p = p_loop ?rest p1" "alts_end p1 n (dn @ [rs])" "kept n p p1"
    "pFresh p1 = pFresh p + seq_nodes rs"
    using alt_parse [OF Cons.prems(1), of rs ?rest] Cons.prems(2) by auto
  have g: "0 < in_group p1" using p1(3) Cons.prems(1) by (simp add: kept_def alt_state_def)
  obtain b1 f1 t where e: "pMode p1 = IN_UNKNOWN" "dom (pHeap p1) = {..<pFresh p1}" "length (dn @ [rs]) < pFresh p1"
    "pHeap p1 n = Some t" "elType t = TYPE_OR" "links seq_node (pHeap p1) n (dn @ [rs]) (elChild t)"
    "cur_node p1 = Some b1" "pHeap p1 b1 = Some f1" "elParent f1 = Some n"
    using p1(2) by (auto simp: alts_end_def kids_state_def)
  obtain p2 ch where p2: "p_insert p1 (Some n) (Element_new TYPE_SEQUENCE) = Inr (pFresh p1, p2)"
    "inserted p1 p2 n (pFresh p1) (Element_new TYPE_SEQUENCE) ch" "last_slot seq_node (pHeap p2) n (dn @ [rs]) ch (pFresh p1)"
    using p_insert_ok [OF framed_nodes(3) e(2,4,6,3)] by blast
  let ?p3 = "p2\<lparr>cur_node := Some (pFresh p1)\<rparr>"
  have bar: "p_loop ?rest p1 = p_loop (bars (map print_seq (rs2 # alts)) @ rest) ?p3"
    using g e(7-9) p2(1) by (simp add: p_step_def p_bar_def with_rest_def el_get_def)
  have "alt_state ?p3 n (dn @ [rs]) (pFresh p1)"
    using p2(2,3) e g by (auto simp: alt_state_def inserted_def Element_new_def)
  from Cons.IH [OF this, of rs2] Cons.prems(2)
  obtain p4 where p4: "p_loop (bars (map print_seq (rs2 # alts)) @ rest) ?p3 = p_loop rest p4"
    "alts_end p4 n ((dn @ [rs]) @ rs2 # alts)" "kept n ?p3 p4"
    "pFresh p4 = pFresh ?p3 + seq_nodes rs2 + sum_list (map (\<lambda>rs. Suc (seq_nodes rs)) alts)"
    by auto
  have "kept n p1 ?p3" using inserted_kept [OF p2(2)] by (simp add: kept_def)
  then have "kept n p p4" using left_trans [OF left_trans [OF p1(3)] p4(3)] by blast
  moreover have "pFresh p2 = Suc (pFresh p1)" using p2(2) by (simp add: inserted_def)
  ultimately show ?case using p1(1,4) bar p4 by (intro exI [of _ p4]) simp
qed

lemma group_item:
  assumes s: "seq_state p c qs" and g: "0 \<le> in_group p" and r: "\<forall>rs \<in> set alts. parses rs" "alts \<noteq> []"
  shows "\<exists>p'. p_loop (''('' @ bars (map print_seq alts) @ '')'' @ rest) p = p_loop rest p' \<and>
    item_state p p' c qs (pFresh p) (Group alts 1 1)"
proof -
  obtain t where t: "cur_node p = Some c" "pMode p = IN_UNKNOWN" "dom (pHeap p) = {..<pFresh p}" "length qs < pFresh p"
    "pHeap p c = Some t" "elType t = TYPE_SEQUENCE" "links rx_node (pHeap p) c qs (elChild t)"
    using s by (auto simp: seq_state_def kids_state_def)
  obtain rs alts' where alts: "alts = rs # alts'" using r(2) by (cases alts) auto
  let ?n = "pFresh p" and ?p = "p\<lparr>in_group := in_group p + 1\<rparr>"
  obtain p1 ch where p1: "p_insert ?p (Some c) (Element_new TYPE_OR) = Inr (?n, p1)"
    "inserted ?p p1 c ?n (Element_new TYPE_OR) ch" "last_slot rx_node (pHeap p1) c qs ch ?n"
    using p_insert_ok [OF framed_nodes(2), of ?p c t qs "Element_new TYPE_OR"] t by auto
  let ?e = "(Element_new TYPE_OR)\<lparr>elParent := Some c, elNext := None\<rparr>"
  have f: "pFresh p1 = Suc ?n" "c < ?n" "dom (pHeap p1) = {..<pFresh p1}" "pHeap p1 ?n = Some ?e"
    "pHeap p1 c = Some (t\<lparr>elChild := ch\<rparr>)" "pMode p1 = IN_UNKNOWN" "in_group p1 = in_group p + 1" "cur_node p1 = Some c"
    using p1(2) t by (simp_all add: inserted_def)
  obtain p2 ch2 where p2: "p_insert p1 (Some ?n) (Element_new TYPE_SEQUENCE) = Inr (Suc ?n, p2)"
    "inserted p1 p2 ?n (Suc ?n) (Element_new TYPE_SEQUENCE) ch2" "last_slot seq_node (pHeap p2) ?n [] ch2 (Suc ?n)"
    using p_insert_ok [OF framed_nodes(3) f(3,4), of "[]" "Element_new TYPE_SEQUENCE"] f(1) by (auto simp: Element_new_def)
  let ?p3 = "p2\<lparr>cur_node := Some (Suc ?n)\<rparr>"
  have opn: "p_loop (''('' @ s) p = p_loop s ?p3" for s
    using p1(1) p2(1) t(1,2) by (simp add: p_step_def p_open_def with_rest_def)
  have "alt_state ?p3 ?n [] (Suc ?n)"
    using p2(2,3) f g t(4) by (auto simp: alt_state_def inserted_def Element_new_def)
  from alts_parse [OF this, of rs alts' "'')'' @ rest"] r(1) alts
  obtain p4 where p4: "p_loop (bars (map print_seq alts) @ '')'' @ rest) ?p3 = p_loop ('')'' @ rest) p4"
    "alts_end p4 ?n alts" "kept ?n ?p3 p4" "pFresh p4 = pFresh p2 + seq_nodes rs + sum_list (map (\<lambda>rs. Suc (seq_nodes rs)) alts')"
    by auto
  have k2: "\<forall>x < ?n. pHeap p2 x = pHeap p1 x" "pHeap p2 ?n = Some (?e\<lparr>elChild := ch2\<rparr>)" "pFresh p2 = Suc (Suc ?n)" "in_group p2 = in_group p + 1"
    using p2(2) f by (simp_all add: inserted_def)
  obtain ch4 where k4: "\<forall>x < ?n. pHeap p4 x = pHeap p1 x" "pHeap p4 ?n = Some (?e\<lparr>elChild := ch4\<rparr>)" "in_group p4 = in_group p + 1"
    using p4(3) k2 by (auto simp: kept_def)
  obtain b f4 where e4: "cur_node p4 = Some b" "pHeap p4 b = Some f4" "elParent f4 = Some ?n" "pMode p4 = IN_UNKNOWN"
    "dom (pHeap p4) = {..<pFresh p4}" "links seq_node (pHeap p4) ?n alts ch4"
    using p4(2) k4(2) by (auto simp: alts_end_def kids_state_def)
  let ?p5 = "p4\<lparr>in_group := in_group p, cur_node := Some c\<rparr>"
  have clos: "p_loop ('')'' @ rest) p4 = p_loop rest ?p5"
    using e4 k4(2,3) g by (simp add: p_step_def p_close_def with_rest_def el_get_def)
  have "rx_node (pHeap p4) ?n (?e\<lparr>elChild := ch4\<rparr>) (Group alts 1 1)"
    unfolding rx_node_group using e4(6) by (simp add: Element_new_def)
  moreover have "last_slot rx_node (pHeap p4) c qs ch ?n" by (rule last_slot_agree [OF p1(3) k4(1)])
  moreover have "kept c p ?p5" using p1(2) k4(1) f(2) p4(4) k2(3) unfolding inserted_def kept_def by auto
  moreover have "pFresh p4 = pFresh p + rx_nodes (Group alts 1 1)"
    using p4(4) k2(3) alts by (simp add: seq_nodes_def [abs_def])
  ultimately have "item_state p ?p5 c qs ?n (Group alts 1 1)"
    using e4(5) k4(1,2) f(2,5) t(4,6) e4(4) by (simp add: item_state_def)
  then show ?thesis using opn p4(1) clos by auto
qed

section \<open>The whole text\<close>

definition item_parses :: "rx \<Rightarrow> bool" where
  "item_parses r \<longleftrightarrow> (\<forall>p c qs rest. seq_state p c qs \<longrightarrow> 0 \<le> in_group p \<longrightarrow>
     (\<exists>p' a. p_loop (print_rx r @ rest) p = p_loop rest p' \<and> item_state p p' c qs a r))"

lemma parsesD:
  assumes "parses rs" "seq_state p c qs" "0 \<le> in_group p"
  shows "\<exists>p'. p_loop (print_seq rs @ rest) p = p_loop rest p' \<and> seq_state p' c (qs @ rs) \<and> kept c p p' \<and>
    pFresh p' = pFresh p + seq_nodes rs"
  using assms unfolding parses_def by blast

lemma parses_items: "\<forall>r \<in> set rs. item_parses r \<Longrightarrow> parses rs"
proof (induction rs)
  case Nil
  then show ?case using left_refl by (auto simp: parses_def print_seq_def seq_nodes_def)
next
  case (Cons r rs)
  show ?case unfolding parses_def
  proof (intro allI impI)
    fix p c qs rest assume s: "seq_state p c qs" and g: "0 \<le> in_group p"
    obtain p1 a where p1: "p_loop (print_rx r @ print_seq rs @ rest) p = p_loop (print_seq rs @ rest) p1" "item_state p p1 c qs a r"
      using Cons.prems s g unfolding item_parses_def by fastforce
    have g1: "0 \<le> in_group p1" using p1(2) g by (simp add: item_state_def kept_def)
    obtain p2 where p2: "p_loop (print_seq rs @ rest) p1 = p_loop rest p2" "seq_state p2 c ((qs @ [r]) @ rs)" "kept c p1 p2"
      "pFresh p2 = pFresh p1 + seq_nodes rs"
      using Cons.IH Cons.prems item_seq [OF p1(2)] g1 unfolding parses_def by fastforce
    then show "\<exists>p'. p_loop (print_seq (r # rs) @ rest) p = p_loop rest p' \<and> seq_state p' c (qs @ r # rs) \<and> kept c p p' \<and>
        pFresh p' = pFresh p + seq_nodes (r # rs)"
      using p1 left_trans [of c p p1 p2] by (intro exI [of _ p2]) (simp add: item_state_def print_seq_def seq_nodes_def)
  qed
qed

lemma item_quantified:
  assumes "\<And>p c qs rest. seq_state p c qs \<Longrightarrow> 0 \<le> in_group p \<Longrightarrow>
      \<exists>p' a. p_loop (w @ rest) p = p_loop rest p' \<and> item_state p p' c qs a r"
    and "q_ok mn mx" "set_q r 1 1 = r" "print_rx (set_q r mn mx) = w @ print_q mn mx"
  shows "item_parses (set_q r mn mx)"
  unfolding item_parses_def
proof (intro allI impI)
  fix p c qs rest assume s: "seq_state p c qs" "0 \<le> in_group p"
  obtain p1 a where p1: "p_loop (w @ print_q mn mx @ rest) p = p_loop (print_q mn mx @ rest) p1" "item_state p p1 c qs a r"
    using assms(1) [OF s] by blast
  obtain p2 where "p_loop (print_q mn mx @ rest) p1 = p_loop rest p2" "item_state p p2 c qs a (set_q r mn mx)"
    using p_quantifier [OF p1(2) assms(2,3)] by blast
  then show "\<exists>p' a. p_loop (print_rx (set_q r mn mx) @ rest) p = p_loop rest p' \<and> item_state p p' c qs a (set_q r mn mx)"
    using p1(1) assms(4) by (intro exI [of _ p2] exI [of _ a]) simp
qed

lemma printable_parses: "printable r \<Longrightarrow> item_parses r"
proof (induction r)
  case (Term x y mn mx)
  have "item_parses (set_q (Term x y 1 1) mn mx)"
  proof (rule item_quantified [where w = "if x = y then print_char x else ''.''"])
    fix p c qs rest assume s: "seq_state p c qs"
    obtain p' where p': "add_terminal x y p = Inr (Go p')" "item_state p p' c qs (pFresh p) (Term x y 1 1)"
      using add_terminal_item [OF s] by blast
    have "p_loop ((if x = y then print_char x else ''.'') @ rest) p = p_loop rest p'"
    proof (cases "x = y")
      case True
      then show ?thesis using p_step_char [of x p p' rest] p'(1) by simp
    next
      case False
      then show ?thesis using Term p'(1) by (simp add: p_step_def with_rest_def)
    qed
    then show "\<exists>p' a. p_loop ((if x = y then print_char x else ''.'') @ rest) p = p_loop rest p' \<and> item_state p p' c qs a (Term x y 1 1)"
      using p'(2) by blast
  qed (use Term in simp_all)
  then show ?case by simp
next
  case (Class neg ts mn mx)
  have "item_parses (set_q (Class neg ts 1 1) mn mx)"
  proof (rule item_quantified [where w = "''['' @ (if neg then ''^'' else []) @ concat (map print_term ts) @ '']''"])
    fix p c qs rest assume s: "seq_state p c qs"
    show "\<exists>p' a. p_loop ((''['' @ (if neg then ''^'' else []) @ concat (map print_term ts) @ '']'') @ rest) p = p_loop rest p' \<and>
        item_state p p' c qs a (Class neg ts 1 1)"
      using class_item [OF s, of neg ts rest] by (metis append.assoc)
  qed (use Class in simp_all)
  then show ?case by simp
next
  case (Group alts mn mx)
  have r: "\<forall>rs \<in> set alts. parses rs" "alts \<noteq> []" using Group by (auto intro!: parses_items)
  have e: "(\<lambda>rs. concat (map print_rx rs)) = print_seq" by (simp add: fun_eq_iff print_seq_def)
  have "item_parses (set_q (Group alts 1 1) mn mx)"
  proof (rule item_quantified [where w = "''('' @ bars (map print_seq alts) @ '')''"])
    fix p c qs rest assume s: "seq_state p c qs" "0 \<le> in_group p"
    show "\<exists>p' a. p_loop ((''('' @ bars (map print_seq alts) @ '')'') @ rest) p = p_loop rest p' \<and>
        item_state p p' c qs a (Group alts 1 1)"
      using group_item [OF s r, of rest] by (metis append.assoc)
  qed (use Group.prems e in simp_all)
  then show ?case by simp
qed

lemma prepare_tree:
  assumes "\<forall>r \<in> set rs. printable r"
  shows "\<exists>r. rx_prepare Regex_new (print_seq rs) = Inr (kNoError, r) \<and> rx_tree r rs \<and> rxState r = STATE_PREPARED \<and>
    rxGroups r = vec_new \<and> rxFresh r = Suc (seq_nodes rs)"
proof -
  let ?e = "(Element_new TYPE_UNKNOWN)\<lparr>elType := TYPE_SEQUENCE\<rparr>"
  let ?p = "\<lparr>pHeap = [mRoot \<mapsto> ?e], pFresh = 1, cur_node = Some mRoot, pMode = IN_UNKNOWN, in_group = 0\<rparr>"
  have s: "seq_state ?p mRoot []" by (auto simp: seq_state_def kids_state_def Element_new_def mRoot_def)
  have "parses rs" using assms printable_parses by (intro parses_items) blast
  then obtain p where p: "p_loop (print_seq rs @ []) ?p = p_loop [] p" "seq_state p mRoot rs" "pFresh p = 1 + seq_nodes rs"
    using parsesD [OF _ s, of rs "[]"] by auto
  then show ?thesis
    by (auto simp: rx_prepare_def Regex_new_def el_put_def el_get_def rx_tree_def seq_state_def kids_state_def seq_node_def)
qed

end
