(* ===== verification/RegexProps.thy ===== *)
theory RegexProps
  imports RegexPrepare
begin

text \<open>
  What preparing an expression and matching a text against it gives, for every expression that has a
  text: the groups found and the acceptance are those of the recursive matcher of \<open>RegexTree\<close>, and this
  shows where the matching differs from what the expression means.
\<close>

section \<open>One match\<close>

text \<open>A new regex, one \<open>prepare\<close>, one \<open>parse\<close>, and the groups then kept.\<close>

definition rx_run :: "string \<Rightarrow> string \<Rightarrow> (bool \<times> group_data list) outcome" where
  "rx_run t s =
     andThen (rx_prepare Regex_new t) (\<lambda>(e, r).
     if e = kNoError then andThen (rx_parse r s) (\<lambda>(b, r). Inr (b, vec_list (rxGroups r)))
     else Inr (False, []))"

text \<open>
  C14: preparing the text of an expression gives no error and a tree that represents the expression.
\<close>

theorem rx_prepare_prints:
  assumes "\<forall>x \<in> set rs. printable x"
  shows "\<exists>r. rx_prepare Regex_new (print_seq rs) = Inr (kNoError, r) \<and> rx_tree r rs \<and> rxState r = STATE_PREPARED"
  using prepare_tree [OF assms] by auto

definition rx_sample :: "rx list" where
  "rx_sample =
     [Group [[Term (CHR ''a'') (CHR ''a'') 1 (-1), Term NUL (CHR 0x7F) 0 1], [Class True [(CHR ''0'', CHR ''9'')] 2 5]] 1 1,
      Term (CHR ''*'') (CHR ''*'') 1 1]"

lemma rx_sample_ok: "\<forall>x \<in> set rx_sample. printable x" "\<forall>x \<in> set rx_sample. rx_wf x" "rx_sample \<noteq> []"
  "seq_groups rx_sample = 1"
  by (simp_all add: rx_sample_def q_ok_def int_max_def NUL_def seq_groups_def rx_groups.simps alts_groups_def)

theorem rx_prepare_prints_witness:
  "\<exists>r. rx_prepare Regex_new (print_seq rx_sample) = Inr (kNoError, r) \<and> rx_tree r rx_sample \<and> rxState r = STATE_PREPARED"
  by (rule rx_prepare_prints [OF rx_sample_ok(1)])

lemma rx_run_seq:
  assumes "\<forall>x \<in> set rs. printable x" "rs \<noteq> []" "\<forall>x \<in> set rs. rx_wf x"
    and "length s < 2147483646" "seq_groups rs < 2 ^ 32 - 1"
  shows "rx_run (print_seq rs) s = andThen (m_seq s rs ([], 0, 0)) (\<lambda>(b, gs, p, bt). Inr (b, gs))"
proof -
  obtain r where r: "rx_prepare Regex_new (print_seq rs) = Inr (kNoError, r)" "rx_tree r rs" "rxState r = STATE_PREPARED"
    "rxGroups r = vec_new" using prepare_tree [OF assms(1)] by blast
  have "sim (\<lambda>(b, r') (b', gl', p, bt). b = b' \<and> vec_rep (rxGroups r') gl' \<and> rx_tree r' rs \<and>
      rxState r' = (if b then STATE_PARSED else rxState r)) (rx_parse r s) (m_seq s rs ([], 0, 0))"
    by (rule rx_tree_parse) (use r assms in simp_all)
  then show ?thesis using r(1)
    by (cases "m_seq s rs ([], 0, 0)") (auto simp: rx_run_def dest: vec_list_rep)
qed

text \<open>
  C15: matching a text against a prepared expression accepts, fails and fills the groups as the matcher
  by recursion on the expression does, for texts and group numbers that fit the code's integers.
\<close>

theorem rx_run_matcher:
  assumes "\<forall>x \<in> set rs. printable x" "rs \<noteq> []" "\<forall>x \<in> set rs. rx_wf x"
    and "length s < 2147483646" "seq_groups rs < 2 ^ 32 - 1"
  shows "rx_run (print_seq rs) s = andThen (m_seq s rs ([], 0, 0)) (\<lambda>(b, gs, p, bt). Inr (b, gs))"
  by (rule rx_run_seq [OF assms])

theorem rx_run_matcher_witness:
  "rx_run (print_seq rx_sample) ''ab*'' = andThen (m_seq ''ab*'' rx_sample ([], 0, 0)) (\<lambda>(b, gs, p, bt). Inr (b, gs))"
  by (rule rx_run_matcher) (use rx_sample_ok in simp_all)

section \<open>The repetition of a group\<close>

fun single_groups :: "rx \<Rightarrow> rx" where
  "single_groups (Group alts mn mx) = Group (map (map single_groups) alts) 1 1"
| "single_groups r = r"

lemma m_seq_map:
  "\<forall>r \<in> set rs. m_el s (f r) = m_el s r \<Longrightarrow> m_seq s (map f rs) = m_seq s rs"
  by (induction rs) (auto intro!: ext cong: if_cong)

lemma m_alts_map:
  "\<forall>rs \<in> set alts. m_seq s (f rs) = m_seq s rs \<Longrightarrow> m_alts s n (map f alts) = m_alts s n alts"
  by (induction alts) (auto intro!: ext cong: if_cong)

lemma m_el_single: "m_el s (single_groups r) = m_el s r"
proof (induction r)
  case (Group alts mn mx)
  have "m_alts s n (map (map single_groups) alts) = m_alts s n alts" for n
    by (intro m_alts_map ballI m_seq_map) (use Group in blast)
  then show ?case by (intro ext) simp
qed (auto intro!: ext)

lemma m_seq_single: "m_seq s (map single_groups rs) = m_seq s rs"
  by (intro m_seq_map) (simp add: m_el_single)

lemma single_groups_ok:
  "printable r \<longrightarrow> printable (single_groups r)" "rx_wf r \<longrightarrow> rx_wf (single_groups r)"
  "rx_groups (single_groups r) = rx_groups r"
proof (induction r)
  case (Group alts mn mx)
  {
    case 1
    show ?case using Group(1) by (fastforce simp: q_ok_def int_max_def)
  next
    case 2
    show ?case using Group(2) by fastforce
  next
    case 3
    show ?case using Group(3) by (simp add: rx_groups.simps alts_groups_def seq_groups_def comp_def cong: map_cong)
  }
qed (simp_all add: rx_groups.simps)

text \<open>
  The repetition of a group is never looked at: with every group's quantifier removed, an expression
  accepts the same texts with the same groups.
\<close>

theorem rx_group_repeat_ignored:
  assumes "\<forall>x \<in> set rs. printable x" "rs \<noteq> []" "\<forall>x \<in> set rs. rx_wf x"
    and "length s < 2147483646" "seq_groups rs < 2 ^ 32 - 1"
  shows "rx_run (print_seq (map single_groups rs)) s = rx_run (print_seq rs) s"
proof -
  have "seq_groups (map single_groups rs) = seq_groups rs" using single_groups_ok(3) by (simp add: seq_groups_def comp_def)
  then have "rx_run (print_seq (map single_groups rs)) s =
      andThen (m_seq s (map single_groups rs) ([], 0, 0)) (\<lambda>(b, gs, p, bt). Inr (b, gs))"
    by (intro rx_run_seq) (use assms single_groups_ok in auto)
  then show ?thesis using rx_run_seq [OF assms] by (simp add: m_seq_single)
qed

definition ab_cd :: "int \<Rightarrow> int \<Rightarrow> rx list" where
  "ab_cd mn mx = [Group [[Term (CHR ''a'') (CHR ''a'') 1 1, Term (CHR ''b'') (CHR ''b'') 1 1],
                         [Term (CHR ''c'') (CHR ''c'') 1 1, Term (CHR ''d'') (CHR ''d'') 1 1]] mn mx]"

theorem rx_group_repeat_ignored_witness: "rx_run ''(ab|cd)'' ''abcd'' = rx_run ''(ab|cd)+'' ''abcd''"
proof -
  have p: "print_seq (map single_groups (ab_cd 1 (-1))) = ''(ab|cd)''" "print_seq (ab_cd 1 (-1)) = ''(ab|cd)+''"
    by (simp_all add: ab_cd_def print_seq_def print_char_def special_def print_q_def)
  have "\<forall>x \<in> set (ab_cd 1 (-1)). printable x" "\<forall>x \<in> set (ab_cd 1 (-1)). rx_wf x" "ab_cd 1 (-1) \<noteq> []"
    "seq_groups (ab_cd 1 (-1)) = 1"
    by (simp_all add: ab_cd_def q_ok_def int_max_def seq_groups_def rx_groups.simps alts_groups_def)
  from rx_group_repeat_ignored [OF this(1,3,2), of "''abcd''"] this(4) show ?thesis unfolding p by simp
qed

section \<open>Runs\<close>

lemma run_length_at:
  "q \<le> length s \<Longrightarrow> run_length acc s q = (if acc ((s @ [NUL]) ! q) then Suc (run_length acc s (Suc q)) else 0)"
  using Cons_nth_drop_Suc [of q "s @ [NUL]"] by (simp add: run_length_def) (metis length_Cons list.size(3) takeWhile.simps(2))

lemma run_length_end: "length s < q \<Longrightarrow> run_length acc s q = 0"
  by (simp add: run_length_def)

lemma run_length_all: "\<forall>c \<in> set s. acc c \<Longrightarrow> acc NUL \<Longrightarrow> run_length acc s 0 = Suc (length s)"
  by (simp add: run_length_def takeWhile_eq_all_conv [THEN iffD2])

text \<open>
  An item without a maximum that accepts every character of the text and the NUL behind it, such as
  a dot or a negated class with a star, runs past the end of the text.
\<close>

theorem rx_run_past_end:
  assumes "printable r" "rx_wf r" "rx_accepts r NUL" "rx_max r = -1"
    and "\<forall>c \<in> set s. rx_accepts r c" "length s < 2147483646"
  shows "rx_run (print_seq [r]) s = Inl UndefinedBehaviour"
proof -
  have "attempt (rx_accepts r) (-1) s 0 = Inl UndefinedBehaviour"
    using run_length_all [OF assms(5,3)] by (simp add: attempt_def)
  then have "m_el s r ([], 0, 0) = Inl UndefinedBehaviour"
    using assms(3,4) by (cases r) (simp_all add: m_item.simps)
  moreover have "seq_groups [r] < 2 ^ 32 - 1" using assms(3) by (cases r) (simp_all add: seq_groups_def rx_groups.simps)
  ultimately show ?thesis using rx_run_seq [of "[r]" s] assms by simp
qed

theorem rx_run_past_end_witness:
  "rx_run ''.*'' ''abc'' = Inl UndefinedBehaviour"
proof -
  have "print_seq [Term NUL (CHR 0x7F) 0 (-1)] = ''.*''" by (simp add: print_seq_def print_q_def NUL_def)
  then show ?thesis using rx_run_past_end [of "Term NUL (CHR 0x7F) 0 (-1)" "''abc''"]
    by (simp add: q_ok_def NUL_def chr_in_def schar_def)
qed

section \<open>Plain text\<close>

definition lit :: "string \<Rightarrow> rx list" where
  "lit w = map (\<lambda>c. Term c c 1 1) w"

lemma print_lit: "print_seq (lit w) = concat (map print_char w)"
  by (induction w) (auto simp: lit_def print_seq_def print_q_def)

lemma lit_ok: "\<forall>x \<in> set (lit w). printable x" "\<forall>x \<in> set (lit w). rx_wf x" "seq_groups (lit w) = 0"
  by (induction w) (auto simp: lit_def q_ok_def int_max_def seq_groups_def)

lemma schar_inj: "schar a = schar b \<longleftrightarrow> a = b"
proof -
  have "0 \<le> (of_char c :: int) \<and> (of_char c :: int) < 256" for c
    using of_char_mod_256 [of c, where 'a = int] pos_mod_bound [of 256 "of_char c :: int"] pos_mod_sign [of 256 "of_char c :: int"] by simp
  from this [of a] this [of b] show ?thesis by (auto simp: schar_def Let_def)
qed

lemma chr_in_eq: "chr_in c (x, x) \<longleftrightarrow> c = x"
  using schar_inj [of c x] by (auto simp: chr_in_def)

lemma lit_accepts: "rx_accepts (Term x x mn mx) = (\<lambda>c. c = x)"
  by (simp add: chr_in_eq fun_eq_iff)

text \<open>
  After \<open>k\<close> characters of a plain text the position is at \<open>k\<close>, or behind it over repetitions of the
  character before, and then the next item can go back by one.
\<close>

definition lit_at :: "string \<Rightarrow> string \<Rightarrow> nat \<Rightarrow> nat \<Rightarrow> nat \<Rightarrow> bool" where
  "lit_at w s k p bt \<longleftrightarrow> k \<le> p \<and> p \<le> length s \<and> (k < p \<longrightarrow> 0 < k \<and> bt < p) \<and>
     (\<forall>i. k \<le> i \<and> i < p \<longrightarrow> s ! i = w ! (k - 1))"

lemma lit_hit:
  assumes "p < length s" "s ! p = x" "x \<noteq> NUL"
  shows "\<exists>p' bt'. m_item (\<lambda>c. c = x) 1 1 s bt [] p = Inr (True, [], p', bt') \<and>
    (p' = Suc p \<and> bt' = bt \<or> p' = Suc (Suc p) \<and> bt' = Suc p \<and> Suc p < length s \<and> s ! Suc p = x)"
proof -
  let ?n = "run_length (\<lambda>c. c = x) s (Suc p)"
  have n: "run_length (\<lambda>c. c = x) s p = Suc ?n" using assms by (simp add: run_length_at nth_append)
  show ?thesis
  proof (cases "?n = 0")
    case True
    then show ?thesis using n assms by (simp add: m_item.simps attempt_def)
  next
    case False
    then have "Suc p < length s \<and> s ! Suc p = x"
      using assms by (auto simp: run_length_at nth_append split: if_splits)
    then show ?thesis using False n assms by (simp add: m_item.simps attempt_def)
  qed
qed

lemma lit_miss:
  assumes "p < length s" "s ! p = x" "x \<noteq> NUL" "(s @ [NUL]) ! Suc p \<noteq> x" "bt \<le> p"
  shows "m_item (\<lambda>c. c = x) 1 1 s bt [] (Suc p) = Inr (True, [], Suc p, bt)"
proof -
  have z: "run_length (\<lambda>c. c = x) s (Suc p) = 0" using assms by (simp add: run_length_at)
  have n: "run_length (\<lambda>c. c = x) s p = 1" using assms z by (simp add: run_length_at nth_append)
  have "m_item (\<lambda>c. c = x) 1 1 s bt [] p = Inr (True, [], Suc p, bt)"
    using n assms by (simp add: m_item.simps attempt_def)
  then show ?thesis using z assms by (simp add: m_item.simps [where q = "Suc p"] attempt_def)
qed

lemma lit_step:
  assumes l: "lit_at w s k p bt" and k: "k < length w" "take (length w) s = w" "NUL \<notin> set w"
  shows "\<exists>p' bt'. m_item (\<lambda>c. c = w ! k) 1 1 s bt [] p = Inr (True, [], p', bt') \<and> lit_at w s (Suc k) p' bt'"
proof -
  let ?x = "w ! k"
  have s: "k < length s" "s ! k = ?x" using k(1,2) by (metis length_take min_less_iff_conj, metis nth_take)
  have x: "?x \<noteq> NUL" using k by (metis nth_mem)
  have run: "s ! i = ?x" if "k \<le> i" "i < p" for i
  proof -
    have "s ! k = w ! (k - 1)" "s ! i = w ! (k - 1)" using l that unfolding lit_at_def by auto
    then show ?thesis using s(2) by simp
  qed
  have hit: ?thesis if h: "p < length s" "s ! p = ?x"
  proof -
    obtain p' bt' where "m_item (\<lambda>c. c = ?x) 1 1 s bt [] p = Inr (True, [], p', bt')"
      "p' = Suc p \<and> bt' = bt \<or> p' = Suc (Suc p) \<and> bt' = Suc p \<and> Suc p < length s \<and> s ! Suc p = ?x"
      using lit_hit [OF h x] by blast
    moreover from this have "lit_at w s (Suc k) p' bt'"
      using l h run unfolding lit_at_def by (auto simp: less_Suc_eq)
    ultimately show ?thesis by blast
  qed
  show ?thesis
  proof (cases "p < length s \<and> s ! p = ?x")
    case True
    then show ?thesis using hit by blast
  next
    case False
    then have kp: "k < p" using l s by (auto simp: lit_at_def le_less)
    then obtain q where q: "p = Suc q" by (cases p) auto
    have "m_item (\<lambda>c. c = ?x) 1 1 s bt [] (Suc q) = Inr (True, [], Suc q, bt)"
    proof (rule lit_miss)
      show "(s @ [NUL]) ! Suc q \<noteq> ?x" using False x l q by (auto simp: nth_append lit_at_def)
    qed (use l kp q x run [of q] in \<open>auto simp: lit_at_def\<close>)
    moreover have "lit_at w s (Suc k) (Suc q) bt" using l kp q run by (auto simp: lit_at_def)
    ultimately show ?thesis using q by blast
  qed
qed

lemma lit_seq:
  assumes "take (length w) s = w" "NUL \<notin> set w"
  shows "lit_at w s k p bt \<Longrightarrow> k \<le> length w \<Longrightarrow>
    \<exists>p' bt'. m_seq s (lit (drop k w)) ([], p, bt) = Inr (True, [], p', bt')"
proof (induction "length w - k" arbitrary: k p bt)
  case 0
  then show ?case by (simp add: lit_def)
next
  case (Suc n)
  then have k: "k < length w" by simp
  obtain p' bt' where st: "m_item (\<lambda>c. c = w ! k) 1 1 s bt [] p = Inr (True, [], p', bt')" "lit_at w s (Suc k) p' bt'"
    using lit_step [OF Suc.prems(1) k assms] by blast
  obtain p'' bt'' where "m_seq s (lit (drop (Suc k) w)) ([], p', bt') = Inr (True, [], p'', bt'')"
    using Suc.hyps(1) [OF _ st(2)] Suc.hyps(2) k by fastforce
  moreover have "lit (drop k w) = Term (w ! k) (w ! k) 1 1 # lit (drop (Suc k) w)"
    using Cons_nth_drop_Suc [OF k] by (metis (no_types, lifting) lit_def list.simps(9))
  ultimately show ?case using st(1) by (simp add: lit_accepts del: rx_accepts.simps)
qed

text \<open>
  a plain text, its special characters escaped, accepts every string that starts with it.
\<close>

theorem rx_plain_text:
  assumes "w \<noteq> []" "NUL \<notin> set w" "length (w @ t) < 2147483646"
  shows "rx_run (concat (map print_char w)) (w @ t) = Inr (True, [])"
proof -
  obtain p bt where "m_seq (w @ t) (lit w) ([], 0, 0) = Inr (True, [], p, bt)"
    using lit_seq [of w "w @ t" 0 0 0] assms by (auto simp: lit_at_def)
  then show ?thesis using rx_run_seq [OF lit_ok(1) _ lit_ok(2), of w "w @ t"] assms
    by (simp add: print_lit lit_ok) (simp add: lit_def)
qed

theorem rx_plain_text_witness:
  "rx_run (concat (map print_char ''a*bb'')) (''a*bb'' @ ''b'') = Inr (True, [])"
  by (rule rx_plain_text) (simp_all add: NUL_def)

section \<open>Going back too far\<close>

lemma distinct_runs:
  assumes "distinct s" "NUL \<notin> set s" "i < length s" "q \<le> length s"
  shows "run_length (\<lambda>c. c = s ! i) s q = (if q = i then 1 else 0)"
proof -
  have "s ! i \<noteq> NUL" using assms by (metis nth_mem)
  then have "(s @ [NUL]) ! j = s ! i \<longleftrightarrow> j = i" if "j \<le> length s" for j
    using assms that by (auto simp: nth_append nth_eq_iff_index_eq)
  then show ?thesis using assms run_length_at [of q s] run_length_at [of "Suc i" s] by simp
qed

lemma distinct_item:
  assumes "distinct s" "NUL \<notin> set s" "i < length s"
  shows "i \<le> p \<Longrightarrow> p \<le> length s \<Longrightarrow> m_item (\<lambda>c. c = s ! i) 1 1 s 0 [] p = Inr (True, [], Suc i, 0)"
proof (induction p)
  case 0
  then show ?case using distinct_runs [OF assms, of 0] assms by (simp add: m_item.simps attempt_def)
next
  case (Suc p)
  then show ?case using distinct_runs [OF assms, of "Suc p"] assms
    by (cases "i = Suc p") (simp_all add: m_item.simps [where q = "Suc p"] attempt_def)
qed

lemma distinct_rest:
  assumes "distinct s" "NUL \<notin> set s"
  shows "i \<le> length s \<Longrightarrow> m_seq s (lit (drop i s)) ([], i, 0) = Inr (True, [], length s, 0)"
proof (induction "length s - i" arbitrary: i)
  case 0
  then show ?case by (simp add: lit_def)
next
  case (Suc n)
  then have i: "i < length s" by simp
  have "lit (drop i s) = Term (s ! i) (s ! i) 1 1 # lit (drop (Suc i) s)"
    using Cons_nth_drop_Suc [OF i] by (metis (no_types, lifting) lit_def list.simps(9))
  then show ?case using distinct_item [OF assms i, of i] Suc i by (simp add: lit_accepts del: rx_accepts.simps)
qed

lemma m_seq_append: "m_seq s (xs @ ys) st = andThen (m_seq s xs st) (\<lambda>x. if fst x then m_seq s ys (snd x) else Inr x)"
proof (induction xs arbitrary: st)
  case (Cons x xs)
  then show ?case by (cases "m_el s x st") simp_all
qed simp

lemma distinct_again:
  assumes "distinct s" "NUL \<notin> set s" "s \<noteq> []" "p \<in> {0, length s}"
  shows "m_seq s (lit s) ([], p, 0) = Inr (True, [], length s, 0)"
proof -
  have "lit s = Term (s ! 0) (s ! 0) 1 1 # lit (drop 1 s)" using assms(3) by (cases s) (simp_all add: lit_def)
  then show ?thesis
    using distinct_item [OF assms(1,2), of 0 p] distinct_rest [OF assms(1,2), of 1] assms(3,4)
    by (auto simp: lit_accepts Suc_le_eq simp del: rx_accepts.simps)
qed

lemma distinct_copies:
  assumes "distinct s" "NUL \<notin> set s" "s \<noteq> []"
  shows "p \<in> {0, length s} \<Longrightarrow>
    m_seq s (lit (concat (replicate (Suc n) s))) ([], p, 0) = Inr (True, [], length s, 0)"
proof (induction n arbitrary: p)
  case 0
  then show ?case using distinct_again [OF assms] by simp
next
  case (Suc n)
  have "lit (concat (replicate (Suc (Suc n)) s)) = lit s @ lit (concat (replicate (Suc n) s))"
    by (simp add: lit_def)
  then show ?case using distinct_again [OF assms Suc.prems] Suc.IH [of "length s"] by (simp add: m_seq_append)
qed

text \<open>
  An item that fails is tried again from any earlier position, so a text of different characters,
  written any number of times in a row as an expression, accepts the text that has it only once.
\<close>

theorem rx_repeats_collapse:
  assumes "distinct s" "NUL \<notin> set s" "s \<noteq> []" "length s < 2147483646"
  shows "rx_run (concat (map print_char (concat (replicate (Suc n) s)))) s = Inr (True, [])"
proof -
  have "lit (concat (replicate (Suc n) s)) \<noteq> []" using assms(3) by (simp add: lit_def)
  then show ?thesis
    using rx_run_seq [OF lit_ok(1) _ lit_ok(2) assms(4), of "concat (replicate (Suc n) s)"] distinct_copies [OF assms(1-3), of 0 n]
    by (simp add: print_lit lit_ok del: replicate_Suc)
qed

theorem rx_repeats_collapse_witness: "rx_run ''ababab'' ''ab'' = Inr (True, [])"
proof -
  have "concat (map print_char (concat (replicate (Suc 2) ''ab''))) = ''ababab''"
    by (simp add: numeral_2_eq_2 print_char_def special_def)
  with rx_repeats_collapse [of "''ab''" 2] show ?thesis by (simp add: NUL_def)
qed

section \<open>Outcomes\<close>

text \<open>The only ways a match can end without a result.\<close>

definition rx_fault :: "fault \<Rightarrow> bool" where
  "rx_fault e \<longleftrightarrow> e = UndefinedBehaviour \<or> e = OutOfRange"

lemma andThen_Inl_iff: "andThen m f = Inl e \<longleftrightarrow> m = Inl e \<or> (\<exists>x. m = Inr x \<and> f x = Inl e)"
  by (cases m) auto

lemma trim_fault: "trim_groups p gs = Inl e \<Longrightarrow> rx_fault e"
  by (induction gs) (auto simp: andThen_Inl_iff str_erase_def rx_fault_def split: if_splits)

lemma rx_fault_simps [simp]: "rx_fault UndefinedBehaviour" "rx_fault OutOfRange"
  by (simp_all add: rx_fault_def)

lemma attempt_fault: "attempt acc mx s q = Inl e \<Longrightarrow> rx_fault e"
  by (auto simp: attempt_def Let_def split: if_splits)

lemma m_item_fault: "m_item acc mn mx s bt gs q = Inl e \<Longrightarrow> rx_fault e"
proof (induction q arbitrary: gs)
  case 0
  then show ?case
    by (subst (asm) m_item.simps) (auto simp: andThen_Inl_iff dest: attempt_fault split: if_splits)
next
  case (Suc q)
  show ?case using Suc.prems
    by (subst (asm) m_item.simps)
      (auto simp: andThen_Inl_iff dest: attempt_fault trim_fault Suc.IH split: if_splits)
qed

lemma m_fault:
  "m_seq s rs st = Inl e \<Longrightarrow> rx_fault e"
  "m_el s r st = Inl e \<Longrightarrow> rx_fault e"
  "m_alts s n alts st = Inl e \<Longrightarrow> rx_fault e"
proof (induction s rs st and s r st and s n alts st rule: m_seq_m_el_m_alts.induct)
  case (7 s n rs alts st)
  have "m_close n s st' = Inl e \<Longrightarrow> rx_fault e" for st'
    by (auto simp: m_close_def andThen_Inl_iff str_assign_def rx_fault_def split: prod.splits if_splits)
  then show ?case using 7 by (auto simp: andThen_Inl_iff split: if_splits)
qed (auto simp: andThen_Inl_iff dest: m_item_fault split: if_splits)

text \<open>An item somewhere in the expression accepts a NUL.\<close>

fun rx_takes_NUL :: "rx \<Rightarrow> bool" where
  "rx_takes_NUL (Term a b mn mx) \<longleftrightarrow> rx_accepts (Term a b mn mx) NUL"
| "rx_takes_NUL (Class neg ts mn mx) \<longleftrightarrow> rx_accepts (Class neg ts mn mx) NUL"
| "rx_takes_NUL (Group alts mn mx) \<longleftrightarrow> (\<exists>rs \<in> set alts. \<exists>r \<in> set rs. rx_takes_NUL r)"

lemma run_in_text:
  "\<not> acc NUL \<Longrightarrow> q \<le> length s \<Longrightarrow> q + run_length acc s q \<le> length s"
proof (induction "length s - q" arbitrary: q)
  case 0
  then show ?case by (simp add: run_length_at nth_append)
next
  case (Suc n)
  then show ?case using Suc.hyps(1) [of "Suc q"] by (auto simp: run_length_at)
qed

text \<open>What keeps to the text: no read past the end, and a position in the text or at its end.\<close>

definition in_text :: "string \<Rightarrow> (bool \<times> m_state) outcome \<Rightarrow> bool" where
  "in_text s m \<longleftrightarrow> m \<noteq> Inl UndefinedBehaviour \<and> (\<forall>b gs p bt. m = Inr (b, gs, p, bt) \<longrightarrow> p \<le> length s)"

lemma in_text_simps [simp]:
  "in_text s (Inr (b, gs, p, bt)) \<longleftrightarrow> p \<le> length s" "in_text s (Inl e) \<longleftrightarrow> e \<noteq> UndefinedBehaviour"
  by (auto simp: in_text_def)

lemma in_text_andThen:
  assumes "in_text s m" "\<And>b gs p bt. m = Inr (b, gs, p, bt) \<Longrightarrow> p \<le> length s \<Longrightarrow> in_text s (f (b, gs, p, bt))"
  shows "in_text s (andThen m f)"
proof (cases m)
  case (Inr x)
  then show ?thesis using assms by (cases x) auto
qed (use assms in auto)

lemma attempt_in_text:
  "\<not> acc NUL \<Longrightarrow> q \<le> length s \<Longrightarrow>
    \<exists>k more. attempt acc mx s q = Inr (k, more) \<and> q + k \<le> length s \<and> (more \<longrightarrow> Suc (q + k) \<le> length s)"
  using run_in_text [of acc q s] by (auto simp: attempt_def Let_def)

lemma trim_not_undefined: "trim_groups p gs \<noteq> Inl UndefinedBehaviour"
  by (induction gs) (auto simp: andThen_Inl_iff str_erase_def split: if_splits)

lemma m_item_in_text: "\<not> acc NUL \<Longrightarrow> q \<le> length s \<Longrightarrow> in_text s (m_item acc mn mx s bt gs q)"
proof (induction q arbitrary: gs)
  case 0
  then obtain k more where "attempt acc mx s 0 = Inr (k, more)" "k \<le> length s" "more \<longrightarrow> Suc k \<le> length s"
    using attempt_in_text [where acc = acc and q = 0 and s = s and mx = mx] by auto
  then show ?case by (subst m_item.simps) auto
next
  case (Suc q)
  then obtain k more where "attempt acc mx s (Suc q) = Inr (k, more)" "Suc q + k \<le> length s"
    "more \<longrightarrow> Suc (Suc q + k) \<le> length s"
    using attempt_in_text [where acc = acc and q = "Suc q" and s = s and mx = mx] by auto
  moreover have "in_text s (andThen (trim_groups (int q) gs) (\<lambda>gs. m_item acc mn mx s bt gs q))"
    using Suc.IH Suc.prems trim_not_undefined [of "int q" gs] by (cases "trim_groups (int q) gs") auto
  ultimately show ?case by (subst m_item.simps) auto
qed

lemma m_close_in_text: "fst (snd st) \<le> length s \<Longrightarrow> in_text s (andThen (m_close n s st) (\<lambda>st. Inr (True, st)))"
  by (cases st) (auto simp: m_close_def str_assign_def)

lemma m_in_text:
  "\<forall>r \<in> set rs. \<not> rx_takes_NUL r \<Longrightarrow> fst (snd st) \<le> length s \<Longrightarrow> in_text s (m_seq s rs st)"
  "\<not> rx_takes_NUL r \<Longrightarrow> fst (snd st) \<le> length s \<Longrightarrow> in_text s (m_el s r st)"
  "\<forall>rs \<in> set alts. \<forall>r \<in> set rs. \<not> rx_takes_NUL r \<Longrightarrow> fst (snd st) \<le> length s \<Longrightarrow> in_text s (m_alts s n alts st)"
proof (induction s rs st and s r st and s n alts st rule: m_seq_m_el_m_alts.induct)
  case (1 s st)
  then show ?case by (cases st) auto
next
  case (2 s r rs st)
  then show ?case by (auto intro!: in_text_andThen)
next
  case (7 s n rs alts st)
  then show ?case by (auto intro!: in_text_andThen m_close_in_text)
qed (auto intro!: m_item_in_text simp del: rx_accepts.simps)

text \<open>
  C17: let an expression of at least one item be given, whose classes and alternatives are not empty, with
  fewer than \<open>2 ^ 32 - 1\<close> groups, and a text shorter than \<open>2 ^ 31 - 2\<close>. Preparing the printed expression
  and matching the text ends: with an answer; or with the exception that \<open>string\<close> throws for a position
  out of range; or with undefined behaviour. Of the last two each is one of the matcher, which knows no
  pointers, and the undefined behaviour needs an item that accepts the NUL behind the text: it is a read
  past its end. So without such an item, with groups or not, nothing undefined is done, and no NULL
  pointer is followed.
\<close>

theorem rx_run_ends:
  assumes "\<forall>x \<in> set rs. printable x" "rs \<noteq> []" "\<forall>x \<in> set rs. rx_wf x"
    and "length s < 2147483646" "seq_groups rs < 2 ^ 32 - 1"
  shows "(\<exists>b gs. rx_run (print_seq rs) s = Inr (b, gs)) \<or>
    (rx_run (print_seq rs) s = Inl OutOfRange \<and> m_seq s rs ([], 0, 0) = Inl OutOfRange) \<or>
    (rx_run (print_seq rs) s = Inl UndefinedBehaviour \<and> m_seq s rs ([], 0, 0) = Inl UndefinedBehaviour \<and>
     (\<exists>x \<in> set rs. rx_takes_NUL x))"
proof (cases "m_seq s rs ([], 0, 0)")
  case (Inl e)
  have "e = UndefinedBehaviour \<Longrightarrow> \<exists>x \<in> set rs. rx_takes_NUL x"
    using m_in_text(1) [of rs "([], 0, 0)" s] Inl by auto
  then show ?thesis using m_fault(1) [OF Inl] rx_run_seq [OF assms] Inl by (auto simp: rx_fault_def)
next
  case (Inr x)
  then show ?thesis using rx_run_seq [OF assms] by (cases x) auto
qed

theorem rx_run_ends_witness:
  "(\<exists>b gs. rx_run (print_seq rx_sample) ''ab*'' = Inr (b, gs)) \<or>
    (rx_run (print_seq rx_sample) ''ab*'' = Inl OutOfRange \<and> m_seq ''ab*'' rx_sample ([], 0, 0) = Inl OutOfRange) \<or>
    (rx_run (print_seq rx_sample) ''ab*'' = Inl UndefinedBehaviour \<and>
     m_seq ''ab*'' rx_sample ([], 0, 0) = Inl UndefinedBehaviour \<and> (\<exists>x \<in> set rx_sample. rx_takes_NUL x))"
  by (rule rx_run_ends) (use rx_sample_ok in simp_all)

lemma m_item_safe:
  assumes "\<not> acc NUL"
  shows "q \<le> length s \<Longrightarrow> \<exists>b p bt'. m_item acc mn mx s bt [] q = Inr (b, [], p, bt') \<and> p \<le> length s"
proof (induction q)
  case 0
  show ?case using run_in_text [where acc = acc and q = 0 and s = s, OF assms]
    by (subst m_item.simps) (auto simp: attempt_def Let_def)
next
  case (Suc q)
  then show ?case using run_in_text [where acc = acc, OF assms Suc.prems]
    by (subst m_item.simps) (auto simp: attempt_def Let_def)
qed

lemma m_seq_safe:
  "\<forall>r \<in> set rs. rx_groups r = 0 \<and> \<not> rx_accepts r NUL \<Longrightarrow> p \<le> length s \<Longrightarrow>
    \<exists>b p' bt'. m_seq s rs ([], p, bt) = Inr (b, [], p', bt') \<and> p' \<le> length s"
proof (induction rs arbitrary: p bt)
  case (Cons r rs)
  have "\<exists>b p' bt'. m_el s r ([], p, bt) = Inr (b, [], p', bt') \<and> p' \<le> length s"
    using Cons.prems m_item_safe [of "rx_accepts r" p s] by (cases r) (auto simp: rx_groups.simps(1))
  then obtain b p' bt' where e: "m_el s r ([], p, bt) = Inr (b, [], p', bt')" "p' \<le> length s" by blast
  show ?case using Cons.IH [of p' bt'] Cons.prems e by (cases b) auto
qed auto

text \<open>
  C16: an expression without groups, none of whose items accepts a NUL, is matched against every text
  without a fault.
\<close>

theorem rx_run_safe:
  assumes "\<forall>x \<in> set rs. printable x" "rs \<noteq> []" "\<forall>x \<in> set rs. rx_wf x" "length s < 2147483646"
    and "\<forall>x \<in> set rs. rx_groups x = 0 \<and> \<not> rx_accepts x NUL"
  shows "\<exists>b. rx_run (print_seq rs) s = Inr (b, [])"
proof -
  have "seq_groups rs = 0" using assms(5) by (simp add: seq_groups_def)
  then show ?thesis using rx_run_seq [OF assms(1-4)] m_seq_safe [OF assms(5), of 0 s 0] by auto
qed

theorem rx_run_safe_witness: "\<exists>b. rx_run (print_seq (lit ''ab'')) ''xab'' = Inr (b, [])"
  by (rule rx_run_safe) (use lit_ok [of "''ab''"] in \<open>simp_all add: lit_def NUL_def chr_in_eq\<close>)

text \<open>
  What groups do to the position: an alternative that is empty hides the following ones, a group
  takes in a character that belongs to its repetition, going back before the start of a group throws,
  and the empty expression reads a pointer of an element that it does not have.
\<close>

theorem rx_group_runs:
  "rx_run ''(|a)b'' ''b'' = Inr (False, [\<lparr>gStart = 0, gEnd = 0, gString = []\<rparr>]) \<and>
   rx_run ''(a)'' ''aa'' = Inr (True, [\<lparr>gStart = 0, gEnd = 2, gString = ''aa''\<rparr>]) \<and>
   rx_run ''x(a)b'' ''xac'' = Inl OutOfRange \<and>
   rx_run '''' ''a'' = Inl UndefinedBehaviour"
  by (intro conjI; code_simp)

section \<open>Errors of prepare\<close>

text \<open>
  A \<open>prepare\<close> that fails leaves an error message, no data and no dump, but a \<open>parse\<close> of any text then
  returns true.
\<close>

theorem rx_prepare_error:
  assumes "rxState r = STATE_INIT" "rx_prepare r t = Inr (kInvalidRequest, r')"
  shows "rx_parse r' s = Inr (True, r') \<and> rx_getData r' i = Inr [] \<and> rx_dumpTree r' d = Inr (kNotInitialized, d)"
proof -
  have "rxState r' = STATE_INIT"
  proof -
    obtain h x where x: "el_put (rxHeap r) (Some mRoot) (\<lambda>e. e\<lparr>elType := TYPE_SEQUENCE\<rparr>) = Inr h"
      "p_loop t \<lparr>pHeap = h, pFresh = rxFresh r, cur_node = Some mRoot, pMode = IN_UNKNOWN, in_group = 0\<rparr> = Inr x"
      using assms(2) by (auto simp: rx_prepare_def andThen_Inr_iff)
    then show ?thesis using assms by (cases x) (auto simp: rx_prepare_def)
  qed
  then show ?thesis by (simp add: rx_parse_def rx_getData_def rx_dumpTree_def err_num_def)
qed

theorem rx_prepare_error_witness:
  "\<exists>r. rx_prepare Regex_new ''[*]'' = Inr (kInvalidRequest, r) \<and> rx_parse r ''x'' = Inr (True, r) \<and>
    rx_getData r 0 = Inr [] \<and> rx_dumpTree r [] = Inr (kNotInitialized, [])"
proof -
  have "case rx_prepare Regex_new ''[*]'' of Inl e \<Rightarrow> False | Inr (e, r) \<Rightarrow> e = kInvalidRequest" by code_simp
  then obtain r where "rx_prepare Regex_new ''[*]'' = Inr (kInvalidRequest, r)"
    by (auto split: sum.splits prod.splits)
  with rx_prepare_error [OF _ this, of "''x''" 0 "[]"] show ?thesis by (auto simp: Regex_new_def)
qed

end
