(* ===== verification/URI.thy ===== *)
theory URI
  imports JHStrings JHVector
begin

text \<open>
  URIs (src/URI.cpp, include/URI.h): a string, its parts and the list of query parameters, which are
  parsed from the string at once and written back when the string is asked for. The members that are
  \<open>mutable\<close> change in calls that are \<open>const\<close> in the code.
\<close>

section \<open>State\<close>

record query_param =
  mKey :: string
  mParam :: string

record uri =
  mRelative :: bool
  mModified :: bool
  mModifiedQuery :: bool
  mFullString :: string
  mQueryString :: string
  mScheme :: string
  mAuthority :: string
  mPath :: string
  mFragment :: string
  mQueryParams :: "query_param jvec"

definition URI_new :: uri where
  "URI_new = \<lparr>mRelative = False, mModified = False, mModifiedQuery = False, mFullString = [], mQueryString = [],
     mScheme = [], mAuthority = [], mPath = [], mFragment = [], mQueryParams = vec_new\<rparr>"

definition uri_clear :: "uri \<Rightarrow> uri outcome" where
  "uri_clear u =
     andThen (vec_clear (mQueryParams u)) (\<lambda>ps.
     Inr \<lparr>mRelative = False, mModified = False, mModifiedQuery = False, mFullString = [], mQueryString = [],
       mScheme = [], mAuthority = [], mPath = [], mFragment = [], mQueryParams = ps\<rparr>)"

section \<open>The query\<close>

text \<open>One parameter is read in each turn; the loop ends when no further equals sign follows.\<close>

fun uri_query_loop :: "nat \<Rightarrow> string \<Rightarrow> nat \<Rightarrow> query_param jvec \<Rightarrow> (bool \<times> query_param jvec) outcome" where
  "uri_query_loop 0 q start ps = Inl NoReturn"
| "uri_query_loop (Suc fuel) q start ps =
     (case str_find ''='' q start of
        None \<Rightarrow> Inr (False, ps)
      | Some off \<Rightarrow>
          andThen (str_substr q start (span start (Some off))) (\<lambda>key.
          let start = Suc off in
          case str_find ''&'' q start of
            None \<Rightarrow>
              andThen (str_substr q start None) (\<lambda>v.
              andThen (vec_push_back ps \<lparr>mKey = key, mParam = v\<rparr>) (\<lambda>ps. Inr (True, ps)))
          | Some off \<Rightarrow>
              andThen (str_substr q start (span start (Some off))) (\<lambda>v.
              let start = Suc off in
              andThen (vec_push_back ps \<lparr>mKey = key, mParam = v\<rparr>) (\<lambda>ps.
              if str_find ''='' q start = None then Inr (True, ps) else uri_query_loop fuel q start ps))))"

definition uri_parseQuery :: "uri \<Rightarrow> (bool \<times> uri) outcome" where
  "uri_parseQuery u =
     (let u = u\<lparr>mModifiedQuery := False\<rparr> in
      if mQueryString u = []
      then andThen (vec_clear (mQueryParams u)) (\<lambda>ps. Inr (True, u\<lparr>mQueryParams := ps\<rparr>))
      else andThen (uri_query_loop (Suc (length (mQueryString u))) (mQueryString u) 0 (mQueryParams u)) (\<lambda>(ok, ps).
           Inr (ok, u\<lparr>mQueryParams := ps\<rparr>)))"

definition query_piece :: "nat \<Rightarrow> query_param \<Rightarrow> string \<Rightarrow> string" where
  "query_piece i p str = (if i \<noteq> 0 then str @ ''&'' else str) @ mKey p @ ''='' @ mParam p"

definition uri_buildQuery :: "uri \<Rightarrow> uri outcome" where
  "uri_buildQuery u =
     (if \<not> mModifiedQuery u then Inr u
      else andThen (index_fold vec_at mSize query_piece (mQueryParams u) (Suc (mSize (mQueryParams u))) 0 []) (\<lambda>str.
           Inr (u\<lparr>mQueryString := str, mModifiedQuery := False\<rparr>)))"

definition uri_findParam :: "uri \<Rightarrow> string \<Rightarrow> int outcome" where
  "uri_findParam u key =
     index_find vec_at mSize (\<lambda>p. mKey p = key) (mQueryParams u) (Suc (mSize (mQueryParams u))) 0"

definition uri_getQuery :: "uri \<Rightarrow> (string \<times> uri) outcome" where
  "uri_getQuery u = andThen (uri_buildQuery u) (\<lambda>u. Inr (mQueryString u, u))"

definition uri_setQuery :: "uri \<Rightarrow> string \<Rightarrow> uri outcome" where
  "uri_setQuery u query = andThen (uri_parseQuery (u\<lparr>mQueryString := query\<rparr>)) (\<lambda>(ok, u). Inr u)"

definition uri_appendQueryParam :: "uri \<Rightarrow> string \<Rightarrow> string \<Rightarrow> uri outcome" where
  "uri_appendQueryParam u key v =
     andThen (vec_push_back (mQueryParams u) \<lparr>mKey = key, mParam = v\<rparr>) (\<lambda>ps.
     Inr (u\<lparr>mQueryParams := ps, mModifiedQuery := True, mModified := True\<rparr>))"

definition uri_removeQueryParam :: "uri \<Rightarrow> string \<Rightarrow> uri outcome" where
  "uri_removeQueryParam u key =
     andThen (uri_findParam u key) (\<lambda>i.
     andThen (if i \<noteq> -1 then vec_erase (mQueryParams u) (nat i) else Inr (mQueryParams u)) (\<lambda>ps.
     Inr (u\<lparr>mQueryParams := ps, mModifiedQuery := True\<rparr>)))"

definition uri_getQueryParam :: "uri \<Rightarrow> string \<Rightarrow> string outcome" where
  "uri_getQueryParam u key =
     andThen (uri_findParam u key) (\<lambda>i.
     if i \<noteq> -1 then andThen (vec_at (mQueryParams u) (nat i)) (\<lambda>p. Inr (mParam p)) else Inr [])"

section \<open>Parsing and building the string\<close>

definition uri_parse_scheme :: "uri \<Rightarrow> (nat \<times> uri) outcome" where
  "uri_parse_scheme u =
     (case str_find '':'' (mFullString u) 0 of
        None \<Rightarrow> Inr (0, u)
      | Some off \<Rightarrow>
          andThen (str_substr (mFullString u) 0 (Some off)) (\<lambda>x. Inr (Suc off, u\<lparr>mScheme := x\<rparr>)))"

text \<open>The authority, and where the path starts: behind \<open>npos\<close> when no slash follows the authority.\<close>

definition uri_parse_authority :: "nat \<Rightarrow> uri \<Rightarrow> (nat option \<times> uri) outcome" where
  "uri_parse_authority start u =
     (let s = mFullString u;
          (hasAuth, start, u) =
            (if str_find ''//'' s start = Some start then (True, start + 2, u)
             else if str_find ''/'' s start \<noteq> Some start
             then if mScheme u = [] then (False, start, u\<lparr>mRelative := True\<rparr>) else (True, start, u)
             else (False, start, u)) in
      if hasAuth
      then let off = str_find ''/'' s start in
           andThen (str_substr s start (span start off)) (\<lambda>x. Inr (off, u\<lparr>mAuthority := x\<rparr>))
      else Inr (Some start, u))"

definition uri_parse_path :: "nat \<Rightarrow> uri \<Rightarrow> (bool \<times> uri) outcome" where
  "uri_parse_path start u =
     (let s = mFullString u; off = str_find ''?'' s start in
      andThen (str_substr s start (span start off)) (\<lambda>x.
      let u = u\<lparr>mPath := x\<rparr> in
      case off of
        None \<Rightarrow> Inr (True, u)
      | Some off \<Rightarrow>
          let start = Suc off; off = str_find ''#'' s start in
          andThen (str_substr s start (span start off)) (\<lambda>q.
          andThen (uri_parseQuery (u\<lparr>mQueryString := q\<rparr>)) (\<lambda>(ok, u).
          if \<not> ok then Inr (False, u)
          else case off of
                 None \<Rightarrow> Inr (True, u)
               | Some off \<Rightarrow> andThen (str_substr s (Suc off) None) (\<lambda>x. Inr (True, u\<lparr>mFragment := x\<rparr>))))))"

definition uri_parseString :: "uri \<Rightarrow> (bool \<times> uri) outcome" where
  "uri_parseString u =
     andThen (uri_parse_scheme (u\<lparr>mModified := False, mRelative := False\<rparr>)) (\<lambda>(start, u).
     andThen (uri_parse_authority start u) (\<lambda>(start, u).
     case start of
       None \<Rightarrow> Inr (True, u)
     | Some start \<Rightarrow> if start < length (mFullString u) then uri_parse_path start u else Inr (True, u)))"

definition uri_buildString :: "uri \<Rightarrow> uri outcome" where
  "uri_buildString u =
     (if \<not> mModified u then Inr u
      else let str = (if mScheme u \<noteq> [] then mScheme u @ '':'' else []);
               str = str @ (if mAuthority u \<noteq> []
                 then (if mScheme u \<noteq> ''mailto'' \<and> mScheme u \<noteq> ''news'' then ''//'' else []) @ mAuthority u else []);
               str = str @ mPath u in
           andThen (uri_buildQuery u) (\<lambda>u.
           let str = str @ (if mQueryString u \<noteq> [] then ''?'' @ mQueryString u else []);
               str = str @ (if mFragment u \<noteq> [] then ''#'' @ mFragment u else []) in
           Inr (u\<lparr>mFullString := str, mModified := False\<rparr>)))"

section \<open>Operations\<close>

definition uri_getString :: "uri \<Rightarrow> (string \<times> uri) outcome" where
  "uri_getString u = andThen (uri_buildString u) (\<lambda>u. Inr (mFullString u, u))"

definition uri_setString :: "uri \<Rightarrow> string \<Rightarrow> (bool \<times> uri) outcome" where
  "uri_setString u s = andThen (uri_clear u) (\<lambda>u. uri_parseString (u\<lparr>mFullString := s\<rparr>))"

text \<open>The constructors from a string and from another URI, assignment of a string and of a URI.\<close>

definition URI_of_string :: "string \<Rightarrow> uri outcome" where
  "URI_of_string s = andThen (uri_parseString (URI_new\<lparr>mFullString := s\<rparr>)) (\<lambda>(ok, u). Inr u)"

definition uri_assign_string :: "uri \<Rightarrow> string \<Rightarrow> uri outcome" where
  "uri_assign_string u s = andThen (uri_clear u) (\<lambda>u. andThen (uri_parseString (u\<lparr>mFullString := s\<rparr>)) (\<lambda>(ok, u). Inr u))"

text \<open>\<open>copyValues\<close> of another object changes that one too; None stands for the same object.\<close>

definition uri_copyValues :: "uri \<Rightarrow> uri option \<Rightarrow> (uri \<times> uri option) outcome" where
  "uri_copyValues u other =
     andThen (uri_buildString (case other of None \<Rightarrow> u | Some v \<Rightarrow> v)) (\<lambda>v.
     andThen (vec_assign (mQueryParams (if other = None then v else u)) (if other = None then None else Some (mQueryParams v))) (\<lambda>ps.
     Inr (v\<lparr>mModified := False, mModifiedQuery := False, mQueryParams := ps\<rparr>, map_option (\<lambda>_. v) other)))"

definition URI_copy :: "uri \<Rightarrow> (uri \<times> uri option) outcome" where
  "URI_copy other = uri_copyValues URI_new (Some other)"

definition uri_assign :: "uri \<Rightarrow> uri option \<Rightarrow> (uri \<times> uri option) outcome" where
  "uri_assign u other = uri_copyValues u other"

text \<open>The two objects are built, the other one first.\<close>

definition uri_equal :: "uri \<Rightarrow> uri \<Rightarrow> (bool \<times> uri \<times> uri) outcome" where
  "uri_equal u other =
     andThen (uri_buildString other) (\<lambda>other. andThen (uri_buildString u) (\<lambda>u.
     Inr (mFullString u = mFullString other, u, other)))"

definition uri_setScheme :: "uri \<Rightarrow> string \<Rightarrow> uri" where
  "uri_setScheme u x = u\<lparr>mModified := True, mScheme := x\<rparr>"

definition uri_setAuthority :: "uri \<Rightarrow> string \<Rightarrow> uri" where
  "uri_setAuthority u x = u\<lparr>mModified := True, mAuthority := x\<rparr>"

definition uri_setFragment :: "uri \<Rightarrow> string \<Rightarrow> uri" where
  "uri_setFragment u x = u\<lparr>mModified := True, mFragment := x\<rparr>"

text \<open>The first character of an empty path is the NUL behind it.\<close>

definition uri_setPath :: "uri \<Rightarrow> string \<Rightarrow> bool \<Rightarrow> uri" where
  "uri_setPath u path rel =
     u\<lparr>mModified := True, mPath := (if (path = [] \<or> hd path \<noteq> CHR ''/'') \<and> \<not> rel then ''/'' @ path else path),
       mRelative := rel\<rparr>"

definition uri_getPathAndQuery :: "uri \<Rightarrow> string" where
  "uri_getPathAndQuery u = (if mQueryString u = [] then mPath u else mPath u @ ''?'' @ mQueryString u)"

definition uri_getHost :: "uri \<Rightarrow> string outcome" where
  "uri_getHost u = str_substr (mAuthority u) 0 (str_find '':'' (mAuthority u) 0)"

text \<open>The port of a scheme is looked up in the database of services, \<open>servent\<close>, in the byte order of the network.\<close>

definition swap16 :: "nat \<Rightarrow> int" where
  "swap16 p = int ((p mod 256) * 256 + p div 256 mod 256)"

definition getSchemePort :: "(string \<Rightarrow> nat option) \<Rightarrow> string \<Rightarrow> int" where
  "getSchemePort servent str = (case servent str of Some p \<Rightarrow> swap16 p | None \<Rightarrow> 0)"

definition uri_getPort :: "(string \<Rightarrow> nat option) \<Rightarrow> uri \<Rightarrow> int outcome" where
  "uri_getPort servent u =
     (case str_find '':'' (mAuthority u) 0 of
        None \<Rightarrow> Inr (getSchemePort servent (mScheme u))
      | Some off \<Rightarrow> andThen (str_substr (mAuthority u) (Suc off) None) (\<lambda>port. Inr (to_int (strtol 10 port))))"

section \<open>Queries as lists\<close>

text \<open>What is read from a string, and the string of a list of parameters.\<close>

definition before :: "char \<Rightarrow> string \<Rightarrow> string" where "before c s = takeWhile (\<lambda>x. x \<noteq> c) s"
definition behind :: "char \<Rightarrow> string \<Rightarrow> string" where "behind c s = tl (dropWhile (\<lambda>x. x \<noteq> c) s)"

lemma behind_shorter: "c \<in> set s \<Longrightarrow> length (behind c s) < length s"
  by (induction s) (auto simp: behind_def)

lemma before_less: "c \<in> set s \<Longrightarrow> length (before c s) < length s"
  by (induction s) (auto simp: before_def)

lemma behind_le: "length (behind c s) \<le> length s"
  using length_dropWhile_le [of "\<lambda>x. x \<noteq> c" s] by (simp add: behind_def)

lemma behind_drop: "c \<in> set s \<Longrightarrow> behind c s = drop (Suc (length (before c s))) s"
  by (induction s) (auto simp: behind_def before_def)

lemma before_behind [simp]: "c \<notin> set a \<Longrightarrow> before c (a @ c # b) = a" "c \<notin> set a \<Longrightarrow> behind c (a @ c # b) = b"
  by (induction a) (auto simp: before_def behind_def)

function query_read :: "string \<Rightarrow> bool \<times> query_param list" where
  "query_read s =
     (if CHR ''='' \<notin> set s then (False, [])
      else let key = before (CHR ''='') s; r = behind (CHR ''='') s in
           if CHR ''&'' \<notin> set r then (True, [\<lparr>mKey = key, mParam = r\<rparr>])
           else let p = \<lparr>mKey = key, mParam = before (CHR ''&'') r\<rparr>; r = behind (CHR ''&'') r in
                if CHR ''='' \<notin> set r then (True, [p]) else (fst (query_read r), p # snd (query_read r)))"
  by auto
termination
  by (relation "measure length") (auto dest: behind_shorter intro: less_le_trans le_less_trans [OF behind_le])

declare query_read.simps [simp del]

definition query_text :: "query_param list \<Rightarrow> string" where
  "query_text ps = fold_from query_piece 0 ps []"

text \<open>A key has no equals sign and a value no ampersand.\<close>

definition query_ok :: "query_param list \<Rightarrow> bool" where
  "query_ok ps \<longleftrightarrow> (\<forall>p \<in> set ps. CHR ''='' \<notin> set (mKey p) \<and> CHR ''&'' \<notin> set (mParam p))"

lemma fold_piece: "0 < i \<Longrightarrow> fold_from query_piece i ps s = s @ concat (map (\<lambda>p. ''&'' @ mKey p @ ''='' @ mParam p) ps)"
  by (induction ps arbitrary: i s) (simp_all add: query_piece_def)

lemma query_text_simps:
  "query_text [] = []" "query_text [p] = mKey p @ ''='' @ mParam p"
  "query_text (p # q # ps) = mKey p @ ''='' @ mParam p @ ''&'' @ query_text (q # ps)"
  by (simp_all add: query_text_def fold_piece query_piece_def)

lemma query_text_eq: "ps \<noteq> [] \<Longrightarrow> CHR ''='' \<in> set (query_text ps)"
  by (cases ps rule: remdups_adj.cases) (simp_all add: query_text_simps)

lemma query_text_nil: "query_text ps = [] \<longleftrightarrow> ps = []"
  by (metis query_text_eq query_text_simps(1) list.set(1) empty_iff)

lemma query_read_text: "ps \<noteq> [] \<Longrightarrow> query_ok ps \<Longrightarrow> query_read (query_text ps) = (True, ps)"
proof (induction ps rule: induct_list012)
  case (2 p)
  then show ?case by (simp add: query_read.simps query_text_simps query_ok_def)
next
  case (3 p q ps)
  have ok: "CHR ''='' \<notin> set (mKey p)" "CHR ''&'' \<notin> set (mParam p)" "query_ok (q # ps)"
    using 3(4) by (simp_all add: query_ok_def)
  have "query_read (query_text (q # ps)) = (True, q # ps)" using 3 ok by simp
  moreover have "query_text (p # q # ps) = mKey p @ CHR ''='' # (mParam p @ CHR ''&'' # query_text (q # ps))"
    by (simp add: query_text_simps)
  ultimately show ?case using ok query_text_eq [of "q # ps"] by (subst query_read.simps) simp
qed simp

text \<open>The loop reads just that, and finds room for the parameters.\<close>

lemma find_rest:
  assumes "start \<le> length q"
  shows "str_find [c] q start = (if c \<in> set (drop start q) then Some (start + length (before c (drop start q))) else None)"
    "c \<in> set (drop start q) \<Longrightarrow> str_substr q start (span start (str_find [c] q start)) = Inr (before c (drop start q))"
    "c \<in> set (drop start q) \<Longrightarrow> Suc (start + length (before c (drop start q))) \<le> length q"
    "c \<in> set (drop start q) \<Longrightarrow> drop (Suc (start + length (before c (drop start q)))) q = behind c (drop start q)"
proof -
  show f: "str_find [c] q start = (if c \<in> set (drop start q) then Some (start + length (before c (drop start q))) else None)"
    using str_find_char [OF assms] by (simp add: before_def Let_def)
  assume c: "c \<in> set (drop start q)"
  have t: "before c (drop start q) = take (length (before c (drop start q))) (drop start q)" unfolding before_def by (rule takeWhile_eq_take)
  show "str_substr q start (span start (str_find [c] q start)) = Inr (before c (drop start q))"
    using f c t assms by (simp add: str_substr_def span_def)
  have "length (before c (drop start q)) < length (drop start q)"
    using c by (rule before_less)
  then show "Suc (start + length (before c (drop start q))) \<le> length q" by simp
  show "drop (Suc (start + length (before c (drop start q)))) q = behind c (drop start q)"
    using behind_drop [OF c] by (simp add: add.commute)
qed

lemma query_loop_read:
  "length (drop start q) < fuel \<Longrightarrow> start \<le> length q \<Longrightarrow> vec_rep ps xs \<Longrightarrow> length xs + length (drop start q) < 2 ^ 31 \<Longrightarrow>
    \<exists>ps'. uri_query_loop fuel q start ps = Inr (fst (query_read (drop start q)), ps') \<and>
      vec_rep ps' (xs @ snd (query_read (drop start q)))"
proof (induction fuel arbitrary: start ps xs)
  case (Suc fuel)
  let ?s = "drop start q" and ?e = "CHR ''=''" and ?a = "CHR ''&''"
  note f = find_rest [OF Suc.prems(2)]
  show ?case
  proof (cases "?e \<in> set ?s")
    case False
    then show ?thesis using f(1) [of ?e] Suc.prems(3) by (simp add: query_read.simps)
  next
    case True
    let ?o = "start + length (before ?e ?s)" and ?r = "behind ?e ?s"
    have o: "str_find ''='' q start = Some ?o" using f(1) [of ?e] True by simp
    have o': "str_substr q start (span start (Some ?o)) = Inr (before ?e ?s)" using f(2) [OF True] o by simp
    have le: "Suc ?o \<le> length q" and d: "drop (Suc ?o) q = ?r" using f(3,4) [OF True] by auto
    note g = find_rest [OF le, unfolded d]
    have len: "length ?r < length ?s" using behind_shorter [OF True] .
    have room: "length xs < 2 ^ 31" using Suc.prems(4) by simp
    show ?thesis
    proof (cases "?a \<in> set ?r")
      case False
      obtain ps' where "vec_push_back ps \<lparr>mKey = before ?e ?s, mParam = ?r\<rparr> = Inr ps'" "vec_rep ps' (xs @ [\<lparr>mKey = before ?e ?s, mParam = ?r\<rparr>])"
        using vec_push_back_rep [OF Suc.prems(3) room] by blast
      then show ?thesis using True False o o' g(1) [of ?a] le d
        by (simp add: query_read.simps [of ?s] Let_def str_substr_def [of q "Suc ?o"])
    next
      case amp: True
      let ?p = "\<lparr>mKey = before ?e ?s, mParam = before ?a ?r\<rparr>" and ?i = "Suc ?o + length (before ?a ?r)" and ?t = "behind ?a ?r"
      have i: "str_find ''&'' q (Suc ?o) = Some ?i" using g(1) [of ?a] amp by simp
      have i': "str_substr q (Suc ?o) (span (Suc ?o) (Some ?i)) = Inr (before ?a ?r)" using g(2) [OF amp] i by simp
      have ile: "Suc ?i \<le> length q" and id: "drop (Suc ?i) q = ?t" using g(3,4) [OF amp] by auto
      have h: "str_find ''='' q (Suc ?i) = None \<longleftrightarrow> ?e \<notin> set ?t" using find_rest(1) [OF ile, of ?e] id by simp
      have ilen: "length ?t < length ?r" using behind_shorter [OF amp] .
      obtain ps1 where ps1: "vec_push_back ps ?p = Inr ps1" "vec_rep ps1 (xs @ [?p])"
        using vec_push_back_rep [OF Suc.prems(3) room] by blast
      have step: "uri_query_loop (Suc fuel) q start ps =
          (if ?e \<notin> set ?t then Inr (True, ps1) else uri_query_loop fuel q (Suc ?i) ps1)"
        using o o' i i' ps1(1) h by (simp add: Let_def)
      show ?thesis
      proof (cases "?e \<in> set ?t")
        case False
        then show ?thesis unfolding step using True amp ps1(2) by (simp add: query_read.simps [of ?s] Let_def)
      next
        case more: True
        have "\<exists>ps'. uri_query_loop fuel q (Suc ?i) ps1 = Inr (fst (query_read (drop (Suc ?i) q)), ps') \<and>
            vec_rep ps' ((xs @ [?p]) @ snd (query_read (drop (Suc ?i) q)))"
          by (rule Suc.IH) (use ile ps1(2) id ilen len Suc.prems(1,4) in simp_all)
        then show ?thesis unfolding step id using more True amp by (simp add: query_read.simps [of ?s] Let_def)
      qed
    qed
  qed
qed simp

section \<open>Parameters\<close>

lemma findParam_list:
  "vec_rep (mQueryParams u) xs \<Longrightarrow> uri_findParam u key = Inr (first_index (\<lambda>p. mKey p = key) xs)"
  unfolding uri_findParam_def by (rule vec.find_first) (simp_all add: vec.size_law)

lemma buildQuery_list:
  assumes "vec_rep (mQueryParams u) xs"
  shows "uri_buildQuery u = Inr (if mModifiedQuery u then u\<lparr>mQueryString := query_text xs, mModifiedQuery := False\<rparr> else u)"
  using vec.fold_all [OF assms, of "Suc (mSize (mQueryParams u))" query_piece "[]"] vec.size_law [OF assms]
  by (simp add: uri_buildQuery_def query_text_def)

text \<open>The calls on the parameters, and the list that they work on.\<close>

datatype uri_op = AppendParam string string | RemoveParam string | GetParam string | GetQuery

fun uri_do :: "uri_op \<Rightarrow> uri \<Rightarrow> (string \<times> uri) outcome" where
  "uri_do (AppendParam k v) u = andThen (uri_appendQueryParam u k v) (\<lambda>u. Inr ([], u))"
| "uri_do (RemoveParam k) u = andThen (uri_removeQueryParam u k) (\<lambda>u. Inr ([], u))"
| "uri_do (GetParam k) u = andThen (uri_getQueryParam u k) (\<lambda>v. Inr (v, u))"
| "uri_do GetQuery u = uri_getQuery u"

fun uri_run :: "uri_op list \<Rightarrow> uri \<Rightarrow> (string list \<times> uri) outcome" where
  "uri_run [] u = Inr ([], u)"
| "uri_run (p # ops) u = andThen (uri_do p u) (\<lambda>(x, u). andThen (uri_run ops u) (\<lambda>(xs, u). Inr (x # xs, u)))"

fun without_first :: "('a \<Rightarrow> bool) \<Rightarrow> 'a list \<Rightarrow> 'a list" where
  "without_first P [] = []"
| "without_first P (x # xs) = (if P x then xs else x # without_first P xs)"

fun params_do :: "uri_op \<Rightarrow> query_param list \<Rightarrow> string \<times> query_param list" where
  "params_do (AppendParam k v) xs = ([], xs @ [\<lparr>mKey = k, mParam = v\<rparr>])"
| "params_do (RemoveParam k) xs = ([], without_first (\<lambda>p. mKey p = k) xs)"
| "params_do (GetParam k) xs = ((case List.find (\<lambda>p. mKey p = k) xs of None \<Rightarrow> [] | Some p \<Rightarrow> mParam p), xs)"
| "params_do GetQuery xs = (query_text xs, xs)"

fun params_run :: "uri_op list \<Rightarrow> query_param list \<Rightarrow> string list \<times> query_param list" where
  "params_run [] xs = ([], xs)"
| "params_run (p # ops) xs =
     (let (x, xs) = params_do p xs; (rs, xs) = params_run ops xs in (x # rs, xs))"

definition uri_params :: "uri \<Rightarrow> query_param list \<Rightarrow> bool" where
  "uri_params u xs \<longleftrightarrow> vec_rep (mQueryParams u) xs \<and> (mModifiedQuery u \<or> mQueryString u = query_text xs)"

lemma without_first_index:
  "without_first P xs = (let i = first_index P xs in if i = -1 then xs else take (nat i) xs @ drop (Suc (nat i)) xs)"
proof (induction xs)
  case (Cons x xs)
  have "first_index P xs = -1 \<or> 0 \<le> first_index P xs" using first_index_ge [of P xs] by linarith
  then show ?case using Cons by (auto simp: first_index_Cons Let_def nat_add_distrib)
qed (simp add: first_index_def)

lemma find_index:
  "List.find P xs = (let i = first_index P xs in if i = -1 then None else Some (xs ! nat i))"
proof (induction xs)
  case (Cons x xs)
  have "first_index P xs = -1 \<or> 0 \<le> first_index P xs" using first_index_ge [of P xs] by linarith
  then show ?case using Cons by (auto simp: first_index_Cons Let_def nat_add_distrib)
qed (simp add: first_index_def)

lemma first_index_lt: "first_index P xs \<noteq> -1 \<Longrightarrow> 0 \<le> first_index P xs \<and> nat (first_index P xs) < length xs"
proof (induction xs)
  case (Cons x xs)
  then show ?case by (auto simp: first_index_Cons nat_add_distrib split: if_splits)
qed (simp add: first_index_def)

lemma uri_do_params:
  assumes "uri_params u xs" "length xs < 2 ^ 31"
  shows "\<exists>u'. uri_do p u = Inr (fst (params_do p xs), u') \<and> uri_params u' (snd (params_do p xs))"
proof -
  have v: "vec_rep (mQueryParams u) xs" using assms(1) by (simp add: uri_params_def)
  show ?thesis
  proof (cases p)
    case (AppendParam k x)
    then show ?thesis using vec_push_back_rep [OF v assms(2), of "\<lparr>mKey = k, mParam = x\<rparr>"]
      by (auto simp: uri_appendQueryParam_def uri_params_def)
  next
    case (RemoveParam k)
    let ?i = "first_index (\<lambda>p. mKey p = k) xs"
    have w: "without_first (\<lambda>p. mKey p = k) xs = (if ?i = -1 then xs else take (nat ?i) xs @ drop (Suc (nat ?i)) xs)"
      by (simp add: without_first_index Let_def)
    obtain ps where "(if ?i \<noteq> -1 then vec_erase (mQueryParams u) (nat ?i) else Inr (mQueryParams u)) = Inr ps"
      "vec_rep ps (without_first (\<lambda>p. mKey p = k) xs)"
      using vec_erase_rep [OF v, of "nat ?i"] first_index_lt [of "\<lambda>p. mKey p = k" xs] v unfolding w by (cases "?i = -1") auto
    then show ?thesis using RemoveParam findParam_list [OF v, of k]
      by (auto simp: uri_removeQueryParam_def uri_params_def)
  next
    case (GetParam k)
    then show ?thesis using findParam_list [OF v, of k] first_index_lt [of "\<lambda>p. mKey p = k" xs] assms(1) vec.at_law [OF v]
      by (auto simp: uri_getQueryParam_def find_index Let_def)
  next
    case GetQuery
    then show ?thesis using buildQuery_list [OF v] assms(1) by (auto simp: uri_getQuery_def uri_params_def)
  qed
qed

lemma params_do_length: "length (snd (params_do p xs)) \<le> Suc (length xs)"
proof (cases p)
  case (RemoveParam k)
  have "length (without_first P ys) \<le> length ys" for P :: "query_param \<Rightarrow> bool" and ys by (induction ys) auto
  then show ?thesis using RemoveParam by (simp add: le_SucI)
qed simp_all

lemma uri_run_params:
  "uri_params u xs \<Longrightarrow> length xs + length ops < 2 ^ 31 \<Longrightarrow>
    \<exists>u'. uri_run ops u = Inr (fst (params_run ops xs), u') \<and> uri_params u' (snd (params_run ops xs))"
proof (induction ops arbitrary: u xs)
  case (Cons p ops)
  obtain u1 where u1: "uri_do p u = Inr (fst (params_do p xs), u1)" "uri_params u1 (snd (params_do p xs))"
    using uri_do_params [OF Cons.prems(1), of p] Cons.prems(2) by auto
  have "length (snd (params_do p xs)) + length ops < 2 ^ 31" using Cons.prems(2) params_do_length [of p xs] by simp
  from Cons.IH [OF u1(2) this] show ?case using u1 by (auto simp: split_beta Let_def)
qed simp

text \<open>
  any sequence of calls that append, remove and look up query parameters or ask for the query works
  on the list of parameters: the first parameter of a key is found and removed.
\<close>

theorem uri_params_refine:
  assumes "length ops < 2 ^ 31"
  shows "\<exists>u. uri_run ops URI_new = Inr (fst (params_run ops []), u) \<and> vec_rep (mQueryParams u) (snd (params_run ops []))"
proof -
  have "uri_params URI_new []" by (simp add: uri_params_def URI_new_def query_text_simps)
  from uri_run_params [OF this, of ops] assms show ?thesis by (auto simp: uri_params_def)
qed

theorem uri_params_refine_witness:
  "\<exists>u. uri_run [AppendParam ''a'' ''1'', AppendParam ''b'' ''2'', AppendParam ''a'' ''3'', RemoveParam ''a'', GetParam ''a'', GetQuery] URI_new =
      Inr ([[], [], [], [], ''3'', ''b=2&a=3''], u) \<and> vec_rep (mQueryParams u) [\<lparr>mKey = ''b'', mParam = ''2''\<rparr>, \<lparr>mKey = ''a'', mParam = ''3''\<rparr>]"
  using uri_params_refine [of "[AppendParam ''a'' ''1'', AppendParam ''b'' ''2'', AppendParam ''a'' ''3'', RemoveParam ''a'', GetParam ''a'', GetQuery]"]
  by (simp add: query_text_simps)

section \<open>Parsing what was built\<close>

text \<open>
  The parts of a URI whose string can be taken apart again, and that string: no part holds the delimiter that ends it,
  and a fragment without parameters in front of it, which is not found, has no question mark.
\<close>

definition parts_ok :: "string \<Rightarrow> string \<Rightarrow> string \<Rightarrow> query_param list \<Rightarrow> string \<Rightarrow> bool" where
  "parts_ok sch auth path ps frag \<longleftrightarrow>
     sch \<noteq> [] \<and> CHR '':'' \<notin> set sch \<and> CHR ''/'' \<notin> set auth \<and>
     path \<noteq> [] \<and> hd path = CHR ''/'' \<and> CHR ''?'' \<notin> set path \<and> (auth = [] \<longrightarrow> take 2 path \<noteq> ''//'') \<and>
     query_ok ps \<and> CHR ''#'' \<notin> set (query_text ps) \<and> (ps = [] \<longrightarrow> CHR ''?'' \<notin> set frag) \<and> length (query_text ps) < 2 ^ 31"

definition slashes :: "string \<Rightarrow> string" where
  "slashes sch = (if sch \<noteq> ''mailto'' \<and> sch \<noteq> ''news'' then ''//'' else [])"

definition tail_text :: "query_param list \<Rightarrow> string \<Rightarrow> string" where
  "tail_text ps frag = (if ps = [] then [] else ''?'' @ query_text ps) @ (if frag = [] then [] else ''#'' @ frag)"

definition uri_text :: "string \<Rightarrow> string \<Rightarrow> string \<Rightarrow> query_param list \<Rightarrow> string \<Rightarrow> string" where
  "uri_text sch auth path ps frag =
     sch @ '':'' @ (if auth = [] then [] else slashes sch @ auth) @ path @ tail_text ps frag"

lemma str_find_at [simp]:
  "c \<notin> set a \<Longrightarrow> length p = n \<Longrightarrow> str_find [c] (p @ a @ c # b) n = Some (n + length a)"
  "c \<notin> set a \<Longrightarrow> length p = n \<Longrightarrow> str_find [c] (p @ a) n = None"
  using str_find_in [of c a p b] str_find_none [of c a p] by auto

lemma parse_scheme_text:
  assumes "mFullString u = sch @ CHR '':'' # r" "CHR '':'' \<notin> set sch"
  shows "uri_parse_scheme u = Inr (Suc (length sch), u\<lparr>mScheme := sch\<rparr>)"
  using assms str_find_at(1) [of "CHR '':''" sch "[]" 0 r] by (simp add: uri_parse_scheme_def str_substr_def)

lemma parse_authority_none:
  assumes "mFullString u = pre @ path @ r" "path \<noteq> []" "hd path = CHR ''/''" "take 2 path \<noteq> ''//''"
    "r = [] \<or> hd r \<noteq> CHR ''/''"
  shows "uri_parse_authority (length pre) u = Inr (Some (length pre), u)"
proof -
  obtain p where p: "path = CHR ''/'' # p" using assms(2,3) by (cases path) auto
  have "str_find ''//'' (mFullString u) (length pre) \<noteq> Some (length pre)"
    using assms(4,5) unfolding str_find_here assms(1) p by (cases p; cases r) (auto simp: numeral_2_eq_2)
  moreover have "str_find ''/'' (mFullString u) (length pre) = Some (length pre)"
    unfolding str_find_here assms(1) p by simp
  ultimately show ?thesis by (simp add: uri_parse_authority_def)
qed

lemma parse_authority_some:
  assumes "mFullString u = pre @ sl @ auth @ CHR ''/'' # r" "sl = ''//'' \<or> sl = []" "auth \<noteq> []" "CHR ''/'' \<notin> set auth"
    "mScheme u \<noteq> []"
  shows "uri_parse_authority (length pre) u = Inr (Some (length (pre @ sl @ auth)), u\<lparr>mAuthority := auth\<rparr>)"
proof -
  obtain c a where c: "auth = c # a" "c \<noteq> CHR ''/''" using assms(3,4) by (cases auth) auto
  have f: "str_find ''/'' (mFullString u) (length (pre @ sl)) = Some (length (pre @ sl @ auth))"
    using str_find_in [OF assms(4), of "pre @ sl" r] assms(1) by simp
  have sub: "str_substr (mFullString u) (length (pre @ sl)) (span (length (pre @ sl)) (Some (length (pre @ sl @ auth)))) = Inr auth"
    unfolding assms(1) by (simp add: str_substr_def span_def)
  have sl: "str_find ''//'' (mFullString u) (length pre) = Some (length pre) \<longleftrightarrow> sl = ''//''"
    using assms(2) c unfolding str_find_here assms(1) by (auto simp: numeral_2_eq_2)
  have s1: "str_find ''/'' (mFullString u) (length pre) = Some (length pre) \<longleftrightarrow> sl = ''//''"
    using assms(2) c unfolding str_find_here assms(1) by (auto simp: numeral_2_eq_2)
  show ?thesis using assms(2)
  proof
    assume "sl = ''//''"
    then show ?thesis using f sub sl by (simp add: uri_parse_authority_def Let_def)
  next
    assume "sl = []"
    then show ?thesis using f sub sl s1 assms(5) by (simp add: uri_parse_authority_def Let_def)
  qed
qed

lemma parse_query_text:
  assumes "vec_rep (mQueryParams u) xs" "length xs + length (mQueryString u) < 2 ^ 31" "mQueryString u \<noteq> []"
  shows "\<exists>ps. uri_parseQuery u = Inr (fst (query_read (mQueryString u)), u\<lparr>mModifiedQuery := False, mQueryParams := ps\<rparr>) \<and>
    vec_rep ps (xs @ snd (query_read (mQueryString u)))"
proof -
  have "\<exists>ps. uri_query_loop (Suc (length (mQueryString u))) (mQueryString u) 0 (mQueryParams u) =
      Inr (fst (query_read (drop 0 (mQueryString u))), ps) \<and> vec_rep ps (xs @ snd (query_read (drop 0 (mQueryString u))))"
    by (rule query_loop_read) (use assms in simp_all)
  then show ?thesis using assms(3) by (auto simp: uri_parseQuery_def Let_def)
qed

lemma parse_path_text:
  assumes "mFullString u = pre @ path @ tail_text ps frag" "CHR ''?'' \<notin> set path" "vec_rep (mQueryParams u) []"
    "query_ok ps" "CHR ''#'' \<notin> set (query_text ps)" "frag \<noteq> [] \<longrightarrow> ps \<noteq> []" "length (query_text ps) < 2 ^ 31"
    "mQueryString u = []" "mFragment u = []"
  shows "\<exists>u'. uri_parse_path (length pre) u = Inr (True, u') \<and> mPath u' = path \<and> vec_rep (mQueryParams u') ps \<and>
    mFragment u' = frag \<and> mScheme u' = mScheme u \<and> mAuthority u' = mAuthority u \<and> mRelative u' = mRelative u \<and>
    mQueryString u' = query_text ps"
proof (cases "ps = []")
  case True
  then have f: "mFullString u = pre @ path" "frag = []" using assms(1,6) by (auto simp: tail_text_def)
  have "str_find ''?'' (mFullString u) (length pre) = None" unfolding f using assms(2) by simp
  then show ?thesis using assms(3,8,9) f True
    by (simp add: uri_parse_path_def Let_def str_substr_def span_def query_text_simps)
next
  case False
  let ?r = "if frag = [] then [] else ''#'' @ frag" and ?q = "query_text ps" and ?n = "length pre + length path"
  have full: "mFullString u = pre @ path @ CHR ''?'' # ?q @ ?r" using assms(1) False by (simp add: tail_text_def)
  have q: "str_find ''?'' (mFullString u) (length pre) = Some ?n" unfolding full using assms(2) by simp
  have full': "mFullString u = (pre @ path @ ''?'') @ ?q @ ?r" using full by simp
  have h: "str_find ''#'' (mFullString u) (Suc ?n) = (if frag = [] then None else Some (Suc ?n + length ?q))"
    using str_find_in [OF assms(5), of "pre @ path @ ''?''" frag] str_find_none [OF assms(5), of "pre @ path @ ''?''"]
    unfolding full' by auto
  have s1: "str_substr (mFullString u) (length pre) (span (length pre) (Some ?n)) = Inr path"
    unfolding full by (simp add: str_substr_def span_def)
  have s2: "str_substr (mFullString u) (Suc ?n) (span (Suc ?n) (if frag = [] then None else Some (Suc ?n + length ?q))) = Inr ?q"
    unfolding full' by (simp add: str_substr_def span_def)
  have s3: "frag \<noteq> [] \<Longrightarrow> str_substr (mFullString u) (Suc (Suc ?n + length ?q)) None = Inr frag"
    unfolding full' by (simp add: str_substr_def)
  obtain qs where qs: "uri_parseQuery (u\<lparr>mPath := path, mQueryString := ?q\<rparr>) =
      Inr (True, u\<lparr>mPath := path, mQueryString := ?q, mModifiedQuery := False, mQueryParams := qs\<rparr>)" "vec_rep qs ps"
    using parse_query_text [of "u\<lparr>mPath := path, mQueryString := ?q\<rparr>" "[]"] query_read_text [OF False assms(4)] assms(3,7)
      query_text_nil [of ps] False by auto
  show ?thesis using q h s1 s2 s3 qs assms(9) by (cases "frag = []") (simp_all add: uri_parse_path_def Let_def)
qed

lemma parse_text:
  assumes "parts_ok sch auth path ps frag" "frag \<noteq> [] \<longrightarrow> ps \<noteq> []" "u = URI_new\<lparr>mFullString := uri_text sch auth path ps frag\<rparr>"
  shows "\<exists>u'. uri_parseString u = Inr (True, u') \<and> mScheme u' = sch \<and> mAuthority u' = auth \<and> mPath u' = path \<and>
    vec_rep (mQueryParams u') ps \<and> mFragment u' = frag \<and> \<not> mRelative u' \<and> mQueryString u' = query_text ps"
proof -
  let ?mid = "if auth = [] then [] else slashes sch @ auth"
  let ?u = "u\<lparr>mModified := False, mRelative := False, mScheme := sch\<rparr>"
  have ok: "sch \<noteq> []" "CHR '':'' \<notin> set sch" "CHR ''/'' \<notin> set auth" "path \<noteq> []" "hd path = CHR ''/''" "CHR ''?'' \<notin> set path"
    "auth = [] \<longrightarrow> take 2 path \<noteq> ''//''" "query_ok ps" "CHR ''#'' \<notin> set (query_text ps)" "frag \<noteq> [] \<longrightarrow> ps \<noteq> []"
    "length (query_text ps) < 2 ^ 31" using assms(1,2) by (simp_all add: parts_ok_def)
  have full: "mFullString u = (sch @ '':'') @ ?mid @ path @ tail_text ps frag" using assms(3) by (simp add: uri_text_def)
  have sc: "uri_parse_scheme (u\<lparr>mModified := False, mRelative := False\<rparr>) = Inr (length (sch @ '':''), ?u)"
    using parse_scheme_text [OF _ ok(2), of "u\<lparr>mModified := False, mRelative := False\<rparr>"] full by simp
  have au: "uri_parse_authority (length (sch @ '':'')) ?u = Inr (Some (length (sch @ '':'' @ ?mid)), ?u\<lparr>mAuthority := auth\<rparr>)"
  proof (cases "auth = []")
    case True
    have t: "tail_text ps frag = [] \<or> hd (tail_text ps frag) \<noteq> CHR ''/''" by (auto simp: tail_text_def)
    have "mAuthority ?u = []" using assms(3) by (simp add: URI_new_def)
    then have "?u\<lparr>mAuthority := auth\<rparr> = ?u" using True by simp
    then show ?thesis using parse_authority_none [of ?u "sch @ '':''" path "tail_text ps frag"] ok True full t by simp
  next
    case False
    obtain p where p: "path = CHR ''/'' # p" using ok(4,5) by (cases path) auto
    have sl: "slashes sch = ''//'' \<or> slashes sch = []" by (simp add: slashes_def)
    show ?thesis using parse_authority_some [of ?u "sch @ '':''" "slashes sch" auth "p @ tail_text ps frag"] sl ok(1,3) False full p by simp
  qed
  let ?v = "?u\<lparr>mAuthority := auth\<rparr>"
  have lt: "length (sch @ '':'' @ ?mid) < length (mFullString ?v)" using full ok(4) by simp
  have "\<exists>u'. uri_parse_path (length (sch @ '':'' @ ?mid)) ?v = Inr (True, u') \<and> mPath u' = path \<and> vec_rep (mQueryParams u') ps \<and>
      mFragment u' = frag \<and> mScheme u' = mScheme ?v \<and> mAuthority u' = mAuthority ?v \<and> mRelative u' = mRelative ?v \<and>
      mQueryString u' = query_text ps"
    by (rule parse_path_text) (use full ok assms(3) in \<open>simp_all add: URI_new_def\<close>)
  then show ?thesis using sc au lt unfolding uri_parseString_def by auto
qed

text \<open>Parsing neither changes the string nor leaves something to write back.\<close>

lemma parseQuery_keeps: "uri_parseQuery u = Inr (ok, v) \<Longrightarrow> mFullString v = mFullString u \<and> mModified v = mModified u"
  by (auto simp: uri_parseQuery_def Let_def andThen_Inr_iff split: if_splits)

lemma parse_path_keeps: "uri_parse_path n u = Inr (ok, v) \<Longrightarrow> mFullString v = mFullString u \<and> mModified v = mModified u"
  by (auto simp: uri_parse_path_def Let_def andThen_Inr_iff split: if_splits option.splits dest!: parseQuery_keeps)

lemma parse_authority_keeps: "uri_parse_authority n u = Inr (st, v) \<Longrightarrow> mFullString v = mFullString u \<and> mModified v = mModified u"
  by (auto simp: uri_parse_authority_def Let_def andThen_Inr_iff split: if_splits)

lemma parse_scheme_keeps: "uri_parse_scheme u = Inr (n, v) \<Longrightarrow> mFullString v = mFullString u \<and> mModified v = mModified u"
  by (auto simp: uri_parse_scheme_def andThen_Inr_iff split: option.splits)

lemma parse_keeps: "uri_parseString u = Inr (ok, v) \<Longrightarrow> mFullString v = mFullString u \<and> \<not> mModified v"
  by (auto simp: uri_parseString_def andThen_Inr_iff split: option.splits if_splits
      dest!: parse_scheme_keeps parse_authority_keeps parse_path_keeps)

fun uri_append_all :: "query_param list \<Rightarrow> uri \<Rightarrow> uri outcome" where
  "uri_append_all [] u = Inr u"
| "uri_append_all (p # ps) u = andThen (uri_appendQueryParam u (mKey p) (mParam p)) (uri_append_all ps)"

text \<open>A client that sets the parts of a new URI and asks for its string.\<close>

definition uri_make :: "string \<Rightarrow> string \<Rightarrow> string \<Rightarrow> query_param list \<Rightarrow> string \<Rightarrow> (string \<times> uri) outcome" where
  "uri_make sch auth path ps frag =
     andThen (uri_append_all ps
       (uri_setFragment (uri_setPath (uri_setAuthority (uri_setScheme URI_new sch) auth) path False) frag)) uri_getString"

lemma append_all:
  "vec_rep (mQueryParams u) xs \<Longrightarrow> length xs + length ps < 2 ^ 31 \<Longrightarrow>
    \<exists>v. uri_append_all ps u = Inr (u\<lparr>mQueryParams := v, mModifiedQuery := (ps \<noteq> [] \<or> mModifiedQuery u), mModified := (ps \<noteq> [] \<or> mModified u)\<rparr>) \<and>
      vec_rep v (xs @ ps)"
proof (induction ps arbitrary: u xs)
  case Nil
  then show ?case by (intro exI [of _ "mQueryParams u"]) simp
next
  case (Cons p ps)
  have p: "\<lparr>mKey = mKey p, mParam = mParam p\<rparr> = p" by (cases p) simp
  obtain v where v: "vec_push_back (mQueryParams u) \<lparr>mKey = mKey p, mParam = mParam p\<rparr> = Inr v" "vec_rep v (xs @ [p])"
    using vec_push_back_rep [OF Cons.prems(1), of p] Cons.prems(2) unfolding p by auto
  let ?u = "u\<lparr>mQueryParams := v, mModifiedQuery := True, mModified := True\<rparr>"
  have "\<exists>w. uri_append_all ps ?u = Inr (?u\<lparr>mQueryParams := w, mModifiedQuery := (ps \<noteq> [] \<or> mModifiedQuery ?u),
      mModified := (ps \<noteq> [] \<or> mModified ?u)\<rparr>) \<and> vec_rep w ((xs @ [p]) @ ps)"
    by (rule Cons.IH) (use v(2) Cons.prems(2) in simp_all)
  then show ?case using v(1) by (simp add: uri_appendQueryParam_def)
qed

lemma query_text_length: "length ps \<le> length (query_text ps)"
  by (induction ps rule: induct_list012) (simp_all add: query_text_simps)

lemma make_text:
  assumes "parts_ok sch auth path ps frag"
  shows "\<exists>u. uri_make sch auth path ps frag = Inr (uri_text sch auth path ps frag, u)"
proof -
  let ?u = "uri_setFragment (uri_setPath (uri_setAuthority (uri_setScheme URI_new sch) auth) path False) frag"
  have ok: "sch \<noteq> []" "path \<noteq> []" "hd path = CHR ''/''" "length ps < 2 ^ 31"
    using assms query_text_length [of ps] by (simp_all add: parts_ok_def)
  have n: "vec_rep (mQueryParams ?u) []" "mQueryString ?u = []" "\<not> mModifiedQuery ?u" "mModified ?u"
    by (simp_all add: uri_setScheme_def uri_setAuthority_def uri_setPath_def uri_setFragment_def URI_new_def)
  obtain v where v: "uri_append_all ps ?u = Inr (?u\<lparr>mQueryParams := v, mModifiedQuery := (ps \<noteq> []), mModified := True\<rparr>)"
    "vec_rep v ps" using append_all [OF n(1), of ps] ok(4) n(3,4) by auto
  let ?w = "?u\<lparr>mQueryParams := v, mModifiedQuery := (ps \<noteq> []), mModified := True\<rparr>"
  have f: "mScheme ?w = sch" "mAuthority ?w = auth" "mPath ?w = path" "mFragment ?w = frag" "mModified ?w"
    using ok by (simp_all add: uri_setScheme_def uri_setAuthority_def uri_setPath_def uri_setFragment_def)
  have q: "uri_buildQuery ?w = Inr (if ps \<noteq> [] then ?w\<lparr>mQueryString := query_text ps, mModifiedQuery := False\<rparr> else ?w)"
    using buildQuery_list [of ?w ps] v(2) by simp
  have "\<exists>u. uri_getString ?w = Inr (uri_text sch auth path ps frag, u)"
    using q f ok(1) n(2) query_text_nil [of ps]
    by (cases "ps = []") (auto simp: uri_getString_def uri_buildString_def Let_def uri_text_def tail_text_def slashes_def)
  then show ?thesis using v(1) by (simp add: uri_make_def)
qed

text \<open>A fragment without parameters is part of the path.\<close>

lemma uri_text_fragment: "frag \<noteq> [] \<Longrightarrow> uri_text sch auth path [] frag = uri_text sch auth (path @ ''#'' @ frag) [] []"
  by (simp add: uri_text_def tail_text_def)

lemma parts_ok_fragment: "parts_ok sch auth path [] frag \<Longrightarrow> parts_ok sch auth (path @ ''#'' @ frag) [] []"
  unfolding parts_ok_def by (cases path; cases "tl path") auto

text \<open>
  C18: let a URI be built from its parts: a scheme that is not empty, an authority, a path that starts with a slash,
  parameters and a fragment, none of which holds an unescaped delimiter that the parser looks for in it (\<open>parts_ok\<close>).
  Read again from its string it has the same scheme, authority and query parameters in order, and that string; with
  parameters or without a fragment it has the same path and fragment too. A fragment without parameters is not found:
  it is read as the end of the path, with its number sign.
\<close>

theorem uri_build_parse:
  assumes "parts_ok sch auth path ps frag"
  shows "\<exists>s u v. uri_make sch auth path ps frag = Inr (s, u) \<and> URI_of_string s = Inr v \<and>
    mScheme v = sch \<and> mAuthority v = auth \<and> vec_rep (mQueryParams v) ps \<and>
    (if frag \<noteq> [] \<and> ps = [] then mPath v = path @ ''#'' @ frag \<and> mFragment v = [] else mPath v = path \<and> mFragment v = frag) \<and>
    \<not> mRelative v \<and> uri_getString v = Inr (s, v)"
proof -
  let ?s = "uri_text sch auth path ps frag"
  obtain u where u: "uri_make sch auth path ps frag = Inr (?s, u)" using make_text [OF assms] by blast
  have "\<exists>v. uri_parseString (URI_new\<lparr>mFullString := ?s\<rparr>) = Inr (True, v) \<and> mScheme v = sch \<and> mAuthority v = auth \<and>
    vec_rep (mQueryParams v) ps \<and> \<not> mRelative v \<and>
    (if frag \<noteq> [] \<and> ps = [] then mPath v = path @ ''#'' @ frag \<and> mFragment v = [] else mPath v = path \<and> mFragment v = frag)"
  proof (cases "frag \<noteq> [] \<and> ps = []")
    case True
    then have t: "?s = uri_text sch auth (path @ ''#'' @ frag) [] []" "parts_ok sch auth (path @ ''#'' @ frag) [] []"
      using uri_text_fragment [of frag sch auth path] parts_ok_fragment [of sch auth path frag] assms by simp_all
    show ?thesis using parse_text [OF t(2) _ refl] True unfolding t(1) by auto
  next
    case False
    then show ?thesis using parse_text [OF assms _ refl] by auto
  qed
  then obtain v where v: "uri_parseString (URI_new\<lparr>mFullString := ?s\<rparr>) = Inr (True, v)" "mScheme v = sch" "mAuthority v = auth"
    "vec_rep (mQueryParams v) ps" "\<not> mRelative v"
    "if frag \<noteq> [] \<and> ps = [] then mPath v = path @ ''#'' @ frag \<and> mFragment v = [] else mPath v = path \<and> mFragment v = frag"
    by blast
  moreover have "URI_of_string ?s = Inr v" "uri_getString v = Inr (?s, v)"
    using v(1) parse_keeps [OF v(1)] by (simp_all add: URI_of_string_def uri_getString_def uri_buildString_def)
  ultimately show ?thesis using u by blast
qed

definition uri_sample :: "query_param list" where
  "uri_sample = [\<lparr>mKey = ''c'', mParam = ''d''\<rparr>, \<lparr>mKey = ''e'', mParam = ''f''\<rparr>]"

theorem uri_build_parse_witness:
  "(\<exists>s u v. uri_make ''http'' ''h:80'' ''/a/b'' uri_sample ''m'' = Inr (s, u) \<and> URI_of_string s = Inr v \<and>
    mPath v = ''/a/b'' \<and> vec_rep (mQueryParams v) uri_sample \<and> mFragment v = ''m'') \<and>
   (\<exists>s u v. uri_make ''http'' ''h'' ''/a'' [] ''m'' = Inr (s, u) \<and> URI_of_string s = Inr v \<and> mPath v = ''/a#m'' \<and> mFragment v = [])"
proof -
  have "uri_sample \<noteq> []" by (simp add: uri_sample_def)
  moreover have "parts_ok ''http'' ''h:80'' ''/a/b'' uri_sample ''m''" "parts_ok ''http'' ''h'' ''/a'' [] ''m''"
    by (simp_all add: parts_ok_def uri_sample_def query_ok_def query_text_simps)
  ultimately show ?thesis
    using uri_build_parse [of "''http''" "''h:80''" "''/a/b''" uri_sample "''m''"] uri_build_parse [of "''http''" "''h''" "''/a''" "[]" "''m''"]
    by auto
qed

text \<open>
  Setting a query keeps the parameters of the old query in front of the new ones, so that a look-up
  finds the old value, while the query is the new one and the string of the URI does not change at all.
\<close>

theorem uri_setQuery_keeps_old:
  assumes "vec_rep (mQueryParams u) xs" "ys \<noteq> []" "query_ok ys" "length xs + length (query_text ys) < 2 ^ 31" "\<not> mModified u"
  shows "\<exists>v. uri_setQuery u (query_text ys) = Inr v \<and> vec_rep (mQueryParams v) (xs @ ys) \<and>
    uri_getQuery v = Inr (query_text ys, v) \<and> uri_getString v = Inr (mFullString u, v)"
proof -
  obtain ps where "uri_parseQuery (u\<lparr>mQueryString := query_text ys\<rparr>) =
      Inr (True, u\<lparr>mQueryString := query_text ys, mModifiedQuery := False, mQueryParams := ps\<rparr>)" "vec_rep ps (xs @ ys)"
    using parse_query_text [of "u\<lparr>mQueryString := query_text ys\<rparr>" xs] query_read_text [OF assms(2,3)] query_text_nil [of ys] assms
    by auto
  then show ?thesis using assms(5)
    by (simp add: uri_setQuery_def uri_getQuery_def uri_buildQuery_def uri_getString_def uri_buildString_def)
qed

theorem uri_setQuery_keeps_old_witness:
  "\<exists>v. uri_setQuery URI_new ''c=d&e=f'' = Inr v \<and> vec_rep (mQueryParams v) uri_sample \<and>
    uri_getQuery v = Inr (''c=d&e=f'', v) \<and> uri_getString v = Inr ([], v)"
  using uri_setQuery_keeps_old [of URI_new "[]" uri_sample]
  by (simp add: URI_new_def uri_sample_def query_ok_def query_text_simps)

section \<open>Any string\<close>

lemma find_le: "str_find pat s n = Some k \<Longrightarrow> n \<le> k \<and> k + length pat \<le> length s"
proof -
  assume "str_find pat s n = Some k"
  then have k: "k \<in> set [n..<Suc (length s)]" "take (length pat) (drop k s) = pat"
    by (auto simp: str_find_def find_Some_iff in_set_conv_nth simp del: upt_Suc)
  have "length (take (length pat) (drop k s)) = length pat" using k(2) by simp
  then show ?thesis using k(1) by auto
qed

lemma parse_query_total:
  assumes "vec_rep (mQueryParams u) []" "length (mQueryString u) < 2 ^ 31"
  shows "\<exists>x. uri_parseQuery u = Inr x"
proof (cases "mQueryString u = []")
  case True
  then show ?thesis using vec_clear_rep [OF assms(1)] by (auto simp: uri_parseQuery_def)
next
  case False
  then show ?thesis using parse_query_text [OF assms(1)] assms(2) by fastforce
qed

lemma parse_path_total:
  assumes "start \<le> length (mFullString u)" "vec_rep (mQueryParams u) []" "length (mFullString u) < 2 ^ 31"
  shows "\<exists>x. uri_parse_path start u = Inr x"
proof (cases "str_find ''?'' (mFullString u) start")
  case None
  then show ?thesis using assms by (auto simp: uri_parse_path_def str_substr_def Let_def)
next
  case (Some off)
  let ?s = "mFullString u" and ?h = "str_find ''#'' (mFullString u) (Suc off)"
  have o: "Suc off \<le> length ?s" using find_le [OF Some] by simp
  have sub: "\<exists>x. str_substr ?s n k = Inr x \<and> length x \<le> length ?s" if "n \<le> length ?s" for n k
    using that by (auto simp: str_substr_def split: option.splits)
  obtain x where x: "str_substr ?s start (span start (Some off)) = Inr x" using sub assms(1) by blast
  obtain q where q: "str_substr ?s (Suc off) (span (Suc off) ?h) = Inr q" "length q \<le> length ?s" using sub o by blast
  obtain ok v where v: "uri_parseQuery (u\<lparr>mPath := x, mQueryString := q\<rparr>) = Inr (ok, v)"
    using parse_query_total [of "u\<lparr>mPath := x, mQueryString := q\<rparr>"] assms(2,3) q(2) by auto
  show ?thesis
  proof (cases ?h)
    case None
    then show ?thesis using Some x q v by (auto simp: uri_parse_path_def Let_def)
  next
    case (Some k)
    then obtain f where "str_substr ?s (Suc k) None = Inr f" using sub find_le [OF Some] by force
    then show ?thesis using Some \<open>str_find ''?'' (mFullString u) start = Some off\<close> x q v
      by (auto simp: uri_parse_path_def Let_def)
  qed
qed

lemma parse_authority_total:
  assumes "start \<le> length (mFullString u)"
  shows "\<exists>st v. uri_parse_authority start u = Inr (st, v) \<and> mQueryParams v = mQueryParams u \<and> mFullString v = mFullString u"
proof -
  have "\<exists>x. str_substr (mFullString u) n (span n k) = Inr x" if "n \<le> length (mFullString u)" for n k
    using that by (simp add: str_substr_def)
  note sub = this
  let ?s = "mFullString u" and ?f = "str_find ''//'' (mFullString u) start = Some start"
  show ?thesis
  proof (cases ?f)
    case True
    have "start + 2 \<le> length ?s" using find_le [OF True] by simp
    then obtain x where "str_substr ?s (start + 2) (span (start + 2) (str_find ''/'' ?s (start + 2))) = Inr x" using sub by blast
    then show ?thesis using True by (simp add: uri_parse_authority_def Let_def)
  next
    case False
    obtain x where "str_substr ?s start (span start (str_find ''/'' ?s start)) = Inr x" using sub assms by blast
    then show ?thesis using False by (simp add: uri_parse_authority_def Let_def)
  qed
qed

text \<open>
  Setting any string returns: no position that is passed on is out of range, and the reading of the
  parameters ends.
\<close>

theorem uri_setString_total:
  assumes "vec_rep (mQueryParams u) xs" "length s < 2 ^ 31"
  shows "\<exists>ok v. uri_setString u s = Inr (ok, v) \<and> mFullString v = s \<and> uri_getString v = Inr (s, v)"
proof -
  obtain ps where ps: "vec_clear (mQueryParams u) = Inr ps" "vec_rep ps []" using vec_clear_rep [OF assms(1)] by blast
  obtain u1 where u1: "uri_clear u = Inr u1" "mQueryParams u1 = ps" using ps(1) by (simp add: uri_clear_def)
  let ?u = "u1\<lparr>mFullString := s, mModified := False, mRelative := False\<rparr>"
  obtain n u2 where u2: "uri_parse_scheme ?u = Inr (n, u2)" "n \<le> length s" "mQueryParams u2 = ps" "mFullString u2 = s"
    using u1(2) find_le [of "'':''" s 0] by (cases "str_find '':'' s 0") (auto simp: uri_parse_scheme_def str_substr_def)
  obtain st u3 where u3: "uri_parse_authority n u2 = Inr (st, u3)" "mQueryParams u3 = ps" "mFullString u3 = s"
    using parse_authority_total [of n u2] u2 by auto
  have "\<exists>x. uri_parseString (u1\<lparr>mFullString := s\<rparr>) = Inr x"
    using u2(1) u3 parse_path_total [of _ u3] ps(2) assms(2)
    by (cases st) (auto simp: uri_parseString_def)
  then obtain ok v where v: "uri_parseString (u1\<lparr>mFullString := s\<rparr>) = Inr (ok, v)" by auto
  then show ?thesis using u1(1) parse_keeps [OF v] by (simp add: uri_setString_def uri_getString_def uri_buildString_def)
qed

theorem uri_setString_total_witness:
  "\<exists>ok v. uri_setString URI_new ''a:?b#'' = Inr (ok, v) \<and> mFullString v = ''a:?b#'' \<and> uri_getString v = Inr (''a:?b#'', v)"
  by (rule uri_setString_total [where xs = "[]"]) (simp_all add: URI_new_def)

end
