(* ===== verification/Allocator.thy ===== *)
theory Allocator
  imports JH_Prelude
begin

text \<open>
  The memory allocator (src/Allocator.cpp, include/Allocator.h). Addresses are offsets from the start of
  its buffer; the header of a block, its size and the pointer to the next free block, lies in front of
  the block. Pointers have 8 bytes. What clients write into their blocks is not
  modelled, nor is how the headers are aligned when the size of the buffer is no multiple of 8.
\<close>

section \<open>State\<close>

record anode =
  anSize :: nat
  anNext :: "nat option"

type_synonym aheap = "nat \<Rightarrow> anode option"

record allocator =
  aHeap :: aheap
  mFreeList :: "nat option"
  aSize :: nat
  mNumFreeNodes :: nat
  mDoCoalesceOnFree :: bool

definition PTR_SIZE :: nat where "PTR_SIZE = 8"
definition ALIGN_SIZE :: "nat \<Rightarrow> nat" where "ALIGN_SIZE n = (n + PTR_SIZE - 1) div PTR_SIZE * PTR_SIZE"
definition NODE_SIZE :: nat where "NODE_SIZE = ALIGN_SIZE 16"
definition SMALLEST_BLOCK :: nat where "SMALLEST_BLOCK = ALIGN_SIZE 16"

text \<open>Conversions to \<open>uint32_t\<close>, also of a difference, and to \<open>int\<close>.\<close>

definition u32 :: "int \<Rightarrow> nat" where "u32 n = nat (n mod 2 ^ 32)"
definition s32 :: "nat \<Rightarrow> int" where "s32 n = (int n + 2 ^ 31) mod 2 ^ 32 - 2 ^ 31"

definition an_get :: "aheap \<Rightarrow> nat \<Rightarrow> anode outcome" where
  "an_get h p = (case h p of None \<Rightarrow> Inl UndefinedBehaviour | Some x \<Rightarrow> Inr x)"

text \<open>A header is written anew; it must lie in the buffer.\<close>

definition an_write :: "nat \<Rightarrow> aheap \<Rightarrow> nat \<Rightarrow> anode \<Rightarrow> aheap outcome" where
  "an_write limit h p x = (if p + NODE_SIZE \<le> limit then Inr (h(p \<mapsto> x)) else Inl UndefinedBehaviour)"

definition Allocator_new :: "nat \<Rightarrow> bool \<Rightarrow> allocator outcome" where
  "Allocator_new n co =
     andThen (an_write n (\<lambda>_. None) 0 \<lparr>anSize = n, anNext = None\<rparr>) (\<lambda>h.
     Inr \<lparr>aHeap = h, mFreeList = Some 0, aSize = n, mNumFreeNodes = 1, mDoCoalesceOnFree = co\<rparr>)"

section \<open>Joining free nodes\<close>

fun al_join_loop :: "nat \<Rightarrow> nat option \<Rightarrow> int \<Rightarrow> allocator \<Rightarrow> (int \<times> allocator) outcome" where
  "al_join_loop 0 n count a = Inl NoReturn"
| "al_join_loop (Suc fuel) n count a =
     (case n of
        None \<Rightarrow> Inr (count, a)
      | Some p \<Rightarrow> andThen (an_get (aHeap a) p) (\<lambda>x.
          case anNext x of
            None \<Rightarrow> Inr (count, a)
          | Some q \<Rightarrow>
              if int q - int p = s32 (anSize x)
              then andThen (an_get (aHeap a) q) (\<lambda>y.
                   al_join_loop fuel n (count + 1)
                     (a\<lparr>aHeap := (aHeap a)(p \<mapsto> \<lparr>anSize = u32 (int (anSize x) + int (anSize y)), anNext = anNext y\<rparr>),
                        mNumFreeNodes := u32 (int (mNumFreeNodes a) - 1)\<rparr>))
              else al_join_loop fuel (Some q) count a))"

text \<open>Every turn leaves a node of the list behind, of which there are at most as many as bytes.\<close>

definition al_join_free_nodes :: "allocator \<Rightarrow> (int \<times> allocator) outcome" where
  "al_join_free_nodes a = (if mFreeList a = None then Inr (0, a) else al_join_loop (Suc (aSize a)) (mFreeList a) 0 a)"

section \<open>Allocation\<close>

fun al_search :: "nat \<Rightarrow> aheap \<Rightarrow> nat \<Rightarrow> nat option \<Rightarrow> nat option \<Rightarrow> (nat option \<times> nat option) outcome" where
  "al_search 0 h s n prev = Inl NoReturn"
| "al_search (Suc fuel) h s n prev =
     (case n of
        None \<Rightarrow> Inr (None, prev)
      | Some p \<Rightarrow> andThen (an_get h p) (\<lambda>x.
          if anSize x < s then al_search fuel h s (anNext x) n else Inr (n, prev)))"

text \<open>The node found is split, or removed from the list; the memory starts behind its header.\<close>

definition al_take :: "allocator \<Rightarrow> nat \<Rightarrow> nat \<Rightarrow> nat option \<Rightarrow> (nat \<times> allocator) outcome" where
  "al_take a s p prev =
     andThen (an_get (aHeap a) p) (\<lambda>x.
     if anSize x - s \<ge> NODE_SIZE + SMALLEST_BLOCK
     then let z = anSize x - s in
          andThen (an_write (aSize a) ((aHeap a)(p \<mapsto> x\<lparr>anSize := z\<rparr>)) (p + z) \<lparr>anSize = s, anNext = None\<rparr>) (\<lambda>h.
          Inr (p + z + NODE_SIZE, a\<lparr>aHeap := h\<rparr>))
     else let a = a\<lparr>mNumFreeNodes := u32 (int (mNumFreeNodes a) - 1)\<rparr> in
          andThen (case prev of
              Some v \<Rightarrow> andThen (an_get (aHeap a) v) (\<lambda>y. Inr (a\<lparr>aHeap := (aHeap a)(v \<mapsto> y\<lparr>anNext := anNext x\<rparr>)\<rparr>))
            | None \<Rightarrow> Inr (a\<lparr>mFreeList := anNext x\<rparr>)) (\<lambda>a.
          andThen (an_get (aHeap a) p) (\<lambda>x.
          Inr (p + NODE_SIZE, a\<lparr>aHeap := (aHeap a)(p \<mapsto> x\<lparr>anNext := None\<rparr>)\<rparr>))))"

text \<open>From \<open>retry\<close> on: the search goes on where it ended.\<close>

fun al_retry :: "nat \<Rightarrow> nat \<Rightarrow> nat option \<Rightarrow> nat option \<Rightarrow> allocator \<Rightarrow> (nat option \<times> allocator) outcome" where
  "al_retry 0 s n prev a = Inl NoReturn"
| "al_retry (Suc fuel) s n prev a =
     andThen (al_search (Suc (aSize a)) (aHeap a) s n prev) (\<lambda>(n, prev).
     case n of
       Some p \<Rightarrow> andThen (al_take a s p prev) (\<lambda>(q, a). Inr (Some q, a))
     | None \<Rightarrow>
         if mDoCoalesceOnFree a then Inr (None, a)
         else andThen (al_join_free_nodes a) (\<lambda>(count, a).
              if count > 0 then al_retry fuel s n prev a else Inr (None, a)))"

definition al_alloc :: "allocator \<Rightarrow> nat \<Rightarrow> (nat option \<times> allocator) outcome" where
  "al_alloc a n =
     (let s = u32 (int (ALIGN_SIZE n)); s = u32 (int s + int NODE_SIZE) in
      al_retry (Suc (Suc (aSize a))) s (mFreeList a) None a)"

section \<open>Freeing\<close>

fun al_place :: "nat \<Rightarrow> aheap \<Rightarrow> nat \<Rightarrow> nat option \<Rightarrow> nat option \<Rightarrow> (nat option \<times> nat option) outcome" where
  "al_place 0 h c n prev = Inl NoReturn"
| "al_place (Suc fuel) h c n prev =
     (case n of
        None \<Rightarrow> Inr (None, prev)
      | Some p \<Rightarrow> if p < c then andThen (an_get h p) (\<lambda>x. al_place fuel h c (anNext x) n) else Inr (n, prev))"

text \<open>The node goes behind \<open>prev\<close>, or is joined to it; the result is the node that it is then part of.\<close>

definition al_insert :: "allocator \<Rightarrow> nat \<Rightarrow> nat option \<Rightarrow> (nat \<times> allocator) outcome" where
  "al_insert a c prev =
     (case prev of
        Some v \<Rightarrow> andThen (an_get (aHeap a) v) (\<lambda>x. andThen (an_get (aHeap a) c) (\<lambda>y.
          if mDoCoalesceOnFree a \<and> v + anSize x = c
          then Inr (v, a\<lparr>aHeap := (aHeap a)(v \<mapsto> x\<lparr>anSize := u32 (int (anSize x) + int (anSize y))\<rparr>)\<rparr>)
          else Inr (c, a\<lparr>aHeap := (aHeap a)(c \<mapsto> y\<lparr>anNext := anNext x\<rparr>, v \<mapsto> x\<lparr>anNext := Some c\<rparr>),
                        mNumFreeNodes := u32 (int (mNumFreeNodes a) + 1)\<rparr>)))
      | None \<Rightarrow> andThen (an_get (aHeap a) c) (\<lambda>y.
          Inr (c, a\<lparr>aHeap := (aHeap a)(c \<mapsto> y\<lparr>anNext := mFreeList a\<rparr>), mFreeList := Some c\<rparr>)))"

definition al_join_next :: "allocator \<Rightarrow> nat \<Rightarrow> allocator outcome" where
  "al_join_next a c =
     (if \<not> mDoCoalesceOnFree a then Inr a
      else andThen (an_get (aHeap a) c) (\<lambda>x.
           case anNext x of
             None \<Rightarrow> Inr a
           | Some q \<Rightarrow>
               if int q - int c = s32 (anSize x)
               then andThen (an_get (aHeap a) q) (\<lambda>y.
                    Inr (a\<lparr>aHeap := (aHeap a)(c \<mapsto> \<lparr>anSize = u32 (int (anSize x) + int (anSize y)), anNext = anNext y\<rparr>),
                           mNumFreeNodes := u32 (int (mNumFreeNodes a) - 1)\<rparr>))
               else Inr a))"

text \<open>None is the null pointer; a pointer outside of the buffer is ignored.\<close>

definition al_free :: "allocator \<Rightarrow> int option \<Rightarrow> allocator outcome" where
  "al_free a buf =
     (case buf of
        None \<Rightarrow> Inr a
      | Some b \<Rightarrow>
          if b < 0 \<or> b \<ge> int (aSize a) then Inr a
          else if b < int NODE_SIZE then Inl UndefinedBehaviour
          else let c = nat b - NODE_SIZE in
               andThen (al_place (Suc (aSize a)) (aHeap a) c (mFreeList a) None) (\<lambda>(n, prev).
               andThen (al_insert a c prev) (\<lambda>(c, a). al_join_next a c)))"

fun al_sum_loop :: "nat \<Rightarrow> aheap \<Rightarrow> nat option \<Rightarrow> nat \<Rightarrow> nat outcome" where
  "al_sum_loop 0 h n sm = Inl NoReturn"
| "al_sum_loop (Suc fuel) h n sm =
     (case n of
        None \<Rightarrow> Inr sm
      | Some p \<Rightarrow> andThen (an_get h p) (\<lambda>x. al_sum_loop fuel h (anNext x) (u32 (int sm + int (anSize x)))))"

definition al_getFreeSpace :: "allocator \<Rightarrow> (nat \<times> allocator) outcome" where
  "al_getFreeSpace a =
     (let n = mFreeList a in
      andThen (if mDoCoalesceOnFree a then Inr a else andThen (al_join_free_nodes a) (\<lambda>(count, a). Inr a)) (\<lambda>a.
      andThen (al_sum_loop (Suc (aSize a)) (aHeap a) n 0) (\<lambda>sm. Inr (sm, a))))"

section \<open>Blocks\<close>

text \<open>
  The buffer as a sequence of blocks that lie one behind the other: the size of each one and whether it is
  free. \<open>seg h pos bs l l'\<close>: the blocks \<open>bs\<close> lie at \<open>pos\<close>, the free ones are linked in their order, \<open>l\<close> points to
  the first of them and the last one to \<open>l'\<close>.
\<close>

type_synonym blocks = "(nat \<times> bool) list"

fun seg :: "aheap \<Rightarrow> nat \<Rightarrow> blocks \<Rightarrow> nat option \<Rightarrow> nat option \<Rightarrow> bool" where
  "seg h pos [] l l' \<longleftrightarrow> l = l'"
| "seg h pos ((z, free) # bs) l l' \<longleftrightarrow> 16 \<le> z \<and>
     (case h pos of
        None \<Rightarrow> False
      | Some x \<Rightarrow> anSize x = z \<and> (if free then l = Some pos \<and> seg h (pos + z) bs (anNext x) l' else seg h (pos + z) bs l l'))"

definition extent :: "blocks \<Rightarrow> nat" where "extent bs = sum_list (map fst bs)"

lemma extent_simps [simp]: "extent [] = 0" "extent (b # bs) = fst b + extent bs" "extent (as @ bs) = extent as + extent bs"
  by (simp_all add: extent_def)

fun last_free :: "nat \<Rightarrow> blocks \<Rightarrow> nat option \<Rightarrow> nat option" where
  "last_free pos [] v = v"
| "last_free pos ((z, free) # bs) v = last_free (pos + z) bs (if free then Some pos else v)"

lemma seg_append: "seg h pos (as @ bs) l l' \<longleftrightarrow> (\<exists>k. seg h pos as l k \<and> seg h (pos + extent as) bs k l')"
  by (induction as arbitrary: pos l) (auto simp: add.assoc split: option.splits if_splits)

lemma seg_frame:
  "\<forall>p. pos \<le> p \<and> p < pos + extent bs \<longrightarrow> h' p = h p \<Longrightarrow> seg h' pos bs l l' \<longleftrightarrow> seg h pos bs l l'"
proof (induction bs arbitrary: pos l)
  case (Cons b bs)
  obtain z f where b: "b = (z, f)" by (cases b)
  show ?case
  proof (cases "16 \<le> z")
    case True
    then have "h' pos = h pos" "\<forall>p. pos + z \<le> p \<and> p < pos + z + extent bs \<longrightarrow> h' p = h p" using Cons.prems b by auto
    then show ?thesis using Cons.IH [of "pos + z"] b by (auto split: option.splits)
  qed (simp add: b)
qed simp

lemma seg_upd:
  "p < pos \<or> pos + extent bs \<le> p \<Longrightarrow> seg (h(p \<mapsto> x)) pos bs l l' \<longleftrightarrow> seg h pos bs l l'"
  by (rule seg_frame) auto

fun no_free :: "blocks \<Rightarrow> bool" where
  "no_free [] \<longleftrightarrow> True"
| "no_free ((z, free) # bs) \<longleftrightarrow> \<not> free \<and> no_free bs"

lemma last_free_cases:
  "no_free bs \<Longrightarrow> last_free pos bs v = v"
  "\<not> no_free bs \<Longrightarrow> \<exists>w. \<forall>v. last_free pos bs v = Some w"
proof (induction bs arbitrary: pos v)
  case (Cons b bs)
  obtain z f where b: "b = (z, f)" by (cases b)
  {
    case 1
    then show ?case using Cons.IH(1) b by simp
  next
    case 2
    show ?case
    proof (cases "no_free bs")
      case True
      then show ?thesis using 2 b Cons.IH(1) [OF True] by simp
    next
      case False
      then show ?thesis using Cons.IH(2) [OF False, of "pos + z"] b by auto
    qed
  }
qed simp_all

lemma last_free_bound:
  "last_free pos bs None = Some p \<Longrightarrow> seg h pos bs l l' \<Longrightarrow> pos \<le> p \<and> p < pos + extent bs"
proof (induction bs arbitrary: pos l)
  case (Cons b bs)
  obtain z f where b: "b = (z, f)" by (cases b)
  obtain k where k: "seg h (pos + z) bs k l'" "16 \<le> z" using Cons.prems(2) b by (auto split: option.splits if_splits)
  show ?case
  proof (cases "no_free bs")
    case True
    then show ?thesis using Cons.prems(1) b k(2) by (auto simp: last_free_cases split: if_splits)
  next
    case False
    obtain w where w: "\<forall>v. last_free (pos + z) bs v = Some w" using last_free_cases(2) [OF False] by blast
    then show ?thesis using Cons.IH [OF _ k(1)] Cons.prems(1) b by simp
  qed
qed simp

text \<open>The last free block before a position is made to point elsewhere; without one, the start of the list is.\<close>

lemma seg_none: "no_free bs \<Longrightarrow> seg h pos bs l l' \<Longrightarrow> l = l' \<and> seg h pos bs k k"
  by (induction bs arbitrary: pos) (auto split: option.splits)

lemma seg_redirect:
  assumes "seg h pos bs l l'" "last_free pos bs None = Some v"
  shows "\<exists>x. h v = Some x \<and> anNext x = l' \<and> seg (h(v \<mapsto> x\<lparr>anNext := k\<rparr>)) pos bs l k"
  using assms
proof (induction bs arbitrary: pos l)
  case (Cons b bs)
  obtain z f where b: "b = (z, f)" by (cases b)
  obtain x where x: "h pos = Some x" "anSize x = z" "16 \<le> z" "f \<longrightarrow> l = Some pos"
    "seg h (pos + z) bs (if f then anNext x else l) l'" using Cons.prems(1) b by (auto split: option.splits if_splits)
  show ?case
  proof (cases "no_free bs")
    case True
    then have v: "v = pos" "f" using Cons.prems(2) b by (auto simp: last_free_cases split: if_splits)
    have n: "anNext x = l'" "seg h (pos + z) bs k k" using x(5) v(2) seg_none [OF True, of h "pos + z" _ l' k] by auto
    have "seg (h(pos \<mapsto> x\<lparr>anNext := k\<rparr>)) (pos + z) bs k k" using n(2) seg_upd [of pos "pos + z" bs h] x(3) by simp
    then show ?thesis using x v b n(1) by (simp add: fun_upd_same del: fun_upd_apply)
  next
    case False
    obtain w where w: "\<forall>v. last_free (pos + z) bs v = Some w" using last_free_cases(2) [OF False] by blast
    then have v: "last_free (pos + z) bs None = Some v" using Cons.prems(2) b by simp
    obtain y where y: "h v = Some y" "anNext y = l'" "seg (h(v \<mapsto> y\<lparr>anNext := k\<rparr>)) (pos + z) bs (if f then anNext x else l) k"
      using Cons.IH [OF x(5) v] by blast
    have "v \<noteq> pos" using last_free_bound [OF v x(5)] x(3) by auto
    then show ?thesis using x y b by (cases f) (simp_all add: fun_upd_other del: fun_upd_apply)
  qed
qed simp

lemma seg_start:
  assumes "seg h pos bs l l'" "last_free pos bs None = None"
  shows "l = l' \<and> seg h pos bs k k"
proof -
  have "no_free bs" using assms(2) last_free_cases(2) [of bs pos] by (cases "no_free bs") auto
  then show ?thesis using assms(1) by (rule seg_none)
qed

lemma seg_length: "seg h pos bs l l' \<Longrightarrow> 16 * length bs \<le> extent bs"
proof (induction bs arbitrary: pos l)
  case (Cons b bs)
  obtain z f where b: "b = (z, f)" by (cases b)
  then obtain k where "seg h (pos + z) bs k l'" "16 \<le> z" using Cons.prems by (auto split: option.splits if_splits)
  then show ?case using Cons.IH b by fastforce
qed simp

definition al_rep :: "allocator \<Rightarrow> blocks \<Rightarrow> bool" where
  "al_rep a bs \<longleftrightarrow> seg (aHeap a) 0 bs (mFreeList a) None \<and> extent bs = aSize a \<and> aSize a < 2 ^ 31"

section \<open>Searching\<close>

definition no_fit :: "nat \<Rightarrow> blocks \<Rightarrow> bool" where
  "no_fit s bs \<longleftrightarrow> (\<forall>b \<in> set bs. snd b \<longrightarrow> fst b < s)"

text \<open>First fit, with the address of the block that is used.\<close>

fun fit :: "nat \<Rightarrow> nat \<Rightarrow> blocks \<Rightarrow> (nat \<times> blocks) option" where
  "fit s pos [] = None"
| "fit s pos ((z, free) # bs) =
     (if free \<and> s \<le> z
      then if z - s \<ge> 32 then Some (pos + (z - s), (z - s, True) # (s, False) # bs) else Some (pos, (z, False) # bs)
      else map_option (\<lambda>(p, bs). (p, (z, free) # bs)) (fit s (pos + z) bs))"

lemma fit_none: "no_fit s bs \<Longrightarrow> fit s pos bs = None"
  by (induction bs arbitrary: pos) (auto simp: no_fit_def)

lemma fit_some:
  "no_fit s as \<Longrightarrow> s \<le> z \<Longrightarrow> fit s pos (as @ (z, True) # cs) =
     (if z - s \<ge> 32 then Some (pos + extent as + (z - s), as @ (z - s, True) # (s, False) # cs)
      else Some (pos + extent as, as @ (z, False) # cs))"
  by (induction as arbitrary: pos) (auto simp: no_fit_def add.assoc)

lemma al_search_seg:
  assumes "seg h pos bs l None" "length bs < fuel"
  shows "(\<exists>as z cs. bs = as @ (z, True) # cs \<and> s \<le> z \<and> no_fit s as \<and>
      al_search fuel h s l prev = Inr (Some (pos + extent as), last_free pos as prev)) \<or>
    (no_fit s bs \<and> al_search fuel h s l prev = Inr (None, last_free pos bs prev))"
  using assms
proof (induction bs arbitrary: pos l fuel prev)
  case Nil
  then show ?case by (cases fuel) (simp_all add: no_fit_def)
next
  case (Cons b bs)
  obtain z f where b: "b = (z, f)" by (cases b)
  obtain x where x: "h pos = Some x" "anSize x = z" "f \<longrightarrow> l = Some pos" "seg h (pos + z) bs (if f then anNext x else l) None"
    using Cons.prems(1) b by (auto split: option.splits if_splits)
  show ?case
  proof (cases "f \<and> s \<le> z")
    case True
    then show ?thesis using x b Cons.prems(2)
      by (intro disjI1 exI [of _ "[]"] exI [of _ z] exI [of _ bs]) (cases fuel; simp add: no_fit_def an_get_def)
  next
    case False
    define g where "g = (if f then fuel - 1 else fuel)"
    have g: "length bs < g" using Cons.prems(2) by (auto simp: g_def)
    have step: "al_search fuel h s l prev = al_search g h s (if f then anNext x else l) (if f then Some pos else prev)"
      using x False Cons.prems(2) by (cases fuel) (auto simp: g_def an_get_def)
    from Cons.IH [OF x(4) g, of "if f then Some pos else prev"] show ?thesis
    proof (elim disjE exE conjE)
      fix as z' cs assume "bs = as @ (z', True) # cs" "s \<le> z'" "no_fit s as"
        "al_search g h s (if f then anNext x else l) (if f then Some pos else prev) =
          Inr (Some (pos + z + extent as), last_free (pos + z) as (if f then Some pos else prev))"
      then show ?thesis using step b False
        by (intro disjI1 exI [of _ "b # as"] exI [of _ z'] exI [of _ cs]) (auto simp: no_fit_def add.assoc)
    next
      assume "no_fit s bs" "al_search g h s (if f then anNext x else l) (if f then Some pos else prev) =
          Inr (None, last_free (pos + z) bs (if f then Some pos else prev))"
      then show ?thesis using step b False by (auto simp: no_fit_def)
    qed
  qed
qed

text \<open>The block that is found is taken.\<close>

lemma al_take_seg:
  assumes r: "al_rep a (as @ (z, True) # cs)" and s: "s \<le> z" "16 \<le> s"
  shows "\<exists>a'. al_take a s (extent as) (last_free 0 as None) =
      Inr ((if z - s \<ge> 32 then extent as + (z - s) else extent as) + 16, a') \<and>
    al_rep a' (if z - s \<ge> 32 then as @ (z - s, True) # (s, False) # cs else as @ (z, False) # cs) \<and>
    aSize a' = aSize a \<and> mDoCoalesceOnFree a' = mDoCoalesceOnFree a"
proof -
  let ?h = "aHeap a" and ?p = "extent as"
  obtain l where l: "seg ?h 0 as (mFreeList a) l" "seg ?h ?p ((z, True) # cs) l None" "?p + z + extent cs = aSize a"
    "aSize a < 2 ^ 31" using r by (auto simp: al_rep_def seg_append)
  obtain x where x: "?h ?p = Some x" "anSize x = z" "16 \<le> z" "l = Some ?p" "seg ?h (?p + z) cs (anNext x) None"
    using l(2) by (auto split: option.splits)
  have n: "NODE_SIZE = 16" "SMALLEST_BLOCK = 16" by (simp_all add: NODE_SIZE_def SMALLEST_BLOCK_def ALIGN_SIZE_def PTR_SIZE_def)
  show ?thesis
  proof (cases "z - s \<ge> 32")
    case True
    let ?h' = "?h(?p \<mapsto> x\<lparr>anSize := z - s\<rparr>, ?p + (z - s) \<mapsto> \<lparr>anSize = s, anNext = None\<rparr>)"
    have t: "al_take a s ?p (last_free 0 as None) = Inr (?p + (z - s) + 16, a\<lparr>aHeap := ?h'\<rparr>)"
      using True x l(3) s by (simp add: al_take_def an_get_def an_write_def n Let_def)
    have "seg ?h' 0 as (mFreeList a) l" using l(1) by (simp add: seg_upd)
    moreover have "seg ?h' (?p + z) cs (anNext x) None" using x(5) True s by (simp add: seg_upd)
    ultimately have "seg ?h' 0 (as @ (z - s, True) # (s, False) # cs) (mFreeList a) None"
      unfolding seg_append using x True s by (intro exI [of _ l]) (simp add: add.assoc)
    then show ?thesis using t True l(3,4) s by (simp add: al_rep_def)
  next
    case False
    have u: "aHeap (a\<lparr>mNumFreeNodes := k\<rparr>) = ?h" for k by simp
    show ?thesis
    proof (cases "last_free 0 as None")
      case None
      let ?h' = "?h(?p \<mapsto> x\<lparr>anNext := None\<rparr>)"
      have as: "mFreeList a = l" "seg ?h 0 as (anNext x) (anNext x)" using seg_start [OF l(1) None] by auto
      have "seg ?h' 0 as (anNext x) (anNext x)" "seg ?h' (?p + z) cs (anNext x) None"
        using as(2) x(3,5) by (simp_all add: seg_upd)
      then have "seg ?h' 0 (as @ (z, False) # cs) (anNext x) None"
        unfolding seg_append using x by (intro exI [of _ "anNext x"]) simp
      then show ?thesis using x l(3,4) None False by (simp add: al_take_def an_get_def n Let_def al_rep_def)
    next
      case (Some v)
      obtain y where y: "?h v = Some y" "anNext y = l" "seg (?h(v \<mapsto> y\<lparr>anNext := anNext x\<rparr>)) 0 as (mFreeList a) (anNext x)"
        using seg_redirect [OF l(1) Some] by blast
      have v: "v < ?p" using last_free_bound [OF Some l(1)] by simp
      let ?h' = "?h(v \<mapsto> y\<lparr>anNext := anNext x\<rparr>, ?p \<mapsto> x\<lparr>anNext := None\<rparr>)"
      have "seg ?h' 0 as (mFreeList a) (anNext x)" "seg ?h' (?p + z) cs (anNext x) None"
        using y(3) x(3,5) v by (simp_all add: seg_upd)
      then have "seg ?h' 0 (as @ (z, False) # cs) (mFreeList a) None"
        unfolding seg_append using x by (intro exI [of _ "anNext x"]) simp
      then show ?thesis using x l(3,4) y(1) v Some False by (simp add: al_take_def an_get_def n Let_def al_rep_def)
    qed
  qed
qed

section \<open>Joining\<close>

fun joined :: "blocks \<Rightarrow> blocks" where
  "joined [] = []"
| "joined [b] = [b]"
| "joined ((z, f) # (y, g) # bs) = (if f \<and> g then joined ((z + y, True) # bs) else (z, f) # joined ((y, g) # bs))"

fun apart :: "blocks \<Rightarrow> bool" where
  "apart ((z, f) # (y, g) # bs) \<longleftrightarrow> \<not> (f \<and> g) \<and> apart ((y, g) # bs)"
| "apart bs \<longleftrightarrow> True"

lemma joined_extent [simp]: "extent (joined bs) = extent bs"
  by (induction bs rule: joined.induct) simp_all

lemma joined_length: "length (joined bs) \<le> length bs"
  by (induction bs rule: joined.induct) auto

lemma joined_apart_id: "apart bs \<Longrightarrow> joined bs = bs"
  by (induction bs rule: joined.induct) auto

lemma joined_hd: "\<exists>z' bs'. joined ((z, f) # bs) = (z', f) # bs'"
  by (induction "(z, f) # bs" arbitrary: z f bs rule: joined.induct) auto

lemma apart_joined: "apart (joined bs)"
proof (induction bs rule: joined.induct)
  case (3 z f y g bs)
  obtain w bs' where "joined ((y, g) # bs) = (w, g) # bs'" using joined_hd by blast
  then show ?case using 3 by auto
qed simp_all

lemma joined_no_free: "no_free bs \<Longrightarrow> joined bs = bs"
  by (induction bs rule: joined.induct) auto

lemma apart_successively: "apart bs \<longleftrightarrow> successively (\<lambda>a b. \<not> (snd a \<and> snd b)) bs"
  by (induction bs rule: apart.induct) auto

lemma apart_append: "apart (as @ bs) \<Longrightarrow> apart as \<and> apart bs"
  by (simp add: apart_successively successively_append_iff)

lemma joined_behind:
  "apart as \<Longrightarrow> as = [] \<or> \<not> snd (last as) \<Longrightarrow> joined (as @ bs) = as @ joined bs"
proof (induction as rule: induct_list012)
  case (2 v)
  then show ?case by (cases v; cases bs) auto
next
  case (3 x y as)
  then show ?case by (cases x; cases y) (auto split: if_splits)
qed simp

text \<open>How the sizes of the free blocks add up.\<close>

definition free_total :: "blocks \<Rightarrow> nat" where "free_total bs = sum_list (map fst (filter snd bs))"

lemma free_total_joined [simp]: "free_total (joined bs) = free_total bs"
  by (induction bs rule: joined.induct) (auto simp: free_total_def)

lemma free_total_le: "free_total bs \<le> extent bs"
  by (induction bs) (auto simp: free_total_def extent_def)

lemma seg_first: "seg h pos bs (Some q) None \<Longrightarrow> pos \<le> q"
proof (induction bs arbitrary: pos)
  case (Cons b bs)
  obtain z f where "b = (z, f)" by (cases b)
  then show ?case using Cons by (fastforce split: option.splits if_splits)
qed simp

lemma s32_small: "n < 2 ^ 31 \<Longrightarrow> s32 n = int n"
  by (simp add: s32_def)

lemma u32_small: "n < 2 ^ 32 \<Longrightarrow> u32 (int n) = n"
  by (simp add: u32_def nat_mod_distrib)

lemma al_join_loop_seg:
  assumes "seg (aHeap a) pos bs l None" "length bs < fuel" "pos + extent bs < 2 ^ 31"
  shows "\<exists>a'. al_join_loop fuel l cnt a = Inr (cnt + int (length bs) - int (length (joined bs)), a') \<and>
    seg (aHeap a') pos (joined bs) l None \<and> (\<forall>p < pos. aHeap a' p = aHeap a p) \<and>
    mFreeList a' = mFreeList a \<and> aSize a' = aSize a \<and> mDoCoalesceOnFree a' = mDoCoalesceOnFree a"
  using assms
proof (induction bs arbitrary: pos l fuel cnt a rule: joined.induct)
  case 1
  then show ?case by (cases fuel) auto
next
  case (2 b)
  obtain z f where b: "b = (z, f)" by (cases b)
  then show ?case using 2 by (cases fuel; cases f) (auto simp: an_get_def split: option.splits)
next
  case (3 z f y g bs)
  obtain fuel' where fuel: "fuel = Suc fuel'" "length ((y, g) # bs) < fuel'" using "3.prems"(2) by (cases fuel) auto
  obtain x where x: "aHeap a pos = Some x" "anSize x = z" "16 \<le> z" "f \<longrightarrow> l = Some pos"
    "seg (aHeap a) (pos + z) ((y, g) # bs) (if f then anNext x else l) None"
    using "3.prems"(1) by (auto split: option.splits if_splits)
  show ?case
  proof (cases "f \<and> g")
    case True
    obtain w where w: "aHeap a (pos + z) = Some w" "anSize w = y" "16 \<le> y" "anNext x = Some (pos + z)"
      "seg (aHeap a) (pos + z + y) bs (anNext w) None" using x(5) True by (auto split: option.splits)
    let ?a = "a\<lparr>aHeap := (aHeap a)(pos \<mapsto> \<lparr>anSize = u32 (int z + int y), anNext = anNext w\<rparr>),
      mNumFreeNodes := u32 (int (mNumFreeNodes a) - 1)\<rparr>"
    have u: "u32 (int z + int y) = z + y" using u32_small [of "z + y"] "3.prems"(3) by simp
    have "seg (aHeap ?a) (pos + (z + y)) bs (anNext w) None" using w(5) x(3) by (simp add: seg_upd add.assoc)
    then have s: "seg (aHeap ?a) pos ((z + y, True) # bs) l None" using u x(3,4) True by simp
    have step: "al_join_loop fuel l cnt a = al_join_loop fuel' l (cnt + 1) ?a"
      using fuel(1) x w True s32_small [of z] "3.prems"(3) by (simp add: an_get_def)
    from "3.IH"(1) [OF True s, of fuel' "cnt + 1"] fuel(2) "3.prems"(3) show ?thesis unfolding step using True by fastforce
  next
    case False
    define fu where "fu = (if f then fuel' else fuel)"
    have step: "al_join_loop fuel l cnt a = al_join_loop fu (if f then anNext x else l) cnt a"
    proof (cases f)
      case True
      then have g: "\<not> g" using False by simp
      show ?thesis
      proof (cases "anNext x")
        case None
        then show ?thesis using fuel x(1,4) True by (cases fuel') (simp_all add: fu_def an_get_def)
      next
        case (Some q)
        then have "pos + z + y \<le> q" "16 \<le> y" using x(5) g True by (auto split: option.splits dest: seg_first)
        then have "int q - int pos \<noteq> s32 z" using s32_small [of z] "3.prems"(3) by simp
        then show ?thesis using fuel x(1,2,4) True Some by (simp add: fu_def an_get_def)
      qed
    qed (simp add: fu_def)
    have fu: "length ((y, g) # bs) < fu" using fuel by (simp add: fu_def)
    have lim: "pos + z + extent ((y, g) # bs) < 2 ^ 31" using "3.prems"(3) by simp
    obtain a' where a': "al_join_loop fu (if f then anNext x else l) cnt a =
        Inr (cnt + int (length ((y, g) # bs)) - int (length (joined ((y, g) # bs))), a')"
      "seg (aHeap a') (pos + z) (joined ((y, g) # bs)) (if f then anNext x else l) None"
      "\<forall>p < pos + z. aHeap a' p = aHeap a p"
      "mFreeList a' = mFreeList a" "aSize a' = aSize a" "mDoCoalesceOnFree a' = mDoCoalesceOnFree a"
      using "3.IH"(2) [OF False x(5) fu lim, of cnt] by blast
    have "aHeap a' pos = Some x" using a'(3) x(1,3) by simp
    moreover have "joined ((z, f) # (y, g) # bs) = (z, f) # joined ((y, g) # bs)" using False by auto
    ultimately show ?thesis unfolding step using a' x(2-4) by (intro exI [of _ a']) (auto split: if_splits)
  qed
qed

lemma al_rep_length: "al_rep a bs \<Longrightarrow> length bs < Suc (aSize a)"
  using seg_length [of "aHeap a" 0 bs "mFreeList a" None] by (simp add: al_rep_def)

lemma seg_no_start: "seg h pos bs None l' \<Longrightarrow> no_free bs"
  by (induction bs arbitrary: pos) (auto split: option.splits if_splits)

lemma join_free_rep:
  assumes "al_rep a bs"
  shows "\<exists>a'. al_join_free_nodes a = Inr (int (length bs) - int (length (joined bs)), a') \<and> al_rep a' (joined bs) \<and>
    mFreeList a' = mFreeList a \<and> aSize a' = aSize a \<and> mDoCoalesceOnFree a' = mDoCoalesceOnFree a"
proof (cases "mFreeList a")
  case None
  have s: "seg (aHeap a) 0 bs None None" using assms None by (simp add: al_rep_def)
  have "no_free bs" using seg_no_start [OF s] .
  then show ?thesis using assms None joined_no_free by (simp add: al_join_free_nodes_def)
next
  case (Some q)
  have "length bs < Suc (aSize a)" by (rule al_rep_length [OF assms])
  then show ?thesis
    using al_join_loop_seg [of a 0 bs "mFreeList a" "Suc (aSize a)" 0] assms Some
    by (auto simp: al_join_free_nodes_def al_rep_def)
qed

section \<open>Allocation\<close>

text \<open>What a request of a size with its header does to the blocks.\<close>

definition alloc_blocks :: "bool \<Rightarrow> nat \<Rightarrow> blocks \<Rightarrow> nat option \<times> blocks" where
  "alloc_blocks co s bs =
     (case fit s 0 bs of Some (p, bs) \<Rightarrow> (Some (p + 16), bs) | None \<Rightarrow> (None, if co then bs else joined bs))"

lemma al_retry_end:
  assumes "al_rep a bs" "\<not> mDoCoalesceOnFree a" "joined bs = bs"
  shows "\<exists>a'. al_retry (Suc fuel) s None prev a = Inr (None, a') \<and> al_rep a' bs \<and> aSize a' = aSize a \<and> \<not> mDoCoalesceOnFree a'"
  using join_free_rep [OF assms(1)] assms(2,3) by auto

lemma al_retry_rep:
  assumes r: "al_rep a bs" and s: "16 \<le> s"
  shows "\<exists>a'. al_retry (Suc (Suc fuel)) s (mFreeList a) None a = Inr (fst (alloc_blocks (mDoCoalesceOnFree a) s bs), a') \<and>
    al_rep a' (snd (alloc_blocks (mDoCoalesceOnFree a) s bs)) \<and> aSize a' = aSize a \<and> mDoCoalesceOnFree a' = mDoCoalesceOnFree a"
proof -
  have "length bs < Suc (aSize a)" "seg (aHeap a) 0 bs (mFreeList a) None"
    using r al_rep_length [OF r] by (simp_all add: al_rep_def)
  from al_search_seg [OF this(2,1), of s None] show ?thesis
  proof (elim disjE exE conjE)
    fix as z cs
    assume bs: "bs = as @ (z, True) # cs" "s \<le> z" "no_fit s as"
      "al_search (Suc (aSize a)) (aHeap a) s (mFreeList a) None = Inr (Some (0 + extent as), last_free 0 as None)"
    have "al_rep a (as @ (z, True) # cs)" using r bs(1) by simp
    from al_take_seg [OF this bs(2) s] show ?thesis
      using bs(4) fit_some [OF bs(3,2), of 0 cs] unfolding bs(1) by (auto simp: alloc_blocks_def)
  next
    assume n: "no_fit s bs" "al_search (Suc (aSize a)) (aHeap a) s (mFreeList a) None = Inr (None, last_free 0 bs None)"
    show ?thesis
    proof (cases "mDoCoalesceOnFree a")
      case True
      then show ?thesis using n r fit_none [OF n(1), of 0] by (simp add: alloc_blocks_def)
    next
      case False
      obtain a1 where a1: "al_join_free_nodes a = Inr (int (length bs) - int (length (joined bs)), a1)" "al_rep a1 (joined bs)"
        "aSize a1 = aSize a" "\<not> mDoCoalesceOnFree a1" using join_free_rep [OF r] False by auto
      obtain a2 where a2: "al_retry (Suc fuel) s None (last_free 0 bs None) a1 = Inr (None, a2)" "al_rep a2 (joined bs)"
        "aSize a2 = aSize a1" "\<not> mDoCoalesceOnFree a2"
        using al_retry_end [OF a1(2,4) joined_apart_id [OF apart_joined]] by blast
      show ?thesis using n a1 a2 False fit_none [OF n(1), of 0] by (auto simp: alloc_blocks_def simp del: al_search.simps)
    qed
  qed
qed

text \<open>Requests for which the sum with the header does not wrap.\<close>

definition block_size :: "nat \<Rightarrow> nat" where "block_size n = (n + 7) div 8 * 8 + 16"

lemma al_alloc_rep:
  assumes "al_rep a bs" "block_size n < 2 ^ 32"
  shows "\<exists>a'. al_alloc a n = Inr (fst (alloc_blocks (mDoCoalesceOnFree a) (block_size n) bs), a') \<and>
    al_rep a' (snd (alloc_blocks (mDoCoalesceOnFree a) (block_size n) bs)) \<and> aSize a' = aSize a \<and>
    mDoCoalesceOnFree a' = mDoCoalesceOnFree a"
proof -
  have b: "block_size n = ALIGN_SIZE n + NODE_SIZE" by (simp add: ALIGN_SIZE_def NODE_SIZE_def PTR_SIZE_def block_size_def)
  then have "u32 (int (ALIGN_SIZE n)) = ALIGN_SIZE n" "u32 (int (ALIGN_SIZE n) + int NODE_SIZE) = block_size n"
    using assms(2) u32_small [of "ALIGN_SIZE n"] u32_small [of "block_size n"] by simp_all
  then have "al_alloc a n = al_retry (Suc (Suc (aSize a))) (block_size n) (mFreeList a) None a"
    unfolding al_alloc_def Let_def by simp
  moreover have "16 \<le> block_size n" by (simp add: block_size_def)
  ultimately show ?thesis using al_retry_rep [OF assms(1), of "block_size n" "aSize a"] by simp
qed

section \<open>Freeing\<close>

lemma al_place_seg:
  "seg h pos (as @ cs) l None \<Longrightarrow> length as < fuel \<Longrightarrow>
    \<exists>k. seg h pos as l k \<and> seg h (pos + extent as) cs k None \<and>
      al_place fuel h (pos + extent as) l prev = Inr (k, last_free pos as prev)"
proof (induction as arbitrary: pos l fuel prev)
  case Nil
  then have "seg h pos cs l None" by simp
  then have "l = None \<or> (\<exists>q. l = Some q \<and> pos \<le> q)" using seg_first by (cases l) auto
  then show ?case using Nil by (cases fuel) auto
next
  case (Cons b as)
  obtain z f where b: "b = (z, f)" by (cases b)
  obtain x where x: "h pos = Some x" "anSize x = z" "16 \<le> z" "f \<longrightarrow> l = Some pos"
    "seg h (pos + z) (as @ cs) (if f then anNext x else l) None"
    using Cons.prems(1) b by (auto split: option.splits if_splits)
  define g where "g = (if f then fuel - 1 else fuel)"
  have g: "length as < g" using Cons.prems(2) by (auto simp: g_def)
  obtain k where k: "seg h (pos + z) as (if f then anNext x else l) k" "seg h (pos + z + extent as) cs k None"
    "al_place g h (pos + z + extent as) (if f then anNext x else l) (if f then Some pos else prev) =
      Inr (k, last_free (pos + z) as (if f then Some pos else prev))"
    using Cons.IH [OF x(5) g] by blast
  have "al_place fuel h (pos + extent (b # as)) l prev =
      al_place g h (pos + z + extent as) (if f then anNext x else l) (if f then Some pos else prev)"
    using x(1,3,4) Cons.prems(2) b by (cases fuel) (auto simp: g_def an_get_def add.assoc)
  then show ?case using k x b by (intro exI [of _ k]) (auto simp: add.assoc)
qed

text \<open>Whether the block in front is free, and then where it starts.\<close>

lemma last_free_snoc: "last_free pos (as @ [(z, f)]) v = (if f then Some (pos + extent as) else last_free pos as v)"
  by (induction as arbitrary: pos v) (auto simp: add.assoc)

lemma last_free_end:
  "last_free pos bs None = Some v \<Longrightarrow> seg h pos bs l l' \<Longrightarrow> \<exists>x. h v = Some x \<and> v + anSize x \<le> pos + extent bs"
proof (induction bs arbitrary: l l' rule: rev_induct)
  case (snoc b bs)
  obtain z f where b: "b = (z, f)" by (cases b)
  obtain k where k: "seg h pos bs l k" "seg h (pos + extent bs) [(z, f)] k l'" using snoc.prems(2) b by (auto simp: seg_append)
  show ?case
  proof (cases f)
    case True
    then show ?thesis using snoc.prems(1) k(2) b by (auto simp: last_free_snoc split: option.splits)
  next
    case False
    then have "last_free pos bs None = Some v" using snoc.prems(1) b by (simp add: last_free_snoc)
    then show ?thesis using snoc.IH [OF _ k(1)] b by fastforce
  qed
qed simp

text \<open>The block, after it was joined to the one in front: what \<open>al_join_next\<close> starts with.\<close>

definition freed :: "bool \<Rightarrow> blocks \<Rightarrow> nat \<Rightarrow> blocks \<times> nat" where
  "freed co as z = (if co \<and> as \<noteq> [] \<and> snd (last as) then (butlast as, fst (last as) + z) else (as, z))"

lemma al_insert_rep:
  assumes r: "al_rep a (as @ (z, False) # cs)"
  shows "\<exists>a' as' z'. freed (mDoCoalesceOnFree a) as z = (as', z') \<and>
    al_insert a (extent as) (last_free 0 as None) = Inr (extent as', a') \<and> al_rep a' (as' @ (z', True) # cs) \<and>
    aSize a' = aSize a \<and> mDoCoalesceOnFree a' = mDoCoalesceOnFree a"
proof -
  let ?h = "aHeap a" and ?c = "extent as"
  obtain l where l: "seg ?h 0 as (mFreeList a) l" "seg ?h ?c ((z, False) # cs) l None" "?c + z + extent cs = aSize a"
    "aSize a < 2 ^ 31" using r by (auto simp: al_rep_def seg_append)
  obtain y where y: "?h ?c = Some y" "anSize y = z" "16 \<le> z" "seg ?h (?c + z) cs l None"
    using l(2) by (auto split: option.splits)
  show ?thesis
  proof (cases "last_free 0 as None")
    case None
    have f: "freed (mDoCoalesceOnFree a) as z = (as, z)"
      using None by (cases as rule: rev_cases) (auto simp: freed_def last_free_snoc split: if_splits prod.splits)
    let ?h' = "?h(?c \<mapsto> y\<lparr>anNext := mFreeList a\<rparr>)"
    have as: "mFreeList a = l" "seg ?h 0 as (Some ?c) (Some ?c)" using seg_start [OF l(1) None] by auto
    have "seg ?h' 0 as (Some ?c) (Some ?c)" "seg ?h' (?c + z) cs (mFreeList a) None"
      using as y(3,4) by (simp_all add: seg_upd)
    then have "seg ?h' 0 (as @ (z, True) # cs) (Some ?c) None"
      unfolding seg_append using y by (intro exI [of _ "Some ?c"]) simp
    then show ?thesis using None f y l(3,4) by (simp add: al_insert_def an_get_def al_rep_def)
  next
    case (Some v)
    obtain x where x: "?h v = Some x" "anNext x = l" "seg (?h(v \<mapsto> x\<lparr>anNext := Some ?c\<rparr>)) 0 as (mFreeList a) (Some ?c)"
      using seg_redirect [OF l(1) Some] by blast
    have v: "v < ?c" using last_free_bound [OF Some l(1)] by simp
    show ?thesis
    proof (cases "mDoCoalesceOnFree a \<and> v + anSize x = ?c")
      case True
      obtain bs b where as: "as = bs @ [b]" using Some by (cases as rule: rev_cases) auto
      obtain w f where b: "b = (w, f)" by (cases b)
      obtain k where k: "seg ?h 0 bs (mFreeList a) k" "seg ?h (extent bs) [(w, f)] k l" using l(1) as b by (auto simp: seg_append)
      have f: f
      proof (rule ccontr)
        assume "\<not> f"
        then have "last_free 0 bs None = Some v" using Some as b by (simp add: last_free_snoc)
        from last_free_end [OF this k(1)] show False using x(1) True as b k(2) by (auto split: option.splits)
      qed
      then have ve: "v = extent bs" "anSize x = w" "16 \<le> w" "k = Some v" using Some as b k(2) x(1) by (auto simp: last_free_snoc split: option.splits)
      let ?h' = "?h(v \<mapsto> x\<lparr>anSize := u32 (int w + int z)\<rparr>)"
      have u: "u32 (int w + int z) = w + z" using u32_small [of "w + z"] l(3,4) as b by simp
      have "seg ?h' 0 bs (mFreeList a) k" "seg ?h' (?c + z) cs l None" using k(1) y(4) v ve by (simp_all add: seg_upd)
      then have "seg ?h' 0 (bs @ (w + z, True) # cs) (mFreeList a) None"
        unfolding seg_append using u ve x(2) as b by (intro exI [of _ k]) (simp add: add.assoc)
      then show ?thesis using Some True f x y ve l(3,4) as b by (simp add: al_insert_def an_get_def al_rep_def freed_def)
    next
      case False
      have f: "freed (mDoCoalesceOnFree a) as z = (as, z)"
      proof (rule ccontr)
        assume n: "freed (mDoCoalesceOnFree a) as z \<noteq> (as, z)"
        then obtain bs w where as: "as = bs @ [(w, True)]" by (cases as rule: rev_cases) (auto simp: freed_def split: if_splits)
        obtain k where "seg ?h (extent bs) [(w, True)] k l" using l(1) as by (auto simp: seg_append)
        then show False using Some as x(1) False n by (auto simp: last_free_snoc freed_def split: option.splits if_splits)
      qed
      let ?h' = "?h(?c \<mapsto> y\<lparr>anNext := anNext x\<rparr>, v \<mapsto> x\<lparr>anNext := Some ?c\<rparr>)"
      have h': "?h' = ?h(v \<mapsto> x\<lparr>anNext := Some ?c\<rparr>, ?c \<mapsto> y\<lparr>anNext := anNext x\<rparr>)" using v by (simp add: fun_upd_twist)
      have "seg ?h' 0 as (mFreeList a) (Some ?c)" "seg ?h' (?c + z) cs l None"
        unfolding h' using x(3) y(3,4) v by (simp_all add: seg_upd)
      then have "seg ?h' 0 (as @ (z, True) # cs) (mFreeList a) None"
        unfolding seg_append using y v x(2) by (intro exI [of _ "Some ?c"]) simp
      then show ?thesis using Some False f x y l(3,4) by (auto simp: al_insert_def an_get_def al_rep_def)
    qed
  qed
qed

definition next_joined :: "bool \<Rightarrow> nat \<Rightarrow> blocks \<Rightarrow> blocks" where
  "next_joined co z cs =
     (case cs of [] \<Rightarrow> [(z, True)] | (y, f) # ds \<Rightarrow> if co \<and> f then (z + y, True) # ds else (z, True) # cs)"

lemma al_join_next_rep:
  assumes r: "al_rep a (as @ (z, True) # cs)"
  shows "\<exists>a'. al_join_next a (extent as) = Inr a' \<and> al_rep a' (as @ next_joined (mDoCoalesceOnFree a) z cs) \<and>
    aSize a' = aSize a \<and> mDoCoalesceOnFree a' = mDoCoalesceOnFree a"
proof -
  let ?h = "aHeap a" and ?c = "extent as"
  obtain l where l: "seg ?h 0 as (mFreeList a) l" "seg ?h ?c ((z, True) # cs) l None" "?c + z + extent cs = aSize a"
    "aSize a < 2 ^ 31" using r by (auto simp: al_rep_def seg_append)
  obtain x where x: "?h ?c = Some x" "anSize x = z" "16 \<le> z" "l = Some ?c" "seg ?h (?c + z) cs (anNext x) None"
    using l(2) by (auto split: option.splits)
  show ?thesis
  proof (cases "mDoCoalesceOnFree a \<and> (\<exists>y ds. cs = (y, True) # ds)")
    case True
    then obtain y ds where cs: "cs = (y, True) # ds" by blast
    obtain w where w: "?h (?c + z) = Some w" "anSize w = y" "16 \<le> y" "anNext x = Some (?c + z)"
      "seg ?h (?c + z + y) ds (anNext w) None" using x(5) cs by (auto split: option.splits)
    let ?h' = "?h(?c \<mapsto> \<lparr>anSize = u32 (int z + int y), anNext = anNext w\<rparr>)"
    have u: "u32 (int z + int y) = z + y" using u32_small [of "z + y"] l(3,4) cs by simp
    have s: "s32 z = int z" using s32_small [of z] l(3,4) by simp
    have "seg ?h' 0 as (mFreeList a) l" "seg ?h' (?c + z + y) ds (anNext w) None"
      using l(1) w(5) x(3) by (simp_all add: seg_upd)
    then have "seg ?h' 0 (as @ (z + y, True) # ds) (mFreeList a) None"
      unfolding seg_append using x u by (intro exI [of _ l]) (simp add: add.assoc)
    then show ?thesis using True x w s l(3,4) cs by (simp add: al_join_next_def an_get_def al_rep_def next_joined_def)
  next
    case False
    have n: "next_joined (mDoCoalesceOnFree a) z cs = (z, True) # cs" using False by (auto simp: next_joined_def split: list.splits)
    have "al_join_next a ?c = Inr a"
    proof (cases "mDoCoalesceOnFree a")
      case True
      show ?thesis
      proof (cases "anNext x")
        case (Some q)
        obtain y ds where cs: "cs = (y, False) # ds" using False True x(5) Some by (cases cs) auto
        then have "?c + z + y \<le> q" "16 \<le> y" using x(5) Some by (auto split: option.splits dest: seg_first)
        then have "int q - int ?c \<noteq> s32 z" using s32_small [of z] l(3,4) by simp
        then show ?thesis using True x Some by (simp add: al_join_next_def an_get_def)
      qed (use True x in \<open>simp add: al_join_next_def an_get_def\<close>)
    qed (simp add: al_join_next_def)
    then show ?thesis using n r by simp
  qed
qed

text \<open>With coalescing on, the blocks that are joined are just the neighbours.\<close>

lemma apart_flag: "apart ((z, f) # bs) \<Longrightarrow> apart ((y, f) # bs)"
  by (cases bs) auto

lemma joined_next: "apart cs \<Longrightarrow> joined ((z, True) # cs) = next_joined True z cs"
proof (cases cs)
  case (Cons b ds)
  obtain y f where b: "b = (y, f)" by (cases b)
  assume "apart cs"
  then show ?thesis using Cons b joined_apart_id [of cs] joined_apart_id [OF apart_flag, of y True ds "z + y"]
    by (cases f) (auto simp: next_joined_def)
qed (simp add: next_joined_def)

lemma freed_joined:
  assumes "apart (as @ (z, False) # cs)" "freed True as z = (as', z')"
  shows "as' @ next_joined True z' cs = joined (as @ (z, True) # cs)"
proof -
  have cs: "apart cs" using apart_append [of "as @ [(z, False)]" cs] assms(1) by simp
  have as: "apart as" using apart_append [OF assms(1)] by simp
  show ?thesis
  proof (cases as rule: rev_cases)
    case (snoc bs b)
    obtain w f where b: "b = (w, f)" by (cases b)
    have bs: "apart bs" using apart_append as snoc by blast
    show ?thesis
    proof (cases f)
      case True
      have "bs = [] \<or> \<not> snd (last bs)"
      proof (cases bs rule: rev_cases)
        case (snoc ds d)
        then have "apart [d, (w, True)]" using as \<open>as = bs @ [b]\<close> b True apart_append [of ds "[d, (w, True)]"] by simp
        then show ?thesis using snoc by (cases d) simp
      qed simp
      then show ?thesis using joined_behind [OF bs, of "(w, True) # (z, True) # cs"] joined_next [OF cs] assms(2) snoc b True
        by (simp add: freed_def)
    next
      case False
      then have l: "\<not> snd (last as)" using snoc b by simp
      have "joined (as @ (z, True) # cs) = as @ next_joined True z cs"
        using joined_behind [OF as, of "(z, True) # cs"] l joined_next [OF cs, of z] by simp
      moreover have "as' = as" "z' = z" using assms(2) l by (simp_all add: freed_def)
      ultimately show ?thesis by simp
    qed
  qed (use joined_next [OF cs] assms(2) in \<open>simp add: freed_def\<close>)
qed

fun release :: "nat \<Rightarrow> nat \<Rightarrow> blocks \<Rightarrow> blocks option" where
  "release c pos [] = None"
| "release c pos ((z, free) # bs) =
     (if c = pos then if free then None else Some ((z, True) # bs)
      else map_option ((#) (z, free)) (release c (pos + z) bs))"

lemma release_some:
  "release c pos bs = Some bs' \<Longrightarrow> \<exists>as z cs. bs = as @ (z, False) # cs \<and> bs' = as @ (z, True) # cs \<and> c = pos + extent as"
proof (induction bs arbitrary: pos bs')
  case (Cons b bs)
  obtain z f where b: "b = (z, f)" by (cases b)
  show ?case
  proof (cases "c = pos")
    case True
    then show ?thesis using Cons.prems b by (intro exI [of _ "[]"] exI [of _ z] exI [of _ bs]) (simp split: if_splits)
  next
    case False
    then obtain ds where ds: "release c (pos + z) bs = Some ds" "bs' = b # ds" using Cons.prems b by auto
    from Cons.IH [OF ds(1)] obtain as w cs where "bs = as @ (w, False) # cs" "ds = as @ (w, True) # cs" "c = pos + z + extent as"
      by blast
    then show ?thesis using b ds(2) by (intro exI [of _ "b # as"] exI [of _ w] exI [of _ cs]) simp
  qed
qed simp

lemma al_free_rep:
  assumes r: "al_rep a bs" and c: "release c 0 bs = Some bs'" and ap: "mDoCoalesceOnFree a \<Longrightarrow> apart bs"
    and in_buffer: "c + 16 < aSize a"
  shows "\<exists>a'. al_free a (Some (int c + 16)) = Inr a' \<and>
    al_rep a' (if mDoCoalesceOnFree a then joined bs' else bs') \<and> aSize a' = aSize a \<and> mDoCoalesceOnFree a' = mDoCoalesceOnFree a"
proof -
  obtain as z cs where bs: "bs = as @ (z, False) # cs" "bs' = as @ (z, True) # cs" "c = extent as" using release_some [OF c] by auto
  have s: "seg (aHeap a) 0 (as @ (z, False) # cs) (mFreeList a) None" "extent as + z \<le> aSize a" using r bs(1) by (auto simp: al_rep_def)
  have fu: "length as < Suc (aSize a)" using al_rep_length [OF r] bs(1) by simp
  obtain k where k: "al_place (Suc (aSize a)) (aHeap a) c (mFreeList a) None = Inr (k, last_free 0 as None)"
    using al_place_seg [OF s(1) fu] bs(3) by auto
  obtain a1 as' z' where a1: "freed (mDoCoalesceOnFree a) as z = (as', z')" "al_insert a c (last_free 0 as None) = Inr (extent as', a1)"
    "al_rep a1 (as' @ (z', True) # cs)" "aSize a1 = aSize a" "mDoCoalesceOnFree a1 = mDoCoalesceOnFree a"
    using al_insert_rep [of a as z cs] r bs by blast
  obtain a2 where a2: "al_join_next a1 (extent as') = Inr a2" "al_rep a2 (as' @ next_joined (mDoCoalesceOnFree a1) z' cs)"
    "aSize a2 = aSize a1" "mDoCoalesceOnFree a2 = mDoCoalesceOnFree a1" using al_join_next_rep [OF a1(3)] by blast
  have res: "as' @ next_joined (mDoCoalesceOnFree a1) z' cs = (if mDoCoalesceOnFree a then joined bs' else bs')"
  proof (cases "mDoCoalesceOnFree a")
    case True
    then show ?thesis using freed_joined [of as z cs as' z'] ap a1(1,5) bs by simp
  next
    case False
    then show ?thesis using a1(1,5) bs(2) by (simp add: freed_def next_joined_def split: list.splits)
  qed
  have "al_free a (Some (int c + 16)) = Inr a2"
    using k a1 a2(1) in_buffer
    by (simp add: al_free_def NODE_SIZE_def ALIGN_SIZE_def PTR_SIZE_def Let_def nat_add_distrib del: al_place.simps)
  then show ?thesis using a1 a2 res by simp
qed

section \<open>Free space\<close>

lemma al_sum_seg:
  "seg h pos bs l None \<Longrightarrow> length bs < fuel \<Longrightarrow> acc + free_total bs < 2 ^ 32 \<Longrightarrow>
    al_sum_loop fuel h l acc = Inr (acc + free_total bs)"
proof (induction bs arbitrary: pos l fuel acc)
  case Nil
  then show ?case by (cases fuel) (simp_all add: free_total_def)
next
  case (Cons b bs)
  obtain z f where b: "b = (z, f)" by (cases b)
  obtain x where x: "h pos = Some x" "anSize x = z" "f \<longrightarrow> l = Some pos" "seg h (pos + z) bs (if f then anNext x else l) None"
    using Cons.prems(1) b by (auto split: option.splits if_splits)
  show ?case
  proof (cases f)
    case True
    then have t: "free_total (b # bs) = z + free_total bs" using b by (simp add: free_total_def)
    have u: "u32 (int acc + int z) = acc + z" using u32_small [of "acc + z"] Cons.prems(3) t by simp
    obtain g where "fuel = Suc g" "length bs < g" using Cons.prems(2) by (cases fuel) auto
    then show ?thesis using Cons.IH [of "pos + z" "anNext x" g "acc + z"] x True t u Cons.prems(3) by (simp add: an_get_def)
  next
    case False
    then show ?thesis using Cons.IH [of "pos + z" l fuel acc] x b Cons.prems(2,3) by (simp add: free_total_def)
  qed
qed

lemma al_space_rep:
  assumes r: "al_rep a bs"
  shows "\<exists>a'. al_getFreeSpace a = Inr (free_total bs, a') \<and> al_rep a' (if mDoCoalesceOnFree a then bs else joined bs) \<and>
    aSize a' = aSize a \<and> mDoCoalesceOnFree a' = mDoCoalesceOnFree a"
proof -
  obtain a1 where a1: "(if mDoCoalesceOnFree a then Inr a else andThen (al_join_free_nodes a) (\<lambda>(count, a). Inr a)) = Inr a1"
    "al_rep a1 (if mDoCoalesceOnFree a then bs else joined bs)" "mFreeList a1 = mFreeList a" "aSize a1 = aSize a"
    "mDoCoalesceOnFree a1 = mDoCoalesceOnFree a"
  proof (cases "mDoCoalesceOnFree a")
    case True
    then show ?thesis using that [of a] r by simp
  next
    case False
    obtain a1 where "al_join_free_nodes a = Inr (int (length bs) - int (length (joined bs)), a1)" "al_rep a1 (joined bs)"
      "mFreeList a1 = mFreeList a" "aSize a1 = aSize a" "mDoCoalesceOnFree a1 = mDoCoalesceOnFree a" using join_free_rep [OF r] by blast
    then show ?thesis using that [of a1] False by simp
  qed
  define ds where "ds = (if mDoCoalesceOnFree a then bs else joined bs)"
  have r1: "al_rep a1 ds" using a1(2) by (simp add: ds_def)
  have t: "free_total ds = free_total bs" by (simp add: ds_def)
  have "free_total bs \<le> aSize a" "aSize a < 2 ^ 31" using free_total_le [of bs] r by (simp_all add: al_rep_def)
  moreover have "seg (aHeap a1) 0 ds (mFreeList a1) None" using r1 by (simp add: al_rep_def)
  ultimately have "al_sum_loop (Suc (aSize a1)) (aHeap a1) (mFreeList a1) 0 = Inr (0 + free_total ds)"
    using al_rep_length [OF r1] t by (intro al_sum_seg) simp_all
  then have "al_getFreeSpace a = Inr (free_total bs, a1)"
    using a1(1,3) t unfolding al_getFreeSpace_def Let_def by (simp del: al_sum_loop.simps)
  then show ?thesis using a1(2,4,5) by simp
qed

section \<open>Clients\<close>

text \<open>
  What a client does, and what it then gets: an address, or the free space. The specification keeps only
  the blocks; freeing an address that is not one of an allocated block is not specified.
\<close>

datatype al_op = Alloc nat | Free nat | Space

fun al_do :: "al_op \<Rightarrow> allocator \<Rightarrow> (nat option \<times> allocator) outcome" where
  "al_do (Alloc n) a = al_alloc a n"
| "al_do (Free p) a = andThen (al_free a (Some (int p))) (\<lambda>a. Inr (None, a))"
| "al_do Space a = andThen (al_getFreeSpace a) (\<lambda>(n, a). Inr (Some n, a))"

fun al_run :: "al_op list \<Rightarrow> allocator \<Rightarrow> (nat option list \<times> allocator) outcome" where
  "al_run [] a = Inr ([], a)"
| "al_run (p # ops) a = andThen (al_do p a) (\<lambda>(x, a). andThen (al_run ops a) (\<lambda>(xs, a). Inr (x # xs, a)))"

fun blocks_do :: "bool \<Rightarrow> al_op \<Rightarrow> blocks \<Rightarrow> (nat option \<times> blocks) option" where
  "blocks_do co (Alloc n) bs = (if 0 < n \<and> block_size n < 2 ^ 32 then Some (alloc_blocks co (block_size n) bs) else None)"
| "blocks_do co (Free p) bs =
     (if p < 16 then None else map_option (\<lambda>bs. (None, if co then joined bs else bs)) (release (p - 16) 0 bs))"
| "blocks_do co Space bs = Some (Some (free_total bs), if co then bs else joined bs)"

fun blocks_run :: "bool \<Rightarrow> al_op list \<Rightarrow> blocks \<Rightarrow> (nat option list \<times> blocks) option" where
  "blocks_run co [] bs = Some ([], bs)"
| "blocks_run co (p # ops) bs =
     (case blocks_do co p bs of
        None \<Rightarrow> None
      | Some (x, bs) \<Rightarrow> map_option (\<lambda>(xs, bs). (x # xs, bs)) (blocks_run co ops bs))"

text \<open>Every allocated block has room behind its header, and with coalescing no two free ones are neighbours.\<close>

definition blocks_ok :: "bool \<Rightarrow> blocks \<Rightarrow> bool" where
  "blocks_ok co bs \<longleftrightarrow> (\<forall>b \<in> set bs. \<not> snd b \<longrightarrow> 16 < fst b) \<and> (co \<longrightarrow> apart bs)"

lemma fit_first: "\<not> no_fit s bs \<Longrightarrow> \<exists>as z cs. bs = as @ (z, True) # cs \<and> s \<le> z \<and> no_fit s as"
proof -
  assume "\<not> no_fit s bs"
  then have "\<exists>b \<in> set bs. snd b \<and> s \<le> fst b" by (auto simp: no_fit_def)
  from split_list_first_prop [OF this] obtain as b cs where
    "bs = as @ b # cs" "snd b \<and> s \<le> fst b" "\<forall>b \<in> set as. \<not> (snd b \<and> s \<le> fst b)" by blast
  then show ?thesis by (intro exI [of _ as] exI [of _ "fst b"] exI [of _ cs]) (cases b; auto simp: no_fit_def)
qed

lemma fit_ok:
  assumes "fit s pos bs = Some (p, bs')" "16 < s" "blocks_ok co bs"
  shows "blocks_ok co bs'"
proof -
  obtain as z cs where bs: "bs = as @ (z, True) # cs" "s \<le> z" "no_fit s as"
    using fit_first [of s bs] fit_none [of s bs pos] assms(1) by (cases "no_fit s bs") auto
  then have "bs' = (if 32 \<le> z - s then as @ (z - s, True) # (s, False) # cs else as @ (z, False) # cs)"
    using assms(1) fit_some [OF bs(3,2), of pos cs] by (auto split: if_splits)
  then show ?thesis using assms(2,3) bs(1,2)
    by (auto simp: blocks_ok_def apart_successively successively_append_iff successively_Cons)
qed

lemma joined_used: "b \<in> set (joined bs) \<Longrightarrow> \<not> snd b \<Longrightarrow> b \<in> set bs"
  by (induction bs rule: joined.induct) (auto split: if_splits)

lemma joined_ok: "\<forall>b \<in> set bs. \<not> snd b \<longrightarrow> 16 < fst b \<Longrightarrow> blocks_ok co (joined bs)"
  by (auto simp: blocks_ok_def apart_joined dest: joined_used)

lemma alloc_ok: "16 < s \<Longrightarrow> blocks_ok co bs \<Longrightarrow> blocks_ok co (snd (alloc_blocks co s bs))"
  using joined_ok [of bs co] fit_ok [of s 0 bs]
  by (auto simp: alloc_blocks_def split: option.split) (auto simp: blocks_ok_def)

lemma al_do_rep:
  assumes r: "al_rep a bs" and ok: "blocks_ok (mDoCoalesceOnFree a) bs" and d: "blocks_do (mDoCoalesceOnFree a) p bs = Some (x, bs')"
  shows "\<exists>a'. al_do p a = Inr (x, a') \<and> al_rep a' bs' \<and> mDoCoalesceOnFree a' = mDoCoalesceOnFree a \<and>
    blocks_ok (mDoCoalesceOnFree a) bs'"
proof (cases p)
  case (Alloc n)
  then have n: "0 < n" "block_size n < 2 ^ 32" "alloc_blocks (mDoCoalesceOnFree a) (block_size n) bs = (x, bs')"
    using d by (auto split: if_splits)
  have "16 < block_size n" using n(1) by (simp add: block_size_def)
  then show ?thesis using Alloc al_alloc_rep [OF r n(2)] alloc_ok [OF _ ok, of "block_size n"] n(3) by auto
next
  case (Free q)
  then obtain cs where cs: "16 \<le> q" "release (q - 16) 0 bs = Some cs" "x = None" "bs' = (if mDoCoalesceOnFree a then joined cs else cs)"
    using d by (cases "release (q - 16) 0 bs") (auto split: if_split_asm)
  obtain as z ds where z: "bs = as @ (z, False) # ds" "cs = as @ (z, True) # ds" "q - 16 = extent as"
    using release_some [OF cs(2)] by auto
  have "16 < z" using ok z(1) by (auto simp: blocks_ok_def)
  moreover have "extent bs = aSize a" using r by (simp add: al_rep_def)
  ultimately have "q - 16 + 16 < aSize a" using z by simp
  moreover have "mDoCoalesceOnFree a \<Longrightarrow> apart bs" using ok by (simp add: blocks_ok_def)
  ultimately obtain a' where "al_free a (Some (int (q - 16) + 16)) = Inr a'" "al_rep a' bs'"
    "mDoCoalesceOnFree a' = mDoCoalesceOnFree a" using al_free_rep [OF r cs(2)] cs(4) by auto
  moreover have "int (q - 16) + 16 = int q" using cs(1) by simp
  moreover have "\<forall>b \<in> set cs. \<not> snd b \<longrightarrow> 16 < fst b" using ok z(1,2) by (auto simp: blocks_ok_def)
  moreover from this have "blocks_ok (mDoCoalesceOnFree a) bs'"
    using joined_ok [of cs "mDoCoalesceOnFree a"] cs(4) by (auto simp: blocks_ok_def)
  ultimately show ?thesis using Free cs(3) by auto
next
  case Space
  then show ?thesis using al_space_rep [OF r] d ok joined_ok [of bs "mDoCoalesceOnFree a"] by (auto simp: blocks_ok_def)
qed

lemma al_run_rep:
  "al_rep a bs \<Longrightarrow> blocks_ok (mDoCoalesceOnFree a) bs \<Longrightarrow> blocks_run (mDoCoalesceOnFree a) ops bs = Some (xs, bs') \<Longrightarrow>
    \<exists>a'. al_run ops a = Inr (xs, a') \<and> al_rep a' bs'"
proof (induction ops arbitrary: a bs xs)
  case (Cons p ops)
  obtain x bs1 where p: "blocks_do (mDoCoalesceOnFree a) p bs = Some (x, bs1)" using Cons.prems(3) by (auto split: option.splits)
  then obtain ys where ys: "blocks_run (mDoCoalesceOnFree a) ops bs1 = Some (ys, bs')" "xs = x # ys" using Cons.prems(3) by auto
  obtain a1 where a1: "al_do p a = Inr (x, a1)" "al_rep a1 bs1" "mDoCoalesceOnFree a1 = mDoCoalesceOnFree a"
    "blocks_ok (mDoCoalesceOnFree a) bs1" using al_do_rep [OF Cons.prems(1,2) p] by blast
  obtain a2 where "al_run ops a1 = Inr (ys, a2)" "al_rep a2 bs'" using Cons.IH [OF a1(2), of ys] a1(3,4) ys(1) by auto
  then show ?case using a1(1) ys(2) by auto
qed simp

lemma Allocator_new_rep:
  assumes "16 \<le> n" "n < 2 ^ 31"
  shows "\<exists>a. Allocator_new n co = Inr a \<and> al_rep a [(n, True)] \<and> mDoCoalesceOnFree a = co \<and> aSize a = n"
  using assms by (auto simp: Allocator_new_def an_write_def NODE_SIZE_def ALIGN_SIZE_def PTR_SIZE_def al_rep_def)

lemma alloc_extent: "extent (snd (alloc_blocks co s bs)) = extent bs"
proof (cases "no_fit s bs")
  case True
  then show ?thesis using fit_none [of s bs 0] by (simp add: alloc_blocks_def)
next
  case False
  then obtain as z cs where "bs = as @ (z, True) # cs" "s \<le> z" "no_fit s as" using fit_first by blast
  then show ?thesis using fit_some [of s as z 0 cs] by (simp add: alloc_blocks_def)
qed

lemma blocks_run_extent: "blocks_run co ops bs = Some (xs, bs') \<Longrightarrow> extent bs' = extent bs"
proof (induction ops arbitrary: bs xs)
  case (Cons p ops)
  then obtain x bs1 ys where p: "blocks_do co p bs = Some (x, bs1)" "blocks_run co ops bs1 = Some (ys, bs')"
    by (auto split: option.splits)
  have "extent bs1 = extent bs"
  proof (cases p)
    case (Alloc n)
    then show ?thesis using p(1) alloc_extent [of co "block_size n" bs] by (auto split: if_splits)
  next
    case (Free q)
    then show ?thesis using p(1) by (auto split: if_splits dest!: release_some)
  next
    case Space
    then show ?thesis using p(1) by auto
  qed
  then show ?case using Cons.IH [OF p(2)] by simp
qed simp

text \<open>
  C40: whatever a client allocates, frees and asks for, the allocator answers as the first fit over a
  sequence of blocks that always fill the buffer, and its free list links exactly the free ones of them;
  so no two blocks that are given out overlap and none lies outside.
\<close>

theorem al_refines_blocks:
  assumes "16 \<le> n" "n < 2 ^ 31" "blocks_run co ops [(n, True)] = Some (xs, bs)"
  shows "\<exists>a a'. Allocator_new n co = Inr a \<and> al_run ops a = Inr (xs, a') \<and> extent bs = n \<and>
    seg (aHeap a') 0 bs (mFreeList a') None"
proof -
  obtain a where a: "Allocator_new n co = Inr a" "al_rep a [(n, True)]" "mDoCoalesceOnFree a = co" "aSize a = n"
    using Allocator_new_rep [OF assms(1,2)] by blast
  have "blocks_ok co [(n, True)]" by (simp add: blocks_ok_def)
  then obtain a' where "al_run ops a = Inr (xs, a')" "al_rep a' bs" using al_run_rep [OF a(2), unfolded a(3)] assms(3) by blast
  then show ?thesis using a(1) blocks_run_extent [OF assms(3)] by (auto simp: al_rep_def)
qed

theorem al_refines_blocks_witness:
  "\<exists>a a'. Allocator_new 4096 False = Inr a \<and>
    al_run [Alloc 32, Alloc 100, Free 4064, Space, Free 3944, Space] a = Inr ([Some 4064, Some 3944, None, Some 3976, None, Some 4096], a') \<and>
    extent [(4096, True)] = 4096 \<and> seg (aHeap a') 0 [(4096, True)] (mFreeList a') None"
  by (rule al_refines_blocks) (simp_all add: alloc_blocks_def block_size_def free_total_def)

text \<open>
  The search goes on at the end of the list after free nodes were joined, so a request for which only
  a joined block has room fails, and succeeds when it is made again.
\<close>

theorem al_retry_misses:
  assumes "al_rep a bs" "\<not> mDoCoalesceOnFree a" "block_size n < 2 ^ 32" "no_fit (block_size n) bs"
    "\<not> no_fit (block_size n) (joined bs)"
  shows "\<exists>a1 a2 q. al_alloc a n = Inr (None, a1) \<and> al_alloc a1 n = Inr (Some q, a2)"
proof -
  let ?s = "block_size n"
  have "alloc_blocks False ?s bs = (None, joined bs)" using fit_none [OF assms(4), of 0] by (simp add: alloc_blocks_def)
  then obtain a1 where a1: "al_alloc a n = Inr (None, a1)" "al_rep a1 (joined bs)" "\<not> mDoCoalesceOnFree a1"
    using al_alloc_rep [OF assms(1,3)] assms(2) by auto
  obtain as z cs where "joined bs = as @ (z, True) # cs" "?s \<le> z" "no_fit ?s as" using fit_first [OF assms(5)] by blast
  then have "fst (alloc_blocks False ?s (joined bs)) \<noteq> None" using fit_some [of ?s as z 0 cs] by (simp add: alloc_blocks_def)
  then obtain q where "fst (alloc_blocks False ?s (joined bs)) = Some q" by blast
  then show ?thesis using a1 al_alloc_rep [OF a1(2) assms(3)] by auto
qed

text \<open>
  Requests that are zero, or so great that rounding up wraps to zero, get a block without room at the
  end of a fresh buffer: the address is the one behind the buffer, and freeing it does nothing.
\<close>

theorem al_empty_blocks:
  assumes "48 \<le> room" "room < 2 ^ 31" "n = 0 \<or> 2 ^ 32 - 8 < n \<and> n < 2 ^ 32" "Allocator_new room co = Inr a"
  shows "\<exists>a'. al_alloc a n = Inr (Some room, a') \<and> al_free a' (Some (int room)) = Inr a'"
proof -
  obtain b where "Allocator_new room co = Inr b" "al_rep b [(room, True)]" "mDoCoalesceOnFree b = co" "aSize b = room"
    using Allocator_new_rep [of room co] assms(1,2) by auto
  then have a: "al_rep a [(room, True)]" "aSize a = room" using assms(4) by auto
  have "ALIGN_SIZE n = 0 \<or> ALIGN_SIZE n = 2 ^ 32"
  proof (cases "n = 0")
    case False
    then have "(n + 7) div 8 = 2 ^ 29" using assms(3) by (intro div_nat_eqI) simp_all
    then show ?thesis by (simp add: ALIGN_SIZE_def PTR_SIZE_def add.commute)
  qed (simp add: ALIGN_SIZE_def PTR_SIZE_def)
  then have "u32 (int (u32 (int (ALIGN_SIZE n))) + int NODE_SIZE) = 16"
    by (auto simp: u32_def NODE_SIZE_def ALIGN_SIZE_def [of 16] PTR_SIZE_def)
  then have al: "al_alloc a n = al_retry (Suc (Suc (aSize a))) 16 (mFreeList a) None a"
    unfolding al_alloc_def Let_def by simp
  have "fst (alloc_blocks co' 16 [(room, True)]) = Some room" for co' using assms(1) by (simp add: alloc_blocks_def)
  then obtain a' where "al_alloc a n = Inr (Some room, a')" "aSize a' = room"
    using al_retry_rep [OF a(1), of 16 "aSize a"] a(2) unfolding al by auto
  then show ?thesis by (simp add: al_free_def)
qed

definition al_gap :: allocator where
  "al_gap = \<lparr>aHeap = [0 \<mapsto> \<lparr>anSize = 32, anNext = Some 32\<rparr>, 32 \<mapsto> \<lparr>anSize = 32, anNext = None\<rparr>], mFreeList = Some 0, aSize = 64,
     mNumFreeNodes = 2, mDoCoalesceOnFree = False\<rparr>"

theorem al_retry_misses_witness:
  "\<exists>a1 a2 q. al_alloc al_gap 40 = Inr (None, a1) \<and> al_alloc a1 40 = Inr (Some q, a2)"
  by (rule al_retry_misses [where bs = "[(32, True), (32, True)]"])
    (simp_all add: al_gap_def al_rep_def block_size_def no_fit_def)

theorem al_empty_blocks_witness:
  "\<exists>a a'. Allocator_new 64 False = Inr a \<and> al_alloc a 4294967295 = Inr (Some 64, a') \<and> al_free a' (Some 64) = Inr a'"
proof -
  obtain a where a: "Allocator_new 64 False = Inr a" using Allocator_new_rep [of 64 False] by auto
  from al_empty_blocks [of 64 4294967295 False a] a show ?thesis by simp
qed

end
