(* ===== verification/HttpHeader.thy ===== *)
theory HttpHeader
  imports JHStrings CircularBuffer
begin

text \<open>
  Headers in the style of HTTP (src/HttpHeaderBase.cpp, include/HttpHeaderBase.h) with the names of their
  fields (include/FieldMap.h, src/HttpHeader.cpp): a header is written to a string, and read line by line
  from a circular buffer.
\<close>

section \<open>Names of fields\<close>

text \<open>A \<open>FieldMap\<close> numbers the fields that it knows; the interface has two functions.\<close>

record fieldmap =
  fmType :: "string \<Rightarrow> int"
  fmString :: "int \<Rightarrow> string option"

definition kInvalidFieldType :: int where "kInvalidFieldType = -1"
definition kHttpFieldMapStart :: int where "kHttpFieldMapStart = 1000"

definition gFieldTypeList :: "string list" where
  "gFieldTypeList =
     [''Accept'', ''Accept-Charset'', ''Accept-Encoding'', ''Accept-Language'', ''Accept-Ranges'', ''Age'', ''Allow'',
      ''Authorization'', ''Cache-Control'', ''Connection'', ''Content-Encoding'', ''Content-Language'', ''Content-Length'',
      ''Content-Location'', ''Content-MD5'', ''Content-Range'', ''Content-Type'', ''Date'', ''ETag'', ''Expect'', ''Expires'',
      ''From'', ''Host'', ''If-Match'', ''If-Modified-Since'', ''If-None-Match'', ''If-Range'', ''If-Unmodified-Since'',
      ''Last-Modified'', ''Location'', ''Max-Forwards'', ''Pragma'', ''Proxy-Authenticate'', ''Proxy-Authorization'',
      ''Range'', ''Referer'', ''Retry-After'', ''Server'', ''TE'', ''Trailer'', ''Transfer-Encoding'', ''Upgrade'',
      ''User-Agent'', ''Vary'', ''Via'', ''Warning'', ''WWW-Authenticate'']"

text \<open>The enumeration of the fields has one value for each name, and \<open>kNumFields\<close> behind them.\<close>

definition kNumFields :: int where "kNumFields = kHttpFieldMapStart + 47"
definition kFieldContentLength :: int where "kFieldContentLength = kHttpFieldMapStart + 12"
definition kFieldDate :: int where "kFieldDate = kHttpFieldMapStart + 17"
definition kFieldTransferEncoding :: int where "kFieldTransferEncoding = kHttpFieldMapStart + 40"
definition kFieldHost :: int where "kFieldHost = kHttpFieldMapStart + 22"

definition lower :: "char \<Rightarrow> char" where
  "lower c = (let n = of_char c :: nat in if 65 \<le> n \<and> n \<le> 90 then char_of (n + 32) else c)"

definition strcasecmp_equal :: "string \<Rightarrow> string \<Rightarrow> bool" where
  "strcasecmp_equal s t \<longleftrightarrow> map lower s = map lower t"

fun name_index :: "string \<Rightarrow> string list \<Rightarrow> nat \<Rightarrow> int" where
  "name_index field [] i = kInvalidFieldType"
| "name_index field (x # xs) i =
     (if strcasecmp_equal field x then int i + kHttpFieldMapStart else name_index field xs (Suc i))"

definition http_getFieldType :: "string \<Rightarrow> int" where
  "http_getFieldType field = name_index field gFieldTypeList 0"

definition http_getFieldTypeString :: "int \<Rightarrow> string option" where
  "http_getFieldTypeString type =
     (if type \<ge> kHttpFieldMapStart \<and> type < kNumFields then Some (gFieldTypeList ! nat (type - kHttpFieldMapStart))
      else None)"

definition HttpFieldMap :: fieldmap where
  "HttpFieldMap = \<lparr>fmType = http_getFieldType, fmString = http_getFieldTypeString\<rparr>"

section \<open>State\<close>

record header_field =
  hfType :: int
  hfData :: "string option"

record http_header =
  mHeaderStr :: string
  mFields :: "header_field list"
  mNumFields :: int
  mFieldMappings :: "fieldmap list"

definition kMaxFields :: nat where "kMaxFields = 32"

definition HeaderField_new :: header_field where
  "HeaderField_new = \<lparr>hfType = 0, hfData = None\<rparr>"

definition HttpHeaderBase_new :: http_header where
  "HttpHeaderBase_new =
     \<lparr>mHeaderStr = [], mFields = replicate kMaxFields HeaderField_new, mNumFields = 0, mFieldMappings = []\<rparr>"

text \<open>The array of fields: an access outside of it is undefined behaviour.\<close>

definition hf_at :: "header_field list \<Rightarrow> int \<Rightarrow> header_field outcome" where
  "hf_at fs i = (if 0 \<le> i \<and> i < int (length fs) then Inr (fs ! nat i) else Inl UndefinedBehaviour)"

definition hf_put :: "header_field list \<Rightarrow> int \<Rightarrow> header_field \<Rightarrow> header_field list outcome" where
  "hf_put fs i f = (if 0 \<le> i \<and> i < int (length fs) then Inr (fs[nat i := f]) else Inl UndefinedBehaviour)"

definition hf_setType :: "header_field \<Rightarrow> int \<Rightarrow> header_field" where
  "hf_setType f ty = f\<lparr>hfType := ty\<rparr>"

definition hf_setData :: "header_field \<Rightarrow> string \<Rightarrow> header_field" where
  "hf_setData f data = f\<lparr>hfData := Some data\<rparr>"

section \<open>Fields\<close>

text \<open>None is the null pointer.\<close>

definition hh_addFieldMap :: "http_header \<Rightarrow> fieldmap option \<Rightarrow> int \<times> http_header" where
  "hh_addFieldMap h m =
     (case m of None \<Rightarrow> (-1, h) | Some m \<Rightarrow> (0, h\<lparr>mFieldMappings := mFieldMappings h @ [m]\<rparr>))"

definition HttpHeader_new :: http_header where
  "HttpHeader_new = snd (hh_addFieldMap HttpHeaderBase_new (Some HttpFieldMap))"

fun type_loop :: "string \<Rightarrow> fieldmap list \<Rightarrow> int \<Rightarrow> int" where
  "type_loop field [] type = type"
| "type_loop field (m # ms) type =
     (let type = fmType m field in if type \<noteq> kInvalidFieldType then type else type_loop field ms type)"

definition hh_getFieldType :: "http_header \<Rightarrow> string \<Rightarrow> int" where
  "hh_getFieldType h field = type_loop field (mFieldMappings h) kInvalidFieldType"

fun string_loop :: "int \<Rightarrow> fieldmap list \<Rightarrow> string option \<Rightarrow> string option" where
  "string_loop type [] name = name"
| "string_loop type (m # ms) name =
     (let name = fmString m type in if name \<noteq> None then name else string_loop type ms name)"

definition hh_getFieldTypeString :: "http_header \<Rightarrow> int \<Rightarrow> string option" where
  "hh_getFieldTypeString h type = string_loop type (mFieldMappings h) None"

fun field_loop :: "nat \<Rightarrow> header_field list \<Rightarrow> int \<Rightarrow> int \<Rightarrow> int \<Rightarrow> int option outcome" where
  "field_loop 0 fs n type i = Inl NoReturn"
| "field_loop (Suc fuel) fs n type i =
     (if i < n
      then andThen (hf_at fs i) (\<lambda>f. if hfType f = type then Inr (Some i) else field_loop fuel fs n type (i + 1))
      else Inr None)"

definition hh_find :: "http_header \<Rightarrow> int \<Rightarrow> int option outcome" where
  "hh_find h type = field_loop (Suc (nat (mNumFields h))) (mFields h) (mNumFields h) type 0"

definition hh_getField :: "http_header \<Rightarrow> int \<Rightarrow> string option outcome" where
  "hh_getField h type =
     andThen (hh_find h type) (\<lambda>i. case i of None \<Rightarrow> Inr None | Some i \<Rightarrow> andThen (hf_at (mFields h) i) (\<lambda>f. Inr (hfData f)))"

text \<open>The result tells whether the field was found; the number is read with base 0.\<close>

definition hh_getFieldInt :: "http_header \<Rightarrow> int \<Rightarrow> (bool \<times> int) outcome" where
  "hh_getFieldInt h type =
     andThen (hh_getField h type) (\<lambda>str. case str of Some s \<Rightarrow> Inr (True, to_int (strtol 0 s)) | None \<Rightarrow> Inr (False, 0))"

definition hh_getFieldInt64 :: "http_header \<Rightarrow> int \<Rightarrow> (bool \<times> int) outcome" where
  "hh_getFieldInt64 h type =
     andThen (hh_getField h type) (\<lambda>str. case str of Some s \<Rightarrow> Inr (True, strtol 0 s) | None \<Rightarrow> Inr (False, 0))"

fun shift_loop :: "nat \<Rightarrow> header_field list \<Rightarrow> int \<Rightarrow> int \<Rightarrow> header_field list outcome" where
  "shift_loop 0 fs n j = Inl NoReturn"
| "shift_loop (Suc fuel) fs n j =
     (if j < n - 1
      then andThen (hf_at fs (j + 1)) (\<lambda>f. andThen (hf_put fs j f) (\<lambda>fs. shift_loop fuel fs n (j + 1)))
      else Inr fs)"

definition hh_removeField :: "http_header \<Rightarrow> int \<Rightarrow> (bool \<times> http_header) outcome" where
  "hh_removeField h type =
     andThen (hh_find h type) (\<lambda>i.
     case i of
       None \<Rightarrow> Inr (False, h)
     | Some i \<Rightarrow>
         andThen (shift_loop (Suc (nat (mNumFields h))) (mFields h) (mNumFields h) i) (\<lambda>fs.
         andThen (hf_at fs (mNumFields h - 1)) (\<lambda>f.
         andThen (hf_put fs (mNumFields h - 1) (f\<lparr>hfData := None\<rparr>)) (\<lambda>fs.
         Inr (True, h\<lparr>mFields := fs, mNumFields := mNumFields h - 1\<rparr>)))))"

text \<open>A field at the end: its type and then its data are set.\<close>

definition hh_append :: "http_header \<Rightarrow> int \<Rightarrow> string \<Rightarrow> http_header outcome" where
  "hh_append h type data =
     andThen (hf_at (mFields h) (mNumFields h)) (\<lambda>f.
     andThen (hf_put (mFields h) (mNumFields h) (hf_setData (hf_setType f type) data)) (\<lambda>fs.
     Inr (h\<lparr>mFields := fs, mNumFields := mNumFields h + 1\<rparr>)))"

definition hh_addField :: "http_header \<Rightarrow> int \<Rightarrow> string \<Rightarrow> (bool \<times> http_header) outcome" where
  "hh_addField h type data =
     (if mNumFields h \<ge> int kMaxFields then Inr (False, h)
      else andThen (hh_append h type data) (\<lambda>h. Inr (True, h\<lparr>mHeaderStr := []\<rparr>)))"

definition hh_addFieldDecimal :: "http_header \<Rightarrow> int \<Rightarrow> int \<Rightarrow> (bool \<times> http_header) outcome" where
  "hh_addFieldDecimal h type data = hh_addField h type (show_int data)"

definition hh_addFieldHex :: "http_header \<Rightarrow> int \<Rightarrow> int \<Rightarrow> (bool \<times> http_header) outcome" where
  "hh_addFieldHex h type data = hh_addField h type (show_hex data)"

definition hh_addFieldDecimal64 :: "http_header \<Rightarrow> int \<Rightarrow> int \<Rightarrow> (bool \<times> http_header) outcome" where
  "hh_addFieldDecimal64 h type data = hh_addField h type (show_int data)"

section \<open>Writing\<close>

definition CRLF :: string where "CRLF = [CHR 0x0D, CHR 0x0A]"

text \<open>The null pointer appended to a string is undefined behaviour.\<close>

definition or_null :: "string option \<Rightarrow> string outcome" where
  "or_null s = (case s of None \<Rightarrow> Inl UndefinedBehaviour | Some s \<Rightarrow> Inr s)"

fun build_loop :: "nat \<Rightarrow> http_header \<Rightarrow> int \<Rightarrow> string \<Rightarrow> string outcome" where
  "build_loop 0 h i str = Inl NoReturn"
| "build_loop (Suc fuel) h i str =
     (if i < mNumFields h
      then andThen (hf_at (mFields h) i) (\<lambda>f.
           andThen (or_null (hh_getFieldTypeString h (hfType f))) (\<lambda>name.
           andThen (or_null (hfData f)) (\<lambda>data.
           build_loop fuel h (i + 1) (str @ name @ '': '' @ data @ CRLF))))
      else Inr str)"

text \<open>The first line is what the virtual function \<open>buildFirstLine\<close> puts into the string.\<close>

definition hh_buildHeader :: "string \<Rightarrow> http_header \<Rightarrow> http_header outcome" where
  "hh_buildHeader first h =
     (if first = [] then Inr (h\<lparr>mHeaderStr := []\<rparr>)
      else andThen (build_loop (Suc (nat (mNumFields h))) h 0 first) (\<lambda>str. Inr (h\<lparr>mHeaderStr := str @ CRLF\<rparr>)))"

definition hh_getHeader :: "string \<Rightarrow> http_header \<Rightarrow> (string \<times> http_header) outcome" where
  "hh_getHeader first h =
     andThen (if mHeaderStr h = [] then hh_buildHeader first h else Inr h) (\<lambda>h. Inr (c_str (mHeaderStr h), h))"

text \<open>\<open>send\<close> gives the writer the string, and the data of a body behind it.\<close>

definition hh_send :: "string \<Rightarrow> http_header \<Rightarrow> (string \<Rightarrow> int) \<Rightarrow> string option \<Rightarrow> (int \<times> http_header) outcome" where
  "hh_send first h writer data =
     andThen (if mHeaderStr h = [] then hh_buildHeader first h else Inr h) (\<lambda>h.
     Inr (writer (case data of None \<Rightarrow> mHeaderStr h | Some d \<Rightarrow> mHeaderStr h @ d), h))"

section \<open>Reading\<close>

datatype line_state = ParseField | ParseData | ParseCRLF | SkipWS

definition byte_char :: "int \<Rightarrow> char" where "byte_char c = char_of (nat c)"

text \<open>Whether a byte is a CR and the next one an LF, which is only then looked at.\<close>

definition at_crlf :: "cbuf \<Rightarrow> int \<Rightarrow> int \<Rightarrow> bool outcome" where
  "at_crlf buf i c = (if c = 13 then andThen (cb_byteAt buf (i + 1)) (\<lambda>d. Inr (d = 10)) else Inr False)"

definition hh_finish :: "http_header \<Rightarrow> string \<Rightarrow> string \<Rightarrow> http_header outcome" where
  "hh_finish h field data =
     (let type = hh_getFieldType h (c_str field) in
      if type \<noteq> kInvalidFieldType then hh_append h type (c_str data) else Inr h)"

fun parse_loop :: "nat \<Rightarrow> cbuf \<Rightarrow> http_header \<Rightarrow> int \<Rightarrow> line_state \<Rightarrow> string \<Rightarrow> string \<Rightarrow> bool \<Rightarrow> int \<Rightarrow> (int \<times> http_header) outcome" where
  "parse_loop 0 buf h i state field data sp len = Inl NoReturn"
| "parse_loop (Suc fuel) buf h i state field data sp len =
     (if i < cb_getLength buf
      then andThen (cb_byteAt buf i) (\<lambda>c.
        if c = -1 then Inr (-1, h)
        else case state of
          ParseField \<Rightarrow>
            if c = 58 then parse_loop fuel buf h (i + 1) SkipWS field data False (len + 1)
            else parse_loop fuel buf h (i + 1) ParseField (field @ [byte_char c]) data sp (len + 1)
        | ParseData \<Rightarrow>
            andThen (at_crlf buf i c) (\<lambda>crlf.
            if crlf then parse_loop fuel buf h (i + 1) ParseCRLF field data True (len + 1)
            else parse_loop fuel buf h (i + 1) ParseData field (data @ [byte_char c]) sp (len + 1))
        | ParseCRLF \<Rightarrow>
            if c = 10
            then andThen (cb_byteAt buf (i + 1)) (\<lambda>d.
                 if d = 32 \<or> d = 9 then parse_loop fuel buf h (i + 1) SkipWS field data sp (len + 1)
                 else andThen (hh_finish h field data) (\<lambda>h. Inr (len, h)))
            else parse_loop fuel buf h (i + 1) ParseCRLF field data sp (len + 1)
        | SkipWS \<Rightarrow>
            andThen (at_crlf buf i c) (\<lambda>crlf.
            if crlf then parse_loop fuel buf h (i + 1) ParseCRLF field data sp (len + 1)
            else if c \<noteq> 9 \<and> c \<noteq> 32
            then parse_loop fuel buf h (i + 1) ParseData field ((if sp then data @ '' '' else data) @ [byte_char c]) False (len + 1)
            else parse_loop fuel buf h (i + 1) SkipWS field data sp (len + 1)))
      else Inr (-1, h))"

definition hh_parseLine :: "http_header \<Rightarrow> cbuf \<Rightarrow> (int \<times> http_header) outcome" where
  "hh_parseLine h buf = parse_loop (Suc (nat (cb_getLength buf))) buf h 0 ParseField [] [] False 1"

definition kEOH :: int where "kEOH = 0"

text \<open>The flag tells that the byte before was a CR.\<close>

fun search_loop :: "nat \<Rightarrow> cbuf \<Rightarrow> int \<Rightarrow> bool \<Rightarrow> int \<Rightarrow> int outcome" where
  "search_loop 0 buf i cr len = Inl NoReturn"
| "search_loop (Suc fuel) buf i cr len =
     (if i < cb_getLength buf
      then andThen (cb_byteAt buf i) (\<lambda>c.
        if c = -1 then Inr (-1)
        else if \<not> cr then search_loop fuel buf (i + 1) (c = 13) (len + 1)
        else if c = 10
        then andThen (cb_byteAt buf (i + 1)) (\<lambda>c.
             if len = 2 then Inr kEOH
             else if c = 32 \<or> c = 9 then search_loop fuel buf (i + 1) False (len + 1)
             else Inr len)
        else search_loop fuel buf (i + 1) False (len + 1))
      else Inr (-1))"

definition hh_searchForLine :: "cbuf \<Rightarrow> int outcome" where
  "hh_searchForLine buf = search_loop (Suc (nat (cb_getLength buf))) buf 0 False 1"

declare parse_loop.simps [simp del] search_loop.simps [simp del]

section \<open>Text in a buffer\<close>

definition bytes_of :: "string \<Rightarrow> byte list" where "bytes_of s = map of_char s"

definition holds :: "cbuf \<Rightarrow> string \<Rightarrow> bool" where
  "holds buf s \<longleftrightarrow> cb_inv buf \<and> cb_contents buf = bytes_of s"

definition char_code :: "char \<Rightarrow> int" where "char_code c = of_char c"

lemma char_code_range: "0 \<le> char_code c \<and> char_code c < 256"
  using of_char_mod_256 [of c, where 'a = int] pos_mod_bound [of 256 "of_char c :: int"] pos_mod_sign [of 256 "of_char c :: int"]
  by (simp add: char_code_def)

lemma char_code_inj [simp]: "char_code c = char_code d \<longleftrightarrow> c = d"
  by (simp add: char_code_def)

lemma byte_char_code [simp]: "byte_char (char_code c) = c"
  by (simp add: byte_char_def char_code_def)

lemma char_code_eqs [simp]:
  "char_code c = 58 \<longleftrightarrow> c = CHR '':''" "char_code c = 13 \<longleftrightarrow> c = CHR 0x0D" "char_code c = 10 \<longleftrightarrow> c = CHR 0x0A"
  "char_code c = 32 \<longleftrightarrow> c = CHR '' ''" "char_code c = 9 \<longleftrightarrow> c = CHR 0x09" "char_code c \<noteq> -1"
proof -
  have "char_code (CHR '':'') = 58" "char_code (CHR 0x0D) = 13" "char_code (CHR 0x0A) = 10" "char_code (CHR '' '') = 32" "char_code (CHR 0x09) = 9"
    by (simp_all add: char_code_def)
  then show "char_code c = 58 \<longleftrightarrow> c = CHR '':''" "char_code c = 13 \<longleftrightarrow> c = CHR 0x0D" "char_code c = 10 \<longleftrightarrow> c = CHR 0x0A"
    "char_code c = 32 \<longleftrightarrow> c = CHR '' ''" "char_code c = 9 \<longleftrightarrow> c = CHR 0x09" by (metis char_code_inj)+
  show "char_code c \<noteq> -1" using char_code_range [of c] by linarith
qed

lemma uint_char: "uint (of_char c :: byte) = char_code c"
proof -
  have "(of_char c :: byte) = word_of_int (char_code c)" unfolding char_code_def by (metis of_int_of_char)
  then show ?thesis using char_code_range [of c] by (simp add: uint_word_of_int)
qed

lemma holds_length: "holds buf s \<Longrightarrow> cb_getLength buf = int (length s)"
  using cb_length_contents [of buf] by (simp add: holds_def cb_getLength_def bytes_of_def del: length_cb_contents)

definition peek :: "string \<Rightarrow> int" where "peek r = (case r of [] \<Rightarrow> -1 | c # _ \<Rightarrow> char_code c)"

lemma peek_simps [simp]: "peek [] = -1" "peek (c # r) = char_code c"
  by (simp_all add: peek_def)

lemma holds_byteAt:
  assumes "holds buf (p @ r)"
  shows "cb_byteAt buf (int (length p)) = Inr (peek r)"
proof -
  have "cb_inv buf" "cb_contents buf = bytes_of (p @ r)" using assms by (simp_all add: holds_def)
  then show ?thesis using cb_byteAt_ok [of buf "int (length p)"]
    by (cases r) (simp_all add: bytes_of_def nth_append uint_char del: length_cb_contents)
qed

lemma holds_next: "holds buf (p @ c # r) \<Longrightarrow> cb_byteAt buf (int (length p) + 1) = Inr (peek r)"
  using holds_byteAt [of buf "p @ [c]" r] by (simp add: add.commute)

section \<open>Reading a line\<close>

text \<open>The loop at the position behind \<open>p\<close> with \<open>r\<close> left.\<close>

definition parse_at :: "cbuf \<Rightarrow> http_header \<Rightarrow> string \<Rightarrow> string \<Rightarrow> line_state \<Rightarrow> string \<Rightarrow> string \<Rightarrow> bool \<Rightarrow> (int \<times> http_header) outcome" where
  "parse_at buf h p r state field data sp =
     parse_loop (Suc (length r)) buf h (int (length p)) state field data sp (int (length p) + 1)"

lemma parse_at_step:
  assumes "holds buf (p @ c # r)"
  shows "parse_at buf h p (c # r) ParseField field data sp =
      (if c = CHR '':'' then parse_at buf h (p @ [c]) r SkipWS field data False
       else parse_at buf h (p @ [c]) r ParseField (field @ [c]) data sp)"
    "parse_at buf h p (c # r) ParseData field data sp =
      (if c = CHR 0x0D \<and> peek r = 10 then parse_at buf h (p @ [c]) r ParseCRLF field data True
       else parse_at buf h (p @ [c]) r ParseData field (data @ [c]) sp)"
    "parse_at buf h p (c # r) ParseCRLF field data sp =
      (if c = CHR 0x0A
       then if peek r = 32 \<or> peek r = 9 then parse_at buf h (p @ [c]) r SkipWS field data sp
            else andThen (hh_finish h field data) (\<lambda>h. Inr (int (length p) + 1, h))
       else parse_at buf h (p @ [c]) r ParseCRLF field data sp)"
    "parse_at buf h p (c # r) SkipWS field data sp =
      (if c = CHR 0x0D \<and> peek r = 10 then parse_at buf h (p @ [c]) r ParseCRLF field data sp
       else if c \<noteq> CHR 0x09 \<and> c \<noteq> CHR '' ''
       then parse_at buf h (p @ [c]) r ParseData field ((if sp then data @ '' '' else data) @ [c]) False
       else parse_at buf h (p @ [c]) r SkipWS field data sp)"
proof -
  have b: "cb_byteAt buf (int (length p)) = Inr (char_code c)" "cb_byteAt buf (int (length p) + 1) = Inr (peek r)"
    using holds_byteAt [OF assms] holds_next [OF assms] by simp_all
  have l: "cb_getLength buf = int (length p) + 1 + int (length r)" using holds_length [OF assms] by simp
  have n: "int (length (p @ [c])) = int (length p) + 1" by simp
  note u = parse_at_def parse_loop.simps(2) [of "Suc (length r)"] n
  show "parse_at buf h p (c # r) ParseField field data sp =
      (if c = CHR '':'' then parse_at buf h (p @ [c]) r SkipWS field data False
       else parse_at buf h (p @ [c]) r ParseField (field @ [c]) data sp)"
    using b l by (simp add: u ac_simps)
  show "parse_at buf h p (c # r) ParseData field data sp =
      (if c = CHR 0x0D \<and> peek r = 10 then parse_at buf h (p @ [c]) r ParseCRLF field data True
       else parse_at buf h (p @ [c]) r ParseData field (data @ [c]) sp)"
    using b l by (simp add: u at_crlf_def ac_simps)
  show "parse_at buf h p (c # r) ParseCRLF field data sp =
      (if c = CHR 0x0A
       then if peek r = 32 \<or> peek r = 9 then parse_at buf h (p @ [c]) r SkipWS field data sp
            else andThen (hh_finish h field data) (\<lambda>h. Inr (int (length p) + 1, h))
       else parse_at buf h (p @ [c]) r ParseCRLF field data sp)"
    using b l by (simp add: u ac_simps)
  show "parse_at buf h p (c # r) SkipWS field data sp =
      (if c = CHR 0x0D \<and> peek r = 10 then parse_at buf h (p @ [c]) r ParseCRLF field data sp
       else if c \<noteq> CHR 0x09 \<and> c \<noteq> CHR '' ''
       then parse_at buf h (p @ [c]) r ParseData field ((if sp then data @ '' '' else data) @ [c]) False
       else parse_at buf h (p @ [c]) r SkipWS field data sp)"
    using b l by (simp add: u at_crlf_def ac_simps)
qed

lemma parse_at_field:
  "holds buf (p @ a @ r) \<Longrightarrow> CHR '':'' \<notin> set a \<Longrightarrow>
    parse_at buf h p (a @ r) ParseField field data sp = parse_at buf h (p @ a) r ParseField (field @ a) data sp"
proof (induction a arbitrary: p field)
  case (Cons c a)
  then have "c \<noteq> CHR '':''" by auto
  then show ?case using Cons parse_at_step(1) [of buf p c "a @ r"] Cons.IH [of "p @ [c]" "field @ [c]"] by simp
qed simp

lemma parse_at_data:
  "holds buf (p @ a @ r) \<Longrightarrow> CHR 0x0D \<notin> set a \<Longrightarrow>
    parse_at buf h p (a @ r) ParseData field data sp = parse_at buf h (p @ a) r ParseData field (data @ a) sp"
proof (induction a arbitrary: p data)
  case (Cons c a)
  then have "c \<noteq> CHR 0x0D" by auto
  then show ?case using Cons parse_at_step(2) [of buf p c "a @ r"] Cons.IH [of "p @ [c]" "data @ [c]"] by simp
qed simp

lemma parse_at_space:
  "holds buf (p @ a @ r) \<Longrightarrow> set a \<subseteq> {CHR '' '', CHR 0x09} \<Longrightarrow>
    parse_at buf h p (a @ r) SkipWS field data sp = parse_at buf h (p @ a) r SkipWS field data sp"
proof (induction a arbitrary: p)
  case (Cons c a)
  then have "c \<noteq> CHR 0x0D" by auto
  then show ?case using Cons parse_at_step(4) [of buf p c "a @ r"] Cons.IH [of "p @ [c]"] by auto
qed simp

lemma parse_at_end:
  assumes "holds buf (p @ CRLF @ r)" "peek r \<noteq> 32" "peek r \<noteq> 9" "st = ParseData \<or> st = SkipWS"
  shows "parse_at buf h p (CRLF @ r) st field data sp = andThen (hh_finish h field data) (\<lambda>h. Inr (int (length p) + 2, h))"
  using parse_at_step(2,4) [of buf p "CHR 0x0D" "CHR 0x0A # r"] parse_at_step(3) [of buf "p @ [CHR 0x0D]" "CHR 0x0A" r] assms
  by (auto simp: CRLF_def add.commute)

text \<open>A value starts with a character that is not white space, or is empty.\<close>

definition value_ok :: "string \<Rightarrow> bool" where
  "value_ok v \<longleftrightarrow> CHR 0x0D \<notin> set v \<and> (v \<noteq> [] \<longrightarrow> hd v \<notin> {CHR '' '', CHR 0x09})"

lemma parse_at_value:
  assumes "holds buf (p @ v @ r)" "value_ok v"
  shows "\<exists>st. (st = ParseData \<or> st = SkipWS) \<and>
    parse_at buf h p (v @ r) SkipWS field data False = parse_at buf h (p @ v) r st field (data @ v) False"
proof (cases v)
  case (Cons c a)
  then have "parse_at buf h p (v @ r) SkipWS field data False = parse_at buf h (p @ [c]) (a @ r) ParseData field (data @ [c]) False"
    using parse_at_step(4) [of buf p c "a @ r"] assms by (auto simp: value_ok_def)
  also have "\<dots> = parse_at buf h (p @ [c] @ a) r ParseData field (data @ [c] @ a) False"
    using parse_at_data [of buf "p @ [c]" a r] assms Cons by (simp add: value_ok_def)
  finally show ?thesis using Cons by auto
qed auto

lemma parseLine_at: "holds buf s \<Longrightarrow> hh_parseLine h buf = parse_at buf h [] s ParseField [] [] False"
  using holds_length [of buf s] by (simp add: hh_parseLine_def parse_at_def)

lemma parseLine_text:
  assumes "holds buf (name @ '':'' @ ws @ v @ CRLF @ r)" "CHR '':'' \<notin> set name" "set ws \<subseteq> {CHR '' '', CHR 0x09}" "value_ok v"
    "peek r \<noteq> 32" "peek r \<noteq> 9"
  shows "hh_parseLine h buf = andThen (hh_finish h name v) (\<lambda>h. Inr (int (length (name @ '':'' @ ws @ v @ CRLF)), h))"
proof -
  let ?q = "name @ '':'' @ ws"
  have "hh_parseLine h buf = parse_at buf h [] (name @ '':'' @ ws @ v @ CRLF @ r) ParseField [] [] False"
    by (rule parseLine_at [OF assms(1)])
  also have "\<dots> = parse_at buf h name ('':'' @ ws @ v @ CRLF @ r) ParseField name [] False"
    using parse_at_field [of buf "[]" name "'':'' @ ws @ v @ CRLF @ r" h "[]"] assms(1,2) by simp
  also have "\<dots> = parse_at buf h (name @ '':'') (ws @ v @ CRLF @ r) SkipWS name [] False"
    using parse_at_step(1) [of buf name "CHR '':''" "ws @ v @ CRLF @ r"] assms(1) by simp
  also have "\<dots> = parse_at buf h ?q (v @ CRLF @ r) SkipWS name [] False"
    using parse_at_space [of buf "name @ '':''" ws "v @ CRLF @ r"] assms(1,3) by simp
  finally have s: "hh_parseLine h buf = parse_at buf h ?q (v @ CRLF @ r) SkipWS name [] False" .
  obtain st where "st = ParseData \<or> st = SkipWS"
    "parse_at buf h ?q (v @ CRLF @ r) SkipWS name [] False = parse_at buf h (?q @ v) (CRLF @ r) st name v False"
    using parse_at_value [of buf ?q v "CRLF @ r" h name "[]"] assms(1,4) by auto
  then show ?thesis using s parse_at_end [of buf "?q @ v" r st h name v False] assms(1,5,6) by (simp add: CRLF_def)
qed

text \<open>The search for the end of a line, in the same way.\<close>

definition search_at :: "cbuf \<Rightarrow> string \<Rightarrow> string \<Rightarrow> bool \<Rightarrow> int outcome" where
  "search_at buf p r cr = search_loop (Suc (length r)) buf (int (length p)) cr (int (length p) + 1)"

lemma search_at_step:
  assumes "holds buf (p @ c # r)"
  shows "search_at buf p (c # r) cr =
    (if \<not> cr then search_at buf (p @ [c]) r (c = CHR 0x0D)
     else if c = CHR 0x0A
     then if length p = 1 then Inr kEOH
          else if peek r = 32 \<or> peek r = 9 then search_at buf (p @ [c]) r False else Inr (int (length p) + 1)
     else search_at buf (p @ [c]) r False)"
proof -
  have b: "cb_byteAt buf (int (length p)) = Inr (char_code c)" "cb_byteAt buf (int (length p) + 1) = Inr (peek r)"
    using holds_byteAt [OF assms] holds_next [OF assms] by simp_all
  have l: "cb_getLength buf = int (length p) + 1 + int (length r)" using holds_length [OF assms] by simp
  have n: "int (length (p @ [c])) = int (length p) + 1" by simp
  show ?thesis using b l by (simp add: search_at_def search_loop.simps(2) [of "Suc (length r)"] n ac_simps)
qed

lemma search_at_skip:
  "holds buf (p @ a @ r) \<Longrightarrow> CHR 0x0D \<notin> set a \<Longrightarrow> search_at buf p (a @ r) False = search_at buf (p @ a) r False"
proof (induction a arbitrary: p)
  case (Cons c a)
  then have "c \<noteq> CHR 0x0D" by auto
  then show ?case using Cons search_at_step [of buf p c "a @ r" False] Cons.IH [of "p @ [c]"] by simp
qed simp

lemma search_start: "holds buf s \<Longrightarrow> hh_searchForLine buf = search_at buf [] s False"
  using holds_length [of buf s] by (simp add: hh_searchForLine_def search_at_def)

lemma search_line:
  assumes "holds buf (a @ CRLF @ r)" "CHR 0x0D \<notin> set a" "a \<noteq> []" "peek r \<noteq> 32" "peek r \<noteq> 9"
  shows "hh_searchForLine buf = Inr (int (length (a @ CRLF)))"
  using search_start [OF assms(1)] search_at_skip [of buf "[]" a "CRLF @ r"]
    search_at_step [of buf a "CHR 0x0D" "CHR 0x0A # r" False] search_at_step [of buf "a @ [CHR 0x0D]" "CHR 0x0A" r True] assms
  by (simp add: CRLF_def)

lemma search_end:
  assumes "holds buf (CRLF @ r)"
  shows "hh_searchForLine buf = Inr kEOH"
  using search_start [OF assms] search_at_step [of buf "[]" "CHR 0x0D" "CHR 0x0A # r" False]
    search_at_step [of buf "[CHR 0x0D]" "CHR 0x0A" r True] assms
  by (simp add: CRLF_def)

section \<open>Fields as a list\<close>

definition hh_rep :: "http_header \<Rightarrow> (int \<times> string) list \<Rightarrow> bool" where
  "hh_rep h fs \<longleftrightarrow> mNumFields h = int (length fs) \<and> length (mFields h) = kMaxFields \<and>
     length fs \<le> kMaxFields \<and> take (length fs) (mFields h) = map (\<lambda>(t, v). \<lparr>hfType = t, hfData = Some v\<rparr>) fs"

lemma hh_rep_nth:
  assumes "hh_rep h fs" "i < length fs"
  shows "mFields h ! i = \<lparr>hfType = fst (fs ! i), hfData = Some (snd (fs ! i))\<rparr>"
proof -
  have "take (length fs) (mFields h) ! i = map (\<lambda>(t, v). \<lparr>hfType = t, hfData = Some v\<rparr>) fs ! i"
    using assms by (simp only: hh_rep_def)
  then show ?thesis using assms(2) by (simp add: split_beta)
qed

lemma hh_rep_new: "hh_rep HttpHeader_new []"
  by (simp add: hh_rep_def HttpHeader_new_def hh_addFieldMap_def HttpHeaderBase_new_def)

lemma hh_append_rep:
  assumes "hh_rep h fs"
  shows "length fs < kMaxFields \<Longrightarrow> \<exists>h'. hh_append h t v = Inr h' \<and> hh_rep h' (fs @ [(t, v)]) \<and>
      mFieldMappings h' = mFieldMappings h \<and> mHeaderStr h' = mHeaderStr h"
    "length fs = kMaxFields \<Longrightarrow> hh_append h t v = Inl UndefinedBehaviour"
proof -
  have n: "mNumFields h = int (length fs)" "length (mFields h) = kMaxFields"
    "take (length fs) (mFields h) = map (\<lambda>(t, v). \<lparr>hfType = t, hfData = Some v\<rparr>) fs" using assms by (simp_all add: hh_rep_def)
  show "length fs = kMaxFields \<Longrightarrow> hh_append h t v = Inl UndefinedBehaviour" using n by (simp add: hh_append_def hf_at_def)
  assume l: "length fs < kMaxFields"
  let ?f = "\<lparr>hfType = t, hfData = Some v\<rparr>"
  have "hf_setData (hf_setType f t) v = ?f" for f by (simp add: hf_setData_def hf_setType_def)
  then have "hh_append h t v = Inr (h\<lparr>mFields := (mFields h)[length fs := ?f], mNumFields := mNumFields h + 1\<rparr>)"
    using n l by (simp add: hh_append_def hf_at_def hf_put_def)
  moreover have "take (Suc (length fs)) ((mFields h)[length fs := ?f]) = take (length fs) (mFields h) @ [?f]"
    using n(2) l by (simp add: take_Suc_conv_app_nth)
  ultimately show "\<exists>h'. hh_append h t v = Inr h' \<and> hh_rep h' (fs @ [(t, v)]) \<and> mFieldMappings h' = mFieldMappings h \<and> mHeaderStr h' = mHeaderStr h"
    using n l by (simp add: hh_rep_def)
qed

text \<open>What the operations do to the list.\<close>

datatype field_op = AddField int string | RemoveField int | GetField int | GetFieldInt int
datatype field_res = Success bool | Value "string option" | Number "(bool \<times> int)"

fun without_type :: "int \<Rightarrow> (int \<times> string) list \<Rightarrow> (int \<times> string) list" where
  "without_type t [] = []"
| "without_type t (f # fs) = (if fst f = t then fs else f # without_type t fs)"

fun fields_do :: "field_op \<Rightarrow> (int \<times> string) list \<Rightarrow> field_res \<times> (int \<times> string) list" where
  "fields_do (AddField t v) fs = (if length fs < kMaxFields then (Success True, fs @ [(t, v)]) else (Success False, fs))"
| "fields_do (RemoveField t) fs = (Success (map_of fs t \<noteq> None), without_type t fs)"
| "fields_do (GetField t) fs = (Value (map_of fs t), fs)"
| "fields_do (GetFieldInt t) fs =
     (Number (case map_of fs t of None \<Rightarrow> (False, 0) | Some v \<Rightarrow> (True, to_int (strtol 0 v))), fs)"

fun hh_do :: "field_op \<Rightarrow> http_header \<Rightarrow> (field_res \<times> http_header) outcome" where
  "hh_do (AddField t v) h = andThen (hh_addField h t v) (\<lambda>(ok, h). Inr (Success ok, h))"
| "hh_do (RemoveField t) h = andThen (hh_removeField h t) (\<lambda>(ok, h). Inr (Success ok, h))"
| "hh_do (GetField t) h = andThen (hh_getField h t) (\<lambda>v. Inr (Value v, h))"
| "hh_do (GetFieldInt t) h = andThen (hh_getFieldInt h t) (\<lambda>v. Inr (Number v, h))"

fun fields_run :: "field_op list \<Rightarrow> (int \<times> string) list \<Rightarrow> field_res list \<times> (int \<times> string) list" where
  "fields_run [] fs = ([], fs)"
| "fields_run (c # cs) fs = (let (r, fs) = fields_do c fs; (rs, fs) = fields_run cs fs in (r # rs, fs))"

fun hh_run :: "field_op list \<Rightarrow> http_header \<Rightarrow> (field_res list \<times> http_header) outcome" where
  "hh_run [] h = Inr ([], h)"
| "hh_run (c # cs) h = andThen (hh_do c h) (\<lambda>(r, h). andThen (hh_run cs h) (\<lambda>(rs, h). Inr (r # rs, h)))"

definition type_index :: "int \<Rightarrow> (int \<times> string) list \<Rightarrow> nat" where
  "type_index t fs = length (takeWhile (\<lambda>f. fst f \<noteq> t) fs)"

lemma type_index_le: "type_index t fs \<le> length fs"
  by (simp add: type_index_def length_takeWhile_le)

lemma type_index_nth: "type_index t fs < length fs \<Longrightarrow> fst (fs ! type_index t fs) = t"
  unfolding type_index_def using nth_length_takeWhile by fastforce

lemma type_index_before: "i < type_index t fs \<Longrightarrow> fst (fs ! i) \<noteq> t"
  by (induction fs arbitrary: i) (auto simp: type_index_def nth_Cons split: nat.splits if_splits)

lemma type_index_none: "map_of fs t = None \<longleftrightarrow> type_index t fs = length fs"
  by (induction fs) (auto simp: type_index_def)

lemma type_index_some: "type_index t fs < length fs \<Longrightarrow> map_of fs t = Some (snd (fs ! type_index t fs))"
  by (induction fs) (auto simp: type_index_def)

lemma without_type_index: "without_type t fs = take (type_index t fs) fs @ drop (Suc (type_index t fs)) fs"
  by (induction fs) (auto simp: type_index_def)

lemma field_loop_index:
  assumes "hh_rep h fs" "i \<le> type_index t fs" "length fs < i + fuel"
  shows "field_loop fuel (mFields h) (mNumFields h) t (int i) =
    Inr (if type_index t fs < length fs then Some (int (type_index t fs)) else None)"
  using assms(2,3)
proof (induction fuel arbitrary: i)
  case 0
  then show ?case using type_index_le [of t fs] by simp
next
  case (Suc fuel)
  have n: "mNumFields h = int (length fs)" using assms(1) by (simp add: hh_rep_def)
  show ?case
  proof (cases "i < length fs")
    case True
    have f: "hf_at (mFields h) (int i) = Inr \<lparr>hfType = fst (fs ! i), hfData = Some (snd (fs ! i))\<rparr>"
      using hh_rep_nth [OF assms(1) True] assms(1) True by (simp add: hf_at_def hh_rep_def)
    have e: "int i + 1 = int (Suc i)" by simp
    show ?thesis
    proof (cases "i = type_index t fs")
      case True
      then show ?thesis using f n \<open>i < length fs\<close> type_index_nth [of t fs] by simp
    next
      case False
      then have "i < type_index t fs" using Suc.prems by simp
      then have "fst (fs ! i) \<noteq> t" by (rule type_index_before)
      moreover have "field_loop fuel (mFields h) (mNumFields h) t (int i + 1) =
          Inr (if type_index t fs < length fs then Some (int (type_index t fs)) else None)"
        unfolding e using \<open>i < type_index t fs\<close> Suc.prems(2) by (intro Suc.IH) simp_all
      ultimately show ?thesis using f n \<open>i < length fs\<close> by simp
    qed
  next
    case False
    then show ?thesis using Suc.prems n type_index_le [of t fs] by simp
  qed
qed

lemma hh_find_index:
  "hh_rep h fs \<Longrightarrow> hh_find h t = Inr (if type_index t fs < length fs then Some (int (type_index t fs)) else None)"
  using field_loop_index [of h fs 0 t "Suc (length fs)"] by (simp add: hh_find_def hh_rep_def del: field_loop.simps)

lemma hh_getField_list: "hh_rep h fs \<Longrightarrow> hh_getField h t = Inr (map_of fs t)"
  using hh_find_index [of h fs t] hh_rep_nth [of h fs "type_index t fs"] type_index_none [of fs t] type_index_le [of t fs] type_index_some [of t fs]
  by (auto simp: hh_getField_def hf_at_def hh_rep_def)

lemma hh_getFieldInt_list:
  "hh_rep h fs \<Longrightarrow> hh_getFieldInt h t = Inr (case map_of fs t of None \<Rightarrow> (False, 0) | Some v \<Rightarrow> (True, to_int (strtol 0 v)))"
  by (simp add: hh_getFieldInt_def hh_getField_list split: option.splits)

text \<open>Removing moves the fields behind one place down, and clears the last one.\<close>

lemma shift_loop_ok:
  assumes "length l \<le> length xs"
  shows "i + 1 + length l = n \<Longrightarrow> length l < fuel \<Longrightarrow> n \<le> length xs \<Longrightarrow> drop (Suc i) (take n xs) = l \<Longrightarrow>
    shift_loop fuel xs (int n) (int i) = Inr (take i xs @ l @ drop (n - 1) xs)"
  using assms
proof (induction l arbitrary: i xs fuel)
  case Nil
  then show ?case by (cases fuel) auto
next
  case (Cons y l)
  obtain f where f: "fuel = Suc f" using Cons.prems by (cases fuel) auto
  let ?xs = "xs[i := y]"
  have i: "Suc i < n" "i < length xs" using Cons.prems by simp_all
  have y: "xs ! Suc i = y" using Cons.prems(4) i by (metis Cons.prems(3) drop_eq_Nil hd_drop_conv_nth length_take linorder_not_le list.sel(1) min_absorb2 nth_take)
  have l: "drop (Suc (Suc i)) (take n xs) = l" using Cons.prems(4) by (metis drop_Suc list.sel(3) tl_drop)
  have "drop (Suc (Suc i)) (take n ?xs) = l" using l by (simp add: take_update_swap drop_update_cancel)
  moreover have e: "int i + 1 = int (Suc i)" by simp
  ultimately have ih: "shift_loop f ?xs (int n) (int i + 1) = Inr (take (Suc i) ?xs @ l @ drop (n - 1) ?xs)"
    unfolding e using Cons.prems f i by (intro Cons.IH) simp_all
  have s: "take (Suc i) ?xs = take i xs @ [y]" "drop (n - 1) ?xs = drop (n - 1) xs"
    using i by (simp_all add: take_Suc_conv_app_nth drop_update_cancel)
  have "hf_at xs (int i + 1) = Inr y" "hf_put xs (int i) y = Inr ?xs"
    using i y Cons.prems(3) by (simp_all add: hf_at_def hf_put_def nat_add_distrib)
  then show ?case using f i ih s by simp
qed

lemma hh_removeField_list:
  assumes r: "hh_rep h fs"
  shows "\<exists>h'. hh_removeField h t = Inr (map_of fs t \<noteq> None, h') \<and> hh_rep h' (without_type t fs) \<and>
    mFieldMappings h' = mFieldMappings h \<and> mHeaderStr h' = mHeaderStr h"
proof (cases "type_index t fs < length fs")
  case False
  then have "map_of fs t = None" "without_type t fs = fs"
    using type_index_le [of t fs] type_index_none [of fs t] by (simp_all add: without_type_index)
  then show ?thesis using False r hh_find_index [OF r, of t] by (simp add: hh_removeField_def)
next
  case True
  let ?i = "type_index t fs" and ?n = "length fs" and ?xs = "mFields h"
  let ?F = "\<lambda>(t, v). \<lparr>hfType = t, hfData = Some v\<rparr>"
  have n: "mNumFields h = int ?n" "length ?xs = kMaxFields" "?n \<le> kMaxFields" "take ?n ?xs = map ?F fs"
    using r by (simp_all add: hh_rep_def)
  let ?l = "map ?F (drop (Suc ?i) fs)"
  let ?ys = "take ?i ?xs @ ?l @ drop (?n - 1) ?xs"
  have l: "drop (Suc ?i) (take ?n ?xs) = ?l" using n(4) by (simp add: drop_map)
  have sh: "shift_loop (Suc ?n) ?xs (int ?n) (int ?i) = Inr ?ys"
    using l True n(2,3) by (intro shift_loop_ok) simp_all
  have ln: "length ?ys = length ?xs" using True n(2,3) by simp
  let ?f = "(?ys ! (?n - 1))\<lparr>hfData := None\<rparr>"
  have m: "nat (int ?n - 1) = ?n - 1" "0 \<le> int ?n - 1" "int ?n - 1 < int (length ?ys)" "int (?n - 1) = int ?n - 1"
    using True ln n(2,3) by auto
  have "hh_removeField h t = Inr (True, h\<lparr>mFields := ?ys[?n - 1 := ?f], mNumFields := int ?n - 1\<rparr>)"
    using True sh m n(1) hh_find_index [OF r, of t] unfolding hh_removeField_def hf_at_def hf_put_def by simp
  moreover have "take (?n - 1) (?ys[?n - 1 := ?f]) = map ?F (without_type t fs)"
  proof -
    have "take ?i ?xs = map ?F (take ?i fs)" using n(4) True by (metis min.absorb1 nless_le take_map take_take)
    then show ?thesis using True n(2,3) by (simp add: without_type_index)
  qed
  ultimately show ?thesis using True m n ln type_index_none [of fs t]
    by (simp add: hh_rep_def without_type_index)
qed

lemma hh_addField_list:
  assumes r: "hh_rep h fs"
  shows "\<exists>h'. hh_addField h t v = Inr (length fs < kMaxFields, h') \<and> mFieldMappings h' = mFieldMappings h \<and>
    hh_rep h' (if length fs < kMaxFields then fs @ [(t, v)] else fs) \<and>
    mHeaderStr h' = (if length fs < kMaxFields then [] else mHeaderStr h)"
proof (cases "length fs < kMaxFields")
  case True
  then obtain h' where "hh_append h t v = Inr h'" "hh_rep h' (fs @ [(t, v)])" "mFieldMappings h' = mFieldMappings h"
    using hh_append_rep(1) [OF r True] by blast
  then show ?thesis using True r by (simp add: hh_addField_def hh_rep_def)
next
  case False
  moreover have "mNumFields h = int (length fs)" "length fs \<le> kMaxFields" using r by (simp_all add: hh_rep_def)
  ultimately show ?thesis using r by (simp add: hh_addField_def)
qed

lemma hh_do_list: "hh_rep h fs \<Longrightarrow> \<exists>h'. hh_do c h = Inr (fst (fields_do c fs), h') \<and> hh_rep h' (snd (fields_do c fs))"
proof (cases c)
  case (AddField t v)
  assume "hh_rep h fs"
  then show ?thesis using AddField hh_addField_list [of h fs t v] by auto
next
  case (RemoveField t)
  assume "hh_rep h fs"
  then show ?thesis using RemoveField hh_removeField_list [of h fs t] by auto
qed (simp_all add: hh_getField_list hh_getFieldInt_list)

lemma hh_run_list: "hh_rep h fs \<Longrightarrow> \<exists>h'. hh_run cs h = Inr (fst (fields_run cs fs), h') \<and> hh_rep h' (snd (fields_run cs fs))"
proof (induction cs arbitrary: h fs)
  case (Cons c cs)
  obtain h1 where h1: "hh_do c h = Inr (fst (fields_do c fs), h1)" "hh_rep h1 (snd (fields_do c fs))"
    using hh_do_list [OF Cons.prems] by blast
  then show ?case using Cons.IH [OF h1(2)] by (auto simp: split_beta Let_def)
qed simp

section \<open>Any input\<close>

text \<open>What a line that is read may do to the fields.\<close>

definition line_result :: "http_header \<Rightarrow> (int \<times> string) list \<Rightarrow> int \<Rightarrow> (int \<times> http_header) outcome \<Rightarrow> bool" where
  "line_result h fs len res \<longleftrightarrow>
     (case res of
        Inl e \<Rightarrow> e = UndefinedBehaviour \<and> length fs = kMaxFields
      | Inr (n, h') \<Rightarrow> n = -1 \<and> h' = h \<or> 0 < n \<and> n \<le> len \<and> (h' = h \<or> (\<exists>t v. hh_rep h' (fs @ [(t, v)]))))"

lemma finish_result:
  assumes "hh_rep h fs" "0 < n" "n \<le> len"
  shows "line_result h fs len (andThen (hh_finish h field data) (\<lambda>h. Inr (n, h)))"
proof (cases "hh_getFieldType h (c_str field) = kInvalidFieldType")
  case True
  then show ?thesis using assms by (simp add: hh_finish_def line_result_def)
next
  case False
  let ?t = "hh_getFieldType h (c_str field)"
  have f: "hh_finish h field data = hh_append h ?t (c_str data)" using False by (simp add: hh_finish_def)
  show ?thesis
  proof (cases "length fs < kMaxFields")
    case True
    then obtain h' where "hh_append h ?t (c_str data) = Inr h'" "hh_rep h' (fs @ [(?t, c_str data)])"
      using hh_append_rep(1) [OF assms(1) True] by blast
    then show ?thesis using f assms by (auto simp: line_result_def)
  next
    case False
    then have "length fs = kMaxFields" using assms(1) by (simp add: hh_rep_def)
    then show ?thesis using f hh_append_rep(2) [OF assms(1)] by (simp add: line_result_def)
  qed
qed

lemma parse_at_nil: "holds buf p \<Longrightarrow> parse_at buf h p [] st field data sp = Inr (-1, h)"
  using holds_length [of buf p] by (simp add: parse_at_def parse_loop.simps(2) [of 0])

lemma parse_at_result:
  "holds buf (p @ r) \<Longrightarrow> hh_rep h fs \<Longrightarrow> line_result h fs (int (length (p @ r))) (parse_at buf h p r st field data sp)"
proof (induction r arbitrary: p st field data sp)
  case Nil
  then show ?case using parse_at_nil [of buf p] by (simp add: line_result_def)
next
  case (Cons c r)
  define L where "L = int (length (p @ c # r))"
  have h: "holds buf ((p @ [c]) @ r)" using Cons.prems by simp
  have ih: "line_result h fs L (parse_at buf h (p @ [c]) r st field data sp)" for st field data sp
    using Cons.IH [OF h Cons.prems(2), of st field data sp] by (simp add: L_def)
  have fin: "line_result h fs L (andThen (hh_finish h field data) (\<lambda>h. Inr (int (length p) + 1, h)))" for field data
    by (rule finish_result [OF Cons.prems(2)]) (simp_all add: L_def)
  show ?case unfolding L_def [symmetric]
    by (cases st) (simp_all only: parse_at_step [OF Cons.prems(1)] ih fin split: if_split, simp_all)
qed

text \<open>Each buffer holds some text.\<close>

lemma holds_some: "cb_inv buf \<Longrightarrow> holds buf (map (\<lambda>b. char_of (uint b)) (cb_contents buf))"
proof -
  have "(of_char (char_of (uint b) :: char) :: byte) = b" for b :: byte
  proof -
    have "uint b < 256" using uint_bounded [of b] by simp
    then have "of_char (char_of (uint b) :: char) = uint b" by (simp add: of_char_of)
    then show ?thesis by (metis of_int_of_char word_of_int_uint)
  qed
  then have "map (of_char \<circ> (\<lambda>b. char_of (uint b) :: char)) (cb_contents buf) = cb_contents buf" by (simp add: map_idI)
  moreover assume "cb_inv buf"
  ultimately show ?thesis by (simp add: holds_def bytes_of_def)
qed

lemma parseLine_result:
  assumes "cb_inv buf" "hh_rep h fs"
  shows "line_result h fs (cb_getLength buf) (hh_parseLine h buf)"
  using holds_some [OF assms(1)] parse_at_result [of buf "[]", simplified, OF _ assms(2)] parseLine_at [of buf] holds_length [of buf]
  by metis

section \<open>The contract of a field map\<close>

text \<open>
  What the header relies on: the name of a type is read back as the type, and a name is not empty and has
  no colon, CR or NUL, and no white space in front.
\<close>

definition name_ok :: "string \<Rightarrow> bool" where
  "name_ok s \<longleftrightarrow> s \<noteq> [] \<and> CHR '':'' \<notin> set s \<and> CHR 0x0D \<notin> set s \<and> CHR 0x00 \<notin> set s \<and>
     hd s \<noteq> CHR '' '' \<and> hd s \<noteq> CHR 0x09"

definition line_text :: "(int \<Rightarrow> string option) \<Rightarrow> int \<times> string \<Rightarrow> string" where
  "line_text string_of = (\<lambda>(t, v). the (string_of t) @ '': '' @ v @ CRLF)"

definition data_ok :: "string \<Rightarrow> bool" where
  "data_ok v \<longleftrightarrow> value_ok v \<and> CHR 0x00 \<notin> set v"

locale field_map =
  fixes type_of :: "string \<Rightarrow> int"
    and string_of :: "int \<Rightarrow> string option"
  assumes names: "string_of t = Some s \<Longrightarrow> type_of s = t \<and> t \<noteq> kInvalidFieldType \<and> name_ok s"
begin

lemma known_type:
  assumes "mFieldMappings h = [\<lparr>fmType = type_of, fmString = string_of\<rparr>]"
  shows "hh_getFieldType h s = type_of s" "hh_getFieldTypeString h t = string_of t"
  using assms by (simp_all add: hh_getFieldType_def hh_getFieldTypeString_def Let_def)

lemma finish_known:
  assumes "mFieldMappings h = [\<lparr>fmType = type_of, fmString = string_of\<rparr>]" "string_of t = Some s" "data_ok v"
  shows "hh_finish h s v = hh_append h t v"
proof -
  have "c_str s = s" "c_str v = v"
    using names [OF assms(2)] assms(3) by (auto simp: c_str_def name_ok_def data_ok_def takeWhile_eq_all_conv)
  then show ?thesis using names [OF assms(2)] known_type(1) [OF assms(1)] by (simp add: hh_finish_def Let_def)
qed

text \<open>A line of the text is found and read as one field.\<close>

lemma line_read:
  assumes m: "mFieldMappings h = [\<lparr>fmType = type_of, fmString = string_of\<rparr>]" and s: "string_of t = Some s" and v: "data_ok v"
    and buf: "holds buf (line_text string_of (t, v) @ r)" "peek r \<noteq> 32" "peek r \<noteq> 9"
  shows "hh_searchForLine buf = Inr (int (length (line_text string_of (t, v))))"
    "hh_parseLine h buf = andThen (hh_append h t v) (\<lambda>h. Inr (int (length (line_text string_of (t, v))), h))"
proof -
  have n: "name_ok s" using names [OF s] by simp
  have t: "line_text string_of (t, v) = s @ '':'' @ '' '' @ v @ CRLF" using s by (simp add: line_text_def)
  have vo: "value_ok v" "CHR 0x0D \<notin> set v" using v by (simp_all add: data_ok_def value_ok_def)
  show "hh_searchForLine buf = Inr (int (length (line_text string_of (t, v))))"
    using search_line [of buf "s @ '':'' @ '' '' @ v" r] buf n vo unfolding t by (auto simp: name_ok_def)
  show "hh_parseLine h buf = andThen (hh_append h t v) (\<lambda>h. Inr (int (length (line_text string_of (t, v))), h))"
    using parseLine_text [of buf s "'' ''" v r h] finish_known [OF m s v] buf n vo(1) unfolding t by (auto simp: name_ok_def)
qed

lemma build_loop_text:
  assumes m: "mFieldMappings h = [\<lparr>fmType = type_of, fmString = string_of\<rparr>]" and r: "hh_rep h fs"
    and k: "\<forall>f \<in> set fs. string_of (fst f) \<noteq> None"
  shows "i \<le> length fs \<Longrightarrow> length fs - i < fuel \<Longrightarrow>
    build_loop fuel h (int i) str = Inr (str @ concat (map (line_text string_of) (drop i fs)))"
proof (induction fuel arbitrary: i str)
  case (Suc fuel)
  show ?case
  proof (cases "i < length fs")
    case True
    let ?f = "fs ! i"
    have f: "hf_at (mFields h) (int i) = Inr \<lparr>hfType = fst ?f, hfData = Some (snd ?f)\<rparr>" "int i < mNumFields h"
      using hh_rep_nth [OF r True] r True by (simp_all add: hf_at_def hh_rep_def)
    obtain s where s: "string_of (fst ?f) = Some s" using k True nth_mem by fastforce
    have d: "drop i fs = ?f # drop (Suc i) fs" using True by (simp add: Cons_nth_drop_Suc)
    have l: "line_text string_of ?f = s @ '': '' @ snd ?f @ CRLF" using s by (simp add: line_text_def split_beta)
    have e: "int i + 1 = int (Suc i)" by simp
    show ?thesis using Suc.IH [of "Suc i"] Suc.prems True f s d l known_type(2) [OF m]
      by (simp add: or_null_def e del: of_nat_Suc)
  next
    case False
    then show ?thesis using Suc.prems r by (simp add: hh_rep_def)
  qed
qed simp

lemma build_text:
  assumes "mFieldMappings h = [\<lparr>fmType = type_of, fmString = string_of\<rparr>]" "hh_rep h fs"
    "\<forall>f \<in> set fs. string_of (fst f) \<noteq> None" "first \<noteq> []"
  shows "hh_buildHeader first h = Inr (h\<lparr>mHeaderStr := first @ concat (map (line_text string_of) fs) @ CRLF\<rparr>)"
  using build_loop_text [OF assms(1-3), of 0 "Suc (nat (mNumFields h))" first] assms(2,4)
  by (simp add: hh_buildHeader_def hh_rep_def del: build_loop.simps)

end

text \<open>The names of HTTP are such a map: no two of them differ in case only.\<close>

lemma name_index_nth:
  "distinct (map (map lower) xs) \<Longrightarrow> i < length xs \<Longrightarrow> name_index (xs ! i) xs k = int (k + i) + kHttpFieldMapStart"
proof (induction xs arbitrary: i k)
  case (Cons x xs)
  show ?case
  proof (cases i)
    case (Suc j)
    have "map lower (xs ! j) \<in> set (map (map lower) xs)" using nth_mem [of j "map (map lower) xs"] Cons.prems(2) Suc by simp
    then have "\<not> strcasecmp_equal (xs ! j) x" using Cons.prems by (auto simp: strcasecmp_equal_def)
    then show ?thesis using Cons Suc by simp
  qed (simp add: strcasecmp_equal_def)
qed simp

lemma http_names_distinct: "distinct (map (map lower) gFieldTypeList)"
  by code_simp

lemma http_names_ok: "list_all name_ok gFieldTypeList"
  by (simp add: gFieldTypeList_def name_ok_def)

lemma http_names:
  assumes "i < 47"
  shows "http_getFieldType (gFieldTypeList ! i) = int i + 1000" "name_ok (gFieldTypeList ! i)"
proof -
  have l: "length gFieldTypeList = 47" by (simp add: gFieldTypeList_def)
  show "http_getFieldType (gFieldTypeList ! i) = int i + 1000"
    using name_index_nth [OF http_names_distinct, of i 0] assms l by (simp add: http_getFieldType_def kHttpFieldMapStart_def)
  show "name_ok (gFieldTypeList ! i)" using http_names_ok assms l by (simp add: list_all_length)
qed

interpretation http: field_map http_getFieldType http_getFieldTypeString
proof
  fix t s assume "http_getFieldTypeString t = Some s"
  then have t: "1000 \<le> t" "t < 1047" "s = gFieldTypeList ! nat (t - 1000)"
    by (auto simp: http_getFieldTypeString_def kHttpFieldMapStart_def kNumFields_def split: if_splits)
  then show "http_getFieldType s = t \<and> t \<noteq> kInvalidFieldType \<and> name_ok s"
    using http_names [of "nat (t - 1000)"] by (auto simp: kInvalidFieldType_def)
qed

section \<open>Properties\<close>

text \<open>A ring that is full of a text, for the examples.\<close>

definition buffer_of :: "string \<Rightarrow> cbuf" where
  "buffer_of s = \<lparr>mBuffer = bytes_of s, mReadPtr = 0, mWritePtr = 0, mBufferSize = int (length s),
     mLen = word_of_int (int (length s)), mDataCondition = 0, mFreeCondition = 0, mFreeBuffer = True\<rparr>"

lemma holds_buffer_of:
  assumes "s \<noteq> []" "length s < 2 ^ 31"
  shows "holds (buffer_of s) s"
proof -
  have u: "uint (word_of_int (int (length s)) :: u32) = int (length s)"
    using assms(2) by (intro uint_word_of_int_small) simp_all
  then have n: "unat (word_of_int (int (length s)) :: u32) = length s" by (simp add: unat_eq_nat_uint)
  have "cb_inv (buffer_of s)" using assms u by (simp add: cb_inv_def buffer_of_def bytes_of_def)
  moreover have "cb_contents (buffer_of s) = bytes_of s"
    unfolding cb_contents_def buffer_of_def using assms n
    by (intro nth_equalityI_upt) (simp_all add: bytes_of_def)
  ultimately show ?thesis by (simp add: holds_def)
qed

text \<open>C19: operations on the fields, in any order, do what they do to a list of at most 32 pairs: adding appends
  unless the list is full, removing takes the first pair of that type away, and the first one is what is found.\<close>

theorem hh_fields_refine:
  assumes "hh_rep h fs"
  shows "\<exists>h'. hh_run cs h = Inr (fst (fields_run cs fs), h') \<and> hh_rep h' (snd (fields_run cs fs)) \<and>
    length (snd (fields_run cs fs)) \<le> kMaxFields"
  using hh_run_list [OF assms, of cs] by (auto simp: hh_rep_def)

theorem hh_fields_refine_witness:
  "\<exists>h'. hh_run [AddField 1012 ''08'', AddField 1022 ''a'', GetFieldInt 1012, RemoveField 1012, GetField 1012, GetField 1022] HttpHeader_new =
      Inr ([Success True, Success True, Number (True, 0), Success True, Value None, Value (Some ''a'')], h') \<and>
    hh_rep h' [(1022, ''a'')]"
proof -
  let ?cs = "[AddField 1012 ''08'', AddField 1022 ''a'', GetFieldInt 1012, RemoveField 1012, GetField 1012, GetField 1022]"
  have "fields_run ?cs [] = ([Success True, Success True, Number (True, 0), Success True, Value None, Value (Some ''a'')], [(1022, ''a'')])"
    by code_simp
  then show ?thesis using hh_fields_refine [OF hh_rep_new, of ?cs] by auto
qed

text \<open>C20: whatever bytes a buffer holds, reading a line from it returns while there is room for one more field;
  it says -1 and changes nothing, or it takes bytes of the buffer and adds at most one field.\<close>

theorem hh_parseLine_typed:
  assumes "cb_inv buf" "hh_rep h fs" "length fs < kMaxFields"
  shows "\<exists>n h' gs. hh_parseLine h buf = Inr (n, h') \<and> hh_rep h' gs \<and>
    (n = -1 \<and> h' = h \<or> 0 < n \<and> n \<le> cb_getLength buf \<and> (gs = fs \<or> (\<exists>f. gs = fs @ [f])))"
proof (cases "hh_parseLine h buf")
  case (Inl e)
  then show ?thesis using parseLine_result [OF assms(1,2)] assms(3) by (simp add: line_result_def)
next
  case (Inr res)
  then show ?thesis using parseLine_result [OF assms(1,2)] assms(2) by (cases res) (auto simp: line_result_def)
qed

theorem hh_parseLine_typed_witness:
  "\<exists>n h' gs. hh_parseLine HttpHeader_new (buffer_of '':x'') = Inr (n, h') \<and> hh_rep h' gs \<and>
    (n = -1 \<and> h' = HttpHeader_new \<or> 0 < n \<and> n \<le> cb_getLength (buffer_of '':x'') \<and> (gs = [] \<or> (\<exists>f. gs = [] @ [f])))"
  using hh_parseLine_typed [of "buffer_of '':x''" HttpHeader_new "[]"] hh_rep_new holds_buffer_of [of "'':x''"]
  by (simp add: holds_def kMaxFields_def)

text \<open>the 33rd known field that a peer sends is written behind the array, where \<open>addField\<close> refuses it.\<close>

theorem hh_parseLine_overrun:
  assumes "mFieldMappings h = [HttpFieldMap]" "hh_rep h fs" "length fs = kMaxFields"
    "http_getFieldTypeString t = Some s" "data_ok v" "holds buf (s @ '': '' @ v @ CRLF @ r)" "peek r \<noteq> 32" "peek r \<noteq> 9"
  shows "hh_parseLine h buf = Inl UndefinedBehaviour \<and> hh_addField h t v = Inr (False, h)"
proof
  have "line_text http_getFieldTypeString (t, v) @ r = s @ '': '' @ v @ CRLF @ r" using assms(4) by (simp add: line_text_def)
  then show "hh_parseLine h buf = Inl UndefinedBehaviour"
    using http.line_read(2) [of h t s v buf r] assms hh_append_rep(2) [OF assms(2,3)] by (simp add: HttpFieldMap_def)
  show "hh_addField h t v = Inr (False, h)" using assms(2,3) by (simp add: hh_addField_def hh_rep_def)
qed

definition full_header :: http_header where
  "full_header = HttpHeader_new\<lparr>mFields := replicate kMaxFields \<lparr>hfType = 1022, hfData = Some ''a''\<rparr>, mNumFields := int kMaxFields\<rparr>"

theorem hh_parseLine_overrun_witness:
  "hh_parseLine full_header (buffer_of (''Host: a'' @ CRLF)) = Inl UndefinedBehaviour \<and>
   hh_addField full_header 1022 ''a'' = Inr (False, full_header)"
proof -
  have "mFieldMappings full_header = [HttpFieldMap]" "hh_rep full_header (replicate kMaxFields (1022, ''a''))"
    by (simp_all add: full_header_def HttpHeader_new_def hh_addFieldMap_def HttpHeaderBase_new_def hh_rep_def)
  moreover have "http_getFieldTypeString 1022 = Some ''Host''" "data_ok ''a''"
    by (simp_all add: http_getFieldTypeString_def kHttpFieldMapStart_def kNumFields_def gFieldTypeList_def data_ok_def value_ok_def)
  moreover have "holds (buffer_of (''Host: a'' @ CRLF)) (''Host'' @ '': '' @ ''a'' @ CRLF @ [])"
    using holds_buffer_of [of "''Host: a'' @ CRLF"] by (simp add: CRLF_def)
  ultimately show ?thesis
    using hh_parseLine_overrun [of full_header "replicate kMaxFields (1022, ''a'')" 1022 "''Host''" "''a''" _ "[]"] by simp
qed

end
