(* ===== verification/HttpMessage.thy ===== *)
theory HttpMessage
  imports HttpHeader URI
begin

text \<open>
  Requests and responses of HTTP (src/HttpRequest.cpp, src/HttpResponse.cpp): a header with a first line
  of its own, which is written in front of the fields and read from the circular buffer.
\<close>

section \<open>Bytes of the buffer\<close>

definition byte_is :: "cbuf \<Rightarrow> int \<Rightarrow> int \<Rightarrow> bool outcome" where
  "byte_is buf i b = andThen (cb_byteAt buf i) (\<lambda>c. Inr (c = b))"

text \<open>The operator \<open>and\<close>, whose right side is evaluated when the left one holds.\<close>

definition and_also :: "bool outcome \<Rightarrow> bool outcome \<Rightarrow> bool outcome" where
  "and_also a b = andThen a (\<lambda>x. if x then b else Inr False)"

lemma and_also_simps [simp]: "and_also (Inr x) b = (if x then b else Inr False)" "and_also (Inl e) b = Inl e"
  by (simp_all add: and_also_def)

section \<open>Responses\<close>

record http_response =
  rsHeader :: http_header
  mResponseCode :: int

definition gResponseCodeList :: "(int \<times> string) list" where
  "gResponseCodeList =
     [(100, ''Continue''), (100, ''Switching Protocols''),
      (200, ''OK''), (201, ''Created''), (202, ''Accepted''), (203, ''Non-Authorative Information''), (204, ''No Content''),
      (205, ''Reset Content''), (206, ''Partial Content''),
      (300, ''Multiple Choices''), (301, ''Moved Permanently''), (302, ''Found''), (303, ''See Other''), (304, ''Not Modified''),
      (305, ''Use Proxy''), (305, ''Temporary Redirect''),
      (400, ''Bad Request''), (401, ''Unauthorized''), (402, ''Payment Required''), (403, ''Forbidden''), (404, ''Not Found''),
      (405, ''Method Not Allowed''), (406, ''Not Acceptable''), (407, ''Proxy Authentication Required''),
      (408, ''Request Timeout''), (410, ''Gone''), (411, ''Length Required''), (412, ''Precondition Failed''),
      (413, ''Request Entity Too Large''), (414, ''Request-URI Too Long''), (415, ''Unsupported Media Type''),
      (416, ''Request Range Not Satisfiable''), (417, ''Expectation Failed''),
      (500, ''Internal Server Error''), (501, ''Not Implemented''), (502, ''Bad Gateway''), (503, ''Service Unavailable''),
      (504, ''Gateway Timeout''), (505, ''HTTP Version Not Supported'')]"

definition HttpResponse_new :: http_response where
  "HttpResponse_new = \<lparr>rsHeader = HttpHeader_new, mResponseCode = 200\<rparr>"

definition rs_setResponseCode :: "http_response \<Rightarrow> int \<Rightarrow> http_response" where
  "rs_setResponseCode r code = r\<lparr>mResponseCode := code\<rparr>"

text \<open>The text of a code: the first entry of the list that has it.\<close>

fun response_string :: "int \<Rightarrow> (int \<times> string) list \<Rightarrow> string" where
  "response_string code [] = ''Unknown HTTP error''"
| "response_string code ((c, s) # l) = (if c = code then s else response_string code l)"

definition rs_getResponseString :: "http_response \<Rightarrow> string outcome" where
  "rs_getResponseString r =
     (if mResponseCode r = -1 then Inl Fatal else Inr (response_string (mResponseCode r) gResponseCodeList))"

definition kStatusCodeSize :: nat where "kStatusCodeSize = 16"

text \<open>The code is printed into an array, which cuts it; that is fatal then.\<close>

definition rs_buildFirstLine :: "http_response \<Rightarrow> string outcome" where
  "rs_buildFirstLine r =
     (let digits = show_int (mResponseCode r) in
      if length digits \<ge> kStatusCodeSize then Inl Fatal
      else Inr (''HTTP/1.1 '' @ digits @ '' '' @ response_string (mResponseCode r) gResponseCodeList @ CRLF))"

datatype first_state = ParseProtocol | SeekStatusCode | ParseStatusCode | SeekStatusText | ParseStatusText | ParsingError

text \<open>
  What one character does: it stays in the line, in a state with what there is of the status code, or it
  ends the line. The states fall through, as the cases of the \<open>switch\<close> do, from the last one up.
\<close>

datatype first_step = Stay first_state string int | LineEnd int

definition in_status_text :: "char \<Rightarrow> string \<Rightarrow> int \<Rightarrow> first_step" where
  "in_status_text c str code = (if c \<noteq> CHR 0x0D \<and> c \<noteq> CHR 0x0A then Stay ParseStatusText str code else LineEnd code)"

definition in_seek_text :: "char \<Rightarrow> string \<Rightarrow> int \<Rightarrow> first_step" where
  "in_seek_text c str code = (if c = CHR '' '' then Stay SeekStatusText str code else in_status_text c str code)"

definition in_status_code :: "char \<Rightarrow> string \<Rightarrow> int \<Rightarrow> first_step" where
  "in_status_code c str code =
     (if c \<noteq> CHR '' '' then Stay ParseStatusCode (str @ [c]) code
      else let nptr = c_str str; code = to_int (strtol 10 nptr) in
           if \<not> strtol_digits nptr \<or> strtol_cut 10 nptr then Stay ParsingError str code else in_seek_text c str code)"

definition in_seek_code :: "char \<Rightarrow> string \<Rightarrow> int \<Rightarrow> first_step" where
  "in_seek_code c str code = (if c = CHR '' '' then Stay SeekStatusCode str code else in_status_code c str code)"

definition in_protocol :: "char \<Rightarrow> string \<Rightarrow> int \<Rightarrow> first_step" where
  "in_protocol c str code = (if c \<noteq> CHR '' '' then Stay ParseProtocol str code else in_seek_code c str code)"

fun status_step :: "first_state \<Rightarrow> char \<Rightarrow> string \<Rightarrow> int \<Rightarrow> first_step" where
  "status_step ParseProtocol c str code = in_protocol c str code"
| "status_step SeekStatusCode c str code = in_seek_code c str code"
| "status_step ParseStatusCode c str code = in_status_code c str code"
| "status_step SeekStatusText c str code = in_seek_text c str code"
| "status_step ParseStatusText c str code = in_status_text c str code"
| "status_step ParsingError c str code = Stay ParsingError str code"

text \<open>Behind the character that ends the line: an LF, and the empty line behind a 100.\<close>

definition status_end :: "cbuf \<Rightarrow> int \<Rightarrow> int \<Rightarrow> int outcome" where
  "status_end buf i code =
     andThen (and_also (Inr (i < cb_getLength buf)) (byte_is buf i 10)) (\<lambda>lf.
     let i = (if lf then i + 1 else i) in
     andThen (and_also (Inr (code = 100 \<and> i + 1 < cb_getLength buf)) (and_also (byte_is buf i 13) (byte_is buf (i + 1) 10))) (\<lambda>crlf.
     Inr (if crlf then i + 2 else i)))"

text \<open>The result of the function and the code, which is set before an error is seen.\<close>

fun status_loop :: "nat \<Rightarrow> cbuf \<Rightarrow> int \<Rightarrow> first_state \<Rightarrow> string \<Rightarrow> int \<Rightarrow> (int \<times> int) outcome" where
  "status_loop 0 buf i st str code = Inl NoReturn"
| "status_loop (Suc fuel) buf i st str code =
     (if i < cb_getLength buf \<and> st \<noteq> ParsingError
      then andThen (cb_byteAt buf i) (\<lambda>b.
           case status_step st (byte_char b) str code of
             Stay st str code \<Rightarrow> status_loop fuel buf (i + 1) st str code
           | LineEnd code \<Rightarrow> andThen (status_end buf (i + 1) code) (\<lambda>i. Inr (i, code)))
      else Inr (-1, code))"

definition rs_parseFirstLine :: "http_response \<Rightarrow> cbuf \<Rightarrow> (int \<times> http_response) outcome" where
  "rs_parseFirstLine r buf =
     (if cb_getLength buf \<le> 1 then Inr (-1, r)
      else andThen (and_also (byte_is buf 0 13) (byte_is buf 1 10)) (\<lambda>crlf.
           if crlf then Inr (2, r)
           else andThen (status_loop (Suc (nat (cb_getLength buf))) buf 0 ParseProtocol [] (mResponseCode r)) (\<lambda>(n, code).
                Inr (n, r\<lparr>mResponseCode := code\<rparr>))))"

definition rs_parseLine :: "http_response \<Rightarrow> cbuf \<Rightarrow> (int \<times> http_response) outcome" where
  "rs_parseLine r buf = andThen (hh_parseLine (rsHeader r) buf) (\<lambda>(n, h). Inr (n, r\<lparr>rsHeader := h\<rparr>))"

definition rs_getHeader :: "http_response \<Rightarrow> (string \<times> http_response) outcome" where
  "rs_getHeader r =
     andThen (if mHeaderStr (rsHeader r) = [] then rs_buildFirstLine r else Inr []) (\<lambda>first.
     andThen (hh_getHeader first (rsHeader r)) (\<lambda>(s, h). Inr (s, r\<lparr>rsHeader := h\<rparr>)))"

declare status_loop.simps [simp del]

section \<open>Requests\<close>

datatype http_method = kMethodOptions | kMethodGet | kMethodHead | kMethodPost | kMethodPut | kMethodDelete
  | kMethodTrace | kMethodConnect | kMethodUnknown

record http_request =
  rqHeader :: http_header
  mMethod :: http_method
  mUri :: uri
  mMajor :: int
  mMinor :: int

definition gMethodTypeList :: "string list" where
  "gMethodTypeList = [''OPTIONS'', ''GET'', ''HEAD'', ''POST'', ''PUT'', ''DELETE'', ''TRACE'', ''CONNECT'']"

definition method_types :: "http_method list" where
  "method_types = [kMethodOptions, kMethodGet, kMethodHead, kMethodPost, kMethodPut, kMethodDelete, kMethodTrace, kMethodConnect]"

text \<open>The name of the value behind the last one is outside of the array.\<close>

definition method_name :: "http_method \<Rightarrow> string outcome" where
  "method_name m = (case map_of (zip method_types gMethodTypeList) m of None \<Rightarrow> Inl UndefinedBehaviour | Some s \<Rightarrow> Inr s)"

definition HttpRequest_new :: http_request where
  "HttpRequest_new = \<lparr>rqHeader = HttpHeader_new, mMethod = kMethodUnknown, mUri = URI_new, mMajor = -1, mMinor = -1\<rparr>"

text \<open>
  The request of a URI: the date is what \<open>strftime\<close> writes, and the two numbers of the version are left as the
  memory of the object has them.
\<close>

definition hh_addDateField :: "http_header \<Rightarrow> string \<Rightarrow> (bool \<times> http_header) outcome" where
  "hh_addDateField h date = hh_addField h kFieldDate date"

definition HttpRequest_of :: "uri \<Rightarrow> http_method \<Rightarrow> string \<Rightarrow> int \<Rightarrow> int \<Rightarrow> (http_request \<times> uri) outcome" where
  "HttpRequest_of uri m date major minor =
     andThen (URI_copy uri) (\<lambda>(u, other).
     let uri = (case other of None \<Rightarrow> uri | Some v \<Rightarrow> v) in
     andThen (uri_getHost uri) (\<lambda>host.
     andThen (hh_addField HttpHeader_new kFieldHost (c_str host)) (\<lambda>(_, h).
     andThen (hh_addDateField h date) (\<lambda>(_, h).
     Inr (\<lparr>rqHeader = h, mMethod = m, mUri = u, mMajor = major, mMinor = minor\<rparr>, uri)))))"

definition rq_setMethod :: "http_request \<Rightarrow> http_method \<Rightarrow> http_request" where
  "rq_setMethod r m = r\<lparr>mMethod := m\<rparr>"

definition rq_setURI :: "http_request \<Rightarrow> uri \<Rightarrow> (http_request \<times> uri) outcome" where
  "rq_setURI r uri =
     andThen (uri_assign (mUri r) (Some uri)) (\<lambda>(u, other).
     Inr (r\<lparr>mUri := u\<rparr>, case other of None \<Rightarrow> uri | Some v \<Rightarrow> v))"

definition rq_getVersion :: "http_request \<Rightarrow> int \<times> int" where
  "rq_getVersion r = (mMajor r, mMinor r)"

definition MAX_METHOD_SIZE :: nat where "MAX_METHOD_SIZE = 128"
definition MAX_URI_SIZE :: nat where "MAX_URI_SIZE = 2048"
definition MAX_PROTO_SIZE :: nat where "MAX_PROTO_SIZE = 64"

text \<open>A word up to a character; None when the line or the room for the word ends before.\<close>

fun word_loop :: "nat \<Rightarrow> cbuf \<Rightarrow> int \<Rightarrow> nat \<Rightarrow> int \<Rightarrow> string \<Rightarrow> (int \<times> string) option outcome" where
  "word_loop 0 buf stop room i str = Inl NoReturn"
| "word_loop (Suc fuel) buf stop room i str =
     andThen (cb_byteAt buf i) (\<lambda>c.
     if c = -1 \<or> i + 1 > cb_getLength buf then Inr None
     else if c = stop then Inr (Some (i + 1, str))
     else if length (str @ [byte_char c]) \<ge> room then Inr None
     else word_loop fuel buf stop room (i + 1) (str @ [byte_char c]))"

text \<open>
  The comparison is assigned, so that what the loop looks at for the end of the line is 1.
\<close>

fun blank_loop :: "nat \<Rightarrow> cbuf \<Rightarrow> int \<Rightarrow> int option outcome" where
  "blank_loop 0 buf i = Inl NoReturn"
| "blank_loop (Suc fuel) buf i =
     andThen (byte_is buf i 32) (\<lambda>c.
     if c then if i + 1 > cb_getLength buf then Inr None else blank_loop fuel buf (i + 1)
     else Inr (Some i))"

fun method_loop :: "string \<Rightarrow> (http_method \<times> string) list \<Rightarrow> http_method" where
  "method_loop m [] = kMethodUnknown"
| "method_loop m ((x, s) # l) = (if m = s then x else method_loop m l)"

definition rq_parseMethod :: "http_request \<Rightarrow> string \<Rightarrow> http_request" where
  "rq_parseMethod r m = r\<lparr>mMethod := method_loop m (zip method_types gMethodTypeList)\<rparr>"

text \<open>\<open>sscanf\<close> with \<open>HTTP/%d.%d\<close> stores the numbers that it comes to.\<close>

definition rq_parseProtocol :: "http_request \<Rightarrow> string \<Rightarrow> http_request" where
  "rq_parseProtocol r p =
     (if take 5 p \<noteq> ''HTTP/'' then r
      else case scan_int (drop 5 p) of
             None \<Rightarrow> r
           | Some (a, rest) \<Rightarrow>
               let r = r\<lparr>mMajor := a\<rparr> in
               if rest = [] \<or> hd rest \<noteq> CHR ''.'' then r
               else case scan_int (tl rest) of None \<Rightarrow> r | Some (b, _) \<Rightarrow> r\<lparr>mMinor := b\<rparr>)"

definition rq_parseFirstLine :: "http_request \<Rightarrow> cbuf \<Rightarrow> (int \<times> http_request) outcome" where
  "rq_parseFirstLine r buf =
     (let fuel = Suc (nat (cb_getLength buf)) in
      andThen (word_loop fuel buf 32 MAX_METHOD_SIZE 0 []) (\<lambda>w. case w of None \<Rightarrow> Inr (-1, r) | Some (i, method) \<Rightarrow>
      andThen (blank_loop fuel buf i) (\<lambda>w. case w of None \<Rightarrow> Inr (-1, r) | Some i \<Rightarrow>
      andThen (word_loop fuel buf 32 MAX_URI_SIZE i []) (\<lambda>w. case w of None \<Rightarrow> Inr (-1, r) | Some (i, uri) \<Rightarrow>
      andThen (word_loop fuel buf 13 MAX_PROTO_SIZE i []) (\<lambda>w. case w of None \<Rightarrow> Inr (-1, r) | Some (i, protocol) \<Rightarrow>
      andThen (byte_is buf i 10) (\<lambda>lf.
      let i = (if lf then i + 1 else i);
          r = rq_parseMethod (rq_parseProtocol r (c_str protocol)) (c_str method) in
      andThen (uri_assign_string (mUri r) (c_str uri)) (\<lambda>u. Inr (i, r\<lparr>mUri := u\<rparr>))))))))"

definition rq_buildFirstLine :: "http_request \<Rightarrow> (string \<times> http_request) outcome" where
  "rq_buildFirstLine r =
     andThen (method_name (mMethod r)) (\<lambda>m.
     andThen (uri_getQuery (mUri r)) (\<lambda>(q, u).
     Inr (m @ '' '' @ mPath u @ (if q \<noteq> [] then ''?'' @ q else []) @ '' HTTP/1.1'' @ CRLF, r\<lparr>mUri := u\<rparr>)))"

definition rq_getHeader :: "http_request \<Rightarrow> (string \<times> http_request) outcome" where
  "rq_getHeader r =
     andThen (if mHeaderStr (rqHeader r) = [] then rq_buildFirstLine r else Inr ([], r)) (\<lambda>(first, r).
     andThen (hh_getHeader first (rqHeader r)) (\<lambda>(s, h). Inr (s, r\<lparr>rqHeader := h\<rparr>)))"

definition rq_send :: "http_request \<Rightarrow> (string \<Rightarrow> int) \<Rightarrow> (int \<times> http_request) outcome" where
  "rq_send r writer =
     andThen (if mHeaderStr (rqHeader r) = [] then rq_buildFirstLine r else Inr ([], r)) (\<lambda>(first, r).
     andThen (hh_send first (rqHeader r) writer None) (\<lambda>(n, h). Inr (n, r\<lparr>rqHeader := h\<rparr>)))"

declare word_loop.simps [simp del] blank_loop.simps [simp del]

section \<open>Reading the first line of a response\<close>

lemma holds_byte_is: "holds buf (p @ r) \<Longrightarrow> byte_is buf (int (length p)) b = Inr (peek r = b)"
  using holds_byteAt [of buf p r] by (simp add: byte_is_def)

text \<open>The loop at the position behind \<open>p\<close>, with \<open>r\<close> left.\<close>

definition status_at :: "cbuf \<Rightarrow> string \<Rightarrow> string \<Rightarrow> first_state \<Rightarrow> string \<Rightarrow> int \<Rightarrow> (int \<times> int) outcome" where
  "status_at buf p r st str code = status_loop (Suc (length r)) buf (int (length p)) st str code"

lemma status_at_step:
  assumes "holds buf (p @ c # r)" "st \<noteq> ParsingError"
  shows "status_at buf p (c # r) st str code =
    (case status_step st c str code of
       Stay st str code \<Rightarrow> status_at buf (p @ [c]) r st str code
     | LineEnd code \<Rightarrow> andThen (status_end buf (int (length (p @ [c]))) code) (\<lambda>i. Inr (i, code)))"
proof -
  have b: "cb_byteAt buf (int (length p)) = Inr (char_code c)" using holds_byteAt [OF assms(1)] by simp
  have l: "cb_getLength buf = int (length p) + 1 + int (length r)" using holds_length [OF assms(1)] by simp
  show ?thesis using b l assms(2)
    by (simp add: status_at_def status_loop.simps(2) [of "Suc (length r)"] ac_simps split: first_step.split)
qed

text \<open>A run of characters that all keep the state.\<close>

lemma status_at_run:
  assumes "holds buf (p @ a @ r)" "st \<noteq> ParsingError" "\<forall>c \<in> set a. \<forall>str. status_step st c str code = Stay st (g str c) code"
  shows "status_at buf p (a @ r) st str code = status_at buf (p @ a) r st (foldl g str a) code"
  using assms(1,3)
proof (induction a arbitrary: p str)
  case (Cons c a)
  then show ?case using status_at_step [OF _ assms(2), of buf p c "a @ r"] Cons.IH [of "p @ [c]"] by simp
qed simp

lemma foldl_append_chars: "foldl (\<lambda>str c. str @ [c]) str a = str @ a"
  by (induction a arbitrary: str) simp_all

lemma foldl_keep: "foldl (\<lambda>str c. str) str a = str"
  by (induction a) simp_all

definition status_line :: "string \<Rightarrow> string \<Rightarrow> string \<Rightarrow> string" where
  "status_line proto digits reason = proto @ '' '' @ digits @ '' '' @ reason @ CRLF"

lemma status_at_line:
  assumes h: "holds buf (status_line proto digits reason @ r)"
    and w: "CHR '' '' \<notin> set proto" "CHR '' '' \<notin> set digits" "digits \<noteq> []"
      "strtol_digits (c_str digits)" "\<not> strtol_cut 10 (c_str digits)"
      "CHR 0x0D \<notin> set reason" "CHR 0x0A \<notin> set reason"
  defines "q \<equiv> proto @ '' '' @ digits @ '' '' @ reason @ [CHR 0x0D]"
  shows "status_at buf [] (status_line proto digits reason @ r) ParseProtocol [] code =
    andThen (status_end buf (int (length q)) (to_int (strtol 10 (c_str digits)))) (\<lambda>i. Inr (i, to_int (strtol 10 (c_str digits))))"
proof -
  let ?c = "to_int (strtol 10 (c_str digits))"
  let ?p1 = "proto" and ?p2 = "proto @ '' ''" and ?p3 = "proto @ '' '' @ digits" and ?p4 = "proto @ '' '' @ digits @ '' ''"
  let ?r3 = "reason @ CRLF @ r"
  have "status_at buf [] (status_line proto digits reason @ r) ParseProtocol [] code =
      status_at buf proto ('' '' @ digits @ '' '' @ ?r3) ParseProtocol [] code"
  proof -
    have k: "\<forall>c \<in> set proto. \<forall>str. status_step ParseProtocol c str code = Stay ParseProtocol str code"
      using w(1) by (auto simp: in_protocol_def)
    show ?thesis using status_at_run [OF _ _ k, of buf "[]" "'' '' @ digits @ '' '' @ ?r3"] h by (simp add: status_line_def foldl_keep)
  qed
  also have "\<dots> = status_at buf ?p2 (digits @ '' '' @ ?r3) SeekStatusCode [] code"
    using status_at_step [of buf proto "CHR '' ''" "digits @ '' '' @ ?r3" ParseProtocol] h
    by (simp add: status_line_def in_protocol_def in_seek_code_def)
  also have "\<dots> = status_at buf ?p3 ('' '' @ ?r3) ParseStatusCode digits code"
  proof -
    obtain d ds where d: "digits = d # ds" using w(3) by (cases digits) auto
    then have dn: "d \<noteq> CHR '' ''" using w(2) by auto
    have "status_at buf ?p2 (digits @ '' '' @ ?r3) SeekStatusCode [] code = status_at buf (?p2 @ [d]) (ds @ '' '' @ ?r3) ParseStatusCode [d] code"
      using status_at_step [of buf ?p2 d "ds @ '' '' @ ?r3" SeekStatusCode] h dn d
      by (simp add: status_line_def in_seek_code_def in_status_code_def)
    also have "\<dots> = status_at buf (?p2 @ [d] @ ds) ('' '' @ ?r3) ParseStatusCode ([d] @ ds) code"
    proof -
      have k: "\<forall>c \<in> set ds. \<forall>str. status_step ParseStatusCode c str code = Stay ParseStatusCode (str @ [c]) code"
        using w(2) d by (auto simp: in_status_code_def)
      show ?thesis using status_at_run [OF _ _ k, of buf "?p2 @ [d]" "'' '' @ ?r3"] h d by (simp add: status_line_def foldl_append_chars)
    qed
    finally show ?thesis using d by simp
  qed
  also have "\<dots> = status_at buf ?p4 ?r3 SeekStatusText digits ?c"
    using status_at_step [of buf ?p3 "CHR '' ''" ?r3 ParseStatusCode digits code] h w(4,5)
    by (simp add: status_line_def in_status_code_def in_seek_text_def Let_def)
  also have "\<dots> = andThen (status_end buf (int (length q)) ?c) (\<lambda>i. Inr (i, ?c))"
  proof -
    define b t where "b = takeWhile (\<lambda>c. c = CHR '' '') reason" and "t = dropWhile (\<lambda>c. c = CHR '' '') reason"
    have bt: "reason = b @ t" by (simp add: b_def t_def)
    have "status_at buf ?p4 ?r3 SeekStatusText digits ?c = status_at buf (?p4 @ b) (t @ CRLF @ r) SeekStatusText digits ?c"
    proof -
      have k: "\<forall>c \<in> set b. \<forall>str. status_step SeekStatusText c str ?c = Stay SeekStatusText str ?c"
        unfolding b_def by (auto simp: in_seek_text_def dest: set_takeWhileD)
      show ?thesis using status_at_run [OF _ _ k, of buf ?p4 "t @ CRLF @ r"] h bt by (simp add: status_line_def foldl_keep)
    qed
    also have "\<dots> = andThen (status_end buf (int (length q)) ?c) (\<lambda>i. Inr (i, ?c))"
    proof (cases t)
      case Nil
      then show ?thesis
        using status_at_step [of buf "?p4 @ b" "CHR 0x0D" "CHR 0x0A # r" SeekStatusText digits ?c] h bt
        by (simp add: status_line_def CRLF_def in_seek_text_def in_status_text_def q_def)
    next
      case (Cons x xs)
      have x: "x \<noteq> CHR '' ''" using Cons unfolding t_def by (simp add: dropWhile_eq_Cons_conv)
      have s: "x \<noteq> CHR 0x0D" "x \<noteq> CHR 0x0A" "CHR 0x0D \<notin> set xs" "CHR 0x0A \<notin> set xs" using w(6,7) bt Cons by auto
      have "status_at buf (?p4 @ b) (t @ CRLF @ r) SeekStatusText digits ?c = status_at buf (?p4 @ b @ [x]) (xs @ CRLF @ r) ParseStatusText digits ?c"
        using status_at_step [of buf "?p4 @ b" x "xs @ CRLF @ r" SeekStatusText digits ?c] h bt Cons x s
        by (simp add: status_line_def in_seek_text_def in_status_text_def)
      also have "\<dots> = status_at buf (?p4 @ b @ [x] @ xs) (CRLF @ r) ParseStatusText digits ?c"
      proof -
        have k: "\<forall>c \<in> set xs. \<forall>str. status_step ParseStatusText c str ?c = Stay ParseStatusText str ?c"
          using s by (auto simp: in_status_text_def)
        show ?thesis using status_at_run [OF _ _ k, of buf "?p4 @ b @ [x]" "CRLF @ r"] h bt Cons by (simp add: status_line_def foldl_keep)
      qed
      also have "\<dots> = andThen (status_end buf (int (length q)) ?c) (\<lambda>i. Inr (i, ?c))"
        using status_at_step [of buf "?p4 @ b @ [x] @ xs" "CHR 0x0D" "CHR 0x0A # r" ParseStatusText digits ?c] h bt Cons
        by (simp add: status_line_def CRLF_def in_status_text_def q_def)
      finally show ?thesis .
    qed
    finally show ?thesis .
  qed
  finally show ?thesis .
qed

text \<open>Behind the line an LF is taken, and an empty line when the code is 100.\<close>

lemma status_end_text:
  assumes "holds buf (q @ CHR 0x0A # r)"
  shows "status_end buf (int (length q)) code =
    Inr (int (length q) + 1 + (if code = 100 \<and> (\<exists>t. r = CRLF @ t) then 2 else 0))"
proof -
  have l: "cb_getLength buf = int (length q) + 1 + int (length r)" using holds_length [OF assms] by simp
  have b: "byte_is buf (int (length q)) 10 = Inr True" "byte_is buf (int (length q) + 1) 13 = Inr (peek r = 13)"
    using holds_byte_is [OF assms] holds_byte_is [of buf "q @ [CHR 0x0A]" r] assms by (simp_all add: add.commute)
  show ?thesis
  proof (cases "\<exists>t. r = CHR 0x0D # t")
    case True
    then obtain t where t: "r = CHR 0x0D # t" by blast
    have "byte_is buf (int (length q) + 1 + 1) 10 = Inr (peek t = 10)"
      using holds_byte_is [of buf "q @ [CHR 0x0A, CHR 0x0D]" t] assms t by (simp add: add.commute)
    then show ?thesis using b l t by (cases t) (auto simp: status_end_def CRLF_def Let_def)
  next
    case False
    then have "peek r \<noteq> 13" by (cases r) auto
    then show ?thesis using b l False by (simp add: status_end_def CRLF_def Let_def)
  qed
qed

lemma rs_parseFirstLine_text:
  assumes "holds buf (status_line proto digits reason @ r)" "proto \<noteq> []" "hd proto \<noteq> CHR 0x0D"
    "CHR '' '' \<notin> set proto" "CHR '' '' \<notin> set digits" "digits \<noteq> []"
    "strtol_digits (c_str digits)" "\<not> strtol_cut 10 (c_str digits)"
    "CHR 0x0D \<notin> set reason" "CHR 0x0A \<notin> set reason"
  defines "c \<equiv> to_int (strtol 10 (c_str digits))"
  shows "rs_parseFirstLine res buf =
    Inr (int (length (status_line proto digits reason)) + (if c = 100 \<and> (\<exists>t. r = CRLF @ t) then 2 else 0), res\<lparr>mResponseCode := c\<rparr>)"
proof -
  let ?q = "proto @ '' '' @ digits @ '' '' @ reason @ [CHR 0x0D]" and ?s = "status_line proto digits reason @ r"
  have l: "cb_getLength buf = int (length ?s)" by (rule holds_length [OF assms(1)])
  obtain x xs where x: "proto = x # xs" "x \<noteq> CHR 0x0D" using assms(2,3) by (cases proto) auto
  have b: "byte_is buf 0 13 = Inr False"
    using holds_byte_is [of buf "[]" ?s 13] assms(1) x by (simp add: status_line_def)
  have "status_loop (Suc (nat (cb_getLength buf))) buf 0 ParseProtocol [] (mResponseCode res) = status_at buf [] ?s ParseProtocol [] (mResponseCode res)"
    unfolding l nat_int by (simp add: status_at_def)
  also have "\<dots> = andThen (status_end buf (int (length ?q)) c) (\<lambda>i. Inr (i, c))"
    unfolding c_def by (rule status_at_line [OF assms(1,4-10)])
  finally have "status_loop (Suc (nat (cb_getLength buf))) buf 0 ParseProtocol [] (mResponseCode res) =
      andThen (status_end buf (int (length ?q)) c) (\<lambda>i. Inr (i, c))" .
  moreover have "holds buf (?q @ CHR 0x0A # r)" using assms(1) by (simp add: status_line_def CRLF_def)
  moreover have "\<not> cb_getLength buf \<le> 1" using l x by (simp add: status_line_def CRLF_def)
  ultimately show ?thesis using b status_end_text [of buf ?q r c]
    by (simp add: rs_parseFirstLine_def status_line_def CRLF_def)
qed

section \<open>The text of a response\<close>

definition no_nul :: "string \<Rightarrow> bool" where "no_nul s \<longleftrightarrow> CHR 0x00 \<notin> set s"

lemma c_str_no_nul: "no_nul s \<Longrightarrow> c_str s = s"
  by (auto simp: c_str_def no_nul_def takeWhile_eq_all_conv)

definition reason_ok :: "string \<Rightarrow> bool" where
  "reason_ok s \<longleftrightarrow> CHR 0x0D \<notin> set s \<and> CHR 0x0A \<notin> set s \<and> CHR 0x00 \<notin> set s"

lemma response_string_ok: "reason_ok (response_string code gResponseCodeList)"
proof -
  have "list_all (\<lambda>(c, s). reason_ok s) l \<Longrightarrow> reason_ok (response_string code l)" for l
    by (induction l) (simp add: reason_ok_def, auto)
  moreover have "list_all (\<lambda>(c, s). reason_ok s) gResponseCodeList" by (simp add: gResponseCodeList_def reason_ok_def)
  ultimately show ?thesis by blast
qed

definition fields_known :: "(int \<times> string) list \<Rightarrow> bool" where
  "fields_known fs \<longleftrightarrow> (\<forall>f \<in> set fs. http_getFieldTypeString (fst f) \<noteq> None \<and> data_ok (snd f))"

definition fields_text :: "(int \<times> string) list \<Rightarrow> string" where
  "fields_text fs = concat (map (line_text http_getFieldTypeString) fs)"

definition response_text :: "int \<Rightarrow> (int \<times> string) list \<Rightarrow> string" where
  "response_text code fs =
     status_line ''HTTP/1.1'' (show_int code) (response_string code gResponseCodeList) @ fields_text fs @ CRLF"

lemma fields_text_no_nul: "fields_known fs \<Longrightarrow> no_nul (fields_text fs)"
proof (induction fs)
  case (Cons f fs)
  obtain s where "http_getFieldTypeString (fst f) = Some s" using Cons.prems by (auto simp: fields_known_def)
  then show ?case using Cons http.names [of "fst f" s]
    by (auto simp: fields_text_def fields_known_def no_nul_def line_text_def data_ok_def name_ok_def CRLF_def split_beta)
qed (simp add: fields_text_def no_nul_def)

lemma response_text_no_nul:
  assumes "0 \<le> code" "code < 2 ^ 31" "fields_known fs"
  shows "no_nul (response_text code fs)"
proof -
  have "no_nul (show_int code)" using show_int_read(4) [OF assms(1,2)] by (auto simp: no_nul_def c_str_def takeWhile_eq_all_conv)
  then show ?thesis using fields_text_no_nul [OF assms(3)] response_string_ok [of code]
    by (simp add: response_text_def status_line_def no_nul_def reason_ok_def CRLF_def)
qed

lemma rs_getHeader_text:
  assumes "mFieldMappings (rsHeader r) = [HttpFieldMap]" "hh_rep (rsHeader r) fs" "fields_known fs" "mHeaderStr (rsHeader r) = []"
    "0 \<le> mResponseCode r" "mResponseCode r < 2 ^ 31"
  shows "rs_getHeader r =
    Inr (response_text (mResponseCode r) fs, r\<lparr>rsHeader := (rsHeader r)\<lparr>mHeaderStr := response_text (mResponseCode r) fs\<rparr>\<rparr>)"
proof -
  let ?c = "mResponseCode r" and ?h = "rsHeader r"
  let ?first = "status_line ''HTTP/1.1'' (show_int ?c) (response_string ?c gResponseCodeList)"
  have "rs_buildFirstLine r = Inr ?first"
    using show_int_read(6) [OF assms(5,6)] by (simp add: rs_buildFirstLine_def Let_def kStatusCodeSize_def status_line_def)
  moreover have "hh_buildHeader ?first ?h = Inr (?h\<lparr>mHeaderStr := response_text ?c fs\<rparr>)"
    using http.build_text [of ?h fs ?first] assms(1-3)
    by (simp add: HttpFieldMap_def fields_known_def response_text_def fields_text_def status_line_def)
  ultimately show ?thesis
    using assms(4) c_str_no_nul [OF response_text_no_nul [OF assms(5,6,3)]] by (simp add: rs_getHeader_def hh_getHeader_def)
qed

lemma to_int_small: "- (2 ^ 31) \<le> x \<Longrightarrow> x < 2 ^ 31 \<Longrightarrow> to_int x = x"
  by (simp add: to_int_def)

lemma rs_parseFirstLine_response:
  assumes "holds buf (response_text code fs @ r)" "0 \<le> code" "code < 2 ^ 31" "code \<noteq> 100"
  shows "rs_parseFirstLine res buf =
    Inr (int (length (status_line ''HTTP/1.1'' (show_int code) (response_string code gResponseCodeList))), res\<lparr>mResponseCode := code\<rparr>)"
  using rs_parseFirstLine_text [of buf "''HTTP/1.1''" "show_int code" "response_string code gResponseCodeList" "fields_text fs @ CRLF @ r" res]
    show_int_read [OF assms(2,3)] show_int_chars(2) [OF assms(2)] response_string_ok [of code] to_int_small [of code] assms
  by (simp add: response_text_def reason_ok_def)

section \<open>The first line of a request\<close>

lemma word_loop_text:
  "holds buf (p @ w @ stop # r) \<Longrightarrow> stop \<notin> set w \<Longrightarrow> length str + length w < room \<Longrightarrow> length w < fuel \<Longrightarrow>
    word_loop fuel buf (char_code stop) room (int (length p)) str = Inr (Some (int (length (p @ w)) + 1, str @ w))"
proof (induction w arbitrary: p str fuel)
  case Nil
  then obtain f where f: "fuel = Suc f" by (cases fuel) auto
  have "cb_byteAt buf (int (length p)) = Inr (char_code stop)" using holds_byteAt [of buf p "stop # r"] Nil.prems by simp
  moreover have "cb_getLength buf = int (length p) + 1 + int (length r)" using holds_length [of buf "p @ stop # r"] Nil.prems by simp
  ultimately show ?case using f by (simp add: word_loop.simps)
next
  case (Cons c w)
  then obtain f where f: "fuel = Suc f" by (cases fuel) auto
  have c: "cb_byteAt buf (int (length p)) = Inr (char_code c)" "c \<noteq> stop"
    using holds_byteAt [of buf p "c # w @ stop # r"] Cons.prems by auto
  moreover have "cb_getLength buf = int (length p) + 2 + int (length w) + int (length r)"
    using holds_length [of buf "p @ (c # w) @ stop # r"] Cons.prems by simp
  ultimately show ?case using Cons.IH [of "p @ [c]" "str @ [c]" f] Cons.prems f
    by (simp add: word_loop.simps(2) [of f] ac_simps)
qed

lemma blank_loop_text:
  assumes "holds buf (p @ r)" "peek r \<noteq> 32" "0 < fuel"
  shows "blank_loop fuel buf (int (length p)) = Inr (Some (int (length p)))"
  using holds_byte_is [OF assms(1), of 32] assms(2,3) by (cases fuel) (simp_all add: blank_loop.simps)

definition request_line :: "string \<Rightarrow> string \<Rightarrow> string" where
  "request_line m target = m @ '' '' @ target @ '' HTTP/1.1'' @ CRLF"

text \<open>A line with a method, a target and the version is read as these.\<close>

lemma parse_HTTP_1_1: "rq_parseProtocol r ''HTTP/1.1'' = r\<lparr>mMajor := 1, mMinor := 1\<rparr>"
proof -
  have "scan_int ''1.1'' = Some (1, ''.1'')" "scan_int ''1'' = Some (1, [])" by code_simp+
  then show ?thesis by (simp add: rq_parseProtocol_def)
qed

lemma rq_parseFirstLine_text:
  assumes h: "holds buf (request_line m target @ r)"
    and w: "CHR '' '' \<notin> set m" "length m < MAX_METHOD_SIZE" "no_nul m"
      "target \<noteq> []" "CHR '' '' \<notin> set target" "length target < MAX_URI_SIZE" "no_nul target"
  shows "rq_parseFirstLine q buf =
    andThen (uri_assign_string (mUri q) target) (\<lambda>u.
    Inr (int (length (request_line m target)), (rq_parseMethod q m)\<lparr>mMajor := 1, mMinor := 1, mUri := u\<rparr>))"
proof -
  let ?F = "Suc (nat (cb_getLength buf))" and ?v = "''HTTP/1.1''"
  have F: "?F = Suc (length (request_line m target @ r))" using holds_length [OF h] by simp
  have w1: "word_loop ?F buf 32 MAX_METHOD_SIZE 0 [] = Inr (Some (int (length (m @ '' '')), m))"
    using word_loop_text [of buf "[]" m "CHR '' ''" "target @ '' HTTP/1.1'' @ CRLF @ r" "[]" MAX_METHOD_SIZE ?F] h w(1,2) F
    by (simp add: request_line_def char_code_def add.commute)
  have b: "blank_loop ?F buf (int (length (m @ '' ''))) = Inr (Some (int (length (m @ '' ''))))"
    by (rule blank_loop_text [of buf "m @ '' ''" "target @ '' HTTP/1.1'' @ CRLF @ r"]) (use h w(4,5) in \<open>cases target; auto simp: request_line_def\<close>)+
  have w2: "word_loop ?F buf 32 MAX_URI_SIZE (int (length (m @ '' ''))) [] = Inr (Some (int (length (m @ '' '' @ target @ '' '')), target))"
    using word_loop_text [of buf "m @ '' ''" target "CHR '' ''" "?v @ CRLF @ r" "[]" MAX_URI_SIZE ?F] h w(5,6) F
    by (simp add: request_line_def char_code_def add.commute)
  have w3: "word_loop ?F buf 13 MAX_PROTO_SIZE (int (length (m @ '' '' @ target @ '' ''))) [] =
      Inr (Some (int (length (m @ '' '' @ target @ '' '' @ ?v @ [CHR 0x0D])), ?v))"
    using word_loop_text [of buf "m @ '' '' @ target @ '' ''" ?v "CHR 0x0D" "CHR 0x0A # r" "[]" MAX_PROTO_SIZE ?F] h F
    by (simp add: request_line_def char_code_def CRLF_def MAX_PROTO_SIZE_def)
  have l: "byte_is buf (int (length (m @ '' '' @ target @ '' '' @ ?v @ [CHR 0x0D]))) 10 = Inr True"
    using holds_byte_is [of buf "m @ '' '' @ target @ '' '' @ ?v @ [CHR 0x0D]" "CHR 0x0A # r" 10] h
    by (simp add: request_line_def CRLF_def)
  have c: "c_str m = m" "c_str target = target" "c_str ?v = ?v"
    using w(3,7) by (simp_all add: c_str_no_nul) (simp add: c_str_def)
  have n: "int (length (m @ '' '' @ target @ '' '' @ ?v @ [CHR 0x0D])) + 1 = int (length (request_line m target))"
    by (simp add: request_line_def CRLF_def)
  show ?thesis
    unfolding rq_parseFirstLine_def Let_def w1 andThen_simps option.case prod.case b w2 w3 l c parse_HTTP_1_1 n if_True
    by (cases q) (simp add: rq_parseMethod_def)
qed

text \<open>The target of a request is read as a path and parameters, when there is no colon in it.\<close>

definition target_ok :: "string \<Rightarrow> query_param list \<Rightarrow> bool" where
  "target_ok path ps \<longleftrightarrow>
     path \<noteq> [] \<and> hd path = CHR ''/'' \<and> take 2 path \<noteq> ''//'' \<and> CHR ''?'' \<notin> set path \<and> query_ok ps \<and>
     CHR ''#'' \<notin> set (query_text ps) \<and>
     (\<forall>c \<in> set (path @ tail_text ps []). c \<noteq> CHR '':'' \<and> c \<noteq> CHR '' '' \<and> c \<noteq> CHR 0x00) \<and>
     length (path @ tail_text ps []) < MAX_URI_SIZE"

lemma uri_assign_target:
  assumes "target_ok path ps" "vec_rep (mQueryParams u) xs"
  shows "\<exists>v. uri_assign_string u (path @ tail_text ps []) = Inr v \<and> mPath v = path \<and> vec_rep (mQueryParams v) ps \<and>
    mScheme v = [] \<and> mAuthority v = [] \<and> mFragment v = [] \<and> mQueryString v = query_text ps"
proof -
  let ?s = "path @ tail_text ps []"
  note ok = assms(1) [unfolded target_ok_def]
  obtain qs where qs: "vec_clear (mQueryParams u) = Inr qs" "vec_rep qs []" using vec_clear_rep [OF assms(2)] by blast
  define v0 where "v0 = \<lparr>mRelative = False, mModified = False, mModifiedQuery = False, mFullString = ?s, mQueryString = [],
     mScheme = [], mAuthority = [], mPath = [], mFragment = [], mQueryParams = qs\<rparr>"
  have c: "CHR '':'' \<notin> set ?s" using ok by blast
  have sc: "uri_parse_scheme v0 = Inr (0, v0)"
    using str_find_none [OF c, of "[]"] by (simp add: uri_parse_scheme_def v0_def)
  have t: "tail_text ps [] = [] \<or> hd (tail_text ps []) \<noteq> CHR ''/''" by (simp add: tail_text_def)
  have au: "uri_parse_authority 0 v0 = Inr (Some 0, v0)"
    using parse_authority_none [of v0 "[]" path "tail_text ps []"] ok t by (simp add: v0_def)
  have "length (query_text ps) \<le> length ?s" by (simp add: tail_text_def query_text_simps)
  then have l: "length (query_text ps) < 2 ^ 31" using ok by (simp add: MAX_URI_SIZE_def)
  have "\<exists>v. uri_parse_path (length ([] :: string)) v0 = Inr (True, v) \<and> mPath v = path \<and> vec_rep (mQueryParams v) ps \<and> mFragment v = [] \<and>
      mScheme v = mScheme v0 \<and> mAuthority v = mAuthority v0 \<and> mRelative v = mRelative v0 \<and> mQueryString v = query_text ps"
    by (rule parse_path_text) (use ok qs(2) l in \<open>simp_all add: v0_def\<close>)
  then obtain v where v: "uri_parse_path 0 v0 = Inr (True, v)" "mPath v = path" "vec_rep (mQueryParams v) ps" "mFragment v = []"
    "mScheme v = []" "mAuthority v = []" "mQueryString v = query_text ps" by (auto simp: v0_def)
  have "uri_parseString v0 = Inr (True, v)"
    using sc au v(1) ok unfolding uri_parseString_def by (simp add: v0_def)
  then show ?thesis using v qs(1) by (simp add: uri_assign_string_def uri_clear_def v0_def)
qed

text \<open>The line that is built.\<close>

lemma rq_buildFirstLine_text:
  assumes "mMethod r \<noteq> kMethodUnknown" "vec_rep (mQueryParams (mUri r)) ps" "mModifiedQuery (mUri r) \<or> mQueryString (mUri r) = query_text ps"
  shows "\<exists>m u. method_name (mMethod r) = Inr m \<and> rq_buildFirstLine r = Inr (request_line m (mPath (mUri r) @ tail_text ps []), r\<lparr>mUri := u\<rparr>) \<and>
    method_loop m (zip method_types gMethodTypeList) = mMethod r \<and> CHR '' '' \<notin> set m \<and> length m < MAX_METHOD_SIZE \<and> no_nul m"
proof -
  obtain m where m: "method_name (mMethod r) = Inr m" "method_loop m (zip method_types gMethodTypeList) = mMethod r"
      "CHR '' '' \<notin> set m" "length m < MAX_METHOD_SIZE" "no_nul m"
    using assms(1) by (cases "mMethod r")
      (simp_all add: method_name_def method_types_def gMethodTypeList_def MAX_METHOD_SIZE_def no_nul_def)
  obtain u where u: "uri_getQuery (mUri r) = Inr (query_text ps, u)" "mPath u = mPath (mUri r)"
    using buildQuery_list [OF assms(2)] assms(3) by (auto simp: uri_getQuery_def)
  have "rq_buildFirstLine r = Inr (request_line m (mPath (mUri r) @ tail_text ps []), r\<lparr>mUri := u\<rparr>)"
    using m(1) u query_text_nil [of ps] by (simp add: rq_buildFirstLine_def request_line_def tail_text_def)
  then show ?thesis using m by blast
qed

section \<open>Properties\<close>

text \<open>the first line that a request writes is read back as its method, its path, its query parameters in order
  and version 1.1, and the length is that of the line, whatever the object that reads it held before.\<close>

theorem rq_line_roundtrip:
  assumes "method_name (mMethod r) = Inr m" "vec_rep (mQueryParams (mUri r)) ps"
    "mModifiedQuery (mUri r) \<or> mQueryString (mUri r) = query_text ps" "target_ok (mPath (mUri r)) ps"
    and "holds buf (request_line m (mPath (mUri r) @ tail_text ps []) @ rest)" "vec_rep (mQueryParams (mUri q)) qs"
  shows "\<exists>r' q'. rq_buildFirstLine r = Inr (request_line m (mPath (mUri r) @ tail_text ps []), r') \<and>
    rq_parseFirstLine q buf = Inr (int (length (request_line m (mPath (mUri r) @ tail_text ps []))), q') \<and>
    mMethod q' = mMethod r \<and> mPath (mUri q') = mPath (mUri r) \<and> vec_rep (mQueryParams (mUri q')) ps \<and> rq_getVersion q' = (1, 1)"
proof -
  let ?t = "mPath (mUri r) @ tail_text ps []"
  have "mMethod r \<noteq> kMethodUnknown" using assms(1) by (auto simp: method_name_def method_types_def gMethodTypeList_def)
  from rq_buildFirstLine_text [OF this assms(2,3)] obtain u where b: "rq_buildFirstLine r = Inr (request_line m ?t, r\<lparr>mUri := u\<rparr>)"
    "method_loop m (zip method_types gMethodTypeList) = mMethod r" "CHR '' '' \<notin> set m" "length m < MAX_METHOD_SIZE" "no_nul m"
    using assms(1) by auto
  have t: "?t \<noteq> []" "CHR '' '' \<notin> set ?t" "length ?t < MAX_URI_SIZE" "no_nul ?t"
    using assms(4) unfolding target_ok_def no_nul_def by auto
  obtain v where v: "uri_assign_string (mUri q) ?t = Inr v" "mPath v = mPath (mUri r)" "vec_rep (mQueryParams v) ps"
    using uri_assign_target [OF assms(4,6)] by blast
  show ?thesis using b v rq_parseFirstLine_text [OF assms(5) b(3-5) t, of q]
    by (auto simp: rq_parseMethod_def rq_getVersion_def)
qed

definition sample_request :: http_request where
  "sample_request = HttpRequest_new\<lparr>mMethod := kMethodPut, mUri := URI_new\<lparr>mPath := ''/a''\<rparr>\<rparr>"

theorem rq_line_roundtrip_witness:
  "\<exists>r' q'. rq_buildFirstLine sample_request = Inr (request_line ''PUT'' ''/a'', r') \<and>
    rq_parseFirstLine HttpRequest_new (buffer_of (request_line ''PUT'' ''/a'')) = Inr (int (length (request_line ''PUT'' ''/a'')), q') \<and>
    mMethod q' = kMethodPut \<and> mPath (mUri q') = ''/a'' \<and> vec_rep (mQueryParams (mUri q')) [] \<and> rq_getVersion q' = (1, 1)"
proof -
  have "holds (buffer_of (request_line ''PUT'' ''/a'')) (request_line ''PUT'' ''/a'')"
    by (rule holds_buffer_of) (simp_all add: request_line_def CRLF_def)
  moreover have "method_name kMethodPut = Inr ''PUT''" by code_simp
  moreover have "target_ok ''/a'' []" by (simp add: target_ok_def tail_text_def query_ok_def query_text_simps MAX_URI_SIZE_def)
  ultimately show ?thesis
    using rq_line_roundtrip [of sample_request "''PUT''" "[]" "buffer_of (request_line ''PUT'' ''/a'')" "[]" HttpRequest_new "[]"]
    by (simp add: sample_request_def HttpRequest_new_def URI_new_def tail_text_def query_text_simps)
qed

end
