(* ===== verification/JetHead.thy ===== *)
theory JetHead
  imports JH_Prelude
begin

text \<open>The error codes that the library shares (src/JetHead.cpp, include/JetHead.h).\<close>

section \<open>Codes\<close>

datatype err_code = kNoError | kNotFound | kConnectionFailed | kPermissionDenied | kBusy | kTemporarilyBusy | kInProgress
  | kAlreadyRequested | kTimedOut | kNotImplemented | kOpenFailed | kInvalidRequest | kNotInitialized | kReadFailed
  | kWriteFailed | kFull | kUnknownError | kConnectionClosed | kNotEmpty | kMaxErrorString | UserError int

text \<open>The number of a code; a code of a user is behind \<open>kFirstUserErrorCode\<close>, or any other number.\<close>

fun err_number :: "err_code \<Rightarrow> int" where
  "err_number kNoError = 0" | "err_number kNotFound = 1" | "err_number kConnectionFailed = 2"
| "err_number kPermissionDenied = 3" | "err_number kBusy = 4" | "err_number kTemporarilyBusy = 5"
| "err_number kInProgress = 6" | "err_number kAlreadyRequested = 7" | "err_number kTimedOut = 8"
| "err_number kNotImplemented = 9" | "err_number kOpenFailed = 10" | "err_number kInvalidRequest = 11"
| "err_number kNotInitialized = 12" | "err_number kReadFailed = 13" | "err_number kWriteFailed = 14"
| "err_number kFull = 15" | "err_number kUnknownError = 16" | "err_number kConnectionClosed = 17"
| "err_number kNotEmpty = 18" | "err_number kMaxErrorString = 19" | "err_number (UserError n) = n"

definition gErrorStrings :: "string list" where
  "gErrorStrings =
     [''No Error'', ''Not Found'', ''Connection Failed'', ''Permission Denied'', ''Resource Busy'',
      ''Resource Temporarily Busy, Try Again'', ''Operation In Progress'', ''Resource Already Requested'',
      ''Operation Timed Out'', ''Operation Not Implemented'', ''Open of resource failed'', ''Invalid Parameter in request'',
      ''Resource not initialized'', ''Read Failed'', ''Write Failed'', ''Resource Full'', ''Unknown Error'',
      ''Connection Closed'', ''Resource Not Empty'', ''Max Error String'']"

definition getErrorString :: "err_code \<Rightarrow> string option" where
  "getErrorString err =
     (if err_number err < 0 \<or> err_number err \<ge> err_number kMaxErrorString then None
      else Some (gErrorStrings ! nat (err_number err)))"

section \<open>Errors of the system\<close>

text \<open>
  The numbers are those of Linux. The function has a parameter, but it is the global variable \<open>errno\<close> that it
  looks at.
\<close>

definition getErrorCode :: "int \<Rightarrow> int \<Rightarrow> err_code" where
  "getErrorCode errno n =
     (if errno \<in> set [13, 1, 30] then kPermissionDenied
      else if errno = 17 then kAlreadyRequested
      else if errno \<in> set [21, 20, 14, 9, 22] then kInvalidRequest
      else if errno \<in> set [27, 75] then kNotImplemented
      else if errno \<in> set [23, 24, 26, 11] then kBusy
      else if errno = 12 then kTemporarilyBusy
      else if errno \<in> set [2, 19] then kNotFound
      else if errno = 6 then kNotInitialized
      else if errno = 28 then kFull
      else if errno = 32 then kConnectionClosed
      else if errno = 39 then kNotEmpty
      else kUnknownError)"

end
