(* ===== verification/HttpAgent.thy ===== *)
theory HttpAgent
  imports HttpMessage JetHead
begin

text \<open>
  A client of HTTP (src/HttpAgent.cpp, include/HttpAgent.h): it sends a request over a socket, reads the
  header of the response through a circular buffer and gives the body to a handler. The socket is the
  environment: what \<open>connect\<close> and the writes return, and one answer for each read that it will give.
\<close>

section \<open>The socket\<close>

type_synonym reads = "(int \<Rightarrow> int \<times> byte list) list"

record socket =
  skConnect :: "string \<Rightarrow> int \<Rightarrow> int"
  skWrite :: "string \<Rightarrow> int"
  skReads :: reads

text \<open>Behind the last answer the peer has closed the connection, and a read gives no bytes.\<close>

definition next_read :: "reads \<Rightarrow> int \<Rightarrow> int \<times> byte list" where
  "next_read rs = (case rs of [] \<Rightarrow> (\<lambda>k. (0, [])) | r # _ \<Rightarrow> r)"

section \<open>Handlers of the body\<close>

text \<open>
  The interface \<open>BodyHandler\<close>: its functions on a state of their own. \<open>handleSocket\<close> reads from the socket itself.
\<close>

record 'h body_handler =
  handleData :: "byte list \<Rightarrow> 'h \<Rightarrow> 'h outcome"
  handleSocket :: "reads \<Rightarrow> int \<Rightarrow> 'h \<Rightarrow> (int \<times> reads \<times> 'h) outcome"
  setStop :: "bool \<Rightarrow> 'h \<Rightarrow> 'h"

record file_body =
  mStop :: bool
  mFile :: "byte list"

definition TEST_BUFFER_SIZE :: int where "TEST_BUFFER_SIZE = 64 * 1024"

definition file_handleData :: "byte list \<Rightarrow> file_body \<Rightarrow> file_body outcome" where
  "file_handleData buf f = Inr (f\<lparr>mFile := mFile f @ buf\<rparr>)"

text \<open>
  The loop ends when all is read or a read fails. Once the peer has closed the connection each further turn
  reads no bytes, so that the loop does not end.
\<close>

fun file_loop :: "reads \<Rightarrow> int \<Rightarrow> int \<Rightarrow> file_body \<Rightarrow> (int \<times> reads \<times> file_body) outcome" where
  "file_loop [] len read f = (if len = 0 then Inr (read, [], f) else Inl NoReturn)"
| "file_loop (r # rs) len read f =
     (if len = 0 then Inr (read, r # rs, f)
      else let (n, bytes) = r (if len < TEST_BUFFER_SIZE then len else TEST_BUFFER_SIZE) in
           if n < 0 then Inr (read, rs, f)
           else file_loop rs (len - n) (read + n) (f\<lparr>mFile := mFile f @ take (nat n) bytes\<rparr>))"

definition file_handleSocket :: "reads \<Rightarrow> int \<Rightarrow> file_body \<Rightarrow> (int \<times> reads \<times> file_body) outcome" where
  "file_handleSocket rs len f = file_loop rs len 0 f"

definition FileBodyHandler :: "file_body body_handler" where
  "FileBodyHandler = \<lparr>handleData = file_handleData, handleSocket = file_handleSocket, setStop = (\<lambda>stop f. f\<lparr>mStop := stop\<rparr>)\<rparr>"

section \<open>Chunks\<close>

text \<open>The digits are collected in an array of 40 characters, with no check.\<close>

fun chunk_loop :: "nat \<Rightarrow> cbuf \<Rightarrow> int \<Rightarrow> string \<Rightarrow> (int \<times> int \<times> string) outcome" where
  "chunk_loop 0 buf i str = Inl NoReturn"
| "chunk_loop (Suc fuel) buf i str =
     andThen (cb_byteAt buf i) (\<lambda>c.
     if c < 0 \<or> c = 59 \<or> c = 13
     then if c < 0 \<or> length str < 40 then Inr (c, i + 1, str) else Inl UndefinedBehaviour
     else if length str \<ge> 40 then Inl UndefinedBehaviour
     else chunk_loop fuel buf (i + 1) (str @ [byte_char c]))"

fun skip_loop :: "nat \<Rightarrow> cbuf \<Rightarrow> int \<Rightarrow> int \<Rightarrow> (int \<times> int) outcome" where
  "skip_loop 0 buf i c = Inl NoReturn"
| "skip_loop (Suc fuel) buf i c =
     (if c = 13 \<or> c < 0 then Inr (c, i) else andThen (cb_byteAt buf i) (\<lambda>c. skip_loop fuel buf (i + 1) c))"

definition parseChunkLine :: "cbuf \<Rightarrow> int \<Rightarrow> (int \<times> int) outcome" where
  "parseChunkLine buf len =
     (if cb_getLength buf = 0 then Inr (-1, len)
      else let fuel = Suc (Suc (nat (cb_getLength buf))) in
           andThen (chunk_loop fuel buf 0 []) (\<lambda>(c, i, str).
           if c < 0 then Inr (c, len)
           else andThen (skip_loop fuel buf i c) (\<lambda>(c, i).
           if c < 0 then Inr (c, len)
           else andThen (byte_is buf i 10) (\<lambda>lf.
           if lf then Inr (i + 1, to_int (strtol 16 (c_str str))) else Inr (-1, len)))))"

section \<open>The client\<close>

definition kMaxMessageSize :: int where "kMaxMessageSize = 2048"

definition HttpAgent_new :: "(nat \<Rightarrow> byte) \<Rightarrow> cbuf" where
  "HttpAgent_new mem = CircularBuffer_new mem kMaxMessageSize"

text \<open>
  An exchange: the buffer of the agent, what the socket will give, the response and the state of the handler.
\<close>

record 'h exchange =
  exBuffer :: cbuf
  exReads :: reads
  exRes :: http_response
  exBody :: 'h

text \<open>As much as there is room for is read at once; with no room the socket is not asked.\<close>

definition ex_fill :: "'h exchange \<Rightarrow> (int \<times> 'h exchange) outcome" where
  "ex_fill x =
     (let room = cb_getFreeSpace (exBuffer x) in
      andThen (cb_fillFromFile (exBuffer x) (next_read (exReads x)) room) (\<lambda>(n, b).
      Inr (n, x\<lparr>exBuffer := b, exReads := (if room = 0 then exReads x else tl (exReads x))\<rparr>)))"

definition ex_drop :: "int \<Rightarrow> 'h exchange \<Rightarrow> 'h exchange outcome" where
  "ex_drop n x = andThen (cb_read (exBuffer x) None n) (\<lambda>(_, _, b). Inr (x\<lparr>exBuffer := b\<rparr>))"

definition ex_drop_byte :: "int \<Rightarrow> 'h exchange \<Rightarrow> 'h exchange outcome" where
  "ex_drop_byte b x = andThen (byte_is (exBuffer x) 0 b) (\<lambda>e. if e then ex_drop 1 x else Inr x)"

section \<open>The header\<close>

text \<open>The flag tells that the first line is still to be read.\<close>

fun ex_line_loop :: "nat \<Rightarrow> bool \<Rightarrow> 'h exchange \<Rightarrow> (bool \<times> 'h exchange) outcome" where
  "ex_line_loop 0 first x = Inl NoReturn"
| "ex_line_loop (Suc fuel) first x =
     andThen (hh_searchForLine (exBuffer x)) (\<lambda>n.
     if n > 0
     then andThen (if first then rs_parseFirstLine (exRes x) (exBuffer x) else rs_parseLine (exRes x) (exBuffer x)) (\<lambda>(len, res).
          let x = x\<lparr>exRes := res\<rparr> in
          if len < 0 then ex_line_loop fuel False x else andThen (ex_drop len x) (ex_line_loop fuel False))
     else Inr (first, x))"

fun ex_header_loop :: "nat \<Rightarrow> nat \<Rightarrow> bool \<Rightarrow> 'h exchange \<Rightarrow> (bool \<times> 'h exchange) outcome" where
  "ex_header_loop fuel 0 first x = Inl NoReturn"
| "ex_header_loop fuel (Suc turns) first x =
     andThen (ex_fill x) (\<lambda>(ret, x).
     if ret \<le> 0 then Inr (False, x)
     else andThen (ex_line_loop fuel first x) (\<lambda>(first, x).
          andThen (hh_searchForLine (exBuffer x)) (\<lambda>n.
          if n \<noteq> kEOH \<or> cb_getLength (exBuffer x) < 2 then ex_header_loop fuel turns first x else Inr (True, x))))"

section \<open>The body\<close>

text \<open>
  What both kinds of body have in common: the data that lies in the buffer in one piece goes to the handler.
  The rest is left to \<open>handleSocket\<close>, and the length is 0 then, so that no loop over the length has a second turn.
\<close>

definition ex_rest :: "'h body_handler option \<Rightarrow> int \<Rightarrow> 'h exchange \<Rightarrow> (int \<times> 'h exchange) outcome" where
  "ex_rest handler len x =
     (case handler of
        None \<Rightarrow> Inl UndefinedBehaviour
      | Some h \<Rightarrow>
          andThen (handleSocket h (exReads x) len (exBody x)) (\<lambda>(ret, rs, b). Inr (ret, x\<lparr>exReads := rs, exBody := b\<rparr>)))"

definition ex_give :: "'h body_handler option \<Rightarrow> int option \<Rightarrow> int \<Rightarrow> 'h exchange \<Rightarrow> 'h exchange outcome" where
  "ex_give handler p n x =
     (case handler of
        None \<Rightarrow> Inr x
      | Some h \<Rightarrow>
          andThen (case p of None \<Rightarrow> Inr [] | Some p \<Rightarrow> cb_string_part (exBuffer x) p n) (\<lambda>bytes.
          andThen (handleData h bytes (exBody x)) (\<lambda>b. Inr (x\<lparr>exBody := b\<rparr>))))"

text \<open>An early return is Some result.\<close>

definition ex_length_body :: "'h body_handler option \<Rightarrow> int \<Rightarrow> int \<Rightarrow> 'h exchange \<Rightarrow> (err_code option \<times> int \<times> 'h exchange) outcome" where
  "ex_length_body handler len ret x =
     (if len > 0
      then andThen (cb_getBytes (exBuffer x) 0) (\<lambda>(p, n).
           let n = (if n > len then len else n) in
           andThen (ex_give handler p n x) (\<lambda>x.
           andThen (ex_drop n x) (\<lambda>x.
           if len - n \<noteq> 0
           then andThen (ex_rest handler (len - n) x) (\<lambda>(ret, x). Inr (if ret < 0 then Some kReadFailed else None, ret, x))
           else Inr (None, ret, x))))
      else Inr (None, ret, x))"

definition ex_chunk_data :: "'h body_handler option \<Rightarrow> int \<Rightarrow> int \<Rightarrow> 'h exchange \<Rightarrow> (err_code option \<times> int \<times> 'h exchange) outcome" where
  "ex_chunk_data handler len ret x =
     andThen (cb_getBytes (exBuffer x) 0) (\<lambda>(p, n).
     let n = (if n > len then len else n); give = (handler \<noteq> None \<and> n \<noteq> 0) in
     andThen (if give then andThen (ex_give handler p n x) (ex_drop n) else Inr x) (\<lambda>x.
     let len = (if give then len - n else len) in
     if len \<noteq> 0
     then andThen (ex_rest handler len x) (\<lambda>(ret, x).
          Inr (if ret \<le> 0 then Some (if ret = 0 then kNoError else kReadFailed) else None, ret, x))
     else Inr (None, ret, x)))"

text \<open>The next line of a chunk: more is read, and the end of a line in front of it is dropped, until there is one.\<close>

fun ex_chunk_line :: "nat \<Rightarrow> int \<Rightarrow> int \<Rightarrow> 'h exchange \<Rightarrow> (err_code option \<times> int \<times> int \<times> 'h exchange) outcome" where
  "ex_chunk_line 0 len ret x = Inl NoReturn"
| "ex_chunk_line (Suc fuel) len ret x =
     andThen (parseChunkLine (exBuffer x) len) (\<lambda>(n, len).
     if n \<le> 0
     then andThen (ex_fill x) (\<lambda>(ret, x).
          if ret < 0 then Inr (Some kReadFailed, len, ret, x)
          else andThen (ex_drop_byte 13 x) (\<lambda>x. andThen (ex_drop_byte 10 x) (ex_chunk_line fuel len ret)))
     else andThen (ex_drop n x) (\<lambda>x. Inr (None, len, ret, x)))"

fun ex_chunk_loop :: "nat \<Rightarrow> nat \<Rightarrow> 'h body_handler option \<Rightarrow> int \<Rightarrow> int \<Rightarrow> 'h exchange \<Rightarrow> (err_code option \<times> int \<times> 'h exchange) outcome" where
  "ex_chunk_loop fuel 0 handler len ret x = Inl NoReturn"
| "ex_chunk_loop fuel (Suc turns) handler len ret x =
     (if len > 0
      then andThen (ex_chunk_data handler len ret x) (\<lambda>(early, ret, x).
           if early \<noteq> None then Inr (early, ret, x)
           else andThen (ex_fill x) (\<lambda>(ret, x).
                if ret < 0 then Inr (Some kReadFailed, ret, x)
                else andThen (ex_drop_byte 13 x) (\<lambda>x. andThen (ex_drop_byte 10 x) (\<lambda>x.
                     andThen (ex_chunk_line fuel 0 ret x) (\<lambda>(early, len, ret, x).
                     if early \<noteq> None then Inr (early, ret, x) else ex_chunk_loop fuel turns handler len ret x)))))
      else Inr (None, ret, x))"

text \<open>The body: an early return, or the error so far and \<open>ret\<close>.\<close>

definition ex_body :: "nat \<Rightarrow> 'h body_handler option \<Rightarrow> 'h exchange \<Rightarrow> (err_code option \<times> err_code \<times> int \<times> 'h exchange) outcome" where
  "ex_body fuel handler x =
     (let ret = mResponseCode (exRes x); h = rsHeader (exRes x) in
      andThen (hh_getFieldInt h kFieldContentLength) (\<lambda>(found, len).
      if found
      then andThen (ex_length_body handler len ret x) (\<lambda>(early, ret, x). Inr (early, kNoError, ret, x))
      else andThen (hh_getField h kFieldTransferEncoding) (\<lambda>enc.
           if enc = Some ''chunked''
           then andThen (ex_chunk_line fuel len ret x) (\<lambda>(early, len, ret, x).
                if early \<noteq> None then Inr (early, kNotFound, ret, x)
                else andThen (ex_chunk_loop fuel fuel handler len ret x) (\<lambda>(early, ret, x). Inr (early, kNoError, ret, x)))
           else Inr (None, kNotFound, ret, x))))"

definition ex_finish :: "'h body_handler option \<Rightarrow> err_code \<Rightarrow> int \<Rightarrow> 'h exchange \<Rightarrow> err_code \<times> 'h exchange" where
  "ex_finish handler err ret x =
     (if \<not> (ret = 200 \<or> ret = 206) then kNotFound else err,
      case handler of None \<Rightarrow> x | Some h \<Rightarrow> x\<lparr>exBody := setStop h True (exBody x)\<rparr>)"

definition ex_receive :: "nat \<Rightarrow> 'h body_handler option \<Rightarrow> 'h exchange \<Rightarrow> (err_code \<times> 'h exchange) outcome" where
  "ex_receive fuel handler x =
     andThen (ex_header_loop fuel (Suc (length (exReads x))) True x) (\<lambda>(ok, x).
     if \<not> ok then Inr (kReadFailed, x)
     else andThen (ex_drop 2 x) (\<lambda>x.
          andThen (ex_body fuel handler x) (\<lambda>(early, err, ret, x).
          Inr (case early of Some e \<Rightarrow> (e, x) | None \<Rightarrow> ex_finish handler err ret x))))"

text \<open>
  The whole exchange; the request is changed by what is built for it. The name of the host and the port are
  given to \<open>connect\<close>.
\<close>

definition ag_sendAndGet :: "nat \<Rightarrow> (string \<Rightarrow> nat option) \<Rightarrow> cbuf \<Rightarrow> socket \<Rightarrow> http_request \<Rightarrow> http_response \<Rightarrow> string \<Rightarrow>
    'h body_handler option \<Rightarrow> 'h \<Rightarrow> (err_code \<times> http_request \<times> 'h exchange) outcome" where
  "ag_sendAndGet fuel servent buf sock req res toSend handler b =
     andThen (URI_copy (mUri req)) (\<lambda>(uri, other).
     let req = req\<lparr>mUri := (case other of None \<Rightarrow> mUri req | Some u \<Rightarrow> u)\<rparr>;
         x = \<lparr>exBuffer = buf, exReads = skReads sock, exRes = res, exBody = b\<rparr> in
     andThen (uri_getHost uri) (\<lambda>host.
     andThen (uri_getPort servent uri) (\<lambda>port.
     if skConnect sock (c_str host) port \<noteq> 0 then Inr (kConnectionFailed, req, x\<lparr>exRes := rs_setResponseCode res (-1)\<rparr>)
     else andThen (rq_send req (skWrite sock)) (\<lambda>(_, req).
          if toSend \<noteq> [] \<and> skWrite sock toSend \<noteq> int (length toSend) then Inr (kWriteFailed, req, x)
          else andThen (ex_receive fuel handler (x\<lparr>exBuffer := cb_clear buf\<rparr>)) (\<lambda>(err, x). Inr (err, req, x))))))"

definition ag_get_request where
  "ag_get_request fuel servent buf sock req res handler b = ag_sendAndGet fuel servent buf sock req res [] handler b"

definition ag_get where
  "ag_get fuel servent buf sock uri date major minor res handler b =
     andThen (HttpRequest_of uri kMethodGet date major minor) (\<lambda>(req, uri).
     andThen (ag_get_request fuel servent buf sock req res handler b) (\<lambda>(err, req, x). Inr (err, uri, x)))"

section \<open>Text in the buffer of an exchange\<close>

lemma bytes_of_append: "bytes_of (s @ t) = bytes_of s @ bytes_of t"
  by (simp add: bytes_of_def)

lemma length_bytes_of [simp]: "length (bytes_of s) = length s"
  by (simp add: bytes_of_def)

text \<open>The data lies in one piece, from the read pointer on; reading keeps it so.\<close>

definition linear :: "cbuf \<Rightarrow> bool" where
  "linear c \<longleftrightarrow> mReadPtr c + uint (mLen c) \<le> mBufferSize c"

lemma cb_read_linear:
  assumes "cb_inv c" "linear c" "0 \<le> n" "n \<le> uint (mLen c)" "cb_read c None n = Inr (m, x, d)"
  shows "linear d"
proof (cases "n = 0")
  case True
  then show ?thesis using assms by (simp add: cb_read_def cb_inv_length_internal)
next
  case False
  let ?c = "c\<lparr>mReadPtr := mReadPtr c + n\<rparr>"
  have t: "mEnd c - mReadPtr c \<ge> n" using assms(2,4) by (simp add: linear_def mEnd_def)
  have u: "uint (mLen c - word_of_int n) = uint (mLen c) - n"
    using cb_subtract_length(2) [OF assms(1), of n c] assms(3,4) by simp
  have s: "cb_subtract_length_internal ?c (word_of_int n) =
      Inr (?c\<lparr>mLen := mLen c - word_of_int n, mWritePtr := (if mWritePtr c = mBufferSize c then 0 else mWritePtr c)\<rparr>)"
    using cb_subtract_length(1) [OF assms(1), of n ?c] assms(3,4) by (simp add: mEnd_def)
  have "cb_read c None n = Inr (n, None, ?c\<lparr>mLen := mLen c - word_of_int n,
      mWritePtr := (if mWritePtr c = mBufferSize c then 0 else mWritePtr c), mFreeCondition := Suc (mFreeCondition c)\<rparr>)"
  proof -
    have e: "(if n > cb_length_internal c then cb_length_internal c else n) = n"
      "(if mEnd c - mReadPtr c > n then n else mEnd c - mReadPtr c) = n"
      using t assms(1,4) by (simp_all add: cb_inv_length_internal)
    have "cb_bufferCopy None 0 (Some (mBuffer c)) (mReadPtr c) n = Inr None" by (simp add: cb_bufferCopy_def)
    then show ?thesis using False s unfolding cb_read_def Let_def e by simp
  qed
  then show ?thesis using assms(2,5) u by (auto simp: linear_def)
qed

lemma ex_drop_text:
  assumes "holds (exBuffer x) (s @ t)"
  shows "\<exists>b. ex_drop (int (length s)) x = Inr (x\<lparr>exBuffer := b\<rparr>) \<and> holds b t \<and> (linear (exBuffer x) \<longrightarrow> linear b)"
proof -
  have h: "cb_inv (exBuffer x)" "cb_contents (exBuffer x) = bytes_of (s @ t)" using assms by (simp_all add: holds_def)
  have l: "cb_length_internal (exBuffer x) = int (length (s @ t))" using holds_length [OF assms] by (simp add: cb_getLength_def)
  then obtain d where d: "cb_read (exBuffer x) None (int (length s)) = Inr (int (length s), None, d)"
    "cb_consumed (exBuffer x) (int (length s)) d"
    using cb_read_ok [OF h(1), of "int (length s)" None] by (auto simp: buffer_room_def cb_delivered_def)
  then have "holds d t" using h(2) by (simp add: cb_consumed_def holds_def bytes_of_append)
  moreover have "int (length s) \<le> uint (mLen (exBuffer x))" using l cb_inv_length_internal [OF h(1)] by simp
  ultimately show ?thesis using d(1) cb_read_linear [OF h(1) _ _ _ d(1)] by (auto simp: ex_drop_def)
qed

text \<open>What lies in one piece is got at once.\<close>

lemma getBytes_linear:
  assumes "holds c s" "linear c"
  shows "\<exists>p. cb_getBytes c 0 = Inr (p, int (length s)) \<and> (s = [] \<longrightarrow> p = None) \<and>
    (\<forall>n. 0 \<le> n \<and> n \<le> int (length s) \<and> s \<noteq> [] \<longrightarrow> (\<exists>q. p = Some q \<and> cb_string_part c q n = Inr (take (nat n) (bytes_of s))))"
proof (cases "s = []")
  case True
  then have "cb_length_internal c \<le> 0" using holds_length [OF assms(1)] by (simp add: cb_getLength_def)
  then show ?thesis using True cb_getBytes_beyond [of c 0] by (simp add: cb_getBytes_def)
next
  case False
  have i: "cb_inv c" "cb_contents c = bytes_of s" using assms(1) by (simp_all add: holds_def)
  have l: "cb_length_internal c = int (length s)" "uint (mLen c) = int (length s)"
    using holds_length [OF assms(1)] cb_inv_length_internal [OF i(1)] by (simp_all add: cb_getLength_def)
  have b: "0 \<le> mReadPtr c" "mReadPtr c < mBufferSize c" proof -
    have "0 < length s" using False by simp
    then show "mReadPtr c < mBufferSize c" using assms(2) l(2) unfolding linear_def by linarith
  qed (use i(1) in \<open>simp add: cb_inv_def\<close>)
  obtain p k where pk: "cb_getBytesInternal c 0 = Inr (Some p, k)" "p = mReadPtr c" "0 + k \<le> int (length s)" "p + k \<le> mBufferSize c"
    "0 + k = int (length s) \<or> p + k = mBufferSize c"
    using cb_getBytes_ok [OF i(1), of 0] l b False by auto
  then have "k = int (length s)" using assms(2) l(2) by (auto simp: linear_def)
  moreover have "cb_string_part c p n = Inr (take (nat n) (bytes_of s))" if "0 \<le> n" "n \<le> int (length s)" for n
    using cb_string_part_ok [OF i(1), of 0 n p] that pk b l(2) i(2) assms(2) by (simp add: linear_def)
  ultimately show ?thesis using pk(1) False by (simp add: cb_getBytes_def)
qed

section \<open>Reading the lines of a header\<close>

text \<open>What is left behind a line starts with the name of a field or the end of the header.\<close>

lemma peek_fields:
  assumes "fields_known fs"
  shows "peek (fields_text fs @ CRLF @ r) \<noteq> 32 \<and> peek (fields_text fs @ CRLF @ r) \<noteq> 9"
proof (cases fs)
  case Nil
  then show ?thesis by (simp add: fields_text_def CRLF_def)
next
  case (Cons f gs)
  obtain s where s: "http_getFieldTypeString (fst f) = Some s" using assms Cons by (auto simp: fields_known_def)
  then have n: "name_ok s" using http.names by blast
  then obtain c t where "s = c # t" by (cases s) (auto simp: name_ok_def)
  then show ?thesis using n s Cons by (simp add: fields_text_def line_text_def split_beta name_ok_def)
qed

lemma ex_line_loop_end:
  assumes "holds (exBuffer x) (CRLF @ r)" "0 < fuel"
  shows "ex_line_loop fuel first x = Inr (first, x)"
  using search_end [OF assms(1)] assms(2) by (cases fuel) (simp_all add: kEOH_def)

lemma fields_known_Cons: "fields_known (f # fs) \<longleftrightarrow> http_getFieldTypeString (fst f) \<noteq> None \<and> data_ok (snd f) \<and> fields_known fs"
  by (auto simp: fields_known_def)

lemma ex_line_loop_fields:
  assumes "fields_known fs"
  shows "holds (exBuffer x) (fields_text fs @ CRLF @ r) \<Longrightarrow> mFieldMappings (rsHeader (exRes x)) = [HttpFieldMap] \<Longrightarrow>
    hh_rep (rsHeader (exRes x)) gs \<Longrightarrow> length gs + length fs \<le> kMaxFields \<Longrightarrow> length fs < fuel \<Longrightarrow>
    \<exists>b h. ex_line_loop fuel False x = Inr (False, x\<lparr>exBuffer := b, exRes := (exRes x)\<lparr>rsHeader := h\<rparr>\<rparr>) \<and> holds b (CRLF @ r) \<and>
      (linear (exBuffer x) \<longrightarrow> linear b) \<and> hh_rep h (gs @ fs) \<and> mFieldMappings h = [HttpFieldMap]"
  using assms
proof (induction fs arbitrary: x gs fuel)
  case Nil
  then have "ex_line_loop fuel False x = Inr (False, x\<lparr>exBuffer := exBuffer x, exRes := (exRes x)\<lparr>rsHeader := rsHeader (exRes x)\<rparr>\<rparr>)"
    using ex_line_loop_end [of x r fuel False] by (simp add: fields_text_def)
  then show ?case using Nil by (metis append.right_neutral append_Nil concat.simps(1) fields_text_def list.map(1))
next
  case (Cons f fs)
  let ?l = "line_text http_getFieldTypeString f"
  obtain n where n: "fuel = Suc n" using Cons.prems(5) by (cases fuel) auto
  obtain s where s: "http_getFieldTypeString (fst f) = Some s" using Cons.prems(6) by (auto simp: fields_known_Cons)
  have k: "data_ok (snd f)" "fields_known fs" using Cons.prems(6) by (simp_all add: fields_known_Cons)
  have h: "holds (exBuffer x) (?l @ fields_text fs @ CRLF @ r)" using Cons.prems(1) by (simp add: fields_text_def)
  have m: "mFieldMappings (rsHeader (exRes x)) = [\<lparr>fmType = http_getFieldType, fmString = http_getFieldTypeString\<rparr>]"
    using Cons.prems(2) by (simp add: HttpFieldMap_def)
  obtain h' where h': "hh_append (rsHeader (exRes x)) (fst f) (snd f) = Inr h'" "hh_rep h' (gs @ [f])" "mFieldMappings h' = [HttpFieldMap]"
    using hh_append_rep(1) [OF Cons.prems(3), of "fst f" "snd f"] Cons.prems(2,4) by auto
  have line: "hh_searchForLine (exBuffer x) = Inr (int (length ?l))" "hh_parseLine (rsHeader (exRes x)) (exBuffer x) = Inr (int (length ?l), h')"
    using http.line_read [OF m s k(1), of "exBuffer x" "fields_text fs @ CRLF @ r"] h peek_fields [OF k(2), of r] h'(1) by simp_all
  let ?x = "x\<lparr>exRes := (exRes x)\<lparr>rsHeader := h'\<rparr>\<rparr>"
  obtain b where b: "ex_drop (int (length ?l)) ?x = Inr (?x\<lparr>exBuffer := b\<rparr>)" "holds b (fields_text fs @ CRLF @ r)"
    "linear (exBuffer x) \<longrightarrow> linear b"
    using ex_drop_text [of ?x ?l "fields_text fs @ CRLF @ r"] h by auto
  have ne: "0 < length ?l" using s by (simp add: line_text_def split_beta)
  have "ex_line_loop fuel False x = ex_line_loop n False (?x\<lparr>exBuffer := b\<rparr>)"
    using line b(1) n ne by (simp add: rs_parseLine_def Let_def)
  moreover have "\<exists>b2 h2. ex_line_loop n False (?x\<lparr>exBuffer := b\<rparr>) =
      Inr (False, ?x\<lparr>exBuffer := b2, exRes := (exRes ?x)\<lparr>rsHeader := h2\<rparr>\<rparr>) \<and> holds b2 (CRLF @ r) \<and>
      (linear b \<longrightarrow> linear b2) \<and> hh_rep h2 ((gs @ [f]) @ fs) \<and> mFieldMappings h2 = [HttpFieldMap]"
    using Cons.IH [of "?x\<lparr>exBuffer := b\<rparr>" "gs @ [f]" n] b(2) h'(2,3) Cons.prems(4,5) k(2) n by simp
  ultimately show ?case using b(3) by auto
qed

text \<open>The whole header of a response.\<close>

lemma response_first_line:
  assumes "holds buf (response_text code fs @ body)" "0 \<le> code" "code < 2 ^ 31" "fields_known fs"
  shows "hh_searchForLine buf = Inr (int (length (status_line ''HTTP/1.1'' (show_int code) (response_string code gResponseCodeList))))"
proof -
  let ?s = "''HTTP/1.1 '' @ show_int code @ '' '' @ response_string code gResponseCodeList"
  have e: "status_line ''HTTP/1.1'' (show_int code) (response_string code gResponseCodeList) = ?s @ CRLF"
    by (simp add: status_line_def)
  have "CHR 0x0D \<notin> set (show_int code)"
    using show_int_chars(1) [OF assms(2)] decimal_char(2) [of "CHR 0x0D"] by (auto simp: is_space_def)
  then have "CHR 0x0D \<notin> set ?s" using response_string_ok [of code] by (simp add: reason_ok_def)
  moreover have "?s \<noteq> []" by simp
  moreover have "holds buf (?s @ CRLF @ fields_text fs @ CRLF @ body)" using assms(1) by (simp add: response_text_def e)
  ultimately show ?thesis using search_line peek_fields [OF assms(4), of body] unfolding e by blast
qed

lemma ex_line_loop_response:
  assumes h: "holds (exBuffer x) (response_text code fs @ body)"
    and c: "0 \<le> code" "code < 2 ^ 31" "code \<noteq> 100" and k: "fields_known fs" "length fs \<le> kMaxFields" "Suc (length fs) < fuel"
    and m: "mFieldMappings (rsHeader (exRes x)) = [HttpFieldMap]" "hh_rep (rsHeader (exRes x)) []"
  shows "\<exists>b h. ex_line_loop fuel True x = Inr (False, x\<lparr>exBuffer := b, exRes := \<lparr>rsHeader = h, mResponseCode = code\<rparr>\<rparr>) \<and>
    holds b (CRLF @ body) \<and> (linear (exBuffer x) \<longrightarrow> linear b) \<and> hh_rep h fs"
proof -
  let ?l = "status_line ''HTTP/1.1'' (show_int code) (response_string code gResponseCodeList)"
  obtain n where n: "fuel = Suc n" using k(3) by (cases fuel) auto
  have h': "holds (exBuffer x) (?l @ fields_text fs @ CRLF @ body)" using h by (simp add: response_text_def)
  let ?x = "x\<lparr>exRes := (exRes x)\<lparr>mResponseCode := code\<rparr>\<rparr>"
  obtain b where b: "ex_drop (int (length ?l)) ?x = Inr (?x\<lparr>exBuffer := b\<rparr>)" "holds b (fields_text fs @ CRLF @ body)"
    "linear (exBuffer x) \<longrightarrow> linear b"
    using ex_drop_text [of ?x ?l "fields_text fs @ CRLF @ body"] h' by auto
  have "0 < length ?l" by (simp add: status_line_def)
  then have s: "ex_line_loop fuel True x = ex_line_loop n False (?x\<lparr>exBuffer := b\<rparr>)"
    using response_first_line [OF h c(1,2) k(1)] rs_parseFirstLine_response [OF h c, of "exRes x"] b(1) n
    by (simp add: Let_def)
  obtain b2 h2 where "ex_line_loop n False (?x\<lparr>exBuffer := b\<rparr>) =
      Inr (False, ?x\<lparr>exBuffer := b2, exRes := (exRes ?x)\<lparr>rsHeader := h2\<rparr>\<rparr>)" "holds b2 (CRLF @ body)"
      "linear b \<longrightarrow> linear b2" "hh_rep h2 fs"
    using ex_line_loop_fields [OF k(1), of "?x\<lparr>exBuffer := b\<rparr>" body "[]" n] b(2) m k(2,3) n by auto
  moreover have "(exRes x)\<lparr>mResponseCode := code, rsHeader := h2\<rparr> = \<lparr>rsHeader = h2, mResponseCode = code\<rparr>"
    by (cases "exRes x") simp
  ultimately show ?thesis using s b(3) by auto
qed

section \<open>A socket that delivers\<close>

text \<open>An answer that gives the bytes of a piece, as many as asked for.\<close>

definition chunk_read :: "byte list \<Rightarrow> int \<Rightarrow> int \<times> byte list" where
  "chunk_read bs k = (min k (int (length bs)), take (nat k) bs)"

lemma chunk_read_ok: "reader_ok (chunk_read bs)"
  by (auto simp: reader_ok_def chunk_read_def min_def)

lemma fill_read_ptr: "cb_fillFromFile c reader n = Inr (res, d) \<Longrightarrow> mReadPtr d = mReadPtr c \<or> mReadPtr d = 0"
  by (auto simp: cb_fillFromFile_def cb_add_length_internal_def Let_def andThen_Inr_iff split: if_splits prod.splits)

definition cleared :: "cbuf \<Rightarrow> bool" where
  "cleared c \<longleftrightarrow> cb_inv c \<and> mReadPtr c = 0 \<and> mWritePtr c = 0 \<and> mLen c = 0"

lemma cleared_clear: "cb_inv c \<Longrightarrow> cleared (cb_clear c) \<and> mBufferSize (cb_clear c) = mBufferSize c"
  using cb_clear_ok [of c] by (simp add: cleared_def cb_clear_def)

lemma ex_fill_first:
  assumes "cleared (exBuffer x)" "exReads x = chunk_read (bytes_of s) # rs" "s \<noteq> []" "int (length s) \<le> mBufferSize (exBuffer x)"
  shows "\<exists>b. ex_fill x = Inr (int (length s), x\<lparr>exBuffer := b, exReads := rs\<rparr>) \<and> holds b s \<and> linear b"
proof -
  let ?c = "exBuffer x"
  have i: "cb_inv ?c" "cb_contents ?c = []" and p: "mReadPtr ?c = 0" "mWritePtr ?c = 0"
    using assms(1) by (simp_all add: cleared_def cb_contents_def)
  have f: "cb_getFreeSpace ?c = mBufferSize ?c" using assms(1) by (simp add: cb_getFreeSpace_def cleared_def cb_length_internal_def)
  have r: "cb_fill_request ?c (cb_getFreeSpace ?c) = mBufferSize ?c" using p f by (simp add: cb_fill_request_def mEnd_def)
  have n: "min (mBufferSize ?c) (cb_getFreeSpace ?c) \<noteq> 0" "0 < mBufferSize ?c" using f i(1) by (simp_all add: cb_inv_def)
  obtain d where d: "cb_fillFromFile ?c (chunk_read (bytes_of s)) (cb_getFreeSpace ?c) = Inr (int (length s), d)"
    "cb_inv d" "cb_contents d = bytes_of s"
  proof -
    have rd: "chunk_read (bytes_of s) (cb_fill_request ?c (cb_getFreeSpace ?c)) = (int (length s), bytes_of s)"
      unfolding r using assms(4) by (auto simp: chunk_read_def min_def)
    show ?thesis using cb_fillFromFile_ok [OF i(1) _ chunk_read_ok rd] n f i(2) that by auto
  qed
  have "linear d" using fill_read_ptr [OF d(1)] p(1) d(2) by (simp add: linear_def cb_inv_def)
  then show ?thesis using d n(2) f assms(2) by (intro exI [of _ d]) (simp add: ex_fill_def next_read_def holds_def)
qed

section \<open>The contract of a handler\<close>

text \<open>
  What the client relies on: the bytes given are added to those the handler has, and \<open>handleSocket\<close> adds as many
  bytes as it is asked for, from answers that are pieces of them. A piece is not greater than the array it is read to.
\<close>

definition pieces_ok :: "byte list list \<Rightarrow> bool" where
  "pieces_ok cs \<longleftrightarrow> (\<forall>c \<in> set cs. c \<noteq> [] \<and> int (length c) \<le> TEST_BUFFER_SIZE)"

locale body_sink =
  fixes give :: "byte list \<Rightarrow> 'h \<Rightarrow> 'h outcome"
    and sock :: "reads \<Rightarrow> int \<Rightarrow> 'h \<Rightarrow> (int \<times> reads \<times> 'h) outcome"
    and stop :: "bool \<Rightarrow> 'h \<Rightarrow> 'h"
    and got :: "'h \<Rightarrow> byte list"
  assumes give_law: "\<exists>h'. give bs h = Inr h' \<and> got h' = got h @ bs"
    and sock_law: "pieces_ok cs \<Longrightarrow> \<exists>h'. sock (map chunk_read cs @ rs) (int (length (concat cs))) h =
      Inr (int (length (concat cs)), rs, h') \<and> got h' = got h @ concat cs"
    and stop_law: "got (stop b h) = got h"
begin

definition handler :: "'h body_handler" where
  "handler = \<lparr>handleData = give, handleSocket = sock, setStop = stop\<rparr>"

text \<open>A body of a known length: what lies in the buffer and the pieces that follow.\<close>

lemma length_body:
  assumes "holds (exBuffer x) body" "linear (exBuffer x)" "exReads x = map chunk_read cs @ rs" "pieces_ok cs"
    "len = int (length body + length (concat cs))" "0 < len"
  shows "\<exists>y. ex_length_body (Some handler) len ret x = Inr (None, if cs = [] then ret else int (length (concat cs)), y) \<and>
    got (exBody y) = got (exBody x) @ bytes_of body @ concat cs \<and> exReads y = rs \<and> exRes y = exRes x"
proof -
  let ?n = "int (length body)"
  obtain p where p: "cb_getBytes (exBuffer x) 0 = Inr (p, ?n)" "body = [] \<longrightarrow> p = None"
    "body \<noteq> [] \<longrightarrow> (\<exists>q. p = Some q \<and> cb_string_part (exBuffer x) q ?n = Inr (bytes_of body))"
    using getBytes_linear [OF assms(1,2)] by (metis length_bytes_of nat_int of_nat_0_le_iff order_refl take_all_iff)
  obtain b where b: "give (bytes_of body) (exBody x) = Inr b" "got b = got (exBody x) @ bytes_of body" using give_law by blast
  have g: "ex_give (Some handler) p ?n x = Inr (x\<lparr>exBody := b\<rparr>)"
    using p(2,3) b(1) by (cases "body = []") (auto simp: ex_give_def handler_def bytes_of_def)
  obtain c where c: "ex_drop ?n (x\<lparr>exBody := b\<rparr>) = Inr (x\<lparr>exBody := b, exBuffer := c\<rparr>)"
    using ex_drop_text [of "x\<lparr>exBody := b\<rparr>" body "[]"] assms(1) by auto
  have e: "(if ?n > len then len else ?n) = ?n" using assms(5) by simp
  show ?thesis
  proof (cases "concat cs = []")
    case True
    then have "cs = []" using assms(4) by (cases cs) (auto simp: pieces_ok_def)
    then show ?thesis using p(1) g c e assms(3,5,6) b(2) by (simp add: ex_length_body_def)
  next
    case False
    let ?y = "x\<lparr>exBody := b, exBuffer := c\<rparr>"
    obtain h' where h': "sock (map chunk_read cs @ rs) (int (length (concat cs))) b = Inr (int (length (concat cs)), rs, h')"
      "got h' = got b @ concat cs" using sock_law [OF assms(4), of rs b] by blast
    have l: "len - ?n = int (length (concat cs))" using assms(5) by simp
    have "ex_rest (Some handler) (len - ?n) ?y = Inr (int (length (concat cs)), ?y\<lparr>exReads := rs, exBody := h'\<rparr>)"
      unfolding l using h'(1) assms(3) by (simp add: ex_rest_def handler_def)
    moreover have "len - ?n \<noteq> 0" unfolding l using False by simp
    ultimately show ?thesis using p(1) g c assms(6) b(2) h'(2) False unfolding ex_length_body_def
      by (auto simp: e split: if_splits)
  qed
qed

end

lemma file_loop_stop: "file_loop rs 0 n f = Inr (n, rs, f)"
  by (cases rs) simp_all

lemma file_loop_pieces:
  "pieces_ok cs \<Longrightarrow> file_loop (map chunk_read cs @ rs) (int (length (concat cs))) n f =
    Inr (n + int (length (concat cs)), rs, f\<lparr>mFile := mFile f @ concat cs\<rparr>)"
proof (induction cs arbitrary: n f)
  case Nil
  then show ?case by (simp add: file_loop_stop)
next
  case (Cons c cs)
  define L where "L = int (length (concat (c # cs)))"
  let ?k = "if L < TEST_BUFFER_SIZE then L else TEST_BUFFER_SIZE"
  have c: "c \<noteq> []" "int (length c) \<le> ?k" "pieces_ok cs" using Cons.prems by (auto simp: pieces_ok_def L_def)
  then have r: "chunk_read c ?k = (int (length c), c)" by (auto simp: chunk_read_def min_def)
  have l: "L \<noteq> 0" "L - int (length c) = int (length (concat cs))" using c(1) by (cases c, simp_all add: L_def)
  have "file_loop (map chunk_read (c # cs) @ rs) L n f =
      file_loop (map chunk_read cs @ rs) (int (length (concat cs))) (n + int (length c)) (f\<lparr>mFile := mFile f @ c\<rparr>)"
    using r l by simp
  also have "\<dots> = Inr (n + int (length c) + int (length (concat cs)), rs, f\<lparr>mFile := mFile f @ c @ concat cs\<rparr>)"
    using Cons.IH [OF c(3)] by simp
  finally show ?case unfolding L_def by (simp add: add.assoc)
qed

interpretation file_sink: body_sink file_handleData file_handleSocket "\<lambda>stop f. f\<lparr>mStop := stop\<rparr>" mFile
  by unfold_locales (simp_all add: file_handleData_def file_handleSocket_def file_loop_pieces)

lemma file_sink_handler: "file_sink.handler = FileBodyHandler"
  by (simp add: file_sink.handler_def FileBodyHandler_def)

section \<open>A whole response\<close>

lemma ex_header_loop_response:
  assumes x: "cleared (exBuffer x)" "exReads x = chunk_read (bytes_of (response_text code fs @ body)) # rs"
      "int (length (response_text code fs @ body)) \<le> mBufferSize (exBuffer x)"
    and c: "0 \<le> code" "code < 2 ^ 31" "code \<noteq> 100" and k: "fields_known fs" "length fs \<le> kMaxFields" "Suc (length fs) < fuel"
    and m: "mFieldMappings (rsHeader (exRes x)) = [HttpFieldMap]" "hh_rep (rsHeader (exRes x)) []"
  shows "\<exists>b h. ex_header_loop fuel (Suc turns) True x = Inr (True, x\<lparr>exBuffer := b, exReads := rs, exRes := \<lparr>rsHeader = h, mResponseCode = code\<rparr>\<rparr>) \<and>
    holds b (CRLF @ body) \<and> linear b \<and> hh_rep h fs"
proof -
  have ne: "response_text code fs @ body \<noteq> []" by (simp add: response_text_def status_line_def)
  obtain b where b: "ex_fill x = Inr (int (length (response_text code fs @ body)), x\<lparr>exBuffer := b, exReads := rs\<rparr>)"
    "holds b (response_text code fs @ body)" "linear b"
    using ex_fill_first [OF x(1,2) ne x(3)] by blast
  let ?x = "x\<lparr>exBuffer := b, exReads := rs\<rparr>"
  obtain b2 h2 where l: "ex_line_loop fuel True ?x = Inr (False, ?x\<lparr>exBuffer := b2, exRes := \<lparr>rsHeader = h2, mResponseCode = code\<rparr>\<rparr>)"
    "holds b2 (CRLF @ body)" "linear b2" "hh_rep h2 fs"
    using ex_line_loop_response [of ?x code fs body fuel] b c k m by auto
  have "cb_getLength b2 \<ge> 2" using holds_length [OF l(2)] by (simp add: CRLF_def)
  moreover have "0 < int (length (response_text code fs @ body))" using ne by (metis length_greater_0_conv of_nat_0_less_iff)
  ultimately show ?thesis using b(1) l search_end [OF l(2)]
    by (intro exI [of _ b2] exI [of _ h2]) (simp del: length_append of_nat_add)
qed

lemma ex_receive_length:
  assumes x: "cleared (exBuffer x)" "exReads x = chunk_read (bytes_of (response_text code fs @ body)) # map chunk_read cs @ rs"
      "int (length (response_text code fs @ body)) \<le> mBufferSize (exBuffer x)" "pieces_ok cs"
    and c: "0 \<le> code" "code < 2 ^ 31" "code \<noteq> 100" and k: "fields_known fs" "length fs \<le> kMaxFields" "Suc (length fs) < fuel"
    and m: "mFieldMappings (rsHeader (exRes x)) = [HttpFieldMap]" "hh_rep (rsHeader (exRes x)) []"
    and l: "map_of fs kFieldContentLength = Some v" "to_int (strtol 0 v) = int (length body + length (concat cs))" "0 < length body + length (concat cs)"
  defines "ret \<equiv> (if cs = [] then code else int (length (concat cs)))"
  shows "\<exists>y. ex_receive fuel (Some FileBodyHandler) x = Inr (if ret = 200 \<or> ret = 206 then kNoError else kNotFound, y) \<and>
    mFile (exBody y) = mFile (exBody x) @ bytes_of body @ concat cs \<and> mStop (exBody y) \<and> exReads y = rs \<and>
    mResponseCode (exRes y) = code \<and> hh_rep (rsHeader (exRes y)) fs"
proof -
  let ?rs = "map chunk_read cs @ rs"
  obtain b h where h: "ex_header_loop fuel (Suc (length (exReads x))) True x =
      Inr (True, x\<lparr>exBuffer := b, exReads := ?rs, exRes := \<lparr>rsHeader = h, mResponseCode = code\<rparr>\<rparr>)"
    "holds b (CRLF @ body)" "linear b" "hh_rep h fs"
    using ex_header_loop_response [OF x(1,2,3) c k m] by blast
  let ?x = "x\<lparr>exBuffer := b, exReads := ?rs, exRes := \<lparr>rsHeader = h, mResponseCode = code\<rparr>\<rparr>"
  obtain d where d: "ex_drop 2 ?x = Inr (?x\<lparr>exBuffer := d\<rparr>)" "holds d body" "linear d"
    using ex_drop_text [of ?x CRLF body] h(2,3) by (auto simp: CRLF_def)
  let ?len = "int (length body + length (concat cs))"
  have n: "hh_getFieldInt h kFieldContentLength = Inr (True, ?len)"
    using hh_getFieldInt_list [OF h(4), of kFieldContentLength] l(1,2) by simp
  obtain y where y: "ex_length_body (Some FileBodyHandler) ?len code (?x\<lparr>exBuffer := d\<rparr>) = Inr (None, ret, y)"
    "mFile (exBody y) = mFile (exBody x) @ bytes_of body @ concat cs" "exReads y = rs" "exRes y = \<lparr>rsHeader = h, mResponseCode = code\<rparr>"
    using file_sink.length_body [of "?x\<lparr>exBuffer := d\<rparr>" body cs rs ?len code] d(2,3) x(4) l(3)
    unfolding ret_def file_sink_handler by auto
  have e: "ex_body fuel (Some FileBodyHandler) (?x\<lparr>exBuffer := d\<rparr>) = Inr (None, kNoError, ret, y)"
    using n y(1) by (simp add: ex_body_def Let_def)
  show ?thesis using h(1,4) d(1) e y(2-4)
    by (simp add: ex_receive_def ex_finish_def FileBodyHandler_def)
qed

section \<open>The line of a chunk\<close>

lemma chunk_loop_text:
  "holds buf (p @ d @ CHR 0x0D # r) \<Longrightarrow> CHR 0x0D \<notin> set d \<Longrightarrow> CHR '';'' \<notin> set d \<Longrightarrow> length d < fuel \<Longrightarrow>
    chunk_loop fuel buf (int (length p)) str =
      (if length str + length d < 40 then Inr (13, int (length (p @ d)) + 1, str @ d) else Inl UndefinedBehaviour)"
proof (induction d arbitrary: p str fuel)
  case Nil
  then obtain f where f: "fuel = Suc f" by (cases fuel) auto
  have "cb_byteAt buf (int (length p)) = Inr 13"
    using holds_byteAt [of buf p "CHR 0x0D # r"] Nil.prems by (simp add: char_code_def)
  then show ?case using f by simp
next
  case (Cons c d)
  then obtain f where f: "fuel = Suc f" by (cases fuel) auto
  have c: "cb_byteAt buf (int (length p)) = Inr (char_code c)"
    using holds_byteAt [of buf p "c # d @ CHR 0x0D # r"] Cons.prems by simp
  have "char_code (CHR '';'') = 59" by (simp add: char_code_def)
  then have "char_code c \<noteq> 59" "char_code c \<noteq> 13" "\<not> char_code c < 0"
    using Cons.prems(2,3) char_code_range [of c] char_code_inj [of c "CHR '';''"] by auto
  moreover have "chunk_loop f buf (int (length p) + 1) (str @ [c]) =
      (if length (str @ [c]) + length d < 40 then Inr (13, int (length ((p @ [c]) @ d)) + 1, (str @ [c]) @ d) else Inl UndefinedBehaviour)"
    using Cons.IH [of "p @ [c]" f "str @ [c]"] Cons.prems f by (simp add: add.commute)
  ultimately show ?case using c f by (cases "length str \<ge> 40") simp_all
qed

section \<open>Properties\<close>

text \<open>C21: a header that is written by a response is read line by line as the same code and the same fields in order,
  wherever the text lies in the ring of the buffer, and the empty line and what follows are left in it.\<close>

theorem http_header_roundtrip:
  assumes "mFieldMappings (rsHeader r) = [HttpFieldMap]" "hh_rep (rsHeader r) fs" "fields_known fs" "mHeaderStr (rsHeader r) = []"
    "0 \<le> mResponseCode r" "mResponseCode r < 2 ^ 31" "mResponseCode r \<noteq> 100"
    and "holds (exBuffer x) (response_text (mResponseCode r) fs @ body)" "exRes x = HttpResponse_new" "length fs + 1 < fuel"
  shows "\<exists>r' y. rs_getHeader r = Inr (response_text (mResponseCode r) fs, r') \<and> ex_line_loop fuel True x = Inr (False, y) \<and>
    mResponseCode (exRes y) = mResponseCode r \<and> hh_rep (rsHeader (exRes y)) fs \<and> holds (exBuffer y) (CRLF @ body) \<and>
    exReads y = exReads x \<and> exBody y = exBody x"
proof -
  have m: "mFieldMappings (rsHeader (exRes x)) = [HttpFieldMap]" "hh_rep (rsHeader (exRes x)) []"
    using hh_rep_new by (simp_all add: assms(9) HttpResponse_new_def HttpHeader_new_def hh_addFieldMap_def HttpHeaderBase_new_def)
  have "length fs \<le> kMaxFields" using assms(2) by (simp add: hh_rep_def)
  then show ?thesis
    using rs_getHeader_text [OF assms(1-6)] ex_line_loop_response [OF assms(8,5,6,7,3) _ _ m, of fuel] assms(10) by auto
qed

definition sample_response :: http_response where
  "sample_response = HttpResponse_new\<lparr>mResponseCode := 404\<rparr>"

definition sample_exchange :: "string \<Rightarrow> reads \<Rightarrow> file_body exchange" where
  "sample_exchange s rs = \<lparr>exBuffer = buffer_of s, exReads = rs, exRes = HttpResponse_new, exBody = \<lparr>mStop = False, mFile = []\<rparr>\<rparr>"

theorem http_header_roundtrip_witness:
  "\<exists>r' y. rs_getHeader sample_response = Inr (response_text 404 [], r') \<and>
    ex_line_loop 2 True (sample_exchange (response_text 404 [] @ ''b'') []) = Inr (False, y) \<and>
    mResponseCode (exRes y) = 404 \<and> hh_rep (rsHeader (exRes y)) [] \<and> holds (exBuffer y) (CRLF @ ''b'') \<and>
    exReads y = [] \<and> exBody y = \<lparr>mStop = False, mFile = []\<rparr>"
proof -
  have "mFieldMappings (rsHeader sample_response) = [HttpFieldMap]" "mHeaderStr (rsHeader sample_response) = []"
      "hh_rep (rsHeader sample_response) []" "mResponseCode sample_response = 404"
    using hh_rep_new by (simp_all add: sample_response_def HttpResponse_new_def HttpHeader_new_def hh_addFieldMap_def HttpHeaderBase_new_def)
  moreover have "show_int 404 = ''404''" by code_simp
  then have "holds (buffer_of (response_text 404 [] @ ''b'')) (response_text 404 [] @ ''b'')"
    by (intro holds_buffer_of) (simp_all add: response_text_def status_line_def gResponseCodeList_def fields_text_def CRLF_def)
  ultimately show ?thesis
    using http_header_roundtrip [of sample_response "[]" "sample_exchange (response_text 404 [] @ ''b'') []" "''b''" 2]
    by (simp add: sample_exchange_def fields_known_def)
qed

text \<open>C22: let a response with a content length come into the empty buffer so that the first read gives the whole
  header and a part of the body, which may be empty, and the rest in pieces of at most the size of the array into which it
  is read; header, first part and buffer size fit together, so that nothing in the ring wraps, and the body is not
  empty. Then code and fields are those of the response and the file gets all of the body, in order. What is returned is
  no error for the codes 200 and 206 and \<open>kNotFound\<close> for all others when no piece came behind the first read;
  when pieces came it is the number of their bytes, not the code, which is compared with 200 and 206.\<close>

theorem ag_receives_body:
  assumes "cleared (exBuffer x)" "mBufferSize (exBuffer x) = kMaxMessageSize" "exRes x = HttpResponse_new"
    "exReads x = chunk_read (bytes_of (response_text code fs @ body)) # map chunk_read cs @ rs" "pieces_ok cs"
    "int (length (response_text code fs @ body)) \<le> kMaxMessageSize"
    "0 \<le> code" "code < 2 ^ 31" "code \<noteq> 100" "fields_known fs" "length fs \<le> kMaxFields" "length fs + 1 < fuel"
    "map_of fs kFieldContentLength = Some v" "to_int (strtol 0 v) = int (length body + length (concat cs))" "body \<noteq> [] \<or> cs \<noteq> []"
  shows "\<exists>y. ex_receive fuel (Some FileBodyHandler) x =
      Inr (if cs = [] \<and> (code = 200 \<or> code = 206) \<or> cs \<noteq> [] \<and> (length (concat cs) = 200 \<or> length (concat cs) = 206)
           then kNoError else kNotFound, y) \<and>
    mFile (exBody y) = mFile (exBody x) @ bytes_of body @ concat cs \<and> mStop (exBody y) \<and> exReads y = rs \<and>
    mResponseCode (exRes y) = code \<and> hh_rep (rsHeader (exRes y)) fs"
proof -
  have m: "mFieldMappings (rsHeader (exRes x)) = [HttpFieldMap]" "hh_rep (rsHeader (exRes x)) []"
    using hh_rep_new by (simp_all add: assms(3) HttpResponse_new_def HttpHeader_new_def hh_addFieldMap_def HttpHeaderBase_new_def)
  have "0 < length body + length (concat cs)" using assms(5,15) by (cases cs) (auto simp: pieces_ok_def)
  then show ?thesis
    using ex_receive_length [OF assms(1,4) _ assms(5,7-11) _ m assms(13,14), of fuel] assms(2,6,12) by (cases "cs = []") auto
qed

definition sample_agent :: "file_body exchange" where
  "sample_agent = \<lparr>exBuffer = HttpAgent_new (\<lambda>_. 0),
     exReads = [chunk_read (bytes_of (response_text 200 [(kFieldContentLength, ''5'')] @ ''ab'')), chunk_read [99, 100, 101]],
     exRes = HttpResponse_new, exBody = \<lparr>mStop = False, mFile = []\<rparr>\<rparr>"

theorem ag_receives_body_witness:
  "\<exists>y. ex_receive 3 (Some FileBodyHandler) sample_agent = Inr (kNotFound, y) \<and>
    mFile (exBody y) = [97, 98, 99, 100, 101] \<and> mStop (exBody y) \<and> exReads y = [] \<and>
    mResponseCode (exRes y) = 200 \<and> hh_rep (rsHeader (exRes y)) [(kFieldContentLength, ''5'')]"
proof -
  let ?fs = "[(kFieldContentLength, ''5'')]"
  have b: "cleared (exBuffer sample_agent)" "mBufferSize (exBuffer sample_agent) = kMaxMessageSize"
    using CircularBuffer_new_ok [of 2048 "\<lambda>_. 0"]
    by (simp_all add: sample_agent_def HttpAgent_new_def kMaxMessageSize_def cleared_def CircularBuffer_new_def)
  have f: "http_getFieldTypeString kFieldContentLength = Some ''Content-Length''" by code_simp
  have k: "fields_known ?fs" by (simp add: fields_known_def f data_ok_def value_ok_def)
  have "show_int 200 = ''200''" by code_simp
  then have n: "int (length (response_text 200 ?fs @ ''ab'')) \<le> kMaxMessageSize"
    by (simp add: response_text_def status_line_def gResponseCodeList_def fields_text_def line_text_def f CRLF_def kMaxMessageSize_def)
  have v: "to_int (strtol 0 ''5'') = 5" by code_simp
  show ?thesis
    using ag_receives_body [of sample_agent 200 ?fs "''ab''" "[[99, 100, 101]]" "[]" 3 "''5''"] b k n v
    by (simp add: sample_agent_def pieces_ok_def TEST_BUFFER_SIZE_def kMaxFields_def bytes_of_def)
qed

text \<open>a line that has no colon before the end of what is in the buffer is neither taken nor refused: the loop over the
  lines never ends.\<close>

theorem ag_bad_line_diverges:
  assumes "holds (exBuffer x) (a @ CRLF @ r)" "a \<noteq> []" "CHR 0x0D \<notin> set a" "CHR '':'' \<notin> set (a @ r)" "peek r \<noteq> 32" "peek r \<noteq> 9"
  shows "ex_line_loop fuel False x = Inl NoReturn"
proof -
  let ?s = "a @ CRLF @ r"
  have "CHR '':'' \<notin> set ?s" using assms(4) by (simp add: CRLF_def)
  then have "hh_parseLine h (exBuffer x) = Inr (-1, h)" for h
    using parseLine_at [OF assms(1)] parse_at_field [of "exBuffer x" "[]" ?s "[]"] parse_at_nil [of "exBuffer x" ?s] assms(1) by simp
  moreover have "x\<lparr>exRes := (exRes x)\<lparr>rsHeader := rsHeader (exRes x)\<rparr>\<rparr> = x" by simp
  moreover have "hh_searchForLine (exBuffer x) = Inr (int (length (a @ CRLF)))" by (rule search_line [OF assms(1,3,2,5,6)])
  ultimately show ?thesis
    by (induction fuel) (simp_all add: rs_parseLine_def Let_def CRLF_def)
qed

theorem ag_bad_line_diverges_witness:
  "ex_line_loop 1000000 False (sample_exchange (''oops'' @ CRLF @ CRLF) []) = Inl NoReturn"
proof -
  have "holds (buffer_of (''oops'' @ CRLF @ CRLF)) (''oops'' @ CRLF @ CRLF)" by (rule holds_buffer_of) (simp_all add: CRLF_def)
  then show ?thesis
    by (intro ag_bad_line_diverges [where a = "''oops''" and r = CRLF]) (simp_all add: sample_exchange_def CRLF_def)
qed

text \<open>the size of a chunk is read from at most 39 characters; a peer that sends more writes behind the array.\<close>

theorem ag_chunk_line:
  assumes "holds buf (d @ CRLF @ r)" "CHR 0x0D \<notin> set d" "CHR '';'' \<notin> set d"
  shows "parseChunkLine buf len =
    (if length d < 40 then Inr (int (length (d @ CRLF)), to_int (strtol 16 (c_str d))) else Inl UndefinedBehaviour)"
proof -
  let ?F = "Suc (Suc (nat (cb_getLength buf)))"
  have l: "cb_getLength buf = int (length (d @ CRLF @ r))" by (rule holds_length [OF assms(1)])
  have c: "chunk_loop ?F buf 0 [] = (if length d < 40 then Inr (13, int (length d) + 1, d) else Inl UndefinedBehaviour)"
    using chunk_loop_text [of buf "[]" d "CHR 0x0A # r" ?F "[]"] assms l by (simp add: CRLF_def)
  have b: "byte_is buf (int (length d) + 1) 10 = Inr True"
    using holds_byte_is [of buf "d @ [CHR 0x0D]" "CHR 0x0A # r" 10] assms(1) by (simp add: CRLF_def add.commute)
  have "cb_getLength buf \<noteq> 0" using l by (simp add: CRLF_def)
  then show ?thesis using c b by (simp add: parseChunkLine_def Let_def CRLF_def)
qed

theorem ag_chunk_line_witness:
  "parseChunkLine (buffer_of (''1f'' @ CRLF)) 0 = Inr (4, 31) \<and>
   parseChunkLine (buffer_of (replicate 40 (CHR ''0'') @ CRLF)) 0 = Inl UndefinedBehaviour"
proof -
  have "holds (buffer_of (''1f'' @ CRLF)) (''1f'' @ CRLF @ [])" using holds_buffer_of [of "''1f'' @ CRLF"] by (simp add: CRLF_def)
  moreover have "holds (buffer_of (replicate 40 (CHR ''0'') @ CRLF)) (replicate 40 (CHR ''0'') @ CRLF @ [])"
    using holds_buffer_of [of "replicate 40 (CHR ''0'') @ CRLF"] by (simp add: CRLF_def)
  moreover have "to_int (strtol 16 (c_str ''1f'')) = 31" by code_simp
  ultimately show ?thesis
    using ag_chunk_line [of "buffer_of (''1f'' @ CRLF)" "''1f''" "[]" 0] ag_chunk_line [of _ "replicate 40 (CHR ''0'')" "[]" 0]
    by (simp add: CRLF_def)
qed

end
