(* ===== verification/Path.thy ===== *)
theory Path
  imports JHStrings JHVector JetHead
begin

text \<open>
  Paths of files (src/Path.cpp, include/Path.h) and the function that splits a string into pieces
  (\<open>JetHead::split\<close> of include/jh_string.h). The code keeps positions in \<open>unsigned\<close>, of 32 bits, and compares
  them with \<open>npos\<close>, which is the greatest \<open>size_t\<close>: the width of \<open>size_t\<close> is an argument, 32 or 64. With 64, where
  the other theories place the program, \<open>split\<close> has no end, and neither has what calls it; the theorems
  say so and what it does with 32.
\<close>

section \<open>Positions\<close>

definition npos :: "nat \<Rightarrow> nat" where "npos w = 2 ^ w - 1"

text \<open>A position that was found, as \<open>unsigned\<close>.\<close>

definition as_unsigned :: "nat \<Rightarrow> nat option \<Rightarrow> nat" where
  "as_unsigned w r = unsig (case r of None \<Rightarrow> npos w | Some p \<Rightarrow> p)"

definition sub_unsigned :: "nat \<Rightarrow> nat \<Rightarrow> nat" where
  "sub_unsigned a b = unsig (a + 2 ^ 32 - b)"

definition find_first_of :: "string \<Rightarrow> string \<Rightarrow> nat \<Rightarrow> nat option" where
  "find_first_of chars s pos = List.find (\<lambda>j. s ! j \<in> set chars) [pos..<length s]"

text \<open>The last position at which one character stands.\<close>

definition rfind_char :: "char \<Rightarrow> string \<Rightarrow> nat option" where
  "rfind_char c s = List.find (\<lambda>j. s ! j = c) (rev [0..<length s])"

section \<open>Splitting\<close>

fun split_skip :: "nat \<Rightarrow> nat \<Rightarrow> string \<Rightarrow> string \<Rightarrow> nat \<Rightarrow> nat \<Rightarrow> (nat \<times> nat) outcome" where
  "split_skip w 0 s chars start pos = Inl NoReturn"
| "split_skip w (Suc fuel) s chars start pos =
     (if pos = start
      then let start = unsig (pos + 1) in split_skip w fuel s chars start (as_unsigned w (find_first_of chars s start))
      else Inr (start, pos))"

fun split_loop :: "nat \<Rightarrow> nat \<Rightarrow> string \<Rightarrow> string \<Rightarrow> nat \<Rightarrow> nat \<Rightarrow> string jvec \<Rightarrow> (nat \<times> nat \<times> string jvec) outcome" where
  "split_loop w 0 s chars start pos parts = Inl NoReturn"
| "split_loop w (Suc fuel) s chars start pos parts =
     (if pos \<noteq> npos w
      then andThen (str_substr s start (Some (sub_unsigned pos start))) (\<lambda>x.
           andThen (vec_push_back parts x) (\<lambda>parts.
           let start = unsig (pos + 1) in
           andThen (split_skip w (Suc (length s)) s chars start (as_unsigned w (find_first_of chars s start))) (\<lambda>(start, pos).
           split_loop w fuel s chars start pos parts)))
      else Inr (start, pos, parts))"

definition jh_split :: "nat \<Rightarrow> nat \<Rightarrow> string \<Rightarrow> string \<Rightarrow> string jvec \<Rightarrow> (nat \<times> string jvec) outcome" where
  "jh_split w fuel s chars parts =
     andThen (split_loop w fuel s chars 0 (as_unsigned w (find_first_of chars s 0)) parts) (\<lambda>(start, pos, parts).
     andThen (str_substr s start (Some (sub_unsigned pos start))) (\<lambda>x.
     andThen (vec_push_back parts x) (\<lambda>parts. Inr (mSize parts, parts))))"

declare split_skip.simps [simp del] split_loop.simps [simp del]

section \<open>Paths\<close>

text \<open>A path is its string, \<open>mPath\<close>.\<close>

definition PATH_SEPERATOR :: char where "PATH_SEPERATOR = CHR ''/''"

text \<open>The last character of an empty string is looked for in front of it.\<close>

definition path_append :: "string \<Rightarrow> string \<Rightarrow> string outcome" where
  "path_append p s =
     (if p = [] then Inl UndefinedBehaviour
      else Inr ((if last p \<noteq> PATH_SEPERATOR then p @ [PATH_SEPERATOR] else p) @ s))"

text \<open>The first character of an empty string is the NUL behind it.\<close>

definition path_isRelative :: "string \<Rightarrow> bool" where
  "path_isRelative p \<longleftrightarrow> \<not> (p \<noteq> [] \<and> hd p = PATH_SEPERATOR)"

definition path_makeAbsolute :: "string \<Rightarrow> string \<Rightarrow> string outcome" where
  "path_makeAbsolute cwd p = path_append cwd p"

fun normal_loop :: "nat \<Rightarrow> string jvec \<Rightarrow> nat \<Rightarrow> bool \<Rightarrow> string jvec \<Rightarrow> string jvec outcome" where
  "normal_loop 0 parts i start parts2 = Inl NoReturn"
| "normal_loop (Suc fuel) parts i start parts2 =
     (if i < mSize parts
      then andThen (vec_at parts i) (\<lambda>x.
           if x = ''..''
           then andThen (if \<not> start then vec_erase parts2 (sub_unsigned (mSize parts2) 1) else vec_push_back parts2 x) (\<lambda>parts2.
                normal_loop fuel parts (Suc i) start parts2)
           else if x \<noteq> ''.'' \<and> x \<noteq> []
           then andThen (vec_push_back parts2 x) (\<lambda>parts2. normal_loop fuel parts (Suc i) False parts2)
           else normal_loop fuel parts (Suc i) start parts2)
      else Inr parts2)"

fun join_loop :: "nat \<Rightarrow> string jvec \<Rightarrow> nat \<Rightarrow> string \<Rightarrow> string outcome" where
  "join_loop 0 parts i p = Inl NoReturn"
| "join_loop (Suc fuel) parts i p =
     (if i < sub_unsigned (mSize parts) 1
      then andThen (vec_at parts i) (\<lambda>x. join_loop fuel parts (Suc i) (p @ x @ [PATH_SEPERATOR]))
      else Inr p)"

definition path_normalize :: "nat \<Rightarrow> nat \<Rightarrow> string \<Rightarrow> string outcome" where
  "path_normalize w fuel p =
     andThen (jh_split w fuel p ''/'' vec_new) (\<lambda>(_, parts).
     andThen (normal_loop (Suc (mSize parts)) parts 0 True vec_new) (\<lambda>parts2.
     let p = (if \<not> path_isRelative p then [PATH_SEPERATOR] else []) in
     andThen (join_loop (Suc (mSize parts2)) parts2 0 p) (\<lambda>p.
     andThen (vec_at parts2 (sub_unsigned (mSize parts2) 1)) (\<lambda>x. Inr (p @ x)))))"

definition path_parent :: "nat \<Rightarrow> nat \<Rightarrow> string \<Rightarrow> string outcome" where
  "path_parent w fuel p =
     andThen (path_normalize w fuel p) (\<lambda>p.
     let pos = as_unsigned w (rfind_char (CHR ''/'') p) in
     if pos = npos w then Inr ''.'' else str_substr p 0 (Some (unsig (pos + 1))))"

definition path_filename :: "nat \<Rightarrow> nat \<Rightarrow> string \<Rightarrow> string outcome" where
  "path_filename w fuel p =
     andThen (path_normalize w fuel p) (\<lambda>p.
     let pos = as_unsigned w (rfind_char (CHR ''/'') p) in
     if pos = npos w then Inr p else str_substr p (unsig (pos + 1)) None)"

definition path_fileBasename :: "nat \<Rightarrow> nat \<Rightarrow> string \<Rightarrow> string outcome" where
  "path_fileBasename w fuel p =
     andThen (path_filename w fuel p) (\<lambda>f.
     let pos = as_unsigned w (rfind_char (CHR ''.'') f) in
     if pos = npos w then Inr f else str_substr f 0 (Some pos))"

definition path_filenameExtention :: "nat \<Rightarrow> nat \<Rightarrow> string \<Rightarrow> string outcome" where
  "path_filenameExtention w fuel p =
     andThen (path_filename w fuel p) (\<lambda>f.
     let pos = as_unsigned w (rfind_char (CHR ''.'') f) in
     if pos = npos w then Inr [] else str_substr f (unsig (pos + 1)) None)"

section \<open>Files\<close>

text \<open>
  The calls of the system are the environment, on a state of the file system: a result and \<open>errno\<close>.
  \<open>stat\<close> gives the mode and the size. Opening with creation is \<open>File::open\<close>.
\<close>

record 'w system =
  sysStat :: "'w \<Rightarrow> string \<Rightarrow> (nat \<times> int) option"
  sysUtime :: "string \<Rightarrow> 'w \<Rightarrow> int \<times> int \<times> 'w"
  sysRmdir :: "string \<Rightarrow> 'w \<Rightarrow> int \<times> int \<times> 'w"
  sysUnlink :: "string \<Rightarrow> 'w \<Rightarrow> int \<times> int \<times> 'w"
  sysMkdir :: "string \<Rightarrow> 'w \<Rightarrow> int \<times> int \<times> 'w"
  sysRename :: "string \<Rightarrow> string \<Rightarrow> 'w \<Rightarrow> int \<times> int \<times> 'w"
  sysOpen :: "string \<Rightarrow> 'w \<Rightarrow> err_code \<times> 'w"

definition S_IFREG :: nat where "S_IFREG = 0x8000"
definition S_IFDIR :: nat where "S_IFDIR = 0x4000"

text \<open>The bits of the mode that are tested.\<close>

definition mode_has :: "nat \<Rightarrow> nat \<Rightarrow> bool" where
  "mode_has mode flag \<longleftrightarrow> mode div flag mod 2 = 1"

definition path_isFile :: "'w system \<Rightarrow> 'w \<Rightarrow> string \<Rightarrow> bool" where
  "path_isFile sys w p = (case sysStat sys w (c_str p) of None \<Rightarrow> False | Some (mode, n) \<Rightarrow> mode_has mode S_IFREG)"

definition path_isDir :: "'w system \<Rightarrow> 'w \<Rightarrow> string \<Rightarrow> bool" where
  "path_isDir sys w p = (case sysStat sys w (c_str p) of None \<Rightarrow> False | Some (mode, n) \<Rightarrow> mode_has mode S_IFDIR)"

definition path_exists :: "'w system \<Rightarrow> 'w \<Rightarrow> string \<Rightarrow> bool" where
  "path_exists sys w p = (sysStat sys w (c_str p) \<noteq> None)"

definition path_length :: "'w system \<Rightarrow> 'w \<Rightarrow> string \<Rightarrow> int" where
  "path_length sys w p = (case sysStat sys w (c_str p) of None \<Rightarrow> -1 | Some (mode, n) \<Rightarrow> n)"

definition sys_result :: "int \<times> int \<times> 'w \<Rightarrow> err_code \<times> 'w" where
  "sys_result r = (case r of (res, errno, w) \<Rightarrow> (if res \<noteq> 0 then getErrorCode errno errno else kNoError, w))"

definition path_touch :: "'w system \<Rightarrow> 'w \<Rightarrow> string \<Rightarrow> err_code \<times> 'w" where
  "path_touch sys w p = (if path_isFile sys w p then sys_result (sysUtime sys (c_str p) w) else sysOpen sys (c_str p) w)"

definition path_remove :: "'w system \<Rightarrow> 'w \<Rightarrow> string \<Rightarrow> err_code \<times> 'w" where
  "path_remove sys w p =
     sys_result (if path_isDir sys w p then sysRmdir sys (c_str p) w else sysUnlink sys (c_str p) w)"

definition path_rename :: "'w system \<Rightarrow> 'w \<Rightarrow> string \<Rightarrow> string \<Rightarrow> err_code \<times> 'w" where
  "path_rename sys w p q = sys_result (sysRename sys (c_str p) (c_str q) w)"

definition path_mkdir :: "'w system \<Rightarrow> 'w \<Rightarrow> string \<Rightarrow> err_code \<times> 'w" where
  "path_mkdir sys w p = sys_result (sysMkdir sys (c_str p) w)"

fun mkdirs_loop :: "nat \<Rightarrow> 'w system \<Rightarrow> string jvec \<Rightarrow> nat \<Rightarrow> string \<Rightarrow> 'w \<Rightarrow> (err_code \<times> 'w) outcome" where
  "mkdirs_loop 0 sys parts i p w = Inl NoReturn"
| "mkdirs_loop (Suc fuel) sys parts i p w =
     (if i < mSize parts
      then let (err, w) = (if \<not> path_exists sys w p then path_mkdir sys w p else (kNoError, w)) in
           if err \<noteq> kNoError then Inr (err, w)
           else andThen (vec_at parts i) (\<lambda>x. andThen (path_append p x) (\<lambda>p. mkdirs_loop fuel sys parts (Suc i) p w))
      else Inr (kNoError, w))"

definition path_mkdirs :: "nat \<Rightarrow> nat \<Rightarrow> 'w system \<Rightarrow> 'w \<Rightarrow> string \<Rightarrow> (err_code \<times> 'w) outcome" where
  "path_mkdirs width fuel sys w p =
     andThen (jh_split width fuel p ''/'' vec_new) (\<lambda>(_, parts).
     andThen (vec_at parts 0) (\<lambda>p. mkdirs_loop (Suc (mSize parts)) sys parts 1 p w))"

section \<open>What splitting gives\<close>

text \<open>The pieces between runs of separators.\<close>

definition piece :: "string \<Rightarrow> string \<Rightarrow> string" where
  "piece chars s = takeWhile (\<lambda>c. c \<notin> set chars) s"

definition behind_run :: "string \<Rightarrow> string \<Rightarrow> string" where
  "behind_run chars s = dropWhile (\<lambda>c. c \<in> set chars) (dropWhile (\<lambda>c. c \<notin> set chars) s)"

lemma behind_run_shorter: "\<exists>c \<in> set s. c \<in> set chars \<Longrightarrow> length (behind_run chars s) < length s"
proof -
  assume "\<exists>c \<in> set s. c \<in> set chars"
  then obtain a r where a: "dropWhile (\<lambda>c. c \<notin> set chars) s = a # r" "a \<in> set chars"
    by (cases "dropWhile (\<lambda>c. c \<notin> set chars) s") (auto simp: dropWhile_eq_Nil_conv dropWhile_eq_Cons_conv)
  then have "length (behind_run chars s) \<le> length r" using length_dropWhile_le [of "\<lambda>c. c \<in> set chars" r] by (simp add: behind_run_def)
  also have "length r < length s" using length_dropWhile_le [of "\<lambda>c. c \<notin> set chars" s] a(1) by simp
  finally show ?thesis .
qed

function split_spec :: "string \<Rightarrow> string \<Rightarrow> string list" where
  "split_spec chars s = piece chars s # (if \<exists>c \<in> set s. c \<in> set chars then split_spec chars (behind_run chars s) else [])"
  by auto
termination by (relation "measure (\<lambda>(chars, s). length s)") (use behind_run_shorter in auto)

declare split_spec.simps [simp del]

text \<open>A position in terms of the rest of the string.\<close>

lemma find_first_of_rest:
  assumes "start \<le> length s"
  shows "find_first_of chars s start =
    (if \<exists>c \<in> set (drop start s). c \<in> set chars then Some (start + length (piece chars (drop start s))) else None)"
proof (cases "\<exists>c \<in> set (drop start s). c \<in> set chars")
  case True
  let ?r = "drop start s"
  let ?k = "length (piece chars ?r)"
  obtain a t where a: "dropWhile (\<lambda>c. c \<notin> set chars) ?r = a # t" "a \<in> set chars"
    using True by (cases "dropWhile (\<lambda>c. c \<notin> set chars) ?r") (auto simp: dropWhile_eq_Nil_conv dropWhile_eq_Cons_conv)
  then have r: "?r = piece chars ?r @ a # t" by (metis piece_def takeWhile_dropWhile_id)
  then have k: "?k < length ?r" by (metis length_append less_add_same_cancel1 length_greater_0_conv list.distinct(1))
  have n: "s ! (start + i) = ?r ! i" for i using assms by simp
  have at: "?r ! ?k \<in> set chars" using r a(2) by (metis nth_append_length)
  have before: "?r ! i \<notin> set chars" if "i < ?k" for i
    using that unfolding piece_def by (metis nth_mem set_takeWhileD takeWhile_nth)
  have "find_first_of chars s start = Some (start + ?k)" unfolding find_first_of_def
  proof (rule find_least)
    show "\<forall>j. start \<le> j \<and> j < start + ?k \<longrightarrow> s ! j \<notin> set chars"
    proof (intro allI impI)
      fix j assume "start \<le> j \<and> j < start + ?k"
      then obtain i where "j = start + i" "i < ?k" by (metis add_less_cancel_left le_Suc_ex)
      then show "s ! j \<notin> set chars" using n before by simp
    qed
    show "start \<le> start + ?k" "start + ?k < length s" using k by simp_all
    show "s ! (start + ?k) \<in> set chars" using at n by simp
  qed
  then show ?thesis using True by simp
next
  case False
  have "find_first_of chars s start = None"
    unfolding find_first_of_def find_None_iff
  proof
    assume "\<exists>j. j \<in> set [start..<length s] \<and> s ! j \<in> set chars"
    then obtain j where "start \<le> j" "j < length s" "s ! j \<in> set chars" by auto
    then have "s ! j = drop start s ! (j - start)" "j - start < length (drop start s)" by simp_all
    then have "s ! j \<in> set (drop start s)" by (metis nth_mem)
    then show False using False \<open>s ! j \<in> set chars\<close> by blast
  qed
  then show ?thesis using False by simp
qed

lemma as_unsigned_32: "(\<forall>p. r = Some p \<longrightarrow> p < 2 ^ 31) \<Longrightarrow> as_unsigned 32 r = (case r of None \<Rightarrow> npos 32 | Some p \<Rightarrow> p)"
  by (cases r) (simp_all add: as_unsigned_def unsig_def npos_def)

lemma find_first_of_32:
  assumes "start \<le> length s" "length s < 2 ^ 31"
  shows "as_unsigned 32 (find_first_of chars s start) =
    (if \<exists>c \<in> set (drop start s). c \<in> set chars then start + length (piece chars (drop start s)) else npos 32)"
proof (cases "\<exists>c \<in> set (drop start s). c \<in> set chars")
  case True
  have "length (piece chars (drop start s)) \<le> length (drop start s)" unfolding piece_def by (rule length_takeWhile_le)
  then have "start + length (piece chars (drop start s)) < 2 ^ 31" using assms by simp
  then show ?thesis using True find_first_of_rest [OF assms(1), of chars] by (simp add: as_unsigned_32)
qed (use find_first_of_rest [OF assms(1), of chars] in \<open>simp add: as_unsigned_32\<close>)

text \<open>The search over a run of separators.\<close>

lemma split_skip_run:
  assumes "length s < 2 ^ 31"
  shows "start \<le> length s \<Longrightarrow> length s - start < fuel \<Longrightarrow> pos = as_unsigned 32 (find_first_of chars s start) \<Longrightarrow>
    \<exists>start'. split_skip 32 fuel s chars start pos = Inr (start', as_unsigned 32 (find_first_of chars s start')) \<and>
      start' \<le> length s \<and> drop start' s = dropWhile (\<lambda>c. c \<in> set chars) (drop start s)"
proof (induction fuel arbitrary: start pos)
  case (Suc fuel)
  show ?case
  proof (cases "pos = start")
    case True
    have ne: "npos 32 \<noteq> start" using Suc.prems(1) assms by (simp add: npos_def)
    then have e: "\<exists>c \<in> set (drop start s). c \<in> set chars" "piece chars (drop start s) = []"
      using Suc.prems(3) True find_first_of_32 [OF Suc.prems(1) assms, of chars] by (auto split: if_splits)
    then obtain a r where a: "drop start s = a # r" "a \<in> set chars"
      by (cases "drop start s") (auto simp: piece_def split: if_splits)
    then have l: "start < length s" by (metis drop_all leI list.distinct(1))
    have d: "drop (Suc start) s = r" using a(1) by (metis drop_Suc list.sel(3) tl_drop)
    have u: "unsig (start + 1) = Suc start" using l assms by (simp add: unsig_def)
    have f: "length s - Suc start < fuel" using l Suc.prems(2) by arith
    obtain start' where "split_skip 32 fuel s chars (Suc start) (as_unsigned 32 (find_first_of chars s (Suc start))) =
        Inr (start', as_unsigned 32 (find_first_of chars s start'))" "start' \<le> length s"
        "drop start' s = dropWhile (\<lambda>c. c \<in> set chars) (drop (Suc start) s)"
      using Suc.IH [OF _ f refl] l by auto
    then show ?thesis using True u a d by (auto simp: split_skip.simps(2) Let_def)
  next
    case False
    have "dropWhile (\<lambda>c. c \<in> set chars) (drop start s) = drop start s"
    proof (cases "drop start s")
      case (Cons a r)
      have "a \<notin> set chars"
      proof
        assume "a \<in> set chars"
        then have "pos = start" using Suc.prems(3) find_first_of_32 [OF Suc.prems(1) assms, of chars] Cons by (auto simp: piece_def)
        then show False using False by simp
      qed
      then show ?thesis using Cons by simp
    qed simp
    then show ?thesis using False Suc.prems by (auto simp: split_skip.simps(2))
  qed
qed simp

lemma substr_piece:
  assumes "start \<le> length s" "length s < 2 ^ 31"
  shows "str_substr s start (Some (sub_unsigned (as_unsigned 32 (find_first_of chars s start)) start)) = Inr (piece chars (drop start s))"
proof (cases "\<exists>c \<in> set (drop start s). c \<in> set chars")
  case True
  let ?k = "length (piece chars (drop start s))"
  have "?k \<le> length (drop start s)" unfolding piece_def by (rule length_takeWhile_le)
  then have "sub_unsigned (start + ?k) start = ?k" using assms by (simp add: sub_unsigned_def unsig_def)
  then show ?thesis using True find_first_of_32 [OF assms] assms(1)
    by (simp add: str_substr_def) (metis piece_def takeWhile_eq_take)
next
  case False
  have "npos 32 + 2 ^ 32 - start = (2 ^ 32 - 1 - start) + 2 ^ 32" using assms by (simp add: npos_def)
  moreover have "(2 ^ 32 - 1 - start) mod 2 ^ 32 = (2 ^ 32 - 1 - start :: nat)" by (rule mod_less) simp
  ultimately have "sub_unsigned (npos 32) start = 2 ^ 32 - 1 - start"
    unfolding sub_unsigned_def unsig_def by (simp only: mod_add_self2)
  moreover have "length s - start \<le> 2 ^ 32 - 1 - start" using assms(2) by simp
  moreover have "piece chars (drop start s) = drop start s" using False by (auto simp: piece_def takeWhile_eq_all_conv)
  ultimately show ?thesis using False find_first_of_32 [OF assms] assms(1) by (simp add: str_substr_def)
qed

definition split_end :: "string \<Rightarrow> nat \<times> nat \<times> string jvec \<Rightarrow> (nat \<times> string jvec) outcome" where
  "split_end s = (\<lambda>(start, pos, parts). andThen (str_substr s start (Some (sub_unsigned pos start))) (\<lambda>x.
     andThen (vec_push_back parts x) (\<lambda>parts. Inr (mSize parts, parts))))"

lemma split_loop_spec:
  assumes "length s < 2 ^ 31"
  shows "start \<le> length s \<Longrightarrow> vec_rep parts xs \<Longrightarrow> length xs + length (drop start s) + 1 < 2 ^ 31 \<Longrightarrow> length (drop start s) < fuel \<Longrightarrow>
    \<exists>ps. andThen (split_loop 32 fuel s chars start (as_unsigned 32 (find_first_of chars s start)) parts) (split_end s) =
      Inr (length (xs @ split_spec chars (drop start s)), ps) \<and> vec_rep ps (xs @ split_spec chars (drop start s))"
proof (induction fuel arbitrary: start parts xs)
  case (Suc fuel)
  let ?r = "drop start s" and ?pos = "as_unsigned 32 (find_first_of chars s start)"
  let ?p = "piece chars ?r"
  have l: "length xs < 2 ^ 31" using Suc.prems(3) by simp
  obtain ps where ps: "vec_push_back parts ?p = Inr ps" "vec_rep ps (xs @ [?p])"
    using vec_push_back_rep [OF Suc.prems(2), of ?p] l by auto
  note sub = substr_piece [OF Suc.prems(1) assms, of chars]
  show ?case
  proof (cases "\<exists>c \<in> set ?r. c \<in> set chars")
    case False
    then have "?pos = npos 32" using find_first_of_32 [OF Suc.prems(1) assms, of chars] by simp
    moreover have "split_spec chars ?r = [?p]" using False by (subst split_spec.simps) auto
    moreover have "mSize ps = length (xs @ [?p])" using vec.size_law [OF ps(2)] .
    ultimately show ?thesis using sub ps by (simp add: split_loop.simps(2) split_end_def)
  next
    case True
    have k: "?pos = start + length ?p" using find_first_of_32 [OF Suc.prems(1) assms, of chars] True by simp
    obtain a t where a: "dropWhile (\<lambda>c. c \<notin> set chars) ?r = a # t" "a \<in> set chars"
      using True by (cases "dropWhile (\<lambda>c. c \<notin> set chars) ?r") (auto simp: dropWhile_eq_Nil_conv dropWhile_eq_Cons_conv)
    then have r: "?r = ?p @ a # t" by (metis piece_def takeWhile_dropWhile_id)
    then have lr: "length ?r = length ?p + Suc (length t)" by (metis length_Cons length_append)
    then have st: "Suc ?pos \<le> length s" "?pos < 2 ^ 31" "drop (Suc ?pos) s = t"
      using k assms Suc.prems(1) r by (simp_all) (metis add.commute append_eq_conv_conj drop_Suc drop_drop list.sel(3) tl_drop)
    then have u: "unsig (?pos + 1) = Suc ?pos" "?pos \<noteq> npos 32" by (simp_all add: unsig_def npos_def)
    have fl: "length s - Suc ?pos < Suc (length s)" by (rule le_imp_less_Suc) (rule diff_le_self)
    obtain st' where st': "split_skip 32 (Suc (length s)) s chars (Suc ?pos) (as_unsigned 32 (find_first_of chars s (Suc ?pos))) =
        Inr (st', as_unsigned 32 (find_first_of chars s st'))" "st' \<le> length s"
        "drop st' s = dropWhile (\<lambda>c. c \<in> set chars) t"
      using split_skip_run [OF assms st(1) fl refl] unfolding st(3) by blast
    have b: "drop st' s = behind_run chars ?r" using st'(3) a by (simp add: behind_run_def)
    have lb: "length (drop st' s) < length ?r" unfolding b by (rule behind_run_shorter [OF True])
    have "length (xs @ [?p]) = length xs + 1" by simp
    then have l1: "length (xs @ [?p]) + length (drop st' s) + 1 < 2 ^ 31" using lb Suc.prems(3) by linarith
    have l2: "length (drop st' s) < fuel" using lb Suc.prems(4) by linarith
    obtain qs where "andThen (split_loop 32 fuel s chars st' (as_unsigned 32 (find_first_of chars s st')) ps) (split_end s) =
        Inr (length ((xs @ [?p]) @ split_spec chars (drop st' s)), qs)" "vec_rep qs ((xs @ [?p]) @ split_spec chars (drop st' s))"
      using Suc.IH [OF st'(2) ps(2) l1 l2] by blast
    moreover have "split_spec chars ?r = ?p # split_spec chars (drop st' s)" unfolding b using True by (subst split_spec.simps) simp
    ultimately show ?thesis using sub ps(1) u st'(1) by (auto simp: split_loop.simps(2) [of _ fuel] Let_def)
  qed
qed simp

lemma jh_split_spec:
  assumes "length s < 2 ^ 30" "vec_rep parts xs" "length xs < 2 ^ 30" "length s < fuel"
  shows "\<exists>ps. jh_split 32 fuel s chars parts = Inr (length (xs @ split_spec chars s), ps) \<and> vec_rep ps (xs @ split_spec chars s)"
proof -
  have "jh_split 32 fuel s chars parts = andThen (split_loop 32 fuel s chars 0 (as_unsigned 32 (find_first_of chars s 0)) parts) (split_end s)"
    by (simp add: jh_split_def split_end_def)
  then show ?thesis using split_loop_spec [of s 0 parts xs fuel chars] assms by simp
qed

text \<open>More rounds give the same result.\<close>

lemma split_loop_mono: "split_loop w fuel s chars start pos parts = Inr r \<Longrightarrow> split_loop w (fuel + k) s chars start pos parts = Inr r"
proof (induction fuel arbitrary: start pos parts)
  case (Suc fuel)
  show ?case
  proof (cases "pos = npos w")
    case True
    then show ?thesis using Suc.prems by (simp add: split_loop.simps(2))
  next
    case False
    obtain x ps st' pos' where "str_substr s start (Some (sub_unsigned pos start)) = Inr x" "vec_push_back parts x = Inr ps"
      "split_skip w (Suc (length s)) s chars (unsig (pos + 1)) (as_unsigned w (find_first_of chars s (unsig (pos + 1)))) = Inr (st', pos')"
      "split_loop w fuel s chars st' pos' ps = Inr r"
      using Suc.prems False by (auto simp: split_loop.simps(2) Let_def andThen_Inr_iff)
    then show ?thesis using Suc.IH [of st' pos' ps] False by (simp add: split_loop.simps(2) [of _ "fuel + k"] Let_def)
  qed
qed (simp add: split_loop.simps(1))

lemma jh_split_mono: "jh_split w fuel s chars parts = Inr r \<Longrightarrow> jh_split w (fuel + k) s chars parts = Inr r"
  using split_loop_mono [of w fuel s chars 0 _ parts _ k] by (auto simp: jh_split_def andThen_Inr_iff)

text \<open>With 64 bits the loop has no end: what it compares with \<open>npos\<close> is less than that.\<close>

lemma as_unsigned_less: "as_unsigned w r < 2 ^ 32"
  by (simp add: as_unsigned_def unsig_def)

lemma split_skip_less: "split_skip w fuel s chars start pos = Inr (start', pos') \<Longrightarrow> pos < 2 ^ 32 \<Longrightarrow> pos' < 2 ^ 32"
proof (induction fuel arbitrary: start pos)
  case (Suc fuel)
  then show ?case using as_unsigned_less by (auto simp: split_skip.simps(2) Let_def split: if_splits)
qed (simp add: split_skip.simps(1))

lemma split_loop_64: "pos < 2 ^ 32 \<Longrightarrow> \<exists>e. split_loop 64 fuel s chars start pos parts = Inl e"
proof (induction fuel arbitrary: start pos parts)
  case (Suc fuel)
  then have n: "pos \<noteq> npos 64" by (simp add: npos_def)
  show ?case
  proof (cases "split_loop 64 (Suc fuel) s chars start pos parts")
    case (Inr r)
    then obtain ps st' pos' where l: "split_skip 64 (Suc (length s)) s chars (unsig (pos + 1)) (as_unsigned 64 (find_first_of chars s (unsig (pos + 1)))) = Inr (st', pos')"
      "split_loop 64 fuel s chars st' pos' ps = Inr r"
      using n by (auto simp: split_loop.simps(2) Let_def andThen_Inr_iff)
    have "pos' < 2 ^ 32" by (rule split_skip_less [OF l(1) as_unsigned_less])
    then have False using Suc.IH [of pos' st' ps] l(2) by simp
    then show ?thesis ..
  qed simp
qed (simp add: split_loop.simps(1))

section \<open>Normal paths\<close>

fun normal_spec :: "bool \<Rightarrow> string list \<Rightarrow> string list \<Rightarrow> string list option" where
  "normal_spec start acc [] = Some acc"
| "normal_spec start acc (x # xs) =
     (if x = ''..''
      then if start then normal_spec start (acc @ [x]) xs
           else if acc = [] then None else normal_spec start (butlast acc) xs
      else if x \<noteq> ''.'' \<and> x \<noteq> [] then normal_spec False (acc @ [x]) xs
      else normal_spec start acc xs)"

lemma vec_drop_last:
  assumes "vec_rep v xs" "length xs < 2 ^ 31"
  shows "xs \<noteq> [] \<Longrightarrow> \<exists>v'. vec_erase v (sub_unsigned (mSize v) 1) = Inr v' \<and> vec_rep v' (butlast xs)"
    "xs = [] \<Longrightarrow> vec_erase v (sub_unsigned (mSize v) 1) = Inl Fatal"
    "xs \<noteq> [] \<Longrightarrow> vec_at v (sub_unsigned (mSize v) 1) = Inr (last xs)"
    "xs = [] \<Longrightarrow> vec_at v (sub_unsigned (mSize v) 1) = Inl UndefinedBehaviour"
    "xs \<noteq> [] \<Longrightarrow> sub_unsigned (mSize v) 1 = length xs - 1"
proof -
  have n: "mSize v = length xs" by (rule vec.size_law [OF assms(1)])
  have e: "xs \<noteq> [] \<Longrightarrow> sub_unsigned (mSize v) 1 = length xs - 1"
  proof -
    assume "xs \<noteq> []"
    then obtain k where k: "length xs = Suc k" by (cases xs) auto
    then have "sub_unsigned (mSize v) 1 = (k + 2 ^ 32) mod 2 ^ 32" using n by (simp add: sub_unsigned_def unsig_def)
    also have "\<dots> = k" using assms(2) k by (simp only: mod_add_self2) simp
    finally show ?thesis using k by simp
  qed
  show "xs \<noteq> [] \<Longrightarrow> sub_unsigned (mSize v) 1 = length xs - 1" by (rule e)
  show "xs \<noteq> [] \<Longrightarrow> \<exists>v'. vec_erase v (sub_unsigned (mSize v) 1) = Inr v' \<and> vec_rep v' (butlast xs)"
    using vec_erase_rep [OF assms(1), of "length xs - 1"] e by (simp add: butlast_conv_take)
  show "xs \<noteq> [] \<Longrightarrow> vec_at v (sub_unsigned (mSize v) 1) = Inr (last xs)"
    using vec_at_rep [OF assms(1), of "length xs - 1"] e by (simp add: last_conv_nth)
  show "xs = [] \<Longrightarrow> vec_erase v (sub_unsigned (mSize v) 1) = Inl Fatal" using n by (simp add: vec_erase_def)
  show "xs = [] \<Longrightarrow> vec_at v (sub_unsigned (mSize v) 1) = Inl UndefinedBehaviour" using n by (simp add: vec_at_def)
qed

lemma normal_loop_spec:
  assumes "vec_rep parts xs"
  shows "i \<le> length xs \<Longrightarrow> length xs - i < fuel \<Longrightarrow> vec_rep v acc \<Longrightarrow> length acc + (length xs - i) < 2 ^ 31 \<Longrightarrow>
    (case normal_spec start acc (drop i xs) of
       None \<Rightarrow> normal_loop fuel parts i start v = Inl Fatal
     | Some ys \<Rightarrow> \<exists>v'. normal_loop fuel parts i start v = Inr v' \<and> vec_rep v' ys)"
proof (induction fuel arbitrary: i start v acc)
  case (Suc fuel)
  have n: "mSize parts = length xs" by (rule vec.size_law [OF assms])
  show ?case
  proof (cases "i < length xs")
    case False
    then show ?thesis using Suc.prems n by auto
  next
    case True
    define x where "x = xs ! i"
    have x: "vec_at parts i = Inr x" using vec_at_rep [OF assms, of i] True by (simp add: x_def)
    have d: "drop i xs = x # drop (Suc i) xs" using True by (simp add: x_def Cons_nth_drop_Suc)
    have f: "Suc i \<le> length xs" "length xs - Suc i < fuel" "length acc < 2 ^ 31" using True Suc.prems by simp_all
    have step: "vec_rep v' acc' \<Longrightarrow> length acc' \<le> Suc (length acc) \<Longrightarrow>
        (case normal_spec st acc' (drop (Suc i) xs) of
           None \<Rightarrow> normal_loop fuel parts (Suc i) st v' = Inl Fatal
         | Some ys \<Rightarrow> \<exists>w. normal_loop fuel parts (Suc i) st v' = Inr w \<and> vec_rep w ys)" for v' acc' st
      using Suc.IH [OF f(1,2), of v' acc' st] Suc.prems(4) True by simp
    obtain v1 where v1: "vec_push_back v x = Inr v1" "vec_rep v1 (acc @ [x])" using vec_push_back_rep [OF Suc.prems(3) f(3)] by blast
    consider "x = ''..''" "start" | "x = ''..''" "\<not> start" "acc = []" | "x = ''..''" "\<not> start" "acc \<noteq> []"
      | "x \<noteq> ''..''" "x \<noteq> ''.'' \<and> x \<noteq> []" | "x = ''.'' \<or> x = []" by blast
    then show ?thesis
    proof cases
      case 1
      then have "normal_loop (Suc fuel) parts i start v = normal_loop fuel parts (Suc i) start v1"
        "normal_spec start acc (drop i xs) = normal_spec start (acc @ [x]) (drop (Suc i) xs)"
        using v1(1) x n True d by simp_all
      then show ?thesis using step [OF v1(2), of start] by (simp only:) simp
    next
      case 2
      then have "normal_loop (Suc fuel) parts i start v = Inl Fatal" "normal_spec start acc (drop i xs) = None"
        using vec_drop_last(2) [OF Suc.prems(3) f(3)] x n True d by simp_all
      then show ?thesis by (simp only:) simp
    next
      case 3
      then obtain v2 where v2: "vec_erase v (sub_unsigned (mSize v) 1) = Inr v2" "vec_rep v2 (butlast acc)"
        using vec_drop_last(1) [OF Suc.prems(3) f(3)] by blast
      then have "normal_loop (Suc fuel) parts i start v = normal_loop fuel parts (Suc i) start v2"
        "normal_spec start acc (drop i xs) = normal_spec start (butlast acc) (drop (Suc i) xs)"
        using 3 x n True d by simp_all
      then show ?thesis using step [OF v2(2), of start] by (simp only:) simp
    next
      case 4
      then have "normal_loop (Suc fuel) parts i start v = normal_loop fuel parts (Suc i) False v1"
        "normal_spec start acc (drop i xs) = normal_spec False (acc @ [x]) (drop (Suc i) xs)"
        using v1(1) x n True d by simp_all
      then show ?thesis using step [OF v1(2), of False] by (simp only:) simp
    next
      case 5
      then have "normal_loop (Suc fuel) parts i start v = normal_loop fuel parts (Suc i) start v"
        "normal_spec start acc (drop i xs) = normal_spec start acc (drop (Suc i) xs)"
        using x n True d by auto
      then show ?thesis using step [OF Suc.prems(3), of start] by (simp only:)
    qed
  qed
qed simp

text \<open>The pieces with separators between them.\<close>

fun join_path :: "string list \<Rightarrow> string" where
  "join_path [] = []"
| "join_path [x] = x"
| "join_path (x # y # xs) = x @ PATH_SEPERATOR # join_path (y # xs)"

lemma join_path_last: "xs \<noteq> [] \<Longrightarrow> join_path xs = concat (map (\<lambda>x. x @ [PATH_SEPERATOR]) (butlast xs)) @ last xs"
  by (induction xs rule: join_path.induct) simp_all

lemma join_loop_spec:
  assumes "vec_rep v xs" "length xs < 2 ^ 31" "xs \<noteq> []"
  shows "i \<le> length xs - 1 \<Longrightarrow> length xs - i < fuel \<Longrightarrow>
    join_loop fuel v i p = Inr (p @ concat (map (\<lambda>x. x @ [PATH_SEPERATOR]) (drop i (butlast xs))))"
proof (induction fuel arbitrary: i p)
  case (Suc fuel)
  have e: "sub_unsigned (mSize v) 1 = length xs - 1" by (rule vec_drop_last(5) [OF assms(1,2,3)])
  show ?case
  proof (cases "i < length xs - 1")
    case True
    then have "drop i (butlast xs) = xs ! i # drop (Suc i) (butlast xs)" by (simp add: Cons_nth_drop_Suc [symmetric] nth_butlast)
    moreover have "vec_at v i = Inr (xs ! i)" using vec_at_rep [OF assms(1), of i] True by simp
    ultimately show ?thesis using Suc.IH [of "Suc i"] Suc.prems True e by simp
  next
    case False
    then show ?thesis using Suc.prems e by simp
  qed
qed simp

definition rooted :: "string \<Rightarrow> string" where
  "rooted p = (if path_isRelative p then [] else [PATH_SEPERATOR])"

lemma path_normalize_spec:
  assumes "length p < 2 ^ 30" "length p < fuel"
  shows "path_normalize 32 fuel p =
    (case normal_spec True [] (split_spec ''/'' p) of
       None \<Rightarrow> Inl Fatal
     | Some ys \<Rightarrow> if ys = [] then Inl UndefinedBehaviour else Inr (rooted p @ join_path ys))"
proof -
  let ?xs = "split_spec ''/'' p"
  obtain ps where ps: "jh_split 32 fuel p ''/'' vec_new = Inr (length ?xs, ps)" "vec_rep ps ?xs"
    using jh_split_spec [OF assms(1) vec_new_rep(2), of fuel "''/''"] assms(2) by auto
  have n: "mSize ps = length ?xs" by (rule vec.size_law [OF ps(2)])
  have lx: "length (split_spec c q) \<le> Suc (length q)" for c q
  proof (induction c q rule: split_spec.induct)
    case (1 c q)
    then show ?case using behind_run_shorter [of q c] by (subst split_spec.simps) fastforce
  qed
  have l: "length ?xs < 2 ^ 31" using lx [of "''/''" p] assms(1) by simp
  have c: "case normal_spec True [] ?xs of None \<Rightarrow> normal_loop (Suc (length ?xs)) ps 0 True vec_new = Inl Fatal
     | Some ys \<Rightarrow> \<exists>v'. normal_loop (Suc (length ?xs)) ps 0 True vec_new = Inr v' \<and> vec_rep v' ys"
    using normal_loop_spec [OF ps(2), of 0 "Suc (length ?xs)" vec_new "[]" True] l by simp
  show ?thesis
  proof (cases "normal_spec True [] ?xs")
    case None
    then show ?thesis using c ps(1) n by (simp add: path_normalize_def del: normal_loop.simps)
  next
    case (Some ys)
    then obtain v where v: "normal_loop (Suc (length ?xs)) ps 0 True vec_new = Inr v" "vec_rep v ys" using c by auto
    have ly: "length ys < 2 ^ 31"
    proof -
      have "normal_spec st acc zs = Some ys \<Longrightarrow> length ys \<le> length acc + length zs" for st acc zs
        by (induction st acc zs rule: normal_spec.induct) (auto split: if_splits)
      then show ?thesis using Some l by fastforce
    qed
    show ?thesis
    proof (cases "ys = []")
      case True
      then have "mSize v = 0" using vec.size_law [OF v(2)] by simp
      then have "join_loop (Suc (mSize v)) v 0 q = Inl UndefinedBehaviour" for q
        by (simp add: sub_unsigned_def unsig_def vec_at_def)
      then show ?thesis using True Some ps(1) n v(1) by (simp add: path_normalize_def Let_def del: normal_loop.simps join_loop.simps)
    next
      case False
      have "join_loop (Suc (length ys)) v 0 q = Inr (q @ concat (map (\<lambda>x. x @ [PATH_SEPERATOR]) (butlast ys)))" for q
        using join_loop_spec [OF v(2) ly False, of 0 "Suc (length ys)" q] by simp
      moreover have "mSize v = length ys" by (rule vec.size_law [OF v(2)])
      ultimately show ?thesis using False Some ps(1) n v(1) vec_drop_last(3) [OF v(2) ly False] join_path_last [OF False]
        by (simp add: path_normalize_def Let_def rooted_def del: normal_loop.simps join_loop.simps)
    qed
  qed
qed

text \<open>What a sequence of pieces means: a walk from a directory, given by the names that lead to it.\<close>

definition dir_step :: "string list \<Rightarrow> string \<Rightarrow> string list" where
  "dir_step d x = (if x = ''..'' then butlast d else if x = ''.'' \<or> x = [] then d else d @ [x])"

definition walk_path :: "string list \<Rightarrow> string \<Rightarrow> string list" where
  "walk_path d p = foldl dir_step (if path_isRelative p then d else []) (split_spec ''/'' p)"

text \<open>
  After the first name, no piece climbs above where the names began: \<open>n\<close> names are on the stack.
\<close>

fun stays_below :: "nat \<Rightarrow> bool \<Rightarrow> string list \<Rightarrow> bool" where
  "stays_below n start [] = True"
| "stays_below n start (x # xs) =
     (if x = ''..'' then (if start then stays_below n start xs else 0 < n \<and> stays_below (n - 1) start xs)
      else if x \<noteq> ''.'' \<and> x \<noteq> [] then stays_below (Suc n) False xs
      else stays_below n start xs)"

definition is_name :: "string \<Rightarrow> bool" where
  "is_name x \<longleftrightarrow> x \<noteq> ''..'' \<and> x \<noteq> ''.'' \<and> x \<noteq> []"

definition normal_pieces :: "string list \<Rightarrow> bool" where
  "normal_pieces ys \<longleftrightarrow> (\<exists>k ns. ys = replicate k ''..'' @ ns \<and> (\<forall>x \<in> set ns. is_name x))"

lemma foldl_names: "\<forall>x \<in> set ns. is_name x \<Longrightarrow> foldl dir_step d ns = d @ ns"
  by (induction ns arbitrary: d) (auto simp: dir_step_def is_name_def)

lemma normal_spec_run:
  "\<forall>x \<in> set ns. is_name x \<Longrightarrow> (start \<Longrightarrow> ns = []) \<Longrightarrow> stays_below (length ns) start xs \<Longrightarrow>
    \<exists>ys. normal_spec start (replicate k ''..'' @ ns) xs = Some ys \<and> normal_pieces ys \<and>
      (\<forall>d. foldl dir_step d ys = foldl dir_step (foldl dir_step d (replicate k ''..'' @ ns)) xs)"
proof (induction xs arbitrary: k ns start)
  case Nil
  then show ?case by (auto simp: normal_pieces_def)
next
  case (Cons x xs)
  let ?acc = "replicate k ''..'' @ ns"
  consider "x = ''..''" "start" | "x = ''..''" "\<not> start" "ns \<noteq> []" | "is_name x" | "x = ''.'' \<or> x = []"
    using Cons.prems(3) unfolding is_name_def by (cases "ns = []") (auto split: if_splits)
  then show ?case
  proof cases
    case 1
    then have e: "?acc @ [x] = replicate (Suc k) ''..'' @ []" using Cons.prems(2) by (simp add: replicate_append_same)
    then have "normal_spec start ?acc (x # xs) = normal_spec start (replicate (Suc k) ''..'' @ []) xs" using 1 by simp
    moreover have "foldl dir_step d (replicate (Suc k) ''..'' @ []) = dir_step (foldl dir_step d ?acc) x" for d
      unfolding e [symmetric] by simp
    ultimately show ?thesis using Cons.IH [of "[]" start "Suc k"] 1 Cons.prems(2,3) by (simp del: append_Nil2 replicate_Suc)
  next
    case 2
    then have "normal_spec start ?acc (x # xs) = normal_spec start (replicate k ''..'' @ butlast ns) xs" by (simp add: butlast_append)
    moreover have k: "\<forall>x \<in> set (butlast ns). is_name x" using Cons.prems(1) by (auto dest: in_set_butlastD)
    have "foldl dir_step d (replicate k ''..'' @ butlast ns) = dir_step (foldl dir_step d ?acc) x" for d
      using 2 foldl_names [OF k] foldl_names [OF Cons.prems(1)] by (simp add: dir_step_def butlast_append)
    ultimately show ?thesis using Cons.IH [OF k, of start k] 2 Cons.prems(3) by (simp del: foldl_append)
  next
    case 3
    then have "normal_spec start ?acc (x # xs) = normal_spec False (replicate k ''..'' @ (ns @ [x])) xs" by (simp add: is_name_def)
    moreover have "\<forall>y \<in> set (ns @ [x]). is_name y" using 3 Cons.prems(1) by simp
    ultimately show ?thesis using Cons.IH [of "ns @ [x]" False k] 3 Cons.prems(3) by (simp add: is_name_def)
  next
    case 4
    then show ?thesis using Cons.IH [OF Cons.prems(1), of start k] Cons.prems(2,3) by (auto simp: dir_step_def)
  qed
qed

lemma normal_spec_names: "\<forall>x \<in> set ns. is_name x \<Longrightarrow> normal_spec start acc ns = Some (acc @ ns)"
  by (induction ns arbitrary: start acc) (auto simp: is_name_def)

lemma normal_spec_normal:
  assumes "normal_pieces ys"
  shows "normal_spec True [] ys = Some ys"
proof -
  obtain k ns where ys: "ys = replicate k ''..'' @ ns" and n: "\<forall>x \<in> set ns. is_name x" using assms unfolding normal_pieces_def by blast
  have "normal_spec True acc (replicate k ''..'' @ ns) = Some (acc @ replicate k ''..'' @ ns)" for acc
    by (induction k arbitrary: acc) (simp_all add: normal_spec_names [OF n])
  then show ?thesis using ys by simp
qed

text \<open>Lengths: every piece with one separator.\<close>

definition room :: "string list \<Rightarrow> nat" where
  "room xs = sum_list (map (\<lambda>x. Suc (length x)) xs)"

lemma room_simps [simp]: "room [] = 0" "room (x # xs) = Suc (length x) + room xs" "room (xs @ ys) = room xs + room ys"
  by (simp_all add: room_def)

lemma room_butlast: "room (butlast xs) \<le> room xs"
  by (induction xs) auto

lemma join_path_room: "xs \<noteq> [] \<Longrightarrow> Suc (length (join_path xs)) = room xs"
  by (induction xs rule: join_path.induct) simp_all

lemma split_spec_room: "room (split_spec c q) \<le> Suc (length q)"
proof (induction c q rule: split_spec.induct)
  case (1 c q)
  show ?case
  proof (cases "\<exists>x \<in> set q. x \<in> set c")
    case True
    obtain a t where a: "dropWhile (\<lambda>x. x \<notin> set c) q = a # t" "a \<in> set c"
      using True by (cases "dropWhile (\<lambda>x. x \<notin> set c) q") (auto simp: dropWhile_eq_Nil_conv dropWhile_eq_Cons_conv)
    then have "length q = length (piece c q) + Suc (length t)" by (metis piece_def takeWhile_dropWhile_id length_append length_Cons)
    moreover have "length (behind_run c q) \<le> length t" using a length_dropWhile_le [of "\<lambda>x. x \<in> set c" t] by (simp add: behind_run_def)
    ultimately show ?thesis using 1 True by (subst split_spec.simps) simp
  next
    case False
    then show ?thesis by (subst split_spec.simps) (simp add: piece_def length_takeWhile_le)
  qed
qed

lemma normal_spec_room: "normal_spec st acc xs = Some ys \<Longrightarrow> room ys \<le> room acc + room xs"
proof (induction st acc xs rule: normal_spec.induct)
  case (2 start acc x xs)
  have "room (butlast acc) \<le> room acc" by (rule room_butlast)
  then show ?case using 2 by (auto split: if_splits)
qed simp

text \<open>Joined pieces are split into themselves.\<close>

lemma piece_join: "CHR ''/'' \<notin> set x \<Longrightarrow> piece ''/'' (x @ CHR ''/'' # r) = x"
  unfolding piece_def by (induction x) auto

lemma behind_join: "CHR ''/'' \<notin> set x \<Longrightarrow> r \<noteq> [] \<Longrightarrow> hd r \<noteq> CHR ''/'' \<Longrightarrow> behind_run ''/'' (x @ CHR ''/'' # r) = r"
proof (induction x)
  case Nil
  then show ?case by (cases r) (simp_all add: behind_run_def)
qed (auto simp: behind_run_def)

lemma split_no_sep: "CHR ''/'' \<notin> set x \<Longrightarrow> split_spec ''/'' x = [x]"
  by (subst split_spec.simps) (auto simp: piece_def)

lemma split_sep: "CHR ''/'' \<notin> set x \<Longrightarrow> r \<noteq> [] \<Longrightarrow> hd r \<noteq> CHR ''/'' \<Longrightarrow>
    split_spec ''/'' (x @ CHR ''/'' # r) = x # split_spec ''/'' r"
  by (subst split_spec.simps) (simp add: piece_join behind_join)

lemma join_path_hd:
  assumes "ys \<noteq> []" "\<forall>x \<in> set ys. x \<noteq> [] \<and> CHR ''/'' \<notin> set x"
  shows "join_path ys \<noteq> [] \<and> hd (join_path ys) \<noteq> CHR ''/''"
proof (cases ys rule: join_path.cases)
  case (2 x)
  then show ?thesis using assms by (cases x) auto
next
  case (3 x y zs)
  then show ?thesis using assms by (cases x) auto
qed (use assms in simp)

lemma split_join:
  "ys \<noteq> [] \<Longrightarrow> \<forall>x \<in> set ys. x \<noteq> [] \<and> CHR ''/'' \<notin> set x \<Longrightarrow> split_spec ''/'' (join_path ys) = ys"
proof (induction ys rule: join_path.induct)
  case (3 x y zs)
  then show ?case using split_sep [of x "join_path (y # zs)"] join_path_hd [of "y # zs"] by (simp add: PATH_SEPERATOR_def)
qed (simp_all add: split_no_sep)

text \<open>Every piece is free of separators, and only the first one may be empty or the last one.\<close>

lemma split_spec_pieces: "x \<in> set (split_spec chars s) \<Longrightarrow> set x \<inter> set chars = {}"
proof (induction chars s rule: split_spec.induct)
  case (1 c q)
  then have "x = piece c q \<or> (\<exists>y \<in> set q. y \<in> set c) \<and> x \<in> set (split_spec c (behind_run c q))"
    using split_spec.simps [of c q] by (auto split: if_splits)
  moreover have "set (piece c q) \<inter> set c = {}" unfolding piece_def by (auto dest: set_takeWhileD)
  ultimately show ?case using 1 by blast
qed

lemma normal_spec_subset: "normal_spec st acc xs = Some ys \<Longrightarrow> set ys \<subseteq> set acc \<union> {x \<in> set xs. x \<noteq> []}"
proof (induction st acc xs rule: normal_spec.induct)
  case (2 start acc x xs)
  have "set (butlast acc) \<subseteq> set acc" by (auto dest: in_set_butlastD)
  then show ?case using 2 by (auto split: if_splits)
qed simp

lemma split_rooted: "\<not> path_isRelative p \<Longrightarrow> \<exists>xs. split_spec ''/'' p = [] # xs"
  by (cases p) (use split_spec.simps [of "''/''" p] in \<open>auto simp: path_isRelative_def PATH_SEPERATOR_def piece_def\<close>)

text \<open>What normalising gives, for a path whose pieces stay below where its names begin.\<close>

lemma path_normalize_run:
  fixes p :: string
  assumes "length p < 2 ^ 30" "length p < fuel" "stays_below 0 True (split_spec ''/'' p)"
  obtains ys where "path_normalize 32 fuel p = (if ys = [] then Inl UndefinedBehaviour else Inr (rooted p @ join_path ys))"
    "normal_pieces ys" "\<forall>d. foldl dir_step d ys = foldl dir_step d (split_spec ''/'' p)"
    "\<forall>x \<in> set ys. x \<noteq> [] \<and> CHR ''/'' \<notin> set x" "ys \<noteq> [] \<Longrightarrow> length (rooted p @ join_path ys) \<le> length p"
proof -
  let ?xs = "split_spec ''/'' p"
  obtain ys where ys: "normal_spec True [] ?xs = Some ys" "normal_pieces ys" "\<forall>d. foldl dir_step d ys = foldl dir_step d ?xs"
    using normal_spec_run [of "[]" True ?xs 0] assms(3) by auto
  have n: "\<forall>x \<in> set ys. x \<noteq> [] \<and> CHR ''/'' \<notin> set x"
    using normal_spec_subset [OF ys(1)] split_spec_pieces [of _ "''/''" p] by auto
  have "room ys \<le> room ?xs" using normal_spec_room [OF ys(1)] by simp
  moreover have "\<not> path_isRelative p \<Longrightarrow> Suc (room ys) \<le> room ?xs"
  proof -
    assume "\<not> path_isRelative p"
    then obtain xs where xs: "?xs = [] # xs" using split_rooted by blast
    then have "normal_spec True [] xs = Some ys" using ys(1) by simp
    then show ?thesis using normal_spec_room [of True "[]" xs ys] xs by simp
  qed
  ultimately have "ys \<noteq> [] \<Longrightarrow> length (rooted p @ join_path ys) \<le> length p"
    using split_spec_room [of "''/''" p] join_path_room [of ys] by (cases "path_isRelative p") (simp_all add: rooted_def)
  moreover have "path_normalize 32 fuel p = (if ys = [] then Inl UndefinedBehaviour else Inr (rooted p @ join_path ys))"
    using path_normalize_spec [OF assms(1,2)] ys(1) by simp
  ultimately show thesis using that ys(2,3) n by blast
qed

lemma split_of_normal:
  assumes "ys \<noteq> []" "\<forall>x \<in> set ys. x \<noteq> [] \<and> CHR ''/'' \<notin> set x"
  shows "split_spec ''/'' (rooted p @ join_path ys) = (if path_isRelative p then ys else [] # ys)"
    "path_isRelative (rooted p @ join_path ys) = path_isRelative p"
proof -
  have h: "join_path ys \<noteq> []" "hd (join_path ys) \<noteq> CHR ''/''" using join_path_hd [OF assms] by simp_all
  show "split_spec ''/'' (rooted p @ join_path ys) = (if path_isRelative p then ys else [] # ys)"
    using split_sep [of "[]" "join_path ys"] h split_join [OF assms] by (simp add: rooted_def PATH_SEPERATOR_def)
  show "path_isRelative (rooted p @ join_path ys) = path_isRelative p"
    using h by (cases "join_path ys") (auto simp: rooted_def path_isRelative_def PATH_SEPERATOR_def)
qed

lemma stays_below_normal:
  assumes "normal_pieces ys" shows "stays_below 0 True ys" "stays_below 0 True ([] # ys)"
proof -
  obtain k ns where ys: "ys = replicate k ''..'' @ ns" and n: "\<forall>x \<in> set ns. is_name x" using assms unfolding normal_pieces_def by blast
  have "stays_below m st ns" for m st using n by (induction ns arbitrary: m st) (auto simp: is_name_def)
  then have "stays_below 0 True (replicate j ''..'' @ ns)" for j by (induction j) simp_all
  then show "stays_below 0 True ys" "stays_below 0 True ([] # ys)" using ys by simp_all
qed

section \<open>The last separator\<close>

lemma rfind_char_some:
  assumes "c \<in> set s"
  obtains a b where "s = a @ c # b" "c \<notin> set b" "rfind_char c s = Some (length a)"
proof -
  obtain a b where s: "s = a @ c # b" "c \<notin> set b" using split_list_last [OF assms] by blast
  have "List.find (\<lambda>j. s ! j = c) (rev [0..<length s]) = Some (length a)"
  proof -
    have "[0..<length s] = [0..<length a] @ length a # [Suc (length a)..<length s]"
      using upt_add_eq_append [of 0 "length a" "Suc (length b)"] s(1) by (simp add: upt_conv_Cons del: upt_Suc)
    moreover have "List.find (\<lambda>j. s ! j = c) (rev [Suc (length a)..<length s]) = None"
    proof -
      have "s ! j \<noteq> c" if "j \<in> set (rev [Suc (length a)..<length s])" for j
      proof -
        have "j - Suc (length a) < length b" "s ! j = b ! (j - Suc (length a))" using that s(1) by (auto simp: nth_append nth_Cons')
        then show ?thesis using s(2) by (metis nth_mem)
      qed
      then show ?thesis by (auto simp: find_None_iff)
    qed
    moreover have "List.find P (xs @ ys) = (case List.find P xs of None \<Rightarrow> List.find P ys | Some x \<Rightarrow> Some x)" for P :: "nat \<Rightarrow> bool" and xs ys
      by (induction xs) auto
    ultimately show ?thesis using s(1) by simp
  qed
  then show thesis using that s by (simp add: rfind_char_def)
qed

lemma rfind_char_none: "c \<notin> set s \<Longrightarrow> rfind_char c s = None"
  by (auto simp: rfind_char_def find_None_iff)

lemma as_unsigned_pos: "as_unsigned 32 None = npos 32" "p < 2 ^ 31 \<Longrightarrow> as_unsigned 32 (Some p) = p" "p < 2 ^ 31 \<Longrightarrow> p \<noteq> npos 32"
  by (simp_all add: as_unsigned_def npos_def unsig_def)

lemma split_at_char:
  assumes "length s < 2 ^ 31"
  shows "c \<in> set s \<Longrightarrow> \<exists>a b. s = a @ c # b \<and> c \<notin> set b \<and>
      as_unsigned 32 (rfind_char c s) = length a \<and> length a \<noteq> npos 32 \<and>
      str_substr s 0 (Some (unsig (length a + 1))) = Inr (a @ [c]) \<and> str_substr s 0 (Some (length a)) = Inr a \<and>
      str_substr s (unsig (length a + 1)) None = Inr b"
    "c \<notin> set s \<Longrightarrow> as_unsigned 32 (rfind_char c s) = npos 32"
proof -
  show "c \<notin> set s \<Longrightarrow> as_unsigned 32 (rfind_char c s) = npos 32" by (simp add: rfind_char_none as_unsigned_pos)
  assume "c \<in> set s"
  then obtain a b where s: "s = a @ c # b" "c \<notin> set b" "rfind_char c s = Some (length a)" by (rule rfind_char_some)
  then have l: "length a < 2 ^ 31" "length a + 1 < 2 ^ 32" using assms by simp_all
  have u: "unsig (length a + 1) = length (a @ [c])" using l(2) by (simp add: unsig_def)
  have "str_substr s 0 (Some (unsig (length a + 1))) = Inr (a @ [c])" "str_substr s (unsig (length a + 1)) None = Inr b"
    "str_substr s 0 (Some (length a)) = Inr a"
    unfolding u using s(1) by (simp_all add: str_substr_def)
  then show "\<exists>a b. s = a @ c # b \<and> c \<notin> set b \<and>
      as_unsigned 32 (rfind_char c s) = length a \<and> length a \<noteq> npos 32 \<and>
      str_substr s 0 (Some (unsig (length a + 1))) = Inr (a @ [c]) \<and> str_substr s 0 (Some (length a)) = Inr a \<and>
      str_substr s (unsig (length a + 1)) None = Inr b"
    using s as_unsigned_pos(2,3) [OF l(1)] by (intro exI [of _ a] exI [of _ b]) simp
qed

section \<open>The properties\<close>

text \<open>
  \<open>split\<close> with positions of 32 bits puts behind the pieces that the vector already has the pieces between the runs of
  separators, and returns how many pieces the vector then has, for every string and every bound of the number of rounds
  that is greater than the length of the string. Where \<open>size_t\<close> has 64 bits it never returns: the end of the string is
  never seen, because a position of 32 bits is never equal to \<open>npos\<close>.
\<close>

theorem path_split_pieces:
  assumes "vec_rep parts xs" "length xs < 2 ^ 30" "length s < 2 ^ 30"
  shows "(\<exists>ps. (\<forall>k. jh_split 32 (Suc (length s + k)) s chars parts = Inr (length (xs @ split_spec chars s), ps)) \<and>
      vec_rep ps (xs @ split_spec chars s)) \<and>
    (\<forall>fuel. \<exists>e. jh_split 64 fuel s chars parts = Inl e)"
proof -
  let ?r = "\<lambda>ps. Inr (length (xs @ split_spec chars s), ps)"
  have run: "\<exists>ps. jh_split 32 (Suc (length s + k)) s chars parts = ?r ps \<and> vec_rep ps (xs @ split_spec chars s)" for k
    using jh_split_spec [OF assms(3,1,2), of "Suc (length s + k)" chars] by simp
  obtain ps where ps: "jh_split 32 (Suc (length s + 0)) s chars parts = ?r ps" "vec_rep ps (xs @ split_spec chars s)"
    using run [of 0] by blast
  have "jh_split 32 (Suc (length s + k)) s chars parts = ?r ps" for k
    using jh_split_mono [OF ps(1), of k] by simp
  moreover have "\<exists>e. jh_split 64 fuel s chars parts = Inl e" for fuel
    using split_loop_64 [OF as_unsigned_less, of fuel s chars 0 64 "find_first_of chars s 0" parts] by (auto simp: jh_split_def)
  ultimately show ?thesis using ps(2) by blast
qed

theorem path_split_pieces_witness:
  "(\<exists>ps. jh_split 32 9 ''/usr//b/'' ''/'' vec_new = Inr (4, ps) \<and> vec_rep ps [[], ''usr'', ''b'', []]) \<and>
    (\<exists>e. jh_split 64 9 ''/usr//b/'' ''/'' vec_new = Inl (e :: fault))"
proof -
  have s: "split_spec ''/'' ''/usr//b/'' = [[], ''usr'', ''b'', []]"
    by (simp add: split_spec.simps piece_def behind_run_def)
  have "(\<exists>ps. (\<forall>k. jh_split 32 (Suc (length ''/usr//b/'' + k)) ''/usr//b/'' ''/'' vec_new =
        Inr (length ([] @ split_spec ''/'' ''/usr//b/''), ps)) \<and> vec_rep ps ([] @ split_spec ''/'' ''/usr//b/'')) \<and>
      (\<forall>fuel. \<exists>e. jh_split 64 fuel ''/usr//b/'' ''/'' vec_new = Inl e)"
    by (rule path_split_pieces [OF vec_new_rep(2)]) simp_all
  then obtain ps where p: "\<forall>k. jh_split 32 (Suc (length ''/usr//b/'' + k)) ''/usr//b/'' ''/'' vec_new = Inr (4, ps)"
      "vec_rep ps [[], ''usr'', ''b'', []]" and e: "\<exists>e. jh_split 64 9 ''/usr//b/'' ''/'' vec_new = Inl e"
    unfolding s by auto
  from p(1) have "jh_split 32 (Suc (length ''/usr//b/'' + 0)) ''/usr//b/'' ''/'' vec_new = Inr (4, ps)" by (rule spec)
  moreover have "Suc (length ''/usr//b/'' + 0) = 9" by simp
  ultimately have "jh_split 32 9 ''/usr//b/'' ''/'' vec_new = Inr (4, ps)" by (simp only:)
  then show ?thesis using p(2) e by blast
qed

lemma jh_split_64: "\<exists>e. jh_split 64 fuel s chars parts = Inl e"
  using split_loop_64 [OF as_unsigned_less, of fuel s chars 0 64 "find_first_of chars s 0" parts] by (auto simp: jh_split_def)

lemma path_normalize_64: "\<exists>e. path_normalize 64 fuel p = Inl e"
  using jh_split_64 [of fuel p "''/''" vec_new] by (auto simp: path_normalize_def)

text \<open>
  C23: Where \<open>size_t\<close> has 32 bits, a path shorter than \<open>2 ^ 30\<close> whose pieces never climb above the directory in which its
  names begin is made normal, or it has no piece that is left, as \<open>/\<close>, \<open>.\<close> and \<open>a/..\<close> have not, and the read in front of an
  empty vector is undefined behaviour. What is normal stays as it is, is not longer, starts with a separator if the path
  did, and leads from every directory to the one to which the path leads; where nothing is left, the path leads to where it
  starts. Where \<open>size_t\<close> has 64 bits \<open>normalize\<close> has no result for any path, however long it runs.
\<close>

theorem path_normalize_meaning:
  assumes "length p < 2 ^ 30" "length p < fuel" "stays_below 0 True (split_spec ''/'' p)"
  shows "((\<exists>q. path_normalize 32 fuel p = Inr q \<and> path_normalize 32 fuel q = Inr q \<and> length q \<le> length p \<and>
      path_isRelative q = path_isRelative p \<and> (\<forall>d. walk_path d q = walk_path d p)) \<or>
    (path_normalize 32 fuel p = Inl UndefinedBehaviour \<and> (\<forall>d. walk_path d p = (if path_isRelative p then d else []))))
    \<and> (\<forall>fuel p. \<exists>e. path_normalize 64 fuel p = Inl e)"
proof (rule conjI)
  show "\<forall>fuel p. \<exists>e. path_normalize 64 fuel p = Inl e" using path_normalize_64 by blast
  obtain ys where ys: "path_normalize 32 fuel p = (if ys = [] then Inl UndefinedBehaviour else Inr (rooted p @ join_path ys))"
    "normal_pieces ys" "\<forall>d. foldl dir_step d ys = foldl dir_step d (split_spec ''/'' p)"
    "\<forall>x \<in> set ys. x \<noteq> [] \<and> CHR ''/'' \<notin> set x" "ys \<noteq> [] \<Longrightarrow> length (rooted p @ join_path ys) \<le> length p"
    using path_normalize_run [OF assms] by blast
  show "(\<exists>q. path_normalize 32 fuel p = Inr q \<and> path_normalize 32 fuel q = Inr q \<and> length q \<le> length p \<and>
      path_isRelative q = path_isRelative p \<and> (\<forall>d. walk_path d q = walk_path d p)) \<or>
    (path_normalize 32 fuel p = Inl UndefinedBehaviour \<and> (\<forall>d. walk_path d p = (if path_isRelative p then d else [])))"
  proof (cases "ys = []")
    case True
    then have "foldl dir_step d (split_spec ''/'' p) = d" for d using ys(3) [rule_format, of d] by simp
    then show ?thesis using ys(1) True by (simp add: walk_path_def)
  next
    case False
    define q where "q = rooted p @ join_path ys"
    note l = ys(5) [OF False, folded q_def]
    note sq = split_of_normal [OF False ys(4), of p, folded q_def]
    have "normal_spec True [] (split_spec ''/'' q) = Some ys" using sq(1) normal_spec_normal [OF ys(2)] by simp
    moreover have "length q < 2 ^ 30" "length q < fuel" using l assms(1,2) by simp_all
    moreover have "rooted q = rooted p" using sq(2) by (simp add: rooted_def)
    ultimately have "path_normalize 32 fuel q = Inr q" using path_normalize_spec [of q fuel] False by (simp add: q_def)
    moreover have "path_normalize 32 fuel p = Inr q" using ys(1) False by (simp add: q_def)
    moreover have "walk_path d q = walk_path d p" for d
    proof -
      have "foldl dir_step e (split_spec ''/'' q) = foldl dir_step e ys" for e using sq(1) by (simp add: dir_step_def)
      then show ?thesis using ys(3) sq(2) by (simp add: walk_path_def)
    qed
    ultimately show ?thesis using l sq(2) by blast
  qed
qed

theorem path_normalize_meaning_witness:
  "path_normalize 32 40 ''../lib/./net//../a.so'' = Inr ''../lib/a.so'' \<and>
    walk_path [''home'', ''b''] ''../lib/./net//../a.so'' = walk_path [''home'', ''b''] ''../lib/a.so''"
proof -
  let ?p = "''../lib/./net//../a.so''"
  have s: "split_spec ''/'' ?p = [''..'', ''lib'', ''.'', ''net'', ''..'', ''a.so'']"
    by (simp add: split_spec.simps piece_def behind_run_def)
  have v: "path_normalize 32 40 ?p = Inr ''../lib/a.so''"
    using path_normalize_spec [of ?p 40] unfolding s by (simp add: rooted_def path_isRelative_def PATH_SEPERATOR_def)
  have b: "stays_below 0 True (split_spec ''/'' ?p)" unfolding s by simp
  have "((\<exists>q. path_normalize 32 40 ?p = Inr q \<and> path_normalize 32 40 q = Inr q \<and> length q \<le> length ?p \<and>
      path_isRelative q = path_isRelative ?p \<and> (\<forall>d. walk_path d q = walk_path d ?p)) \<or>
    (path_normalize 32 40 ?p = Inl UndefinedBehaviour \<and> (\<forall>d. walk_path d ?p = (if path_isRelative ?p then d else []))))
    \<and> (\<forall>fuel p. \<exists>e. path_normalize 64 fuel p = Inl e)"
    by (rule path_normalize_meaning [OF _ _ b]) simp_all
  then show ?thesis using v by auto
qed

lemma path_parts_64:
  "\<exists>e1 e2 e3 e4. path_parent 64 fuel p = Inl e1 \<and> path_filename 64 fuel p = Inl e2 \<and>
    path_fileBasename 64 fuel p = Inl e3 \<and> path_filenameExtention 64 fuel p = Inl e4"
proof -
  obtain e where "path_normalize 64 fuel p = Inl e" using path_normalize_64 by blast
  then show ?thesis by (simp add: path_parent_def path_filename_def path_fileBasename_def path_filenameExtention_def)
qed

text \<open>
  C24: Where \<open>size_t\<close> has 32 bits, for every path that has a normal form shorter than \<open>2 ^ 31\<close>: if the normal form has
  a separator, the directory and the file name give it back, the directory ends with the last separator and the file name
  has none; if it has none, it is its own file name, in the directory \<open>.\<close>, and the two do not give it back. The base
  name, a dot and the extension give the file name back; without a dot the base name is the file name and the extension
  is empty. Where \<open>size_t\<close> has 64 bits none of the four functions has a result for any path, because \<open>normalize\<close> has none.
\<close>

theorem path_parts:
  assumes "path_normalize 32 fuel p = Inr q" "length q < 2 ^ 31"
  shows "(\<exists>d f b e. path_parent 32 fuel p = Inr d \<and> path_filename 32 fuel p = Inr f \<and>
    path_fileBasename 32 fuel p = Inr b \<and> path_filenameExtention 32 fuel p = Inr e \<and>
    CHR ''/'' \<notin> set f \<and> CHR ''.'' \<notin> set e \<and>
    (if CHR ''/'' \<in> set q then d @ f = q \<and> last d = CHR ''/'' else d = ''.'' \<and> f = q) \<and>
    (if CHR ''.'' \<in> set f then f = b @ CHR ''.'' # e else b = f \<and> e = [])) \<and>
    (\<forall>fuel p. \<exists>e1 e2 e3 e4. path_parent 64 fuel p = Inl e1 \<and> path_filename 64 fuel p = Inl e2 \<and>
      path_fileBasename 64 fuel p = Inl e3 \<and> path_filenameExtention 64 fuel p = Inl e4)"
proof (rule conjI)
  show "\<forall>fuel p. \<exists>e1 e2 e3 e4. path_parent 64 fuel p = Inl e1 \<and> path_filename 64 fuel p = Inl e2 \<and>
      path_fileBasename 64 fuel p = Inl e3 \<and> path_filenameExtention 64 fuel p = Inl e4"
    by (intro allI) (rule path_parts_64)
  obtain d f where d: "path_parent 32 fuel p = Inr d" and f: "path_filename 32 fuel p = Inr f" "CHR ''/'' \<notin> set f"
      and q: "if CHR ''/'' \<in> set q then d @ f = q \<and> last d = CHR ''/'' else d = ''.'' \<and> f = q"
  proof (cases "CHR ''/'' \<in> set q")
    case True
    obtain a b where "q = a @ CHR ''/'' # b" "CHR ''/'' \<notin> set b" "as_unsigned 32 (rfind_char (CHR ''/'') q) = length a"
      "length a \<noteq> npos 32" "str_substr q 0 (Some (unsig (length a + 1))) = Inr (a @ ''/'')"
      "str_substr q (unsig (length a + 1)) None = Inr b"
      using split_at_char(1) [OF assms(2) True] by blast
    then show thesis using that [of "a @ ''/''" b] assms(1) by (simp add: path_parent_def path_filename_def Let_def)
  next
    case False
    then show thesis using that [of "''.''" q] assms(1) split_at_char(2) [OF assms(2) False]
      by (simp add: path_parent_def path_filename_def Let_def)
  qed
  have "length f \<le> length q" using q by (auto split: if_splits)
  then have l: "length f < 2 ^ 31" using assms(2) by simp
  obtain b e where "path_fileBasename 32 fuel p = Inr b" "path_filenameExtention 32 fuel p = Inr e" "CHR ''.'' \<notin> set e"
      "if CHR ''.'' \<in> set f then f = b @ CHR ''.'' # e else b = f \<and> e = []"
  proof (cases "CHR ''.'' \<in> set f")
    case True
    obtain a b where h: "f = a @ CHR ''.'' # b" "CHR ''.'' \<notin> set b" "as_unsigned 32 (rfind_char (CHR ''.'') f) = length a"
      "length a \<noteq> npos 32" "str_substr f 0 (Some (length a)) = Inr a" "str_substr f (unsig (length a + 1)) None = Inr b"
      using split_at_char(1) [OF l True] by blast
    have "path_fileBasename 32 fuel p = Inr a" unfolding path_fileBasename_def f(1) andThen_simps Let_def h(3,5) using h(4) by simp
    moreover have "path_filenameExtention 32 fuel p = Inr b"
      unfolding path_filenameExtention_def f(1) andThen_simps Let_def h(3,6) using h(4) by simp
    moreover have "if CHR ''.'' \<in> set f then f = a @ CHR ''.'' # b else a = f \<and> b = []" unfolding if_P [OF True] by (rule h(1))
    ultimately show thesis by (rule that [OF _ _ h(2)])
  next
    case False
    then show thesis using that [of f "[]"] f(1) split_at_char(2) [OF l False]
      by (simp add: path_fileBasename_def path_filenameExtention_def Let_def)
  qed
  then show "\<exists>d f b e. path_parent 32 fuel p = Inr d \<and> path_filename 32 fuel p = Inr f \<and>
    path_fileBasename 32 fuel p = Inr b \<and> path_filenameExtention 32 fuel p = Inr e \<and>
    CHR ''/'' \<notin> set f \<and> CHR ''.'' \<notin> set e \<and>
    (if CHR ''/'' \<in> set q then d @ f = q \<and> last d = CHR ''/'' else d = ''.'' \<and> f = q) \<and>
    (if CHR ''.'' \<in> set f then f = b @ CHR ''.'' # e else b = f \<and> e = [])" using d f q
    by - (rule exI [of _ d], rule exI [of _ f], rule exI [of _ b], rule exI [of _ e], intro conjI)
qed

theorem path_parts_witness:
  "\<exists>d f b e. path_parent 32 40 ''../lib//a.so'' = Inr d \<and> path_filename 32 40 ''../lib//a.so'' = Inr f \<and>
    path_fileBasename 32 40 ''../lib//a.so'' = Inr b \<and> path_filenameExtention 32 40 ''../lib//a.so'' = Inr e \<and>
    d @ f = ''../lib/a.so'' \<and> f = b @ CHR ''.'' # e"
proof -
  have s: "split_spec ''/'' ''../lib//a.so'' = [''..'', ''lib'', ''a.so'']"
    by (simp add: split_spec.simps piece_def behind_run_def)
  have v: "path_normalize 32 40 ''../lib//a.so'' = Inr ''../lib/a.so''"
    using path_normalize_spec [of "''../lib//a.so''" 40] unfolding s by (simp add: rooted_def path_isRelative_def PATH_SEPERATOR_def)
  have "length ''../lib/a.so'' < (2::nat) ^ 31" by simp
  from path_parts [OF v this] obtain d f b e where r: "path_parent 32 40 ''../lib//a.so'' = Inr d"
      "path_filename 32 40 ''../lib//a.so'' = Inr f" "path_fileBasename 32 40 ''../lib//a.so'' = Inr b"
      "path_filenameExtention 32 40 ''../lib//a.so'' = Inr e" "CHR ''/'' \<notin> set f" "d @ f = ''../lib/a.so''"
      "last d = CHR ''/''" "if CHR ''.'' \<in> set f then f = b @ CHR ''.'' # e else b = f \<and> e = []" by auto
  have "f = ''a.so''"
    using r(5,6,7) by (cases d rule: rev_cases) (auto simp: append_eq_Cons_conv Cons_eq_append_conv)
  then show ?thesis using r by auto
qed

end
