(* ===== verification/BasicString.thy ===== *)
theory BasicString
  imports JHStrings JHVector
begin

text \<open>
  The string class \<open>JetHead::basic_string\<close> (include/jh_string.h) for \<open>char\<close>. A string object is a smart pointer
  to a representation with a reference count; copies share it. The text lies in a buffer of \<open>mCapacity\<close> characters that may not
  be written yet, with a NUL behind it. Lengths and positions are \<open>unsigned\<close> of 32 bits. Functions that take a
  pointer take a \<open>source\<close>: a string of the outside, or a place in the buffer of a representation, which may be gone.
\<close>

section \<open>Representations\<close>

record rep =
  repCapacity :: nat
  repLength :: nat
  repData :: "char option list"
  repRef :: int

text \<open>The string objects are numbered; an object that is not there, or whose pointer is NULL, has no address.\<close>

record strs =
  strReps :: "nat \<Rightarrow> rep option"
  strNext :: nat
  strObj :: "nat \<Rightarrow> nat option"

datatype source = Outside string | Inside "nat option" nat

definition null_char :: char where "null_char = CHR 0x00"

definition NPOS :: nat where "NPOS = 2 ^ 32 - 1"

definition DEFAULT_STRING :: nat where "DEFAULT_STRING = 32"

definition rep_get :: "strs \<Rightarrow> nat option \<Rightarrow> rep outcome" where
  "rep_get st p = (case p of None \<Rightarrow> Inl UndefinedBehaviour | Some a \<Rightarrow>
     (case strReps st a of None \<Rightarrow> Inl UndefinedBehaviour | Some r \<Rightarrow> Inr r))"

definition rep_put :: "strs \<Rightarrow> nat option \<Rightarrow> rep \<Rightarrow> strs" where
  "rep_put st p r = (case p of None \<Rightarrow> st | Some a \<Rightarrow> st\<lparr>strReps := (strReps st)(a := Some r)\<rparr>)"

text \<open>The smart pointer \<open>mData\<close>: the new object is counted before the old one is released.\<close>

definition rep_addref :: "strs \<Rightarrow> nat option \<Rightarrow> strs outcome" where
  "rep_addref st p =
     (if p = None then Inr st else andThen (rep_get st p) (\<lambda>r. Inr (rep_put st p (r\<lparr>repRef := repRef r + 1\<rparr>))))"

definition rep_release :: "strs \<Rightarrow> nat option \<Rightarrow> strs outcome" where
  "rep_release st p =
     (case p of None \<Rightarrow> Inr st
      | Some a \<Rightarrow> andThen (rep_get st p) (\<lambda>r.
          let n = repRef r - 1 in
          if n = 0 then Inr (st\<lparr>strReps := (strReps st)(a := None)\<rparr>) else Inr (rep_put st p (r\<lparr>repRef := n\<rparr>))))"

definition set_data :: "strs \<Rightarrow> nat \<Rightarrow> nat option \<Rightarrow> strs outcome" where
  "set_data st v p =
     andThen (rep_addref st p) (\<lambda>st. andThen (rep_release st (strObj st v)) (\<lambda>st. Inr (st\<lparr>strObj := (strObj st)(v := p)\<rparr>)))"

text \<open>\<open>Rep( int capacity )\<close>: an array of negative length is an exception.\<close>

definition rep_new :: "strs \<Rightarrow> nat \<Rightarrow> (strs \<times> nat option) outcome" where
  "rep_new st cap =
     (if 2 ^ 31 \<le> cap then Inl LengthError
      else let a = strNext st in
           Inr (rep_put (st\<lparr>strNext := Suc a\<rparr>) (Some a)
                  \<lparr>repCapacity = cap, repLength = 0, repData = (replicate (if cap = 0 then 1 else cap) None)[0 := Some null_char], repRef = 0\<rparr>,
                Some a))"

section \<open>Memory\<close>

definition data_set :: "char option list \<Rightarrow> nat \<Rightarrow> char \<Rightarrow> char option list outcome" where
  "data_set d i c = (if i < length d then Inr (d[i := Some c]) else Inl UndefinedBehaviour)"

definition data_get :: "char option list \<Rightarrow> nat \<Rightarrow> char outcome" where
  "data_get d i =
     (if i < length d then (case d ! i of None \<Rightarrow> Inl UndefinedBehaviour | Some c \<Rightarrow> Inr c) else Inl UndefinedBehaviour)"

text \<open>What \<open>memcpy\<close> reads. It copies what was not written too.\<close>

definition src_bytes :: "strs \<Rightarrow> source \<Rightarrow> nat \<Rightarrow> char option list outcome" where
  "src_bytes st src n =
     (case src of
        Outside s \<Rightarrow> if n \<le> Suc (length s) then Inr (take n (map Some (s @ [null_char]))) else Inl UndefinedBehaviour
      | Inside p k \<Rightarrow> andThen (rep_get st p) (\<lambda>r.
          if k + n \<le> length (repData r) then Inr (take n (drop k (repData r))) else Inl UndefinedBehaviour))"

definition src_char :: "strs \<Rightarrow> source \<Rightarrow> nat \<Rightarrow> char outcome" where
  "src_char st src j =
     (case src of
        Outside s \<Rightarrow> if j \<le> length s then Inr ((s @ [null_char]) ! j) else Inl UndefinedBehaviour
      | Inside p k \<Rightarrow> andThen (rep_get st p) (\<lambda>r. data_get (repData r) (k + j)))"

fun data_strlen :: "char option list \<Rightarrow> nat outcome" where
  "data_strlen [] = Inl UndefinedBehaviour"
| "data_strlen (None # d) = Inl UndefinedBehaviour"
| "data_strlen (Some c # d) = (if c = null_char then Inr 0 else andThen (data_strlen d) (\<lambda>n. Inr (Suc n)))"

definition src_strlen :: "strs \<Rightarrow> source \<Rightarrow> nat outcome" where
  "src_strlen st src =
     (case src of
        Outside s \<Rightarrow> data_strlen (map Some (s @ [null_char]))
      | Inside p k \<Rightarrow> andThen (rep_get st p) (\<lambda>r. data_strlen (drop k (repData r))))"

definition src_length :: "strs \<Rightarrow> source \<Rightarrow> nat \<Rightarrow> nat outcome" where
  "src_length st src n = (if n = NPOS then src_strlen st src else Inr n)"

text \<open>Two areas of one buffer must not overlap.\<close>

definition overlap :: "nat option \<Rightarrow> nat \<Rightarrow> source \<Rightarrow> nat \<Rightarrow> bool" where
  "overlap p d src n = (case src of Outside s \<Rightarrow> False | Inside q k \<Rightarrow> q = p \<and> k < d + n \<and> d < k + n)"

definition copy_in :: "strs \<Rightarrow> nat option \<Rightarrow> nat \<Rightarrow> source \<Rightarrow> nat \<Rightarrow> char option list outcome" where
  "copy_in st p d src n =
     andThen (rep_get st p) (\<lambda>r.
     andThen (src_bytes st src n) (\<lambda>b.
     if d + n \<le> length (repData r) \<and> \<not> overlap p d src n
     then Inr (take d (repData r) @ b @ drop (d + n) (repData r)) else Inl UndefinedBehaviour))"

definition rep_assign :: "strs \<Rightarrow> nat option \<Rightarrow> source \<Rightarrow> nat \<Rightarrow> strs outcome" where
  "rep_assign st p src n =
     andThen (src_length st src n) (\<lambda>n.
     andThen (rep_get st p) (\<lambda>r.
     let n = (if repCapacity r \<le> n then unsig (repCapacity r + 2 ^ 32 - 1) else n) in
     andThen (copy_in st p 0 src n) (\<lambda>d.
     andThen (data_set d n null_char) (\<lambda>d. Inr (rep_put st p (r\<lparr>repLength := n, repData := d\<rparr>))))))"

text \<open>\<open>Rep( const charT *s, size_type n )\<close>\<close>

definition rep_new_from :: "strs \<Rightarrow> source \<Rightarrow> nat \<Rightarrow> (strs \<times> nat option) outcome" where
  "rep_new_from st src n =
     andThen (src_length st src n) (\<lambda>n.
     let a = strNext st; c = unsig (n + 1) in
     let st = rep_put (st\<lparr>strNext := Suc a\<rparr>) (Some a) \<lparr>repCapacity = c, repLength = 0, repData = replicate c None, repRef = 0\<rparr> in
     andThen (rep_assign st (Some a) src n) (\<lambda>st. Inr (st, Some a)))"

text \<open>A new representation if this one is shared, or NULL.\<close>

definition rep_copyOnWrite :: "strs \<Rightarrow> nat option \<Rightarrow> (strs \<times> nat option) outcome" where
  "rep_copyOnWrite st p =
     andThen (rep_get st p) (\<lambda>r.
     if 1 < repRef r
     then andThen (rep_new st (repCapacity r)) (\<lambda>(st, q).
          andThen (rep_assign st q (Inside p 0) (repLength r)) (\<lambda>st. Inr (st, q)))
     else Inr (st, None))"

section \<open>Strings\<close>

definition this_rep :: "strs \<Rightarrow> nat \<Rightarrow> rep outcome" where
  "this_rep st v = rep_get st (strObj st v)"

definition bs_capacity :: "strs \<Rightarrow> nat \<Rightarrow> nat outcome" where
  "bs_capacity st v =
     (if strObj st v = None then Inr 0 else andThen (this_rep st v) (\<lambda>r. Inr (repCapacity r)))"

definition bs_length :: "strs \<Rightarrow> nat \<Rightarrow> nat outcome" where
  "bs_length st v = andThen (this_rep st v) (\<lambda>r. Inr (repLength r))"

definition bs_empty :: "strs \<Rightarrow> nat \<Rightarrow> bool outcome" where
  "bs_empty st v = andThen (this_rep st v) (\<lambda>r. Inr (repLength r = 0))"

text \<open>The pointer \<open>data()\<close>, with an offset.\<close>

definition bs_data :: "strs \<Rightarrow> nat \<Rightarrow> nat \<Rightarrow> source" where
  "bs_data st v k = Inside (strObj st v) k"

definition bs_new :: "strs \<Rightarrow> nat \<Rightarrow> strs outcome" where
  "bs_new st v = andThen (rep_new st DEFAULT_STRING) (\<lambda>(st, p). set_data st v p)"

definition bs_assign :: "strs \<Rightarrow> nat \<Rightarrow> nat \<Rightarrow> strs outcome" where
  "bs_assign st v u = set_data st v (strObj st u)"

definition bs_assign_from :: "strs \<Rightarrow> nat \<Rightarrow> source \<Rightarrow> nat \<Rightarrow> strs outcome" where
  "bs_assign_from st v src n =
     andThen (src_length st src n) (\<lambda>n.
     andThen (bs_capacity st v) (\<lambda>c.
     if c \<le> n then andThen (rep_new_from st src n) (\<lambda>(st, p). set_data st v p)
     else rep_assign st (strObj st v) src n))"

definition bs_assign_part :: "strs \<Rightarrow> nat \<Rightarrow> nat \<Rightarrow> nat \<Rightarrow> nat \<Rightarrow> strs outcome" where
  "bs_assign_part st v u pos n =
     andThen (bs_length st u) (\<lambda>l.
     if pos = 0 \<and> l \<le> n then bs_assign st v u else bs_assign_from st v (bs_data st u pos) n)"

definition bs_destroy :: "strs \<Rightarrow> nat \<Rightarrow> strs outcome" where
  "bs_destroy st v = set_data st v None"

text \<open>The index operator reads, or gives a reference that is written; behind the end it is the NUL.\<close>

definition bs_at :: "strs \<Rightarrow> nat \<Rightarrow> nat \<Rightarrow> char outcome" where
  "bs_at st v i = andThen (this_rep st v) (\<lambda>r. data_get (repData r) (if i < repLength r then i else repLength r))"

definition bs_set :: "strs \<Rightarrow> nat \<Rightarrow> nat \<Rightarrow> char \<Rightarrow> strs outcome" where
  "bs_set st v i c =
     andThen (this_rep st v) (\<lambda>r.
     andThen (data_set (repData r) (if i < repLength r then i else repLength r) c) (\<lambda>d.
     Inr (rep_put st (strObj st v) (r\<lparr>repData := d\<rparr>))))"

definition bs_reserve :: "strs \<Rightarrow> nat \<Rightarrow> nat \<Rightarrow> strs outcome" where
  "bs_reserve st v res =
     andThen (bs_capacity st v) (\<lambda>c.
     if c < res
     then let res = (if res < unsig (c * 2) then unsig (c * 2) else res) in
          andThen (rep_new st (unsig res)) (\<lambda>(st, p).
          andThen (this_rep st v) (\<lambda>r.
          andThen (rep_assign st p (bs_data st v 0) (repLength r)) (\<lambda>st. set_data st v p)))
     else Inr st)"

text \<open>The end of the functions that make a text longer: the length is set and the NUL is written behind it.\<close>

definition rep_finish :: "strs \<Rightarrow> nat option \<Rightarrow> rep \<Rightarrow> nat \<Rightarrow> char option list \<Rightarrow> strs outcome" where
  "rep_finish st p r n d = andThen (data_set d n null_char) (\<lambda>d. Inr (rep_put st p (r\<lparr>repLength := n, repData := d\<rparr>)))"

definition bs_append :: "strs \<Rightarrow> nat \<Rightarrow> source \<Rightarrow> nat \<Rightarrow> strs outcome" where
  "bs_append st v src n =
     andThen (src_length st src n) (\<lambda>n.
     andThen (bs_length st v) (\<lambda>l.
     andThen (bs_reserve st v (unsig (l + n + 1))) (\<lambda>st.
     andThen (this_rep st v) (\<lambda>r.
     andThen (copy_in st (strObj st v) (repLength r) src n) (\<lambda>d.
     rep_finish st (strObj st v) r (unsig (repLength r + n)) d)))))"

fun fill_loop :: "nat \<Rightarrow> char option list \<Rightarrow> nat \<Rightarrow> char \<Rightarrow> char option list outcome" where
  "fill_loop 0 d i c = Inr d"
| "fill_loop (Suc k) d i c = andThen (data_set d i c) (\<lambda>d. fill_loop k d (Suc i) c)"

definition bs_append_chars :: "strs \<Rightarrow> nat \<Rightarrow> nat \<Rightarrow> char \<Rightarrow> strs outcome" where
  "bs_append_chars st v n c =
     andThen (bs_length st v) (\<lambda>l.
     andThen (bs_reserve st v (unsig (l + n + 1))) (\<lambda>st.
     andThen (this_rep st v) (\<lambda>r.
     andThen (fill_loop n (repData r) (repLength r) c) (\<lambda>d.
     rep_finish st (strObj st v) r (unsig (repLength r + n)) d))))"

definition bs_resize :: "strs \<Rightarrow> nat \<Rightarrow> nat \<Rightarrow> char \<Rightarrow> strs outcome" where
  "bs_resize st v n c =
     andThen (bs_reserve st v (unsig (n + 1))) (\<lambda>st.
     andThen (this_rep st v) (\<lambda>r.
     andThen (fill_loop (n - repLength r) (repData r) (repLength r) c) (\<lambda>d.
     rep_finish st (strObj st v) r n d)))"

text \<open>A part of the text in a new object \<open>t\<close>.\<close>

definition bs_substr :: "strs \<Rightarrow> nat \<Rightarrow> nat \<Rightarrow> nat \<Rightarrow> nat \<Rightarrow> strs outcome" where
  "bs_substr st v pos n t =
     andThen (bs_length st v) (\<lambda>l.
     if l \<le> pos then bs_new st t
     else bs_assign_from st t (bs_data st v pos) (if l < unsig (pos + n) then l - pos else n))"

section \<open>Changes in the middle\<close>

text \<open>Characters moved to the end, from the last one on, and to the front, from the first one on.\<close>

fun move_up :: "nat \<Rightarrow> char option list \<Rightarrow> nat \<Rightarrow> nat \<Rightarrow> char option list outcome" where
  "move_up 0 d pos n = Inr d"
| "move_up (Suc k) d pos n =
     andThen (data_get d (pos + k)) (\<lambda>c. andThen (data_set d (pos + k + n) c) (\<lambda>d. move_up k d pos n))"

fun move_down :: "nat \<Rightarrow> char option list \<Rightarrow> nat \<Rightarrow> nat \<Rightarrow> char option list outcome" where
  "move_down 0 d i n = Inr d"
| "move_down (Suc k) d i n =
     andThen (data_get d i) (\<lambda>c. andThen (data_set d (i - n) c) (\<lambda>d. move_down k d (Suc i) n))"

definition bs_unshare :: "strs \<Rightarrow> nat \<Rightarrow> strs outcome" where
  "bs_unshare st v =
     andThen (rep_copyOnWrite st (strObj st v)) (\<lambda>(st, p). if p \<noteq> None then set_data st v p else Inr st)"

definition bs_insert :: "strs \<Rightarrow> nat \<Rightarrow> nat \<Rightarrow> source \<Rightarrow> nat \<Rightarrow> strs outcome" where
  "bs_insert st v pos src n =
     andThen (src_length st src n) (\<lambda>n.
     andThen (bs_length st v) (\<lambda>l.
     if l \<le> pos then Inr st
     else andThen (bs_unshare st v) (\<lambda>st.
          andThen (bs_reserve st v (unsig (l + n + 1))) (\<lambda>st.
          andThen (this_rep st v) (\<lambda>r.
          andThen (move_up (l - pos) (repData r) pos n) (\<lambda>d.
          let st = rep_put st (strObj st v) (r\<lparr>repData := d\<rparr>) in
          andThen (copy_in st (strObj st v) pos src n) (\<lambda>d.
          rep_finish st (strObj st v) r (unsig (l + n)) d)))))))"

definition bs_insert_chars :: "strs \<Rightarrow> nat \<Rightarrow> nat \<Rightarrow> nat \<Rightarrow> char \<Rightarrow> strs outcome" where
  "bs_insert_chars st v pos n c =
     andThen (bs_length st v) (\<lambda>l.
     if l \<le> pos then Inr st
     else andThen (bs_unshare st v) (\<lambda>st.
          andThen (bs_reserve st v (unsig (l + n + 1))) (\<lambda>st.
          andThen (this_rep st v) (\<lambda>r.
          andThen (move_up (l - pos) (repData r) pos n) (\<lambda>d.
          andThen (fill_loop n d pos c) (\<lambda>d.
          rep_finish st (strObj st v) r (unsig (l + n)) d))))))"

definition bs_erase :: "strs \<Rightarrow> nat \<Rightarrow> nat \<Rightarrow> nat \<Rightarrow> strs outcome" where
  "bs_erase st v pos n =
     andThen (bs_unshare st v) (\<lambda>st.
     andThen (this_rep st v) (\<lambda>r.
     let l = repLength r in
     if l \<le> pos then Inr st
     else if n = NPOS \<or> unsig (pos + n) = l then rep_finish st (strObj st v) r pos (repData r)
     else let n = (if l < unsig (pos + n) then l - pos else n) in
          andThen (move_down (l - unsig (pos + n)) (repData r) (unsig (pos + n)) n) (\<lambda>d.
          rep_finish st (strObj st v) r (unsig (l + 2 ^ 32 - n)) d)))"

text \<open>An \<open>int\<close> as a \<open>size_t\<close> of 64 bits.\<close>

definition int_to_size :: "nat \<Rightarrow> nat" where
  "int_to_size m = (if m < 2 ^ 31 then m else m + 2 ^ 64 - 2 ^ 32)"

definition bs_replace :: "strs \<Rightarrow> nat \<Rightarrow> nat \<Rightarrow> nat \<Rightarrow> source \<Rightarrow> nat \<Rightarrow> strs outcome" where
  "bs_replace st v pos n1 src n2 =
     andThen (bs_length st v) (\<lambda>l.
     let new_len = unsig (l + 2 ^ 32 - n1 + n2) in
     if l \<le> pos then Inr st
     else andThen (bs_unshare st v) (\<lambda>st.
          andThen (bs_reserve st v (int_to_size new_len)) (\<lambda>st.
          andThen (bs_erase st v pos n1) (\<lambda>st.
          andThen (bs_length st v) (\<lambda>l.
          if l \<le> pos then bs_append st v src n2 else bs_insert st v pos src n2)))))"

definition bs_replace_chars :: "strs \<Rightarrow> nat \<Rightarrow> nat \<Rightarrow> nat \<Rightarrow> nat \<Rightarrow> char \<Rightarrow> strs outcome" where
  "bs_replace_chars st v pos n1 n2 c =
     andThen (bs_length st v) (\<lambda>l.
     let new_len = unsig (l + 2 ^ 32 - n1 + n2) in
     if l \<le> pos then Inr st
     else andThen (bs_unshare st v) (\<lambda>st.
          andThen (bs_reserve st v (int_to_size new_len)) (\<lambda>st.
          andThen (bs_erase st v pos n1) (\<lambda>st.
          andThen (bs_length st v) (\<lambda>l.
          if l \<le> pos then bs_append_chars st v n2 c else bs_insert_chars st v pos n2 c)))))"

section \<open>Search and comparison\<close>

fun match_loop :: "nat \<Rightarrow> char option list \<Rightarrow> nat \<Rightarrow> strs \<Rightarrow> source \<Rightarrow> nat \<Rightarrow> bool outcome" where
  "match_loop 0 d i st src j = Inr True"
| "match_loop (Suc k) d i st src j =
     andThen (data_get d (j + i)) (\<lambda>x. andThen (src_char st src j) (\<lambda>y.
     if x \<noteq> y then Inr False else match_loop k d i st src (Suc j)))"

fun find_loop :: "nat \<Rightarrow> char option list \<Rightarrow> nat \<Rightarrow> strs \<Rightarrow> source \<Rightarrow> nat \<Rightarrow> nat outcome" where
  "find_loop 0 d i st src n = Inr NPOS"
| "find_loop (Suc k) d i st src n =
     andThen (match_loop n d i st src 0) (\<lambda>b. if b then Inr i else find_loop k d (Suc i) st src n)"

definition bs_find :: "strs \<Rightarrow> nat \<Rightarrow> source \<Rightarrow> nat \<Rightarrow> nat \<Rightarrow> nat outcome" where
  "bs_find st v src pos n =
     andThen (src_length st src n) (\<lambda>n.
     andThen (this_rep st v) (\<lambda>r.
     find_loop (unsig (repLength r + 2 ^ 32 - n) - pos) (repData r) pos st src n))"

fun find_char_loop :: "nat \<Rightarrow> char option list \<Rightarrow> nat \<Rightarrow> char \<Rightarrow> nat outcome" where
  "find_char_loop 0 d i c = Inr NPOS"
| "find_char_loop (Suc k) d i c = andThen (data_get d i) (\<lambda>x. if x = c then Inr i else find_char_loop k d (Suc i) c)"

definition bs_find_char :: "strs \<Rightarrow> nat \<Rightarrow> char \<Rightarrow> nat \<Rightarrow> nat outcome" where
  "bs_find_char st v c pos = andThen (this_rep st v) (\<lambda>r. find_char_loop (repLength r - pos) (repData r) pos c)"

text \<open>Backwards, from the position \<open>k - 1\<close> on; the loop variable is an \<open>int\<close>.\<close>

fun rfind_loop :: "nat \<Rightarrow> char option list \<Rightarrow> strs \<Rightarrow> source \<Rightarrow> nat \<Rightarrow> nat outcome" where
  "rfind_loop 0 d st src n = Inr NPOS"
| "rfind_loop (Suc i) d st src n = andThen (match_loop n d i st src 0) (\<lambda>b. if b then Inr i else rfind_loop i d st src n)"

definition int_rounds :: "nat \<Rightarrow> nat" where
  "int_rounds pos = (if pos < 2 ^ 31 then Suc pos else 0)"

definition bs_rfind :: "strs \<Rightarrow> nat \<Rightarrow> source \<Rightarrow> nat \<Rightarrow> nat \<Rightarrow> nat outcome" where
  "bs_rfind st v src pos n =
     andThen (src_length st src n) (\<lambda>n.
     andThen (this_rep st v) (\<lambda>r.
     let pos = (if pos = NPOS \<or> repLength r < pos then repLength r else pos) in
     rfind_loop (int_rounds pos) (repData r) st src n))"

fun rfind_char_loop :: "nat \<Rightarrow> char option list \<Rightarrow> char \<Rightarrow> nat outcome" where
  "rfind_char_loop 0 d c = Inr NPOS"
| "rfind_char_loop (Suc i) d c = andThen (data_get d i) (\<lambda>x. if x = c then Inr i else rfind_char_loop i d c)"

definition bs_rfind_char :: "strs \<Rightarrow> nat \<Rightarrow> char \<Rightarrow> nat \<Rightarrow> nat outcome" where
  "bs_rfind_char st v c pos =
     andThen (this_rep st v) (\<lambda>r.
     let pos = (if pos = NPOS then unsig (repLength r + 2 ^ 32 - 1) else pos) in
     rfind_char_loop (int_rounds pos) (repData r) c)"

fun one_of_loop :: "nat \<Rightarrow> char \<Rightarrow> strs \<Rightarrow> source \<Rightarrow> nat \<Rightarrow> bool outcome" where
  "one_of_loop 0 x st src j = Inr False"
| "one_of_loop (Suc k) x st src j = andThen (src_char st src j) (\<lambda>y. if x = y then Inr True else one_of_loop k x st src (Suc j))"

text \<open>The character of the text is read only where there is one to compare it with.\<close>

definition is_one_of :: "char option list \<Rightarrow> nat \<Rightarrow> strs \<Rightarrow> source \<Rightarrow> nat \<Rightarrow> bool outcome" where
  "is_one_of d i st src n = (if n = 0 then Inr False else andThen (data_get d i) (\<lambda>x. one_of_loop n x st src 0))"

fun first_of_loop :: "nat \<Rightarrow> char option list \<Rightarrow> nat \<Rightarrow> strs \<Rightarrow> source \<Rightarrow> nat \<Rightarrow> nat outcome" where
  "first_of_loop 0 d i st src n = Inr NPOS"
| "first_of_loop (Suc k) d i st src n = andThen (is_one_of d i st src n) (\<lambda>b. if b then Inr i else first_of_loop k d (Suc i) st src n)"

definition bs_find_first_of :: "strs \<Rightarrow> nat \<Rightarrow> source \<Rightarrow> nat \<Rightarrow> nat \<Rightarrow> nat outcome" where
  "bs_find_first_of st v src pos n =
     andThen (src_length st src n) (\<lambda>n.
     andThen (this_rep st v) (\<lambda>r. first_of_loop (repLength r - pos) (repData r) pos st src n))"

fun last_of_loop :: "nat \<Rightarrow> char option list \<Rightarrow> strs \<Rightarrow> source \<Rightarrow> nat \<Rightarrow> nat outcome" where
  "last_of_loop 0 d st src n = Inr NPOS"
| "last_of_loop (Suc i) d st src n = andThen (is_one_of d i st src n) (\<lambda>b. if b then Inr i else last_of_loop i d st src n)"

definition bs_find_last_of :: "strs \<Rightarrow> nat \<Rightarrow> source \<Rightarrow> nat \<Rightarrow> nat \<Rightarrow> nat outcome" where
  "bs_find_last_of st v src pos n =
     andThen (src_length st src n) (\<lambda>n.
     andThen (this_rep st v) (\<lambda>r.
     let pos = (if pos = NPOS then unsig (repLength r + 2 ^ 32 - 1) else pos) in
     last_of_loop (int_rounds pos) (repData r) st src n))"

text \<open>
  The loop of \<open>compare\<close> takes \<open>k\<close> rounds; the order of characters is that of \<open>char\<close> on the machine.
\<close>

fun compare_loop :: "(char \<Rightarrow> char \<Rightarrow> bool) \<Rightarrow> nat \<Rightarrow> char option list \<Rightarrow> nat \<Rightarrow> strs \<Rightarrow> source \<Rightarrow> int \<Rightarrow> int outcome" where
  "compare_loop lt 0 d i st src e = Inr e"
| "compare_loop lt (Suc k) d i st src e =
     andThen (data_get d i) (\<lambda>x. andThen (src_char st src i) (\<lambda>y.
     if lt y x then Inr 1 else if lt x y then Inr (-1) else compare_loop lt k d (Suc i) st src e))"

definition bs_compare :: "(char \<Rightarrow> char \<Rightarrow> bool) \<Rightarrow> strs \<Rightarrow> nat \<Rightarrow> nat \<Rightarrow> nat \<Rightarrow> source \<Rightarrow> nat \<Rightarrow> int outcome" where
  "bs_compare lt st v pos n src rlen =
     andThen (src_strlen st src) (\<lambda>str_len.
     let rlen = (if str_len < rlen then str_len else rlen) in
     andThen (this_rep st v) (\<lambda>r.
     let n = (if n = NPOS then unsig (repLength r + 2 ^ 32 - pos) else n) in
     compare_loop lt (Suc (min n rlen) - pos) (repData r) pos st src (if rlen < n then -1 else if n < rlen then 1 else 0)))"

text \<open>\<open>compare( const basic_string & )\<close>, which \<open>==\<close> and \<open>!=\<close> use.\<close>

definition bs_compare_string :: "(char \<Rightarrow> char \<Rightarrow> bool) \<Rightarrow> strs \<Rightarrow> nat \<Rightarrow> nat \<Rightarrow> int outcome" where
  "bs_compare_string lt st v u = andThen (bs_length st u) (\<lambda>l. bs_compare lt st v 0 NPOS (bs_data st u 0) l)"

definition bs_equal :: "(char \<Rightarrow> char \<Rightarrow> bool) \<Rightarrow> strs \<Rightarrow> nat \<Rightarrow> nat \<Rightarrow> bool outcome" where
  "bs_equal lt st v u = andThen (bs_compare_string lt st v u) (\<lambda>c. Inr (c = 0))"

text \<open>The sum of two strings is built in the object \<open>t\<close>, which shares the representation of the first one.\<close>

definition bs_plus :: "strs \<Rightarrow> nat \<Rightarrow> nat \<Rightarrow> nat \<Rightarrow> strs outcome" where
  "bs_plus st v u t =
     andThen (bs_assign st t v) (\<lambda>st. andThen (bs_length st u) (\<lambda>n. bs_append st t (bs_data st u 0) n))"

definition bs_plus_chars :: "strs \<Rightarrow> nat \<Rightarrow> string \<Rightarrow> nat \<Rightarrow> strs outcome" where
  "bs_plus_chars st v s t = andThen (bs_assign st t v) (\<lambda>st. bs_append st t (Outside s) NPOS)"

section \<open>What a string holds\<close>

text \<open>A representation that holds a text: the text and the NUL are written, and there is room for both.\<close>

definition rep_holds :: "rep \<Rightarrow> string \<Rightarrow> bool" where
  "rep_holds r t \<longleftrightarrow> repLength r = length t \<and> length t < repCapacity r \<and> repCapacity r < 2 ^ 31 \<and>
     length (repData r) = repCapacity r \<and> take (Suc (length t)) (repData r) = map Some (t @ [null_char])"

definition rep_text :: "rep \<Rightarrow> string" where
  "rep_text r = map the (take (repLength r) (repData r))"

definition bs_text :: "strs \<Rightarrow> nat \<Rightarrow> string option" where
  "bs_text st v = (case strObj st v of None \<Rightarrow> None | Some a \<Rightarrow> map_option rep_text (strReps st a))"

definition owners :: "strs \<Rightarrow> nat \<Rightarrow> nat set" where
  "owners st a = {v. strObj st v = Some a}"

text \<open>
  The accounting: each representation is counted once for each string object that points to it, and only
  a representation that has just been made (\<open>e\<close>) is owned by none.
\<close>

definition counted :: "strs \<Rightarrow> nat option \<Rightarrow> bool" where
  "counted st e \<longleftrightarrow> finite (dom (strObj st)) \<and> (\<forall>a. strNext st \<le> a \<longrightarrow> strReps st a = None) \<and>
     (\<forall>v a. strObj st v = Some a \<longrightarrow> strReps st a \<noteq> None) \<and>
     (\<forall>a r. strReps st a = Some r \<longrightarrow> (\<exists>t. rep_holds r t) \<and> repRef r = int (card (owners st a)) \<and>
        (owners st a = {} \<longrightarrow> e = Some a))"

definition strs_ok :: "strs \<Rightarrow> bool" where
  "strs_ok st \<longleftrightarrow> counted st None"

lemma rep_holds_text: "rep_holds r t \<Longrightarrow> rep_text r = t"
proof -
  assume h: "rep_holds r t"
  then have "take (length t) (take (Suc (length t)) (repData r)) = take (length t) (map Some (t @ [null_char]))"
    unfolding rep_holds_def by simp
  then have "take (length t) (repData r) = map Some t" by simp
  then show ?thesis using h by (simp add: rep_text_def rep_holds_def comp_def)
qed

lemma rep_holds_ref [simp]: "rep_holds (r\<lparr>repRef := k\<rparr>) t = rep_holds r t"
  by (simp add: rep_holds_def)

lemma rep_text_ref [simp]: "rep_text (r\<lparr>repRef := k\<rparr>) = rep_text r"
  by (simp add: rep_text_def)

lemma finite_owners: "counted st e \<Longrightarrow> finite (owners st a)"
  unfolding counted_def owners_def by (auto intro: finite_subset [of _ "dom (strObj st)"])

lemma counted_alive: "counted st e \<Longrightarrow> strObj st v = Some a \<Longrightarrow> \<exists>r. strReps st a = Some r"
proof -
  assume "counted st e" "strObj st v = Some a"
  then have "strReps st a \<noteq> None" unfolding counted_def by blast
  then show ?thesis by simp
qed

lemma counted_get:
  assumes "counted st e" "strObj st v = Some a"
  obtains r t where "strReps st a = Some r" "rep_holds r t" "bs_text st v = Some t" "rep_get st (Some a) = Inr r"
    "this_rep st v = Inr r" "repRef r = int (card (owners st a))"
proof -
  obtain r where r: "strReps st a = Some r" using counted_alive [OF assms] by blast
  moreover obtain t where "rep_holds r t" using assms(1) r unfolding counted_def by blast
  moreover have "repRef r = int (card (owners st a))" using assms(1) r unfolding counted_def by blast
  ultimately show thesis using that assms(2) by (simp add: bs_text_def rep_get_def this_rep_def rep_holds_text)
qed

lemma bs_text_None: "counted st e \<Longrightarrow> bs_text st v = None \<longleftrightarrow> strObj st v = None"
  unfolding counted_def bs_text_def by (cases "strObj st v") auto

lemma card_owners_upd:
  assumes "finite (dom f)"
  shows "int (card {w. (f(v := p)) w = Some a}) =
    int (card {w. f w = Some a}) - (if f v = Some a then 1 else 0) + (if p = Some a then 1 else 0)"
proof -
  let ?A = "{w. f w = Some a}"
  have fin: "finite ?A" by (rule finite_subset [OF _ assms]) auto
  have e: "{w. (f(v := p)) w = Some a} = (if p = Some a then insert v (?A - {v}) else ?A - {v})" by auto
  have pos: "f v = Some a \<Longrightarrow> 0 < card ?A" using fin by (auto simp: card_gt_0_iff)
  show ?thesis unfolding e using fin pos by (auto simp: card_Diff_singleton_if insert_absorb)
qed

text \<open>
  What the smart pointer does, as an equation: after the assignment each representation is counted again,
  and those without owner are gone.
\<close>

definition recount :: "strs \<Rightarrow> (nat \<Rightarrow> nat option) \<Rightarrow> nat \<Rightarrow> rep option" where
  "recount st f a = (case strReps st a of None \<Rightarrow> None | Some r \<Rightarrow>
     if {w. f w = Some a} = {} then None else Some (r\<lparr>repRef := int (card {w. f w = Some a})\<rparr>))"

lemma set_data_counted:
  fixes v :: nat
  assumes c: "counted st e" and p: "\<And>b. p = Some b \<Longrightarrow> strReps st b \<noteq> None" and e: "e = None \<or> e = p"
  defines "f \<equiv> (strObj st)(v := p)"
  shows "set_data st v p = Inr (st\<lparr>strReps := recount st f, strObj := f\<rparr>)"
proof -
  let ?C = "\<lambda>a. int (card (owners st a))" and ?C' = "\<lambda>a. int (card {w. f w = Some a})"
  have fin: "finite (dom (strObj st))" "finite (dom f)" using c unfolding counted_def f_def by (auto simp: dom_fun_upd)
  have C': "?C' a = ?C a - (if strObj st v = Some a then 1 else 0) + (if p = Some a then 1 else 0)" for a
    using card_owners_upd [OF fin(1), of v p a] unfolding f_def owners_def .
  have empty: "{w. f w = Some a} = {} \<longleftrightarrow> ?C' a = 0" for a
  proof -
    have "finite {w. f w = Some a}" by (rule finite_subset [OF _ fin(2)]) auto
    then show ?thesis by simp
  qed
  have ref: "strReps st a = Some r \<Longrightarrow> repRef r = ?C a" for a r using c unfolding counted_def by blast
  have live: "strReps st a = Some r \<Longrightarrow> p \<noteq> Some a \<Longrightarrow> ?C a \<noteq> 0" for a r
  proof -
    assume "strReps st a = Some r" "p \<noteq> Some a"
    then have "owners st a \<noteq> {}" using c e unfolding counted_def by blast
    then show "?C a \<noteq> 0" using finite_owners [OF c, of a] by simp
  qed
  define st1 where "st1 = (case p of None \<Rightarrow> st | Some b \<Rightarrow> rep_put st p ((the (strReps st b))\<lparr>repRef := ?C b + 1\<rparr>))"
  have add: "rep_addref st p = Inr st1"
  proof (cases p)
    case (Some b)
    then obtain r where "strReps st b = Some r" using p by blast
    then show ?thesis using Some ref by (simp add: rep_addref_def rep_get_def st1_def)
  qed (simp add: rep_addref_def st1_def)
  have s1: "strObj st1 = strObj st"
    "strReps st1 a = map_option (\<lambda>r. r\<lparr>repRef := ?C a + (if p = Some a then 1 else 0)\<rparr>) (strReps st a)" for a
  proof -
    show "strObj st1 = strObj st" by (simp add: st1_def rep_put_def split: option.split)
    show "strReps st1 a = map_option (\<lambda>r. r\<lparr>repRef := ?C a + (if p = Some a then 1 else 0)\<rparr>) (strReps st a)"
      using ref [of a] p by (cases "strReps st a") (auto simp: st1_def rep_put_def split: option.split)
  qed
  have upd: "st1\<lparr>strReps := g, strObj := h\<rparr> = st\<lparr>strReps := g, strObj := h\<rparr>" for g h
    by (simp add: st1_def rep_put_def split: option.split)
  have "\<exists>g. rep_release st1 (strObj st1 v) = Inr (st1\<lparr>strReps := g\<rparr>) \<and> g = recount st f"
  proof (cases "strObj st v")
    case None
    have "strReps st1 a = recount st f a" for a
    proof (cases "strReps st a")
      case (Some r)
      then show ?thesis using C' [of a] live [of a r] None empty [of a] by (simp add: s1(2) recount_def)
    qed (simp add: s1(2) recount_def)
    then have "strReps st1 = recount st f" by (rule ext)
    then show ?thesis using None s1(1) by (auto simp: rep_release_def)
  next
    case (Some o1)
    then obtain r where r: "strReps st o1 = Some r" using counted_alive [OF c] by blast
    define k where "k = ?C o1 + (if p = Some o1 then 1 else 0)"
    have k: "strReps st1 o1 = Some (r\<lparr>repRef := k\<rparr>)" using s1(2) [of o1] r by (simp add: k_def)
    have k1: "?C' o1 = k - 1" using C' [of o1] Some by (simp add: k_def)
    let ?g = "(strReps st1)(o1 := if k - 1 = 0 then None else Some (r\<lparr>repRef := k - 1\<rparr>))"
    have rel: "rep_release st1 (Some o1) = Inr (st1\<lparr>strReps := ?g\<rparr>)"
      using k by (simp add: rep_release_def rep_get_def rep_put_def Let_def)
    have "?g a = recount st f a" for a
    proof (cases "a = o1")
      case True
      then show ?thesis using r k1 empty [of o1] by (simp add: recount_def)
    next
      case False
      show ?thesis
      proof (cases "strReps st a")
        case (Some r')
        then show ?thesis using C' [of a] live [of a r'] False \<open>strObj st v = Some o1\<close> empty [of a] by (simp add: s1(2) recount_def)
      qed (use False in \<open>simp add: s1(2) recount_def\<close>)
    qed
    then have "?g = recount st f" by (rule ext)
    then show ?thesis using rel Some s1(1) by auto
  qed
  then show ?thesis using add by (auto simp: set_data_def s1(1) upd f_def)
qed

lemma set_data_ok:
  fixes v :: nat
  assumes c: "counted st e" and p: "\<forall>b. p = Some b \<longrightarrow> strReps st b \<noteq> None" and e: "e = None \<or> e = p"
  obtains st' where "set_data st v p = Inr st'" "strs_ok st'" "strObj st' = (strObj st)(v := p)" "strNext st' = strNext st"
    "\<And>w. bs_text st' w = (if w = v then Option.bind p (\<lambda>b. map_option rep_text (strReps st b)) else bs_text st w)"
    "\<And>w a. strObj st' w = Some a \<Longrightarrow> strReps st' a = map_option (\<lambda>r. r\<lparr>repRef := int (card (owners st' a))\<rparr>) (strReps st a)"
proof -
  define f where "f = (strObj st)(v := p)"
  define st' where "st' = st\<lparr>strReps := recount st f, strObj := f\<rparr>"
  have ow: "owners st' a = {w. f w = Some a}" for a by (simp add: owners_def st'_def)
  have alive: "f w = Some a \<Longrightarrow> \<exists>r. strReps st a = Some r" for w a
    using counted_alive [OF c, of w a] p by (auto simp: f_def split: if_splits)
  have rep: "f w = Some a \<Longrightarrow> strReps st' a = map_option (\<lambda>r. r\<lparr>repRef := int (card (owners st' a))\<rparr>) (strReps st a)" for w a
    by (auto simp: st'_def recount_def ow owners_def split: option.split)
  have "strs_ok st'" unfolding strs_ok_def counted_def
  proof (intro conjI allI impI)
    show "finite (dom (strObj st'))" using c by (simp add: st'_def f_def counted_def)
    show "strReps st' a = None" if "strNext st' \<le> a" for a
      using that c by (simp add: st'_def recount_def counted_def)
    show "strReps st' a \<noteq> None" if "strObj st' w = Some a" for w a
      using that alive [of w a] rep [of w a] by (auto simp: st'_def)
    fix a r assume r: "strReps st' a = Some r"
    then obtain r0 where r0: "strReps st a = Some r0" "{w. f w = Some a} \<noteq> {}" "r = r0\<lparr>repRef := int (card {w. f w = Some a})\<rparr>"
      by (auto simp: st'_def recount_def split: option.splits if_splits)
    show "\<exists>t. rep_holds r t" using r0 c unfolding counted_def by auto
    show "repRef r = int (card (owners st' a))" using r0 by (simp add: ow)
    show "None = Some a" if "owners st' a = {}" using that r0 by (simp add: ow)
  qed
  moreover have "bs_text st' w = (if w = v then Option.bind p (\<lambda>b. map_option rep_text (strReps st b)) else bs_text st w)" for w
  proof (cases "f w")
    case None
    then show ?thesis by (auto simp: bs_text_def st'_def f_def split: if_splits)
  next
    case (Some a)
    then show ?thesis using rep [OF Some] alive [OF Some] by (auto simp: bs_text_def st'_def f_def split: if_splits)
  qed
  moreover have "set_data st v p = Inr st'" using set_data_counted [OF c _ e, of v] p by (simp add: st'_def f_def)
  moreover have "strObj st' = (strObj st)(v := p)" "strNext st' = strNext st" by (simp_all add: st'_def f_def)
  moreover have "\<And>w a. strObj st' w = Some a \<Longrightarrow> strReps st' a = map_option (\<lambda>r. r\<lparr>repRef := int (card (owners st' a))\<rparr>) (strReps st a)"
    using rep by (simp add: st'_def)
  ultimately show thesis using that by blast
qed

text \<open>A representation that is written in place is seen by all its owners.\<close>

lemma rep_put_ok:
  assumes "strs_ok st" "strReps st a = Some r" "rep_holds r' t" "repRef r' = repRef r"
  shows "strs_ok (rep_put st (Some a) r')"
    "bs_text (rep_put st (Some a) r') w = (if strObj st w = Some a then Some t else bs_text st w)"
    "strObj (rep_put st (Some a) r') = strObj st"
proof -
  have o: "owners (rep_put st (Some a) r') b = owners st b" for b by (simp add: owners_def rep_put_def)
  show "strs_ok (rep_put st (Some a) r')" unfolding strs_ok_def counted_def
  proof (intro conjI allI impI)
    show "finite (dom (strObj (rep_put st (Some a) r')))" using assms(1) by (simp add: rep_put_def strs_ok_def counted_def)
    show "strReps (rep_put st (Some a) r') b = None" if "strNext (rep_put st (Some a) r') \<le> b" for b
      using that assms(1,2) by (auto simp: rep_put_def strs_ok_def counted_def)
    show "strReps (rep_put st (Some a) r') b \<noteq> None" if "strObj (rep_put st (Some a) r') w = Some b" for w b
      using that assms(1) by (simp add: rep_put_def strs_ok_def counted_def)
    fix b q assume "strReps (rep_put st (Some a) r') b = Some q"
    then have q: "if b = a then q = r' else strReps st b = Some q" by (simp add: rep_put_def split: if_splits)
    have old: "strReps st b = Some s \<Longrightarrow> (\<exists>t. rep_holds s t) \<and> repRef s = int (card (owners st b)) \<and> (owners st b \<noteq> {})" for s
      using assms(1) unfolding strs_ok_def counted_def by blast
    show "\<exists>t. rep_holds q t" using q old assms(3) by (auto split: if_splits)
    show "repRef q = int (card (owners (rep_put st (Some a) r') b))" using q old assms(2,4) by (auto simp: o split: if_splits)
    show "None = Some b" if "owners (rep_put st (Some a) r') b = {}" using that q old assms(2) by (auto simp: o split: if_splits)
  qed
  show "bs_text (rep_put st (Some a) r') w = (if strObj st w = Some a then Some t else bs_text st w)"
    using rep_holds_text [OF assms(3)] by (auto simp: bs_text_def rep_put_def split: option.split)
  show "strObj (rep_put st (Some a) r') = strObj st" by (simp add: rep_put_def)
qed

lemma counted_fresh:
  assumes "strs_ok st" "rep_holds r t" "repRef r = 0"
  shows "counted (rep_put (st\<lparr>strNext := Suc (strNext st)\<rparr>) (Some (strNext st)) r) (Some (strNext st))"
proof -
  let ?st = "rep_put (st\<lparr>strNext := Suc (strNext st)\<rparr>) (Some (strNext st)) r"
  have o: "owners ?st b = owners st b" for b by (simp add: owners_def rep_put_def)
  have new: "strReps st (strNext st) = None" using assms(1) by (simp add: strs_ok_def counted_def)
  have n: "owners st (strNext st) = {}"
  proof -
    have "strObj st w \<noteq> Some (strNext st)" for w
      using counted_alive [of st None w "strNext st"] assms(1) new by (auto simp: strs_ok_def)
    then show ?thesis by (simp add: owners_def)
  qed
  show ?thesis unfolding counted_def
  proof (intro conjI allI impI)
    show "finite (dom (strObj ?st))" using assms(1) by (simp add: rep_put_def strs_ok_def counted_def)
    show "strReps ?st b = None" if "strNext ?st \<le> b" for b using that assms(1) by (simp add: rep_put_def strs_ok_def counted_def)
    show "strReps ?st b \<noteq> None" if "strObj ?st w = Some b" for w b
      using that assms(1) by (simp add: rep_put_def strs_ok_def counted_def)
    fix b q assume "strReps ?st b = Some q"
    then have q: "if b = strNext st then q = r else strReps st b = Some q" by (simp add: rep_put_def split: if_splits)
    have old: "strReps st b = Some s \<Longrightarrow> (\<exists>t. rep_holds s t) \<and> repRef s = int (card (owners st b)) \<and> (owners st b \<noteq> {})" for s
      using assms(1) unfolding strs_ok_def counted_def by blast
    show "\<exists>t. rep_holds q t" using q old assms(2) by (auto split: if_splits)
    show "repRef q = int (card (owners ?st b))" using q old n assms(3) by (auto simp: o split: if_splits)
    show "Some (strNext st) = Some b" if "owners ?st b = {}" using that q old by (auto simp: o split: if_splits)
  qed
qed

text \<open>A new representation becomes that of an object; what the other objects point to stays.\<close>

lemma set_fresh:
  fixes v :: nat
  assumes ok: "strs_ok st" and r: "rep_holds r t" "repRef r = 0"
  obtains st' where "set_data (rep_put (st\<lparr>strNext := Suc (strNext st)\<rparr>) (Some (strNext st)) r) v (Some (strNext st)) = Inr st'"
    "strs_ok st'" "strObj st' = (strObj st)(v := Some (strNext st))" "bs_text st' = (bs_text st)(v := Some t)"
    "strReps st' (strNext st) = Some (r\<lparr>repRef := 1\<rparr>)" "owners st' (strNext st) = {v}"
    "\<And>w b. w \<noteq> v \<Longrightarrow> strObj st w = Some b \<Longrightarrow> \<exists>k. strReps st' b = map_option (\<lambda>r. r\<lparr>repRef := k\<rparr>) (strReps st b)"
proof -
  let ?a = "strNext st"
  let ?st = "rep_put (st\<lparr>strNext := Suc ?a\<rparr>) (Some ?a) r"
  have c: "counted ?st (Some ?a)" by (rule counted_fresh [OF assms])
  have p: "\<forall>b. Some ?a = Some b \<longrightarrow> strReps ?st b \<noteq> None" by (simp add: rep_put_def)
  obtain st' where s: "set_data ?st v (Some ?a) = Inr st'" "strs_ok st'" "strObj st' = (strObj ?st)(v := Some ?a)" "strNext st' = strNext ?st"
    "\<And>w. bs_text st' w = (if w = v then Option.bind (Some ?a) (\<lambda>b. map_option rep_text (strReps ?st b)) else bs_text ?st w)"
    "\<And>w a. strObj st' w = Some a \<Longrightarrow> strReps st' a = map_option (\<lambda>r. r\<lparr>repRef := int (card (owners st' a))\<rparr>) (strReps ?st a)"
    by (rule set_data_ok [OF c p disjI2 [OF refl], where v = v]) (rule that)
  have new: "strReps st ?a = None" using ok by (simp add: strs_ok_def counted_def)
  have na: "strObj st w \<noteq> Some ?a" for w
    using counted_alive [of st None w ?a] ok new by (auto simp: strs_ok_def)
  have o: "strObj st' = (strObj st)(v := Some ?a)" using s(3) by (simp add: rep_put_def)
  have ow: "owners st' ?a = {v}" using o na by (auto simp: owners_def)
  have "bs_text ?st w = bs_text st w" for w using na [of w] by (auto simp: bs_text_def rep_put_def split: option.split)
  then have "bs_text st' = (bs_text st)(v := Some t)" using s(5) rep_holds_text [OF r(1)] by (auto simp: rep_put_def)
  moreover have "strReps st' ?a = Some (r\<lparr>repRef := 1\<rparr>)" using s(6) [of v ?a] o ow by (simp add: rep_put_def)
  moreover have "\<exists>k. strReps st' b = map_option (\<lambda>r. r\<lparr>repRef := k\<rparr>) (strReps st b)" if "w \<noteq> v" "strObj st w = Some b" for w b
    using s(6) [of w b] o na [of w] that by (auto simp: rep_put_def)
  ultimately show thesis using that s(1,2) o ow by blast
qed

section \<open>Sources\<close>

definition src_gives :: "strs \<Rightarrow> source \<Rightarrow> nat \<Rightarrow> string \<Rightarrow> bool" where
  "src_gives st src n t \<longleftrightarrow> src_length st src n = Inr (length t) \<and> src_bytes st src (length t) = Inr (map Some t) \<and> length t < 2 ^ 30"

lemma data_strlen_null: "null_char \<notin> set s \<Longrightarrow> data_strlen (map Some s @ Some null_char # d) = Inr (length s)"
  by (induction s) auto

lemma src_gives_outside:
  assumes "length s < 2 ^ 30"
  shows "null_char \<notin> set s \<Longrightarrow> src_gives st (Outside s) NPOS s" "n \<le> length s \<Longrightarrow> src_gives st (Outside s) n (take n s)"
proof -
  show "null_char \<notin> set s \<Longrightarrow> src_gives st (Outside s) NPOS s"
    using assms data_strlen_null [of s "[]"] by (simp add: src_gives_def src_length_def src_strlen_def src_bytes_def)
  show "n \<le> length s \<Longrightarrow> src_gives st (Outside s) n (take n s)"
    using assms by (simp add: src_gives_def src_length_def src_bytes_def NPOS_def take_map min_def)
qed

lemma rep_holds_data:
  assumes "rep_holds r t"
  shows "k \<le> length t \<Longrightarrow> take k (repData r) = map Some (take k t)"
    "k + n \<le> length t \<Longrightarrow> take n (drop k (repData r)) = map Some (take n (drop k t))"
proof -
  have e: "take (length t) (repData r) = map Some t"
  proof -
    have "take (length t) (take (Suc (length t)) (repData r)) = take (length t) (map Some (t @ [null_char]))"
      using assms unfolding rep_holds_def by simp
    then show ?thesis by simp
  qed
  show "k \<le> length t \<Longrightarrow> take k (repData r) = map Some (take k t)"
  proof -
    assume "k \<le> length t"
    then have "take k (repData r) = take k (take (length t) (repData r))" by (simp add: min_def)
    then show ?thesis unfolding e by (simp add: take_map)
  qed
  show "k + n \<le> length t \<Longrightarrow> take n (drop k (repData r)) = map Some (take n (drop k t))"
  proof -
    assume that: "k + n \<le> length t"
    have "take n (drop k (repData r)) = drop k (take (k + n) (repData r))" by (simp add: take_drop add.commute)
    also have "\<dots> = drop k (take (k + n) (take (length t) (repData r)))" using that by (simp add: min_def)
    finally show ?thesis unfolding e by (simp add: take_map drop_map take_drop add.commute)
  qed
qed

lemma rep_holds_nth: "rep_holds r t \<Longrightarrow> i \<le> length t \<Longrightarrow> data_get (repData r) i = Inr ((t @ [null_char]) ! i)"
proof -
  assume h: "rep_holds r t" "i \<le> length t"
  have "take (Suc (length t)) (repData r) ! i = map Some (t @ [null_char]) ! i" using h(1) by (simp add: rep_holds_def)
  then have "repData r ! i = Some ((t @ [null_char]) ! i)" using h(2) by (simp add: nth_map del: map_append)
  then show ?thesis using h by (simp add: data_get_def rep_holds_def)
qed

lemma src_gives_inside:
  assumes "strReps st b = Some r" "rep_holds r t" "k + n \<le> length t" "length t < 2 ^ 30"
  shows "src_gives st (Inside (Some b) k) n (take n (drop k t))"
proof -
  have l: "length (take n (drop k t)) = n" "n < 2 ^ 30" using assms(3,4) by simp_all
  have "n \<noteq> NPOS" using l(2) by (simp add: NPOS_def)
  moreover have "k + n \<le> length (repData r)" using assms(2,3) by (simp add: rep_holds_def)
  ultimately show ?thesis
    using rep_holds_data(2) [OF assms(2,3)] assms(1) l by (simp add: src_gives_def src_length_def src_bytes_def rep_get_def)
qed

definition src_kept :: "strs \<Rightarrow> strs \<Rightarrow> source \<Rightarrow> bool" where
  "src_kept st st' src = (case src of Outside s \<Rightarrow> True | Inside p k \<Rightarrow>
     (\<forall>b r. p = Some b \<and> strReps st b = Some r \<longrightarrow> (\<exists>r'. strReps st' b = Some r' \<and> repData r' = repData r)))"

lemma src_gives_kept:
  assumes "src_gives st src n t" "src_kept st st' src"
  shows "src_gives st' src n t"
proof (cases src)
  case (Outside s)
  then show ?thesis using assms by (cases "n = NPOS") (simp_all add: src_gives_def src_length_def src_strlen_def src_bytes_def)
next
  case (Inside p k)
  have "rep_get st p = Inl UndefinedBehaviour \<or> (\<exists>r r'. rep_get st p = Inr r \<and> rep_get st' p = Inr r' \<and> repData r' = repData r)"
    using assms(2) Inside by (auto simp: src_kept_def rep_get_def split: option.splits)
  then show ?thesis using assms(1) Inside
    by (auto simp: src_gives_def src_length_def src_strlen_def src_bytes_def split: if_splits)
qed

lemma src_gives_length: "src_gives st src n t \<Longrightarrow> src_gives st src (length t) t"
  by (simp add: src_gives_def src_length_def NPOS_def)

text \<open>Writing the NUL gives a representation that holds the text written before it.\<close>

lemma data_finish:
  assumes "length d = c" "length t < c" "take (length t) d = map Some t"
  shows "data_set d (length t) null_char = Inr (d[length t := Some null_char])"
    "take (Suc (length t)) (d[length t := Some null_char]) = map Some (t @ [null_char])"
  using assms by (simp_all add: data_set_def take_Suc_conv_app_nth)

lemma rep_finish_holds:
  assumes "rep_holds r u" "length d = length (repData r)" "length t < repCapacity r" "take (length t) d = map Some t"
  obtains r' where "rep_finish st p r (length t) d = Inr (rep_put st p r')" "rep_holds r' t" "repRef r' = repRef r"
    "repCapacity r' = repCapacity r"
proof -
  let ?r = "r\<lparr>repLength := length t, repData := d[length t := Some null_char]\<rparr>"
  note f = data_finish [OF _ assms(3,4)]
  have "length d = repCapacity r" using assms(1,2) by (simp add: rep_holds_def)
  then have "rep_finish st p r (length t) d = Inr (rep_put st p ?r)" "rep_holds ?r t"
    using f assms(1,3) by (simp_all add: rep_finish_def rep_holds_def)
  then show thesis using that [of ?r] by simp
qed

lemma copy_in_run:
  assumes "strReps st a = Some r" "src_gives st src n t" "d + length t \<le> length (repData r)" "\<not> overlap (Some a) d src (length t)"
  shows "copy_in st (Some a) d src (length t) = Inr (take d (repData r) @ map Some t @ drop (d + length t) (repData r))"
  using assms by (simp add: copy_in_def rep_get_def src_gives_def)

lemma rep_assign_run:
  assumes a: "strReps st a = Some r" and c: "length (repData r) = repCapacity r" "repCapacity r < 2 ^ 31" "length t < repCapacity r"
    and s: "src_gives st src n t" "\<not> overlap (Some a) 0 src (length t)"
  obtains r' where "rep_assign st (Some a) src n = Inr (rep_put st (Some a) r')" "rep_holds r' t" "repRef r' = repRef r"
    "repCapacity r' = repCapacity r"
proof -
  let ?d = "map Some t @ drop (length t) (repData r)"
  let ?r = "r\<lparr>repLength := length t, repData := ?d[length t := Some null_char]\<rparr>"
  have d: "copy_in st (Some a) 0 src (length t) = Inr ?d" using copy_in_run [OF a s(1) _ s(2)] c by simp
  have l: "length ?d = repCapacity r" "take (length t) ?d = map Some t" using c(1,3) by simp_all
  note f = data_finish [OF l(1) c(3) l(2)]
  have "rep_assign st (Some a) src n = Inr (rep_put st (Some a) ?r)"
    using a d f(1) c(3) s(1) by (simp add: rep_assign_def src_gives_def rep_get_def Let_def del: append_eq_conv_conj)
  moreover have "rep_holds ?r t" using f(2) l(1) c by (simp add: rep_holds_def)
  ultimately show thesis using that [of ?r] by simp
qed

section \<open>New representations\<close>

text \<open>An object with its representation and the text that it holds.\<close>

definition bs_at_rep :: "strs \<Rightarrow> nat \<Rightarrow> nat \<Rightarrow> rep \<Rightarrow> string \<Rightarrow> bool" where
  "bs_at_rep st v a r t \<longleftrightarrow> strs_ok st \<and> strObj st v = Some a \<and> strReps st a = Some r \<and> rep_holds r t"

lemma bs_at_repD:
  assumes "bs_at_rep st v a r t"
  shows "strs_ok st" "strObj st v = Some a" "strReps st a = Some r" "rep_holds r t" "this_rep st v = Inr r" "bs_text st v = Some t"
    "bs_length st v = Inr (length t)" "bs_capacity st v = Inr (repCapacity r)" "repRef r = int (card (owners st a))" "v \<in> owners st a"
    "repLength r = length t" "length (repData r) = repCapacity r" "length t < repCapacity r" "repCapacity r < 2 ^ 31"
proof -
  show h: "strs_ok st" "strObj st v = Some a" "strReps st a = Some r" "rep_holds r t" using assms by (simp_all add: bs_at_rep_def)
  show l: "repLength r = length t" "length (repData r) = repCapacity r" "length t < repCapacity r" "repCapacity r < 2 ^ 31"
    using h(4) by (simp_all add: rep_holds_def)
  show i: "this_rep st v = Inr r" using h by (simp add: this_rep_def rep_get_def)
  show "bs_text st v = Some t" using h rep_holds_text [OF h(4)] by (simp add: bs_text_def)
  show "bs_length st v = Inr (length t)" using i l(1) by (simp add: bs_length_def)
  show "bs_capacity st v = Inr (repCapacity r)" using i h(2) by (simp add: bs_capacity_def)
  show "repRef r = int (card (owners st a))" using h by (simp add: strs_ok_def counted_def)
  show "v \<in> owners st a" using h by (simp add: owners_def)
qed

lemma bs_at_repE:
  assumes "strs_ok st" "bs_text st v = Some t"
  obtains a r where "bs_at_rep st v a r t"
proof -
  obtain a where a: "strObj st v = Some a" using assms(2) by (auto simp: bs_text_def split: option.splits)
  obtain r t' where "strReps st a = Some r" "rep_holds r t'" "bs_text st v = Some t'"
    using counted_get [of st None v a] assms(1) a unfolding strs_ok_def by metis
  then show thesis using that assms a by (simp add: bs_at_rep_def)
qed

lemma src_not_new: "strs_ok st \<Longrightarrow> src_gives st src n t \<Longrightarrow> \<not> overlap (Some (strNext st)) d src k"
  by (cases src) (auto simp: overlap_def src_gives_def src_bytes_def rep_get_def strs_ok_def counted_def)

lemma new_get: "strs_ok st \<Longrightarrow> strReps st (strNext st) = None"
  by (simp add: strs_ok_def counted_def)

lemma rep_put_put [simp]: "rep_put (rep_put st p r) p r' = rep_put st p r'"
  by (simp add: rep_put_def split: option.split)

lemma rep_put_simps [simp]:
  "strReps (rep_put st (Some a) r) b = (if b = a then Some r else strReps st b)" "strObj (rep_put st p r) = strObj st"
  "strNext (rep_put st p r) = strNext st"
  by (simp_all add: rep_put_def split: option.split)

text \<open>A representation with room for a text takes it over from a source.\<close>

lemma fresh_assign:
  assumes ok: "strs_ok st" and s: "src_gives st src n t" and r: "length (repData r) = repCapacity r" "repCapacity r < 2 ^ 31" "length t < repCapacity r"
  obtains r' where "rep_assign (rep_put (st\<lparr>strNext := k\<rparr>) (Some (strNext st)) r) (Some (strNext st)) src n =
      Inr (rep_put (st\<lparr>strNext := k\<rparr>) (Some (strNext st)) r')" "rep_holds r' t" "repRef r' = repRef r" "repCapacity r' = repCapacity r"
proof -
  let ?st = "rep_put (st\<lparr>strNext := k\<rparr>) (Some (strNext st)) r"
  have "src_kept st ?st src" using new_get [OF ok] by (auto simp: src_kept_def split: source.split)
  then have s': "src_gives ?st src n t" by (rule src_gives_kept [OF s])
  have g: "strReps ?st (strNext st) = Some r" by simp
  show thesis
    by (rule rep_assign_run [OF g r s' src_not_new [OF ok s]]) (use that in simp)
qed

lemma rep_new_from_run:
  assumes "strs_ok st" "src_gives st src n t"
  obtains r where "rep_new_from st src n = Inr (rep_put (st\<lparr>strNext := Suc (strNext st)\<rparr>) (Some (strNext st)) r, Some (strNext st))"
    "rep_holds r t" "repRef r = 0" "repCapacity r = Suc (length t)"
proof -
  let ?r = "\<lparr>repCapacity = Suc (length t), repLength = 0, repData = replicate (Suc (length t)) None, repRef = 0\<rparr>"
  have l: "length t < 2 ^ 30" "src_length st src n = Inr (length t)" using assms(2) by (simp_all add: src_gives_def)
  then have u: "unsig (length t + 1) = Suc (length t)" by (simp add: unsig_def)
  obtain r' where "rep_assign (rep_put (st\<lparr>strNext := Suc (strNext st)\<rparr>) (Some (strNext st)) ?r) (Some (strNext st)) src (length t) =
      Inr (rep_put (st\<lparr>strNext := Suc (strNext st)\<rparr>) (Some (strNext st)) r')" "rep_holds r' t" "repRef r' = 0" "repCapacity r' = Suc (length t)"
    by (rule fresh_assign [OF assms(1) src_gives_length [OF assms(2)], of ?r "Suc (strNext st)"]) (use l(1) in simp_all)
  then show thesis using that [of r'] l(2) u by (simp add: rep_new_from_def Let_def)
qed

lemma rep_new_run:
  assumes "0 < c" "c < 2 ^ 31"
  obtains r where "rep_new st c = Inr (rep_put (st\<lparr>strNext := Suc (strNext st)\<rparr>) (Some (strNext st)) r, Some (strNext st))"
    "rep_holds r []" "repRef r = 0" "repCapacity r = c"
proof -
  let ?r = "\<lparr>repCapacity = c, repLength = 0, repData = (replicate c None)[0 := Some null_char], repRef = 0\<rparr>"
  have "rep_holds ?r []" using assms by (cases c) (simp_all add: rep_holds_def)
  then show thesis using that [of ?r] assms by (simp add: rep_new_def Let_def)
qed

text \<open>The text of an object in a representation of its own.\<close>

lemma clone_run:
  assumes v: "bs_at_rep st v a r t" and c: "length t < c" "c < 2 ^ 31" and t: "length t < 2 ^ 30"
  obtains st1 st' r' where "rep_new st c = Inr (st1, Some (strNext st))" "this_rep st1 v = Inr r" "strObj st1 = strObj st"
    "andThen (rep_assign st1 (Some (strNext st)) (bs_data st1 v 0) (length t)) (\<lambda>s. set_data s v (Some (strNext st))) = Inr st'"
    "strNext st1 = Suc (strNext st)"
    "bs_at_rep st' v (strNext st) r' t" "repCapacity r' = c" "owners st' (strNext st) = {v}" "bs_text st' = bs_text st"
    "strObj st' = (strObj st)(v := Some (strNext st))"
    "\<And>w b. w \<noteq> v \<Longrightarrow> strObj st w = Some b \<Longrightarrow> \<exists>k. strReps st' b = map_option (\<lambda>r. r\<lparr>repRef := k\<rparr>) (strReps st b)"
proof -
  note d = bs_at_repD [OF v]
  let ?a = "strNext st" and ?s = "st\<lparr>strNext := Suc (strNext st)\<rparr>"
  have c0: "0 < c" using c(1) by simp
  obtain r0 where r0: "rep_new st c = Inr (rep_put ?s (Some ?a) r0, Some ?a)" "rep_holds r0 []" "repRef r0 = 0" "repCapacity r0 = c"
    by (rule rep_new_run [OF c0 c(2), of st])
  have na: "a \<noteq> ?a" using d(3) new_get [OF d(1)] by auto
  have src: "src_gives st (Inside (Some a) 0) (length t) t" using src_gives_inside [OF d(3,4), of 0 "length t"] t by simp
  have l0: "length (repData r0) = repCapacity r0" "repCapacity r0 < 2 ^ 31" "length t < repCapacity r0"
    using r0(2,4) c by (simp_all add: rep_holds_def)
  obtain r1 where r1: "rep_assign (rep_put ?s (Some ?a) r0) (Some ?a) (Inside (Some a) 0) (length t) = Inr (rep_put ?s (Some ?a) r1)"
    "rep_holds r1 t" "repRef r1 = repRef r0" "repCapacity r1 = repCapacity r0"
    by (rule fresh_assign [OF d(1) src l0])
  have z: "repRef r1 = 0" using r1(3) r0(3) by simp
  obtain st' where s: "set_data (rep_put ?s (Some ?a) r1) v (Some ?a) = Inr st'" "strs_ok st'" "strObj st' = (strObj st)(v := Some ?a)"
    "bs_text st' = (bs_text st)(v := Some t)" "strReps st' ?a = Some (r1\<lparr>repRef := 1\<rparr>)" "owners st' ?a = {v}"
    "\<And>w b. w \<noteq> v \<Longrightarrow> strObj st w = Some b \<Longrightarrow> \<exists>k. strReps st' b = map_option (\<lambda>r. r\<lparr>repRef := k\<rparr>) (strReps st b)"
    by (rule set_fresh [OF d(1) r1(2) z, where v = v]) (rule that)
  have "bs_text st' = bs_text st" using s(4) d(6) by (simp add: fun_upd_idem)
  moreover have "bs_at_rep st' v ?a (r1\<lparr>repRef := 1\<rparr>) t" using s r1(2) by (simp add: bs_at_rep_def)
  moreover have "this_rep (rep_put ?s (Some ?a) r0) v = Inr r" using d(2,3) na by (simp add: this_rep_def rep_get_def)
  ultimately show thesis
    using that [of "rep_put ?s (Some ?a) r0" st' "r1\<lparr>repRef := 1\<rparr>"] r0(1,4) r1(1,4) s d(2) by (simp add: bs_data_def)
qed

text \<open>Sources that an operation on \<open>v\<close> leaves alone: outside, and the buffers of other objects.\<close>

definition src_apart :: "strs \<Rightarrow> nat \<Rightarrow> source \<Rightarrow> bool" where
  "src_apart st v src = (case src of Outside s \<Rightarrow> True | Inside p k \<Rightarrow> \<exists>w. w \<noteq> v \<and> strObj st w = p)"

text \<open>The state after an operation that gives \<open>v\<close> a representation but no new text.\<close>

definition same_texts :: "strs \<Rightarrow> nat \<Rightarrow> strs \<Rightarrow> bool" where
  "same_texts st v st' \<longleftrightarrow> bs_text st' = bs_text st \<and> (\<forall>w. w \<noteq> v \<longrightarrow> strObj st' w = strObj st w) \<and>
     (\<forall>src. src_apart st v src \<longrightarrow> src_kept st st' src)"

lemma same_texts_refl: "same_texts st v st"
  by (auto simp: same_texts_def src_kept_def split: source.split)

lemma same_textsI:
  assumes "bs_text st' = bs_text st" "strObj st' = (strObj st)(v := p)"
    "\<And>w b. w \<noteq> v \<Longrightarrow> strObj st w = Some b \<Longrightarrow> \<exists>k. strReps st' b = map_option (\<lambda>r. r\<lparr>repRef := k\<rparr>) (strReps st b)"
  shows "same_texts st v st'"
proof -
  have "src_kept st st' src" if a: "src_apart st v src" for src
  proof (cases src)
    case (Inside q k)
    then obtain w where w: "w \<noteq> v" "strObj st w = q" using a by (auto simp: src_apart_def)
    show ?thesis
    proof (cases q)
      case (Some b)
      then obtain k' where "strReps st' b = map_option (\<lambda>r. r\<lparr>repRef := k'\<rparr>) (strReps st b)" using assms(3) [of w b] w by blast
      then show ?thesis using Inside Some by (auto simp: src_kept_def)
    qed (use Inside in \<open>simp add: src_kept_def\<close>)
  qed (simp add: src_kept_def)
  then show ?thesis using assms(1,2) by (simp add: same_texts_def)
qed

lemma same_texts_trans:
  assumes "same_texts st v st1" "same_texts st1 v st2"
  shows "same_texts st v st2"
proof -
  have "src_kept st st2 src" if a: "src_apart st v src" for src
  proof -
    have k: "src_kept st st1 src" using assms(1) a by (simp add: same_texts_def)
    have "src_apart st1 v src" using a assms(1) by (auto simp: src_apart_def same_texts_def split: source.splits)
    then have "src_kept st1 st2 src" using assms(2) by (simp add: same_texts_def)
    then show ?thesis using k by (fastforce simp: src_kept_def split: source.splits)
  qed
  then show ?thesis using assms by (simp add: same_texts_def)
qed

lemma same_texts_gives: "same_texts st v st' \<Longrightarrow> src_apart st v src \<Longrightarrow> src_gives st src n t \<Longrightarrow> src_gives st' src n t"
  using src_gives_kept by (simp add: same_texts_def)

lemma bs_reserve_run:
  assumes v: "bs_at_rep st v a r t" and res: "res < 2 ^ 30"
  obtains st' a' r' where "bs_reserve st v res = Inr st'" "bs_at_rep st' v a' r' t" "res \<le> repCapacity r'" "same_texts st v st'"
    "owners st' a' = (if repCapacity r < res then {v} else owners st a)"
proof (cases "repCapacity r < res")
  case False
  then have "bs_reserve st v res = Inr st" using bs_at_repD(8) [OF v] by (simp add: bs_reserve_def)
  then show thesis using that [of st a r] v False same_texts_refl by simp
next
  case True
  note d = bs_at_repD [OF v]
  define c where "c = (if res < unsig (repCapacity r * 2) then unsig (repCapacity r * 2) else res)"
  have u: "unsig (repCapacity r * 2) = repCapacity r * 2" using True res by (simp add: unsig_def)
  then have c: "length t < c" "c < 2 ^ 31" "res \<le> c" using True res d(13) by (simp_all add: c_def)
  then have uc: "unsig c = c" by (simp add: unsig_def)
  have t: "length t < 2 ^ 30" using d(13) True res by simp
  obtain st1 st' r' where s: "rep_new st c = Inr (st1, Some (strNext st))" "this_rep st1 v = Inr r" "strObj st1 = strObj st"
    "andThen (rep_assign st1 (Some (strNext st)) (bs_data st1 v 0) (length t)) (\<lambda>s. set_data s v (Some (strNext st))) = Inr st'"
    "strNext st1 = Suc (strNext st)"
    "bs_at_rep st' v (strNext st) r' t" "repCapacity r' = c" "owners st' (strNext st) = {v}" "bs_text st' = bs_text st"
    "strObj st' = (strObj st)(v := Some (strNext st))"
    "\<And>w b. w \<noteq> v \<Longrightarrow> strObj st w = Some b \<Longrightarrow> \<exists>k. strReps st' b = map_option (\<lambda>r. r\<lparr>repRef := k\<rparr>) (strReps st b)"
    by (rule clone_run [OF v c(1,2) t]) (rule that)
  have "bs_reserve st v res = Inr st'"
    using True d(8,11) s(1,2,4) uc by (simp add: bs_reserve_def c_def [symmetric])
  then show thesis using that [of st' "strNext st" r'] s(6,7,8) c(3) True same_textsI [OF s(9,10,11)] by simp
qed

lemma bs_unshare_run:
  assumes v: "bs_at_rep st v a r t" and t: "length t < 2 ^ 30"
  obtains st' a' r' where "bs_unshare st v = Inr st'" "bs_at_rep st' v a' r' t" "same_texts st v st'" "owners st' a' = {v}"
    "repCapacity r' = repCapacity r"
proof (cases "1 < repRef r")
  case False
  note d = bs_at_repD [OF v]
  have "finite (owners st a)" using d(1) finite_owners unfolding strs_ok_def by blast
  moreover have "card (owners st a) \<le> 1" using False d(9) by simp
  ultimately have "owners st a = {v}" using d(10) by (auto simp: card_le_Suc0_iff_eq)
  moreover have "bs_unshare st v = Inr st" using False d(2,3) by (simp add: bs_unshare_def rep_copyOnWrite_def rep_get_def)
  ultimately show thesis using that [of st a r] v same_texts_refl by simp
next
  case True
  note d = bs_at_repD [OF v]
  obtain st1 st' r' where s: "rep_new st (repCapacity r) = Inr (st1, Some (strNext st))" "this_rep st1 v = Inr r" "strObj st1 = strObj st"
    "andThen (rep_assign st1 (Some (strNext st)) (bs_data st1 v 0) (length t)) (\<lambda>s. set_data s v (Some (strNext st))) = Inr st'"
    "strNext st1 = Suc (strNext st)"
    "bs_at_rep st' v (strNext st) r' t" "repCapacity r' = repCapacity r" "owners st' (strNext st) = {v}" "bs_text st' = bs_text st"
    "strObj st' = (strObj st)(v := Some (strNext st))"
    "\<And>w b. w \<noteq> v \<Longrightarrow> strObj st w = Some b \<Longrightarrow> \<exists>k. strReps st' b = map_option (\<lambda>r. r\<lparr>repRef := k\<rparr>) (strReps st b)"
    by (rule clone_run [OF v d(13,14) t]) (rule that)
  obtain s2 where s2: "rep_assign st1 (Some (strNext st)) (Inside (Some a) 0) (length t) = Inr s2" "set_data s2 v (Some (strNext st)) = Inr st'"
    using s(3,4) d(2) by (auto simp: bs_data_def andThen_Inr_iff)
  have "bs_unshare st v = Inr st'"
    using True d(2,3,11) s(1) s2 by (simp add: bs_unshare_def rep_copyOnWrite_def rep_get_def)
  then show thesis using that [of st' "strNext st" r'] s(6,7,8) same_textsI [OF s(9,10,11)] by simp
qed

text \<open>An operation that ends with a new text in the representation of \<open>v\<close>.\<close>

lemma finish_text:
  assumes "bs_at_rep st v a r u" "length d = length (repData r)" "length t < repCapacity r" "take (length t) d = map Some t"
  obtains st' r' where "rep_finish st (strObj st v) r (length t) d = Inr st'" "bs_at_rep st' v a r' t" "strObj st' = strObj st"
    "repCapacity r' = repCapacity r"
    "bs_text st' = (\<lambda>w. if w \<in> owners st a then Some t else bs_text st w)"
proof -
  note d = bs_at_repD [OF assms(1)]
  obtain r' where r': "rep_finish st (Some a) r (length t) d = Inr (rep_put st (Some a) r')" "rep_holds r' t" "repRef r' = repRef r"
    "repCapacity r' = repCapacity r"
    by (rule rep_finish_holds [OF d(4) assms(2,3,4)])
  have "bs_text (rep_put st (Some a) r') = (\<lambda>w. if w \<in> owners st a then Some t else bs_text st w)"
    using rep_put_ok(2) [OF d(1,3) r'(2,3)] by (simp add: fun_eq_iff owners_def)
  then show thesis
    using that [of "rep_put st (Some a) r'" r'] r' d(2) rep_put_ok(1) [OF d(1,3) r'(2,3)] by (simp add: bs_at_rep_def)
qed

text \<open>An operation that changes at most \<open>v\<close>.\<close>

definition changes_only :: "strs \<Rightarrow> nat \<Rightarrow> strs \<Rightarrow> bool" where
  "changes_only st v st' \<longleftrightarrow> (\<forall>w. w \<noteq> v \<longrightarrow> bs_text st' w = bs_text st w \<and> strObj st' w = strObj st w) \<and>
     (\<forall>src. src_apart st v src \<longrightarrow> src_kept st st' src)"

lemma same_texts_changes: "same_texts st v st' \<Longrightarrow> changes_only st v st'"
  by (simp add: same_texts_def changes_only_def)

lemma changes_only_apart: "changes_only st v st' \<Longrightarrow> src_apart st v src \<Longrightarrow> src_apart st' v src"
  by (auto simp: src_apart_def changes_only_def split: source.splits)

lemma changes_only_trans:
  assumes "changes_only st v st1" "changes_only st1 v st2"
  shows "changes_only st v st2"
proof -
  have "src_kept st st2 src" if a: "src_apart st v src" for src
  proof -
    have "src_kept st st1 src" using assms(1) a by (simp add: changes_only_def)
    moreover have "src_kept st1 st2 src" using assms(2) changes_only_apart [OF assms(1) a] by (simp add: changes_only_def)
    ultimately show ?thesis by (fastforce simp: src_kept_def split: source.splits)
  qed
  then show ?thesis using assms by (simp add: changes_only_def)
qed

lemma changes_only_gives: "changes_only st v st' \<Longrightarrow> src_apart st v src \<Longrightarrow> src_gives st src n t \<Longrightarrow> src_gives st' src n t"
  using src_gives_kept by (simp add: changes_only_def)

lemma apart_no_overlap: "src_apart st v src \<Longrightarrow> owners st a = {v} \<Longrightarrow> \<not> overlap (Some a) d src n"
  by (auto simp: src_apart_def overlap_def owners_def split: source.splits)

lemma rep_put_changes:
  assumes "owners st a = {v}" "strObj st v = Some a" "strObj st' = strObj st" "\<And>b. b \<noteq> a \<Longrightarrow> strReps st' b = strReps st b"
  shows "changes_only st v st'"
proof -
  have na: "w \<noteq> v \<Longrightarrow> strObj st w \<noteq> Some a" for w using assms(1) by (auto simp: owners_def)
  have "bs_text st' w = bs_text st w" if "w \<noteq> v" for w
    using na [OF that] assms(3,4) by (auto simp: bs_text_def split: option.split)
  moreover have "src_kept st st' src" if "src_apart st v src" for src
    using that na assms(4) by (fastforce simp: src_apart_def src_kept_def split: source.splits)
  ultimately show ?thesis using assms(3) by (simp add: changes_only_def)
qed

lemma finish_own:
  assumes "bs_at_rep st v a r u" "length d = length (repData r)" "length t < repCapacity r" "take (length t) d = map Some t"
    and o: "owners st a = {v}"
  obtains st' r' where "rep_finish st (strObj st v) r (length t) d = Inr st'" "bs_at_rep st' v a r' t" "owners st' a = {v}"
    "repCapacity r' = repCapacity r" "changes_only st v st'"
proof -
  note d = bs_at_repD [OF assms(1)]
  obtain r' where r': "rep_finish st (Some a) r (length t) d = Inr (rep_put st (Some a) r')" "rep_holds r' t" "repRef r' = repRef r"
    "repCapacity r' = repCapacity r"
    by (rule rep_finish_holds [OF d(4) assms(2,3,4)])
  have "changes_only st v (rep_put st (Some a) r')" by (rule rep_put_changes [OF o d(2)]) simp_all
  moreover have "owners (rep_put st (Some a) r') a = {v}" using o by (simp add: owners_def)
  ultimately show thesis
    using that [of "rep_put st (Some a) r'" r'] r' d(2) rep_put_ok(1) [OF d(1,3) r'(2,3)] by (simp add: bs_at_rep_def)
qed

section \<open>Loops over the buffer\<close>

lemma fill_loop_run: "i + k \<le> length d \<Longrightarrow> fill_loop k d i c = Inr (take i d @ replicate k (Some c) @ drop (i + k) d)"
proof (induction k arbitrary: d i)
  case (Suc k)
  then have "take (Suc i) (d[i := Some c]) = take i d @ [Some c]" "drop (Suc i + k) (d[i := Some c]) = drop (i + Suc k) d"
    by (simp_all add: take_Suc_conv_app_nth)
  moreover have "fill_loop k (d[i := Some c]) (Suc i) c =
      Inr (take (Suc i) (d[i := Some c]) @ replicate k (Some c) @ drop (Suc i + k) (d[i := Some c]))"
    using Suc.prems by (intro Suc.IH) simp
  ultimately show ?case using Suc.prems by (simp add: data_set_def)
qed simp

lemma move_up_run:
  "pos + length xs + n \<le> length d \<Longrightarrow> take (length xs) (drop pos d) = map Some xs \<Longrightarrow>
    move_up (length xs) d pos n = Inr (take (pos + n) d @ map Some xs @ drop (pos + n + length xs) d)"
proof (induction xs arbitrary: d rule: rev_induct)
  case Nil
  then show ?case by simp
next
  case (snoc x xs)
  let ?k = "length xs"
  have l: "pos + ?k < length d" using snoc.prems(1) by simp
  have t: "take (Suc ?k) (drop pos d) = map Some xs @ [Some x]" using snoc.prems(2) by simp
  then have x: "d ! (pos + ?k) = Some x" "take ?k (drop pos d) = map Some xs"
    using l by (simp_all add: take_Suc_conv_app_nth)
  let ?d = "d[pos + ?k + n := Some x]"
  have "take ?k (drop pos ?d) = map Some xs"
  proof -
    have "take ?k (drop pos ?d) = take ?k (drop pos d)" by (simp add: take_drop)
    then show ?thesis using x(2) by simp
  qed
  then have "move_up ?k ?d pos n = Inr (take (pos + n) ?d @ map Some xs @ drop (pos + n + ?k) ?d)"
    using snoc.prems(1) by (intro snoc.IH) simp_all
  moreover have "drop (pos + n + ?k) ?d = Some x # drop (Suc (pos + n + ?k)) d"
    using snoc.prems(1) by (simp add: drop_update_swap Cons_nth_drop_Suc [symmetric] ac_simps)
  moreover have "take (pos + n) ?d = take (pos + n) d" by simp
  ultimately show ?case using x(1) l snoc.prems(1) by (simp add: data_get_def data_set_def ac_simps)
qed

lemma move_down_run:
  "n \<le> i \<Longrightarrow> i + length xs \<le> length d \<Longrightarrow> take (length xs) (drop i d) = map Some xs \<Longrightarrow>
    move_down (length xs) d i n = Inr (take (i - n) d @ map Some xs @ drop (i - n + length xs) d)"
proof (induction xs arbitrary: d i)
  case (Cons x xs)
  let ?d = "d[i - n := Some x]"
  have l: "i < length d" using Cons.prems(2) by simp
  have "drop i d = d ! i # drop (Suc i) d" using l by (simp add: Cons_nth_drop_Suc)
  then have x: "d ! i = Some x" "take (length xs) (drop (Suc i) d) = map Some xs" using Cons.prems(3) by simp_all
  have "drop (Suc i) ?d = drop (Suc i) d" by (simp add: less_Suc_eq_le)
  then have "move_down (length xs) ?d (Suc i) n = Inr (take (Suc i - n) ?d @ map Some xs @ drop (Suc i - n + length xs) ?d)"
    using Cons.prems x(2) by (intro Cons.IH) simp_all
  moreover have "take (Suc i - n) ?d = take (i - n) d @ [Some x]"
    using Cons.prems(1) l by (simp add: Suc_diff_le take_Suc_conv_app_nth)
  moreover have "drop (Suc i - n + length xs) ?d = drop (i - n + Suc (length xs)) d"
    using Cons.prems(1) by (simp add: Suc_diff_le)
  ultimately show ?case using x(1) l Cons.prems(1) by (simp add: data_get_def data_set_def)
qed simp

section \<open>What the operations do\<close>

text \<open>
  An operation that writes behind the text: if the capacity is great enough the other owners of the
  representation see it.
\<close>

definition grown :: "strs \<Rightarrow> nat \<Rightarrow> string \<Rightarrow> nat \<Rightarrow> nat \<Rightarrow> string option" where
  "grown st v x need = (\<lambda>w. if w = v \<or> (strObj st w = strObj st v \<and>
     (case this_rep st v of Inl e \<Rightarrow> False | Inr r \<Rightarrow> need \<le> repCapacity r)) then Some x else bs_text st w)"

lemma grown_text:
  assumes "bs_at_rep st v a r t" "same_texts st v st1" "bs_at_rep st1 v a1 r1 t"
    "owners st1 a1 = (if repCapacity r < need then {v} else owners st a)"
  shows "(\<lambda>w. if w \<in> owners st1 a1 then Some x else bs_text st1 w) = grown st v x need"
proof
  fix w
  note d = bs_at_repD [OF assms(1)]
  have e: "w \<in> owners st a \<longleftrightarrow> strObj st w = strObj st v" using d(2) by (simp add: owners_def)
  have "bs_text st1 w = bs_text st w" using assms(2) by (simp add: same_texts_def)
  then show "(if w \<in> owners st1 a1 then Some x else bs_text st1 w) = grown st v x need w"
    using assms(4) e d(5) by (auto simp: grown_def split: if_splits)
qed

text \<open>The text is written behind the room that was reserved.\<close>

lemma extend_run:
  assumes v: "bs_at_rep st v a r t" and s: "same_texts st v st1" and v1: "bs_at_rep st1 v a1 r1 t"
    and o: "owners st1 a1 = (if repCapacity r < need then {v} else owners st a)"
    and d: "length d = length (repData r1)" "length x < repCapacity r1" "take (length x) d = map Some x"
  obtains st' r' where "rep_finish st1 (strObj st1 v) r1 (length x) d = Inr st'" "bs_at_rep st' v a1 r' x"
    "bs_text st' = grown st v x need" "owners st a = {v} \<Longrightarrow> owners st' a1 = {v} \<and> changes_only st v st'"
proof -
  obtain st' r' where f: "rep_finish st1 (strObj st1 v) r1 (length x) d = Inr st'" "bs_at_rep st' v a1 r' x" "strObj st' = strObj st1"
    "repCapacity r' = repCapacity r1" "bs_text st' = (\<lambda>w. if w \<in> owners st1 a1 then Some x else bs_text st1 w)"
    by (rule finish_text [OF v1 d])
  have "owners st a = {v} \<Longrightarrow> owners st' a1 = {v} \<and> changes_only st v st'"
  proof -
    assume "owners st a = {v}"
    then have o1: "owners st1 a1 = {v}" using o by simp
    obtain st2 r2 where "rep_finish st1 (strObj st1 v) r1 (length x) d = Inr st2" "owners st2 a1 = {v}" "changes_only st1 v st2"
      by (rule finish_own [OF v1 d o1])
    then show ?thesis using f(1) changes_only_trans [OF same_texts_changes [OF s]] by simp
  qed
  then show thesis using that [of st' r'] f grown_text [OF v s v1 o] by simp
qed

lemma bs_append_run:
  assumes v: "bs_at_rep st v a r t" and s: "src_gives st src n x" "src_apart st v src"
    and l: "length t + length x + 1 < 2 ^ 30" and o: "\<not> overlap (Some a) (length t) src (length x)"
  obtains st' a' r' where "bs_append st v src n = Inr st'" "bs_at_rep st' v a' r' (t @ x)" "bs_text st' = grown st v (t @ x) (length t + length x + 1)"
    "owners st a = {v} \<Longrightarrow> owners st' a' = {v} \<and> changes_only st v st'"
proof -
  note d = bs_at_repD [OF v]
  let ?m = "length t + length x + 1"
  obtain st1 a1 r1 where r1: "bs_reserve st v ?m = Inr st1" "bs_at_rep st1 v a1 r1 t" "?m \<le> repCapacity r1" "same_texts st v st1"
    "owners st1 a1 = (if repCapacity r < ?m then {v} else owners st a)" by (rule bs_reserve_run [OF v l])
  note d1 = bs_at_repD [OF r1(2)]
  have s1: "src_gives st1 src n x" by (rule same_texts_gives [OF r1(4) s(2,1)])
  have ap: "src_apart st1 v src" by (rule changes_only_apart [OF same_texts_changes [OF r1(4)] s(2)])
  have no: "\<not> overlap (Some a1) (length t) src (length x)"
  proof (cases "repCapacity r < ?m")
    case True
    then show ?thesis using apart_no_overlap [OF ap] r1(5) by simp
  next
    case False
    then have "st1 = st" using r1(1) d(8) by (simp add: bs_reserve_def)
    then show ?thesis using o d(2) d1(2) by simp
  qed
  let ?d = "take (length t) (repData r1) @ map Some x @ drop (length t + length x) (repData r1)"
  have c: "copy_in st1 (Some a1) (length t) src (length x) = Inr ?d"
    using copy_in_run [OF d1(3) s1 _ no] r1(3) d1(12) by simp
  have ld: "length ?d = length (repData r1)" using r1(3) d1(12) by simp
  have td: "take (length (t @ x)) ?d = map Some (t @ x)"
    using rep_holds_data(1) [OF d1(4), of "length t"] r1(3) d1(12) by simp
  have cap: "length (t @ x) < repCapacity r1" using r1(3) by simp
  have u: "unsig (length t + length x + 1) = ?m" "unsig (length t + length x) = length (t @ x)" using l by (simp_all add: unsig_def)
  have run: "bs_append st v src n = rep_finish st1 (strObj st1 v) r1 (length (t @ x)) ?d"
    using s(1) d(7) r1(1) c d1(2,5,11) u by (simp add: bs_append_def src_gives_def)
  show thesis
    by (rule extend_run [OF v r1(4,2,5) ld cap td]) (use that run in simp)
qed

lemma bs_append_chars_run:
  assumes v: "bs_at_rep st v a r t" and l: "length t + n + 1 < 2 ^ 30"
  obtains st' a' r' where "bs_append_chars st v n c = Inr st'" "bs_at_rep st' v a' r' (t @ replicate n c)"
    "bs_text st' = grown st v (t @ replicate n c) (length t + n + 1)" "owners st a = {v} \<Longrightarrow> owners st' a' = {v} \<and> changes_only st v st'"
proof -
  note d = bs_at_repD [OF v]
  let ?m = "length t + n + 1" and ?x = "t @ replicate n c"
  obtain st1 a1 r1 where r1: "bs_reserve st v ?m = Inr st1" "bs_at_rep st1 v a1 r1 t" "?m \<le> repCapacity r1" "same_texts st v st1"
    "owners st1 a1 = (if repCapacity r < ?m then {v} else owners st a)" by (rule bs_reserve_run [OF v l])
  note d1 = bs_at_repD [OF r1(2)]
  let ?d = "take (length t) (repData r1) @ replicate n (Some c) @ drop (length t + n) (repData r1)"
  have c: "fill_loop n (repData r1) (length t) c = Inr ?d" using fill_loop_run [of "length t" n "repData r1" c] r1(3) d1(12) by simp
  have ld: "length ?d = length (repData r1)" using r1(3) d1(12) by simp
  have td: "take (length ?x) ?d = map Some ?x"
    using rep_holds_data(1) [OF d1(4), of "length t"] r1(3) d1(12) by simp
  have cap: "length ?x < repCapacity r1" using r1(3) by simp
  have u: "unsig (length t + n + 1) = ?m" "unsig (length t + n) = length ?x" using l by (simp_all add: unsig_def)
  have run: "bs_append_chars st v n c = rep_finish st1 (strObj st1 v) r1 (length ?x) ?d"
    using d(7) r1(1) c d1(5,11) u by (simp add: bs_append_chars_def)
  show thesis
    by (rule extend_run [OF v r1(4,2,5) ld cap td]) (use that run in simp)
qed

lemma bs_resize_run:
  assumes v: "bs_at_rep st v a r t" and l: "n + 1 < 2 ^ 30"
  obtains st' a' r' where "bs_resize st v n c = Inr st'" "bs_at_rep st' v a' r' (take n t @ replicate (n - length t) c)"
    "bs_text st' = grown st v (take n t @ replicate (n - length t) c) (n + 1)"
proof -
  note d = bs_at_repD [OF v]
  let ?x = "take n t @ replicate (n - length t) c"
  obtain st1 a1 r1 where r1: "bs_reserve st v (n + 1) = Inr st1" "bs_at_rep st1 v a1 r1 t" "n + 1 \<le> repCapacity r1" "same_texts st v st1"
    "owners st1 a1 = (if repCapacity r < n + 1 then {v} else owners st a)" by (rule bs_reserve_run [OF v l])
  note d1 = bs_at_repD [OF r1(2)]
  let ?k = "n - length t"
  let ?d = "take (length t) (repData r1) @ replicate ?k (Some c) @ drop (length t + ?k) (repData r1)"
  have lx: "length ?x = n" by simp
  have c: "fill_loop ?k (repData r1) (length t) c = Inr ?d"
    using fill_loop_run [of "length t" ?k "repData r1" c] r1(3) d1(12,13) by simp
  have ld: "length ?d = length (repData r1)" using r1(3) d1(12,13) by simp
  have td: "take (length ?x) ?d = map Some ?x"
  proof -
    have "take n (map Some t @ replicate ?k (Some c) @ drop (length t + ?k) (repData r1)) = map Some ?x"
      by (cases "n \<le> length t") (simp_all add: take_map)
    then show ?thesis unfolding lx using rep_holds_data(1) [OF d1(4), of "length t"] by simp
  qed
  have cap: "length ?x < repCapacity r1" using r1(3) by simp
  have u: "unsig (n + 1) = n + 1" using l by (simp add: unsig_def)
  have run: "bs_resize st v n c = rep_finish st1 (strObj st1 v) r1 (length ?x) ?d"
    unfolding lx using r1(1) c d1(5,11) u by (simp add: bs_resize_def)
  show thesis
    by (rule extend_run [OF v r1(4,2,5) ld cap td]) (use that run in simp)
qed

lemma rep_finish_put [simp]: "rep_finish (rep_put st p q) p r n d = rep_finish st p r n d"
  by (simp add: rep_finish_def)

text \<open>A representation of its own with a gap of \<open>n\<close> characters at a position.\<close>

lemma open_gap:
  assumes v: "bs_at_rep st v a r t" and l: "length t + n + 1 < 2 ^ 30" and p: "pos < length t"
  obtains st1 st2 a2 r2 d where "bs_unshare st v = Inr st1" "bs_reserve st1 v (unsig (length t + n + 1)) = Inr st2"
    "bs_at_rep st2 v a2 r2 t" "owners st2 a2 = {v}" "same_texts st v st2" "length t + n + 1 \<le> repCapacity r2"
    "move_up (length t - pos) (repData r2) pos n = Inr d" "length d = length (repData r2)"
    "take pos d = map Some (take pos t)" "take (length t - pos) (drop (pos + n) d) = map Some (drop pos t)"
proof -
  have lt: "length t < 2 ^ 30" using l by simp
  have u: "unsig (length t + n + 1) = length t + n + 1" using l by (simp add: unsig_def)
  obtain st1 a1 r1 where r1: "bs_unshare st v = Inr st1" "bs_at_rep st1 v a1 r1 t" "same_texts st v st1" "owners st1 a1 = {v}"
    "repCapacity r1 = repCapacity r" by (rule bs_unshare_run [OF v lt])
  obtain st2 a2 r2 where r2: "bs_reserve st1 v (length t + n + 1) = Inr st2" "bs_at_rep st2 v a2 r2 t" "length t + n + 1 \<le> repCapacity r2"
    "same_texts st1 v st2" "owners st2 a2 = (if repCapacity r1 < length t + n + 1 then {v} else owners st1 a1)"
    by (rule bs_reserve_run [OF r1(2) l])
  note d2 = bs_at_repD [OF r2(2)]
  let ?x = "drop pos t"
  let ?d = "take (pos + n) (repData r2) @ map Some ?x @ drop (pos + n + length ?x) (repData r2)"
  have b: "pos + length ?x + n \<le> length (repData r2)" using r2(3) p d2(12) by simp
  have "take (length ?x) (drop pos (repData r2)) = map Some ?x"
    using rep_holds_data(2) [OF d2(4), of pos "length ?x"] p by simp
  then have m: "move_up (length t - pos) (repData r2) pos n = Inr ?d"
    using move_up_run [OF b] by simp
  have "take pos (repData r2) = map Some (take pos t)" using rep_holds_data(1) [OF d2(4)] p by simp
  then have tp: "take pos ?d = map Some (take pos t)" using b by (simp add: min_def)
  have "take (length t - pos) (drop (pos + n) ?d) = map Some ?x" using b by simp
  moreover have "length ?d = length (repData r2)" using b p by simp
  moreover have "owners st2 a2 = {v}" using r2(5) r1(4) by simp
  ultimately show thesis
    using that [OF r1(1) _ r2(2) _ same_texts_trans [OF r1(3) r2(4)] r2(3) m] r2(1) u tp by simp
qed

lemma bs_insert_run:
  assumes v: "bs_at_rep st v a r t" and s: "src_gives st src n x" "src_apart st v src"
    and l: "length t + length x + 1 < 2 ^ 30" and p: "pos < length t"
  obtains st' a' r' where "bs_insert st v pos src n = Inr st'" "bs_at_rep st' v a' r' (take pos t @ x @ drop pos t)"
    "owners st' a' = {v}" "changes_only st v st'"
proof -
  note d = bs_at_repD [OF v]
  obtain st1 st2 a2 r2 d2 where g: "bs_unshare st v = Inr st1" "bs_reserve st1 v (unsig (length t + length x + 1)) = Inr st2"
    "bs_at_rep st2 v a2 r2 t" "owners st2 a2 = {v}" "same_texts st v st2" "length t + length x + 1 \<le> repCapacity r2"
    "move_up (length t - pos) (repData r2) pos (length x) = Inr d2" "length d2 = length (repData r2)"
    "take pos d2 = map Some (take pos t)" "take (length t - pos) (drop (pos + length x) d2) = map Some (drop pos t)"
    by (rule open_gap [OF v l p])
  note e = bs_at_repD [OF g(3)]
  define st3 where "st3 = rep_put st2 (strObj st2 v) (r2\<lparr>repData := d2\<rparr>)"
  have c3: "changes_only st2 v st3" unfolding st3_def e(2) by (rule rep_put_changes [OF g(4) e(2)]) simp_all
  have ap: "src_apart st2 v src" by (rule changes_only_apart [OF same_texts_changes [OF g(5)] s(2)])
  have s3: "src_gives st3 src n x" by (rule changes_only_gives [OF c3 ap same_texts_gives [OF g(5) s(2,1)]])
  have o3: "strObj st3 v = Some a2" "strReps st3 a2 = Some (r2\<lparr>repData := d2\<rparr>)" using e(2) by (simp_all add: st3_def)
  let ?d = "take pos d2 @ map Some x @ drop (pos + length x) d2" and ?t = "take pos t @ x @ drop pos t"
  have b: "pos + length x \<le> length (repData (r2\<lparr>repData := d2\<rparr>))" using g(6,8) e(12) p by simp
  have c: "copy_in st3 (Some a2) pos src (length x) = Inr ?d"
    using copy_in_run [OF o3(2) s3 b apart_no_overlap [OF ap g(4)]] by simp
  have ld: "length ?d = length (repData r2)" using b g(8) by simp
  have lt: "length ?t = length t + length x" using p by simp
  have td: "take (length ?t) ?d = map Some ?t"
  proof -
    have "take (length ?t) ?d = take pos d2 @ map Some x @ take (length t - pos) (drop (pos + length x) d2)"
    proof -
      have "length ?t = pos + (length x + (length t - pos))" using p by simp
      then show ?thesis using b g(8) by (simp only:) (simp add: min_def)
    qed
    then show ?thesis using g(9,10) by simp
  qed
  have cap: "length ?t < repCapacity r2" using g(6) lt by simp
  have u: "unsig (length t + length x) = length ?t" using l lt by (simp add: unsig_def)
  have run: "bs_insert st v pos src n = rep_finish st2 (strObj st2 v) r2 (length ?t) ?d"
    using s(1) d(7) p g(1,2,7) e(5) c o3(1) u e(2)
    by (simp add: bs_insert_def src_gives_def Let_def st3_def [symmetric]) (simp add: st3_def)
  show thesis
    by (rule finish_own [OF g(3) ld cap td g(4)])
      (use that run changes_only_trans [OF same_texts_changes [OF g(5)]] in simp)
qed

lemma bs_insert_chars_run:
  assumes v: "bs_at_rep st v a r t" and l: "length t + n + 1 < 2 ^ 30" and p: "pos < length t"
  obtains st' a' r' where "bs_insert_chars st v pos n c = Inr st'" "bs_at_rep st' v a' r' (take pos t @ replicate n c @ drop pos t)"
    "owners st' a' = {v}" "changes_only st v st'"
proof -
  note d = bs_at_repD [OF v]
  obtain st1 st2 a2 r2 d2 where g: "bs_unshare st v = Inr st1" "bs_reserve st1 v (unsig (length t + n + 1)) = Inr st2"
    "bs_at_rep st2 v a2 r2 t" "owners st2 a2 = {v}" "same_texts st v st2" "length t + n + 1 \<le> repCapacity r2"
    "move_up (length t - pos) (repData r2) pos n = Inr d2" "length d2 = length (repData r2)"
    "take pos d2 = map Some (take pos t)" "take (length t - pos) (drop (pos + n) d2) = map Some (drop pos t)"
    by (rule open_gap [OF v l p])
  note e = bs_at_repD [OF g(3)]
  let ?d = "take pos d2 @ replicate n (Some c) @ drop (pos + n) d2" and ?t = "take pos t @ replicate n c @ drop pos t"
  have b: "pos + n \<le> length d2" using g(6,8) e(12) p by simp
  have f: "fill_loop n d2 pos c = Inr ?d" by (rule fill_loop_run [OF b])
  have ld: "length ?d = length (repData r2)" using b g(8) by simp
  have lt: "length ?t = length t + n" using p by simp
  have td: "take (length ?t) ?d = map Some ?t"
  proof -
    have "take (length ?t) ?d = take pos d2 @ replicate n (Some c) @ take (length t - pos) (drop (pos + n) d2)"
    proof -
      have "length ?t = pos + (n + (length t - pos))" using p by simp
      then show ?thesis using b by (simp only:) (simp add: min_def)
    qed
    then show ?thesis using g(9,10) by simp
  qed
  have cap: "length ?t < repCapacity r2" using g(6) lt by simp
  have u: "unsig (length t + n) = length ?t" using l lt by (simp add: unsig_def)
  have run: "bs_insert_chars st v pos n c = rep_finish st2 (strObj st2 v) r2 (length ?t) ?d"
    using d(7) p g(1,2,7) e(5) f u by (simp add: bs_insert_chars_def)
  show thesis
    by (rule finish_own [OF g(3) ld cap td g(4)])
      (use that run changes_only_trans [OF same_texts_changes [OF g(5)]] in simp)
qed

text \<open>A part is taken out; \<open>NPOS\<close> takes the rest.\<close>

lemma bs_erase_run:
  assumes v: "bs_at_rep st v a r t" and l: "length t < 2 ^ 30" and n: "n = NPOS \<or> pos + n < 2 ^ 32"
  obtains st' a' r' where "bs_erase st v pos n = Inr st'" "bs_at_rep st' v a' r' (take pos t @ drop (pos + n) t)"
    "owners st' a' = {v}" "changes_only st v st'" "repCapacity r' = repCapacity r"
proof -
  obtain st1 a1 r1 where r1: "bs_unshare st v = Inr st1" "bs_at_rep st1 v a1 r1 t" "same_texts st v st1" "owners st1 a1 = {v}"
    "repCapacity r1 = repCapacity r" by (rule bs_unshare_run [OF v l])
  note e = bs_at_repD [OF r1(2)]
  note c = same_texts_changes [OF r1(3)]
  let ?t = "take pos t @ drop (pos + n) t"
  show thesis
  proof (cases "length t \<le> pos")
    case True
    then have "bs_erase st v pos n = Inr st1" using r1(1) e(5,11) by (simp add: bs_erase_def Let_def)
    then show thesis using that [of st1 a1 r1] r1 c True by simp
  next
    case False
    show thesis
    proof (cases "length t \<le> pos + n")
      case True
      have t: "?t = take pos t" using True by simp
      show thesis
      proof (cases "n = NPOS \<or> unsig (pos + n) = length t")
        case True
        then have run: "bs_erase st v pos n = rep_finish st1 (strObj st1 v) r1 (length ?t) (repData r1)"
          using r1(1) e(5,11) False t by (simp add: bs_erase_def Let_def)
        have td: "take (length ?t) (repData r1) = map Some ?t" using rep_holds_data(1) [OF e(4), of pos] t False by simp
        have cap: "length ?t < repCapacity r1" using e(13) t False by simp
        show thesis
          by (rule finish_own [OF r1(2) refl cap td r1(4)]) (use that run changes_only_trans [OF c] r1(5) in simp)
      next
        case no: False
        then have s: "unsig (pos + n) = pos + n" "length t < pos + n" using n True by (auto simp: unsig_def)
        have u: "unsig (pos + (length t - pos)) = length t" "unsig (length t + 2 ^ 32 - (length t - pos)) = pos"
        proof -
          show "unsig (pos + (length t - pos)) = length t" using False l by (simp add: unsig_def)
          have "length t + 2 ^ 32 - (length t - pos) = pos + 2 ^ 32" using False by simp
          then have "unsig (length t + 2 ^ 32 - (length t - pos)) = (pos + 2 ^ 32) mod 2 ^ 32" by (simp only: unsig_def)
          also have "\<dots> = pos mod 2 ^ 32" by (simp only: mod_add_self2)
          finally show "unsig (length t + 2 ^ 32 - (length t - pos)) = pos" using False l by simp
        qed
        have run: "bs_erase st v pos n = rep_finish st1 (strObj st1 v) r1 (length ?t) (repData r1)"
          using r1(1) e(5,11) False t no s(2) u unfolding bs_erase_def s(1) by (simp add: Let_def s(1))
        have td: "take (length ?t) (repData r1) = map Some ?t" using rep_holds_data(1) [OF e(4), of pos] t False by simp
        have cap: "length ?t < repCapacity r1" using e(13) t False by simp
        show thesis
          by (rule finish_own [OF r1(2) refl cap td r1(4)]) (use that run changes_only_trans [OF c] r1(5) in simp)
      qed
    next
      case less: False
      then have nn: "n \<noteq> NPOS" using l by (auto simp: NPOS_def)
      have s: "unsig (pos + n) = pos + n" using less l by (simp add: unsig_def)
      have u: "unsig (length t + 2 ^ 32 - n) = length t - n"
      proof -
        have "length t + 2 ^ 32 - n = (length t - n) + 2 ^ 32" using less by simp
        then have "unsig (length t + 2 ^ 32 - n) = (length t - n + 2 ^ 32) mod 2 ^ 32" by (simp only: unsig_def)
        also have "\<dots> = (length t - n) mod 2 ^ 32" by (simp only: mod_add_self2)
        finally show ?thesis using l by simp
      qed
      let ?x = "drop (pos + n) t"
      let ?d = "take pos (repData r1) @ map Some ?x @ drop (pos + length ?x) (repData r1)"
      have "take (length ?x) (drop (pos + n) (repData r1)) = map Some ?x"
        using rep_holds_data(2) [OF e(4), of "pos + n" "length ?x"] less by simp
      then have m: "move_down (length t - (pos + n)) (repData r1) (pos + n) n = Inr ?d"
        using move_down_run [of n "pos + n" ?x "repData r1"] less e(12,13) by simp
      have lt: "length ?t = length t - n" using less by simp
      have run: "bs_erase st v pos n = rep_finish st1 (strObj st1 v) r1 (length ?t) ?d"
        unfolding lt using r1(1) e(5,11) False less nn s u m by (simp add: bs_erase_def Let_def)
      have ld: "length ?d = length (repData r1)" using less e(12,13) by simp
      have td: "take (length ?t) ?d = map Some ?t"
        using rep_holds_data(1) [OF e(4), of pos] less e(12,13) by (simp add: min_def)
      have cap: "length ?t < repCapacity r1" using e(13) lt by simp
      show thesis
        by (rule finish_own [OF r1(2) ld cap td r1(4)]) (use that run changes_only_trans [OF c] r1(5) in simp)
    qed
  qed
qed

text \<open>Replacing a part: the new length must not be negative as an \<open>int\<close>.\<close>

lemma replace_new_len:
  assumes "l + m + 1 < 2 ^ 30" "n1 = NPOS \<or> n1 \<le> l + m"
  shows "int_to_size (unsig (l + 2 ^ 32 - n1 + m)) < 2 ^ 30"
proof (cases "n1 = NPOS")
  case True
  then have "l + 2 ^ 32 - n1 + m = l + m + 1" by (simp add: NPOS_def)
  then show ?thesis using assms(1) by (simp add: unsig_def int_to_size_def)
next
  case False
  then have n: "n1 \<le> l + m" using assms(2) by simp
  then have "l + 2 ^ 32 - n1 + m = (l + m - n1) + 2 ^ 32" using assms(1) by simp
  then have "unsig (l + 2 ^ 32 - n1 + m) = (l + m - n1 + 2 ^ 32) mod 2 ^ 32" by (simp only: unsig_def)
  also have "\<dots> = (l + m - n1) mod 2 ^ 32" by (simp only: mod_add_self2)
  finally have u: "unsig (l + 2 ^ 32 - n1 + m) = (l + m - n1) mod 2 ^ 32" .
  have "l + m - n1 < 2 ^ 30" using assms(1) by linarith
  then show ?thesis unfolding u by (simp add: int_to_size_def)
qed

lemma open_part:
  assumes v: "bs_at_rep st v a r t" and l: "length t + m + 1 < 2 ^ 30" and p: "pos < length t"
    and n: "n1 = NPOS \<or> n1 \<le> length t + m"
  obtains st1 st2 st3 a3 r3 where "bs_unshare st v = Inr st1" "bs_reserve st1 v (int_to_size (unsig (length t + 2 ^ 32 - n1 + m))) = Inr st2"
    "bs_erase st2 v pos n1 = Inr st3" "bs_at_rep st3 v a3 r3 (take pos t @ drop (pos + n1) t)" "owners st3 a3 = {v}" "changes_only st v st3"
proof -
  have lt: "length t < 2 ^ 30" using l by simp
  have k: "n1 = NPOS \<or> pos + n1 < 2 ^ 32" using n p l by auto
  obtain st1 a1 r1 where r1: "bs_unshare st v = Inr st1" "bs_at_rep st1 v a1 r1 t" "same_texts st v st1" "owners st1 a1 = {v}"
    "repCapacity r1 = repCapacity r" by (rule bs_unshare_run [OF v lt])
  obtain st2 a2 r2 where r2: "bs_reserve st1 v (int_to_size (unsig (length t + 2 ^ 32 - n1 + m))) = Inr st2" "bs_at_rep st2 v a2 r2 t"
    "int_to_size (unsig (length t + 2 ^ 32 - n1 + m)) \<le> repCapacity r2" "same_texts st1 v st2"
    "owners st2 a2 = (if repCapacity r1 < int_to_size (unsig (length t + 2 ^ 32 - n1 + m)) then {v} else owners st1 a1)"
    by (rule bs_reserve_run [OF r1(2) replace_new_len [OF l n]])
  obtain st3 a3 r3 where r3: "bs_erase st2 v pos n1 = Inr st3" "bs_at_rep st3 v a3 r3 (take pos t @ drop (pos + n1) t)"
    "owners st3 a3 = {v}" "changes_only st2 v st3" "repCapacity r3 = repCapacity r2"
    by (rule bs_erase_run [OF r2(2) lt k])
  show thesis
    using that [OF r1(1) r2(1) r3(1,2,3)]
      changes_only_trans [OF same_texts_changes [OF same_texts_trans [OF r1(3) r2(4)]] r3(4)] .
qed

lemma bs_replace_run:
  assumes v: "bs_at_rep st v a r t" and s: "src_gives st src (length x) x" "src_apart st v src"
    and l: "length t + length x + 1 < 2 ^ 30" and p: "pos < length t" and n: "n1 = NPOS \<or> n1 \<le> length t + length x"
  obtains st' a' r' where "bs_replace st v pos n1 src (length x) = Inr st'" "bs_at_rep st' v a' r' (take pos t @ x @ drop (pos + n1) t)"
    "changes_only st v st'"
proof -
  note d = bs_at_repD [OF v]
  obtain st1 st2 st3 a3 r3 where g: "bs_unshare st v = Inr st1" "bs_reserve st1 v (int_to_size (unsig (length t + 2 ^ 32 - n1 + length x))) = Inr st2"
    "bs_erase st2 v pos n1 = Inr st3" "bs_at_rep st3 v a3 r3 (take pos t @ drop (pos + n1) t)" "owners st3 a3 = {v}" "changes_only st v st3"
    by (rule open_part [OF v l p n])
  note e = bs_at_repD [OF g(4)]
  have s3: "src_gives st3 src (length x) x" by (rule changes_only_gives [OF g(6) s(2,1)])
  have ap: "src_apart st3 v src" by (rule changes_only_apart [OF g(6) s(2)])
  let ?t = "take pos t @ drop (pos + n1) t"
  have lt: "length ?t + length x + 1 < 2 ^ 30" using l by simp
  have run: "bs_replace st v pos n1 src (length x) =
      (if length ?t \<le> pos then bs_append st3 v src (length x) else bs_insert st3 v pos src (length x))"
    using d(7) p g(1,2,3) e(7) by (simp add: bs_replace_def Let_def)
  show thesis
  proof (cases "length ?t \<le> pos")
    case True
    then have z: "drop (pos + n1) t = []" using p by auto
    obtain st' a' r' where f: "bs_append st3 v src (length x) = Inr st'" "bs_at_rep st' v a' r' (?t @ x)"
      "bs_text st' = grown st3 v (?t @ x) (length ?t + length x + 1)" "owners st3 a3 = {v} \<Longrightarrow> owners st' a' = {v} \<and> changes_only st3 v st'"
      by (rule bs_append_run [OF g(4) s3 ap lt apart_no_overlap [OF ap g(5)]]) (rule that)
    then show thesis using that [of st' a' r'] run True z changes_only_trans [OF g(6)] g(5) by simp
  next
    case False
    have pp: "pos < length ?t" using False by simp
    have z: "take pos ?t = take pos t" "drop pos ?t = drop (pos + n1) t" using p by simp_all
    obtain st' a' r' where f: "bs_insert st3 v pos src (length x) = Inr st'" "bs_at_rep st' v a' r' (take pos ?t @ x @ drop pos ?t)"
      "owners st' a' = {v}" "changes_only st3 v st'"
      by (rule bs_insert_run [OF g(4) s3 ap lt pp])
    have "bs_replace st v pos n1 src (length x) = Inr st'" by (simp only: run False if_False f(1))
    then show thesis using that f(2) changes_only_trans [OF g(6) f(4)] unfolding z by blast
  qed
qed

lemma bs_replace_chars_run:
  assumes v: "bs_at_rep st v a r t" and l: "length t + m + 1 < 2 ^ 30" and p: "pos < length t" and n: "n1 = NPOS \<or> n1 \<le> length t + m"
  obtains st' a' r' where "bs_replace_chars st v pos n1 m c = Inr st'" "bs_at_rep st' v a' r' (take pos t @ replicate m c @ drop (pos + n1) t)"
    "changes_only st v st'"
proof -
  note d = bs_at_repD [OF v]
  obtain st1 st2 st3 a3 r3 where g: "bs_unshare st v = Inr st1" "bs_reserve st1 v (int_to_size (unsig (length t + 2 ^ 32 - n1 + m))) = Inr st2"
    "bs_erase st2 v pos n1 = Inr st3" "bs_at_rep st3 v a3 r3 (take pos t @ drop (pos + n1) t)" "owners st3 a3 = {v}" "changes_only st v st3"
    by (rule open_part [OF v l p n])
  note e = bs_at_repD [OF g(4)]
  let ?t = "take pos t @ drop (pos + n1) t"
  have lt: "length ?t + m + 1 < 2 ^ 30" using l by simp
  have run: "bs_replace_chars st v pos n1 m c =
      (if length ?t \<le> pos then bs_append_chars st3 v m c else bs_insert_chars st3 v pos m c)"
    using d(7) p g(1,2,3) e(7) by (simp add: bs_replace_chars_def Let_def)
  show thesis
  proof (cases "length ?t \<le> pos")
    case True
    then have z: "drop (pos + n1) t = []" using p by auto
    obtain st' a' r' where f: "bs_append_chars st3 v m c = Inr st'" "bs_at_rep st' v a' r' (?t @ replicate m c)"
      "bs_text st' = grown st3 v (?t @ replicate m c) (length ?t + m + 1)" "owners st3 a3 = {v} \<Longrightarrow> owners st' a' = {v} \<and> changes_only st3 v st'"
      by (rule bs_append_chars_run [OF g(4) lt, where c = c]) (rule that)
    then show thesis using that [of st' a' r'] run True z changes_only_trans [OF g(6)] g(5) by simp
  next
    case False
    have pp: "pos < length ?t" using False by simp
    have z: "take pos ?t = take pos t" "drop pos ?t = drop (pos + n1) t" using p by simp_all
    obtain st' a' r' where f: "bs_insert_chars st3 v pos m c = Inr st'" "bs_at_rep st' v a' r' (take pos ?t @ replicate m c @ drop pos ?t)"
      "owners st' a' = {v}" "changes_only st3 v st'"
      by (rule bs_insert_chars_run [OF g(4) lt pp])
    have "bs_replace_chars st v pos n1 m c = Inr st'" by (simp only: run False if_False f(1))
    then show thesis using that f(2) changes_only_trans [OF g(6) f(4)] unfolding z by blast
  qed
qed

section \<open>Assignment and construction\<close>

lemma bs_assign_from_run:
  assumes ok: "strs_ok st" and s: "src_gives st src n x" "\<not> overlap (strObj st v) 0 src (length x)"
  obtains st' where "bs_assign_from st v src n = Inr st'" "strs_ok st'" "bs_text st' = grown st v x (length x + 1)"
proof (cases "strObj st v")
  case None
  obtain r where r: "rep_new_from st src n = Inr (rep_put (st\<lparr>strNext := Suc (strNext st)\<rparr>) (Some (strNext st)) r, Some (strNext st))"
    "rep_holds r x" "repRef r = 0" "repCapacity r = Suc (length x)" by (rule rep_new_from_run [OF ok s(1)])
  obtain st' where f: "set_data (rep_put (st\<lparr>strNext := Suc (strNext st)\<rparr>) (Some (strNext st)) r) v (Some (strNext st)) = Inr st'"
    "strs_ok st'" "strObj st' = (strObj st)(v := Some (strNext st))" "bs_text st' = (bs_text st)(v := Some x)"
    "strReps st' (strNext st) = Some (r\<lparr>repRef := 1\<rparr>)" "owners st' (strNext st) = {v}"
    "\<And>w b. w \<noteq> v \<Longrightarrow> strObj st w = Some b \<Longrightarrow> \<exists>k. strReps st' b = map_option (\<lambda>r. r\<lparr>repRef := k\<rparr>) (strReps st b)"
    by (rule set_fresh [OF ok r(2,3), where v = v]) (rule that)
  have l: "src_length st src n = Inr (length x)" using s(1) by (simp add: src_gives_def)
  have n: "rep_new_from st src (length x) = rep_new_from st src n"
    using l src_gives_length [OF s(1)] by (simp add: rep_new_from_def src_gives_def)
  have "bs_assign_from st v src n = Inr st'" using None l r(1) f(1) n by (simp add: bs_assign_from_def bs_capacity_def)
  moreover have "bs_text st' = grown st v x (length x + 1)"
    using f(4) None by (auto simp: grown_def this_rep_def rep_get_def)
  ultimately show thesis using that f(2) by blast
next
  case (Some a)
  obtain r t where v: "bs_at_rep st v a r t"
    using counted_get [of st None v a] ok Some unfolding strs_ok_def bs_at_rep_def by metis
  note d = bs_at_repD [OF v]
  have l: "src_length st src n = Inr (length x)" using s(1) by (simp add: src_gives_def)
  have n: "rep_new_from st src (length x) = rep_new_from st src n" "rep_assign st p src (length x) = rep_assign st p src n" for p
    using l src_gives_length [OF s(1)] by (simp_all add: rep_new_from_def rep_assign_def src_gives_def)
  show thesis
  proof (cases "repCapacity r \<le> length x")
    case True
    obtain r' where r: "rep_new_from st src n = Inr (rep_put (st\<lparr>strNext := Suc (strNext st)\<rparr>) (Some (strNext st)) r', Some (strNext st))"
      "rep_holds r' x" "repRef r' = 0" "repCapacity r' = Suc (length x)" by (rule rep_new_from_run [OF ok s(1)])
    obtain st' where f: "set_data (rep_put (st\<lparr>strNext := Suc (strNext st)\<rparr>) (Some (strNext st)) r') v (Some (strNext st)) = Inr st'"
      "strs_ok st'" "strObj st' = (strObj st)(v := Some (strNext st))" "bs_text st' = (bs_text st)(v := Some x)"
      "strReps st' (strNext st) = Some (r'\<lparr>repRef := 1\<rparr>)" "owners st' (strNext st) = {v}"
      "\<And>w b. w \<noteq> v \<Longrightarrow> strObj st w = Some b \<Longrightarrow> \<exists>k. strReps st' b = map_option (\<lambda>r. r\<lparr>repRef := k\<rparr>) (strReps st b)"
      by (rule set_fresh [OF ok r(2,3), where v = v]) (rule that)
    have "bs_assign_from st v src n = Inr st'" using d(8) l r(1) f(1) n True by (simp add: bs_assign_from_def)
    moreover have "bs_text st' = grown st v x (length x + 1)" using f(4) True d(5) by (auto simp: grown_def)
    ultimately show thesis using that f(2) by blast
  next
    case False
    have no: "\<not> overlap (Some a) 0 src (length x)" using s(2) Some by simp
    have lc: "length x < repCapacity r" using False by simp
    obtain r' where r: "rep_assign st (Some a) src n = Inr (rep_put st (Some a) r')" "rep_holds r' x" "repRef r' = repRef r"
      "repCapacity r' = repCapacity r" by (rule rep_assign_run [OF d(3,12,14) lc s(1) no])
    have "bs_assign_from st v src n = Inr (rep_put st (Some a) r')" using d(2,8) l r(1) n False by (simp add: bs_assign_from_def)
    moreover have "bs_text (rep_put st (Some a) r') = grown st v x (length x + 1)"
      using rep_put_ok(2) [OF d(1,3) r(2,3)] lc d(2,5) by (auto simp: grown_def fun_eq_iff)
    ultimately show thesis using that rep_put_ok(1) [OF d(1,3) r(2,3)] by blast
  qed
qed

lemma bs_assign_run:
  assumes "strs_ok st" "bs_text st u = Some x"
  obtains st' where "bs_assign st v u = Inr st'" "strs_ok st'" "bs_text st' = (bs_text st)(v := Some x)" "strObj st' = (strObj st)(v := strObj st u)"
proof -
  have c: "counted st None" using assms(1) by (simp add: strs_ok_def)
  have p: "\<forall>b. strObj st u = Some b \<longrightarrow> strReps st b \<noteq> None" using assms(1) by (simp add: strs_ok_def counted_def)
  obtain st' where s: "set_data st v (strObj st u) = Inr st'" "strs_ok st'" "strObj st' = (strObj st)(v := strObj st u)" "strNext st' = strNext st"
    "\<And>w. bs_text st' w = (if w = v then Option.bind (strObj st u) (\<lambda>b. map_option rep_text (strReps st b)) else bs_text st w)"
    "\<And>w a. strObj st' w = Some a \<Longrightarrow> strReps st' a = map_option (\<lambda>r. r\<lparr>repRef := int (card (owners st' a))\<rparr>) (strReps st a)"
    by (rule set_data_ok [OF c p disjI1 [OF refl], where v = v]) (rule that)
  have "Option.bind (strObj st u) (\<lambda>b. map_option rep_text (strReps st b)) = Some x"
    using assms(2) by (cases "strObj st u") (simp_all add: bs_text_def)
  then have "bs_text st' = (bs_text st)(v := Some x)" using s(5) by (simp add: fun_eq_iff)
  then show thesis using that s by (simp add: bs_assign_def)
qed

lemma bs_destroy_run:
  assumes "strs_ok st"
  obtains st' where "bs_destroy st v = Inr st'" "strs_ok st'" "bs_text st' = (bs_text st)(v := None)"
proof -
  have c: "counted st None" using assms(1) by (simp add: strs_ok_def)
  have p: "\<forall>b. None = Some b \<longrightarrow> strReps st b \<noteq> None" by simp
  obtain st' where s: "set_data st v None = Inr st'" "strs_ok st'" "strObj st' = (strObj st)(v := None)" "strNext st' = strNext st"
    "\<And>w. bs_text st' w = (if w = v then Option.bind None (\<lambda>b. map_option rep_text (strReps st b)) else bs_text st w)"
    "\<And>w a. strObj st' w = Some a \<Longrightarrow> strReps st' a = map_option (\<lambda>r. r\<lparr>repRef := int (card (owners st' a))\<rparr>) (strReps st a)"
    by (rule set_data_ok [OF c p disjI1 [OF refl], where v = v]) (rule that)
  have "bs_text st' = (bs_text st)(v := None)" using s(5) by (simp add: fun_eq_iff)
  then show thesis using that s by (simp add: bs_destroy_def)
qed

lemma bs_new_run:
  assumes "strs_ok st"
  obtains st' where "bs_new st v = Inr st'" "strs_ok st'" "bs_text st' = (bs_text st)(v := Some [])"
proof -
  have c: "0 < DEFAULT_STRING" "DEFAULT_STRING < 2 ^ 31" by (simp_all add: DEFAULT_STRING_def)
  obtain r where r: "rep_new st DEFAULT_STRING = Inr (rep_put (st\<lparr>strNext := Suc (strNext st)\<rparr>) (Some (strNext st)) r, Some (strNext st))"
    "rep_holds r []" "repRef r = 0" "repCapacity r = DEFAULT_STRING" by (rule rep_new_run [OF c])
  obtain st' where f: "set_data (rep_put (st\<lparr>strNext := Suc (strNext st)\<rparr>) (Some (strNext st)) r) v (Some (strNext st)) = Inr st'"
    "strs_ok st'" "strObj st' = (strObj st)(v := Some (strNext st))" "bs_text st' = (bs_text st)(v := Some [])"
    "strReps st' (strNext st) = Some (r\<lparr>repRef := 1\<rparr>)" "owners st' (strNext st) = {v}"
    "\<And>w b. w \<noteq> v \<Longrightarrow> strObj st w = Some b \<Longrightarrow> \<exists>k. strReps st' b = map_option (\<lambda>r. r\<lparr>repRef := k\<rparr>) (strReps st b)"
    by (rule set_fresh [OF assms r(2,3), where v = v]) (rule that)
  then show thesis using that r(1) by (simp add: bs_new_def)
qed

lemma bs_set_run:
  assumes v: "bs_at_rep st v a r t" and i: "i < length t"
  obtains st' where "bs_set st v i c = Inr st'" "strs_ok st'" "bs_text st' = grown st v (t[i := c]) 0"
proof -
  note d = bs_at_repD [OF v]
  let ?r = "r\<lparr>repData := (repData r)[i := Some c]\<rparr>"
  have "take (Suc (length t)) ((repData r)[i := Some c]) = (map Some (t @ [null_char]))[i := Some c]"
    using d(4) by (simp add: rep_holds_def take_update_swap)
  also have "\<dots> = map Some (t[i := c] @ [null_char])" using i by (simp add: map_update list_update_append)
  finally have h: "rep_holds ?r (t[i := c])" using d(4) by (simp add: rep_holds_def)
  have "bs_set st v i c = Inr (rep_put st (Some a) ?r)"
    using d(2,5,11,12,13) i by (simp add: bs_set_def data_set_def)
  moreover have "bs_text (rep_put st (Some a) ?r) = grown st v (t[i := c]) 0"
    using rep_put_ok(2) [OF d(1,3) h] d(2,5) by (auto simp: grown_def fun_eq_iff)
  ultimately show thesis using that rep_put_ok(1) [OF d(1,3) h] by simp
qed

section \<open>Sequences of operations\<close>

datatype bs_op = OpNew nat | OpFrom nat string | OpCopy nat nat | OpDestroy nat
  | OpAssign nat nat | OpAssignStr nat string | OpAppend nat nat | OpAppendStr nat string | OpAppendChars nat nat char
  | OpResize nat nat char | OpSet nat nat char | OpInsert nat nat nat | OpInsertStr nat nat string | OpInsertChars nat nat nat char
  | OpErase nat nat nat | OpReplace nat nat nat nat | OpReplaceChars nat nat nat nat char | OpSubstr nat nat nat nat

fun bs_step :: "bs_op \<Rightarrow> strs \<Rightarrow> strs outcome" where
  "bs_step (OpNew v) st = bs_new st v"
| "bs_step (OpFrom v s) st = bs_assign_from st v (Outside s) NPOS"
| "bs_step (OpCopy v u) st = bs_assign st v u"
| "bs_step (OpDestroy v) st = bs_destroy st v"
| "bs_step (OpAssign v u) st = bs_assign st v u"
| "bs_step (OpAssignStr v s) st = bs_assign_from st v (Outside s) NPOS"
| "bs_step (OpAppend v u) st = andThen (bs_length st u) (\<lambda>n. bs_append st v (bs_data st u 0) n)"
| "bs_step (OpAppendStr v s) st = bs_append st v (Outside s) NPOS"
| "bs_step (OpAppendChars v n c) st = bs_append_chars st v n c"
| "bs_step (OpResize v n c) st = bs_resize st v n c"
| "bs_step (OpSet v i c) st = bs_set st v i c"
| "bs_step (OpInsert v pos u) st = andThen (bs_length st u) (\<lambda>n. bs_insert st v pos (bs_data st u 0) n)"
| "bs_step (OpInsertStr v pos s) st = bs_insert st v pos (Outside s) NPOS"
| "bs_step (OpInsertChars v pos n c) st = bs_insert_chars st v pos n c"
| "bs_step (OpErase v pos n) st = bs_erase st v pos n"
| "bs_step (OpReplace v pos n1 u) st = andThen (bs_length st u) (\<lambda>n. bs_replace st v pos n1 (bs_data st u 0) n)"
| "bs_step (OpReplaceChars v pos n1 n2 c) st = bs_replace_chars st v pos n1 n2 c"
| "bs_step (OpSubstr v pos n t) st = bs_substr st v pos n t"


text \<open>The same operations on texts.\<close>

definition text_of :: "(nat \<Rightarrow> string option) \<Rightarrow> nat \<Rightarrow> string" where
  "text_of T v = (case T v of None \<Rightarrow> [] | Some t \<Rightarrow> t)"

definition put_at :: "nat \<Rightarrow> nat \<Rightarrow> string \<Rightarrow> string \<Rightarrow> string" where
  "put_at pos n x t = (if pos < length t then take pos t @ x @ drop (pos + n) t else t)"

fun text_op :: "bs_op \<Rightarrow> (nat \<Rightarrow> string option) \<Rightarrow> (nat \<Rightarrow> string option)" where
  "text_op (OpNew v) T = T(v := Some [])"
| "text_op (OpFrom v s) T = T(v := Some s)"
| "text_op (OpCopy v u) T = T(v := Some (text_of T u))"
| "text_op (OpDestroy v) T = T(v := None)"
| "text_op (OpAssign v u) T = T(v := Some (text_of T u))"
| "text_op (OpAssignStr v s) T = T(v := Some s)"
| "text_op (OpAppend v u) T = T(v := Some (text_of T v @ text_of T u))"
| "text_op (OpAppendStr v s) T = T(v := Some (text_of T v @ s))"
| "text_op (OpAppendChars v n c) T = T(v := Some (text_of T v @ replicate n c))"
| "text_op (OpResize v n c) T = T(v := Some (take n (text_of T v) @ replicate (n - length (text_of T v)) c))"
| "text_op (OpSet v i c) T = T(v := Some ((text_of T v)[i := c]))"
| "text_op (OpInsert v pos u) T = T(v := Some (put_at pos 0 (text_of T u) (text_of T v)))"
| "text_op (OpInsertStr v pos s) T = T(v := Some (put_at pos 0 s (text_of T v)))"
| "text_op (OpInsertChars v pos n c) T = T(v := Some (put_at pos 0 (replicate n c) (text_of T v)))"
| "text_op (OpErase v pos n) T = T(v := Some (put_at pos n [] (text_of T v)))"
| "text_op (OpReplace v pos n1 u) T = T(v := Some (put_at pos n1 (text_of T u) (text_of T v)))"
| "text_op (OpReplaceChars v pos n1 n2 c) T = T(v := Some (put_at pos n1 (replicate n2 c) (text_of T v)))"
| "text_op (OpSubstr v pos n t) T = T(t := Some (take n (drop pos (text_of T v))))"


text \<open>
  When an operation does that: the objects are there (or not yet), the texts are short, and what is written
  in place is not shared, or does not fit and moves to a representation of its own.
\<close>

definition exclusive :: "strs \<Rightarrow> nat \<Rightarrow> nat \<Rightarrow> bool" where
  "exclusive st v need = (case this_rep st v of Inl e \<Rightarrow> True | Inr r \<Rightarrow> repRef r \<le> 1 \<or> repCapacity r < need)"

definition has_text :: "strs \<Rightarrow> nat \<Rightarrow> bool" where
  "has_text st v = (bs_text st v \<noteq> None)"

definition text_len :: "strs \<Rightarrow> nat \<Rightarrow> nat" where
  "text_len st v = length (text_of (bs_text st) v)"

fun bs_allowed :: "bs_op \<Rightarrow> strs \<Rightarrow> bool" where
  "bs_allowed (OpNew v) st = (\<not> has_text st v)"
| "bs_allowed (OpFrom v s) st = (\<not> has_text st v \<and> null_char \<notin> set s \<and> length s + 1 < 2 ^ 30)"
| "bs_allowed (OpCopy v u) st = (\<not> has_text st v \<and> has_text st u)"
| "bs_allowed (OpDestroy v) st = has_text st v"
| "bs_allowed (OpAssign v u) st = (has_text st v \<and> has_text st u)"
| "bs_allowed (OpAssignStr v s) st = (has_text st v \<and> null_char \<notin> set s \<and> length s + 1 < 2 ^ 30 \<and> exclusive st v (length s + 1))"
| "bs_allowed (OpAppend v u) st = (has_text st v \<and> has_text st u \<and> u \<noteq> v \<and> text_len st v + text_len st u + 1 < 2 ^ 30 \<and>
     exclusive st v (text_len st v + text_len st u + 1))"
| "bs_allowed (OpAppendStr v s) st = (has_text st v \<and> null_char \<notin> set s \<and> text_len st v + length s + 1 < 2 ^ 30 \<and>
     exclusive st v (text_len st v + length s + 1))"
| "bs_allowed (OpAppendChars v n c) st = (has_text st v \<and> text_len st v + n + 1 < 2 ^ 30 \<and> exclusive st v (text_len st v + n + 1))"
| "bs_allowed (OpResize v n c) st = (has_text st v \<and> n + 1 < 2 ^ 30 \<and> exclusive st v (n + 1))"
| "bs_allowed (OpSet v i c) st = (has_text st v \<and> i < text_len st v \<and> exclusive st v 0)"
| "bs_allowed (OpInsert v pos u) st = (has_text st v \<and> has_text st u \<and> u \<noteq> v \<and> text_len st v + text_len st u + 1 < 2 ^ 30)"
| "bs_allowed (OpInsertStr v pos s) st = (has_text st v \<and> null_char \<notin> set s \<and> text_len st v + length s + 1 < 2 ^ 30)"
| "bs_allowed (OpInsertChars v pos n c) st = (has_text st v \<and> text_len st v + n + 1 < 2 ^ 30)"
| "bs_allowed (OpErase v pos n) st = (has_text st v \<and> text_len st v < 2 ^ 30 \<and> (n = NPOS \<or> pos + n < 2 ^ 32))"
| "bs_allowed (OpReplace v pos n1 u) st = (has_text st v \<and> has_text st u \<and> u \<noteq> v \<and> text_len st v + text_len st u + 1 < 2 ^ 30 \<and>
     (n1 = NPOS \<or> n1 \<le> text_len st v + text_len st u))"
| "bs_allowed (OpReplaceChars v pos n1 n2 c) st = (has_text st v \<and> text_len st v + n2 + 1 < 2 ^ 30 \<and> (n1 = NPOS \<or> n1 \<le> text_len st v + n2))"
| "bs_allowed (OpSubstr v pos n t) st = (has_text st v \<and> \<not> has_text st t \<and> text_len st v < 2 ^ 30 \<and>
     (if n = NPOS then null_char \<notin> set (text_of (bs_text st) v) else pos + n < 2 ^ 32))"


lemma grown_exclusive:
  assumes "strs_ok st" "exclusive st v need"
  shows "grown st v x need = (bs_text st)(v := Some x)"
proof (cases "strObj st v")
  case None
  then show ?thesis by (auto simp: grown_def this_rep_def rep_get_def)
next
  case (Some a)
  have c: "counted st None" using assms(1) by (simp add: strs_ok_def)
  obtain r t where r: "strReps st a = Some r" "this_rep st v = Inr r" "repRef r = int (card (owners st a))"
    using counted_get [OF c Some] by metis
  show ?thesis
  proof (cases "need \<le> repCapacity r")
    case True
    then have "card (owners st a) \<le> 1" using assms(2) r by (simp add: exclusive_def)
    moreover have "v \<in> owners st a" using Some by (simp add: owners_def)
    ultimately have "owners st a = {v}" using finite_owners [OF c] by (auto simp: card_le_Suc0_iff_eq)
    then have "strObj st w = strObj st v \<longleftrightarrow> w = v" for w using Some by (auto simp: owners_def)
    then show ?thesis by (auto simp: grown_def)
  next
    case False
    then show ?thesis using r(2) by (auto simp: grown_def)
  qed
qed

lemma changed_text: "bs_at_rep st' v a r x \<Longrightarrow> changes_only st v st' \<Longrightarrow> bs_text st' = (bs_text st)(v := Some x)"
  using bs_at_repD(6) by (fastforce simp: changes_only_def)

lemma has_textE:
  assumes "strs_ok st" "has_text st v"
  obtains a r where "bs_at_rep st v a r (text_of (bs_text st) v)"
proof -
  obtain t where t: "bs_text st v = Some t" using assms(2) by (auto simp: has_text_def)
  then obtain a r where "bs_at_rep st v a r t" using bs_at_repE [OF assms(1)] by blast
  then show thesis using that t by (simp add: text_of_def)
qed

lemma data_gives:
  assumes "bs_at_rep st u b q x" "length x < 2 ^ 30"
  shows "src_gives st (bs_data st u 0) (length x) x" "u \<noteq> v \<Longrightarrow> src_apart st v (bs_data st u 0)"
    "bs_at_rep st v a r t \<Longrightarrow> \<not> overlap (Some a) (length t) (bs_data st u 0) (length x)"
proof -
  note d = bs_at_repD [OF assms(1)]
  show "src_gives st (bs_data st u 0) (length x) x"
    using src_gives_inside [OF d(3,4), of 0 "length x"] assms(2) d(2) by (simp add: bs_data_def)
  show "u \<noteq> v \<Longrightarrow> src_apart st v (bs_data st u 0)" by (auto simp: src_apart_def bs_data_def)
  show "\<not> overlap (Some a) (length t) (bs_data st u 0) (length x)" if "bs_at_rep st v a r t"
  proof (cases "a = b")
    case True
    then have "x = t" using that assms(1) rep_holds_text by (auto simp: bs_at_rep_def)
    then show ?thesis by (simp add: overlap_def bs_data_def)
  next
    case False
    then show ?thesis using d(2) by (simp add: overlap_def bs_data_def)
  qed
qed

lemma outside_simps [simp]: "src_apart st v (Outside s)" "\<not> overlap p d (Outside s) n"
  by (simp_all add: src_apart_def overlap_def)

lemma src_gives_inside_npos:
  assumes "strReps st b = Some r" "rep_holds r t" "k \<le> length t" "length t < 2 ^ 30" "null_char \<notin> set t"
  shows "src_gives st (Inside (Some b) k) NPOS (drop k t)"
proof -
  have g: "src_gives st (Inside (Some b) k) (length t - k) (drop k t)"
    using src_gives_inside [OF assms(1,2), of k "length t - k"] assms(3,4) by simp
  have "repData r = map Some (t @ [null_char]) @ drop (Suc (length t)) (repData r)"
    using assms(2) unfolding rep_holds_def by (metis append_take_drop_id)
  then have "drop k (repData r) = drop k (map Some t @ Some null_char # drop (Suc (length t)) (repData r))" by simp
  then have "drop k (repData r) = map Some (drop k t) @ Some null_char # drop (Suc (length t)) (repData r)"
    using assms(3) by (simp add: drop_map)
  moreover have "null_char \<notin> set (drop k t)" using assms(5) by (auto dest: in_set_dropD)
  ultimately have "data_strlen (drop k (repData r)) = Inr (length (drop k t))" using data_strlen_null by metis
  then show ?thesis using g assms(1) by (simp add: src_gives_def src_length_def src_strlen_def rep_get_def)
qed

text \<open>One operation.\<close>

lemma bs_edit_step:
  assumes ok: "strs_ok st" and al: "bs_allowed op st"
    and op: "case op of OpAppend v u \<Rightarrow> True | OpAppendStr v s \<Rightarrow> True | OpAppendChars v n c \<Rightarrow> True | OpResize v n c \<Rightarrow> True
      | OpSet v i c \<Rightarrow> True | OpAssignStr v s \<Rightarrow> True | OpFrom v s \<Rightarrow> True | _ \<Rightarrow> False"
  shows "\<exists>st'. bs_step op st = Inr st' \<and> strs_ok st' \<and> bs_text st' = text_op op (bs_text st)"
proof (cases op)
  case (OpAppend v u)
  let ?t = "text_of (bs_text st) v" and ?x = "text_of (bs_text st) u"
  have a: "has_text st v" "has_text st u" "u \<noteq> v" "length ?t + length ?x + 1 < 2 ^ 30" "exclusive st v (length ?t + length ?x + 1)"
    using al OpAppend by (simp_all add: text_len_def)
  obtain a r where v: "bs_at_rep st v a r ?t" by (rule has_textE [OF ok a(1)])
  obtain b q where u: "bs_at_rep st u b q ?x" by (rule has_textE [OF ok a(2)])
  have lx: "length ?x < 2 ^ 30" using a(4) by simp
  note g = data_gives [OF u lx]
  obtain st' a' r' where f: "bs_append st v (bs_data st u 0) (length ?x) = Inr st'" "bs_at_rep st' v a' r' (?t @ ?x)"
    "bs_text st' = grown st v (?t @ ?x) (length ?t + length ?x + 1)" "owners st a = {v} \<Longrightarrow> owners st' a' = {v} \<and> changes_only st v st'"
    by (rule bs_append_run [OF v g(1) g(2) [OF a(3)] a(4) g(3) [OF v]]) (rule that)
  then show ?thesis using OpAppend bs_at_repD(7) [OF u] bs_at_repD(1) [OF f(2)] grown_exclusive [OF ok a(5)] by simp
next
  case (OpAppendStr v s)
  let ?t = "text_of (bs_text st) v"
  have a: "has_text st v" "null_char \<notin> set s" "length ?t + length s + 1 < 2 ^ 30" "exclusive st v (length ?t + length s + 1)"
    using al OpAppendStr by (simp_all add: text_len_def)
  obtain a r where v: "bs_at_rep st v a r ?t" by (rule has_textE [OF ok a(1)])
  have ls: "length s < 2 ^ 30" using a(3) by simp
  obtain st' a' r' where f: "bs_append st v (Outside s) NPOS = Inr st'" "bs_at_rep st' v a' r' (?t @ s)"
    "bs_text st' = grown st v (?t @ s) (length ?t + length s + 1)" "owners st a = {v} \<Longrightarrow> owners st' a' = {v} \<and> changes_only st v st'"
    by (rule bs_append_run [OF v src_gives_outside(1) [OF ls a(2)] outside_simps(1) a(3) outside_simps(2)]) (rule that)
  then show ?thesis using OpAppendStr bs_at_repD(1) [OF f(2)] grown_exclusive [OF ok a(4)] by simp
next
  case (OpAppendChars v n c)
  let ?t = "text_of (bs_text st) v"
  have a: "has_text st v" "length ?t + n + 1 < 2 ^ 30" "exclusive st v (length ?t + n + 1)"
    using al OpAppendChars by (simp_all add: text_len_def)
  obtain a r where v: "bs_at_rep st v a r ?t" by (rule has_textE [OF ok a(1)])
  obtain st' a' r' where f: "bs_append_chars st v n c = Inr st'" "bs_at_rep st' v a' r' (?t @ replicate n c)"
    "bs_text st' = grown st v (?t @ replicate n c) (length ?t + n + 1)" "owners st a = {v} \<Longrightarrow> owners st' a' = {v} \<and> changes_only st v st'"
    by (rule bs_append_chars_run [OF v a(2), where c = c]) (rule that)
  then show ?thesis using OpAppendChars bs_at_repD(1) [OF f(2)] grown_exclusive [OF ok a(3)] by simp
next
  case (OpResize v n c)
  let ?t = "text_of (bs_text st) v"
  have a: "has_text st v" "n + 1 < 2 ^ 30" "exclusive st v (n + 1)" using al OpResize by simp_all
  obtain a r where v: "bs_at_rep st v a r ?t" by (rule has_textE [OF ok a(1)])
  obtain st' a' r' where f: "bs_resize st v n c = Inr st'" "bs_at_rep st' v a' r' (take n ?t @ replicate (n - length ?t) c)"
    "bs_text st' = grown st v (take n ?t @ replicate (n - length ?t) c) (n + 1)"
    by (rule bs_resize_run [OF v a(2), where c = c])
  then show ?thesis using OpResize bs_at_repD(1) [OF f(2)] grown_exclusive [OF ok a(3)] by simp
next
  case (OpSet v i c)
  let ?t = "text_of (bs_text st) v"
  have a: "has_text st v" "i < length ?t" "exclusive st v 0" using al OpSet by (simp_all add: text_len_def)
  obtain a r where v: "bs_at_rep st v a r ?t" by (rule has_textE [OF ok a(1)])
  obtain st' where f: "bs_set st v i c = Inr st'" "strs_ok st'" "bs_text st' = grown st v (?t[i := c]) 0"
    by (rule bs_set_run [OF v a(2), where c = c])
  then show ?thesis using OpSet grown_exclusive [OF ok a(3)] by simp
next
  case (OpAssignStr v s)
  have a: "null_char \<notin> set s" "length s < 2 ^ 30" "exclusive st v (length s + 1)" using al OpAssignStr by simp_all
  obtain st' where f: "bs_assign_from st v (Outside s) NPOS = Inr st'" "strs_ok st'" "bs_text st' = grown st v s (length s + 1)"
    by (rule bs_assign_from_run [OF ok src_gives_outside(1) [OF a(2,1)] outside_simps(2)])
  then show ?thesis using OpAssignStr grown_exclusive [OF ok a(3)] by simp
next
  case (OpFrom v s)
  have a: "null_char \<notin> set s" "length s < 2 ^ 30" "\<not> has_text st v" using al OpFrom by simp_all
  have "strObj st v = None" using a(3) bs_text_None [of st None v] ok by (simp add: has_text_def strs_ok_def)
  then have e: "exclusive st v k" for k by (simp add: exclusive_def this_rep_def rep_get_def)
  obtain st' where f: "bs_assign_from st v (Outside s) NPOS = Inr st'" "strs_ok st'" "bs_text st' = grown st v s (length s + 1)"
    by (rule bs_assign_from_run [OF ok src_gives_outside(1) [OF a(2,1)] outside_simps(2)])
  then show ?thesis using OpFrom grown_exclusive [OF ok e] by simp
qed (use op in simp_all)

lemma put_at_all: "length t \<le> pos \<Longrightarrow> put_at pos n x t = t"
  by (simp add: put_at_def)

lemma bs_insert_step:
  assumes v: "bs_at_rep st v a r t" and s: "src_gives st src n x" "src_apart st v src" and l: "length t + length x + 1 < 2 ^ 30"
  shows "\<exists>st'. bs_insert st v pos src n = Inr st' \<and> strs_ok st' \<and> bs_text st' = (bs_text st)(v := Some (put_at pos 0 x t))"
proof (cases "pos < length t")
  case True
  obtain st' a' r' where f: "bs_insert st v pos src n = Inr st'" "bs_at_rep st' v a' r' (take pos t @ x @ drop pos t)"
    "owners st' a' = {v}" "changes_only st v st'" by (rule bs_insert_run [OF v s l True])
  then show ?thesis using bs_at_repD(1) [OF f(2)] changed_text [OF f(2,4)] True by (simp add: put_at_def)
next
  case False
  note d = bs_at_repD [OF v]
  have "bs_insert st v pos src n = Inr st" using False d(7) s(1) by (simp add: bs_insert_def src_gives_def)
  then show ?thesis using False d(1,6) by (simp add: put_at_all fun_upd_idem)
qed

lemma bs_insert_chars_step:
  assumes v: "bs_at_rep st v a r t" and l: "length t + n + 1 < 2 ^ 30"
  shows "\<exists>st'. bs_insert_chars st v pos n c = Inr st' \<and> strs_ok st' \<and> bs_text st' = (bs_text st)(v := Some (put_at pos 0 (replicate n c) t))"
proof (cases "pos < length t")
  case True
  obtain st' a' r' where f: "bs_insert_chars st v pos n c = Inr st'" "bs_at_rep st' v a' r' (take pos t @ replicate n c @ drop pos t)"
    "owners st' a' = {v}" "changes_only st v st'" by (rule bs_insert_chars_run [OF v l True])
  then show ?thesis using bs_at_repD(1) [OF f(2)] changed_text [OF f(2,4)] True by (simp add: put_at_def)
next
  case False
  note d = bs_at_repD [OF v]
  have "bs_insert_chars st v pos n c = Inr st" using False d(7) by (simp add: bs_insert_chars_def)
  then show ?thesis using False d(1,6) by (simp add: put_at_all fun_upd_idem)
qed

lemma bs_erase_step:
  assumes v: "bs_at_rep st v a r t" and l: "length t < 2 ^ 30" "n = NPOS \<or> pos + n < 2 ^ 32"
  shows "\<exists>st'. bs_erase st v pos n = Inr st' \<and> strs_ok st' \<and> bs_text st' = (bs_text st)(v := Some (put_at pos n [] t))"
proof -
  obtain st' a' r' where f: "bs_erase st v pos n = Inr st'" "bs_at_rep st' v a' r' (take pos t @ drop (pos + n) t)"
    "owners st' a' = {v}" "changes_only st v st'" "repCapacity r' = repCapacity r" by (rule bs_erase_run [OF v l])
  moreover have "take pos t @ drop (pos + n) t = put_at pos n [] t" by (simp add: put_at_def)
  ultimately show ?thesis using bs_at_repD(1) [OF f(2)] changed_text [OF f(2,4)] by simp
qed

lemma bs_replace_step:
  assumes v: "bs_at_rep st v a r t" and s: "src_gives st src (length x) x" "src_apart st v src"
    and l: "length t + length x + 1 < 2 ^ 30" "n1 = NPOS \<or> n1 \<le> length t + length x"
  shows "\<exists>st'. bs_replace st v pos n1 src (length x) = Inr st' \<and> strs_ok st' \<and> bs_text st' = (bs_text st)(v := Some (put_at pos n1 x t))"
proof (cases "pos < length t")
  case True
  obtain st' a' r' where f: "bs_replace st v pos n1 src (length x) = Inr st'" "bs_at_rep st' v a' r' (take pos t @ x @ drop (pos + n1) t)"
    "changes_only st v st'" by (rule bs_replace_run [OF v s l(1) True l(2)])
  then show ?thesis using bs_at_repD(1) [OF f(2)] changed_text [OF f(2,3)] True by (simp add: put_at_def)
next
  case False
  note d = bs_at_repD [OF v]
  have "bs_replace st v pos n1 src (length x) = Inr st" using False d(7) by (simp add: bs_replace_def Let_def)
  then show ?thesis using False d(1,6) by (simp add: put_at_all fun_upd_idem)
qed

lemma bs_replace_chars_step:
  assumes v: "bs_at_rep st v a r t" and l: "length t + m + 1 < 2 ^ 30" "n1 = NPOS \<or> n1 \<le> length t + m"
  shows "\<exists>st'. bs_replace_chars st v pos n1 m c = Inr st' \<and> strs_ok st' \<and>
    bs_text st' = (bs_text st)(v := Some (put_at pos n1 (replicate m c) t))"
proof (cases "pos < length t")
  case True
  obtain st' a' r' where f: "bs_replace_chars st v pos n1 m c = Inr st'" "bs_at_rep st' v a' r' (take pos t @ replicate m c @ drop (pos + n1) t)"
    "changes_only st v st'" by (rule bs_replace_chars_run [OF v l(1) True l(2)])
  then show ?thesis using bs_at_repD(1) [OF f(2)] changed_text [OF f(2,3)] True by (simp add: put_at_def)
next
  case False
  note d = bs_at_repD [OF v]
  have "bs_replace_chars st v pos n1 m c = Inr st" using False d(7) by (simp add: bs_replace_chars_def Let_def)
  then show ?thesis using False d(1,6) by (simp add: put_at_all fun_upd_idem)
qed

lemma bs_substr_step:
  assumes v: "bs_at_rep st v a r x" and t: "strObj st t = None" and l: "length x < 2 ^ 30"
    and n: "if n = NPOS then null_char \<notin> set x else pos + n < 2 ^ 32"
  shows "\<exists>st'. bs_substr st v pos n t = Inr st' \<and> strs_ok st' \<and> bs_text st' = (bs_text st)(t := Some (take n (drop pos x)))"
proof -
  note d = bs_at_repD [OF v]
  show ?thesis
  proof (cases "length x \<le> pos")
    case True
    obtain st' where "bs_new st t = Inr st'" "strs_ok st'" "bs_text st' = (bs_text st)(t := Some [])" by (rule bs_new_run [OF d(1)])
    then show ?thesis using True d(7) by (simp add: bs_substr_def)
  next
    case False
    define m where "m = (if length x < unsig (pos + n) then length x - pos else n)"
    have src: "src_gives st (bs_data st v pos) m (take n (drop pos x))"
    proof (cases "n = NPOS")
      case npos: True
      have tk: "take NPOS (drop pos x) = drop pos x" using l by (simp add: NPOS_def)
      show ?thesis
      proof (cases "pos = 0")
        case True
        then have "m = length x" using npos l by (simp add: m_def unsig_def NPOS_def)
        then show ?thesis using src_gives_inside [OF d(3,4), of 0 "length x"] l True npos tk d(2) by (simp add: bs_data_def)
      next
        case pos: False
        have "pos + NPOS = (pos - 1) + 2 ^ 32" using pos by (simp add: NPOS_def)
        then have "unsig (pos + NPOS) = (pos - 1 + 2 ^ 32) mod 2 ^ 32" by (simp only: unsig_def)
        also have "\<dots> = (pos - 1) mod 2 ^ 32" by (simp only: mod_add_self2)
        also have "\<dots> = pos - 1" using False l by simp
        finally have "\<not> length x < unsig (pos + NPOS)" using False by linarith
        then have "m = NPOS" using npos by (simp add: m_def)
        then show ?thesis using src_gives_inside_npos [OF d(3,4) _ l, of pos] n npos False tk d(2) by (simp add: bs_data_def)
      qed
    next
      case other: False
      then have "unsig (pos + n) = pos + n" using n by (simp add: unsig_def)
      then have m: "pos + m \<le> length x" "take m (drop pos x) = take n (drop pos x)" using False by (auto simp: m_def)
      show ?thesis using src_gives_inside [OF d(3,4) m(1) l] m(2) d(2) by (simp add: bs_data_def)
    qed
    have no: "\<not> overlap (strObj st t) 0 (bs_data st v pos) (length (take n (drop pos x)))" using t d(2) by (simp add: overlap_def bs_data_def)
    obtain st' where f: "bs_assign_from st t (bs_data st v pos) m = Inr st'" "strs_ok st'"
      "bs_text st' = grown st t (take n (drop pos x)) (length (take n (drop pos x)) + 1)"
      by (rule bs_assign_from_run [OF d(1) src no])
    have e: "exclusive st t k" for k using t by (simp add: exclusive_def this_rep_def rep_get_def)
    have "bs_substr st v pos n t = Inr st'" using False d(7) f(1) by (simp add: bs_substr_def m_def)
    then show ?thesis using f(2,3) grown_exclusive [OF d(1) e] by simp
  qed
qed

lemma bs_step_refines:
  assumes ok: "strs_ok st" and al: "bs_allowed op st"
  shows "\<exists>st'. bs_step op st = Inr st' \<and> strs_ok st' \<and> bs_text st' = text_op op (bs_text st)"
proof -
  have got: "\<exists>a r. bs_at_rep st v a r (text_of (bs_text st) v)" if "has_text st v" for v
    using has_textE [OF ok that] by blast
  have some: "bs_text st u = Some (text_of (bs_text st) u)" if "has_text st u" for u
    using that by (auto simp: has_text_def text_of_def)
  have none: "strObj st v = None" if "\<not> has_text st v" for v
    using that bs_text_None [of st None v] ok by (simp add: has_text_def strs_ok_def)
  show ?thesis
  proof (cases op)
    case (OpNew v)
    then show ?thesis using bs_new_run [OF ok, of v] by (metis bs_step.simps(1) text_op.simps(1))
  next
    case (OpCopy v u)
    then have "has_text st u" using al by simp
    then show ?thesis using bs_assign_run [OF ok some, of u v] OpCopy by (metis bs_step.simps(3) text_op.simps(3))
  next
    case (OpAssign v u)
    then have "has_text st u" using al by simp
    then show ?thesis using bs_assign_run [OF ok some, of u v] OpAssign by (metis bs_step.simps(5) text_op.simps(5))
  next
    case (OpDestroy v)
    then show ?thesis using bs_destroy_run [OF ok, of v] by (metis bs_step.simps(4) text_op.simps(4))
  next
    case (OpInsert v pos u)
    let ?t = "text_of (bs_text st) v" and ?x = "text_of (bs_text st) u"
    have a: "has_text st v" "has_text st u" "u \<noteq> v" "length ?t + length ?x + 1 < 2 ^ 30" using al OpInsert by (simp_all add: text_len_def)
    obtain a r where v: "bs_at_rep st v a r ?t" using got [OF a(1)] by blast
    obtain b q where u: "bs_at_rep st u b q ?x" using got [OF a(2)] by blast
    have lx: "length ?x < 2 ^ 30" using a(4) by simp
    show ?thesis using bs_insert_step [OF v data_gives(1) [OF u lx] data_gives(2) [OF u lx a(3)] a(4), of pos] OpInsert bs_at_repD(7) [OF u] by simp
  next
    case (OpInsertStr v pos s)
    let ?t = "text_of (bs_text st) v"
    have a: "has_text st v" "null_char \<notin> set s" "length ?t + length s + 1 < 2 ^ 30" using al OpInsertStr by (simp_all add: text_len_def)
    obtain a r where v: "bs_at_rep st v a r ?t" using got [OF a(1)] by blast
    have ls: "length s < 2 ^ 30" using a(3) by simp
    show ?thesis using bs_insert_step [OF v src_gives_outside(1) [OF ls a(2)] outside_simps(1) a(3), of pos] OpInsertStr by simp
  next
    case (OpInsertChars v pos n c)
    then have a: "has_text st v" "length (text_of (bs_text st) v) + n + 1 < 2 ^ 30" using al by (simp_all add: text_len_def)
    obtain a r where v: "bs_at_rep st v a r (text_of (bs_text st) v)" using got [OF a(1)] by blast
    show ?thesis using bs_insert_chars_step [OF v a(2), of pos c] OpInsertChars by simp
  next
    case (OpErase v pos n)
    then have a: "has_text st v" "length (text_of (bs_text st) v) < 2 ^ 30" "n = NPOS \<or> pos + n < 2 ^ 32" using al by (simp_all add: text_len_def)
    obtain a r where v: "bs_at_rep st v a r (text_of (bs_text st) v)" using got [OF a(1)] by blast
    show ?thesis using bs_erase_step [OF v a(2,3)] OpErase by simp
  next
    case (OpReplace v pos n1 u)
    let ?t = "text_of (bs_text st) v" and ?x = "text_of (bs_text st) u"
    have a: "has_text st v" "has_text st u" "u \<noteq> v" "length ?t + length ?x + 1 < 2 ^ 30" "n1 = NPOS \<or> n1 \<le> length ?t + length ?x"
      using al OpReplace by (simp_all add: text_len_def)
    obtain a r where v: "bs_at_rep st v a r ?t" using got [OF a(1)] by blast
    obtain b q where u: "bs_at_rep st u b q ?x" using got [OF a(2)] by blast
    have lx: "length ?x < 2 ^ 30" using a(4) by simp
    show ?thesis using bs_replace_step [OF v data_gives(1) [OF u lx] data_gives(2) [OF u lx a(3)] a(4,5), of pos] OpReplace bs_at_repD(7) [OF u] by simp
  next
    case (OpReplaceChars v pos n1 n2 c)
    let ?t = "text_of (bs_text st) v"
    have a: "has_text st v" "length ?t + n2 + 1 < 2 ^ 30" "n1 = NPOS \<or> n1 \<le> length ?t + n2" using al OpReplaceChars by (simp_all add: text_len_def)
    obtain a r where v: "bs_at_rep st v a r ?t" using got [OF a(1)] by blast
    show ?thesis using bs_replace_chars_step [OF v a(2,3), of pos c] OpReplaceChars by simp
  next
    case (OpSubstr v pos n t)
    let ?x = "text_of (bs_text st) v"
    have a: "has_text st v" "\<not> has_text st t" "length ?x < 2 ^ 30" "if n = NPOS then null_char \<notin> set ?x else pos + n < 2 ^ 32"
      using al OpSubstr by (auto simp: text_len_def)
    obtain a r where v: "bs_at_rep st v a r ?x" using got [OF a(1)] by blast
    show ?thesis using bs_substr_step [OF v none [OF a(2)] a(3,4)] OpSubstr by simp
  qed (use bs_edit_step [OF ok al] in simp_all)
qed

section \<open>What searching and comparing give\<close>

lemma src_char_gives:
  assumes "src_gives st src n y" "j < length y"
  shows "src_char st src j = Inr (y ! j)"
proof (cases src)
  case (Outside s)
  then have l: "length y \<le> Suc (length s)" "take (length y) (map Some (s @ [null_char])) = map Some y"
    using assms(1) by (simp_all add: src_gives_def src_bytes_def split: if_splits)
  then have "map Some (s @ [null_char]) ! j = map Some y ! j" using assms(2) by (metis nth_take)
  then have "(s @ [null_char]) ! j = y ! j" using assms(2) l(1) by (simp add: nth_map del: map_append)
  then show ?thesis using Outside assms(2) l(1) by (simp add: src_char_def)
next
  case (Inside p k)
  then obtain r where r: "rep_get st p = Inr r" "k + length y \<le> length (repData r)" "take (length y) (drop k (repData r)) = map Some y"
    using assms(1) by (auto simp: src_gives_def src_bytes_def andThen_Inr_iff split: if_splits)
  then have "drop k (repData r) ! j = map Some y ! j" using assms(2) by (metis nth_take)
  then have "repData r ! (k + j) = Some (y ! j)" using assms(2) r(2) by simp
  then show ?thesis using Inside r(1,2) assms(2) by (simp add: src_char_def data_get_def)
qed

lemma match_loop_run:
  assumes "rep_holds r x" "src_gives st src m y" "i + length y \<le> length x"
  shows "j + k = length y \<Longrightarrow> match_loop k (repData r) i st src j = Inr (take k (drop (i + j) x) = drop j y)"
proof (induction k arbitrary: j)
  case (Suc k)
  then have j: "j < length y" "i + j < length x" using assms(3) by simp_all
  have c: "data_get (repData r) (j + i) = Inr (x ! (i + j))" "src_char st src j = Inr (y ! j)"
    using rep_holds_nth [OF assms(1), of "j + i"] j src_char_gives [OF assms(2) j(1)] by (simp_all add: nth_append add.commute)
  have "drop (i + j) x = x ! (i + j) # drop (Suc (i + j)) x" "drop j y = y ! j # drop (Suc j) y" using j by (simp_all add: Cons_nth_drop_Suc)
  then show ?case using Suc c by simp
qed simp

lemma find_loop_run:
  assumes "rep_holds r x" "src_gives st src m y"
  shows "i + k + length y \<le> length x \<Longrightarrow> find_loop k (repData r) i st src (length y) =
    Inr (case List.find (\<lambda>i. take (length y) (drop i x) = y) [i..<i + k] of None \<Rightarrow> NPOS | Some i \<Rightarrow> i)"
proof (induction k arbitrary: i)
  case (Suc k)
  have "[i..<i + Suc k] = i # [Suc i..<Suc i + k]" by (simp add: upt_conv_Cons del: upt_Suc)
  then show ?case using Suc match_loop_run [OF assms, of i 0 "length y"] by (simp del: upt_Suc)
qed simp

text \<open>A pattern that is longer than the text does not lie at a position in it: the NUL behind the text differs.\<close>

lemma match_loop_longer:
  assumes "rep_holds r x" "src_gives st src m y" "null_char \<notin> set y" "i \<le> length x" "length x < i + length y"
  shows "j + k = length y \<Longrightarrow> i + j \<le> length x \<Longrightarrow> match_loop k (repData r) i st src j = Inr False"
proof (induction k arbitrary: j)
  case 0
  then show ?case using assms(5) by simp
next
  case (Suc k)
  then have j: "j < length y" by simp
  have c: "data_get (repData r) (j + i) = Inr ((x @ [null_char]) ! (i + j))" "src_char st src j = Inr (y ! j)"
    using rep_holds_nth [OF assms(1), of "j + i"] Suc.prems(2) src_char_gives [OF assms(2) j] by (simp_all add: add.commute)
  have "y ! j \<noteq> null_char" using assms(3) nth_mem [OF j] by metis
  then show ?case using Suc.IH [of "Suc j"] Suc.prems c by (cases "i + j = length x") (auto simp: nth_append)
qed

lemma find_loop_longer:
  assumes "rep_holds r x" "src_gives st src m y" "null_char \<notin> set y" "length x < length y" "i \<le> length x"
  shows "find_loop (Suc (length x - i) + k) (repData r) i st src (length y) = find_loop k (repData r) (Suc (length x)) st src (length y)"
  using assms(5)
proof (induction "length x - i" arbitrary: i)
  case 0
  moreover have "y \<noteq> []" using assms(4) by auto
  ultimately show ?case using match_loop_longer [OF assms(1-3), of i 0 "length y"] assms(4) by simp
next
  case (Suc d)
  then have i: "d = length x - Suc i" "Suc i \<le> length x" by simp_all
  have m: "match_loop (length y) (repData r) i st src 0 = Inr False"
    using match_loop_longer [OF assms(1-3), of i 0 "length y"] assms(4) Suc.prems by simp
  have e: "Suc (length x - i) + k = Suc (Suc (length x - Suc i) + k)" using i(2) by simp
  show ?case unfolding e using Suc.hyps(1) [OF i] m by (simp only: find_loop.simps andThen_simps if_False)
qed

lemma find_loop_ge: "find_loop k d i st src n = Inr j \<Longrightarrow> j = NPOS \<or> i \<le> j"
proof (induction k arbitrary: i)
  case (Suc k)
  from Suc.prems have "j = i \<or> find_loop k d (Suc i) st src n = Inr j" by (auto simp: andThen_Inr_iff split: if_splits)
  then show ?case using Suc.IH [of "Suc i"] by linarith
qed simp

text \<open>The bound wraps, so that there are rounds behind the text.\<close>

lemma bs_find_longer:
  assumes v: "bs_at_rep st v a r x" and u: "bs_at_rep st u b q y" and y: "null_char \<notin> set y" "length x < length y" "length y < 2 ^ 30"
    and p: "pos \<le> length x"
  obtains k where "bs_find st v (bs_data st u 0) pos (length y) =
    find_loop (Suc k) (repData r) (Suc (length x)) st (bs_data st u 0) (length y)"
proof -
  note d = bs_at_repD [OF v]
  note g = data_gives(1) [OF u y(3)]
  let ?n = "length x + 2 ^ 32 - length y"
  have n: "unsig ?n = ?n" using y(2,3) by (simp add: unsig_def)
  have "Suc (Suc (length x - pos)) \<le> ?n - pos" using y(2,3) p by simp
  then obtain k where k: "?n - pos = Suc (length x - pos) + Suc k" by (metis add_Suc_shift le_Suc_ex add_Suc)
  have "src_length st (bs_data st u 0) (length y) = Inr (length y)" using g by (simp add: src_gives_def)
  then have "bs_find st v (bs_data st u 0) pos (length y) =
      find_loop (Suc (length x - pos) + Suc k) (repData r) pos st (bs_data st u 0) (length y)"
    using d(5,11) n k by (simp add: bs_find_def del: find_loop.simps)
  then show thesis using that find_loop_longer [OF d(4) g y(1,2) p, of "Suc k"] by (simp del: find_loop.simps)
qed

lemma src_strlen_data:
  assumes "bs_at_rep st u b q y" "null_char \<notin> set y" "length y < 2 ^ 30"
  shows "src_strlen st (bs_data st u 0) = Inr (length y)"
  using src_gives_inside_npos [of st b q y 0] bs_at_repD(2,3,4) [OF assms(1)] assms(2,3)
  by (simp add: bs_data_def src_gives_def src_length_def)

lemma src_char_data:
  assumes "bs_at_rep st u b q y" "j \<le> length y"
  shows "src_char st (bs_data st u 0) j = Inr ((y @ [null_char]) ! j)"
  using rep_holds_nth [OF bs_at_repD(4) [OF assms(1)] assms(2)] bs_at_repD(2,3) [OF assms(1)] by (simp add: bs_data_def src_char_def rep_get_def)

text \<open>The first difference of two texts with the NUL behind them.\<close>

fun text_order :: "(char \<Rightarrow> char \<Rightarrow> bool) \<Rightarrow> string \<Rightarrow> string \<Rightarrow> int" where
  "text_order lt [] [] = 0"
| "text_order lt [] (y # ys) = (if lt y null_char then 1 else -1)"
| "text_order lt (x # xs) [] = (if lt null_char x then 1 else -1)"
| "text_order lt (x # xs) (y # ys) = (if x = y then text_order lt xs ys else if lt y x then 1 else -1)"

lemma compare_loop_run:
  assumes v: "bs_at_rep st v a r x" and u: "bs_at_rep st u b q y" and n: "null_char \<notin> set x" "null_char \<notin> set y"
    and lt: "\<And>c d. c \<noteq> d \<Longrightarrow> lt c d \<noteq> lt d c" "\<And>c. \<not> lt c c"
  shows "i \<le> length x \<Longrightarrow> i \<le> length y \<Longrightarrow>
    compare_loop lt (Suc (min (length x) (length y)) - i) (repData r) i st (bs_data st u 0)
      (if length y < length x then -1 else if length x < length y then 1 else 0) = Inr (text_order lt (drop i x) (drop i y))"
proof (induction "min (length x) (length y) - i" arbitrary: i)
  case 0
  then have m: "min (length x) (length y) = i" by simp
  let ?e = "if length y < length x then -1 else if length x < length y then 1 else 0"
  have c: "data_get (repData r) i = Inr ((x @ [null_char]) ! i)" "src_char st (bs_data st u 0) i = Inr ((y @ [null_char]) ! i)"
    using rep_holds_nth [OF bs_at_repD(4) [OF v] 0(2)] src_char_data [OF u 0(3)] by simp_all
  consider "length x = i" "length y = i" | "length x = i" "i < length y" | "i < length x" "length y = i" using m 0(2,3) by linarith
  then show ?case
  proof cases
    case 1
    then show ?thesis using c lt(2) by (simp add: nth_append)
  next
    case 2
    then have d: "drop i y = y ! i # drop (Suc i) y" by (simp add: Cons_nth_drop_Suc)
    have "y ! i \<noteq> null_char" using 2 n(2) nth_mem by metis
    then show ?thesis using 2 c d lt(1) [of "y ! i" null_char] by (simp add: nth_append)
  next
    case 3
    then have d: "drop i x = x ! i # drop (Suc i) x" by (simp add: Cons_nth_drop_Suc)
    have "x ! i \<noteq> null_char" using 3 n(1) nth_mem by metis
    then show ?thesis using 3 c d lt(1) [of "x ! i" null_char] by (simp add: nth_append)
  qed
next
  case (Suc k)
  then have i: "i < length x" "i < length y" by simp_all
  have c: "data_get (repData r) i = Inr (x ! i)" "src_char st (bs_data st u 0) i = Inr (y ! i)"
    using rep_holds_nth [OF bs_at_repD(4) [OF v]] src_char_data [OF u] i by (simp_all add: nth_append)
  have d: "drop i x = x ! i # drop (Suc i) x" "drop i y = y ! i # drop (Suc i) y" using i by (simp_all add: Cons_nth_drop_Suc)
  have e: "Suc (min (length x) (length y)) - i = Suc (Suc (min (length x) (length y)) - Suc i)" using i by simp
  have "compare_loop lt (Suc (min (length x) (length y)) - Suc i) (repData r) (Suc i) st (bs_data st u 0)
      (if length y < length x then -1 else if length x < length y then 1 else 0) = Inr (text_order lt (drop (Suc i) x) (drop (Suc i) y))"
    using Suc(2) i by (intro Suc(1)) simp_all
  then show ?case unfolding e d using c lt(1) [of "x ! i" "y ! i"] lt(2) [of "y ! i"] by auto
qed

lemma text_order_zero: "text_order lt x y = 0 \<longleftrightarrow> x = y"
  by (induction lt x y rule: text_order.induct) auto

section \<open>The properties\<close>


definition strs_empty :: strs where
  "strs_empty = \<lparr>strReps = (\<lambda>a. None), strNext = 0, strObj = (\<lambda>v. None)\<rparr>"

lemma strs_empty_ok: "strs_ok strs_empty"
  by (simp add: strs_ok_def counted_def strs_empty_def)



text \<open>
  The sum of two strings is the text of the one and then of the other, but the operand on the left, and each object that shares its
  representation, is changed too: it gets the text of the sum if the capacity of its buffer is great enough. The new object is made as a copy
  that shares the buffer, and appending writes into it.
\<close>

theorem bs_plus_writes_operand:
  assumes "strs_ok st" "bs_text st v = Some x" "bs_text st u = Some y" "bs_text st t = None" "length x + length y + 1 < 2 ^ 30"
  shows "\<exists>c st'. bs_capacity st v = Inr c \<and> bs_plus st v u t = Inr st' \<and> strs_ok st' \<and>
    bs_text st' = (\<lambda>w. if w = t \<or> (strObj st w = strObj st v \<and> length x + length y < c) then Some (x @ y) else bs_text st w)"
proof -
  obtain a r where v: "bs_at_rep st v a r x" using bs_at_repE [OF assms(1,2)] by blast
  note d = bs_at_repD [OF v]
  obtain st1 where s: "bs_assign st t v = Inr st1" "strs_ok st1" "bs_text st1 = (bs_text st)(t := Some x)" "strObj st1 = (strObj st)(t := strObj st v)"
    by (rule bs_assign_run [OF assms(1,2), of t])
  have nt: "strObj st t = None" using bs_text_None [of st None t] assms(1,4) by (simp add: strs_ok_def)
  have "bs_text st1 t = Some x" using s(3) by simp
  then obtain a1 r1 where t: "bs_at_rep st1 t a1 r1 x" using bs_at_repE [OF s(2)] by blast
  note e = bs_at_repD [OF t]
  have ut: "u \<noteq> t" using assms(3,4) by auto
  then have "bs_text st1 u = Some y" using s(3) assms(3) by simp
  then obtain b q where u: "bs_at_rep st1 u b q y" using bs_at_repE [OF s(2)] by blast
  have ly: "length y < 2 ^ 30" using assms(5) by simp
  note g = data_gives [OF u ly]
  obtain st' a' r' where f: "bs_append st1 t (bs_data st1 u 0) (length y) = Inr st'" "bs_at_rep st' t a' r' (x @ y)"
    "bs_text st' = grown st1 t (x @ y) (length x + length y + 1)" "owners st1 a1 = {t} \<Longrightarrow> owners st' a' = {t} \<and> changes_only st1 t st'"
    by (rule bs_append_run [OF t g(1) g(2) [OF ut] assms(5) g(3) [OF t]]) (rule that)
  have "repCapacity r1 = repCapacity r"
  proof -
    have vt: "v \<noteq> t" using assms(2,4) by auto
    have c: "counted st None" using assms(1) by (simp add: strs_ok_def)
    have p: "\<forall>b. strObj st v = Some b \<longrightarrow> strReps st b \<noteq> None" using d(2,3) by simp
    have "set_data st t (strObj st v) = Inr (st\<lparr>strReps := recount st ((strObj st)(t := strObj st v)), strObj := (strObj st)(t := strObj st v)\<rparr>)"
      by (rule set_data_counted [OF c]) (use p in auto)
    then have "strReps st1 a1 = recount st ((strObj st)(t := strObj st v)) a1" using s(1) by (auto simp: bs_assign_def)
    moreover have "a1 = a" using e(2) s(4) d(2) by simp
    ultimately show ?thesis using e(3) d(3) by (auto simp: recount_def split: if_splits)
  qed
  then have "bs_text st' = (\<lambda>w. if w = t \<or> (strObj st w = strObj st v \<and> length x + length y < repCapacity r) then Some (x @ y) else bs_text st w)"
    using f(3) e(5) s(3,4) by (auto simp: grown_def fun_eq_iff)
  moreover have "bs_plus st v u t = Inr st'" using s(1) bs_at_repD(7) [OF u] f(1) by (simp add: bs_plus_def)
  ultimately show ?thesis using d(8) bs_at_repD(1) [OF f(2)] by blast
qed

text \<open>An empty string has room, so that a sum with it on the left changes it.\<close>

theorem bs_plus_writes_operand_witness:
  "\<exists>st st'. bs_text st 0 = Some [] \<and> bs_text st 1 = Some ''abc'' \<and> bs_plus st 0 1 2 = Inr st' \<and>
     bs_text st' 2 = Some ''abc'' \<and> bs_text st' 0 = Some ''abc''"
proof -
  have c: "0 < DEFAULT_STRING" "DEFAULT_STRING < 2 ^ 31" by (simp_all add: DEFAULT_STRING_def)
  obtain r where r: "rep_new strs_empty DEFAULT_STRING =
      Inr (rep_put (strs_empty\<lparr>strNext := Suc (strNext strs_empty)\<rparr>) (Some (strNext strs_empty)) r, Some (strNext strs_empty))"
    "rep_holds r []" "repRef r = 0" "repCapacity r = DEFAULT_STRING" by (rule rep_new_run [OF c])
  obtain st1 where f: "set_data (rep_put (strs_empty\<lparr>strNext := Suc (strNext strs_empty)\<rparr>) (Some (strNext strs_empty)) r) 0 (Some (strNext strs_empty)) = Inr st1"
    "strs_ok st1" "strObj st1 = (strObj strs_empty)(0 := Some (strNext strs_empty))" "bs_text st1 = (bs_text strs_empty)(0 := Some [])"
    "strReps st1 (strNext strs_empty) = Some (r\<lparr>repRef := 1\<rparr>)" "owners st1 (strNext strs_empty) = {0}"
    "\<And>w b. w \<noteq> 0 \<Longrightarrow> strObj strs_empty w = Some b \<Longrightarrow> \<exists>k. strReps st1 b = map_option (\<lambda>r. r\<lparr>repRef := k\<rparr>) (strReps strs_empty b)"
    by (rule set_fresh [OF strs_empty_ok r(2,3), where v = 0]) (rule that)
  have e: "bs_text strs_empty = (\<lambda>v. None)" "strObj strs_empty = (\<lambda>v. None)" by (simp_all add: strs_empty_def bs_text_def fun_eq_iff)
  have s: "src_gives st1 (Outside ''abc'') NPOS ''abc''" by (rule src_gives_outside(1)) (simp_all add: null_char_def)
  have o1: "strObj st1 1 = None" using f(3) e(2) by simp
  obtain r' where r': "rep_new_from st1 (Outside ''abc'') NPOS =
      Inr (rep_put (st1\<lparr>strNext := Suc (strNext st1)\<rparr>) (Some (strNext st1)) r', Some (strNext st1))" "rep_holds r' ''abc''" "repRef r' = 0"
    "repCapacity r' = Suc (length ''abc'')" by (rule rep_new_from_run [OF f(2) s])
  obtain st where h: "set_data (rep_put (st1\<lparr>strNext := Suc (strNext st1)\<rparr>) (Some (strNext st1)) r') 1 (Some (strNext st1)) = Inr st"
    "strs_ok st" "strObj st = (strObj st1)(1 := Some (strNext st1))" "bs_text st = (bs_text st1)(1 := Some ''abc'')"
    "strReps st (strNext st1) = Some (r'\<lparr>repRef := 1\<rparr>)" "owners st (strNext st1) = {1}"
    "\<And>w b. w \<noteq> 1 \<Longrightarrow> strObj st1 w = Some b \<Longrightarrow> \<exists>k. strReps st b = map_option (\<lambda>r. r\<lparr>repRef := k\<rparr>) (strReps st1 b)"
    by (rule set_fresh [OF f(2) r'(2,3), where v = 1]) (rule that)
  have t: "bs_text st 0 = Some []" "bs_text st 1 = Some ''abc''" "bs_text st 2 = None" using h(4) f(4) e(1) by simp_all
  have "bs_capacity st 0 = Inr DEFAULT_STRING"
    using h(3) h(7) [of 0 "strNext strs_empty"] f(3,5) r(4) by (auto simp: bs_capacity_def this_rep_def rep_get_def)
  moreover have "\<exists>c st'. bs_capacity st 0 = Inr c \<and> bs_plus st 0 1 2 = Inr st' \<and> strs_ok st' \<and>
    bs_text st' = (\<lambda>w. if w = 2 \<or> (strObj st w = strObj st 0 \<and> length ([] :: string) + length ''abc'' < c) then Some ([] @ ''abc'') else bs_text st w)"
    by (rule bs_plus_writes_operand [OF h(2) t]) simp
  ultimately obtain st' where st': "bs_plus st 0 1 2 = Inr st'"
    "bs_text st' = (\<lambda>w. if w = 2 \<or> (strObj st w = strObj st 0 \<and> length ([] :: string) + length ''abc'' < DEFAULT_STRING)
       then Some ([] @ ''abc'') else bs_text st w)" by fastforce
  then have "bs_text st' 2 = Some ''abc''" "bs_text st' 0 = Some ''abc''" by (simp_all add: DEFAULT_STRING_def)
  then show ?thesis using t(1,2) st'(1) by blast
qed

text \<open>
  C26: Let two strings have texts shorter than \<open>2 ^ 30\<close>. Searching the first for the second when that is not longer gives the
  first position from \<open>pos\<close> on at which it lies, if that is not the last possible one: a text is not found at the end,
  and not in itself. Searching from a position in the text for one that is longer and has no NUL finds nothing in the
  text and goes on behind it: what is returned, if anything is, lies behind the text or is \<open>npos\<close>, and with a
  buffer that holds just the text and its NUL it is undefined behaviour. Comparing two texts without NUL gives the
  order of the first difference with the NUL behind the texts, so that two strings are equal if and only if their texts are.
\<close>

theorem bs_find_compare:
  assumes "strs_ok st" "bs_text st v = Some x" "bs_text st u = Some y" "length x < 2 ^ 30" "length y < 2 ^ 30"
  shows "(length y \<le> length x \<longrightarrow> bs_find st v (bs_data st u 0) pos (length y) =
      Inr (case List.find (\<lambda>i. take (length y) (drop i x) = y) [pos..<length x - length y] of None \<Rightarrow> NPOS | Some i \<Rightarrow> i)) \<and>
    (length x < length y \<and> null_char \<notin> set y \<and> pos \<le> length x \<longrightarrow>
      (\<forall>i. bs_find st v (bs_data st u 0) pos (length y) = Inr i \<longrightarrow> length x < i) \<and>
      (bs_capacity st v = Inr (length x + 1) \<longrightarrow> bs_find st v (bs_data st u 0) pos (length y) = Inl UndefinedBehaviour)) \<and>
    (null_char \<notin> set x \<and> null_char \<notin> set y \<and> (\<forall>c d. c \<noteq> d \<longrightarrow> lt c d \<noteq> lt d c) \<and> (\<forall>c. \<not> lt c c) \<longrightarrow>
      bs_compare_string lt st v u = Inr (text_order lt x y) \<and> bs_equal lt st v u = Inr (x = y))"
proof (intro conjI impI allI)
  obtain a r where v: "bs_at_rep st v a r x" using bs_at_repE [OF assms(1,2)] by blast
  obtain b q where u: "bs_at_rep st u b q y" using bs_at_repE [OF assms(1,3)] by blast
  note d = bs_at_repD [OF v]
  note g = data_gives(1) [OF u assms(5)]
  show "bs_find st v (bs_data st u 0) pos (length y) =
      Inr (case List.find (\<lambda>i. take (length y) (drop i x) = y) [pos..<length x - length y] of None \<Rightarrow> NPOS | Some i \<Rightarrow> i)"
    if l: "length y \<le> length x"
  proof -
    have "length x + 2 ^ 32 - length y = (length x - length y) + 2 ^ 32" using l by simp
    then have "unsig (length x + 2 ^ 32 - length y) = (length x - length y + 2 ^ 32) mod 2 ^ 32" by (simp only: unsig_def)
    also have "\<dots> = (length x - length y) mod 2 ^ 32" by (simp only: mod_add_self2)
    also have "\<dots> = length x - length y" using assms(4) by simp
    finally have n: "unsig (length x + 2 ^ 32 - length y) = length x - length y" .
    let ?k = "length x - length y - pos"
    have "src_length st (bs_data st u 0) (length y) = Inr (length y)" using g by (simp add: src_gives_def)
    then have "bs_find st v (bs_data st u 0) pos (length y) = find_loop ?k (repData r) pos st (bs_data st u 0) (length y)"
      using d(5,11) n by (simp add: bs_find_def)
    moreover have "[pos..<pos + ?k] = [pos..<length x - length y]"
    proof (cases "pos \<le> length x - length y")
      case True
      then have "pos + ?k = length x - length y" by (rule le_add_diff_inverse)
      then show ?thesis by (simp only:)
    qed simp
    moreover have "?k = 0 \<or> pos + ?k + length y \<le> length x" using l by linarith
    ultimately show ?thesis using find_loop_run [OF d(4) g, of pos ?k] by auto
  qed
  show "length x < i"
    if h: "length x < length y \<and> null_char \<notin> set y \<and> pos \<le> length x" "bs_find st v (bs_data st u 0) pos (length y) = Inr i" for i
  proof -
    obtain k where "find_loop (Suc k) (repData r) (Suc (length x)) st (bs_data st u 0) (length y) = Inr i"
      using bs_find_longer [OF v u _ _ assms(5)] h by metis
    from find_loop_ge [OF this] show ?thesis using assms(4) by (auto simp: NPOS_def)
  qed
  show "bs_find st v (bs_data st u 0) pos (length y) = Inl UndefinedBehaviour"
    if h: "length x < length y \<and> null_char \<notin> set y \<and> pos \<le> length x" "bs_capacity st v = Inr (length x + 1)"
  proof -
    obtain k where f: "bs_find st v (bs_data st u 0) pos (length y) =
        find_loop (Suc k) (repData r) (Suc (length x)) st (bs_data st u 0) (length y)"
      using bs_find_longer [OF v u _ _ assms(5)] h(1) by metis
    obtain m where m: "length y = Suc m" using h(1) by (cases "length y") auto
    have "length (repData r) = Suc (length x)" using d(8,12) h(2) by simp
    then have "data_get (repData r) (Suc (length x)) = Inl UndefinedBehaviour" by (simp add: data_get_def)
    then show ?thesis unfolding f unfolding m by simp
  qed
  show "bs_compare_string lt st v u = Inr (text_order lt x y)" "bs_equal lt st v u = Inr (x = y)"
    if h: "null_char \<notin> set x \<and> null_char \<notin> set y \<and> (\<forall>c d. c \<noteq> d \<longrightarrow> lt c d \<noteq> lt d c) \<and> (\<forall>c. \<not> lt c c)"
  proof -
    have n: "null_char \<notin> set x" "null_char \<notin> set y" "\<And>c d. c \<noteq> d \<Longrightarrow> lt c d \<noteq> lt d c" "\<And>c. \<not> lt c c" using h by blast+
    have un: "unsig (length x + 2 ^ 32 - 0) = length x"
    proof -
      have "unsig (length x + 2 ^ 32 - 0) = (length x + 2 ^ 32) mod 2 ^ 32" by (simp only: unsig_def diff_zero)
      also have "\<dots> = length x mod 2 ^ 32" by (simp only: mod_add_self2)
      finally show ?thesis using assms(4) by simp
    qed
    have "bs_compare lt st v 0 NPOS (bs_data st u 0) (length y) = Inr (text_order lt x y)"
      using compare_loop_run [where lt = lt and i = 0, OF v u n] src_strlen_data [OF u n(2) assms(5)] d(5,11) un
      by (auto simp: bs_compare_def Let_def min_def simp del: compare_loop.simps split: if_splits)
    then show "bs_compare_string lt st v u = Inr (text_order lt x y)" using bs_at_repD(7) [OF u] by (simp add: bs_compare_string_def)
    then show "bs_equal lt st v u = Inr (x = y)" by (simp add: bs_equal_def text_order_zero)
  qed
qed

theorem bs_find_compare_witness:
  "\<exists>st. bs_text st 0 = Some ''ab'' \<and> bs_text st 1 = Some ''b'' \<and> bs_find st 0 (bs_data st 1 0) 0 1 = Inr NPOS \<and>
     bs_equal (\<lambda>c d. (of_char c :: nat) < of_char d) st 0 1 = Inr False"
proof -
  let ?lt = "\<lambda>c d. (of_char c :: nat) < of_char d"
  have e: "bs_text strs_empty = (\<lambda>v. None)" by (simp add: strs_empty_def bs_text_def fun_eq_iff)
  obtain st1 where s1: "strs_ok st1" "bs_text st1 = text_op (OpFrom 0 ''ab'') (bs_text strs_empty)"
    using bs_step_refines [OF strs_empty_ok, of "OpFrom 0 ''ab''"] by (auto simp: e has_text_def null_char_def)
  obtain st where s: "strs_ok st" "bs_text st = text_op (OpFrom 1 ''b'') (bs_text st1)"
    using bs_step_refines [OF s1(1), of "OpFrom 1 ''b''"] by (auto simp: s1(2) e has_text_def null_char_def)
  have t: "bs_text st 0 = Some ''ab''" "bs_text st 1 = Some ''b''" using s(2) s1(2) e by simp_all
  have lt: "\<forall>c d. c \<noteq> d \<longrightarrow> ?lt c d \<noteq> ?lt d c" "\<forall>c. \<not> ?lt c c"
  proof (intro allI impI)
    fix c d :: char assume "c \<noteq> d"
    then have "(of_char c :: nat) \<noteq> of_char d" by simp
    then show "?lt c d \<noteq> ?lt d c" by linarith
  qed simp
  have "(length ''b'' \<le> length ''ab'' \<longrightarrow> bs_find st 0 (bs_data st 1 0) 0 (length ''b'') =
      Inr (case List.find (\<lambda>i. take (length ''b'') (drop i ''ab'') = ''b'') [0..<length ''ab'' - length ''b''] of None \<Rightarrow> NPOS | Some i \<Rightarrow> i)) \<and>
    (length ''ab'' < length ''b'' \<and> null_char \<notin> set ''b'' \<and> 0 \<le> length ''ab'' \<longrightarrow>
      (\<forall>i. bs_find st 0 (bs_data st 1 0) 0 (length ''b'') = Inr i \<longrightarrow> length ''ab'' < i) \<and>
      (bs_capacity st 0 = Inr (length ''ab'' + 1) \<longrightarrow> bs_find st 0 (bs_data st 1 0) 0 (length ''b'') = Inl UndefinedBehaviour)) \<and>
    (null_char \<notin> set ''ab'' \<and> null_char \<notin> set ''b'' \<and> (\<forall>c d. c \<noteq> d \<longrightarrow> ?lt c d \<noteq> ?lt d c) \<and> (\<forall>c. \<not> ?lt c c) \<longrightarrow>
      bs_compare_string ?lt st 0 1 = Inr (text_order ?lt ''ab'' ''b'') \<and> bs_equal ?lt st 0 1 = Inr (''ab'' = ''b''))"
    by (rule bs_find_compare [OF s(1) t]) simp_all
  moreover have "null_char \<notin> set ''ab''" "null_char \<notin> set ''b''" by (simp_all add: null_char_def)
  ultimately have "bs_find st 0 (bs_data st 1 0) 0 (length ''b'') =
      Inr (case List.find (\<lambda>i. take (length ''b'') (drop i ''ab'') = ''b'') [0..<length ''ab'' - length ''b''] of None \<Rightarrow> NPOS | Some i \<Rightarrow> i)"
    "bs_equal ?lt st 0 1 = Inr (''ab'' = ''b'')" using lt by simp_all
  then show ?thesis using t by auto
qed

end
