(* ===== verification/ListenerContainer.thy ===== *)
theory ListenerContainer
  imports JHList
begin

text \<open>
  The container of listeners (include/ListenerContainer.h) on the linked list: listeners are added, removed and called
  under its lock, so that each call is one step. What a listener does is the environment, a function on a
  state of the outside; listeners do not call back into the container, as its comments demand.
  The loops that it and other clients of the list write are added to the interface \<open>sequence\<close>.
\<close>

section \<open>Two more loops over a sequence\<close>

text \<open>
  \<^verbatim>\<open>for (i = begin; i != end; ++i) body(*i);\<close> and
  \<^verbatim>\<open>for (...) if (visit(*i)) { i.erase(); return true; } return false;\<close>, with a state that the body changes.
\<close>

fun for_each ::
  "('l \<Rightarrow> 'i outcome) \<Rightarrow> ('l \<Rightarrow> 'i \<Rightarrow> 'a outcome) \<Rightarrow> ('l \<Rightarrow> 'i \<Rightarrow> 'i outcome) \<Rightarrow>
   ('s \<Rightarrow> 'a \<Rightarrow> 's outcome) \<Rightarrow> nat \<Rightarrow> 's \<Rightarrow> 'l \<Rightarrow> 'i \<Rightarrow> 's outcome" where
  "for_each end_of deref incr body 0 s l i = Inl NoReturn"
| "for_each end_of deref incr body (Suc fuel) s l i =
     andThen (end_of l) (\<lambda>e. if i = e then Inr s else
     andThen (deref l i) (\<lambda>x.
     andThen (body s x) (\<lambda>s.
     andThen (incr l i) (\<lambda>i. for_each end_of deref incr body fuel s l i))))"

fun for_erase_first ::
  "('l \<Rightarrow> 'i outcome) \<Rightarrow> ('l \<Rightarrow> 'i \<Rightarrow> 'a outcome) \<Rightarrow> ('l \<Rightarrow> 'i \<Rightarrow> 'i outcome) \<Rightarrow> ('l \<Rightarrow> 'i \<Rightarrow> ('l \<times> 'i) outcome) \<Rightarrow>
   ('s \<Rightarrow> 'a \<Rightarrow> (bool \<times> 's) outcome) \<Rightarrow> nat \<Rightarrow> 's \<Rightarrow> 'l \<Rightarrow> 'i \<Rightarrow> (bool \<times> 's \<times> 'l) outcome" where
  "for_erase_first end_of deref incr erase visit 0 s l i = Inl NoReturn"
| "for_erase_first end_of deref incr erase visit (Suc fuel) s l i =
     andThen (end_of l) (\<lambda>e. if i = e then Inr (False, s, l) else
     andThen (deref l i) (\<lambda>x.
     andThen (visit s x) (\<lambda>(b, s).
     if b then andThen (erase l i) (\<lambda>(l, i). Inr (True, s, l))
     else andThen (incr l i) (\<lambda>i. for_erase_first end_of deref incr erase visit fuel s l i))))"

text \<open>The same on plain lists.\<close>

fun visit_first :: "('s \<Rightarrow> 'a \<Rightarrow> (bool \<times> 's) outcome) \<Rightarrow> 's \<Rightarrow> 'a list \<Rightarrow> (bool \<times> 's \<times> 'a list) outcome" where
  "visit_first visit s [] = Inr (False, s, [])"
| "visit_first visit s (x # xs) =
     andThen (visit s x) (\<lambda>(b, s).
     if b then Inr (True, s, xs) else andThen (visit_first visit s xs) (\<lambda>(b, s, ys). Inr (b, s, x # ys)))"

lemma visit_first_eq: "visit_first (\<lambda>s y. Inr (x = y, s)) s xs = Inr (x \<in> set xs, s, remove1 x xs)"
  by (induction xs) auto

context sequence
begin

lemma for_each_rep:
  assumes "rep l w xs"
  shows "k \<le> length xs \<Longrightarrow> length xs - k < fuel \<Longrightarrow>
    for_each end_of deref incr body fuel s l (w ! (k + 1)) = fold_outcome body s (drop k xs)"
proof (induction fuel arbitrary: k s)
  case (Suc fuel)
  show ?case
  proof (cases "k = length xs")
    case True
    then show ?thesis using end_law [OF assms] by simp
  next
    case False
    then have k: "k < length xs" using Suc.prems(1) by simp
    have "for_each end_of deref incr body fuel s' l (w ! (k + 2)) = fold_outcome body s' (drop (k + 1) xs)" for s'
      using Suc.IH [of "k + 1" s'] Suc.prems k by simp
    then show ?thesis
      using k False end_law [OF assms] end_iff [OF assms Suc.prems(1)] deref_law [OF assms k] incr_law [OF assms, of "k + 1"]
        take_nth_drop [OF k] by simp
  qed
qed simp

lemma for_each_begin:
  assumes "rep l w xs" "length xs < fuel"
  shows "andThen (begin_of l) (for_each end_of deref incr body fuel s l) = fold_outcome body s xs"
  using for_each_rep [OF assms(1), of 0 fuel body s] begin_law [OF assms(1)] assms(2) by simp

lemma for_erase_first_rep:
  assumes "rep l w xs"
  shows "k \<le> length xs \<Longrightarrow> length xs - k < fuel \<Longrightarrow> visit_first visit s (drop k xs) = Inr (b, s', ys) \<Longrightarrow>
    \<exists>l' w'. for_erase_first end_of deref incr erase visit fuel s l (w ! (k + 1)) = Inr (b, s', l') \<and> rep l' w' (take k xs @ ys)"
proof (induction fuel arbitrary: k s ys)
  case (Suc fuel)
  show ?case
  proof (cases "k = length xs")
    case True
    then show ?thesis using Suc.prems end_law [OF assms] assms by auto
  next
    case False
    then have k: "k < length xs" using Suc.prems(1) by simp
    note laws = end_law [OF assms] end_iff [OF assms Suc.prems(1)] deref_law [OF assms k]
    obtain c t where v: "visit s (xs ! k) = Inr (c, t)"
      using Suc.prems(3) take_nth_drop [OF k] by (auto simp: andThen_Inr_iff)
    show ?thesis
    proof (cases c)
      case True
      obtain l' where "erase l (w ! (k + 1)) = Inr (l', w ! (k + 2))" "rep l' (take (k + 1) w @ drop (k + 2) w) (take k xs @ drop (k + 1) xs)"
        using erase_law [OF assms k] by blast
      then show ?thesis using True v laws k Suc.prems(3) take_nth_drop [OF k] by auto
    next
      case no: False
      obtain zs where z: "visit_first visit t (drop (k + 1) xs) = Inr (b, s', zs)" "ys = xs ! k # zs"
        using Suc.prems(3) take_nth_drop [OF k] v no by (auto simp: andThen_Inr_iff)
      have "length xs - (k + 1) < fuel" "k + 1 \<le> length xs" using Suc.prems(2) k by arith+
      then obtain l' w' where "for_erase_first end_of deref incr erase visit fuel t l (w ! (k + 2)) = Inr (b, s', l')"
        "rep l' w' (take (k + 1) xs @ zs)"
        using Suc.IH [of "k + 1" t zs] z(1) by auto
      then show ?thesis using no v laws k False incr_law [OF assms, of "k + 1"] z(2) by (auto simp: take_Suc_conv_app_nth)
    qed
  qed
qed simp

lemma for_erase_first_begin:
  assumes "rep l w xs" "length xs < fuel" "visit_first visit s xs = Inr (b, s', ys)"
  shows "\<exists>l' w'. andThen (begin_of l) (for_erase_first end_of deref incr erase visit fuel s l) = Inr (b, s', l') \<and> rep l' w' ys"
  using for_erase_first_rep [OF assms(1), of 0 fuel visit s b s' ys] begin_law [OF assms(1)] assms(2,3) by simp

end

section \<open>The container\<close>

text \<open>A listener is its address.\<close>

definition lc_addListener :: "nat jlist \<Rightarrow> nat \<Rightarrow> nat jlist outcome" where
  "lc_addListener l listener = jl_push_back l listener"

definition lc_removeListener :: "nat jlist \<Rightarrow> nat \<Rightarrow> nat jlist outcome" where
  "lc_removeListener l listener =
     andThen (jl_begin l) (\<lambda>i.
     andThen (for_erase_first jl_end it_deref it_incr it_erase (\<lambda>s lnode. Inr (listener = lnode, s)) (jl_fresh l) () l i) (\<lambda>(_, _, l). Inr l))"

definition lc_invokeListeners :: "nat jlist \<Rightarrow> ('s \<Rightarrow> nat \<Rightarrow> 's) \<Rightarrow> 's \<Rightarrow> 's outcome" where
  "lc_invokeListeners l invoker s =
     andThen (jl_begin l) (for_each jl_end it_deref it_incr (\<lambda>s lnode. Inr (invoker s lnode)) (jl_fresh l) s l)"

definition lc_destroy :: "nat jlist \<Rightarrow> nat jlist outcome" where
  "lc_destroy l = jl_clear (jl_fresh l) l"

datatype lc_op = AddListener nat | RemoveListener nat

fun lc_run :: "lc_op list \<Rightarrow> nat jlist \<Rightarrow> nat jlist outcome" where
  "lc_run [] l = Inr l"
| "lc_run (AddListener x # ops) l = andThen (lc_addListener l x) (lc_run ops)"
| "lc_run (RemoveListener x # ops) l = andThen (lc_removeListener l x) (lc_run ops)"

fun lc_spec :: "lc_op list \<Rightarrow> nat list \<Rightarrow> nat list" where
  "lc_spec [] xs = xs"
| "lc_spec (AddListener x # ops) xs = lc_spec ops (xs @ [x])"
| "lc_spec (RemoveListener x # ops) xs = lc_spec ops (remove1 x xs)"

lemma lc_removeListener_holds:
  assumes "jl_holds l xs"
  shows "\<exists>l'. lc_removeListener l x = Inr l' \<and> jl_holds l' (remove1 x xs)"
proof -
  obtain w where w: "jl_seq l w xs" using assms by (auto simp: jl_holds_def)
  obtain l' w' where "andThen (jl_begin l) (for_erase_first jl_end it_deref it_incr it_erase (\<lambda>s y. Inr (x = y, s)) (jl_fresh l) () l) =
      Inr (x \<in> set xs, (), l')" "jl_seq l' w' (remove1 x xs)"
    using jl.for_erase_first_begin [OF w _ visit_first_eq, of "jl_fresh l" x "()"] jl_fuel [OF assms] by auto
  then show ?thesis by (auto simp: lc_removeListener_def jl_holds_def andThen_Inr_iff)
qed

lemma lc_run_holds: "jl_holds l xs \<Longrightarrow> \<exists>l'. lc_run ops l = Inr l' \<and> jl_holds l' (lc_spec ops xs)"
proof (induction ops arbitrary: l xs)
  case (Cons op ops)
  show ?case
  proof (cases op)
    case (AddListener x)
    then show ?thesis using jl_push_back_holds [OF Cons.prems, of x] Cons.IH by (auto simp: lc_addListener_def)
  next
    case (RemoveListener x)
    then show ?thesis using lc_removeListener_holds [OF Cons.prems, of x] Cons.IH by auto
  qed
qed simp

lemma lc_invoke_holds: "jl_holds l xs \<Longrightarrow> lc_invokeListeners l invoker s = Inr (foldl invoker s xs)"
proof -
  assume h: "jl_holds l xs"
  then obtain w where w: "jl_seq l w xs" by (auto simp: jl_holds_def)
  have "length xs < jl_fresh l" using jl_fuel [OF h] by simp
  then show ?thesis by (simp add: lc_invokeListeners_def fold_outcome_pure jl.for_each_begin [OF w])
qed

text \<open>
  After every sequence of additions and removals, from an empty container on, all listeners are called, once for each time that they
  were added and not removed, in the order in which they were added; removing takes the first of equal ones, and
  removing what was never added changes nothing. Then the container can be cleared.
\<close>

theorem lc_calls_added:
  "\<exists>l l' l''. jl_list = Inr l \<and> lc_run ops l = Inr l' \<and> lc_invokeListeners l' invoker s = Inr (foldl invoker s (lc_spec ops [])) \<and>
    lc_destroy l' = Inr l'' \<and> jl_empty l'' = Inr True"
proof -
  obtain l where l: "jl_list = Inr l" "jl_holds l ([] :: nat list)" using jl_list_holds by blast
  obtain l' where l': "lc_run ops l = Inr l'" "jl_holds l' (lc_spec ops [])" using lc_run_holds [OF l(2)] by blast
  obtain l'' where "lc_destroy l' = Inr l''" "jl_holds l'' ([] :: nat list)"
    using jl_clear_holds [OF l'(2), of "jl_fresh l'"] jl_fuel [OF l'(2)] by (auto simp: lc_destroy_def)
  then show ?thesis using l l' lc_invoke_holds [OF l'(2)] jl_empty_holds by fastforce
qed

end
