(* ===== verification/LogPrint.thy ===== *)
theory LogPrint
  imports JHStrings
begin

text \<open>
  The printing of log lines (src/logging.cpp): the buffers of characters that \<open>sprintf\<close> and its
  relatives write, the name of a function taken out of what the compiler says of it, the line of a log
  message with its buffer of 512 bytes, and the dumps of memory. What the format of the caller prints
  (\<open>vsnprintf\<close>) is an argument; the dumps are those of the build with \<open>JH_VERBOSE_LOGGING\<close>.
  Strings of the code are lists of characters without NUL.
\<close>

section \<open>Buffers of characters\<close>

text \<open>A byte that was not written yet is \<open>None\<close>; an access outside of the buffer is undefined.\<close>

type_synonym charbuf = "char option list"

abbreviation NUL :: char where "NUL \<equiv> CHR 0x00"

definition put :: "charbuf \<Rightarrow> nat \<Rightarrow> string \<Rightarrow> charbuf outcome" where
  "put buf p s =
     (if p + length s \<le> length buf then Inr (take p buf @ map Some s @ drop (p + length s) buf) else Inl UndefinedBehaviour)"

fun c_text :: "charbuf \<Rightarrow> string outcome" where
  "c_text [] = Inl UndefinedBehaviour"
| "c_text (None # r) = Inl UndefinedBehaviour"
| "c_text (Some c # r) = (if c = NUL then Inr [] else andThen (c_text r) (\<lambda>s. Inr (c # s)))"

definition sprintf :: "charbuf \<Rightarrow> nat \<Rightarrow> string \<Rightarrow> (charbuf \<times> nat) outcome" where
  "sprintf buf p s = andThen (put buf p (s @ [NUL])) (\<lambda>buf. Inr (buf, p + length s))"

text \<open>\<open>snprintf\<close> returns the length of the whole text.\<close>

definition snprintf :: "charbuf \<Rightarrow> nat \<Rightarrow> nat \<Rightarrow> string \<Rightarrow> (charbuf \<times> nat) outcome" where
  "snprintf buf p n s =
     andThen (if n = 0 then Inr buf else put buf p (take (n - 1) s @ [NUL])) (\<lambda>buf. Inr (buf, length s))"

definition strncpy :: "charbuf \<Rightarrow> string \<Rightarrow> int \<Rightarrow> charbuf outcome" where
  "strncpy buf s n =
     (if n < 0 then Inl UndefinedBehaviour else put buf 0 (take (nat n) s @ replicate (nat n - length s) NUL))"

definition store_char :: "charbuf \<Rightarrow> int \<Rightarrow> char \<Rightarrow> charbuf outcome" where
  "store_char buf i c = (if i < 0 then Inl UndefinedBehaviour else put buf (nat i) [c])"

text \<open>The buffer starts with the text.\<close>

definition starts :: "charbuf \<Rightarrow> string \<Rightarrow> bool" where
  "starts buf t \<longleftrightarrow> (\<exists>rest. buf = map Some t @ rest)"

lemma put_starts:
  assumes "starts buf t" "length t + length s \<le> length buf"
  shows "\<exists>buf'. put buf (length t) s = Inr buf' \<and> starts buf' (t @ s) \<and> length buf' = length buf"
  using assms by (fastforce simp: put_def starts_def)

lemma starts_nil [simp]: "starts buf []"
  by (simp add: starts_def)

lemma starts_append: "starts buf (t @ s) \<Longrightarrow> starts buf t"
  by (auto simp: starts_def)

lemma c_text_starts: "starts buf (t @ [NUL]) \<Longrightarrow> NUL \<notin> set t \<Longrightarrow> c_text buf = Inr t"
  by (induction t arbitrary: buf) (auto simp: starts_def)

lemma sprintf_starts:
  assumes "starts buf t" "length t + length s < length buf"
  shows "\<exists>buf'. sprintf buf (length t) s = Inr (buf', length (t @ s)) \<and> starts buf' ((t @ s) @ [NUL]) \<and> length buf' = length buf"
  using put_starts [OF assms(1), of "s @ [NUL]"] assms(2) by (auto simp: sprintf_def)

section \<open>The name of a function\<close>

text \<open>
  \<open>function_name_fixup\<close> walks with a pointer from the last character of the pretty name to the first.
  The argument of the loops is the pointer plus one: 0 stands in front of the string.
\<close>

fun fix_paren :: "string \<Rightarrow> nat \<Rightarrow> int \<Rightarrow> nat \<times> int" where
  "fix_paren pretty 0 n = (0, n)"
| "fix_paren pretty (Suc p) n =
     (let n = (if pretty ! p = CHR '')'' then n + 1 else if pretty ! p = CHR ''('' then n - 1 else n) in
      if n = 0 then (Suc p, n) else fix_paren pretty p n)"

fun fix_back :: "string \<Rightarrow> nat \<Rightarrow> int \<Rightarrow> nat" where
  "fix_back pretty 0 n = 0"
| "fix_back pretty (Suc p) n =
     (if pretty ! p = CHR ''>'' then fix_back pretty p (n + 1)
      else if pretty ! p = CHR ''<'' then fix_back pretty p (n - 1)
      else if is_space (pretty ! p) \<and> n = 0 then Suc p
      else fix_back pretty p n)"

function fix_print :: "string \<Rightarrow> nat \<Rightarrow> int \<Rightarrow> nat \<Rightarrow> int \<Rightarrow> charbuf \<Rightarrow> nat \<Rightarrow> (charbuf \<times> nat) outcome" where
  "fix_print pretty e len pos n name i =
     (if int i < len - 1 \<and> pos < e
      then let n = (if pretty ! pos = CHR ''>'' then n - 1 else n) in
           andThen (if n = 0 then andThen (put name i [pretty ! pos]) (\<lambda>name. Inr (name, i + 1)) else Inr (name, i)) (\<lambda>(name, i).
           fix_print pretty e len (pos + 1) (if pretty ! pos = CHR ''<'' then n + 1 else n) name i)
      else Inr (name, i))"
  by auto
termination by (relation "measure (\<lambda>(pretty, e, len, pos, n, name, i). e - pos)") auto

definition function_name_fixup :: "string \<Rightarrow> charbuf \<Rightarrow> int \<Rightarrow> (charbuf \<times> nat) outcome" where
  "function_name_fixup pretty name len =
     (let (p, n) = fix_paren pretty (length pretty) 0 in
      if p = 0
      then andThen (strncpy name pretty len) (\<lambda>name.
           andThen (store_char name (len - 1) NUL) (\<lambda>name.
           andThen (c_text name) (\<lambda>t. Inr (name, length t))))
      else andThen (fix_print pretty (p - 1) len (fix_back pretty p n) 0 name 0) (\<lambda>(name, i).
           andThen (put name i [NUL]) (\<lambda>name. Inr (name, i))))"

declare fix_print.simps [simp del]

text \<open>What is printed between two positions: what stands outside of angle brackets, and the brackets.\<close>

fun strip_templates :: "int \<Rightarrow> string \<Rightarrow> string" where
  "strip_templates n [] = []"
| "strip_templates n (c # cs) =
     (let n = (if c = CHR ''>'' then n - 1 else n) in
      (if n = 0 then [c] else []) @ strip_templates (if c = CHR ''<'' then n + 1 else n) cs)"

lemma fix_print_text:
  assumes "e \<le> length pretty" "len \<le> int (length name)"
  shows "starts name t \<Longrightarrow> int (length t) < len \<Longrightarrow>
    \<exists>name'. fix_print pretty e len pos n name (length t) =
      Inr (name', length (t @ take (nat (len - 1) - length t) (strip_templates n (drop pos (take e pretty))))) \<and>
    starts name' (t @ take (nat (len - 1) - length t) (strip_templates n (drop pos (take e pretty)))) \<and> length name' = length name"
  using assms
proof (induction "e - pos" arbitrary: pos n name t)
  case 0
  then show ?case by (simp add: fix_print.simps)
next
  case (Suc d)
  show ?case
  proof (cases "int (length t) < len - 1")
    case False
    then have "nat (len - 1) - length t = 0" by simp
    then show ?thesis using False Suc.prems by (simp add: fix_print.simps)
  next
    case room: True
    have pos: "pos < e" using Suc.hyps(2) by simp
    let ?c = "pretty ! pos"
    obtain m k where m: "m = (if ?c = CHR ''>'' then n - 1 else n)" and k: "k = (if ?c = CHR ''<'' then m + 1 else m)" by blast
    have step: "fix_print pretty e len pos n name (length t) =
        andThen (if m = 0 then andThen (put name (length t) [?c]) (\<lambda>name. Inr (name, length t + 1)) else Inr (name, length t))
          (\<lambda>(name, i). fix_print pretty e len (pos + 1) k name i)"
      using room pos m k by (simp add: fix_print.simps [of pretty e len pos n name] Let_def)
    have strip: "strip_templates n (?c # cs) = (if m = 0 then [?c] else []) @ strip_templates k cs" for cs
      by (simp add: m k Let_def)
    have d: "drop pos (take e pretty) = ?c # drop (pos + 1) (take e pretty)"
      using Cons_nth_drop_Suc [of pos "take e pretty"] pos Suc.prems(3) by simp
    have hyp: "d = e - (pos + 1)" using Suc.hyps(2) by simp
    show ?thesis
    proof (cases "m = 0")
      case True
      obtain name1 where p: "put name (length t) [?c] = Inr name1" "starts name1 (t @ [?c])" "length name1 = length name"
        using put_starts [OF Suc.prems(1), of "[?c]"] Suc.prems(2,4) by auto
      have "nat (len - 1) - length t = Suc (nat (len - 1) - length (t @ [?c]))" using room by simp
      then show ?thesis
        using Suc.hyps(1) [OF hyp p(2), of k] room Suc.prems(3,4) p(1,3) True by (simp add: step d strip del: strip_templates.simps)
    next
      case False
      then show ?thesis using Suc.hyps(1) [OF hyp Suc.prems(1,2), of k] Suc.prems(3,4) by (simp add: step d strip del: strip_templates.simps)
    qed
  qed
qed

text \<open>In every case the name fits and is terminated.\<close>

lemma fix_paren_le: "fst (fix_paren pretty p n) \<le> p"
  by (induction pretty p n rule: fix_paren.induct) (auto simp: Let_def le_SucI)

lemma fixup_safe:
  assumes "NUL \<notin> set pretty" "1 \<le> len" "len \<le> int (length name)"
  shows "\<exists>name' t. function_name_fixup pretty name len = Inr (name', length t) \<and> c_text name' = Inr t \<and> int (length t) < len \<and>
    length name' = length name"
proof -
  obtain p n where pn: "fix_paren pretty (length pretty) 0 = (p, n)" by fastforce
  have strip: "set (strip_templates m cs) \<subseteq> set cs" for m cs by (induction m cs rule: strip_templates.induct) (auto simp: Let_def)
  show ?thesis
  proof (cases "p = 0")
    case True
    let ?k = "nat (len - 1)"
    let ?w = "take (nat len) pretty @ replicate (nat len - length pretty) NUL"
    have w: "length ?w = nat len" by simp
    let ?name = "map Some (take ?k pretty @ replicate (?k - length pretty) NUL @ [NUL]) @ drop (nat len) name"
    have k: "nat len = Suc ?k" using assms(2) by simp
    have "put name 0 ?w = Inr (map Some ?w @ drop (nat len) name)" using assms(3) by (simp only: put_def w) simp
    moreover have "put (map Some ?w @ drop (nat len) name) ?k [NUL] = Inr ?name"
      using assms(3) by (auto simp: put_def k take_map min_def Suc_diff_le)
    moreover have "c_text ?name = Inr (take ?k pretty)"
      using assms(1) by (intro c_text_starts; cases "?k - length pretty") (auto simp: starts_def dest: in_set_takeD)
    ultimately show ?thesis
      using assms(2,3) by (auto simp: function_name_fixup_def pn True strncpy_def store_char_def)
  next
    case False
    have p: "p - 1 \<le> length pretty" using fix_paren_le [of pretty "length pretty" 0] by (simp add: pn le_diff_conv)
    obtain name' t where f: "fix_print pretty (p - 1) len (fix_back pretty p n) 0 name 0 = Inr (name', length t)" "starts name' t"
      "length name' = length name" "t = take (nat (len - 1)) (strip_templates 0 (drop (fix_back pretty p n) (take (p - 1) pretty)))"
      using fix_print_text [of "p - 1" pretty len name "[]" "fix_back pretty p n" 0] p assms(2,3) by auto
    have t: "int (length t) < len" "NUL \<notin> set t"
      using f(4) assms(1,2) strip [of 0 "drop (fix_back pretty p n) (take (p - 1) pretty)"]
      by (auto dest!: in_set_takeD set_mp in_set_dropD)
    obtain name2 where "put name' (length t) [NUL] = Inr name2" "starts name2 (t @ [NUL])" "length name2 = length name"
      using put_starts [OF f(2), of "[NUL]"] f(3) t(1) assms(3) by auto
    then show ?thesis using f(1) t c_text_starts [OF _ t(2)] by (auto simp: function_name_fixup_def pn False)
  qed
qed

text \<open>
  What the compiler says of a function ends with its arguments in parentheses and may start with more,
  up to a space. Its short name leaves out what stands between the angle brackets of templates.
\<close>

inductive well_nested :: "char \<Rightarrow> char \<Rightarrow> string \<Rightarrow> bool" for l r where
  nested_nil: "well_nested l r []"
| nested_char: "c \<noteq> l \<Longrightarrow> c \<noteq> r \<Longrightarrow> well_nested l r [c]"
| nested_append: "well_nested l r s \<Longrightarrow> well_nested l r t \<Longrightarrow> well_nested l r (s @ t)"
| nested_pair: "well_nested l r s \<Longrightarrow> well_nested l r ([l] @ s @ [r])"

inductive short_name :: "string \<Rightarrow> string \<Rightarrow> bool" where
  short_nil: "short_name [] []"
| short_char: "c \<noteq> CHR ''<'' \<Longrightarrow> c \<noteq> CHR ''>'' \<Longrightarrow> \<not> is_space c \<Longrightarrow> short_name [c] [c]"
| short_append: "short_name s s' \<Longrightarrow> short_name t t' \<Longrightarrow> short_name (s @ t) (s' @ t')"
| short_template: "well_nested (CHR ''<'') (CHR ''>'') s \<Longrightarrow> short_name (''<'' @ s @ ''>'') ''<>''"

lemma fix_paren_nested:
  "well_nested (CHR ''('') (CHR '')'') s \<Longrightarrow> 1 \<le> n \<Longrightarrow>
   fix_paren (a @ s @ b) (length a + length s) n = fix_paren (a @ s @ b) (length a) n"
proof (induction s arbitrary: a b n rule: well_nested.induct)
  case (nested_append s t)
  then show ?case using nested_append.IH(1) [of n a "t @ b"] nested_append.IH(2) [of n "a @ s" b] by (simp add: add.assoc)
next
  case (nested_pair s)
  then show ?case using nested_pair.IH [of "n + 1" "a @ ''(''" "'')'' @ b"] by (simp add: nth_append Let_def)
qed (simp_all add: nth_append Let_def)

lemma fix_back_nested:
  "well_nested (CHR ''<'') (CHR ''>'') s \<Longrightarrow> 1 \<le> n \<Longrightarrow>
   fix_back (a @ s @ b) (length a + length s) n = fix_back (a @ s @ b) (length a) n"
proof (induction s arbitrary: a b n rule: well_nested.induct)
  case (nested_append s t)
  then show ?case using nested_append.IH(1) [of n a "t @ b"] nested_append.IH(2) [of n "a @ s" b] by (simp add: add.assoc)
next
  case (nested_pair s)
  then show ?case using nested_pair.IH [of "n + 1" "a @ ''<''" "''>'' @ b"] by (simp add: nth_append)
qed (simp_all add: nth_append)

lemma fix_back_short:
  "short_name s t \<Longrightarrow> fix_back (a @ s @ b) (length a + length s) 0 = fix_back (a @ s @ b) (length a) 0"
proof (induction s t arbitrary: a b rule: short_name.induct)
  case (short_append s s' t t')
  then show ?case using short_append.IH(1) [of a "t @ b"] short_append.IH(2) [of "a @ s" b] by (simp add: add.assoc)
next
  case (short_template s)
  then show ?case using fix_back_nested [OF short_template, of 1 "a @ ''<''" "''>'' @ b"] by (simp add: nth_append)
qed (simp_all add: nth_append)

lemma strip_nested:
  "well_nested (CHR ''<'') (CHR ''>'') s \<Longrightarrow> 1 \<le> n \<Longrightarrow> strip_templates n (s @ r) = strip_templates n r"
  by (induction s arbitrary: n r rule: well_nested.induct) (auto simp: Let_def)

lemma strip_short: "short_name s t \<Longrightarrow> strip_templates 0 (s @ r) = t @ strip_templates 0 r"
  by (induction s t arbitrary: r rule: short_name.induct) (auto simp: strip_nested Let_def)

lemma fixup_parts:
  assumes "short_name s t" "well_nested (CHR ''('') (CHR '')'') args" "a = [] \<or> is_space (last a)"
  defines "pretty \<equiv> a @ s @ ''('' @ args @ '')''"
  shows "fix_paren pretty (length pretty) 0 = (Suc (length a + length s), 0)" "fix_back pretty (Suc (length a + length s)) 0 = length a"
proof -
  have p: "pretty = (a @ s @ ''('' @ args) @ '')''" by (simp add: pretty_def)
  have "pretty ! length (a @ s @ ''('' @ args) = CHR '')''" unfolding p by (rule nth_append_length)
  moreover have "length pretty = Suc (length (a @ s @ ''('' @ args))" by (simp add: p)
  ultimately have "fix_paren pretty (length pretty) 0 = fix_paren pretty (length ((a @ s @ ''('')) + length args) 1"
    by (simp add: Let_def add.assoc)
  also have "\<dots> = fix_paren pretty (length (a @ s @ ''('')) 1"
    using fix_paren_nested [OF assms(2), of 1 "a @ s @ ''(''" "'')''"] by (simp add: pretty_def)
  finally show "fix_paren pretty (length pretty) 0 = (Suc (length a + length s), 0)" by (simp add: pretty_def nth_append Let_def)
  have "fix_back pretty (Suc (length a + length s)) 0 = fix_back pretty (length a + length s) 0"
    by (simp add: pretty_def nth_append is_space_def)
  also have "\<dots> = fix_back pretty (length a) 0" using fix_back_short [OF assms(1), of a "''('' @ args @ '')''"] by (simp add: pretty_def)
  also have "\<dots> = length a" using assms(3) by (cases a rule: rev_cases) (auto simp: pretty_def nth_append is_space_def)
  finally show "fix_back pretty (Suc (length a + length s)) 0 = length a" .
qed

text \<open>
  The name of a function, as the log prints it: of what the compiler says, without what stands before the
  name, without the arguments and without the arguments of templates, it is the name, cut to what fits
  into the buffer with its terminating NUL.
\<close>

theorem fixup_name:
  assumes "short_name s t" "well_nested (CHR ''('') (CHR '')'') args" "a = [] \<or> is_space (last a)"
    and "NUL \<notin> set s" "1 \<le> len" "len \<le> int (length name)"
  shows "\<exists>name'. function_name_fixup (a @ s @ ''('' @ args @ '')'') name len = Inr (name', min (nat len - 1) (length t)) \<and>
    c_text name' = Inr (take (nat len - 1) t)"
proof -
  let ?pretty = "a @ s @ ''('' @ args @ '')''"
  have strip: "strip_templates 0 s = t" using strip_short [OF assms(1), of "[]"] by simp
  have sub: "set (strip_templates m cs) \<subseteq> set cs" for m cs by (induction m cs rule: strip_templates.induct) (auto simp: Let_def)
  have t: "NUL \<notin> set (take (nat len - 1) t)" using sub [of 0 s] strip assms(4) by (auto dest: in_set_takeD)
  have k: "nat (len - 1) = nat len - 1" by simp
  obtain name' where f: "fix_print ?pretty (length a + length s) len (length a) 0 name 0 = Inr (name', length (take (nat len - 1) t))"
    "starts name' (take (nat len - 1) t)" "length name' = length name"
    using fix_print_text [of "length a + length s" ?pretty len name "[]" "length a" 0] assms(5,6) by (auto simp: strip k)
  have "nat len \<le> length name" "1 \<le> nat len" using assms(5,6) by auto
  then have room: "length (take (nat len - 1) t) + length [NUL] \<le> length name'" using f(3) by (simp add: min_def) arith
  obtain name2 where "put name' (length (take (nat len - 1) t)) [NUL] = Inr name2" "starts name2 (take (nat len - 1) t @ [NUL])"
    using put_starts [OF f(2), of "[NUL]"] room by auto
  then show ?thesis
    using f(1) c_text_starts [OF _ t] fixup_parts [OF assms(1-3)] by (auto simp: function_name_fixup_def min.commute)
qed

theorem fixup_name_witness:
  "(\<exists>name'. function_name_fixup (''int '' @ (''V<'' @ ''a b'' @ ''>'') @ ''('' @ ''(x)'' @ '')'') (replicate 4 None) 4 = Inr (name', 3) \<and>
     c_text name' = Inr ''V<>'')
   \<and> (\<exists>name'. function_name_fixup ''int f() const'' (replicate 9 None) 9 = Inr (name', 4) \<and> c_text name' = Inr ''cons'')"
proof
  have b: "well_nested (CHR ''<'') (CHR ''>'') ''a b''"
    using nested_append [OF nested_char nested_append [OF nested_char nested_char], of "CHR ''a''" "CHR ''<''" "CHR ''>''" "CHR '' ''" "CHR ''b''"] by simp
  have s: "short_name (''V<'' @ ''a b'' @ ''>'') ''V<>''"
    using short_append [OF short_char short_template [OF b], of "CHR ''V''"] by (simp add: is_space_def)
  have "well_nested (CHR ''('') (CHR '')'') ''(x)''" using nested_pair [OF nested_char, of "CHR ''x''"] by simp
  from fixup_name [OF s this, of "''int ''" 4 "replicate 4 None"]
  show "\<exists>name'. function_name_fixup (''int '' @ (''V<'' @ ''a b'' @ ''>'') @ ''('' @ ''(x)'' @ '')'') (replicate 4 None) 4 = Inr (name', 3) \<and>
     c_text name' = Inr ''V<>''"
    by (simp add: is_space_def numeral_3_eq_3)
  show "\<exists>name'. function_name_fixup ''int f() const'' (replicate 9 None) 9 = Inr (name', 4) \<and> c_text name' = Inr ''cons''"
    by (simp add: function_name_fixup_def fix_print.simps is_space_def put_def Let_def)
qed

section \<open>Files of the log\<close>

text \<open>
  What a file received and how much of it was flushed; the log has a file, a second one that gets a copy, a mode in
  which each line is flushed and the number of the next mark. \<open>None\<close> is a null pointer.
\<close>

record out_file =
  of_text :: string
  of_flushed :: nat

record log_files =
  logging_file :: "nat option"
  logging_copy_file :: "nat option"
  logging_sync_mode :: bool
  logging_mark_num :: int
  lf_out :: "nat \<Rightarrow> out_file"

definition fprintf :: "nat option \<Rightarrow> string \<Rightarrow> 'a log_files_scheme \<Rightarrow> 'a log_files_scheme outcome" where
  "fprintf f t s =
     (case f of None \<Rightarrow> Inl UndefinedBehaviour
      | Some f \<Rightarrow> Inr (s\<lparr>lf_out := (lf_out s)(f := (lf_out s f)\<lparr>of_text := of_text (lf_out s f) @ t\<rparr>)\<rparr>))"

definition fflush :: "nat \<Rightarrow> 'a log_files_scheme \<Rightarrow> 'a log_files_scheme" where
  "fflush f s = s\<lparr>lf_out := (lf_out s)(f := (lf_out s f)\<lparr>of_flushed := length (of_text (lf_out s f))\<rparr>)\<rparr>"

definition logging_set_file :: "nat option \<Rightarrow> 'a log_files_scheme \<Rightarrow> 'a log_files_scheme" where
  "logging_set_file f s = s\<lparr>logging_file := f\<rparr>"

definition logging_set_copy_file :: "nat option \<Rightarrow> 'a log_files_scheme \<Rightarrow> 'a log_files_scheme" where
  "logging_set_copy_file f s = s\<lparr>logging_copy_file := f\<rparr>"

definition logging_set_sync_mode :: "bool \<Rightarrow> 'a log_files_scheme \<Rightarrow> 'a log_files_scheme" where
  "logging_set_sync_mode b s = s\<lparr>logging_sync_mode := b\<rparr>"

definition flush_if :: "nat option \<Rightarrow> 'a log_files_scheme \<Rightarrow> 'a log_files_scheme" where
  "flush_if f s = (case f of None \<Rightarrow> s | Some f \<Rightarrow> fflush f s)"

definition logging_sync :: "'a log_files_scheme \<Rightarrow> 'a log_files_scheme" where
  "logging_sync s = (let s = flush_if (logging_file s) s in flush_if (logging_copy_file s) s)"

text \<open>The format \<open>%05d\<close> of a number that is not negative; at the greatest number \<open>++\<close> overflows.\<close>

definition show_pad :: "nat \<Rightarrow> int \<Rightarrow> string" where
  "show_pad w n = (let t = show_int n in replicate (w - length t) CHR ''0'' @ t)"

definition logging_mark :: "int \<Rightarrow> 'a log_files_scheme \<Rightarrow> 'a log_files_scheme outcome" where
  "logging_mark num s =
     (let s = (if num \<ge> 0 then s\<lparr>logging_mark_num := num\<rparr> else s);
          bar = ''===================='' @ [CHR 0x0A]; f = logging_file s; n = logging_mark_num s in
      andThen (fprintf f bar s) (\<lambda>s.
      andThen (fprintf f bar s) (\<lambda>s.
      andThen (if n = 2 ^ 31 - 1 then Inl UndefinedBehaviour else fprintf f (''==== MARK '' @ show_pad 5 n @ '' ===='' @ [CHR 0x0A]) (s\<lparr>logging_mark_num := n + 1\<rparr>)) (\<lambda>s.
      andThen (fprintf f bar s) (fprintf f bar)))))"

section \<open>A line of the log\<close>

abbreviation JH_LOG_OUTPUT_BUF_SIZE :: nat where "JH_LOG_OUTPUT_BUF_SIZE \<equiv> 512"

definition jh_log_level_names :: "string list" where
  "jh_log_level_names =
     (let e = CHR 0x1B in
      [e # ''[31mERROR'' @ e # ''[0m, '', e # ''[31mERROR'' @ e # ''[0m, '', e # ''[35mWARNING'' @ e # ''[0m, '', e # ''[35mWARNING'' @ e # ''[0m, '',
       [], [], []])"

text \<open>The name and the number of the thread, \<open>errno\<close> and its message.\<close>

record log_env =
  le_thread :: string
  le_tid :: int
  le_errno :: int
  le_strerror :: string

text \<open>A call of \<open>snprintf\<close> that continues behind the text written so far, when there is room.\<close>

definition log_piece :: "string \<Rightarrow> charbuf \<times> nat \<Rightarrow> (charbuf \<times> nat) outcome" where
  "log_piece t = (\<lambda>(output_buf, len).
     if len < JH_LOG_OUTPUT_BUF_SIZE
     then andThen (snprintf output_buf len (JH_LOG_OUTPUT_BUF_SIZE - len) t) (\<lambda>(output_buf, n). Inr (output_buf, len + n))
     else Inr (output_buf, len))"

definition log_copy :: "nat option \<Rightarrow> string \<Rightarrow> 'a log_files_scheme \<Rightarrow> 'a log_files_scheme outcome" where
  "log_copy f t s =
     (if f \<noteq> None then andThen (fprintf f t s) (\<lambda>s. Inr (if logging_sync_mode s then flush_if f s else s)) else Inr s)"

definition jh_log_print :: "log_env \<Rightarrow> int \<Rightarrow> string \<Rightarrow> string \<Rightarrow> int \<Rightarrow> string \<Rightarrow> 'a log_files_scheme \<Rightarrow> 'a log_files_scheme outcome" where
  "jh_log_print env level function file line formatted s =
     andThen (function_name_fixup function (replicate JH_LOG_OUTPUT_BUF_SIZE None) (int JH_LOG_OUTPUT_BUF_SIZE)) (\<lambda>(output_fmt, _).
     andThen (c_text output_fmt) (\<lambda>name.
     andThen (if 0 \<le> level \<and> level < int (length jh_log_level_names) then Inr (jh_log_level_names ! nat level) else Inl UndefinedBehaviour) (\<lambda>level_name.
     andThen (snprintf (replicate JH_LOG_OUTPUT_BUF_SIZE None) 0 JH_LOG_OUTPUT_BUF_SIZE
       (''['' @ le_thread env @ '':'' @ show_int (le_tid env) @ '']'' @ name @ '': '' @ level_name)) (\<lambda>st.
     andThen (log_piece formatted st) (\<lambda>st.
     andThen (if le_errno env \<noteq> 0 \<and> (level = 1 \<or> level = 3) then log_piece ('': \"'' @ le_strerror env @ ''\"'') st else Inr st) (\<lambda>st.
     andThen (log_piece ('' '' @ file @ '':'' @ show_int line @ [CHR 0x0A]) st) (\<lambda>(output_buf, len).
     andThen (if len \<ge> JH_LOG_OUTPUT_BUF_SIZE
              then andThen (store_char output_buf (int JH_LOG_OUTPUT_BUF_SIZE - 2) (CHR 0x0A)) (\<lambda>output_buf.
                   store_char output_buf (int JH_LOG_OUTPUT_BUF_SIZE - 1) NUL)
              else Inr output_buf) (\<lambda>output_buf.
     andThen (c_text output_buf) (\<lambda>t.
     andThen (log_copy (logging_copy_file s) t s) (\<lambda>s.
     log_copy (logging_file s) t s))))))))))"

text \<open>The macro \<open>JH_LOG\<close> of the verbose build: the category and the level of the file decide.\<close>

definition jh_log :: "u32 \<Rightarrow> int \<Rightarrow> log_env \<Rightarrow> int \<Rightarrow> u32 \<Rightarrow> string \<Rightarrow> string \<Rightarrow> int \<Rightarrow> string \<Rightarrow> 'a log_files_scheme \<Rightarrow> 'a log_files_scheme outcome" where
  "jh_log file_cat file_level env level cat function file line formatted s =
     (if and cat file_cat \<noteq> 0 \<and> level \<le> file_level then jh_log_print env level function file line formatted s else Inr s)"

text \<open>The whole line, and what the buffer lets of it.\<close>

definition log_text :: "log_env \<Rightarrow> int \<Rightarrow> string \<Rightarrow> string \<Rightarrow> int \<Rightarrow> string \<Rightarrow> string" where
  "log_text env level name file line formatted =
     ''['' @ le_thread env @ '':'' @ show_int (le_tid env) @ '']'' @ name @ '': '' @ jh_log_level_names ! nat level @ formatted @
     (if le_errno env \<noteq> 0 \<and> (level = 1 \<or> level = 3) then '': \"'' @ le_strerror env @ ''\"'' else []) @
     '' '' @ file @ '':'' @ show_int line @ [CHR 0x0A]"

definition log_cut :: "string \<Rightarrow> string" where
  "log_cut t = (if length t < 512 then t else take 510 t @ [CHR 0x0A])"

text \<open>The buffer and the length while the line is built.\<close>

definition building :: "charbuf \<times> nat \<Rightarrow> string \<Rightarrow> bool" where
  "building = (\<lambda>(buf, len) t. length buf = 512 \<and> (len < 512 \<longrightarrow> len = length t) \<and> (len < 512 \<longleftrightarrow> length t < 512) \<and>
     starts buf (take 511 t) \<and> (t \<noteq> [] \<longrightarrow> starts buf (take 511 t @ [NUL])))"

lemma log_piece_building:
  assumes "building st t"
  shows "\<exists>st'. log_piece s st = Inr st' \<and> building st' (t @ s)"
proof -
  obtain buf len where st: "st = (buf, len)" by fastforce
  have b: "length buf = 512" "len < 512 \<Longrightarrow> len = length t" "len < 512 \<longleftrightarrow> length t < 512" "starts buf (take 511 t)"
    "t \<noteq> [] \<Longrightarrow> starts buf (take 511 t @ [NUL])"
    using assms by (auto simp: building_def st)
  show ?thesis
  proof (cases "len < 512")
    case True
    note l = b(2) [OF True]
    have t: "length t \<le> 511" "take 511 t = t" using True l by simp_all
    let ?s = "take (511 - length t) s"
    have "length t + length (?s @ [NUL]) \<le> length buf" using t(1) b(1) by (simp add: min_def) arith
    then obtain buf' where "put buf (length t) (?s @ [NUL]) = Inr buf'" "starts buf' (t @ ?s @ [NUL])" "length buf' = length buf"
      using put_starts [of buf t "?s @ [NUL]"] b(4) t(2) by auto
    moreover have "take 511 (t @ s) = t @ ?s" using t by simp
    moreover have "512 - length t = Suc (511 - length t)" using t(1) by simp
    ultimately show ?thesis
      using True l b(1) starts_append [of buf' "t @ ?s" "[NUL]"] by (simp add: st log_piece_def snprintf_def building_def)
  next
    case False
    then have "512 \<le> length t" using b(3) by simp
    then have "t \<noteq> []" by auto
    then show ?thesis using False b \<open>512 \<le> length t\<close> by (auto simp: st log_piece_def building_def)
  qed
qed

lemma log_piece_if:
  "building st t \<Longrightarrow> \<exists>st'. (if c then log_piece s st else Inr st) = Inr st' \<and> building st' (t @ (if c then s else []))"
  using log_piece_building by (cases c) auto

lemma log_cut_buffer:
  assumes "building (buf, len) t" "NUL \<notin> set t" "t \<noteq> []"
  shows "\<exists>buf'. (if len \<ge> 512 then andThen (store_char buf 510 (CHR 0x0A)) (\<lambda>buf. store_char buf 511 NUL) else Inr buf) = Inr buf' \<and>
    c_text buf' = Inr (log_cut t)"
proof -
  have b: "length buf = 512" "len < 512 \<longleftrightarrow> length t < 512" "starts buf (take 511 t @ [NUL])"
    using assms(1,3) by (auto simp: building_def)
  show ?thesis
  proof (cases "len < 512")
    case True
    then show ?thesis using b c_text_starts [OF _ assms(2)] by (auto simp: log_cut_def)
  next
    case False
    then have l: "512 \<le> length t" using b(2) by simp
    obtain r where "buf = map Some (take 511 t @ [NUL]) @ r" using b(3) by (auto simp: starts_def)
    then have "buf = map Some (take 510 t @ [t ! 510, NUL]) @ r" using l take_Suc_conv_app_nth [of 510 t] by simp
    then have s: "starts buf (take 510 t)" by (auto simp: starts_def)
    have n: "length (take 510 t) = 510" using l by simp
    obtain buf1 where 1: "put buf 510 [CHR 0x0A] = Inr buf1" "starts buf1 (take 510 t @ [CHR 0x0A])" "length buf1 = 512"
      using put_starts [OF s, of "[CHR 0x0A]"] b(1) unfolding n by auto
    obtain buf2 where 2: "put buf1 511 [NUL] = Inr buf2" "starts buf2 ((take 510 t @ [CHR 0x0A]) @ [NUL])"
      using put_starts [OF 1(2), of "[NUL]"] 1(3) n by auto
    have "NUL \<notin> set (take 510 t @ [CHR 0x0A])" using assms(2) by (auto dest: in_set_takeD)
    then show ?thesis using 1 2 c_text_starts [OF 2(2)] False l by (auto simp: store_char_def log_cut_def)
  qed
qed

lemma show_int_no_NUL [simp]: "NUL \<notin> set (show_int n)"
proof -
  have "NUL \<notin> (\<lambda>d. ''0123456789abcdef'' ! d) ` {..<10}" by (simp add: lessThan_nat_numeral lessThan_Suc)
  then have "NUL \<notin> set (show_digits 10 20 k [])" for k
    using show_digits_set [of 10 20 k "[]"] by auto
  then show ?thesis by (auto simp: show_int_def)
qed

lemma level_names: "length jh_log_level_names = 7" "NUL \<notin> set (jh_log_level_names ! nat level)" if "0 \<le> level" "level < 7"
proof -
  show "length jh_log_level_names = 7" by (simp add: jh_log_level_names_def Let_def)
  have "nat level \<in> {0, 1, 2, 3, 4, 5, 6}" using that by auto
  then show "NUL \<notin> set (jh_log_level_names ! nat level)" by (auto simp: jh_log_level_names_def Let_def)
qed

text \<open>What a file has after a line was written to it.\<close>

definition logged :: "nat option \<Rightarrow> string \<Rightarrow> 'a log_files_scheme \<Rightarrow> 'a log_files_scheme" where
  "logged f t s =
     (case f of None \<Rightarrow> s
      | Some f \<Rightarrow> s\<lparr>lf_out := (lf_out s)(f :=
          \<lparr>of_text = of_text (lf_out s f) @ t,
           of_flushed = (if logging_sync_mode s then length (of_text (lf_out s f) @ t) else of_flushed (lf_out s f))\<rparr>)\<rparr>)"

lemma log_copy_logged: "log_copy f t s = Inr (logged f t s)"
  by (cases f; cases "lf_out s (the f)") (auto simp: log_copy_def fprintf_def logged_def flush_if_def fflush_def)

text \<open>
  C27: A log message reaches the copy and the log, each in full when its line has less than 512 characters and
  otherwise cut to 510 with a newline at the end, and in the mode that flushes each line all of it is flushed. No access leaves the buffers.
\<close>

theorem log_line:
  assumes "0 \<le> level" "level < 7" "NUL \<notin> set function"
    and "NUL \<notin> set (le_thread env @ formatted @ le_strerror env @ file)"
  shows "\<exists>name. NUL \<notin> set name \<and> length name < 512 \<and>
    (\<exists>buf n. function_name_fixup function (replicate 512 None) 512 = Inr (buf, n) \<and> c_text buf = Inr name) \<and>
    jh_log_print env level function file line formatted s =
      Inr (let t = log_cut (log_text env level name file line formatted) in logged (logging_file s) t (logged (logging_copy_file s) t s))"
proof -
  obtain buf name where f: "function_name_fixup function (replicate 512 None) 512 = Inr (buf, length name)" "c_text buf = Inr name"
    "length name < 512"
    using fixup_safe [OF assms(3), of 512 "replicate 512 None"] by auto
  have "NUL \<notin> set t" if "c_text b = Inr t" for b t
    using that by (induction b arbitrary: t rule: c_text.induct) (auto simp: andThen_Inr_iff split: if_splits)
  note n = this [OF f(2)]
  note l = level_names [OF assms(1,2)]
  let ?t1 = "''['' @ le_thread env @ '':'' @ show_int (le_tid env) @ '']'' @ name @ '': '' @ jh_log_level_names ! nat level"
  let ?e = "if le_errno env \<noteq> 0 \<and> (level = 1 \<or> level = 3) then '': \"'' @ le_strerror env @ ''\"'' else []"
  let ?tail = "'' '' @ file @ '':'' @ show_int line @ [CHR 0x0A]"
  have "building (replicate 512 None, 0) []" by (simp add: building_def)
  from log_piece_building [OF this, of ?t1]
  obtain st1 where 1: "snprintf (replicate 512 None) 0 512 ?t1 = Inr st1" "building st1 ?t1"
    by (auto simp: log_piece_def andThen_Inr_iff)
  obtain st2 where 2: "log_piece formatted st1 = Inr st2" "building st2 (?t1 @ formatted)"
    using log_piece_building [OF 1(2)] by blast
  obtain st3 where 3: "(if le_errno env \<noteq> 0 \<and> (level = 1 \<or> level = 3) then log_piece ('': \"'' @ le_strerror env @ ''\"'') st2 else Inr st2) = Inr st3"
    "building st3 ((?t1 @ formatted) @ ?e)"
    using log_piece_if [OF 2(2)] by blast
  obtain b4 n4 where 4: "log_piece ?tail st3 = Inr (b4, n4)" "building (b4, n4) (((?t1 @ formatted) @ ?e) @ ?tail)"
    using log_piece_building [OF 3(2)] by fastforce
  have whole: "((?t1 @ formatted) @ ?e) @ ?tail = log_text env level name file line formatted" by (simp add: log_text_def)
  have "NUL \<notin> set (log_text env level name file line formatted)" "log_text env level name file line formatted \<noteq> []"
    using assms(4) n l(2) by (simp_all add: log_text_def)
  from log_cut_buffer [OF 4(2) [unfolded whole] this]
  obtain b5 where 5: "(if n4 \<ge> 512 then andThen (store_char b4 510 (CHR 0x0A)) (\<lambda>buf. store_char buf 511 NUL) else Inr b4) = Inr b5"
    "c_text b5 = Inr (log_cut (log_text env level name file line formatted))" by blast
  have file_kept: "logging_file (logged g t s) = logging_file s" for g t by (simp add: logged_def split: option.split)
  have ints: "int 512 = 512" "(512::int) - 2 = 510" "(512::int) - 1 = 511" by simp_all
  have in_range: "(0 \<le> level \<and> level < int (length jh_log_level_names)) = True" using assms(1,2) l(1) by simp
  have "jh_log_print env level function file line formatted s =
      Inr (let t = log_cut (log_text env level name file line formatted) in logged (logging_file s) t (logged (logging_copy_file s) t s))"
    by (simp only: jh_log_print_def ints in_range f(1,2) 1(1) 2(1) 3(1) 4(1) 5 andThen_simps prod.case log_copy_logged file_kept Let_def if_True)
  then show ?thesis using f n by blast
qed

theorem log_line_witness:
  "\<exists>name. NUL \<notin> set name \<and> length name < 512 \<and>
    (\<exists>buf n. function_name_fixup ''void f(int)'' (replicate 512 None) 512 = Inr (buf, n) \<and> c_text buf = Inr name) \<and>
    jh_log_print \<lparr>le_thread = ''main'', le_tid = 7, le_errno = 0, le_strerror = ''x''\<rparr> 2 ''void f(int)'' ''a.cpp'' 3 ''hello''
      \<lparr>logging_file = Some 1, logging_copy_file = None, logging_sync_mode = True, logging_mark_num = 0, lf_out = (\<lambda>_. \<lparr>of_text = [], of_flushed = 0\<rparr>)\<rparr> =
      Inr (let t = log_cut (log_text \<lparr>le_thread = ''main'', le_tid = 7, le_errno = 0, le_strerror = ''x''\<rparr> 2 name ''a.cpp'' 3 ''hello'') in
        \<lparr>logging_file = Some 1, logging_copy_file = None, logging_sync_mode = True, logging_mark_num = 0,
         lf_out = (\<lambda>_. \<lparr>of_text = [], of_flushed = 0\<rparr>)(1 := \<lparr>of_text = t, of_flushed = length t\<rparr>)\<rparr>)"
  using log_line [of 2 "''void f(int)''" "\<lparr>le_thread = ''main'', le_tid = 7, le_errno = 0, le_strerror = ''x''\<rparr>" "''hello''" "''a.cpp''" 3
    "\<lparr>logging_file = Some 1, logging_copy_file = None, logging_sync_mode = True, logging_mark_num = 0, lf_out = (\<lambda>_. \<lparr>of_text = [], of_flushed = 0\<rparr>)\<rparr>"]
  by (simp add: logged_def Let_def)

section \<open>Dumps of memory\<close>

definition hex2 :: "byte \<Rightarrow> string" where
  "hex2 b = [''0123456789ABCDEF'' ! (unat b div 16), ''0123456789ABCDEF'' ! (unat b mod 16)]"

definition byte_of :: "byte list \<Rightarrow> nat \<Rightarrow> byte outcome" where
  "byte_of data i = (if i < length data then Inr (data ! i) else Inl UndefinedBehaviour)"

definition generic_print :: "string \<Rightarrow> 'a log_files_scheme \<Rightarrow> 'a log_files_scheme outcome" where
  "generic_print t s = (if logging_file s \<noteq> None then fprintf (logging_file s) t s else Inr s)"

definition dump_end :: "'a log_files_scheme \<Rightarrow> 'a log_files_scheme" where
  "dump_end s = (if logging_file s \<noteq> None \<and> logging_sync_mode s then flush_if (logging_file s) s else s)"

function print_loop :: "string \<Rightarrow> byte list \<Rightarrow> nat \<Rightarrow> int \<Rightarrow> 'a log_files_scheme \<Rightarrow> 'a log_files_scheme outcome" where
  "print_loop str data buffer_i len s =
     (if len > 0
      then let cnt = (if len > 8 then 8 else len) in
           andThen (generic_print (str @ '': '') s) (\<lambda>s.
           andThen (fold_outcome (\<lambda>(buffer_i, s) i.
             andThen (byte_of data buffer_i) (\<lambda>b.
             andThen (generic_print (''0x'' @ hex2 b @ '' '') s) (\<lambda>s. Inr (buffer_i + 1, s)))) (buffer_i, s) [0..<nat cnt]) (\<lambda>(buffer_i, s).
           andThen (generic_print [CHR 0x0A] s) (\<lambda>s.
           print_loop str data buffer_i (len - cnt) s)))
      else Inr s)"
  by auto
termination by (relation "measure (\<lambda>(str, data, buffer_i, len, s). nat len)") auto

definition print_buffer :: "string \<Rightarrow> byte list \<Rightarrow> int \<Rightarrow> 'a log_files_scheme \<Rightarrow> 'a log_files_scheme outcome" where
  "print_buffer str data len s = andThen (print_loop str data 0 len s) (\<lambda>s. Inr (dump_end s))"

text \<open>\<open>print_buffer2\<close> builds each line in an array of 100 characters.\<close>

definition hex_step :: "byte list \<Rightarrow> nat \<Rightarrow> charbuf \<times> nat \<times> nat \<Rightarrow> nat \<Rightarrow> (charbuf \<times> nat \<times> nat) outcome" where
  "hex_step data cnt = (\<lambda>(line, line_offset, buffer_i) i.
     andThen (if i = 8 then sprintf line line_offset '' '' else Inr (line, line_offset)) (\<lambda>(line, line_offset).
     if i < cnt
     then andThen (byte_of data buffer_i) (\<lambda>b.
          andThen (sprintf line line_offset (hex2 b @ '' '')) (\<lambda>(line, line_offset). Inr (line, line_offset, buffer_i + 1)))
     else andThen (sprintf line line_offset ''   '') (\<lambda>(line, line_offset). Inr (line, line_offset, buffer_i))))"

definition char_step :: "byte list \<Rightarrow> charbuf \<times> nat \<times> nat \<Rightarrow> nat \<Rightarrow> (charbuf \<times> nat \<times> nat) outcome" where
  "char_step data = (\<lambda>(line, line_offset, buffer_i) i.
     andThen (if i = 8 then sprintf line line_offset '' '' else Inr (line, line_offset)) (\<lambda>(line, line_offset).
     andThen (byte_of data buffer_i) (\<lambda>b.
     andThen (if 32 \<le> unat b \<and> unat b < 127
              then andThen (sprintf line line_offset [char_of (unat b)]) (\<lambda>(line, line_offset).
                   if unat b = 37 then sprintf line line_offset [char_of (unat b)] else Inr (line, line_offset))
              else sprintf line line_offset ''.'') (\<lambda>(line, line_offset).
     Inr (line, line_offset, buffer_i + 1)))))"

function dump_loop :: "byte list \<Rightarrow> nat \<Rightarrow> charbuf \<Rightarrow> nat \<Rightarrow> nat \<Rightarrow> int \<Rightarrow> 'a log_files_scheme \<Rightarrow> 'a log_files_scheme outcome" where
  "dump_loop data reset_offset line line_offset buffer_i len s =
     (if len > 0
      then let cnt = (if len > 16 then 16 else len) in
           andThen (fold_outcome (hex_step data (nat cnt)) (line, line_offset, buffer_i) [0..<16]) (\<lambda>(line, line_offset, buffer_i).
           andThen (sprintf line line_offset '': '') (\<lambda>(line, line_offset).
           andThen (fold_outcome (char_step data) (line, line_offset, buffer_i - nat cnt) [0..<nat cnt]) (\<lambda>(line, line_offset, buffer_i).
           andThen (sprintf line line_offset [CHR 0x0A]) (\<lambda>(line, line_offset).
           andThen (c_text line) (\<lambda>t.
           andThen (generic_print t s) (\<lambda>s.
           dump_loop data reset_offset line reset_offset buffer_i (len - cnt) s))))))
      else Inr s)"
  by auto
termination by (relation "measure (\<lambda>(data, reset_offset, line, line_offset, buffer_i, len, s). nat len)") auto

declare print_loop.simps [simp del] dump_loop.simps [simp del]

definition print_buffer2 :: "string \<Rightarrow> byte list \<Rightarrow> int \<Rightarrow> 'a log_files_scheme \<Rightarrow> 'a log_files_scheme outcome" where
  "print_buffer2 str data len s =
     (let line_offset = length str; line_offset = (if line_offset > 9 then 9 else line_offset) in
      andThen (put (replicate 100 None) 0 (take line_offset str)) (\<lambda>line.
      andThen (sprintf line line_offset '': '') (\<lambda>(line, line_offset).
      andThen (dump_loop data line_offset line line_offset 0 len s) (\<lambda>s. Inr (dump_end s)))))"

text \<open>The text that a dump prints, line by line.\<close>

definition hex_piece :: "nat \<Rightarrow> byte list \<Rightarrow> nat \<Rightarrow> string" where
  "hex_piece cnt xs i = (if i = 8 then '' '' else []) @ (if i < cnt then hex2 (xs ! i) @ '' '' else ''   '')"

definition char_piece :: "byte list \<Rightarrow> nat \<Rightarrow> string" where
  "char_piece xs i =
     (let n = unat (xs ! i); c = char_of n in
      (if i = 8 then '' '' else []) @ (if 32 \<le> n \<and> n < 127 then if n = 37 then [c, c] else [c] else ''.''))"

definition dump_line :: "string \<Rightarrow> byte list \<Rightarrow> string" where
  "dump_line before xs =
     before @ concat (map (hex_piece (length xs) xs) [0..<16]) @ '': '' @ concat (map (char_piece xs) [0..<length xs]) @ [CHR 0x0A]"

function dump_text :: "string \<Rightarrow> byte list \<Rightarrow> string" where
  "dump_text before xs = (if xs = [] then [] else dump_line before (take 16 xs) @ dump_text before (drop 16 xs))"
  by auto
termination by (relation "measure (\<lambda>(before, xs). length xs)") auto

declare dump_text.simps [simp del]

definition printed :: "string \<Rightarrow> 'a log_files_scheme \<Rightarrow> 'a log_files_scheme" where
  "printed t s =
     (case logging_file s of None \<Rightarrow> s
      | Some f \<Rightarrow> s\<lparr>lf_out := (lf_out s)(f := (lf_out s f)\<lparr>of_text := of_text (lf_out s f) @ t\<rparr>)\<rparr>)"

lemma generic_print_printed: "generic_print t s = Inr (printed t s)"
  by (auto simp: generic_print_def fprintf_def printed_def)

lemma printed_append: "printed u (printed t s) = printed (t @ u) s"
  by (auto simp: printed_def split: option.splits)

lemma printed_nil: "printed [] s = s"
  by (auto simp: printed_def split: option.splits)

lemma dump_end_printed: "dump_end (printed t s) = logged (logging_file s) t s"
  by (cases "logging_file s"; cases "lf_out s (the (logging_file s))") (auto simp: dump_end_def printed_def logged_def flush_if_def fflush_def)

text \<open>One more piece in the line.\<close>

lemma sprintf_line:
  assumes "starts line t" "length line = 100" "length t + length p < 100"
  shows "\<exists>line'. sprintf line (length t) p = Inr (line', length (t @ p)) \<and> starts line' (t @ p) \<and> length line' = 100"
  using sprintf_starts [OF assms(1), of p] starts_append [of _ "t @ p" "[NUL]"] assms(2,3) by fastforce

lemma hex2_length: "length (hex2 b) = 2"
  by (simp add: hex2_def)

lemma step_line:
  assumes "starts line t" "length line = 100" "length t + 1 < 100"
  shows "\<exists>line'. (if i = (8::nat) then sprintf line (length t) '' '' else Inr (line, length t)) =
      Inr (line', length (t @ (if i = 8 then '' '' else []))) \<and> starts line' (t @ (if i = 8 then '' '' else [])) \<and> length line' = 100"
  using sprintf_line [OF assms(1,2), of "'' ''"] assms by auto

lemma hex_step_line:
  assumes "starts line t" "length line = 100" "length t + 4 < 100" "i < cnt \<longrightarrow> b + i < length data"
  shows "\<exists>line'. hex_step data cnt (line, length t, b + min i cnt) i =
      Inr (line', length (t @ hex_piece cnt (drop b data) i), b + min (Suc i) cnt) \<and>
    starts line' (t @ hex_piece cnt (drop b data) i) \<and> length line' = 100"
proof -
  let ?u = "t @ (if i = 8 then '' '' else [])"
  obtain line1 where 1: "(if i = 8 then sprintf line (length t) '' '' else Inr (line, length t)) = Inr (line1, length ?u)"
    "starts line1 ?u" "length line1 = 100"
    using step_line [OF assms(1,2), of i] assms(3) by auto
  let ?p = "if i < cnt then hex2 (data ! (b + i)) @ '' '' else ''   ''"
  have "length ?u + length ?p < 100" using assms(3) by (simp add: hex2_length)
  then obtain line2 where 2: "sprintf line1 (length ?u) ?p = Inr (line2, length (?u @ ?p))" "starts line2 (?u @ ?p)" "length line2 = 100"
    using sprintf_line [OF 1(2,3), of ?p] by blast
  have p: "t @ hex_piece cnt (drop b data) i = ?u @ ?p" using assms(4) by (auto simp: hex_piece_def)
  show ?thesis
  proof (cases "i < cnt")
    case True
    then show ?thesis using 2 assms(4) unfolding p by (simp add: hex_step_def 1(1) byte_of_def min_def del: if_split_asm)
  next
    case False
    then show ?thesis using 2 unfolding p by (simp add: hex_step_def 1(1) min_def)
  qed
qed

lemma char_step_line:
  assumes "starts line t" "length line = 100" "length t + 3 < 100" "b + i < length data"
  shows "\<exists>line'. char_step data (line, length t, b + i) i =
      Inr (line', length (t @ char_piece (drop b data) i), b + Suc i) \<and>
    starts line' (t @ char_piece (drop b data) i) \<and> length line' = 100"
proof -
  let ?u = "t @ (if i = 8 then '' '' else [])" and ?n = "unat (data ! (b + i))"
  let ?c = "char_of ?n :: char"
  obtain line1 where 1: "(if i = 8 then sprintf line (length t) '' '' else Inr (line, length t)) = Inr (line1, length ?u)"
    "starts line1 ?u" "length line1 = 100"
    using step_line [OF assms(1,2), of i] assms(3) by auto
  have u: "length ?u + 2 < 100" using assms(3) by simp
  note def = char_step_def 1(1) byte_of_def char_piece_def Let_def
  show ?thesis
  proof (cases "32 \<le> ?n \<and> ?n < 127")
    case True
    obtain line2 where 2: "sprintf line1 (length ?u) [?c] = Inr (line2, length (?u @ [?c]))" "starts line2 (?u @ [?c])" "length line2 = 100"
      using sprintf_line [OF 1(2,3), of "[?c]"] u by auto
    obtain line3 where "sprintf line2 (length (?u @ [?c])) [?c] = Inr (line3, length ((?u @ [?c]) @ [?c]))" "starts line3 ((?u @ [?c]) @ [?c])"
      "length line3 = 100"
      using sprintf_line [OF 2(2,3), of "[?c]"] u by auto
    then show ?thesis using 2 True assms(4) by (cases "?n = 37") (auto simp: def)
  next
    case False
    obtain line2 where "sprintf line1 (length ?u) ''.'' = Inr (line2, length (?u @ ''.''))" "starts line2 (?u @ ''.'')" "length line2 = 100"
      using sprintf_line [OF 1(2,3), of "''.''"] u by auto
    then show ?thesis using False assms(4) by (auto simp: def)
  qed
qed

lemma hex_pieces_length: "length (concat (map (hex_piece cnt xs) [0..<m])) = 3 * m + (if 8 < m then 1 else 0)"
  by (induction m) (auto simp: hex_piece_def hex2_length)

lemma char_pieces_length: "length (concat (map (char_piece xs) [0..<m])) \<le> 2 * m + (if 8 < m then 1 else 0)"
  by (induction m) (auto simp: char_piece_def Let_def)

lemma hex_loop_line:
  assumes "starts line t" "length line = 100" "length t \<le> 11" "b + cnt \<le> length data"
  shows "n \<le> 16 \<Longrightarrow> \<exists>line'. fold_outcome (hex_step data cnt) (line, length t, b) [0..<n] =
      Inr (line', length (t @ concat (map (hex_piece cnt (drop b data)) [0..<n])), b + min n cnt) \<and>
    starts line' (t @ concat (map (hex_piece cnt (drop b data)) [0..<n])) \<and> length line' = 100"
proof (induction n)
  case 0
  then show ?case using assms(1,2) by simp
next
  case (Suc n)
  let ?t = "t @ concat (map (hex_piece cnt (drop b data)) [0..<n])"
  obtain line1 where 1: "fold_outcome (hex_step data cnt) (line, length t, b) [0..<n] = Inr (line1, length ?t, b + min n cnt)"
    "starts line1 ?t" "length line1 = 100"
    using Suc by auto
  have r: "length ?t + 4 < 100" "n < cnt \<longrightarrow> b + n < length data"
    using hex_pieces_length [of cnt "drop b data" n] Suc.prems assms(3,4) by auto
  obtain line2 where "hex_step data cnt (line1, length ?t, b + min n cnt) n =
      Inr (line2, length (?t @ hex_piece cnt (drop b data) n), b + min (Suc n) cnt)"
    "starts line2 (?t @ hex_piece cnt (drop b data) n)" "length line2 = 100"
    using hex_step_line [OF 1(2,3) r] by blast
  then show ?case using 1(1) by (simp add: fold_outcome_append)
qed

lemma char_loop_line:
  assumes "starts line t" "length line = 100" "length t \<le> 62" "b + cnt \<le> length data" "cnt \<le> 16"
  shows "n \<le> cnt \<Longrightarrow> \<exists>line'. fold_outcome (char_step data) (line, length t, b) [0..<n] =
      Inr (line', length (t @ concat (map (char_piece (drop b data)) [0..<n])), b + n) \<and>
    starts line' (t @ concat (map (char_piece (drop b data)) [0..<n])) \<and> length line' = 100"
proof (induction n)
  case 0
  then show ?case using assms(1,2) by simp
next
  case (Suc n)
  let ?t = "t @ concat (map (char_piece (drop b data)) [0..<n])"
  obtain line1 where 1: "fold_outcome (char_step data) (line, length t, b) [0..<n] = Inr (line1, length ?t, b + n)"
    "starts line1 ?t" "length line1 = 100"
    using Suc by auto
  have r: "length ?t + 3 < 100" "b + n < length data"
    using char_pieces_length [of "drop b data" n] Suc.prems assms(3-5) by (auto split: if_splits)
  obtain line2 where "char_step data (line1, length ?t, b + n) n = Inr (line2, length (?t @ char_piece (drop b data) n), b + Suc n)"
    "starts line2 (?t @ char_piece (drop b data) n)" "length line2 = 100"
    using char_step_line [OF 1(2,3) r] by blast
  then show ?case using 1(1) by (simp add: fold_outcome_append)
qed

lemma piece_chars: "NUL \<notin> set (hex_piece cnt xs i)" "NUL \<notin> set (char_piece xs i)"
proof -
  have "''0123456789ABCDEF'' ! k \<in> set ''0123456789ABCDEF''" if "k < 16" for k by (rule nth_mem) (use that in \<open>simp add: eval_nat_numeral\<close>)
  then have k: "NUL \<noteq> ''0123456789ABCDEF'' ! k" if "k < 16" for k using that by fastforce
  have "unat b < 256" for b :: byte by (rule order_less_le_trans [OF unsigned_less]) simp
  then have "unat b div 16 < 16" "unat b mod 16 < 16" for b :: byte by (simp_all add: less_mult_imp_div_less)
  then have "NUL \<noteq> ''0123456789ABCDEF'' ! (unat b div 16)" "NUL \<noteq> ''0123456789ABCDEF'' ! (unat b mod 16)" for b :: byte
    using k by blast+
  then show "NUL \<notin> set (hex_piece cnt xs i)" by (auto simp: hex_piece_def hex2_def)
  have "NUL \<noteq> char_of n" if "32 \<le> n" "n < 127" for n :: nat
  proof
    assume "NUL = char_of n"
    then have "char_of n = NUL" ..
    then have "of_char (char_of n :: char) = (0 :: nat)" by simp
    then show False using that by (simp add: of_char_of)
  qed
  then show "NUL \<notin> set (char_piece xs i)" by (auto simp: char_piece_def Let_def)
qed

lemma dump_loop_text:
  assumes "length before \<le> 11" "NUL \<notin> set before"
  shows "starts line before \<Longrightarrow> length line = 100 \<Longrightarrow> int b + len \<le> int (length data) \<Longrightarrow>
    dump_loop data (length before) line (length before) b len s = Inr (printed (dump_text before (take (nat len) (drop b data))) s)"
proof (induction "nat len" arbitrary: len line b s rule: less_induct)
  case less
  show ?case
  proof (cases "len > 0")
    case False
    then show ?thesis by (simp add: dump_loop.simps dump_text.simps printed_nil)
  next
    case True
    define cnt where "cnt = nat (if len > 16 then 16 else len)"
    have cnt: "0 < cnt" "cnt \<le> 16" "int cnt \<le> len" "nat (len - int cnt) < nat len" "b + cnt \<le> length data"
      using True less.prems(3) by (auto simp: cnt_def)
    have c: "(if len > 16 then 16 else len) = int cnt" using True by (simp add: cnt_def)
    let ?xs = "drop b data"
    let ?h = "before @ concat (map (hex_piece cnt ?xs) [0..<16])"
    obtain line1 where 1: "fold_outcome (hex_step data cnt) (line, length before, b) [0..<16] = Inr (line1, length ?h, b + cnt)"
      "starts line1 ?h" "length line1 = 100"
      using hex_loop_line [OF less.prems(1,2) assms(1) cnt(5), of 16] cnt(2) by (auto simp: min_def)
    have h: "length ?h \<le> 60" using hex_pieces_length [of cnt ?xs 16] assms(1) by simp
    obtain line2 where 2: "sprintf line1 (length ?h) '': '' = Inr (line2, length (?h @ '': ''))" "starts line2 (?h @ '': '')" "length line2 = 100"
      using sprintf_line [OF 1(2,3), of "'': ''"] h by auto
    let ?c = "(?h @ '': '') @ concat (map (char_piece ?xs) [0..<cnt])"
    obtain line3 where 3: "fold_outcome (char_step data) (line2, length (?h @ '': ''), b) [0..<cnt] = Inr (line3, length ?c, b + cnt)"
      "starts line3 ?c" "length line3 = 100"
      using char_loop_line [OF 2(2,3) _ cnt(5,2), of cnt] h by auto
    have l: "length ?c + 1 < 100" using char_pieces_length [of ?xs cnt] h cnt(2) by (auto split: if_splits)
    obtain line4 where 4: "sprintf line3 (length ?c) [CHR 0x0A] = Inr (line4, length (?c @ [CHR 0x0A]))"
      "starts line4 ((?c @ [CHR 0x0A]) @ [NUL])" "length line4 = 100"
      using sprintf_starts [OF 3(2), of "[CHR 0x0A]"] 3(3) l by auto
    have line: "?c @ [CHR 0x0A] = dump_line before (take cnt ?xs)"
    proof -
      have L: "length (take cnt ?xs) = cnt" using cnt(5) by simp
      have H: "hex_piece cnt (take cnt ?xs) = hex_piece cnt ?xs" by (auto simp: hex_piece_def)
      have M: "map (char_piece (take cnt ?xs)) [0..<cnt] = map (char_piece ?xs) [0..<cnt]" by (simp add: char_piece_def)
      show ?thesis by (simp only: dump_line_def L H M append_assoc)
    qed
    have "NUL \<notin> set (?c @ [CHR 0x0A])" using assms(2) piece_chars by auto
    from c_text_starts [OF 4(2) this] have t: "c_text line4 = Inr (dump_line before (take cnt ?xs))" by (simp only: line)
    have again: "starts line4 before" using 4(2) starts_append [of line4 before] by simp
    have rest: "dump_loop data (length before) line4 (length before) (b + cnt) (len - int cnt) s' =
        Inr (printed (dump_text before (take (nat (len - int cnt)) (drop (b + cnt) data))) s')" for s' :: "'a log_files_scheme"
      using less.hyps [OF cnt(4) again 4(3), of "b + cnt" s'] less.prems(3) by simp
    have "take (nat len) ?xs \<noteq> []" using True less.prems(3) by auto
    moreover have "take 16 (take (nat len) ?xs) = take cnt ?xs"
      by (cases "len = 16") (auto simp: cnt_def min_def le_nat_iff)
    moreover have "drop 16 (take (nat len) ?xs) = take (nat (len - int cnt)) (drop (b + cnt) data)"
    proof (cases "len > 16")
      case True
      then show ?thesis by (simp add: cnt_def drop_take nat_diff_distrib add.commute)
    next
      case False
      then show ?thesis using cnt(3) \<open>len > 0\<close> by (simp add: cnt_def drop_take)
    qed
    ultimately have "dump_text before (take (nat len) ?xs) =
        dump_line before (take cnt ?xs) @ dump_text before (take (nat (len - int cnt)) (drop (b + cnt) data))"
      using dump_text.simps [of before "take (nat len) ?xs"] by simp
    then show ?thesis
      unfolding dump_loop.simps [of data "length before" line "length before" b len s]
      by (simp only: True if_True c Let_def nat_int 1(1) andThen_simps prod.case 2(1) add_diff_cancel_right' 3(1) 4(1) t generic_print_printed rest printed_append)
  qed
qed

text \<open>
  A dump writes lines of 16 bytes, each with at most nine characters of the name, the bytes in hexadecimal and as characters,
  and never leaves its array of 100 characters.
\<close>

theorem print_buffer2_text:
  assumes "len \<le> int (length data)" "NUL \<notin> set str"
  shows "print_buffer2 str data len s = Inr (logged (logging_file s) (dump_text (take 9 str @ '': '') (take (nat len) data)) s)"
proof -
  define k where "k = (if length str > 9 then 9 else length str)"
  let ?p = "take 9 str"
  have k: "take k str = ?p" "k = length ?p" by (auto simp: k_def)
  obtain line where 1: "put (replicate 100 None) 0 ?p = Inr line" "starts line ?p" "length line = 100"
    using put_starts [of "replicate 100 None" "[]" ?p] by (auto simp: min_le_iff_disj)
  obtain line2 where 2: "sprintf line (length ?p) '': '' = Inr (line2, length (?p @ '': ''))" "starts line2 (?p @ '': '')" "length line2 = 100"
    using sprintf_line [OF 1(2,3), of "'': ''"] by (auto simp: min_less_iff_disj)
  have "NUL \<notin> set (?p @ '': '')" using assms(2) by (auto dest: in_set_takeD)
  from dump_loop_text [OF _ this 2(2,3), of 0 len data s] assms(1)
  have "dump_loop data (length (?p @ '': '')) line2 (length (?p @ '': '')) 0 len s =
      Inr (printed (dump_text (?p @ '': '') (take (nat len) data)) s)" by simp
  then show ?thesis
    unfolding print_buffer2_def Let_def k_def [symmetric] k(1)
    by (simp only: k(2) [symmetric] 1(1)) (simp only: k(2) 1(1) 2(1) andThen_simps prod.case dump_end_printed)
qed

theorem print_buffer2_text_witness:
  "print_buffer2 ''key'' [0x25, 0x41] 2 \<lparr>logging_file = Some 1, logging_copy_file = None, logging_sync_mode = False, logging_mark_num = 0,
     lf_out = (\<lambda>_. \<lparr>of_text = [], of_flushed = 0\<rparr>)\<rparr> =
   Inr (logged (Some 1) (''key: 25 41 '' @ replicate 43 CHR '' '' @ '': %%A'' @ [CHR 0x0A])
     \<lparr>logging_file = Some 1, logging_copy_file = None, logging_sync_mode = False, logging_mark_num = 0, lf_out = (\<lambda>_. \<lparr>of_text = [], of_flushed = 0\<rparr>)\<rparr>)"
proof -
  have "dump_text ''key: '' [0x25, 0x41] = ''key: 25 41 '' @ replicate 43 CHR '' '' @ '': %%A'' @ [CHR 0x0A]"
    by code_simp
  then show ?thesis
    using print_buffer2_text [of 2 "[0x25, 0x41]" "''key''" "\<lparr>logging_file = Some 1, logging_copy_file = None, logging_sync_mode = False,
      logging_mark_num = 0, lf_out = (\<lambda>_. \<lparr>of_text = [], of_flushed = 0\<rparr>)\<rparr>"] by simp
qed

text \<open>The simple dump prints piece by piece, lines of eight bytes.\<close>

function plain_dump :: "string \<Rightarrow> byte list \<Rightarrow> string" where
  "plain_dump str xs =
     (if xs = [] then []
      else str @ '': '' @ concat (map (\<lambda>b. ''0x'' @ hex2 b @ '' '') (take 8 xs)) @ [CHR 0x0A] @ plain_dump str (drop 8 xs))"
  by auto
termination by (relation "measure (\<lambda>(str, xs). length xs)") auto

declare plain_dump.simps [simp del]

lemma print_bytes:
  "b + n \<le> length data \<Longrightarrow> fold_outcome (\<lambda>(buffer_i, s) i.
     andThen (byte_of data buffer_i) (\<lambda>b. Inr (buffer_i + 1, printed (''0x'' @ hex2 b @ '' '') s))) (b, s) [0..<n] =
   Inr (b + n, printed (concat (map (\<lambda>b. ''0x'' @ hex2 b @ '' '') (take n (drop b data)))) s)"
proof (induction n)
  case (Suc n)
  have "take (Suc n) (drop b data) = take n (drop b data) @ [data ! (b + n)]"
    using Suc.prems by (simp add: take_Suc_conv_app_nth)
  then show ?case using Suc by (simp add: fold_outcome_append byte_of_def generic_print_printed printed_append)
qed (simp add: printed_nil)

lemma print_loop_text:
  "int b + len \<le> int (length data) \<Longrightarrow>
   print_loop str data b len s = Inr (printed (plain_dump str (take (nat len) (drop b data))) s)"
proof (induction "nat len" arbitrary: len b s rule: less_induct)
  case less
  show ?case
  proof (cases "len > 0")
    case False
    then show ?thesis by (simp add: print_loop.simps plain_dump.simps printed_nil)
  next
    case True
    define cnt where "cnt = nat (if len > 8 then 8 else len)"
    have cnt: "0 < cnt" "cnt \<le> 8" "int cnt \<le> len" "nat (len - int cnt) < nat len" "b + cnt \<le> length data"
      using True less.prems by (auto simp: cnt_def)
    have c: "(if len > 8 then 8 else len) = int cnt" using True by (simp add: cnt_def)
    have rest: "print_loop str data (b + cnt) (len - int cnt) s' =
        Inr (printed (plain_dump str (take (nat (len - int cnt)) (drop (b + cnt) data))) s')" for s' :: "'a log_files_scheme"
      using less.hyps [OF cnt(4), of "b + cnt" s'] less.prems by simp
    have "take (nat len) (drop b data) \<noteq> []" using True less.prems by auto
    moreover have "take 8 (take (nat len) (drop b data)) = take cnt (drop b data)"
      by (cases "len = 8") (auto simp: cnt_def min_def le_nat_iff)
    moreover have "drop 8 (take (nat len) (drop b data)) = take (nat (len - int cnt)) (drop (b + cnt) data)"
      using \<open>len > 0\<close> by (cases "len > 8") (simp_all add: cnt_def drop_take nat_diff_distrib add.commute)
    ultimately have "plain_dump str (take (nat len) (drop b data)) = str @ '': '' @ concat (map (\<lambda>b. ''0x'' @ hex2 b @ '' '') (take cnt (drop b data))) @
        [CHR 0x0A] @ plain_dump str (take (nat (len - int cnt)) (drop (b + cnt) data))"
      using plain_dump.simps [of str "take (nat len) (drop b data)"] by simp
    then show ?thesis
      unfolding print_loop.simps [of str data b len s]
      by (simp only: True if_True c Let_def nat_int andThen_simps prod.case generic_print_printed print_bytes [OF cnt(5)] rest printed_append append_assoc)
  qed
qed

lemma print_buffer_text:
  "len \<le> int (length data) \<Longrightarrow>
   print_buffer str data len s = Inr (logged (logging_file s) (plain_dump str (take (nat len) data)) s)"
  by (simp add: print_buffer_def print_loop_text dump_end_printed)

end
