(* ===== verification/LogRegistry.thy ===== *)
theory LogRegistry
  imports LogPrint ListenerContainer HttpHeader "HOL-Library.List_Lexorder" "HOL-Library.Multiset"
begin

text \<open>
  The registry of the log (src/logging.cpp): the files of the program with their categories and levels, which are
  variables of those files that the registry points to, kept in a list that is ordered by name; the buffer with all names;
  looking up and changing categories and levels. The traces of the verbose build are left out.
\<close>

section \<open>Its state\<close>

text \<open>Pointers to the variables of a file are numbers of cells.\<close>

record file_data =
  fd_filename :: string
  fd_cats :: nat
  fd_level :: nat

record logging = log_files +
  first_register :: bool
  file_data_list :: "file_data jlist option"
  jh_log_names_buffer :: "charbuf option"
  cats_at :: "nat \<Rightarrow> u32"
  level_at :: "nat \<Rightarrow> int"

definition global_catagory_names :: "string list" where
  "global_catagory_names = map (\<lambda>k. ''LOG_CAT_LOCAL'' @ show_int (int k)) [1..<31] @ [''LOG_CAT_TRACE'', ''LOG_CAT_DEFAULT'']"

definition global_level_names :: "string list" where
  "global_level_names =
     [''LOG_LVL_ERR'', ''LOG_LVL_ERR'', ''LOG_LVL_WARN'', ''LOG_LVL_WARN'', ''LOG_LVL_NOTICE'', ''LOG_LVL_INFO'', ''LOG_LVL_NOISE'']"

text \<open>\<open>strcasecmp\<close>: the difference of the first characters that differ as small letters.\<close>

fun strcasecmp :: "string \<Rightarrow> string \<Rightarrow> int" where
  "strcasecmp [] [] = 0"
| "strcasecmp (c # s) [] = char_code (lower c)"
| "strcasecmp [] (d # t) = - char_code (lower d)"
| "strcasecmp (c # s) (d # t) = (if lower c = lower d then strcasecmp s t else char_code (lower c) - char_code (lower d))"

section \<open>Names of levels and categories\<close>

fun lookup_loop :: "string \<Rightarrow> string list \<Rightarrow> int \<Rightarrow> int option" where
  "lookup_loop str [] i = None"
| "lookup_loop str (n # ns) i = (if n = str then Some i else lookup_loop str ns (i + 1))"

definition logging_lookup_level :: "string \<Rightarrow> int" where
  "logging_lookup_level str =
     (case str of
        [c] \<Rightarrow> if char_code (CHR ''0'') \<le> char_code c \<and> char_code c \<le> char_code (CHR ''9'')
               then let res = char_code c - char_code (CHR ''0'') in if res < 0 \<or> res > 6 then - 1 else res
               else (case lookup_loop str global_level_names 0 of Some i \<Rightarrow> i | None \<Rightarrow> - 1)
      | _ \<Rightarrow> (case lookup_loop str global_level_names 0 of Some i \<Rightarrow> i | None \<Rightarrow> - 1))"

definition logging_lookup_cat :: "string \<Rightarrow> u32" where
  "logging_lookup_cat str = (case lookup_loop str global_catagory_names 0 of Some i \<Rightarrow> push_bit (nat i) 1 | None \<Rightarrow> 0)"

text \<open>Each category has a bit of its own; of two levels with one name the first is found.\<close>

lemma lookup_names:
  "map logging_lookup_cat global_catagory_names = map (\<lambda>k. push_bit k 1) [0..<32]"
  "map logging_lookup_level global_level_names = [0, 0, 2, 2, 4, 5, 6]"
  "map (\<lambda>d. logging_lookup_level [d]) ''0123456789'' = [0, 1, 2, 3, 4, 5, 6, - 1, - 1, - 1]"
  by code_simp+

section \<open>Operations of the registry\<close>

text \<open>A list that was never made is a null pointer.\<close>

definition the_list :: "logging \<Rightarrow> file_data jlist outcome" where
  "the_list s = (case file_data_list s of None \<Rightarrow> Inl UndefinedBehaviour | Some l \<Rightarrow> Inr l)"

definition each_file :: "('s \<Rightarrow> file_data \<Rightarrow> 's outcome) \<Rightarrow> 's \<Rightarrow> logging \<Rightarrow> 's outcome" where
  "each_file body x s =
     andThen (the_list s) (\<lambda>l. andThen (jl_begin l) (for_each jl_end it_deref it_incr body (jl_fresh l) x l))"

definition logging_get_names :: "logging \<Rightarrow> (charbuf option \<times> logging) outcome" where
  "logging_get_names s =
     (if jh_log_names_buffer s \<noteq> None then Inr (jh_log_names_buffer s, s)
      else andThen (each_file (\<lambda>n i. Inr (n + of_nat (length (fd_filename i)) + 1)) (1 :: u32) s) (\<lambda>n.
      if n = 1 then Inr (None, s)
      else andThen (each_file (\<lambda>(buf, temp) i.
             andThen (put buf temp (fd_filename i @ [NUL])) (\<lambda>buf.
             andThen (put buf (temp + length (fd_filename i)) '' '') (\<lambda>buf. Inr (buf, temp + length (fd_filename i) + 1))))
             (replicate (unat n) None, 0) s) (\<lambda>(buf, temp).
           andThen (store_char buf (int temp - 1) NUL) (\<lambda>buf. Inr (Some buf, s\<lparr>jh_log_names_buffer := Some buf\<rparr>)))))"

definition lookup_file :: "string \<Rightarrow> logging \<Rightarrow> file_data option outcome" where
  "lookup_file name s =
     andThen (the_list s) (\<lambda>l. andThen (jl_begin l) (for_find jl_end it_deref it_incr (\<lambda>i. Inr (fd_filename i = name)) (jl_fresh l) l))"

definition logging_set_cats :: "string \<Rightarrow> u32 \<Rightarrow> logging \<Rightarrow> (int \<times> logging) outcome" where
  "logging_set_cats name cats s =
     andThen (each_file (\<lambda>(result, at) i.
       Inr (if name = ''all'' \<or> fd_filename i = name then (1, at(fd_cats i := cats)) else (result, at))) (0, cats_at s) s) (\<lambda>(result, at).
     Inr (result, s\<lparr>cats_at := at\<rparr>))"

definition logging_set_level :: "string \<Rightarrow> int \<Rightarrow> logging \<Rightarrow> (int \<times> logging) outcome" where
  "logging_set_level name level s =
     andThen (each_file (\<lambda>(result, at) i.
       Inr (if name = ''all'' \<or> fd_filename i = name then (1, at(fd_level i := level)) else (result, at))) (0, level_at s) s) (\<lambda>(result, at).
     Inr (result, s\<lparr>level_at := at\<rparr>))"

definition logging_get_cats :: "string \<Rightarrow> logging \<Rightarrow> u32 outcome" where
  "logging_get_cats name s =
     andThen (lookup_file name s) (\<lambda>node. Inr (case node of None \<Rightarrow> 0 | Some node \<Rightarrow> cats_at s (fd_cats node)))"

definition logging_get_level :: "string \<Rightarrow> logging \<Rightarrow> int outcome" where
  "logging_get_level name s =
     andThen (lookup_file name s) (\<lambda>node. Inr (case node of None \<Rightarrow> - 1 | Some node \<Rightarrow> level_at s (fd_level node)))"

text \<open>The standard output is file 1.\<close>

definition logging_init :: "logging \<Rightarrow> logging outcome" where
  "logging_init s =
     (if \<not> first_register s then Inr s
      else andThen jl_list (\<lambda>l. Inr (s\<lparr>first_register := False, file_data_list := Some l, logging_file := Some 1\<rparr>)))"

definition register_logging :: "string \<Rightarrow> nat \<Rightarrow> nat \<Rightarrow> logging \<Rightarrow> logging outcome" where
  "register_logging name cats level s =
     (let node = \<lparr>fd_filename = name, fd_cats = cats, fd_level = level\<rparr> in
      andThen (if first_register s then logging_init s else Inr s) (\<lambda>s.
      andThen (the_list s) (\<lambda>l.
      andThen (jl_begin l) (\<lambda>i.
      andThen (for_insert_before jl_end it_deref it_incr it_insertBefore jl_push_back
        (\<lambda>i. Inr (strcasecmp (fd_filename i) name > 0)) node (jl_fresh l) l i) (\<lambda>l.
      Inr (s\<lparr>file_data_list := Some l, jh_log_names_buffer := None\<rparr>))))))"

definition logging_cleanup :: "logging \<Rightarrow> logging outcome" where
  "logging_cleanup s =
     andThen (the_list s) (\<lambda>l. andThen (jl_clear (jl_fresh l) l) (\<lambda>l. Inr (s\<lparr>file_data_list := Some l\<rparr>)))"

text \<open>The categories of a word, as \<open>logging_show_files\<close> prints them.\<close>

fun cats_loop :: "u32 \<Rightarrow> nat list \<Rightarrow> bool \<Rightarrow> nat option \<Rightarrow> 'a log_files_scheme \<Rightarrow> 'a log_files_scheme outcome" where
  "cats_loop cats [] first f s = Inr s"
| "cats_loop cats (j # js) first f s =
     (if and cats (push_bit j 1) \<noteq> 0
      then andThen (fprintf f (if first then global_catagory_names ! j else '', '' @ global_catagory_names ! j) s) (cats_loop cats js False f)
      else cats_loop cats js first f s)"

definition logging_show_files :: "nat option \<Rightarrow> logging \<Rightarrow> logging outcome" where
  "logging_show_files f s =
     each_file (\<lambda>s i.
       let level = level_at s (fd_level i); cats = cats_at s (fd_cats i) in
       andThen (if 0 \<le> level \<and> level < int (length global_level_names) then Inr (global_level_names ! nat level) else Inl UndefinedBehaviour) (\<lambda>l.
       andThen (fprintf f (fd_filename i @ '':'' @ l @ '':'') s) (\<lambda>s.
       andThen (if cats = 0xFFFFFFFF then fprintf f ''LOG_CAT_ALL'' s else cats_loop cats [0..<32] True f s) (\<lambda>s.
       fprintf f [CHR 0x0A] s)))) s s"

section \<open>The registry as a list\<close>

text \<open>
  What a client sees: the files in their order, and the names that are kept until the next registration, if they were asked for.
\<close>

record registry =
  rg_files :: "file_data list"
  rg_names :: "string option"

definition names_text :: "file_data list \<Rightarrow> string" where
  "names_text xs = butlast (concat (map (\<lambda>i. fd_filename i @ '' '') xs))"

definition names_size :: "file_data list \<Rightarrow> nat" where
  "names_size xs = sum_list (map (\<lambda>i. length (fd_filename i) + 1) xs)"

definition add_file :: "file_data \<Rightarrow> file_data list \<Rightarrow> file_data list" where
  "add_file node = insert_before_first (\<lambda>i. strcasecmp (fd_filename i) (fd_filename node) > 0) node"

definition registry_of :: "logging \<Rightarrow> registry \<Rightarrow> bool" where
  "registry_of s r \<longleftrightarrow>
     \<not> first_register s \<and> (\<exists>l. file_data_list s = Some l \<and> jl_holds l (rg_files r)) \<and>
     (case rg_names r of None \<Rightarrow> jh_log_names_buffer s = None
      | Some t \<Rightarrow> \<exists>buf. jh_log_names_buffer s = Some buf \<and> c_text buf = Inr t)"

lemma registry_ofD:
  assumes "registry_of s r"
  obtains l where "file_data_list s = Some l" "jl_holds l (rg_files r)" "the_list s = Inr l"
  using assms by (auto simp: registry_of_def the_list_def)

lemma each_file_fold: "registry_of s r \<Longrightarrow> each_file body x s = fold_outcome body x (rg_files r)"
proof -
  assume "registry_of s r"
  then obtain l where l: "jl_holds l (rg_files r)" "the_list s = Inr l" by (rule registry_ofD)
  obtain w where w: "jl_seq l w (rg_files r)" using l(1) by (auto simp: jl_holds_def)
  show ?thesis using jl_fuel [OF l(1)] by (simp add: each_file_def l(2) jl.for_each_begin [OF w])
qed

lemma lookup_file_find: "registry_of s r \<Longrightarrow> lookup_file name s = Inr (find (\<lambda>i. fd_filename i = name) (rg_files r))"
proof -
  assume "registry_of s r"
  then obtain l where l: "jl_holds l (rg_files r)" "the_list s = Inr l" by (rule registry_ofD)
  obtain w where "jl_seq l w (rg_files r)" using l(1) by (auto simp: jl_holds_def)
  from jl.for_find_begin [OF this] jl_fuel [OF l(1)] show ?thesis by (simp add: lookup_file_def l(2))
qed

text \<open>The size that is computed and what is written.\<close>

lemma size_loop:
  "foldl (\<lambda>n i. n + of_nat (length (fd_filename i)) + 1) n xs = (n + of_nat (names_size xs) :: u32)"
  by (induction xs arbitrary: n) (simp_all add: names_size_def algebra_simps)

lemma write_loop:
  "starts buf t \<Longrightarrow> length t + names_size xs < length buf \<Longrightarrow>
   \<exists>buf'. fold_outcome (\<lambda>(buf, temp) i.
      andThen (put buf temp (fd_filename i @ [NUL])) (\<lambda>buf.
      andThen (put buf (temp + length (fd_filename i)) '' '') (\<lambda>buf. Inr (buf, temp + length (fd_filename i) + 1)))) (buf, length t) xs =
      Inr (buf', length (t @ concat (map (\<lambda>i. fd_filename i @ '' '') xs))) \<and>
    starts buf' (t @ concat (map (\<lambda>i. fd_filename i @ '' '') xs)) \<and> length buf' = length buf"
proof (induction xs arbitrary: buf t)
  case (Cons i xs)
  let ?f = "fd_filename i"
  have room: "length t + length (?f @ [NUL]) \<le> length buf" using Cons.prems(2) by (simp add: names_size_def)
  obtain b1 where 1: "put buf (length t) (?f @ [NUL]) = Inr b1" "starts b1 (t @ ?f @ [NUL])" "length b1 = length buf"
    using put_starts [OF Cons.prems(1) room] by auto
  have s1: "starts b1 (t @ ?f)" using 1(2) starts_append [of b1 "t @ ?f" "[NUL]"] by simp
  obtain b2 where 2: "put b1 (length (t @ ?f)) '' '' = Inr b2" "starts b2 ((t @ ?f) @ '' '')" "length b2 = length buf"
    using put_starts [OF s1, of "'' ''"] 1(3) room by auto
  have "length ((t @ ?f) @ '' '') + names_size xs < length b2" using Cons.prems(2) 2(3) by (simp add: names_size_def)
  from Cons.IH [OF 2(2) this] show ?case using 1(1) 2(1,3) by simp
qed simp

lemma get_names_fresh:
  assumes "registry_of s r" "rg_names r = None" "rg_files r \<noteq> []" "names_size (rg_files r) + 1 < 2 ^ 32"
    and "\<forall>i \<in> set (rg_files r). NUL \<notin> set (fd_filename i)"
  shows "\<exists>buf. logging_get_names s = Inr (Some buf, s\<lparr>jh_log_names_buffer := Some buf\<rparr>) \<and> c_text buf = Inr (names_text (rg_files r))"
proof -
  let ?xs = "rg_files r"
  let ?all = "concat (map (\<lambda>i. fd_filename i @ '' '') ?xs)"
  let ?n = "1 + of_nat (names_size ?xs) :: u32"
  have n: "unat ?n = names_size ?xs + 1"
    using assms(4) take_bit_nat_eq_self [of "names_size ?xs" 32] by (simp add: unat_word_ariths unsigned_of_nat)
  have pos: "0 < names_size ?xs" using assms(3) by (cases ?xs) (simp_all add: names_size_def)
  have ne: "?n \<noteq> 1" using n pos by (metis add_cancel_left_left less_numeral_extra(3) unat_1)
  have l: "length ?all = names_size ?xs" by (simp add: names_size_def length_concat comp_def)
  obtain buf where w: "fold_outcome (\<lambda>(buf, temp) i.
      andThen (put buf temp (fd_filename i @ [NUL])) (\<lambda>buf.
      andThen (put buf (temp + length (fd_filename i)) '' '') (\<lambda>buf. Inr (buf, temp + length (fd_filename i) + 1))))
      (replicate (unat ?n) None, 0) ?xs = Inr (buf, length ?all)" "starts buf ?all" "length buf = unat ?n"
    using write_loop [of "replicate (unat ?n) None" "[]" ?xs] n by auto
  have "?all \<noteq> []" using pos l by auto
  then have split: "?all = names_text ?xs @ [last ?all]" by (simp add: names_text_def)
  have len: "length (names_text ?xs) = length ?all - 1" by (simp add: names_text_def)
  have s: "starts buf (names_text ?xs)" using w(2) split starts_append by metis
  obtain buf' where p: "put buf (length (names_text ?xs)) [NUL] = Inr buf'" "starts buf' (names_text ?xs @ [NUL])"
    using put_starts [OF s, of "[NUL]"] w(3) n l len pos by auto
  have "NUL \<notin> set ?all" using assms(5) by auto
  then have "NUL \<notin> set (names_text ?xs)" by (auto simp: names_text_def dest: in_set_butlastD)
  from c_text_starts [OF p(2) this] have t: "c_text buf' = Inr (names_text ?xs)" .
  have none: "jh_log_names_buffer s = None" using assms(1,2) by (simp add: registry_of_def)
  have "store_char buf (int (length ?all) - 1) NUL = Inr buf'" using p(1) len l pos by (simp add: store_char_def nat_diff_distrib)
  then have "logging_get_names s = Inr (Some buf', s\<lparr>jh_log_names_buffer := Some buf'\<rparr>)"
    by (simp only: logging_get_names_def none each_file_fold [OF assms(1)] fold_outcome_pure size_loop ne w(1) andThen_simps prod.case if_False simp_thms not_None_eq)
  then show ?thesis using t by blast
qed

lemma get_names_holds:
  assumes "registry_of s r" "names_size (rg_files r) + 1 < 2 ^ 32" "\<forall>i \<in> set (rg_files r). NUL \<notin> set (fd_filename i)"
  defines "t \<equiv> (case rg_names r of None \<Rightarrow> if rg_files r = [] then None else Some (names_text (rg_files r)) | Some t \<Rightarrow> Some t)"
  shows "\<exists>buf. logging_get_names s = Inr (buf, s\<lparr>jh_log_names_buffer := buf\<rparr>) \<and>
    (case t of None \<Rightarrow> buf = None | Some t \<Rightarrow> \<exists>b. buf = Some b \<and> c_text b = Inr t) \<and>
    registry_of (s\<lparr>jh_log_names_buffer := buf\<rparr>) (r\<lparr>rg_names := t\<rparr>)"
proof (cases "rg_names r")
  case (Some u)
  then obtain b where b: "jh_log_names_buffer s = Some b" "c_text b = Inr u" using assms(1) by (auto simp: registry_of_def)
  have "s\<lparr>jh_log_names_buffer := Some b\<rparr> = s" using b(1) by simp
  then show ?thesis using b assms(1) Some by (auto simp: t_def logging_get_names_def registry_of_def)
next
  case None
  then have none: "jh_log_names_buffer s = None" using assms(1) by (simp add: registry_of_def)
  then have same: "s\<lparr>jh_log_names_buffer := None\<rparr> = s" by simp
  show ?thesis
  proof (cases "rg_files r = []")
    case True
    then have "logging_get_names s = Inr (None, s)"
      using none by (simp add: logging_get_names_def each_file_fold [OF assms(1)])
    then show ?thesis using None True assms(1) same by (auto simp: t_def registry_of_def)
  next
    case False
    obtain buf where "logging_get_names s = Inr (Some buf, s\<lparr>jh_log_names_buffer := Some buf\<rparr>)" "c_text buf = Inr (names_text (rg_files r))"
      using get_names_fresh [OF assms(1) None False assms(2,3)] by blast
    then show ?thesis using None False assms(1) by (auto simp: t_def registry_of_def)
  qed
qed

lemma register_holds:
  assumes "registry_of s r"
  shows "\<exists>s'. register_logging name c l s = Inr s' \<and> cats_at s' = cats_at s \<and> level_at s' = level_at s \<and>
    registry_of s' \<lparr>rg_files = add_file \<lparr>fd_filename = name, fd_cats = c, fd_level = l\<rparr> (rg_files r), rg_names = None\<rparr>"
proof -
  let ?node = "\<lparr>fd_filename = name, fd_cats = c, fd_level = l\<rparr>"
  obtain fs where fs: "file_data_list s = Some fs" "jl_holds fs (rg_files r)" "the_list s = Inr fs" using assms by (rule registry_ofD)
  obtain w where w: "jl_seq fs w (rg_files r)" using fs(2) by (auto simp: jl_holds_def)
  have "test_insert (\<lambda>i. Inr (strcasecmp (fd_filename i) name > 0)) ?node (rg_files r) = Inr (add_file ?node (rg_files r))"
    using test_insert_pure [of "rg_files r" _ "\<lambda>i. strcasecmp (fd_filename i) name > 0" ?node] by (simp add: add_file_def)
  from jl.for_insert_before_begin [OF w _ this, of "jl_fresh fs"] jl_fuel [OF fs(2)]
  obtain fs' w' where i: "andThen (jl_begin fs) (for_insert_before jl_end it_deref it_incr it_insertBefore jl_push_back
      (\<lambda>i. Inr (strcasecmp (fd_filename i) name > 0)) ?node (jl_fresh fs) fs) = Inr fs'" "jl_seq fs' w' (add_file ?node (rg_files r))"
    by auto
  have "\<not> first_register s" using assms by (simp add: registry_of_def)
  then show ?thesis using i fs(3) by (auto simp: register_logging_def Let_def andThen_Inr_iff registry_of_def jl_holds_def)
qed

lemma cleanup_holds:
  assumes "registry_of s r"
  shows "\<exists>s'. logging_cleanup s = Inr s' \<and> cats_at s' = cats_at s \<and> level_at s' = level_at s \<and> registry_of s' (r\<lparr>rg_files := []\<rparr>)"
proof -
  obtain fs where fs: "file_data_list s = Some fs" "jl_holds fs (rg_files r)" "the_list s = Inr fs" using assms by (rule registry_ofD)
  obtain fs' where "jl_clear (jl_fresh fs) fs = Inr fs'" "jl_holds fs' ([] :: file_data list)"
    using jl_clear_holds [OF fs(2), of "jl_fresh fs"] jl_fuel [OF fs(2)] by auto
  then show ?thesis using assms fs(3) by (auto simp: logging_cleanup_def registry_of_def split: option.splits)
qed

text \<open>Changing the variables of the files with a name, or of all.\<close>

definition update_cells :: "(file_data \<Rightarrow> nat) \<Rightarrow> string \<Rightarrow> 'v \<Rightarrow> file_data list \<Rightarrow> (nat \<Rightarrow> 'v) \<Rightarrow> (nat \<Rightarrow> 'v)" where
  "update_cells cell name v xs at =
     (\<lambda>a. if \<exists>i \<in> set xs. (name = ''all'' \<or> fd_filename i = name) \<and> cell i = a then v else at a)"

lemma set_loop:
  "foldl (\<lambda>(result, at) i. if name = ''all'' \<or> fd_filename i = name then (1 :: int, at(cell i := v)) else (result, at)) (res, at) xs =
   (if \<exists>i \<in> set xs. name = ''all'' \<or> fd_filename i = name then 1 else res, update_cells cell name v xs at)"
  by (induction xs arbitrary: res at) (auto simp: update_cells_def fun_eq_iff)

definition matches :: "string \<Rightarrow> file_data list \<Rightarrow> int" where
  "matches name xs = (if \<exists>i \<in> set xs. name = ''all'' \<or> fd_filename i = name then 1 else 0)"

lemma set_cats_holds:
  assumes "registry_of s r"
  shows "logging_set_cats name v s = Inr (matches name (rg_files r), s\<lparr>cats_at := update_cells fd_cats name v (rg_files r) (cats_at s)\<rparr>)"
  using fold_outcome_pure [of "\<lambda>(result, at) i. if name = ''all'' \<or> fd_filename i = name then (1 :: int, at(fd_cats i := v)) else (result, at)"
    "(0, cats_at s)" "rg_files r"] set_loop [of name fd_cats v 0 "cats_at s" "rg_files r"]
  by (simp add: logging_set_cats_def each_file_fold [OF assms] matches_def case_prod_unfold)

lemma set_level_holds:
  assumes "registry_of s r"
  shows "logging_set_level name v s = Inr (matches name (rg_files r), s\<lparr>level_at := update_cells fd_level name v (rg_files r) (level_at s)\<rparr>)"
  using fold_outcome_pure [of "\<lambda>(result, at) i. if name = ''all'' \<or> fd_filename i = name then (1 :: int, at(fd_level i := v)) else (result, at)"
    "(0, level_at s)" "rg_files r"] set_loop [of name fd_level v 0 "level_at s" "rg_files r"]
  by (simp add: logging_set_level_def each_file_fold [OF assms] matches_def case_prod_unfold)

section \<open>Sequences of calls\<close>

datatype log_op = Register string nat nat | SetCats string u32 | SetLevel string int | GetNames | Cleanup

fun log_run :: "log_op list \<Rightarrow> logging \<Rightarrow> logging outcome" where
  "log_run [] s = Inr s"
| "log_run (Register n c l # ops) s = andThen (register_logging n c l s) (log_run ops)"
| "log_run (SetCats n v # ops) s = andThen (logging_set_cats n v s) (\<lambda>(_, s). log_run ops s)"
| "log_run (SetLevel n v # ops) s = andThen (logging_set_level n v s) (\<lambda>(_, s). log_run ops s)"
| "log_run (GetNames # ops) s = andThen (logging_get_names s) (\<lambda>(_, s). log_run ops s)"
| "log_run (Cleanup # ops) s = andThen (logging_cleanup s) (log_run ops)"

text \<open>The registry and the cells.\<close>

type_synonym log_abs = "registry \<times> (nat \<Rightarrow> u32) \<times> (nat \<Rightarrow> int)"

fun log_spec :: "log_op \<Rightarrow> log_abs \<Rightarrow> log_abs" where
  "log_spec (Register n c l) (r, cs, ls) =
     (\<lparr>rg_files = add_file \<lparr>fd_filename = n, fd_cats = c, fd_level = l\<rparr> (rg_files r), rg_names = None\<rparr>, cs, ls)"
| "log_spec (SetCats n v) (r, cs, ls) = (r, update_cells fd_cats n v (rg_files r) cs, ls)"
| "log_spec (SetLevel n v) (r, cs, ls) = (r, cs, update_cells fd_level n v (rg_files r) ls)"
| "log_spec GetNames (r, cs, ls) =
     (r\<lparr>rg_names := (case rg_names r of None \<Rightarrow> if rg_files r = [] then None else Some (names_text (rg_files r)) | Some t \<Rightarrow> Some t)\<rparr>, cs, ls)"
| "log_spec Cleanup (r, cs, ls) = (r\<lparr>rg_files := []\<rparr>, cs, ls)"

fun log_clean :: "log_op \<Rightarrow> bool" where
  "log_clean (Register n c l) = (NUL \<notin> set n)"
| "log_clean _ = True"

fun log_bytes :: "log_op \<Rightarrow> nat" where
  "log_bytes (Register n c l) = length n + 1"
| "log_bytes _ = 0"

definition log_refines :: "logging \<Rightarrow> log_abs \<Rightarrow> bool" where
  "log_refines s = (\<lambda>(r, cs, ls). registry_of s r \<and> cats_at s = cs \<and> level_at s = ls)"

lemma insert_before_first_simps:
  "insert_before_first P v [] = [v]"
  "insert_before_first P v (x # xs) = (if P x then v # x # xs else x # insert_before_first P v xs)"
  by (simp_all add: insert_before_first_def)

lemma add_file_set: "set (add_file n xs) = insert n (set xs)"
  unfolding add_file_def by (induction xs) (auto simp: insert_before_first_simps)

lemma add_file_size: "names_size (add_file n xs) = names_size xs + length (fd_filename n) + 1"
  unfolding add_file_def by (induction xs) (auto simp: insert_before_first_simps names_size_def)

lemma log_run_from:
  assumes "log_refines s a" "\<forall>op \<in> set ops. log_clean op" "\<forall>i \<in> set (rg_files (fst a)). NUL \<notin> set (fd_filename i)"
    and "names_size (rg_files (fst a)) + sum_list (map log_bytes ops) + 1 < 2 ^ 32"
  shows "\<exists>s'. log_run ops s = Inr s' \<and> log_refines s' (fold log_spec ops a)"
  using assms
proof (induction ops arbitrary: s a)
  case (Cons op ops)
  obtain r cs ls where a: "a = (r, cs, ls)" by (cases a)
  have r: "registry_of s r" "cats_at s = cs" "level_at s = ls" using Cons.prems(1) by (auto simp: log_refines_def a)
  have size: "names_size (rg_files r) + 1 < 2 ^ 32" "\<forall>i \<in> set (rg_files r). NUL \<notin> set (fd_filename i)"
    using Cons.prems(3,4) by (auto simp: a)
  note rest = Cons.prems [unfolded a]
  show ?case
  proof (cases op)
    case (Register n c l)
    obtain s' where s': "register_logging n c l s = Inr s'" "log_refines s' (log_spec op a)"
      using register_holds [OF r(1), of n c l] r by (auto simp: Register a log_refines_def)
    have "\<exists>s''. log_run ops s' = Inr s'' \<and> log_refines s'' (fold log_spec ops (log_spec op a))"
      using rest by (intro Cons.IH [OF s'(2)]) (auto simp: Register a add_file_set add_file_size)
    then show ?thesis using s'(1) by (simp add: Register)
  next
    case (SetCats n v)
    have "log_refines (s\<lparr>cats_at := update_cells fd_cats n v (rg_files r) (cats_at s)\<rparr>) (log_spec op a)"
      using r by (auto simp: log_refines_def a SetCats registry_of_def split: option.splits)
    from Cons.IH [OF this] rest show ?thesis by (auto simp: SetCats a set_cats_holds [OF r(1)])
  next
    case (SetLevel n v)
    have "log_refines (s\<lparr>level_at := update_cells fd_level n v (rg_files r) (level_at s)\<rparr>) (log_spec op a)"
      using r by (auto simp: log_refines_def a SetLevel registry_of_def split: option.splits)
    from Cons.IH [OF this] rest show ?thesis by (auto simp: SetLevel a set_level_holds [OF r(1)])
  next
    case GetNames
    obtain b where b: "logging_get_names s = Inr (b, s\<lparr>jh_log_names_buffer := b\<rparr>)" "log_refines (s\<lparr>jh_log_names_buffer := b\<rparr>) (log_spec op a)"
      using get_names_holds [OF r(1) size] r by (auto simp: log_refines_def a GetNames)
    from Cons.IH [OF b(2)] rest show ?thesis by (auto simp: GetNames a b(1))
  next
    case Cleanup
    obtain s' where s': "logging_cleanup s = Inr s'" "log_refines s' (log_spec op a)"
      using cleanup_holds [OF r(1)] r by (auto simp: log_refines_def a Cleanup)
    have "\<exists>s''. log_run ops s' = Inr s'' \<and> log_refines s'' (fold log_spec ops (log_spec op a))"
      using rest by (intro Cons.IH [OF s'(2)]) (auto simp: Cleanup a names_size_def)
    then show ?thesis using s'(1) by (simp add: Cleanup)
  qed
qed simp

lemma init_holds:
  assumes "first_register s" "jh_log_names_buffer s = None"
  shows "\<exists>s'. logging_init s = Inr s' \<and> log_refines s' (\<lparr>rg_files = [], rg_names = None\<rparr>, cats_at s, level_at s)"
proof -
  obtain l :: "file_data jlist" where l: "jl_list = Inr l" "jl_holds l []" using jl_list_holds by blast
  have "logging_init s = Inr (s\<lparr>first_register := False, file_data_list := Some l, logging_file := Some 1\<rparr>)"
    using assms(1) unfolding logging_init_def l(1) by simp
  then show ?thesis using assms l(2) by (simp add: log_refines_def registry_of_def)
qed

text \<open>
  C28: The registry, after every sequence of calls, is the ordered list of files with the variables of the files, and what the getters
  return is that of the first file with the name. The buffer of names has the size that it needs, and nothing is written outside of it.
\<close>

theorem log_run_refines:
  assumes "first_register s" "jh_log_names_buffer s = None" "\<forall>op \<in> set ops. log_clean op" "sum_list (map log_bytes ops) + 1 < 2 ^ 32"
  shows "\<exists>s' r cs ls. andThen (logging_init s) (log_run ops) = Inr s' \<and>
    fold log_spec ops (\<lparr>rg_files = [], rg_names = None\<rparr>, cats_at s, level_at s) = (r, cs, ls) \<and> registry_of s' r \<and>
    (\<forall>name. logging_get_cats name s' = Inr (case find (\<lambda>i. fd_filename i = name) (rg_files r) of None \<Rightarrow> 0 | Some i \<Rightarrow> cs (fd_cats i)) \<and>
      logging_get_level name s' = Inr (case find (\<lambda>i. fd_filename i = name) (rg_files r) of None \<Rightarrow> - 1 | Some i \<Rightarrow> ls (fd_level i)))"
proof -
  let ?a = "(\<lparr>rg_files = [], rg_names = None\<rparr>, cats_at s, level_at s)"
  obtain s1 where s1: "logging_init s = Inr s1" "log_refines s1 ?a" using init_holds [OF assms(1,2)] by blast
  obtain s' where s': "log_run ops s1 = Inr s'" "log_refines s' (fold log_spec ops ?a)"
    using log_run_from [OF s1(2) assms(3)] assms(4) by (auto simp: names_size_def)
  obtain r cs ls where f: "fold log_spec ops ?a = (r, cs, ls)" by (metis prod_cases3)
  have r: "registry_of s' r" "cats_at s' = cs" "level_at s' = ls" using s'(2) by (auto simp: f log_refines_def)
  then show ?thesis
    using s1(1) s'(1) f by (auto simp: logging_get_cats_def logging_get_level_def lookup_file_find [OF r(1)])
qed

theorem log_run_refines_witness:
  "\<exists>s' r cs ls. andThen (logging_init \<lparr>logging_file = None, logging_copy_file = None, logging_sync_mode = False, logging_mark_num = 0,
      lf_out = (\<lambda>_. \<lparr>of_text = [], of_flushed = 0\<rparr>), first_register = True, file_data_list = None, jh_log_names_buffer = None,
      cats_at = (\<lambda>_. 0), level_at = (\<lambda>_. 4)\<rparr>)
      (log_run [Register ''b.cpp'' 0 0, Register ''A.cpp'' 1 1, GetNames, SetLevel ''A.cpp'' 6]) = Inr s' \<and>
    registry_of s' r \<and> rg_names r = Some ''A.cpp b.cpp'' \<and>
    logging_get_level ''A.cpp'' s' = Inr 6 \<and> logging_get_level ''b.cpp'' s' = Inr 4 \<and> logging_get_level ''c.cpp'' s' = Inr (- 1)"
proof -
  let ?s = "\<lparr>logging_file = None, logging_copy_file = None, logging_sync_mode = False, logging_mark_num = 0,
      lf_out = (\<lambda>_. \<lparr>of_text = [], of_flushed = 0\<rparr>), first_register = True, file_data_list = None, jh_log_names_buffer = None,
      cats_at = (\<lambda>_. 0), level_at = (\<lambda>_. 4)\<rparr>"
  let ?ops = "[Register ''b.cpp'' 0 0, Register ''A.cpp'' 1 1, GetNames, SetLevel ''A.cpp'' 6]"
  have order: "strcasecmp ''b.cpp'' ''A.cpp'' > 0" by code_simp
  have spec: "fold log_spec ?ops (\<lparr>rg_files = [], rg_names = None\<rparr>, cats_at ?s, level_at ?s) =
      (\<lparr>rg_files = [\<lparr>fd_filename = ''A.cpp'', fd_cats = 1, fd_level = 1\<rparr>, \<lparr>fd_filename = ''b.cpp'', fd_cats = 0, fd_level = 0\<rparr>],
        rg_names = Some ''A.cpp b.cpp''\<rparr>, \<lambda>_. 0, \<lambda>a. if a = 1 then 6 else 4)"
    using order by (simp add: add_file_def insert_before_first_simps update_cells_def names_text_def fun_eq_iff del: strcasecmp.simps)
  from log_run_refines [of ?s ?ops] obtain s' r cs ls where h: "andThen (logging_init ?s) (log_run ?ops) = Inr s'"
    "fold log_spec ?ops (\<lparr>rg_files = [], rg_names = None\<rparr>, cats_at ?s, level_at ?s) = (r, cs, ls)" "registry_of s' r"
    and get: "\<And>name. logging_get_level name s' = Inr (case find (\<lambda>i. fd_filename i = name) (rg_files r) of None \<Rightarrow> - 1 | Some i \<Rightarrow> ls (fd_level i))"
    by auto
  have "rg_names r = Some ''A.cpp b.cpp''" "logging_get_level ''A.cpp'' s' = Inr 6" "logging_get_level ''b.cpp'' s' = Inr 4"
    "logging_get_level ''c.cpp'' s' = Inr (- 1)"
    using h(2) get [of "''A.cpp''"] get [of "''b.cpp''"] get [of "''c.cpp''"] by (auto simp only: spec Pair_inject registry.simps) auto
  then show ?thesis using h(1,3) by blast
qed

text \<open>The order of the registry.\<close>

definition name_key :: "string \<Rightarrow> int list" where
  "name_key s = map (\<lambda>c. char_code (lower c)) s"

lemma lower_NUL: "lower c = NUL \<Longrightarrow> c = NUL"
proof (rule ccontr)
  assume c: "lower c = NUL" "c \<noteq> NUL"
  then have n: "of_char c + 32 < (256 :: nat)" "char_of (of_char c + 32 :: nat) = NUL" by (auto simp: lower_def Let_def split: if_splits)
  then have "of_char (char_of (of_char c + 32 :: nat)) = (0 :: nat)" by simp
  then show False using n(1) by (simp add: of_char_of)
qed

lemma strcasecmp_key: "NUL \<notin> set s \<Longrightarrow> NUL \<notin> set t \<Longrightarrow> strcasecmp s t > 0 \<longleftrightarrow> name_key t < name_key s"
proof (induction s t rule: strcasecmp.induct)
  case (2 c s)
  have "char_code (lower c) \<noteq> char_code NUL" using 2 lower_NUL [of c] by (simp only: char_code_inj) auto
  then have "char_code (lower c) \<noteq> 0" by (simp add: char_code_def)
  then show ?case using char_code_range [of "lower c"] by (simp add: name_key_def)
next
  case (4 c s d t)
  then show ?case by (auto simp: name_key_def)
qed (use char_code_range in \<open>simp_all add: name_key_def not_less\<close>)

lemma add_file_sorted:
  assumes "NUL \<notin> set (fd_filename n)" "\<forall>i \<in> set xs. NUL \<notin> set (fd_filename i)" "sorted (map (\<lambda>i. name_key (fd_filename i)) xs)"
  shows "sorted (map (\<lambda>i. name_key (fd_filename i)) (add_file n xs))"
  using assms(2,3)
proof (induction xs)
  case (Cons x xs)
  have k: "strcasecmp (fd_filename x) (fd_filename n) > 0 \<longleftrightarrow> name_key (fd_filename n) < name_key (fd_filename x)"
    using strcasecmp_key assms(1) Cons.prems(1) by simp
  have c: "add_file n (x # xs) = (if strcasecmp (fd_filename x) (fd_filename n) > 0 then n # x # xs else x # add_file n xs)"
    by (simp add: add_file_def insert_before_first_simps)
  show ?case using Cons k unfolding c by (auto simp: add_file_set not_less)
qed (simp add: add_file_def insert_before_first_simps)

lemma add_file_mset: "mset (add_file n xs) = add_mset n (mset xs)"
  unfolding add_file_def by (induction xs) (auto simp: insert_before_first_simps)

text \<open>The files that were registered and not cleaned up.\<close>

fun registered :: "log_op list \<Rightarrow> file_data multiset \<Rightarrow> file_data multiset" where
  "registered [] m = m"
| "registered (Register n c l # ops) m = registered ops (add_mset \<lparr>fd_filename = n, fd_cats = c, fd_level = l\<rparr> m)"
| "registered (Cleanup # ops) m = registered ops {#}"
| "registered (_ # ops) m = registered ops m"

text \<open>What all calls keep: the order, and while nothing is cleaned up the names that are kept are those of the files.\<close>

definition in_order :: "log_abs \<Rightarrow> bool" where
  "in_order a \<longleftrightarrow> sorted (map (\<lambda>i. name_key (fd_filename i)) (rg_files (fst a))) \<and> (\<forall>i \<in> set (rg_files (fst a)). NUL \<notin> set (fd_filename i))"

lemma names_size_nil [simp]: "names_size [] = 0"
  by (simp add: names_size_def)

lemma add_file_nonempty [simp]: "add_file i xs \<noteq> []"
  using add_file_set [of i xs] by auto

lemma log_spec_order:
  "in_order a \<Longrightarrow> \<forall>op \<in> set ops. log_clean op \<Longrightarrow>
   in_order (fold log_spec ops a) \<and> mset (rg_files (fst (fold log_spec ops a))) = registered ops (mset (rg_files (fst a))) \<and>
   names_size (rg_files (fst (fold log_spec ops a))) \<le> names_size (rg_files (fst a)) + sum_list (map log_bytes ops)"
proof (induction ops arbitrary: a)
  case (Cons op ops)
  obtain r cs ls where a: "a = (r, cs, ls)" by (cases a)
  have "in_order (log_spec op a)" using Cons.prems add_file_sorted by (cases op) (auto simp: in_order_def a add_file_set)
  then show ?case using Cons.IH [of "log_spec op a"] Cons.prems(2)
    by (cases op) (auto simp: a add_file_mset add_file_size)
qed simp

lemma log_spec_names:
  "Cleanup \<notin> set ops \<Longrightarrow> rg_files (fst a) \<noteq> [] \<Longrightarrow> rg_names (fst a) \<in> {None, Some (names_text (rg_files (fst a)))} \<Longrightarrow>
   rg_files (fst (fold log_spec ops a)) \<noteq> [] \<and>
   rg_names (fst (fold log_spec ops a)) \<in> {None, Some (names_text (rg_files (fst (fold log_spec ops a))))}"
proof (induction ops arbitrary: a)
  case (Cons op ops)
  obtain r cs ls where "a = (r, cs, ls)" by (cases a)
  then show ?case using Cons.IH [of "log_spec op a"] Cons.prems by (cases op) (auto split: option.splits)
qed simp

text \<open>
  The names that the log gives are those of the files registered since the last clean-up, each as often as it was registered,
  in the order of \<open>strcasecmp\<close>, with one space between two of them: after any calls, when a file was registered
  after the last clean-up.
\<close>

theorem log_names_sorted:
  assumes "first_register s" "jh_log_names_buffer s = None" "\<forall>op \<in> set ops. log_clean op" "sum_list (map log_bytes ops) + 1 < 2 ^ 32"
    and "ops = before @ Register n c l # after" "Cleanup \<notin> set after"
  shows "\<exists>s1 buf s2 xs. andThen (logging_init s) (log_run ops) = Inr s1 \<and> logging_get_names s1 = Inr (Some buf, s2) \<and>
    c_text buf = Inr (names_text xs) \<and> mset xs = registered ops {#} \<and> sorted (map (\<lambda>i. name_key (fd_filename i)) xs)"
proof -
  let ?a = "(\<lparr>rg_files = [], rg_names = None\<rparr>, cats_at s, level_at s)"
  obtain s1 where s1: "logging_init s = Inr s1" "log_refines s1 ?a" using init_holds [OF assms(1,2)] by blast
  let ?b = "fold log_spec ops ?a"
  obtain s' where s': "log_run ops s1 = Inr s'" "log_refines s' ?b"
    using log_run_from [OF s1(2) assms(3)] assms(4) by (auto simp: names_size_def)
  obtain r cs ls where b: "?b = (r, cs, ls)" by (metis prod_cases3)
  have r: "registry_of s' r" using s'(2) by (auto simp: b log_refines_def)
  have g: "in_order ?b" "mset (rg_files r) = registered ops {#}" "names_size (rg_files r) \<le> sum_list (map log_bytes ops)"
    using log_spec_order [of ?a ops] assms(3) by (auto simp: in_order_def b)
  have b2: "?b = fold log_spec after (log_spec (Register n c l) (fold log_spec before ?a))" by (simp add: assms(5))
  have n: "rg_files r \<noteq> []" "rg_names r \<in> {None, Some (names_text (rg_files r))}"
    using log_spec_names [OF assms(6), of "log_spec (Register n c l) (fold log_spec before ?a)"] b b2
    by (cases "fold log_spec before ?a"; simp)+
  have "names_size (rg_files r) + 1 < 2 ^ 32" using g(3) assms(4) by simp
  from get_names_holds [OF r this] g(1) b
  obtain buf where "logging_get_names s' = Inr (buf, s'\<lparr>jh_log_names_buffer := buf\<rparr>)"
    "case (case rg_names r of None \<Rightarrow> if rg_files r = [] then None else Some (names_text (rg_files r)) | Some t \<Rightarrow> Some t) of
      None \<Rightarrow> buf = None | Some t \<Rightarrow> \<exists>b. buf = Some b \<and> c_text b = Inr t" by (auto simp: in_order_def)
  then show ?thesis using s1(1) s'(1) n g b by (auto simp: in_order_def split: option.splits)
qed

theorem log_names_sorted_witness:
  "\<exists>s1 buf s2 xs. andThen (logging_init \<lparr>logging_file = None, logging_copy_file = None, logging_sync_mode = False, logging_mark_num = 0,
      lf_out = (\<lambda>_. \<lparr>of_text = [], of_flushed = 0\<rparr>), first_register = True, file_data_list = None, jh_log_names_buffer = None,
      cats_at = (\<lambda>_. 0), level_at = (\<lambda>_. 4)\<rparr>) (log_run [Cleanup, Register ''b.cpp'' 0 0, GetNames]) = Inr s1 \<and>
    logging_get_names s1 = Inr (Some buf, s2) \<and> c_text buf = Inr (names_text xs) \<and>
    mset xs = {#\<lparr>fd_filename = ''b.cpp'', fd_cats = 0, fd_level = 0\<rparr>#} \<and> sorted (map (\<lambda>i. name_key (fd_filename i)) xs)"
proof -
  let ?s = "\<lparr>logging_file = None, logging_copy_file = None, logging_sync_mode = False, logging_mark_num = 0,
      lf_out = (\<lambda>_. \<lparr>of_text = [], of_flushed = 0\<rparr>), first_register = True, file_data_list = None, jh_log_names_buffer = None,
      cats_at = (\<lambda>_. 0), level_at = (\<lambda>_. 4)\<rparr>"
  let ?ops = "[Cleanup, Register ''b.cpp'' 0 0, GetNames]"
  have "first_register ?s" "jh_log_names_buffer ?s = None" "\<forall>op \<in> set ?ops. log_clean op" "sum_list (map log_bytes ?ops) + 1 < 2 ^ 32"
    "?ops = [Cleanup] @ Register ''b.cpp'' 0 0 # [GetNames]" "Cleanup \<notin> set [GetNames]" by simp_all
  note h = log_names_sorted [OF this]
  have "registered ?ops {#} = {#\<lparr>fd_filename = ''b.cpp'', fd_cats = 0, fd_level = 0\<rparr>#}" by simp
  from h [unfolded this] show ?thesis .
qed

end
