(* ===== verification/TimeUtils.thy ===== *)
theory TimeUtils
  imports JHStrings "HOL-Library.Signed_Division"
begin

text \<open>
  Points in time and spans of milliseconds (include/TimeUtils.h) in the two forms of the system, with
  microseconds and with nanoseconds. The fields are \<open>long\<close> and far from its limits; the division of C rounds
  towards zero and what is stored in an \<open>int\<close> wraps (\<open>to_int\<close>). The current time is given by the system.
\<close>

section \<open>The two forms\<close>

record timeval =
  tv_sec :: int
  tv_usec :: int

record timespec =
  ts_sec :: int
  ts_nsec :: int

definition getDifference :: "timeval \<Rightarrow> timeval \<Rightarrow> int" where
  "getDifference t1 t2 =
     (let ms = to_int ((tv_sec t1 - tv_sec t2) * 1000) in to_int (ms + (tv_usec t1 - tv_usec t2) sdiv 1000))"

definition getDifference_ns :: "timespec \<Rightarrow> timespec \<Rightarrow> int" where
  "getDifference_ns t1 t2 =
     (let ms = to_int ((ts_sec t1 - ts_sec t2) * 1000) in to_int (ms + (ts_nsec t1 - ts_nsec t2) sdiv 1000000))"

definition getDifferenceMicroSecs :: "timeval \<Rightarrow> timeval \<Rightarrow> int" where
  "getDifferenceMicroSecs t1 t2 =
     (let us = to_int ((tv_sec t1 - tv_sec t2) * 1000000) in to_int (us + (tv_usec t1 - tv_usec t2)))"

definition getDifferenceMicroSecs_ns :: "timespec \<Rightarrow> timespec \<Rightarrow> int" where
  "getDifferenceMicroSecs_ns t1 t2 =
     (let us = to_int ((ts_sec t1 - ts_sec t2) * 1000000) in to_int (us + (ts_nsec t1 - ts_nsec t2) sdiv 1000))"

text \<open>The current time from \<open>gettimeofday\<close>, where there is no \<open>clock_gettime\<close>.\<close>

definition getCurTime_ns :: "timeval \<Rightarrow> timespec" where
  "getCurTime_ns tv = \<lparr>ts_sec = tv_sec tv, ts_nsec = tv_usec tv * 1000\<rparr>"

definition setTimeStruct_ns :: "u32 \<Rightarrow> timespec" where
  "setTimeStruct_ns msecs = \<lparr>ts_sec = uint msecs div 1000, ts_nsec = uint (msecs mod 1000) * 1000000\<rparr>"

definition setTimeStruct :: "u32 \<Rightarrow> timeval" where
  "setTimeStruct msecs = \<lparr>tv_sec = uint msecs div 1000, tv_usec = uint (msecs mod 1000) * 1000\<rparr>"

definition addOffset_ns :: "timespec \<Rightarrow> int \<Rightarrow> timespec" where
  "addOffset_ns t msecs =
     (let t = \<lparr>ts_sec = ts_sec t + msecs sdiv 1000, ts_nsec = ts_nsec t + (msecs smod 1000) * 1000000\<rparr> in
      if ts_nsec t \<ge> 1000000000 then \<lparr>ts_sec = ts_sec t + 1, ts_nsec = ts_nsec t - 1000000000\<rparr>
      else if ts_nsec t < 0 then \<lparr>ts_sec = ts_sec t - 1, ts_nsec = ts_nsec t + 1000000000\<rparr>
      else t)"

definition addOffset :: "timeval \<Rightarrow> int \<Rightarrow> timeval" where
  "addOffset t msecs =
     (let t = \<lparr>tv_sec = tv_sec t + msecs sdiv 1000, tv_usec = tv_usec t + (msecs smod 1000) * 1000\<rparr> in
      if tv_usec t \<ge> 1000000 then \<lparr>tv_sec = tv_sec t + 1, tv_usec = tv_usec t - 1000000\<rparr>
      else if tv_usec t < 0 then \<lparr>tv_sec = tv_sec t - 1, tv_usec = tv_usec t + 1000000\<rparr>
      else t)"

section \<open>Normal form and meaning\<close>

definition tv_normal :: "timeval \<Rightarrow> bool" where
  "tv_normal t \<longleftrightarrow> 0 \<le> tv_usec t \<and> tv_usec t < 10 ^ 6"

definition ts_normal :: "timespec \<Rightarrow> bool" where
  "ts_normal t \<longleftrightarrow> 0 \<le> ts_nsec t \<and> ts_nsec t < 10 ^ 9"

definition tv_micros :: "timeval \<Rightarrow> int" where
  "tv_micros t = tv_sec t * 10 ^ 6 + tv_usec t"

definition ts_nanos :: "timespec \<Rightarrow> int" where
  "ts_nanos t = ts_sec t * 10 ^ 9 + ts_nsec t"

lemma sdiv_smod: "(x :: int) sdiv 1000 * 1000 + x smod 1000 = x" "- 1000 < x smod 1000" "x smod 1000 < 1000"
  using smod_sdiv_mult_eq [of x 1000] smod_int_range [of 1000 x] by auto

lemma sdiv_times: "0 < c \<Longrightarrow> (k * c) sdiv c = (k :: int)"
  by (simp add: signed_divide_int_def abs_mult sgn_mult abs_mult_sgn mult.commute)

lemma to_int_add: "to_int (to_int a + b) = to_int (a + b)"
proof -
  have "to_int (to_int a + b) = ((a + 2 ^ 31) mod 2 ^ 32 + b) mod 2 ^ 32 - 2 ^ 31" by (simp add: to_int_def)
  also have "\<dots> = (a + 2 ^ 31 + b) mod 2 ^ 32 - 2 ^ 31" by (simp only: mod_add_left_eq)
  finally show ?thesis by (simp add: to_int_def ac_simps)
qed

lemma to_int_cancel: "to_int (to_int a + (b - a)) = to_int b"
  by (simp add: to_int_add)

lemma to_int_id: "- (2 ^ 31) \<le> n \<Longrightarrow> n < 2 ^ 31 \<Longrightarrow> to_int n = n"
  by (simp add: to_int_def)

lemma addOffset_ns_nanos:
  assumes "ts_normal u"
  shows "ts_normal (addOffset_ns u ms)" "ts_nanos (addOffset_ns u ms) = ts_nanos u + ms * 1000000"
proof -
  define d r where "d = ms sdiv 1000" and "r = ms smod 1000"
  have ms: "ms * 1000000 = d * 1000000000 + r * 1000000" "- 1000 < r" "r < 1000"
    using sdiv_smod [of ms] by (simp_all add: d_def r_def)
  note defs = addOffset_ns_def d_def [symmetric] r_def [symmetric] Let_def
  show "ts_normal (addOffset_ns u ms)" "ts_nanos (addOffset_ns u ms) = ts_nanos u + ms * 1000000"
    using assms ms by (auto simp: defs ts_normal_def ts_nanos_def)
qed

text \<open>
  C29: Adding a number of milliseconds, also a negative one, to a time in normal form gives the time that is so much later, in normal form,
  in both forms; the difference to the time before is that number again, for every \<open>int\<close>.
\<close>

theorem addOffset_exact:
  assumes "tv_normal t" "ts_normal u" "- (2 ^ 31) \<le> ms" "ms < 2 ^ 31"
  shows "tv_normal (addOffset t ms) \<and> tv_micros (addOffset t ms) = tv_micros t + ms * 1000 \<and> getDifference (addOffset t ms) t = ms \<and>
    ts_normal (addOffset_ns u ms) \<and> ts_nanos (addOffset_ns u ms) = ts_nanos u + ms * 1000000 \<and> getDifference_ns (addOffset_ns u ms) u = ms"
proof (intro conjI)
  define d r where "d = ms sdiv 1000" and "r = ms smod 1000"
  have ms: "ms * 1000 = d * 1000000 + r * 1000" "- 1000 < r" "r < 1000"
    using sdiv_smod [of ms] by (simp_all add: d_def r_def)
  have thousand: "0 < (1000 :: int)" and million: "0 < (1000000 :: int)" by simp_all
  note defs = addOffset_def d_def [symmetric] r_def [symmetric] Let_def
  show n: "tv_normal (addOffset t ms)" and m: "tv_micros (addOffset t ms) = tv_micros t + ms * 1000"
    using assms(1) ms by (auto simp: defs tv_normal_def tv_micros_def)
  show n': "ts_normal (addOffset_ns u ms)" and m': "ts_nanos (addOffset_ns u ms) = ts_nanos u + ms * 1000000"
    by (rule addOffset_ns_nanos [OF assms(2)])+
  have "tv_usec (addOffset t ms) - tv_usec t = (ms - (tv_sec (addOffset t ms) - tv_sec t) * 1000) * 1000"
    using m by (simp add: tv_micros_def algebra_simps)
  then show "getDifference (addOffset t ms) t = ms"
    by (simp only: getDifference_def Let_def to_int_cancel sdiv_times [OF thousand] to_int_id [OF assms(3,4)])
  have "ts_nsec (addOffset_ns u ms) - ts_nsec u = (ms - (ts_sec (addOffset_ns u ms) - ts_sec u) * 1000) * 1000000"
    using m' by (simp add: ts_nanos_def algebra_simps)
  then show "getDifference_ns (addOffset_ns u ms) u = ms"
    by (simp only: getDifference_ns_def Let_def to_int_cancel sdiv_times [OF million] to_int_id [OF assms(3,4)])
qed

theorem addOffset_exact_witness:
  "addOffset \<lparr>tv_sec = 5, tv_usec = 1000\<rparr> (- 2) = \<lparr>tv_sec = 4, tv_usec = 999000\<rparr> \<and>
   getDifference (addOffset \<lparr>tv_sec = 5, tv_usec = 1000\<rparr> (- 2)) \<lparr>tv_sec = 5, tv_usec = 1000\<rparr> = - 2 \<and>
   ts_normal (addOffset_ns \<lparr>ts_sec = 5, ts_nsec = 999999999\<rparr> (- 2))"
  using addOffset_exact [of "\<lparr>tv_sec = 5, tv_usec = 1000\<rparr>" "\<lparr>ts_sec = 5, ts_nsec = 999999999\<rparr>" "- 2"]
  by (simp add: tv_normal_def ts_normal_def addOffset_def smod_int_alt_def signed_divide_int_def)

text \<open>Differences are exact up to the unit, rounded towards zero, when they fit; a time that is set is in normal form.\<close>

lemma setTimeStruct_normal:
  "tv_normal (setTimeStruct ms)" "tv_micros (setTimeStruct ms) = uint ms * 1000"
  "ts_normal (setTimeStruct_ns ms)" "ts_nanos (setTimeStruct_ns ms) = uint ms * 1000000"
proof -
  have u: "uint (ms mod 1000) = uint ms mod 1000" by (simp add: uint_mod)
  have "x div 1000 * 1000000 + x mod 1000 * 1000 = x * 1000" "x div 1000 * 1000000000 + x mod 1000 * 1000000 = x * 1000000" for x :: int
    using div_mult_mod_eq [of x 1000] by linarith+
  then show "tv_normal (setTimeStruct ms)" "tv_micros (setTimeStruct ms) = uint ms * 1000"
    "ts_normal (setTimeStruct_ns ms)" "ts_nanos (setTimeStruct_ns ms) = uint ms * 1000000"
    using pos_mod_bound [of 1000 "uint ms"] pos_mod_sign [of 1000 "uint ms"]
    by (auto simp: setTimeStruct_def setTimeStruct_ns_def tv_normal_def tv_micros_def ts_normal_def ts_nanos_def u)
qed

lemma getDifferenceMicroSecs_exact:
  "- (2 ^ 31) \<le> tv_micros t1 - tv_micros t2 \<Longrightarrow> tv_micros t1 - tv_micros t2 < 2 ^ 31 \<Longrightarrow>
   getDifferenceMicroSecs t1 t2 = tv_micros t1 - tv_micros t2"
proof -
  have "getDifferenceMicroSecs t1 t2 = to_int (tv_micros t1 - tv_micros t2)"
    unfolding getDifferenceMicroSecs_def Let_def to_int_add by (simp add: tv_micros_def algebra_simps)
  then show "- (2 ^ 31) \<le> tv_micros t1 - tv_micros t2 \<Longrightarrow> tv_micros t1 - tv_micros t2 < 2 ^ 31 \<Longrightarrow> ?thesis"
    by (simp only: to_int_id)
qed

end
