(* ===== verification/Components.thy ===== *)
theory Components
  imports ListenerContainer
begin

text \<open>
  Components with counted references and the manager that finds them (include/JHCOM.h, src/ComponentManager.cpp,
  include/ComponentManager.h, the generic factory of include/ComponentManagerUtils.h). Objects live in a heap; an object is
  deleted when its count comes to 0. A shared library is what the system gives for its name; what a module does
  when it is loaded and unloaded, which may call the manager, is an argument.
\<close>

section \<open>Objects\<close>

text \<open>
  The interfaces of an object are those that its macro \<open>JHCOM_DECL_ISUPPORTSn\<close> names, in order; a factory has the class
  that it makes, with the interfaces of its objects; a module has the identifier that \<open>getCID\<close> returns.
\<close>

datatype error_code = kNoError | kNoInterface | kNoClass | kNoFactory | kLoadFailed

record com_object =
  co_count :: int
  co_interfaces :: "string list"
  co_factory :: "(string \<times> string list) option"
  co_cid :: string

text \<open>What the manager knows of a class and of a module; pointers may be null.\<close>

record class_info =
  ci_cid :: string
  ci_class :: "nat option"

record module_info =
  mi_name :: string
  mi_module :: "nat option"
  mi_handle :: nat

record manager =
  cm_heap :: "nat \<Rightarrow> com_object option"
  cm_next :: nat
  cm_count :: int
  mClasses :: "nat jlist"
  cm_class_infos :: "nat \<Rightarrow> class_info option"
  mModules :: "nat jlist"
  cm_module_infos :: "nat \<Rightarrow> module_info option"
  cm_closed :: "nat list"

text \<open>Two identifiers are equal when their strings are.\<close>

definition comid_eq :: "string \<Rightarrow> string \<Rightarrow> bool" where
  "comid_eq a b \<longleftrightarrow> a = b"

definition com_at :: "manager \<Rightarrow> nat option \<Rightarrow> com_object outcome" where
  "com_at m p = (case p of None \<Rightarrow> Inl UndefinedBehaviour | Some p \<Rightarrow> (case cm_heap m p of None \<Rightarrow> Inl UndefinedBehaviour | Some x \<Rightarrow> Inr x))"

definition com_AddRef :: "manager \<Rightarrow> nat option \<Rightarrow> (int \<times> manager) outcome" where
  "com_AddRef m p =
     andThen (com_at m p) (\<lambda>x. let c = co_count x + 1 in Inr (c, m\<lparr>cm_heap := (cm_heap m)(the p := Some (x\<lparr>co_count := c\<rparr>))\<rparr>))"

definition com_Release :: "manager \<Rightarrow> nat option \<Rightarrow> (int \<times> manager) outcome" where
  "com_Release m p =
     andThen (com_at m p) (\<lambda>x. let c = co_count x - 1 in
       Inr (c, m\<lparr>cm_heap := (cm_heap m)(the p := (if c = 0 then None else Some (x\<lparr>co_count := c\<rparr>)))\<rparr>))"

text \<open>The chain of conditions of the macros, which ends with \<open>ISupports\<close>.\<close>

fun query_chain :: "string list \<Rightarrow> string \<Rightarrow> bool" where
  "query_chain [] iid = comid_eq iid ''ISupports''"
| "query_chain (i # is) iid = (if comid_eq iid i then True else query_chain is iid)"

definition com_QueryInterface :: "manager \<Rightarrow> nat option \<Rightarrow> string \<Rightarrow> (nat option \<times> error_code \<times> manager) outcome" where
  "com_QueryInterface m p iid =
     andThen (com_at m p) (\<lambda>x.
     if query_chain (co_interfaces x) iid then andThen (com_AddRef m p) (\<lambda>(_, m). Inr (p, kNoError, m))
     else Inr (None, kNoInterface, m))"

text \<open>
  \<open>GenericFactory::CreateInstance\<close>: the new object starts with the count 0, the smart pointer holds it while its interface is
  queried, and deletes it when the interface is not there.
\<close>

definition com_new :: "manager \<Rightarrow> string list \<Rightarrow> nat \<times> manager" where
  "com_new m is =
     (cm_next m, m\<lparr>cm_heap := (cm_heap m)(cm_next m \<mapsto> \<lparr>co_count = 0, co_interfaces = is, co_factory = None, co_cid = []\<rparr>),
        cm_next := cm_next m + 1\<rparr>)"

definition factory_CreateInstance :: "manager \<Rightarrow> nat option \<Rightarrow> string \<Rightarrow> string \<Rightarrow> (nat option \<times> error_code \<times> manager) outcome" where
  "factory_CreateInstance m f cid iid =
     andThen (com_at m f) (\<lambda>x.
     case co_factory x of None \<Rightarrow> Inl UndefinedBehaviour
     | Some (tcid, is) \<Rightarrow>
       if comid_eq cid tcid
       then let (p, m) = com_new m is in
            andThen (com_AddRef m (Some p)) (\<lambda>(_, m).
            andThen (com_QueryInterface m (Some p) iid) (\<lambda>(obj, result, m).
            andThen (com_Release m (Some p)) (\<lambda>(_, m). Inr (obj, result, m))))
       else Inr (None, kNoClass, m))"

section \<open>Services of the manager\<close>

definition class_info_at :: "manager \<Rightarrow> nat \<Rightarrow> class_info outcome" where
  "class_info_at m i = (case cm_class_infos m i of None \<Rightarrow> Inl UndefinedBehaviour | Some x \<Rightarrow> Inr x)"

definition cm_AddService :: "manager \<Rightarrow> string \<Rightarrow> nat option \<Rightarrow> (error_code \<times> manager) outcome" where
  "cm_AddService m cid service =
     (let info = cm_next m;
          m = m\<lparr>cm_class_infos := (cm_class_infos m)(info \<mapsto> \<lparr>ci_cid = cid, ci_class = service\<rparr>), cm_next := info + 1\<rparr> in
      andThen (com_AddRef m service) (\<lambda>(_, m).
      andThen (jl_push_back (mClasses m) info) (\<lambda>l. Inr (kNoError, m\<lparr>mClasses := l\<rparr>))))"

definition remove_visit :: "string \<Rightarrow> manager \<Rightarrow> nat \<Rightarrow> (bool \<times> manager) outcome" where
  "remove_visit cid m info =
     andThen (class_info_at m info) (\<lambda>x.
     if comid_eq cid (ci_cid x)
     then andThen (com_Release m (ci_class x)) (\<lambda>(_, m). Inr (True, m\<lparr>cm_class_infos := (cm_class_infos m)(info := None)\<rparr>))
     else Inr (False, m))"

definition cm_RemoveService :: "manager \<Rightarrow> string \<Rightarrow> (error_code \<times> manager) outcome" where
  "cm_RemoveService m cid =
     andThen (jl_begin (mClasses m)) (\<lambda>i.
     andThen (for_erase_first jl_end it_deref it_incr it_erase (remove_visit cid) (jl_fresh (mClasses m)) m (mClasses m) i) (\<lambda>(found, m, l).
     Inr (if found then kNoError else kNoClass, m\<lparr>mClasses := l\<rparr>)))"

definition cm_GetService :: "manager \<Rightarrow> string \<Rightarrow> string \<Rightarrow> (nat option \<times> error_code \<times> manager) outcome" where
  "cm_GetService m cid iid =
     andThen (jl_begin (mClasses m)) (\<lambda>i.
     andThen (for_find jl_end it_deref it_incr (\<lambda>info. andThen (class_info_at m info) (\<lambda>x. Inr (comid_eq cid (ci_cid x))))
       (jl_fresh (mClasses m)) (mClasses m) i) (\<lambda>info.
     case info of None \<Rightarrow> Inr (None, kNoClass, m)
     | Some info \<Rightarrow> andThen (class_info_at m info) (\<lambda>x. com_QueryInterface m (ci_class x) iid)))"

definition cm_CreateInstance :: "manager \<Rightarrow> string \<Rightarrow> string \<Rightarrow> (nat option \<times> error_code \<times> manager) outcome" where
  "cm_CreateInstance m cid iid =
     andThen (cm_GetService m cid ''IFactory'') (\<lambda>(factory, result, m).
     if result = kNoError
     then andThen (factory_CreateInstance m factory cid iid) (\<lambda>(obj, result, m).
          andThen (com_Release m factory) (\<lambda>(_, m). Inr (obj, result, m)))
     else Inr (None, kNoFactory, m))"

section \<open>Libraries and modules\<close>

text \<open>
  A library that was opened: its handle, what its entry returns and its module, when they have the symbols. The functions of
  a module change the manager.
\<close>

record library =
  lib_handle :: nat
  lib_entry :: "error_code option"
  lib_module :: "nat option option"

record com_env =
  env_dlopen :: "string \<Rightarrow> library option"
  env_load :: "nat \<Rightarrow> manager \<Rightarrow> manager outcome"
  env_unload :: "nat \<Rightarrow> manager \<Rightarrow> manager outcome"

definition module_info_at :: "manager \<Rightarrow> nat \<Rightarrow> module_info outcome" where
  "module_info_at m i = (case cm_module_infos m i of None \<Rightarrow> Inl UndefinedBehaviour | Some x \<Rightarrow> Inr x)"

definition cm_LoadLibrary :: "com_env \<Rightarrow> manager \<Rightarrow> string \<Rightarrow> (error_code \<times> manager) outcome" where
  "cm_LoadLibrary env m name =
     (case env_dlopen env name of None \<Rightarrow> Inr (kLoadFailed, m)
      | Some lib \<Rightarrow>
        (case (lib_entry lib, lib_module lib) of
           (Some result, Some module) \<Rightarrow>
             if result = kNoError
             then andThen (com_AddRef m module) (\<lambda>(_, m).
                  andThen (env_load env (the module) m) (\<lambda>m.
                  let info = cm_next m;
                      m = m\<lparr>cm_module_infos := (cm_module_infos m)(info \<mapsto> \<lparr>mi_name = name, mi_module = module, mi_handle = lib_handle lib\<rparr>),
                        cm_next := info + 1\<rparr> in
                  andThen (jl_push_back (mModules m) info) (\<lambda>l. Inr (kNoError, m\<lparr>mModules := l\<rparr>))))
             else Inr (result, m)
         | _ \<Rightarrow> Inr (kLoadFailed, m)))"

definition cm_getModInfo :: "manager \<Rightarrow> string \<Rightarrow> nat option outcome" where
  "cm_getModInfo m name =
     andThen (jl_begin (mModules m)) (\<lambda>i.
     for_find jl_end it_deref it_incr (\<lambda>info. andThen (module_info_at m info) (\<lambda>x. Inr (name = mi_name x)))
       (jl_fresh (mModules m)) (mModules m) i)"

definition cm_GetModule :: "manager \<Rightarrow> string \<Rightarrow> nat option outcome" where
  "cm_GetModule m name =
     andThen (cm_getModInfo m name) (\<lambda>info.
     case info of None \<Rightarrow> Inr None | Some info \<Rightarrow> andThen (module_info_at m info) (\<lambda>x. Inr (mi_module x)))"

definition cm_RemoveModule :: "com_env \<Rightarrow> manager \<Rightarrow> string \<Rightarrow> (error_code \<times> manager) outcome" where
  "cm_RemoveModule env m name =
     andThen (cm_getModInfo m name) (\<lambda>info.
     case info of None \<Rightarrow> Inr (kNoClass, m)
     | Some info \<Rightarrow>
       andThen (module_info_at m info) (\<lambda>x.
       case mi_module x of None \<Rightarrow> Inr (kNoClass, m)
       | Some module \<Rightarrow>
         andThen (com_at m (Some module)) (\<lambda>_.
         andThen (env_unload env module m) (\<lambda>m.
         andThen (module_info_at m info) (\<lambda>x.
         andThen (com_Release m (mi_module x)) (\<lambda>(_, m).
         andThen (module_info_at m info) (\<lambda>x.
         Inr (kNoError, m\<lparr>cm_module_infos := (cm_module_infos m)(info \<mapsto> x\<lparr>mi_module := None\<rparr>)\<rparr>))))))))"

definition cm_UnloadLibrary :: "manager \<Rightarrow> string \<Rightarrow> (error_code \<times> manager) outcome" where
  "cm_UnloadLibrary m cid =
     andThen (jl_begin (mModules m)) (\<lambda>i.
     andThen (for_erase_first jl_end it_deref it_incr it_erase (\<lambda>m info.
       andThen (module_info_at m info) (\<lambda>x.
       andThen (case mi_module x of None \<Rightarrow> Inr False | Some p \<Rightarrow> andThen (com_at m (Some p)) (\<lambda>y. Inr (comid_eq cid (co_cid y)))) (\<lambda>eq.
       if eq
       then Inr (True, m\<lparr>cm_closed := cm_closed m @ [mi_handle x], cm_module_infos := (cm_module_infos m)(info := None)\<rparr>)
       else Inr (False, m)))) (jl_fresh (mModules m)) m (mModules m) i) (\<lambda>(found, m, l).
     Inr (if found then kNoError else kNoClass, m\<lparr>mModules := l\<rparr>)))"

section \<open>Construction and destruction\<close>

definition cm_new :: "(nat \<Rightarrow> com_object option) \<Rightarrow> nat \<Rightarrow> manager outcome" where
  "cm_new heap next =
     andThen jl_list (\<lambda>c. andThen jl_list (\<lambda>l.
     Inr \<lparr>cm_heap = heap, cm_next = next, cm_count = 1, mClasses = c, cm_class_infos = Map.empty, mModules = l, cm_module_infos = Map.empty,
          cm_closed = []\<rparr>))"

definition destroy_class :: "manager \<Rightarrow> nat \<Rightarrow> manager outcome" where
  "destroy_class m info =
     andThen (class_info_at m info) (\<lambda>x.
     andThen (com_Release m (ci_class x)) (\<lambda>(_, m). Inr (m\<lparr>cm_class_infos := (cm_class_infos m)(info := None)\<rparr>)))"

definition destroy_module :: "manager \<Rightarrow> nat \<Rightarrow> manager outcome" where
  "destroy_module m info =
     andThen (module_info_at m info) (\<lambda>x.
     andThen (com_Release m (mi_module x)) (\<lambda>(_, m). Inr (m\<lparr>cm_module_infos := (cm_module_infos m)(info := None)\<rparr>)))"

definition cm_destroy :: "manager \<Rightarrow> manager outcome" where
  "cm_destroy m =
     andThen (jl_begin (mClasses m)) (\<lambda>i.
     andThen (for_each jl_end it_deref it_incr destroy_class (jl_fresh (mClasses m)) m (mClasses m) i) (\<lambda>m.
     andThen (jl_clear (jl_fresh (mClasses m)) (mClasses m)) (\<lambda>l. let m = m\<lparr>mClasses := l\<rparr> in
     andThen (jl_begin (mModules m)) (\<lambda>i.
     andThen (for_each jl_end it_deref it_incr destroy_module (jl_fresh (mModules m)) m (mModules m) i) (\<lambda>m.
     andThen (jl_clear (jl_fresh (mModules m)) (mModules m)) (\<lambda>l. Inr (m\<lparr>mModules := l\<rparr>)))))))"

text \<open>
  The one manager of a process: the pointer to it, which may dangle, and whether it was made here.
  \<open>destroyComponentManager\<close> gives back the reference of the constructor.
\<close>

record process =
  pr_manager :: "manager option"
  pr_pointer :: bool
  gMaster :: bool

definition getComponentManager :: "(nat \<Rightarrow> com_object option) \<Rightarrow> nat \<Rightarrow> process \<Rightarrow> process outcome" where
  "getComponentManager heap next pr =
     (if \<not> pr_pointer pr then andThen (cm_new heap next) (\<lambda>m. Inr (pr\<lparr>gMaster := True, pr_manager := Some m, pr_pointer := True\<rparr>))
      else Inr pr)"

definition destroyComponentManager :: "process \<Rightarrow> process outcome" where
  "destroyComponentManager pr =
     (if pr_pointer pr
      then (case pr_manager pr of None \<Rightarrow> Inl UndefinedBehaviour
            | Some m \<Rightarrow>
              let c = cm_count m - 1; m = m\<lparr>cm_count := c\<rparr> in
              if c = 0 then andThen (cm_destroy m) (\<lambda>_. Inr (pr\<lparr>pr_manager := None\<rparr>)) else Inr (pr\<lparr>pr_manager := Some m\<rparr>))
      else Inr pr)"

section \<open>Counting references\<close>

text \<open>
  \<open>heap_ok m r\<close>: every object has as its count the number \<open>r\<close> of references to it, and lives exactly while there is one.
  What says that it is a factory has a factory, and its objects are none.
\<close>

definition cell_ok :: "nat \<Rightarrow> nat \<Rightarrow> nat \<Rightarrow> com_object option \<Rightarrow> bool" where
  "cell_ok next p n cell \<longleftrightarrow>
     (case cell of None \<Rightarrow> n = 0
      | Some x \<Rightarrow> co_count x = int n \<and> 0 < n \<and> p < next \<and>
          (query_chain (co_interfaces x) ''IFactory'' \<longrightarrow> (\<exists>c ifs. co_factory x = Some (c, ifs) \<and> \<not> query_chain ifs ''IFactory'')))"

definition heap_ok :: "manager \<Rightarrow> (nat \<Rightarrow> nat) \<Rightarrow> bool" where
  "heap_ok m r \<longleftrightarrow> (\<forall>p. cell_ok (cm_next m) p (r p) (cm_heap m p))"

lemma heap_okD:
  assumes "heap_ok m r" "0 < r p"
  obtains x where "cm_heap m p = Some x" "com_at m (Some p) = Inr x" "co_count x = int (r p)" "p < cm_next m"
    "query_chain (co_interfaces x) ''IFactory'' \<longrightarrow> (\<exists>c ifs. co_factory x = Some (c, ifs) \<and> \<not> query_chain ifs ''IFactory'')"
proof -
  have "cell_ok (cm_next m) p (r p) (cm_heap m p)" using assms(1) by (simp add: heap_ok_def)
  then show ?thesis using assms(2) that by (cases "cm_heap m p") (auto simp: com_at_def cell_ok_def)
qed

lemma heap_ok_update:
  "heap_ok m r \<Longrightarrow> cell_ok (cm_next m) p n cell \<Longrightarrow> heap_ok (m\<lparr>cm_heap := (cm_heap m)(p := cell)\<rparr>) (r(p := n))"
  by (simp add: heap_ok_def)

lemma heap_ok_mono: "heap_ok m r \<Longrightarrow> cm_heap m' = cm_heap m \<Longrightarrow> cm_next m \<le> cm_next m' \<Longrightarrow> heap_ok m' r"
  unfolding heap_ok_def cell_ok_def by (fastforce split: option.splits)

lemma AddRef_ok:
  assumes "heap_ok m r" "0 < r p"
  shows "\<exists>c x h. cm_heap m p = Some x \<and> com_AddRef m (Some p) = Inr (c, m\<lparr>cm_heap := h\<rparr>) \<and> h = (cm_heap m)(p \<mapsto> x\<lparr>co_count := co_count x + 1\<rparr>) \<and>
    heap_ok (m\<lparr>cm_heap := h\<rparr>) (r(p := r p + 1))"
proof -
  obtain x where x: "cm_heap m p = Some x" "com_at m (Some p) = Inr x" "co_count x = int (r p)" "p < cm_next m"
    "query_chain (co_interfaces x) ''IFactory'' \<longrightarrow> (\<exists>c ifs. co_factory x = Some (c, ifs) \<and> \<not> query_chain ifs ''IFactory'')"
    by (rule heap_okD [OF assms])
  then have "cell_ok (cm_next m) p (r p + 1) (Some (x\<lparr>co_count := co_count x + 1\<rparr>))" by (simp add: cell_ok_def)
  from heap_ok_update [OF assms(1) this] show ?thesis using x(1,2) by (simp add: com_AddRef_def Let_def)
qed

lemma Release_ok:
  assumes "heap_ok m r" "0 < r p"
  shows "\<exists>c h. com_Release m (Some p) = Inr (c, m\<lparr>cm_heap := h\<rparr>) \<and> heap_ok (m\<lparr>cm_heap := h\<rparr>) (r(p := r p - 1))"
proof -
  obtain x where x: "cm_heap m p = Some x" "com_at m (Some p) = Inr x" "co_count x = int (r p)" "p < cm_next m"
    "query_chain (co_interfaces x) ''IFactory'' \<longrightarrow> (\<exists>c ifs. co_factory x = Some (c, ifs) \<and> \<not> query_chain ifs ''IFactory'')"
    by (rule heap_okD [OF assms])
  let ?cell = "if co_count x - 1 = 0 then None else Some (x\<lparr>co_count := co_count x - 1\<rparr>)"
  have "cell_ok (cm_next m) p (r p - 1) ?cell" using x(3-5) assms(2) by (auto simp: cell_ok_def of_nat_diff)
  from heap_ok_update [OF assms(1) this] show ?thesis
    using x(2) by (intro exI [of _ "co_count x - 1"] exI [of _ "(cm_heap m)(p := ?cell)"]) (simp add: com_Release_def Let_def)
qed

text \<open>Counting changes nothing else of an object.\<close>

definition same_objects :: "(nat \<Rightarrow> com_object option) \<Rightarrow> (nat \<Rightarrow> com_object option) \<Rightarrow> bool" where
  "same_objects h h' \<longleftrightarrow> (\<forall>p. map_option (\<lambda>x. (co_interfaces x, co_factory x)) (h p) = map_option (\<lambda>x. (co_interfaces x, co_factory x)) (h' p))"

lemma QueryInterface_ok:
  fixes m r p iid
  assumes "heap_ok m r" "0 < r p"
  defines "found \<equiv> query_chain (co_interfaces (the (cm_heap m p))) iid"
  shows "\<exists>h. com_QueryInterface m (Some p) iid = Inr (if found then Some p else None, if found then kNoError else kNoInterface, m\<lparr>cm_heap := h\<rparr>) \<and>
    heap_ok (m\<lparr>cm_heap := h\<rparr>) (if found then r(p := r p + 1) else r) \<and> same_objects (cm_heap m) h"
proof -
  obtain c x h where a: "cm_heap m p = Some x" "com_AddRef m (Some p) = Inr (c, m\<lparr>cm_heap := h\<rparr>)"
    "h = (cm_heap m)(p \<mapsto> x\<lparr>co_count := co_count x + 1\<rparr>)" "heap_ok (m\<lparr>cm_heap := h\<rparr>) (r(p := r p + 1))"
    using AddRef_ok [OF assms(1,2)] by blast
  have "same_objects (cm_heap m) h" "same_objects (cm_heap m) (cm_heap m)" by (simp_all add: same_objects_def a(1,3))
  moreover have "m\<lparr>cm_heap := cm_heap m\<rparr> = m" by simp
  ultimately show ?thesis using assms(1) a(1,2,4) unfolding found_def
    by (cases "query_chain (co_interfaces x) iid") (auto simp: com_QueryInterface_def com_at_def intro: exI [of _ "cm_heap m"])
qed

text \<open>The references that the manager and its clients hold.\<close>

definition total_refs :: "(string \<times> nat) list \<Rightarrow> (nat \<Rightarrow> nat) \<Rightarrow> nat \<Rightarrow> nat" where
  "total_refs xs clients p = clients p + count_list (map snd xs) p"

definition infos_of :: "(nat \<Rightarrow> class_info option) \<Rightarrow> nat list \<Rightarrow> (string \<times> nat) list \<Rightarrow> bool" where
  "infos_of f is xs \<longleftrightarrow> distinct is \<and> list_all2 (\<lambda>i x. f i = Some \<lparr>ci_cid = fst x, ci_class = Some (snd x)\<rparr>) is xs"

lemma infos_of_other: "infos_of f is xs \<Longrightarrow> i \<notin> set is \<Longrightarrow> infos_of (f(i := v)) is xs"
  by (auto simp: infos_of_def elim!: list.rel_mono_strong)

lemma infos_of_Cons: "infos_of f (i # is) xs \<longleftrightarrow>
    (\<exists>x ys. xs = x # ys \<and> f i = Some \<lparr>ci_cid = fst x, ci_class = Some (snd x)\<rparr> \<and> i \<notin> set is \<and> infos_of f is ys)"
  by (auto simp: infos_of_def list_all2_Cons1)

definition services_of :: "manager \<Rightarrow> (string \<times> nat) list \<Rightarrow> (nat \<Rightarrow> nat) \<Rightarrow> bool" where
  "services_of m xs clients \<longleftrightarrow>
     (\<exists>is. jl_holds (mClasses m) is \<and> infos_of (cm_class_infos m) is xs \<and> (\<forall>i \<in> set is. i < cm_next m)) \<and> heap_ok m (total_refs xs clients) \<and>
     jl_holds (mModules m) []"

lemma total_refs_Cons: "total_refs (x # xs) clients p = total_refs xs clients p + (if snd x = p then 1 else 0)"
  by (simp add: total_refs_def)

lemma total_refs_member: "x \<in> set xs \<Longrightarrow> 0 < total_refs xs clients (snd x)"
  by (induction xs) (auto simp: total_refs_def)

fun remove_service :: "string \<Rightarrow> (string \<times> nat) list \<Rightarrow> (string \<times> nat) list" where
  "remove_service cid [] = []"
| "remove_service cid (x # xs) = (if comid_eq cid (fst x) then xs else x # remove_service cid xs)"

lemma AddService_ok:
  assumes "services_of m xs clients" "0 < clients p"
  shows "\<exists>m'. cm_AddService m cid (Some p) = Inr (kNoError, m') \<and> services_of m' (xs @ [(cid, p)]) clients"
proof -
  obtain "is" where i: "jl_holds (mClasses m) is" "infos_of (cm_class_infos m) is xs" "\<forall>i \<in> set is. i < cm_next m"
    and h: "heap_ok m (total_refs xs clients)" "jl_holds (mModules m) []"
    using assms(1) by (auto simp: services_of_def)
  let ?m = "m\<lparr>cm_class_infos := (cm_class_infos m)(cm_next m \<mapsto> \<lparr>ci_cid = cid, ci_class = Some p\<rparr>), cm_next := cm_next m + 1\<rparr>"
  have "heap_ok ?m (total_refs xs clients)" using heap_ok_mono [OF h(1), of ?m] by simp
  moreover have "0 < total_refs xs clients p" using assms(2) by (simp add: total_refs_def)
  ultimately obtain c heap where a: "com_AddRef ?m (Some p) = Inr (c, ?m\<lparr>cm_heap := heap\<rparr>)"
    "heap_ok (?m\<lparr>cm_heap := heap\<rparr>) ((total_refs xs clients)(p := total_refs xs clients p + 1))"
    using AddRef_ok by blast
  have r: "(total_refs xs clients)(p := total_refs xs clients p + 1) = total_refs (xs @ [(cid, p)]) clients"
    by (auto simp: total_refs_def fun_eq_iff)
  obtain l where l: "jl_push_back (mClasses m) (cm_next m) = Inr l" "jl_holds l (is @ [cm_next m])"
    using jl_push_back_holds [OF i(1)] by blast
  have "infos_of ((cm_class_infos m)(cm_next m \<mapsto> \<lparr>ci_cid = cid, ci_class = Some p\<rparr>)) (is @ [cm_next m]) (xs @ [(cid, p)])"
    using infos_of_other [OF i(2), of "cm_next m"] i(3) by (auto simp: infos_of_def intro!: list_all2_appendI)
  moreover have "heap_ok (?m\<lparr>cm_heap := heap, mClasses := l\<rparr>) (total_refs (xs @ [(cid, p)]) clients)"
    using a(2) unfolding r by (rule heap_ok_mono) simp_all
  moreover have "\<forall>i \<in> set (is @ [cm_next m]). i < cm_next m + 1" using i(3) by auto
  ultimately have "services_of (?m\<lparr>cm_heap := heap, mClasses := l\<rparr>) (xs @ [(cid, p)]) clients"
    using l(2) h(2) unfolding services_of_def by (intro conjI exI [of _ "is @ [cm_next m]"]) simp_all
  then show ?thesis using a(1) l(1) by (simp add: cm_AddService_def Let_def)
qed

text \<open>The loop that removes a service, on plain lists.\<close>

definition service_at :: "string \<Rightarrow> (string \<times> nat) list \<Rightarrow> (string \<times> nat) option" where
  "service_at cid xs = find (\<lambda>x. comid_eq cid (fst x)) xs"

lemma remove_visit_first:
  assumes "heap_ok m r" "infos_of (cm_class_infos m) is xs" "\<forall>x \<in> set xs. 0 < r (snd x)"
  shows "\<exists>m' is'. visit_first (remove_visit cid) m is = Inr (service_at cid xs \<noteq> None, m', is') \<and>
    infos_of (cm_class_infos m') is' (remove_service cid xs) \<and> set is' \<subseteq> set is \<and>
    heap_ok m' (case service_at cid xs of None \<Rightarrow> r | Some x \<Rightarrow> r(snd x := r (snd x) - 1)) \<and>
    mClasses m' = mClasses m \<and> mModules m' = mModules m \<and> cm_next m' = cm_next m \<and> (\<forall>i. i \<notin> set is \<longrightarrow> cm_class_infos m' i = cm_class_infos m i)"
  using assms(2,3)
proof (induction "is" arbitrary: xs)
  case Nil
  then show ?case using assms(1) by (auto simp: infos_of_def service_at_def)
next
  case (Cons i "is")
  obtain x ys where x: "xs = x # ys" "cm_class_infos m i = Some \<lparr>ci_cid = fst x, ci_class = Some (snd x)\<rparr>" "i \<notin> set is"
    "infos_of (cm_class_infos m) is ys"
    using Cons.prems(1) by (auto simp: infos_of_Cons)
  show ?case
  proof (cases "comid_eq cid (fst x)")
    case True
    obtain c h where "com_Release m (Some (snd x)) = Inr (c, m\<lparr>cm_heap := h\<rparr>)" "heap_ok (m\<lparr>cm_heap := h\<rparr>) (r(snd x := r (snd x) - 1))"
      using Release_ok [OF assms(1), of "snd x"] Cons.prems(2) x(1) by auto
    moreover from this(2) have "heap_ok (m\<lparr>cm_heap := h, cm_class_infos := (cm_class_infos m)(i := None)\<rparr>) (r(snd x := r (snd x) - 1))"
      by (rule heap_ok_mono) simp_all
    ultimately have v: "visit_first (remove_visit cid) m (i # is) = Inr (True, m\<lparr>cm_heap := h, cm_class_infos := (cm_class_infos m)(i := None)\<rparr>, is)"
      and ok: "heap_ok (m\<lparr>cm_heap := h, cm_class_infos := (cm_class_infos m)(i := None)\<rparr>) (r(snd x := r (snd x) - 1))"
      using True x(2) by (simp_all add: remove_visit_def class_info_at_def)
    have "service_at cid xs = Some x" "remove_service cid xs = ys" using True x(1) by (simp_all add: service_at_def)
    then show ?thesis
      using v ok infos_of_other [OF x(4,3), of None]
      by (intro exI [of _ "m\<lparr>cm_heap := h, cm_class_infos := (cm_class_infos m)(i := None)\<rparr>"] exI [of _ "is"] conjI)
        (simp_all del: fun_upd_apply visit_first.simps, auto)
  next
    case False
    obtain m' is' where m': "visit_first (remove_visit cid) m is = Inr (service_at cid ys \<noteq> None, m', is')"
      "infos_of (cm_class_infos m') is' (remove_service cid ys)" "set is' \<subseteq> set is"
      "heap_ok m' (case service_at cid ys of None \<Rightarrow> r | Some x \<Rightarrow> r(snd x := r (snd x) - 1))"
      "mClasses m' = mClasses m" "mModules m' = mModules m" "cm_next m' = cm_next m" "\<forall>i. i \<notin> set is \<longrightarrow> cm_class_infos m' i = cm_class_infos m i"
      using Cons.IH [OF x(4)] Cons.prems(2) x(1) by auto
    have "remove_visit cid m i = Inr (False, m)" using False x(2) by (simp add: remove_visit_def class_info_at_def)
    moreover have "service_at cid xs = service_at cid ys" using False x(1) by (simp add: service_at_def)
    ultimately show ?thesis using m' False x(1-3) by (auto simp: infos_of_Cons subset_iff)
  qed
qed

lemma remove_refs:
  "service_at cid xs = Some x \<Longrightarrow>
   (total_refs xs clients)(snd x := total_refs xs clients (snd x) - 1) = total_refs (remove_service cid xs) clients"
proof (induction xs)
  case (Cons y ys)
  show ?case
  proof (cases "comid_eq cid (fst y)")
    case True
    then show ?thesis using Cons.prems by (auto simp: service_at_def total_refs_def fun_eq_iff)
  next
    case False
    then have s: "service_at cid ys = Some x" using Cons.prems by (simp add: service_at_def)
    then have "x \<in> set ys" by (auto simp: service_at_def find_Some_iff)
    note pos = total_refs_member [OF this, of clients]
    have "total_refs (remove_service cid ys) clients q = ((total_refs ys clients)(snd x := total_refs ys clients (snd x) - 1)) q" for q
      using fun_cong [OF Cons.IH [OF s], of q] by (rule sym)
    then show ?thesis using False pos by (auto simp: total_refs_Cons fun_eq_iff)
  qed
qed (simp add: service_at_def)

lemma remove_service_none: "service_at cid xs = None \<Longrightarrow> remove_service cid xs = xs"
  by (induction xs) (auto simp: service_at_def split: if_splits)

text \<open>The same state with the modules \<open>ms\<close> in the list.\<close>

definition services_in :: "nat list \<Rightarrow> manager \<Rightarrow> (string \<times> nat) list \<Rightarrow> (nat \<Rightarrow> nat) \<Rightarrow> bool" where
  "services_in ms m xs clients \<longleftrightarrow>
     (\<exists>is. jl_holds (mClasses m) is \<and> infos_of (cm_class_infos m) is xs \<and> (\<forall>i \<in> set is. i < cm_next m)) \<and> heap_ok m (total_refs xs clients) \<and>
     jl_holds (mModules m) ms"

lemma services_of_in: "services_of m xs clients = services_in [] m xs clients"
  by (simp add: services_of_def services_in_def)

lemma remove_visit_modules:
  "visit_first (remove_visit cid) m is = Inr (b, m', is') \<Longrightarrow> cm_module_infos m' = cm_module_infos m"
proof (induction "is" arbitrary: is')
  case (Cons i "is")
  obtain f m1 where f: "remove_visit cid m i = Inr (f, m1)" using Cons.prems by (auto simp: andThen_Inr_iff)
  have same: "cm_module_infos m1 = cm_module_infos m" "\<not> f \<Longrightarrow> m1 = m"
    using f by (auto simp: remove_visit_def com_Release_def andThen_Inr_iff Let_def split: if_splits)
  show ?case using Cons f same by (cases f) (auto simp: andThen_Inr_iff)
qed simp

lemma RemoveService_in:
  assumes "services_in ms m xs clients"
  shows "\<exists>m'. cm_RemoveService m cid = Inr (if service_at cid xs = None then kNoClass else kNoError, m') \<and>
    services_in ms m' (remove_service cid xs) clients \<and> cm_module_infos m' = cm_module_infos m"
proof -
  obtain "is" where i: "jl_holds (mClasses m) is" "infos_of (cm_class_infos m) is xs" "\<forall>i \<in> set is. i < cm_next m"
    and h: "heap_ok m (total_refs xs clients)" "jl_holds (mModules m) ms"
    using assms by (auto simp: services_in_def)
  obtain w where w: "jl_seq (mClasses m) w is" using i(1) by (auto simp: jl_holds_def)
  obtain m' is' where v: "visit_first (remove_visit cid) m is = Inr (service_at cid xs \<noteq> None, m', is')"
    "infos_of (cm_class_infos m') is' (remove_service cid xs)" "set is' \<subseteq> set is"
    "heap_ok m' (case service_at cid xs of None \<Rightarrow> total_refs xs clients | Some x \<Rightarrow> (total_refs xs clients)(snd x := total_refs xs clients (snd x) - 1))"
    "mClasses m' = mClasses m" "mModules m' = mModules m" "cm_next m' = cm_next m"
    using remove_visit_first [OF h(1) i(2)] total_refs_member by blast
  obtain l' w' where l: "andThen (jl_begin (mClasses m)) (for_erase_first jl_end it_deref it_incr it_erase (remove_visit cid)
      (jl_fresh (mClasses m)) m (mClasses m)) = Inr (service_at cid xs \<noteq> None, m', l')" "jl_seq l' w' is'"
    using jl.for_erase_first_begin [OF w _ v(1), of "jl_fresh (mClasses m)"] jl_fuel [OF i(1)] by auto
  have "heap_ok m' (total_refs (remove_service cid xs) clients)"
    using v(4) remove_refs [of cid xs _ clients] remove_service_none [of cid xs] by (cases "service_at cid xs") auto
  then have "heap_ok (m'\<lparr>mClasses := l'\<rparr>) (total_refs (remove_service cid xs) clients)" by (rule heap_ok_mono) simp_all
  moreover have "jl_holds l' is'" using l(2) by (auto simp: jl_holds_def)
  ultimately have "services_in ms (m'\<lparr>mClasses := l'\<rparr>) (remove_service cid xs) clients"
    using v(2,3,6,7) i(3) h(2) by (auto simp: services_in_def)
  then show ?thesis using l(1) remove_visit_modules [OF v(1)]
    by (intro exI [of _ "m'\<lparr>mClasses := l'\<rparr>"]) (auto simp: cm_RemoveService_def andThen_Inr_iff)
qed

lemma RemoveService_ok:
  assumes "services_of m xs clients"
  shows "\<exists>m'. cm_RemoveService m cid = Inr (if service_at cid xs = None then kNoClass else kNoError, m') \<and>
    services_of m' (remove_service cid xs) clients"
  using RemoveService_in [of "[]" m xs clients cid] assms by (auto simp: services_of_in)

text \<open>Finding a service and making an object.\<close>

definition give :: "nat option \<Rightarrow> (nat \<Rightarrow> nat) \<Rightarrow> nat \<Rightarrow> nat" where
  "give obj r = (case obj of None \<Rightarrow> r | Some p \<Rightarrow> r(p := r p + 1))"

lemma give_simps [simp]: "give None r = r" "give (Some p) r = r(p := r p + 1)"
  by (simp_all add: give_def)

lemma total_refs_give: "total_refs xs (give obj clients) = give obj (total_refs xs clients)"
  by (cases obj) (auto simp: total_refs_def fun_eq_iff)

lemma infos_find:
  "infos_of f is xs \<Longrightarrow>
   case service_at cid xs of
     None \<Rightarrow> find (\<lambda>i. comid_eq cid (ci_cid (the (f i)))) is = None
   | Some x \<Rightarrow> \<exists>i. find (\<lambda>i. comid_eq cid (ci_cid (the (f i)))) is = Some i \<and> f i = Some \<lparr>ci_cid = fst x, ci_class = Some (snd x)\<rparr>"
proof (induction "is" arbitrary: xs)
  case (Cons i "is")
  then obtain x ys where x: "xs = x # ys" "f i = Some \<lparr>ci_cid = fst x, ci_class = Some (snd x)\<rparr>" "infos_of f is ys"
    by (auto simp: infos_of_Cons)
  then show ?case using Cons.IH [OF x(3)] by (cases "comid_eq cid (fst x)") (auto simp: service_at_def split: option.splits)
qed (simp add: infos_of_def service_at_def)

lemma services_ofI:
  "jl_holds (mClasses m) is \<Longrightarrow> infos_of (cm_class_infos m) is xs \<Longrightarrow> \<forall>i \<in> set is. i < cm_next m \<Longrightarrow> heap_ok m (total_refs xs clients) \<Longrightarrow>
   jl_holds (mModules m) [] \<Longrightarrow> services_of m xs clients"
  by (auto simp: services_of_def)

text \<open>What a client gets for an identifier.\<close>

definition service_result :: "manager \<Rightarrow> (string \<times> nat) list \<Rightarrow> string \<Rightarrow> string \<Rightarrow> nat option \<times> error_code" where
  "service_result m xs cid iid =
     (case service_at cid xs of None \<Rightarrow> (None, kNoClass)
      | Some x \<Rightarrow> if query_chain (co_interfaces (the (cm_heap m (snd x)))) iid then (Some (snd x), kNoError) else (None, kNoInterface))"

lemma GetService_ok:
  assumes "services_of m xs clients"
  shows "\<exists>h. cm_GetService m cid iid = Inr (fst (service_result m xs cid iid), snd (service_result m xs cid iid), m\<lparr>cm_heap := h\<rparr>) \<and>
    services_of (m\<lparr>cm_heap := h\<rparr>) xs (give (fst (service_result m xs cid iid)) clients) \<and> same_objects (cm_heap m) h"
proof -
  obtain "is" where i: "jl_holds (mClasses m) is" "infos_of (cm_class_infos m) is xs" "\<forall>i \<in> set is. i < cm_next m"
    and h: "heap_ok m (total_refs xs clients)" "jl_holds (mModules m) []"
    using assms by (auto simp: services_of_def)
  obtain w where w: "jl_seq (mClasses m) w is" using i(1) by (auto simp: jl_holds_def)
  let ?P = "\<lambda>i. comid_eq cid (ci_cid (the (cm_class_infos m i)))"
  let ?test = "\<lambda>info. andThen (class_info_at m info) (\<lambda>x. Inr (comid_eq cid (ci_cid x)))"
  have "\<forall>x \<in> set is. ?test x = Inr (?P x)"
    using i(2) by (auto simp: infos_of_def class_info_at_def list_all2_conv_all_nth in_set_conv_nth)
  from jl.for_find_begin [OF w _ this, of "jl_fresh (mClasses m)"] jl_fuel [OF i(1)]
  have f: "andThen (jl_begin (mClasses m)) (for_find jl_end it_deref it_incr ?test (jl_fresh (mClasses m)) (mClasses m)) = Inr (find ?P is)" by simp
  have g: "cm_GetService m cid iid = (case find ?P is of None \<Rightarrow> Inr (None, kNoClass, m)
     | Some info \<Rightarrow> andThen (class_info_at m info) (\<lambda>x. com_QueryInterface m (ci_class x) iid))"
    unfolding cm_GetService_def andThen_assoc [symmetric] f by simp
  have same: "m\<lparr>cm_heap := cm_heap m\<rparr> = m" by simp
  show ?thesis
  proof (cases "service_at cid xs")
    case None
    then have "cm_GetService m cid iid = Inr (None, kNoClass, m)" using infos_find [OF i(2), of cid] g by simp
    then show ?thesis using None assms by (intro exI [of _ "cm_heap m"]) (simp add: service_result_def same_objects_def)
  next
    case (Some x)
    then obtain info where info: "find ?P is = Some info" "cm_class_infos m info = Some \<lparr>ci_cid = fst x, ci_class = Some (snd x)\<rparr>"
      using infos_find [OF i(2), of cid] by auto
    have "x \<in> set xs" using Some by (auto simp: service_at_def find_Some_iff)
    note pos = total_refs_member [OF this, of clients]
    obtain hp where q: "com_QueryInterface m (Some (snd x)) iid = Inr (fst (service_result m xs cid iid), snd (service_result m xs cid iid), m\<lparr>cm_heap := hp\<rparr>)"
      "heap_ok (m\<lparr>cm_heap := hp\<rparr>) (give (fst (service_result m xs cid iid)) (total_refs xs clients))" "same_objects (cm_heap m) hp"
      using QueryInterface_ok [OF h(1) pos, of iid] by (auto simp: service_result_def Some split: if_splits)
    have "services_of (m\<lparr>cm_heap := hp\<rparr>) xs (give (fst (service_result m xs cid iid)) clients)"
      using i h(2) q(2) by (intro services_ofI [of _ "is"]) (simp_all add: total_refs_give)
    then show ?thesis using g info q(1,3) by (auto simp: class_info_at_def)
  qed
qed

lemma factory_ok:
  assumes "heap_ok m r" "0 < r f" "cm_heap m f = Some x" "co_factory x = Some (tcid, ifs)" "\<not> query_chain ifs ''IFactory''"
  shows "\<exists>obj err h n. factory_CreateInstance m (Some f) cid iid = Inr (obj, err, m\<lparr>cm_heap := h, cm_next := n\<rparr>) \<and> cm_next m \<le> n \<and>
    heap_ok (m\<lparr>cm_heap := h, cm_next := n\<rparr>) (give obj r) \<and>
    (obj, err) = (if comid_eq cid tcid then if query_chain ifs iid then (Some (cm_next m), kNoError) else (None, kNoInterface) else (None, kNoClass))"
proof (cases "comid_eq cid tcid")
  case False
  have "m\<lparr>cm_heap := cm_heap m, cm_next := cm_next m\<rparr> = m" by simp
  then show ?thesis using False assms
    by (intro exI [of _ None] exI [of _ kNoClass] exI [of _ "cm_heap m"] exI [of _ "cm_next m"]) (simp add: factory_CreateInstance_def com_at_def)
next
  case True
  let ?p = "cm_next m"
  let ?m0 = "m\<lparr>cm_heap := (cm_heap m)(?p \<mapsto> \<lparr>co_count = 0, co_interfaces = ifs, co_factory = None, co_cid = []\<rparr>), cm_next := ?p + 1\<rparr>"
  let ?m1 = "m\<lparr>cm_heap := (cm_heap m)(?p \<mapsto> \<lparr>co_count = 1, co_interfaces = ifs, co_factory = None, co_cid = []\<rparr>), cm_next := ?p + 1\<rparr>"
  have "cell_ok ?p ?p (r ?p) (cm_heap m ?p)" using assms(1) by (simp add: heap_ok_def)
  then have fresh: "r ?p = 0" by (cases "cm_heap m ?p") (auto simp: cell_ok_def)
  have a: "com_AddRef ?m0 (Some ?p) = Inr (1, ?m1)" by (simp add: com_AddRef_def com_at_def Let_def)
  have "heap_ok (m\<lparr>cm_next := ?p + 1\<rparr>) r" by (rule heap_ok_mono [OF assms(1)]) simp_all
  from heap_ok_update [OF this, of ?p 1 "Some \<lparr>co_count = 1, co_interfaces = ifs, co_factory = None, co_cid = []\<rparr>"]
  have "heap_ok (m\<lparr>cm_next := ?p + 1, cm_heap := cm_heap ?m1\<rparr>) (r(?p := 1))" using assms(5) by (simp add: cell_ok_def)
  then have ok: "heap_ok ?m1 (r(?p := 1))" by (rule heap_ok_mono) simp_all
  let ?r1 = "r(?p := 1)"
  have i: "co_interfaces (the (cm_heap ?m1 ?p)) = ifs" and p1: "0 < ?r1 ?p" by simp_all
  let ?r2 = "if query_chain ifs iid then ?r1(?p := ?r1 ?p + 1) else ?r1"
  obtain h where q: "com_QueryInterface ?m1 (Some ?p) iid =
      Inr (if query_chain ifs iid then Some ?p else None, if query_chain ifs iid then kNoError else kNoInterface, ?m1\<lparr>cm_heap := h\<rparr>)"
    "heap_ok (?m1\<lparr>cm_heap := h\<rparr>) ?r2"
    using QueryInterface_ok [OF ok p1, of iid, unfolded i] by blast
  have pos: "0 < ?r2 ?p" by simp
  obtain c h' where rl: "com_Release (?m1\<lparr>cm_heap := h\<rparr>) (Some ?p) = Inr (c, ?m1\<lparr>cm_heap := h\<rparr>\<lparr>cm_heap := h'\<rparr>)"
    "heap_ok (?m1\<lparr>cm_heap := h\<rparr>\<lparr>cm_heap := h'\<rparr>) (?r2(?p := ?r2 ?p - 1))"
    using Release_ok [OF q(2) pos] by blast
  have "?r2(?p := ?r2 ?p - 1) = give (if query_chain ifs iid then Some ?p else None) r" using fresh by (auto simp: fun_eq_iff)
  with rl(2) have "heap_ok (?m1\<lparr>cm_heap := h\<rparr>\<lparr>cm_heap := h'\<rparr>) (give (if query_chain ifs iid then Some ?p else None) r)" by simp
  then have end_ok: "heap_ok (m\<lparr>cm_heap := h', cm_next := ?p + 1\<rparr>) (give (if query_chain ifs iid then Some ?p else None) r)"
    by (rule heap_ok_mono) simp_all
  have upd: "?m1\<lparr>cm_heap := h\<rparr>\<lparr>cm_heap := h'\<rparr> = m\<lparr>cm_heap := h', cm_next := ?p + 1\<rparr>" by (cases m) simp
  have "factory_CreateInstance m (Some f) cid iid =
      Inr (if query_chain ifs iid then Some ?p else None, if query_chain ifs iid then kNoError else kNoInterface, m\<lparr>cm_heap := h', cm_next := ?p + 1\<rparr>)"
    using True assms(3,4) a q(1) rl(1) [unfolded upd] by (simp add: factory_CreateInstance_def com_at_def com_new_def)
  then show ?thesis using end_ok True
    by (intro exI [of _ "if query_chain ifs iid then Some ?p else None"] exI [of _ "if query_chain ifs iid then kNoError else kNoInterface"]
      exI [of _ h'] exI [of _ "?p + 1"]) auto
qed

text \<open>What \<open>CreateInstance\<close> gives: the factory is found as a service, and makes a new object when it is asked for its class.\<close>

definition create_result :: "manager \<Rightarrow> (string \<times> nat) list \<Rightarrow> string \<Rightarrow> string \<Rightarrow> nat option \<times> error_code" where
  "create_result m xs cid iid =
     (case service_result m xs cid ''IFactory'' of
        (Some f, _) \<Rightarrow>
          (case co_factory (the (cm_heap m f)) of
             Some (tcid, ifs) \<Rightarrow> if comid_eq cid tcid then if query_chain ifs iid then (Some (cm_next m), kNoError) else (None, kNoInterface) else (None, kNoClass)
           | None \<Rightarrow> (None, kNoFactory))
      | _ \<Rightarrow> (None, kNoFactory))"

lemma CreateInstance_ok:
  assumes "services_of m xs clients"
  shows "\<exists>m'. cm_CreateInstance m cid iid = Inr (fst (create_result m xs cid iid), snd (create_result m xs cid iid), m') \<and>
    services_of m' xs (give (fst (create_result m xs cid iid)) clients)"
proof -
  obtain h where g: "cm_GetService m cid ''IFactory'' = Inr (fst (service_result m xs cid ''IFactory''), snd (service_result m xs cid ''IFactory''), m\<lparr>cm_heap := h\<rparr>)"
    "services_of (m\<lparr>cm_heap := h\<rparr>) xs (give (fst (service_result m xs cid ''IFactory'')) clients)" "same_objects (cm_heap m) h"
    using GetService_ok [OF assms] by blast
  show ?thesis
  proof (cases "fst (service_result m xs cid ''IFactory'')")
    case None
    then have "snd (service_result m xs cid ''IFactory'') \<noteq> kNoError" "create_result m xs cid iid = (None, kNoFactory)"
      by (auto simp: create_result_def service_result_def split: option.splits if_splits prod.splits)
    then show ?thesis using g None by (simp add: cm_CreateInstance_def)
  next
    case (Some f)
    then obtain c where c: "service_at cid xs = Some (c, f)" "query_chain (co_interfaces (the (cm_heap m f))) ''IFactory''"
      "service_result m xs cid ''IFactory'' = (Some f, kNoError)"
      by (auto simp: service_result_def split: option.splits if_splits)
    let ?m = "m\<lparr>cm_heap := h\<rparr>" and ?r = "total_refs xs (give (Some f) clients)"
    have ok: "heap_ok ?m ?r" using g(2) c(3) by (simp add: services_of_def)
    have pos: "0 < ?r f" by (simp add: total_refs_def)
    obtain x where x: "cm_heap ?m f = Some x" "query_chain (co_interfaces x) ''IFactory'' \<longrightarrow> (\<exists>c ifs. co_factory x = Some (c, ifs) \<and> \<not> query_chain ifs ''IFactory'')"
      by (rule heap_okD [OF ok pos])
    have "map_option (\<lambda>x. (co_interfaces x, co_factory x)) (cm_heap m f) = Some (co_interfaces x, co_factory x)"
      using g(3) x(1) by (simp add: same_objects_def)
    then have old: "co_interfaces (the (cm_heap m f)) = co_interfaces x" "co_factory (the (cm_heap m f)) = co_factory x" by auto
    obtain tcid ifs where t: "co_factory x = Some (tcid, ifs)" "\<not> query_chain ifs ''IFactory''" using x(2) c(2) old(1) by auto
    obtain obj err h2 n where n: "factory_CreateInstance ?m (Some f) cid iid = Inr (obj, err, ?m\<lparr>cm_heap := h2, cm_next := n\<rparr>)" "cm_next ?m \<le> n"
      "heap_ok (?m\<lparr>cm_heap := h2, cm_next := n\<rparr>) (give obj ?r)"
      "(obj, err) = (if comid_eq cid tcid then if query_chain ifs iid then (Some (cm_next ?m), kNoError) else (None, kNoInterface) else (None, kNoClass))"
      using factory_ok [OF ok pos x(1) t, of cid iid] by blast
    then have res: "create_result m xs cid iid = (obj, err)" by (simp add: create_result_def c(3) old(2) t(1))
    have held: "0 < give obj ?r f" using pos by (cases obj) auto
    let ?m2 = "?m\<lparr>cm_heap := h2, cm_next := n\<rparr>"
    from Release_ok [OF n(3) held] obtain k h3 where rl: "com_Release ?m2 (Some f) = Inr (k, ?m2\<lparr>cm_heap := h3\<rparr>)"
      "heap_ok (?m2\<lparr>cm_heap := h3\<rparr>) ((give obj ?r)(f := give obj ?r f - 1))" by blast
    have "(give obj ?r)(f := give obj ?r f - 1) = total_refs xs (give obj clients)"
      by (cases obj) (auto simp: total_refs_def fun_eq_iff)
    then have ok3: "heap_ok (?m2\<lparr>cm_heap := h3\<rparr>) (total_refs xs (give obj clients))" using rl(2) by simp
    obtain "is" where i: "jl_holds (mClasses m) is" "infos_of (cm_class_infos m) is xs" "\<forall>i \<in> set is. i < cm_next m" "jl_holds (mModules m) []"
      using assms by (auto simp: services_of_def)
    have "services_of (?m2\<lparr>cm_heap := h3\<rparr>) xs (give obj clients)"
      using i n(2) ok3 by (intro services_ofI [of _ "is"]) auto
    then show ?thesis using g(1) c(3) n(1) rl(1) by (auto simp: cm_CreateInstance_def res)
  qed
qed

section \<open>What the manager promises\<close>

text \<open>
  Calls of clients: \<open>DropRef\<close> is the release of a reference that a client was given. The state is the manager and, to count,
  the references that clients hold. A client may only pass and give back references that it holds.
\<close>

datatype svc_op = AddSvc string nat | RemoveSvc string | GetSvc string string | CreateInst string string | DropRef nat

fun svc_step :: "svc_op \<Rightarrow> manager \<times> (nat \<Rightarrow> nat) \<Rightarrow> (manager \<times> (nat \<Rightarrow> nat)) outcome" where
  "svc_step (AddSvc cid p) (m, clients) = andThen (cm_AddService m cid (Some p)) (\<lambda>(_, m). Inr (m, clients))"
| "svc_step (RemoveSvc cid) (m, clients) = andThen (cm_RemoveService m cid) (\<lambda>(_, m). Inr (m, clients))"
| "svc_step (GetSvc cid iid) (m, clients) = andThen (cm_GetService m cid iid) (\<lambda>(obj, _, m). Inr (m, give obj clients))"
| "svc_step (CreateInst cid iid) (m, clients) = andThen (cm_CreateInstance m cid iid) (\<lambda>(obj, _, m). Inr (m, give obj clients))"
| "svc_step (DropRef p) (m, clients) = andThen (com_Release m (Some p)) (\<lambda>(_, m). Inr (m, clients(p := clients p - 1)))"

fun svc_run :: "svc_op list \<Rightarrow> manager \<times> (nat \<Rightarrow> nat) \<Rightarrow> (manager \<times> (nat \<Rightarrow> nat)) outcome" where
  "svc_run [] s = Inr s"
| "svc_run (op # ops) s = andThen (svc_step op s) (svc_run ops)"

fun svc_holds :: "svc_op \<Rightarrow> (nat \<Rightarrow> nat) \<Rightarrow> bool" where
  "svc_holds (AddSvc cid p) clients = (0 < clients p)"
| "svc_holds (DropRef p) clients = (0 < clients p)"
| "svc_holds _ clients = True"

fun svc_legal :: "svc_op list \<Rightarrow> manager \<times> (nat \<Rightarrow> nat) \<Rightarrow> bool" where
  "svc_legal [] s = True"
| "svc_legal (op # ops) s =
     (svc_holds op (snd s) \<and> (case svc_step op s of Inl _ \<Rightarrow> True | Inr s \<Rightarrow> svc_legal ops s))"

fun svc_spec :: "svc_op list \<Rightarrow> (string \<times> nat) list \<Rightarrow> (string \<times> nat) list" where
  "svc_spec [] xs = xs"
| "svc_spec (AddSvc cid p # ops) xs = svc_spec ops (xs @ [(cid, p)])"
| "svc_spec (RemoveSvc cid # ops) xs = svc_spec ops (remove_service cid xs)"
| "svc_spec (_ # ops) xs = svc_spec ops xs"

lemma Drop_ok:
  assumes "services_of m xs clients" "0 < clients p"
  shows "\<exists>c m'. com_Release m (Some p) = Inr (c, m') \<and> services_of m' xs (clients(p := clients p - 1))"
proof -
  obtain "is" where i: "jl_holds (mClasses m) is" "infos_of (cm_class_infos m) is xs" "\<forall>i \<in> set is. i < cm_next m" "jl_holds (mModules m) []"
    and ok: "heap_ok m (total_refs xs clients)"
    using assms(1) by (auto simp: services_of_def)
  have pos: "0 < total_refs xs clients p" using assms(2) by (simp add: total_refs_def)
  obtain c h where r: "com_Release m (Some p) = Inr (c, m\<lparr>cm_heap := h\<rparr>)"
    "heap_ok (m\<lparr>cm_heap := h\<rparr>) ((total_refs xs clients)(p := total_refs xs clients p - 1))"
    using Release_ok [OF ok pos] by blast
  have "(total_refs xs clients)(p := total_refs xs clients p - 1) = total_refs xs (clients(p := clients p - 1))"
    using assms(2) by (auto simp: total_refs_def fun_eq_iff)
  then have "heap_ok (m\<lparr>cm_heap := h\<rparr>) (total_refs xs (clients(p := clients p - 1)))" using r(2) by simp
  then have "services_of (m\<lparr>cm_heap := h\<rparr>) xs (clients(p := clients p - 1))" using i by (intro services_ofI [of _ "is"]) simp_all
  then show ?thesis using r(1) by blast
qed

lemma svc_run_ok:
  "services_of m xs clients \<Longrightarrow> svc_legal ops (m, clients) \<Longrightarrow>
   \<exists>m' clients'. svc_run ops (m, clients) = Inr (m', clients') \<and> services_of m' (svc_spec ops xs) clients'"
proof (induction ops arbitrary: m xs clients)
  case (Cons op ops)
  show ?case
  proof (cases op)
    case (AddSvc cid p)
    then show ?thesis using AddService_ok [OF Cons.prems(1), of p cid] Cons by fastforce
  next
    case (RemoveSvc cid)
    then show ?thesis using RemoveService_ok [OF Cons.prems(1), of cid] Cons by fastforce
  next
    case (GetSvc cid iid)
    then show ?thesis using GetService_ok [OF Cons.prems(1), of cid iid] Cons by fastforce
  next
    case (CreateInst cid iid)
    then show ?thesis using CreateInstance_ok [OF Cons.prems(1), of cid iid] Cons by fastforce
  next
    case (DropRef p)
    then show ?thesis using Drop_ok [OF Cons.prems(1), of p] Cons by fastforce
  qed
qed simp

lemma destroy_classes_ok:
  "heap_ok m (total_refs xs clients) \<Longrightarrow> infos_of (cm_class_infos m) is xs \<Longrightarrow>
   \<exists>m'. fold_outcome destroy_class m is = Inr m' \<and> heap_ok m' clients \<and> mClasses m' = mClasses m \<and> mModules m' = mModules m"
proof (induction "is" arbitrary: m xs)
  case Nil
  then have "total_refs xs clients = clients" by (auto simp: infos_of_def total_refs_def)
  then show ?case using Nil by simp
next
  case (Cons i "is")
  then obtain x ys where x: "xs = x # ys" "cm_class_infos m i = Some \<lparr>ci_cid = fst x, ci_class = Some (snd x)\<rparr>" "i \<notin> set is"
    "infos_of (cm_class_infos m) is ys"
    by (auto simp: infos_of_Cons)
  have "0 < total_refs xs clients (snd x)" using total_refs_member [of x xs clients] x(1) by simp
  from Release_ok [OF Cons.prems(1) this] obtain c h where r: "com_Release m (Some (snd x)) = Inr (c, m\<lparr>cm_heap := h\<rparr>)"
    "heap_ok (m\<lparr>cm_heap := h\<rparr>) ((total_refs xs clients)(snd x := total_refs xs clients (snd x) - 1))" by blast
  let ?m = "m\<lparr>cm_heap := h\<rparr>\<lparr>cm_class_infos := (cm_class_infos m)(i := None)\<rparr>"
  have "(total_refs xs clients)(snd x := total_refs xs clients (snd x) - 1) = total_refs ys clients"
    by (auto simp: x(1) total_refs_Cons fun_eq_iff)
  then have "heap_ok (m\<lparr>cm_heap := h\<rparr>) (total_refs ys clients)" using r(2) by simp
  then have "heap_ok ?m (total_refs ys clients)" by (rule heap_ok_mono) simp_all
  from Cons.IH [OF this] infos_of_other [OF x(4,3), of None] obtain m' where
    "fold_outcome destroy_class ?m is = Inr m'" "heap_ok m' clients" "mClasses m' = mClasses m" "mModules m' = mModules m"
    by (auto simp del: fun_upd_apply)
  moreover have "destroy_class m i = Inr ?m" by (simp add: destroy_class_def class_info_at_def x(2) r(1))
  ultimately show ?case by auto
qed

lemma destroy_ok:
  assumes "services_of m xs clients"
  shows "\<exists>m'. cm_destroy m = Inr m' \<and> heap_ok m' clients"
proof -
  obtain "is" where i: "jl_holds (mClasses m) is" "infos_of (cm_class_infos m) is xs"
    and h: "heap_ok m (total_refs xs clients)" "jl_holds (mModules m) []"
    using assms by (auto simp: services_of_def)
  obtain w where w: "jl_seq (mClasses m) w is" using i(1) by (auto simp: jl_holds_def)
  obtain w0 where w0: "jl_seq (mModules m) w0 []" using h(2) by (auto simp: jl_holds_def)
  obtain m1 where m1: "fold_outcome destroy_class m is = Inr m1" "heap_ok m1 clients" "mClasses m1 = mClasses m" "mModules m1 = mModules m"
    using destroy_classes_ok [OF h(1) i(2)] by blast
  have "length is < jl_fresh (mClasses m)" "length ([] :: nat list) < jl_fresh (mModules m)" using jl_fuel [OF i(1)] jl_fuel [OF h(2)] by simp_all
  note loops = jl.for_each_begin [OF w this(1), of destroy_class] jl.for_each_begin [OF w0 this(2), of destroy_module]
  obtain l1 l2 where "jl_clear (jl_fresh (mClasses m)) (mClasses m) = Inr l1" "jl_clear (jl_fresh (mModules m)) (mModules m) = Inr l2"
    using jl_clear_holds [OF i(1), of "jl_fresh (mClasses m)"] jl_clear_holds [OF h(2), of "jl_fresh (mModules m)"] jl_fuel [OF i(1)] jl_fuel [OF h(2)] by auto
  then have "cm_destroy m = Inr (m1\<lparr>mClasses := l1, mModules := l2\<rparr>)"
    unfolding cm_destroy_def andThen_assoc [symmetric] loops(1) m1(1) andThen_simps m1(3)
    by (simp add: m1(4) andThen_assoc [symmetric] loops(2))
  moreover have "heap_ok (m1\<lparr>mClasses := l1, mModules := l2\<rparr>) clients" using m1(2) by (rule heap_ok_mono) simp_all
  ultimately show ?thesis by blast
qed

text \<open>
  C30: The manager neither leaks nor frees too early. After any calls of \<open>AddService\<close>, \<open>RemoveService\<close>,
  \<open>GetService\<close> and \<open>CreateInstance\<close> and of releases, by clients that only pass and give back references they hold,
  on a new manager that loads, unloads and removes no module, every
  call has returned, the services are those added and not removed, a client gets the first service with the identifier when it
  has the interface, and once the manager is destroyed the objects that live are those that clients still hold, each with that count.
\<close>

theorem svc_run_counted:
  assumes "cm_new heap next = Inr m" "heap_ok m clients" "svc_legal ops (m, clients)"
  shows "\<exists>m' clients' m''. svc_run ops (m, clients) = Inr (m', clients') \<and>
    (\<forall>cid iid. \<exists>h. cm_GetService m' cid iid =
       (let (obj, err) = service_result m' (svc_spec ops []) cid iid in Inr (obj, err, m'\<lparr>cm_heap := h\<rparr>))) \<and>
    cm_destroy m' = Inr m'' \<and>
    (\<forall>p. case cm_heap m'' p of None \<Rightarrow> clients' p = 0 | Some x \<Rightarrow> 0 < clients' p \<and> co_count x = int (clients' p))"
proof -
  obtain c l where m: "jl_list = Inr c" "jl_list = Inr l" "mClasses m = c" "mModules m = l" "cm_class_infos m = Map.empty"
    using assms(1) by (auto simp: cm_new_def andThen_Inr_iff)
  obtain l0 :: "nat jlist" where l0: "jl_list = Inr l0" "jl_holds l0 []" using jl_list_holds by blast
  have "c = l0" "l = l0" using trans [OF sym [OF m(1)] l0(1)] trans [OF sym [OF m(2)] l0(1)] by simp_all
  then have "jl_holds c ([] :: nat list)" "jl_holds l ([] :: nat list)" using l0(2) by simp_all
  then have "services_of m [] clients"
    using m(3-5) assms(2) by (intro services_ofI [of _ "[]"]) (simp_all add: infos_of_def total_refs_def [abs_def])
  from svc_run_ok [OF this assms(3)] obtain m' clients' where r: "svc_run ops (m, clients) = Inr (m', clients')"
    "services_of m' (svc_spec ops []) clients'" by blast
  obtain m'' where d: "cm_destroy m' = Inr m''" "heap_ok m'' clients'" using destroy_ok [OF r(2)] by blast
  have "\<exists>h. cm_GetService m' cid iid = (let (obj, err) = service_result m' (svc_spec ops []) cid iid in Inr (obj, err, m'\<lparr>cm_heap := h\<rparr>))" for cid iid
    using GetService_ok [OF r(2), of cid iid] by (auto simp: case_prod_unfold Let_def)
  moreover have "case cm_heap m'' p of None \<Rightarrow> clients' p = 0 | Some x \<Rightarrow> 0 < clients' p \<and> co_count x = int (clients' p)" for p
    using d(2) [unfolded heap_ok_def, rule_format, of p] by (cases "cm_heap m'' p") (auto simp: cell_ok_def)
  ultimately show ?thesis using r(1) d(1) by blast
qed

theorem svc_run_counted_witness:
  "\<exists>m m' clients' m''. cm_new [0 \<mapsto> \<lparr>co_count = 1, co_interfaces = [''IX''], co_factory = None, co_cid = []\<rparr>] 1 = Inr m \<and>
    svc_run [AddSvc ''a'' 0, DropRef 0] (m, \<lambda>p. if p = 0 then 1 else 0) = Inr (m', clients') \<and> cm_destroy m' = Inr m'' \<and> cm_heap m'' 0 = None"
proof -
  obtain l :: "nat jlist" where l: "jl_list = Inr l" using jl_list_holds by blast
  let ?h = "[0 \<mapsto> \<lparr>co_count = 1, co_interfaces = [''IX''], co_factory = None, co_cid = []\<rparr>]"
  let ?c = "\<lambda>p :: nat. if p = 0 then 1 else 0 :: nat" and ?ops = "[AddSvc ''a'' 0, DropRef 0]"
  obtain m where m: "cm_new ?h 1 = Inr m" "cm_heap m = ?h" "cm_next m = 1" by (simp add: cm_new_def l)
  have ok: "heap_ok m ?c" by (simp add: heap_ok_def cell_ok_def m(2,3) comid_eq_def)
  have keep: "snd s = clients" if "svc_step (AddSvc cid p) (m, clients) = Inr s" for cid p m clients s
    using that by (auto simp: andThen_Inr_iff)
  have "svc_legal ?ops (m, ?c)" using keep [of "''a''" 0 m ?c] by (auto split: sum.split simp del: svc_step.simps)
  from svc_run_counted [OF m(1) ok this] obtain m' clients' m'' where r: "svc_run ?ops (m, ?c) = Inr (m', clients')" "cm_destroy m' = Inr m''"
    "case cm_heap m'' 0 of None \<Rightarrow> clients' 0 = 0 | Some x \<Rightarrow> 0 < clients' 0 \<and> co_count x = int (clients' 0)" by blast
  have "clients' 0 = 0" using r(1) by (auto simp: andThen_Inr_iff)
  then have "cm_heap m'' 0 = None" using r(3) by (cases "cm_heap m'' 0") simp_all
  then show ?thesis using m(1) r(1,2) by blast
qed

text \<open>Modules: the entry that \<open>getModInfo\<close> finds, and the destructor on an entry with a null pointer.\<close>

lemma getModInfo_find:
  assumes "jl_holds (mModules m) ms" "\<forall>i \<in> set ms. cm_module_infos m i \<noteq> None"
  shows "cm_getModInfo m name = Inr (find (\<lambda>i. name = mi_name (the (cm_module_infos m i))) ms)"
proof -
  obtain w where w: "jl_seq (mModules m) w ms" using assms(1) by (auto simp: jl_holds_def)
  have "\<forall>i \<in> set ms. andThen (module_info_at m i) (\<lambda>x. Inr (name = mi_name x)) = Inr (name = mi_name (the (cm_module_infos m i)))"
    using assms(2) by (auto simp: module_info_at_def)
  from jl.for_find_begin [OF w _ this, of "jl_fresh (mModules m)"] jl_fuel [OF assms(1)] show ?thesis by (simp add: cm_getModInfo_def)
qed

lemma destroy_class_keeps:
  "fold_outcome destroy_class m is = Inr m' \<Longrightarrow> mModules m' = mModules m \<and> cm_module_infos m' = cm_module_infos m \<and> mClasses m' = mClasses m"
proof (induction "is" arbitrary: m)
  case (Cons i "is")
  then obtain m1 where "destroy_class m i = Inr m1" "fold_outcome destroy_class m1 is = Inr m'" by (auto simp: andThen_Inr_iff)
  moreover from this(1) have "mModules m1 = mModules m" "cm_module_infos m1 = cm_module_infos m" "mClasses m1 = mClasses m"
    by (auto simp: destroy_class_def andThen_Inr_iff com_Release_def Let_def)
  ultimately show ?case using Cons.IH [of m1] by simp
qed simp

text \<open>
  What \<open>unloadComponents\<close> of a module does in this code (test/FooService.cpp): it removes the services of the module, here \<open>cids\<close>.
\<close>

definition removes_services :: "string list \<Rightarrow> manager \<Rightarrow> manager outcome" where
  "removes_services cids m = fold_outcome (\<lambda>m cid. andThen (cm_RemoveService m cid) (\<lambda>(_, m). Inr m)) m cids"

lemma removes_services_in:
  "services_in ms m xs clients \<Longrightarrow> \<exists>m'. removes_services cids m = Inr m' \<and>
     services_in ms m' (fold remove_service cids xs) clients \<and> cm_module_infos m' = cm_module_infos m"
proof (induction cids arbitrary: m xs)
  case (Cons cid cids)
  obtain r m1 where m1: "cm_RemoveService m cid = Inr (r, m1)" "services_in ms m1 (remove_service cid xs) clients"
    "cm_module_infos m1 = cm_module_infos m"
    using RemoveService_in [OF Cons.prems, of cid] by blast
  then show ?case using Cons.IH [OF m1(2)] by (simp add: removes_services_def)
qed (simp add: removes_services_def)

text \<open>The destructor with one module in the list comes to this module, after all services.\<close>

lemma cm_destroy_module:
  assumes "services_in [info] m xs clients"
  obtains m3 where "cm_destroy m =
      andThen (destroy_module m3 info) (\<lambda>m. andThen (jl_clear (jl_fresh (mModules m)) (mModules m)) (\<lambda>l. Inr (m\<lparr>mModules := l\<rparr>)))"
    "heap_ok m3 clients" "cm_module_infos m3 = cm_module_infos m" "mModules m3 = mModules m"
proof -
  obtain "is" where i: "jl_holds (mClasses m) is" "infos_of (cm_class_infos m) is xs"
    and h: "heap_ok m (total_refs xs clients)" "jl_holds (mModules m) [info]"
    using assms by (auto simp: services_in_def)
  obtain w where w: "jl_seq (mClasses m) w is" using i(1) by (auto simp: jl_holds_def)
  obtain w' where w': "jl_seq (mModules m) w' [info]" using h(2) by (auto simp: jl_holds_def)
  have "length is < jl_fresh (mClasses m)" "length [info] < jl_fresh (mModules m)" using jl_fuel [OF i(1)] jl_fuel [OF h(2)] by simp_all
  note loops = jl.for_each_begin [OF w this(1), of destroy_class] jl.for_each_begin [OF w' this(2), of destroy_module]
  obtain m2 where m2: "fold_outcome destroy_class m is = Inr m2" "heap_ok m2 clients"
    using destroy_classes_ok [OF h(1) i(2)] by blast
  note k = destroy_class_keeps [OF m2(1)]
  obtain l1 where l1: "jl_clear (jl_fresh (mClasses m)) (mClasses m) = Inr l1"
    using jl_clear_holds [OF i(1), of "jl_fresh (mClasses m)"] jl_fuel [OF i(1)] by auto
  show thesis
  proof (rule that [of "m2\<lparr>mClasses := l1\<rparr>"])
    have "fold_outcome destroy_module (m2\<lparr>mClasses := l1\<rparr>) [info] = destroy_module (m2\<lparr>mClasses := l1\<rparr>) info"
      by (cases "destroy_module (m2\<lparr>mClasses := l1\<rparr>) info") simp_all
    then show "cm_destroy m = andThen (destroy_module (m2\<lparr>mClasses := l1\<rparr>) info)
        (\<lambda>m. andThen (jl_clear (jl_fresh (mModules m)) (mModules m)) (\<lambda>l. Inr (m\<lparr>mModules := l\<rparr>)))"
      unfolding cm_destroy_def andThen_assoc [symmetric] loops(1) m2(1) andThen_simps Let_def
      using k l1 by (simp add: andThen_assoc [symmetric] loops(2) del: fold_outcome.simps)
    show "heap_ok (m2\<lparr>mClasses := l1\<rparr>) clients" using m2(2) by (rule heap_ok_mono) simp_all
  qed (use k in simp_all)
qed

lemma cm_UnloadLibrary_null:
  assumes "jl_holds (mModules m) [info]" "cm_module_infos m info = Some x" "mi_module x = None"
  shows "\<exists>l. cm_UnloadLibrary m cid = Inr (kNoClass, m\<lparr>mModules := l\<rparr>)"
proof -
  obtain w where w: "jl_seq (mModules m) w [info]" using assms(1) by (auto simp: jl_holds_def)
  define visit where "visit = (\<lambda>m info. andThen (module_info_at m info) (\<lambda>x.
       andThen (case mi_module x of None \<Rightarrow> Inr False | Some p \<Rightarrow> andThen (com_at m (Some p)) (\<lambda>y. Inr (comid_eq cid (co_cid y)))) (\<lambda>eq.
       if eq then Inr (True, m\<lparr>cm_closed := cm_closed m @ [mi_handle x], cm_module_infos := (cm_module_infos m)(info := None)\<rparr>)
       else Inr (False, m))))"
  have fuel: "length [info] < jl_fresh (mModules m)" using jl_fuel [OF assms(1)] by simp
  have v: "visit_first visit m [info] = Inr (False, m, [info])" using assms(2,3) by (simp add: visit_def module_info_at_def)
  obtain l where "andThen (jl_begin (mModules m)) (for_erase_first jl_end it_deref it_incr it_erase visit (jl_fresh (mModules m)) m (mModules m)) =
      Inr (False, m, l)" using jl.for_erase_first_begin [OF w fuel v] by blast
  then have "cm_UnloadLibrary m cid = Inr (kNoClass, m\<lparr>mModules := l\<rparr>)"
    unfolding cm_UnloadLibrary_def visit_def [symmetric] by (auto simp: andThen_Inr_iff)
  then show ?thesis by blast
qed

text \<open>
  C31: What \<open>RemoveModule\<close> leaves, for a manager with one loaded module whose \<open>unloadComponents\<close> removes services by their identifiers, as the
  module in the repository does. It returns without an error, the services are gone, and the manager's reference to the module is given back. But the
  entry stays in the list with a null pointer: \<open>GetModule\<close> and \<open>UnloadLibrary\<close> no longer find the module, so that its library is never closed,
  and the destructor of the manager, which returns if the module was not removed, releases all services and then calls \<open>Release\<close> on that null
  pointer, which is undefined.
\<close>

theorem cm_destroy_after_remove:
  assumes "services_in [info] m xs (give (Some p) clients)"
    and "cm_module_infos m info = Some \<lparr>mi_name = name, mi_module = Some p, mi_handle = handle\<rparr>"
    and "env_unload env p = removes_services cids"
  shows "\<exists>m' m''. cm_RemoveModule env m name = Inr (kNoError, m') \<and> services_in [info] m' (fold remove_service cids xs) clients \<and>
    cm_module_infos m' info = Some \<lparr>mi_name = name, mi_module = None, mi_handle = handle\<rparr> \<and>
    cm_GetModule m' name = Inr None \<and> (\<forall>cid. \<exists>l. cm_UnloadLibrary m' cid = Inr (kNoClass, m'\<lparr>mModules := l\<rparr>)) \<and>
    cm_destroy m = Inr m'' \<and> cm_destroy m' = Inl UndefinedBehaviour"
proof -
  have h: "heap_ok m (total_refs xs (give (Some p) clients))" "jl_holds (mModules m) [info]"
    using assms(1) by (auto simp: services_in_def)
  have pos: "0 < total_refs ys (give (Some p) clients) p" for ys by (simp add: total_refs_def)
  have named: "cm_getModInfo s name = Inr (Some info)"
    if "jl_holds (mModules s) [info]" "cm_module_infos s info = Some x" "mi_name x = name" for s x
    using getModInfo_find [of s "[info]" name] that by simp
  let ?xs = "fold remove_service cids xs"
  obtain m1 where m1: "removes_services cids m = Inr m1" "services_in [info] m1 ?xs (give (Some p) clients)"
    "cm_module_infos m1 = cm_module_infos m"
    using removes_services_in [OF assms(1)] by blast
  have h1: "heap_ok m1 (total_refs ?xs (give (Some p) clients))" using m1(2) by (simp add: services_in_def)
  obtain c hp where rl: "com_Release m1 (Some p) = Inr (c, m1\<lparr>cm_heap := hp\<rparr>)"
    "heap_ok (m1\<lparr>cm_heap := hp\<rparr>) ((total_refs ?xs (give (Some p) clients))(p := total_refs ?xs (give (Some p) clients) p - 1))"
    using Release_ok [OF h1 pos] by blast
  have given: "(total_refs ?xs (give (Some p) clients))(p := total_refs ?xs (give (Some p) clients) p - 1) = total_refs ?xs clients"
    by (auto simp: total_refs_def fun_eq_iff)
  let ?x = "\<lparr>mi_name = name, mi_module = None, mi_handle = handle\<rparr>"
  let ?m' = "m1\<lparr>cm_heap := hp, cm_module_infos := (cm_module_infos m1)(info \<mapsto> ?x)\<rparr>"
  obtain y where y: "com_at m (Some p) = Inr y" using heap_okD [OF h(1) pos] by metis
  have rem: "cm_RemoveModule env m name = Inr (kNoError, ?m')"
    using named [OF h(2) assms(2)] assms(2,3) y m1(1,3) rl(1) by (simp add: cm_RemoveModule_def module_info_at_def)
  have "heap_ok ?m' (total_refs ?xs clients)" using rl(2) unfolding given by (rule heap_ok_mono) simp_all
  then have s': "services_in [info] ?m' ?xs clients" using m1(2) by (auto simp: services_in_def)
  then have l': "jl_holds (mModules ?m') [info]" by (simp add: services_in_def)
  have e': "cm_module_infos ?m' info = Some ?x" by simp
  have get: "cm_GetModule ?m' name = Inr None"
    using named [OF l' e'] by (simp add: cm_GetModule_def module_info_at_def)
  have unl: "\<exists>l. cm_UnloadLibrary ?m' cid = Inr (kNoClass, ?m'\<lparr>mModules := l\<rparr>)" for cid
    using cm_UnloadLibrary_null [OF l' e'] by simp
  obtain m4 where m4: "cm_destroy m = andThen (destroy_module m4 info)
      (\<lambda>m. andThen (jl_clear (jl_fresh (mModules m)) (mModules m)) (\<lambda>l. Inr (m\<lparr>mModules := l\<rparr>)))"
    "heap_ok m4 (give (Some p) clients)" "cm_module_infos m4 = cm_module_infos m" "mModules m4 = mModules m"
    using cm_destroy_module [OF assms(1)] by blast
  have "0 < give (Some p) clients p" by simp
  from Release_ok [OF m4(2) this] obtain c4 h4 where "com_Release m4 (Some p) = Inr (c4, m4\<lparr>cm_heap := h4\<rparr>)" by blast
  then have d4: "destroy_module m4 info = Inr (m4\<lparr>cm_heap := h4, cm_module_infos := (cm_module_infos m)(info := None)\<rparr>)"
    using m4(3) assms(2) by (simp add: destroy_module_def module_info_at_def)
  obtain l4 where "jl_clear (jl_fresh (mModules m)) (mModules m) = Inr l4"
    using jl_clear_holds [OF h(2), of "jl_fresh (mModules m)"] jl_fuel [OF h(2)] by auto
  then have "\<exists>m''. cm_destroy m = Inr m''" unfolding m4(1) d4 by (simp add: m4(4))
  moreover obtain m5 where m5: "cm_destroy ?m' = andThen (destroy_module m5 info)
      (\<lambda>m. andThen (jl_clear (jl_fresh (mModules m)) (mModules m)) (\<lambda>l. Inr (m\<lparr>mModules := l\<rparr>)))"
    "cm_module_infos m5 = cm_module_infos ?m'"
    using cm_destroy_module [OF s'] by blast
  have "destroy_module m5 info = Inl UndefinedBehaviour"
    using m5(2) by (simp add: destroy_module_def module_info_at_def com_Release_def com_at_def)
  then have "cm_destroy ?m' = Inl UndefinedBehaviour" unfolding m5(1) by simp
  ultimately show ?thesis using rem s' e' get unl by blast
qed

theorem cm_destroy_after_remove_witness:
  "\<exists>m m'. cm_RemoveModule \<lparr>env_dlopen = (\<lambda>_. None), env_load = (\<lambda>_. Inr), env_unload = (\<lambda>_. removes_services [''FooService''])\<rparr> m ''lib'' =
      Inr (kNoError, m') \<and> cm_GetModule m' ''lib'' = Inr None \<and> cm_destroy m' = Inl UndefinedBehaviour"
proof -
  let ?env = "\<lparr>env_dlopen = (\<lambda>_. None), env_load = (\<lambda>_. Inr), env_unload = (\<lambda>_. removes_services [''FooService''])\<rparr> :: com_env"
  obtain c :: "nat jlist" where c: "jl_list = Inr c" "jl_holds c []" using jl_list_holds by blast
  obtain l where l: "jl_push_back c 2 = Inr l" "jl_holds l [2]" using jl_push_back_holds [OF c(2), of 2] by auto
  obtain k where k: "jl_push_back c 3 = Inr k" "jl_holds k [3]" using jl_push_back_holds [OF c(2), of 3] by auto
  let ?x = "\<lparr>co_count = 1, co_interfaces = [], co_factory = None, co_cid = ''cid''\<rparr>"
  define m where "m = \<lparr>cm_heap = [0 \<mapsto> ?x, 1 \<mapsto> ?x], cm_next = 4, cm_count = 1, mClasses = k,
    cm_class_infos = [3 \<mapsto> \<lparr>ci_cid = ''FooService'', ci_class = Some 1\<rparr>], mModules = l,
    cm_module_infos = [2 \<mapsto> \<lparr>mi_name = ''lib'', mi_module = Some 0, mi_handle = 5\<rparr>], cm_closed = []\<rparr>"
  have q: "\<not> query_chain [] ''IFactory''" by (simp add: comid_eq_def)
  have "infos_of (cm_class_infos m) [3] [(''FooService'', 1)]" by (simp add: m_def infos_of_def)
  moreover have "heap_ok m (total_refs [(''FooService'', 1)] (give (Some 0) (\<lambda>_. 0)))"
    using q by (auto simp: m_def heap_ok_def cell_ok_def total_refs_def)
  ultimately have s: "services_in [2] m [(''FooService'', 1)] (give (Some 0) (\<lambda>_. 0))"
    using l(2) k(2) unfolding services_in_def by (intro conjI exI [of _ "[3]"]) (simp_all add: m_def)
  have e: "cm_module_infos m 2 = Some \<lparr>mi_name = ''lib'', mi_module = Some 0, mi_handle = 5\<rparr>" by (simp add: m_def)
  have u: "env_unload ?env 0 = removes_services [''FooService'']" by simp
  show ?thesis using cm_destroy_after_remove [OF s e u] by blast
qed

end
