(* ===== verification/IntrusiveList.thy ===== *)
theory IntrusiveList
  imports JHList
begin

text \<open>
  The lists of src/include/List++.h, whose nodes are the base of the objects in them: an object is made
  by the client, linked into a list, and taken out of it by a call on the object itself. The heap is that
  of \<open>JHList\<close>, but it may hold other lists and other objects; a list is the addresses of its two
  sentinels. \<open>il_rep h l ps\<close> says that the list \<open>l\<close> holds the objects \<open>ps\<close>, pairs of an address and
  what the class of the object adds to the node.
\<close>

section \<open>Nodes\<close>

type_synonym 'a nheap = "addr \<Rightarrow> 'a node option"

definition nd_get :: "'a nheap \<Rightarrow> addr option \<Rightarrow> 'a node outcome" where
  "nd_get h p = (case p of None \<Rightarrow> Inl UndefinedBehaviour
     | Some a \<Rightarrow> (case h a of None \<Rightarrow> Inl UndefinedBehaviour | Some n \<Rightarrow> Inr n))"

definition nd_put :: "'a nheap \<Rightarrow> addr option \<Rightarrow> ('a node \<Rightarrow> 'a node) \<Rightarrow> 'a nheap outcome" where
  "nd_put h p f = andThen (nd_get h p) (\<lambda>n. Inr (h(the p \<mapsto> f n)))"

definition nd_delete :: "'a nheap \<Rightarrow> addr option \<Rightarrow> 'a nheap outcome" where
  "nd_delete h p = (case p of None \<Rightarrow> Inr h
     | Some a \<Rightarrow> (if h a = None then Inl UndefinedBehaviour else Inr (h(a := None))))"

definition nd_Node :: "'a option \<Rightarrow> 'a node" where
  "nd_Node v = \<lparr>node_val = v, node_next = None, node_prev = None\<rparr>"

definition nd_next :: "'a nheap \<Rightarrow> addr option \<Rightarrow> addr option outcome" where
  "nd_next h this =
     andThen (nd_get h this) (\<lambda>t. andThen (nd_get h (node_next t)) (\<lambda>n.
     Inr (if node_next n \<noteq> None then node_next t else None)))"

definition nd_prev :: "'a nheap \<Rightarrow> addr option \<Rightarrow> addr option outcome" where
  "nd_prev h this =
     andThen (nd_get h this) (\<lambda>t. andThen (nd_get h (node_prev t)) (\<lambda>p.
     Inr (if node_prev p \<noteq> None then node_prev t else None)))"

definition nd_insertAfter :: "'a nheap \<Rightarrow> addr option \<Rightarrow> addr option \<Rightarrow> 'a nheap outcome" where
  "nd_insertAfter h this new =
     andThen (nd_get h this) (\<lambda>t.
     andThen (nd_put h new (\<lambda>n. n\<lparr>node_next := node_next t\<rparr>)) (\<lambda>h.
     andThen (nd_put h new (\<lambda>n. n\<lparr>node_prev := this\<rparr>)) (\<lambda>h.
     andThen (nd_get h this) (\<lambda>t.
     andThen (nd_put h (node_next t) (\<lambda>n. n\<lparr>node_prev := new\<rparr>)) (\<lambda>h.
     nd_put h this (\<lambda>t. t\<lparr>node_next := new\<rparr>))))))"

definition nd_insertBefore :: "'a nheap \<Rightarrow> addr option \<Rightarrow> addr option \<Rightarrow> 'a nheap outcome" where
  "nd_insertBefore h this new =
     andThen (nd_put h new (\<lambda>n. n\<lparr>node_next := this\<rparr>)) (\<lambda>h.
     andThen (nd_get h this) (\<lambda>t.
     andThen (nd_put h new (\<lambda>n. n\<lparr>node_prev := node_prev t\<rparr>)) (\<lambda>h.
     andThen (nd_get h this) (\<lambda>t.
     andThen (nd_put h (node_prev t) (\<lambda>p. p\<lparr>node_next := new\<rparr>)) (\<lambda>h.
     nd_put h this (\<lambda>t. t\<lparr>node_prev := new\<rparr>))))))"

definition nd_remove :: "'a nheap \<Rightarrow> addr option \<Rightarrow> 'a nheap outcome" where
  "nd_remove h this =
     andThen (nd_get h this) (\<lambda>t.
     andThen (nd_put h (node_next t) (\<lambda>n. n\<lparr>node_prev := node_prev t\<rparr>)) (\<lambda>h.
     andThen (nd_get h this) (\<lambda>t.
     nd_put h (node_prev t) (\<lambda>p. p\<lparr>node_next := node_next t\<rparr>))))"

section \<open>Lists\<close>

text \<open>A list is where its members \<open>mHead\<close> and \<open>mTail\<close> lie. The constructor makes the two nodes there.\<close>

record il_list =
  il_mHead :: addr
  il_mTail :: addr

definition il_List :: "'a nheap \<Rightarrow> il_list \<Rightarrow> 'a nheap outcome" where
  "il_List h l =
     (let h = h(il_mHead l \<mapsto> nd_Node None, il_mTail l \<mapsto> nd_Node None) in
      andThen (nd_put h (Some (il_mHead l)) (\<lambda>n. n\<lparr>node_next := Some (il_mTail l)\<rparr>)) (\<lambda>h.
      nd_put h (Some (il_mTail l)) (\<lambda>n. n\<lparr>node_prev := Some (il_mHead l)\<rparr>)))"

definition il_push_back :: "'a nheap \<Rightarrow> il_list \<Rightarrow> addr option \<Rightarrow> 'a nheap outcome" where
  "il_push_back h l new = nd_insertBefore h (Some (il_mTail l)) new"

definition il_push_front :: "'a nheap \<Rightarrow> il_list \<Rightarrow> addr option \<Rightarrow> 'a nheap outcome" where
  "il_push_front h l new = nd_insertAfter h (Some (il_mHead l)) new"

definition il_getHead :: "'a nheap \<Rightarrow> il_list \<Rightarrow> addr option outcome" where
  "il_getHead h l =
     andThen (nd_get h (Some (il_mHead l))) (\<lambda>n.
     Inr (if node_next n \<noteq> Some (il_mTail l) then node_next n else None))"

definition il_getTail :: "'a nheap \<Rightarrow> il_list \<Rightarrow> addr option outcome" where
  "il_getTail h l =
     andThen (nd_get h (Some (il_mTail l))) (\<lambda>n.
     Inr (if node_prev n \<noteq> Some (il_mHead l) then node_prev n else None))"

definition il_empty :: "'a nheap \<Rightarrow> il_list \<Rightarrow> bool outcome" where
  "il_empty h l = andThen (il_getHead h l) (\<lambda>p. Inr (p = None))"

text \<open>The number of nodes is an \<open>int\<close>.\<close>

fun il_count :: "nat \<Rightarrow> 'a nheap \<Rightarrow> addr option \<Rightarrow> int \<Rightarrow> int outcome" where
  "il_count fuel h None n = Inr n"
| "il_count 0 h (Some a) n = Inl NoReturn"
| "il_count (Suc fuel) h (Some a) n =
     andThen (nd_next h (Some a)) (\<lambda>p.
     if n = 2 ^ 31 - 1 then Inl UndefinedBehaviour else il_count fuel h p (n + 1))"

definition il_size :: "nat \<Rightarrow> 'a nheap \<Rightarrow> il_list \<Rightarrow> int outcome" where
  "il_size fuel h l = andThen (il_getHead h l) (\<lambda>p. il_count fuel h p 0)"

fun il_delete_all :: "nat \<Rightarrow> 'a nheap \<Rightarrow> addr option \<Rightarrow> 'a nheap outcome" where
  "il_delete_all fuel h None = Inr h"
| "il_delete_all 0 h (Some a) = Inl NoReturn"
| "il_delete_all (Suc fuel) h (Some a) =
     andThen (nd_next h (Some a)) (\<lambda>p. andThen (nd_delete h (Some a)) (\<lambda>h. il_delete_all fuel h p))"

definition il_clear :: "nat \<Rightarrow> 'a nheap \<Rightarrow> il_list \<Rightarrow> 'a nheap outcome" where
  "il_clear fuel h l =
     andThen (il_getHead h l) (\<lambda>p.
     andThen (il_delete_all fuel h p) (\<lambda>h.
     andThen (nd_put h (Some (il_mHead l)) (\<lambda>n. n\<lparr>node_next := Some (il_mTail l)\<rparr>)) (\<lambda>h.
     nd_put h (Some (il_mTail l)) (\<lambda>n. n\<lparr>node_prev := Some (il_mHead l)\<rparr>))))"

section \<open>Lists of a class of nodes\<close>

text \<open>
  The comparison of \<open>find\<close> is an operator of the class, a predicate here. The function of \<open>foreach\<close> may
  change a state and the heap.
\<close>

definition nd_value :: "'a nheap \<Rightarrow> addr option \<Rightarrow> 'a outcome" where
  "nd_value h p = andThen (nd_get h p) (\<lambda>n.
     case node_val n of None \<Rightarrow> Inl UndefinedBehaviour | Some v \<Rightarrow> Inr v)"

fun tl_find_from :: "nat \<Rightarrow> 'a nheap \<Rightarrow> ('a \<Rightarrow> bool) \<Rightarrow> addr option \<Rightarrow> addr option outcome" where
  "tl_find_from fuel h match None = Inr None"
| "tl_find_from 0 h match (Some a) = Inl NoReturn"
| "tl_find_from (Suc fuel) h match (Some a) =
     andThen (nd_value h (Some a)) (\<lambda>c. if match c then Inr (Some a) else
     andThen (nd_next h (Some a)) (\<lambda>p. tl_find_from fuel h match p))"

definition tl_find :: "nat \<Rightarrow> 'a nheap \<Rightarrow> il_list \<Rightarrow> ('a \<Rightarrow> bool) \<Rightarrow> addr option outcome" where
  "tl_find fuel h l match = andThen (il_getHead h l) (tl_find_from fuel h match)"

definition tl_remove :: "nat \<Rightarrow> 'a nheap \<Rightarrow> il_list \<Rightarrow> ('a \<Rightarrow> bool) \<Rightarrow> ('a nheap \<times> bool) outcome" where
  "tl_remove fuel h l match =
     andThen (tl_find fuel h l match) (\<lambda>p.
     if p \<noteq> None
     then andThen (nd_remove h p) (\<lambda>h. andThen (nd_delete h p) (\<lambda>h. Inr (h, True)))
     else Inr (h, False))"

fun tl_foreach_from ::
  "nat \<Rightarrow> ('s \<Rightarrow> 'a nheap \<Rightarrow> addr \<Rightarrow> ('s \<times> 'a nheap) outcome) \<Rightarrow> 's \<Rightarrow> 'a nheap \<Rightarrow> addr option \<Rightarrow> ('s \<times> 'a nheap) outcome" where
  "tl_foreach_from fuel func s h None = Inr (s, h)"
| "tl_foreach_from 0 func s h (Some a) = Inl NoReturn"
| "tl_foreach_from (Suc fuel) func s h (Some a) =
     andThen (nd_next h (Some a)) (\<lambda>p. andThen (func s h a) (\<lambda>(s, h). tl_foreach_from fuel func s h p))"

definition tl_foreach ::
  "nat \<Rightarrow> ('s \<Rightarrow> 'a nheap \<Rightarrow> addr \<Rightarrow> ('s \<times> 'a nheap) outcome) \<Rightarrow> 's \<Rightarrow> 'a nheap \<Rightarrow> il_list \<Rightarrow> ('s \<times> 'a nheap) outcome" where
  "tl_foreach fuel func s h l = andThen (il_getHead h l) (tl_foreach_from fuel func s h)"

section \<open>Representation\<close>

definition il_nodes :: "il_list \<Rightarrow> (addr \<times> 'a) list \<Rightarrow> addr list" where
  "il_nodes l ps = il_mHead l # map fst ps @ [il_mTail l]"

definition il_rep :: "'a nheap \<Rightarrow> il_list \<Rightarrow> (addr \<times> 'a) list \<Rightarrow> bool" where
  "il_rep h l ps \<longleftrightarrow> distinct (il_nodes l ps) \<and> dseg h None (il_nodes l ps) None \<and>
     (\<forall>(a, v) \<in> set ps. map_option node_val (h a) = Some (Some v))"

lemmas nd_defs = nd_get_def nd_put_def nd_delete_def

lemma nd_put_at: "h a = Some n \<Longrightarrow> nd_put h (Some a) f = Inr (h(a \<mapsto> f n))"
  by (simp add: nd_put_def nd_get_def)

text \<open>What taking a node out without freeing it does to the heap.\<close>

definition heap_unlink :: "'a nheap \<Rightarrow> addr \<Rightarrow> addr \<Rightarrow> 'a nheap" where
  "heap_unlink h p q = h(p \<mapsto> (the (h p))\<lparr>node_next := Some q\<rparr>, q \<mapsto> (the (h q))\<lparr>node_prev := Some p\<rparr>)"

lemma heap_remove_unlink: "heap_remove h p x q = (heap_unlink h p q)(x := None)"
  by (simp add: heap_remove_def heap_unlink_def)

lemma dseg_unlink:
  assumes "dseg h P (A @ p # x # q # B) N" "distinct (A @ p # x # q # B)"
  shows "dseg (heap_unlink h p q) P (A @ p # q # B) N"
  using dseg_remove [OF assms] assms(2) by (simp add: heap_remove_unlink)

lemma nd_insertAfter_heap:
  assumes "h p = Some np" "node_next np = Some q" "h q = Some nq" "h new = Some nn" "node_val nn = Some v"
    "distinct [p, q, new]"
  shows "nd_insertAfter h (Some p) (Some new) = Inr (heap_insert h new v p q)"
  using assms by (auto simp: nd_insertAfter_def nd_defs heap_insert_def fun_upd_twist)

lemma nd_insertBefore_heap:
  assumes "h q = Some nq" "node_prev nq = Some p" "h p = Some np" "h new = Some nn" "node_val nn = Some v"
    "distinct [p, q, new]"
  shows "nd_insertBefore h (Some q) (Some new) = Inr (heap_insert h new v p q)"
  using assms by (auto simp: nd_insertBefore_def nd_defs heap_insert_def fun_upd_twist)

lemma nd_remove_heap:
  assumes "h x = Some nx" "node_next nx = Some q" "node_prev nx = Some p" "h p = Some np" "h q = Some nq"
    "distinct [p, x, q]"
  shows "nd_remove h (Some x) = Inr (heap_unlink h p q)"
  using assms by (auto simp: nd_remove_def nd_defs heap_unlink_def fun_upd_twist)

text \<open>\<open>touches h h' S\<close>: only the links of the nodes in \<open>S\<close> may have changed.\<close>

definition touches :: "'a nheap \<Rightarrow> 'a nheap \<Rightarrow> addr set \<Rightarrow> bool" where
  "touches h h' S \<longleftrightarrow> (\<forall>a. map_option node_val (h' a) = map_option node_val (h a)) \<and> (\<forall>a. a \<notin> S \<longrightarrow> h' a = h a)"

lemma touchesD:
  assumes "touches h h' S"
  shows "map_option node_val (h' a) = map_option node_val (h a)" "a \<notin> S \<Longrightarrow> h' a = h a" "h' a = None \<longleftrightarrow> h a = None"
    "dom h' = dom h"
proof -
  show v: "map_option node_val (h' a) = map_option node_val (h a)" for a using assms by (simp add: touches_def)
  show n: "h' a = None \<longleftrightarrow> h a = None" for a using v [of a] by (cases "h a"; cases "h' a") auto
  show "a \<notin> S \<Longrightarrow> h' a = h a" using assms by (simp add: touches_def)
  show "dom h' = dom h" using n by (auto simp: dom_def)
qed

lemma il_nodes_split:
  "il_nodes l (A @ B) = butlast (il_mHead l # map fst A) @ last (il_mHead l # map fst A) #
     hd (map fst B @ [il_mTail l]) # tl (map fst B @ [il_mTail l])"
proof -
  have "butlast (il_mHead l # map fst A) @ [last (il_mHead l # map fst A)] = il_mHead l # map fst A" by simp
  moreover have "hd (map fst B @ [il_mTail l]) # tl (map fst B @ [il_mTail l]) = map fst B @ [il_mTail l]"
    by (cases B) simp_all
  ultimately show ?thesis unfolding il_nodes_def
    by (metis append.assoc append_Cons append_Nil map_append)
qed

lemma il_repD:
  assumes "il_rep h l ps"
  shows "distinct (il_nodes l ps)" "dseg h None (il_nodes l ps) None"
    "(a, v) \<in> set ps \<Longrightarrow> \<exists>n. h a = Some n \<and> node_val n = Some v"
  using assms by (auto simp: il_rep_def)

lemma il_rep_touched:
  assumes "il_rep h l ps" "touches h h' S" "distinct (il_nodes l qs)" "dseg h' None (il_nodes l qs) None"
    "set qs \<subseteq> set ps"
  shows "il_rep h' l qs"
proof -
  have "\<forall>z \<in> set qs. case z of (a, v) \<Rightarrow> map_option node_val (h a) = Some (Some v)"
    using assms(1,5) unfolding il_rep_def by blast
  then show ?thesis using assms(3,4) touchesD(1) [OF assms(2)] by (simp add: il_rep_def)
qed

lemma il_rep_frame:
  assumes "il_rep h l ps" "x \<notin> set (il_nodes l ps)"
  shows "il_rep (h(x := n)) l ps"
proof -
  have "map_option node_val ((h(x := n)) a) = Some (Some v)" if "(a, v) \<in> set ps" for a v
  proof -
    have "a \<in> set (il_nodes l ps)" using that by (force simp: il_nodes_def)
    then show ?thesis using assms that by (auto simp: il_rep_def)
  qed
  then show ?thesis using assms unfolding il_rep_def by auto
qed

lemma il_new_rep:
  assumes "il_mHead l \<noteq> il_mTail l"
  obtains h' where "il_List h l = Inr h'" "il_rep h' l []" "\<forall>a. a \<noteq> il_mHead l \<and> a \<noteq> il_mTail l \<longrightarrow> h' a = h a"
    "dom h' = dom h \<union> {il_mHead l, il_mTail l}"
  using assms by (auto simp: il_List_def nd_defs nd_Node_def il_rep_def il_nodes_def)

text \<open>Taking an object out of the list in which it is.\<close>

lemma il_unlink:
  assumes rep: "il_rep h l (A @ (x, v) # B)"
  obtains p q h' where "nd_remove h (Some x) = Inr h'" "il_rep h' l (A @ B)"
    "h' = heap_unlink h p q" "touches h h' (set (il_nodes l (A @ B)))" "h' x = h x"
proof -
  define p where "p = last (il_mHead l # map fst A)"
  define q where "q = hd (map fst B @ [il_mTail l])"
  obtain A' B' where ns: "il_nodes l (A @ (x, v) # B) = A' @ p # x # q # B'" "il_nodes l (A @ B) = A' @ p # q # B'"
  proof
    show "il_nodes l (A @ B) = butlast (il_mHead l # map fst A) @ p # q # tl (map fst B @ [il_mTail l])"
      unfolding p_def q_def by (rule il_nodes_split)
    show "il_nodes l (A @ (x, v) # B) = butlast (il_mHead l # map fst A) @ p # x # q # tl (map fst B @ [il_mTail l])"
      using il_nodes_split [of l A "(x, v) # B"] unfolding p_def q_def by (cases B) simp_all
  qed
  note r = il_repD(1,2) [OF rep, unfolded ns]
  obtain np nx nq where n: "h p = Some np" "h x = Some nx" "h q = Some nq" "node_next nx = Some q" "node_prev nx = Some p"
    using r(2) by (auto simp: dseg_append)
  have d: "distinct [p, x, q]" using r(1) by auto
  have t: "touches h (heap_unlink h p q) (set (il_nodes l (A @ B)))"
    using n ns(2) by (auto simp: touches_def heap_unlink_def)
  have "distinct (il_nodes l (A @ B))" "dseg (heap_unlink h p q) None (il_nodes l (A @ B)) None"
    using r(1) dseg_unlink [OF r(2,1)] unfolding ns(2) by auto
  from il_rep_touched [OF rep t this] have "il_rep (heap_unlink h p q) l (A @ B)" by auto
  moreover note t
  moreover have "nd_remove h (Some x) = Inr (heap_unlink h p q)" using n d by (intro nd_remove_heap) auto
  moreover have "heap_unlink h p q x = h x" using d by (auto simp: heap_unlink_def)
  ultimately show thesis using that by blast
qed

text \<open>Linking an object that is in no list behind the objects \<open>A\<close>.\<close>

definition il_linked :: "'a nheap \<Rightarrow> 'a nheap \<Rightarrow> il_list \<Rightarrow> (addr \<times> 'a) list \<Rightarrow> addr \<Rightarrow> bool" where
  "il_linked h h' l ps new \<longleftrightarrow> il_rep h' l ps \<and> touches h h' (insert new (set (il_nodes l ps)))"

lemma il_link:
  assumes rep: "il_rep h l (A @ B)" and new: "h new = Some nn" "node_val nn = Some v" "new \<notin> set (il_nodes l (A @ B))"
  defines "p \<equiv> last (il_mHead l # map fst A)" and "q \<equiv> hd (map fst B @ [il_mTail l])"
  obtains h' where "nd_insertAfter h (Some p) (Some new) = Inr h'" "nd_insertBefore h (Some q) (Some new) = Inr h'"
    "il_linked h h' l (A @ (new, v) # B) new"
proof -
  obtain A' B' where ns: "il_nodes l (A @ B) = A' @ p # q # B'" "il_nodes l (A @ (new, v) # B) = A' @ p # new # q # B'"
  proof
    show "il_nodes l (A @ B) = butlast (il_mHead l # map fst A) @ p # q # tl (map fst B @ [il_mTail l])"
      unfolding p_def q_def by (rule il_nodes_split)
    show "il_nodes l (A @ (new, v) # B) = butlast (il_mHead l # map fst A) @ p # new # q # tl (map fst B @ [il_mTail l])"
      using il_nodes_split [of l A "(new, v) # B"] unfolding p_def q_def by (cases B) simp_all
  qed
  note r = il_repD(1,2) [OF rep, unfolded ns(1)]
  obtain np nq where n: "h p = Some np" "node_next np = Some q" "h q = Some nq" "node_prev nq = Some p"
    using dseg_adjacent r(2) by metis
  have d: "distinct [p, q, new]" "new \<notin> set (A' @ p # q # B')" using r(1) new(3) ns(1) by auto
  let ?h = "heap_insert h new v p q"
  have t: "touches h ?h (insert new (set (il_nodes l (A @ (new, v) # B))))"
    using n new d unfolding ns(2) by (auto simp: touches_def heap_insert_def)
  have seg: "dseg ?h None (il_nodes l (A @ (new, v) # B)) None" "distinct (il_nodes l (A @ (new, v) # B))"
    using dseg_insert [OF r(2,1) d(2)] r(1) d(2) unfolding ns(2) by auto
  have "\<forall>(a, w) \<in> set (A @ (new, v) # B). map_option node_val (h a) = Some (Some w)"
    using rep new(1,2) by (auto simp: il_rep_def)
  then have "il_rep ?h l (A @ (new, v) # B)"
    using seg touchesD(1) [OF t] unfolding il_rep_def by auto
  then have "il_linked h ?h l (A @ (new, v) # B) new" using t by (simp add: il_linked_def)
  moreover have "nd_insertAfter h (Some p) (Some new) = Inr ?h" using n new d by (intro nd_insertAfter_heap) auto
  moreover have "nd_insertBefore h (Some q) (Some new) = Inr ?h" using n new d by (intro nd_insertBefore_heap) auto
  ultimately show thesis using that by blast
qed

lemma il_push_back_rep:
  assumes "il_rep h l ps" "h new = Some nn" "node_val nn = Some v" "new \<notin> set (il_nodes l ps)"
  obtains h' where "il_push_back h l (Some new) = Inr h'" "il_linked h h' l (ps @ [(new, v)]) new"
proof -
  have "il_rep h l (ps @ [])" "new \<notin> set (il_nodes l (ps @ []))" using assms by simp_all
  from il_link [OF this(1) assms(2,3) this(2)] show thesis using that by (auto simp: il_push_back_def)
qed

lemma il_push_front_rep:
  assumes "il_rep h l ps" "h new = Some nn" "node_val nn = Some v" "new \<notin> set (il_nodes l ps)"
  obtains h' where "il_push_front h l (Some new) = Inr h'" "il_linked h h' l ((new, v) # ps) new"
proof -
  have "il_rep h l ([] @ ps)" "new \<notin> set (il_nodes l ([] @ ps))" using assms by simp_all
  from il_link [OF this(1) assms(2,3) this(2)] show thesis using that by (auto simp: il_push_front_def)
qed

section \<open>Walking a list\<close>

text \<open>The pointer to the first object of \<open>ps\<close>, or null.\<close>

definition first_of :: "(addr \<times> 'a) list \<Rightarrow> addr option" where
  "first_of ps = (case ps of [] \<Rightarrow> None | p # _ \<Rightarrow> Some (fst p))"

lemma first_of_simps [simp]: "first_of [] = None" "first_of (p # ps) = Some (fst p)"
  by (simp_all add: first_of_def)

lemma il_getHead_rep: "il_rep h l ps \<Longrightarrow> il_getHead h l = Inr (first_of ps)"
  by (cases ps) (auto simp: il_rep_def il_nodes_def il_getHead_def nd_defs)

lemma il_getTail_rep:
  assumes "il_rep h l ps"
  shows "il_getTail h l = Inr (first_of (rev ps))"
proof (cases ps rule: rev_cases)
  case Nil
  then show ?thesis using assms by (auto simp: il_rep_def il_nodes_def il_getTail_def nd_defs)
next
  case (snoc qs x)
  have "il_nodes l ps = (il_mHead l # map fst qs) @ [fst x, il_mTail l]" using snoc by (simp add: il_nodes_def)
  then have "dseg h (Some (last (il_mHead l # map fst qs))) [fst x, il_mTail l] None" "fst x \<noteq> il_mHead l"
    using il_repD(1,2) [OF assms] by (auto simp: dseg_append)
  then show ?thesis using snoc by (auto simp: il_getTail_def nd_defs)
qed

lemma il_empty_rep: "il_rep h l ps \<Longrightarrow> il_empty h l = Inr (ps = [])"
  by (cases ps) (auto simp: il_empty_def il_getHead_rep)

text \<open>\<open>il_from h l ps\<close>: the rest \<open>ps\<close> of a list from some object on, which is what a walk still reads.\<close>

definition il_from :: "'a nheap \<Rightarrow> il_list \<Rightarrow> (addr \<times> 'a) list \<Rightarrow> bool" where
  "il_from h l ps \<longleftrightarrow> distinct (map fst ps @ [il_mTail l]) \<and> (\<exists>p. dseg h p (map fst ps @ [il_mTail l]) None) \<and>
     (\<forall>(a, v) \<in> set ps. map_option node_val (h a) = Some (Some v))"

lemma il_rep_from:
  assumes "il_rep h l (A @ B)"
  shows "il_from h l B"
proof -
  have ns: "il_nodes l (A @ B) = (il_mHead l # map fst A) @ (map fst B @ [il_mTail l])" by (simp add: il_nodes_def)
  have "\<exists>p. dseg h p (map fst B @ [il_mTail l]) None"
    using iffD1 [OF dseg_append il_repD(2) [OF assms, unfolded ns]] by blast
  moreover have "distinct (map fst B @ [il_mTail l])"
    using il_repD(1) [OF assms] by (simp add: il_nodes_def)
  ultimately show ?thesis using assms unfolding il_from_def il_rep_def by auto
qed

lemma il_from_Cons:
  assumes "il_from h l ((a, v) # ps)"
  shows "nd_next h (Some a) = Inr (first_of ps)" "nd_value h (Some a) = Inr v" "il_from h l ps" "h a \<noteq> None"
proof -
  show "nd_next h (Some a) = Inr (first_of ps)" using assms by (cases ps; cases "tl ps") (auto simp: il_from_def nd_next_def nd_defs)
  show "nd_value h (Some a) = Inr v" "h a \<noteq> None" using assms by (auto simp: il_from_def nd_value_def nd_defs)
  show "il_from h l ps" using assms by (auto simp: il_from_def)
qed

lemma il_from_frame:
  assumes "il_from h l ps" "x \<notin> set (map fst ps)" "x \<noteq> il_mTail l"
  shows "il_from (h(x := n)) l ps"
  using assms by (force simp: il_from_def)

lemma il_count_from:
  "il_from h l ps \<Longrightarrow> length ps \<le> fuel \<Longrightarrow> 0 \<le> n \<Longrightarrow> n + int (length ps) < 2 ^ 31 \<Longrightarrow>
   il_count fuel h (first_of ps) n = Inr (n + int (length ps))"
proof (induction ps arbitrary: fuel n)
  case (Cons p ps)
  obtain a v where p: "p = (a, v)" by (cases p)
  obtain f where f: "fuel = Suc f" using Cons.prems(2) by (cases fuel) auto
  show ?case using il_from_Cons [OF Cons.prems(1) [unfolded p]] Cons.IH [of f "n + 1"] Cons.prems
    unfolding p f by simp
qed simp

lemma il_size_rep:
  assumes "il_rep h l ps" "length ps \<le> fuel" "length ps < 2 ^ 31"
  shows "il_size fuel h l = Inr (int (length ps))"
proof -
  have "il_from h l ps" using il_rep_from [of h l "[]" ps] assms(1) by simp
  from il_count_from [OF this assms(2), of 0] show ?thesis
    using assms(3) il_getHead_rep [OF assms(1)] by (simp add: il_size_def)
qed

lemma il_delete_all_from:
  "il_from h l ps \<Longrightarrow> length ps \<le> fuel \<Longrightarrow>
   il_delete_all fuel h (first_of ps) = Inr (h |` (- set (map fst ps)))"
proof (induction ps arbitrary: fuel h)
  case (Cons p ps)
  obtain a v where p: "p = (a, v)" by (cases p)
  obtain f where f: "fuel = Suc f" using Cons.prems(2) by (cases fuel) auto
  note c = il_from_Cons [OF Cons.prems(1) [unfolded p]]
  have "il_from (h(a := None)) l ps"
    using il_from_frame [OF c(3)] Cons.prems(1) by (auto simp: il_from_def p)
  then have "il_delete_all f (h(a := None)) (first_of ps) = Inr (h(a := None) |` (- set (map fst ps)))"
  proof (rule Cons.IH)
    show "length ps \<le> f" using Cons.prems(2) f by simp
  qed
  moreover have "h(a := None) |` (- set (map fst ps)) = h |` (- set (map fst (p # ps)))"
    by (auto simp: restrict_map_def p)
  moreover have "il_delete_all fuel h (first_of (p # ps)) = il_delete_all f (h(a := None)) (first_of ps)"
    using c(1,4) by (auto simp: f p nd_delete_def)
  ultimately show ?case by metis
qed (simp add: restrict_map_def)

lemma tl_find_from_from:
  "il_from h l ps \<Longrightarrow> length ps \<le> fuel \<Longrightarrow>
   tl_find_from fuel h match (first_of ps) = Inr (map_option fst (find (\<lambda>p. match (snd p)) ps))"
proof (induction ps arbitrary: fuel)
  case (Cons p ps)
  obtain a v where p: "p = (a, v)" by (cases p)
  obtain f where f: "fuel = Suc f" using Cons.prems(2) by (cases fuel) auto
  show ?case using il_from_Cons [OF Cons.prems(1) [unfolded p]] Cons.IH [of f] Cons.prems(2)
    unfolding p f by simp
qed simp

lemma tl_find_rep:
  assumes "il_rep h l ps" "length ps \<le> fuel"
  shows "tl_find fuel h l match = Inr (map_option fst (find (\<lambda>p. match (snd p)) ps))"
  using tl_find_from_from [OF il_rep_from [of h l "[]" ps] assms(2)] il_getHead_rep [OF assms(1)] assms(1)
  by (simp add: tl_find_def)

text \<open>The rest of the operations of a list.\<close>

lemma il_clear_rep:
  assumes rep: "il_rep h l ps" and fuel: "length ps \<le> fuel"
  obtains h' where "il_clear fuel h l = Inr h'" "il_rep h' l []" "dom h' = dom h - set (map fst ps)"
    "\<forall>a. a \<notin> set (il_nodes l ps) \<longrightarrow> h' a = h a"
proof -
  let ?h = "h |` (- set (map fst ps))"
  have "il_from h l ps" using il_rep_from [of h l "[]" ps] rep by simp
  note d = il_delete_all_from [OF this fuel]
  have ne: "il_mHead l \<noteq> il_mTail l" "il_mHead l \<notin> set (map fst ps)" "il_mTail l \<notin> set (map fst ps)"
    using il_repD(1) [OF rep] by (auto simp: il_nodes_def)
  obtain nh where nh: "h (il_mHead l) = Some nh" "node_prev nh = None"
    using il_repD(2) [OF rep] by (auto simp: il_nodes_def)
  have "dseg h None ((il_mHead l # map fst ps) @ [il_mTail l]) None"
    using il_repD(2) [OF rep] by (simp add: il_nodes_def)
  then obtain nt where nt: "h (il_mTail l) = Some nt" "node_next nt = None"
    unfolding dseg_append by auto
  let ?h' = "?h(il_mHead l \<mapsto> nh\<lparr>node_next := Some (il_mTail l)\<rparr>, il_mTail l \<mapsto> nt\<lparr>node_prev := Some (il_mHead l)\<rparr>)"
  have s: "?h (il_mHead l) = Some nh" "?h (il_mTail l) = Some nt" using ne nh nt by auto
  have "il_clear fuel h l = Inr ?h'"
  proof -
    let ?g = "?h(il_mHead l \<mapsto> nh\<lparr>node_next := Some (il_mTail l)\<rparr>)"
    have "?g (il_mTail l) = Some nt" using ne(1) s(2) by simp
    then show ?thesis unfolding il_clear_def il_getHead_rep [OF rep] d andThen_simps nd_put_at [of ?h, OF s(1)]
      by (simp only: andThen_simps nd_put_at)
  qed
  moreover have "il_rep ?h' l []"
  proof -
    have "?h' (il_mHead l) = Some (nh\<lparr>node_next := Some (il_mTail l)\<rparr>)"
      "?h' (il_mTail l) = Some (nt\<lparr>node_prev := Some (il_mHead l)\<rparr>)" using ne(1) by simp_all
    then show ?thesis using nh(2) nt(2) ne(1) by (simp add: il_rep_def il_nodes_def)
  qed
  moreover have "dom ?h' = dom h - set (map fst ps)"
  proof -
    have "dom ?h' = insert (il_mTail l) (insert (il_mHead l) (dom h - set (map fst ps)))"
      by (simp add: Diff_eq dom_restrict del: set_map)
    moreover have "il_mHead l \<in> dom h - set (map fst ps)" "il_mTail l \<in> dom h - set (map fst ps)"
      using nh nt ne by auto
    ultimately show ?thesis by (metis insert_absorb)
  qed
  moreover have "\<forall>a. a \<notin> set (il_nodes l ps) \<longrightarrow> ?h' a = h a" by (auto simp: il_nodes_def)
  ultimately show thesis using that by blast
qed

text \<open>Taking the first object out that matches, and freeing it.\<close>

definition il_without_first :: "('a \<Rightarrow> bool) \<Rightarrow> (addr \<times> 'a) list \<Rightarrow> (addr \<times> 'a) list" where
  "il_without_first match ps =
     takeWhile (\<lambda>p. \<not> match (snd p)) ps @ drop 1 (dropWhile (\<lambda>p. \<not> match (snd p)) ps)"

lemma il_without_first_subset: "set (il_without_first match ps) \<subseteq> set ps"
proof -
  let ?P = "\<lambda>p. \<not> match (snd p)"
  have "set ps = set (takeWhile ?P ps) \<union> set (dropWhile ?P ps)"
    by (metis set_append takeWhile_dropWhile_id)
  then show ?thesis using set_drop_subset [of 1 "dropWhile ?P ps"] by (auto simp: il_without_first_def)
qed

lemma il_without_first_length: "length (il_without_first match ps) \<le> length ps"
proof -
  let ?P = "\<lambda>p. \<not> match (snd p)"
  have "length ps = length (takeWhile ?P ps) + length (dropWhile ?P ps)"
    by (metis length_append takeWhile_dropWhile_id)
  then show ?thesis by (simp add: il_without_first_def)
qed

lemma find_split:
  "find P xs = (if \<exists>x \<in> set xs. P x then Some (hd (dropWhile (\<lambda>x. \<not> P x) xs)) else None)"
  by (induction xs) auto

text \<open>Removing and freeing one object.\<close>

lemma il_remove_delete:
  assumes rep: "il_rep h l (A @ (x, v) # B)"
  obtains h1 h' where "nd_remove h (Some x) = Inr h1" "nd_delete h1 (Some x) = Inr h'" "il_rep h' l (A @ B)"
    "dom h' = dom h - {x}" "\<forall>a. a \<notin> set (il_nodes l (A @ (x, v) # B)) \<longrightarrow> h' a = h a"
proof -
  obtain p q h1 where r: "nd_remove h (Some x) = Inr h1" "il_rep h1 l (A @ B)"
    "touches h h1 (set (il_nodes l (A @ B)))" "h1 x = h x" using il_unlink [OF rep] by metis
  have x: "x \<notin> set (il_nodes l (A @ B))" using il_repD(1) [OF rep] by (auto simp: il_nodes_def)
  have "h x \<noteq> None" using il_repD(3) [OF rep, of x v] by auto
  then have "nd_delete h1 (Some x) = Inr (h1(x := None))" using r(4) by (simp add: nd_delete_def)
  moreover have "il_rep (h1(x := None)) l (A @ B)" using il_rep_frame [OF r(2) x] .
  moreover have "dom (h1(x := None)) = dom h - {x}" using touchesD(4) [OF r(3)] by simp
  moreover have "\<forall>a. a \<notin> set (il_nodes l (A @ (x, v) # B)) \<longrightarrow> (h1(x := None)) a = h a"
    using touchesD(2) [OF r(3)] by (auto simp: il_nodes_def)
  ultimately show thesis using that r(1) by blast
qed

lemma tl_remove_rep:
  assumes rep: "il_rep h l ps" and fuel: "length ps \<le> fuel"
  obtains h' where "tl_remove fuel h l match = Inr (h', \<exists>p \<in> set ps. match (snd p))"
    "il_rep h' l (il_without_first match ps)"
    "dom h' = dom h - (set (map fst ps) - set (map fst (il_without_first match ps)))"
proof (cases "\<exists>p \<in> set ps. match (snd p)")
  case False
  then have "\<forall>p \<in> set ps. \<not> match (snd p)" by blast
  then have "takeWhile (\<lambda>p. \<not> match (snd p)) ps = ps" "dropWhile (\<lambda>p. \<not> match (snd p)) ps = []"
    by (simp_all add: takeWhile_eq_all_conv dropWhile_eq_Nil_conv)
  moreover from this have "tl_remove fuel h l match = Inr (h, False)"
    using tl_find_rep [OF rep fuel, of match] False by (simp add: tl_remove_def find_split)
  moreover from calculation(1,2) have "il_without_first match ps = ps"
    by (simp only: il_without_first_def drop_Nil append_Nil2)
  ultimately show thesis using that [of h] rep False by simp
next
  case True
  let ?A = "takeWhile (\<lambda>p. \<not> match (snd p)) ps"
  have "dropWhile (\<lambda>p. \<not> match (snd p)) ps \<noteq> []" using True by (simp add: dropWhile_eq_Nil_conv)
  then obtain x v B where d: "dropWhile (\<lambda>p. \<not> match (snd p)) ps = (x, v) # B"
    by (metis neq_Nil_conv prod.exhaust)
  have ps: "ps = ?A @ (x, v) # B" using takeWhile_dropWhile_id [of "\<lambda>p. \<not> match (snd p)" ps] d by simp
  have w: "il_without_first match ps = ?A @ B" using d by (simp add: il_without_first_def)
  obtain h1 h' where r: "nd_remove h (Some x) = Inr h1" "nd_delete h1 (Some x) = Inr h'" "il_rep h' l (?A @ B)"
    "dom h' = dom h - {x}"
    using il_remove_delete [of h l ?A x v B] rep ps by metis
  have "tl_find fuel h l match = Inr (Some x)" using tl_find_rep [OF rep fuel, of match] True d by (simp add: find_split)
  then have "tl_remove fuel h l match = Inr (h', True)" using r by (simp add: tl_remove_def)
  moreover have "set (map fst ps) - set (map fst (?A @ B)) = {x}"
  proof -
    have "distinct (map fst (?A @ (x, v) # B))" using il_repD(1) [OF rep] ps by (simp add: il_nodes_def)
    moreover have "set (map fst ps) = set (map fst (?A @ (x, v) # B))" by (subst ps) (rule refl)
    ultimately show ?thesis by auto
  qed
  ultimately show thesis using that [of h'] r(3,4) True by (simp only: w)
qed

text \<open>
  \<open>foreach\<close> reads the next pointer before it calls the function: the function may do anything that keeps
  the objects behind the one it is called with.
\<close>

lemma tl_foreach_from_inv:
  assumes step: "\<And>s h a v ps. I s h ((a, v) # ps) \<Longrightarrow> \<exists>s' h'. func s h a = Inr (s', h') \<and> I s' h' ps"
    and rest: "\<And>s h ps. I s h ps \<Longrightarrow> il_from h l ps"
  shows "I s h ps \<Longrightarrow> length ps \<le> fuel \<Longrightarrow>
    \<exists>s' h'. tl_foreach_from fuel func s h (first_of ps) = Inr (s', h') \<and> I s' h' []"
proof (induction ps arbitrary: fuel s h)
  case (Cons p ps)
  obtain a v where p: "p = (a, v)" by (cases p)
  obtain f where f: "fuel = Suc f" using Cons.prems(2) by (cases fuel) auto
  obtain s' h' where sh: "func s h a = Inr (s', h')" "I s' h' ps" using step Cons.prems(1) p by metis
  have "nd_next h (Some a) = Inr (first_of ps)" using il_from_Cons(1) rest Cons.prems(1) p by metis
  then show ?case using Cons.IH [OF sh(2), of f] sh(1) Cons.prems(2) by (simp add: p f)
qed simp

text \<open>\<open>foreach\<close> with a function that takes each object out and deletes it empties the list.\<close>

lemma tl_foreach_delete:
  assumes "il_rep h l ps" "length ps \<le> fuel"
  shows "\<exists>h'. tl_foreach fuel (\<lambda>s h a. andThen (nd_remove h (Some a)) (\<lambda>h. andThen (nd_delete h (Some a)) (\<lambda>h. Inr (s, h)))) () h l =
      Inr ((), h') \<and> il_rep h' l []"
proof -
  have "\<exists>s' h'. tl_foreach_from fuel (\<lambda>s h a. andThen (nd_remove h (Some a)) (\<lambda>h. andThen (nd_delete h (Some a)) (\<lambda>h. Inr (s, h)))) () h (first_of ps) =
      Inr (s', h') \<and> il_rep h' l []"
  proof (rule tl_foreach_from_inv [where I = "\<lambda>s h ps. il_rep h l ps"])
    fix s :: unit and h :: "'a nheap" and a v ps
    assume "il_rep h l ((a, v) # ps)"
    then have "il_rep h l ([] @ (a, v) # ps)" by simp
    then obtain h1 h' where "nd_remove h (Some a) = Inr h1" "nd_delete h1 (Some a) = Inr h'" "il_rep h' l ([] @ ps)"
      using il_remove_delete by metis
    then show "\<exists>s' h'. andThen (nd_remove h (Some a)) (\<lambda>h. andThen (nd_delete h (Some a)) (\<lambda>h. Inr (s, h))) = Inr (s', h') \<and> il_rep h' l ps"
      by simp
  next
    fix h :: "'a nheap" and ps
    show "il_rep h l ps \<Longrightarrow> il_from h l ps" using il_rep_from [of h l "[]" ps] by simp
  qed (use assms in auto)
  then show ?thesis using il_getHead_rep [OF assms(1)] by (auto simp: tl_foreach_def)
qed

section \<open>Sequences of operations\<close>

text \<open>
  What a client does with one list: make an object at an address that is not in use and link it, take an
  object out and delete it, remove by comparison, delete all. \<open>il_spec\<close> is the same on a list of pairs;
  it has no result when the client breaks the rules.
\<close>

datatype 'a il_op = IlPushBack addr 'a | IlPushFront addr 'a | IlTakeOut addr | IlRemove "'a \<Rightarrow> bool" | IlClear

fun il_step :: "nat \<Rightarrow> il_list \<Rightarrow> 'a il_op \<Rightarrow> 'a nheap \<Rightarrow> 'a nheap outcome" where
  "il_step fuel l (IlPushBack a v) h = il_push_back (h(a \<mapsto> nd_Node (Some v))) l (Some a)"
| "il_step fuel l (IlPushFront a v) h = il_push_front (h(a \<mapsto> nd_Node (Some v))) l (Some a)"
| "il_step fuel l (IlTakeOut a) h = andThen (nd_remove h (Some a)) (\<lambda>h. nd_delete h (Some a))"
| "il_step fuel l (IlRemove match) h = andThen (tl_remove fuel h l match) (\<lambda>(h, _). Inr h)"
| "il_step fuel l IlClear h = il_clear fuel h l"

fun il_spec :: "il_list \<Rightarrow> 'a il_op \<Rightarrow> (addr \<times> 'a) list \<Rightarrow> (addr \<times> 'a) list option" where
  "il_spec l (IlPushBack a v) ps = (if a \<in> set (il_nodes l ps) then None else Some (ps @ [(a, v)]))"
| "il_spec l (IlPushFront a v) ps = (if a \<in> set (il_nodes l ps) then None else Some ((a, v) # ps))"
| "il_spec l (IlTakeOut a) ps = (if a \<in> set (map fst ps) then Some (filter (\<lambda>p. fst p \<noteq> a) ps) else None)"
| "il_spec l (IlRemove match) ps = Some (il_without_first match ps)"
| "il_spec l IlClear ps = Some []"

fun il_run :: "nat \<Rightarrow> il_list \<Rightarrow> 'a il_op list \<Rightarrow> 'a nheap \<Rightarrow> 'a nheap outcome" where
  "il_run fuel l [] h = Inr h"
| "il_run fuel l (op # ops) h = andThen (il_step fuel l op h) (il_run fuel l ops)"

fun il_spec_run :: "il_list \<Rightarrow> 'a il_op list \<Rightarrow> (addr \<times> 'a) list \<Rightarrow> (addr \<times> 'a) list option" where
  "il_spec_run l [] ps = Some ps"
| "il_spec_run l (op # ops) ps = Option.bind (il_spec l op ps) (il_spec_run l ops)"

text \<open>The list and nothing else is allocated.\<close>

definition il_holds :: "'a nheap \<Rightarrow> il_list \<Rightarrow> (addr \<times> 'a) list \<Rightarrow> bool" where
  "il_holds h l ps \<longleftrightarrow> il_rep h l ps \<and> dom h = set (il_nodes l ps)"

lemma il_linked_holds:
  assumes "il_holds h l ps" "a \<notin> set (il_nodes l ps)" "il_linked (h(a \<mapsto> nd_Node (Some v))) h' l qs a"
    "set (il_nodes l qs) = insert a (set (il_nodes l ps))"
  shows "il_holds h' l qs"
  using assms touchesD(4) [of "h(a \<mapsto> nd_Node (Some v))" h'] by (auto simp: il_holds_def il_linked_def)

lemma il_step_holds:
  assumes h: "il_holds h l ps" and spec: "il_spec l op ps = Some qs" and fuel: "length ps \<le> fuel"
  obtains h' where "il_step fuel l op h = Inr h'" "il_holds h' l qs"
proof -
  have rep: "il_rep h l ps" and dm: "dom h = set (il_nodes l ps)" using h by (auto simp: il_holds_def)
  have fresh: "il_rep (h(a \<mapsto> nd_Node (Some v))) l ps" if "a \<notin> set (il_nodes l ps)" for a v
    using il_rep_frame [OF rep that] .
  have new: "(h(a \<mapsto> nd_Node (Some v))) a = Some (nd_Node (Some v))" "node_val (nd_Node (Some v)) = Some v" for a v
    by (simp_all add: nd_Node_def)
  have "\<exists>h'. il_step fuel l op h = Inr h' \<and> il_holds h' l qs"
  proof (cases op)
    case (IlPushBack a v)
    then have a: "a \<notin> set (il_nodes l ps)" and qs: "qs = ps @ [(a, v)]" using spec by (auto split: if_splits)
    obtain h' where "il_push_back (h(a \<mapsto> nd_Node (Some v))) l (Some a) = Inr h'"
      "il_linked (h(a \<mapsto> nd_Node (Some v))) h' l (ps @ [(a, v)]) a"
      using il_push_back_rep [OF fresh [OF a] new a] by metis
    then show ?thesis using il_linked_holds [OF h a, of v h' qs] qs IlPushBack by (auto simp: il_nodes_def)
  next
    case (IlPushFront a v)
    then have a: "a \<notin> set (il_nodes l ps)" and qs: "qs = (a, v) # ps" using spec by (auto split: if_splits)
    obtain h' where "il_push_front (h(a \<mapsto> nd_Node (Some v))) l (Some a) = Inr h'"
      "il_linked (h(a \<mapsto> nd_Node (Some v))) h' l ((a, v) # ps) a"
      using il_push_front_rep [OF fresh [OF a] new a] by metis
    then show ?thesis using il_linked_holds [OF h a, of v h' qs] qs IlPushFront by (auto simp: il_nodes_def)
  next
    case (IlTakeOut a)
    then have "a \<in> set (map fst ps)" and qs: "qs = filter (\<lambda>p. fst p \<noteq> a) ps" using spec by (auto split: if_splits)
    then obtain A v B where ps: "ps = A @ (a, v) # B" by (auto dest!: split_list)
    have d: "a \<notin> set (map fst (A @ B))" "a \<noteq> il_mHead l" "a \<noteq> il_mTail l"
      using il_repD(1) [OF rep] ps by (auto simp: il_nodes_def)
    have "\<forall>p \<in> set (A @ B). fst p \<noteq> a" using d(1) by (metis image_eqI set_map)
    then have "filter (\<lambda>p. fst p \<noteq> a) A = A" "filter (\<lambda>p. fst p \<noteq> a) B = B" by (simp_all add: filter_id_conv)
    then have "qs = A @ B" using qs ps by simp
    moreover obtain h1 h' where "nd_remove h (Some a) = Inr h1" "nd_delete h1 (Some a) = Inr h'" "il_rep h' l (A @ B)"
      "dom h' = dom h - {a}" using il_remove_delete rep [unfolded ps] by metis
    moreover have "set (il_nodes l ps) - {a} = set (il_nodes l (A @ B))" using d ps by (auto simp: il_nodes_def)
    ultimately show ?thesis using IlTakeOut dm by (simp add: il_holds_def)
  next
    case (IlRemove match)
    obtain h' where r: "tl_remove fuel h l match = Inr (h', \<exists>p \<in> set ps. match (snd p))" "il_rep h' l qs"
      "dom h' = dom h - (set (map fst ps) - set (map fst qs))"
      using tl_remove_rep [OF rep fuel, of match] spec IlRemove by auto
    have "set qs \<subseteq> set ps" using spec IlRemove il_without_first_subset [of match ps] by simp
    then have "set (map fst qs) \<subseteq> set (map fst ps)" by auto
    moreover have "il_mHead l \<notin> set (map fst ps)" "il_mTail l \<notin> set (map fst ps)"
      using il_repD(1) [OF rep] by (auto simp: il_nodes_def)
    ultimately have "dom h - (set (map fst ps) - set (map fst qs)) = set (il_nodes l qs)"
      using dm by (auto simp: il_nodes_def)
    then show ?thesis using r IlRemove by (simp add: il_holds_def)
  next
    case IlClear
    obtain h' where r: "il_clear fuel h l = Inr h'" "il_rep h' l []" "dom h' = dom h - set (map fst ps)"
      using il_clear_rep [OF rep fuel] by metis
    have "il_mHead l \<notin> set (map fst ps)" "il_mTail l \<notin> set (map fst ps)"
      using il_repD(1) [OF rep] by (auto simp: il_nodes_def)
    then have "dom h' = set (il_nodes l [])" using r(3) dm by (auto simp: il_nodes_def)
    then show ?thesis using r spec IlClear by (auto simp: il_holds_def)
  qed
  then show thesis using that by blast
qed

lemma il_spec_length: "il_spec l op ps = Some qs \<Longrightarrow> length qs \<le> length ps + 1"
  by (cases op) (auto simp del: set_map split: if_splits intro: le_SucI il_without_first_length length_filter_le)

lemma il_run_holds:
  "il_holds h l ps \<Longrightarrow> il_spec_run l ops ps = Some qs \<Longrightarrow> length ps + length ops \<le> fuel \<Longrightarrow>
   \<exists>h'. il_run fuel l ops h = Inr h' \<and> il_holds h' l qs"
proof (induction ops arbitrary: h ps)
  case (Cons op ops)
  obtain rs where rs: "il_spec l op ps = Some rs" "il_spec_run l ops rs = Some qs"
    using Cons.prems(2) by (auto split: bind_splits)
  obtain h1 where h1: "il_step fuel l op h = Inr h1" "il_holds h1 l rs"
    using il_step_holds [OF Cons.prems(1) rs(1), of fuel] Cons.prems(3) by auto
  show ?case using Cons.IH [OF h1(2) rs(2)] il_spec_length [OF rs(1)] Cons.prems(3) h1(1) by simp
qed simp

text \<open>
  C32: Making a list and doing to it any sequence of operations that follows the rules of the class never
  reads or writes through a null pointer or a pointer to a freed object, and each loop ends. The list then holds the objects
  that the same operations on a list of pairs give, in this order; nothing else is allocated, so that what was deleted is freed;
  \<open>size\<close> is the number of the objects, \<open>getHead\<close> and \<open>getTail\<close> are the first and the last or null, and \<open>find\<close> is the first that matches.
\<close>

theorem il_run_refines:
  fixes ops :: "'a il_op list"
  assumes "il_mHead l \<noteq> il_mTail l" "il_spec_run l ops [] = Some ps" "length ops \<le> fuel" "fuel < 2 ^ 31"
  shows "\<exists>h h'. il_List Map.empty l = Inr h \<and> il_run fuel l ops h = Inr h' \<and> il_rep h' l ps \<and>
    dom h' = set (il_nodes l ps) \<and> il_size fuel h' l = Inr (int (length ps)) \<and>
    il_getHead h' l = Inr (first_of ps) \<and> il_getTail h' l = Inr (first_of (rev ps)) \<and> il_empty h' l = Inr (ps = []) \<and>
    (\<forall>match. tl_find fuel h' l match = Inr (map_option fst (find (\<lambda>p. match (snd p)) ps)))"
proof -
  obtain h :: "'a nheap" where h: "il_List Map.empty l = Inr h" "il_rep h l []" "dom h = {il_mHead l, il_mTail l}"
    by (rule il_new_rep [OF assms(1), of "Map.empty :: 'a nheap"]) simp
  then have "il_holds h l []" by (auto simp: il_holds_def il_nodes_def)
  from il_run_holds [OF this assms(2), of fuel] obtain h' where
    h': "il_run fuel l ops h = Inr h'" "il_holds h' l ps" using assms(3) by auto
  have "length ps \<le> fuel"
  proof -
    have "il_spec_run l ops qs = Some ps \<Longrightarrow> length ps \<le> length qs + length ops" for qs
    proof (induction ops arbitrary: qs)
      case (Cons op ops)
      obtain rs where rs: "il_spec l op qs = Some rs" "il_spec_run l ops rs = Some ps"
        using Cons.prems by (auto split: bind_splits)
      show ?case using Cons.IH [OF rs(2)] il_spec_length [OF rs(1)] by simp
    qed simp
    from this [OF assms(2)] show ?thesis using assms(3) by simp
  qed
  moreover have r: "il_rep h' l ps" "dom h' = set (il_nodes l ps)" using h'(2) by (auto simp: il_holds_def)
  ultimately have "il_size fuel h' l = Inr (int (length ps))" "\<forall>match. tl_find fuel h' l match = Inr (map_option fst (find (\<lambda>p. match (snd p)) ps))"
    using il_size_rep [OF r(1), of fuel] tl_find_rep [OF r(1), of fuel] assms(4) by auto
  then show ?thesis using h(1) h'(1) r il_getHead_rep [OF r(1)] il_getTail_rep [OF r(1)] il_empty_rep [OF r(1)] by blast
qed

lemma il_run_refines_witness:
  "\<exists>h h'. il_List Map.empty \<lparr>il_mHead = 0, il_mTail = 1\<rparr> = Inr h \<and>
    il_run 6 \<lparr>il_mHead = 0, il_mTail = 1\<rparr>
      [IlPushBack 10 (1::nat), IlPushBack 20 2, IlPushFront 30 3, IlRemove (\<lambda>v. v = 2), IlPushBack 20 5, IlTakeOut 30] h = Inr h' \<and>
    il_rep h' \<lparr>il_mHead = 0, il_mTail = 1\<rparr> [(10, 1), (20, 5)] \<and>
    il_size 6 h' \<lparr>il_mHead = 0, il_mTail = 1\<rparr> = Inr 2 \<and> il_getTail h' \<lparr>il_mHead = 0, il_mTail = 1\<rparr> = Inr (Some 20)"
proof -
  let ?l = "\<lparr>il_mHead = 0, il_mTail = 1\<rparr>"
  let ?ops = "[IlPushBack 10 (1::nat), IlPushBack 20 2, IlPushFront 30 3, IlRemove (\<lambda>v. v = 2), IlPushBack 20 5, IlTakeOut 30]"
  have "il_spec_run ?l ?ops [] = Some [(10, 1), (20, 5)]" by (simp add: il_nodes_def il_without_first_def)
  then show ?thesis using il_run_refines [of ?l ?ops "[(10, 1), (20, 5)]" 6] by fastforce
qed

text \<open>
  An object keeps its links when it is taken out: taking it out again takes out what has come to its place
  in the meantime, which nobody asked for.
\<close>

theorem il_remove_twice:
  assumes "il_rep h l [(x, v)]" "h y = Some n" "node_val n = Some w" "y \<notin> set (il_nodes l [(x, v)])"
  shows "\<exists>h'. andThen (nd_remove h (Some x)) (\<lambda>h. andThen (il_push_back h l (Some y)) (\<lambda>h. nd_remove h (Some x))) = Inr h' \<and>
    il_rep h' l [] \<and> h' y \<noteq> None"
proof -
  obtain nh nt nx where links: "h (il_mHead l) = Some nh" "node_prev nh = None" "h (il_mTail l) = Some nt" "node_next nt = None"
    "h x = Some nx" "node_next nx = Some (il_mTail l)" "node_prev nx = Some (il_mHead l)"
    using assms(1) by (auto simp: il_rep_def il_nodes_def)
  have d: "distinct [il_mHead l, x, il_mTail l]" "y \<noteq> il_mHead l" "y \<noteq> x" "y \<noteq> il_mTail l"
    using il_repD(1) [OF assms(1)] assms(4) by (auto simp: il_nodes_def)
  then show ?thesis using links assms(2,3)
    by (auto simp: nd_remove_def il_push_back_def nd_insertBefore_def nd_defs il_rep_def il_nodes_def)
qed

end
