(* ===== verification/GCHeap.thy ===== *)
theory GCHeap
  imports IntrusiveList
begin

text \<open>
  The heap that accounts for what is allocated, of src/include/jh_memory.h and src/jh_memory.cpp as it is built with
  \<open>GCHEAP_ENABLED\<close>: the operators \<open>new\<close> and \<open>delete\<close> of the program put a header before each block and
  link the headers into a list of \<open>IntrusiveList\<close>. What \<open>malloc\<close> answers is an argument of the calls. Pointers have 8 bytes.
  The memory behind the headers is not modelled, nor what a client writes over a header.
\<close>

section \<open>State\<close>

record obj_info =
  oi_magic :: u32
  oi_refCnt :: int
  oi_ptr :: addr
  oi_size :: u32
  oi_heap :: addr
  oi_file :: string
  oi_line :: int

text \<open>An \<open>int\<close> that sizes are added to is its 32 bits; it is compared with sign.\<close>

record gcheap =
  gh_mObjects :: il_list
  gh_mCurrentSize :: u32
  gh_mMaxSize :: u32
  gh_mNumTotalAllocations :: int
  gh_mNumCurrentAllocations :: int

text \<open>The headers and lists in memory, the heaps, and the static member \<open>defaultHeap\<close>.\<close>

record gc_process =
  gp_nodes :: "obj_info nheap"
  gp_heaps :: "addr \<Rightarrow> gcheap option"
  gp_defaultHeap :: "addr option"

definition GC_PTR_SIZE :: nat where "GC_PTR_SIZE = 8"

definition GC_ALIGN_SIZE :: "nat \<Rightarrow> nat" where
  "GC_ALIGN_SIZE n = (n + GC_PTR_SIZE - 1) div GC_PTR_SIZE * GC_PTR_SIZE"

text \<open>A table pointer, two links, five members of 4 or 8 bytes with padding, a line number.\<close>

definition sizeof_ObjInfo :: nat where "sizeof_ObjInfo = 72"

definition GC_NODE_SIZE :: nat where "GC_NODE_SIZE = GC_ALIGN_SIZE sizeof_ObjInfo"

definition MAGIC_ALLOCED :: u32 where "MAGIC_ALLOCED = 0xfeedbeef"
definition MAGIC_FREED :: u32 where "MAGIC_FREED = 0xdeadbeef"

lemma GC_NODE_SIZE_eq [simp]: "GC_NODE_SIZE = 72"
  by (simp add: GC_NODE_SIZE_def GC_ALIGN_SIZE_def GC_PTR_SIZE_def sizeof_ObjInfo_def)

definition gc_heap :: "gc_process \<Rightarrow> addr \<Rightarrow> gcheap outcome" where
  "gc_heap P this = (case gp_heaps P this of None \<Rightarrow> Inl UndefinedBehaviour | Some h \<Rightarrow> Inr h)"

definition gc_set_heap :: "gc_process \<Rightarrow> addr \<Rightarrow> gcheap \<Rightarrow> gc_process" where
  "gc_set_heap P this h = P\<lparr>gp_heaps := (gp_heaps P)(this \<mapsto> h)\<rparr>"

definition int_inc :: "int \<Rightarrow> int outcome" where
  "int_inc n = (if n = 2 ^ 31 - 1 then Inl UndefinedBehaviour else Inr (n + 1))"

definition int_dec :: "int \<Rightarrow> int outcome" where
  "int_dec n = (if n = - (2 ^ 31) then Inl UndefinedBehaviour else Inr (n - 1))"

section \<open>Operations\<close>

text \<open>
  The object of a heap at \<open>p\<close>: the list is its first member, with a table pointer before its two nodes.
\<close>

definition gc_GCHeap :: "gc_process \<Rightarrow> addr \<Rightarrow> gc_process outcome" where
  "gc_GCHeap P p =
     (let l = \<lparr>il_mHead = p + 8, il_mTail = p + 32\<rparr> in
      andThen (il_List (gp_nodes P) l) (\<lambda>ns.
      Inr (gc_set_heap (P\<lparr>gp_nodes := ns\<rparr>) p
        \<lparr>gh_mObjects = l, gh_mCurrentSize = 0, gh_mMaxSize = 0, gh_mNumTotalAllocations = 0, gh_mNumCurrentAllocations = 0\<rparr>)))"

definition gc_InitCheck :: "gc_process \<Rightarrow> addr option \<Rightarrow> gc_process outcome" where
  "gc_InitCheck P m =
     (if gp_defaultHeap P = None
      then (case m of None \<Rightarrow> Inl UndefinedBehaviour
            | Some p \<Rightarrow> andThen (gc_GCHeap P p) (\<lambda>P. Inr (P\<lparr>gp_defaultHeap := Some p\<rparr>)))
      else Inr P)"

text \<open>
  The request is a \<open>size_t\<close> that wraps. The header is written to what \<open>malloc\<close> answers without a look at it: when that is null,
  or shorter than a header, this is undefined behaviour.
\<close>

definition gc_alloc :: "gc_process \<Rightarrow> addr \<Rightarrow> nat \<Rightarrow> string \<Rightarrow> int \<Rightarrow> addr option \<Rightarrow> (gc_process \<times> addr) outcome" where
  "gc_alloc P this sz file line m =
     (case m of None \<Rightarrow> Inl UndefinedBehaviour
      | Some p \<Rightarrow>
        if (sz + GC_NODE_SIZE) mod 2 ^ 64 < sizeof_ObjInfo then Inl UndefinedBehaviour else
        let obj = \<lparr>oi_magic = MAGIC_ALLOCED, oi_refCnt = 0, oi_ptr = p + GC_NODE_SIZE, oi_size = of_nat sz, oi_heap = this,
                   oi_file = file, oi_line = line\<rparr>;
            P = P\<lparr>gp_nodes := (gp_nodes P)(p \<mapsto> nd_Node (Some obj))\<rparr>
        in
        andThen (gc_heap P this) (\<lambda>h.
        andThen (il_push_front (gp_nodes P) (gh_mObjects h) (Some p)) (\<lambda>ns.
        let h = h\<lparr>gh_mCurrentSize := gh_mCurrentSize h + of_nat sz\<rparr>;
            h = (if sint (gh_mCurrentSize h) > sint (gh_mMaxSize h) then h\<lparr>gh_mMaxSize := gh_mCurrentSize h\<rparr> else h)
        in
        andThen (int_inc (gh_mNumTotalAllocations h)) (\<lambda>t.
        andThen (int_inc (gh_mNumCurrentAllocations h)) (\<lambda>c.
        Inr (gc_set_heap (P\<lparr>gp_nodes := ns\<rparr>) this (h\<lparr>gh_mNumTotalAllocations := t, gh_mNumCurrentAllocations := c\<rparr>), p))))))"

definition gc_free :: "gc_process \<Rightarrow> addr \<Rightarrow> addr \<Rightarrow> gc_process outcome" where
  "gc_free P this info =
     andThen (nd_value (gp_nodes P) (Some info)) (\<lambda>v.
     if oi_magic v \<noteq> MAGIC_ALLOCED then Inl Fatal else
     if oi_refCnt v \<noteq> 0 then Inl Fatal else
     andThen (gc_heap P this) (\<lambda>h.
     let h = h\<lparr>gh_mCurrentSize := gh_mCurrentSize h - oi_size v\<rparr> in
     andThen (int_dec (gh_mNumCurrentAllocations h)) (\<lambda>c.
     let h = h\<lparr>gh_mNumCurrentAllocations := c\<rparr> in
     andThen (nd_remove (gp_nodes P) (Some info)) (\<lambda>ns.
     andThen (nd_put ns (Some info) (\<lambda>n. n\<lparr>node_val := map_option (\<lambda>v. v\<lparr>oi_magic := MAGIC_FREED\<rparr>) (node_val n)\<rparr>)) (\<lambda>ns.
     andThen (nd_delete ns (Some info)) (\<lambda>ns.
     Inr (gc_set_heap (P\<lparr>gp_nodes := ns\<rparr>) this h)))))))"

definition oi_contains :: "addr \<Rightarrow> obj_info \<Rightarrow> bool" where
  "oi_contains q obj \<longleftrightarrow> q \<ge> oi_ptr obj \<and> q < oi_ptr obj + unat (oi_size obj)"

fun gc_find_loop :: "nat \<Rightarrow> obj_info nheap \<Rightarrow> addr \<Rightarrow> addr option \<Rightarrow> addr option outcome" where
  "gc_find_loop fuel ns q None = Inr None"
| "gc_find_loop 0 ns q (Some a) = Inl NoReturn"
| "gc_find_loop (Suc fuel) ns q (Some a) =
     andThen (nd_value ns (Some a)) (\<lambda>obj.
     if oi_contains q obj then Inr (Some a)
     else andThen (nd_next ns (Some a)) (\<lambda>p. gc_find_loop fuel ns q p))"

definition gc_find :: "nat \<Rightarrow> gc_process \<Rightarrow> addr \<Rightarrow> addr \<Rightarrow> addr option outcome" where
  "gc_find fuel P this q =
     andThen (gc_heap P this) (\<lambda>h.
     andThen (il_getHead (gp_nodes P) (gh_mObjects h)) (gc_find_loop fuel (gp_nodes P) q))"

definition gc_quick_find :: "addr \<Rightarrow> addr outcome" where
  "gc_quick_find q = (if GC_NODE_SIZE \<le> q then Inr (q - GC_NODE_SIZE) else Inl UndefinedBehaviour)"

text \<open>The lines that are printed, with the numbers as \<^verbatim>\<open>%d\<close> shows them.\<close>

datatype gc_line = Total_number int | Max_size int | Leaked int int | Alloced string int int | Corrupted string int
  | Items_allocated int

fun gc_dump_loop :: "nat \<Rightarrow> obj_info nheap \<Rightarrow> addr option \<Rightarrow> gc_line list outcome" where
  "gc_dump_loop fuel ns None = Inr []"
| "gc_dump_loop 0 ns (Some a) = Inl NoReturn"
| "gc_dump_loop (Suc fuel) ns (Some a) =
     andThen (nd_value ns (Some a)) (\<lambda>obj.
     let line = (if oi_magic obj = MAGIC_ALLOCED then Alloced (oi_file obj) (oi_line obj) (sint (oi_size obj))
                 else Corrupted (oi_file obj) (oi_line obj)) in
     andThen (nd_next ns (Some a)) (\<lambda>p. andThen (gc_dump_loop fuel ns p) (\<lambda>ls. Inr (line # ls))))"

definition gc_dumpList :: "nat \<Rightarrow> gc_process \<Rightarrow> addr \<Rightarrow> gc_line list outcome" where
  "gc_dumpList fuel P this =
     andThen (gc_heap P this) (\<lambda>h.
     andThen (il_getHead (gp_nodes P) (gh_mObjects h)) (\<lambda>p.
     andThen (gc_dump_loop fuel (gp_nodes P) p) (\<lambda>ls.
     Inr (ls @ [Items_allocated (gh_mNumCurrentAllocations h)]))))"

definition gc_destroy :: "nat \<Rightarrow> gc_process \<Rightarrow> addr \<Rightarrow> gc_line list outcome" where
  "gc_destroy fuel P this =
     andThen (gc_heap P this) (\<lambda>h.
     let first = [Total_number (gh_mNumTotalAllocations h), Max_size (sint (gh_mMaxSize h))] in
     andThen (il_empty (gp_nodes P) (gh_mObjects h)) (\<lambda>e.
     if \<not> e
     then andThen (gc_dumpList fuel P this) (\<lambda>ls.
          Inr (first @ [Leaked (gh_mNumCurrentAllocations h) (sint (gh_mCurrentSize h))] @ ls))
     else Inr first))"

section \<open>The operators and the counts\<close>

text \<open>\<open>mh\<close> is what \<open>malloc\<close> answers to the request for the heap, if there is none yet, \<open>m\<close> for the block.\<close>

definition op_new_at :: "gc_process \<Rightarrow> nat \<Rightarrow> string \<Rightarrow> int \<Rightarrow> addr option \<Rightarrow> addr option \<Rightarrow> (gc_process \<times> addr) outcome" where
  "op_new_at P sz file line mh m =
     andThen (gc_InitCheck P mh) (\<lambda>P.
     case gp_defaultHeap P of None \<Rightarrow> Inl UndefinedBehaviour
     | Some g \<Rightarrow> andThen (gc_alloc P g sz file line m) (\<lambda>(P, info).
         andThen (nd_value (gp_nodes P) (Some info)) (\<lambda>v. Inr (P, oi_ptr v))))"

definition op_new :: "gc_process \<Rightarrow> nat \<Rightarrow> addr option \<Rightarrow> addr option \<Rightarrow> (gc_process \<times> addr) outcome" where
  "op_new P sz mh m = op_new_at P sz ''non-jh_new'' 0 mh m"

definition op_new_array :: "gc_process \<Rightarrow> nat \<Rightarrow> addr option \<Rightarrow> addr option \<Rightarrow> (gc_process \<times> addr) outcome" where
  "op_new_array P sz mh m = op_new_at P sz ''non-jh_new[]'' 0 mh m"

definition op_delete :: "gc_process \<Rightarrow> addr option \<Rightarrow> gc_process outcome" where
  "op_delete P p =
     (case p of None \<Rightarrow> Inr P
      | Some q \<Rightarrow> andThen (gc_quick_find q) (\<lambda>info.
          andThen (nd_value (gp_nodes P) (Some info)) (\<lambda>v. gc_free P (oi_heap v) info)))"

definition oi_update :: "gc_process \<Rightarrow> addr \<Rightarrow> (obj_info \<Rightarrow> obj_info) \<Rightarrow> gc_process outcome" where
  "oi_update P info f =
     andThen (nd_value (gp_nodes P) (Some info)) (\<lambda>v.
     andThen (nd_put (gp_nodes P) (Some info) (\<lambda>n. n\<lparr>node_val := Some (f v)\<rparr>)) (\<lambda>ns. Inr (P\<lparr>gp_nodes := ns\<rparr>)))"

definition oi_AddRef :: "gc_process \<Rightarrow> addr \<Rightarrow> gc_process outcome" where
  "oi_AddRef P info =
     andThen (nd_value (gp_nodes P) (Some info)) (\<lambda>v.
     andThen (int_inc (oi_refCnt v)) (\<lambda>n. oi_update P info (\<lambda>v. v\<lparr>oi_refCnt := n\<rparr>)))"

definition oi_Release :: "gc_process \<Rightarrow> addr \<Rightarrow> gc_process outcome" where
  "oi_Release P info =
     andThen (nd_value (gp_nodes P) (Some info)) (\<lambda>v.
     andThen (int_dec (oi_refCnt v)) (\<lambda>n.
     if n \<ge> 0 then oi_update P info (\<lambda>v. v\<lparr>oi_refCnt := n\<rparr>) else Inl Fatal))"

section \<open>The abstract heap\<close>

text \<open>The blocks that are allocated, the newest first, the greatest total of their sizes so far, and their number so far.\<close>

record gc_block =
  gb_ptr :: addr
  gb_size :: nat
  gb_file :: string
  gb_line :: int
  gb_refs :: int

record gc_spec =
  gs_blocks :: "gc_block list"
  gs_peak :: nat
  gs_total :: nat

definition in_use :: "gc_block list \<Rightarrow> nat" where
  "in_use bs = sum_list (map gb_size bs)"

lemma in_use_simps [simp]: "in_use [] = 0" "in_use (b # bs) = gb_size b + in_use bs"
  "in_use (bs @ cs) = in_use bs + in_use cs"
  by (simp_all add: in_use_def)

definition regions_apart :: "addr \<Rightarrow> nat \<Rightarrow> addr \<Rightarrow> nat \<Rightarrow> bool" where
  "regions_apart a n b m \<longleftrightarrow> a + n \<le> b \<or> b + m \<le> a"

text \<open>
  What \<open>malloc\<close> promises: the memory that it answers for a block of \<open>n\<close> bytes and its header touches neither the heap object at \<open>g\<close>
  nor what is allocated.
\<close>

definition malloc_ok :: "addr \<Rightarrow> addr \<Rightarrow> nat \<Rightarrow> gc_block list \<Rightarrow> bool" where
  "malloc_ok g p n bs \<longleftrightarrow> regions_apart p (n + 72) g 72 \<and>
     (\<forall>b \<in> set bs. 72 \<le> gb_ptr b \<and> regions_apart p (n + 72) (gb_ptr b - 72) (gb_size b + 72))"

text \<open>
  What a client does: it makes a block with one of the operators, deletes one, and counts up and down. The rules: the total of the sizes
  and the number of allocations stay below \<open>2 ^ 31\<close>, only what is allocated is deleted and counted, and a block is deleted
  when its count is 0.
\<close>

datatype gc_call = GcNew nat string int addr | GcDelete addr | GcAddRef addr | GcRelease addr

definition block_at :: "addr \<Rightarrow> gc_block list \<Rightarrow> gc_block option" where
  "block_at q bs = find (\<lambda>b. gb_ptr b = q) bs"

fun gs_call :: "addr \<Rightarrow> gc_call \<Rightarrow> gc_spec \<Rightarrow> gc_spec option" where
  "gs_call g (GcNew n file line p) s =
     (if malloc_ok g p n (gs_blocks s) \<and> in_use (gs_blocks s) + n < 2 ^ 31 \<and> gs_total s + 1 < 2 ^ 31
      then Some (s\<lparr>gs_blocks := \<lparr>gb_ptr = p + 72, gb_size = n, gb_file = file, gb_line = line, gb_refs = 0\<rparr> # gs_blocks s,
                   gs_peak := max (gs_peak s) (in_use (gs_blocks s) + n), gs_total := gs_total s + 1\<rparr>)
      else None)"
| "gs_call g (GcDelete q) s =
     (case block_at q (gs_blocks s) of None \<Rightarrow> None
      | Some b \<Rightarrow> if gb_refs b = 0 then Some (s\<lparr>gs_blocks := filter (\<lambda>b. gb_ptr b \<noteq> q) (gs_blocks s)\<rparr>) else None)"
| "gs_call g (GcAddRef q) s =
     (case block_at q (gs_blocks s) of None \<Rightarrow> None
      | Some b \<Rightarrow> if gb_refs b < 2 ^ 31 - 1
          then Some (s\<lparr>gs_blocks := map (\<lambda>b. if gb_ptr b = q then b\<lparr>gb_refs := gb_refs b + 1\<rparr> else b) (gs_blocks s)\<rparr>) else None)"
| "gs_call g (GcRelease q) s =
     (case block_at q (gs_blocks s) of None \<Rightarrow> None
      | Some b \<Rightarrow> if gb_refs b > 0
          then Some (s\<lparr>gs_blocks := map (\<lambda>b. if gb_ptr b = q then b\<lparr>gb_refs := gb_refs b - 1\<rparr> else b) (gs_blocks s)\<rparr>) else None)"

fun gs_run :: "addr \<Rightarrow> gc_call list \<Rightarrow> gc_spec \<Rightarrow> gc_spec option" where
  "gs_run g [] s = Some s"
| "gs_run g (c # cs) s = Option.bind (gs_call g c s) (gs_run g cs)"

text \<open>The same calls of the program.\<close>

fun gc_do :: "gc_call \<Rightarrow> gc_process \<Rightarrow> gc_process outcome" where
  "gc_do (GcNew n file line p) P = andThen (op_new_at P n file line None (Some p)) (\<lambda>(P, _). Inr P)"
| "gc_do (GcDelete q) P = op_delete P (Some q)"
| "gc_do (GcAddRef q) P = andThen (gc_quick_find q) (oi_AddRef P)"
| "gc_do (GcRelease q) P = andThen (gc_quick_find q) (oi_Release P)"

definition gc_run :: "gc_call list \<Rightarrow> gc_process \<Rightarrow> gc_process outcome" where
  "gc_run cs P = fold_outcome (\<lambda>P c. gc_do c P) P cs"

section \<open>Representation\<close>

definition obj_of :: "addr \<Rightarrow> gc_block \<Rightarrow> obj_info" where
  "obj_of g b = \<lparr>oi_magic = MAGIC_ALLOCED, oi_refCnt = gb_refs b, oi_ptr = gb_ptr b, oi_size = of_nat (gb_size b), oi_heap = g,
     oi_file = gb_file b, oi_line = gb_line b\<rparr>"

definition objs_of :: "addr \<Rightarrow> gc_block list \<Rightarrow> (addr \<times> obj_info) list" where
  "objs_of g bs = map (\<lambda>b. (gb_ptr b - 72, obj_of g b)) bs"

definition gs_inv :: "addr \<Rightarrow> gc_spec \<Rightarrow> bool" where
  "gs_inv g s \<longleftrightarrow> in_use (gs_blocks s) \<le> gs_peak s \<and> gs_peak s < 2 ^ 31 \<and> gs_total s < 2 ^ 31 \<and> length (gs_blocks s) \<le> gs_total s \<and>
     (\<forall>b \<in> set (gs_blocks s). 72 \<le> gb_ptr b \<and> regions_apart (gb_ptr b - 72) (gb_size b + 72) g 72 \<and> 0 \<le> gb_refs b) \<and>
     sorted_wrt (\<lambda>a b. regions_apart (gb_ptr a - 72) (gb_size a + 72) (gb_ptr b - 72) (gb_size b + 72)) (gs_blocks s)"

definition gc_list :: "addr \<Rightarrow> il_list" where
  "gc_list g = \<lparr>il_mHead = g + 8, il_mTail = g + 32\<rparr>"

definition gc_rep :: "gc_process \<Rightarrow> addr \<Rightarrow> gc_spec \<Rightarrow> bool" where
  "gc_rep P g s \<longleftrightarrow> gp_defaultHeap P = Some g \<and>
     gp_heaps P g = Some \<lparr>gh_mObjects = gc_list g, gh_mCurrentSize = of_nat (in_use (gs_blocks s)), gh_mMaxSize = of_nat (gs_peak s),
       gh_mNumTotalAllocations = int (gs_total s), gh_mNumCurrentAllocations = int (length (gs_blocks s))\<rparr> \<and>
     il_holds (gp_nodes P) (gc_list g) (objs_of g (gs_blocks s)) \<and> gs_inv g s"

lemma gc_rep_new:
  "\<exists>P. gc_InitCheck \<lparr>gp_nodes = Map.empty, gp_heaps = Map.empty, gp_defaultHeap = None\<rparr> (Some g) = Inr P \<and>
    gc_rep P g \<lparr>gs_blocks = [], gs_peak = 0, gs_total = 0\<rparr>"
proof -
  have "il_mHead (gc_list g) \<noteq> il_mTail (gc_list g)" by (simp add: gc_list_def)
  then obtain ns :: "obj_info nheap" where "il_List Map.empty (gc_list g) = Inr ns" "il_rep ns (gc_list g) []"
    "dom ns = dom (Map.empty :: obj_info nheap) \<union> {il_mHead (gc_list g), il_mTail (gc_list g)}"
    using il_new_rep by metis
  then show ?thesis
    by (simp add: gc_InitCheck_def gc_GCHeap_def gc_list_def gc_set_heap_def gc_rep_def gs_inv_def il_holds_def objs_of_def il_nodes_def)
qed

text \<open>Writing what the class adds to a node keeps the list.\<close>

lemma dseg_links:
  "\<forall>a \<in> set ns. map_option (\<lambda>n. (node_next n, node_prev n)) (h' a) = map_option (\<lambda>n. (node_next n, node_prev n)) (h a) \<Longrightarrow>
   dseg h p ns q \<Longrightarrow> dseg h' p ns q"
  by (induction ns arbitrary: p) auto

lemma il_set_value:
  assumes rep: "il_rep h l (A @ (x, v) # B)"
  obtains n where "h x = Some n" "node_val n = Some v"
    "il_rep (h(x \<mapsto> n\<lparr>node_val := Some w\<rparr>)) l (A @ (x, w) # B)"
proof -
  obtain n where n: "h x = Some n" "node_val n = Some v" using il_repD(3) [OF rep, of x v] by auto
  let ?h = "h(x \<mapsto> n\<lparr>node_val := Some w\<rparr>)"
  have ns: "il_nodes l (A @ (x, w) # B) = il_nodes l (A @ (x, v) # B)" by (simp add: il_nodes_def)
  have "\<forall>a. map_option (\<lambda>n. (node_next n, node_prev n)) (?h a) = map_option (\<lambda>n. (node_next n, node_prev n)) (h a)"
    using n(1) by auto
  then have seg: "dseg ?h None (il_nodes l (A @ (x, w) # B)) None"
    unfolding ns by (intro dseg_links [OF _ il_repD(2) [OF rep]]) blast
  have val: "map_option node_val (?h a) = Some (Some u)" if "(a, u) \<in> set (A @ (x, w) # B)" for a u
  proof (cases "(a, u) = (x, w)")
    case False
    then have u: "(a, u) \<in> set (A @ B)" using that by auto
    have "x \<notin> set (map fst (A @ B))" using il_repD(1) [OF rep] by (simp add: il_nodes_def)
    moreover have "a \<in> set (map fst (A @ B))" using u by (metis fst_conv image_eqI set_map)
    ultimately have "a \<noteq> x" by metis
    moreover have "(a, u) \<in> set (A @ (x, v) # B)" using u by simp
    ultimately show ?thesis using il_repD(3) [OF rep, of a u] by auto
  qed simp
  have "il_rep ?h l (A @ (x, w) # B)" unfolding il_rep_def
  proof (intro conjI ballI)
    show "distinct (il_nodes l (A @ (x, w) # B))" unfolding ns by (rule il_repD(1) [OF rep])
    show "case z of (a, u) \<Rightarrow> map_option node_val (?h a) = Some (Some u)" if "z \<in> set (A @ (x, w) # B)" for z
      using val [of "fst z" "snd z"] that by (simp only: prod.collapse split_beta)
  qed (rule seg)
  then show thesis using that n by blast
qed

section \<open>Each call keeps the representation\<close>

lemma sint_of_small: "k < 2 ^ 31 \<Longrightarrow> sint (of_nat k :: u32) = int k"
proof -
  assume k: "k < 2 ^ 31"
  have "signed_take_bit 31 (int k) = int k" using k by (intro signed_take_bit_int_eq_self) simp_all
  moreover have "take_bit 32 k = k" using k by (intro take_bit_nat_eq_self) simp
  ultimately show ?thesis by (simp add: sint_uint unsigned_of_nat)
qed

lemma gc_repD:
  assumes "gc_rep P g s"
  shows "gp_defaultHeap P = Some g" "il_holds (gp_nodes P) (gc_list g) (objs_of g (gs_blocks s))" "gs_inv g s"
    "gc_heap P g = Inr \<lparr>gh_mObjects = gc_list g, gh_mCurrentSize = of_nat (in_use (gs_blocks s)), gh_mMaxSize = of_nat (gs_peak s),
       gh_mNumTotalAllocations = int (gs_total s), gh_mNumCurrentAllocations = int (length (gs_blocks s))\<rparr>"
  using assms by (simp_all add: gc_rep_def gc_heap_def)

lemma objs_of_simps [simp]: "objs_of g [] = []" "objs_of g (b # bs) = (gb_ptr b - 72, obj_of g b) # objs_of g bs"
  "objs_of g (bs @ cs) = objs_of g bs @ objs_of g cs" "length (objs_of g bs) = length bs"
  by (simp_all add: objs_of_def)

lemma malloc_fresh:
  assumes "malloc_ok g p n bs"
  shows "p \<notin> set (il_nodes (gc_list g) (objs_of g bs))"
proof -
  have "p \<noteq> gb_ptr b - 72" if "b \<in> set bs" for b using assms that by (force simp: malloc_ok_def regions_apart_def)
  moreover have "p \<noteq> g + 8" "p \<noteq> g + 32" using assms by (auto simp: malloc_ok_def regions_apart_def)
  ultimately show ?thesis by (auto simp: il_nodes_def gc_list_def objs_of_def)
qed

text \<open>What the heap records after an allocation.\<close>

lemma peak_update:
  assumes "a \<le> pk" "pk < 2 ^ 31" "a + n < 2 ^ 31"
  shows "(if sint (of_nat a + of_nat n :: u32) > sint (of_nat pk :: u32) then of_nat a + of_nat n else of_nat pk :: u32) =
    of_nat (max pk (a + n))"
proof -
  have "sint (of_nat (a + n) :: u32) = int (a + n)" "sint (of_nat pk :: u32) = int pk"
    using assms sint_of_small by blast+
  then show ?thesis by (auto simp: max_def simp flip: of_nat_add)
qed

lemma gc_new_rep:
  assumes rep: "gc_rep P g s" and spec: "gs_call g (GcNew n file line p) s = Some s'"
  obtains P' where "op_new_at P n file line mh (Some p) = Inr (P', p + 72)" "gc_rep P' g s'"
proof -
  define b where "b = \<lparr>gb_ptr = p + 72, gb_size = n, gb_file = file, gb_line = line, gb_refs = 0\<rparr>"
  have ok: "malloc_ok g p n (gs_blocks s)" "in_use (gs_blocks s) + n < 2 ^ 31" "gs_total s + 1 < 2 ^ 31"
    and s': "s' = s\<lparr>gs_blocks := b # gs_blocks s, gs_peak := max (gs_peak s) (in_use (gs_blocks s) + n), gs_total := gs_total s + 1\<rparr>"
    using spec by (auto simp: b_def split: if_splits)
  note r = gc_repD [OF rep]
  have inv: "in_use (gs_blocks s) \<le> gs_peak s" "gs_peak s < 2 ^ 31" "length (gs_blocks s) \<le> gs_total s"
    using r(3) by (auto simp: gs_inv_def)
  let ?obj = "\<lparr>oi_magic = MAGIC_ALLOCED, oi_refCnt = 0, oi_ptr = p + 72, oi_size = of_nat n, oi_heap = g, oi_file = file, oi_line = line\<rparr>"
  have obj: "obj_of g b = ?obj" "gb_ptr b - 72 = p" by (simp_all add: obj_of_def b_def)
  note fresh = malloc_fresh [OF ok(1)]
  let ?h = "(gp_nodes P)(p \<mapsto> nd_Node (Some ?obj))"
  have "il_rep ?h (gc_list g) (objs_of g (gs_blocks s))"
    using il_rep_frame [OF _ fresh] r(2) by (simp add: il_holds_def)
  from il_push_front_rep [OF this, of p "nd_Node (Some ?obj)" ?obj] fresh obtain ns where
    ns: "il_push_front ?h (gc_list g) (Some p) = Inr ns" "il_linked ?h ns (gc_list g) ((p, ?obj) # objs_of g (gs_blocks s)) p"
    by (auto simp: nd_Node_def)
  have "set (il_nodes (gc_list g) ((p, ?obj) # objs_of g (gs_blocks s))) = insert p (set (il_nodes (gc_list g) (objs_of g (gs_blocks s))))"
    by (auto simp: il_nodes_def)
  from il_linked_holds [OF r(2) fresh ns(2) this] have holds: "il_holds ns (gc_list g) (objs_of g (b # gs_blocks s))"
    using obj by simp
  then have "il_from ns (gc_list g) ((p, ?obj) # objs_of g (gs_blocks s))"
    using il_rep_from [of ns "gc_list g" "[]"] obj by (simp add: il_holds_def)
  note v = il_from_Cons(2) [OF this]
  have lim: "\<not> (n + 72) mod 2 ^ 64 < sizeof_ObjInfo" using ok(2) by (simp add: sizeof_ObjInfo_def)
  have inc: "int_inc (int (gs_total s)) = Inr (int (gs_total s) + 1)"
    "int_inc (int (length (gs_blocks s))) = Inr (int (length (gs_blocks s)) + 1)"
    using ok(3) inv(3) by (auto simp: int_inc_def)
  note pk = peak_update [OF inv(1,2) ok(2)]
  have gh: "gc_heap (P\<lparr>gp_nodes := ms\<rparr>) g = gc_heap P g" for ms by (simp add: gc_heap_def)
  note gh = gh [unfolded r(4)]
  let ?P = "gc_set_heap (P\<lparr>gp_nodes := ns\<rparr>) g \<lparr>gh_mObjects = gc_list g, gh_mCurrentSize = of_nat (in_use (gs_blocks s)) + of_nat n,
      gh_mMaxSize = of_nat (max (gs_peak s) (in_use (gs_blocks s) + n)), gh_mNumTotalAllocations = int (gs_total s) + 1,
      gh_mNumCurrentAllocations = int (length (gs_blocks s)) + 1\<rparr>"
  have "gc_alloc P g n file line (Some p) = Inr (?P, p)"
  proof (cases "sint (of_nat (in_use (gs_blocks s)) + of_nat n :: u32) > sint (of_nat (gs_peak s) :: u32)")
    case True
    then have m: "of_nat (max (gs_peak s) (in_use (gs_blocks s) + n)) = (of_nat (in_use (gs_blocks s)) + of_nat n :: u32)"
      using pk by metis
    show ?thesis using lim ns(1) gh inc True unfolding m by (simp add: gc_alloc_def)
  next
    case False
    then have m: "of_nat (max (gs_peak s) (in_use (gs_blocks s) + n)) = (of_nat (gs_peak s) :: u32)" using pk by metis
    show ?thesis using lim ns(1) gh inc False unfolding m by (simp add: gc_alloc_def)
  qed
  then have "op_new_at P n file line mh (Some p) = Inr (?P, p + 72)"
    using r(1) v by (simp add: op_new_at_def gc_InitCheck_def gc_set_heap_def)
  moreover have "gs_inv g s'"
    using r(3) ok unfolding s' by (auto simp: gs_inv_def b_def malloc_ok_def)
  then have "gc_rep ?P g s'" using r(1) holds unfolding s' by (simp add: gc_rep_def gc_set_heap_def b_def add.commute)
  ultimately show thesis using that by blast
qed

lemma block_at_split:
  assumes inv: "gs_inv g s" and b: "block_at q (gs_blocks s) = Some b"
  obtains A C where "gs_blocks s = A @ b # C" "gb_ptr b = q" "72 \<le> q" "\<forall>c \<in> set (A @ C). gb_ptr c \<noteq> q"
proof -
  obtain A C where bs: "gs_blocks s = A @ b # C" and q: "gb_ptr b = q"
    using b by (auto simp: block_at_def find_Some_iff dest!: nth_mem split_list)
  have low: "72 \<le> gb_ptr c" if "c \<in> set (gs_blocks s)" for c using inv that by (simp add: gs_inv_def)
  have ap: "regions_apart (gb_ptr c - 72) (gb_size c + 72) (gb_ptr b - 72) (gb_size b + 72)" if "c \<in> set A" for c
    using inv that by (simp add: gs_inv_def bs sorted_wrt_append)
  have ap': "regions_apart (gb_ptr b - 72) (gb_size b + 72) (gb_ptr c - 72) (gb_size c + 72)" if "c \<in> set C" for c
    using inv that by (simp add: gs_inv_def bs sorted_wrt_append)
  have "gb_ptr c \<noteq> q" if "c \<in> set (A @ C)" for c
  proof -
    have "gb_ptr c - 72 \<noteq> gb_ptr b - 72" using that ap [of c] ap' [of c] by (auto simp: regions_apart_def)
    then show ?thesis using q by auto
  qed
  then show thesis using that [OF bs q] low [of b] bs q by auto
qed

lemma filter_others: "\<forall>c \<in> set (A @ C). gb_ptr c \<noteq> gb_ptr b \<Longrightarrow> filter (\<lambda>c. gb_ptr c \<noteq> gb_ptr b) (A @ b # C) = A @ C"
  by (simp add: filter_id_conv)

lemma map_others:
  "\<forall>c \<in> set (A @ C). gb_ptr c \<noteq> gb_ptr b \<Longrightarrow>
   map (\<lambda>c. if gb_ptr c = gb_ptr b then f c else c) (A @ b # C) = A @ f b # C"
  by (simp add: map_idI)

lemma map_at_block:
  assumes "bs = A @ b # C" "gb_ptr b = q" "\<forall>c \<in> set (A @ C). gb_ptr c \<noteq> q" "f b = f' b"
  shows "map (\<lambda>c. if gb_ptr c = q then f c else c) bs = map (\<lambda>c. if gb_ptr c = q then f' c else c) bs"
proof (rule map_cong [OF refl])
  fix c assume "c \<in> set bs"
  then have "c = b \<or> gb_ptr c \<noteq> q" using assms(1,3) by auto
  then show "(if gb_ptr c = q then f c else c) = (if gb_ptr c = q then f' c else c)" using assms(4) by auto
qed

lemma gc_rep_value:
  assumes "gc_rep P g s" "gs_blocks s = A @ b # C"
  shows "nd_value (gp_nodes P) (Some (gb_ptr b - 72)) = Inr (obj_of g b)"
    "il_rep (gp_nodes P) (gc_list g) (objs_of g A @ (gb_ptr b - 72, obj_of g b) # objs_of g C)"
proof -
  show r: "il_rep (gp_nodes P) (gc_list g) (objs_of g A @ (gb_ptr b - 72, obj_of g b) # objs_of g C)"
    using gc_repD(2) [OF assms(1)] assms(2) by (simp add: il_holds_def)
  show "nd_value (gp_nodes P) (Some (gb_ptr b - 72)) = Inr (obj_of g b)"
    using il_from_Cons(2) [OF il_rep_from [OF r]] .
qed

lemma gc_delete_rep:
  assumes rep: "gc_rep P g s" and spec: "gs_call g (GcDelete q) s = Some s'"
  obtains P' where "op_delete P (Some q) = Inr P'" "gc_rep P' g s'"
proof -
  note r = gc_repD [OF rep]
  obtain b where b: "block_at q (gs_blocks s) = Some b" "gb_refs b = 0"
    and s': "s' = s\<lparr>gs_blocks := filter (\<lambda>b. gb_ptr b \<noteq> q) (gs_blocks s)\<rparr>"
    using spec by (auto split: option.splits if_splits)
  obtain A C where bs: "gs_blocks s = A @ b # C" "gb_ptr b = q" "72 \<le> q" "\<forall>c \<in> set (A @ C). gb_ptr c \<noteq> q"
    using block_at_split [OF r(3) b(1)] .
  have s': "s' = s\<lparr>gs_blocks := A @ C\<rparr>" using s' bs(1) filter_others [of A C b] bs(2,4) by simp
  let ?x = "q - 72"
  note v = gc_rep_value [OF rep bs(1), unfolded bs(2)]
  obtain h1 h' where h: "nd_remove (gp_nodes P) (Some ?x) = Inr h1" "nd_delete h1 (Some ?x) = Inr h'"
    "il_rep h' (gc_list g) (objs_of g A @ objs_of g C)" "dom h' = dom (gp_nodes P) - {?x}"
    using il_remove_delete [OF v(2)] by metis
  obtain n where n: "h1 ?x = Some n" using h(2) by (auto simp: nd_delete_def split: if_splits)
  have "nd_put h1 (Some ?x) f = Inr (h1(?x \<mapsto> f n))" for f using nd_put_at n by metis
  moreover have "nd_delete (h1(?x \<mapsto> n')) (Some ?x) = Inr h'" for n' using h(2) n by (simp add: nd_delete_def)
  ultimately have put: "andThen (nd_put h1 (Some ?x) f) (\<lambda>ns. nd_delete ns (Some ?x)) = Inr h'" for f by simp
  let ?P = "gc_set_heap (P\<lparr>gp_nodes := h'\<rparr>) g \<lparr>gh_mObjects = gc_list g, gh_mCurrentSize = of_nat (in_use (A @ C)), gh_mMaxSize = of_nat (gs_peak s),
      gh_mNumTotalAllocations = int (gs_total s), gh_mNumCurrentAllocations = int (length (A @ C))\<rparr>"
  have sum: "of_nat (in_use (gs_blocks s)) - oi_size (obj_of g b) = (of_nat (in_use (A @ C)) :: u32)"
    by (simp add: bs(1) obj_of_def)
  have dec: "int_dec (int (length (gs_blocks s))) = Inr (int (length (A @ C)))" by (simp add: bs(1) int_dec_def)
  have ob: "oi_magic (obj_of g b) = MAGIC_ALLOCED" "oi_refCnt (obj_of g b) = 0" "oi_heap (obj_of g b) = g"
    using b(2) by (simp_all add: obj_of_def)
  have "gc_free P g ?x = Inr ?P"
    unfolding gc_free_def v(1) andThen_simps r(4) Let_def using ob(1,2) dec sum h(1) put
    by (simp add: Let_def flip: andThen_assoc)
  then have "op_delete P (Some q) = Inr ?P" using v(1) ob(3) bs(3) by (simp add: op_delete_def gc_quick_find_def)
  moreover have "il_holds h' (gc_list g) (objs_of g (A @ C))"
  proof -
    have "distinct (il_nodes (gc_list g) (objs_of g A @ (?x, obj_of g b) # objs_of g C))" using il_repD(1) [OF v(2)] .
    then have "set (il_nodes (gc_list g) (objs_of g A @ (?x, obj_of g b) # objs_of g C)) - {?x} =
        set (il_nodes (gc_list g) (objs_of g (A @ C)))" by (auto simp: il_nodes_def)
    then show ?thesis using h(3,4) r(2) bs(1,2) by (simp add: il_holds_def)
  qed
  moreover have "gs_inv g s'" using r(3) unfolding s' gs_inv_def bs(1) by (auto simp: sorted_wrt_append)
  ultimately have "gc_rep ?P g s'" using r(1) unfolding s' by (simp add: gc_rep_def gc_set_heap_def)
  then show thesis using that \<open>op_delete P (Some q) = Inr ?P\<close> by blast
qed

lemma gc_refs_rep:
  assumes rep: "gc_rep P g s" and b: "block_at q (gs_blocks s) = Some b" and n: "0 \<le> n"
  obtains P' where "oi_update P (q - 72) (\<lambda>v. v\<lparr>oi_refCnt := n\<rparr>) = Inr P'"
    "gc_rep P' g (s\<lparr>gs_blocks := map (\<lambda>b. if gb_ptr b = q then b\<lparr>gb_refs := n\<rparr> else b) (gs_blocks s)\<rparr>)"
    "nd_value (gp_nodes P) (Some (q - 72)) = Inr (obj_of g b)" "72 \<le> q" "0 \<le> gb_refs b"
proof -
  note r = gc_repD [OF rep]
  obtain A C where bs: "gs_blocks s = A @ b # C" "gb_ptr b = q" "72 \<le> q" "\<forall>c \<in> set (A @ C). gb_ptr c \<noteq> q"
    using block_at_split [OF r(3) b(1)] .
  let ?b = "b\<lparr>gb_refs := n\<rparr>"
  have new: "map (\<lambda>b. if gb_ptr b = q then b\<lparr>gb_refs := n\<rparr> else b) (gs_blocks s) = A @ ?b # C"
    using map_others [of A C b "\<lambda>b. b\<lparr>gb_refs := n\<rparr>"] bs by simp
  note v = gc_rep_value [OF rep bs(1), unfolded bs(2)]
  let ?v = "(obj_of g b)\<lparr>oi_refCnt := n\<rparr>"
  obtain m where m: "gp_nodes P (q - 72) = Some m" "node_val m = Some (obj_of g b)"
    "il_rep ((gp_nodes P)(q - 72 \<mapsto> m\<lparr>node_val := Some ?v\<rparr>)) (gc_list g) (objs_of g A @ (q - 72, ?v) # objs_of g C)"
    using il_set_value [OF v(2)] by metis
  let ?h = "(gp_nodes P)(q - 72 \<mapsto> m\<lparr>node_val := Some ?v\<rparr>)"
  have "oi_update P (q - 72) (\<lambda>v. v\<lparr>oi_refCnt := n\<rparr>) = Inr (P\<lparr>gp_nodes := ?h\<rparr>)"
    using v(1) nd_put_at [of "gp_nodes P", OF m(1)] by (simp add: oi_update_def)
  moreover have "gc_rep (P\<lparr>gp_nodes := ?h\<rparr>) g (s\<lparr>gs_blocks := A @ ?b # C\<rparr>)"
  proof -
    have ob: "obj_of g ?b = ?v" "gb_ptr ?b = q" "gb_size ?b = gb_size b" using bs(2) by (simp_all add: obj_of_def)
    have "dom ?h = set (il_nodes (gc_list g) (objs_of g (A @ ?b # C)))"
      using r(2) m(1) bs(1,2) by (auto simp: il_holds_def il_nodes_def)
    then have "il_holds ?h (gc_list g) (objs_of g (A @ ?b # C))" using m(3) ob(1,2) by (simp add: il_holds_def)
    moreover have "gs_inv g (s\<lparr>gs_blocks := A @ ?b # C\<rparr>)"
      using r(3) n unfolding gs_inv_def bs(1) by (auto simp: sorted_wrt_append)
    ultimately show ?thesis using rep bs(1) by (simp add: gc_rep_def)
  qed
  moreover have "0 \<le> gb_refs b" using r(3) bs(1) by (simp add: gs_inv_def)
  ultimately show thesis using that [OF _ _ v(1) bs(3)] unfolding new by blast
qed

lemma gc_do_rep:
  assumes "gc_rep P g s" "gs_call g c s = Some s'"
  shows "\<exists>P'. gc_do c P = Inr P' \<and> gc_rep P' g s'"
proof (cases c)
  case (GcNew n f k p)
  then obtain P' where "op_new_at P n f k None (Some p) = Inr (P', p + 72)" "gc_rep P' g s'"
    using gc_new_rep assms by metis
  then show ?thesis using GcNew by simp
next
  case (GcDelete q)
  then show ?thesis using gc_delete_rep assms by (metis gc_do.simps(2))
next
  case (GcAddRef q)
  then obtain b where b: "block_at q (gs_blocks s) = Some b" "gb_refs b < 2 ^ 31 - 1"
    and s': "s' = s\<lparr>gs_blocks := map (\<lambda>b. if gb_ptr b = q then b\<lparr>gb_refs := gb_refs b + 1\<rparr> else b) (gs_blocks s)\<rparr>"
    using assms(2) by (auto split: option.splits if_splits)
  obtain A C where bs: "gs_blocks s = A @ b # C" "gb_ptr b = q" "\<forall>c \<in> set (A @ C). gb_ptr c \<noteq> q"
    by (rule block_at_split [OF gc_repD(3) [OF assms(1)] b(1)]) blast
  have "map (\<lambda>b. if gb_ptr b = q then b\<lparr>gb_refs := gb_refs b + 1\<rparr> else b) (gs_blocks s) =
      map (\<lambda>c. if gb_ptr c = q then c\<lparr>gb_refs := gb_refs b + 1\<rparr> else c) (gs_blocks s)"
    by (rule map_at_block [OF bs refl])
  moreover have "0 \<le> gb_refs b" using gc_repD(3) [OF assms(1)] bs(1) by (simp add: gs_inv_def)
  ultimately obtain P' where "oi_update P (q - 72) (\<lambda>v. v\<lparr>oi_refCnt := gb_refs b + 1\<rparr>) = Inr P'" "gc_rep P' g s'"
      "nd_value (gp_nodes P) (Some (q - 72)) = Inr (obj_of g b)" "72 \<le> q"
    using gc_refs_rep [OF assms(1) b(1), of "gb_refs b + 1"] s' by auto
  then show ?thesis using GcAddRef b(2) by (simp add: gc_quick_find_def oi_AddRef_def int_inc_def obj_of_def)
next
  case (GcRelease q)
  then obtain b where b: "block_at q (gs_blocks s) = Some b" "gb_refs b > 0"
    and s': "s' = s\<lparr>gs_blocks := map (\<lambda>b. if gb_ptr b = q then b\<lparr>gb_refs := gb_refs b - 1\<rparr> else b) (gs_blocks s)\<rparr>"
    using assms(2) by (auto split: option.splits if_splits)
  obtain A C where bs: "gs_blocks s = A @ b # C" "gb_ptr b = q" "\<forall>c \<in> set (A @ C). gb_ptr c \<noteq> q"
    by (rule block_at_split [OF gc_repD(3) [OF assms(1)] b(1)]) blast
  have "map (\<lambda>b. if gb_ptr b = q then b\<lparr>gb_refs := gb_refs b - 1\<rparr> else b) (gs_blocks s) =
      map (\<lambda>c. if gb_ptr c = q then c\<lparr>gb_refs := gb_refs b - 1\<rparr> else c) (gs_blocks s)"
    by (rule map_at_block [OF bs refl])
  then obtain P' where "oi_update P (q - 72) (\<lambda>v. v\<lparr>oi_refCnt := gb_refs b - 1\<rparr>) = Inr P'" "gc_rep P' g s'"
      "nd_value (gp_nodes P) (Some (q - 72)) = Inr (obj_of g b)" "72 \<le> q"
    using gc_refs_rep [OF assms(1) b(1), of "gb_refs b - 1"] b(2) s' by auto
  then show ?thesis using GcRelease b(2) by (simp add: gc_quick_find_def oi_Release_def int_dec_def obj_of_def)
qed

lemma gc_run_rep: "gc_rep P g s \<Longrightarrow> gs_run g cs s = Some s' \<Longrightarrow> \<exists>P'. gc_run cs P = Inr P' \<and> gc_rep P' g s'"
proof (induction cs arbitrary: P s)
  case (Cons c cs)
  obtain s1 where s1: "gs_call g c s = Some s1" "gs_run g cs s1 = Some s'" using Cons.prems(2) by (auto split: bind_splits)
  obtain P1 where "gc_do c P = Inr P1" "gc_rep P1 g s1" using gc_do_rep [OF Cons.prems(1) s1(1)] by blast
  then show ?case using Cons.IH s1(2) by (simp add: gc_run_def)
qed (simp add: gc_run_def)

section \<open>Looking up and reporting\<close>

lemma gc_find_loop_tl: "gc_find_loop fuel ns q = tl_find_from fuel ns (oi_contains q)"
proof (induction fuel)
  case 0
  show ?case
  proof
    show "gc_find_loop 0 ns q p = tl_find_from 0 ns (oi_contains q) p" for p by (cases p) auto
  qed
next
  case (Suc fuel)
  show ?case
  proof
    show "gc_find_loop (Suc fuel) ns q p = tl_find_from (Suc fuel) ns (oi_contains q) p" for p
      using Suc.IH by (cases p) (simp_all cong: if_cong)
  qed
qed

lemma find_objs:
  "\<forall>b \<in> set bs. R (obj_of g b) = Q b \<Longrightarrow>
   map_option fst (find (\<lambda>p. R (snd p)) (objs_of g bs)) = map_option (\<lambda>b. gb_ptr b - 72) (find Q bs)"
  by (induction bs) auto

definition holds_byte :: "gc_block \<Rightarrow> addr \<Rightarrow> bool" where
  "holds_byte b q \<longleftrightarrow> gb_ptr b \<le> q \<and> q < gb_ptr b + gb_size b"

lemma block_size_small: "gs_inv g s \<Longrightarrow> b \<in> set (gs_blocks s) \<Longrightarrow> gb_size b < 2 ^ 31"
  using split_list [of b "gs_blocks s"] by (auto simp: gs_inv_def)

lemma gc_find_rep:
  assumes rep: "gc_rep P g s" and fuel: "length (gs_blocks s) \<le> fuel"
  shows "gc_find fuel P g q = Inr (map_option (\<lambda>b. gb_ptr b - 72) (find (\<lambda>b. holds_byte b q) (gs_blocks s)))"
proof -
  note r = gc_repD [OF rep]
  have il: "il_rep (gp_nodes P) (gc_list g) (objs_of g (gs_blocks s))" using r(2) by (simp add: il_holds_def)
  have "oi_contains q (obj_of g b) \<longleftrightarrow> holds_byte b q" if "b \<in> set (gs_blocks s)" for b
  proof -
    have "unat (of_nat (gb_size b) :: u32) = gb_size b"
      using block_size_small [OF r(3) that] by (simp add: unsigned_of_nat take_bit_nat_eq_self)
    then show ?thesis by (simp add: oi_contains_def obj_of_def holds_byte_def)
  qed
  then have "map_option fst (find (\<lambda>p. oi_contains q (snd p)) (objs_of g (gs_blocks s))) =
      map_option (\<lambda>b. gb_ptr b - 72) (find (\<lambda>b. holds_byte b q) (gs_blocks s))"
    by (intro find_objs) blast
  then show ?thesis using tl_find_rep [OF il, of fuel "oi_contains q"] fuel r(4)
    by (simp add: gc_find_def tl_find_def gc_find_loop_tl)
qed

lemma gc_dump_loop_from:
  "il_from ns l (objs_of g bs) \<Longrightarrow> length bs \<le> fuel \<Longrightarrow> \<forall>b \<in> set bs. gb_size b < 2 ^ 31 \<Longrightarrow>
   gc_dump_loop fuel ns (first_of (objs_of g bs)) = Inr (map (\<lambda>b. Alloced (gb_file b) (gb_line b) (int (gb_size b))) bs)"
proof (induction bs arbitrary: fuel)
  case (Cons b bs)
  obtain f where f: "fuel = Suc f" using Cons.prems(2) by (cases fuel) auto
  have sz: "sint (of_nat (gb_size b) :: u32) = int (gb_size b)" using Cons.prems(3) sint_of_small by simp
  show ?case using il_from_Cons [of ns l "gb_ptr b - 72" "obj_of g b" "objs_of g bs"] Cons.prems Cons.IH [of f] sz
    by (simp add: f obj_of_def)
qed simp

text \<open>What the destructor prints for an abstract heap.\<close>

definition gs_report :: "gc_spec \<Rightarrow> gc_line list" where
  "gs_report s =
     [Total_number (int (gs_total s)), Max_size (int (gs_peak s))] @
     (if gs_blocks s = [] then []
      else [Leaked (int (length (gs_blocks s))) (int (in_use (gs_blocks s)))] @
           map (\<lambda>b. Alloced (gb_file b) (gb_line b) (int (gb_size b))) (gs_blocks s) @ [Items_allocated (int (length (gs_blocks s)))])"

lemma gc_destroy_rep:
  assumes rep: "gc_rep P g s" and fuel: "length (gs_blocks s) \<le> fuel"
  shows "gc_destroy fuel P g = Inr (gs_report s)"
proof -
  note r = gc_repD [OF rep]
  have il: "il_rep (gp_nodes P) (gc_list g) (objs_of g (gs_blocks s))" using r(2) by (simp add: il_holds_def)
  have lt: "in_use (gs_blocks s) < 2 ^ 31" "gs_peak s < 2 ^ 31" using r(3) by (auto simp: gs_inv_def)
  have "il_from (gp_nodes P) (gc_list g) (objs_of g (gs_blocks s))"
    using il_rep_from [of "gp_nodes P" "gc_list g" "[]"] il by simp
  from gc_dump_loop_from [OF this fuel] have "gc_dump_loop fuel (gp_nodes P) (first_of (objs_of g (gs_blocks s))) =
      Inr (map (\<lambda>b. Alloced (gb_file b) (gb_line b) (int (gb_size b))) (gs_blocks s))"
    using block_size_small [OF r(3)] by blast
  then show ?thesis
    using il_getHead_rep [OF il] il_empty_rep [OF il] sint_of_small [OF lt(1)] sint_of_small [OF lt(2)] r(4)
    by (simp add: gc_destroy_def gc_dumpList_def gs_report_def objs_of_def)
qed

lemma apart_find:
  assumes inv: "gs_inv g s" and b: "b \<in> set (gs_blocks s)" "holds_byte b q"
  shows "map_option (\<lambda>b. gb_ptr b - 72) (find (\<lambda>b. holds_byte b q) (gs_blocks s)) = Some (gb_ptr b - 72)"
proof -
  obtain A C where bs: "gs_blocks s = A @ b # C" using b(1) by (auto dest: split_list)
  have "\<not> holds_byte c q" if "c \<in> set A" for c
  proof -
    have "regions_apart (gb_ptr c - 72) (gb_size c + 72) (gb_ptr b - 72) (gb_size b + 72)" "72 \<le> gb_ptr c" "72 \<le> gb_ptr b"
      using inv that by (simp_all add: gs_inv_def bs sorted_wrt_append)
    then show ?thesis using b(2) by (auto simp: regions_apart_def holds_byte_def)
  qed
  then have "find (\<lambda>b. holds_byte b q) (gs_blocks s) = Some b"
    unfolding bs using b(2) by (induction A) auto
  then show ?thesis by simp
qed

text \<open>
  C33: After the heap is made, any sequence of calls of \<open>new\<close>, \<open>delete\<close> and the counts that follows the rules returns, where each answer of
  \<open>malloc\<close> is memory that is not in use. \<open>find\<close> then answers for each address in a block the header of
  that block, and null for every other address; and the report of the destructor is exact: the number of all allocations, the greatest total of sizes that was reached,
  and, if blocks are left, how many, how great, and each with where it was made, the newest first.
\<close>

theorem gc_run_exact:
  assumes "gs_run g cs \<lparr>gs_blocks = [], gs_peak = 0, gs_total = 0\<rparr> = Some s" "gs_total s \<le> fuel"
  shows "\<exists>P0 P. gc_InitCheck \<lparr>gp_nodes = Map.empty, gp_heaps = Map.empty, gp_defaultHeap = None\<rparr> (Some g) = Inr P0 \<and>
    gc_run cs P0 = Inr P \<and> gc_destroy fuel P g = Inr (gs_report s) \<and>
    (\<forall>q. \<forall>b \<in> set (gs_blocks s). holds_byte b q \<longrightarrow> gc_find fuel P g q = Inr (Some (gb_ptr b - 72))) \<and>
    (\<forall>q. (\<forall>b \<in> set (gs_blocks s). \<not> holds_byte b q) \<longrightarrow> gc_find fuel P g q = Inr None)"
proof -
  obtain P0 where P0: "gc_InitCheck \<lparr>gp_nodes = Map.empty, gp_heaps = Map.empty, gp_defaultHeap = None\<rparr> (Some g) = Inr P0"
    "gc_rep P0 g \<lparr>gs_blocks = [], gs_peak = 0, gs_total = 0\<rparr>" using gc_rep_new by blast
  obtain P where P: "gc_run cs P0 = Inr P" "gc_rep P g s" using gc_run_rep [OF P0(2) assms(1)] by blast
  have inv: "gs_inv g s" using gc_repD(3) [OF P(2)] .
  then have fuel: "length (gs_blocks s) \<le> fuel" using assms(2) by (auto simp: gs_inv_def)
  note find = gc_find_rep [OF P(2) fuel]
  have "gc_find fuel P g q = Inr (Some (gb_ptr b - 72))" if "b \<in> set (gs_blocks s)" "holds_byte b q" for b q
    using apart_find [OF inv that] find by simp
  moreover have "gc_find fuel P g q = Inr None" if "\<forall>b \<in> set (gs_blocks s). \<not> holds_byte b q" for q
    using that find [of q] by (metis find_None_iff option.simps(8))
  ultimately show ?thesis using P0(1) P(1) gc_destroy_rep [OF P(2) fuel] by blast
qed

lemma gc_run_exact_witness:
  "\<exists>P0 P. gc_InitCheck \<lparr>gp_nodes = Map.empty, gp_heaps = Map.empty, gp_defaultHeap = None\<rparr> (Some 100) = Inr P0 \<and>
    gc_run [GcNew 10 ''a'' 1 200, GcNew 20 ''b'' 2 300, GcAddRef 372, GcDelete 272, GcNew 5 ''c'' 3 200, GcRelease 372] P0 = Inr P \<and>
    gc_destroy 3 P 100 = Inr [Total_number 3, Max_size 30, Leaked 2 25, Alloced ''c'' 3 5, Alloced ''b'' 2 20, Items_allocated 2] \<and>
    gc_find 3 P 100 380 = Inr (Some 300) \<and> gc_find 3 P 100 280 = Inr None"
proof -
  let ?b = "\<lparr>gb_ptr = 372, gb_size = 20, gb_file = ''b'', gb_line = 2, gb_refs = 0\<rparr>"
  let ?c = "\<lparr>gb_ptr = 272, gb_size = 5, gb_file = ''c'', gb_line = 3, gb_refs = 0\<rparr>"
  let ?s = "\<lparr>gs_blocks = [?c, ?b], gs_peak = 30, gs_total = 3\<rparr>"
  have "gs_run 100 [GcNew 10 ''a'' 1 200, GcNew 20 ''b'' 2 300, GcAddRef 372, GcDelete 272, GcNew 5 ''c'' 3 200, GcRelease 372]
      \<lparr>gs_blocks = [], gs_peak = 0, gs_total = 0\<rparr> = Some ?s"
    by (simp add: malloc_ok_def regions_apart_def block_at_def)
  from gc_run_exact [OF this, of 3] obtain P0 P where
    p: "gc_InitCheck \<lparr>gp_nodes = Map.empty, gp_heaps = Map.empty, gp_defaultHeap = None\<rparr> (Some 100) = Inr P0"
    "gc_run [GcNew 10 ''a'' 1 200, GcNew 20 ''b'' 2 300, GcAddRef 372, GcDelete 272, GcNew 5 ''c'' 3 200, GcRelease 372] P0 = Inr P"
    "gc_destroy 3 P 100 = Inr (gs_report ?s)"
    "\<forall>q. \<forall>b \<in> set (gs_blocks ?s). holds_byte b q \<longrightarrow> gc_find 3 P 100 q = Inr (Some (gb_ptr b - 72))"
    "\<forall>q. (\<forall>b \<in> set (gs_blocks ?s). \<not> holds_byte b q) \<longrightarrow> gc_find 3 P 100 q = Inr None"
    by auto
  have "gs_report ?s = [Total_number 3, Max_size 30, Leaked 2 25, Alloced ''c'' 3 5, Alloced ''b'' 2 20, Items_allocated 2]"
    by (simp add: gs_report_def)
  moreover have "gc_find 3 P 100 380 = Inr (Some 300)" using bspec [OF spec [OF p(4), of 380], of ?b] by (simp add: holds_byte_def)
  moreover have "gc_find 3 P 100 280 = Inr None" using spec [OF p(5), of 280] by (simp add: holds_byte_def)
  ultimately show ?thesis using p(1-3) by metis
qed

text \<open>
  Clients that break the rules, after any calls that follow them: deleting a block whose count is not 0 and counting down a count of 0
  stop the program; but a second \<open>delete\<close> reads the header in memory that was freed, so that the code that recognizes it is reached
  with undefined behaviour only.
\<close>

theorem gc_misuse:
  assumes "gs_run g cs \<lparr>gs_blocks = [], gs_peak = 0, gs_total = 0\<rparr> = Some s" "block_at q (gs_blocks s) = Some b"
  shows "\<exists>P. gc_InitCheck \<lparr>gp_nodes = Map.empty, gp_heaps = Map.empty, gp_defaultHeap = None\<rparr> (Some g) = Inr P \<and>
    (gb_refs b \<noteq> 0 \<longrightarrow> gc_run (cs @ [GcDelete q]) P = Inl Fatal) \<and>
    (gb_refs b = 0 \<longrightarrow> gc_run (cs @ [GcRelease q]) P = Inl Fatal \<and>
       gc_run (cs @ [GcDelete q, GcDelete q]) P = Inl UndefinedBehaviour)"
proof -
  obtain P0 where P0: "gc_InitCheck \<lparr>gp_nodes = Map.empty, gp_heaps = Map.empty, gp_defaultHeap = None\<rparr> (Some g) = Inr P0"
    "gc_rep P0 g \<lparr>gs_blocks = [], gs_peak = 0, gs_total = 0\<rparr>" using gc_rep_new by blast
  obtain P where P: "gc_run cs P0 = Inr P" "gc_rep P g s" using gc_run_rep [OF P0(2) assms(1)] by blast
  have more: "gc_run (cs @ ds) P0 = gc_run ds P" for ds using P(1) by (simp add: gc_run_def fold_outcome_append)
  obtain A C where bs: "gs_blocks s = A @ b # C" "gb_ptr b = q" "72 \<le> q" "\<forall>c \<in> set (A @ C). gb_ptr c \<noteq> q"
    using block_at_split [OF gc_repD(3) [OF P(2)] assms(2)] .
  note v = gc_rep_value(1) [OF P(2) bs(1), unfolded bs(2)]
  have "gc_run [GcDelete q] P = Inl Fatal" if "gb_refs b \<noteq> 0"
    using that v bs(3) by (simp add: gc_run_def op_delete_def gc_quick_find_def gc_free_def obj_of_def)
  moreover have "gc_run [GcRelease q] P = Inl Fatal" if "gb_refs b = 0"
    using that v bs(3) by (simp add: gc_run_def gc_quick_find_def oi_Release_def int_dec_def obj_of_def)
  moreover have "gc_run [GcDelete q, GcDelete q] P = Inl UndefinedBehaviour" if z: "gb_refs b = 0"
  proof -
    have "gs_call g (GcDelete q) s = Some (s\<lparr>gs_blocks := filter (\<lambda>b. gb_ptr b \<noteq> q) (gs_blocks s)\<rparr>)"
      using assms(2) z by simp
    moreover have "filter (\<lambda>c. gb_ptr c \<noteq> q) (gs_blocks s) = A @ C"
      using filter_others [of A C b] bs by simp
    ultimately have "gs_call g (GcDelete q) s = Some (s\<lparr>gs_blocks := A @ C\<rparr>)" by simp
    then obtain P' where P': "op_delete P (Some q) = Inr P'" "gc_rep P' g (s\<lparr>gs_blocks := A @ C\<rparr>)"
      using gc_delete_rep [OF P(2)] by blast
    have "q - 72 \<notin> set (il_nodes (gc_list g) (objs_of g (A @ C)))"
      using il_repD(1) [OF gc_rep_value(2) [OF P(2) bs(1), unfolded bs(2)]] by (auto simp: il_nodes_def)
    then have "gp_nodes P' (q - 72) = None" using gc_repD(2) [OF P'(2)] by (auto simp: il_holds_def dom_def)
    then show ?thesis using P'(1) bs(3) by (simp add: gc_run_def op_delete_def gc_quick_find_def nd_value_def nd_get_def)
  qed
  ultimately show ?thesis using P0(1) by (intro exI [of _ P0]) (simp add: more)
qed

lemma gc_misuse_witness:
  "\<exists>P. gc_InitCheck \<lparr>gp_nodes = Map.empty, gp_heaps = Map.empty, gp_defaultHeap = None\<rparr> (Some 100) = Inr P \<and>
    gc_run [GcNew 10 ''a'' 1 200, GcRelease 272] P = Inl Fatal \<and>
    gc_run [GcNew 10 ''a'' 1 200, GcDelete 272, GcDelete 272] P = Inl UndefinedBehaviour"
proof -
  let ?b = "\<lparr>gb_ptr = 272, gb_size = 10, gb_file = ''a'', gb_line = 1, gb_refs = 0\<rparr>"
  have "gs_run 100 [GcNew 10 ''a'' 1 200] \<lparr>gs_blocks = [], gs_peak = 0, gs_total = 0\<rparr> =
      Some \<lparr>gs_blocks = [?b], gs_peak = 10, gs_total = 1\<rparr>"
    by (simp add: malloc_ok_def regions_apart_def)
  from gc_misuse [OF this, of 272 ?b] show ?thesis by (simp add: block_at_def)
qed

text \<open>
  The sizes are kept in 32 bits: a block of \<open>2 ^ 31\<close> bytes makes the total negative, and the greatest total stays where it was.
\<close>

lemma gc_large_block:
  "andThen (gc_InitCheck \<lparr>gp_nodes = Map.empty, gp_heaps = Map.empty, gp_defaultHeap = None\<rparr> (Some 100)) (\<lambda>P.
   andThen (op_new_at P 2147483648 ''a'' 1 None (Some 200)) (\<lambda>(P, _). gc_destroy (Suc (Suc 0)) P 100)) =
   Inr [Total_number 1, Max_size 0, Leaked 1 (- (2 ^ 31)), Alloced ''a'' 1 (- (2 ^ 31)), Items_allocated 1]"
  by (simp add: gc_InitCheck_def gc_GCHeap_def il_List_def nd_defs nd_Node_def gc_set_heap_def op_new_at_def gc_alloc_def sizeof_ObjInfo_def
      gc_heap_def il_push_front_def nd_insertAfter_def Let_def int_inc_def nd_value_def gc_destroy_def il_empty_def il_getHead_def
      gc_dumpList_def nd_next_def MAGIC_ALLOCED_def)

end
