(* ===== verification/Socket.thy ===== *)
theory Socket
  imports Selector JetHead JHStrings
begin

unbundle bit_operations_syntax

text \<open>
  Sockets (src/Socket.cpp, include/Socket.h): addresses, the connection of a socket, its listener, and the listener for the
  file that it registers with a selector. The selectors are those of \<open>Selector\<close>, called on their own threads. What the system answers to
  \<open>connect\<close>, \<open>fcntl\<close>, \<open>select\<close> and the others are arguments of the calls; the file flags of the socket, which the code saves, changes and restores,
  are state. What a listener does when it is called is a function from state to state; it may delete the socket.
\<close>

section \<open>Addresses\<close>

text \<open>Network order is the order of bytes in memory; the numbers of the machine are little-endian.\<close>

definition htons :: "16 word \<Rightarrow> 16 word" where
  "htons w = push_bit 8 w OR drop_bit 8 w"

definition ntohs :: "16 word \<Rightarrow> 16 word" where
  "ntohs w = push_bit 8 w OR drop_bit 8 w"

definition AF_INET :: nat where "AF_INET = 2"
definition INADDR_ANY :: u32 where "INADDR_ANY = 0"
definition sizeof_sockaddr_in :: int where "sizeof_sockaddr_in = 16"

record address =
  ad_family :: nat
  ad_port :: "16 word"
  ad_addr :: u32
  ad_len :: int

definition Address :: address where
  "Address = \<lparr>ad_family = AF_INET, ad_port = 0, ad_addr = INADDR_ANY, ad_len = sizeof_sockaddr_in\<rparr>"

text \<open>\<open>inet_aton\<close> and \<open>gethostbyname\<close> answer with an address in network order, or not.\<close>

definition ad_setAddress :: "(string \<Rightarrow> u32 option) \<Rightarrow> (string \<Rightarrow> u32 option) \<Rightarrow> address \<Rightarrow> string option \<Rightarrow> address" where
  "ad_setAddress aton byname a name =
     (let a = a\<lparr>ad_addr := INADDR_ANY\<rparr> in
      case name of None \<Rightarrow> a
      | Some n \<Rightarrow> (case aton n of Some w \<Rightarrow> a\<lparr>ad_addr := w\<rparr>
          | None \<Rightarrow> (case byname n of Some w \<Rightarrow> a\<lparr>ad_addr := w\<rparr> | None \<Rightarrow> a)))"

definition Address_name :: "(string \<Rightarrow> u32 option) \<Rightarrow> (string \<Rightarrow> u32 option) \<Rightarrow> string option \<Rightarrow> int \<Rightarrow> address" where
  "Address_name aton byname name port =
     (ad_setAddress aton byname \<lparr>ad_family = AF_INET, ad_port = htons (of_int port), ad_addr = 0, ad_len = 0\<rparr> name)
       \<lparr>ad_len := sizeof_sockaddr_in\<rparr>"

definition Address_in :: "u32 \<Rightarrow> int \<Rightarrow> address" where
  "Address_in w port = \<lparr>ad_family = AF_INET, ad_port = htons (of_int port), ad_addr = w, ad_len = sizeof_sockaddr_in\<rparr>"

definition Address_port :: "int \<Rightarrow> address" where
  "Address_port port = \<lparr>ad_family = AF_INET, ad_port = htons (of_int port), ad_addr = INADDR_ANY, ad_len = sizeof_sockaddr_in\<rparr>"

definition ad_getPort :: "address \<Rightarrow> 16 word" where
  "ad_getPort a = ntohs (ad_port a)"

definition ad_setPort :: "address \<Rightarrow> 16 word \<Rightarrow> address" where
  "ad_setPort a port = a\<lparr>ad_port := htons port\<rparr>"

definition ad_assign :: "address \<Rightarrow> address \<Rightarrow> address" where
  "ad_assign a rhs = a\<lparr>ad_family := ad_family rhs, ad_addr := ad_addr rhs, ad_port := ad_port rhs, ad_len := ad_len rhs\<rparr>"

definition ad_eq :: "address \<Rightarrow> address \<Rightarrow> bool" where
  "ad_eq a rhs \<longleftrightarrow> ad_addr a = ad_addr rhs \<and> ad_port a = ad_port rhs \<and> ad_len a = ad_len rhs"

section \<open>State\<close>

definition POLLOUT :: short where "POLLOUT = 0x004"
definition O_NONBLOCK :: u32 where "O_NONBLOCK = 0x800"
definition EINPROGRESS :: int where "EINPROGRESS = 115"

text \<open>\<open>FD_SET\<close> writes outside of its \<open>fd_set\<close> for a number that is negative or not below \<open>FD_SETSIZE\<close>.\<close>

definition FD_SETSIZE :: int where "FD_SETSIZE = 1024"

definition fd_set_ok :: "int \<Rightarrow> bool" where
  "fd_set_ok fd \<longleftrightarrow> 0 \<le> fd \<and> fd < FD_SETSIZE"

record sock_object =
  skConnectedAsync :: bool
  skListener :: "nat option"
  skFd :: int
  skSelector :: "nat option"
  skConnected :: bool
  skPrivateData :: u32
  skSockStream :: bool
  skParent :: nat
  skReadTimeout :: int
  skLastDatagramSender :: address

text \<open>The calls that the socket makes to its listener and the calls that end the connection, in their order.\<close>

datatype sock_call = HandleConnected nat bool | HandleData nat | HandleClose nat | SysClose int | SysShutdown int

text \<open>
  One socket, \<open>None\<close> when it was deleted, with the file flags of its file, and the selectors. \<open>ssSelf\<close> is the address of the socket.
\<close>

record sock_state =
  ssSelf :: nat
  ssSocket :: "sock_object option"
  ssFlags :: u32
  ssSelectors :: "nat \<Rightarrow> selector option"
  ssCalls :: "sock_call list"

definition ss_get :: "sock_state \<Rightarrow> sock_object outcome" where
  "ss_get st = (case ssSocket st of None \<Rightarrow> Inl UndefinedBehaviour | Some k \<Rightarrow> Inr k)"

definition ss_set :: "sock_state \<Rightarrow> sock_object \<Rightarrow> sock_state" where
  "ss_set st k = st\<lparr>ssSocket := Some k\<rparr>"

definition ss_call :: "sock_state \<Rightarrow> sock_call \<Rightarrow> sock_state" where
  "ss_call st c = st\<lparr>ssCalls := ssCalls st @ [c]\<rparr>"

text \<open>Calls of a selector, which the socket has as a pointer.\<close>

definition ss_selector :: "sock_state \<Rightarrow> nat \<Rightarrow> (selector \<Rightarrow> selector outcome) \<Rightarrow> sock_state outcome" where
  "ss_selector st x f =
     (case ssSelectors st x of None \<Rightarrow> Inl UndefinedBehaviour
      | Some s \<Rightarrow> andThen (f s) (\<lambda>s. Inr (st\<lparr>ssSelectors := (ssSelectors st)(x \<mapsto> s)\<rparr>)))"

definition ss_add :: "sock_state \<Rightarrow> nat \<Rightarrow> int \<Rightarrow> short \<Rightarrow> sock_state outcome" where
  "ss_add st x fd events = ss_selector st x (\<lambda>s. sl_addListener True 0 s fd events (Some (ssSelf st)) 0)"

definition ss_remove :: "sock_state \<Rightarrow> nat \<Rightarrow> int \<Rightarrow> sock_state outcome" where
  "ss_remove st x fd = ss_selector st x (\<lambda>s. sl_removeListener True 0 s fd (Some (ssSelf st)))"

section \<open>Connecting\<close>

text \<open>The constructors; \<open>fd\<close> is what \<open>socket\<close> answers.\<close>

definition socket_of :: "nat \<Rightarrow> bool \<Rightarrow> int \<Rightarrow> sock_object" where
  "socket_of self stream fd = \<lparr>skConnectedAsync = False, skListener = None, skFd = fd, skSelector = None, skConnected = False,
     skPrivateData = 0, skSockStream = stream, skParent = self, skReadTimeout = 0, skLastDatagramSender = Address\<rparr>"

definition Socket_new :: "nat \<Rightarrow> bool \<Rightarrow> int \<Rightarrow> sock_object outcome" where
  "Socket_new self stream fd = (if fd = -1 then Inl Fatal else Inr (socket_of self stream fd))"

definition Socket_fd :: "nat \<Rightarrow> int \<Rightarrow> sock_object" where
  "Socket_fd self fd = socket_of self True fd"

definition sk_setConnected :: "sock_state \<Rightarrow> bool \<Rightarrow> short \<Rightarrow> sock_state outcome" where
  "sk_setConnected st state flags =
     andThen (ss_get st) (\<lambda>k.
     if skConnected k = state then Inr st else
     let k = k\<lparr>skConnected := state\<rparr>; st = ss_set st k in
     case skSelector k of None \<Rightarrow> Inr st
     | Some x \<Rightarrow> if skListener k \<noteq> None
         then (if skConnected k then ss_add st x (skFd k) flags else ss_remove st x (skFd k))
         else Inr st)"

text \<open>\<open>res\<close> is what the system answers to \<open>connect\<close>.\<close>

definition sk_connect :: "sock_state \<Rightarrow> int \<Rightarrow> (int \<times> sock_state) outcome" where
  "sk_connect st res =
     andThen (ss_get st) (\<lambda>k.
     andThen (if res = 0 then sk_setConnected st True POLLIN else Inr st) (\<lambda>st. Inr (res, st)))"

text \<open>
  The answers that a connection without waiting needs: whether \<open>fcntl\<close> reads the flags and writes them, the result of \<open>connect\<close> with its
  error, the results of \<open>select\<close> and of \<open>getsockopt\<close>, and the error of the socket that this reads.
\<close>

record conn_env =
  ceGetfl :: bool
  ceSetfl :: bool
  ceConnect :: int
  ceErrno :: int
  ceRestore :: bool
  ceSelect :: int
  ceGetsockopt :: int
  ceSoError :: int

definition sk_connect_timeout :: "sock_state \<Rightarrow> conn_env \<Rightarrow> (int \<times> sock_state) outcome" where
  "sk_connect_timeout st e =
     andThen (ss_get st) (\<lambda>k.
     let saveflags = ssFlags st in
     if \<not> ceGetfl e then Inr (-1, st) else
     if \<not> ceSetfl e then Inr (-1, st) else
     let st = st\<lparr>ssFlags := saveflags OR O_NONBLOCK\<rparr> in
     if \<not> ceRestore e then Inr (-1, st) else
     let st = st\<lparr>ssFlags := saveflags\<rparr> in
     if ceConnect e < 0 \<and> ceErrno e \<noteq> EINPROGRESS then Inr (-1, st) else
     if \<not> fd_set_ok (skFd k) then Inl UndefinedBehaviour else
     if ceSelect e < 0 then Inr (-1, st) else
     if ceSelect e = 0 then Inr (-1, st) else
     if ceGetsockopt e < 0 then Inr (-1, st) else
     if ceSoError e \<noteq> 0 then Inr (-1, st) else
     andThen (if ceGetsockopt e = 0 then sk_setConnected st True POLLIN else Inr st) (\<lambda>st. Inr (ceGetsockopt e, st)))"

definition sk_connectAsync :: "sock_state \<Rightarrow> conn_env \<Rightarrow> (int \<times> sock_state) outcome" where
  "sk_connectAsync st e =
     andThen (ss_get st) (\<lambda>k.
     let saveflags = ssFlags st in
     if \<not> ceGetfl e then Inr (-1, st) else
     if \<not> ceSetfl e then Inr (-1, st) else
     let st = st\<lparr>ssFlags := saveflags OR O_NONBLOCK\<rparr> in
     if ceConnect e < 0 \<and> ceErrno e \<noteq> EINPROGRESS then Inr (-1, st) else
     let st = ss_set st (k\<lparr>skConnectedAsync := True\<rparr>) in
     andThen (sk_setConnected st True (POLLIN OR POLLOUT)) (\<lambda>st.
     if \<not> ceRestore e then Inr (-1, st) else
     Inr (0, st\<lparr>ssFlags := saveflags\<rparr>)))"

definition sk_shutdown :: "sock_state \<Rightarrow> int \<Rightarrow> (int \<times> sock_state) outcome" where
  "sk_shutdown st res =
     andThen (ss_get st) (\<lambda>k.
     if skFd k \<noteq> -1 then Inr (res, ss_call st (SysShutdown (skFd k))) else Inr (-1, st))"

definition sk_setSelector :: "sock_state \<Rightarrow> nat option \<Rightarrow> nat option \<Rightarrow> sock_state outcome" where
  "sk_setSelector st listener selector =
     andThen (ss_get st) (\<lambda>k.
     let st = ss_set st (k\<lparr>skListener := listener\<rparr>) in
     if skConnected k
     then andThen (case skSelector k of None \<Rightarrow> Inr st | Some x \<Rightarrow> ss_remove st x (skFd k)) (\<lambda>st.
          let st = ss_set st (k\<lparr>skListener := listener, skSelector := selector\<rparr>) in
          case selector of None \<Rightarrow> Inr st
          | Some x \<Rightarrow> if listener \<noteq> None then ss_add st x (skFd k) POLLIN else Inr st)
     else Inr (ss_set st (k\<lparr>skListener := listener, skSelector := selector\<rparr>)))"

text \<open>\<open>res\<close> and \<open>err\<close>: the answer of the system to \<open>close\<close> and its error.\<close>

definition sk_close :: "sock_state \<Rightarrow> int \<Rightarrow> int \<Rightarrow> (err_code \<times> sock_state) outcome" where
  "sk_close st res err =
     andThen (ss_get st) (\<lambda>k.
     if skFd k \<noteq> -1
     then andThen (sk_setConnected st False POLLIN) (\<lambda>st.
          andThen (ss_get st) (\<lambda>k.
          let st = ss_set (ss_call st (SysClose (skFd k))) (k\<lparr>skFd := -1\<rparr>) in
          Inr (if res = -1 then getErrorCode err err else kNoError, st)))
     else Inr (kNotInitialized, st))"

definition sk_delete :: "sock_state \<Rightarrow> int \<Rightarrow> int \<Rightarrow> sock_state outcome" where
  "sk_delete st res err =
     andThen (sk_shutdown st 0) (\<lambda>(_, st). andThen (sk_close st res err) (\<lambda>(_, st). Inr (st\<lparr>ssSocket := None\<rparr>)))"

section \<open>Reading\<close>

text \<open>
  \<open>read\<close> with a timeout waits with \<open>select\<close>, whose answers are pairs of a result and an error. \<open>received\<close> is the answer of \<open>recv\<close>
  or \<open>read\<close>; for a socket of datagrams without a timeout it is that of \<open>recvfrom\<close>, which also writes the address of the sender.
\<close>

definition EINTR :: int where "EINTR = 4"

fun sk_read_select :: "(int \<times> int) list \<Rightarrow> bool outcome" where
  "sk_read_select [] = Inl NoReturn"
| "sk_read_select ((retCode, err) # answers) =
     (if retCode = 0 then Inr False
      else if retCode = -1 then (if err = EINTR then sk_read_select answers else Inr False)
      else Inr True)"

definition sk_recvfrom :: "sock_state \<Rightarrow> int \<Rightarrow> address \<Rightarrow> (int \<times> sock_state) outcome" where
  "sk_recvfrom st received peer =
     andThen (ss_get st) (\<lambda>k.
     Inr (received, if received < 0 then st else ss_set st (k\<lparr>skLastDatagramSender := peer\<rparr>)))"

definition sk_read :: "sock_state \<Rightarrow> (int \<times> int) list \<Rightarrow> int \<Rightarrow> address \<Rightarrow> (int \<times> sock_state) outcome" where
  "sk_read st answers received peer =
     andThen (ss_get st) (\<lambda>k.
     if skReadTimeout k \<noteq> 0
     then (if skReadTimeout k < 0 then Inr (-1, st) else
           if \<not> fd_set_ok (skFd k) then Inl UndefinedBehaviour else
           andThen (sk_read_select answers) (\<lambda>ready.
           if \<not> ready then Inr (-1, st)
           else if received < 0 then Inr (-1, st) else Inr (received, st)))
     else if \<not> skSockStream k then sk_recvfrom st received peer
     else Inr (received, st))"

definition sk_getBytesAvailable :: "int \<Rightarrow> int \<Rightarrow> int" where
  "sk_getBytesAvailable result bytesAvail = (if result \<noteq> 0 then -1 else bytesAvail)"

section \<open>Events\<close>

text \<open>What a listener does when it is called, on any state.\<close>

record sock_client =
  scConnected :: "nat \<Rightarrow> bool \<Rightarrow> sock_state \<Rightarrow> sock_state outcome"
  scData :: "nat \<Rightarrow> sock_state \<Rightarrow> sock_state outcome"
  scClose :: "nat \<Rightarrow> sock_state \<Rightarrow> (bool \<times> sock_state) outcome"

record event_env =
  eeGetsockopt :: int
  eeSoError :: int
  eeIoctl :: int
  eeAvail :: int
  eeClose :: int
  eeErrno :: int

definition POLLHUP16 :: short where "POLLHUP16 = 0x010"

text \<open>The part of \<open>processFileEvents\<close> that tells a socket of \<open>connectAsync\<close> that it is connected.\<close>

definition sk_connected_event :: "sock_client \<Rightarrow> event_env \<Rightarrow> sock_state \<Rightarrow> sock_state outcome" where
  "sk_connected_event c e st =
     andThen (ss_get st) (\<lambda>k.
     let st = ss_set st (k\<lparr>skConnectedAsync := False\<rparr>) in
     andThen (case skSelector k of None \<Rightarrow> Inr st
              | Some x \<Rightarrow> andThen (ss_remove st x (skFd k)) (\<lambda>st. ss_add st x (skFd k) POLLIN)) (\<lambda>st.
     case skListener k of None \<Rightarrow> Inr st
     | Some l \<Rightarrow>
         if eeGetsockopt e < 0 then scConnected c l False (ss_call st (HandleConnected l False))
         else scConnected c l True (ss_call st (HandleConnected l True))))"

text \<open>The end of \<open>processFileEvents\<close>.\<close>

definition sk_close_event :: "sock_client \<Rightarrow> event_env \<Rightarrow> sock_state \<Rightarrow> sock_state outcome" where
  "sk_close_event c e st =
     andThen (ss_get st) (\<lambda>k.
     andThen (case skListener k of None \<Rightarrow> Inr (False, st) | Some l \<Rightarrow> scClose c l (ss_call st (HandleClose l))) (\<lambda>(userHandled, st).
     if userHandled then Inr st else andThen (sk_close st (eeClose e) (eeErrno e)) (\<lambda>(_, st). Inr st)))"

definition sk_processFileEvents :: "sock_client \<Rightarrow> event_env \<Rightarrow> sock_state \<Rightarrow> short \<Rightarrow> sock_state outcome" where
  "sk_processFileEvents c e st events =
     andThen (ss_get st) (\<lambda>k.
     if events AND POLLOUT \<noteq> 0 \<and> skConnectedAsync k then sk_connected_event c e st else
     let hup = (events AND POLLHUP16 \<noteq> 0) in
     if events AND POLLIN \<noteq> 0
     then let bytesAvail = sk_getBytesAvailable (eeIoctl e) (eeAvail e) in
          if bytesAvail = 0 then sk_close_event c e st
          else (case skListener k of
                  Some l \<Rightarrow> scData c l (ss_call st (HandleData l))
                | None \<Rightarrow> if hup then sk_close_event c e st else Inr st)
     else if hup then sk_close_event c e st else Inr st)"

section \<open>Addresses of the ends, options\<close>

definition sk_getRemoteAddress :: "sock_state \<Rightarrow> int \<Rightarrow> address \<Rightarrow> (int \<times> address) outcome" where
  "sk_getRemoteAddress st res peer =
     andThen (ss_get st) (\<lambda>k.
     if res = 0 then Inr (res, peer)
     else if \<not> skSockStream k then Inr (0, skLastDatagramSender k)
     else Inr (res, Address))"

definition sk_getLocalAddress :: "int \<Rightarrow> address \<Rightarrow> int \<times> address" where
  "sk_getLocalAddress res name = (res, if res = 0 then name else Address)"

text \<open>The number of probes is computed in \<open>int\<close>, whose division cuts towards 0.\<close>

definition keepalive_probes :: "int \<Rightarrow> int outcome" where
  "keepalive_probes timeout =
     (let n = timeout + (5 - 1) in
      if n \<ge> 2 ^ 31 then Inl UndefinedBehaviour else Inr (if n < 0 then - ((- n) div 5) else n div 5))"

datatype keepalive = SO_KEEPALIVE int | TCP_KEEPIDLE int | TCP_KEEPINTVL int | TCP_KEEPCNT int

text \<open>\<open>answers\<close> are the results of the calls of \<open>setsockopt\<close>, in their order; the options that were set are returned with the result.\<close>

fun set_options :: "keepalive list \<Rightarrow> int list \<Rightarrow> keepalive list \<times> bool" where
  "set_options [] answers = ([], True)"
| "set_options (opt # opts) [] = ([], False)"
| "set_options (opt # opts) (r # answers) =
     (if r \<noteq> 0 then ([], False) else let (done, ok) = set_options opts answers in (opt # done, ok))"

definition sk_setKeepAlive :: "int \<Rightarrow> int list \<Rightarrow> (keepalive list \<times> bool) outcome" where
  "sk_setKeepAlive timeout answers =
     andThen (keepalive_probes timeout) (\<lambda>probes.
     Inr (set_options [SO_KEEPALIVE 1, TCP_KEEPIDLE 5, TCP_KEEPINTVL 5, TCP_KEEPCNT probes] answers))"

text \<open>The loop that takes the logarithm, and what the system says of a connection.\<close>

function magnitude :: "u32 \<Rightarrow> byte \<Rightarrow> byte" where
  "magnitude i m = (if i > 1 then magnitude (i div 2) (m + 1) else m)"
  by auto
termination
proof (relation "measure (\<lambda>(i, m). unat i)")
  fix i :: u32 and m :: byte
  assume "i > 1"
  then have "unat i > 1" by (simp add: word_less_nat_alt)
  then show "((i div 2, m + 1), (i, m)) \<in> measure (\<lambda>(i, m). unat i)" by (simp add: unat_div)
qed simp

record tcp_info =
  tcpi_retransmits :: byte
  tcpi_probes :: byte
  tcpi_backoff :: byte
  tcpi_last_ack_recv :: u32

definition sk_checkSocketHealth :: "u32 \<Rightarrow> tcp_info option \<Rightarrow> int" where
  "sk_checkSocketHealth thresholdSeconds answer =
     (let thresholdMagnitude = unat (magnitude thresholdSeconds 0) in
      case answer of None \<Rightarrow> -1
      | Some info \<Rightarrow>
        if unat (tcpi_retransmits info) > thresholdMagnitude + 1 \<and> tcpi_last_ack_recv info > thresholdSeconds * 1000
        then uint (tcpi_last_ack_recv info div 1000)
        else if tcpi_probes info > 0 \<and> unat (tcpi_probes info) + unat (tcpi_backoff info) > thresholdMagnitude * 2 \<and>
            tcpi_last_ack_recv info > thresholdSeconds * 1000
        then uint (tcpi_last_ack_recv info div 1000)
        else 0)"

section \<open>Sockets of servers\<close>

definition srv_bind :: "sock_state \<Rightarrow> int \<Rightarrow> (int \<times> sock_state) outcome" where
  "srv_bind st res =
     andThen (ss_get st) (\<lambda>k.
     andThen (if res = 0 \<and> \<not> skSockStream k then sk_setConnected st True POLLIN else Inr st) (\<lambda>st. Inr (res, st)))"

definition srv_listen :: "sock_state \<Rightarrow> int \<Rightarrow> (int \<times> sock_state) outcome" where
  "srv_listen st res =
     andThen (ss_get st) (\<lambda>k.
     andThen (if res = 0 then sk_setConnected st True POLLIN else Inr st) (\<lambda>st. Inr (res, st)))"

text \<open>A new socket at address \<open>a\<close> for the file \<open>res\<close> that \<open>accept\<close> answers; it has no selector yet.\<close>

definition srv_accept :: "sock_state \<Rightarrow> nat \<Rightarrow> int \<Rightarrow> sock_object option outcome" where
  "srv_accept st a res =
     andThen (ss_get st) (\<lambda>k.
     Inr (if res \<noteq> -1 then Some ((Socket_fd a res)\<lparr>skConnected := True, skParent := ssSelf st\<rparr>) else None))"

text \<open>The listener answers whether it accepts, and leaves the new socket in some state.\<close>

record srv_client =
  svAccept :: "nat \<Rightarrow> sock_object \<Rightarrow> sock_state \<Rightarrow> (bool \<times> sock_object \<times> sock_state) outcome"
  svData :: "nat \<Rightarrow> sock_state \<Rightarrow> sock_state outcome"

text \<open>Closing and deleting the new socket \<open>n\<close>, with the answers of the system to \<open>close\<close>.\<close>

definition srv_drop :: "sock_state \<Rightarrow> nat \<Rightarrow> sock_object \<Rightarrow> int \<Rightarrow> int \<Rightarrow> sock_state outcome" where
  "srv_drop st a n res err =
     andThen (sk_close (st\<lparr>ssSelf := a, ssSocket := Some n\<rparr>) res err) (\<lambda>(_, t).
     andThen (sk_delete t res err) (\<lambda>t. Inr (st\<lparr>ssSelectors := ssSelectors t, ssCalls := ssCalls t\<rparr>)))"

definition srv_processFileEvents :: "srv_client \<Rightarrow> nat \<Rightarrow> int \<Rightarrow> event_env \<Rightarrow> sock_state \<Rightarrow> short \<Rightarrow> sock_state outcome" where
  "srv_processFileEvents c a accepted_fd e st events =
     (if events AND POLLIN = 0 then Inr st else
      andThen (ss_get st) (\<lambda>k.
      if skSockStream k
      then andThen (srv_accept st a accepted_fd) (\<lambda>newSock.
           case newSock of None \<Rightarrow> Inr st
           | Some n \<Rightarrow>
               andThen (case skListener k of None \<Rightarrow> Inr (False, n, st) | Some l \<Rightarrow> svAccept c l n st) (\<lambda>(accepted, n, st).
               if \<not> accepted then srv_drop st a n (eeClose e) (eeErrno e) else Inr st))
      else (case skListener k of None \<Rightarrow> Inr st | Some l \<Rightarrow> svData c l (ss_call st (HandleData l)))))"

section \<open>The listener of a socket in the tables of the selectors\<close>

text \<open>\<open>ss_tables X st T\<close>: the selectors in \<open>X\<close> exist and have the listeners of the tables \<open>T\<close>.\<close>

definition ss_tables :: "nat set \<Rightarrow> sock_state \<Rightarrow> (nat \<Rightarrow> selector_node list) \<Rightarrow> bool" where
  "ss_tables X st T \<longleftrightarrow> (\<forall>x \<in> X. \<exists>s. ssSelectors st x = Some s \<and> sl_table s (T x))"

lemma ss_tables_cong: "ss_tables X st T \<Longrightarrow> ssSelectors st' = ssSelectors st \<Longrightarrow> ss_tables X st' T"
  by (simp add: ss_tables_def)

lemma ss_add_tables:
  assumes "ss_tables X st T" "x \<in> X"
  shows "\<exists>f. ss_add st x fd events = Inr (st\<lparr>ssSelectors := f\<rparr>) \<and>
    ss_tables X (st\<lparr>ssSelectors := f\<rparr>) (T(x := T x @ [reg_node (fd, events, Some (ssSelf st), 0)]))"
proof -
  obtain s where s: "ssSelectors st x = Some s" "sl_table s (T x)" using assms by (auto simp: ss_tables_def)
  obtain s' where s': "sl_addListener True 0 s fd events (Some (ssSelf st)) 0 = Inr s'"
    "sl_table s' (T x @ [reg_node (fd, events, Some (ssSelf st), 0)])"
    using sl_add_table [OF s(2)] by blast
  then show ?thesis using s assms
    by (intro exI [of _ "(ssSelectors st)(x \<mapsto> s')"]) (simp add: ss_add_def ss_selector_def ss_tables_def)
qed

lemma ss_remove_tables:
  assumes "ss_tables X st T" "x \<in> X"
  shows "\<exists>f. ss_remove st x fd = Inr (st\<lparr>ssSelectors := f\<rparr>) \<and>
    ss_tables X (st\<lparr>ssSelectors := f\<rparr>) (T(x := filter (\<lambda>n. mFd n \<noteq> fd) (T x)))"
proof -
  obtain s where s: "ssSelectors st x = Some s" "sl_table s (T x)" using assms by (auto simp: ss_tables_def)
  obtain s' where r: "sl_removeListener True 0 s fd (Some (ssSelf st)) = Inr s'" "sl_table s' (filter (\<lambda>n. mFd n \<noteq> fd) (T x))"
  proof -
    obtain l nodes where r: "sl_removeListener True 0 s fd (Some (ssSelf st)) =
        Inr (s\<lparr>slList := l, slNodes := nodes, slUpdateFds := (if fd \<in> mFd ` set (T x) then True else slUpdateFds s)\<rparr>)"
      "sl_table (s\<lparr>slList := l, slNodes := nodes\<rparr>) (filter (\<lambda>n. mFd n \<noteq> fd) (T x))"
      using sl_removeListener_table [OF s(2)] by blast
    show thesis by (rule that [OF r(1)]) (use r(2) in \<open>simp add: sl_table_def sl_nodes_def\<close>)
  qed
  show ?thesis using s r assms
    by (intro exI [of _ "(ssSelectors st)(x \<mapsto> s')"]) (simp add: ss_remove_def ss_selector_def ss_tables_def)
qed

text \<open>
  The invariant of a socket whose file was \<open>fd\<close>: it is registered with its selector exactly when it is connected and has both a selector and a listener,
  once, for reading, and for writing too only while it waits for \<open>connectAsync\<close>; after a hang-up (\<open>h\<close>), when the
  selector has taken the listener off its list, it may also not be registered. The listeners for other files, \<open>others\<close>, are left alone.
\<close>

definition on_selector :: "sock_object \<Rightarrow> nat \<Rightarrow> bool" where
  "on_selector k x \<longleftrightarrow> skConnected k \<and> skSelector k = Some x \<and> skListener k \<noteq> None"

definition own_entries :: "bool \<Rightarrow> nat \<Rightarrow> int \<Rightarrow> sock_object \<Rightarrow> nat \<Rightarrow> selector_node list \<Rightarrow> bool" where
  "own_entries h self fd k x es \<longleftrightarrow>
     (if on_selector k x
      then es = [reg_node (fd, POLLIN, Some self, 0)] \<or> es = [reg_node (fd, POLLIN OR POLLOUT, Some self, 0)] \<and> skConnectedAsync k \<or>
        h \<and> es = []
      else es = [])"

definition sock_ok :: "nat set \<Rightarrow> int \<Rightarrow> sock_object \<Rightarrow> bool" where
  "sock_ok X fd k \<longleftrightarrow> (skFd k = fd \<or> skFd k = -1 \<and> \<not> skConnected k) \<and> (\<forall>x. skSelector k = Some x \<longrightarrow> x \<in> X)"

definition sock_inv :: "bool \<Rightarrow> nat set \<Rightarrow> (nat \<Rightarrow> selector_node list) \<Rightarrow> nat \<Rightarrow> int \<Rightarrow> sock_state \<Rightarrow> bool" where
  "sock_inv h X others self fd st \<longleftrightarrow> ssSelf st = self \<and>
     (\<exists>k T. ssSocket st = Some k \<and> sock_ok X fd k \<and> ss_tables X st T \<and>
        (\<forall>x \<in> X. filter (\<lambda>n. mFd n \<noteq> fd) (T x) = others x \<and> own_entries h self fd k x (filter (\<lambda>n. mFd n = fd) (T x))))"

lemma sock_invI:
  assumes "ssSelf st = self" "ssSocket st = Some k" "sock_ok X fd k" "ss_tables X st T"
    "\<And>x. x \<in> X \<Longrightarrow> filter (\<lambda>n. mFd n \<noteq> fd) (T x) = others x \<and> own_entries h self fd k x (filter (\<lambda>n. mFd n = fd) (T x))"
  shows "sock_inv h X others self fd st"
  using assms unfolding sock_inv_def by blast

lemma sock_invE:
  assumes "sock_inv h X others self fd st"
  obtains k T where "ssSelf st = self" "ssSocket st = Some k" "sock_ok X fd k" "ss_tables X st T"
    "\<And>x. x \<in> X \<Longrightarrow> filter (\<lambda>n. mFd n \<noteq> fd) (T x) = others x"
    "\<And>x. x \<in> X \<Longrightarrow> own_entries h self fd k x (filter (\<lambda>n. mFd n = fd) (T x))"
  using assms unfolding sock_inv_def by blast

lemma reg_node_fd [simp]: "mFd (reg_node (fd, ev, l, pd)) = fd"
  by (simp add: reg_node_def)

lemma filter_fd_simps [simp]:
  "filter (\<lambda>n. mFd n \<noteq> fd) (filter (\<lambda>n. mFd n \<noteq> fd) ts) = filter (\<lambda>n. mFd n \<noteq> fd) ts"
  "filter (\<lambda>n. mFd n = fd) (filter (\<lambda>n. mFd n \<noteq> fd) ts) = []"
  by (simp_all add: filter_empty_conv)

lemma POLL_simps [simp]: "POLLIN \<noteq> POLLIN OR POLLOUT" "POLLIN OR POLLOUT \<noteq> POLLIN"
  by (simp_all add: POLLIN_def POLLOUT_def)

lemma setConnected_on:
  assumes inv: "sock_inv h X others self fd st" and k: "ssSocket st = Some k" "skFd k = fd"
    and flags: "flags = POLLIN \<or> flags = POLLIN OR POLLOUT \<and> skConnectedAsync k"
  shows "\<exists>f. sk_setConnected st True flags = Inr (st\<lparr>ssSocket := Some (k\<lparr>skConnected := True\<rparr>), ssSelectors := f\<rparr>) \<and>
    sock_inv h X others self fd (st\<lparr>ssSocket := Some (k\<lparr>skConnected := True\<rparr>), ssSelectors := f\<rparr>)"
proof -
  obtain T where T: "ssSelf st = self" "sock_ok X fd k" "ss_tables X st T" "\<And>x. x \<in> X \<Longrightarrow> filter (\<lambda>n. mFd n \<noteq> fd) (T x) = others x"
    "\<And>x. x \<in> X \<Longrightarrow> own_entries h self fd k x (filter (\<lambda>n. mFd n = fd) (T x))"
    by (rule sock_invE [OF inv]) (use k in auto)
  let ?k = "k\<lparr>skConnected := True\<rparr>"
  let ?st = "st\<lparr>ssSocket := Some ?k\<rparr>"
  have t: "ss_tables X ?st T" using ss_tables_cong [OF T(3)] by simp
  have ok: "sock_ok X fd ?k" using T(2) k(2) by (simp add: sock_ok_def)
  consider (same) "skConnected k" | (reg) x where "\<not> skConnected k" "skSelector k = Some x" "skListener k \<noteq> None"
    | (free) "\<not> skConnected k" "skSelector k = None \<or> skListener k = None" by (cases "skSelector k") auto
  then show ?thesis
  proof cases
    case same
    then have "?k = k" by simp
    then have e: "st\<lparr>ssSocket := Some ?k, ssSelectors := ssSelectors st\<rparr> = st" using k(1) by simp
    have "sk_setConnected st True flags = Inr st" using same k(1) by (simp add: sk_setConnected_def ss_get_def)
    then show ?thesis using inv e by (intro exI [of _ "ssSelectors st"]) simp
  next
    case reg
    have x: "x \<in> X" using T(2) reg(2) by (simp add: sock_ok_def)
    let ?T = "T(x := T x @ [reg_node (fd, flags, Some self, 0)])"
    obtain f where f: "ss_add ?st x fd flags = Inr (?st\<lparr>ssSelectors := f\<rparr>)" "ss_tables X (?st\<lparr>ssSelectors := f\<rparr>) ?T"
      using ss_add_tables [OF t x, of fd flags] T(1) by auto
    have "sk_setConnected st True flags = Inr (?st\<lparr>ssSelectors := f\<rparr>)"
      using reg k f(1) by (simp add: sk_setConnected_def ss_get_def ss_set_def)
    moreover have "sock_inv h X others self fd (?st\<lparr>ssSelectors := f\<rparr>)"
    proof (rule sock_invI [where k = ?k and T = ?T])
      fix y assume y: "y \<in> X"
      show "filter (\<lambda>n. mFd n \<noteq> fd) (?T y) = others y \<and> own_entries h self fd ?k y (filter (\<lambda>n. mFd n = fd) (?T y))"
        using T(4) [OF y] T(5) [OF y] reg flags by (auto simp: own_entries_def on_selector_def)
    qed (use T(1) ok f(2) in simp_all)
    ultimately show ?thesis by blast
  next
    case free
    have "sk_setConnected st True flags = Inr ?st"
      using free k by (cases "skSelector k") (auto simp: sk_setConnected_def ss_get_def ss_set_def Let_def)
    moreover have "sock_inv h X others self fd ?st"
    proof (rule sock_invI [where k = ?k and T = T])
      fix y assume y: "y \<in> X"
      show "filter (\<lambda>n. mFd n \<noteq> fd) (T y) = others y \<and> own_entries h self fd ?k y (filter (\<lambda>n. mFd n = fd) (T y))"
        using T(4) [OF y] T(5) [OF y] free by (auto simp: own_entries_def on_selector_def)
    qed (use T(1) ok t in simp_all)
    ultimately show ?thesis by (intro exI [of _ "ssSelectors st"]) simp
  qed
qed

lemma setConnected_off:
  assumes inv: "sock_inv h X others self fd st" and k: "ssSocket st = Some k" "skFd k = fd"
  shows "\<exists>f. sk_setConnected st False flags = Inr (st\<lparr>ssSocket := Some (k\<lparr>skConnected := False\<rparr>), ssSelectors := f\<rparr>) \<and>
    sock_inv h X others self fd (st\<lparr>ssSocket := Some (k\<lparr>skConnected := False\<rparr>), ssSelectors := f\<rparr>)"
proof -
  obtain T where T: "ssSelf st = self" "sock_ok X fd k" "ss_tables X st T" "\<And>x. x \<in> X \<Longrightarrow> filter (\<lambda>n. mFd n \<noteq> fd) (T x) = others x"
    "\<And>x. x \<in> X \<Longrightarrow> own_entries h self fd k x (filter (\<lambda>n. mFd n = fd) (T x))"
    by (rule sock_invE [OF inv]) (use k in auto)
  let ?k = "k\<lparr>skConnected := False\<rparr>"
  let ?st = "st\<lparr>ssSocket := Some ?k\<rparr>"
  have t: "ss_tables X ?st T" using ss_tables_cong [OF T(3)] by simp
  have ok: "sock_ok X fd ?k" using T(2) k(2) by (simp add: sock_ok_def)
  consider (same) "\<not> skConnected k" | (reg) x where "skConnected k" "skSelector k = Some x" "skListener k \<noteq> None"
    | (free) "skConnected k" "skSelector k = None \<or> skListener k = None" by (cases "skSelector k") auto
  then show ?thesis
  proof cases
    case same
    then have "?k = k" by simp
    then have e: "st\<lparr>ssSocket := Some ?k, ssSelectors := ssSelectors st\<rparr> = st" using k(1) by simp
    have "sk_setConnected st False flags = Inr st" using same k(1) by (simp add: sk_setConnected_def ss_get_def)
    then show ?thesis using inv e by (intro exI [of _ "ssSelectors st"]) simp
  next
    case reg
    have x: "x \<in> X" using T(2) reg(2) by (simp add: sock_ok_def)
    let ?T = "T(x := filter (\<lambda>n. mFd n \<noteq> fd) (T x))"
    obtain f where f: "ss_remove ?st x fd = Inr (?st\<lparr>ssSelectors := f\<rparr>)" "ss_tables X (?st\<lparr>ssSelectors := f\<rparr>) ?T"
      using ss_remove_tables [OF t x, of fd] by auto
    have "sk_setConnected st False flags = Inr (?st\<lparr>ssSelectors := f\<rparr>)"
      using reg k f(1) by (simp add: sk_setConnected_def ss_get_def ss_set_def)
    moreover have "sock_inv h X others self fd (?st\<lparr>ssSelectors := f\<rparr>)"
    proof (rule sock_invI [where k = ?k and T = ?T])
      fix y assume y: "y \<in> X"
      show "filter (\<lambda>n. mFd n \<noteq> fd) (?T y) = others y \<and> own_entries h self fd ?k y (filter (\<lambda>n. mFd n = fd) (?T y))"
        using T(4) [OF y] T(5) [OF y] reg by (auto simp: own_entries_def on_selector_def)
    qed (use T(1) ok f(2) in simp_all)
    ultimately show ?thesis by blast
  next
    case free
    have "sk_setConnected st False flags = Inr ?st"
      using free k by (cases "skSelector k") (auto simp: sk_setConnected_def ss_get_def ss_set_def Let_def)
    moreover have "sock_inv h X others self fd ?st"
    proof (rule sock_invI [where k = ?k and T = T])
      fix y assume y: "y \<in> X"
      show "filter (\<lambda>n. mFd n \<noteq> fd) (T y) = others y \<and> own_entries h self fd ?k y (filter (\<lambda>n. mFd n = fd) (T y))"
        using T(4) [OF y] T(5) [OF y] free by (auto simp: own_entries_def on_selector_def)
    qed (use T(1) ok t in simp_all)
    ultimately show ?thesis by (intro exI [of _ "ssSelectors st"]) simp
  qed
qed

lemma sock_inv_other [simp]:
  "sock_inv h X others self fd (st\<lparr>ssFlags := w\<rparr>) = sock_inv h X others self fd st"
  "sock_inv h X others self fd (ss_call st c) = sock_inv h X others self fd st"
  by (simp_all add: sock_inv_def ss_tables_def ss_call_def)

text \<open>A change of the members of the socket that leaves its listener in the tables right.\<close>

lemma sock_inv_members:
  assumes inv: "sock_inv h X others self fd st" and k: "ssSocket st = Some k" and ok: "sock_ok X fd k'"
    and own: "\<And>x es. own_entries h self fd k x es \<Longrightarrow> own_entries h self fd k' x es"
  shows "sock_inv h X others self fd (ss_set st k')"
proof -
  obtain T where T: "ssSelf st = self" "ss_tables X st T" "\<And>x. x \<in> X \<Longrightarrow> filter (\<lambda>n. mFd n \<noteq> fd) (T x) = others x"
    "\<And>x. x \<in> X \<Longrightarrow> own_entries h self fd k x (filter (\<lambda>n. mFd n = fd) (T x))"
    by (rule sock_invE [OF inv]) (use k in auto)
  show ?thesis
    by (rule sock_invI [where k = k' and T = T]) (use T ok own ss_tables_cong [OF T(2)] in \<open>auto simp: ss_set_def\<close>)
qed

text \<open>Taking the listener out of the table of one selector and, if there is one now, putting it into another.\<close>

lemma sock_reregister_entry:
  assumes inv: "sock_inv h X others self fd st" and k: "ssSocket st = Some k" and c: "skConnected k" "skFd k = fd"
    and k': "skConnected k'" "skFd k' = fd" "sock_ok X fd k'" "\<And>x. skSelector k' = Some x \<Longrightarrow> x \<in> X"
  shows "\<exists>f. andThen (case skSelector k of None \<Rightarrow> Inr (ss_set st k1) | Some x \<Rightarrow> ss_remove (ss_set st k1) x fd) (\<lambda>st.
      case skSelector k' of None \<Rightarrow> Inr (ss_set st k')
      | Some x \<Rightarrow> if skListener k' \<noteq> None then ss_add (ss_set st k') x fd POLLIN else Inr (ss_set st k')) =
    Inr (st\<lparr>ssSocket := Some k', ssSelectors := f\<rparr>) \<and> sock_inv h X others self fd (st\<lparr>ssSocket := Some k', ssSelectors := f\<rparr>) \<and>
    (\<forall>x. on_selector k' x \<longrightarrow> (\<exists>s ts. f x = Some s \<and> sl_table s ts \<and> filter (\<lambda>n. mFd n = fd) ts = [reg_node (fd, POLLIN, Some self, 0)]))"
proof -
  obtain T where T: "ssSelf st = self" "sock_ok X fd k" "ss_tables X st T" "\<And>x. x \<in> X \<Longrightarrow> filter (\<lambda>n. mFd n \<noteq> fd) (T x) = others x"
    "\<And>x. x \<in> X \<Longrightarrow> own_entries h self fd k x (filter (\<lambda>n. mFd n = fd) (T x))"
    by (rule sock_invE [OF inv]) (use k in auto)
  let ?T1 = "\<lambda>y. if y \<in> X then others y else T y"
  have "\<exists>f. (case skSelector k of None \<Rightarrow> Inr (ss_set st k1) | Some x \<Rightarrow> ss_remove (ss_set st k1) x fd) =
      Inr (ss_set st k1\<lparr>ssSelectors := f\<rparr>) \<and> ss_tables X (ss_set st k1\<lparr>ssSelectors := f\<rparr>) ?T1"
  proof (cases "skSelector k")
    case None
    have "T y = others y" if "y \<in> X" for y
      using T(4,5) [OF that] None by (simp add: own_entries_def on_selector_def filter_empty_conv filter_id_conv)
    then have "ss_tables X (ss_set st k1\<lparr>ssSelectors := ssSelectors st\<rparr>) ?T1" using T(3) by (simp add: ss_tables_def)
    moreover have "ss_set st k1 = ss_set st k1\<lparr>ssSelectors := ssSelectors st\<rparr>" by (simp add: ss_set_def)
    ultimately show ?thesis using None by (intro exI [of _ "ssSelectors st"]) simp
  next
    case (Some x)
    have x: "x \<in> X" using T(2) Some by (simp add: sock_ok_def)
    have t: "ss_tables X (ss_set st k1) T" using ss_tables_cong [OF T(3)] by (simp add: ss_set_def)
    obtain f where f: "ss_remove (ss_set st k1) x fd = Inr (ss_set st k1\<lparr>ssSelectors := f\<rparr>)"
      "ss_tables X (ss_set st k1\<lparr>ssSelectors := f\<rparr>) (T(x := filter (\<lambda>n. mFd n \<noteq> fd) (T x)))"
      using ss_remove_tables [OF t x, of fd] by blast
    have "(T(x := filter (\<lambda>n. mFd n \<noteq> fd) (T x))) y = others y" if "y \<in> X" for y
      using T(4,5) [OF that] Some by (auto simp: own_entries_def on_selector_def filter_empty_conv)
    then have "ss_tables X (ss_set st k1\<lparr>ssSelectors := f\<rparr>) ?T1" using f(2) unfolding ss_tables_def by metis
    then show ?thesis using f(1) Some by auto
  qed
  then obtain f where f: "(case skSelector k of None \<Rightarrow> Inr (ss_set st k1) | Some x \<Rightarrow> ss_remove (ss_set st k1) x fd) =
      Inr (ss_set st k1\<lparr>ssSelectors := f\<rparr>)" "ss_tables X (ss_set st k1\<lparr>ssSelectors := f\<rparr>) ?T1" by blast
  let ?st = "st\<lparr>ssSocket := Some k', ssSelectors := f\<rparr>"
  have e: "ss_set (ss_set st k1\<lparr>ssSelectors := f\<rparr>) k' = ?st" by (simp add: ss_set_def)
  have t: "ss_tables X ?st ?T1" using ss_tables_cong [OF f(2)] by simp
  have others: "filter (\<lambda>n. mFd n \<noteq> fd) (others y) = others y" "filter (\<lambda>n. mFd n = fd) (others y) = []" if "y \<in> X" for y
    using T(4) [OF that] by (metis filter_fd_simps(1), metis filter_fd_simps(2))
  show ?thesis
  proof (cases "\<exists>x. on_selector k' x")
    case True
    then obtain x where x: "skSelector k' = Some x" "skListener k' \<noteq> None" by (auto simp: on_selector_def)
    obtain g where g: "ss_add ?st x fd POLLIN = Inr (?st\<lparr>ssSelectors := g\<rparr>)"
      "ss_tables X (?st\<lparr>ssSelectors := g\<rparr>) (?T1(x := ?T1 x @ [reg_node (fd, POLLIN, Some self, 0)]))"
      using ss_add_tables [OF t k'(4) [OF x(1)], of fd POLLIN] T(1) by auto
    have "sock_inv h X others self fd (?st\<lparr>ssSelectors := g\<rparr>)"
    proof (rule sock_invI [OF _ _ k'(3) g(2)])
      fix y assume y: "y \<in> X"
      show "filter (\<lambda>n. mFd n \<noteq> fd) ((?T1(x := ?T1 x @ [reg_node (fd, POLLIN, Some self, 0)])) y) = others y \<and>
          own_entries h self fd k' y (filter (\<lambda>n. mFd n = fd) ((?T1(x := ?T1 x @ [reg_node (fd, POLLIN, Some self, 0)])) y))"
        using others [OF y] y x k' by (auto simp: own_entries_def on_selector_def)
    qed (use T(1) in simp_all)
    moreover have "\<exists>s ts. g y = Some s \<and> sl_table s ts \<and> filter (\<lambda>n. mFd n = fd) ts = [reg_node (fd, POLLIN, Some self, 0)]"
      if "on_selector k' y" for y
    proof -
      have y: "y = x" "x \<in> X" using that x(1) k'(4) by (auto simp: on_selector_def)
      obtain s where "g x = Some s" "sl_table s (?T1 x @ [reg_node (fd, POLLIN, Some self, 0)])"
        using g(2) y(2) by (auto simp: ss_tables_def)
      then show ?thesis using others(2) [OF y(2)] y by auto
    qed
    ultimately show ?thesis using f(1) e g(1) x by auto
  next
    case False
    have "sock_inv h X others self fd ?st"
    proof (rule sock_invI [OF _ _ k'(3) t])
      fix y assume y: "y \<in> X"
      show "filter (\<lambda>n. mFd n \<noteq> fd) (?T1 y) = others y \<and> own_entries h self fd k' y (filter (\<lambda>n. mFd n = fd) (?T1 y))"
        using others [OF y] y False by (auto simp: own_entries_def)
    qed (use T(1) in simp_all)
    moreover have "skSelector k' = None \<or> skListener k' = None" using False k'(1) by (auto simp: on_selector_def)
    ultimately show ?thesis using f(1) e False by (cases "skSelector k'") auto
  qed
qed

lemma sock_reregister:
  assumes "sock_inv h X others self fd st" "ssSocket st = Some k" "skConnected k" "skFd k = fd"
    "skConnected k'" "skFd k' = fd" "sock_ok X fd k'" "\<And>x. skSelector k' = Some x \<Longrightarrow> x \<in> X"
  shows "\<exists>f. andThen (case skSelector k of None \<Rightarrow> Inr (ss_set st k1) | Some x \<Rightarrow> ss_remove (ss_set st k1) x fd) (\<lambda>st.
      case skSelector k' of None \<Rightarrow> Inr (ss_set st k')
      | Some x \<Rightarrow> if skListener k' \<noteq> None then ss_add (ss_set st k') x fd POLLIN else Inr (ss_set st k')) =
    Inr (st\<lparr>ssSocket := Some k', ssSelectors := f\<rparr>) \<and> sock_inv h X others self fd (st\<lparr>ssSocket := Some k', ssSelectors := f\<rparr>)"
  using sock_reregister_entry [OF assms, of k1] by blast

section \<open>Clients and runs\<close>

text \<open>
  What a program does with its socket. For a socket that was closed the system has no file, so that \<open>fcntl\<close> and \<open>connect\<close> fail; the selectors
  that a program names are those in \<open>X\<close>.
\<close>

datatype sock_op = OpConnect int | OpConnectTimeout conn_env | OpConnectAsync conn_env | OpSetSelector "nat option" "nat option"
  | OpShutdown int | OpRead "(int \<times> int) list" int address | OpSetReadTimeout int | OpBind int | OpListen int | OpClose int int

definition on_file :: "sock_object \<Rightarrow> conn_env \<Rightarrow> conn_env" where
  "on_file k e = (if skFd k = -1 then e\<lparr>ceGetfl := False\<rparr> else e)"

fun sk_op :: "sock_op \<Rightarrow> sock_state \<Rightarrow> sock_state outcome" where
  "sk_op (OpConnect res) st =
     andThen (ss_get st) (\<lambda>k. andThen (sk_connect st (if skFd k = -1 then -1 else res)) (\<lambda>(_, st). Inr st))"
| "sk_op (OpConnectTimeout e) st = andThen (ss_get st) (\<lambda>k. andThen (sk_connect_timeout st (on_file k e)) (\<lambda>(_, st). Inr st))"
| "sk_op (OpConnectAsync e) st = andThen (ss_get st) (\<lambda>k. andThen (sk_connectAsync st (on_file k e)) (\<lambda>(_, st). Inr st))"
| "sk_op (OpSetSelector l x) st = sk_setSelector st l x"
| "sk_op (OpShutdown res) st = andThen (sk_shutdown st res) (\<lambda>(_, st). Inr st)"
| "sk_op (OpRead answers received p) st =
     (case sk_read st answers received p of Inr (_, st) \<Rightarrow> Inr st | Inl e \<Rightarrow> if e = NoReturn then Inr st else Inl e)"
| "sk_op (OpSetReadTimeout t) st = andThen (ss_get st) (\<lambda>k. Inr (ss_set st (k\<lparr>skReadTimeout := t\<rparr>)))"
| "sk_op (OpBind res) st = andThen (ss_get st) (\<lambda>k. andThen (srv_bind st (if skFd k = -1 then -1 else res)) (\<lambda>(_, st). Inr st))"
| "sk_op (OpListen res) st = andThen (ss_get st) (\<lambda>k. andThen (srv_listen st (if skFd k = -1 then -1 else res)) (\<lambda>(_, st). Inr st))"
| "sk_op (OpClose res err) st = andThen (sk_close st res err) (\<lambda>(_, st). Inr st)"

fun op_selectors :: "sock_op \<Rightarrow> nat set" where
  "op_selectors (OpSetSelector l (Some x)) = {x}"
| "op_selectors _ = {}"

text \<open>
  A list of operations that is done while the socket is open or not: it reads only before it closes the socket, and names only the
  selectors in \<open>X\<close>.
\<close>

fun op_reads :: "sock_op \<Rightarrow> bool" where
  "op_reads (OpRead answers received p) = True"
| "op_reads _ = False"

fun op_closes :: "sock_op \<Rightarrow> bool" where
  "op_closes (OpClose res err) = True"
| "op_closes _ = False"

fun ops_ok :: "nat set \<Rightarrow> bool \<Rightarrow> sock_op list \<Rightarrow> bool" where
  "ops_ok X opened [] = True"
| "ops_ok X opened (op # ops) = (op_selectors op \<subseteq> X \<and> (op_reads op \<longrightarrow> opened) \<and> ops_ok X (opened \<and> \<not> op_closes op) ops)"

definition client_ok :: "nat set \<Rightarrow> (nat \<Rightarrow> bool \<Rightarrow> sock_op list) \<Rightarrow> (nat \<Rightarrow> sock_op list) \<Rightarrow> (nat \<Rightarrow> bool \<times> sock_op list) \<Rightarrow> bool" where
  "client_ok X connected data close \<longleftrightarrow>
     (\<forall>l b. ops_ok X True (connected l b)) \<and> (\<forall>l. ops_ok X True (data l)) \<and> (\<forall>l. ops_ok X True (snd (close l)))"

lemma ss_selector_socket: "ss_selector st x f = Inr st' \<Longrightarrow> ssSocket st' = ssSocket st"
  by (auto simp: ss_selector_def andThen_Inr_iff split: option.splits)

lemma sk_setConnected_fd:
  "sk_setConnected st b flags = Inr st' \<Longrightarrow> ssSocket st = Some k \<Longrightarrow> \<exists>k'. ssSocket st' = Some k' \<and> skFd k' = skFd k"
  by (auto simp: sk_setConnected_def ss_get_def ss_set_def ss_add_def ss_remove_def Let_def split: if_splits option.splits
      dest!: ss_selector_socket)

text \<open>Only \<open>close\<close> takes the file from the socket.\<close>

lemma sk_op_file:
  assumes "sk_op op st = Inr st'" "ssSocket st = Some k" "\<not> op_closes op"
  shows "\<exists>k'. ssSocket st' = Some k' \<and> skFd k' = skFd k"
proof -
  have get: "ss_get st = Inr k" using assms(2) by (simp add: ss_get_def)
  note on = sk_setConnected_fd [of _ _ _ st' k]
  show ?thesis
  proof (cases op)
    case (OpConnectTimeout e)
    then show ?thesis using assms get
      by (auto simp: sk_connect_timeout_def Let_def andThen_Inr_iff split: if_splits intro: sk_setConnected_fd)
  next
    case (OpConnectAsync e)
    have "\<exists>k'. ssSocket st2 = Some k' \<and> skFd k' = skFd k"
      if "sk_setConnected (ss_set (st\<lparr>ssFlags := w\<rparr>) (k\<lparr>skConnectedAsync := True\<rparr>)) True fl = Inr st2" for w fl st2
      using sk_setConnected_fd [OF that, of "k\<lparr>skConnectedAsync := True\<rparr>"] by (simp add: ss_set_def)
    then show ?thesis using OpConnectAsync assms get
      by (auto simp: sk_connectAsync_def Let_def andThen_Inr_iff split: if_splits)
  next
    case (OpSetSelector l x)
    then show ?thesis using assms get
      by (auto simp: sk_setSelector_def ss_set_def ss_add_def Let_def andThen_Inr_iff split: option.splits if_splits
          dest!: ss_selector_socket)
  next
    case (OpRead answers received p)
    then show ?thesis using assms get
      by (auto simp: sk_read_def sk_recvfrom_def ss_set_def andThen_Inr_iff split: sum.splits if_splits)
  qed (use assms get in \<open>auto simp: sk_connect_def sk_shutdown_def srv_bind_def srv_listen_def ss_call_def ss_set_def andThen_Inr_iff
      split: if_splits intro: sk_setConnected_fd\<close>)
qed

lemma setConnected_inv:
  assumes "sock_inv h X others self fd st" "ssSocket st = Some k" "skFd k = fd"
  shows "\<exists>st'. sk_setConnected st True POLLIN = Inr st' \<and> sock_inv h X others self fd st'"
    "\<exists>st'. sk_setConnected st False POLLIN = Inr st' \<and> sock_inv h X others self fd st'"
  using setConnected_on [OF assms, of POLLIN] setConnected_off [OF assms, of POLLIN] by auto

lemma own_entries_async: "own_entries h self fd k x es \<Longrightarrow> own_entries h self fd (k\<lparr>skConnectedAsync := True\<rparr>) x es"
  by (auto simp: own_entries_def on_selector_def)

lemma own_entries_other:
  "own_entries h self fd (k\<lparr>skLastDatagramSender := p\<rparr>) x es = own_entries h self fd k x es"
  "own_entries h self fd (k\<lparr>skReadTimeout := t\<rparr>) x es = own_entries h self fd k x es"
  by (auto simp: own_entries_def on_selector_def)

lemma sk_connectAsync_inv:
  assumes inv: "sock_inv h X others self fd st" and k: "ssSocket st = Some k" "skFd k = fd"
  shows "\<exists>r st'. sk_connectAsync st e = Inr (r, st') \<and> sock_inv h X others self fd st'"
proof -
  obtain T where ok: "sock_ok X fd k" by (rule sock_invE [OF inv]) (use k in auto)
  let ?k = "k\<lparr>skConnectedAsync := True\<rparr>"
  let ?st = "ss_set (st\<lparr>ssFlags := ssFlags st OR O_NONBLOCK\<rparr>) ?k"
  have "sock_inv h X others self fd ?st"
    by (rule sock_inv_members [where k = k]) (use inv k ok own_entries_async in \<open>auto simp: sock_ok_def\<close>)
  then obtain st' where st': "sk_setConnected ?st True (POLLIN OR POLLOUT) = Inr st'" "sock_inv h X others self fd st'"
    using setConnected_on [of h X others self fd ?st ?k "POLLIN OR POLLOUT"] k(2) by (auto simp: ss_set_def)
  show ?thesis using inv st' k by (auto simp: sk_connectAsync_def ss_get_def Let_def)
qed

lemma sk_connect_timeout_inv:
  assumes inv: "sock_inv h X others self fd st" and k: "ssSocket st = Some k" "skFd k = fd" and fd: "fd_set_ok fd"
  shows "\<exists>r st'. sk_connect_timeout st e = Inr (r, st') \<and> sock_inv h X others self fd st'"
proof -
  let ?st = "st\<lparr>ssFlags := ssFlags st OR O_NONBLOCK, ssFlags := ssFlags st\<rparr>"
  have "sock_inv h X others self fd ?st" using inv by (simp del: sock_state.update_convs)
  then obtain st' where st': "sk_setConnected ?st True POLLIN = Inr st'" "sock_inv h X others self fd st'"
    using setConnected_inv(1) [of h X others self fd ?st k] k by auto
  show ?thesis using inv st' k fd by (auto simp: sk_connect_timeout_def ss_get_def Let_def)
qed

lemma sk_setSelector_inv:
  assumes inv: "sock_inv h X others self fd st" and x: "\<And>x. selector = Some x \<Longrightarrow> x \<in> X"
  shows "\<exists>st'. sk_setSelector st listener selector = Inr st' \<and> sock_inv h X others self fd st'"
proof -
  obtain k where k: "ssSocket st = Some k" "sock_ok X fd k" by (rule sock_invE [OF inv]) auto
  let ?k = "k\<lparr>skListener := listener, skSelector := selector\<rparr>"
  have ok: "sock_ok X fd ?k" using k(2) x by (simp add: sock_ok_def)
  show ?thesis
  proof (cases "skConnected k")
    case True
    then have fd: "skFd k = fd" using k(2) by (simp add: sock_ok_def)
    obtain f where "andThen (case skSelector k of None \<Rightarrow> Inr (ss_set st (k\<lparr>skListener := listener\<rparr>))
          | Some x \<Rightarrow> ss_remove (ss_set st (k\<lparr>skListener := listener\<rparr>)) x fd) (\<lambda>st.
        case skSelector ?k of None \<Rightarrow> Inr (ss_set st ?k)
        | Some x \<Rightarrow> if skListener ?k \<noteq> None then ss_add (ss_set st ?k) x fd POLLIN else Inr (ss_set st ?k)) =
      Inr (st\<lparr>ssSocket := Some ?k, ssSelectors := f\<rparr>)" "sock_inv h X others self fd (st\<lparr>ssSocket := Some ?k, ssSelectors := f\<rparr>)"
      using sock_reregister [OF inv k(1) True fd _ _ ok, of "k\<lparr>skListener := listener\<rparr>"] True fd x by auto
    then show ?thesis using True k(1) unfolding fd [symmetric]
      by (cases selector) (auto simp: sk_setSelector_def ss_get_def Let_def)
  next
    case False
    have "sock_inv h X others self fd (ss_set st ?k)"
      by (rule sock_inv_members [OF inv k(1) ok]) (use False in \<open>auto simp: own_entries_def on_selector_def\<close>)
    then show ?thesis using False k(1) by (simp add: sk_setSelector_def ss_get_def Let_def ss_set_def)
  qed
qed

lemma sk_close_inv:
  assumes inv: "sock_inv h X others self fd st"
  shows "\<exists>r st'. sk_close st res err = Inr (r, st') \<and> sock_inv h X others self fd st'"
proof -
  obtain k where k: "ssSocket st = Some k" "sock_ok X fd k" by (rule sock_invE [OF inv]) auto
  show ?thesis
  proof (cases "skFd k = -1")
    case True
    then show ?thesis using k inv by (simp add: sk_close_def ss_get_def)
  next
    case False
    then have fd: "skFd k = fd" using k(2) by (simp add: sock_ok_def)
    let ?k = "k\<lparr>skConnected := False\<rparr>"
    obtain f where f: "sk_setConnected st False POLLIN = Inr (st\<lparr>ssSocket := Some ?k, ssSelectors := f\<rparr>)"
      "sock_inv h X others self fd (st\<lparr>ssSocket := Some ?k, ssSelectors := f\<rparr>)"
      using setConnected_off [OF inv k(1) fd] by blast
    let ?st = "ss_call (st\<lparr>ssSocket := Some ?k, ssSelectors := f\<rparr>) (SysClose fd)"
    have "sock_inv h X others self fd ?st" using f(2) by (simp only: sock_inv_other(2))
    moreover have "ssSocket ?st = Some ?k" by (simp add: ss_call_def)
    ultimately have "sock_inv h X others self fd (ss_set ?st (?k\<lparr>skFd := -1\<rparr>))"
      by (rule sock_inv_members) (use k(2) in \<open>auto simp: sock_ok_def own_entries_def on_selector_def\<close>)
    then show ?thesis using False fd f(1) k(1) by (simp add: sk_close_def ss_get_def Let_def)
  qed
qed

lemma sk_op_inv:
  assumes inv: "sock_inv h X others self fd st" and X: "op_selectors op \<subseteq> X" and fd: "fd_set_ok fd" and k: "ssSocket st = Some k"
    and reads: "op_reads op \<Longrightarrow> skFd k = fd \<or> skReadTimeout k \<le> 0"
  shows "\<exists>st'. sk_op op st = Inr st' \<and> sock_inv h X others self fd st'"
proof -
  have k: "ssSocket st = Some k" "sock_ok X fd k" by (fact k, rule sock_invE [OF inv]) (use k in auto)
  have closed: "skFd k = fd \<or> skFd k = -1" using k(2) by (auto simp: sock_ok_def)
  note on = setConnected_inv(1) [OF inv k(1)]
  show ?thesis
  proof (cases op)
    case (OpConnect res)
    then show ?thesis using on inv k(1) closed by (cases "skFd k = -1") (auto simp: sk_connect_def ss_get_def)
  next
    case (OpConnectTimeout e)
    then show ?thesis using sk_connect_timeout_inv [OF inv k(1) _ fd, of e] inv k(1) closed
      by (cases "skFd k = -1") (auto simp: on_file_def ss_get_def sk_connect_timeout_def [of _ "e\<lparr>ceGetfl := False\<rparr>"] Let_def)
  next
    case (OpConnectAsync e)
    then show ?thesis using sk_connectAsync_inv [OF inv k(1), of e] inv k(1) closed
      by (cases "skFd k = -1") (auto simp: on_file_def ss_get_def sk_connectAsync_def [of _ "e\<lparr>ceGetfl := False\<rparr>"] Let_def)
  next
    case (OpSetSelector l x)
    then show ?thesis using sk_setSelector_inv [OF inv, of x l] X by (cases x) auto
  next
    case (OpShutdown res)
    then show ?thesis using inv k(1) by (auto simp: sk_shutdown_def ss_get_def)
  next
    case (OpRead answers received p)
    have "sock_inv h X others self fd (ss_set st (k\<lparr>skLastDatagramSender := p\<rparr>))"
      by (rule sock_inv_members [OF inv k(1)]) (use k(2) own_entries_other in \<open>auto simp: sock_ok_def\<close>)
    moreover have "sk_read_select answers = Inl e \<Longrightarrow> e = NoReturn" for e
      by (induction answers rule: sk_read_select.induct) (auto split: if_splits)
    ultimately show ?thesis using inv k(1) OpRead reads fd
      by (cases "sk_read_select answers") (auto simp: sk_read_def sk_recvfrom_def ss_get_def)
  next
    case (OpSetReadTimeout t)
    have "sock_inv h X others self fd (ss_set st (k\<lparr>skReadTimeout := t\<rparr>))"
      by (rule sock_inv_members [OF inv k(1)]) (use k(2) own_entries_other in \<open>auto simp: sock_ok_def\<close>)
    then show ?thesis using OpSetReadTimeout k(1) by (simp add: ss_get_def)
  next
    case (OpBind res)
    then show ?thesis using on inv k(1) closed by (cases "skFd k = -1") (auto simp: srv_bind_def ss_get_def)
  next
    case (OpListen res)
    then show ?thesis using on inv k(1) closed by (cases "skFd k = -1") (auto simp: srv_listen_def ss_get_def)
  next
    case (OpClose res err)
    then show ?thesis using sk_close_inv [OF inv, of res err] by auto
  qed
qed

text \<open>Listeners that use the socket when they are called: they do a list of operations.\<close>

definition sk_ops :: "sock_op list \<Rightarrow> sock_state \<Rightarrow> sock_state outcome" where
  "sk_ops ops st = fold_outcome (\<lambda>st op. sk_op op st) st ops"

definition doing :: "(nat \<Rightarrow> bool \<Rightarrow> sock_op list) \<Rightarrow> (nat \<Rightarrow> sock_op list) \<Rightarrow> (nat \<Rightarrow> bool \<times> sock_op list) \<Rightarrow> sock_client" where
  "doing connected data close =
     \<lparr>scConnected = \<lambda>l b. sk_ops (connected l b), scData = \<lambda>l. sk_ops (data l),
      scClose = \<lambda>l st. andThen (sk_ops (snd (close l)) st) (\<lambda>st. Inr (fst (close l), st))\<rparr>"

lemma sk_ops_inv:
  "sock_inv h X others self fd st \<Longrightarrow> ops_ok X opened ops \<Longrightarrow> fd_set_ok fd \<Longrightarrow>
   (opened \<longrightarrow> (\<exists>k. ssSocket st = Some k \<and> skFd k = fd)) \<Longrightarrow> \<exists>st'. sk_ops ops st = Inr st' \<and> sock_inv h X others self fd st'"
proof (induction ops arbitrary: st opened)
  case (Cons op ops)
  obtain k where k: "ssSocket st = Some k" by (rule sock_invE [OF Cons.prems(1)]) auto
  have op: "op_selectors op \<subseteq> X" "op_reads op \<Longrightarrow> skFd k = fd" using Cons.prems(2,4) k by auto
  obtain st1 where st1: "sk_op op st = Inr st1" "sock_inv h X others self fd st1"
    using sk_op_inv [OF Cons.prems(1) op(1) Cons.prems(3) k] op(2) by blast
  have "opened \<and> \<not> op_closes op \<longrightarrow> (\<exists>k. ssSocket st1 = Some k \<and> skFd k = fd)"
    using sk_op_file [OF st1(1) k] Cons.prems(4) k by auto
  then show ?case using Cons.IH [OF st1(2), of "opened \<and> \<not> op_closes op"] Cons.prems(2,3) st1(1)
    by (simp add: sk_ops_def)
qed (simp add: sk_ops_def)

text \<open>An event that the selector reports to the socket, which is registered.\<close>

lemma sk_connected_event_start:
  assumes inv: "sock_inv h X others self fd st" and k: "ssSocket st = Some k" "on_selector k x"
  defines "k' \<equiv> k\<lparr>skConnectedAsync := False\<rparr>"
  shows "\<exists>f. sk_connected_event c e st =
      scConnected c (the (skListener k)) (eeGetsockopt e \<ge> 0)
        (ss_call (st\<lparr>ssSocket := Some k', ssSelectors := f\<rparr>) (HandleConnected (the (skListener k)) (eeGetsockopt e \<ge> 0))) \<and>
    sock_inv h X others self fd (st\<lparr>ssSocket := Some k', ssSelectors := f\<rparr>)"
proof -
  have ok: "sock_ok X fd k" by (rule sock_invE [OF inv]) (use k in auto)
  have r: "skConnected k" "skSelector k = Some x" "skListener k \<noteq> None" using k(2) by (auto simp: on_selector_def)
  have fd: "skFd k = fd" using ok r(1) by (simp add: sock_ok_def)
  have ok': "sock_ok X fd k'" using ok by (simp add: sock_ok_def k'_def)
  obtain f where f: "andThen (case skSelector k of None \<Rightarrow> Inr (ss_set st k') | Some x \<Rightarrow> ss_remove (ss_set st k') x fd) (\<lambda>st.
      case skSelector k' of None \<Rightarrow> Inr (ss_set st k')
      | Some x \<Rightarrow> if skListener k' \<noteq> None then ss_add (ss_set st k') x fd POLLIN else Inr (ss_set st k')) =
    Inr (st\<lparr>ssSocket := Some k', ssSelectors := f\<rparr>)" "sock_inv h X others self fd (st\<lparr>ssSocket := Some k', ssSelectors := f\<rparr>)"
    using sock_reregister [OF inv k(1) r(1) fd _ _ ok', of k'] ok fd r(1) by (auto simp: k'_def sock_ok_def)
  have same: "ss_set st1 k' = st1" if "ss_remove (ss_set st k') x fd = Inr st1" for st1
    using that by (auto simp: ss_remove_def ss_selector_def ss_set_def andThen_Inr_iff split: option.splits)
  have "andThen (ss_remove (ss_set st k') x fd) (\<lambda>st. ss_add st x fd POLLIN) = Inr (st\<lparr>ssSocket := Some k', ssSelectors := f\<rparr>)"
  proof (cases "ss_remove (ss_set st k') x fd")
    case (Inr st1)
    then show ?thesis using f(1) r same [OF Inr] by (simp add: k'_def)
  qed (use f(1) r in \<open>simp add: k'_def\<close>)
  then show ?thesis using k(1) r fd f(2)
    by (intro exI [of _ f], cases "eeGetsockopt e < 0") (auto simp: sk_connected_event_def ss_get_def Let_def k'_def)
qed

lemma sk_close_event_inv:
  assumes inv: "sock_inv h X others self fd st" and c: "client_ok X connected data close" and fd: "fd_set_ok fd"
    and k: "ssSocket st = Some k" "skFd k = fd"
  shows "\<exists>st'. sk_close_event (doing connected data close) e st = Inr st' \<and> sock_inv h X others self fd st'"
proof -
  have closes: "\<exists>st'. andThen (sk_close st (eeClose e) (eeErrno e)) (\<lambda>(_, st). Inr st) = Inr st' \<and> sock_inv h X others self fd st'"
    if "sock_inv h X others self fd st" for st
    using sk_close_inv [OF that, of "eeClose e" "eeErrno e"] by auto
  show ?thesis
  proof (cases "skListener k")
    case None
    then show ?thesis using k closes [OF inv] by (simp add: sk_close_event_def ss_get_def)
  next
    case (Some l)
    have "sock_inv h X others self fd (ss_call st (HandleClose l))" "ops_ok X True (snd (close l))"
      "\<exists>k. ssSocket (ss_call st (HandleClose l)) = Some k \<and> skFd k = fd"
      using inv c k by (simp_all add: client_ok_def) (simp add: ss_call_def)
    then obtain st1 where "sk_ops (snd (close l)) (ss_call st (HandleClose l)) = Inr st1" "sock_inv h X others self fd st1"
      using sk_ops_inv [of h X others self fd "ss_call st (HandleClose l)" True "snd (close l)"] fd by blast
    then show ?thesis using Some k closes [of st1] by (simp add: sk_close_event_def ss_get_def doing_def)
  qed
qed

lemma sk_event_inv:
  assumes inv: "sock_inv h X others self fd st" and k: "ssSocket st = Some k" "on_selector k x"
    and c: "client_ok X connected data close" and fd: "fd_set_ok fd"
  shows "\<exists>st'. sk_processFileEvents (doing connected data close) e st events = Inr st' \<and> sock_inv h X others self fd st'"
proof -
  obtain l where l: "skListener k = Some l" using k(2) by (auto simp: on_selector_def)
  have ok: "sock_ok X fd k" by (rule sock_invE [OF inv]) (use k in auto)
  have opened: "skFd k = fd" using ok k(2) by (auto simp: sock_ok_def on_selector_def)
  have calls: "\<exists>k'. ssSocket (ss_call (st\<lparr>ssSocket := Some (k\<lparr>skConnectedAsync := b\<rparr>), ssSelectors := f\<rparr>) cl) = Some k' \<and> skFd k' = fd"
    "\<exists>k'. ssSocket (ss_call st cl) = Some k' \<and> skFd k' = fd" for b f cl
    using k opened by (simp_all add: ss_call_def)
  show ?thesis
  proof (cases "events AND POLLOUT \<noteq> 0 \<and> skConnectedAsync k")
    case True
    obtain f where f: "sk_connected_event (doing connected data close) e st =
        sk_ops (connected l (eeGetsockopt e \<ge> 0)) (ss_call (st\<lparr>ssSocket := Some (k\<lparr>skConnectedAsync := False\<rparr>), ssSelectors := f\<rparr>)
          (HandleConnected l (eeGetsockopt e \<ge> 0)))"
      "sock_inv h X others self fd (st\<lparr>ssSocket := Some (k\<lparr>skConnectedAsync := False\<rparr>), ssSelectors := f\<rparr>)"
      using sk_connected_event_start [OF inv k, of "doing connected data close" e] l by (auto simp: doing_def)
    let ?st = "ss_call (st\<lparr>ssSocket := Some (k\<lparr>skConnectedAsync := False\<rparr>), ssSelectors := f\<rparr>) (HandleConnected l (eeGetsockopt e \<ge> 0))"
    have "sock_inv h X others self fd ?st" using f(2) by (simp only: sock_inv_other(2))
    then have "\<exists>st'. sk_ops (connected l (eeGetsockopt e \<ge> 0)) ?st = Inr st' \<and> sock_inv h X others self fd st'"
      by (rule sk_ops_inv [where opened = True]) (use c fd calls(1) in \<open>auto simp: client_ok_def\<close>)
    then show ?thesis using True k(1) f(1) by (simp add: sk_processFileEvents_def ss_get_def)
  next
    case False
    have "sock_inv h X others self fd (ss_call st (HandleData l))" using inv by (simp only: sock_inv_other(2))
    then have "\<exists>st'. sk_ops (data l) (ss_call st (HandleData l)) = Inr st' \<and> sock_inv h X others self fd st'"
      by (rule sk_ops_inv [where opened = True]) (use c fd calls(2) in \<open>auto simp: client_ok_def\<close>)
    then show ?thesis using False k(1) l sk_close_event_inv [OF inv c fd k(1) opened, of e] inv
      by (auto simp: sk_processFileEvents_def ss_get_def Let_def doing_def)
  qed
qed

text \<open>
  A selector reports events for a file: \<open>callListeners\<close> walks its list (and takes the listener off it after a hang-up) and calls the
  socket, if it is there. The socket is the one listener for the file, so the call comes when the walk over the others is done.
\<close>

definition ss_report :: "sock_client \<Rightarrow> event_env \<Rightarrow> sock_state \<Rightarrow> nat \<Rightarrow> int \<Rightarrow> short \<Rightarrow> sock_state outcome" where
  "ss_report c e st x fd events =
     (case ssSelectors st x of None \<Rightarrow> Inl UndefinedBehaviour
      | Some s \<Rightarrow>
          andThen (sl_callListeners quiet (jl_fresh (slList s)) s fd (scast events)) (\<lambda>(update, s').
          let s' = (if update then s'\<lparr>slUpdateFds := True\<rparr> else s');
              st' = st\<lparr>ssSelectors := (ssSelectors st)(x \<mapsto> s')\<rparr> in
          if (ssSelf st, fd, scast events, 0) \<in> set (drop (length (slCalls s)) (slCalls s'))
          then sk_processFileEvents c e st' events else Inr st'))"

lemma ss_report_walk:
  assumes inv: "sock_inv h X others self fd st" and x: "x \<in> X" and k: "ssSocket st = Some k"
  shows "\<exists>f. sock_inv (h \<or> hang_up (scast events)) X others self fd (st\<lparr>ssSelectors := f\<rparr>) \<and>
    (ss_report c e st x fd events = Inr (st\<lparr>ssSelectors := f\<rparr>) \<or>
     on_selector k x \<and> ss_report c e st x fd events = sk_processFileEvents c e (st\<lparr>ssSelectors := f\<rparr>) events) \<and>
    (on_selector k x \<and> \<not> h \<longrightarrow> ss_report c e st x fd events = sk_processFileEvents c e (st\<lparr>ssSelectors := f\<rparr>) events) \<and>
    (hang_up (scast events) \<longrightarrow> (\<exists>s ts. f x = Some s \<and> sl_table s ts \<and> filter (\<lambda>n. mFd n = fd) ts = []))"
proof -
  obtain T where T: "ssSelf st = self" "sock_ok X fd k" "ss_tables X st T" "\<And>x. x \<in> X \<Longrightarrow> filter (\<lambda>n. mFd n \<noteq> fd) (T x) = others x"
    "\<And>x. x \<in> X \<Longrightarrow> own_entries h self fd k x (filter (\<lambda>n. mFd n = fd) (T x))"
    by (rule sock_invE [OF inv]) (use k in auto)
  obtain s where s: "ssSelectors st x = Some s" "sl_table s (T x)" using T(3) x by (auto simp: ss_tables_def)
  let ?E = "scast events :: u32" and ?es = "filter (\<lambda>n. mFd n = fd) (T x)"
  obtain s1 where s1: "sl_callListeners quiet (jl_fresh (slList s)) s fd ?E = Inr (hang_up ?E \<and> fd \<in> mFd ` set (T x), s1)"
    "slCalls s1 = slCalls s @ file_calls fd ?E (T x)"
    "sl_table s1 (if hang_up ?E then filter (\<lambda>n. mFd n \<noteq> fd) (T x) else T x)"
    using sl_callListeners_table [OF s(2)] by blast
  let ?s2 = "if hang_up ?E \<and> fd \<in> mFd ` set (T x) then s1\<lparr>slUpdateFds := True\<rparr> else s1"
  let ?f = "(ssSelectors st)(x \<mapsto> ?s2)"
  let ?T = "T(x := (if hang_up ?E then filter (\<lambda>n. mFd n \<noteq> fd) (T x) else T x))"
  have upd: "sl_table (s1\<lparr>slUpdateFds := True\<rparr>) ts = sl_table s1 ts" for ts by (simp add: sl_table_def sl_nodes_def)
  have t2: "sl_table ?s2 (?T x)"
    by (cases "hang_up ?E \<and> fd \<in> mFd ` set (T x)") (use s1(3) upd in \<open>simp_all split: if_splits\<close>)
  have tabs: "ss_tables X (st\<lparr>ssSelectors := ?f\<rparr>) ?T" unfolding ss_tables_def
  proof
    fix y assume y: "y \<in> X"
    show "\<exists>s. ssSelectors (st\<lparr>ssSelectors := ?f\<rparr>) y = Some s \<and> sl_table s (?T y)"
      by (cases "y = x") (use t2 T(3) y in \<open>simp_all only: sock_state.simps fun_upd_same fun_upd_other ss_tables_def option.inject ex_simps simp_thms\<close>, auto)
  qed
  have "sock_inv (h \<or> hang_up ?E) X others self fd (st\<lparr>ssSelectors := ?f\<rparr>)"
  proof (rule sock_invI [OF _ _ T(2) tabs])
    fix y assume y: "y \<in> X"
    show "filter (\<lambda>n. mFd n \<noteq> fd) (?T y) = others y \<and> own_entries (h \<or> hang_up ?E) self fd k y (filter (\<lambda>n. mFd n = fd) (?T y))"
      using T(4) [OF y] T(5) [OF y] by (auto simp: own_entries_def)
  qed (use T(1) k in simp_all)
  moreover have calls: "file_calls fd ?E (T x) = map (\<lambda>n. (the (snListener n), fd, ?E, mPrivateData n)) (filter (\<lambda>n. snListener n \<noteq> None) ?es)"
    by (simp add: file_calls_def conj_commute)
  have new: "drop (length (slCalls s)) (slCalls ?s2) = file_calls fd ?E (T x)" using s1(2) by simp
  have r: "ss_report c e st x fd events = (if (self, fd, ?E, 0) \<in> set (file_calls fd ?E (T x))
      then sk_processFileEvents c e (st\<lparr>ssSelectors := ?f\<rparr>) events else Inr (st\<lparr>ssSelectors := ?f\<rparr>))"
    using s(1) s1(1) new T(1) by (simp add: ss_report_def Let_def)
  have "(on_selector k x \<and> \<not> h \<longrightarrow> (self, fd, ?E, 0) \<in> set (map (\<lambda>n. (the (snListener n), fd, ?E, mPrivateData n)) (filter (\<lambda>n. snListener n \<noteq> None) es))) \<and>
    (\<not> on_selector k x \<longrightarrow> (self, fd, ?E, 0) \<notin> set (map (\<lambda>n. (the (snListener n), fd, ?E, mPrivateData n)) (filter (\<lambda>n. snListener n \<noteq> None) es)))"
    if "own_entries h self fd k x es" for es
    using that by (auto simp: own_entries_def reg_node_def image_iff)
  from this [OF T(5) [OF x], folded calls]
  have "on_selector k x \<and> \<not> h \<longrightarrow> (self, fd, ?E, 0) \<in> set (file_calls fd ?E (T x))"
    "\<not> on_selector k x \<longrightarrow> (self, fd, ?E, 0) \<notin> set (file_calls fd ?E (T x))" by blast+
  moreover have "hang_up ?E \<longrightarrow> (\<exists>s ts. ?f x = Some s \<and> sl_table s ts \<and> filter (\<lambda>n. mFd n = fd) ts = [])"
    using t2 by (intro impI exI [of _ ?s2] exI [of _ "filter (\<lambda>n. mFd n \<noteq> fd) (T x)"]) simp
  ultimately show ?thesis using r by (intro exI [of _ ?f]) (metis (no_types, lifting))
qed

lemma ss_report_inv:
  assumes inv: "sock_inv h X others self fd st" and x: "x \<in> X" and c: "client_ok X connected data close" and fd: "fd_set_ok fd"
  shows "\<exists>st'. ss_report (doing connected data close) e st x fd events = Inr st' \<and>
    sock_inv (h \<or> hang_up (scast events)) X others self fd st'"
proof -
  obtain k where k: "ssSocket st = Some k" by (rule sock_invE [OF inv]) auto
  obtain f where f: "sock_inv (h \<or> hang_up (scast events)) X others self fd (st\<lparr>ssSelectors := f\<rparr>)"
    "ss_report (doing connected data close) e st x fd events = Inr (st\<lparr>ssSelectors := f\<rparr>) \<or>
     on_selector k x \<and> ss_report (doing connected data close) e st x fd events =
       sk_processFileEvents (doing connected data close) e (st\<lparr>ssSelectors := f\<rparr>) events"
    using ss_report_walk [OF inv x k, of events "doing connected data close" e] by blast
  then show ?thesis using sk_event_inv [OF f(1) _ _ c fd, of k x e events] k by auto
qed

text \<open>
  What the program and the threads of the selectors do, in any order, from the state \<open>st0\<close>; the truth value tells whether a selector has reported
  a hang-up or an invalid file so far. A call that is undefined in C is not a step.
\<close>

inductive sk_run :: "nat set \<Rightarrow> int \<Rightarrow> sock_client \<Rightarrow> sock_state \<Rightarrow> bool \<Rightarrow> sock_state \<Rightarrow> bool" for X fd c st0 where
  start: "sk_run X fd c st0 False st0"
| op: "sk_run X fd c st0 h st \<Longrightarrow> op_selectors op \<subseteq> X \<Longrightarrow> sk_op op st = Inr st' \<Longrightarrow> sk_run X fd c st0 h st'"
| event: "sk_run X fd c st0 h st \<Longrightarrow> x \<in> X \<Longrightarrow> ss_report c e st x fd events = Inr st' \<Longrightarrow>
    sk_run X fd c st0 (h \<or> hang_up (scast events)) st'"

text \<open>A read with a timeout of a socket that was closed is undefined.\<close>

lemma sk_read_closed:
  "ssSocket st = Some k \<Longrightarrow> skFd k = -1 \<Longrightarrow> 0 < skReadTimeout k \<Longrightarrow> sk_op (OpRead answers received p) st = Inl UndefinedBehaviour"
  by (simp add: sk_read_def ss_get_def fd_set_ok_def)

lemma sk_op_cases:
  assumes inv: "sock_inv h X others self fd st" and k: "ssSocket st = Some k" and X: "op_selectors op \<subseteq> X" and fd: "fd_set_ok fd"
  shows "(\<exists>st'. sk_op op st = Inr st' \<and> sock_inv h X others self fd st') \<or>
    op_reads op \<and> skFd k = -1 \<and> 0 < skReadTimeout k \<and> sk_op op st = Inl UndefinedBehaviour"
proof (cases "op_reads op \<and> skFd k \<noteq> fd \<and> 0 < skReadTimeout k")
  case True
  have "sock_ok X fd k" by (rule sock_invE [OF inv]) (use k in auto)
  then have "skFd k = -1" using True by (auto simp: sock_ok_def)
  then show ?thesis using True sk_read_closed [OF k] by (cases op) simp_all
next
  case False
  then show ?thesis using sk_op_inv [OF inv X fd k] by fastforce
qed

lemma sk_run_inv:
  assumes "sk_run X fd (doing connected data close) st0 h st" "sock_inv False X others self fd st0"
    "client_ok X connected data close" "fd_set_ok fd"
  shows "sock_inv h X others self fd st"
  using assms(1)
proof induction
  case (op h st op st')
  obtain k where k: "ssSocket st = Some k" by (rule sock_invE [OF op.IH]) auto
  show ?case using sk_op_cases [OF op.IH k op.hyps(2) assms(4)] op.hyps(3) by auto
next
  case (event h st x e events st')
  then show ?case using ss_report_inv [OF event.IH event.hyps(2) assms(3,4), of e events] by auto
qed (rule assms(2))

lemma sock_inv_new:
  assumes "ssSocket st = Some (socket_of (ssSelf st) stream fd)" "ss_tables X st T" "\<And>x. x \<in> X \<Longrightarrow> \<forall>n \<in> set (T x). mFd n \<noteq> fd"
  shows "sock_inv h X T (ssSelf st) fd st"
proof (rule sock_invI [OF refl assms(1) _ assms(2)])
  show "sock_ok X fd (socket_of (ssSelf st) stream fd)" by (simp add: sock_ok_def socket_of_def)
  fix x assume "x \<in> X"
  then show "filter (\<lambda>n. mFd n \<noteq> fd) (T x) = T x \<and> own_entries h (ssSelf st) fd (socket_of (ssSelf st) stream fd) x (filter (\<lambda>n. mFd n = fd) (T x))"
    using assms(3) by (auto simp: own_entries_def on_selector_def socket_of_def filter_empty_conv filter_id_conv)
qed

text \<open>
  C34: In every state that a new socket with a file that fits into an \<open>fd_set\<close> reaches, by calls of the program in any order, with any answers
  of the system, and by events that selectors report for its file, whose listener again calls the socket (and reads only before it closes the
  socket): a selector has exactly one listener for this file when the socket is connected and has this selector and a listener, and none
  otherwise. It asks to read, and to write only while the socket waits for \<open>connectAsync\<close>. But once a selector has reported a hang-up or
  an invalid file, for which it takes the listener off its list by itself, the listener may be missing although the socket is connected.
  The listeners for other files are those from the beginning. From every such state each event returns, and each call returns, except that a
  read with a timeout of a closed socket is undefined: \<open>FD_SET\<close> gets the number -1.
\<close>

theorem sk_listener_registered:
  assumes "ssSocket st0 = Some (socket_of (ssSelf st0) stream fd)" "fd_set_ok fd" "ss_tables X st0 T"
    "\<forall>x \<in> X. \<forall>n \<in> set (T x). mFd n \<noteq> fd" "client_ok X connected data close"
    "sk_run X fd (doing connected data close) st0 h st"
  shows "\<exists>k. ssSocket st = Some k \<and>
    (\<forall>x \<in> X. \<exists>s ts. ssSelectors st x = Some s \<and> sl_table s ts \<and> filter (\<lambda>n. mFd n \<noteq> fd) ts = T x \<and>
       own_entries h (ssSelf st0) fd k x (filter (\<lambda>n. mFd n = fd) ts)) \<and>
    (\<forall>x \<in> X. \<forall>e events. \<exists>st'. ss_report (doing connected data close) e st x fd events = Inr st') \<and>
    (\<forall>op. op_selectors op \<subseteq> X \<longrightarrow> (\<exists>st'. sk_op op st = Inr st') \<or>
       op_reads op \<and> skFd k = -1 \<and> 0 < skReadTimeout k \<and> sk_op op st = Inl UndefinedBehaviour)"
proof -
  have "sock_inv False X T (ssSelf st0) fd st0" using sock_inv_new assms(1,3,4) by blast
  then have inv: "sock_inv h X T (ssSelf st0) fd st" using sk_run_inv assms(2,5,6) by blast
  obtain k U where k: "ssSocket st = Some k" and U: "ss_tables X st U" "\<And>x. x \<in> X \<Longrightarrow> filter (\<lambda>n. mFd n \<noteq> fd) (U x) = T x"
    "\<And>x. x \<in> X \<Longrightarrow> own_entries h (ssSelf st0) fd k x (filter (\<lambda>n. mFd n = fd) (U x))"
    by (rule sock_invE [OF inv]) blast
  have "(\<exists>st'. sk_op op st = Inr st') \<or> op_reads op \<and> skFd k = -1 \<and> 0 < skReadTimeout k \<and> sk_op op st = Inl UndefinedBehaviour"
    if "op_selectors op \<subseteq> X" for op
    using sk_op_cases [OF inv k that assms(2)] by blast
  moreover have "\<exists>st'. ss_report (doing connected data close) e st x fd events = Inr st'" if "x \<in> X" for x e events
    using ss_report_inv [OF inv that assms(5,2)] by blast
  moreover have "\<forall>x \<in> X. \<exists>s ts. ssSelectors st x = Some s \<and> sl_table s ts \<and> filter (\<lambda>n. mFd n \<noteq> fd) ts = T x \<and>
       own_entries h (ssSelf st0) fd k x (filter (\<lambda>n. mFd n = fd) ts)"
    using U unfolding ss_tables_def by blast
  ultimately show ?thesis using k by blast
qed

lemma setSelector_socket:
  "ssSocket st = Some k \<Longrightarrow> sk_setSelector st listener selector = Inr st' \<Longrightarrow>
   ssSocket st' = Some (k\<lparr>skListener := listener, skSelector := selector\<rparr>)"
  by (auto simp: sk_setSelector_def ss_get_def ss_set_def ss_add_def andThen_Inr_iff Let_def split: option.splits if_splits
      dest!: ss_selector_socket)

text \<open>Two selectors with nothing in them, a socket on file 7 that connects, is given a selector, then the other.\<close>

lemma sk_listener_registered_witness:
  "\<exists>s1 st. sl_table s1 [] \<and>
    sk_ops [OpConnect 0, OpSetSelector (Some 5) (Some 1), OpSetSelector (Some 5) (Some 2)]
      \<lparr>ssSelf = 40, ssSocket = Some (socket_of 40 True 7), ssFlags = 2, ssSelectors = (\<lambda>x. if x \<in> {1, 2} then Some s1 else None), ssCalls = []\<rparr> = Inr st \<and>
    (\<exists>k t2 t1 ts. ssSocket st = Some k \<and> ssSelectors st 2 = Some t2 \<and> sl_table t2 ts \<and>
       own_entries False 40 7 k 2 (filter (\<lambda>n. mFd n = 7) ts) \<and> on_selector k 2 \<and> ssSelectors st 1 = Some t1 \<and> sl_table t1 [])"
proof -
  obtain s1 where s1: "sl_table s1 []" using Selector_new_table by blast
  let ?st0 = "\<lparr>ssSelf = 40, ssSocket = Some (socket_of 40 True 7), ssFlags = 2, ssSelectors = (\<lambda>x. if x \<in> {1, 2} then Some s1 else None), ssCalls = []\<rparr>"
  let ?ops = "[OpConnect 0, OpSetSelector (Some 5) (Some 1), OpSetSelector (Some 5) (Some 2)]"
  let ?c = "doing (\<lambda>l b. []) (\<lambda>l. []) (\<lambda>l. (False, []))"
  have t: "ss_tables {1, 2} ?st0 (\<lambda>x. [])" using s1 by (simp add: ss_tables_def)
  have c: "client_ok {1, 2} (\<lambda>l b. []) (\<lambda>l. []) (\<lambda>l. (False, []))" by (simp add: client_ok_def)
  have fd: "fd_set_ok 7" by (simp add: fd_set_ok_def FD_SETSIZE_def)
  have inv: "sock_inv False {1, 2} (\<lambda>x. []) 40 7 ?st0" using sock_inv_new [of ?st0 True 7 "{1, 2}" "\<lambda>x. []"] t by simp
  have some: "\<exists>k. ssSocket st = Some k" if "sock_inv False {1, 2} (\<lambda>x. []) 40 7 st" for st by (rule sock_invE [OF that]) blast
  obtain st1 where st1: "sk_op (OpConnect 0) ?st0 = Inr st1" "sock_inv False {1, 2} (\<lambda>x. []) 40 7 st1"
    using sk_op_inv [OF inv, of "OpConnect 0"] fd by auto
  obtain st2 where st2: "sk_op (OpSetSelector (Some 5) (Some 1)) st1 = Inr st2" "sock_inv False {1, 2} (\<lambda>x. []) 40 7 st2"
    using sk_op_inv [OF st1(2), of "OpSetSelector (Some 5) (Some 1)"] fd some [OF st1(2)] by auto
  obtain st3 where st3: "sk_op (OpSetSelector (Some 5) (Some 2)) st2 = Inr st3"
    using sk_op_inv [OF st2(2), of "OpSetSelector (Some 5) (Some 2)"] fd some [OF st2(2)] by auto
  note st1 = st1(1) and st2 = st2(1)
  have run: "sk_run {1, 2} 7 ?c ?st0 False st3"
    by (rule sk_run.op [OF sk_run.op [OF sk_run.op [OF sk_run.start _ st1] _ st2] _ st3]) simp_all
  note r3 = sk_listener_registered [of ?st0 True 7 "{1, 2}" "\<lambda>x. []" "\<lambda>l b. []" "\<lambda>l. []" "\<lambda>l. (False, [])" False st3, OF _ fd t _ c run]
  obtain k where k: "ssSocket st3 = Some k" and e: "\<forall>x \<in> {1, 2}. \<exists>s ts. ssSelectors st3 x = Some s \<and> sl_table s ts \<and>
      filter (\<lambda>n. mFd n \<noteq> 7) ts = [] \<and> own_entries False 40 7 k x (filter (\<lambda>n. mFd n = 7) ts)"
    using r3 by (simp only: sock_state.simps) fastforce
  have "sk_op (OpConnect 0) ?st0 = Inr (?st0\<lparr>ssSocket := Some ((socket_of 40 True 7)\<lparr>skConnected := True\<rparr>)\<rparr>)"
    by (simp add: sk_connect_def ss_get_def sk_setConnected_def socket_of_def ss_set_def)
  then have "ssSocket st1 = Some ((socket_of 40 True 7)\<lparr>skConnected := True\<rparr>)" using st1 by (simp only: sum.inject) (metis sock_state.update_convs(2) sock_state.select_convs(2))
  from setSelector_socket [OF setSelector_socket [OF this st2 [unfolded sk_op.simps]] st3 [unfolded sk_op.simps]]
  have "k = (socket_of 40 True 7)\<lparr>skConnected := True, skListener := Some 5, skSelector := Some 1, skListener := Some 5, skSelector := Some 2\<rparr>"
    using k by (simp only: option.inject)
  then have "skConnected k \<and> skSelector k = Some 2 \<and> skListener k = Some 5" by simp
  then have reg: "on_selector k 2" "\<not> on_selector k 1" by (simp_all add: on_selector_def)
  obtain t1 ts1 where t1: "ssSelectors st3 1 = Some t1" "sl_table t1 ts1" "filter (\<lambda>n. mFd n \<noteq> 7) ts1 = []"
    "own_entries False 40 7 k 1 (filter (\<lambda>n. mFd n = 7) ts1)" using e by blast
  have "ts1 = []" using t1(3,4) reg(2) by (cases ts1) (auto simp: own_entries_def split: if_splits)
  moreover obtain t2 ts2 where "ssSelectors st3 2 = Some t2" "sl_table t2 ts2" "own_entries False 40 7 k 2 (filter (\<lambda>n. mFd n = 7) ts2)" using e by blast
  moreover have "sk_ops ?ops ?st0 = Inr st3" using st1 st2 st3 by (simp add: sk_ops_def)
  ultimately show ?thesis using s1 k reg(1) t1(1,2) by blast
qed

text \<open>
  What the selector's care for listeners that ignore a hang-up costs: when data and a hang-up are reported together, the listener hears of the
  data only, and the socket is off the list although it is connected. No later event brings the rest of the data, nor the close.
\<close>

lemma sk_hang_up_forgotten:
  assumes inv: "sock_inv False X others self fd st" and k: "ssSocket st = Some k" "on_selector k x" "\<not> skConnectedAsync k"
    and ev: "hang_up (scast events)" "events AND POLLIN \<noteq> 0" "eeIoctl e = 0" "eeAvail e \<noteq> 0"
    and c: "data = (\<lambda>l. [])"
  shows "\<exists>st' s ts. ss_report (doing connected data close) e st x fd events = Inr st' \<and>
    ssCalls st' = ssCalls st @ [HandleData (the (skListener k))] \<and> ssSocket st' = Some k \<and>
    ssSelectors st' x = Some s \<and> sl_table s ts \<and> filter (\<lambda>n. mFd n = fd) ts = []"
proof -
  have ok: "sock_ok X fd k" by (rule sock_invE [OF inv]) (use k in auto)
  then have x: "x \<in> X" using k(2) by (simp add: sock_ok_def on_selector_def)
  obtain f s ts where f: "ss_report (doing connected data close) e st x fd events =
      sk_processFileEvents (doing connected data close) e (st\<lparr>ssSelectors := f\<rparr>) events"
    "f x = Some s" "sl_table s ts" "filter (\<lambda>n. mFd n = fd) ts = []"
    using ss_report_walk [OF inv x k(1), of events "doing connected data close" e] k(2) ev(1) by blast
  obtain l where l: "skListener k = Some l" using k(2) by (auto simp: on_selector_def)
  have "sk_processFileEvents (doing connected data close) e (st\<lparr>ssSelectors := f\<rparr>) events =
      Inr (ss_call (st\<lparr>ssSelectors := f\<rparr>) (HandleData l))"
    using k l ev c by (simp add: sk_processFileEvents_def ss_get_def sk_getBytesAvailable_def doing_def sk_ops_def)
  then show ?thesis using f k l by (auto simp: ss_call_def)
qed

section \<open>Connecting without waiting\<close>


lemma POLL_bits [simp]: "POLLIN AND POLLOUT = 0" "POLLIN AND POLLHUP16 = 0" "POLLIN \<noteq> 0" "POLLOUT \<noteq> 0"
  by (simp_all add: POLLIN_def POLLOUT_def POLLHUP16_def)











text \<open>
  The flags of the file: \<open>connect\<close> with a timeout leaves them as they were whenever the system restores them, but when the system refuses a
  connection at once, \<open>connectAsync\<close> returns without restoring them, and the socket does not wait in its next calls.
\<close>

theorem sk_file_flags:
  assumes "ssSocket st = Some k" "ceGetfl e" "ceSetfl e"
  shows "ceRestore e \<Longrightarrow> sk_connect_timeout st e = Inr (r, st') \<Longrightarrow> ssFlags st' = ssFlags st"
    "ceConnect e < 0 \<Longrightarrow> ceErrno e \<noteq> EINPROGRESS \<Longrightarrow> sk_connectAsync st e = Inr (-1, st\<lparr>ssFlags := ssFlags st OR O_NONBLOCK\<rparr>)"
proof -
  have flags: "ssFlags st2 = ssFlags st1" if "sk_setConnected st1 b f = Inr st2" for st1 st2 b f
    using that by (auto simp: sk_setConnected_def ss_get_def ss_set_def ss_add_def ss_remove_def ss_selector_def andThen_Inr_iff Let_def
        split: option.splits if_splits)
  show "ssFlags st' = ssFlags st" if "ceRestore e" "sk_connect_timeout st e = Inr (r, st')"
    using that assms by (auto simp: sk_connect_timeout_def ss_get_def andThen_Inr_iff Let_def split: if_splits dest!: flags)
  show "sk_connectAsync st e = Inr (-1, st\<lparr>ssFlags := ssFlags st OR O_NONBLOCK\<rparr>)" if "ceConnect e < 0" "ceErrno e \<noteq> EINPROGRESS"
    using that assms by (simp add: sk_connectAsync_def ss_get_def Let_def)
qed

section \<open>Health, options, ports\<close>

lemma magnitude_log:
  "0 < i \<Longrightarrow> unat m + k < 256 \<Longrightarrow> unat i < 2 ^ Suc k \<Longrightarrow>
   \<exists>j \<le> k. unat (magnitude i m) = unat m + j \<and> 2 ^ j \<le> unat i \<and> unat i < 2 ^ Suc j"
proof (induction k arbitrary: i m)
  case 0
  then have "0 < unat i" by (simp add: word_less_nat_alt)
  then have "unat i = 1" using 0 by simp
  then have "\<not> i > 1" by (simp add: word_less_nat_alt)
  then show ?case using \<open>unat i = 1\<close> by (simp add: magnitude.simps [of i])
next
  case (Suc k)
  show ?case
  proof (cases "i > 1")
    case True
    then have big: "unat i > 1" by (simp add: word_less_nat_alt)
    have half: "unat (i div 2) = unat i div 2" by (simp add: unat_div)
    have "0 < i div 2" using big half by (simp add: word_less_nat_alt)
    moreover have "unat (m + 1) = unat m + 1" using Suc.prems(2) by (simp add: unat_word_ariths(1))
    moreover have "unat (i div 2) < 2 ^ Suc k" using Suc.prems(3) half by simp
    ultimately obtain j where j: "j \<le> k" "unat (magnitude (i div 2) (m + 1)) = unat m + 1 + j" "2 ^ j \<le> unat i div 2" "unat i div 2 < 2 ^ Suc j"
      using Suc.IH [of "i div 2" "m + 1"] Suc.prems(2) half by auto
    have "2 ^ Suc j \<le> unat i" "unat i < 2 ^ Suc (Suc j)" using j(3,4) by simp_all
    then show ?thesis using j(1,2) True by (intro exI [of _ "Suc j"]) (simp add: magnitude.simps [of i])
  next
    case False
    then have "unat i = 1" using Suc.prems(1) by (simp add: word_less_nat_alt)
    then show ?thesis using False by (intro exI [of _ 0]) (simp add: magnitude.simps [of i])
  qed
qed

lemma magnitude_u32:
  fixes t :: u32
  assumes "0 < t"
  obtains m where "unat (magnitude t 0) = m" "2 ^ m \<le> unat t" "unat t < 2 ^ Suc m"
proof -
  have "unat t < 2 ^ Suc 31" using unsigned_less [of t, where 'a = nat] by simp
  moreover have "unat (0 :: 8 word) + 31 < 256" by simp
  ultimately obtain j where "unat (magnitude t 0) = unat (0 :: 8 word) + j" "2 ^ j \<le> unat t" "unat t < 2 ^ Suc j"
    using magnitude_log [OF assms, of 0 31] by blast
  then show thesis using that by (simp only: unsigned_0 add_0)
qed

text \<open>
  The answer of \<open>checkSocketHealth\<close> is -1 exactly when the system does not answer; else it is 0 or, for a threshold of less than
  \<open>2 ^ 32\<close> milliseconds, a number of seconds that is not less than the threshold, and it is such a number when
  the last sign of the other side is older than the threshold and more packets were sent again than the logarithm of the threshold and one. The logarithm that the loop takes is that of base 2, rounded down.
\<close>

theorem sk_health_bounds:
  assumes "0 < t" "uint t * 1000 < 2 ^ 32"
  shows "\<exists>m. 2 ^ m \<le> uint t \<and> uint t < 2 ^ Suc m \<and> unat (magnitude t 0) = m \<and>
    (sk_checkSocketHealth t answer = -1 \<longleftrightarrow> answer = None) \<and>
    (sk_checkSocketHealth t answer \<in> {-1, 0} \<or> uint t \<le> sk_checkSocketHealth t answer) \<and>
    (\<forall>info. answer = Some info \<and> uint (tcpi_last_ack_recv info) > uint t * 1000 \<and> unat (tcpi_retransmits info) > m + 1 \<longrightarrow>
       sk_checkSocketHealth t answer = uint (tcpi_last_ack_recv info) div 1000)"
proof -
  obtain m where m: "unat (magnitude t 0) = m" "2 ^ m \<le> unat t" "unat t < 2 ^ Suc m" by (rule magnitude_u32 [OF assms(1)])
  have "int (2 ^ m) \<le> int (unat t)" "int (unat t) < int (2 ^ Suc m)" using m(2,3) by (simp_all only: of_nat_le_iff of_nat_less_iff)
  then have mi: "2 ^ m \<le> uint t" "uint t < 2 ^ Suc m" by (simp_all only: of_nat_power of_nat_numeral uint_nat [symmetric])
  have "uint (t * 1000) = uint t * 1000" using assms(2) uint_mult_lem [of t 1000] by simp
  then have older: "w > t * 1000 \<longleftrightarrow> uint w > uint t * 1000" for w :: u32 by (simp add: word_less_def)
  have div: "uint (w div 1000) = uint w div 1000" for w :: u32 by (simp add: uint_div)
  have ge: "uint t \<le> uint w div 1000 \<and> uint w div 1000 \<noteq> -1" if "w > t * 1000" for w :: u32
    using that uint_ge_0 [of w] unfolding older by linarith
  have "(sk_checkSocketHealth t answer = -1 \<longleftrightarrow> answer = None) \<and>
    (sk_checkSocketHealth t answer \<in> {-1, 0} \<or> uint t \<le> sk_checkSocketHealth t answer)"
  proof (cases answer)
    case (Some info)
    have "sk_checkSocketHealth t answer = 0 \<or>
        sk_checkSocketHealth t answer = uint (tcpi_last_ack_recv info) div 1000 \<and> tcpi_last_ack_recv info > t * 1000"
      unfolding Some sk_checkSocketHealth_def Let_def option.case div by (simp only: split: if_split) blast
    then show ?thesis
    proof (elim disjE conjE)
      assume r: "sk_checkSocketHealth t answer = uint (tcpi_last_ack_recv info) div 1000" and "tcpi_last_ack_recv info > t * 1000"
      from ge [OF this(2)] have "uint t \<le> sk_checkSocketHealth t answer" "sk_checkSocketHealth t answer \<noteq> -1" unfolding r by blast+
      then show ?thesis using Some by blast
    qed (use Some in simp)
  qed (simp add: sk_checkSocketHealth_def)
  moreover have "sk_checkSocketHealth t answer = uint (tcpi_last_ack_recv info) div 1000"
    if "answer = Some info \<and> uint (tcpi_last_ack_recv info) > uint t * 1000 \<and> unat (tcpi_retransmits info) > m + 1" for info
    using that m(1) older [of "tcpi_last_ack_recv info"] div by (simp add: sk_checkSocketHealth_def)
  ultimately show ?thesis using mi m(1) by blast
qed

lemma sk_health_bounds_witness:
  "sk_checkSocketHealth 15 (Some \<lparr>tcpi_retransmits = 5, tcpi_probes = 0, tcpi_backoff = 0, tcpi_last_ack_recv = 16500\<rparr>) = 16"
proof -
  let ?i = "\<lparr>tcpi_retransmits = 5, tcpi_probes = 0, tcpi_backoff = 0, tcpi_last_ack_recv = 16500\<rparr>"
  have t: "(0::u32) < 15" "uint (15::u32) * 1000 < 2 ^ 32" by simp_all
  obtain m where m: "2 ^ m \<le> uint (15::u32)" "\<forall>info. Some ?i = Some info \<and> uint (tcpi_last_ack_recv info) > uint (15::u32) * 1000 \<and>
      unat (tcpi_retransmits info) > m + 1 \<longrightarrow> sk_checkSocketHealth 15 (Some ?i) = uint (tcpi_last_ack_recv info) div 1000"
    using sk_health_bounds [OF t, of "Some ?i"] by blast
  have "m < 4"
  proof (rule ccontr)
    assume "\<not> m < 4"
    then have "(2::int) ^ 4 \<le> 2 ^ m" by (intro power_increasing) auto
    then show False using m(1) by simp
  qed
  then show ?thesis using m(2) by simp
qed

text \<open>A threshold of more than \<open>2 ^ 32\<close> milliseconds wraps: a connection is reported 1 second after its last sign for a threshold of 49 days.\<close>

lemma sk_health_wraps:
  "sk_checkSocketHealth 4294968 (Some \<lparr>tcpi_retransmits = 30, tcpi_probes = 0, tcpi_backoff = 0, tcpi_last_ack_recv = 1500\<rparr>) = 1"
proof -
  obtain m where m: "unat (magnitude (4294968 :: u32) 0) = m" "2 ^ m \<le> unat (4294968 :: u32)"
    by (rule magnitude_u32 [of 4294968]) simp_all
  have "m < 23"
  proof (rule ccontr)
    assume "\<not> m < 23"
    then have "(2::nat) ^ 23 \<le> 2 ^ m" by (intro power_increasing) simp_all
    then show False using m(2) by simp
  qed
  then have "\<not> unat (30 :: byte) \<le> unat (magnitude (4294968 :: u32) 0) + 1" unfolding m(1) by simp
  then show ?thesis by (simp add: sk_checkSocketHealth_def)
qed

text \<open>
  The probes for a timeout of \<open>t\<close> seconds last at least as long as the timeout and less than five seconds longer, behind the five seconds for which
  the connection must be idle.
\<close>

lemma keepalive_seconds:
  assumes "0 \<le> t" "t < 2 ^ 31 - 4" "list_all (\<lambda>r. r = 0) answers" "length answers = 4"
  shows "\<exists>n. sk_setKeepAlive t answers = Inr ([SO_KEEPALIVE 1, TCP_KEEPIDLE 5, TCP_KEEPINTVL 5, TCP_KEEPCNT n], True) \<and>
    t \<le> 5 * n \<and> 5 * n < t + 5"
proof -
  obtain a b c d where "answers = [a, b, c, d]" using assms(4) by (auto simp: length_Suc_conv eval_nat_numeral)
  then have "answers = [0, 0, 0, 0]" using assms(3) by simp
  moreover have "t \<le> 5 * ((t + 4) div 5)" "5 * ((t + 4) div 5) < t + 5" by linarith+
  ultimately show ?thesis using assms(1,2) by (simp add: sk_setKeepAlive_def keepalive_probes_def)
qed

lemma htons_ntohs [simp]: "ntohs (htons w) = w"
  by (intro bit_word_eqI) (auto simp: ntohs_def htons_def bit_simps)

lemma port_roundtrip:
  "ad_getPort (Address_port p) = of_int p" "ad_getPort (Address_in w p) = of_int p" "ad_getPort (ad_setPort a q) = q"
  "ad_getPort (Address_name aton byname name p) = of_int p"
  by (simp_all add: ad_getPort_def Address_port_def Address_in_def ad_setPort_def Address_name_def ad_setAddress_def Let_def split: option.splits)

lemma ad_assign_eq: "ad_eq (ad_assign a b) b"
  by (simp add: ad_eq_def ad_assign_def)

end
