(* ===== verification/Locks.thy ===== *)
theory Locks
  imports TimeUtils
begin

text \<open>
  Locks and conditions (src/Mutex.cpp, include/Mutex.h, src/Condition.cpp). The mutex of the system is modelled as POSIX describes it, in the two
  kinds that the code asks for. Each method is a function for one thread that nobody interrupts; for several threads each method is a
  sequence of steps, one for each access to what the threads share, and threads take turns between any two of them.
\<close>

section \<open>The mutex of the system\<close>

definition EPERM :: int where "EPERM = 1"
definition EBUSY :: int where "EBUSY = 16"
definition EDEADLK :: int where "EDEADLK = 35"

text \<open>A mutex that checks for errors, or a recursive one, with the number of times that its owner has taken it.\<close>

record pmutex =
  pmRecursive :: bool
  pmOwner :: "nat option"
  pmCount :: nat

text \<open>\<open>None\<close>: the thread waits.\<close>

definition pthread_mutex_lock :: "nat \<Rightarrow> pmutex \<Rightarrow> (int \<times> pmutex) option" where
  "pthread_mutex_lock t p =
     (case pmOwner p of
        None \<Rightarrow> Some (0, p\<lparr>pmOwner := Some t, pmCount := 1\<rparr>)
      | Some u \<Rightarrow>
          if u \<noteq> t then None
          else if pmRecursive p then Some (0, p\<lparr>pmCount := Suc (pmCount p)\<rparr>)
          else Some (EDEADLK, p))"

definition pthread_mutex_unlock :: "nat \<Rightarrow> pmutex \<Rightarrow> int \<times> pmutex" where
  "pthread_mutex_unlock t p =
     (if pmOwner p \<noteq> Some t then (EPERM, p)
      else if pmCount p \<le> 1 then (0, p\<lparr>pmOwner := None, pmCount := 0\<rparr>)
      else (0, p\<lparr>pmCount := pmCount p - 1\<rparr>))"

definition pthread_mutex_destroy :: "pmutex \<Rightarrow> int" where
  "pthread_mutex_destroy p = (if pmOwner p \<noteq> None then EBUSY else 0)"

section \<open>Mutexes\<close>

text \<open>Members that the constructors do not set are \<open>None\<close>.\<close>

record mutex =
  mtMutex :: pmutex
  mtLockedBy :: "nat option"
  mtName :: "string option"
  mtRecursive :: bool
  mtLockFile :: "string option"
  mtLockLine :: "int option"

text \<open>\<open>init\<close> and \<open>destroy\<close>: what the system answers to the calls that make the mutex and free its attributes.\<close>

definition create_lock :: "mutex \<Rightarrow> int \<Rightarrow> int \<Rightarrow> mutex outcome" where
  "create_lock m init destroy =
     (let m = m\<lparr>mtMutex := \<lparr>pmRecursive = mtRecursive m, pmOwner = None, pmCount = 0\<rparr>\<rparr> in
      if init \<noteq> 0 then Inl Fatal else if destroy \<noteq> 0 then Inl Fatal else Inr m)"

definition mt_Mutex :: "string option \<Rightarrow> bool \<Rightarrow> int \<Rightarrow> int \<Rightarrow> mutex outcome" where
  "mt_Mutex name recursive init destroy =
     create_lock \<lparr>mtMutex = \<lparr>pmRecursive = False, pmOwner = None, pmCount = 0\<rparr>, mtLockedBy = None, mtName = name,
       mtRecursive = recursive, mtLockFile = None, mtLockLine = None\<rparr> init destroy"

definition mt_destroy :: "mutex \<Rightarrow> unit outcome" where
  "mt_destroy m = (if pthread_mutex_destroy (mtMutex m) \<noteq> 0 then Inl Fatal else Inr ())"

text \<open>
  The calls of thread \<open>t\<close>; a call that would wait for another thread does not return. \<open>V\<close> says that the program was built for verbose logging
  (\<open>JH_VERBOSE_LOGGING\<close>): there \<open>LOG_ERR_FATAL\<close> stops the program, while in a release build it only logs, and the method goes on.
\<close>

definition mt_TraceLock :: "bool \<Rightarrow> nat \<Rightarrow> mutex \<Rightarrow> string \<Rightarrow> int \<Rightarrow> mutex outcome" where
  "mt_TraceLock V t m file line =
     (case pthread_mutex_lock t (mtMutex m) of
        None \<Rightarrow> Inl NoReturn
      | Some (res, p) \<Rightarrow>
          let m = m\<lparr>mtMutex := p, mtLockedBy := Some t\<rparr> in
          if res \<noteq> 0 \<and> V then Inl Fatal
          else Inr (m\<lparr>mtLockFile := Some file, mtLockLine := Some line\<rparr>))"

definition mt_TraceUnlock :: "bool \<Rightarrow> nat \<Rightarrow> mutex \<Rightarrow> mutex outcome" where
  "mt_TraceUnlock V t m =
     (let m = m\<lparr>mtLockedBy := None\<rparr>; (res, p) = pthread_mutex_unlock t (mtMutex m) in
      if res \<noteq> 0 \<and> V then Inl Fatal else Inr (m\<lparr>mtMutex := p\<rparr>))"

definition mt_Lock :: "bool \<Rightarrow> nat \<Rightarrow> mutex \<Rightarrow> mutex outcome" where
  "mt_Lock V t m = mt_TraceLock V t m ''unknown'' 0"

definition mt_Unlock :: "bool \<Rightarrow> nat \<Rightarrow> mutex \<Rightarrow> mutex outcome" where
  "mt_Unlock V t m = mt_TraceUnlock V t m"

definition mt_isLocked :: "nat \<Rightarrow> mutex \<Rightarrow> bool" where
  "mt_isLocked t m \<longleftrightarrow> mtLockedBy m = Some t"

text \<open>\<open>names\<close>: the names of the threads.\<close>

definition mt_getOwner :: "(nat \<Rightarrow> string) \<Rightarrow> mutex \<Rightarrow> string option" where
  "mt_getOwner names m = map_option names (mtLockedBy m)"

section \<open>Locks of a scope\<close>

text \<open>What is called between the constructor and the destructor of an \<open>AutoLock\<close>.\<close>

datatype scope_op = ScopeLock | ScopeUnlock

definition sc_AutoLock :: "bool \<Rightarrow> nat \<Rightarrow> mutex \<Rightarrow> string \<Rightarrow> int \<Rightarrow> mutex outcome" where
  "sc_AutoLock V t m file line = mt_TraceLock V t m file line"

definition sc_destroy :: "bool \<Rightarrow> nat \<Rightarrow> mutex \<Rightarrow> mutex outcome" where
  "sc_destroy V t m = mt_TraceUnlock V t m"

fun sc_op :: "bool \<Rightarrow> nat \<Rightarrow> mutex \<Rightarrow> scope_op \<Rightarrow> mutex outcome" where
  "sc_op V t m ScopeLock = mt_Lock V t m"
| "sc_op V t m ScopeUnlock = mt_Unlock V t m"

definition sc_scope :: "bool \<Rightarrow> nat \<Rightarrow> mutex \<Rightarrow> string \<Rightarrow> int \<Rightarrow> scope_op list \<Rightarrow> mutex outcome" where
  "sc_scope V t m file line ops =
     andThen (sc_AutoLock V t m file line) (\<lambda>m.
     andThen (fold_outcome (sc_op V t) m ops) (\<lambda>m. sc_destroy V t m))"

section \<open>Several threads\<close>

text \<open>
  Where a thread is: in the code of the client, at the call of the system in \<open>TraceLock\<close>, behind it with its result, at the check of the result, at the
  first and the second statement of \<open>TraceUnlock\<close>, in \<open>Wait\<close> until it is woken or its time is over, and taking the mutex again there.
\<close>

datatype pc = Client | Locking string int | Locked string int int | Noting string int int | Unlocking | Releasing
  | Waiting "timespec option" | Waking bool

text \<open>
  A mutex, where the threads are, the clock, what \<open>Wait\<close> last answered to each thread, and whether the program was stopped. \<open>lsDepth\<close> is what
  the threads know: the calls of \<open>TraceLock\<close> that have returned, less the calls of \<open>TraceUnlock\<close>.
\<close>

record lock_state =
  lsMutex :: mutex
  lsPc :: "nat \<Rightarrow> pc"
  lsNow :: timespec
  lsResult :: "nat \<Rightarrow> bool"
  lsStopped :: bool
  lsDepth :: "nat \<Rightarrow> nat"

definition ls_at :: "lock_state \<Rightarrow> nat \<Rightarrow> pc \<Rightarrow> lock_state" where
  "ls_at st t c = st\<lparr>lsPc := (lsPc st)(t := c)\<rparr>"

definition ls_mutex :: "lock_state \<Rightarrow> mutex \<Rightarrow> lock_state" where
  "ls_mutex st m = st\<lparr>lsMutex := m\<rparr>"

definition ls_deeper :: "lock_state \<Rightarrow> nat \<Rightarrow> lock_state" where
  "ls_deeper st t = st\<lparr>lsDepth := (lsDepth st)(t := Suc (lsDepth st t))\<rparr>"

text \<open>The next step of a thread that is in one of the two methods, \<open>None\<close> when it waits or is not in them.\<close>

definition lk_next :: "bool \<Rightarrow> nat \<Rightarrow> lock_state \<Rightarrow> lock_state option" where
  "lk_next V t st =
     (let m = lsMutex st in
      case lsPc st t of
        Locking f l \<Rightarrow>
          (case pthread_mutex_lock t (mtMutex m) of None \<Rightarrow> None
           | Some (res, p) \<Rightarrow> Some (ls_at (ls_mutex st (m\<lparr>mtMutex := p\<rparr>)) t (Locked f l res)))
      | Locked f l res \<Rightarrow> Some (ls_at (ls_mutex st (m\<lparr>mtLockedBy := Some t\<rparr>)) t (Noting f l res))
      | Noting f l res \<Rightarrow>
          if res \<noteq> 0 \<and> V then Some (st\<lparr>lsStopped := True\<rparr>)
          else Some (ls_deeper (ls_at (ls_mutex st (m\<lparr>mtLockFile := Some f, mtLockLine := Some l\<rparr>)) t Client) t)
      | Unlocking \<Rightarrow> Some (ls_at (ls_mutex st (m\<lparr>mtLockedBy := None\<rparr>)) t Releasing)
      | Releasing \<Rightarrow>
          (case pthread_mutex_unlock t (mtMutex m) of (res, p) \<Rightarrow>
             if res \<noteq> 0 \<and> V then Some (st\<lparr>lsStopped := True\<rparr>)
             else Some (ls_at (ls_mutex st (m\<lparr>mtMutex := p\<rparr>)) t Client))
      | _ \<Rightarrow> None)"

text \<open>
  \<open>Wait\<close> with a number of milliseconds: none is no limit; the number goes to \<open>addOffset\<close> as an \<open>int\<close>. The wait releases the mutex and starts in one step.
\<close>

definition cv_deadline :: "timespec \<Rightarrow> u32 \<Rightarrow> timespec option" where
  "cv_deadline now timeoutms = (if timeoutms > 0 then Some (addOffset_ns now (sint timeoutms)) else None)"

definition cv_wait :: "nat \<Rightarrow> lock_state \<Rightarrow> timespec option \<Rightarrow> lock_state" where
  "cv_wait t st deadline =
     (let m = lsMutex st in
      ls_at (ls_mutex st (m\<lparr>mtMutex := snd (pthread_mutex_unlock t (mtMutex m))\<rparr>)) t (Waiting deadline))"

definition cv_Wait :: "nat \<Rightarrow> lock_state \<Rightarrow> lock_state" where
  "cv_Wait t st = cv_wait t st None"

definition cv_Wait_ms :: "nat \<Rightarrow> lock_state \<Rightarrow> u32 \<Rightarrow> lock_state" where
  "cv_Wait_ms t st timeoutms = cv_wait t st (cv_deadline (lsNow st) timeoutms)"

text \<open>The end of a wait, with its answer, which is true also when there is no limit.\<close>

definition cv_return :: "nat \<Rightarrow> lock_state \<Rightarrow> lock_state option" where
  "cv_return t st =
     (case lsPc st t of
        Waking b \<Rightarrow>
          (case pthread_mutex_lock t (mtMutex (lsMutex st)) of None \<Rightarrow> None
           | Some (res, p) \<Rightarrow> Some ((ls_at (ls_mutex st ((lsMutex st)\<lparr>mtMutex := p\<rparr>)) t Client)\<lparr>lsResult := (lsResult st)(t := b)\<rparr>))
      | _ \<Rightarrow> None)"

definition woken :: "pc \<Rightarrow> pc" where
  "woken c = (case c of Waiting d \<Rightarrow> Waking True | _ \<Rightarrow> c)"

text \<open>\<open>Signal\<close> wakes one thread \<open>u\<close> that waits, if there is any.\<close>

definition cv_Signal :: "nat \<Rightarrow> lock_state \<Rightarrow> lock_state" where
  "cv_Signal u st = ls_at st u (woken (lsPc st u))"

definition cv_Broadcast :: "lock_state \<Rightarrow> lock_state" where
  "cv_Broadcast st = st\<lparr>lsPc := woken \<circ> lsPc st\<rparr>"

definition waits :: "pc \<Rightarrow> bool" where
  "waits c \<longleftrightarrow> (case c of Waiting d \<Rightarrow> True | _ \<Rightarrow> False)"

text \<open>
  The steps, in a verbose build (\<open>V\<close>) or a release build. With \<open>W\<close> the clients use conditions, and call \<open>Wait\<close> with the mutex, as its comment asks; with \<open>R\<close> they keep the rules of the mutex: they unlock only what
  they have locked, and lock what they have locked only when the mutex is recursive. The system may wake a thread that nobody has signalled.
\<close>

inductive lk_step :: "bool \<Rightarrow> bool \<Rightarrow> bool \<Rightarrow> lock_state \<Rightarrow> lock_state \<Rightarrow> bool" for V W R where
  call_lock: "\<not> lsStopped st \<Longrightarrow> lsPc st t = Client \<Longrightarrow> (R \<Longrightarrow> mtRecursive (lsMutex st) \<or> lsDepth st t = 0) \<Longrightarrow>
    lk_step V W R st (ls_at st t (Locking f l))"
| call_unlock: "\<not> lsStopped st \<Longrightarrow> lsPc st t = Client \<Longrightarrow> (R \<Longrightarrow> 0 < lsDepth st t) \<Longrightarrow>
    lk_step V W R st ((ls_at st t Unlocking)\<lparr>lsDepth := (lsDepth st)(t := lsDepth st t - 1)\<rparr>)"
| inside: "\<not> lsStopped st \<Longrightarrow> lk_next V t st = Some st' \<Longrightarrow> lk_step V W R st st'"
| wait: "\<not> lsStopped st \<Longrightarrow> W \<Longrightarrow> lsPc st t = Client \<Longrightarrow> 0 < lsDepth st t \<Longrightarrow> lk_step V W R st (cv_Wait t st)"
| wait_ms: "\<not> lsStopped st \<Longrightarrow> W \<Longrightarrow> lsPc st t = Client \<Longrightarrow> 0 < lsDepth st t \<Longrightarrow> lk_step V W R st (cv_Wait_ms t st ms)"
| signal: "\<not> lsStopped st \<Longrightarrow> lsPc st t = Client \<Longrightarrow> waits (lsPc st u) \<or> (\<forall>v. \<not> waits (lsPc st v)) \<Longrightarrow> lk_step V W R st (cv_Signal u st)"
| broadcast: "\<not> lsStopped st \<Longrightarrow> lsPc st t = Client \<Longrightarrow> lk_step V W R st (cv_Broadcast st)"
| spurious: "\<not> lsStopped st \<Longrightarrow> lk_step V W R st (cv_Signal u st)"
| timeout: "\<not> lsStopped st \<Longrightarrow> lsPc st t = Waiting (Some d) \<Longrightarrow> ts_nanos d \<le> ts_nanos (lsNow st) \<Longrightarrow>
    lk_step V W R st (ls_at st t (Waking False))"
| resume: "\<not> lsStopped st \<Longrightarrow> cv_return t st = Some st' \<Longrightarrow> lk_step V W R st st'"
| tick: "\<not> lsStopped st \<Longrightarrow> ts_normal now \<Longrightarrow> ts_nanos (lsNow st) \<le> ts_nanos now \<Longrightarrow> lk_step V W R st (st\<lparr>lsNow := now\<rparr>)"

definition lock_start :: "mutex \<Rightarrow> timespec \<Rightarrow> lock_state" where
  "lock_start m now = \<lparr>lsMutex = m, lsPc = (\<lambda>t. Client), lsNow = now, lsResult = (\<lambda>t. True), lsStopped = False, lsDepth = (\<lambda>t. 0)\<rparr>"

section \<open>What a thread holds\<close>

definition pm_hold :: "pmutex \<Rightarrow> nat \<Rightarrow> nat" where
  "pm_hold p t = (if pmOwner p = Some t then pmCount p else 0)"

definition pm_ok :: "pmutex \<Rightarrow> bool" where
  "pm_ok p \<longleftrightarrow> (pmOwner p = None \<longleftrightarrow> pmCount p = 0) \<and> (pmRecursive p \<or> pmCount p \<le> 1)"

lemma pm_hold_unique: "0 < pm_hold p t \<Longrightarrow> 0 < pm_hold p u \<Longrightarrow> t = u"
  by (simp add: pm_hold_def split: if_splits)

lemma pthread_mutex_lock_hold:
  assumes "pthread_mutex_lock t p = Some (res, p')" "pm_ok p"
  shows "pm_ok p'" "pmRecursive p' = pmRecursive p" "u \<noteq> t \<Longrightarrow> pm_hold p' u = pm_hold p u"
    "res = 0 \<Longrightarrow> pm_hold p' t = Suc (pm_hold p t)" "res \<noteq> 0 \<Longrightarrow> p' = p \<and> 0 < pm_hold p t \<and> \<not> pmRecursive p"
  using assms by (auto simp: pthread_mutex_lock_def pm_ok_def pm_hold_def EDEADLK_def split: option.splits if_splits)

lemma pthread_mutex_unlock_hold:
  assumes "pthread_mutex_unlock t p = (res, p')" "pm_ok p"
  shows "pm_ok p'" "pmRecursive p' = pmRecursive p" "u \<noteq> t \<Longrightarrow> pm_hold p' u = pm_hold p u"
    "0 < pm_hold p t \<Longrightarrow> res = 0 \<and> Suc (pm_hold p' t) = pm_hold p t" "pm_hold p t = 0 \<Longrightarrow> res \<noteq> 0 \<and> p' = p"
  using assms by (auto simp: pthread_mutex_unlock_def pm_ok_def pm_hold_def EPERM_def split: if_splits)

lemma pthread_mutex_lock_waits:
  "pthread_mutex_lock t p = None \<longleftrightarrow> (\<exists>u. pmOwner p = Some u \<and> u \<noteq> t)"
  by (auto simp: pthread_mutex_lock_def split: option.splits)

text \<open>
  How what a thread holds of the mutex belongs to what it knows, by the place where it is, when the clients use conditions (\<open>W\<close>) and keep the rules (\<open>R\<close>) of a
  recursive mutex (\<open>rec\<close>) or of one that is not.
\<close>

definition asleep :: "pc \<Rightarrow> bool" where
  "asleep c \<longleftrightarrow> (case c of Waiting d \<Rightarrow> True | Waking b \<Rightarrow> True | _ \<Rightarrow> False)"

definition noted :: "pc \<Rightarrow> bool" where
  "noted c \<longleftrightarrow> (case c of Locked f l r \<Rightarrow> False | Releasing \<Rightarrow> False | _ \<Rightarrow> True)"

definition thread_ok :: "bool \<Rightarrow> bool \<Rightarrow> bool \<Rightarrow> pc \<Rightarrow> nat \<Rightarrow> nat \<Rightarrow> bool" where
  "thread_ok W R rec c hold depth \<longleftrightarrow>
     (case c of
        Client \<Rightarrow> hold = depth
      | Locking f l \<Rightarrow> hold = depth \<and> (R \<and> \<not> rec \<longrightarrow> depth = 0)
      | Locked f l res \<Rightarrow> (if res = 0 then hold = Suc depth else \<not> R \<and> hold = depth \<and> 0 < hold)
      | Noting f l res \<Rightarrow> (if res = 0 then hold = Suc depth else \<not> R \<and> hold = depth \<and> 0 < hold)
      | Unlocking \<Rightarrow> hold = Suc depth \<or> \<not> R \<and> hold = 0 \<and> depth = 0
      | Releasing \<Rightarrow> hold = Suc depth \<or> \<not> R \<and> hold = 0 \<and> depth = 0
      | Waiting d \<Rightarrow> W \<and> Suc hold = depth \<and> (rec \<or> hold = 0)
      | Waking b \<Rightarrow> W \<and> Suc hold = depth \<and> (rec \<or> hold = 0))"

definition lk_hold :: "lock_state \<Rightarrow> nat \<Rightarrow> nat" where
  "lk_hold st t = pm_hold (mtMutex (lsMutex st)) t"

definition lk_inv :: "bool \<Rightarrow> bool \<Rightarrow> bool \<Rightarrow> lock_state \<Rightarrow> bool" where
  "lk_inv W R rec st \<longleftrightarrow>
     pm_ok (mtMutex (lsMutex st)) \<and> pmRecursive (mtMutex (lsMutex st)) = rec \<and> mtRecursive (lsMutex st) = rec \<and> (lsStopped st \<longrightarrow> \<not> R) \<and>
     (\<forall>t. thread_ok W R rec (lsPc st t) (lk_hold st t) (lsDepth st t)) \<and>
     (\<forall>t. mtLockedBy (lsMutex st) = Some t \<longrightarrow> (0 < lk_hold st t \<or> asleep (lsPc st t)) \<and> lsPc st t \<noteq> Releasing) \<and>
     (\<not> W \<and> R \<and> \<not> rec \<longrightarrow> (\<forall>t. 0 < lk_hold st t \<and> noted (lsPc st t) \<longrightarrow> mtLockedBy (lsMutex st) = Some t))"

lemma lk_inv_start:
  assumes "mt_Mutex name rec init destroy = Inr m"
  shows "lk_inv W R rec (lock_start m now)"
  using assms by (auto simp: mt_Mutex_def create_lock_def lock_start_def lk_inv_def pm_ok_def pm_hold_def lk_hold_def thread_ok_def Let_def split: if_splits)

text \<open>A step of thread \<open>t\<close> to \<open>c\<close>, which leaves what other threads hold and know.\<close>

lemma lk_inv_move:
  assumes inv: "lk_inv W R rec st" and pc: "lsPc st' = (lsPc st)(t := c)"
    and others: "\<And>u. u \<noteq> t \<Longrightarrow> lk_hold st' u = lk_hold st u \<and> lsDepth st' u = lsDepth st u"
    and p: "pm_ok (mtMutex (lsMutex st'))" "pmRecursive (mtMutex (lsMutex st')) = rec" "mtRecursive (lsMutex st') = rec" "lsStopped st' \<longrightarrow> \<not> R"
    and t: "thread_ok W R rec c (lk_hold st' t) (lsDepth st' t)"
    and lb: "mtLockedBy (lsMutex st') = mtLockedBy (lsMutex st) \<and>
          (mtLockedBy (lsMutex st) = Some t \<longrightarrow> (0 < lk_hold st' t \<or> asleep c) \<and> c \<noteq> Releasing) \<and>
          (\<not> W \<and> R \<and> \<not> rec \<and> 0 < lk_hold st' t \<and> noted c \<longrightarrow> mtLockedBy (lsMutex st) = Some t) \<or>
        mtLockedBy (lsMutex st') = None \<and> (R \<longrightarrow> 0 < lk_hold st' t) \<and> \<not> noted c \<or>
        mtLockedBy (lsMutex st') = Some t \<and> 0 < lk_hold st' t \<and> c \<noteq> Releasing"
  shows "lk_inv W R rec st'"
proof -
  have one: "t = u" if "0 < lk_hold st' t" "0 < lk_hold st' u" for u using that by (auto simp: lk_hold_def dest: pm_hold_unique)
  have ok: "thread_ok W R rec (lsPc st' u) (lk_hold st' u) (lsDepth st' u)" for u
    using inv t others [of u] by (cases "u = t") (simp_all add: pc lk_inv_def)
  have locked: "(0 < lk_hold st' u \<or> asleep (lsPc st' u)) \<and> lsPc st' u \<noteq> Releasing" if "mtLockedBy (lsMutex st') = Some u" for u
    using that inv lb others [of u] by (cases "u = t") (auto simp: pc lk_inv_def)
  have exact: "mtLockedBy (lsMutex st') = Some u" if "\<not> W \<and> R \<and> \<not> rec" "0 < lk_hold st' u \<and> noted (lsPc st' u)" for u
    using that inv lb others [of u] one [of u] by (cases "u = t") (auto simp: pc lk_inv_def)
  show ?thesis unfolding lk_inv_def using p ok locked exact by blast
qed

text \<open>What the invariant says of one thread, and of who is noted as the owner.\<close>

lemma lk_invD:
  assumes "lk_inv W R rec st"
  shows "pm_ok (mtMutex (lsMutex st))" "pmRecursive (mtMutex (lsMutex st)) = rec" "mtRecursive (lsMutex st) = rec" "lsStopped st \<longrightarrow> \<not> R"
    "thread_ok W R rec (lsPc st t) (lk_hold st t) (lsDepth st t)"
    "mtLockedBy (lsMutex st) = Some t \<Longrightarrow> (0 < lk_hold st t \<or> asleep (lsPc st t)) \<and> lsPc st t \<noteq> Releasing"
    "\<not> W \<Longrightarrow> R \<Longrightarrow> \<not> rec \<Longrightarrow> 0 < lk_hold st t \<Longrightarrow> noted (lsPc st t) \<Longrightarrow> mtLockedBy (lsMutex st) = Some t"
  using assms by (auto simp: lk_inv_def)

lemma lk_next_lock:
  assumes inv: "lk_inv W R rec st" and c: "lsPc st t = Locking f l" and r: "lk_next V t st = Some st'"
  shows "lk_inv W R rec st'"
proof -
  note i = lk_invD [OF inv]
  obtain res p where p: "pthread_mutex_lock t (mtMutex (lsMutex st)) = Some (res, p)"
    "st' = ls_at (ls_mutex st ((lsMutex st)\<lparr>mtMutex := p\<rparr>)) t (Locked f l res)"
    using r c by (auto simp: lk_next_def Let_def split: option.splits)
  note h = pthread_mutex_lock_hold [OF p(1) i(1)]
  have t: "thread_ok W R rec (Locking f l) (lk_hold st t) (lsDepth st t)" using i(5) [of t] c by simp
  have holds: "0 < lk_hold st' t" using h(4,5) p(2) by (cases "res = 0") (auto simp: lk_hold_def ls_at_def ls_mutex_def)
  have by_same: "mtLockedBy (lsMutex st') = mtLockedBy (lsMutex st)" using p(2) by (simp add: ls_at_def ls_mutex_def)
  show ?thesis
  proof (rule lk_inv_move [OF inv, of _ t "Locked f l res"])
    show "thread_ok W R rec (Locked f l res) (lk_hold st' t) (lsDepth st' t)"
      using t h(4,5) i(2) p(2) by (auto simp: thread_ok_def lk_hold_def ls_at_def ls_mutex_def)
    show "mtLockedBy (lsMutex st') = mtLockedBy (lsMutex st) \<and>
          (mtLockedBy (lsMutex st) = Some t \<longrightarrow> (0 < lk_hold st' t \<or> asleep (Locked f l res)) \<and> Locked f l res \<noteq> Releasing) \<and>
          (\<not> W \<and> R \<and> \<not> rec \<and> 0 < lk_hold st' t \<and> noted (Locked f l res) \<longrightarrow> mtLockedBy (lsMutex st) = Some t) \<or>
        mtLockedBy (lsMutex st') = None \<and> (R \<longrightarrow> 0 < lk_hold st' t) \<and> \<not> noted (Locked f l res) \<or>
        mtLockedBy (lsMutex st') = Some t \<and> 0 < lk_hold st' t \<and> Locked f l res \<noteq> Releasing"
      using holds by_same by (simp add: noted_def)
  qed (use h(1,2,3) i(2,3,4) p(2) in \<open>auto simp: lk_hold_def ls_at_def ls_mutex_def\<close>)
qed

lemma lk_next_unlock:
  assumes inv: "lk_inv W R rec st" and c: "lsPc st t = Releasing" and r: "lk_next V t st = Some st'" and v: "V \<or> R"
  shows "lk_inv W R rec st'"
proof -
  note i = lk_invD [OF inv]
  obtain res p where p: "pthread_mutex_unlock t (mtMutex (lsMutex st)) = (res, p)" by (cases "pthread_mutex_unlock t (mtMutex (lsMutex st))")
  note h = pthread_mutex_unlock_hold [OF p i(1)]
  have t: "thread_ok W R rec Releasing (lk_hold st t) (lsDepth st t)" using i(5) [of t] c by simp
  have not_me: "mtLockedBy (lsMutex st) \<noteq> Some t" using i(6) [of t] c by blast
  show ?thesis
  proof (cases "0 < lk_hold st t")
    case True
    then have st': "st' = ls_at (ls_mutex st ((lsMutex st)\<lparr>mtMutex := p\<rparr>)) t Client"
      using r c p h(4) by (simp add: lk_next_def lk_hold_def Let_def)
    have less: "Suc (lk_hold st' t) = lk_hold st t" using True h(4) by (simp add: st' lk_hold_def ls_at_def ls_mutex_def)
    have rec: "rec" if "0 < lk_hold st' t"
      using less that i(1,2) by (auto simp: pm_ok_def lk_hold_def pm_hold_def split: if_splits)
    show ?thesis
    proof (rule lk_inv_move [OF inv, of _ t Client])
      show "thread_ok W R rec Client (lk_hold st' t) (lsDepth st' t)"
        using t less True by (auto simp: thread_ok_def st' ls_at_def ls_mutex_def)
    qed (use h(1,2,3) i(2,3,4) rec not_me in \<open>auto simp: st' lk_hold_def ls_at_def ls_mutex_def\<close>)
  next
    case False
    then have "\<not> R" using t by (auto simp: thread_ok_def)
    moreover from this have "st' = st\<lparr>lsStopped := True\<rparr>" using False r c p h(5) v by (simp add: lk_next_def lk_hold_def Let_def)
    ultimately show ?thesis using inv by (simp add: lk_inv_def lk_hold_def)
  qed
qed

lemma lk_next_inv:
  assumes inv: "lk_inv W R rec st" and r: "lk_next V t st = Some st'" and v: "V \<or> R"
  shows "lk_inv W R rec st'"
proof -
  note i = lk_invD [OF inv]
  consider (lock) f l where "lsPc st t = Locking f l" | (locked) f l res where "lsPc st t = Locked f l res"
    | (noting) f l res where "lsPc st t = Noting f l res" | (unlocking) "lsPc st t = Unlocking" | (releasing) "lsPc st t = Releasing"
    using r by (cases "lsPc st t") (auto simp: lk_next_def)
  then show ?thesis
  proof cases
    case lock
    then show ?thesis using lk_next_lock [OF inv _ r] by blast
  next
    case locked
    have st': "st' = ls_at (ls_mutex st ((lsMutex st)\<lparr>mtLockedBy := Some t\<rparr>)) t (Noting f l res)"
      using r locked by (simp add: lk_next_def Let_def)
    have t: "thread_ok W R rec (Noting f l res) (lk_hold st t) (lsDepth st t)" using i(5) [of t] locked by (simp add: thread_ok_def)
    show ?thesis
      by (rule lk_inv_move [OF inv, of _ t "Noting f l res"])
        (use t i(1,2,3,4) in \<open>auto simp: st' lk_hold_def ls_at_def ls_mutex_def thread_ok_def split: if_splits\<close>)
  next
    case noting
    show ?thesis
    proof (cases "res = 0")
      case True
      then have st': "st' = ls_deeper (ls_at (ls_mutex st ((lsMutex st)\<lparr>mtLockFile := Some f, mtLockLine := Some l\<rparr>)) t Client) t"
        using r noting by (simp add: lk_next_def Let_def)
      have h: "lk_hold st t = Suc (lsDepth st t)" using i(5) [of t] noting True by (simp add: thread_ok_def)
      have e: "\<not> W \<Longrightarrow> R \<Longrightarrow> \<not> rec \<Longrightarrow> mtLockedBy (lsMutex st) = Some t" using i(7) [of t] h noting by (simp add: noted_def)
      show ?thesis
        by (rule lk_inv_move [OF inv, of _ t Client])
          (use h e i(1,2,3,4) in \<open>auto simp: st' lk_hold_def ls_at_def ls_mutex_def ls_deeper_def thread_ok_def\<close>)
    next
      case False
      then have "\<not> R" using noting i(5) [of t] by (simp add: thread_ok_def)
      moreover from this have "st' = st\<lparr>lsStopped := True\<rparr>" using False r noting v by (simp add: lk_next_def Let_def)
      ultimately show ?thesis using inv by (simp add: lk_inv_def lk_hold_def)
    qed
  next
    case unlocking
    have st': "st' = ls_at (ls_mutex st ((lsMutex st)\<lparr>mtLockedBy := None\<rparr>)) t Releasing" using r unlocking by (simp add: lk_next_def Let_def)
    have t: "thread_ok W R rec Releasing (lk_hold st t) (lsDepth st t)" using i(5) [of t] unlocking by (simp add: thread_ok_def)
    show ?thesis
      by (rule lk_inv_move [OF inv, of _ t Releasing])
        (use t i(1,2,3,4) in \<open>auto simp: st' lk_hold_def ls_at_def ls_mutex_def thread_ok_def noted_def\<close>)
  next
    case releasing
    then show ?thesis using lk_next_unlock [OF inv _ r v] by blast
  qed
qed

text \<open>The other steps: calls, waits and wake-ups move one thread or all that sleep.\<close>

lemma lk_inv_sleep:
  assumes inv: "lk_inv W R rec st" and c: "lsPc st t = Client" and W: "W" and d: "0 < lsDepth st t"
  shows "lk_inv W R rec (cv_wait t st deadline)"
proof -
  note i = lk_invD [OF inv]
  obtain res p where p: "pthread_mutex_unlock t (mtMutex (lsMutex st)) = (res, p)" by (cases "pthread_mutex_unlock t (mtMutex (lsMutex st))")
  note h = pthread_mutex_unlock_hold [OF p i(1)]
  have "lk_hold st t = lsDepth st t" using i(5) [of t] c by (simp add: thread_ok_def)
  then have less: "Suc (pm_hold p t) = lsDepth st t" using h(4) d by (simp add: lk_hold_def)
  have one: "rec \<or> pm_hold p t = 0"
    using less i(1,2) \<open>lk_hold st t = lsDepth st t\<close> by (auto simp: pm_ok_def lk_hold_def pm_hold_def split: if_splits)
  show ?thesis
    by (rule lk_inv_move [OF inv, of _ t "Waiting deadline"])
      (use h(1,2,3) i(2,3,4) p less one W in \<open>auto simp: cv_wait_def lk_hold_def ls_at_def ls_mutex_def thread_ok_def asleep_def Let_def\<close>)
qed

lemma lk_inv_return:
  assumes inv: "lk_inv W R rec st" and r: "cv_return t st = Some st'"
  shows "lk_inv W R rec st'"
proof -
  note i = lk_invD [OF inv]
  obtain b res p where p: "lsPc st t = Waking b" "pthread_mutex_lock t (mtMutex (lsMutex st)) = Some (res, p)"
    "st' = (ls_at (ls_mutex st ((lsMutex st)\<lparr>mtMutex := p\<rparr>)) t Client)\<lparr>lsResult := (lsResult st)(t := b)\<rparr>"
    using r by (auto simp: cv_return_def split: pc.splits option.splits)
  note h = pthread_mutex_lock_hold [OF p(2) i(1)]
  have t: "W" "Suc (lk_hold st t) = lsDepth st t" using i(5) [of t] p(1) by (simp_all add: thread_ok_def)
  have "res = 0" using h(5) i(2) i(5) [of t] p(1) by (cases "res = 0") (auto simp: thread_ok_def lk_hold_def)
  then have more: "pm_hold p t = lsDepth st t" using h(4) t(2) by (simp add: lk_hold_def)
  show ?thesis
    by (rule lk_inv_move [OF inv, of _ t Client])
      (use h(1,2,3) i(2,3,4) p(3) more t in \<open>auto simp: lk_hold_def ls_at_def ls_mutex_def thread_ok_def\<close>)
qed

lemma lk_inv_sleeper:
  assumes inv: "lk_inv W R rec st" and c: "asleep (lsPc st t)"
  shows "lk_inv W R rec (ls_at st t (Waking b))"
  by (rule lk_inv_move [OF inv, of _ t "Waking b"])
    (use lk_invD(5-7) [OF inv, of t] lk_invD(1-4) [OF inv] c in \<open>auto simp: lk_hold_def ls_at_def thread_ok_def asleep_def split: pc.splits\<close>)

lemma woken_ok: "thread_ok W R rec c h d \<Longrightarrow> thread_ok W R rec (woken c) h d"
  "asleep (woken c) = asleep c" "noted (woken c) = noted c" "woken c = Releasing \<longleftrightarrow> c = Releasing"
  by (cases c; simp add: thread_ok_def woken_def asleep_def noted_def)+

lemma lk_inv_woken:
  assumes "lk_inv W R rec st"
  shows "lk_inv W R rec (cv_Signal u st)" "lk_inv W R rec (cv_Broadcast st)"
proof -
  show "lk_inv W R rec (cv_Broadcast st)"
    using assms by (simp add: lk_inv_def cv_Broadcast_def lk_hold_def woken_ok)
  show "lk_inv W R rec (cv_Signal u st)"
    using assms by (auto simp: lk_inv_def cv_Signal_def ls_at_def lk_hold_def woken_ok)
qed

lemma lk_step_inv:
  assumes "lk_step V W R st st'" "lk_inv W R rec st" "V \<or> R"
  shows "lk_inv W R rec st'"
  using assms(1)
proof cases
  case (call_lock t f l)
  show ?thesis
    by (rule lk_inv_move [OF assms(2), of _ t "Locking f l"])
      (use lk_invD(5-7) [OF assms(2), of t] lk_invD(1-4) [OF assms(2)] call_lock in \<open>auto simp: lk_hold_def ls_at_def thread_ok_def noted_def asleep_def\<close>)
next
  case (call_unlock t)
  have "lk_hold st t = lsDepth st t" using lk_invD(5) [OF assms(2), of t] call_unlock by (simp add: thread_ok_def)
  then show ?thesis
    by (intro lk_inv_move [OF assms(2), of _ t Unlocking])
      (use lk_invD(5-7) [OF assms(2), of t] lk_invD(1-4) [OF assms(2)] call_unlock in \<open>auto simp: lk_hold_def ls_at_def thread_ok_def noted_def asleep_def\<close>)
next
  case (inside t)
  then show ?thesis using lk_next_inv [OF assms(2) _ assms(3)] by blast
next
  case (wait t)
  then show ?thesis using lk_inv_sleep [OF assms(2)] by (simp add: cv_Wait_def)
next
  case (wait_ms t ms)
  then show ?thesis using lk_inv_sleep [OF assms(2)] by (simp add: cv_Wait_ms_def)
next
  case (timeout t d)
  then show ?thesis using lk_inv_sleeper [OF assms(2)] by (simp add: asleep_def)
next
  case (resume t)
  then show ?thesis using lk_inv_return [OF assms(2)] by blast
next
  case (tick now)
  then show ?thesis using assms(2) by (simp add: lk_inv_def lk_hold_def)
qed (use lk_inv_woken [OF assms(2)] in simp_all)

lemma lk_reachable_inv:
  assumes "(lk_step V W R)\<^sup>*\<^sup>* (lock_start m now) st" "mt_Mutex name rec init destroy = Inr m" "V \<or> R"
  shows "lk_inv W R rec st"
  using assms(1)
proof (induction rule: rtranclp_induct)
  case base
  show ?case by (rule lk_inv_start [OF assms(2)])
next
  case (step y z)
  then show ?case using lk_step_inv assms(3) by blast
qed

section \<open>What the locks promise\<close>

text \<open>The steps of a thread that nobody interrupts are the methods.\<close>

lemma lk_next_alone:
  assumes "lsPc st t = Locking f l"
  shows "mt_TraceLock V t (lsMutex st) f l = Inr m \<Longrightarrow>
    \<exists>s1 s2 s3. lk_next V t st = Some s1 \<and> lk_next V t s1 = Some s2 \<and> lk_next V t s2 = Some s3 \<and> lsMutex s3 = m \<and> lsPc s3 t = Client"
    "mt_TraceLock V t (lsMutex st) f l = Inl NoReturn \<longleftrightarrow> lk_next V t st = None"
  using assms by (auto simp: mt_TraceLock_def lk_next_def ls_at_def ls_mutex_def ls_deeper_def Let_def split: option.splits if_splits)

lemma lk_next_alone_unlock:
  assumes "lsPc st t = Unlocking" "mt_TraceUnlock V t (lsMutex st) = Inr m"
  shows "\<exists>s1 s2. lk_next V t st = Some s1 \<and> lk_next V t s1 = Some s2 \<and> lsMutex s2 = m \<and> lsPc s2 t = Client"
  using assms by (auto simp: mt_TraceUnlock_def lk_next_def ls_at_def ls_mutex_def Let_def split: prod.splits if_splits)

text \<open>
  C36: Whatever any number of threads do with a mutex and a condition (calling \<open>Wait\<close> only with the mutex), recursive or not, interrupted after each access to memory: in a
  verbose build whether or not they keep the rules, until the program is stopped, and in a release build when they keep them, two threads in their own code never both have locked the mutex, and \<open>isLocked\<close> answers true only to a thread that has.
\<close>

theorem mt_exclusion:
  assumes "mt_Mutex name rec init destroy = Inr m" "(lk_step V W R)\<^sup>*\<^sup>* (lock_start m now) st" "lsPc st t = Client" "V \<or> R"
  shows "(lsPc st u = Client \<and> 0 < lsDepth st t \<and> 0 < lsDepth st u \<longrightarrow> t = u) \<and> (mt_isLocked t (lsMutex st) \<longrightarrow> 0 < lsDepth st t)"
proof -
  note i = lk_invD [OF lk_reachable_inv [OF assms(2,1,4)]]
  have own: "lk_hold st v = lsDepth st v" if "lsPc st v = Client" for v using i(5) [of v] that by (simp add: thread_ok_def)
  have "t = u" if "lsPc st u = Client" "0 < lsDepth st t" "0 < lsDepth st u"
    using that own [OF assms(3)] own [OF that(1)] pm_hold_unique unfolding lk_hold_def by metis
  moreover have "0 < lsDepth st t" if "mt_isLocked t (lsMutex st)"
    using i(6) [of t] that own [OF assms(3)] assms(3) by (simp add: mt_isLocked_def asleep_def)
  ultimately show ?thesis by blast
qed

text \<open>Whole calls in a run: taking the mutex, and giving it back.\<close>

lemma lk_take:
  assumes "\<not> lsStopped st" "lsPc st t = Client" "R \<Longrightarrow> mtRecursive (lsMutex st) \<or> lsDepth st t = 0" "mt_TraceLock True t (lsMutex st) f l = Inr m"
  shows "(lk_step V W R)\<^sup>*\<^sup>* st (st\<lparr>lsMutex := m, lsDepth := (lsDepth st)(t := Suc (lsDepth st t))\<rparr>)"
proof -
  obtain p where p: "pthread_mutex_lock t (mtMutex (lsMutex st)) = Some (0, p)"
    "m = (lsMutex st)\<lparr>mtMutex := p, mtLockedBy := Some t, mtLockFile := Some f, mtLockLine := Some l\<rparr>"
    using assms(4) by (auto simp: mt_TraceLock_def Let_def split: option.splits if_splits)
  let ?s0 = "ls_at st t (Locking f l)"
  let ?s1 = "ls_at (ls_mutex ?s0 ((lsMutex st)\<lparr>mtMutex := p\<rparr>)) t (Locked f l 0)"
  let ?s2 = "ls_at (ls_mutex ?s1 ((lsMutex ?s1)\<lparr>mtLockedBy := Some t\<rparr>)) t (Noting f l 0)"
  let ?s3 = "st\<lparr>lsMutex := m, lsDepth := (lsDepth st)(t := Suc (lsDepth st t))\<rparr>"
  have "lk_step V W R st ?s0" using lk_step.call_lock assms(1-3) by blast
  moreover have "lk_next V t ?s0 = Some ?s1" using p(1) by (simp add: lk_next_def ls_at_def Let_def)
  then have "lk_step V W R ?s0 ?s1" using assms(1) by (intro lk_step.inside [of _ _ t]) (simp_all add: ls_at_def)
  moreover have "lk_next V t ?s1 = Some ?s2" by (simp add: lk_next_def ls_at_def Let_def)
  then have "lk_step V W R ?s1 ?s2" using assms(1) by (intro lk_step.inside [of _ _ t]) (simp_all add: ls_at_def ls_mutex_def)
  moreover have "lk_next V t ?s2 = Some ?s3"
    using p(2) assms(2) by (simp add: lk_next_def ls_at_def ls_mutex_def ls_deeper_def Let_def fun_upd_idem)
  then have "lk_step V W R ?s2 ?s3" using assms(1) by (intro lk_step.inside [of _ _ t]) (simp_all add: ls_at_def ls_mutex_def)
  ultimately show ?thesis by (meson rtranclp.rtrancl_into_rtrancl r_into_rtranclp)
qed

lemma lk_leave:
  assumes "\<not> lsStopped st" "lsPc st t = Client" "R \<Longrightarrow> 0 < lsDepth st t" "mt_TraceUnlock True t (lsMutex st) = Inr m"
  shows "(lk_step V W R)\<^sup>*\<^sup>* st (st\<lparr>lsMutex := m, lsDepth := (lsDepth st)(t := lsDepth st t - 1)\<rparr>)"
proof -
  obtain p where p: "pthread_mutex_unlock t (mtMutex (lsMutex st)) = (0, p)" "m = (lsMutex st)\<lparr>mtMutex := p, mtLockedBy := None\<rparr>"
    using assms(4) by (auto simp: mt_TraceUnlock_def Let_def split: prod.splits if_splits)
  let ?s0 = "(ls_at st t Unlocking)\<lparr>lsDepth := (lsDepth st)(t := lsDepth st t - 1)\<rparr>"
  let ?s1 = "ls_at (ls_mutex ?s0 ((lsMutex st)\<lparr>mtLockedBy := None\<rparr>)) t Releasing"
  let ?s2 = "st\<lparr>lsMutex := m, lsDepth := (lsDepth st)(t := lsDepth st t - 1)\<rparr>"
  have "lk_step V W R st ?s0" using lk_step.call_unlock assms(1-3) by blast
  moreover have "lk_next V t ?s0 = Some ?s1" by (simp add: lk_next_def ls_at_def Let_def)
  then have "lk_step V W R ?s0 ?s1" using assms(1) by (intro lk_step.inside [of _ _ t]) (simp_all add: ls_at_def)
  moreover have "lk_next V t ?s1 = Some ?s2"
    using p assms(2) by (simp add: lk_next_def ls_at_def ls_mutex_def Let_def fun_upd_idem)
  then have "lk_step V W R ?s1 ?s2" using assms(1) by (intro lk_step.inside [of _ _ t]) (simp_all add: ls_at_def ls_mutex_def)
  ultimately show ?thesis by (meson rtranclp.rtrancl_into_rtrancl r_into_rtranclp)
qed

text \<open>What \<open>TraceLock\<close> and \<open>TraceUnlock\<close> do to a mutex, by what the thread holds.\<close>

lemma mt_TraceLock_free:
  "pmOwner (mtMutex m) = None \<Longrightarrow> mt_TraceLock V t m f l =
     Inr (m\<lparr>mtMutex := (mtMutex m)\<lparr>pmOwner := Some t, pmCount := 1\<rparr>, mtLockedBy := Some t, mtLockFile := Some f, mtLockLine := Some l\<rparr>)"
  by (simp add: mt_TraceLock_def pthread_mutex_lock_def)

lemma mt_TraceLock_own:
  "pmOwner (mtMutex m) = Some t \<Longrightarrow> mt_TraceLock V t m f l =
     (if pmRecursive (mtMutex m)
      then Inr (m\<lparr>mtMutex := (mtMutex m)\<lparr>pmCount := Suc (pmCount (mtMutex m))\<rparr>, mtLockedBy := Some t, mtLockFile := Some f, mtLockLine := Some l\<rparr>)
      else if V then Inl Fatal
      else Inr (m\<lparr>mtLockedBy := Some t, mtLockFile := Some f, mtLockLine := Some l\<rparr>))"
  by (simp add: mt_TraceLock_def pthread_mutex_lock_def EDEADLK_def)

lemma mt_TraceUnlock_own:
  "pmOwner (mtMutex m) = Some t \<Longrightarrow> mt_TraceUnlock V t m =
     Inr (m\<lparr>mtLockedBy := None,
       mtMutex := if pmCount (mtMutex m) \<le> 1 then (mtMutex m)\<lparr>pmOwner := None, pmCount := 0\<rparr>
                  else (mtMutex m)\<lparr>pmCount := pmCount (mtMutex m) - 1\<rparr>\<rparr>)"
  by (simp add: mt_TraceUnlock_def pthread_mutex_unlock_def)

lemma mt_TraceUnlock_not_own: "pmOwner (mtMutex m) \<noteq> Some t \<Longrightarrow> mt_TraceUnlock V t m =
     (if V then Inl Fatal else Inr (m\<lparr>mtLockedBy := None\<rparr>))"
  by (simp add: mt_TraceUnlock_def pthread_mutex_unlock_def EPERM_def)

lemma mt_Mutex_new: "mt_Mutex name rec 0 0 = Inr \<lparr>mtMutex = \<lparr>pmRecursive = rec, pmOwner = None, pmCount = 0\<rparr>, mtLockedBy = None,
    mtName = name, mtRecursive = rec, mtLockFile = None, mtLockLine = None\<rparr>"
  by (simp add: mt_Mutex_def create_lock_def)

lemma mt_exclusion_witness:
  "\<exists>m st. mt_Mutex None False 0 0 = Inr m \<and> (lk_step True True True)\<^sup>*\<^sup>* (lock_start m \<lparr>ts_sec = 0, ts_nsec = 0\<rparr>) st \<and>
     mt_isLocked 1 (lsMutex st) \<and> 0 < lsDepth st 1"
proof -
  let ?now = "\<lparr>ts_sec = 0, ts_nsec = 0\<rparr>"
  obtain m where m: "mt_Mutex None False 0 0 = Inr m" "pmOwner (mtMutex m) = None" by (simp add: mt_Mutex_new)
  obtain m' where m': "mt_TraceLock True 1 m ''f'' 1 = Inr m'" "mtLockedBy m' = Some 1" using mt_TraceLock_free [OF m(2)] by simp
  let ?st = "(lock_start m ?now)\<lparr>lsMutex := m', lsDepth := (\<lambda>t. 0)(1 := 1)\<rparr>"
  have r: "(lk_step True True True)\<^sup>*\<^sup>* (lock_start m ?now) ?st"
    using lk_take [of "lock_start m ?now" 1 True "''f''" 1 m' True True] m'(1) by (simp add: lock_start_def)
  have "mt_isLocked 1 (lsMutex ?st)" using m'(2) by (simp add: mt_isLocked_def)
  moreover have "0 < lsDepth ?st 1" using mt_exclusion [OF m(1) r, of 1 1] calculation by (simp add: lock_start_def)
  ultimately show ?thesis using m(1) r by blast
qed

text \<open>
  C37: In both builds, threads that keep the rules of a mutex that is not recursive, and do not wait on a condition with it, are never stopped, and \<open>isLocked\<close> answers each of them exactly
  whether it has locked the mutex.
\<close>

theorem mt_isLocked_exact:
  assumes "mt_Mutex name False init destroy = Inr m" "(lk_step V False True)\<^sup>*\<^sup>* (lock_start m now) st" "lsPc st t = Client"
  shows "\<not> lsStopped st \<and> (mt_isLocked t (lsMutex st) \<longleftrightarrow> 0 < lsDepth st t)"
proof -
  note i = lk_invD [OF lk_reachable_inv [OF assms(2,1) disjI2 [OF TrueI]]]
  have "lk_hold st t = lsDepth st t" using i(5) [of t] assms(3) by (simp add: thread_ok_def)
  then show ?thesis
    using i(4) i(6,7) [of t] assms(3) by (auto simp: mt_isLocked_def noted_def asleep_def)
qed

lemma mt_isLocked_exact_witness:
  "\<exists>m st. mt_Mutex None False 0 0 = Inr m \<and> (lk_step False False True)\<^sup>*\<^sup>* (lock_start m \<lparr>ts_sec = 0, ts_nsec = 0\<rparr>) st \<and>
     mt_isLocked 1 (lsMutex st) \<and> \<not> mt_isLocked 2 (lsMutex st)"
proof -
  let ?now = "\<lparr>ts_sec = 0, ts_nsec = 0\<rparr>"
  obtain m where m: "mt_Mutex None False 0 0 = Inr m" "pmOwner (mtMutex m) = None" by (simp add: mt_Mutex_new)
  obtain m' where m': "mt_TraceLock True 1 m ''f'' 1 = Inr m'" using mt_TraceLock_free [OF m(2)] by simp
  let ?st = "(lock_start m ?now)\<lparr>lsMutex := m', lsDepth := (\<lambda>t. 0)(1 := 1)\<rparr>"
  have r: "(lk_step False False True)\<^sup>*\<^sup>* (lock_start m ?now) ?st"
    using lk_take [of "lock_start m ?now" 1 True "''f''" 1 m' False False] m' by (simp add: lock_start_def)
  show ?thesis
    using m(1) r mt_isLocked_exact [OF m(1) r, of 1] mt_isLocked_exact [OF m(1) r, of 2] by (intro exI [of _ m] exI [of _ ?st]) (simp add: lock_start_def)
qed

lemma isLocked_forgets_inner:
  "\<exists>m st. mt_Mutex name True 0 0 = Inr m \<and> (lk_step V False True)\<^sup>*\<^sup>* (lock_start m now) st \<and>
      \<not> lsStopped st \<and> lsPc st 1 = Client \<and> 0 < lsDepth st 1 \<and> \<not> mt_isLocked 1 (lsMutex st)"
proof -
  let ?f = "''f''"
  let ?m = "\<lambda>r p l. \<lparr>mtMutex = p, mtLockedBy = l, mtName = name, mtRecursive = r, mtLockFile = Some ?f, mtLockLine = Some 1\<rparr>"
  let ?p = "\<lambda>n. \<lparr>pmRecursive = True, pmOwner = Some 1, pmCount = n\<rparr>"
  let ?n = "\<lparr>mtMutex = \<lparr>pmRecursive = True, pmOwner = None, pmCount = 0\<rparr>, mtLockedBy = None, mtName = name, mtRecursive = True, mtLockFile = None, mtLockLine = None\<rparr>"
  let ?s0 = "lock_start ?n now"
  let ?s1 = "?s0\<lparr>lsMutex := ?m True (?p 1) (Some 1), lsDepth := (\<lambda>t. 0)(1 := 1)\<rparr>"
  let ?s2 = "?s0\<lparr>lsMutex := ?m True (?p 2) (Some 1), lsDepth := (\<lambda>t. 0)(1 := 2)\<rparr>"
  let ?s3 = "?s0\<lparr>lsMutex := ?m True (?p 1) None, lsDepth := (\<lambda>t. 0)(1 := 1)\<rparr>"
  have "(lk_step V False True)\<^sup>*\<^sup>* ?s0 ?s1"
    using lk_take [of ?s0 1 True ?f 1 "?m True (?p 1) (Some 1)" V False] by (simp add: lock_start_def mt_TraceLock_free)
  moreover have "(lk_step V False True)\<^sup>*\<^sup>* ?s1 ?s2"
    using lk_take [of ?s1 1 True ?f 1 "?m True (?p 2) (Some 1)" V False]
    by (simp add: lock_start_def mt_TraceLock_own numeral_2_eq_2)
  moreover have "(lk_step V False True)\<^sup>*\<^sup>* ?s2 ?s3"
    using lk_leave [of ?s2 1 True "?m True (?p 1) None" V False] by (simp add: lock_start_def mt_TraceUnlock_own)
  ultimately have "(lk_step V False True)\<^sup>*\<^sup>* ?s0 ?s3" by (meson rtranclp_trans)
  then show ?thesis
    by (intro exI [of _ ?n], intro exI [of _ ?s3]) (simp add: mt_Mutex_new lock_start_def mt_isLocked_def)
qed

lemma isLocked_forgets_wait:
  "\<exists>m st. mt_Mutex name False 0 0 = Inr m \<and> (lk_step V True True)\<^sup>*\<^sup>* (lock_start m now) st \<and>
      \<not> lsStopped st \<and> lsPc st 1 = Client \<and> 0 < lsDepth st 1 \<and> \<not> mt_isLocked 1 (lsMutex st)"
proof -
  let ?f = "''f''"
  let ?m = "\<lambda>h l. \<lparr>mtMutex = \<lparr>pmRecursive = False, pmOwner = h, pmCount = if h = None then 0 else 1\<rparr>, mtLockedBy = l, mtName = name,
    mtRecursive = False, mtLockFile = Some ?f, mtLockLine = Some 1\<rparr>"
  let ?n = "\<lparr>mtMutex = \<lparr>pmRecursive = False, pmOwner = None, pmCount = 0\<rparr>, mtLockedBy = None, mtName = name, mtRecursive = False, mtLockFile = None, mtLockLine = None\<rparr>"
  let ?s0 = "lock_start ?n now"
  let ?s1 = "?s0\<lparr>lsMutex := ?m (Some 1) (Some 1), lsDepth := (\<lambda>t. 0)(1 := 1)\<rparr>"
  let ?s2 = "cv_Wait 1 ?s1"
  let ?s3 = "?s2\<lparr>lsMutex := ?m (Some 2) (Some 2), lsDepth := (\<lambda>t. 0)(1 := 1, 2 := 1)\<rparr>"
  let ?s4 = "?s2\<lparr>lsMutex := ?m None None, lsDepth := (\<lambda>t. 0)(1 := 1, 2 := 0)\<rparr>"
  let ?s5 = "cv_Broadcast ?s4"
  let ?s6 = "?s4\<lparr>lsMutex := ?m (Some 1) None, lsPc := \<lambda>t. Client\<rparr>"
  have "(lk_step V True True)\<^sup>*\<^sup>* ?s0 ?s1"
    using lk_take [of ?s0 1 True ?f 1 "?m (Some 1) (Some 1)" V True] by (simp add: lock_start_def mt_TraceLock_free)
  moreover have "lk_step V True True ?s1 ?s2" by (rule lk_step.wait) (simp_all add: lock_start_def)
  moreover have w: "?s2 = ?s1\<lparr>lsMutex := ?m None (Some 1), lsPc := (\<lambda>t. Client)(1 := Waiting None)\<rparr>"
    by (simp add: cv_Wait_def cv_wait_def ls_at_def ls_mutex_def lock_start_def pthread_mutex_unlock_def)
  have "(lk_step V True True)\<^sup>*\<^sup>* ?s2 ?s3"
    using lk_take [of ?s2 2 True ?f 1 "?m (Some 2) (Some 2)" V True] unfolding w by (simp add: lock_start_def mt_TraceLock_free)
  moreover have "(lk_step V True True)\<^sup>*\<^sup>* ?s3 ?s4"
    using lk_leave [of ?s3 2 True "?m None None" V True] unfolding w by (simp add: lock_start_def mt_TraceUnlock_own fun_upd_twist)
  moreover have "lk_step V True True ?s4 ?s5" unfolding w by (rule lk_step.broadcast [of _ 2]) (simp_all add: lock_start_def)
  moreover have "cv_return 1 ?s5 = Some ?s6"
    unfolding w by (simp add: cv_return_def cv_Broadcast_def woken_def lock_start_def pthread_mutex_lock_def ls_at_def ls_mutex_def fun_eq_iff)
  then have "lk_step V True True ?s5 ?s6" unfolding w by (intro lk_step.resume [of _ 1]) (simp_all add: cv_Broadcast_def lock_start_def)
  ultimately have "(lk_step V True True)\<^sup>*\<^sup>* ?s0 ?s6" by (meson rtranclp_trans rtranclp.rtrancl_into_rtrancl)
  then show ?thesis
    unfolding w by (intro exI [of _ ?n], intro exI [of _ "?s1\<lparr>lsMutex := ?m (Some 1) None, lsDepth := (\<lambda>t. 0)(1 := 1, 2 := 0), lsPc := \<lambda>t. Client\<rparr>"])
      (simp add: mt_Mutex_new lock_start_def mt_isLocked_def)
qed

text \<open>
  \<open>isLocked\<close> may deny to a thread that keeps the rules that it has locked the mutex: a recursive mutex that it has locked twice and unlocked once,
  and one with which it has waited on a condition while another thread locked and unlocked it.
\<close>

theorem mt_isLocked_forgets:
  "(\<exists>m st. mt_Mutex name True 0 0 = Inr m \<and> (lk_step V False True)\<^sup>*\<^sup>* (lock_start m now) st \<and>
      \<not> lsStopped st \<and> lsPc st 1 = Client \<and> 0 < lsDepth st 1 \<and> \<not> mt_isLocked 1 (lsMutex st)) \<and>
   (\<exists>m st. mt_Mutex name False 0 0 = Inr m \<and> (lk_step V True True)\<^sup>*\<^sup>* (lock_start m now) st \<and>
      \<not> lsStopped st \<and> lsPc st 1 = Client \<and> 0 < lsDepth st 1 \<and> \<not> mt_isLocked 1 (lsMutex st))"
  by (intro conjI isLocked_forgets_inner isLocked_forgets_wait)

text \<open>
  C38: Threads that all keep the rules are never stuck but for each other, in both builds: one that is in a call of the mutex, or was woken in \<open>Wait\<close>, can take its next
  step, or another thread holds the mutex, which is in its own code or can take a step itself; only with a recursive mutex can it also be one that waits on the condition, having
  locked the mutex more than once (then all are stuck until it is woken).
\<close>

theorem lk_progress:
  assumes "mt_Mutex name rec init destroy = Inr m" "(lk_step V W True)\<^sup>*\<^sup>* (lock_start m now) st" "lsPc st t \<noteq> Client" "\<not> waits (lsPc st t)"
  shows "\<not> lsStopped st \<and>
    ((\<exists>st'. lk_next V t st = Some st' \<or> cv_return t st = Some st') \<or>
     (\<exists>u. u \<noteq> t \<and> 0 < lk_hold st u \<and>
        (lsPc st u = Client \<or> rec \<and> waits (lsPc st u) \<and> 1 < lsDepth st u \<or> (\<exists>st'. lk_next V u st = Some st' \<or> cv_return u st = Some st'))))"
proof -
  note i = lk_invD [OF lk_reachable_inv [OF assms(2,1) disjI2 [OF TrueI]]]
  have moves: "lsPc st v = Client \<or> waits (lsPc st v) \<or> (\<exists>st'. lk_next V v st = Some st' \<or> cv_return v st = Some st')"
    if "pmOwner (mtMutex (lsMutex st)) \<in> {None, Some v}" for v
  proof -
    have "pthread_mutex_lock v (mtMutex (lsMutex st)) \<noteq> None" using that by (auto simp: pthread_mutex_lock_waits)
    then show ?thesis
      by (cases "lsPc st v") (auto simp: lk_next_def cv_return_def waits_def Let_def split: prod.splits)
  qed
  show ?thesis
  proof (cases "pmOwner (mtMutex (lsMutex st)) \<in> {None, Some t}")
    case True
    then show ?thesis using moves [OF True] assms(3,4) i(4) by blast
  next
    case False
    then obtain u where u: "pmOwner (mtMutex (lsMutex st)) = Some u" "u \<noteq> t" by auto
    then have h: "0 < lk_hold st u" using i(1) by (auto simp: lk_hold_def pm_hold_def pm_ok_def)
    have "rec \<and> 1 < lsDepth st u" if "waits (lsPc st u)"
      using i(5) [of u] that h by (auto simp: thread_ok_def waits_def split: pc.splits)
    then show ?thesis using moves [of u] u i(4) h by blast
  qed
qed

lemma lk_progress_witness:
  "\<exists>m st st'. mt_Mutex None False 0 0 = Inr m \<and> (lk_step True True True)\<^sup>*\<^sup>* (lock_start m \<lparr>ts_sec = 0, ts_nsec = 0\<rparr>) st \<and>
     lsPc st 1 = Locking ''f'' 1 \<and> lk_next True 1 st = Some st'"
proof -
  let ?now = "\<lparr>ts_sec = 0, ts_nsec = 0\<rparr>"
  obtain m where m: "mt_Mutex None False 0 0 = Inr m" "pmOwner (mtMutex m) = None" by (simp add: mt_Mutex_new)
  let ?st = "ls_at (lock_start m ?now) 1 (Locking ''f'' 1)"
  have r: "(lk_step True True True)\<^sup>*\<^sup>* (lock_start m ?now) ?st"
    by (rule r_into_rtranclp, rule lk_step.call_lock) (simp_all add: lock_start_def)
  have "(\<exists>st'. lk_next True 1 ?st = Some st' \<or> cv_return 1 ?st = Some st') \<or> (\<exists>u. 0 < lk_hold ?st u)"
    using lk_progress [OF m(1) r, of 1] by (auto simp: ls_at_def waits_def)
  then have "\<exists>st'. lk_next True 1 ?st = Some st'"
    using m(2) by (auto simp: lk_hold_def pm_hold_def cv_return_def ls_at_def lock_start_def)
  then show ?thesis using m(1) r by (auto simp: ls_at_def)
qed

section \<open>Locks of a scope\<close>

fun held_after :: "bool \<Rightarrow> scope_op list \<Rightarrow> bool option" where
  "held_after h [] = Some h"
| "held_after h (ScopeLock # ops) = (if h then None else held_after True ops)"
| "held_after h (ScopeUnlock # ops) = (if h then held_after False ops else None)"

definition held_by :: "bool \<Rightarrow> nat \<Rightarrow> mutex \<Rightarrow> bool" where
  "held_by h t m \<longleftrightarrow> \<not> pmRecursive (mtMutex m) \<and>
     (if h then pmOwner (mtMutex m) = Some t \<and> pmCount (mtMutex m) = 1 else pmOwner (mtMutex m) = None \<and> pmCount (mtMutex m) = 0)"

lemma held_by_lock: "held_by False t m \<Longrightarrow> \<exists>m'. mt_TraceLock V t m f l = Inr m' \<and> held_by True t m'"
  "held_by True t m \<Longrightarrow> mt_TraceLock True t m f l = Inl Fatal"
  "held_by h t m \<Longrightarrow> \<exists>m'. mt_TraceLock False t m f l = Inr m' \<and> held_by True t m'"
  by (simp_all add: held_by_def mt_TraceLock_free mt_TraceLock_own split: if_splits)

lemma held_by_unlock: "held_by True t m \<Longrightarrow> \<exists>m'. mt_TraceUnlock V t m = Inr m' \<and> held_by False t m' \<and> mtLockedBy m' = None"
  "held_by False t m \<Longrightarrow> mt_TraceUnlock True t m = Inl Fatal"
  "held_by h t m \<Longrightarrow> \<exists>m'. mt_TraceUnlock False t m = Inr m' \<and> held_by False t m' \<and> mtLockedBy m' = None"
  by (simp_all add: held_by_def mt_TraceUnlock_own mt_TraceUnlock_not_own split: if_splits)

lemma scope_ops_held:
  "held_by h t m \<Longrightarrow>
     (case held_after h ops of None \<Rightarrow> fold_outcome (sc_op True t) m ops = Inl Fatal
      | Some h' \<Rightarrow> \<exists>m'. fold_outcome (sc_op True t) m ops = Inr m' \<and> held_by h' t m')"
proof (induction h ops arbitrary: m rule: held_after.induct)
  case (2 h ops)
  then show ?case using held_by_lock(2) [of t m "''unknown''" 0] held_by_lock(1) [of t m True "''unknown''" 0]
    by (cases h) (auto simp: mt_Lock_def split: option.splits)
next
  case (3 h ops)
  then show ?case using held_by_unlock(2) [of t m] held_by_unlock(1) [of t m True] by (cases h) (auto simp: mt_Unlock_def split: option.splits)
qed simp

text \<open>A release build goes through all of them.\<close>

lemma scope_ops_release:
  "held_by h t m \<Longrightarrow> \<exists>h' m'. fold_outcome (sc_op False t) m ops = Inr m' \<and> held_by h' t m'"
proof (induction ops arbitrary: h m)
  case (Cons op ops)
  obtain h1 m1 where "sc_op False t m op = Inr m1" "held_by h1 t m1"
    using held_by_lock(3) [OF Cons.prems] held_by_unlock(3) [OF Cons.prems] by (cases op) (fastforce simp: mt_Lock_def mt_Unlock_def)+
  then show ?case using Cons.IH by simp
qed auto

lemma held_after_alternates: "held_after True ops = Some True \<longleftrightarrow> (\<exists>n. ops = concat (replicate n [ScopeUnlock, ScopeLock]))"
proof
  assume "held_after True ops = Some True"
  then show "\<exists>n. ops = concat (replicate n [ScopeUnlock, ScopeLock])"
  proof (induction ops rule: induct_list012)
    case 1
    show ?case by (rule exI [of _ 0]) simp
  next
    case (2 x)
    then show ?case by (cases x) auto
  next
    case (3 x y zs)
    then have "x = ScopeUnlock" "y = ScopeLock" "held_after True zs = Some True" by (cases x; cases y; simp)+
    moreover from this obtain n where "zs = concat (replicate n [ScopeUnlock, ScopeLock])" using 3 by blast
    ultimately show ?case by (intro exI [of _ "Suc n"]) simp
  qed
next
  assume "\<exists>n. ops = concat (replicate n [ScopeUnlock, ScopeLock])"
  then obtain n where "ops = concat (replicate n [ScopeUnlock, ScopeLock])" ..
  then show "held_after True ops = Some True" by (induction n arbitrary: ops) simp_all
qed

text \<open>
  C39: A scope with an \<open>AutoLock\<close> of a free mutex that is not recursive. In a verbose build it is left, with the mutex free, exactly when in it \<open>Unlock\<close> and \<open>Lock\<close> are called in turn,
  \<open>Unlock\<close> first and \<open>Lock\<close> last, or not at all; otherwise the program is stopped, also when the scope ends while the lock is given back by \<open>Unlock\<close>. In a release build the scope is
  always left, with the mutex free.
\<close>

theorem sc_scope_returns:
  assumes "\<not> pmRecursive (mtMutex m)" "pmOwner (mtMutex m) = None" "pmCount (mtMutex m) = 0"
  shows "if \<not> V \<or> (\<exists>n. ops = concat (replicate n [ScopeUnlock, ScopeLock]))
    then \<exists>m'. sc_scope V t m file line ops = Inr m' \<and> pmOwner (mtMutex m') = None \<and> (\<forall>u. \<not> mt_isLocked u m')
    else sc_scope V t m file line ops = Inl Fatal"
proof -
  have free: "held_by False t m" using assms by (simp add: held_by_def)
  obtain m1 where m1: "mt_TraceLock V t m file line = Inr m1" "held_by True t m1" using held_by_lock(1) [OF free] by blast
  show ?thesis
  proof (cases V)
    case False
    obtain h m2 where m2: "fold_outcome (sc_op V t) m1 ops = Inr m2" "held_by h t m2" using scope_ops_release [OF m1(2), of ops] False by auto
    have e: "sc_scope V t m file line ops = mt_TraceUnlock V t m2" using m1(1) m2(1) by (simp add: sc_scope_def sc_AutoLock_def sc_destroy_def)
    show ?thesis using held_by_unlock(3) [OF m2(2)] False unfolding e by (auto simp: held_by_def mt_isLocked_def)
  next
    case v: True
    show ?thesis
    proof (cases "held_after True ops")
      case None
      then have "sc_scope V t m file line ops = Inl Fatal" using scope_ops_held [OF m1(2), of ops] m1(1) v by (simp add: sc_scope_def sc_AutoLock_def)
      then show ?thesis using None v by (simp flip: held_after_alternates)
    next
      case (Some h)
      then obtain m2 where m2: "fold_outcome (sc_op V t) m1 ops = Inr m2" "held_by h t m2" using scope_ops_held [OF m1(2), of ops] v by auto
      have e: "sc_scope V t m file line ops = mt_TraceUnlock V t m2" using m1(1) m2(1) by (simp add: sc_scope_def sc_AutoLock_def sc_destroy_def)
      show ?thesis using held_by_unlock(1) [of t m2 V] held_by_unlock(2) [of t m2] m2(2) Some v unfolding e held_after_alternates [symmetric]
        by (cases h) (auto simp: held_by_def mt_isLocked_def)
    qed
  qed
qed

lemma sc_scope_returns_witness:
  "\<exists>m m'. mt_Mutex None False 0 0 = Inr m \<and> sc_scope True 1 m ''f'' 1 [ScopeUnlock, ScopeLock] = Inr m' \<and> sc_scope True 1 m ''f'' 1 [ScopeUnlock] = Inl Fatal \<and>
    (\<exists>m''. sc_scope False 1 m ''f'' 1 [ScopeUnlock] = Inr m'')"
proof -
  obtain m where m: "mt_Mutex None False 0 0 = Inr m" "\<not> pmRecursive (mtMutex m)" "pmOwner (mtMutex m) = None" "pmCount (mtMutex m) = 0"
    by (simp add: mt_Mutex_new)
  have "\<exists>n. [ScopeUnlock, ScopeLock] = concat (replicate n [ScopeUnlock, ScopeLock])" by (rule exI [of _ 1]) simp
  moreover have "\<nexists>n. [ScopeUnlock] = concat (replicate n [ScopeUnlock, ScopeLock])" by (simp flip: held_after_alternates)
  ultimately show ?thesis
    using sc_scope_returns [OF m(2-4), of True "[ScopeUnlock, ScopeLock]" 1 "''f''" 1] sc_scope_returns [OF m(2-4), of True "[ScopeUnlock]" 1 "''f''" 1]
      sc_scope_returns [OF m(2-4), of False "[ScopeUnlock]" 1 "''f''" 1] m(1)
    by auto
qed

section \<open>Waiting for a time\<close>

text \<open>
  \<open>Wait\<close> with less than \<open>2 ^ 31\<close> milliseconds ends by its time not before they are over; with more, the \<open>int\<close> that \<open>addOffset\<close> gets is negative, and
  the time is over at once; 0 is no limit.
\<close>

lemma cv_deadline_time:
  assumes "ts_normal now"
  shows "uint ms < 2 ^ 31 \<Longrightarrow> 0 < ms \<Longrightarrow> \<exists>d. cv_deadline now ms = Some d \<and> ts_normal d \<and> ts_nanos d = ts_nanos now + uint ms * 1000000"
    "2 ^ 31 \<le> uint ms \<Longrightarrow> \<exists>d. cv_deadline now ms = Some d \<and> ts_nanos d < ts_nanos now"
    "cv_deadline now 0 = None"
proof -
  note e = addOffset_ns_nanos [OF assms]
  have small: "sint ms = uint ms" if "uint ms < 2 ^ 31"
    using that signed_take_bit_int_eq_self [of 31 "uint ms"] uint_ge_0 [of ms] by (simp add: sint_uint)
  have large: "sint ms < 0" "ms \<noteq> 0" if "2 ^ 31 \<le> uint ms"
  proof -
    have "uint ms div 2 ^ 31 = 1" using that uint_bounded [of ms] by (simp add: div_pos_geq)
    then have "bit (uint ms) 31" by (simp add: bit_iff_odd)
    then show "sint ms < 0" by (simp add: sint_uint signed_take_bit_negative_iff)
    show "ms \<noteq> 0" using that by auto
  qed
  show "cv_deadline now 0 = None" by (simp add: cv_deadline_def)
  show "\<exists>d. cv_deadline now ms = Some d \<and> ts_normal d \<and> ts_nanos d = ts_nanos now + uint ms * 1000000" if "uint ms < 2 ^ 31" "0 < ms"
    using e small [OF that(1)] that(2) by (simp add: cv_deadline_def)
  show "\<exists>d. cv_deadline now ms = Some d \<and> ts_nanos d < ts_nanos now" if "2 ^ 31 \<le> uint ms"
    using e large [OF that] by (simp add: cv_deadline_def word_gt_0)
qed

end
