(* ===== verification/Spec2Isabelle.thy ===== *)
theory Spec2Isabelle
  imports JH_Prelude CircularBuffer JHList EventQueue Timer EventDispatcher Selector JHVector Regex RegexTree RegexPrepare RegexProps JHStrings URI Allocator HttpHeader HttpMessage JetHead HttpAgent Path BasicString ListenerContainer LogPrint LogRegistry TimeUtils Components IntrusiveList GCHeap Socket Locks
begin

text \<open>
  A verification library of jhcommon, a C++ library of containers, event loops, timers and network
  clients. Each theory models the source files that its opening text names, operation by operation,
  in the order of the code.

  \<^bold>\<open>The program and how its parts interact.\<close> The containers are a byte ring, a linked list, a growing array and
  an allocator. Events are objects with a reference count. An \<open>EventQueue\<close> is a linked list of events in the
  order of their priorities; an \<open>EventDispatcher\<close> owns a queue and a list of listeners and calls the listeners of
  each event that it takes; an \<open>EventThread\<close> runs a dispatcher, and a \<open>Selector\<close> is a dispatcher whose thread sleeps in
  \<open>poll\<close> and also calls the listeners of files. A \<open>Timer\<close> keeps a list of nodes that send events when their time
  has come, and the \<open>TimerManager\<close> registers the timers. On top of strings are regular expressions, URIs and
  paths. The client of HTTP reads the bytes that the selector announces into a byte ring, takes lines from the
  ring, and reads the header of the response from the lines.

  \<^bold>\<open>Theories and sources.\<close>
  \<^item> \<open>JH_Prelude\<close>: what a call can do instead of returning (\<open>fault\<close>, \<open>outcome\<close>, \<open>andThen\<close>), machine integers, bytes.
  \<^item> \<open>CircularBuffer\<close>: src/CircularBuffer.cpp, the waiting of src/Condition.cpp with a limit, and include/CircularBuffer.h. The buffer is a list of bytes, pointers are offsets,
    and the bytes of the ring are a list (\<open>cb_run_refines\<close>).
  \<^item> \<open>JHList\<close>: include/jh_list.h on a heap of nodes. The locale \<open>sequence\<close> states what an iterator promises, and its
    loops (erase while walking, insert before the first that, find) are proved there once; the list interprets it.
  \<^item> \<open>JHVector\<close>: include/jh_vector.h, a buffer of cells of which only the first ones are constructed.
  \<^item> \<open>Allocator\<close>: src/Allocator.cpp, headers of blocks in a buffer, refining a partition into free and used blocks.
  \<^item> \<open>EventQueue\<close>: include/Event.h, include/RefCount.h, src/EventQueue.cpp. \<open>balanced\<close> is the accounting of references.
  \<^item> \<open>Timer\<close>: src/Timer.cpp, include/Timer.h, src/TimerManager.cpp, include/TimerManager.h. Ticks are 32-bit words that wrap.
  \<^item> \<open>EventDispatcher\<close>: src/EventDispatcher.cpp, src/EventThread.cpp, include/EventAgent.h (sending and waiting).
  \<^item> \<open>Selector\<close>: src/Selector.cpp, with the wake-up pipe, the table that is given to \<open>poll\<close> and the file listeners.
  \<^item> \<open>Regex\<close>, \<open>RegexTree\<close>, \<open>RegexPrepare\<close>, \<open>RegexProps\<close>: src/Regex.cpp; \<open>RegexTree\<close> has the expressions as a datatype, a matcher by
    recursion, and that the walk over the pointers is this matcher; \<open>RegexPrepare\<close> that \<open>prepare\<close> builds the tree of a text.
  \<^item> \<open>JHStrings\<close>: what the code uses of \<open>std::string\<close> and of \<open>strtol\<close>.
  \<^item> \<open>URI\<close>: src/URI.cpp. \<open>Path\<close>: src/Path.cpp and \<open>split\<close> of include/jh_string.h.
  \<^item> \<open>JetHead\<close>: the error codes of src/JetHead.cpp. \<open>HttpHeader\<close>: src/HttpHeaderBase.cpp, include/FieldMap.h, src/HttpHeader.cpp.
    \<open>HttpMessage\<close>: src/HttpRequest.cpp and src/HttpResponse.cpp. \<open>HttpAgent\<close>: src/HttpAgent.cpp.
  \<^item> \<open>BasicString\<close>: the class of strings of include/jh_string.h on a heap of representations that are shared and counted.
  \<^item> \<open>ListenerContainer\<close>: include/ListenerContainer.h, with two more loops of the locale \<open>sequence\<close>, whose bodies change a state.
  \<^item> \<open>LogPrint\<close>: the printing of src/logging.cpp: buffers, names of functions, lines of the log, dumps of memory. \<open>LogRegistry\<close>: its
    registry of files, names, levels and categories, refining the levels as a function of the name of a file.
  \<^item> \<open>TimeUtils\<close>: include/TimeUtils.h, seconds and microseconds that are normalised.
  \<^item> \<open>Components\<close>: include/JHCOM.h, src/ComponentManager.cpp and the factory of include/ComponentManagerUtils.h: pointers that
    count their objects, and the manager that owns the services.
  \<^item> \<open>IntrusiveList\<close>: include/List++.h, lists whose nodes are the objects of the client, on the heap of \<open>JHList\<close>. \<open>GCHeap\<close>:
    src/jh_memory.cpp and include/jh_memory.h, the heap that accounts for what \<open>new\<close> and \<open>delete\<close> do, on such a list.
  \<^item> \<open>Socket\<close>: src/Socket.cpp and include/Socket.h, the states of a socket and its registration in the tables of \<open>Selector\<close>,
    which forgets a listener before it tells it of a hang-up (\<open>ss_report\<close>). What
    the calls that only pass on to the system send and receive (\<open>write\<close>, \<open>sendto\<close>, \<open>recvmsg\<close>, the addresses of interfaces) is not modelled.
  \<^item> \<open>Locks\<close>: src/Mutex.cpp, include/Mutex.h and src/Condition.cpp, with threads that take turns between any two accesses to memory. The other
    models take a call that holds a lock as one step, which \<open>mt_exclusion\<close> justifies.

  \<^bold>\<open>How the models correspond to the code.\<close> A class is a \<open>record\<close> of its members with the names of the code, and a
  method is a function from the state to an \<open>outcome\<close>: a result with the new state, or a fault. The faults are the
  program's own stop (\<open>Fatal\<close>: \<open>abort\<close>, \<open>exit\<close>, a failed assertion, and \<open>LOG_ERR_FATAL\<close>, which stops the program in a
  verbose build, while a release build logs and goes on; \<open>Locks\<close> models both builds), undefined behaviour of the language (\<open>UndefinedBehaviour\<close>) and a call that has not
  returned when the fuel is used up (\<open>NoReturn\<close>). Pointers are addresses on a heap that maps addresses to objects
  where aliasing matters. A call that holds a lock is one step; the threads of timers, dispatchers and selectors
  take turns between such steps. Where a call gives its lock back between two parts, other threads come in between:
  the steps of \<open>Selector\<close> (\<open>sl_step\<close>) let them send events and write the bytes that wake the thread in any order
  before, between and after those of the thread itself. The system (clocks, \<open>poll\<close>, sockets, files, allocation of memory) is an
  argument: a function, a record of functions, or the list of the answers that it will give.

  \<^bold>\<open>Fuel.\<close> Each loop that is not structural takes a number of rounds. Where the code returns, the theorem says so for
  each number above a bound that is stated (the length of the list, of the string or of the buffer); where it does not,
  the theorem says that no number is enough.

  \<^bold>\<open>What the lemmas show.\<close> For each component there is an invariant with the preservation by each operation, a
  refinement of runs of operations to an abstract value (a list, a map, a partition, a tree), what the operations
  do on errors, and the ends of loops. The properties whose text begins with a claim number are the main results.
  Where the code does not do what it means to, the theorem states what it does.

  \<^bold>\<open>Not modelled.\<close> Files and threads are wrappers around calls of the system: their part is
  taken by the arguments named above. The templates of include/EventAgentT.h repeat the two of include/EventAgent.h for each number
  of parameters. The compiler of interfaces (jhidl) walks the tree of a library that is not part of the
  repository and prints text. What remains (code timers, command line options) is listed with its reason in
  the manifest of the development. The limits of a model stand in the text at the head of its theory: callbacks that call
  the timer back, pushes of an element of the vector itself, two lists that share nodes, the alignment of headers.
\<close>

end
